(* ===== verification/NachOS_Prelude.thy ===== *)
theory NachOS_Prelude
  imports Main "HOL-Library.Word" "HOL-Library.Signed_Division"
begin

unbundle bit_operations_syntax

text \<open>
  What every component of the development shares: the ways in which a C++ routine of NachOS can
  fail to return, a result type for them, checked array accesses, the \<open>for\<close> loop of the sources
  as a fold with failures, the macros of \<^verbatim>\<open>code/lib/utility.h\<close>, and the facts on lists, integers
  and words that the component proofs use.
\<close>

section \<open>Failures as values\<close>

text \<open>
  \<open>Assert_failed\<close> is \<^verbatim>\<open>ASSERT\<close>/\<^verbatim>\<open>ASSERTNOTREACHED\<close> of \<^verbatim>\<open>code/lib/debug.h\<close>, which call \<open>Abort\<close>.
  \<open>Null_deref\<close>, \<open>Out_of_bounds\<close> and \<open>Host_trap\<close> stand for what C++ leaves undefined: a
  dereference of \<open>NULL\<close> or of freed memory, an access outside an array, an arithmetic trap of the
  host.  \<open>Diverges\<close> is a loop that does not end.  \<open>Halted\<close> is \<open>Interrupt::Halt\<close>, which deletes
  the kernel and never returns.
\<close>

datatype failure =
    Assert_failed
  | Null_deref
  | Out_of_bounds
  | Host_trap
  | Diverges
  | Halted

type_synonym 'a res = "failure + 'a"

definition bindE :: "'a res \<Rightarrow> ('a \<Rightarrow> 'b res) \<Rightarrow> 'b res" where
  "bindE m f = (case m of Inl e \<Rightarrow> Inl e | Inr x \<Rightarrow> f x)"

definition assertE :: "bool \<Rightarrow> unit res" where
  "assertE c = (if c then Inr () else Inl Assert_failed)"

definition derefE :: "'a option \<Rightarrow> 'a res" where
  "derefE p = (case p of None \<Rightarrow> Inl Null_deref | Some x \<Rightarrow> Inr x)"

text \<open>Array accesses by a C \<open>int\<close> index.\<close>

definition readA :: "'a list \<Rightarrow> int \<Rightarrow> 'a res" where
  "readA xs i = (if 0 \<le> i \<and> i < int (length xs) then Inr (xs ! nat i) else Inl Out_of_bounds)"

definition writeA :: "'a list \<Rightarrow> int \<Rightarrow> 'a \<Rightarrow> 'a list res" where
  "writeA xs i v = (if 0 \<le> i \<and> i < int (length xs) then Inr (xs[nat i := v]) else Inl Out_of_bounds)"

text \<open>A \<open>for\<close> loop without early exit, over the list of the values of its index.\<close>

fun foldE :: "('i \<Rightarrow> 's \<Rightarrow> 's res) \<Rightarrow> 'i list \<Rightarrow> 's \<Rightarrow> 's res" where
  "foldE f [] s = Inr s"
| "foldE f (i # is) s = bindE (f i s) (foldE f is)"

subsection \<open>The macros of utility.h\<close>

definition divRoundDown :: "int \<Rightarrow> int \<Rightarrow> int" where
  "divRoundDown n s = n sdiv s"

definition divRoundUp :: "int \<Rightarrow> int \<Rightarrow> int" where
  "divRoundUp n s = n sdiv s + (if n smod s > 0 then 1 else 0)"

section \<open>Shared facts\<close>

named_theorems resE \<open>simplification of computations with failures\<close>

lemma bindE_Inr [simp]: "bindE (Inr x) f = f x"
  by (simp add: bindE_def)

lemma bindE_Inl [simp]: "bindE (Inl e) f = Inl e"
  by (simp add: bindE_def)

lemma bindE_assoc: "bindE (bindE m f) g = bindE m (\<lambda>x. bindE (f x) g)"
  by (cases m) simp_all

lemma bindE_cong [fundef_cong]:
  "m = m' \<Longrightarrow> (\<And>x. m' = Inr x \<Longrightarrow> f x = g x) \<Longrightarrow> bindE m f = bindE m' g"
  by (cases m') simp_all

lemma bindE_eq_Inr: "bindE m f = Inr y \<longleftrightarrow> (\<exists>x. m = Inr x \<and> f x = Inr y)"
  by (cases m) auto

lemma assertE_True [simp]: "c \<Longrightarrow> assertE c = Inr ()"
  by (simp add: assertE_def)

lemma assertE_False [simp]: "\<not> c \<Longrightarrow> assertE c = Inl Assert_failed"
  by (simp add: assertE_def)

lemma assertE_eq_Inr [simp]: "assertE c = Inr u \<longleftrightarrow> c"
  by (simp add: assertE_def)

lemma derefE_simps [simp]: "derefE None = Inl Null_deref" "derefE (Some x) = Inr x"
  by (simp_all add: derefE_def)

lemma derefE_eq_Inr [simp]: "derefE p = Inr x \<longleftrightarrow> p = Some x"
  by (cases p) auto

lemma readA_in [simp]: "0 \<le> i \<Longrightarrow> i < int (length xs) \<Longrightarrow> readA xs i = Inr (xs ! nat i)"
  by (simp add: readA_def)

lemma readA_out: "i < 0 \<or> int (length xs) \<le> i \<Longrightarrow> readA xs i = Inl Out_of_bounds"
  by (auto simp add: readA_def)

lemma readA_eq_Inr: "readA xs i = Inr x \<longleftrightarrow> 0 \<le> i \<and> i < int (length xs) \<and> x = xs ! nat i"
  by (auto simp add: readA_def)

lemma writeA_in [simp]: "0 \<le> i \<Longrightarrow> i < int (length xs) \<Longrightarrow> writeA xs i v = Inr (xs[nat i := v])"
  by (simp add: writeA_def)

lemma writeA_eq_Inr:
  "writeA xs i v = Inr ys \<longleftrightarrow> 0 \<le> i \<and> i < int (length xs) \<and> ys = xs[nat i := v]"
  by (auto simp add: writeA_def)

declare bindE_eq_Inr [resE] readA_eq_Inr [resE] writeA_eq_Inr [resE]

text \<open>The rule for loops: an invariant indexed by the number of rounds done.\<close>

lemma foldE_append: "foldE f (is @ js) s = bindE (foldE f is s) (foldE f js)"
  by (induction "is" arbitrary: s) (auto simp add: bindE_def split: sum.splits)

lemma foldE_cong:
  "(\<And>i s. i \<in> set is \<Longrightarrow> f i s = g i s) \<Longrightarrow> foldE f is s = foldE g is s"
  by (induction "is" arbitrary: s) (auto intro!: bindE_cong)

lemma foldE_map: "foldE f (map g is) s = foldE (\<lambda>i. f (g i)) is s"
  by (induction "is" arbitrary: s) (auto intro!: bindE_cong)

text \<open>A loop over the indices of an array that reads the element at each index.\<close>

lemma foldE_index:
  "n = int (length xs) \<Longrightarrow>
   foldE (\<lambda>i s. bindE (readA xs i) (\<lambda>x. f i x s)) [0..n - 1] s = foldE (\<lambda>(k, x). f (int k) x) (enumerate 0 xs) s"
proof (induction xs arbitrary: n rule: rev_induct)
  case (snoc x xs)
  let ?g = "\<lambda>ys i s. bindE (readA ys i) (\<lambda>x. f i x s)"
  have up: "[0..n - 1] = [0..int (length xs) - 1] @ [int (length xs)]"
    using snoc.prems upto_rec2 [of 0 "n - 1"] by simp
  have "foldE (?g (xs @ [x])) [0..int (length xs) - 1] s = foldE (?g xs) [0..int (length xs) - 1] s"
    by (rule foldE_cong) (auto simp add: nth_append)
  also have "\<dots> = foldE (\<lambda>(k, x). f (int k) x) (enumerate 0 xs) s" by (rule snoc.IH) simp
  finally show ?case by (simp add: up foldE_append enumerate_append_eq nth_append bindE_def split: sum.splits)
qed simp

lemma foldE_enumerate: "foldE (\<lambda>(k, x). f x) (enumerate m xs) s = foldE f xs s"
  by (induction xs arbitrary: m s) (auto intro!: bindE_cong)

lemma foldE_array:
  "n = int (length xs) \<Longrightarrow> foldE (\<lambda>i s. bindE (readA xs i) (\<lambda>x. f x s)) [0..n - 1] s = foldE f xs s"
  using foldE_index [of n xs "\<lambda>_. f" s] by (simp add: foldE_enumerate)

lemma foldE_invariant:
  assumes "P 0 s"
    and "\<And>k s. k < length is \<Longrightarrow> P k s \<Longrightarrow> \<exists>s'. f (is ! k) s = Inr s' \<and> P (Suc k) s'"
  shows "\<exists>s'. foldE f is s = Inr s' \<and> P (length is) s'"
  using assms
proof (induction "is" arbitrary: P s)
  case Nil
  then show ?case by simp
next
  case (Cons i js)
  obtain s1 where s1: "f i s = Inr s1" "P (Suc 0) s1"
    using Cons.prems(2) [of 0 s] Cons.prems(1) by auto
  have "\<exists>s'. foldE f js s1 = Inr s' \<and> P (Suc (length js)) s'"
  proof (rule Cons.IH [where P = "\<lambda>k. P (Suc k)"])
    show "P (Suc 0) s1" by (rule s1(2))
    show "\<exists>s'. f (js ! k) t = Inr s' \<and> P (Suc (Suc k)) s'" if "k < length js" "P (Suc k) t" for k t
      using Cons.prems(2) [of "Suc k" t] that by simp
  qed
  with s1(1) show ?case by simp
qed

text \<open>Two computations that fail in the same way or give related results.\<close>

fun rel_res :: "('a \<Rightarrow> 'b \<Rightarrow> bool) \<Rightarrow> 'a res \<Rightarrow> 'b res \<Rightarrow> bool" where
  "rel_res R (Inl e) (Inl f) = (e = f)"
| "rel_res R (Inr x) (Inr y) = R x y"
| "rel_res R _ _ = False"

lemma rel_res_bind:
  assumes "rel_res R m n" and "\<And>x y. R x y \<Longrightarrow> rel_res S (f x) (g y)"
  shows "rel_res S (bindE m f) (bindE n g)"
  using assms by (cases m; cases n) simp_all

lemma rel_res_Inr2: "rel_res R m (Inr y) \<longleftrightarrow> (\<exists>x. m = Inr x \<and> R x y)"
  by (cases m) simp_all

lemma rel_res_Inl2: "rel_res R m (Inl e) \<longleftrightarrow> m = Inl e"
  by (cases m) simp_all

subsection \<open>Integers and words\<close>

lemma sdiv_nonneg [simp]: "0 \<le> (a::int) \<Longrightarrow> 0 \<le> b \<Longrightarrow> a sdiv b = a div b"
  by (cases "a = 0"; cases "b = 0") (simp_all add: signed_divide_int_def)

lemma smod_nonneg [simp]: "0 \<le> (a::int) \<Longrightarrow> 0 \<le> b \<Longrightarrow> a smod b = a mod b"
  by (cases "a = 0"; cases "b = 0") (simp_all add: signed_modulo_int_def)

lemma divRoundUp_nonneg: "0 \<le> n \<Longrightarrow> 0 < s \<Longrightarrow> divRoundUp n s = (n + s - 1) div s"
proof -
  assume n: "0 \<le> n" and s: "0 < s"
  define q where "q = n div s"
  define r where "r = n mod s"
  have nq: "n = s * q + r" and r: "0 \<le> r" "r < s"
    using s by (simp_all add: q_def r_def)
  show ?thesis
  proof (cases "r = 0")
    case True
    have "(n + s - 1) div s = (s - 1 + q * s) div s" using nq True by (simp add: algebra_simps)
    also have "\<dots> = q" using s by simp
    finally show ?thesis using n s True by (simp add: divRoundUp_def q_def r_def)
  next
    case False
    have "(n + s - 1) div s = (r - 1 + (q + 1) * s) div s" using nq by (simp add: algebra_simps)
    also have "\<dots> = q + 1" using s r False by simp
    finally show ?thesis using n s False r by (simp add: divRoundUp_def q_def r_def)
  qed
qed

lemma divRoundUp_covers: "0 \<le> n \<Longrightarrow> 0 < s \<Longrightarrow> n \<le> divRoundUp n s * s"
  and divRoundUp_tight: "0 \<le> n \<Longrightarrow> 0 < s \<Longrightarrow> divRoundUp n s * s < n + s"
  and divRoundUp_ge0: "0 \<le> n \<Longrightarrow> 0 < s \<Longrightarrow> 0 \<le> divRoundUp n s"
proof -
  assume n: "0 \<le> n" and s: "0 < s"
  define q where "q = n div s"
  define r where "r = n mod s"
  have nq: "n = q * s + r" and r: "0 \<le> r" "r < s" and q: "0 \<le> q"
    using n s by (simp_all add: q_def r_def pos_imp_zdiv_nonneg_iff)
  have d: "divRoundUp n s = q + (if r > 0 then 1 else 0)"
    using n s by (simp add: divRoundUp_def q_def r_def)
  show "n \<le> divRoundUp n s * s" "divRoundUp n s * s < n + s"
    unfolding d using nq r by (simp_all add: distrib_right)
  show "0 \<le> divRoundUp n s" using q by (simp add: d)
qed

text \<open>
  Single bits; the simplifier writes \<open>push_bit n 1\<close> (the C expression \<^verbatim>\<open>1 << n\<close>) as \<open>2 ^ n\<close>.
\<close>

lemma word_and_exp: "(w :: 'a::len word) AND 2 ^ n \<noteq> 0 \<longleftrightarrow> bit w n"
proof -
  have *: "bit (w AND 2 ^ n) k \<longleftrightarrow> k = n \<and> bit w n" for k
    by (auto simp add: bit_simps dest: bit_imp_le_length)
  show ?thesis
  proof
    assume "w AND 2 ^ n \<noteq> 0"
    then obtain k where "bit (w AND 2 ^ n) k" by (auto simp add: bit_eq_iff)
    with * show "bit w n" by simp
  next
    assume "bit w n"
    with * have "bit (w AND 2 ^ n) n" by simp
    then show "w AND 2 ^ n \<noteq> 0" by auto
  qed
qed

lemma bit_or_exp:
  "n < LENGTH('a) \<Longrightarrow> bit ((w :: 'a::len word) OR 2 ^ n) k \<longleftrightarrow> bit w k \<or> k = n"
  by (auto simp add: bit_simps)

lemma bit_and_not_exp: "bit ((w :: 'a::len word) AND NOT (2 ^ n)) k \<longleftrightarrow> bit w k \<and> k \<noteq> n"
  by (auto simp add: bit_simps dest: bit_imp_le_length)

text \<open>The signed and the unsigned reading of a 32-bit word.\<close>

lemma uint32_bound: "uint (w :: 32 word) < 2 ^ 32" "0 \<le> uint w"
  using uint_bounded [of w] by simp_all

lemma sint_uint32: "sint (w :: 32 word) = (if 2 ^ 31 \<le> uint w then uint w - 2 ^ 32 else uint w)"
proof -
  have eq: "sint w = (uint w + 2 ^ 31) mod 2 ^ 32 - 2 ^ 31" using int_word_sint [of "uint w", where 'a = 32] by simp
  show ?thesis
  proof (cases "2 ^ 31 \<le> uint w")
    case True
    then have "(uint w + 2 ^ 31) mod 2 ^ 32 = uint w + 2 ^ 31 - 2 ^ 32"
      using uint32_bound [of w] by (simp add: mod_pos_geq)
    then show ?thesis using eq True by simp
  next
    case False
    then have "(uint w + 2 ^ 31) mod 2 ^ 32 = uint w + 2 ^ 31" by simp
    then show ?thesis using eq False by simp
  qed
qed

lemma sint_small: "uint (w :: 32 word) < 2147483648 \<Longrightarrow> sint w = uint w"
  by (simp add: sint_uint32)

end
