(* ===== verification/NachOS_List.thy ===== *)
theory NachOS_List
  imports NachOS_Prelude "HOL-Library.Multiset"
begin

text \<open>
  \<^verbatim>\<open>code/lib/list.h\<close> and \<^verbatim>\<open>code/lib/list.cc\<close>: singly linked lists and sorted lists, with their
  pointers.  A list carries the store of its own elements (they are private to the list): a map from
  addresses to elements, and the next address that \<^verbatim>\<open>new\<close> returns.  \<^verbatim>\<open>delete\<close> takes an address out
  of the store, so that a later access is a failure.

  A walk along the \<open>next\<close> pointers gets as fuel one more than the number of addresses handed out so
  far.  A chain without a cycle visits each address at most once, so the fuel runs out exactly when
  the walk would not end, and the result is then \<open>Diverges\<close>.  The refinement lemmas show that on the
  lists that the operations build this never happens.
\<close>

section \<open>Model\<close>

record 'a list_element =
  le_item :: 'a
  le_next :: "nat option"

record 'a nlist =
  l_first :: "nat option"
  l_last :: "nat option"
  numInList :: int
  l_store :: "nat \<Rightarrow> 'a list_element option"
  l_fresh :: nat

definition List_new :: "'a nlist" where
  "List_new = \<lparr>l_first = None, l_last = None, numInList = 0, l_store = (\<lambda>_. None), l_fresh = 0\<rparr>"

definition new_element :: "'a nlist \<Rightarrow> 'a \<Rightarrow> nat \<times> 'a nlist" where
  "new_element l itm =
     (l_fresh l, l\<lparr>l_store := (l_store l)(l_fresh l \<mapsto> \<lparr>le_item = itm, le_next = None\<rparr>),
                   l_fresh := Suc (l_fresh l)\<rparr>)"

definition delete_element :: "'a nlist \<Rightarrow> nat \<Rightarrow> 'a nlist" where
  "delete_element l a = l\<lparr>l_store := (l_store l)(a := None)\<rparr>"

definition get_element :: "'a nlist \<Rightarrow> nat option \<Rightarrow> (nat \<times> 'a list_element) res" where
  "get_element l p = bindE (derefE p) (\<lambda>a. bindE (derefE (l_store l a)) (\<lambda>c. Inr (a, c)))"

definition set_next :: "'a nlist \<Rightarrow> nat option \<Rightarrow> nat option \<Rightarrow> 'a nlist res" where
  "set_next l p q =
     bindE (get_element l p) (\<lambda>(a, c). Inr (l\<lparr>l_store := (l_store l)(a \<mapsto> c\<lparr>le_next := q\<rparr>)\<rparr>))"

definition walk_fuel :: "'a nlist \<Rightarrow> nat" where
  "walk_fuel l = Suc (l_fresh l)"

definition List_NumInList :: "'a nlist \<Rightarrow> int" where
  "List_NumInList l = numInList l"

definition List_IsEmpty :: "'a nlist \<Rightarrow> bool" where
  "List_IsEmpty l = (numInList l = 0)"

definition List_Front :: "'a nlist \<Rightarrow> 'a res" where
  "List_Front l = bindE (get_element l (l_first l)) (\<lambda>(_, c). Inr (le_item c))"

fun List_IsInList_loop :: "nat \<Rightarrow> 'a nlist \<Rightarrow> 'a \<Rightarrow> nat option \<Rightarrow> bool res" where
  "List_IsInList_loop 0 l item ptr = Inl Diverges"
| "List_IsInList_loop (Suc fuel) l item ptr =
     (if ptr = None then Inr False
      else bindE (get_element l ptr) (\<lambda>(_, c).
        if item = le_item c then Inr True else List_IsInList_loop fuel l item (le_next c)))"

definition List_IsInList :: "'a nlist \<Rightarrow> 'a \<Rightarrow> bool res" where
  "List_IsInList l item = List_IsInList_loop (walk_fuel l) l item (l_first l)"

definition List_Append :: "'a nlist \<Rightarrow> 'a \<Rightarrow> 'a nlist res" where
  "List_Append l item =
     (let (element, l) = new_element l item in
      bindE (List_IsInList l item) (\<lambda>i.
      bindE (assertE (\<not> i)) (\<lambda>_.
      bindE (if List_IsEmpty l then Inr (l\<lparr>l_first := Some element, l_last := Some element\<rparr>)
             else bindE (set_next l (l_last l) (Some element)) (\<lambda>l. Inr (l\<lparr>l_last := Some element\<rparr>))) (\<lambda>l.
      let l = l\<lparr>numInList := numInList l + 1\<rparr> in
      bindE (List_IsInList l item) (\<lambda>i.
      bindE (assertE i) (\<lambda>_. Inr l))))))"

definition List_Prepend :: "'a nlist \<Rightarrow> 'a \<Rightarrow> 'a nlist res" where
  "List_Prepend l item =
     (let (element, l) = new_element l item in
      bindE (List_IsInList l item) (\<lambda>i.
      bindE (assertE (\<not> i)) (\<lambda>_.
      bindE (if List_IsEmpty l then Inr (l\<lparr>l_first := Some element, l_last := Some element\<rparr>)
             else bindE (set_next l (Some element) (l_first l)) (\<lambda>l. Inr (l\<lparr>l_first := Some element\<rparr>))) (\<lambda>l.
      let l = l\<lparr>numInList := numInList l + 1\<rparr> in
      bindE (List_IsInList l item) (\<lambda>i.
      bindE (assertE i) (\<lambda>_. Inr l))))))"

definition List_RemoveFront :: "'a nlist \<Rightarrow> ('a \<times> 'a nlist) res" where
  "List_RemoveFront l =
     (let element = l_first l in
      bindE (assertE (\<not> List_IsEmpty l)) (\<lambda>_.
      bindE (get_element l (l_first l)) (\<lambda>(a, c).
      let thing = le_item c;
          l = (if l_first l = l_last l then l\<lparr>l_first := None, l_last := None\<rparr>
               else l\<lparr>l_first := le_next c\<rparr>);
          l = l\<lparr>numInList := numInList l - 1\<rparr> in
      Inr (thing, delete_element l a))))"

fun List_Remove_loop :: "nat \<Rightarrow> 'a nlist \<Rightarrow> 'a \<Rightarrow> nat option \<Rightarrow> nat option \<Rightarrow> 'a nlist res" where
  "List_Remove_loop 0 l item prev ptr = Inl Diverges"
| "List_Remove_loop (Suc fuel) l item prev ptr =
     (if ptr = None then Inl Assert_failed
      else bindE (get_element l ptr) (\<lambda>(a, c).
        if item = le_item c then
          bindE (set_next l prev (le_next c)) (\<lambda>l.
          let l = (if le_next c = None then l\<lparr>l_last := prev\<rparr> else l);
              l = delete_element l a in
          Inr (l\<lparr>numInList := numInList l - 1\<rparr>))
        else List_Remove_loop fuel l item ptr (le_next c)))"

definition List_Remove :: "'a nlist \<Rightarrow> 'a \<Rightarrow> 'a nlist res" where
  "List_Remove l item =
     bindE (List_IsInList l item) (\<lambda>i.
     bindE (assertE i) (\<lambda>_.
     bindE (get_element l (l_first l)) (\<lambda>(_, c).
     bindE (if item = le_item c
            then bindE (List_RemoveFront l) (\<lambda>(removed, l).
                 bindE (assertE (item = removed)) (\<lambda>_. Inr l))
            else List_Remove_loop (walk_fuel l) l item (l_first l) (le_next c)) (\<lambda>l.
     bindE (List_IsInList l item) (\<lambda>i.
     bindE (assertE (\<not> i)) (\<lambda>_. Inr l))))))"

text \<open>\<open>Apply\<close> calls a function on every item; the model gives the items in the order of the calls.\<close>

fun List_Apply_loop :: "nat \<Rightarrow> 'a nlist \<Rightarrow> nat option \<Rightarrow> 'a list res" where
  "List_Apply_loop 0 l ptr = Inl Diverges"
| "List_Apply_loop (Suc fuel) l ptr =
     (if ptr = None then Inr []
      else bindE (get_element l ptr) (\<lambda>(_, c).
           bindE (List_Apply_loop fuel l (le_next c)) (\<lambda>xs. Inr (le_item c # xs))))"

definition List_Apply :: "'a nlist \<Rightarrow> 'a list res" where
  "List_Apply l = List_Apply_loop (walk_fuel l) l (l_first l)"

fun List_SanityCheck_loop :: "nat \<Rightarrow> 'a nlist \<Rightarrow> int \<Rightarrow> nat option \<Rightarrow> int res" where
  "List_SanityCheck_loop 0 l numFound ptr = Inl Diverges"
| "List_SanityCheck_loop (Suc fuel) l numFound ptr =
     (if ptr = l_last l then Inr numFound
      else bindE (assertE (numFound + 1 \<le> numInList l)) (\<lambda>_.
           bindE (get_element l ptr) (\<lambda>(_, c).
           List_SanityCheck_loop fuel l (numFound + 1) (le_next c))))"

definition List_SanityCheck :: "'a nlist \<Rightarrow> unit res" where
  "List_SanityCheck l =
     (if l_first l = None then assertE (numInList l = 0 \<and> l_last l = None)
      else if l_first l = l_last l then
        bindE (get_element l (l_last l)) (\<lambda>(_, c). assertE (numInList l = 1 \<and> le_next c = None))
      else
        bindE (List_SanityCheck_loop (walk_fuel l) l 1 (l_first l)) (\<lambda>numFound.
        bindE (assertE (numFound = numInList l)) (\<lambda>_.
        bindE (get_element l (l_last l)) (\<lambda>(_, c). assertE (le_next c = None)))))"

text \<open>
  \<open>SelfTest\<close> calls the virtual methods \<open>Append\<close> and \<open>SanityCheck\<close>, which \<open>SortedList\<close> overrides; they
  are its first two arguments.  The loop over the iterator reaches \<^verbatim>\<open>ASSERTNOTREACHED\<close> at the first
  element, if there is one.
\<close>

definition List_SelfTest ::
    "('a nlist \<Rightarrow> 'a \<Rightarrow> 'a nlist res) \<Rightarrow> ('a nlist \<Rightarrow> unit res) \<Rightarrow> 'a nlist \<Rightarrow> 'a list \<Rightarrow> 'a nlist res" where
  "List_SelfTest app sanity l p =
     bindE (sanity l) (\<lambda>_.
     bindE (assertE (List_IsEmpty l \<and> l_first l = None)) (\<lambda>_.
     bindE (assertE (l_first l = None)) (\<lambda>_.
     bindE (foldE (\<lambda>x l. bindE (app l x) (\<lambda>l. bindE (List_IsInList l x) (\<lambda>i.
              bindE (assertE i) (\<lambda>_. bindE (assertE (\<not> List_IsEmpty l)) (\<lambda>_. Inr l))))) p l) (\<lambda>l.
     bindE (sanity l) (\<lambda>_.
     bindE (foldE (\<lambda>x l. bindE (List_Remove l x) (\<lambda>l. bindE (List_IsInList l x) (\<lambda>i.
              bindE (assertE (\<not> i)) (\<lambda>_. Inr l)))) p l) (\<lambda>l.
     bindE (assertE (List_IsEmpty l)) (\<lambda>_.
     bindE (sanity l) (\<lambda>_. Inr l))))))))"

subsection \<open>Sorted lists\<close>

fun SortedList_Insert_loop ::
    "nat \<Rightarrow> ('a \<Rightarrow> 'a \<Rightarrow> int) \<Rightarrow> 'a nlist \<Rightarrow> 'a \<Rightarrow> nat \<Rightarrow> nat option \<Rightarrow> (bool \<times> 'a nlist) res" where
  "SortedList_Insert_loop 0 compare l item element ptr = Inl Diverges"
| "SortedList_Insert_loop (Suc fuel) compare l item element ptr =
     bindE (get_element l ptr) (\<lambda>(_, c).
     if le_next c = None then Inr (False, l)
     else bindE (get_element l (le_next c)) (\<lambda>(_, d).
       if compare item (le_item d) < 0 then
         bindE (set_next l (Some element) (le_next c)) (\<lambda>l.
         bindE (set_next l ptr (Some element)) (\<lambda>l.
         Inr (True, l\<lparr>numInList := numInList l + 1\<rparr>)))
       else SortedList_Insert_loop fuel compare l item element (le_next c)))"

definition SortedList_Insert :: "('a \<Rightarrow> 'a \<Rightarrow> int) \<Rightarrow> 'a nlist \<Rightarrow> 'a \<Rightarrow> 'a nlist res" where
  "SortedList_Insert compare l item =
     (let (element, l) = new_element l item;
          finish = (\<lambda>l. let l = l\<lparr>numInList := numInList l + 1\<rparr> in
            bindE (List_IsInList l item) (\<lambda>i. bindE (assertE i) (\<lambda>_. Inr l))) in
      bindE (List_IsInList l item) (\<lambda>i.
      bindE (assertE (\<not> i)) (\<lambda>_.
      if List_IsEmpty l then finish (l\<lparr>l_first := Some element, l_last := Some element\<rparr>)
      else bindE (get_element l (l_first l)) (\<lambda>(_, c).
        if compare item (le_item c) < 0 then
          bindE (set_next l (Some element) (l_first l)) (\<lambda>l. finish (l\<lparr>l_first := Some element\<rparr>))
        else bindE (SortedList_Insert_loop (walk_fuel l) compare l item element (l_first l)) (\<lambda>(done, l).
          if done then Inr l
          else bindE (set_next l (l_last l) (Some element)) (\<lambda>l.
            finish (l\<lparr>l_last := Some element\<rparr>)))))))"

fun SortedList_SanityCheck_loop ::
    "nat \<Rightarrow> ('a \<Rightarrow> 'a \<Rightarrow> int) \<Rightarrow> 'a nlist \<Rightarrow> nat option \<Rightarrow> nat option \<Rightarrow> unit res" where
  "SortedList_SanityCheck_loop 0 compare l prev ptr = Inl Diverges"
| "SortedList_SanityCheck_loop (Suc fuel) compare l prev ptr =
     (if ptr = None then Inr ()
      else bindE (get_element l prev) (\<lambda>(_, c).
           bindE (get_element l ptr) (\<lambda>(_, d).
           bindE (assertE (compare (le_item c) (le_item d) \<le> 0)) (\<lambda>_.
           SortedList_SanityCheck_loop fuel compare l ptr (le_next d)))))"

definition SortedList_SanityCheck :: "('a \<Rightarrow> 'a \<Rightarrow> int) \<Rightarrow> 'a nlist \<Rightarrow> unit res" where
  "SortedList_SanityCheck compare l =
     bindE (List_SanityCheck l) (\<lambda>_.
     if l_first l \<noteq> l_last l then
       bindE (get_element l (l_first l)) (\<lambda>(_, c).
       SortedList_SanityCheck_loop (walk_fuel l) compare l (l_first l) (le_next c))
     else Inr ())"

fun adjacent_le :: "('a \<Rightarrow> 'a \<Rightarrow> int) \<Rightarrow> 'a list \<Rightarrow> bool" where
  "adjacent_le compare (x # y # xs) = (compare x y \<le> 0 \<and> adjacent_le compare (y # xs))"
| "adjacent_le compare _ = True"

definition SortedList_SelfTest :: "('a \<Rightarrow> 'a \<Rightarrow> int) \<Rightarrow> 'a nlist \<Rightarrow> 'a list \<Rightarrow> 'a nlist res" where
  "SortedList_SelfTest compare l p =
     bindE (List_SelfTest (SortedList_Insert compare) (SortedList_SanityCheck compare) l p) (\<lambda>l.
     bindE (foldE (\<lambda>x l. bindE (SortedList_Insert compare l x) (\<lambda>l. bindE (List_IsInList l x) (\<lambda>i.
              bindE (assertE i) (\<lambda>_. Inr l)))) p l) (\<lambda>l.
     bindE (SortedList_SanityCheck compare l) (\<lambda>_.
     bindE (foldE (\<lambda>_ (q, l). bindE (List_RemoveFront l) (\<lambda>(y, l). bindE (List_IsInList l y) (\<lambda>i.
              bindE (assertE (\<not> i)) (\<lambda>_. Inr (q @ [y], l))))) p ([], l)) (\<lambda>(q, l).
     bindE (assertE (List_IsEmpty l)) (\<lambda>_.
     bindE (assertE (adjacent_le compare q)) (\<lambda>_.
     bindE (SortedList_SanityCheck compare l) (\<lambda>_. Inr l)))))))"

text \<open>The comparison that \<^verbatim>\<open>code/lib/libtest.cc\<close> sorts integers with.\<close>

definition IntCompare :: "int \<Rightarrow> int \<Rightarrow> int" where
  "IntCompare x y = (if x < y then -1 else if x = y then 0 else 1)"

section \<open>The contract of a list\<close>

text \<open>
  What clients of a list rely on, over the sequence of its items: \<open>Append\<close>, \<open>Prepend\<close> and \<open>Insert\<close> abort on
  an item that is already there, \<open>Remove\<close> on one that is not, \<open>RemoveFront\<close> on the empty list; \<open>Insert\<close>
  puts the item before the first one that compares greater.
\<close>

definition lst_append :: "'a list \<Rightarrow> 'a \<Rightarrow> 'a list res" where
  "lst_append xs x = (if x \<in> set xs then Inl Assert_failed else Inr (xs @ [x]))"

definition lst_prepend :: "'a list \<Rightarrow> 'a \<Rightarrow> 'a list res" where
  "lst_prepend xs x = (if x \<in> set xs then Inl Assert_failed else Inr (x # xs))"

definition lst_remove_front :: "'a list \<Rightarrow> ('a \<times> 'a list) res" where
  "lst_remove_front xs = (case xs of [] \<Rightarrow> Inl Assert_failed | x # ys \<Rightarrow> Inr (x, ys))"

definition lst_remove :: "'a list \<Rightarrow> 'a \<Rightarrow> 'a list res" where
  "lst_remove xs x = (if x \<in> set xs then Inr (remove1 x xs) else Inl Assert_failed)"

definition sorted_ins :: "('a \<Rightarrow> 'a \<Rightarrow> int) \<Rightarrow> 'a \<Rightarrow> 'a list \<Rightarrow> 'a list" where
  "sorted_ins cmp x ys = takeWhile (\<lambda>y. \<not> cmp x y < 0) ys @ x # dropWhile (\<lambda>y. \<not> cmp x y < 0) ys"

definition lst_insert :: "('a \<Rightarrow> 'a \<Rightarrow> int) \<Rightarrow> 'a list \<Rightarrow> 'a \<Rightarrow> 'a list res" where
  "lst_insert cmp xs x = (if x \<in> set xs then Inl Assert_failed else Inr (sorted_ins cmp x xs))"

datatype 'a list_op = Op_Append 'a | Op_Prepend 'a | Op_RemoveFront | Op_Remove 'a | Op_Insert 'a

text \<open>One call, and a sequence of calls with the values that the calls of \<open>RemoveFront\<close> return.\<close>

fun list_call ::
    "('l \<Rightarrow> 'a \<Rightarrow> 'l res) \<Rightarrow> ('l \<Rightarrow> 'a \<Rightarrow> 'l res) \<Rightarrow> ('l \<Rightarrow> ('a \<times> 'l) res) \<Rightarrow> ('l \<Rightarrow> 'a \<Rightarrow> 'l res)
     \<Rightarrow> ('l \<Rightarrow> 'a \<Rightarrow> 'l res) \<Rightarrow> 'a list_op \<Rightarrow> 'l \<Rightarrow> ('a list \<times> 'l) res" where
  "list_call app pre rmf rm ins (Op_Append x) l = bindE (app l x) (\<lambda>l. Inr ([], l))"
| "list_call app pre rmf rm ins (Op_Prepend x) l = bindE (pre l x) (\<lambda>l. Inr ([], l))"
| "list_call app pre rmf rm ins Op_RemoveFront l = bindE (rmf l) (\<lambda>(x, l). Inr ([x], l))"
| "list_call app pre rmf rm ins (Op_Remove x) l = bindE (rm l x) (\<lambda>l. Inr ([], l))"
| "list_call app pre rmf rm ins (Op_Insert x) l = bindE (ins l x) (\<lambda>l. Inr ([], l))"

fun list_run :: "('op \<Rightarrow> 'l \<Rightarrow> ('a list \<times> 'l) res) \<Rightarrow> 'op list \<Rightarrow> 'l \<Rightarrow> ('a list \<times> 'l) res" where
  "list_run call [] l = Inr ([], l)"
| "list_run call (c # cs) l =
     bindE (call c l) (\<lambda>(out, l). bindE (list_run call cs l) (\<lambda>(outs, l). Inr (out @ outs, l)))"

locale list_contract =
  fixes rep :: "'l \<Rightarrow> 'a list \<Rightarrow> bool"
    and app pre rm ins :: "'l \<Rightarrow> 'a \<Rightarrow> 'l res"
    and rmf :: "'l \<Rightarrow> ('a \<times> 'l) res"
    and cmp :: "'a \<Rightarrow> 'a \<Rightarrow> int"
  assumes rep_distinct: "rep l xs \<Longrightarrow> distinct xs"
    and app_sim: "rep l xs \<Longrightarrow> rel_res rep (app l x) (lst_append xs x)"
    and pre_sim: "rep l xs \<Longrightarrow> rel_res rep (pre l x) (lst_prepend xs x)"
    and rm_sim: "rep l xs \<Longrightarrow> rel_res rep (rm l x) (lst_remove xs x)"
    and ins_sim: "rep l xs \<Longrightarrow> rel_res rep (ins l x) (lst_insert cmp xs x)"
    and rmf_sim: "rep l xs \<Longrightarrow> rel_res (rel_prod (=) rep) (rmf l) (lst_remove_front xs)"
begin

lemma call_sim:
  "rep l xs \<Longrightarrow> rel_res (rel_prod (=) rep) (list_call app pre rmf rm ins c l)
     (list_call lst_append lst_prepend lst_remove_front lst_remove (lst_insert cmp) c xs)"
  by (cases c) (auto intro!: rel_res_bind [OF app_sim] rel_res_bind [OF pre_sim] rel_res_bind [OF rm_sim]
    rel_res_bind [OF ins_sim] rel_res_bind [OF rmf_sim])

lemma run_sim:
  "rep l xs \<Longrightarrow> rel_res (rel_prod (=) rep) (list_run (list_call app pre rmf rm ins) cs l)
     (list_run (list_call lst_append lst_prepend lst_remove_front lst_remove (lst_insert cmp)) cs xs)"
proof (induction cs arbitrary: l xs)
  case Nil
  then show ?case by simp
next
  case (Cons c cs)
  show ?case
    by (auto intro!: rel_res_bind [OF call_sim [OF Cons.prems]] rel_res_bind [OF Cons.IH])
qed

text \<open>Inserting the items of a list one after the other.\<close>

lemma inserts_sim:
  "rep l xs \<Longrightarrow> rel_res rep (foldE (\<lambda>x l. ins l x) ys l) (foldE (\<lambda>x xs. lst_insert cmp xs x) ys xs)"
  by (induction ys arbitrary: l xs) (auto intro: rel_res_bind [OF ins_sim])

end

section \<open>What a list represents\<close>

text \<open>
  \<open>lseg h p ns q\<close>: from \<open>p\<close> the \<open>next\<close> pointers lead through the elements \<open>ns\<close> (addresses and items)
  to \<open>q\<close>.  \<open>List_rep l xs\<close>: the list \<open>l\<close> holds the items \<open>xs\<close>, all different, its fields \<open>first\<close>,
  \<open>last\<close> and \<open>numInList\<close> say so, and the store holds the elements of the list and nothing else.
\<close>

fun lseg :: "(nat \<Rightarrow> 'a list_element option) \<Rightarrow> nat option \<Rightarrow> (nat \<times> 'a) list \<Rightarrow> nat option \<Rightarrow> bool" where
  "lseg h p [] q = (p = q)"
| "lseg h p ((a, x) # ns) q =
     (p = Some a \<and> (\<exists>n. h a = Some \<lparr>le_item = x, le_next = n\<rparr> \<and> lseg h n ns q))"

definition List_inv :: "'a nlist \<Rightarrow> (nat \<times> 'a) list \<Rightarrow> bool" where
  "List_inv l ns \<longleftrightarrow> lseg (l_store l) (l_first l) ns None \<and> distinct (map fst ns)
     \<and> dom (l_store l) = fst ` set ns \<and> fst ` set ns \<subseteq> {..<l_fresh l}
     \<and> l_last l = (if ns = [] then None else Some (fst (last ns)))
     \<and> numInList l = int (length ns) \<and> distinct (map snd ns)"

definition List_rep :: "'a nlist \<Rightarrow> 'a list \<Rightarrow> bool" where
  "List_rep l xs \<longleftrightarrow> (\<exists>ns. List_inv l ns \<and> xs = map snd ns)"

section \<open>Walking along a list\<close>

lemma lseg_append: "lseg h p (ms @ ns) q \<longleftrightarrow> (\<exists>r. lseg h p ms r \<and> lseg h r ns q)"
  by (induction h p ms q arbitrary: rule: lseg.induct) auto

lemma lseg_upd [simp]: "a \<notin> fst ` set ns \<Longrightarrow> lseg (h(a := v)) p ns q = lseg h p ns q"
  by (induction h p ns q rule: lseg.induct) auto

lemma lseg_None: "lseg h None ns q \<longleftrightarrow> ns = [] \<and> q = None"
  by (cases ns) auto

lemma length_le_fresh:
  assumes "distinct (map fst ns)" and "fst ` set ns \<subseteq> {..<n}"
  shows "length ns \<le> n"
proof -
  have "length ns = card (fst ` set ns)"
    using distinct_card [OF assms(1)] by simp
  also have "\<dots> \<le> n" using card_mono [OF _ assms(2)] by simp
  finally show ?thesis .
qed

lemma get_element_Some [simp]:
  "l_store l a = Some c \<Longrightarrow> get_element l (Some a) = Inr (a, c)"
  by (simp add: get_element_def)

lemma set_next_Some [simp]:
  "l_store l a = Some c \<Longrightarrow>
   set_next l (Some a) q = Inr (l\<lparr>l_store := (l_store l)(a \<mapsto> c\<lparr>le_next := q\<rparr>)\<rparr>)"
  by (simp add: set_next_def)

lemma IsInList_loop_eq:
  "lseg (l_store l) p ns None \<Longrightarrow> length ns < fuel \<Longrightarrow>
   List_IsInList_loop fuel l x p = Inr (x \<in> snd ` set ns)"
proof (induction ns arbitrary: p fuel)
  case Nil
  then show ?case by (cases fuel) simp_all
next
  case (Cons n ns)
  obtain a y where n: "n = (a, y)" by (cases n)
  obtain m f where m: "p = Some a" "l_store l a = Some \<lparr>le_item = y, le_next = m\<rparr>"
    "lseg (l_store l) m ns None" and f: "fuel = Suc f" "length ns < f"
    using Cons.prems n by (cases fuel) auto
  show ?case using Cons.IH [OF m(3) f(2)] m f n by auto
qed

lemma IsInList_eq:
  assumes "lseg (l_store l) (l_first l) ns None" "distinct (map fst ns)" "fst ` set ns \<subseteq> {..<l_fresh l}"
  shows "List_IsInList l x = Inr (x \<in> snd ` set ns)"
  unfolding List_IsInList_def
  by (rule IsInList_loop_eq [OF assms(1)]) (simp add: walk_fuel_def less_Suc_eq_le length_le_fresh [OF assms(2,3)])

lemma List_inv_IsInList: "List_inv l ns \<Longrightarrow> List_IsInList l x = Inr (x \<in> snd ` set ns)"
  by (rule IsInList_eq) (simp_all add: List_inv_def)

lemma List_inv_IsEmpty: "List_inv l ns \<Longrightarrow> List_IsEmpty l \<longleftrightarrow> ns = []"
  by (simp add: List_inv_def List_IsEmpty_def)

lemma List_inv_fresh: "List_inv l ns \<Longrightarrow> l_fresh l \<notin> fst ` set ns"
  by (auto simp add: List_inv_def)

lemma List_invI:
  assumes "lseg (l_store l) (l_first l) ns None" "distinct (map fst ns)"
    "dom (l_store l) = fst ` set ns" "fst ` set ns \<subseteq> {..<l_fresh l}"
    "l_last l = (if ns = [] then None else Some (fst (last ns)))"
    "numInList l = int (length ns)" "distinct (map snd ns)"
  shows "List_inv l ns"
  using assms by (simp add: List_inv_def)

lemma lseg_split:
  "lseg h p (ms @ (b, y) # ns) q \<longleftrightarrow>
   (\<exists>n. lseg h p ms (Some b) \<and> h b = Some \<lparr>le_item = y, le_next = n\<rparr> \<and> lseg h n ns q)"
  by (auto simp add: lseg_append)

lemma List_inv_fuel: "List_inv l ns \<Longrightarrow> length ns < walk_fuel l"
  using length_le_fresh [of ns "l_fresh l"] by (simp add: List_inv_def walk_fuel_def less_Suc_eq_le)

section \<open>Linking a new element\<close>

text \<open>
  After \<^verbatim>\<open>new\<close>, the new element \<open>a\<close> with item \<open>x\<close> is in the store but not yet in the list.  The lemmas
  below link it at the front, at the end and in the middle, the three ways of \<open>Append\<close>, \<open>Prepend\<close>
  and \<open>Insert\<close>.
\<close>

definition List_alloc :: "'a nlist \<Rightarrow> (nat \<times> 'a) list \<Rightarrow> nat \<Rightarrow> 'a \<Rightarrow> bool" where
  "List_alloc l ns a x \<longleftrightarrow> lseg (l_store l) (l_first l) ns None \<and> distinct (map fst ns)
     \<and> dom (l_store l) = insert a (fst ` set ns) \<and> insert a (fst ` set ns) \<subseteq> {..<l_fresh l}
     \<and> l_last l = (if ns = [] then None else Some (fst (last ns)))
     \<and> numInList l = int (length ns) \<and> distinct (map snd ns)
     \<and> l_store l a = Some \<lparr>le_item = x, le_next = None\<rparr> \<and> a \<notin> fst ` set ns"

lemma new_element_alloc:
  assumes "List_inv l ns"
  shows "\<exists>l1. new_element l x = (l_fresh l, l1) \<and> List_alloc l1 ns (l_fresh l) x"
  using assms List_inv_fresh [OF assms] by (force simp add: new_element_def List_alloc_def List_inv_def)

lemma List_alloc_IsInList: "List_alloc l ns a x \<Longrightarrow> List_IsInList l y = Inr (y \<in> snd ` set ns)"
  by (rule IsInList_eq) (simp_all add: List_alloc_def)

lemma List_alloc_IsEmpty: "List_alloc l ns a x \<Longrightarrow> List_IsEmpty l \<longleftrightarrow> ns = []"
  by (simp add: List_alloc_def List_IsEmpty_def)

lemma List_alloc_fuel: "List_alloc l ns a x \<Longrightarrow> length ns < walk_fuel l"
  using length_le_fresh [of ns "l_fresh l"] by (simp add: List_alloc_def walk_fuel_def less_Suc_eq_le)

lemma link_only:
  assumes "List_alloc l [] a x"
  shows "List_inv (l\<lparr>l_first := Some a, l_last := Some a, numInList := numInList l + 1\<rparr>) [(a, x)]"
  by (rule List_invI) (use assms in \<open>auto simp add: List_alloc_def\<close>)

lemma link_front:
  assumes "List_alloc l ns a x" "ns \<noteq> []" "x \<notin> snd ` set ns"
  shows "List_inv (l\<lparr>l_store := (l_store l)(a \<mapsto> \<lparr>le_item = x, le_next = l_first l\<rparr>),
    l_first := Some a, numInList := numInList l + 1\<rparr>) ((a, x) # ns)"
  by (rule List_invI) (use assms in \<open>auto simp add: List_alloc_def\<close>)

lemma link_last:
  assumes l: "List_alloc l (ms @ [(b, y)]) a x" and x: "x \<notin> snd ` set (ms @ [(b, y)])"
  shows "l_store l b = Some \<lparr>le_item = y, le_next = None\<rparr>"
    and "List_inv (l\<lparr>l_store := (l_store l)(b \<mapsto> \<lparr>le_item = y, le_next = Some a\<rparr>),
      l_last := Some a, numInList := numInList l + 1\<rparr>) (ms @ [(b, y), (a, x)])"
proof -
  have *: "lseg (l_store l) (l_first l) ms (Some b)" "l_store l b = Some \<lparr>le_item = y, le_next = None\<rparr>"
      "b \<notin> fst ` set ms" "a \<noteq> b" "l_store l a = Some \<lparr>le_item = x, le_next = None\<rparr>" "a \<notin> fst ` set ms"
    using l by (auto simp add: List_alloc_def lseg_split)
  then show "l_store l b = Some \<lparr>le_item = y, le_next = None\<rparr>" by blast
  show "List_inv (l\<lparr>l_store := (l_store l)(b \<mapsto> \<lparr>le_item = y, le_next = Some a\<rparr>),
      l_last := Some a, numInList := numInList l + 1\<rparr>) (ms @ [(b, y), (a, x)])"
  proof (rule List_invI)
  qed (use l x * in \<open>auto simp add: List_alloc_def lseg_split\<close>)
qed

lemma link_between:
  assumes l: "List_alloc l (ms @ (b, y) # ns) a x" and x: "x \<notin> snd ` set (ms @ (b, y) # ns)"
    and ns: "ns \<noteq> []" and n: "l_store l b = Some \<lparr>le_item = y, le_next = n\<rparr>"
  shows "List_inv (l\<lparr>l_store := (l_store l)(a \<mapsto> \<lparr>le_item = x, le_next = n\<rparr>, b \<mapsto> \<lparr>le_item = y, le_next = Some a\<rparr>),
    numInList := numInList l + 1\<rparr>) (ms @ (b, y) # (a, x) # ns)"
proof -
  have *: "lseg (l_store l) (l_first l) ms (Some b)" "lseg (l_store l) n ns None"
      "b \<notin> fst ` set ms" "b \<notin> fst ` set ns" "a \<noteq> b" "a \<notin> fst ` set ms" "a \<notin> fst ` set ns"
    using l n by (auto simp add: List_alloc_def lseg_split)
  show ?thesis
  proof (rule List_invI)
  qed (use l x ns * in \<open>auto simp add: List_alloc_def lseg_split\<close>)
qed

section \<open>The operations on the represented lists\<close>

lemma Append_inv:
  assumes l: "List_inv l ns" and x: "x \<notin> snd ` set ns"
  shows "\<exists>l'. List_Append l x = Inr l' \<and> List_inv l' (ns @ [(l_fresh l, x)])"
proof -
  obtain l1 where n: "new_element l x = (l_fresh l, l1)" and a: "List_alloc l1 ns (l_fresh l) x"
    using new_element_alloc [OF l] by blast
  show ?thesis
  proof (cases ns rule: rev_cases)
    case Nil
    note inv = link_only [OF a [unfolded Nil]]
    show ?thesis using inv x Nil List_inv_IsInList [OF inv, of x]
      by (auto simp add: List_Append_def n Let_def List_alloc_IsInList [OF a] List_alloc_IsEmpty [OF a])
  next
    case (snoc ms m)
    obtain b y where m: "m = (b, y)" by (cases m)
    note link = link_last [OF a [unfolded snoc m] x [unfolded snoc m]]
    have "l_last l1 = Some b" using a snoc m by (simp add: List_alloc_def)
    then show ?thesis using link x snoc m List_inv_IsInList [OF link(2), of x]
      by (auto simp add: List_Append_def n Let_def List_alloc_IsInList [OF a] List_alloc_IsEmpty [OF a])
  qed
qed

lemma Prepend_inv:
  assumes l: "List_inv l ns" and x: "x \<notin> snd ` set ns"
  shows "\<exists>l'. List_Prepend l x = Inr l' \<and> List_inv l' ((l_fresh l, x) # ns)"
proof -
  obtain l1 where n: "new_element l x = (l_fresh l, l1)" and a: "List_alloc l1 ns (l_fresh l) x"
    using new_element_alloc [OF l] by blast
  have el: "l_store l1 (l_fresh l) = Some \<lparr>le_item = x, le_next = None\<rparr>" using a by (simp add: List_alloc_def)
  show ?thesis
  proof (cases "ns = []")
    case True
    note inv = link_only [OF a [unfolded True]]
    show ?thesis using inv x True List_inv_IsInList [OF inv, of x]
      by (auto simp add: List_Prepend_def n Let_def List_alloc_IsInList [OF a] List_alloc_IsEmpty [OF a])
  next
    case False
    note inv = link_front [OF a False x]
    show ?thesis using inv x False el List_inv_IsInList [OF inv, of x]
      by (auto simp add: List_Prepend_def n Let_def List_alloc_IsInList [OF a] List_alloc_IsEmpty [OF a])
  qed
qed

lemma dup_aborts:
  assumes l: "List_inv l ns" and x: "x \<in> snd ` set ns"
  shows "List_Append l x = Inl Assert_failed" "List_Prepend l x = Inl Assert_failed"
    "SortedList_Insert cmp l x = Inl Assert_failed"
proof -
  obtain l1 where "new_element l x = (l_fresh l, l1)" "List_alloc l1 ns (l_fresh l) x"
    using new_element_alloc [OF l, of x] by blast
  moreover from this have "List_IsInList l1 x = Inr True" using x by (simp add: List_alloc_IsInList)
  ultimately show "List_Append l x = Inl Assert_failed" "List_Prepend l x = Inl Assert_failed"
      "SortedList_Insert cmp l x = Inl Assert_failed"
    by (simp_all add: List_Append_def List_Prepend_def SortedList_Insert_def Let_def)
qed

lemma RemoveFront_inv:
  assumes l: "List_inv l ((a, x) # ns)"
  shows "\<exists>l'. List_RemoveFront l = Inr (x, l') \<and> List_inv l' ns"
proof -
  obtain m where m: "l_first l = Some a" "l_store l a = Some \<lparr>le_item = x, le_next = m\<rparr>"
    "lseg (l_store l) m ns None" using l by (auto simp add: List_inv_def)
  have d: "a \<notin> fst ` set ns" "distinct (map fst ns)" "dom (l_store l) = insert a (fst ` set ns)"
    using l by (auto simp add: List_inv_def)
  have last_eq: "l_first l = l_last l \<longleftrightarrow> ns = []"
    using l d(1) m(1) last_in_set [of ns] by (auto simp add: List_inv_def)
  let ?l = "delete_element (l\<lparr>l_first := m, l_last := (if ns = [] then None else l_last l),
    numInList := numInList l - 1\<rparr>) a"
  have "m = None" if "ns = []" using m(3) that by simp
  then have eq: "List_RemoveFront l = Inr (x, ?l)"
    using l m last_eq by (auto simp add: List_RemoveFront_def List_inv_IsEmpty [OF l])
  have "List_inv ?l ns"
    by (rule List_invI) (use l m(3) d in \<open>auto simp add: List_inv_def delete_element_def\<close>)
  with eq show ?thesis by blast
qed

lemma RemoveFront_empty: "List_inv l [] \<Longrightarrow> List_RemoveFront l = Inl Assert_failed"
  by (simp add: List_RemoveFront_def List_inv_IsEmpty)

lemma Remove_step:
  assumes l: "List_inv l (ms @ (b, y) # (a, x) # ns)"
  shows "\<exists>l'. List_Remove_loop (Suc fuel) l x (Some b) (Some a) = Inr l' \<and> List_inv l' (ms @ (b, y) # ns)"
proof -
  have seg: "lseg (l_store l) (l_first l) (ms @ (b, y) # (a, x) # ns) None"
    and d: "distinct (map fst (ms @ (b, y) # (a, x) # ns))" "distinct (map snd (ms @ (b, y) # (a, x) # ns))"
    and store: "dom (l_store l) = fst ` set (ms @ (b, y) # (a, x) # ns)"
      "fst ` set (ms @ (b, y) # (a, x) # ns) \<subseteq> {..<l_fresh l}"
      "l_last l = Some (fst (last ((a, x) # ns)))" "numInList l = int (length (ms @ (b, y) # (a, x) # ns))"
    using l by (simp_all add: List_inv_def)
  from seg obtain m where m: "lseg (l_store l) (l_first l) ms (Some b)"
    "l_store l b = Some \<lparr>le_item = y, le_next = Some a\<rparr>"
    "l_store l a = Some \<lparr>le_item = x, le_next = m\<rparr>" "lseg (l_store l) m ns None"
    by (auto simp add: lseg_split)
  have m_None: "m = None \<longleftrightarrow> ns = []" using m(4) by (cases ns) auto
  have ab: "a \<noteq> b" using d by auto
  let ?l = "l\<lparr>l_store := (l_store l)(b \<mapsto> \<lparr>le_item = y, le_next = m\<rparr>, a := None),
    l_last := (if ns = [] then Some b else l_last l), numInList := numInList l - 1\<rparr>"
  have eq: "List_Remove_loop (Suc fuel) l x (Some b) (Some a) = Inr ?l"
    using m ab m_None by (auto simp add: delete_element_def)
  have "List_inv ?l (ms @ (b, y) # ns)"
  proof (rule List_invI)
    show "lseg (l_store ?l) (l_first ?l) (ms @ (b, y) # ns) None"
      using m d ab by (simp add: lseg_split)
    show "dom (l_store ?l) = fst ` set (ms @ (b, y) # ns)"
      using store(1) d ab by auto
  qed (use store d in auto)
  with eq show ?thesis by blast
qed

lemma Remove_loop_inv:
  "List_inv l (ms @ (b, y) # ns1 @ (a, x) # ns2) \<Longrightarrow> length ns1 < fuel \<Longrightarrow>
   \<exists>l'. List_Remove_loop fuel l x (Some b) (Some (fst (hd (ns1 @ [(a, x)])))) = Inr l'
     \<and> List_inv l' (ms @ (b, y) # ns1 @ ns2)"
proof (induction ns1 arbitrary: ms b y fuel)
  case Nil
  then show ?case using Remove_step [of l ms b y a x ns2] by (cases fuel) auto
next
  case (Cons n ns1)
  obtain c z where n: "n = (c, z)" by (cases n)
  obtain f where f: "fuel = Suc f" "length ns1 < f" using Cons.prems(2) by (cases fuel) auto
  have seg: "lseg (l_store l) (l_first l) (ms @ (b, y) # (c, z) # ns1 @ (a, x) # ns2) None"
    and xz: "x \<noteq> z" using Cons.prems(1) n by (auto simp add: List_inv_def)
  have nx: "l_store l c = Some \<lparr>le_item = z, le_next = Some (fst (hd (ns1 @ [(a, x)])))\<rparr>"
    using seg by (cases ns1) (auto simp add: lseg_split)
  have "List_inv l ((ms @ [(b, y)]) @ (c, z) # ns1 @ (a, x) # ns2)" using Cons.prems(1) n by simp
  from Cons.IH [OF this f(2)] show ?case using nx xz f n by simp
qed

lemma Remove_inv:
  assumes l: "List_inv l (ns1 @ (a, x) # ns2)"
  shows "\<exists>l'. List_Remove l x = Inr l' \<and> List_inv l' (ns1 @ ns2)"
proof -
  have x: "x \<notin> snd ` set (ns1 @ ns2)" and isin: "List_IsInList l x = Inr True"
    using l List_inv_IsInList [OF l, of x] by (auto simp add: List_inv_def)
  have gone: "List_IsInList l' x = Inr False" if "List_inv l' (ns1 @ ns2)" for l'
    using x List_inv_IsInList [OF that, of x] by simp
  show ?thesis
  proof (cases ns1)
    case Nil
    then obtain l' where l': "List_RemoveFront l = Inr (x, l')" "List_inv l' (ns1 @ ns2)"
      using RemoveFront_inv [of l a x ns2] l by auto
    from l Nil obtain m where "l_first l = Some a" "l_store l a = Some \<lparr>le_item = x, le_next = m\<rparr>"
      by (auto simp add: List_inv_def)
    then show ?thesis using isin l' gone [OF l'(2)] by (simp add: List_Remove_def)
  next
    case (Cons n ms)
    obtain b y where n: "n = (b, y)" by (cases n)
    have seg: "lseg (l_store l) (l_first l) ((b, y) # ms @ (a, x) # ns2) None" and y: "x \<noteq> y"
      using l Cons n by (auto simp add: List_inv_def)
    have f: "l_first l = Some b" "l_store l b = Some \<lparr>le_item = y, le_next = Some (fst (hd (ms @ [(a, x)])))\<rparr>"
      using seg by (cases ms; auto)+
    have "length (ns1 @ (a, x) # ns2) \<le> l_fresh l"
      using l by (intro length_le_fresh) (simp_all add: List_inv_def)
    then have "length ms < walk_fuel l" using Cons by (simp add: walk_fuel_def)
    then obtain l' where l': "List_Remove_loop (walk_fuel l) l x (Some b) (Some (fst (hd (ms @ [(a, x)])))) = Inr l'"
      "List_inv l' (ns1 @ ns2)"
      using Remove_loop_inv [of l "[]" b y ms a x ns2 "walk_fuel l"] l Cons n by auto
    then show ?thesis using isin gone [OF l'(2)] f y by (simp add: List_Remove_def)
  qed
qed

lemma Remove_absent: "List_inv l ns \<Longrightarrow> x \<notin> snd ` set ns \<Longrightarrow> List_Remove l x = Inl Assert_failed"
  by (simp add: List_Remove_def List_inv_IsInList)

lemma Apply_loop_eq:
  "lseg (l_store l) p ns None \<Longrightarrow> length ns < fuel \<Longrightarrow> List_Apply_loop fuel l p = Inr (map snd ns)"
proof (induction ns arbitrary: p fuel)
  case Nil
  then show ?case by (cases fuel) simp_all
next
  case (Cons n ns)
  obtain a y where n: "n = (a, y)" by (cases n)
  obtain m f where m: "p = Some a" "l_store l a = Some \<lparr>le_item = y, le_next = m\<rparr>"
    "lseg (l_store l) m ns None" and f: "fuel = Suc f" "length ns < f"
    using Cons.prems n by (cases fuel) auto
  show ?case using Cons.IH [OF m(3) f(2)] m f n by auto
qed

lemma Apply_inv: "List_inv l ns \<Longrightarrow> List_Apply l = Inr (map snd ns)"
  unfolding List_Apply_def by (rule Apply_loop_eq [OF _ List_inv_fuel]) (simp_all add: List_inv_def)

lemma SanityCheck_loop_eq:
  "lseg (l_store l) p ns (l_last l) \<Longrightarrow> l_last l \<notin> Some ` fst ` set ns \<Longrightarrow> length ns < fuel \<Longrightarrow>
   k + int (length ns) \<le> numInList l \<Longrightarrow>
   List_SanityCheck_loop fuel l k p = Inr (k + int (length ns))"
proof (induction ns arbitrary: p fuel k)
  case Nil
  then show ?case by (cases fuel) simp_all
next
  case (Cons n ns)
  obtain a y where n: "n = (a, y)" by (cases n)
  obtain m f where m: "p = Some a" "l_store l a = Some \<lparr>le_item = y, le_next = m\<rparr>"
    "lseg (l_store l) m ns (l_last l)" and f: "fuel = Suc f" "length ns < f"
    using Cons.prems n by (cases fuel) auto
  have "l_last l \<notin> Some ` fst ` set ns" "k + 1 + int (length ns) \<le> numInList l" "p \<noteq> l_last l"
    using Cons.prems n m(1) by auto
  with Cons.IH [OF m(3) _ f(2), of "k + 1"] show ?case using m f n by auto
qed

lemma SanityCheck_inv:
  assumes l: "List_inv l ns"
  shows "List_SanityCheck l = Inr ()"
proof (cases ns rule: rev_cases)
  case Nil
  then show ?thesis using l by (simp add: List_inv_def List_SanityCheck_def)
next
  case (snoc ms m)
  obtain b y where m: "m = (b, y)" by (cases m)
  have seg: "lseg (l_store l) (l_first l) ms (Some b)" "l_store l b = Some \<lparr>le_item = y, le_next = None\<rparr>"
    and lst: "l_last l = Some b" "numInList l = 1 + int (length ms)" "b \<notin> fst ` set ms"
    using l snoc m by (auto simp add: List_inv_def lseg_split)
  show ?thesis
  proof (cases ms)
    case Nil
    then show ?thesis using seg lst by (simp add: List_SanityCheck_def)
  next
    case (Cons n ks)
    have "l_first l = Some (fst n)" using seg(1) Cons by (cases n) auto
    moreover have "fst n \<noteq> b" using lst(3) Cons by auto
    moreover have "List_SanityCheck_loop (walk_fuel l) l 1 (l_first l) = Inr (1 + int (length ms))"
      by (rule SanityCheck_loop_eq) (use seg lst List_inv_fuel [OF l] snoc in auto)
    ultimately show ?thesis using seg lst by (simp add: List_SanityCheck_def)
  qed
qed

section \<open>Insertion into a sorted list\<close>

lemma Insert_loop_miss:
  "List_alloc l (ms @ (b, y) # ns) a x \<Longrightarrow> \<forall>z \<in> snd ` set ns. \<not> cmp x z < 0 \<Longrightarrow> length ns < fuel \<Longrightarrow>
   SortedList_Insert_loop fuel cmp l x a (Some b) = Inr (False, l)"
proof (induction ns arbitrary: ms b y fuel)
  case Nil
  then show ?case by (cases fuel) (auto simp add: List_alloc_def lseg_split)
next
  case (Cons n ns)
  obtain c z where n: "n = (c, z)" by (cases n)
  obtain f where f: "fuel = Suc f" "length ns < f" using Cons.prems(3) by (cases fuel) auto
  obtain k where "l_store l b = Some \<lparr>le_item = y, le_next = Some c\<rparr>" "l_store l c = Some \<lparr>le_item = z, le_next = k\<rparr>"
    using Cons.prems(1) n by (auto simp add: List_alloc_def lseg_split)
  then show ?case using Cons.IH [of "ms @ [(b, y)]" c z f] Cons.prems n f by auto
qed

lemma Insert_loop_hit:
  "List_alloc l (ms @ (b, y) # ns1 @ (c, z) # ns2) a x \<Longrightarrow> x \<notin> snd ` set (ms @ (b, y) # ns1 @ (c, z) # ns2) \<Longrightarrow>
   \<forall>w \<in> snd ` set ns1. \<not> cmp x w < 0 \<Longrightarrow> cmp x z < 0 \<Longrightarrow> length ns1 < fuel \<Longrightarrow>
   \<exists>l'. SortedList_Insert_loop fuel cmp l x a (Some b) = Inr (True, l')
     \<and> List_inv l' (ms @ (b, y) # ns1 @ (a, x) # (c, z) # ns2)"
proof (induction ns1 arbitrary: ms b y fuel)
  case Nil
  obtain k where k: "l_store l b = Some \<lparr>le_item = y, le_next = Some c\<rparr>"
    "l_store l c = Some \<lparr>le_item = z, le_next = k\<rparr>" "l_store l a = Some \<lparr>le_item = x, le_next = None\<rparr>" "a \<noteq> b"
    using Nil.prems(1) by (auto simp add: List_alloc_def lseg_split)
  show ?case
    using link_between [of l ms b y "(c, z) # ns2" a x "Some c"] Nil.prems k by (cases fuel) simp_all
next
  case (Cons n ns1)
  obtain d w where n: "n = (d, w)" by (cases n)
  obtain f where f: "fuel = Suc f" "length ns1 < f" using Cons.prems(5) by (cases fuel) auto
  obtain k where "l_store l b = Some \<lparr>le_item = y, le_next = Some d\<rparr>" "l_store l d = Some \<lparr>le_item = w, le_next = k\<rparr>"
    using Cons.prems(1) n by (auto simp add: List_alloc_def lseg_split)
  then show ?case using Cons.IH [of "ms @ [(b, y)]" d w f] Cons.prems n f by auto
qed

lemma Insert_inv:
  assumes l: "List_inv l ns" and x: "x \<notin> snd ` set ns"
  shows "\<exists>l' ns'. SortedList_Insert cmp l x = Inr l' \<and> List_inv l' ns' \<and> map snd ns' = sorted_ins cmp x (map snd ns)"
proof -
  let ?a = "l_fresh l"
  obtain l1 where n: "new_element l x = (?a, l1)" and a: "List_alloc l1 ns ?a x"
    using new_element_alloc [OF l] by blast
  have el: "l_store l1 ?a = Some \<lparr>le_item = x, le_next = None\<rparr>" using a by (simp add: List_alloc_def)
  note I = SortedList_Insert_def n Let_def List_alloc_IsInList [OF a] List_alloc_IsEmpty [OF a]
  show ?thesis
  proof (cases ns)
    case Nil
    note inv = link_only [OF a [unfolded Nil]]
    show ?thesis using inv x Nil List_inv_IsInList [OF inv, of x] by (auto simp add: I sorted_ins_def)
  next
    case (Cons m ms)
    obtain b y where m: "m = (b, y)" by (cases m)
    obtain k where b: "l_first l1 = Some b" "l_store l1 b = Some \<lparr>le_item = y, le_next = k\<rparr>"
      using a Cons m by (auto simp add: List_alloc_def)
    have fuel: "length ms < walk_fuel l1" using List_alloc_fuel [OF a] Cons by simp
    consider (front) "cmp x y < 0"
      | (mid) ns1 c z ns2 where "\<not> cmp x y < 0" "ms = ns1 @ (c, z) # ns2" "\<forall>w \<in> snd ` set ns1. \<not> cmp x w < 0" "cmp x z < 0"
      | (rear) "\<not> cmp x y < 0" "\<forall>z \<in> snd ` set ms. \<not> cmp x z < 0"
    proof (cases "\<exists>z \<in> set ms. cmp x (snd z) < 0")
      case True
      then show ?thesis using that split_list_first_prop [of ms "\<lambda>z. cmp x (snd z) < 0"] by fastforce
    qed (use that in force)
    then show ?thesis
    proof cases
      case front
      note inv = link_front [OF a _ x]
      show ?thesis using front inv x Cons m b el List_inv_IsInList [OF inv, of x] by (force simp add: I sorted_ins_def)
    next
      case mid
      from Insert_loop_hit [of l1 "[]" b y ns1 c z ns2 ?a x cmp "walk_fuel l1"] obtain l' where
        "SortedList_Insert_loop (walk_fuel l1) cmp l1 x ?a (Some b) = Inr (True, l')"
        "List_inv l' ((b, y) # ns1 @ (?a, x) # (c, z) # ns2)"
        using a x mid Cons m fuel by auto
      then show ?thesis using mid x Cons m b by (force simp add: I sorted_ins_def takeWhile_append dropWhile_append)
    next
      case rear
      have miss: "SortedList_Insert_loop (walk_fuel l1) cmp l1 x ?a (Some b) = Inr (False, l1)"
        using Insert_loop_miss [of l1 "[]" b y ms ?a x cmp "walk_fuel l1"] a rear Cons m fuel by auto
      obtain ks c z where ks: "ns = ks @ [(c, z)]" using Cons by (cases ns rule: rev_cases) (simp, metis surj_pair)
      note link = link_last [OF a [unfolded ks] x [unfolded ks]]
      have lst: "l_last l1 = Some c" using a ks by (simp add: List_alloc_def)
      have "sorted_ins cmp x (map snd ns) = map snd ns @ [x]"
        unfolding sorted_ins_def using rear Cons m
        by (subst takeWhile_eq_all_conv [THEN iffD2], force) (subst dropWhile_eq_Nil_conv [THEN iffD2], force, simp)
      then have si: "map snd (ks @ [(c, z), (?a, x)]) = sorted_ins cmp x (map snd ns)" using ks by simp
      have "SortedList_Insert cmp l x = Inr (l1\<lparr>l_store := (l_store l1)(c \<mapsto> \<lparr>le_item = z, le_next = Some ?a\<rparr>),
          l_last := Some ?a, numInList := numInList l1 + 1\<rparr>)"
        using rear miss link(1) x b lst Cons List_inv_IsInList [OF link(2), of x] by (auto simp add: I)
      with link(2) si show ?thesis by blast
    qed
  qed
qed

section \<open>The linked list keeps the contract\<close>

lemma List_rep_sim:
  assumes "List_rep l xs"
  shows "distinct xs" "rel_res List_rep (List_Append l x) (lst_append xs x)"
    "rel_res List_rep (List_Prepend l x) (lst_prepend xs x)"
    "rel_res List_rep (List_Remove l x) (lst_remove xs x)"
    "rel_res List_rep (SortedList_Insert cmp l x) (lst_insert cmp xs x)"
    "rel_res (rel_prod (=) List_rep) (List_RemoveFront l) (lst_remove_front xs)"
proof -
  obtain ns where ns: "List_inv l ns" and xs: "xs = map snd ns" using assms by (auto simp add: List_rep_def)
  show "distinct xs" using ns xs by (simp add: List_inv_def)
  note dup = dup_aborts [OF ns]
  show "rel_res List_rep (List_Append l x) (lst_append xs x)"
    using dup Append_inv [OF ns, of x] xs by (force simp add: lst_append_def List_rep_def)
  show "rel_res List_rep (List_Prepend l x) (lst_prepend xs x)"
    using dup Prepend_inv [OF ns, of x] xs by (force simp add: lst_prepend_def List_rep_def)
  show "rel_res List_rep (SortedList_Insert cmp l x) (lst_insert cmp xs x)"
    using dup Insert_inv [OF ns, of x cmp] xs by (force simp add: lst_insert_def List_rep_def)
  show "rel_res List_rep (List_Remove l x) (lst_remove xs x)"
  proof (cases "x \<in> set xs")
    case True
    then obtain ns1 a ns2 where dec: "ns = ns1 @ (a, x) # ns2" using xs by (force simp add: in_set_conv_decomp)
    then have "x \<notin> set (map snd ns1)" using \<open>distinct xs\<close> xs by simp
    then have "remove1 x xs = map snd (ns1 @ ns2)" using dec xs by (simp add: remove1_append)
    then show ?thesis using Remove_inv [of l ns1 a x ns2] ns dec True
      by (auto simp add: lst_remove_def List_rep_def intro!: exI [of _ "ns1 @ ns2"])
  next
    case False
    then show ?thesis using Remove_absent [OF ns] xs by (simp add: lst_remove_def)
  qed
  show "rel_res (rel_prod (=) List_rep) (List_RemoveFront l) (lst_remove_front xs)"
  proof (cases ns)
    case Nil
    then show ?thesis using RemoveFront_empty [of l] ns xs by (simp add: lst_remove_front_def)
  next
    case (Cons n ms)
    then show ?thesis using RemoveFront_inv [of l "fst n" "snd n" ms] ns xs
      by (auto simp add: lst_remove_front_def List_rep_def)
  qed
qed

interpretation nl: list_contract List_rep List_Append List_Prepend List_Remove "SortedList_Insert cmp" List_RemoveFront cmp
  for cmp :: "'a \<Rightarrow> 'a \<Rightarrow> int"
  by unfold_locales (auto dest: List_rep_sim)

lemma List_new_rep: "List_rep List_new []"
  by (simp add: List_rep_def List_inv_def List_new_def)

lemma List_rep_obs:
  assumes "List_rep l xs"
  shows "List_IsInList l x = Inr (x \<in> set xs)" "List_IsEmpty l \<longleftrightarrow> xs = []" "List_NumInList l = int (length xs)"
    "List_Apply l = Inr xs" "List_SanityCheck l = Inr ()"
    "List_Front l = (case xs of [] \<Rightarrow> Inl Null_deref | y # _ \<Rightarrow> Inr y)"
proof -
  obtain ns where ns: "List_inv l ns" and xs: "xs = map snd ns" using assms by (auto simp add: List_rep_def)
  show "List_IsInList l x = Inr (x \<in> set xs)" "List_IsEmpty l \<longleftrightarrow> xs = []" "List_Apply l = Inr xs"
    "List_SanityCheck l = Inr ()" 
    using ns xs by (simp_all add: List_inv_IsInList List_inv_IsEmpty Apply_inv SanityCheck_inv)
  show "List_NumInList l = int (length xs)" "List_Front l = (case xs of [] \<Rightarrow> Inl Null_deref | y # _ \<Rightarrow> Inr y)"
    using ns xs by (cases ns; auto simp add: List_inv_def List_NumInList_def List_Front_def get_element_def)+
qed

section \<open>Comparison functions\<close>

text \<open>
  What \<open>SortedList\<close> needs of the comparison function that it is built with.  The items that compare
  equal stay in the order of their insertion.
\<close>

lemma sorted_ins_mset: "mset (sorted_ins cmp x ys) = add_mset x (mset ys)"
proof -
  let ?P = "\<lambda>y. \<not> cmp x y < 0"
  have "mset (takeWhile ?P ys) + mset (dropWhile ?P ys) = mset ys"
    by (metis mset_append takeWhile_dropWhile_id)
  then show ?thesis by (simp add: sorted_ins_def)
qed

lemma sorted_ins_set: "set (sorted_ins cmp x ys) = insert x (set ys)"
  by (metis set_mset_add_mset_insert set_mset_mset sorted_ins_mset)

locale comparison =
  fixes cmp :: "'a \<Rightarrow> 'a \<Rightarrow> int"
  assumes cmp_swap: "\<not> cmp x y < 0 \<Longrightarrow> cmp y x \<le> 0"
    and cmp_trans: "cmp x y \<le> 0 \<Longrightarrow> cmp y z \<le> 0 \<Longrightarrow> cmp x z \<le> 0"
begin

lemma cmp_less: "cmp x y < 0 \<Longrightarrow> cmp x y \<le> 0"
  by simp

lemma ins_sorted:
  assumes "sorted_wrt (\<lambda>x y. cmp x y \<le> 0) ys"
  shows "sorted_wrt (\<lambda>x y. cmp x y \<le> 0) (sorted_ins cmp x ys)"
  using assms
proof (induction ys)
  case Nil
  then show ?case by (simp add: sorted_ins_def)
next
  case (Cons y ys)
  show ?case
  proof (cases "cmp x y < 0")
    case True
    have "cmp x z \<le> 0" if "z \<in> set ys" for z
      using cmp_trans [OF cmp_less [OF True]] Cons.prems that by simp
    with True show ?thesis using Cons.prems by (simp add: sorted_ins_def)
  next
    case False
    then have "sorted_ins cmp x (y # ys) = y # sorted_ins cmp x ys" by (simp add: sorted_ins_def)
    then show ?thesis using Cons cmp_swap [OF False] by (simp add: sorted_ins_set)
  qed
qed

lemma inserts_sorted:
  "foldE (\<lambda>x ys. lst_insert cmp ys x) xs ys = Inr zs \<Longrightarrow> sorted_wrt (\<lambda>x y. cmp x y \<le> 0) ys \<Longrightarrow>
   sorted_wrt (\<lambda>x y. cmp x y \<le> 0) zs"
  by (induction xs arbitrary: ys) (auto simp add: bindE_eq_Inr lst_insert_def ins_sorted split: if_splits)

end

lemma inserts_mset:
  "distinct (ys @ xs) \<Longrightarrow> \<exists>zs. foldE (\<lambda>x ys. lst_insert cmp ys x) xs ys = Inr zs \<and> mset zs = mset ys + mset xs"
proof (induction xs arbitrary: ys)
  case (Cons x xs)
  have "distinct (sorted_ins cmp x ys @ xs)"
    using Cons.prems mset_eq_imp_distinct_iff [of "sorted_ins cmp x ys @ xs" "ys @ x # xs"]
    by (simp add: sorted_ins_mset)
  then show ?case using Cons.IH [of "sorted_ins cmp x ys"] Cons.prems
    by (auto simp add: lst_insert_def sorted_ins_mset)
qed simp

lemma inserts_dup:
  "distinct ys \<Longrightarrow> \<not> distinct (ys @ xs) \<Longrightarrow> foldE (\<lambda>x ys. lst_insert cmp ys x) xs ys = Inl Assert_failed"
proof (induction xs arbitrary: ys)
  case (Cons x xs)
  have "distinct (sorted_ins cmp x ys @ xs) \<longleftrightarrow> distinct (ys @ x # xs)" "distinct (sorted_ins cmp x ys) \<longleftrightarrow> distinct (x # ys)"
    by (rule mset_eq_imp_distinct_iff, simp add: sorted_ins_mset)+
  with Cons.prems have "x \<notin> set ys \<Longrightarrow> distinct (sorted_ins cmp x ys) \<and> \<not> distinct (sorted_ins cmp x ys @ xs)"
    by simp
  with Cons.IH [of "sorted_ins cmp x ys"] show ?case by (cases "x \<in> set ys") (simp_all add: lst_insert_def)
qed simp

interpretation int_cmp: comparison IntCompare
  by unfold_locales (auto simp add: IntCompare_def split: if_splits)

lemma sorted_wrt_IntCompare: "sorted_wrt (\<lambda>x y. IntCompare x y \<le> 0) xs \<longleftrightarrow> sorted xs"
proof -
  have "(\<lambda>x y. IntCompare x y \<le> 0) = (\<le>)" by (auto simp add: IntCompare_def fun_eq_iff)
  then show ?thesis by simp
qed

section \<open>The self tests\<close>

text \<open>\<open>SanityCheck\<close> of a sorted list passes on the lists that are sorted.\<close>

lemma Sorted_SanityCheck_loop_eq:
  "lseg (l_store l) p ns None \<Longrightarrow> l_store l b = Some \<lparr>le_item = y, le_next = p\<rparr> \<Longrightarrow>
   sorted_wrt (\<lambda>x y. cmp x y \<le> 0) (y # map snd ns) \<Longrightarrow> length ns < fuel \<Longrightarrow>
   SortedList_SanityCheck_loop fuel cmp l (Some b) p = Inr ()"
proof (induction ns arbitrary: p b y fuel)
  case Nil
  then show ?case by (cases fuel) simp_all
next
  case (Cons n ns)
  obtain a z where n: "n = (a, z)" by (cases n)
  obtain m f where m: "p = Some a" "l_store l a = Some \<lparr>le_item = z, le_next = m\<rparr>"
    "lseg (l_store l) m ns None" and f: "fuel = Suc f" "length ns < f"
    using Cons.prems n by (cases fuel) auto
  show ?case using Cons.IH [OF m(3,2) _ f(2)] Cons.prems m f n by simp
qed

lemma Sorted_SanityCheck_rep:
  assumes "List_rep l xs" and xs: "sorted_wrt (\<lambda>x y. cmp x y \<le> 0) xs"
  shows "SortedList_SanityCheck cmp l = Inr ()"
proof -
  obtain ns where ns: "List_inv l ns" and eq: "xs = map snd ns" using assms(1) by (auto simp add: List_rep_def)
  show ?thesis
  proof (cases ns)
    case Nil
    then show ?thesis using ns by (simp add: SortedList_SanityCheck_def SanityCheck_inv [OF ns] List_inv_def)
  next
    case (Cons n ms)
    obtain b y where n: "n = (b, y)" by (cases n)
    obtain p where p: "l_first l = Some b" "l_store l b = Some \<lparr>le_item = y, le_next = p\<rparr>"
      "lseg (l_store l) p ms None" using ns Cons n by (auto simp add: List_inv_def)
    have "length ms < walk_fuel l" using List_inv_fuel [OF ns] Cons by simp
    then have "SortedList_SanityCheck_loop (walk_fuel l) cmp l (Some b) p = Inr ()"
      using Sorted_SanityCheck_loop_eq [OF p(3,2)] xs eq Cons n by simp
    then show ?thesis using p SanityCheck_inv [OF ns] by (simp add: SortedList_SanityCheck_def)
  qed
qed

lemma adjacent_le_sorted: "sorted_wrt (\<lambda>x y. cmp x y \<le> 0) xs \<Longrightarrow> adjacent_le cmp xs"
  by (induction cmp xs rule: adjacent_le.induct) auto

text \<open>
  The body of \<open>SelfTest\<close> works for any way of adding an item that keeps the represented list a
  permutation and satisfies an invariant under which the sanity check passes.
\<close>

lemma SelfTest_adds:
  assumes add: "\<And>l xs x. List_rep l xs \<Longrightarrow> Q xs \<Longrightarrow> x \<notin> set xs \<Longrightarrow>
      \<exists>l' ys. add l x = Inr l' \<and> List_rep l' ys \<and> Q ys \<and> mset ys = add_mset x (mset xs)"
  shows "List_rep l xs \<Longrightarrow> Q xs \<Longrightarrow> distinct (xs @ p) \<Longrightarrow>
    \<exists>l' ys. foldE (\<lambda>x l. bindE (add l x) (\<lambda>l. bindE (List_IsInList l x) (\<lambda>i.
              bindE (assertE i) (\<lambda>_. bindE (assertE (\<not> List_IsEmpty l)) (\<lambda>_. Inr l))))) p l = Inr l'
      \<and> List_rep l' ys \<and> Q ys \<and> mset ys = mset xs + mset p"
proof (induction p arbitrary: l xs)
  case (Cons x p)
  from add [OF Cons.prems(1,2), of x] Cons.prems(3) obtain l1 ys where
    l1: "add l x = Inr l1" "List_rep l1 ys" "Q ys" "mset ys = add_mset x (mset xs)" by auto
  have "x \<in> set ys" "ys \<noteq> []" using l1(4) by (metis list.set_intros(1) mset.simps(2) mset_eq_setD, auto)
  moreover have "distinct (ys @ p)"
    using Cons.prems(3) mset_eq_imp_distinct_iff [of "ys @ p" "xs @ x # p"] l1(4) by simp
  ultimately show ?case using Cons.IH [OF l1(2,3)] l1 by (auto simp add: List_rep_obs)
qed auto

lemma SelfTest_removes:
  "List_rep l xs \<Longrightarrow> mset xs = mset p \<Longrightarrow>
    \<exists>l'. foldE (\<lambda>x l. bindE (List_Remove l x) (\<lambda>l. bindE (List_IsInList l x) (\<lambda>i.
              bindE (assertE (\<not> i)) (\<lambda>_. Inr l)))) p l = Inr l' \<and> List_rep l' []"
proof (induction p arbitrary: l xs)
  case (Cons x p)
  have x: "x \<in> set xs" using Cons.prems(2) by (metis list.set_intros(1) mset_eq_setD)
  obtain l1 where l1: "List_Remove l x = Inr l1" "List_rep l1 (remove1 x xs)"
    using List_rep_sim(4) [OF Cons.prems(1), of x] x by (auto simp add: lst_remove_def rel_res_Inr2)
  have "x \<notin> set (remove1 x xs)" using List_rep_sim(1) [OF Cons.prems(1)] by simp
  moreover have "mset (remove1 x xs) = mset p" using Cons.prems(2) by simp
  ultimately show ?case using Cons.IH [OF l1(2)] l1 by (auto simp add: List_rep_obs)
qed simp

lemma SelfTest_rep:
  assumes "List_rep l []" "Q []" "distinct p"
    and "\<And>l xs x. List_rep l xs \<Longrightarrow> Q xs \<Longrightarrow> x \<notin> set xs \<Longrightarrow>
      \<exists>l' ys. add l x = Inr l' \<and> List_rep l' ys \<and> Q ys \<and> mset ys = add_mset x (mset xs)"
    and sane: "\<And>l xs. List_rep l xs \<Longrightarrow> Q xs \<Longrightarrow> sanity l = Inr ()"
  shows "\<exists>l'. List_SelfTest add sanity l p = Inr l' \<and> List_rep l' []"
proof -
  from SelfTest_adds [where add = add and Q = Q, OF assms(4,1,2), of p] assms(3) obtain l1 ys where
    l1: "foldE (\<lambda>x l. bindE (add l x) (\<lambda>l. bindE (List_IsInList l x) (\<lambda>i.
              bindE (assertE i) (\<lambda>_. bindE (assertE (\<not> List_IsEmpty l)) (\<lambda>_. Inr l))))) p l = Inr l1"
      "List_rep l1 ys" "Q ys" "mset ys = mset p" by auto
  from SelfTest_removes [OF l1(2,4)] obtain l2 where
    l2: "foldE (\<lambda>x l. bindE (List_Remove l x) (\<lambda>l. bindE (List_IsInList l x) (\<lambda>i.
              bindE (assertE (\<not> i)) (\<lambda>_. Inr l)))) p l1 = Inr l2" "List_rep l2 []" by blast
  have "l_first l = None" using assms(1) by (auto simp add: List_rep_def List_inv_def)
  then have "List_SelfTest add sanity l p = Inr l2"
    using assms(1,2) l1 l2 by (simp add: List_SelfTest_def sane [where xs = "[]"] sane [where xs = ys] List_rep_obs)
  with l2(2) show ?thesis by blast
qed

lemma List_SelfTest_rep:
  assumes "List_rep l []" "distinct p"
  shows "\<exists>l'. List_SelfTest List_Append List_SanityCheck l p = Inr l' \<and> List_rep l' []"
proof (rule SelfTest_rep [where Q = "\<lambda>_. True", OF assms(1) _ assms(2)])
  show "\<exists>l' ys. List_Append l x = Inr l' \<and> List_rep l' ys \<and> True \<and> mset ys = add_mset x (mset xs)"
    if "List_rep l xs" "x \<notin> set xs" for l :: "'a nlist" and xs x
    using nl.app_sim [OF that(1), of x] that(2)
    by (auto simp add: lst_append_def rel_res_Inr2 intro!: exI [of _ "xs @ [x]"])
qed (simp_all add: List_rep_obs)

text \<open>The second half of the sorted list's self test takes the items out in order.\<close>

lemma SelfTest_fronts:
  "List_rep l xs \<Longrightarrow> length p = length xs \<Longrightarrow>
    \<exists>l'. foldE (\<lambda>_ (q, l). bindE (List_RemoveFront l) (\<lambda>(y, l). bindE (List_IsInList l y) (\<lambda>i.
              bindE (assertE (\<not> i)) (\<lambda>_. Inr (q @ [y], l))))) p (q, l) = Inr (q @ xs, l') \<and> List_rep l' []"
proof (induction p arbitrary: l xs q)
  case (Cons z p)
  then obtain x ys where xs: "xs = x # ys" by (cases xs) auto
  then have d: "distinct (x # ys)" using nl.rep_distinct [OF Cons.prems(1)] by simp
  obtain l1 where l1: "List_RemoveFront l = Inr (x, l1)" "List_rep l1 ys"
    using nl.rmf_sim [OF Cons.prems(1)] xs by (auto simp add: lst_remove_front_def rel_res_Inr2)
  show ?case using Cons.IH [OF l1(2), of "q @ [x]"] Cons.prems(2) xs l1 d by (auto simp add: List_rep_obs)
qed simp

lemma foldE_inserts_in:
  "List_rep l xs \<Longrightarrow> distinct (xs @ p) \<Longrightarrow>
   foldE (\<lambda>x l. bindE (SortedList_Insert cmp l x) (\<lambda>l. bindE (List_IsInList l x) (\<lambda>i.
              bindE (assertE i) (\<lambda>_. Inr l)))) p l = foldE (\<lambda>x l. SortedList_Insert cmp l x) p l"
proof (induction p arbitrary: l xs)
  case (Cons x p)
  obtain l1 where l1: "SortedList_Insert cmp l x = Inr l1" "List_rep l1 (sorted_ins cmp x xs)"
    using nl.ins_sim [OF Cons.prems(1), of cmp x] Cons.prems(2) by (auto simp add: lst_insert_def rel_res_Inr2)
  have "distinct (sorted_ins cmp x xs @ p)"
    using Cons.prems(2) mset_eq_imp_distinct_iff [of "sorted_ins cmp x xs @ p" "xs @ x # p"]
    by (simp add: sorted_ins_mset)
  from Cons.IH [OF l1(2) this] show ?case by (simp add: l1(1) List_rep_obs(1) [OF l1(2)] sorted_ins_set)
qed simp

lemma SortedList_SelfTest_rep:
  assumes l: "List_rep l []" and p: "distinct p" and cmp: "comparison cmp"
  shows "\<exists>l'. SortedList_SelfTest cmp l p = Inr l' \<and> List_rep l' []"
proof -
  let ?Q = "sorted_wrt (\<lambda>x y. cmp x y \<le> 0)"
  have step: "\<exists>l' ys. SortedList_Insert cmp l x = Inr l' \<and> List_rep l' ys \<and> ?Q ys \<and> mset ys = add_mset x (mset xs)"
    if "List_rep l xs" "?Q xs" "x \<notin> set xs" for l xs x
    using nl.ins_sim [OF that(1), of cmp x] comparison.ins_sorted [OF cmp that(2)] that(3)
    by (auto simp add: lst_insert_def sorted_ins_mset rel_res_Inr2 intro!: exI [of _ "sorted_ins cmp x xs"])
  obtain l1 where l1: "List_SelfTest (SortedList_Insert cmp) (SortedList_SanityCheck cmp) l p = Inr l1" "List_rep l1 []"
    using SelfTest_rep [where Q = ?Q and add = "SortedList_Insert cmp" and sanity = "SortedList_SanityCheck cmp",
      OF l _ p step] Sorted_SanityCheck_rep [of _ _ cmp] by auto
  obtain zs where zs: "foldE (\<lambda>x ys. lst_insert cmp ys x) p [] = Inr zs" "mset zs = mset p"
    using inserts_mset [of "[]" p cmp] p by auto
  have Q: "?Q zs" using comparison.inserts_sorted [OF cmp zs(1)] by simp
  obtain l2 where l2: "foldE (\<lambda>x l. SortedList_Insert cmp l x) p l1 = Inr l2" "List_rep l2 zs"
    using nl.inserts_sim [OF l1(2), of cmp p] zs(1) by (auto simp add: rel_res_Inr2)
  have "length p = length zs" using zs(2) by (metis size_mset)
  from SelfTest_fronts [OF l2(2) this, of "[]"] obtain l3 where
    l3: "foldE (\<lambda>_ (q, l). bindE (List_RemoveFront l) (\<lambda>(y, l). bindE (List_IsInList l y) (\<lambda>i.
              bindE (assertE (\<not> i)) (\<lambda>_. Inr (q @ [y], l))))) p ([], l2) = Inr (zs, l3)" "List_rep l3 []" by auto
  have "SortedList_SelfTest cmp l p = Inr l3"
    using l1(1) l2 l3 foldE_inserts_in [OF l1(2), of p cmp] p Q
      Sorted_SanityCheck_rep [OF l2(2) Q] Sorted_SanityCheck_rep [OF l3(2), of cmp]
    by (simp add: SortedList_SelfTest_def List_rep_obs adjacent_le_sorted)
  with l3(2) show ?thesis by blast
qed

section \<open>Properties\<close>

text \<open>
  C22.  Every sequence of calls of \<open>Append\<close>, \<open>Prepend\<close>, \<open>Insert\<close>, \<open>Remove\<close> and \<open>RemoveFront\<close> on a new
  linked list behaves as the same calls on a plain sequence of items: the calls abort at the same
  point or not at all, \<open>RemoveFront\<close> returns the same items, and the pointers, \<open>last\<close>, the count and the
  store of elements represent the resulting sequence.  In particular no call dereferences a dangling
  or null pointer and no walk along the list fails to end.
\<close>

theorem List_runs_refine:
  "rel_res (rel_prod (=) List_rep)
     (list_run (list_call List_Append List_Prepend List_RemoveFront List_Remove (SortedList_Insert cmp)) cs List_new)
     (list_run (list_call lst_append lst_prepend lst_remove_front lst_remove (lst_insert cmp)) cs [])"
  by (rule nl.run_sim [OF List_new_rep])

text \<open>
  C34.  Inserting integers one after the other into a new sorted list gives the sorted list of them
  when they are all different, and aborts when two are equal.
\<close>

theorem SortedList_sorts:
  "if distinct xs
   then \<exists>l. foldE (\<lambda>x l. SortedList_Insert IntCompare l x) xs List_new = Inr l \<and> List_Apply l = Inr (sort xs)
     \<and> SortedList_SanityCheck IntCompare l = Inr ()
   else foldE (\<lambda>x l. SortedList_Insert IntCompare l x) xs List_new = Inl Assert_failed"
proof (cases "distinct xs")
  case True
  then obtain zs where zs: "foldE (\<lambda>x ys. lst_insert IntCompare ys x) xs [] = Inr zs" "mset zs = mset xs"
    using inserts_mset [of "[]" xs IntCompare] by auto
  have Q: "sorted_wrt (\<lambda>x y. IntCompare x y \<le> 0) zs" using int_cmp.inserts_sorted [OF zs(1)] by simp
  then have eq: "zs = sort xs" using zs(2) by (simp add: sorted_wrt_IntCompare properties_for_sort)
  obtain l where l: "foldE (\<lambda>x l. SortedList_Insert IntCompare l x) xs List_new = Inr l" "List_rep l zs"
    using nl.inserts_sim [OF List_new_rep, of IntCompare xs] zs(1) by (auto simp add: rel_res_Inr2)
  show ?thesis using True l eq List_rep_obs(4) [OF l(2)] Sorted_SanityCheck_rep [OF l(2) Q] by auto
next
  case False
  then have "foldE (\<lambda>x ys. lst_insert IntCompare ys x) xs [] = Inl Assert_failed"
    using inserts_dup [of "[]" xs IntCompare] by simp
  then show ?thesis using False nl.inserts_sim [OF List_new_rep, of IntCompare xs] by (simp add: rel_res_Inl2)
qed

end
