(* ===== verification/Slot_Map.thy ===== *)
theory Slot_Map
  imports NachOS_Prelude
begin

text \<open>
  The contract of a bitmap, as its clients use it: the sector map of the file system, the map of
  physical pages, the process table and the semaphore table all allocate numbered slots through
  \<open>FindAndSet\<close>, test and release them through \<open>Test\<close> and \<open>Clear\<close>.  The locale states what they may
  rely on; \<^verbatim>\<open>Bitmap.thy\<close> interprets it on the bit array of \<^verbatim>\<open>code/lib/bitmap.cc\<close>.  What clients
  need of a whole loop of allocations or releases is proved here once.
\<close>

text \<open>A loop of \<open>n\<close> allocations, and one of releases guarded by a test, as clients write them.\<close>

fun alloc_loop :: "('b \<Rightarrow> (int \<times> 'b) res) \<Rightarrow> nat \<Rightarrow> 'b \<Rightarrow> (int list \<times> 'b) res" where
  "alloc_loop find_set 0 b = Inr ([], b)"
| "alloc_loop find_set (Suc n) b =
     bindE (find_set b) (\<lambda>(i, b'). bindE (alloc_loop find_set n b') (\<lambda>(is, b''). Inr (i # is, b'')))"

fun release_loop :: "('b \<Rightarrow> int \<Rightarrow> bool res) \<Rightarrow> ('b \<Rightarrow> int \<Rightarrow> 'b res) \<Rightarrow> int list \<Rightarrow> 'b \<Rightarrow> 'b res" where
  "release_loop test clear [] b = Inr b"
| "release_loop test clear (i # is) b =
     bindE (test b i) (\<lambda>t. bindE (assertE t) (\<lambda>_. bindE (clear b i) (release_loop test clear is)))"

locale slot_map =
  fixes inv :: "'b \<Rightarrow> bool"
    and slots :: "'b \<Rightarrow> int"
    and used :: "'b \<Rightarrow> int set"
    and test :: "'b \<Rightarrow> int \<Rightarrow> bool res"
    and mark :: "'b \<Rightarrow> int \<Rightarrow> 'b res"
    and clear :: "'b \<Rightarrow> int \<Rightarrow> 'b res"
    and find_set :: "'b \<Rightarrow> (int \<times> 'b) res"
    and numclear :: "'b \<Rightarrow> int res"
  assumes used_range: "inv b \<Longrightarrow> used b \<subseteq> {0..<slots b}"
    and test_in: "inv b \<Longrightarrow> i \<in> {0..<slots b} \<Longrightarrow> test b i = Inr (i \<in> used b)"
    and test_out: "inv b \<Longrightarrow> i \<notin> {0..<slots b} \<Longrightarrow> test b i = Inl Assert_failed"
    and mark_in: "inv b \<Longrightarrow> i \<in> {0..<slots b} \<Longrightarrow>
      \<exists>b'. mark b i = Inr b' \<and> inv b' \<and> slots b' = slots b \<and> used b' = insert i (used b)"
    and mark_out: "inv b \<Longrightarrow> i \<notin> {0..<slots b} \<Longrightarrow> mark b i = Inl Assert_failed"
    and clear_in: "inv b \<Longrightarrow> i \<in> {0..<slots b} \<Longrightarrow>
      \<exists>b'. clear b i = Inr b' \<and> inv b' \<and> slots b' = slots b \<and> used b' = used b - {i}"
    and clear_out: "inv b \<Longrightarrow> i \<notin> {0..<slots b} \<Longrightarrow> clear b i = Inl Assert_failed"
    and find_full: "inv b \<Longrightarrow> used b = {0..<slots b} \<Longrightarrow> find_set b = Inr (-1, b)"
    and find_free: "inv b \<Longrightarrow> used b \<noteq> {0..<slots b} \<Longrightarrow>
      \<exists>b'. find_set b = Inr (Min ({0..<slots b} - used b), b') \<and> inv b' \<and> slots b' = slots b
        \<and> used b' = insert (Min ({0..<slots b} - used b)) (used b)"
    and numclear_eq: "inv b \<Longrightarrow> numclear b = Inr (slots b - int (card (used b)))"
begin

lemma finite_used: "inv b \<Longrightarrow> finite (used b)"
  using used_range finite_subset by blast

lemma card_used_le: "inv b \<Longrightarrow> int (card (used b)) \<le> slots b \<or> slots b < 0"
proof -
  assume "inv b"
  then have "card (used b) \<le> card {0..<slots b}"
    by (intro card_mono used_range) simp_all
  then show ?thesis by auto
qed

text \<open>A free slot is found as soon as the count of free slots is positive.\<close>

lemma find_when_clear:
  assumes "inv b" and "int (card (used b)) < slots b"
  shows "\<exists>i b'. find_set b = Inr (i, b') \<and> inv b' \<and> slots b' = slots b \<and> used b' = insert i (used b)
    \<and> i \<in> {0..<slots b} \<and> i \<notin> used b \<and> {0..<i} \<subseteq> used b"
proof -
  let ?F = "{0..<slots b} - used b"
  have "used b \<noteq> {0..<slots b}" using assms(2) by (auto split: if_splits)
  then have ne: "?F \<noteq> {}" using used_range [OF assms(1)] by auto
  have fin: "finite ?F" by simp
  have in_F: "Min ?F \<in> ?F" using fin ne by (rule Min_in)
  moreover have "{0..<Min ?F} \<subseteq> used b"
  proof (rule subsetI, rule ccontr)
    fix j
    assume j: "j \<in> {0..<Min ?F}" "j \<notin> used b"
    with in_F have "j \<in> ?F" by auto
    then have "Min ?F \<le> j" using fin by simp
    with j(1) show False by simp
  qed
  ultimately show ?thesis using find_free [OF assms(1) \<open>used b \<noteq> _\<close>] by blast
qed

text \<open>
  Allocating no more slots than are free succeeds, and gives distinct slots that were free before.
\<close>

lemma alloc_loop_ok:
  "inv b \<Longrightarrow> int n + int (card (used b)) \<le> slots b \<Longrightarrow>
   \<exists>is b'. alloc_loop find_set n b = Inr (is, b') \<and> inv b' \<and> slots b' = slots b \<and> length is = n
     \<and> distinct is \<and> set is \<subseteq> {0..<slots b} - used b \<and> used b' = used b \<union> set is"
proof (induction n arbitrary: b)
  case 0
  then show ?case by simp
next
  case (Suc n)
  have "int (card (used b)) < slots b" using Suc.prems by simp
  then obtain i b1 where b1: "find_set b = Inr (i, b1)" "inv b1" "slots b1 = slots b"
    "used b1 = insert i (used b)" "i \<in> {0..<slots b}" "i \<notin> used b"
    using find_when_clear [OF Suc.prems(1)] by metis
  have "card (used b1) = Suc (card (used b))"
    using b1 finite_used [OF Suc.prems(1)] by simp
  then have "int n + int (card (used b1)) \<le> slots b1" using Suc.prems(2) b1(3) by simp
  from Suc.IH [OF b1(2) this] obtain "is" b2 where
    b2: "alloc_loop find_set n b1 = Inr (is, b2)" "inv b2" "slots b2 = slots b1" "length is = n"
      "distinct is" "set is \<subseteq> {0..<slots b1} - used b1" "used b2 = used b1 \<union> set is"
    by blast
  have "alloc_loop find_set (Suc n) b = Inr (i # is, b2)" by (simp add: b1(1) b2(1))
  moreover have "distinct (i # is)" "set (i # is) \<subseteq> {0..<slots b} - used b"
    "used b2 = used b \<union> set (i # is)"
    using b1 b2 by auto
  ultimately show ?case using b1(3) b2(2-4) by auto
qed

text \<open>Releasing distinct slots that are in use succeeds and frees exactly those.\<close>

lemma release_loop_ok:
  "inv b \<Longrightarrow> distinct is \<Longrightarrow> set is \<subseteq> used b \<Longrightarrow>
   \<exists>b'. release_loop test clear is b = Inr b' \<and> inv b' \<and> slots b' = slots b \<and> used b' = used b - set is"
proof (induction "is" arbitrary: b)
  case Nil
  then show ?case by simp
next
  case (Cons i js)
  have i: "i \<in> {0..<slots b}" using Cons.prems(3) used_range [OF Cons.prems(1)] by auto
  obtain b1 where b1: "clear b i = Inr b1" "inv b1" "slots b1 = slots b" "used b1 = used b - {i}"
    using clear_in [OF Cons.prems(1) i] by blast
  have "distinct js" "set js \<subseteq> used b1" using Cons.prems b1(4) by auto
  from Cons.IH [OF b1(2) this] obtain b2 where
    b2: "release_loop test clear js b1 = Inr b2" "inv b2" "slots b2 = slots b1" "used b2 = used b1 - set js"
    by blast
  have "release_loop test clear (i # js) b = Inr b2"
    using Cons.prems(3) by (simp add: test_in [OF Cons.prems(1) i] b1(1) b2(1))
  with b1 b2 show ?case by auto
qed

text \<open>Releasing what was just allocated restores the set of used slots.\<close>

lemma alloc_release:
  assumes "inv b" and "int n + int (card (used b)) \<le> slots b"
  shows "\<exists>is b' b''. alloc_loop find_set n b = Inr (is, b')
    \<and> release_loop test clear is b' = Inr b'' \<and> inv b'' \<and> slots b'' = slots b \<and> used b'' = used b"
proof -
  from alloc_loop_ok [OF assms] obtain "is" b' where
    a: "alloc_loop find_set n b = Inr (is, b')" "inv b'" "slots b' = slots b" "distinct is"
      "set is \<subseteq> {0..<slots b} - used b" "used b' = used b \<union> set is"
    by blast
  have "set is \<subseteq> used b'" using a(6) by simp
  from release_loop_ok [OF a(2) a(4) this] obtain b'' where
    r: "release_loop test clear is b' = Inr b''" "inv b''" "slots b'' = slots b'" "used b'' = used b' - set is"
    by blast
  have "used b'' = used b" using a(5,6) r(4) by auto
  with a(1,3) r(1-3) show ?thesis by auto
qed

text \<open>Marking, or clearing, the slots of a list, and every slot in turn.\<close>

lemma mark_list:
  "inv b \<Longrightarrow> set is \<subseteq> {0..<slots b} \<Longrightarrow>
   \<exists>b'. foldE (\<lambda>i b. mark b i) is b = Inr b' \<and> inv b' \<and> slots b' = slots b \<and> used b' = used b \<union> set is"
proof (induction "is" arbitrary: b)
  case (Cons i js)
  obtain b1 where b1: "mark b i = Inr b1" "inv b1" "slots b1 = slots b" "used b1 = insert i (used b)"
    using mark_in [OF Cons.prems(1), of i] Cons.prems(2) by auto
  then show ?case using Cons.IH [OF b1(2)] Cons.prems(2) by auto
qed simp

lemma clear_list:
  "inv b \<Longrightarrow> set is \<subseteq> {0..<slots b} \<Longrightarrow>
   \<exists>b'. foldE (\<lambda>i b. clear b i) is b = Inr b' \<and> inv b' \<and> slots b' = slots b \<and> used b' = used b - set is"
proof (induction "is" arbitrary: b)
  case (Cons i js)
  obtain b1 where b1: "clear b i = Inr b1" "inv b1" "slots b1 = slots b" "used b1 = used b - {i}"
    using clear_in [OF Cons.prems(1), of i] Cons.prems(2) by auto
  then show ?case using Cons.IH [OF b1(2)] Cons.prems(2) by auto
qed simp

lemma mark_all:
  assumes "inv b"
  shows "\<exists>b'. foldE (\<lambda>i b. mark b i) [0..slots b - 1] b = Inr b' \<and> inv b' \<and> slots b' = slots b
    \<and> used b' = {0..<slots b}"
proof -
  let ?P = "\<lambda>k c. inv c \<and> slots c = slots b \<and> {0..<int k} \<subseteq> used c"
  have step: "\<exists>c'. mark c ([0..slots b - 1] ! k) = Inr c' \<and> ?P (Suc k) c'"
    if k: "k < length [0..slots b - 1]" and c: "?P k c" for k c
  proof -
    have nth: "[0..slots b - 1] ! k = int k" using k by simp
    have "int k \<in> {0..<slots c}" using k c by auto
    with c obtain c' where c': "mark c (int k) = Inr c'" "inv c'" "slots c' = slots c"
      "used c' = insert (int k) (used c)" using mark_in by blast
    have "{0..<int (Suc k)} = insert (int k) {0..<int k}" by auto
    then show ?thesis using c c' nth by auto
  qed
  have "?P 0 b" using assms by simp
  then have "\<exists>b'. foldE (\<lambda>i b. mark b i) [0..slots b - 1] b = Inr b' \<and> ?P (length [0..slots b - 1]) b'"
    by (rule foldE_invariant [where P = ?P]) (rule step)
  then obtain b' where
    b': "foldE (\<lambda>i b. mark b i) [0..slots b - 1] b = Inr b'" "?P (length [0..slots b - 1]) b'" by blast
  then have "{0..<slots b} \<subseteq> used b'" by auto
  moreover have "used b' \<subseteq> {0..<slots b}" using used_range [of b'] b'(2) by simp
  ultimately show ?thesis using b' by auto
qed

lemma clear_all:
  assumes "inv b"
  shows "\<exists>b'. foldE (\<lambda>i b. clear b i) [0..slots b - 1] b = Inr b' \<and> inv b' \<and> slots b' = slots b
    \<and> used b' = {}"
proof -
  let ?P = "\<lambda>k c. inv c \<and> slots c = slots b \<and> used c \<inter> {0..<int k} = {}"
  have step: "\<exists>c'. clear c ([0..slots b - 1] ! k) = Inr c' \<and> ?P (Suc k) c'"
    if k: "k < length [0..slots b - 1]" and c: "?P k c" for k c
  proof -
    have nth: "[0..slots b - 1] ! k = int k" using k by simp
    have "int k \<in> {0..<slots c}" using k c by auto
    with c obtain c' where c': "clear c (int k) = Inr c'" "inv c'" "slots c' = slots c"
      "used c' = used c - {int k}" using clear_in by blast
    have "{0..<int (Suc k)} = insert (int k) {0..<int k}" by auto
    then show ?thesis using c c' nth by auto
  qed
  have "?P 0 b" using assms by simp
  then have "\<exists>b'. foldE (\<lambda>i b. clear b i) [0..slots b - 1] b = Inr b' \<and> ?P (length [0..slots b - 1]) b'"
    by (rule foldE_invariant [where P = ?P]) (rule step)
  then obtain b' where
    b': "foldE (\<lambda>i b. clear b i) [0..slots b - 1] b = Inr b'" "?P (length [0..slots b - 1]) b'" by blast
  then have "{0..<slots b} \<inter> used b' = {}" by auto
  moreover have "used b' \<subseteq> {0..<slots b}" using used_range [of b'] b'(2) by simp
  ultimately show ?thesis using b' by auto
qed

end

end
