(* ===== verification/Bitmap.thy ===== *)
theory Bitmap
  imports Slot_Map
begin

text \<open>
  \<^verbatim>\<open>code/lib/bitmap.h\<close> and \<^verbatim>\<open>code/lib/bitmap.cc\<close>: an array of 32-bit words used as an array of bits.
  The record has the three fields of the class; every method is one definition, with its assertions.
  The lemmas show that the bit array implements a set of integers (\<open>Bitmap_used\<close>), and that the class
  satisfies the contract \<open>slot_map\<close> which its clients use.
\<close>

section \<open>Model\<close>

definition BitsInByte :: int where "BitsInByte = 8"
definition BitsInWord :: int where "BitsInWord = 4 * BitsInByte"

record bitmap =
  numBits :: int
  numWords :: int
  bitmap_map :: "32 word list"

definition Bitmap_Test :: "bitmap \<Rightarrow> int \<Rightarrow> bool res" where
  "Bitmap_Test b which =
     bindE (assertE (which \<ge> 0 \<and> which < numBits b)) (\<lambda>_.
     bindE (readA (bitmap_map b) (which sdiv BitsInWord)) (\<lambda>w.
     Inr (w AND push_bit (nat (which smod BitsInWord)) 1 \<noteq> 0)))"

definition Bitmap_Mark :: "bitmap \<Rightarrow> int \<Rightarrow> bitmap res" where
  "Bitmap_Mark b which =
     bindE (assertE (which \<ge> 0 \<and> which < numBits b)) (\<lambda>_.
     bindE (readA (bitmap_map b) (which sdiv BitsInWord)) (\<lambda>w.
     bindE (writeA (bitmap_map b) (which sdiv BitsInWord)
              (w OR push_bit (nat (which smod BitsInWord)) 1)) (\<lambda>m.
     let b' = b\<lparr>bitmap_map := m\<rparr> in
     bindE (Bitmap_Test b' which) (\<lambda>t.
     bindE (assertE t) (\<lambda>_. Inr b')))))"

definition Bitmap_Clear :: "bitmap \<Rightarrow> int \<Rightarrow> bitmap res" where
  "Bitmap_Clear b which =
     bindE (assertE (which \<ge> 0 \<and> which < numBits b)) (\<lambda>_.
     bindE (readA (bitmap_map b) (which sdiv BitsInWord)) (\<lambda>w.
     bindE (writeA (bitmap_map b) (which sdiv BitsInWord)
              (w AND NOT (push_bit (nat (which smod BitsInWord)) 1))) (\<lambda>m.
     let b' = b\<lparr>bitmap_map := m\<rparr> in
     bindE (Bitmap_Test b' which) (\<lambda>t.
     bindE (assertE (\<not> t)) (\<lambda>_. Inr b')))))"

text \<open>
  The constructor: the words are zeroed, then every bit is cleared.  The words that \<^verbatim>\<open>new\<close> returns
  are not initialised; their values are the argument \<open>garbage\<close>, and nothing depends on them.
\<close>

definition Bitmap_new :: "32 word list \<Rightarrow> int \<Rightarrow> bitmap res" where
  "Bitmap_new garbage numItems =
     bindE (assertE (numItems > 0)) (\<lambda>_.
     let nw = divRoundUp numItems BitsInWord;
         m0 = take (nat nw) (garbage @ replicate (nat nw) 0) in
     bindE (foldE (\<lambda>i m. writeA m i 0) [0..nw - 1] m0) (\<lambda>m.
     foldE (\<lambda>i b. Bitmap_Clear b i) [0..numItems - 1]
       \<lparr>numBits = numItems, numWords = nw, bitmap_map = m\<rparr>))"

function Bitmap_FindAndSet_loop :: "bitmap \<Rightarrow> int \<Rightarrow> (int \<times> bitmap) res" where
  "Bitmap_FindAndSet_loop b i =
     (if i < numBits b then
        bindE (Bitmap_Test b i) (\<lambda>t.
        if \<not> t then bindE (Bitmap_Mark b i) (\<lambda>b'. Inr (i, b'))
        else Bitmap_FindAndSet_loop b (i + 1))
      else Inr (-1, b))"
  by pat_completeness auto
termination
  by (relation "measure (\<lambda>(b, i). nat (numBits b - i))") auto

definition Bitmap_FindAndSet :: "bitmap \<Rightarrow> (int \<times> bitmap) res" where
  "Bitmap_FindAndSet b = Bitmap_FindAndSet_loop b 0"

definition Bitmap_NumClear :: "bitmap \<Rightarrow> int res" where
  "Bitmap_NumClear b =
     foldE (\<lambda>i count. bindE (Bitmap_Test b i) (\<lambda>t. Inr (if \<not> t then count + 1 else count)))
       [0..numBits b - 1] 0"

text \<open>\<open>Print\<close> writes the numbers of the set bits; the model returns them in order.\<close>

definition Bitmap_Print :: "bitmap \<Rightarrow> int list res" where
  "Bitmap_Print b =
     foldE (\<lambda>i out. bindE (Bitmap_Test b i) (\<lambda>t. Inr (if t then out @ [i] else out)))
       [0..numBits b - 1] []"

definition Bitmap_SelfTest :: "bitmap \<Rightarrow> bitmap res" where
  "Bitmap_SelfTest b =
     bindE (assertE (numBits b \<ge> BitsInWord)) (\<lambda>_.
     bindE (Bitmap_NumClear b) (\<lambda>n.
     bindE (assertE (n = numBits b)) (\<lambda>_.
     bindE (Bitmap_FindAndSet b) (\<lambda>(i0, b).
     bindE (assertE (i0 = 0)) (\<lambda>_.
     bindE (Bitmap_Mark b 31) (\<lambda>b.
     bindE (Bitmap_Test b 0) (\<lambda>t0.
     bindE (if t0 then Bitmap_Test b 31 else Inr False) (\<lambda>t31.
     bindE (assertE t31) (\<lambda>_.
     bindE (Bitmap_FindAndSet b) (\<lambda>(i1, b).
     bindE (assertE (i1 = 1)) (\<lambda>_.
     bindE (Bitmap_Clear b 0) (\<lambda>b.
     bindE (Bitmap_Clear b 1) (\<lambda>b.
     bindE (Bitmap_Clear b 31) (\<lambda>b.
     bindE (foldE (\<lambda>i b. Bitmap_Mark b i) [0..numBits b - 1] b) (\<lambda>b.
     bindE (Bitmap_FindAndSet b) (\<lambda>(i2, b).
     bindE (assertE (i2 = -1)) (\<lambda>_.
     foldE (\<lambda>i b. Bitmap_Clear b i) [0..numBits b - 1] b)))))))))))))))))"

text \<open>What the bit array means: the set of the numbers whose bit is set.\<close>

definition Bitmap_bit :: "bitmap \<Rightarrow> int \<Rightarrow> bool" where
  "Bitmap_bit b i = bit (bitmap_map b ! nat (i div 32)) (nat (i mod 32))"

definition Bitmap_used :: "bitmap \<Rightarrow> int set" where
  "Bitmap_used b = {i \<in> {0..<numBits b}. Bitmap_bit b i}"

definition Bitmap_inv :: "bitmap \<Rightarrow> bool" where
  "Bitmap_inv b \<longleftrightarrow> numBits b > 0 \<and> numWords b = divRoundUp (numBits b) 32
     \<and> int (length (bitmap_map b)) = numWords b"

section \<open>The bit array is a set\<close>

lemmas Bitmap_defs = Bitmap_Test_def Bitmap_Mark_def Bitmap_Clear_def

lemma BitsInWord_32 [simp]: "BitsInWord = 32"
  by (simp add: BitsInWord_def BitsInByte_def)

lemma word_index_bound:
  assumes "Bitmap_inv b" and "0 \<le> i" and "i < numBits b"
  shows "i div 32 < int (length (bitmap_map b))"
proof -
  have "numBits b \<le> int (length (bitmap_map b)) * 32"
    using assms divRoundUp_covers [of "numBits b" 32] by (simp add: Bitmap_inv_def)
  with assms(3) have "i < int (length (bitmap_map b)) * 32" by simp
  then show ?thesis by (simp add: div_less_iff_less_mult)
qed

lemma same_word_bit:
  fixes i j :: int
  assumes "0 \<le> i" and "0 \<le> j"
  shows "nat (i div 32) = nat (j div 32) \<and> nat (i mod 32) = nat (j mod 32) \<longleftrightarrow> i = j"
proof -
  have "i = j" if "i div 32 = j div 32" "i mod 32 = j mod 32"
    using that by (metis mult_div_mod_eq)
  moreover have "0 \<le> i div 32" "0 \<le> j div 32" using assms by (simp_all add: pos_imp_zdiv_nonneg_iff)
  ultimately show ?thesis by (auto simp add: eq_nat_nat_iff)
qed

lemma Bitmap_Test_in:
  assumes "Bitmap_inv b" and "i \<in> {0..<numBits b}"
  shows "Bitmap_Test b i = Inr (i \<in> Bitmap_used b)"
proof -
  have "0 \<le> i" "i < numBits b" using assms(2) by auto
  moreover have "0 \<le> i div 32" "i div 32 < int (length (bitmap_map b))"
    using word_index_bound [OF assms(1)] calculation by (simp_all add: pos_imp_zdiv_nonneg_iff)
  ultimately show ?thesis
    by (simp add: Bitmap_Test_def Bitmap_used_def Bitmap_bit_def word_and_exp)
qed

lemma Bitmap_op_out:
  assumes "i \<notin> {0..<numBits b}"
  shows "Bitmap_Test b i = Inl Assert_failed" "Bitmap_Mark b i = Inl Assert_failed"
    "Bitmap_Clear b i = Inl Assert_failed"
  using assms by (auto simp add: Bitmap_defs)

text \<open>Setting and clearing one bit of one word, as an update of the set.\<close>

lemma update_word:
  assumes b: "Bitmap_inv b" and i: "i \<in> {0..<numBits b}"
    and f: "\<And>w k. bit (f w) k \<longleftrightarrow> (if k = nat (i mod 32) then v else bit w k)"
  defines "b' \<equiv> b\<lparr>bitmap_map := (bitmap_map b)[nat (i div 32) := f (bitmap_map b ! nat (i div 32))]\<rparr>"
  shows "Bitmap_inv b'" and "Bitmap_used b' = (if v then insert i (Bitmap_used b) else Bitmap_used b - {i})"
proof -
  show "Bitmap_inv b'" using b by (simp add: Bitmap_inv_def b'_def)
  have len: "nat (i div 32) < length (bitmap_map b)"
    using word_index_bound [OF b] i by (simp add: nat_less_iff pos_imp_zdiv_nonneg_iff)
  have "Bitmap_bit b' j \<longleftrightarrow> (if j = i then v else Bitmap_bit b j)" if "0 \<le> j" for j
    using same_word_bit [of j i] that i len
    by (auto simp add: Bitmap_bit_def b'_def nth_list_update f)
  then show "Bitmap_used b' = (if v then insert i (Bitmap_used b) else Bitmap_used b - {i})"
    using i by (auto simp add: Bitmap_used_def b'_def split: if_splits)
qed

lemma Bitmap_Mark_in:
  assumes b: "Bitmap_inv b" and i: "i \<in> {0..<numBits b}"
  shows "\<exists>b'. Bitmap_Mark b i = Inr b' \<and> Bitmap_inv b' \<and> numBits b' = numBits b
    \<and> Bitmap_used b' = insert i (Bitmap_used b)"
proof -
  let ?f = "\<lambda>w. w OR 2 ^ nat (i mod 32) :: 32 word"
  let ?b = "b\<lparr>bitmap_map := (bitmap_map b)[nat (i div 32) := ?f (bitmap_map b ! nat (i div 32))]\<rparr>"
  have "nat (i mod 32) < 32" by simp
  then have f: "bit (?f w) k \<longleftrightarrow> (if k = nat (i mod 32) then True else bit w k)" for w k
    by (simp add: bit_or_exp)
  note u = update_word [where f = ?f and v = True, OF b i f]
  have "0 \<le> i div 32" "i div 32 < int (length (bitmap_map b))"
    using word_index_bound [OF b] i by (simp_all add: pos_imp_zdiv_nonneg_iff)
  then have "Bitmap_Mark b i = bindE (Bitmap_Test ?b i) (\<lambda>t. bindE (assertE t) (\<lambda>_. Inr ?b))"
    using i by (simp add: Bitmap_Mark_def Let_def)
  also have "\<dots> = Inr ?b" using i by (simp add: Bitmap_Test_in [OF u(1)] u(2))
  finally show ?thesis using u by auto
qed

lemma Bitmap_Clear_in:
  assumes b: "Bitmap_inv b" and i: "i \<in> {0..<numBits b}"
  shows "\<exists>b'. Bitmap_Clear b i = Inr b' \<and> Bitmap_inv b' \<and> numBits b' = numBits b
    \<and> Bitmap_used b' = Bitmap_used b - {i}"
proof -
  let ?f = "\<lambda>w. w AND NOT (2 ^ nat (i mod 32)) :: 32 word"
  let ?b = "b\<lparr>bitmap_map := (bitmap_map b)[nat (i div 32) := ?f (bitmap_map b ! nat (i div 32))]\<rparr>"
  have f: "bit (?f w) k \<longleftrightarrow> (if k = nat (i mod 32) then False else bit w k)" for w k
    by (simp add: bit_and_not_exp)
  note u = update_word [where f = ?f and v = False, OF b i f]
  have "0 \<le> i div 32" "i div 32 < int (length (bitmap_map b))"
    using word_index_bound [OF b] i by (simp_all add: pos_imp_zdiv_nonneg_iff)
  then have "Bitmap_Clear b i = bindE (Bitmap_Test ?b i) (\<lambda>t. bindE (assertE (\<not> t)) (\<lambda>_. Inr ?b))"
    using i by (simp add: Bitmap_Clear_def Let_def)
  also have "\<dots> = Inr ?b" using i by (simp add: Bitmap_Test_in [OF u(1)] u(2))
  finally show ?thesis using u by auto
qed

section \<open>Searching and counting\<close>

declare Bitmap_FindAndSet_loop.simps [simp del]

lemma Bitmap_FindAndSet_loop_spec:
  assumes "Bitmap_inv b" and "0 \<le> i" and "{0..<i} \<subseteq> Bitmap_used b"
  shows "if Bitmap_used b = {0..<numBits b} then Bitmap_FindAndSet_loop b i = Inr (-1, b)
    else Bitmap_FindAndSet_loop b i
      = bindE (Bitmap_Mark b (Min ({0..<numBits b} - Bitmap_used b)))
          (\<lambda>b'. Inr (Min ({0..<numBits b} - Bitmap_used b), b'))"
  using assms
proof (induction b i rule: Bitmap_FindAndSet_loop.induct)
  case (1 b i)
  have sub: "Bitmap_used b \<subseteq> {0..<numBits b}" by (auto simp add: Bitmap_used_def)
  show ?case
  proof (cases "i < numBits b")
    case False
    then have "Bitmap_used b = {0..<numBits b}" using "1.prems"(3) sub by auto
    then show ?thesis using False by (simp add: Bitmap_FindAndSet_loop.simps [of b i])
  next
    case True
    then have t: "Bitmap_Test b i = Inr (i \<in> Bitmap_used b)"
      using Bitmap_Test_in [OF "1.prems"(1)] "1.prems"(2) by simp
    show ?thesis
    proof (cases "i \<in> Bitmap_used b")
      case used: True
      have "{0..<i + 1} \<subseteq> Bitmap_used b" using used "1.prems"(3) by (auto simp add: subset_iff less_le)
      with "1.IH" [OF True, where x = True] "1.prems"(1,2) t used
      show ?thesis using True by (simp add: Bitmap_FindAndSet_loop.simps [of b i])
    next
      case free: False
      have "Min ({0..<numBits b} - Bitmap_used b) = i"
      proof (rule Min_eqI)
        show "i \<in> {0..<numBits b} - Bitmap_used b" using True free "1.prems"(2) by simp
        show "i \<le> j" if "j \<in> {0..<numBits b} - Bitmap_used b" for j
          using that "1.prems"(3) by (auto simp add: subset_iff not_le [symmetric])
      qed simp
      moreover have "Bitmap_used b \<noteq> {0..<numBits b}" using True free "1.prems"(2) by auto
      ultimately show ?thesis
        using True free t by (simp add: Bitmap_FindAndSet_loop.simps [of b i])
    qed
  qed
qed

lemma count_loop:
  assumes "Bitmap_inv b" and "int n \<le> numBits b"
  shows "foldE (\<lambda>i count. bindE (Bitmap_Test b i) (\<lambda>t. Inr (if \<not> t then count + 1 else count)))
      [0..int n - 1] 0 = Inr (int n - int (card (Bitmap_used b \<inter> {0..<int n})))"
  using assms(2)
proof (induction n)
  case 0
  then show ?case by simp
next
  case (Suc n)
  have split: "[0..int n] = [0..int n - 1] @ [int n]"
    using upto_rec2 [of 0 "int n"] by simp
  have dom: "{0..<1 + int n} = insert (int n) {0..<int n}" by auto
  have t: "Bitmap_Test b (int n) = Inr (int n \<in> Bitmap_used b)"
    using Suc.prems by (intro Bitmap_Test_in [OF assms(1)]) simp
  show ?case using Suc by (simp add: split foldE_append t dom)
qed

lemma Bitmap_NumClear_eq:
  assumes "Bitmap_inv b"
  shows "Bitmap_NumClear b = Inr (numBits b - int (card (Bitmap_used b)))"
proof -
  have "0 \<le> numBits b" using assms by (simp add: Bitmap_inv_def)
  moreover have "Bitmap_used b \<inter> {0..<numBits b} = Bitmap_used b" by (auto simp add: Bitmap_used_def)
  ultimately show ?thesis
    using count_loop [OF assms, of "nat (numBits b)"] by (simp add: Bitmap_NumClear_def)
qed

text \<open>The class satisfies the contract of a slot map.\<close>

interpretation bm: slot_map Bitmap_inv numBits Bitmap_used Bitmap_Test Bitmap_Mark Bitmap_Clear
  Bitmap_FindAndSet Bitmap_NumClear
proof unfold_locales
  fix b i
  assume b: "Bitmap_inv b"
  show used: "Bitmap_used b \<subseteq> {0..<numBits b}" by (auto simp add: Bitmap_used_def)
  show "Bitmap_NumClear b = Inr (numBits b - int (card (Bitmap_used b)))" by (rule Bitmap_NumClear_eq [OF b])
  show "Bitmap_FindAndSet b = Inr (- 1, b)" if "Bitmap_used b = {0..<numBits b}"
    using Bitmap_FindAndSet_loop_spec [OF b, of 0] that by (simp add: Bitmap_FindAndSet_def)
  let ?i = "Min ({0..<numBits b} - Bitmap_used b)"
  show "\<exists>b'. Bitmap_FindAndSet b = Inr (?i, b') \<and> Bitmap_inv b' \<and> numBits b' = numBits b
      \<and> Bitmap_used b' = insert ?i (Bitmap_used b)" if "Bitmap_used b \<noteq> {0..<numBits b}"
  proof -
    have "?i \<in> {0..<numBits b} - Bitmap_used b" using that used by (intro Min_in) auto
    then have "?i \<in> {0..<numBits b}" by blast
    from Bitmap_Mark_in [OF b this] show ?thesis
      using Bitmap_FindAndSet_loop_spec [OF b, of 0] that by (auto simp add: Bitmap_FindAndSet_def)
  qed
qed (fact Bitmap_Test_in Bitmap_Mark_in Bitmap_Clear_in | rule Bitmap_op_out; assumption)+

section \<open>Construction and the self test\<close>

lemma Bitmap_new_bad: "n \<le> 0 \<Longrightarrow> Bitmap_new g n = Inl Assert_failed"
  by (simp add: Bitmap_new_def)

lemma Bitmap_new_ok:
  assumes "0 < n"
  shows "\<exists>b. Bitmap_new g n = Inr b \<and> Bitmap_inv b \<and> numBits b = n \<and> Bitmap_used b = {}"
proof -
  let ?nw = "divRoundUp n 32"
  let ?m0 = "take (nat ?nw) (g @ replicate (nat ?nw) 0) :: 32 word list"
  have nw: "0 \<le> ?nw" using assms by (intro divRoundUp_ge0) simp_all
  have "\<exists>m. foldE (\<lambda>i m. writeA m i 0) [0..?nw - 1] ?m0 = Inr m \<and> length m = nat ?nw"
    by (rule foldE_invariant [where P = "\<lambda>k m. length m = nat ?nw"]) (auto simp add: writeA_def)
  then obtain m where m: "foldE (\<lambda>i m. writeA m i 0) [0..?nw - 1] ?m0 = Inr m" "length m = nat ?nw"
    by blast
  let ?b = "\<lparr>numBits = n, numWords = ?nw, bitmap_map = m\<rparr>"
  have "Bitmap_inv ?b" using assms m(2) nw by (simp add: Bitmap_inv_def)
  from bm.clear_all [OF this] show ?thesis
    using assms m(1) by (auto simp add: Bitmap_new_def Let_def)
qed

lemma Bitmap_SelfTest_ok:
  assumes b: "Bitmap_inv b" and empty: "Bitmap_used b = {}" and big: "32 \<le> numBits b"
  shows "\<exists>b'. Bitmap_SelfTest b = Inr b' \<and> Bitmap_inv b' \<and> numBits b' = numBits b \<and> Bitmap_used b' = {}"
proof -
  have m0: "Min ({0..<numBits b}) = 0" using big by (intro Min_eqI) auto
  obtain b1 where b1: "Bitmap_FindAndSet b = Inr (0, b1)" "Bitmap_inv b1" "numBits b1 = numBits b"
    "Bitmap_used b1 = {0}"
    using bm.find_free [OF b] empty big m0 by auto
  obtain b2 where b2: "Bitmap_Mark b1 31 = Inr b2" "Bitmap_inv b2" "numBits b2 = numBits b"
    "Bitmap_used b2 = {0, 31}"
    using Bitmap_Mark_in [OF b1(2), of 31] b1 big by auto
  have "Min ({0..<numBits b} - {0, 31}) = 1" using big by (intro Min_eqI) auto
  moreover have "1 \<in> {0..<numBits b}" using big by simp
  then have "{0, 31} \<noteq> {0..<numBits b}" by (metis insertE singletonD zero_neq_one numeral_eq_one_iff semiring_norm(84))
  ultimately obtain b3 where b3: "Bitmap_FindAndSet b2 = Inr (1, b3)" "Bitmap_inv b3"
    "numBits b3 = numBits b" "Bitmap_used b3 = {0, 1, 31}"
    using bm.find_free [OF b2(2)] b2 by auto
  obtain b4 where b4: "Bitmap_Clear b3 0 = Inr b4" "Bitmap_inv b4" "numBits b4 = numBits b"
    using Bitmap_Clear_in [OF b3(2), of 0] b3 big by auto
  obtain b5 where b5: "Bitmap_Clear b4 1 = Inr b5" "Bitmap_inv b5" "numBits b5 = numBits b"
    using Bitmap_Clear_in [OF b4(2), of 1] b4 big by auto
  obtain b6 where b6: "Bitmap_Clear b5 31 = Inr b6" "Bitmap_inv b6" "numBits b6 = numBits b"
    using Bitmap_Clear_in [OF b5(2), of 31] b5 big by auto
  obtain b7 where b7: "foldE (\<lambda>i b. Bitmap_Mark b i) [0..numBits b - 1] b6 = Inr b7" "Bitmap_inv b7"
    "numBits b7 = numBits b" "Bitmap_used b7 = {0..<numBits b}"
    using bm.mark_all [OF b6(2)] b6 by auto
  have b8: "Bitmap_FindAndSet b7 = Inr (-1, b7)" using bm.find_full [OF b7(2)] b7 by simp
  have t: "Bitmap_Test b2 0 = Inr True" "Bitmap_Test b2 31 = Inr True"
    using Bitmap_Test_in [OF b2(2)] b2 big by auto
  show ?thesis
    using bm.clear_all [OF b7(2)] b1 b2 b3 b4 b5 b6 b7 b8 t empty big
    by (simp add: Bitmap_SelfTest_def Bitmap_NumClear_eq [OF b])
qed

section \<open>Properties\<close>

text \<open>
  C31.  The bit array implements a set: on a well-formed bitmap, \<open>Test\<close> answers membership, \<open>Mark\<close>
  inserts, \<open>Clear\<close> removes, each keeping the bitmap well formed and its other bits unchanged, and
  each of the three aborts exactly for an index outside the bitmap (the assertions after the update
  never fail).
\<close>

theorem Bitmap_refines_set:
  assumes "Bitmap_inv b"
  shows "Bitmap_Test b i = (if i \<in> {0..<numBits b} then Inr (i \<in> Bitmap_used b) else Inl Assert_failed)
    \<and> (if i \<in> {0..<numBits b}
       then (\<exists>b'. Bitmap_Mark b i = Inr b' \<and> Bitmap_inv b' \<and> numBits b' = numBits b
              \<and> Bitmap_used b' = insert i (Bitmap_used b))
          \<and> (\<exists>b'. Bitmap_Clear b i = Inr b' \<and> Bitmap_inv b' \<and> numBits b' = numBits b
              \<and> Bitmap_used b' = Bitmap_used b - {i})
       else Bitmap_Mark b i = Inl Assert_failed \<and> Bitmap_Clear b i = Inl Assert_failed)"
  using assms Bitmap_Test_in Bitmap_Mark_in Bitmap_Clear_in Bitmap_op_out by simp

theorem Bitmap_refines_set_witness:
  "Bitmap_Test \<lparr>numBits = 40, numWords = 2, bitmap_map = [5, 128]\<rparr> 39 = Inr True
    \<and> Bitmap_Mark \<lparr>numBits = 40, numWords = 2, bitmap_map = [5, 128]\<rparr> 40 = Inl Assert_failed"
proof -
  let ?b = "\<lparr>numBits = 40, numWords = 2, bitmap_map = [5, 128]\<rparr> :: bitmap"
  have inv: "Bitmap_inv ?b" by (simp add: Bitmap_inv_def divRoundUp_def)
  have "39 \<in> Bitmap_used ?b" by (simp add: Bitmap_used_def Bitmap_bit_def bit_numeral_rec)
  then show ?thesis
    using Bitmap_refines_set [OF inv, of 39] Bitmap_refines_set [OF inv, of 40] by simp
qed

text \<open>
  \<open>FindAndSet\<close> returns the least clear bit and sets it and no other; on a full bitmap, and only
  there, it returns -1 and changes nothing.  It never aborts.
\<close>

lemma Bitmap_FindAndSet_least:
  assumes "Bitmap_inv b"
  shows "if Bitmap_used b = {0..<numBits b} then Bitmap_FindAndSet b = Inr (-1, b)
    else (\<exists>i b'. Bitmap_FindAndSet b = Inr (i, b') \<and> 0 \<le> i \<and> i < numBits b \<and> i \<notin> Bitmap_used b
      \<and> {0..<i} \<subseteq> Bitmap_used b \<and> Bitmap_inv b' \<and> numBits b' = numBits b
      \<and> Bitmap_used b' = insert i (Bitmap_used b))"
proof (cases "Bitmap_used b = {0..<numBits b}")
  case True
  then show ?thesis using bm.find_full [OF assms] by simp
next
  case False
  then have "Bitmap_used b \<subset> {0..<numBits b}" using bm.used_range [OF assms] by blast
  then have "card (Bitmap_used b) < card {0..<numBits b}" by (intro psubset_card_mono) simp_all
  then have "int (card (Bitmap_used b)) < numBits b" by simp
  from bm.find_when_clear [OF assms this] show ?thesis using False by auto
qed

lemma Bitmap_FindAndSet_least_witness:
  "\<exists>b'. Bitmap_FindAndSet \<lparr>numBits = 40, numWords = 2, bitmap_map = [4294967295, 1]\<rparr> = Inr (33, b')"
proof -
  let ?b = "\<lparr>numBits = 40, numWords = 2, bitmap_map = [4294967295, 1]\<rparr> :: bitmap"
  have inv: "Bitmap_inv ?b" by (simp add: Bitmap_inv_def divRoundUp_def)
  have free: "33 \<notin> Bitmap_used ?b" by (simp add: Bitmap_used_def Bitmap_bit_def bit_numeral_rec bit_1_iff)
  have used: "i \<in> Bitmap_used ?b" if "0 \<le> i" "i < 33" for i
  proof -
    have "bit (4294967295 :: 32 word) n \<longleftrightarrow> n < 32" for n
      using bit_mask_iff [of 32 n, where 'a = "32 word"] by (simp add: mask_eq_exp_minus_1)
    then show ?thesis using that
      by (cases "i = 32") (auto simp add: Bitmap_used_def Bitmap_bit_def bit_1_iff)
  qed
  have "Bitmap_used ?b \<noteq> {0..<numBits ?b}" using free by auto
  then obtain i b' where i: "Bitmap_FindAndSet ?b = Inr (i, b')" "i \<notin> Bitmap_used ?b" "{0..<i} \<subseteq> Bitmap_used ?b" "0 \<le> i"
    using Bitmap_FindAndSet_least [OF inv] by auto
  have "\<not> i < 33" using used [of i] i(2,4) by blast
  moreover have "33 \<in> {0..<i}" if "33 < i" using that by simp
  then have "\<not> 33 < i" using i(3) free by blast
  ultimately show ?thesis using i(1) by auto
qed

text \<open>
  A new bitmap of at least 32 bits passes its own self test, whatever the memory it is built in
  held, and is empty again afterwards; a bitmap of no bits cannot be built.
\<close>

lemma Bitmap_new_SelfTest:
  "if 32 \<le> n
   then (\<exists>b b'. Bitmap_new g n = Inr b \<and> Bitmap_used b = {} \<and> Bitmap_NumClear b = Inr n
     \<and> Bitmap_SelfTest b = Inr b' \<and> Bitmap_used b' = {} \<and> numBits b' = n)
   else if 0 < n then (\<exists>b. Bitmap_new g n = Inr b \<and> Bitmap_SelfTest b = Inl Assert_failed)
   else Bitmap_new g n = Inl Assert_failed"
proof (cases "0 < n")
  case True
  from Bitmap_new_ok [OF this] obtain b where
    b: "Bitmap_new g n = Inr b" "Bitmap_inv b" "numBits b = n" "Bitmap_used b = {}" by blast
  show ?thesis
  proof (cases "32 \<le> n")
    case True
    then show ?thesis using b Bitmap_SelfTest_ok [OF b(2,4)] by (auto simp add: Bitmap_NumClear_eq)
  next
    case False
    then have "Bitmap_SelfTest b = Inl Assert_failed" using b(3) by (simp add: Bitmap_SelfTest_def)
    then show ?thesis using True False b(1) by auto
  qed
qed (simp add: Bitmap_new_bad)

end
