(* ===== verification/HashTable.thy ===== *)
theory HashTable
  imports NachOS_List Bitmap
begin

text \<open>
  \<^verbatim>\<open>code/lib/hash.h\<close> and \<^verbatim>\<open>code/lib/hash.cc\<close>: a hash table whose buckets are the linked lists of
  \<^verbatim>\<open>NachOS_List.thy\<close>, and the self test of the library, \<^verbatim>\<open>code/lib/libtest.cc\<close>.  The hash function gives an
  \<^verbatim>\<open>unsigned\<close> (a 32-bit word).  Counts and sizes are mathematical integers: the bucket array of a table
  whose size does not fit an \<^verbatim>\<open>int\<close> could not be allocated.
\<close>

section \<open>Model\<close>

definition InitialBuckets :: int where "InitialBuckets = 4"
definition ResizeRatio :: int where "ResizeRatio = 3"
definition IncreaseSizeBy :: int where "IncreaseSizeBy = 4"

record ('k, 'a) hash_table =
  buckets :: "'a nlist list"
  numBuckets :: int
  numItems :: int
  getKey :: "'a \<Rightarrow> 'k"
  hash_fn :: "'k \<Rightarrow> 32 word"

text \<open>
  \<open>ListIterator\<close>: the position is a pointer into the list.  The loop \<^verbatim>\<open>for (; !it.IsDone(); it.Next())\<close> with
  a body that may leave the loop with a value is \<open>iter_loop\<close>.
\<close>

definition ListIterator_new :: "'a nlist \<Rightarrow> nat option" where
  "ListIterator_new l = l_first l"

definition ListIterator_IsDone :: "nat option \<Rightarrow> bool" where
  "ListIterator_IsDone current = (current = None)"

definition ListIterator_Item :: "'a nlist \<Rightarrow> nat option \<Rightarrow> 'a res" where
  "ListIterator_Item l current =
     bindE (assertE (\<not> ListIterator_IsDone current)) (\<lambda>_.
     bindE (get_element l current) (\<lambda>(_, c). Inr (le_item c)))"

definition ListIterator_Next :: "'a nlist \<Rightarrow> nat option \<Rightarrow> nat option res" where
  "ListIterator_Next l current = bindE (get_element l current) (\<lambda>(_, c). Inr (le_next c))"

fun iter_loop :: "nat \<Rightarrow> 'a nlist \<Rightarrow> ('a \<Rightarrow> 'r option res) \<Rightarrow> nat option \<Rightarrow> 'r option res" where
  "iter_loop 0 l body current = Inl Diverges"
| "iter_loop (Suc fuel) l body current =
     (if ListIterator_IsDone current then Inr None
      else bindE (ListIterator_Item l current) (\<lambda>x. bindE (body x) (\<lambda>r.
        if r \<noteq> None then Inr r
        else bindE (ListIterator_Next l current) (iter_loop fuel l body))))"

definition HashTable_InitBuckets :: "int \<Rightarrow> ('k, 'a) hash_table \<Rightarrow> ('k, 'a) hash_table" where
  "HashTable_InitBuckets sz t = t\<lparr>numBuckets := sz, buckets := replicate (nat sz) List_new\<rparr>"

definition HashTable_new :: "('a \<Rightarrow> 'k) \<Rightarrow> ('k \<Rightarrow> 32 word) \<Rightarrow> ('k, 'a) hash_table" where
  "HashTable_new get hFunc =
     (HashTable_InitBuckets InitialBuckets
       \<lparr>buckets = [], numBuckets = 0, numItems = 0, getKey = get, hash_fn = hFunc\<rparr>)"

definition HashTable_IsEmpty :: "('k, 'a) hash_table \<Rightarrow> bool" where
  "HashTable_IsEmpty t = (numItems t = 0)"

definition HashTable_HashValue :: "('k, 'a) hash_table \<Rightarrow> 'k \<Rightarrow> int res" where
  "HashTable_HashValue t key =
     (if numBuckets t = 0 then Inl Host_trap
      else let result = uint (hash_fn t key) mod numBuckets t in
        bindE (assertE (0 \<le> result \<and> result < numBuckets t)) (\<lambda>_. Inr result))"

definition HashTable_FindInBucket :: "('k, 'a) hash_table \<Rightarrow> int \<Rightarrow> 'k \<Rightarrow> 'a option res" where
  "HashTable_FindInBucket t bucket key =
     bindE (readA (buckets t) bucket) (\<lambda>l.
     iter_loop (walk_fuel l) l (\<lambda>x. Inr (if key = getKey t x then Some x else None)) (ListIterator_new l))"

definition HashTable_Find :: "('k, 'a) hash_table \<Rightarrow> 'k \<Rightarrow> 'a option res" where
  "HashTable_Find t key = bindE (HashTable_HashValue t key) (\<lambda>bucket. HashTable_FindInBucket t bucket key)"

definition HashTable_IsInTable :: "('k, 'a) hash_table \<Rightarrow> 'k \<Rightarrow> bool res" where
  "HashTable_IsInTable t key = bindE (HashTable_Find t key) (\<lambda>r. Inr (r \<noteq> None))"

text \<open>The statement \<^verbatim>\<open>buckets[HashValue(getKey(item))]->Append(item)\<close> of \<open>Insert\<close> and \<open>ReHash\<close>.\<close>

definition HashTable_put :: "('k, 'a) hash_table \<Rightarrow> 'a \<Rightarrow> ('k, 'a) hash_table res" where
  "HashTable_put t item =
     bindE (HashTable_HashValue t (getKey t item)) (\<lambda>i.
     bindE (readA (buckets t) i) (\<lambda>l.
     bindE (List_Append l item) (\<lambda>l'.
     bindE (writeA (buckets t) i l') (\<lambda>bs. Inr (t\<lparr>buckets := bs\<rparr>)))))"

definition HashTable_SanityCheck :: "('k, 'a) hash_table \<Rightarrow> unit res" where
  "HashTable_SanityCheck t =
     bindE (foldE (\<lambda>i numFound. bindE (readA (buckets t) i) (\<lambda>l.
         bindE (List_SanityCheck l) (\<lambda>_.
         bindE (iter_loop (walk_fuel l) l (\<lambda>x. bindE (HashTable_HashValue t (getKey t x)) (\<lambda>v.
             bindE (assertE (i = v)) (\<lambda>_. Inr (None :: unit option)))) (ListIterator_new l)) (\<lambda>_.
         Inr (numFound + List_NumInList l))))) [0..numBuckets t - 1] 0) (\<lambda>numFound.
     assertE (numItems t = numFound))"

fun HashTable_ReHash_loop :: "nat \<Rightarrow> 'a nlist \<Rightarrow> ('k, 'a) hash_table \<Rightarrow> ('k, 'a) hash_table res" where
  "HashTable_ReHash_loop 0 l t = Inl Diverges"
| "HashTable_ReHash_loop (Suc fuel) l t =
     (if List_IsEmpty l then Inr t
      else bindE (List_RemoveFront l) (\<lambda>(item, l).
           bindE (HashTable_put t item) (HashTable_ReHash_loop fuel l)))"

definition HashTable_ReHash :: "('k, 'a) hash_table \<Rightarrow> ('k, 'a) hash_table res" where
  "HashTable_ReHash t =
     (let oldTable = buckets t; oldSize = numBuckets t in
      bindE (HashTable_SanityCheck t) (\<lambda>_.
      bindE (foldE (\<lambda>i t. bindE (readA oldTable i) (\<lambda>l. HashTable_ReHash_loop (walk_fuel l) l t))
        [0..oldSize - 1] (HashTable_InitBuckets (numBuckets t * IncreaseSizeBy) t)) (\<lambda>t.
      bindE (HashTable_SanityCheck t) (\<lambda>_. Inr t))))"

definition HashTable_Insert :: "('k, 'a) hash_table \<Rightarrow> 'a \<Rightarrow> ('k, 'a) hash_table res" where
  "HashTable_Insert t item =
     (let key = getKey t item in
      bindE (HashTable_IsInTable t key) (\<lambda>i.
      bindE (assertE (\<not> i)) (\<lambda>_.
      bindE (if numBuckets t = 0 then Inl Host_trap
             else if ResizeRatio \<le> numItems t sdiv numBuckets t then HashTable_ReHash t else Inr t) (\<lambda>t.
      bindE (HashTable_put t item) (\<lambda>t.
      let t = t\<lparr>numItems := numItems t + 1\<rparr> in
      bindE (HashTable_IsInTable t key) (\<lambda>i.
      bindE (assertE i) (\<lambda>_. Inr t)))))))"

definition HashTable_Remove :: "('k, 'a) hash_table \<Rightarrow> 'k \<Rightarrow> ('a \<times> ('k, 'a) hash_table) res" where
  "HashTable_Remove t key =
     bindE (HashTable_HashValue t key) (\<lambda>bucket.
     bindE (HashTable_FindInBucket t bucket key) (\<lambda>r.
     case r of None \<Rightarrow> Inl Assert_failed
     | Some item \<Rightarrow>
       bindE (readA (buckets t) bucket) (\<lambda>l.
       bindE (List_Remove l item) (\<lambda>l'.
       bindE (writeA (buckets t) bucket l') (\<lambda>bs.
       let t = t\<lparr>buckets := bs, numItems := numItems t - 1\<rparr> in
       bindE (HashTable_IsInTable t key) (\<lambda>i.
       bindE (assertE (\<not> i)) (\<lambda>_. Inr (item, t))))))))"

text \<open>\<open>Apply\<close>, as for lists, gives the items in the order of the calls.\<close>

definition HashTable_Apply :: "('k, 'a) hash_table \<Rightarrow> 'a list res" where
  "HashTable_Apply t =
     foldE (\<lambda>i xs. bindE (readA (buckets t) i) (\<lambda>l. bindE (List_Apply l) (\<lambda>ys. Inr (xs @ ys))))
       [0..numBuckets t - 1] []"

function HashTable_FindNextFullBucket :: "('k, 'a) hash_table \<Rightarrow> int \<Rightarrow> int res" where
  "HashTable_FindNextFullBucket t bucket =
     (if bucket < numBuckets t then
        bindE (readA (buckets t) bucket) (\<lambda>l.
        if \<not> List_IsEmpty l then Inr bucket else HashTable_FindNextFullBucket t (bucket + 1))
      else Inr bucket)"
  by pat_completeness auto
termination by (relation "measure (\<lambda>(t, bucket). nat (numBuckets t - bucket))") auto

declare HashTable_FindNextFullBucket.simps [simp del]

record hash_iterator =
  hi_bucket :: int
  hi_bucketIter :: "nat option option"

definition HashIterator_at :: "('k, 'a) hash_table \<Rightarrow> int \<Rightarrow> hash_iterator res" where
  "HashIterator_at t bucket =
     (if bucket < numBuckets t
      then bindE (readA (buckets t) bucket) (\<lambda>l. Inr \<lparr>hi_bucket = bucket, hi_bucketIter = Some (ListIterator_new l)\<rparr>)
      else Inr \<lparr>hi_bucket = bucket, hi_bucketIter = None\<rparr>)"

definition HashIterator_new :: "('k, 'a) hash_table \<Rightarrow> hash_iterator res" where
  "HashIterator_new t = bindE (HashTable_FindNextFullBucket t 0) (HashIterator_at t)"

definition HashIterator_IsDone :: "('k, 'a) hash_table \<Rightarrow> hash_iterator \<Rightarrow> bool" where
  "HashIterator_IsDone t it = (hi_bucket it = numBuckets t)"

definition HashIterator_Next :: "('k, 'a) hash_table \<Rightarrow> hash_iterator \<Rightarrow> hash_iterator res" where
  "HashIterator_Next t it =
     bindE (derefE (hi_bucketIter it)) (\<lambda>current.
     bindE (readA (buckets t) (hi_bucket it)) (\<lambda>l.
     bindE (ListIterator_Next l current) (\<lambda>current.
     if ListIterator_IsDone current
     then bindE (HashTable_FindNextFullBucket t (hi_bucket it + 1)) (HashIterator_at t)
     else Inr (it\<lparr>hi_bucketIter := Some current\<rparr>))))"

definition HashTable_SelfTest :: "('k, 'a) hash_table \<Rightarrow> 'a list \<Rightarrow> ('k, 'a) hash_table res" where
  "HashTable_SelfTest t p =
     bindE (HashIterator_new t) (\<lambda>it.
     bindE (HashTable_SanityCheck t) (\<lambda>_.
     bindE (assertE (HashTable_IsEmpty t)) (\<lambda>_.
     bindE (assertE (HashIterator_IsDone t it)) (\<lambda>_.
     bindE (foldE (\<lambda>x t. bindE (HashTable_Insert t x) (\<lambda>t.
         bindE (HashTable_IsInTable t (getKey t x)) (\<lambda>i. bindE (assertE i) (\<lambda>_.
         bindE (assertE (\<not> HashTable_IsEmpty t)) (\<lambda>_. Inr t))))) p t) (\<lambda>t.
     bindE (foldE (\<lambda>x t. bindE (HashTable_Remove t (getKey t x)) (\<lambda>(y, t).
         bindE (assertE (y = x)) (\<lambda>_. Inr t))) p t) (\<lambda>t.
     bindE (assertE (HashTable_IsEmpty t)) (\<lambda>_.
     bindE (HashTable_SanityCheck t) (\<lambda>_. Inr t))))))))"

subsection \<open>The self test of the library\<close>

definition HashInt :: "int \<Rightarrow> 32 word" where
  "HashInt key = word_of_int key"

text \<open>\<open>atoi\<close> of the C library on a string of digits.\<close>

fun atoi_digits :: "int \<Rightarrow> string \<Rightarrow> int" where
  "atoi_digits n [] = n"
| "atoi_digits n (c # cs) =
     (if of_char c \<in> {48..57 :: int} then atoi_digits (10 * n + (of_char c - 48)) cs else n)"

definition HashKey :: "string \<Rightarrow> int" where
  "HashKey str = atoi_digits 0 str"

definition listTestVector :: "int list" where
  "listTestVector = [9, 5, 7]"

definition hashTestVector :: "string list" where
  "hashTestVector = [''0'', ''1'', ''2'', ''3'', ''4'', ''5'', ''6'', ''7'', ''8'', ''9'', ''10'', ''11'', ''12'', ''13'', ''14'']"

definition LibSelfTest :: "32 word list \<Rightarrow> unit res" where
  "LibSelfTest garbage =
     bindE (Bitmap_new garbage 200) (\<lambda>map.
     let list = List_new; sortList = List_new; hashTable = HashTable_new HashKey HashInt in
     bindE (Bitmap_SelfTest map) (\<lambda>map.
     bindE (List_SelfTest List_Append List_SanityCheck list listTestVector) (\<lambda>list.
     bindE (SortedList_SelfTest IntCompare sortList listTestVector) (\<lambda>sortList.
     bindE (HashTable_SelfTest hashTable hashTestVector) (\<lambda>hashTable.
     assertE (HashTable_IsEmpty hashTable))))))"

section \<open>What a table represents\<close>

text \<open>
  \<open>HashTable_shape t bss\<close>: the buckets hold the sequences \<open>bss\<close>, every item is in the bucket of its hash
  value, and no two items have the same key.  \<open>HashTable_rep t M\<close>: the table holds the items \<open>M\<close>.
\<close>

definition HashTable_slot :: "('k, 'a) hash_table \<Rightarrow> 'k \<Rightarrow> nat" where
  "HashTable_slot t k = nat (uint (hash_fn t k) mod numBuckets t)"

definition HashTable_shape :: "('k, 'a) hash_table \<Rightarrow> 'a list list \<Rightarrow> bool" where
  "HashTable_shape t bss \<longleftrightarrow> list_all2 List_rep (buckets t) bss \<and> 0 < numBuckets t
     \<and> numBuckets t = int (length bss)
     \<and> (\<forall>i < length bss. \<forall>x \<in> set (bss ! i). HashTable_slot t (getKey t x) = i)
     \<and> distinct (map (getKey t) (concat bss))"

definition HashTable_rep :: "('k, 'a) hash_table \<Rightarrow> 'a multiset \<Rightarrow> bool" where
  "HashTable_rep t M \<longleftrightarrow> (\<exists>bss. HashTable_shape t bss \<and> M = mset (concat bss)) \<and> numItems t = int (size M)"

lemma HashValue_eq:
  assumes "0 < numBuckets t"
  shows "HashTable_HashValue t k = Inr (int (HashTable_slot t k))" "int (HashTable_slot t k) < numBuckets t"
  using assms by (simp_all add: HashTable_HashValue_def HashTable_slot_def)

lemma shape_numItems [simp]: "HashTable_shape (t\<lparr>numItems := n\<rparr>) bss = HashTable_shape t bss"
  by (simp add: HashTable_shape_def HashTable_slot_def)

lemma shape_slot:
  assumes "HashTable_shape t bss"
  shows "HashTable_slot t k < length bss" "HashTable_slot t k < length (buckets t)"
    "List_rep (buckets t ! HashTable_slot t k) (bss ! HashTable_slot t k)"
proof -
  show *: "HashTable_slot t k < length bss" "HashTable_slot t k < length (buckets t)"
    using assms HashValue_eq(2) [of t k] list_all2_lengthD [of List_rep "buckets t" bss]
    by (auto simp add: HashTable_shape_def)
  then show "List_rep (buckets t ! HashTable_slot t k) (bss ! HashTable_slot t k)"
    using assms list_all2_nthD by (auto simp add: HashTable_shape_def)
qed

lemma shape_HashValue: "HashTable_shape t bss \<Longrightarrow> HashTable_HashValue t k = Inr (int (HashTable_slot t k))"
  by (rule HashValue_eq) (auto simp add: HashTable_shape_def)

lemma slot_subset: "HashTable_shape t bss \<Longrightarrow> set (bss ! HashTable_slot t k) \<subseteq> set (concat bss)"
  using shape_slot(1) nth_mem by fastforce

lemma in_slot:
  assumes s: "HashTable_shape t bss"
  shows "x \<in> set (concat bss) \<longleftrightarrow> x \<in> set (bss ! HashTable_slot t (getKey t x))"
proof
  assume "x \<in> set (concat bss)"
  then obtain i where i: "i < length bss" "x \<in> set (bss ! i)" by (auto simp add: in_set_conv_nth [of _ bss])
  then have "HashTable_slot t (getKey t x) = i" using s by (simp add: HashTable_shape_def)
  with i(2) show "x \<in> set (bss ! HashTable_slot t (getKey t x))" by simp
qed (use slot_subset [OF s] in blast)

text \<open>Iterating over a list is iterating over the items it represents.\<close>

fun iter_list :: "('a \<Rightarrow> 'r option res) \<Rightarrow> 'a list \<Rightarrow> 'r option res" where
  "iter_list body [] = Inr None"
| "iter_list body (x # xs) = bindE (body x) (\<lambda>r. if r \<noteq> None then Inr r else iter_list body xs)"

lemma iter_loop_lseg:
  "lseg (l_store l) p ns None \<Longrightarrow> length ns < fuel \<Longrightarrow> iter_loop fuel l body p = iter_list body (map snd ns)"
proof (induction ns arbitrary: p fuel)
  case Nil
  then show ?case by (cases fuel) (simp_all add: ListIterator_IsDone_def)
next
  case (Cons n ns)
  obtain a y where n: "n = (a, y)" by (cases n)
  obtain m f where m: "p = Some a" "l_store l a = Some \<lparr>le_item = y, le_next = m\<rparr>"
    "lseg (l_store l) m ns None" and f: "fuel = Suc f" "length ns < f"
    using Cons.prems n by (cases fuel) auto
  show ?case using Cons.IH [OF m(3) f(2)] m f n
    by (auto simp add: ListIterator_IsDone_def ListIterator_Item_def ListIterator_Next_def bindE_def split: sum.splits)
qed

lemma iter_loop_rep:
  "List_rep l xs \<Longrightarrow> iter_loop (walk_fuel l) l body (ListIterator_new l) = iter_list body xs"
proof -
  assume "List_rep l xs"
  then obtain ns where ns: "List_inv l ns" "xs = map snd ns" by (auto simp add: List_rep_def)
  then have "lseg (l_store l) (l_first l) ns None" by (simp add: List_inv_def)
  from iter_loop_lseg [OF this List_inv_fuel [OF ns(1)]] show ?thesis using ns(2) by (simp add: ListIterator_new_def)
qed

lemma iter_list_find: "iter_list (\<lambda>x. Inr (if P x then Some x else None)) xs = Inr (find P xs)"
  by (induction xs) auto

lemma Find_eq:
  assumes "HashTable_shape t bss"
  shows "HashTable_FindInBucket t (int (HashTable_slot t k)) k = Inr (find (\<lambda>x. k = getKey t x) (bss ! HashTable_slot t k))"
    "HashTable_Find t k = Inr (find (\<lambda>x. k = getKey t x) (bss ! HashTable_slot t k))"
proof -
  show *: "HashTable_FindInBucket t (int (HashTable_slot t k)) k = Inr (find (\<lambda>x. k = getKey t x) (bss ! HashTable_slot t k))"
    using shape_slot(2,3) [OF assms, of k] by (simp add: HashTable_FindInBucket_def iter_loop_rep iter_list_find)
  show "HashTable_Find t k = Inr (find (\<lambda>x. k = getKey t x) (bss ! HashTable_slot t k))"
    using * by (simp add: HashTable_Find_def shape_HashValue [OF assms])
qed

lemma find_in_slot:
  assumes s: "HashTable_shape t bss"
  shows "x \<in> set (concat bss) \<Longrightarrow> find (\<lambda>y. getKey t x = getKey t y) (bss ! HashTable_slot t (getKey t x)) = Some x"
    and "k \<notin> getKey t ` set (concat bss) \<Longrightarrow> find (\<lambda>y. k = getKey t y) (bss ! HashTable_slot t k) = None"
proof -
  assume x: "x \<in> set (concat bss)"
  obtain y where y: "find (\<lambda>y. getKey t x = getKey t y) (bss ! HashTable_slot t (getKey t x)) = Some y"
    using x in_slot [OF s, of x] by (cases "find (\<lambda>y. getKey t x = getKey t y) (bss ! HashTable_slot t (getKey t x))")
      (auto simp add: find_None_iff)
  then have "y \<in> set (concat bss)" "getKey t y = getKey t x"
    using slot_subset [OF s, of "getKey t x"] by (auto simp add: find_Some_iff dest: nth_mem)
  moreover have "inj_on (getKey t) (set (concat bss))" using s by (simp add: HashTable_shape_def distinct_map)
  ultimately have "y = x" using x by (auto dest: inj_onD)
  with y show "find (\<lambda>y. getKey t x = getKey t y) (bss ! HashTable_slot t (getKey t x)) = Some x" by simp
next
  assume "k \<notin> getKey t ` set (concat bss)"
  then show "find (\<lambda>y. k = getKey t y) (bss ! HashTable_slot t k) = None" using slot_subset [OF s, of k] by (auto simp add: find_None_iff)
qed

lemma mset_concat_update:
  "i < length xss \<Longrightarrow> mset (concat (xss[i := ys])) + mset (xss ! i) = mset (concat xss) + mset ys"
  by (induction xss arbitrary: i) (auto simp add: less_Suc_eq_0_disj)

text \<open>Changing one bucket.\<close>

lemma shape_update:
  assumes s: "HashTable_shape t bss" and i: "i < length bss" and l: "List_rep l ys"
    and ys: "\<forall>y \<in> set ys. HashTable_slot t (getKey t y) = i"
    and d: "distinct (map (getKey t) (concat (bss[i := ys])))"
  shows "HashTable_shape (t\<lparr>buckets := (buckets t)[i := l]\<rparr>) (bss[i := ys])"
proof -
  have "list_all2 List_rep ((buckets t)[i := l]) (bss[i := ys])"
    using s l by (auto simp add: HashTable_shape_def intro: list_all2_update_cong)
  moreover have "HashTable_slot (t\<lparr>buckets := (buckets t)[i := l]\<rparr>) k = HashTable_slot t k" for k
    by (simp add: HashTable_slot_def)
  ultimately show ?thesis using s ys d i by (auto simp add: HashTable_shape_def nth_list_update)
qed

lemma put_shape:
  assumes s: "HashTable_shape t bss" and x: "getKey t x \<notin> getKey t ` set (concat bss)"
  shows "\<exists>bs' bss'. HashTable_put t x = Inr (t\<lparr>buckets := bs'\<rparr>) \<and> HashTable_shape (t\<lparr>buckets := bs'\<rparr>) bss'
    \<and> mset (concat bss') = add_mset x (mset (concat bss))"
proof -
  let ?i = "HashTable_slot t (getKey t x)"
  note i = shape_slot [OF s, of "getKey t x"]
  have fresh: "x \<notin> set (bss ! ?i)" using x in_slot [OF s, of x] by blast
  then obtain l' where l': "List_Append (buckets t ! ?i) x = Inr l'" "List_rep l' (bss ! ?i @ [x])"
    using nl.app_sim [OF i(3), of x] by (auto simp add: lst_append_def rel_res_Inr2)
  have m: "mset (concat (bss[?i := bss ! ?i @ [x]])) = add_mset x (mset (concat bss))"
    using mset_concat_update [OF i(1), of "bss ! ?i @ [x]"] by simp
  have d: "distinct (map (getKey t) (x # concat bss))" using s x by (simp add: HashTable_shape_def)
  have "mset (map (getKey t) (concat (bss[?i := bss ! ?i @ [x]]))) = mset (map (getKey t) (x # concat bss))"
    unfolding mset_map m by simp
  then have "distinct (map (getKey t) (concat (bss[?i := bss ! ?i @ [x]])))"
    using d mset_eq_imp_distinct_iff by blast
  then have "HashTable_shape (t\<lparr>buckets := (buckets t)[?i := l']\<rparr>) (bss[?i := bss ! ?i @ [x]])"
    using s i(1) by (intro shape_update [OF s i(1) l'(2)]) (auto simp add: HashTable_shape_def)
  moreover have "HashTable_put t x = Inr (t\<lparr>buckets := (buckets t)[?i := l']\<rparr>)"
    using i(2) l'(1) by (simp add: HashTable_put_def shape_HashValue [OF s])
  ultimately show ?thesis using m by blast
qed

section \<open>The operations\<close>

lemma shape_count:
  assumes s: "HashTable_shape t bss"
    and "list_all2 List_rep bs css" "\<forall>i < length css. \<forall>x \<in> set (css ! i). HashTable_slot t (getKey t x) = m + i"
  shows "foldE (\<lambda>(k, l) numFound.
         bindE (List_SanityCheck l) (\<lambda>_.
         bindE (iter_loop (walk_fuel l) l (\<lambda>x. bindE (HashTable_HashValue t (getKey t x)) (\<lambda>v.
             bindE (assertE (int k = v)) (\<lambda>_. Inr (None :: unit option)))) (ListIterator_new l)) (\<lambda>_.
         Inr (numFound + List_NumInList l)))) (enumerate m bs) n = Inr (n + int (length (concat css)))"
  using assms(2,3)
proof (induction bs css arbitrary: m n rule: list_all2_induct)
  case (Cons l bs xs css)
  have "iter_list (\<lambda>x. bindE (HashTable_HashValue t (getKey t x)) (\<lambda>v.
      bindE (assertE (int m = v)) (\<lambda>_. Inr (None :: unit option)))) ys = Inr None" if "set ys \<subseteq> set xs" for ys
    using that Cons.prems [rule_format, of 0] by (induction ys) (auto simp add: shape_HashValue [OF s])
  moreover have "\<forall>i < length css. \<forall>x \<in> set (css ! i). HashTable_slot t (getKey t x) = Suc m + i"
    using Cons.prems by (metis add_Suc_right add_Suc_shift length_Cons not_less_eq nth_Cons_Suc)
  ultimately show ?case using Cons.IH [of "Suc m"] Cons.hyps(1)
    by (simp add: iter_loop_rep List_rep_obs algebra_simps)
qed simp

lemma SanityCheck_shape:
  assumes s: "HashTable_shape t bss"
  shows "HashTable_SanityCheck t = assertE (numItems t = int (length (concat bss)))"
proof -
  have n: "numBuckets t = int (length (buckets t))" and rep: "list_all2 List_rep (buckets t) bss"
    "\<forall>i < length bss. \<forall>x \<in> set (bss ! i). HashTable_slot t (getKey t x) = 0 + i"
    using s by (auto simp add: HashTable_shape_def dest: list_all2_lengthD)
  show ?thesis
    unfolding HashTable_SanityCheck_def foldE_index [OF n] shape_count [OF s rep] by simp
qed

lemma SanityCheck_rep: "HashTable_rep t M \<Longrightarrow> HashTable_SanityCheck t = Inr ()"
  by (auto simp add: HashTable_rep_def SanityCheck_shape)

lemma ReHash_loop_shape:
  "List_rep l xs \<Longrightarrow> HashTable_shape t bss \<Longrightarrow> distinct (map (getKey t) (xs @ concat bss)) \<Longrightarrow> length xs < fuel \<Longrightarrow>
   \<exists>bs' bss'. HashTable_ReHash_loop fuel l t = Inr (t\<lparr>buckets := bs'\<rparr>) \<and> HashTable_shape (t\<lparr>buckets := bs'\<rparr>) bss'
     \<and> mset (concat bss') = mset xs + mset (concat bss)"
proof (induction xs arbitrary: l t bss fuel)
  case Nil
  then show ?case by (cases fuel) (auto simp add: List_rep_obs intro!: exI [of _ "buckets t"])
next
  case (Cons x xs)
  obtain f where f: "fuel = Suc f" "length xs < f" using Cons.prems(4) by (cases fuel) auto
  obtain l1 where l1: "List_RemoveFront l = Inr (x, l1)" "List_rep l1 xs"
    using nl.rmf_sim [OF Cons.prems(1)] by (auto simp add: lst_remove_front_def rel_res_Inr2)
  have "getKey t x \<notin> getKey t ` set (concat bss)" using Cons.prems(3) by simp
  from put_shape [OF Cons.prems(2) this] obtain bs1 bss1 where
    p: "HashTable_put t x = Inr (t\<lparr>buckets := bs1\<rparr>)" "HashTable_shape (t\<lparr>buckets := bs1\<rparr>) bss1"
      "mset (concat bss1) = add_mset x (mset (concat bss))" by blast
  have eq: "mset (map (getKey t) (xs @ concat bss1)) = mset (map (getKey t) ((x # xs) @ concat bss))"
    using p(3) by simp
  have g: "getKey (t\<lparr>buckets := bs1\<rparr>) = getKey t" by simp
  have "distinct (map (getKey (t\<lparr>buckets := bs1\<rparr>)) (xs @ concat bss1))"
    unfolding g using Cons.prems(3) mset_eq_imp_distinct_iff [OF eq] by blast
  from Cons.IH [OF l1(2) p(2) this f(2)] show ?case
    using f(1) l1(1) p List_rep_obs(2) [OF Cons.prems(1)] by auto
qed

lemma ReHash_fold_shape:
  "list_all2 List_rep ls xss \<Longrightarrow> HashTable_shape t bss \<Longrightarrow> distinct (map (getKey t) (concat xss @ concat bss)) \<Longrightarrow>
   \<exists>bs' bss'. foldE (\<lambda>l t. HashTable_ReHash_loop (walk_fuel l) l t) ls t = Inr (t\<lparr>buckets := bs'\<rparr>)
     \<and> HashTable_shape (t\<lparr>buckets := bs'\<rparr>) bss' \<and> mset (concat bss') = mset (concat xss) + mset (concat bss)"
proof (induction ls xss arbitrary: t bss rule: list_all2_induct)
  case Nil
  then show ?case by (auto intro!: exI [of _ "buckets t"])
next
  case (Cons l ls xs xss)
  have fuel: "length xs < walk_fuel l" using Cons.hyps(1) List_inv_fuel by (fastforce simp add: List_rep_def)
  have "distinct (map (getKey t) (xs @ concat bss))"
    using Cons.prems(2) by (simp add: Int_Un_distrib)
  from ReHash_loop_shape [OF Cons.hyps(1) Cons.prems(1) this fuel] obtain bs1 bss1 where
    p: "HashTable_ReHash_loop (walk_fuel l) l t = Inr (t\<lparr>buckets := bs1\<rparr>)" "HashTable_shape (t\<lparr>buckets := bs1\<rparr>) bss1"
      "mset (concat bss1) = mset xs + mset (concat bss)" by blast
  have eq: "mset (map (getKey t) (concat xss @ concat bss1)) = mset (map (getKey t) (concat (xs # xss) @ concat bss))"
    using p(3) by simp
  have g: "getKey (t\<lparr>buckets := bs1\<rparr>) = getKey t" by simp
  have "distinct (map (getKey (t\<lparr>buckets := bs1\<rparr>)) (concat xss @ concat bss1))"
    unfolding g using Cons.prems(2) mset_eq_imp_distinct_iff [OF eq] by blast
  from Cons.IH [OF p(2) this] obtain bs2 bss2 where
    "foldE (\<lambda>l t. HashTable_ReHash_loop (walk_fuel l) l t) ls (t\<lparr>buckets := bs1\<rparr>) = Inr (t\<lparr>buckets := bs2\<rparr>)"
    "HashTable_shape (t\<lparr>buckets := bs2\<rparr>) bss2" "mset (concat bss2) = mset (concat xss) + mset (concat bss1)"
    by auto
  then show ?case using p by (intro exI [of _ bs2] exI [of _ bss2]) simp
qed

lemma InitBuckets_shape:
  "0 < sz \<Longrightarrow> HashTable_shape (HashTable_InitBuckets sz t) (replicate (nat sz) [])"
  by (simp add: HashTable_shape_def HashTable_InitBuckets_def list_all2_conv_all_nth List_new_rep)

lemma ReHash_rep:
  assumes t: "HashTable_rep t M"
  shows "\<exists>t'. HashTable_ReHash t = Inr t' \<and> HashTable_rep t' M \<and> getKey t' = getKey t \<and> hash_fn t' = hash_fn t
    \<and> numBuckets t' = 4 * numBuckets t"
proof -
  obtain bss where s: "HashTable_shape t bss" and M: "M = mset (concat bss)" "numItems t = int (size M)"
    using t by (auto simp add: HashTable_rep_def)
  let ?t0 = "HashTable_InitBuckets (numBuckets t * IncreaseSizeBy) t"
  have n: "numBuckets t = int (length (buckets t))" "list_all2 List_rep (buckets t) bss" "0 < numBuckets t"
    "distinct (map (getKey t) (concat bss))"
    using s by (auto simp add: HashTable_shape_def dest: list_all2_lengthD)
  have "HashTable_shape ?t0 (replicate (nat (numBuckets t * IncreaseSizeBy)) [])"
    by (rule InitBuckets_shape) (use n(3) in \<open>simp add: IncreaseSizeBy_def\<close>)
  from ReHash_fold_shape [OF n(2) this] n(4) obtain bs' bss' where
    f: "foldE (\<lambda>l t. HashTable_ReHash_loop (walk_fuel l) l t) (buckets t) ?t0 = Inr (?t0\<lparr>buckets := bs'\<rparr>)"
      "HashTable_shape (?t0\<lparr>buckets := bs'\<rparr>) bss'" "mset (concat bss') = mset (concat bss)"
    by (auto simp add: HashTable_InitBuckets_def)
  let ?t1 = "?t0\<lparr>buckets := bs'\<rparr>"
  have rep: "HashTable_rep ?t1 M" using f(2,3) M by (auto simp add: HashTable_rep_def HashTable_InitBuckets_def)
  have "HashTable_ReHash t = Inr ?t1"
    using f(1) SanityCheck_rep [OF t] SanityCheck_rep [OF rep]
    by (simp add: HashTable_ReHash_def foldE_array [OF n(1)])
  with rep show ?thesis by (auto simp add: HashTable_InitBuckets_def IncreaseSizeBy_def)
qed

lemma Find_rep:
  assumes "HashTable_rep t M"
  shows "x \<in># M \<Longrightarrow> HashTable_Find t (getKey t x) = Inr (Some x)"
    and "k \<notin> getKey t ` set_mset M \<Longrightarrow> HashTable_Find t k = Inr None"
    and "HashTable_IsInTable t k = Inr (k \<in> getKey t ` set_mset M)"
proof -
  obtain bss where s: "HashTable_shape t bss" "M = mset (concat bss)" using assms by (auto simp add: HashTable_rep_def)
  show *: "x \<in># M \<Longrightarrow> HashTable_Find t (getKey t x) = Inr (Some x)"
    "k \<notin> getKey t ` set_mset M \<Longrightarrow> HashTable_Find t k = Inr None" for x
    using find_in_slot [OF s(1)] s(2) by (simp_all add: Find_eq(2) [OF s(1)])
  show "HashTable_IsInTable t k = Inr (k \<in> getKey t ` set_mset M)"
    using * by (cases "k \<in> getKey t ` set_mset M") (auto simp add: HashTable_IsInTable_def)
qed

lemma rep_pos: "HashTable_rep t M \<Longrightarrow> numBuckets t \<noteq> 0"
  by (auto simp add: HashTable_rep_def HashTable_shape_def)

lemma put_rep:
  assumes t: "HashTable_rep t M" and x: "getKey t x \<notin> getKey t ` set_mset M"
  shows "\<exists>bs'. HashTable_put t x = Inr (t\<lparr>buckets := bs'\<rparr>)
    \<and> HashTable_rep (t\<lparr>buckets := bs', numItems := numItems t + 1\<rparr>) (add_mset x M)"
proof -
  obtain bss where s: "HashTable_shape t bss" "M = mset (concat bss)" using t by (auto simp add: HashTable_rep_def)
  then have "getKey t x \<notin> getKey t ` set (concat bss)" using x by simp
  from put_shape [OF s(1) this] obtain bs' bss' where
    p: "HashTable_put t x = Inr (t\<lparr>buckets := bs'\<rparr>)" "HashTable_shape (t\<lparr>buckets := bs'\<rparr>) bss'"
      "mset (concat bss') = add_mset x (mset (concat bss))" by blast
  have "HashTable_shape (t\<lparr>buckets := bs', numItems := numItems t + 1\<rparr>) bss'"
    using p(2) shape_numItems [where t = "t\<lparr>buckets := bs'\<rparr>"] by simp
  then have "HashTable_rep (t\<lparr>buckets := bs', numItems := numItems t + 1\<rparr>) (add_mset x M)"
    using t p(3) s(2) by (auto simp add: HashTable_rep_def)
  with p(1) show ?thesis by blast
qed

lemma Insert_rep:
  assumes t: "HashTable_rep t M" and x: "getKey t x \<notin> getKey t ` set_mset M"
  shows "\<exists>t'. HashTable_Insert t x = Inr t' \<and> HashTable_rep t' (add_mset x M) \<and> getKey t' = getKey t \<and> hash_fn t' = hash_fn t"
proof -
  obtain t1 where t1: "(if ResizeRatio \<le> numItems t sdiv numBuckets t then HashTable_ReHash t else Inr t) = Inr t1"
    "HashTable_rep t1 M" "getKey t1 = getKey t" "hash_fn t1 = hash_fn t"
    using ReHash_rep [OF t] t by (cases "ResizeRatio \<le> numItems t sdiv numBuckets t") auto
  obtain bs' where p: "HashTable_put t1 x = Inr (t1\<lparr>buckets := bs'\<rparr>)"
    "HashTable_rep (t1\<lparr>buckets := bs', numItems := numItems t1 + 1\<rparr>) (add_mset x M)"
    using put_rep [OF t1(2)] x t1(3) by auto
  have "HashTable_Insert t x = Inr (t1\<lparr>buckets := bs', numItems := numItems t1 + 1\<rparr>)"
    using x rep_pos [OF t] t1 p Find_rep(3) [OF t, of "getKey t x"] Find_rep(3) [OF p(2), of "getKey t x"]
    by (simp add: HashTable_Insert_def Let_def)
  then show ?thesis using p(2) t1(3,4) by auto
qed

lemma Insert_dup_key:
  "HashTable_rep t M \<Longrightarrow> getKey t x \<in> getKey t ` set_mset M \<Longrightarrow> HashTable_Insert t x = Inl Assert_failed"
  by (simp add: HashTable_Insert_def Find_rep(3))

lemma Remove_rep:
  assumes t: "HashTable_rep t M" and x: "x \<in># M"
  shows "\<exists>t'. HashTable_Remove t (getKey t x) = Inr (x, t') \<and> HashTable_rep t' (M - {#x#}) \<and> getKey t' = getKey t \<and> hash_fn t' = hash_fn t"
proof -
  obtain bss where s: "HashTable_shape t bss" "M = mset (concat bss)" "numItems t = int (size M)"
    using t by (auto simp add: HashTable_rep_def)
  let ?i = "HashTable_slot t (getKey t x)"
  note i = shape_slot [OF s(1), of "getKey t x"]
  have xin: "x \<in> set (concat bss)" "x \<in> set (bss ! ?i)" using x s(2) in_slot [OF s(1), of x] by auto
  then obtain l' where l': "List_Remove (buckets t ! ?i) x = Inr l'" "List_rep l' (remove1 x (bss ! ?i))"
    using nl.rm_sim [OF i(3), of x] by (auto simp add: lst_remove_def rel_res_Inr2)
  let ?bss = "bss[?i := remove1 x (bss ! ?i)]"
  have m: "add_mset x (mset (concat ?bss)) = mset (concat bss)"
  proof -
    have v: "mset (bss ! ?i) = add_mset x (mset (remove1 x (bss ! ?i)))" using xin(2) by simp
    have cancel: "A + add_mset x R = C + R \<Longrightarrow> add_mset x A = C" for A C R :: "'b multiset" by simp
    show ?thesis
      by (rule cancel [of _ "mset (remove1 x (bss ! ?i))"]) (unfold v [symmetric], rule mset_concat_update [OF i(1)])
  qed
  have eq: "mset (map (getKey t) (x # concat ?bss)) = mset (map (getKey t) (concat bss))"
    unfolding mset_map m [symmetric] by simp
  have d: "distinct (map (getKey t) (x # concat ?bss))"
    using s(1) mset_eq_imp_distinct_iff [OF eq] by (simp only: HashTable_shape_def)
  have ys: "\<forall>y \<in> set (remove1 x (bss ! ?i)). HashTable_slot t (getKey t y) = ?i"
    using s(1) i(1) set_remove1_subset [of x "bss ! ?i"] by (auto simp add: HashTable_shape_def)
  have "HashTable_shape (t\<lparr>buckets := (buckets t)[?i := l']\<rparr>) ?bss"
    by (rule shape_update [OF s(1) i(1) l'(2) ys]) (use d in simp)
  moreover have M: "M = add_mset x (mset (concat ?bss))" using s(2) m by simp
  ultimately have rep: "HashTable_rep (t\<lparr>buckets := (buckets t)[?i := l'], numItems := numItems t - 1\<rparr>) (M - {#x#})"
    using s(3) shape_numItems [where t = "t\<lparr>buckets := (buckets t)[?i := l']\<rparr>"] by (auto simp add: HashTable_rep_def)
  have "getKey t x \<notin> getKey t ` set_mset (M - {#x#})" using d M by simp
  then have "HashTable_Remove t (getKey t x) = Inr (x, t\<lparr>buckets := (buckets t)[?i := l'], numItems := numItems t - 1\<rparr>)"
    using i(2) l'(1) Find_rep(3) [OF rep, of "getKey t x"] find_in_slot(1) [OF s(1) xin(1)]
    by (simp add: HashTable_Remove_def shape_HashValue [OF s(1)] Find_eq(1) [OF s(1)] Let_def)
  with rep show ?thesis by auto
qed

lemma Remove_absent_key:
  assumes "HashTable_rep t M" "k \<notin> getKey t ` set_mset M"
  shows "HashTable_Remove t k = Inl Assert_failed"
proof -
  obtain bss where s: "HashTable_shape t bss" "M = mset (concat bss)" using assms by (auto simp add: HashTable_rep_def)
  then show ?thesis using assms(2) find_in_slot(2) [OF s(1), of k]
    by (simp add: HashTable_Remove_def shape_HashValue [OF s(1)] Find_eq(1) [OF s(1)])
qed

lemma new_rep: "HashTable_rep (HashTable_new get hFunc) {#}"
  using InitBuckets_shape [of InitialBuckets "\<lparr>buckets = [], numBuckets = 0, numItems = 0, getKey = get, hash_fn = hFunc\<rparr>"]
  by (auto simp add: HashTable_rep_def HashTable_new_def InitialBuckets_def HashTable_InitBuckets_def)

section \<open>The contract of a table\<close>

text \<open>
  A table of items with keys, over the collection of its items.  What clients do with whole sequences
  of items follows from the laws of the single operations.
\<close>

locale keyed_table =
  fixes rep :: "'t \<Rightarrow> 'a multiset \<Rightarrow> bool"
    and key :: "'a \<Rightarrow> 'k"
    and ins :: "'t \<Rightarrow> 'a \<Rightarrow> 't res"
    and rem :: "'t \<Rightarrow> 'k \<Rightarrow> ('a \<times> 't) res"
    and lookup :: "'t \<Rightarrow> 'k \<Rightarrow> 'a option res"
  assumes ins_new: "rep t M \<Longrightarrow> key x \<notin> key ` set_mset M \<Longrightarrow> \<exists>t'. ins t x = Inr t' \<and> rep t' (add_mset x M)"
    and ins_old: "rep t M \<Longrightarrow> key x \<in> key ` set_mset M \<Longrightarrow> ins t x = Inl Assert_failed"
    and rem_in: "rep t M \<Longrightarrow> x \<in># M \<Longrightarrow> \<exists>t'. rem t (key x) = Inr (x, t') \<and> rep t' (M - {#x#})"
    and rem_out: "rep t M \<Longrightarrow> k \<notin> key ` set_mset M \<Longrightarrow> rem t k = Inl Assert_failed"
    and lookup_in: "rep t M \<Longrightarrow> x \<in># M \<Longrightarrow> lookup t (key x) = Inr (Some x)"
    and lookup_out: "rep t M \<Longrightarrow> k \<notin> key ` set_mset M \<Longrightarrow> lookup t k = Inr None"
begin

lemma inserts_new:
  "rep t M \<Longrightarrow> distinct (map key xs) \<Longrightarrow> key ` set xs \<inter> key ` set_mset M = {} \<Longrightarrow>
   \<exists>t'. foldE (\<lambda>x t. ins t x) xs t = Inr t' \<and> rep t' (mset xs + M)"
proof (induction xs arbitrary: t M)
  case (Cons x xs)
  then obtain t1 where t1: "ins t x = Inr t1" "rep t1 (add_mset x M)" using ins_new [of t M x] by auto
  from Cons.IH [OF t1(2)] Cons.prems t1(1) show ?case by auto
qed simp

lemma inserts_old:
  "rep t M \<Longrightarrow> \<not> distinct (map key xs) \<or> key ` set xs \<inter> key ` set_mset M \<noteq> {} \<Longrightarrow>
   foldE (\<lambda>x t. ins t x) xs t = Inl Assert_failed"
proof (induction xs arbitrary: t M)
  case (Cons x xs)
  show ?case
  proof (cases "key x \<in> key ` set_mset M")
    case True
    then show ?thesis using ins_old [OF Cons.prems(1)] by simp
  next
    case False
    then obtain t1 where t1: "ins t x = Inr t1" "rep t1 (add_mset x M)" using ins_new [OF Cons.prems(1)] by blast
    from Cons.IH [OF t1(2)] Cons.prems(2) False t1(1) show ?thesis by auto
  qed
qed simp

lemma lookup_find:
  assumes "rep t (mset xs)" "distinct (map key xs)"
  shows "lookup t k = Inr (find (\<lambda>x. key x = k) xs)"
proof (cases "find (\<lambda>x. key x = k) xs")
  case None
  then have "k \<notin> key ` set_mset (mset xs)" by (auto simp add: find_None_iff)
  then show ?thesis using lookup_out [OF assms(1)] None by simp
next
  case (Some x)
  then have "x \<in># mset xs" "key x = k" by (auto simp add: find_Some_iff)
  then show ?thesis using lookup_in [OF assms(1), of x] Some by simp
qed

end

definition HashTable_repk :: "('a \<Rightarrow> 'k) \<Rightarrow> ('k, 'a) hash_table \<Rightarrow> 'a multiset \<Rightarrow> bool" where
  "HashTable_repk get t M \<longleftrightarrow> HashTable_rep t M \<and> getKey t = get"

interpretation ht: keyed_table "HashTable_repk get" get HashTable_Insert HashTable_Remove HashTable_Find
  for get :: "'a \<Rightarrow> 'k"
proof
  fix t M and x :: 'a and k :: 'k
  assume "HashTable_repk get t M"
  then have t: "HashTable_rep t M" and g: "get = getKey t" by (simp_all add: HashTable_repk_def)
  show "\<exists>t'. HashTable_Insert t x = Inr t' \<and> HashTable_repk get t' (add_mset x M)" if "get x \<notin> get ` set_mset M"
    using Insert_rep [OF t] that g by (auto simp add: HashTable_repk_def)
  show "HashTable_Insert t x = Inl Assert_failed" if "get x \<in> get ` set_mset M"
    using Insert_dup_key [OF t] that g by simp
  show "\<exists>t'. HashTable_Remove t (get x) = Inr (x, t') \<and> HashTable_repk get t' (M - {#x#})" if "x \<in># M"
    using Remove_rep [OF t that] g by (auto simp add: HashTable_repk_def)
  show "HashTable_Remove t k = Inl Assert_failed" if "k \<notin> get ` set_mset M"
    using Remove_absent_key [OF t] that g by simp
  show "HashTable_Find t (get x) = Inr (Some x)" if "x \<in># M"
    using Find_rep(1) [OF t that] g by simp
  show "HashTable_Find t k = Inr None" if "k \<notin> get ` set_mset M"
    using Find_rep(2) [OF t] that g by simp
qed

lemma new_repk: "HashTable_repk get (HashTable_new get hFunc) {#}"
  using new_rep [of get hFunc] by (simp add: HashTable_repk_def HashTable_new_def HashTable_InitBuckets_def)

section \<open>The self test\<close>

lemma empty_buckets:
  assumes "HashTable_rep t {#}" "0 \<le> i" "i < numBuckets t"
  shows "\<exists>l. readA (buckets t) i = Inr l \<and> List_IsEmpty l"
proof -
  obtain bss where s: "HashTable_shape t bss" "{#} = mset (concat bss)" using assms by (auto simp add: HashTable_rep_def)
  then have "nat i < length bss" "bss ! nat i = []" "length (buckets t) = length bss" "List_rep (buckets t ! nat i) (bss ! nat i)"
    using assms(2,3) by (auto simp add: HashTable_shape_def list_all2_conv_all_nth)
  then show ?thesis using assms(2) by (simp add: List_rep_obs)
qed

lemma FindNextFullBucket_empty:
  "HashTable_rep t {#} \<Longrightarrow> 0 \<le> b \<Longrightarrow> b \<le> numBuckets t \<Longrightarrow> HashTable_FindNextFullBucket t b = Inr (numBuckets t)"
proof (induction t b rule: HashTable_FindNextFullBucket.induct)
  case (1 t b)
  show ?case
  proof (cases "b < numBuckets t")
    case True
    then obtain l where l: "readA (buckets t) b = Inr l" "List_IsEmpty l" using empty_buckets [OF "1.prems"(1,2)] by blast
    from "1.IH" [OF True l(1)] l "1.prems" True show ?thesis
      by (subst HashTable_FindNextFullBucket.simps) simp
  next
    case False
    then show ?thesis using "1.prems" by (subst HashTable_FindNextFullBucket.simps) simp
  qed
qed

lemma SelfTest_inserts:
  "HashTable_repk get t M \<Longrightarrow> distinct (map get p) \<Longrightarrow> get ` set p \<inter> get ` set_mset M = {} \<Longrightarrow>
   \<exists>t'. foldE (\<lambda>x t. bindE (HashTable_Insert t x) (\<lambda>t.
         bindE (HashTable_IsInTable t (getKey t x)) (\<lambda>i. bindE (assertE i) (\<lambda>_.
         bindE (assertE (\<not> HashTable_IsEmpty t)) (\<lambda>_. Inr t))))) p t = Inr t' \<and> HashTable_repk get t' (mset p + M)"
proof (induction p arbitrary: t M)
  case (Cons x p)
  then obtain t1 where t1: "HashTable_Insert t x = Inr t1" "HashTable_repk get t1 (add_mset x M)"
    using ht.ins_new [of get t M x] by auto
  then have "HashTable_IsInTable t1 (getKey t1 x) = Inr True" "\<not> HashTable_IsEmpty t1"
    using Find_rep(3) [of t1 "add_mset x M" "getKey t1 x"] by (simp_all add: HashTable_repk_def HashTable_rep_def HashTable_IsEmpty_def)
  then show ?case using Cons.IH [OF t1(2)] Cons.prems t1(1) by auto
qed simp

lemma SelfTest_takes:
  "HashTable_repk get t M \<Longrightarrow> mset p \<subseteq># M \<Longrightarrow>
   \<exists>t'. foldE (\<lambda>x t. bindE (HashTable_Remove t (getKey t x)) (\<lambda>(y, t). bindE (assertE (y = x)) (\<lambda>_. Inr t))) p t = Inr t'
     \<and> HashTable_repk get t' (M - mset p)"
proof (induction p arbitrary: t M)
  case (Cons x p)
  have x: "x \<in># M" using Cons.prems(2) by (auto dest: mset_subset_eqD)
  obtain t1 where t1: "HashTable_Remove t (getKey t x) = Inr (x, t1)" "HashTable_repk get t1 (M - {#x#})"
    using ht.rem_in [OF Cons.prems(1) x] Cons.prems(1) by (auto simp add: HashTable_repk_def)
  have "mset p \<subseteq># M - {#x#}" using Cons.prems(2) by (simp add: insert_subset_eq_iff)
  from Cons.IH [OF t1(2) this] t1(1) show ?case by simp
qed simp

lemma HashTable_SelfTest_rep:
  assumes t: "HashTable_repk get t {#}" and p: "distinct (map get p)"
  shows "\<exists>t'. HashTable_SelfTest t p = Inr t' \<and> HashTable_repk get t' {#}"
proof -
  have rep: "HashTable_rep t {#}" using t by (simp add: HashTable_repk_def)
  from SelfTest_inserts [OF t p] obtain t1 where
    t1: "foldE (\<lambda>x t. bindE (HashTable_Insert t x) (\<lambda>t.
         bindE (HashTable_IsInTable t (getKey t x)) (\<lambda>i. bindE (assertE i) (\<lambda>_.
         bindE (assertE (\<not> HashTable_IsEmpty t)) (\<lambda>_. Inr t))))) p t = Inr t1" "HashTable_repk get t1 (mset p)" by auto
  from SelfTest_takes [OF t1(2), of p] obtain t2 where
    t2: "foldE (\<lambda>x t. bindE (HashTable_Remove t (getKey t x)) (\<lambda>(y, t). bindE (assertE (y = x)) (\<lambda>_. Inr t))) p t1 = Inr t2"
      "HashTable_repk get t2 {#}" by auto
  have rep2: "HashTable_rep t2 {#}" and empty: "HashTable_IsEmpty t" "HashTable_IsEmpty t2"
    using t t2(2) by (simp_all add: HashTable_repk_def HashTable_rep_def HashTable_IsEmpty_def)
  have "0 \<le> numBuckets t" using rep by (auto simp add: HashTable_rep_def HashTable_shape_def)
  then have it: "HashIterator_new t = Inr \<lparr>hi_bucket = numBuckets t, hi_bucketIter = None\<rparr>"
    using FindNextFullBucket_empty [OF rep, of 0] by (simp add: HashIterator_new_def HashIterator_at_def)
  have "HashTable_SelfTest t p = Inr t2"
    using t1(1) t2(1) empty SanityCheck_rep [OF rep] SanityCheck_rep [OF rep2]
    by (simp add: HashTable_SelfTest_def it HashIterator_IsDone_def)
  with t2(2) show ?thesis by blast
qed

section \<open>Properties\<close>

text \<open>
  C24.  Inserting items with different keys into a new hash table, however many and whatever the hash
  function, through all the resizings of the table: no assertion fails, looking up a key finds the
  item that has it and nothing for any other key, the table counts its items and passes its sanity
  check.  Inserting two items with the same key aborts.
\<close>

theorem HashTable_inserts:
  "if distinct (map get xs)
   then \<exists>t. foldE (\<lambda>x t. HashTable_Insert t x) xs (HashTable_new get hFunc) = Inr t
     \<and> (\<forall>k. HashTable_Find t k = Inr (find (\<lambda>x. get x = k) xs)) \<and> numItems t = int (length xs)
     \<and> HashTable_SanityCheck t = Inr ()
   else foldE (\<lambda>x t. HashTable_Insert t x) xs (HashTable_new get hFunc) = Inl Assert_failed"
proof -
  note new = new_repk [of get hFunc]
  show ?thesis
  proof (cases "distinct (map get xs)")
    case True
    from ht.inserts_new [OF new True] obtain t where
      t: "foldE (\<lambda>x t. HashTable_Insert t x) xs (HashTable_new get hFunc) = Inr t" "HashTable_repk get t (mset xs)" by auto
    then have "numItems t = int (length xs)" by (simp add: HashTable_repk_def HashTable_rep_def)
    moreover have "HashTable_SanityCheck t = Inr ()" using t(2) SanityCheck_rep [of t "mset xs"] by (simp add: HashTable_repk_def)
    ultimately show ?thesis using True t(1) ht.lookup_find [OF t(2) True] by auto
  next
    case False
    then show ?thesis using ht.inserts_old [OF new] by auto
  qed
qed

text \<open>
  The self test of the library passes: a bitmap of 200 bits in any memory, a list, a sorted list and a
  hash table that is resized during the test, on the test vectors of the sources.
\<close>

lemma LibSelfTest_passes: "LibSelfTest garbage = Inr ()"
proof -
  obtain b b' where b: "Bitmap_new garbage 200 = Inr b" "Bitmap_SelfTest b = Inr b'"
    using Bitmap_new_ok [of 200 garbage] Bitmap_SelfTest_ok by force
  obtain l where l: "List_SelfTest List_Append List_SanityCheck List_new listTestVector = Inr l"
    using List_SelfTest_rep [OF List_new_rep, of listTestVector] by (auto simp add: listTestVector_def)
  obtain l' where l': "SortedList_SelfTest IntCompare List_new listTestVector = Inr l'"
    using SortedList_SelfTest_rep [OF List_new_rep _ int_cmp.comparison_axioms, of listTestVector]
    by (auto simp add: listTestVector_def)
  have "distinct (map HashKey hashTestVector)"
    by (simp add: hashTestVector_def HashKey_def)
  from HashTable_SelfTest_rep [OF new_repk this] obtain t where
    t: "HashTable_SelfTest (HashTable_new HashKey HashInt) hashTestVector = Inr t" "HashTable_repk HashKey t {#}" by blast
  have "HashTable_IsEmpty t" using t(2) by (simp add: HashTable_repk_def HashTable_rep_def HashTable_IsEmpty_def)
  then show ?thesis by (simp add: LibSelfTest_def Let_def b l l' t(1))
qed

end
