(* ===== verification/Machine.thy ===== *)
theory Machine
  imports NachOS_Prelude
begin

text \<open>
  \<^verbatim>\<open>code/machine/machine.h\<close>, \<^verbatim>\<open>machine.cc\<close>, \<^verbatim>\<open>translate.h\<close> and \<^verbatim>\<open>translate.cc\<close>: the simulated processor state,
  its main memory, and the translation of virtual addresses by a page table or a TLB.

  Registers are 32-bit words; a C \<^verbatim>\<open>int\<close> is read from a word by \<open>sint\<close>, an \<^verbatim>\<open>unsigned\<close> by \<open>uint\<close>.  Main memory
  is a map from physical addresses to bytes; every access that the model makes goes through
  \<open>Translate\<close>, whose last assertion is the bounds check.  The host is little endian (\<^verbatim>\<open>x86\<close>), so the
  conversions between host and machine order are the identity.

  The state is a record that the kernel extends with its own fields.  The exception handler of the
  kernel, \<open>ExceptionHandler\<close> in \<^verbatim>\<open>code/userprog/exception.cc\<close>, is an argument of the operations that can
  raise an exception.  The status field of the interrupt hardware, which \<open>RaiseException\<close> switches, is
  a field of this record.
\<close>

section \<open>Model\<close>

definition PageSize :: int where "PageSize = 128 * 2"
definition NumPhysPages :: int where "NumPhysPages = 128"
definition MemorySize :: int where "MemorySize = NumPhysPages * PageSize"
definition TLBSize :: int where "TLBSize = 4"

datatype ExceptionType =
    NoException | SyscallException | PageFaultException | ReadOnlyException | BusErrorException
  | AddressErrorException | OverflowException | IllegalInstrException | NumExceptionTypes

definition StackReg :: nat where "StackReg = 29"
definition RetAddrReg :: nat where "RetAddrReg = 31"
definition NumGPRegs :: nat where "NumGPRegs = 32"
definition HiReg :: nat where "HiReg = 32"
definition LoReg :: nat where "LoReg = 33"
definition PCReg :: nat where "PCReg = 34"
definition NextPCReg :: nat where "NextPCReg = 35"
definition PrevPCReg :: nat where "PrevPCReg = 36"
definition LoadReg :: nat where "LoadReg = 37"
definition LoadValueReg :: nat where "LoadValueReg = 38"
definition BadVAddrReg :: nat where "BadVAddrReg = 39"
definition NumTotalRegs :: nat where "NumTotalRegs = 40"

datatype MachineStatus = IdleMode | SystemMode | UserMode

record TranslationEntry =
  virtualPage :: int
  physicalPage :: int
  valid :: bool
  readOnly :: bool
  te_use :: bool
  te_dirty :: bool

record machine =
  registers :: "nat \<Rightarrow> 32 word"
  mainMemory :: "nat \<Rightarrow> 8 word"
  tlb :: "TranslationEntry list option"
  pageTable :: "TranslationEntry list option"
  pageTableSize :: int
  singleStep :: bool
  status :: MachineStatus

definition WordToHost :: "32 word \<Rightarrow> 32 word" where "WordToHost w = w"
definition ShortToHost :: "16 word \<Rightarrow> 16 word" where "ShortToHost w = w"
definition WordToMachine :: "32 word \<Rightarrow> 32 word" where "WordToMachine w = WordToHost w"
definition ShortToMachine :: "16 word \<Rightarrow> 16 word" where "ShortToMachine w = ShortToHost w"

text \<open>A 16-bit and a 32-bit access to the bytes of main memory on the little-endian host.\<close>

definition load16 :: "(nat \<Rightarrow> 8 word) \<Rightarrow> nat \<Rightarrow> 16 word" where
  "load16 mem a = ucast (mem a) OR push_bit 8 (ucast (mem (a + 1)))"

definition load32 :: "(nat \<Rightarrow> 8 word) \<Rightarrow> nat \<Rightarrow> 32 word" where
  "load32 mem a = ucast (mem a) OR push_bit 8 (ucast (mem (a + 1)))
     OR push_bit 16 (ucast (mem (a + 2))) OR push_bit 24 (ucast (mem (a + 3)))"

definition store16 :: "(nat \<Rightarrow> 8 word) \<Rightarrow> nat \<Rightarrow> 16 word \<Rightarrow> nat \<Rightarrow> 8 word" where
  "store16 mem a w = mem(a := ucast w, a + 1 := ucast (drop_bit 8 w))"

definition store32 :: "(nat \<Rightarrow> 8 word) \<Rightarrow> nat \<Rightarrow> 32 word \<Rightarrow> nat \<Rightarrow> 8 word" where
  "store32 mem a w = mem(a := ucast w, a + 1 := ucast (drop_bit 8 w),
     a + 2 := ucast (drop_bit 16 w), a + 3 := ucast (drop_bit 24 w))"

definition Machine_new :: "bool \<Rightarrow> machine" where
  "Machine_new dbg =
     \<lparr>registers = (\<lambda>_. 0), mainMemory = (\<lambda>_. 0), tlb = None, pageTable = None, pageTableSize = 0,
      singleStep = dbg, status = IdleMode\<rparr>"

definition Machine_ReadRegister :: "int \<Rightarrow> 'm machine_scheme \<Rightarrow> 32 word res" where
  "Machine_ReadRegister num m =
     bindE (assertE (0 \<le> num \<and> num < int NumTotalRegs)) (\<lambda>_. Inr (registers m (nat num)))"

definition Machine_WriteRegister :: "int \<Rightarrow> 32 word \<Rightarrow> 'm machine_scheme \<Rightarrow> 'm machine_scheme res" where
  "Machine_WriteRegister num value m =
     bindE (assertE (0 \<le> num \<and> num < int NumTotalRegs)) (\<lambda>_.
     Inr (m\<lparr>registers := (registers m)(nat num := value)\<rparr>))"

definition Machine_DelayedLoad :: "32 word \<Rightarrow> 32 word \<Rightarrow> 'm machine_scheme \<Rightarrow> 'm machine_scheme res" where
  "Machine_DelayedLoad nextReg nextValue m =
     (let r = registers m in
      if uint (r LoadReg) < int NumTotalRegs then
        Inr (m\<lparr>registers := ((r(unat (r LoadReg) := r LoadValueReg))(LoadReg := nextReg, LoadValueReg := nextValue, 0 := 0))\<rparr>)
      else Inl Out_of_bounds)"

definition Machine_RaiseException ::
    "(ExceptionType \<Rightarrow> 'm machine_scheme \<Rightarrow> 'm machine_scheme res) \<Rightarrow> ExceptionType \<Rightarrow> 32 word
     \<Rightarrow> 'm machine_scheme \<Rightarrow> 'm machine_scheme res" where
  "Machine_RaiseException handler which badVAddr m =
     bindE (Machine_DelayedLoad 0 0 (m\<lparr>registers := (registers m)(BadVAddrReg := badVAddr)\<rparr>)) (\<lambda>m.
     bindE (handler which (m\<lparr>status := SystemMode\<rparr>)) (\<lambda>m.
     Inr (m\<lparr>status := UserMode\<rparr>)))"

subsection \<open>Translation\<close>

text \<open>
  The part of \<open>Translate\<close> after the entry is found; \<open>put\<close> writes the entry back where it was found.
\<close>

definition Translate_entry ::
    "(TranslationEntry \<Rightarrow> 'm machine_scheme) \<Rightarrow> TranslationEntry \<Rightarrow> int \<Rightarrow> int \<Rightarrow> bool \<Rightarrow> 'm machine_scheme
     \<Rightarrow> ((ExceptionType + nat) \<times> 'm machine_scheme) res" where
  "Translate_entry put entry offset sz writing m =
     (if readOnly entry \<and> writing then Inr (Inl ReadOnlyException, m)
      else let pageFrame = physicalPage entry mod 2 ^ 32 in
        if NumPhysPages \<le> pageFrame then Inr (Inl BusErrorException, m)
        else let entry = entry\<lparr>te_use := True\<rparr>;
                 entry = (if writing then entry\<lparr>te_dirty := True\<rparr> else entry);
                 physAddr = pageFrame * PageSize + offset in
          bindE (assertE (0 \<le> physAddr \<and> physAddr + sz \<le> MemorySize)) (\<lambda>_.
          Inr (Inr (nat physAddr), put entry)))"

fun tlb_find :: "int \<Rightarrow> TranslationEntry list \<Rightarrow> int \<Rightarrow> int option" where
  "tlb_find vpn [] i = None"
| "tlb_find vpn (e # es) i = (if valid e \<and> virtualPage e = vpn then Some i else tlb_find vpn es (i + 1))"

definition Machine_Translate ::
    "32 word \<Rightarrow> int \<Rightarrow> bool \<Rightarrow> 'm machine_scheme \<Rightarrow> ((ExceptionType + nat) \<times> 'm machine_scheme) res" where
  "Machine_Translate virtAddr sz writing m =
     (if (sz = 4 \<and> virtAddr AND 3 \<noteq> 0) \<or> (sz = 2 \<and> virtAddr AND 1 \<noteq> 0) then Inr (Inl AddressErrorException, m)
      else
        bindE (assertE (tlb m = None \<or> pageTable m = None)) (\<lambda>_.
        bindE (assertE (tlb m \<noteq> None \<or> pageTable m \<noteq> None)) (\<lambda>_.
        let vpn = uint virtAddr div PageSize;
            offset = uint virtAddr mod PageSize in
        case tlb m of
          None \<Rightarrow>
            if pageTableSize m \<le> vpn then Inr (Inl AddressErrorException, m)
            else bindE (derefE (pageTable m)) (\<lambda>pt.
              bindE (readA pt vpn) (\<lambda>entry.
              if \<not> valid entry then Inr (Inl PageFaultException, m)
              else Translate_entry (\<lambda>e. m\<lparr>pageTable := Some (pt[nat vpn := e])\<rparr>) entry offset sz writing m))
        | Some es \<Rightarrow>
            (case tlb_find vpn (take (nat TLBSize) es) 0 of
               None \<Rightarrow> Inr (Inl PageFaultException, m)
             | Some i \<Rightarrow> Translate_entry (\<lambda>e. m\<lparr>tlb := Some (es[nat i := e])\<rparr>) (es ! nat i) offset sz writing m))))"

definition Machine_ReadMem ::
    "(ExceptionType \<Rightarrow> 'm machine_scheme \<Rightarrow> 'm machine_scheme res) \<Rightarrow> 32 word \<Rightarrow> int
     \<Rightarrow> 'm machine_scheme \<Rightarrow> (32 word option \<times> 'm machine_scheme) res" where
  "Machine_ReadMem handler addr sz m =
     bindE (Machine_Translate addr sz False m) (\<lambda>(r, m).
     case r of
       Inl exception \<Rightarrow> bindE (Machine_RaiseException handler exception addr m) (\<lambda>m. Inr (None, m))
     | Inr a \<Rightarrow>
         if sz = 1 then Inr (Some (scast (mainMemory m a)), m)
         else if sz = 2 then Inr (Some (ucast (ShortToHost (load16 (mainMemory m) a))), m)
         else if sz = 4 then Inr (Some (WordToHost (load32 (mainMemory m) a)), m)
         else Inl Assert_failed)"

definition Machine_WriteMem ::
    "(ExceptionType \<Rightarrow> 'm machine_scheme \<Rightarrow> 'm machine_scheme res) \<Rightarrow> 32 word \<Rightarrow> int \<Rightarrow> 32 word
     \<Rightarrow> 'm machine_scheme \<Rightarrow> (bool \<times> 'm machine_scheme) res" where
  "Machine_WriteMem handler addr sz value m =
     bindE (Machine_Translate addr sz True m) (\<lambda>(r, m).
     case r of
       Inl exception \<Rightarrow> bindE (Machine_RaiseException handler exception addr m) (\<lambda>m. Inr (False, m))
     | Inr a \<Rightarrow>
         if sz = 1 then Inr (True, m\<lparr>mainMemory := (mainMemory m)(a := ucast (value AND 0xff))\<rparr>)
         else if sz = 2 then
           Inr (True, m\<lparr>mainMemory := store16 (mainMemory m) a (ShortToMachine (ucast (value AND 0xffff)))\<rparr>)
         else if sz = 4 then
           Inr (True, m\<lparr>mainMemory := store32 (mainMemory m) a (WordToMachine value)\<rparr>)
         else Inl Assert_failed)"

section \<open>Words and bytes\<close>

lemma uint_and_mask: "uint (w AND mask n) = uint w mod 2 ^ n"
  by (simp add: unsigned_take_bit_eq flip: take_bit_eq_mask take_bit_eq_mod [of n "uint w"])

lemma align4: "(va :: 32 word) AND 3 \<noteq> 0 \<longleftrightarrow> \<not> 4 dvd uint va"
proof -
  have "va AND 3 = va AND mask 2" by (simp add: mask_eq_exp_minus_1)
  moreover have "va AND mask 2 = 0 \<longleftrightarrow> uint (va AND mask 2) = 0" by (simp only: uint_0_iff)
  ultimately show ?thesis by (simp only: uint_and_mask dvd_eq_mod_eq_0) simp
qed

lemma align2: "(va :: 32 word) AND 1 \<noteq> 0 \<longleftrightarrow> \<not> 2 dvd uint va"
proof -
  have "va AND 1 = va AND mask 1" by (simp add: mask_eq_exp_minus_1)
  moreover have "va AND mask 1 = 0 \<longleftrightarrow> uint (va AND mask 1) = 0" by (simp only: uint_0_iff)
  ultimately show ?thesis by (simp only: uint_and_mask dvd_eq_mod_eq_0) simp
qed

lemma load16_store16 [simp]: "load16 (store16 mem a w) a = w"
  by (rule bit_word_eqI) (auto simp add: load16_def store16_def bit_simps not_less)

lemma load32_store32 [simp]: "load32 (store32 mem a w) a = w"
proof (rule bit_word_eqI)
  fix n
  assume n: "n < LENGTH(32)"
  consider "n < 8" | "8 \<le> n" "n < 16" | "16 \<le> n" "n < 24" | "24 \<le> n" by linarith
  then show "bit (load32 (store32 mem a w) a) n = bit w n"
    using n by cases (auto simp add: load32_def store32_def bit_simps not_less)
qed

lemma store_elsewhere:
  "b < a \<or> a + 1 < b \<Longrightarrow> store16 mem a w b = mem b"
  "b < a \<or> a + 3 < b \<Longrightarrow> store32 mem a v b = mem b"
  by (auto simp add: store16_def store32_def)

section \<open>The page table as a specification\<close>

text \<open>
  \<open>mmu\<close> is what the translation promises: the exception or the physical address, from the page table
  alone.
\<close>

definition mmu :: "TranslationEntry list \<Rightarrow> 32 word \<Rightarrow> int \<Rightarrow> bool \<Rightarrow> ExceptionType + nat" where
  "mmu pt va sz writing =
     (let vpn = unat va div 256 in
      if \<not> sz dvd uint va \<or> length pt \<le> vpn then Inl AddressErrorException
      else if \<not> valid (pt ! vpn) then Inl PageFaultException
      else if readOnly (pt ! vpn) \<and> writing then Inl ReadOnlyException
      else if 128 \<le> physicalPage (pt ! vpn) mod 2 ^ 32 then Inl BusErrorException
      else Inr (nat (physicalPage (pt ! vpn) mod 2 ^ 32) * 256 + unat va mod 256))"

text \<open>The configuration that the kernel runs user programs in: no TLB, and a page table of the size it claims.\<close>

definition Machine_paged :: "'m machine_scheme \<Rightarrow> TranslationEntry list \<Rightarrow> bool" where
  "Machine_paged m pt \<longleftrightarrow> tlb m = None \<and> pageTable m = Some pt \<and> pageTableSize m = int (length pt)"

definition touch_entry :: "bool \<Rightarrow> TranslationEntry \<Rightarrow> TranslationEntry" where
  "touch_entry writing e = e\<lparr>te_use := True, te_dirty := te_dirty e \<or> writing\<rparr>"

definition touch_page :: "bool \<Rightarrow> 32 word \<Rightarrow> TranslationEntry list \<Rightarrow> TranslationEntry list" where
  "touch_page writing va pt = pt[unat va div 256 := touch_entry writing (pt ! (unat va div 256))]"

lemma touch_entry_simps [simp]:
  "physicalPage (touch_entry w e) = physicalPage e" "virtualPage (touch_entry w e) = virtualPage e"
  "valid (touch_entry w e) = valid e" "readOnly (touch_entry w e) = readOnly e"
  by (simp_all add: touch_entry_def)

lemma length_touch_page [simp]: "length (touch_page w va pt) = length pt"
  by (simp add: touch_page_def)

lemma touch_page_fields [simp]:
  "i < length pt \<Longrightarrow> physicalPage (touch_page w va pt ! i) = physicalPage (pt ! i)"
  "i < length pt \<Longrightarrow> valid (touch_page w va pt ! i) = valid (pt ! i)"
  "i < length pt \<Longrightarrow> readOnly (touch_page w va pt ! i) = readOnly (pt ! i)"
  by (cases "i = unat va div 256"; simp add: touch_page_def)+

lemma mmu_touch [simp]: "mmu (touch_page w va pt) = mmu pt"
  by (intro ext) (simp add: mmu_def Let_def)

lemma dvd_room:
  assumes "k dvd r" "k dvd n" "r < n"
  shows "r + k \<le> (n :: nat)"
proof -
  obtain c q where "n = k * c" "r = k * q" using assms by (elim dvdE)
  moreover from this have "Suc q \<le> c" using assms(3) by (cases "k = 0") auto
  then have "k * Suc q \<le> k * c" by (rule mult_le_mono2)
  ultimately show ?thesis by simp
qed

lemma same_page:
  assumes "a \<le> x" "x < a + k" "a mod 256 + k \<le> (256 :: nat)"
  shows "x div 256 = a div 256"
proof (rule div_nat_eqI)
  have eq: "256 * (a div 256) + a mod 256 = a" by simp
  with assms(1) show "256 * (a div 256) \<le> x" by linarith
  have "x < 256 * (a div 256) + 256" using eq assms(2,3) by linarith
  then show "x < 256 * Suc (a div 256)" by simp
qed

lemma mmu_bounds:
  assumes "mmu pt va sz w = Inr a" "sz \<in> {1, 2, 4}"
  shows "a + nat sz \<le> 32768" "a div 256 = nat (physicalPage (pt ! (unat va div 256)) mod 2 ^ 32)"
    "unat va div 256 < length pt" "valid (pt ! (unat va div 256))" "w \<longrightarrow> \<not> readOnly (pt ! (unat va div 256))"
    "a mod 256 + nat sz \<le> 256"
proof -
  let ?f = "physicalPage (pt ! (unat va div 256)) mod 2 ^ 32"
  have a: "a = nat ?f * 256 + unat va mod 256" and f: "?f < 128" and d: "sz dvd uint va"
    and *: "unat va div 256 < length pt" "valid (pt ! (unat va div 256))" "w \<longrightarrow> \<not> readOnly (pt ! (unat va div 256))"
    using assms(1) by (auto simp add: mmu_def Let_def not_le split: if_splits)
  show "a div 256 = nat ?f" by (simp add: a)
  show "unat va div 256 < length pt" "valid (pt ! (unat va div 256))" "w \<longrightarrow> \<not> readOnly (pt ! (unat va div 256))"
    by (rule *)+
  have room: "unat va mod 256 + nat sz \<le> 256"
  proof -
    have "int (nat sz) dvd int (unat va)" using d assms(2) by auto
    then have "nat sz dvd unat va" by (simp only: int_dvd_int_iff)
    moreover have "nat sz dvd 256" using assms(2) by auto
    ultimately show ?thesis by (intro dvd_room) (simp_all add: dvd_mod_iff)
  qed
  then show "a mod 256 + nat sz \<le> 256" by (simp add: a)
  have "nat ?f < 128" using f by auto
  with room show "a + nat sz \<le> 32768" unfolding a by linarith
qed

lemma Translate_mmu:
  assumes p: "Machine_paged m pt" and sz: "sz \<in> {1, 2, 4}"
  shows "Machine_Translate va sz w m = Inr (mmu pt va sz w,
    case mmu pt va sz w of Inl _ \<Rightarrow> m | Inr _ \<Rightarrow> m\<lparr>pageTable := Some (touch_page w va pt)\<rparr>)"
proof -
  have al: "(sz = 4 \<and> va AND 3 \<noteq> 0) \<or> (sz = 2 \<and> va AND 1 \<noteq> 0) \<longleftrightarrow> \<not> sz dvd uint va"
    using sz by (auto simp only: align4 align2 insert_iff empty_iff) auto
  have vpn: "uint va div PageSize = int (unat va div 256)" "uint va mod PageSize = int (unat va mod 256)"
    by (simp_all add: PageSize_def zdiv_int zmod_int)
  show ?thesis
  proof (cases "mmu pt va sz w")
    case (Inl e)
    then show ?thesis using p
      by (auto simp add: Machine_Translate_def al vpn Machine_paged_def mmu_def Let_def Translate_entry_def NumPhysPages_def
        split: if_splits)
  next
    case (Inr a)
    let ?i = "unat va div 256" and ?f = "physicalPage (pt ! (unat va div 256)) mod 2 ^ 32"
    note b = mmu_bounds [OF Inr sz]
    have a: "a = nat ?f * 256 + unat va mod 256" and f: "?f < 128" and d: "sz dvd uint va"
      using Inr by (auto simp add: mmu_def Let_def not_le split: if_splits)
    have phys: "?f * PageSize + int (unat va mod 256) = int a" by (simp add: a PageSize_def)
    have "Translate_entry put (pt ! ?i) (int (unat va mod 256)) sz w m = Inr (Inr a, put (touch_entry w (pt ! ?i)))" for put
      unfolding Translate_entry_def Let_def phys using b(1,5) f sz
      by (auto simp add: NumPhysPages_def MemorySize_def PageSize_def touch_entry_def)
    then show ?thesis using p b d al Inr
      by (simp add: Machine_Translate_def vpn Machine_paged_def touch_page_def)
  qed
qed

lemma mmu_write_read: "mmu pt va sz True = Inr a \<Longrightarrow> mmu pt va sz False = Inr a"
  by (auto simp add: mmu_def Let_def split: if_splits)

section \<open>Reading and writing virtual memory\<close>

text \<open>What a read of \<open>sz\<close> bytes gives, and what a write leaves in memory; a byte is sign-extended.\<close>

definition mem_value :: "(nat \<Rightarrow> 8 word) \<Rightarrow> nat \<Rightarrow> int \<Rightarrow> 32 word" where
  "mem_value mem a sz = (if sz = 1 then scast (mem a) else if sz = 2 then ucast (load16 mem a) else load32 mem a)"

definition mem_update :: "(nat \<Rightarrow> 8 word) \<Rightarrow> nat \<Rightarrow> int \<Rightarrow> 32 word \<Rightarrow> nat \<Rightarrow> 8 word" where
  "mem_update mem a sz v =
     (if sz = 1 then mem(a := ucast v) else if sz = 2 then store16 mem a (ucast v) else store32 mem a v)"

definition trunc_value :: "int \<Rightarrow> 32 word \<Rightarrow> 32 word" where
  "trunc_value sz v = (if sz = 1 then scast (ucast v :: 8 word) else if sz = 2 then ucast (ucast v :: 16 word) else v)"

lemma mem_value_update: "mem_value (mem_update mem a sz v) a sz = trunc_value sz v"
  by (simp add: mem_value_def mem_update_def trunc_value_def)

lemma mem_update_elsewhere:
  "sz \<in> {1, 2, 4} \<Longrightarrow> b < a \<or> a + nat sz \<le> b \<Longrightarrow> mem_update mem a sz v b = mem b"
  by (auto simp add: mem_update_def store_elsewhere)

lemma ucast_and_mask8: "(ucast ((v :: 32 word) AND 0xff) :: 8 word) = ucast v"
  and ucast_and_mask16: "(ucast ((v :: 32 word) AND 0xffff) :: 16 word) = ucast v"
proof -
  have "(0xff :: 32 word) = mask 8" "(0xffff :: 32 word) = mask 16" by (simp_all add: mask_eq_exp_minus_1)
  then show "(ucast (v AND 0xff) :: 8 word) = ucast v" "(ucast (v AND 0xffff) :: 16 word) = ucast v"
    by (simp_all add: bit_eq_iff bit_simps)
qed

lemma ReadMem_paged:
  assumes "Machine_paged m pt" "sz \<in> {1, 2, 4}"
  shows "Machine_ReadMem h va sz m =
    (case mmu pt va sz False of
       Inl e \<Rightarrow> bindE (Machine_RaiseException h e va m) (\<lambda>m. Inr (None, m))
     | Inr a \<Rightarrow> Inr (Some (mem_value (mainMemory m) a sz), m\<lparr>pageTable := Some (touch_page False va pt)\<rparr>))"
  using assms(2)
  by (auto simp add: Machine_ReadMem_def Translate_mmu [OF assms] mem_value_def ShortToHost_def WordToHost_def
    split: sum.splits)

lemma WriteMem_paged:
  assumes "Machine_paged m pt" "sz \<in> {1, 2, 4}"
  shows "Machine_WriteMem h va sz v m =
    (case mmu pt va sz True of
       Inl e \<Rightarrow> bindE (Machine_RaiseException h e va m) (\<lambda>m. Inr (False, m))
     | Inr a \<Rightarrow> Inr (True, m\<lparr>mainMemory := mem_update (mainMemory m) a sz v, pageTable := Some (touch_page True va pt)\<rparr>))"
  using assms(2)
  by (auto simp add: Machine_WriteMem_def Translate_mmu [OF assms] mem_update_def ShortToMachine_def WordToMachine_def
    ShortToHost_def WordToHost_def ucast_and_mask8 ucast_and_mask16 split: sum.splits)

section \<open>Properties\<close>

text \<open>
  C20.  Address translation through a page table: for a 1, 2 or 4 byte access, \<open>Translate\<close> never aborts and
  never reads outside the page table; it gives the exception or the physical address that the page
  table determines (\<open>mmu\<close>); an exception leaves the machine unchanged; a translated access lies inside
  main memory, in the frame of a valid page that is writable when the access is a write, and the only
  change to the machine is the use and dirty bit of that page.
\<close>

theorem Translate_correct:
  assumes "Machine_paged m pt" "sz \<in> {1, 2, 4}"
  shows "\<exists>r m'. Machine_Translate va sz w m = Inr (r, m') \<and> r = mmu pt va sz w
    \<and> (case r of
         Inl e \<Rightarrow> m' = m
       | Inr a \<Rightarrow> int a + sz \<le> MemorySize \<and> m' = m\<lparr>pageTable := Some (touch_page w va pt)\<rparr>
           \<and> Machine_paged m' (touch_page w va pt)
           \<and> (\<exists>e \<in> set pt. valid e \<and> (w \<longrightarrow> \<not> readOnly e) \<and> int (a div 256) = physicalPage e mod 2 ^ 32))"
proof (cases "mmu pt va sz w")
  case (Inl e)
  then show ?thesis using Translate_mmu [OF assms] by simp
next
  case (Inr a)
  note b = mmu_bounds [OF Inr assms(2)]
  have "\<exists>e \<in> set pt. valid e \<and> (w \<longrightarrow> \<not> readOnly e) \<and> int (a div 256) = physicalPage e mod 2 ^ 32"
    using b by (intro bexI [of _ "pt ! (unat va div 256)"]) auto
  then show ?thesis
    using Translate_mmu [OF assms, of va w] Inr b(1) assms
    by (auto simp add: MemorySize_def NumPhysPages_def PageSize_def Machine_paged_def)
qed

theorem Translate_correct_witness:
  "\<exists>m'. Machine_Translate 260 4 True
     ((Machine_new False)\<lparr>pageTable := Some [\<lparr>virtualPage = 0, physicalPage = 7, valid = True, readOnly = True, te_use = False, te_dirty = False\<rparr>,
        \<lparr>virtualPage = 1, physicalPage = 5, valid = True, readOnly = False, te_use = False, te_dirty = False\<rparr>], pageTableSize := 2\<rparr>)
     = Inr (Inr 1284, m')"
proof -
  let ?pt = "[\<lparr>virtualPage = 0, physicalPage = 7, valid = True, readOnly = True, te_use = False, te_dirty = False\<rparr>,
        \<lparr>virtualPage = 1, physicalPage = 5, valid = True, readOnly = False, te_use = False, te_dirty = False\<rparr>]"
  let ?m = "(Machine_new False)\<lparr>pageTable := Some ?pt, pageTableSize := 2\<rparr>"
  have "Machine_paged ?m ?pt" by (simp add: Machine_paged_def Machine_new_def)
  from Translate_correct [OF this, of 4 260 True] show ?thesis by (auto simp add: mmu_def)
qed

text \<open>
  Memory round trip and protection: after a successful write of \<open>sz\<close> bytes at a virtual address, a
  read of the same size at that address gives the value written, truncated to the size (a byte is
  sign-extended, a half word is not), without an exception; and the write changes only bytes in frames
  of valid, writable pages of the running program.
\<close>

lemma WriteMem_ReadMem:
  assumes p: "Machine_paged m pt" and sz: "sz \<in> {1, 2, 4}" and w: "Machine_WriteMem h va sz v m = Inr (True, m')"
  shows "(\<exists>m''. Machine_ReadMem h' va sz m' = Inr (Some (trunc_value sz v), m'') \<and> mainMemory m'' = mainMemory m')
    \<and> registers m' = registers m
    \<and> (\<forall>a. mainMemory m' a = mainMemory m a
         \<or> (\<exists>e \<in> set pt. valid e \<and> \<not> readOnly e \<and> int (a div 256) = physicalPage e mod 2 ^ 32))"
proof -
  obtain a where a: "mmu pt va sz True = Inr a"
    and m': "m' = m\<lparr>mainMemory := mem_update (mainMemory m) a sz v, pageTable := Some (touch_page True va pt)\<rparr>"
    using w by (auto simp add: WriteMem_paged [OF p sz] bindE_eq_Inr split: sum.splits)
  note b = mmu_bounds [OF a sz]
  have p': "Machine_paged m' (touch_page True va pt)" using p m' by (simp add: Machine_paged_def)
  have "mainMemory m' x = mainMemory m x \<or> (\<exists>e \<in> set pt. valid e \<and> \<not> readOnly e \<and> int (x div 256) = physicalPage e mod 2 ^ 32)" for x
  proof (cases "x < a \<or> a + nat sz \<le> x")
    case True
    then show ?thesis using mem_update_elsewhere [OF sz True] by (simp add: m')
  next
    case False
    have "x div 256 = a div 256" using False b(6) by (intro same_page [of _ _ "nat sz"]) auto
    then have "int (x div 256) = physicalPage (pt ! (unat va div 256)) mod 2 ^ 32" using b(2) by simp
    then show ?thesis using b by (intro disjI2 bexI [of _ "pt ! (unat va div 256)"]) auto
  qed
  moreover have "mainMemory m' = mem_update (mainMemory m) a sz v" "registers m' = registers m" by (simp_all add: m')
  moreover from this have "\<exists>m''. Machine_ReadMem h' va sz m' = Inr (Some (trunc_value sz v), m'') \<and> mainMemory m'' = mainMemory m'"
    by (simp add: ReadMem_paged [OF p' sz] mmu_write_read [OF a] mem_value_update)
  ultimately show ?thesis by blast
qed

lemma WriteMem_ReadMem_witness:
  "\<exists>m' m''. Machine_WriteMem (\<lambda>_. Inr) 10 1 0x1F0
     ((Machine_new False)\<lparr>pageTable := Some [\<lparr>virtualPage = 0, physicalPage = 7, valid = True, readOnly = False, te_use = False, te_dirty = False\<rparr>],
        pageTableSize := 1\<rparr>) = Inr (True, m')
   \<and> Machine_ReadMem (\<lambda>_. Inr) 10 1 m' = Inr (Some (- 16), m'')"
proof -
  let ?pt = "[\<lparr>virtualPage = 0, physicalPage = 7, valid = True, readOnly = False, te_use = False, te_dirty = False\<rparr>]"
  let ?m = "(Machine_new False)\<lparr>pageTable := Some ?pt, pageTableSize := 1\<rparr>"
  have p: "Machine_paged ?m ?pt" by (simp add: Machine_paged_def Machine_new_def)
  then obtain m' where w: "Machine_WriteMem (\<lambda>_. Inr) 10 1 0x1F0 ?m = Inr (True, m')"
    by (simp add: WriteMem_paged [OF p] mmu_def)
  from WriteMem_ReadMem [OF p _ w, of "\<lambda>_. Inr"] w show ?thesis by (auto simp add: trunc_value_def)
qed

end
