(* ===== verification/Mips.thy ===== *)
theory Mips
  imports Machine
begin

text \<open>
  \<^verbatim>\<open>code/machine/mipssim.h\<close> and \<^verbatim>\<open>mipssim.cc\<close>: the decoding and the execution of one MIPS instruction, with
  delayed loads and branch delay slots, as compiled with \<^verbatim>\<open>SIM_FIX\<close>.  The switch of \<open>OneInstruction\<close> is
  split into one definition per group of consecutive cases.
\<close>

section \<open>Decoding\<close>

datatype (plugins only:) OpCode =
    OP_ADD | OP_ADDI | OP_ADDIU | OP_ADDU | OP_AND | OP_ANDI | OP_BEQ | OP_BGEZ | OP_BGEZAL | OP_BGTZ
  | OP_BLEZ | OP_BLTZ | OP_BLTZAL | OP_BNE | OP_DIV | OP_DIVU | OP_J | OP_JAL | OP_JALR | OP_JR
  | OP_LB | OP_LBU | OP_LH | OP_LHU | OP_LUI | OP_LW | OP_LWL | OP_LWR | OP_MFHI | OP_MFLO
  | OP_MTHI | OP_MTLO | OP_MULT | OP_MULTU | OP_NOR | OP_OR | OP_ORI | OP_RFE | OP_SB | OP_SH
  | OP_SLL | OP_SLLV | OP_SLT | OP_SLTI | OP_SLTIU | OP_SLTU | OP_SRA | OP_SRAV | OP_SRL | OP_SRLV
  | OP_SUB | OP_SUBU | OP_SW | OP_SWL | OP_SWR | OP_XOR | OP_XORI | OP_SYSCALL | OP_UNIMP | OP_RES
  | SPECIAL | BCOND

datatype OpFormat = IFMT | JFMT | RFMT

definition opTable :: "(OpCode \<times> OpFormat) list" where
  "opTable = [
    (SPECIAL, RFMT), (BCOND, IFMT), (OP_J, JFMT), (OP_JAL, JFMT),
    (OP_BEQ, IFMT), (OP_BNE, IFMT), (OP_BLEZ, IFMT), (OP_BGTZ, IFMT),
    (OP_ADDI, IFMT), (OP_ADDIU, IFMT), (OP_SLTI, IFMT), (OP_SLTIU, IFMT),
    (OP_ANDI, IFMT), (OP_ORI, IFMT), (OP_XORI, IFMT), (OP_LUI, IFMT),
    (OP_UNIMP, IFMT), (OP_UNIMP, IFMT), (OP_UNIMP, IFMT), (OP_UNIMP, IFMT),
    (OP_RES, IFMT), (OP_RES, IFMT), (OP_RES, IFMT), (OP_RES, IFMT),
    (OP_RES, IFMT), (OP_RES, IFMT), (OP_RES, IFMT), (OP_RES, IFMT),
    (OP_RES, IFMT), (OP_RES, IFMT), (OP_RES, IFMT), (OP_RES, IFMT),
    (OP_LB, IFMT), (OP_LH, IFMT), (OP_LWL, IFMT), (OP_LW, IFMT),
    (OP_LBU, IFMT), (OP_LHU, IFMT), (OP_LWR, IFMT), (OP_RES, IFMT),
    (OP_SB, IFMT), (OP_SH, IFMT), (OP_SWL, IFMT), (OP_SW, IFMT),
    (OP_RES, IFMT), (OP_RES, IFMT), (OP_SWR, IFMT), (OP_RES, IFMT),
    (OP_UNIMP, IFMT), (OP_UNIMP, IFMT), (OP_UNIMP, IFMT), (OP_UNIMP, IFMT),
    (OP_RES, IFMT), (OP_RES, IFMT), (OP_RES, IFMT), (OP_RES, IFMT),
    (OP_UNIMP, IFMT), (OP_UNIMP, IFMT), (OP_UNIMP, IFMT), (OP_UNIMP, IFMT),
    (OP_RES, IFMT), (OP_RES, IFMT), (OP_RES, IFMT), (OP_RES, IFMT)]"

definition specialTable :: "OpCode list" where
  "specialTable = [
    OP_SLL, OP_RES, OP_SRL, OP_SRA, OP_SLLV, OP_RES, OP_SRLV, OP_SRAV,
    OP_JR, OP_JALR, OP_RES, OP_RES, OP_SYSCALL, OP_UNIMP, OP_RES, OP_RES,
    OP_MFHI, OP_MTHI, OP_MFLO, OP_MTLO, OP_RES, OP_RES, OP_RES, OP_RES,
    OP_MULT, OP_MULTU, OP_DIV, OP_DIVU, OP_RES, OP_RES, OP_RES, OP_RES,
    OP_ADD, OP_ADDU, OP_SUB, OP_SUBU, OP_AND, OP_OR, OP_XOR, OP_NOR,
    OP_RES, OP_RES, OP_SLT, OP_SLTU, OP_RES, OP_RES, OP_RES, OP_RES,
    OP_RES, OP_RES, OP_RES, OP_RES, OP_RES, OP_RES, OP_RES, OP_RES,
    OP_RES, OP_RES, OP_RES, OP_RES, OP_RES, OP_RES, OP_RES, OP_RES]"

record Instruction =
  opCode :: OpCode
  rs :: nat
  rt :: nat
  rd :: nat
  extra :: "32 word"

definition Instruction_Decode :: "32 word \<Rightarrow> Instruction" where
  "Instruction_Decode value =
     (let (op, format) = opTable ! unat (drop_bit 26 value AND 0x3f);
          ex = (if format = IFMT then
                  let e = value AND 0xffff in if e AND 0x8000 \<noteq> 0 then e OR 0xffff0000 else e
                else if format = RFMT then drop_bit 6 value AND 0x1f
                else value AND 0x3ffffff);
          op = (if op = SPECIAL then specialTable ! unat (value AND 0x3f)
                else if op = BCOND then
                  let i = value AND 0x1f0000 in
                  if i = 0 then OP_BLTZ
                  else if i = 0x10000 then OP_BGEZ
                  else if i = 0x100000 then OP_BLTZAL
                  else if i = 0x110000 then OP_BGEZAL
                  else OP_UNIMP
                else op) in
      \<lparr>opCode = op, rs = unat (drop_bit 21 value AND 0x1f), rt = unat (drop_bit 16 value AND 0x1f),
       rd = unat (drop_bit 11 value AND 0x1f), extra = ex\<rparr>)"

datatype RegType = REG_NONE | RS | RT | RD | EXTRA

definition TypeToReg :: "RegType \<Rightarrow> Instruction \<Rightarrow> int" where
  "TypeToReg reg instr =
     (case reg of RS \<Rightarrow> int (rs instr) | RT \<Rightarrow> int (rt instr) | RD \<Rightarrow> int (rd instr)
      | EXTRA \<Rightarrow> sint (extra instr) | REG_NONE \<Rightarrow> -1)"

section \<open>Multiplication\<close>

fun Mult_loop :: "nat \<Rightarrow> 32 word \<Rightarrow> 32 word \<Rightarrow> 32 word \<Rightarrow> 32 word \<Rightarrow> 32 word \<Rightarrow> 32 word \<times> 32 word" where
  "Mult_loop 0 a bHi bLo hi lo = (hi, lo)"
| "Mult_loop (Suc n) a bHi bLo hi lo =
     (let (hi, lo) = (if a AND 1 \<noteq> 0 then
                        let lo = lo + bLo; hi = (if lo < bLo then hi + 1 else hi) in (hi + bHi, lo)
                      else (hi, lo)) in
      if a AND 1 \<noteq> 0 \<and> a AND 0xfffffffe = 0 then (hi, lo)
      else let bHi = push_bit 1 bHi;
               bHi = (if bLo AND 0x80000000 \<noteq> 0 then bHi OR 1 else bHi) in
        Mult_loop n (signed_drop_bit 1 a) bHi (push_bit 1 bLo) hi lo)"

definition Mult :: "32 word \<Rightarrow> 32 word \<Rightarrow> bool \<Rightarrow> 32 word \<times> 32 word" where
  "Mult a b signedArith =
     (if a = 0 \<or> b = 0 then (0, 0)
      else let negative = False;
               (negative, a) = (if signedArith \<and> sint a < 0 then (\<not> negative, - a) else (negative, a));
               (negative, b) = (if signedArith \<and> sint b < 0 then (\<not> negative, - b) else (negative, b));
               (hi, lo) = Mult_loop 32 a 0 b 0 0 in
        if negative then
          let hi = NOT hi; lo = NOT lo; lo = lo + 1 in (if lo = 0 then hi + 1 else hi, lo)
        else (hi, lo))"

section \<open>One instruction\<close>

text \<open>
  The outcome of a case of the switch: \<open>None\<close> when the case returns from \<open>OneInstruction\<close> after an
  exception, otherwise the value of \<open>pcAfter\<close> and the delayed load (\<open>nextLoadReg\<close>, \<open>nextLoadValue\<close>).
\<close>

type_synonym 'm exec = "('m machine_scheme \<times> (32 word \<times> 32 word \<times> 32 word) option) res"
type_synonym 'm handler = "ExceptionType \<Rightarrow> 'm machine_scheme \<Rightarrow> 'm machine_scheme res"

definition set_reg :: "nat \<Rightarrow> 32 word \<Rightarrow> 'm machine_scheme \<Rightarrow> 'm machine_scheme" where
  "set_reg r v m = m\<lparr>registers := (registers m)(r := v)\<rparr>"

definition brk :: "32 word \<Rightarrow> 'm machine_scheme \<Rightarrow> 'm exec" where
  "brk pcAfter m = Inr (m, Some (pcAfter, 0, 0))"

definition brk_load :: "32 word \<Rightarrow> nat \<Rightarrow> 32 word \<Rightarrow> 'm machine_scheme \<Rightarrow> 'm exec" where
  "brk_load pcAfter nextLoadReg nextLoadValue m = Inr (m, Some (pcAfter, of_nat nextLoadReg, nextLoadValue))"

definition raise :: "'m handler \<Rightarrow> ExceptionType \<Rightarrow> 32 word \<Rightarrow> 'm machine_scheme \<Rightarrow> 'm exec" where
  "raise h which badVAddr m = bindE (Machine_RaiseException h which badVAddr m) (\<lambda>m. Inr (m, None))"

text \<open>\<^verbatim>\<open>if (!ReadMem(addr, size, &value)) return;\<close> and the same for \<open>WriteMem\<close>.\<close>

definition read_or_return ::
    "'m handler \<Rightarrow> 32 word \<Rightarrow> int \<Rightarrow> 'm machine_scheme \<Rightarrow> (32 word \<Rightarrow> 'm machine_scheme \<Rightarrow> 'm exec) \<Rightarrow> 'm exec" where
  "read_or_return h addr sz m k =
     bindE (Machine_ReadMem h addr sz m) (\<lambda>(v, m). case v of None \<Rightarrow> Inr (m, None) | Some value \<Rightarrow> k value m)"

definition write_or_return ::
    "'m handler \<Rightarrow> 32 word \<Rightarrow> int \<Rightarrow> 32 word \<Rightarrow> 'm machine_scheme \<Rightarrow> ('m machine_scheme \<Rightarrow> 'm exec) \<Rightarrow> 'm exec" where
  "write_or_return h addr sz value m k =
     bindE (Machine_WriteMem h addr sz value m) (\<lambda>(ok, m). if ok then k m else Inr (m, None))"

definition SIGN_BIT :: "32 word" where "SIGN_BIT = 0x80000000"
definition R31 :: nat where "R31 = 31"
definition IndexToAddr :: "32 word \<Rightarrow> 32 word" where "IndexToAddr x = push_bit 2 x"

definition exec_add :: "'m handler \<Rightarrow> Instruction \<Rightarrow> 32 word \<Rightarrow> 'm machine_scheme \<Rightarrow> 'm exec" where
  "exec_add h i pcAfter m =
     (let R = registers m in
      if opCode i = OP_ADD then
        let sum = R (rs i) + R (rt i) in
        if (R (rs i) XOR R (rt i)) AND SIGN_BIT = 0 \<and> (R (rs i) XOR sum) AND SIGN_BIT \<noteq> 0
        then raise h OverflowException 0 m
        else brk pcAfter (set_reg (rd i) sum m)
      else if opCode i = OP_ADDI then
        let sum = R (rs i) + extra i in
        if (R (rs i) XOR extra i) AND SIGN_BIT = 0 \<and> (extra i XOR sum) AND SIGN_BIT \<noteq> 0
        then raise h OverflowException 0 m
        else brk pcAfter (set_reg (rt i) sum m)
      else if opCode i = OP_ADDIU then brk pcAfter (set_reg (rt i) (R (rs i) + extra i) m)
      else if opCode i = OP_ADDU then brk pcAfter (set_reg (rd i) (R (rs i) + R (rt i)) m)
      else if opCode i = OP_AND then brk pcAfter (set_reg (rd i) (R (rs i) AND R (rt i)) m)
      else brk pcAfter (set_reg (rt i) (R (rs i) AND (extra i AND 0xffff)) m))"

definition exec_branch :: "'m handler \<Rightarrow> Instruction \<Rightarrow> 32 word \<Rightarrow> 'm machine_scheme \<Rightarrow> 'm exec" where
  "exec_branch h i pcAfter m =
     (let m = (if opCode i \<in> {OP_BGEZAL, OP_BLTZAL} then set_reg R31 (registers m NextPCReg + 4) m else m);
          R = registers m;
          taken = (if opCode i = OP_BEQ then R (rs i) = R (rt i)
                   else if opCode i \<in> {OP_BGEZAL, OP_BGEZ} then R (rs i) AND SIGN_BIT = 0
                   else if opCode i = OP_BGTZ then 0 < sint (R (rs i))
                   else if opCode i = OP_BLEZ then sint (R (rs i)) \<le> 0
                   else if opCode i \<in> {OP_BLTZAL, OP_BLTZ} then R (rs i) AND SIGN_BIT \<noteq> 0
                   else R (rs i) \<noteq> R (rt i)) in
      brk (if taken then R NextPCReg + IndexToAddr (extra i) else pcAfter) m)"

text \<open>
  The division of the host traps on a divisor 0, and the signed one on the quotient of the least integer by -1, which does not fit.
\<close>

definition host_div :: "32 word \<Rightarrow> 32 word \<Rightarrow> (32 word \<times> 32 word) res" where
  "host_div a b =
     (if b = 0 \<or> sint a = - (2 ^ 31) \<and> sint b = - 1 then Inl Host_trap
      else Inr (word_of_int (sint a sdiv sint b), word_of_int (sint a smod sint b)))"

definition host_divu :: "32 word \<Rightarrow> 32 word \<Rightarrow> (32 word \<times> 32 word) res" where
  "host_divu a b = (if b = 0 then Inl Host_trap else Inr (a div b, a mod b))"

definition exec_div :: "'m handler \<Rightarrow> Instruction \<Rightarrow> 32 word \<Rightarrow> 'm machine_scheme \<Rightarrow> 'm exec" where
  "exec_div h i pcAfter m =
     (let R = registers m in
      if R (rt i) = 0 then brk pcAfter (set_reg HiReg 0 (set_reg LoReg 0 m))
      else bindE (if opCode i = OP_DIV then host_div (R (rs i)) (R (rt i)) else host_divu (R (rs i)) (R (rt i))) (\<lambda>(q, r).
        brk pcAfter (set_reg HiReg r (set_reg LoReg q m))))"

definition exec_jump :: "'m handler \<Rightarrow> Instruction \<Rightarrow> 32 word \<Rightarrow> 'm machine_scheme \<Rightarrow> 'm exec" where
  "exec_jump h i pcAfter m =
     (let link = registers m NextPCReg + 4 in
      if opCode i \<in> {OP_JAL, OP_J} then
        brk ((pcAfter AND 0xf0000000) OR IndexToAddr (extra i)) (if opCode i = OP_JAL then set_reg R31 link m else m)
      else let m = (if opCode i = OP_JALR then set_reg (rd i) link m else m) in
        brk (registers m (rs i)) m)"

definition exec_load :: "'m handler \<Rightarrow> Instruction \<Rightarrow> 32 word \<Rightarrow> 'm machine_scheme \<Rightarrow> 'm exec" where
  "exec_load h i pcAfter m =
     (let tmp = registers m (rs i) + extra i in
      if opCode i \<in> {OP_LB, OP_LBU} then
        read_or_return h tmp 1 m (\<lambda>value m.
          let value = (if value AND 0x80 \<noteq> 0 \<and> opCode i = OP_LB then value OR 0xffffff00 else value AND 0xff) in
          brk_load pcAfter (rt i) value m)
      else if opCode i \<in> {OP_LH, OP_LHU} then
        if tmp AND 1 \<noteq> 0 then raise h AddressErrorException tmp m
        else read_or_return h tmp 2 m (\<lambda>value m.
          let value = (if value AND 0x8000 \<noteq> 0 \<and> opCode i = OP_LH then value OR 0xffff0000 else value AND 0xffff) in
          brk_load pcAfter (rt i) value m)
      else if opCode i = OP_LUI then brk pcAfter (set_reg (rt i) (push_bit 16 (extra i)) m)
      else
        if tmp AND 3 \<noteq> 0 then raise h AddressErrorException tmp m
        else read_or_return h tmp 4 m (\<lambda>value m. brk_load pcAfter (rt i) value m))"

definition exec_unaligned_load :: "'m handler \<Rightarrow> Instruction \<Rightarrow> 32 word \<Rightarrow> 'm machine_scheme \<Rightarrow> 'm exec" where
  "exec_unaligned_load h i pcAfter m =
     (let tmp = registers m (rs i) + extra i;
          byte = tmp AND 3 in
      read_or_return h (tmp - byte) 4 m (\<lambda>value m.
        let nextLoadValue = (if registers m LoadReg = of_nat (rt i) then registers m LoadValueReg else registers m (rt i));
            nextLoadValue =
              (if opCode i = OP_LWL then
                 if 3 - byte = 0 then value
                 else if 3 - byte = 1 then (nextLoadValue AND 0xff) OR push_bit 8 value
                 else if 3 - byte = 2 then (nextLoadValue AND 0xffff) OR push_bit 16 value
                 else (nextLoadValue AND 0xffffff) OR push_bit 24 value
               else
                 if 3 - byte = 0 then (nextLoadValue AND 0xffffff00) OR (signed_drop_bit 24 value AND 0xff)
                 else if 3 - byte = 1 then (nextLoadValue AND 0xffff0000) OR (signed_drop_bit 16 value AND 0xffff)
                 else if 3 - byte = 2 then (nextLoadValue AND 0xff000000) OR (signed_drop_bit 8 value AND 0xffffff)
                 else value) in
        brk_load pcAfter (rt i) nextLoadValue m))"

definition exec_hilo :: "'m handler \<Rightarrow> Instruction \<Rightarrow> 32 word \<Rightarrow> 'm machine_scheme \<Rightarrow> 'm exec" where
  "exec_hilo h i pcAfter m =
     (let R = registers m in
      if opCode i = OP_MFHI then brk pcAfter (set_reg (rd i) (R HiReg) m)
      else if opCode i = OP_MFLO then brk pcAfter (set_reg (rd i) (R LoReg) m)
      else if opCode i = OP_MTHI then brk pcAfter (set_reg HiReg (R (rs i)) m)
      else if opCode i = OP_MTLO then brk pcAfter (set_reg LoReg (R (rs i)) m)
      else if opCode i \<in> {OP_MULT, OP_MULTU} then
        let (hi, lo) = Mult (R (rs i)) (R (rt i)) (opCode i = OP_MULT) in
        brk pcAfter (set_reg LoReg lo (set_reg HiReg hi m))
      else if opCode i = OP_NOR then brk pcAfter (set_reg (rd i) (NOT (R (rs i) OR R (rt i))) m)
      else if opCode i = OP_OR then brk pcAfter (set_reg (rd i) (R (rs i) OR R (rt i)) m)
      else brk pcAfter (set_reg (rt i) (R (rs i) OR (extra i AND 0xffff)) m))"

definition exec_store :: "'m handler \<Rightarrow> Instruction \<Rightarrow> 32 word \<Rightarrow> 'm machine_scheme \<Rightarrow> 'm exec" where
  "exec_store h i pcAfter m =
     (let sz = (if opCode i = OP_SB then 1 else if opCode i = OP_SH then 2 else 4) in
      write_or_return h (registers m (rs i) + extra i) sz (registers m (rt i)) m (brk pcAfter))"

definition exec_shift :: "'m handler \<Rightarrow> Instruction \<Rightarrow> 32 word \<Rightarrow> 'm machine_scheme \<Rightarrow> 'm exec" where
  "exec_shift h i pcAfter m =
     (let R = registers m; sa = unat (extra i); sv = unat (R (rs i) AND 0x1f) in
      if opCode i = OP_SLL then brk pcAfter (set_reg (rd i) (push_bit sa (R (rt i))) m)
      else if opCode i = OP_SLLV then brk pcAfter (set_reg (rd i) (push_bit sv (R (rt i))) m)
      else if opCode i = OP_SLT then brk pcAfter (set_reg (rd i) (if sint (R (rs i)) < sint (R (rt i)) then 1 else 0) m)
      else if opCode i = OP_SLTI then brk pcAfter (set_reg (rt i) (if sint (R (rs i)) < sint (extra i) then 1 else 0) m)
      else if opCode i = OP_SLTIU then brk pcAfter (set_reg (rt i) (if uint (R (rs i)) < uint (extra i) then 1 else 0) m)
      else if opCode i = OP_SLTU then brk pcAfter (set_reg (rd i) (if uint (R (rs i)) < uint (R (rt i)) then 1 else 0) m)
      else if opCode i = OP_SRA then brk pcAfter (set_reg (rd i) (signed_drop_bit sa (R (rt i))) m)
      else if opCode i = OP_SRAV then brk pcAfter (set_reg (rd i) (signed_drop_bit sv (R (rt i))) m)
      else if opCode i = OP_SRL then let tmp = R (rt i); tmp = signed_drop_bit sa tmp in brk pcAfter (set_reg (rd i) tmp m)
      else if opCode i = OP_SRLV then let tmp = R (rt i); tmp = signed_drop_bit sv tmp in brk pcAfter (set_reg (rd i) tmp m)
      else if opCode i = OP_SUB then
        let diff = R (rs i) - R (rt i) in
        if (R (rs i) XOR R (rt i)) AND SIGN_BIT \<noteq> 0 \<and> (R (rs i) XOR diff) AND SIGN_BIT \<noteq> 0
        then raise h OverflowException 0 m
        else brk pcAfter (set_reg (rd i) diff m)
      else brk pcAfter (set_reg (rd i) (R (rs i) - R (rt i)) m))"

definition exec_unaligned_store :: "'m handler \<Rightarrow> Instruction \<Rightarrow> 32 word \<Rightarrow> 'm machine_scheme \<Rightarrow> 'm exec" where
  "exec_unaligned_store h i pcAfter m =
     (let tmp = registers m (rs i) + extra i;
          byte = tmp AND 3 in
      read_or_return h (tmp - byte) 4 m (\<lambda>value m.
        let r = registers m (rt i);
            value =
              (if opCode i = OP_SWL then
                 if 3 - byte = 0 then r
                 else if 3 - byte = 1 then (value AND 0xff000000) OR (signed_drop_bit 8 r AND 0xffffff)
                 else if 3 - byte = 2 then (value AND 0xffff0000) OR (signed_drop_bit 16 r AND 0xffff)
                 else (value AND 0xffffff00) OR (signed_drop_bit 24 r AND 0xff)
               else
                 if 3 - byte = 0 then (value AND 0xffffff) OR push_bit 24 r
                 else if 3 - byte = 1 then (value AND 0xffff) OR push_bit 16 r
                 else if 3 - byte = 2 then (value AND 0xff) OR push_bit 8 r
                 else r) in
        write_or_return h (tmp - byte) 4 value m (brk pcAfter)))"

definition exec_misc :: "'m handler \<Rightarrow> Instruction \<Rightarrow> 32 word \<Rightarrow> 'm machine_scheme \<Rightarrow> 'm exec" where
  "exec_misc h i pcAfter m =
     (let R = registers m in
      if opCode i = OP_SYSCALL then raise h SyscallException 0 m
      else if opCode i = OP_XOR then brk pcAfter (set_reg (rd i) (R (rs i) XOR R (rt i)) m)
      else if opCode i = OP_XORI then brk pcAfter (set_reg (rt i) (R (rs i) XOR (extra i AND 0xffff)) m)
      else if opCode i \<in> {OP_RES, OP_UNIMP} then raise h IllegalInstrException 0 m
      else Inl Assert_failed)"

definition exec_switch :: "'m handler \<Rightarrow> Instruction \<Rightarrow> 32 word \<Rightarrow> 'm machine_scheme \<Rightarrow> 'm exec" where
  "exec_switch h i pcAfter m =
     (if opCode i \<in> {OP_ADD, OP_ADDI, OP_ADDIU, OP_ADDU, OP_AND, OP_ANDI} then exec_add h i pcAfter m
      else if opCode i \<in> {OP_BEQ, OP_BGEZAL, OP_BGEZ, OP_BGTZ, OP_BLEZ, OP_BLTZAL, OP_BLTZ, OP_BNE} then exec_branch h i pcAfter m
      else if opCode i \<in> {OP_DIV, OP_DIVU} then exec_div h i pcAfter m
      else if opCode i \<in> {OP_JAL, OP_J, OP_JALR, OP_JR} then exec_jump h i pcAfter m
      else if opCode i \<in> {OP_LB, OP_LBU, OP_LH, OP_LHU, OP_LUI, OP_LW} then exec_load h i pcAfter m
      else if opCode i \<in> {OP_LWL, OP_LWR} then exec_unaligned_load h i pcAfter m
      else if opCode i \<in> {OP_MFHI, OP_MFLO, OP_MTHI, OP_MTLO, OP_MULT, OP_MULTU, OP_NOR, OP_OR, OP_ORI} then exec_hilo h i pcAfter m
      else if opCode i \<in> {OP_SB, OP_SH, OP_SW} then exec_store h i pcAfter m
      else if opCode i \<in> {OP_SLL, OP_SLLV, OP_SLT, OP_SLTI, OP_SLTIU, OP_SLTU, OP_SRA, OP_SRAV, OP_SRL, OP_SRLV, OP_SUB, OP_SUBU}
        then exec_shift h i pcAfter m
      else if opCode i \<in> {OP_SWL, OP_SWR} then exec_unaligned_store h i pcAfter m
      else exec_misc h i pcAfter m)"

definition Machine_OneInstruction :: "'m handler \<Rightarrow> 'm machine_scheme \<Rightarrow> 'm machine_scheme res" where
  "Machine_OneInstruction h m =
     bindE (Machine_ReadMem h (registers m PCReg) 4 m) (\<lambda>(raw, m).
     case raw of
       None \<Rightarrow> Inr m
     | Some value \<Rightarrow>
         bindE (exec_switch h (Instruction_Decode value) (registers m NextPCReg + 4) m) (\<lambda>(m, r).
         case r of
           None \<Rightarrow> Inr m
         | Some (pcAfter, nextLoadReg, nextLoadValue) \<Rightarrow>
             bindE (Machine_DelayedLoad nextLoadReg nextLoadValue m) (\<lambda>m.
             let R = registers m in
             Inr (m\<lparr>registers := R(PrevPCReg := R PCReg, PCReg := R NextPCReg, NextPCReg := pcAfter)\<rparr>))))"

section \<open>The multiplication loop\<close>

text \<open>The pair of words as one 64-bit word.\<close>

definition pair64 :: "32 word \<Rightarrow> 32 word \<Rightarrow> 64 word" where
  "pair64 hi lo = push_bit 32 (ucast hi) + ucast lo"

lemma uint_pair64: "uint (pair64 hi lo) = uint hi * 2 ^ 32 + uint lo"
  using uint32_bound [of hi] uint32_bound [of lo]
  by (simp add: pair64_def uint_word_ariths unsigned_push_bit_eq unsigned_ucast_eq push_bit_eq_mult take_bit_eq_mod)

lemma pair64_eq: "pair64 hi lo = word_of_int (uint hi * 2 ^ 32 + uint lo)"
  by (metis uint_pair64 word_of_int_uint)

text \<open>The high word only matters modulo \<open>2 ^ 32\<close>.\<close>

lemma pair64_hi: "pair64 (word_of_int k) lo = word_of_int (k * 2 ^ 32 + uint lo)"
proof -
  have "k * 2 ^ 32 mod 2 ^ 64 = k mod 2 ^ 32 * (2 ^ 32 :: int)"
    using mod_mult_mult2 [of k "2 ^ 32" "2 ^ 32 :: int"] by simp
  then have "word_of_int (k mod 2 ^ 32 * 2 ^ 32) = (word_of_int (k * 2 ^ 32) :: 64 word)"
    unfolding word_of_int_eq_iff take_bit_eq_mod by simp
  then show ?thesis by (simp add: pair64_eq uint_word_of_int)
qed

lemma uint_add_carry:
  "uint (x + y :: 32 word) = uint x + uint y - (if x + y < y then 2 ^ 32 else 0)"
  using uint32_bound [of x] uint32_bound [of y]
  by (auto simp add: uint_plus_if_size word_size word_less_def split: if_splits)

lemma pair64_add:
  "pair64 ((if lo + bLo < bLo then hi + 1 else hi) + bHi) (lo + bLo) = pair64 hi lo + pair64 bHi bLo"
proof -
  let ?c = "if lo + bLo < bLo then 1 else 0 :: int"
  have "(if lo + bLo < bLo then hi + 1 else hi) + bHi = word_of_int (uint hi + ?c + uint bHi)" by simp
  then have "pair64 ((if lo + bLo < bLo then hi + 1 else hi) + bHi) (lo + bLo)
      = word_of_int ((uint hi + ?c + uint bHi) * 2 ^ 32 + (uint lo + uint bLo - ?c * 2 ^ 32))"
    by (simp only: pair64_hi uint_add_carry) simp
  also have "\<dots> = word_of_int ((uint hi * 2 ^ 32 + uint lo) + (uint bHi * 2 ^ 32 + uint bLo))"
    by (rule arg_cong [where f = word_of_int]) (simp add: algebra_simps)
  finally show ?thesis by (simp add: pair64_eq)
qed

lemma bit31: "bit (w :: 32 word) 31 \<longleftrightarrow> 2 ^ 31 \<le> uint w"
proof -
  have "bit w 31 \<longleftrightarrow> odd (uint w div 2 ^ 31)"
  proof -
    have "bit w 31 \<longleftrightarrow> bit (uint w) 31" by (simp add: bit_uint_iff)
    then show ?thesis by (simp only: bit_iff_odd)
  qed
  moreover have "uint w div 2 ^ 31 = (if 2 ^ 31 \<le> uint w then 1 else 0)"
    using uint32_bound [of w] by (cases "2 ^ 31 \<le> uint w") (simp_all add: div_pos_geq)
  ultimately show ?thesis by auto
qed

lemma sign_bit: "w AND SIGN_BIT = 0 \<longleftrightarrow> \<not> bit w 31" "w AND 0x80000000 = 0 \<longleftrightarrow> \<not> bit (w :: 32 word) 31"
  using word_and_exp [of w 31] by (auto simp add: SIGN_BIT_def)

lemma carry_double: "bLo + bLo < bLo \<longleftrightarrow> bit (bLo :: 32 word) 31"
proof (cases "bLo + bLo < bLo")
  case True
  then have "uint (bLo + bLo) = uint bLo + uint bLo - 2 ^ 32" using uint_add_carry [of bLo bLo] by simp
  moreover have "0 \<le> uint (bLo + bLo)" by (rule uint32_bound)
  ultimately have "4294967296 \<le> uint bLo + uint bLo" by (simp del: unsigned_greater_eq)
  then have "2 ^ 31 \<le> uint bLo" by simp
  with True show ?thesis by (simp add: bit31)
next
  case False
  then have "uint (bLo + bLo) = uint bLo + uint bLo" using uint_add_carry [of bLo bLo] by simp
  then have "uint bLo + uint bLo < 4294967296" using uint32_bound(1) [of "bLo + bLo"] by simp
  then have "\<not> 2 ^ 31 \<le> uint bLo" by simp
  with False show ?thesis by (simp add: bit31)
qed

lemma push_bit_or_1: "push_bit 1 (w :: 32 word) OR 1 = w + 1 + w"
proof -
  have "push_bit 1 w OR 1 = push_bit 1 w + 1"
    by (rule disjunctive_add [symmetric]) (simp only: bit_push_bit_iff bit_1_iff; simp)
  also have "\<dots> = w + 1 + w" by (simp add: push_bit_eq_mult)
  finally show ?thesis .
qed

lemma pair64_double:
  "pair64 (if bLo AND 0x80000000 \<noteq> 0 then push_bit 1 bHi OR 1 else push_bit 1 bHi) (push_bit 1 bLo) = 2 * pair64 bHi bLo"
proof -
  have "push_bit 1 bLo = bLo + bLo" "push_bit 1 bHi = bHi + bHi" by (simp_all add: push_bit_eq_mult mult.commute)
  then show ?thesis
    using pair64_add [of bLo bLo bHi bHi] unfolding carry_double sign_bit push_bit_or_1 by (auto simp add: sign_bit mult.commute)
qed

lemma pair64_neg:
  "pair64 (if NOT lo + 1 = 0 then NOT hi + 1 else NOT hi) (NOT lo + 1) = - pair64 hi lo"
proof -
  have lo: "NOT lo + 1 = - lo" and hi: "NOT hi = - hi - 1" by (simp_all add: not_eq_complement)
  show ?thesis
  proof (cases "lo = 0")
    case True
    then show ?thesis using pair64_hi [of "- uint hi" 0] by (simp add: lo hi pair64_eq)
  next
    case False
    then have "uint (- lo) = 2 ^ 32 - uint lo"
      using uint32_bound [of lo] by (simp add: uint_word_ariths unsigned_eq_0_iff zmod_zminus1_eq_if)
    then show ?thesis using False pair64_hi [of "- uint hi - 1" "- lo"] by (simp add: lo hi pair64_eq)
  qed
qed


lemma uint_take_shift:
  assumes "n < 32"
  shows "uint (take_bit n (signed_drop_bit 1 (a :: 32 word))) = take_bit n (uint a div 2)"
proof -
  have "uint a div 2 = drop_bit 1 (uint a)" by (simp add: drop_bit_Suc)
  then show ?thesis
    using assms by (auto simp add: bit_eq_iff bit_simps bit_signed_drop_bit_iff)
qed

lemma ucast_take_Suc:
  assumes "n < 32"
  shows "(ucast (take_bit (Suc n) (a :: 32 word)) :: 64 word) = 2 * ucast (take_bit n (signed_drop_bit 1 a)) + of_bool (odd a)"
proof -
  have "uint (take_bit (Suc n) a) = 2 * uint (take_bit n (signed_drop_bit 1 a)) + of_bool (odd (uint a))"
  proof -
    have "uint (take_bit (Suc n) a) = take_bit (Suc n) (uint a)" by (rule unsigned_take_bit_eq)
    also have "\<dots> = take_bit n (uint a div 2) * 2 + uint a mod 2" by (rule take_bit_Suc)
    finally show ?thesis using assms by (simp only: uint_take_shift mod_2_eq_odd)
  qed
  then have "(word_of_int (uint (take_bit (Suc n) a)) :: 64 word)
      = word_of_int (2 * uint (take_bit n (signed_drop_bit 1 a)) + of_bool (odd (uint a)))" by simp
  moreover have "odd (uint a) \<longleftrightarrow> odd a" using bit_uint_iff [of a 0] by (simp add: bit_0)
  ultimately show ?thesis unfolding ucast_eq by (simp only: of_int_add of_int_mult of_int_numeral of_int_of_bool)
qed

lemma Mult_loop_pair64:
  "Mult_loop n a bHi bLo hi lo = (hi', lo') \<Longrightarrow> n \<le> 32 \<Longrightarrow>
   pair64 hi' lo' = pair64 hi lo + ucast (take_bit n a) * pair64 bHi bLo"
proof (induction n arbitrary: a bHi bLo hi lo)
  case 0
  then show ?case by simp
next
  case (Suc n)
  define hi1 where "hi1 = (if odd a then (if lo + bLo < bLo then hi + 1 else hi) + bHi else hi)"
  define lo1 where "lo1 = (if odd a then lo + bLo else lo)"
  have odd: "a AND 1 \<noteq> 0 \<longleftrightarrow> odd a" by (simp add: and_one_eq odd_iff_mod_2_eq_one)
  have acc: "pair64 hi1 lo1 = pair64 hi lo + of_bool (odd a) * pair64 bHi bLo"
    using pair64_add [of lo bLo hi bHi] by (simp add: hi1_def lo1_def)
  show ?case
  proof (cases "odd a \<and> a AND 0xfffffffe = 0")
    case True
    have eq: "(0xfffffffe :: 32 word) = NOT 1" by simp
    have "a AND NOT 1 = 0" using True unfolding eq by blast
    moreover have "a = (a AND 1) OR (a AND NOT 1)" by (simp flip: bit.conj_disj_distrib)
    moreover have "a AND 1 = 1" using True by (simp add: and_one_eq mod_2_eq_odd)
    ultimately have "a = 1" by simp
    then have "take_bit (Suc n) a = 1" by simp
    moreover have "(hi', lo') = (hi1, lo1)" using Suc.prems(1) True by (auto simp add: odd hi1_def lo1_def Let_def)
    ultimately show ?thesis using acc True by simp
  next
    case False
    let ?bHi = "if bLo AND 0x80000000 \<noteq> 0 then push_bit 1 bHi OR 1 else push_bit 1 bHi"
    have "Mult_loop n (signed_drop_bit 1 a) ?bHi (push_bit 1 bLo) hi1 lo1 = (hi', lo')"
      using Suc.prems(1) False by (auto simp add: odd hi1_def lo1_def Let_def split: if_splits)
    from Suc.IH [OF this] Suc.prems(2) have "pair64 hi' lo'
        = pair64 hi1 lo1 + ucast (take_bit n (signed_drop_bit 1 a)) * (2 * pair64 bHi bLo)"
      unfolding pair64_double by simp
    then show ?thesis unfolding acc using ucast_take_Suc [of n a] Suc.prems(2) by (simp add: algebra_simps)
  qed
qed

section \<open>The result of a multiplication\<close>

lemma uint_abs_sint: "sint (w :: 32 word) < 0 \<Longrightarrow> uint (- w) = - sint w" "\<not> sint w < 0 \<Longrightarrow> uint w = sint w"
proof -
  assume "sint w < 0"
  then have "2 ^ 31 \<le> uint w" "sint w = uint w - 2 ^ 32" using uint32_bound [of w] by (auto simp add: sint_uint32 split: if_splits)
  then show "uint (- w) = - sint w" using uint32_bound [of w] by (simp add: uint_word_ariths zmod_zminus1_eq_if)
next
  assume "\<not> sint w < 0"
  then show "uint w = sint w" using uint32_bound [of w] by (auto simp add: sint_uint32 split: if_splits)
qed

lemma Mult_pair64:
  assumes "Mult a b sg = (hi, lo)"
  shows "pair64 hi lo = (if sg then word_of_int (sint a * sint b) else word_of_int (uint a * uint b))"
proof (cases "a = 0 \<or> b = 0")
  case True
  then show ?thesis using assms by (auto simp add: Mult_def pair64_def)
next
  case False
  have loop: "pair64 hi' lo' = word_of_int (uint x * uint y)" if "Mult_loop 32 x 0 y 0 0 = (hi', lo')" for x y hi' lo'
  proof -
    have "ucast (take_bit 32 x) = (word_of_int (uint x) :: 64 word)" by (simp add: take_bit_word_eq_self)
    moreover have "pair64 0 0 = 0" "pair64 0 y = word_of_int (uint y)" by (simp_all add: pair64_def)
    ultimately show ?thesis using Mult_loop_pair64 [OF that] by simp
  qed
  define sa where "sa \<longleftrightarrow> sg \<and> sint a < 0"
  define sb where "sb \<longleftrightarrow> sg \<and> sint b < 0"
  obtain hi' lo' where l: "Mult_loop 32 (if sa then - a else a) 0 (if sb then - b else b) 0 0 = (hi', lo')" by force
  have "Mult a b sg = (if sa \<noteq> sb then (if NOT lo' + 1 = 0 then NOT hi' + 1 else NOT hi', NOT lo' + 1) else (hi', lo'))"
    using False l by (auto simp add: Mult_def sa_def sb_def Let_def)
  with assms have "pair64 hi lo = (if sa \<noteq> sb then - pair64 hi' lo' else pair64 hi' lo')"
    using pair64_neg [of lo' hi'] by (auto split: if_splits)
  also have "\<dots> = word_of_int (if sa \<noteq> sb then - (uint (if sa then - a else a) * uint (if sb then - b else b))
      else uint (if sa then - a else a) * uint (if sb then - b else b))"
    unfolding loop [OF l] by (simp only: wi_hom_neg if_distrib [of word_of_int])
  also have "(if sa \<noteq> sb then - (uint (if sa then - a else a) * uint (if sb then - b else b))
      else uint (if sa then - a else a) * uint (if sb then - b else b)) = (if sg then sint a * sint b else uint a * uint b)"
    by (simp add: sa_def sb_def uint_abs_sint)
  finally show ?thesis by (simp only: if_distrib [of word_of_int])
qed

lemma Mult_exact:
  assumes "Mult a b sg = (hi, lo)"
  shows "if sg then sint (pair64 hi lo) = sint a * sint b else uint (pair64 hi lo) = uint a * uint b"
proof (cases sg)
  case True
  have "\<bar>sint a * sint b\<bar> \<le> 2 ^ 31 * 2 ^ 31"
    unfolding abs_mult by (intro mult_mono) (use uint32_bound [of a] uint32_bound [of b] in \<open>auto simp add: sint_uint32\<close>)
  then have "signed_take_bit 63 (sint a * sint b) = sint a * sint b"
    by (intro signed_take_bit_int_eq_self) auto
  moreover have "pair64 hi lo = word_of_int (sint a * sint b)" using Mult_pair64 [OF assms] True by simp
  ultimately have "sint (pair64 hi lo) = sint a * sint b" by (simp only: sint_sbintrunc') simp
  then show ?thesis using True by simp
next
  case False
  have "uint a * uint b < 2 ^ 32 * 2 ^ 32"
    by (intro mult_strict_mono) (use uint32_bound [of a] uint32_bound [of b] in auto)
  then have "uint a * uint b mod 2 ^ 64 = uint a * uint b" by simp
  moreover have "pair64 hi lo = word_of_int (uint a * uint b)" using Mult_pair64 [OF assms] False by simp
  ultimately have "uint (pair64 hi lo) = uint a * uint b" by (simp only: uint_word_of_int) simp
  then show ?thesis using False by simp
qed

section \<open>Overflow\<close>

lemma sint32_bounds: "- (2 ^ 31) \<le> sint (w :: 32 word)" "sint w < 2 ^ 31"
  using sint_greater_eq [of w] sint_less [of w] by simp_all

lemma bit31_sint: "bit (w :: 32 word) 31 \<longleftrightarrow> sint w < 0"
  using uint32_bound [of w] by (auto simp add: bit31 sint_uint32)

text \<open>The signed value of a word, from any integer close to it.\<close>

lemma sint_wrap:
  assumes "s \<in> {- (2 ^ 32)..<2 ^ 32}"
  shows "sint (word_of_int s :: 32 word) = (if s < - (2 ^ 31) then s + 2 ^ 32 else if 2 ^ 31 \<le> s then s - 2 ^ 32 else s)"
proof -
  have eq: "sint (word_of_int s :: 32 word) = (s + 2 ^ 31) mod 2 ^ 32 - 2 ^ 31" using int_word_sint [of s, where 'a = 32] by simp
  consider "s < - (2 ^ 31)" | "- (2 ^ 31) \<le> s" "s < 2 ^ 31" | "2 ^ 31 \<le> s" by linarith
  then show ?thesis
  proof cases
    case 1
    have "(s + 2 ^ 31) mod 2 ^ 32 = (s + 2 ^ 31 + 2 ^ 32) mod 2 ^ 32" by (rule mod_add_self2 [symmetric])
    also have "\<dots> = s + 2 ^ 31 + 2 ^ 32" using 1 assms by (intro mod_pos_pos_trivial) simp_all
    finally have "(s + 2 ^ 31) mod 2 ^ 32 = s + 2 ^ 31 + 2 ^ 32" .
    then show ?thesis using 1 eq by simp
  next
    case 2
    then have "(s + 2 ^ 31) mod 2 ^ 32 = s + 2 ^ 31" by simp
    then show ?thesis using 2 eq by simp
  next
    case 3
    then have "(s + 2 ^ 31) mod 2 ^ 32 = s + 2 ^ 31 - 2 ^ 32" using assms by (simp add: mod_pos_geq)
    then show ?thesis using 3 eq by simp
  qed
qed

lemma xor_sign: "(x XOR y) AND SIGN_BIT = 0 \<longleftrightarrow> (sint x < 0 \<longleftrightarrow> sint (y :: 32 word) < 0)"
proof -
  have "bit (x XOR y) 31 \<longleftrightarrow> bit x 31 \<noteq> bit y 31" by (simp only: bit_xor_iff)
  then show ?thesis unfolding sign_bit bit31_sint by blast
qed

lemma add_overflow:
  fixes x y :: "32 word"
  shows "(x XOR y) AND SIGN_BIT = 0 \<and> (x XOR (x + y)) AND SIGN_BIT \<noteq> 0 \<longleftrightarrow> sint x + sint y \<notin> {- (2 ^ 31)..<2 ^ 31}"
    and "x + y = word_of_int (sint x + sint y)"
proof -
  show eq: "x + y = word_of_int (sint x + sint y)" by simp
  have r: "sint x + sint y \<in> {- (2 ^ 32)..<2 ^ 32}" using sint32_bounds [of x] sint32_bounds [of y] by simp
  show "(x XOR y) AND SIGN_BIT = 0 \<and> (x XOR (x + y)) AND SIGN_BIT \<noteq> 0 \<longleftrightarrow> sint x + sint y \<notin> {- (2 ^ 31)..<2 ^ 31}"
    unfolding xor_sign eq sint_wrap [OF r] using sint32_bounds [of x] sint32_bounds [of y] by auto
qed

lemma sub_overflow:
  fixes x y :: "32 word"
  shows "(x XOR y) AND SIGN_BIT \<noteq> 0 \<and> (x XOR (x - y)) AND SIGN_BIT \<noteq> 0 \<longleftrightarrow> sint x - sint y \<notin> {- (2 ^ 31)..<2 ^ 31}"
    and "x - y = word_of_int (sint x - sint y)"
proof -
  show eq: "x - y = word_of_int (sint x - sint y)" by simp
  have r: "sint x - sint y \<in> {- (2 ^ 32)..<2 ^ 32}" using sint32_bounds [of x] sint32_bounds [of y] by simp
  show "(x XOR y) AND SIGN_BIT \<noteq> 0 \<and> (x XOR (x - y)) AND SIGN_BIT \<noteq> 0 \<longleftrightarrow> sint x - sint y \<notin> {- (2 ^ 31)..<2 ^ 31}"
    unfolding xor_sign eq sint_wrap [OF r] using sint32_bounds [of x] sint32_bounds [of y] by auto
qed

section \<open>Decoded instructions\<close>

lemma unat_and_less: "unat (w AND v :: 32 word) \<le> unat v"
  by (simp add: word_and_le1 word_le_nat_alt [symmetric])

lemma Decode_regs: "rs (Instruction_Decode v) < 32" "rt (Instruction_Decode v) < 32" "rd (Instruction_Decode v) < 32"
  using unat_and_less [of "drop_bit 21 v" "0x1f"] unat_and_less [of "drop_bit 16 v" "0x1f"] unat_and_less [of "drop_bit 11 v" "0x1f"]
  by (simp_all add: Instruction_Decode_def Let_def case_prod_beta)

lemma table_ops:
  "list_all (\<lambda>p. fst p \<noteq> OP_RFE) opTable" "list_all (\<lambda>op. op \<noteq> OP_RFE \<and> op \<noteq> SPECIAL \<and> op \<noteq> BCOND) specialTable"
  by (simp_all add: opTable_def specialTable_def)

lemma Decode_opCode: "opCode (Instruction_Decode v) \<notin> {OP_RFE, SPECIAL, BCOND}"
proof -
  have "unat (drop_bit 26 v AND 0x3f) < length opTable" "unat (v AND 0x3f) < length specialTable"
    using unat_and_less [of "drop_bit 26 v" "0x3f"] unat_and_less [of v "0x3f"]
    by (simp_all add: opTable_def specialTable_def)
  then have a: "fst (opTable ! unat (drop_bit 26 v AND 0x3f)) \<noteq> OP_RFE"
    and b: "specialTable ! unat (v AND 0x3f) \<noteq> OP_RFE" "specialTable ! unat (v AND 0x3f) \<noteq> SPECIAL"
      "specialTable ! unat (v AND 0x3f) \<noteq> BCOND"
    using table_ops unfolding list_all_length by blast+
  show ?thesis using a b by (simp add: Instruction_Decode_def Let_def case_prod_beta)
qed

section \<open>What an instruction can do\<close>

text \<open>
  The state while a user program runs on the page table \<open>pt\<close>: the machine uses a page table with the same
  frames, the pending load is into a general register, and main memory is as in \<open>mem\<close> except in the
  frames that the program may write.
\<close>

definition te_frame :: "TranslationEntry \<Rightarrow> int \<times> bool \<times> bool" where
  "te_frame e = (physicalPage e, valid e, readOnly e)"

definition writable_frame :: "TranslationEntry list \<Rightarrow> nat \<Rightarrow> bool" where
  "writable_frame pt a \<longleftrightarrow> (\<exists>e \<in> set pt. valid e \<and> \<not> readOnly e \<and> int (a div 256) = physicalPage e mod 2 ^ 32)"

definition user_state :: "TranslationEntry list \<Rightarrow> (nat \<Rightarrow> 8 word) \<Rightarrow> 'm machine_scheme \<Rightarrow> bool" where
  "user_state pt mem m \<longleftrightarrow> (\<exists>pt'. Machine_paged m pt' \<and> map te_frame pt' = map te_frame pt)
     \<and> unat (registers m LoadReg) < 32 \<and> (\<forall>a. mainMemory m a = mem a \<or> writable_frame pt a)"

lemma map_te_frame_touch [simp]: "map te_frame (touch_page w va pt) = map te_frame pt"
  by (auto simp add: list_eq_iff_nth_eq te_frame_def)

lemma writable_frame_cong:
  assumes "map te_frame pt' = map te_frame pt"
  shows "writable_frame pt' a = writable_frame pt a"
proof -
  have *: "writable_frame pt a \<longleftrightarrow> (\<exists>f \<in> set (map te_frame pt). fst (snd f) \<and> \<not> snd (snd f) \<and> int (a div 256) = fst f mod 2 ^ 32)" for pt
    by (simp add: writable_frame_def te_frame_def)
  show ?thesis unfolding * assms by (rule refl)
qed

named_theorems user_intros \<open>the steps of an instruction keep the user state\<close>

lemma reg_numbers: "LoadReg = 37" "LoadValueReg = 38" "PCReg = 34" "NextPCReg = 35" "PrevPCReg = 36" "BadVAddrReg = 39"
  "HiReg = 32" "LoReg = 33" "R31 = 31" "NumTotalRegs = 40"
  by (simp_all add: LoadReg_def LoadValueReg_def PCReg_def NextPCReg_def PrevPCReg_def BadVAddrReg_def HiReg_def LoReg_def R31_def NumTotalRegs_def)

lemma user_set_reg [user_intros]: "user_state pt mem m \<Longrightarrow> r < 37 \<Longrightarrow> user_state pt mem (set_reg r v m)"
  by (simp add: user_state_def set_reg_def Machine_paged_def reg_numbers)

lemma user_DelayedLoad:
  assumes "user_state pt mem m" "unat nr < 32"
  shows "\<exists>m'. Machine_DelayedLoad nr nv m = Inr m' \<and> user_state pt mem m' \<and> registers m' 0 = 0"
proof -
  have "unat (registers m LoadReg) < 32" using assms by (simp add: user_state_def)
  then have l: "int (unat (registers m LoadReg)) < 32" "unat (registers m LoadReg) \<noteq> 37" by linarith+
  let ?r = "registers m"
  let ?m = "m\<lparr>registers := ((?r(unat (?r LoadReg) := ?r LoadValueReg))(LoadReg := nr, LoadValueReg := nv, 0 := 0))\<rparr>"
  have "Machine_DelayedLoad nr nv m = Inr ?m"
    using l(1) by (simp add: Machine_DelayedLoad_def reg_numbers Let_def)
  moreover have "user_state pt mem ?m" using assms by (simp add: user_state_def Machine_paged_def reg_numbers)
  ultimately show ?thesis by simp
qed

text \<open>A handler that, when it returns, keeps the user state; otherwise it ends in one of the ways \<open>E\<close>.\<close>

definition good_handler :: "failure set \<Rightarrow> TranslationEntry list \<Rightarrow> (nat \<Rightarrow> 8 word) \<Rightarrow> 'm handler \<Rightarrow> bool" where
  "good_handler E pt mem h \<longleftrightarrow> (\<forall>e m. user_state pt mem m \<longrightarrow> registers m 0 = 0 \<longrightarrow>
     (case h e m of Inl x \<Rightarrow> x \<in> E | Inr m' \<Rightarrow> user_state pt mem m' \<and> registers m' 0 = 0))"

lemma user_status [simp]: "user_state pt mem (m\<lparr>status := s\<rparr>) = user_state pt mem m"
  by (simp add: user_state_def Machine_paged_def)

lemma user_RaiseException:
  assumes "user_state pt mem m" "good_handler E pt mem h"
  shows "(\<exists>m'. Machine_RaiseException h e va m = Inr m' \<and> user_state pt mem m' \<and> registers m' 0 = 0)
    \<or> (\<exists>x \<in> E. Machine_RaiseException h e va m = Inl x)"
proof -
  let ?m = "m\<lparr>registers := (registers m)(BadVAddrReg := va)\<rparr>"
  have "user_state pt mem ?m" using assms(1) by (simp add: user_state_def Machine_paged_def reg_numbers)
  from user_DelayedLoad [OF this, of 0 0] obtain m1 where
    m1: "Machine_DelayedLoad 0 0 ?m = Inr m1" "user_state pt mem m1" "registers m1 0 = 0" by auto
  have "case h e (m1\<lparr>status := SystemMode\<rparr>) of Inl x \<Rightarrow> x \<in> E | Inr m' \<Rightarrow> user_state pt mem m' \<and> registers m' 0 = 0"
    using assms(2) m1(2,3) unfolding good_handler_def by simp
  then show ?thesis by (auto simp add: Machine_RaiseException_def m1(1) split: sum.splits)
qed

lemma user_ReadMem:
  assumes u: "user_state pt mem m" and h: "good_handler E pt mem h" and sz: "sz \<in> {1, 2, 4}"
  shows "(\<exists>v m'. Machine_ReadMem h va sz m = Inr (Some v, m') \<and> user_state pt mem m')
    \<or> (\<exists>m'. Machine_ReadMem h va sz m = Inr (None, m') \<and> user_state pt mem m' \<and> registers m' 0 = 0)
    \<or> (\<exists>x \<in> E. Machine_ReadMem h va sz m = Inl x)"
proof -
  obtain pt' where p: "Machine_paged m pt'" "map te_frame pt' = map te_frame pt" using u by (auto simp add: user_state_def)
  show ?thesis
  proof (cases "mmu pt' va sz False")
    case (Inl e)
    then show ?thesis using user_RaiseException [OF u h, of e va] by (auto simp add: ReadMem_paged [OF p(1) sz])
  next
    case (Inr a)
    have "user_state pt mem (m\<lparr>pageTable := Some (touch_page False va pt')\<rparr>)"
      using u p by (auto simp add: user_state_def Machine_paged_def)
    then show ?thesis using Inr by (simp add: ReadMem_paged [OF p(1) sz])
  qed
qed

lemma user_WriteMem:
  assumes u: "user_state pt mem m" and h: "good_handler E pt mem h" and sz: "sz \<in> {1, 2, 4}"
  shows "(\<exists>m'. Machine_WriteMem h va sz v m = Inr (True, m') \<and> user_state pt mem m')
    \<or> (\<exists>m'. Machine_WriteMem h va sz v m = Inr (False, m') \<and> user_state pt mem m' \<and> registers m' 0 = 0)
    \<or> (\<exists>x \<in> E. Machine_WriteMem h va sz v m = Inl x)"
proof -
  obtain pt' where p: "Machine_paged m pt'" "map te_frame pt' = map te_frame pt" using u by (auto simp add: user_state_def)
  show ?thesis
  proof (cases "mmu pt' va sz True")
    case (Inl e)
    then show ?thesis using user_RaiseException [OF u h, of e va] by (auto simp add: WriteMem_paged [OF p(1) sz])
  next
    case (Inr a)
    note b = mmu_bounds [OF Inr sz]
    have wr: "writable_frame pt b" if "\<not> (b < a \<or> a + nat sz \<le> b)" for b
    proof -
      have "b div 256 = a div 256" using that b(6) by (intro same_page [of _ _ "nat sz"]) auto
      then have "writable_frame pt' b"
        unfolding writable_frame_def using b by (intro bexI [of _ "pt' ! (unat va div 256)"]) auto
      then show ?thesis using writable_frame_cong [OF p(2)] by simp
    qed
    let ?m = "m\<lparr>mainMemory := mem_update (mainMemory m) a sz v, pageTable := Some (touch_page True va pt')\<rparr>"
    have "mainMemory ?m b = mem b \<or> writable_frame pt b" for b
      using u wr [of b] mem_update_elsewhere [OF sz, of b a "mainMemory m" v]
      by (cases "b < a \<or> a + nat sz \<le> b") (auto simp add: user_state_def)
    then have "user_state pt mem ?m" using u p by (auto simp add: user_state_def Machine_paged_def)
    then show ?thesis using Inr by (simp add: WriteMem_paged [OF p(1) sz])
  qed
qed

text \<open>The outcomes that keep the user state; the failures are those of \<open>E\<close>.\<close>

definition exec_ok :: "failure set \<Rightarrow> TranslationEntry list \<Rightarrow> (nat \<Rightarrow> 8 word) \<Rightarrow> 'm exec \<Rightarrow> bool" where
  "exec_ok E pt mem r = (case r of
     Inl e \<Rightarrow> e \<in> E
   | Inr (m, None) \<Rightarrow> user_state pt mem m \<and> registers m 0 = 0
   | Inr (m, Some (pc, nr, nv)) \<Rightarrow> user_state pt mem m \<and> unat nr < 32)"

lemma exec_ok_brk [user_intros]: "user_state pt mem m \<Longrightarrow> exec_ok E pt mem (brk pc m)"
  by (simp add: exec_ok_def brk_def)

lemma exec_ok_brk_load [user_intros]: "user_state pt mem m \<Longrightarrow> r < 32 \<Longrightarrow> exec_ok E pt mem (brk_load pc r v m)"
  by (simp add: exec_ok_def brk_load_def unsigned_of_nat take_bit_nat_eq_self)

lemma exec_ok_raise [user_intros]:
  "user_state pt mem m \<Longrightarrow> good_handler E pt mem h \<Longrightarrow> exec_ok E pt mem (raise h e va m)"
  using user_RaiseException [of pt mem m E h e va] by (auto simp add: exec_ok_def raise_def)

lemma exec_ok_read [user_intros]:
  assumes "user_state pt mem m" "good_handler E pt mem h" "sz \<in> {1, 2, 4}"
    and "\<And>v m. user_state pt mem m \<Longrightarrow> exec_ok E pt mem (k v m)"
  shows "exec_ok E pt mem (read_or_return h va sz m k)"
  using user_ReadMem [OF assms(1-3), of va] assms(4) by (auto simp add: read_or_return_def exec_ok_def)

lemma exec_ok_write [user_intros]:
  assumes "user_state pt mem m" "good_handler E pt mem h" "sz \<in> {1, 2, 4}"
    and "\<And>m. user_state pt mem m \<Longrightarrow> exec_ok E pt mem (k m)"
  shows "exec_ok E pt mem (write_or_return h va sz v m k)"
  using user_WriteMem [OF assms(1-3), of va v] assms(4) by (auto simp add: write_or_return_def exec_ok_def)

lemma exec_ok_if [user_intros]:
  "(b \<Longrightarrow> exec_ok E pt mem x) \<Longrightarrow> (\<not> b \<Longrightarrow> exec_ok E pt mem y) \<Longrightarrow> exec_ok E pt mem (if b then x else y)"
  by simp

lemma user_if [user_intros]:
  "(b \<Longrightarrow> user_state pt mem x) \<Longrightarrow> (\<not> b \<Longrightarrow> user_state pt mem y) \<Longrightarrow> user_state pt mem (if b then x else y)"
  by simp

lemma exec_groups_ok [user_intros]:
  assumes "user_state pt mem m" "good_handler E pt mem h" "rs i < 32" "rt i < 32" "rd i < 32"
  shows "exec_ok E pt mem (exec_add h i pc m)" "exec_ok E pt mem (exec_branch h i pc m)"
    "exec_ok E pt mem (exec_jump h i pc m)" "exec_ok E pt mem (exec_load h i pc m)" "exec_ok E pt mem (exec_unaligned_load h i pc m)"
    "exec_ok E pt mem (exec_hilo h i pc m)" "exec_ok E pt mem (exec_store h i pc m)" "exec_ok E pt mem (exec_shift h i pc m)"
    "exec_ok E pt mem (exec_unaligned_store h i pc m)"
  unfolding exec_add_def exec_branch_def exec_jump_def exec_load_def exec_unaligned_load_def exec_hilo_def
    exec_store_def exec_shift_def exec_unaligned_store_def Let_def case_prod_beta
  using assms by (intro user_intros; simp add: reg_numbers)+

text \<open>The division that traps.\<close>

definition div_traps :: "Instruction \<Rightarrow> 'm machine_scheme \<Rightarrow> bool" where
  "div_traps i m \<longleftrightarrow> opCode i = OP_DIV \<and> sint (registers m (rs i)) = - (2 ^ 31) \<and> sint (registers m (rt i)) = - 1"

lemma exec_div_ok [user_intros]:
  assumes u: "user_state pt mem m" and t: "div_traps i m \<Longrightarrow> Host_trap \<in> E"
  shows "exec_ok E pt mem (exec_div h i pc m)"
proof -
  have "user_state pt mem (set_reg HiReg r (set_reg LoReg q m))" for q r using u by (intro user_intros) (simp_all add: reg_numbers)
  then show ?thesis using t by (auto simp add: exec_div_def host_div_def host_divu_def div_traps_def exec_ok_def brk_def Let_def)
qed

lemma exec_misc_ok [user_intros]:
  assumes "user_state pt mem m" "good_handler E pt mem h" "rs i < 32" "rt i < 32" "rd i < 32"
    "opCode i \<in> {OP_SYSCALL, OP_XOR, OP_XORI, OP_RES, OP_UNIMP}"
  shows "exec_ok E pt mem (exec_misc h i pc m)"
  unfolding exec_misc_def Let_def using assms by (intro user_intros) auto

lemma misc_opcodes:
  "op \<notin> {OP_ADD, OP_ADDI, OP_ADDIU, OP_ADDU, OP_AND, OP_ANDI} \<Longrightarrow>
   op \<notin> {OP_BEQ, OP_BGEZAL, OP_BGEZ, OP_BGTZ, OP_BLEZ, OP_BLTZAL, OP_BLTZ, OP_BNE} \<Longrightarrow> op \<notin> {OP_DIV, OP_DIVU} \<Longrightarrow>
   op \<notin> {OP_JAL, OP_J, OP_JALR, OP_JR} \<Longrightarrow> op \<notin> {OP_LB, OP_LBU, OP_LH, OP_LHU, OP_LUI, OP_LW} \<Longrightarrow> op \<notin> {OP_LWL, OP_LWR} \<Longrightarrow>
   op \<notin> {OP_MFHI, OP_MFLO, OP_MTHI, OP_MTLO, OP_MULT, OP_MULTU, OP_NOR, OP_OR, OP_ORI} \<Longrightarrow> op \<notin> {OP_SB, OP_SH, OP_SW} \<Longrightarrow>
   op \<notin> {OP_SLL, OP_SLLV, OP_SLT, OP_SLTI, OP_SLTIU, OP_SLTU, OP_SRA, OP_SRAV, OP_SRL, OP_SRLV, OP_SUB, OP_SUBU} \<Longrightarrow>
   op \<notin> {OP_SWL, OP_SWR} \<Longrightarrow> op \<notin> {OP_RFE, SPECIAL, BCOND} \<Longrightarrow>
   op \<in> {OP_SYSCALL, OP_XOR, OP_XORI, OP_RES, OP_UNIMP}"
  by (cases op) simp_all

lemma exec_switch_ok:
  assumes "user_state pt mem m" "good_handler E pt mem h" "div_traps (Instruction_Decode v) m \<Longrightarrow> Host_trap \<in> E"
  shows "exec_ok E pt mem (exec_switch h (Instruction_Decode v) pc m)"
  unfolding exec_switch_def
  using assms Decode_regs [of v] by (intro user_intros) (assumption | rule misc_opcodes Decode_opCode)+

lemma good_handler_mono:
  assumes g: "good_handler E pt mem h" and E: "E \<subseteq> E'"
  shows "good_handler E' pt mem h"
  unfolding good_handler_def
proof (intro allI impI)
  fix e and m :: "'a machine_scheme"
  assume "user_state pt mem m" "registers m 0 = 0"
  then have "case h e m of Inl x \<Rightarrow> x \<in> E | Inr m' \<Rightarrow> user_state pt mem m' \<and> registers m' 0 = 0" using g by (simp add: good_handler_def)
  then show "case h e m of Inl x \<Rightarrow> x \<in> E' | Inr m' \<Rightarrow> user_state pt mem m' \<and> registers m' 0 = 0" using E by (cases "h e m") auto
qed

lemma ReadMem_regs:
  assumes "user_state pt mem m" "sz \<in> {1, 2, 4}" "Machine_ReadMem h va sz m = Inr (Some v, m')"
  shows "registers m' = registers m"
proof -
  obtain pt' where p: "Machine_paged m pt'" using assms(1) by (auto simp add: user_state_def)
  show ?thesis using assms(3) by (auto simp add: ReadMem_paged [OF p assms(2)] bindE_eq_Inr split: sum.splits)
qed

lemma bit_sdrop32: "bit (signed_drop_bit n (w :: 32 word)) k \<longleftrightarrow> bit w (if 32 - n \<le> k \<and> k < 32 then 31 else n + k)"
proof -
  have "LENGTH(32) - Suc 0 = 31" by simp
  then show ?thesis using bit_signed_drop_bit_iff [of n w k] by simp
qed

section \<open>Unaligned words\<close>

lemma masks32: "(0xff :: 32 word) = mask 8" "(0xffff :: 32 word) = mask 16" "(0xffffff :: 32 word) = mask 24"
  "(0xffffff00 :: 32 word) = NOT (mask 8)" "(0xffff0000 :: 32 word) = NOT (mask 16)" "(0xff000000 :: 32 word) = NOT (mask 24)"
  by (simp_all add: mask_eq_exp_minus_1)

lemma bit_load32: "bit (load32 mem p) n \<longleftrightarrow> n < 32 \<and> bit (mem (p + n div 8)) (n mod 8)"
proof -
  consider "n < 8" | "8 \<le> n" "n < 16" | "16 \<le> n" "n < 24" | "24 \<le> n" "n < 32" | "32 \<le> n" by linarith
  then show ?thesis
  proof cases
    case 2
    then have "n div 8 = 1" "n mod 8 = n - 8" by (auto simp add: le_div_geq le_mod_geq)
    with 2 show ?thesis by (auto simp add: load32_def bit_simps dest: bit_imp_le_length)
  next
    case 3
    then have "n div 8 = 2" "n mod 8 = n - 16" by (auto simp add: le_div_geq le_mod_geq)
    with 3 show ?thesis by (auto simp add: load32_def bit_simps dest: bit_imp_le_length)
  next
    case 4
    then have "n div 8 = 3" "n mod 8 = n - 24" by (auto simp add: le_div_geq le_mod_geq)
    with 4 show ?thesis by (auto simp add: load32_def bit_simps dest: bit_imp_le_length)
  qed (auto simp add: load32_def bit_simps dest: bit_imp_le_length)
qed

text \<open>
  The four bytes at a virtual address with remainder \<open>b\<close> modulo 4: the bytes from \<open>b\<close> on of the word at \<open>p0\<close>,
  then the first bytes of the next word, at \<open>p1\<close>.
\<close>

definition unaligned_byte :: "(nat \<Rightarrow> 8 word) \<Rightarrow> nat \<Rightarrow> nat \<Rightarrow> nat \<Rightarrow> nat \<Rightarrow> 8 word" where
  "unaligned_byte mem p0 p1 b k = (if b + k < 4 then mem (p0 + b + k) else mem (p1 + (b + k - 4)))"

definition unaligned32 :: "(nat \<Rightarrow> 8 word) \<Rightarrow> nat \<Rightarrow> nat \<Rightarrow> nat \<Rightarrow> 32 word" where
  "unaligned32 mem p0 p1 b = load32 (unaligned_byte mem p0 p1 b) 0"

lemma bit_unaligned32:
  assumes "b < 4"
  shows "bit (unaligned32 mem p0 p1 b) n \<longleftrightarrow> n < 32 \<and>
    (if n + 8 * b < 32 then bit (load32 mem p0) (n + 8 * b) else bit (load32 mem p1) (n + 8 * b - 32))"
proof (cases "n + 8 * b < 32")
  case True
  have d: "(n + 8 * b) div 8 = n div 8 + b" "(n + 8 * b) mod 8 = n mod 8" by simp_all
  have "b + n div 8 < 4" using True d(1) by linarith
  then show ?thesis using True d by (simp add: unaligned32_def bit_load32 unaligned_byte_def ac_simps)
next
  case False
  define k where "k = n + 8 * b - 32"
  have k: "n + 8 * b = k + 8 * 4" using False by (simp add: k_def)
  have "(n + 8 * b) div 8 = n div 8 + b" "(n + 8 * b) mod 8 = n mod 8" "(k + 8 * 4) div 8 = k div 8 + 4" "(k + 8 * 4) mod 8 = k mod 8"
    by (simp_all, rule mod_mult_self2 [of k 8 4, simplified])
  then have "n div 8 + b = k div 8 + 4" "n mod 8 = k mod 8" unfolding k by simp_all
  moreover have "k < 32" if "n < 32" using that assms k by simp
  ultimately show ?thesis using False k unfolding k_def [symmetric]
    by (auto simp add: unaligned32_def bit_load32 unaligned_byte_def ac_simps)
qed

lemma bit_merge:
  fixes w0 w1 old :: "32 word"
  assumes "0 < c" "c < 32"
  shows "bit ((((old AND NOT (mask (32 - c))) OR (signed_drop_bit c w0 AND mask (32 - c))) AND mask (32 - c)) OR push_bit (32 - c) w1) n
    \<longleftrightarrow> n < 32 \<and> (if n + c < 32 then bit w0 (n + c) else bit w1 (n + c - 32))"
proof (cases "n + c < 32")
  case True
  then show ?thesis using assms by (auto simp add: bit_simps bit_sdrop32 ac_simps)
next
  case False
  then have "n - (32 - c) = n + c - 32" "32 - c \<le> n" using assms by linarith+
  then show ?thesis using False assms by (auto simp add: bit_simps dest: bit_imp_le_length)
qed

lemma unaligned32_cases:
  "load32 mem p0 = unaligned32 mem p0 p1 0"
  "(((old AND 0xff000000) OR (signed_drop_bit 8 (load32 mem p0) AND 0xffffff)) AND 0xffffff) OR push_bit 24 (load32 mem p1) = unaligned32 mem p0 p1 1"
  "(((old AND 0xffff0000) OR (signed_drop_bit 16 (load32 mem p0) AND 0xffff)) AND 0xffff) OR push_bit 16 (load32 mem p1) = unaligned32 mem p0 p1 2"
  "(((old AND 0xffffff00) OR (signed_drop_bit 24 (load32 mem p0) AND 0xff)) AND 0xff) OR push_bit 8 (load32 mem p1) = unaligned32 mem p0 p1 3"
  unfolding masks32
  using bit_merge [of 8 old "load32 mem p0" "load32 mem p1"] bit_merge [of 16 old "load32 mem p0" "load32 mem p1"]
    bit_merge [of 24 old "load32 mem p0" "load32 mem p1"]
  by (intro bit_word_eqI; simp add: bit_unaligned32)+

text \<open>Two instructions in a row, the first of which ends with a delayed load.\<close>

definition exec_pair :: "'m handler \<Rightarrow> Instruction \<Rightarrow> Instruction \<Rightarrow> 32 word \<Rightarrow> 'm machine_scheme \<Rightarrow> 'm exec" where
  "exec_pair h i1 i2 pc m =
     bindE (exec_switch h i1 pc m) (\<lambda>(m, r).
     case r of None \<Rightarrow> Inr (m, None)
     | Some (pc, nr, nv) \<Rightarrow> bindE (Machine_DelayedLoad nr nv m) (exec_switch h i2 pc))"

lemma and3_cases: "(a :: 32 word) AND 3 = 0 \<or> a AND 3 = 1 \<or> a AND 3 = 2 \<or> a AND 3 = 3"
proof -
  have "unat (a AND 3) \<le> 3" using unat_and_less [of a 3] by simp
  then consider "unat (a AND 3) = 0" | "unat (a AND 3) = 1" | "unat (a AND 3) = 2" | "unat (a AND 3) = 3" by linarith
  then show ?thesis by cases (simp_all add: word_unat_eq_iff)
qed

lemma add3_and3: "(a + 3 :: 32 word) AND 3 = (a AND 3) + 3 AND 3"
proof -
  have m: "(3 :: 32 word) = mask 2" by (simp add: mask_eq_exp_minus_1)
  have "uint (a + 3 AND mask 2) = (uint a + 3) mod 4" "uint ((a AND mask 2) + 3 AND mask 2) = (uint a mod 4 + 3) mod 4"
    unfolding uint_and_mask by (simp_all add: uint_word_ariths uint_and_mask mod_mod_cancel)
  then show ?thesis unfolding m [symmetric] by (simp add: word_uint_eq_iff mod_simps m)
qed

lemma exec_unaligned_paged:
  assumes p: "Machine_paged m pt" and q: "mmu pt (tmp - (tmp AND 3)) 4 False = Inr q"
    and tmp: "registers m (rs i) + extra i = tmp" and op: "opCode i \<in> {OP_LWL, OP_LWR}"
  defines "old \<equiv> if registers m LoadReg = of_nat (rt i) then registers m LoadValueReg else registers m (rt i)"
    and "value \<equiv> load32 (mainMemory m) q" and "byte \<equiv> tmp AND 3"
  shows "exec_switch h i pc m = brk_load pc (rt i)
    (if opCode i = OP_LWL then
       if 3 - byte = 0 then value
       else if 3 - byte = 1 then (old AND 0xff) OR push_bit 8 value
       else if 3 - byte = 2 then (old AND 0xffff) OR push_bit 16 value
       else (old AND 0xffffff) OR push_bit 24 value
     else
       if 3 - byte = 0 then (old AND 0xffffff00) OR (signed_drop_bit 24 value AND 0xff)
       else if 3 - byte = 1 then (old AND 0xffff0000) OR (signed_drop_bit 16 value AND 0xffff)
       else if 3 - byte = 2 then (old AND 0xff000000) OR (signed_drop_bit 8 value AND 0xffffff)
       else value) (m\<lparr>pageTable := Some (touch_page False (tmp - byte) pt)\<rparr>)"
proof -
  have "exec_switch h i pc m = exec_unaligned_load h i pc m" using op by (auto simp add: exec_switch_def)
  also have "\<dots> = brk_load pc (rt i)
    (if opCode i = OP_LWL then
       if 3 - byte = 0 then value
       else if 3 - byte = 1 then (old AND 0xff) OR push_bit 8 value
       else if 3 - byte = 2 then (old AND 0xffff) OR push_bit 16 value
       else (old AND 0xffffff) OR push_bit 24 value
     else
       if 3 - byte = 0 then (old AND 0xffffff00) OR (signed_drop_bit 24 value AND 0xff)
       else if 3 - byte = 1 then (old AND 0xffff0000) OR (signed_drop_bit 16 value AND 0xffff)
       else if 3 - byte = 2 then (old AND 0xff000000) OR (signed_drop_bit 8 value AND 0xffffff)
       else value) (m\<lparr>pageTable := Some (touch_page False (tmp - byte) pt)\<rparr>)"
    unfolding exec_unaligned_load_def read_or_return_def Let_def tmp ReadMem_paged [OF p, of 4, simplified] q byte_def old_def value_def
    by (simp add: mem_value_def)
  finally show ?thesis .
qed

section \<open>Properties\<close>

text \<open>The instruction at the program counter.\<close>

definition fetches :: "'m handler \<Rightarrow> 'm machine_scheme \<Rightarrow> Instruction \<Rightarrow> bool" where
  "fetches h m i \<longleftrightarrow> (\<exists>v m1. Machine_ReadMem h (registers m PCReg) 4 m = Inr (Some v, m1) \<and> i = Instruction_Decode v)"

lemma OneInstruction_ok:
  assumes u: "user_state pt mem m" and h: "good_handler E pt mem h" and z: "registers m 0 = 0"
  shows "(\<exists>m'. Machine_OneInstruction h m = Inr m' \<and> user_state pt mem m' \<and> registers m' 0 = 0)
    \<or> (\<exists>x \<in> E. Machine_OneInstruction h m = Inl x)
    \<or> Machine_OneInstruction h m = Inl Host_trap \<and> (\<exists>i. fetches h m i \<and> div_traps i m)"
proof -
  consider (fault) m' where "Machine_ReadMem h (registers m PCReg) 4 m = Inr (None, m')" "user_state pt mem m'" "registers m' 0 = 0"
    | (fetched) v m1 where "Machine_ReadMem h (registers m PCReg) 4 m = Inr (Some v, m1)" "user_state pt mem m1"
    | (stop) x where "Machine_ReadMem h (registers m PCReg) 4 m = Inl x" "x \<in> E"
    using user_ReadMem [OF u h, of 4 "registers m PCReg"] by auto
  then show ?thesis
  proof cases
    case fault
    then show ?thesis by (simp add: Machine_OneInstruction_def)
  next
    case stop
    then show ?thesis by (simp add: Machine_OneInstruction_def)
  next
    case fetched
    define E' where "E' = (if div_traps (Instruction_Decode v) m then insert Host_trap E else E)"
    have r1: "registers m1 = registers m" by (rule ReadMem_regs [OF u _ fetched(1)]) simp
    have f: "fetches h m (Instruction_Decode v)" using fetched(1) by (auto simp add: fetches_def)
    have h': "good_handler E' pt mem h" by (rule good_handler_mono [OF h]) (auto simp add: E'_def)
    have ok: "exec_ok E' pt mem (exec_switch h (Instruction_Decode v) (registers m1 NextPCReg + 4) m1)"
      by (rule exec_switch_ok [OF fetched(2) h']) (simp add: E'_def div_traps_def r1)
    show ?thesis
    proof (cases "exec_switch h (Instruction_Decode v) (registers m1 NextPCReg + 4) m1")
      case (Inl e)
      then have "e \<in> E'" using ok by (simp add: exec_ok_def)
      then show ?thesis using Inl fetched(1) f by (auto simp add: Machine_OneInstruction_def E'_def split: if_splits)
    next
      case (Inr r)
      then obtain m2 o2 where r: "r = (m2, o2)" by (cases r)
      show ?thesis
      proof (cases o2)
        case None
        then show ?thesis using ok fetched(1) Inr r by (simp add: Machine_OneInstruction_def exec_ok_def)
      next
        case (Some p)
        obtain pc nr nv where p: "p = (pc, nr, nv)" by (cases p)
        have "user_state pt mem m2" "unat nr < 32" using ok Inr r Some p by (simp_all add: exec_ok_def)
        from user_DelayedLoad [OF this] obtain m3 where
          "Machine_DelayedLoad nr nv m2 = Inr m3" "user_state pt mem m3" "registers m3 0 = 0" by blast
        then show ?thesis using fetched(1) Inr r Some p
          by (simp add: Machine_OneInstruction_def user_state_def Machine_paged_def reg_numbers Let_def)
      qed
    qed
  qed
qed

text \<open>
  C19.  A user program is confined: one instruction, whatever the word at the program counter, run on any
  page table with a handler that returns to a user state or ends in one of the ways \<open>E\<close>, does not reach an assertion of the simulator
  (in particular the decoder never produces a code outside the switch), does not index the registers
  out of bounds, leaves register 0 zero, keeps the page table's frames, and writes main memory only in
  frames of valid, writable pages.  Other than where the handler ends, the one way it fails is a trap of the host, which happens only for the signed division
  of the least integer by -1; a divisor 0 does no harm.
\<close>

theorem OneInstruction_confined:
  assumes u: "user_state pt mem m" and h: "good_handler E pt mem h" and z: "registers m 0 = 0"
  shows "(\<exists>m'. Machine_OneInstruction h m = Inr m' \<and> user_state pt mem m' \<and> registers m' 0 = 0)
    \<or> (\<exists>x \<in> E. Machine_OneInstruction h m = Inl x)
    \<or> Machine_OneInstruction h m = Inl Host_trap \<and> (\<exists>i. fetches h m i \<and> div_traps i m)"
  by (rule OneInstruction_ok [OF assms])

text \<open>The instruction \<^verbatim>\<open>div $1, $2\<close> with the divisor 0, at address 0 of a program that may not write.\<close>

theorem OneInstruction_confined_witness:
  "\<exists>m'. Machine_OneInstruction (\<lambda>_. Inr)
      ((Machine_new False)\<lparr>mainMemory := (\<lambda>_. 0)(768 := 0x1a, 770 := 0x22), registers := (\<lambda>_. 0)(1 := 0x80000000),
         pageTable := Some [\<lparr>virtualPage = 0, physicalPage = 3, valid = True, readOnly = True, te_use = False, te_dirty = False\<rparr>],
         pageTableSize := 1\<rparr>) = Inr m' \<and> registers m' 0 = 0 \<and> mainMemory m' 770 = 0x22"
proof -
  let ?pt = "[\<lparr>virtualPage = 0, physicalPage = 3, valid = True, readOnly = True, te_use = False, te_dirty = False\<rparr>]"
  let ?mem = "(\<lambda>_. 0)(768 := 0x1a, 770 := 0x22) :: nat \<Rightarrow> 8 word"
  let ?m = "(Machine_new False)\<lparr>mainMemory := ?mem, registers := (\<lambda>_. 0)(1 := 0x80000000), pageTable := Some ?pt, pageTableSize := 1\<rparr>"
  have "user_state ?pt ?mem ?m" by (auto simp add: user_state_def Machine_paged_def Machine_new_def reg_numbers intro!: exI [of _ ?pt])
  moreover have "good_handler {} ?pt ?mem (\<lambda>_. Inr :: machine \<Rightarrow> machine res)" by (simp add: good_handler_def)
  moreover have "\<not> div_traps i ?m" for i by (simp add: div_traps_def)
  ultimately obtain m' where "Machine_OneInstruction (\<lambda>_. Inr) ?m = Inr m'" "user_state ?pt ?mem m'" "registers m' 0 = 0"
    using OneInstruction_confined [of ?pt ?mem ?m "{}" "\<lambda>_. Inr"] by auto
  then show ?thesis by (auto simp add: user_state_def writable_frame_def)
qed

text \<open>
  C36.  The signed additions and the signed subtraction compute the exact result when it fits a 32-bit
  signed integer, and raise an overflow exception, without writing a register, exactly when it does not.
\<close>

theorem exec_signed_arithmetic:
  "exec_switch h (i\<lparr>opCode := OP_ADD\<rparr>) pc m =
     (let s = sint (registers m (rs i)) + sint (registers m (rt i)) in
      if s \<in> {- (2 ^ 31)..<2 ^ 31} then brk pc (set_reg (rd i) (word_of_int s) m) else raise h OverflowException 0 m)
   \<and> exec_switch h (i\<lparr>opCode := OP_ADDI\<rparr>) pc m =
     (let s = sint (registers m (rs i)) + sint (extra i) in
      if s \<in> {- (2 ^ 31)..<2 ^ 31} then brk pc (set_reg (rt i) (word_of_int s) m) else raise h OverflowException 0 m)
   \<and> exec_switch h (i\<lparr>opCode := OP_SUB\<rparr>) pc m =
     (let s = sint (registers m (rs i)) - sint (registers m (rt i)) in
      if s \<in> {- (2 ^ 31)..<2 ^ 31} then brk pc (set_reg (rd i) (word_of_int s) m) else raise h OverflowException 0 m)"
proof (intro conjI)
  note o = add_overflow(1) [of "registers m (rs i)" "registers m (rt i)"]
  show "exec_switch h (i\<lparr>opCode := OP_ADD\<rparr>) pc m =
     (let s = sint (registers m (rs i)) + sint (registers m (rt i)) in
      if s \<in> {- (2 ^ 31)..<2 ^ 31} then brk pc (set_reg (rd i) (word_of_int s) m) else raise h OverflowException 0 m)"
    unfolding Let_def using o by (simp add: exec_switch_def exec_add_def Let_def)
next
  note o = add_overflow(1) [of "extra i" "registers m (rs i)"]
  show "exec_switch h (i\<lparr>opCode := OP_ADDI\<rparr>) pc m =
     (let s = sint (registers m (rs i)) + sint (extra i) in
      if s \<in> {- (2 ^ 31)..<2 ^ 31} then brk pc (set_reg (rt i) (word_of_int s) m) else raise h OverflowException 0 m)"
    unfolding Let_def using o by (simp add: exec_switch_def exec_add_def Let_def ac_simps)
next
  note o = sub_overflow(1) [of "registers m (rs i)" "registers m (rt i)"]
  show "exec_switch h (i\<lparr>opCode := OP_SUB\<rparr>) pc m =
     (let s = sint (registers m (rs i)) - sint (registers m (rt i)) in
      if s \<in> {- (2 ^ 31)..<2 ^ 31} then brk pc (set_reg (rd i) (word_of_int s) m) else raise h OverflowException 0 m)"
    unfolding Let_def using o by (simp add: exec_switch_def exec_shift_def Let_def)
qed

text \<open>
  C35.  Multiplication: the HI and LO registers receive the exact 64-bit product, of the signed values for
  \<open>MULT\<close> and of the unsigned values for \<open>MULTU\<close>, for all operands including the least integer.
\<close>

theorem exec_multiply:
  "\<exists>hi lo hi' lo'.
     exec_switch h (i\<lparr>opCode := OP_MULT\<rparr>) pc m = brk pc (set_reg LoReg lo (set_reg HiReg hi m))
   \<and> sint (pair64 hi lo) = sint (registers m (rs i)) * sint (registers m (rt i))
   \<and> exec_switch h (i\<lparr>opCode := OP_MULTU\<rparr>) pc m = brk pc (set_reg LoReg lo' (set_reg HiReg hi' m))
   \<and> uint (pair64 hi' lo') = uint (registers m (rs i)) * uint (registers m (rt i))"
proof -
  obtain hi lo where s: "Mult (registers m (rs i)) (registers m (rt i)) True = (hi, lo)" by force
  obtain hi' lo' where u: "Mult (registers m (rs i)) (registers m (rt i)) False = (hi', lo')" by force
  show ?thesis using Mult_exact [OF s] Mult_exact [OF u] s u
    by (intro exI [of _ hi] exI [of _ lo] exI [of _ hi'] exI [of _ lo']) (simp add: exec_switch_def exec_hilo_def)
qed

text \<open>
  The \<open>logical\<close> right shift is not logical: \<open>SRL\<close> executes exactly as \<open>SRA\<close>, because the intermediate value
  is a signed \<^verbatim>\<open>int\<close>.  It agrees with the logical shift when the shifted register is not negative or the
  amount is 0, and differs from it in all other cases.
\<close>

lemma exec_SRL_arithmetic:
  "exec_switch h (i\<lparr>opCode := OP_SRL\<rparr>) pc m = exec_switch h (i\<lparr>opCode := OP_SRA\<rparr>) pc m
   \<and> (\<exists>v. exec_switch h (i\<lparr>opCode := OP_SRL\<rparr>) pc m = brk pc (set_reg (rd i) v m)
        \<and> (v = drop_bit (unat (extra i)) (registers m (rt i)) \<longleftrightarrow> sint (registers m (rt i)) \<ge> 0 \<or> extra i = 0))"
proof -
  let ?w = "registers m (rt i)" and ?n = "unat (extra i)"
  have "signed_drop_bit ?n ?w = drop_bit ?n ?w \<longleftrightarrow> sint ?w \<ge> 0 \<or> extra i = 0"
  proof (cases "sint ?w < 0 \<and> extra i \<noteq> 0")
    case True
    then have "bit ?w 31" "?n \<noteq> 0" by (simp_all add: bit31_sint unsigned_eq_0_iff)
    then have "bit (signed_drop_bit ?n ?w) 31" "\<not> bit (drop_bit ?n ?w) 31"
      by (auto simp add: bit_sdrop32 bit_drop_bit_eq dest: bit_imp_le_length)
    then show ?thesis using True by auto
  next
    case False
    then have "\<not> bit ?w 31 \<or> ?n = 0" by (auto simp add: bit31_sint)
    then have "bit (signed_drop_bit ?n ?w) k = bit (drop_bit ?n ?w) k" for k
      by (auto simp add: bit_sdrop32 bit_drop_bit_eq add.commute dest: bit_imp_le_length)
    then show ?thesis using False by (auto intro: bit_eqI)
  qed
  then show ?thesis by (auto simp add: exec_switch_def exec_shift_def Let_def intro!: exI [of _ "signed_drop_bit ?n ?w"])
qed

text \<open>
  Unaligned words: the pair \<open>LWR rt, a\<close> and \<open>LWL rt, a + 3\<close> loads the four bytes that start at the virtual
  address \<open>a\<close>, for every alignment of \<open>a\<close> (the second instruction merges with the value that the first
  still has in the load delay slot).
\<close>

lemma unaligned_load:
  assumes p: "Machine_paged m pt" and r0: "registers m 0 = 0" and ld: "registers m LoadReg = 0"
    and regs: "rs i < 32" "rt i < 32" and a: "registers m (rs i) + extra i = a"
    and q0: "mmu pt (a - (a AND 3)) 4 False = Inr q0" and q1: "mmu pt (a + 3 - ((a + 3) AND 3)) 4 False = Inr q1"
  shows "\<exists>m'. exec_pair h (i\<lparr>opCode := OP_LWR\<rparr>) (i\<lparr>opCode := OP_LWL, extra := extra i + 3\<rparr>) pc m
    = brk_load pc (rt i) (unaligned32 (mainMemory m) q0 q1 (unat (a AND 3))) m'"
proof -
  let ?m1 = "m\<lparr>pageTable := Some (touch_page False (a - (a AND 3)) pt)\<rparr>"
  let ?old = "if registers m LoadReg = of_nat (rt i) then registers m LoadValueReg else registers m (rt i)"
  let ?w0 = "load32 (mainMemory m) q0" and ?w1 = "load32 (mainMemory m) q1" and ?b = "a AND 3"
  define v1 where "v1 = (if 3 - ?b = 0 then (?old AND 0xffffff00) OR (signed_drop_bit 24 ?w0 AND 0xff)
       else if 3 - ?b = 1 then (?old AND 0xffff0000) OR (signed_drop_bit 16 ?w0 AND 0xffff)
       else if 3 - ?b = 2 then (?old AND 0xff000000) OR (signed_drop_bit 8 ?w0 AND 0xffffff)
       else ?w0)"
  have first: "exec_switch h (i\<lparr>opCode := OP_LWR\<rparr>) pc m = brk_load pc (rt i) v1 ?m1"
    using exec_unaligned_paged [OF p q0, of "i\<lparr>opCode := OP_LWR\<rparr>"] a by (simp add: v1_def)
  obtain m2 where m2: "Machine_DelayedLoad (of_nat (rt i)) v1 ?m1 = Inr m2" "registers m2 LoadReg = of_nat (rt i)"
    "registers m2 LoadValueReg = v1" "registers m2 (rs i) = registers m (rs i)" "mainMemory m2 = mainMemory m"
    "Machine_paged m2 (touch_page False (a - (a AND 3)) pt)"
    using p r0 ld regs by (auto simp add: Machine_DelayedLoad_def Let_def reg_numbers Machine_paged_def)
  have base: "registers m2 (rs (i\<lparr>opCode := OP_LWL, extra := extra i + 3\<rparr>)) + extra (i\<lparr>opCode := OP_LWL, extra := extra i + 3\<rparr>) = a + 3"
    using a m2(4) by (simp flip: a)
  have q1': "mmu (touch_page False (a - (a AND 3)) pt) (a + 3 - ((a + 3) AND 3)) 4 False = Inr q1" using q1 by simp
  define v2 where "v2 = (if 3 - ((a + 3) AND 3) = 0 then ?w1
       else if 3 - ((a + 3) AND 3) = 1 then (v1 AND 0xff) OR push_bit 8 ?w1
       else if 3 - ((a + 3) AND 3) = 2 then (v1 AND 0xffff) OR push_bit 16 ?w1
       else (v1 AND 0xffffff) OR push_bit 24 ?w1)"
  have "\<exists>m'. exec_switch h (i\<lparr>opCode := OP_LWL, extra := extra i + 3\<rparr>) pc m2 = brk_load pc (rt i) v2 m'"
    using exec_unaligned_paged [OF m2(6) q1' base] m2 by (auto simp add: v2_def)
  moreover have "v2 = unaligned32 (mainMemory m) q0 q1 (unat ?b)"
  proof -
    consider "?b = 0" | "?b = 1" | "?b = 2" | "?b = 3" using and3_cases [of a] by blast
    then show ?thesis
    proof cases
      case 1
      then have "(a + 3) AND 3 = 3" by (simp add: add3_and3)
      then have "q1 = q0" "v2 = ?w1" using q0 q1 1 by (simp_all add: v2_def)
      then show ?thesis using unaligned32_cases(1) 1 by simp
    qed (simp_all add: v2_def v1_def add3_and3 unaligned32_cases)
  qed
  ultimately show ?thesis by (simp add: exec_pair_def first m2(1)) (simp add: brk_load_def m2(1))
qed

lemma unaligned_load_witness:
  "\<exists>m'. exec_pair (\<lambda>_. Inr)
     \<lparr>opCode = OP_LWR, rs = 0, rt = 2, rd = 0, extra = 5\<rparr> \<lparr>opCode = OP_LWL, rs = 0, rt = 2, rd = 0, extra = 8\<rparr> 0
     ((Machine_new False)\<lparr>mainMemory := of_nat,
        pageTable := Some [\<lparr>virtualPage = 0, physicalPage = 0, valid = True, readOnly = False, te_use = False, te_dirty = False\<rparr>], pageTableSize := 1\<rparr>)
   = brk_load 0 2 0x08070605 m'"
proof -
  let ?pt = "[\<lparr>virtualPage = 0, physicalPage = 0, valid = True, readOnly = False, te_use = False, te_dirty = False\<rparr>]"
  let ?m = "(Machine_new False)\<lparr>mainMemory := of_nat, pageTable := Some ?pt, pageTableSize := 1\<rparr>"
  let ?i = "\<lparr>opCode = OP_LWR, rs = 0, rt = 2, rd = 0, extra = 5\<rparr>"
  have p: "Machine_paged ?m ?pt" by (simp add: Machine_paged_def Machine_new_def)
  have q: "mmu ?pt (5 - (5 AND 3)) 4 False = Inr 4" "mmu ?pt (5 + 3 - ((5 + 3) AND 3)) 4 False = Inr 8"
    by (simp_all add: mmu_def)
  have "unaligned32 of_nat 4 8 1 = 0x08070605" by (simp add: unaligned32_def load32_def unaligned_byte_def)
  with unaligned_load [OF p _ _ _ _ _ q, of ?i "\<lambda>_. Inr" 0] show ?thesis by (simp add: Machine_new_def)
qed

end
