(* ===== verification/Interrupt.thy ===== *)
theory Interrupt
  imports Mips NachOS_List
begin

text \<open>
  \<^verbatim>\<open>code/machine/interrupt.h\<close>, \<^verbatim>\<open>interrupt.cc\<close>, \<^verbatim>\<open>stats.h\<close>, \<^verbatim>\<open>timer.cc\<close> and \<^verbatim>\<open>code/threads/alarm.cc\<close>: simulated time,
  pending interrupts, and the timer that asks for time slices.

  The state extends the one of the machine.  The list of pending interrupts is the sequence that
  the linked list represents, with the operations that \<open>NachOS_List\<close> proves the list to implement;
  a pending interrupt carries its address (\<open>pi_addr\<close>), because the list compares pointers.
  A callback object is a number, and what its \<open>CallBack\<close> does is the argument \<open>h\<close> (the handlers of the
  device simulators).  Ticks are unbounded: a run of \<open>2 ^ 31\<close> ticks is not modelled.
\<close>

section \<open>Model\<close>

datatype IntStatus = IntOff | IntOn
datatype IntType = TimerInt | DiskInt | ConsoleWriteInt | ConsoleReadInt | NetworkSendInt | NetworkRecvInt

definition UserTick :: int where "UserTick = 1"
definition SystemTick :: int where "SystemTick = 10"
definition TimerTicks :: int where "TimerTicks = 100"

record PendingInterrupt =
  pi_addr :: nat
  callOnInterrupt :: nat
  pi_when :: int
  pi_type :: IntType

record interrupt = machine +
  int_level :: IntStatus
  pending :: "PendingInterrupt list"
  inHandler :: bool
  yieldOnReturn :: bool
  totalTicks :: int
  idleTicks :: int
  systemTicks :: int
  userTicks :: int
  next_addr :: nat

type_synonym 'k devices = "nat \<Rightarrow> 'k interrupt_scheme \<Rightarrow> 'k interrupt_scheme res"

definition PendingCompare :: "PendingInterrupt \<Rightarrow> PendingInterrupt \<Rightarrow> int" where
  "PendingCompare x y = (if pi_when x < pi_when y then - 1 else if pi_when x > pi_when y then 1 else 0)"

definition Interrupt_new :: "machine \<Rightarrow> interrupt" where
  "Interrupt_new m = machine.extend (m\<lparr>status := SystemMode\<rparr>)
     \<lparr>int_level = IntOff, pending = [], inHandler = False, yieldOnReturn = False,
      totalTicks = 0, idleTicks = 0, systemTicks = 0, userTicks = 0, next_addr = 0\<rparr>"

definition Interrupt_ChangeLevel :: "IntStatus \<Rightarrow> IntStatus \<Rightarrow> 'k interrupt_scheme \<Rightarrow> 'k interrupt_scheme" where
  "Interrupt_ChangeLevel old now k = k\<lparr>int_level := now\<rparr>"

definition Interrupt_YieldOnReturn :: "'k interrupt_scheme \<Rightarrow> 'k interrupt_scheme res" where
  "Interrupt_YieldOnReturn k = bindE (assertE (inHandler k)) (\<lambda>_. Inr (k\<lparr>yieldOnReturn := True\<rparr>))"

definition Interrupt_Schedule :: "nat \<Rightarrow> int \<Rightarrow> IntType \<Rightarrow> 'k interrupt_scheme \<Rightarrow> 'k interrupt_scheme res" where
  "Interrupt_Schedule toCall fromNow typ k =
     (let toOccur = \<lparr>pi_addr = next_addr k, callOnInterrupt = toCall, pi_when = totalTicks k + fromNow, pi_type = typ\<rparr> in
      bindE (assertE (fromNow > 0)) (\<lambda>_.
      bindE (lst_insert PendingCompare (pending k) toOccur) (\<lambda>p.
      Inr (k\<lparr>pending := p, next_addr := next_addr k + 1\<rparr>))))"

text \<open>
  The \<^verbatim>\<open>do ... while\<close> loop of \<open>CheckIfDue\<close>.  A handler that scheduled interrupts in the past would keep it
  going; the number of rounds is bounded by \<open>n\<close>, and the value for a longer run is \<open>Diverges\<close>.
\<close>

fun Interrupt_fire :: "'k devices \<Rightarrow> nat \<Rightarrow> 'k interrupt_scheme \<Rightarrow> 'k interrupt_scheme res" where
  "Interrupt_fire h 0 k = Inl Diverges"
| "Interrupt_fire h (Suc n) k =
     bindE (lst_remove_front (pending k)) (\<lambda>(next, p).
     bindE (h (callOnInterrupt next) (k\<lparr>pending := p\<rparr>)) (\<lambda>k.
     if pending k \<noteq> [] \<and> pi_when (hd (pending k)) \<le> totalTicks k then Interrupt_fire h n k else Inr k))"

definition Interrupt_CheckIfDue :: "'k devices \<Rightarrow> bool \<Rightarrow> 'k interrupt_scheme \<Rightarrow> (bool \<times> 'k interrupt_scheme) res" where
  "Interrupt_CheckIfDue h advanceClock k =
     bindE (assertE (int_level k = IntOff)) (\<lambda>_.
     if pending k = [] then Inr (False, k)
     else
       let next = hd (pending k) in
       if pi_when next > totalTicks k \<and> \<not> advanceClock then Inr (False, k)
       else
         let k = (if pi_when next > totalTicks k
                  then k\<lparr>idleTicks := idleTicks k + (pi_when next - totalTicks k), totalTicks := pi_when next\<rparr> else k) in
         bindE (Machine_DelayedLoad 0 0 k) (\<lambda>k.
         bindE (Interrupt_fire h (length (pending k)) (k\<lparr>inHandler := True\<rparr>)) (\<lambda>k.
         Inr (True, k\<lparr>inHandler := False\<rparr>))))"

text \<open>
  \<open>OneTick\<close> up to the call of \<open>Thread::Yield\<close>: the first component is the status to restore after that call, and
  \<open>None\<close> when it is not made.
\<close>

definition Interrupt_OneTick :: "'k devices \<Rightarrow> 'k interrupt_scheme \<Rightarrow> (MachineStatus option \<times> 'k interrupt_scheme) res" where
  "Interrupt_OneTick h k =
     (let oldStatus = status k;
          k = (if status k = SystemMode
               then k\<lparr>totalTicks := totalTicks k + SystemTick, systemTicks := systemTicks k + SystemTick\<rparr>
               else k\<lparr>totalTicks := totalTicks k + UserTick, userTicks := userTicks k + UserTick\<rparr>);
          k = Interrupt_ChangeLevel IntOn IntOff k in
      bindE (Interrupt_CheckIfDue h False k) (\<lambda>(_, k).
      let k = Interrupt_ChangeLevel IntOff IntOn k in
      if yieldOnReturn k then Inr (Some oldStatus, k\<lparr>yieldOnReturn := False, status := SystemMode\<rparr>)
      else Inr (None, k)))"

text \<open>\<open>SetLevel\<close>, which returns the old level and calls \<open>OneTick\<close> when interrupts are switched on.\<close>

definition Interrupt_SetLevel ::
    "'k devices \<Rightarrow> IntStatus \<Rightarrow> 'k interrupt_scheme \<Rightarrow> (IntStatus \<times> MachineStatus option \<times> 'k interrupt_scheme) res" where
  "Interrupt_SetLevel h now k =
     (let old = int_level k in
      bindE (assertE (now = IntOff \<or> \<not> inHandler k)) (\<lambda>_.
      let k = Interrupt_ChangeLevel old now k in
      if now = IntOn \<and> old = IntOff then bindE (Interrupt_OneTick h k) (\<lambda>(y, k). Inr (old, y, k))
      else Inr (old, None, k)))"

definition Interrupt_Idle :: "'k devices \<Rightarrow> 'k interrupt_scheme \<Rightarrow> 'k interrupt_scheme res" where
  "Interrupt_Idle h k =
     bindE (Interrupt_CheckIfDue h True (k\<lparr>status := IdleMode\<rparr>)) (\<lambda>(fired, k).
     if fired then Inr (k\<lparr>status := SystemMode\<rparr>) else Inl Halted)"

subsection \<open>The timer\<close>

text \<open>\<open>rnd\<close> is the value of \<open>RandomNumber\<close>, the number generator of the host.\<close>

record Timer =
  randomize :: bool
  timer_disable :: bool
  timer_obj :: nat

definition Alarm_CallBack :: "'k interrupt_scheme \<Rightarrow> 'k interrupt_scheme res" where
  "Alarm_CallBack k = (if status k \<noteq> IdleMode then Interrupt_YieldOnReturn k else Inr k)"

definition Timer_SetInterrupt :: "32 word \<Rightarrow> Timer \<Rightarrow> 'k interrupt_scheme \<Rightarrow> 'k interrupt_scheme res" where
  "Timer_SetInterrupt rnd t k =
     (if \<not> timer_disable t
      then Interrupt_Schedule (timer_obj t) (if randomize t then 1 + uint rnd mod (TimerTicks * 2) else TimerTicks) TimerInt k
      else Inr k)"

definition Timer_new :: "32 word \<Rightarrow> bool \<Rightarrow> nat \<Rightarrow> 'k interrupt_scheme \<Rightarrow> (Timer \<times> 'k interrupt_scheme) res" where
  "Timer_new rnd doRandom obj k =
     (let t = \<lparr>randomize = doRandom, timer_disable = False, timer_obj = obj\<rparr> in
      bindE (Timer_SetInterrupt rnd t k) (\<lambda>k. Inr (t, k)))"

definition Timer_CallBack :: "32 word \<Rightarrow> Timer \<Rightarrow> 'k interrupt_scheme \<Rightarrow> 'k interrupt_scheme res" where
  "Timer_CallBack rnd t k = bindE (Alarm_CallBack k) (Timer_SetInterrupt rnd t)"

section \<open>Time and the order of interrupts\<close>

interpretation pending_cmp: comparison PendingCompare
  by unfold_locales (auto simp add: PendingCompare_def split: if_splits)

lemma PendingCompare_le: "PendingCompare x y \<le> 0 \<longleftrightarrow> pi_when x \<le> pi_when y"
  by (simp add: PendingCompare_def)

definition pending_ok :: "'k interrupt_scheme \<Rightarrow> bool" where
  "pending_ok k \<longleftrightarrow> sorted_wrt (\<lambda>x y. PendingCompare x y \<le> 0) (pending k) \<and> (\<forall>p \<in> set (pending k). pi_addr p < next_addr k)
     \<and> distinct (map pi_addr (pending k))"

lemma pending_sorted: "pending_ok k \<Longrightarrow> sorted (map pi_when (pending k))"
  by (simp add: pending_ok_def sorted_wrt_map PendingCompare_le)

abbreviation due :: "'k interrupt_scheme \<Rightarrow> PendingInterrupt list" where
  "due k \<equiv> filter (\<lambda>p. pi_when p \<le> totalTicks k) (pending k)"

text \<open>What the scheduling of an interrupt may do to the pending ones.\<close>

definition adds_future :: "'k interrupt_scheme \<Rightarrow> 'k interrupt_scheme \<Rightarrow> bool" where
  "adds_future k k' \<longleftrightarrow> pending_ok k' \<and> totalTicks k' = totalTicks k \<and> int_level k' = int_level k \<and> inHandler k' = inHandler k
     \<and> due k' = due k \<and> (\<exists>new. mset (pending k') = mset (pending k) + mset new \<and> (\<forall>p \<in> set new. totalTicks k < pi_when p))"

lemma Schedule_ok:
  assumes "pending_ok k" "fromNow > 0"
  shows "\<exists>k'. Interrupt_Schedule c fromNow t k = Inr k' \<and> adds_future k k'
    \<and> k' = k\<lparr>pending := pending k', next_addr := next_addr k + 1\<rparr>"
proof -
  let ?p = "\<lparr>pi_addr = next_addr k, callOnInterrupt = c, pi_when = totalTicks k + fromNow, pi_type = t\<rparr>"
  have "?p \<notin> set (pending k)" using assms(1) by (auto simp add: pending_ok_def)
  then have "Interrupt_Schedule c fromNow t k = Inr (k\<lparr>pending := sorted_ins PendingCompare ?p (pending k), next_addr := next_addr k + 1\<rparr>)"
    using assms(2) by (simp add: Interrupt_Schedule_def lst_insert_def)
  moreover have "distinct (map pi_addr (sorted_ins PendingCompare ?p (pending k)))"
  proof -
    have "mset (map pi_addr (sorted_ins PendingCompare ?p (pending k))) = mset (next_addr k # map pi_addr (pending k))"
      using sorted_ins_mset [of PendingCompare ?p "pending k"] by (simp add: mset_map)
    then have "distinct (map pi_addr (sorted_ins PendingCompare ?p (pending k))) = distinct (next_addr k # map pi_addr (pending k))"
      by (rule mset_eq_imp_distinct_iff)
    then show ?thesis using assms(1) by (auto simp add: pending_ok_def)
  qed
  moreover have "sorted_wrt (\<lambda>x y. PendingCompare x y \<le> 0) (sorted_ins PendingCompare ?p (pending k))"
    using assms(1) by (intro pending_cmp.ins_sorted) (simp add: pending_ok_def)
  moreover have "filter (\<lambda>p. pi_when p \<le> totalTicks k) (sorted_ins PendingCompare ?p (pending k)) = due k"
    using assms(2) by (simp add: sorted_ins_def) (simp only: filter_append [symmetric] takeWhile_dropWhile_id)
  ultimately show ?thesis using assms
    by (auto simp add: adds_future_def pending_ok_def sorted_ins_mset sorted_ins_set less_Suc_eq intro!: exI [of _ "[?p]"])
qed

text \<open>
  Handlers as the device simulators have them: they do not move the clock or the level, and only schedule
  interrupts in the future.
\<close>

definition devices_ok :: "'k devices \<Rightarrow> bool" where
  "devices_ok h \<longleftrightarrow> (\<forall>d k. pending_ok k \<longrightarrow> inHandler k \<longrightarrow> (\<exists>k'. h d k = Inr k' \<and> adds_future k k'))"

lemma Timer_CallBack_ok:
  assumes "pending_ok k" "inHandler k"
  shows "\<exists>k'. Timer_CallBack rnd t k = Inr k' \<and> adds_future k k' \<and> (status k \<noteq> IdleMode \<longrightarrow> yieldOnReturn k')"
proof -
  define k1 where "k1 = (if status k \<noteq> IdleMode then k\<lparr>yieldOnReturn := True\<rparr> else k)"
  have k1: "Alarm_CallBack k = Inr k1" "pending_ok k1" "totalTicks k1 = totalTicks k" "pending k1 = pending k" "int_level k1 = int_level k"
      "inHandler k1 = inHandler k" "status k \<noteq> IdleMode \<longrightarrow> yieldOnReturn k1"
    using assms by (simp_all add: k1_def Alarm_CallBack_def Interrupt_YieldOnReturn_def pending_ok_def)
  let ?d = "if randomize t then 1 + uint rnd mod (TimerTicks * 2) else TimerTicks"
  have "0 \<le> uint rnd mod 200" by simp
  then have "0 < ?d" unfolding TimerTicks_def by simp linarith
  from Schedule_ok [OF k1(2) this, of "timer_obj t" TimerInt] obtain k' where
    k': "Interrupt_Schedule (timer_obj t) ?d TimerInt k1 = Inr k'" "adds_future k1 k'" "k' = k1\<lparr>pending := pending k', next_addr := next_addr k1 + 1\<rparr>"
    by blast
  have "yieldOnReturn k' = yieldOnReturn k1" by (subst k'(3)) simp
  moreover have "adds_future k1 k1" using k1(2) by (auto simp add: adds_future_def intro!: exI [of _ "[]"])
  ultimately show ?thesis using k' k1
    by (auto simp add: Timer_CallBack_def Timer_SetInterrupt_def adds_future_def)
qed

lemma Timer_devices_ok: "devices_ok (\<lambda>_. Timer_CallBack rnd t)"
  unfolding devices_ok_def using Timer_CallBack_ok by blast

text \<open>
  Firing: the callbacks of the interrupts that are due are called in the order of their times, and
  nothing that is due remains.
\<close>

definition fire_one :: "'k devices \<Rightarrow> PendingInterrupt \<Rightarrow> 'k interrupt_scheme \<Rightarrow> 'k interrupt_scheme res" where
  "fire_one h p k = h (callOnInterrupt p) (k\<lparr>pending := remove1 p (pending k)\<rparr>)"

lemma due_prefix:
  assumes "pending_ok k" "due k = p # ps"
  shows "\<exists>rest. pending k = p # rest \<and> filter (\<lambda>p. pi_when p \<le> totalTicks k) rest = ps"
proof (cases "pending k")
  case (Cons q rest)
  have "pi_when q \<le> totalTicks k"
  proof (rule ccontr)
    assume "\<not> pi_when q \<le> totalTicks k"
    moreover have "\<forall>x \<in> set rest. pi_when q \<le> pi_when x" using pending_sorted [OF assms(1)] Cons by simp
    ultimately have "due k = []" using Cons by (auto simp add: filter_empty_conv)
    with assms(2) show False by simp
  qed
  then show ?thesis using assms(2) Cons by simp
qed (use assms in simp)

lemma sorted_wrt_remove1': "sorted_wrt R xs \<Longrightarrow> sorted_wrt R (remove1 x xs)"
  by (induction xs) (auto dest: notin_set_remove1)

lemma fire_one_ok:
  assumes h: "devices_ok h" and k: "pending_ok k" "inHandler k" and p: "p \<in> set (pending k)"
  shows "\<exists>k'. fire_one h p k = Inr k' \<and> adds_future (k\<lparr>pending := remove1 p (pending k)\<rparr>) k'"
proof -
  have "pending_ok (k\<lparr>pending := remove1 p (pending k)\<rparr>)"
    using k(1) by (auto simp add: pending_ok_def distinct_map intro: sorted_wrt_remove1' dest: notin_set_remove1 inj_on_subset [OF _ set_remove1_subset])
  then show ?thesis using h k(2) by (simp add: devices_ok_def fire_one_def)
qed

lemma fire_ok:
  assumes h: "devices_ok h"
  shows "pending_ok k \<Longrightarrow> inHandler k \<Longrightarrow> due k \<noteq> [] \<Longrightarrow> length (due k) \<le> n \<Longrightarrow>
    \<exists>k'. Interrupt_fire h n k = Inr k' \<and> foldE (fire_one h) (due k) k = Inr k' \<and> due k' = [] \<and> pending_ok k'
      \<and> totalTicks k' = totalTicks k \<and> int_level k' = int_level k"
proof (induction n arbitrary: k)
  case 0
  then show ?case by simp
next
  case (Suc n)
  obtain p ps where ps: "due k = p # ps" using Suc.prems(3) by (cases "due k") auto
  from due_prefix [OF Suc.prems(1) ps] obtain rest where
    rest: "pending k = p # rest" "filter (\<lambda>p. pi_when p \<le> totalTicks k) rest = ps" by blast
  obtain k1 where k1: "fire_one h p k = Inr k1" "adds_future (k\<lparr>pending := rest\<rparr>) k1"
    using fire_one_ok [OF h Suc.prems(1,2), of p] rest by auto
  have a: "pending_ok k1" "inHandler k1" "due k1 = ps" "totalTicks k1 = totalTicks k" "int_level k1 = int_level k"
    using k1(2) rest(2) Suc.prems(2) by (auto simp add: adds_future_def)
  have fire: "Interrupt_fire h (Suc n) k =
      (if pending k1 \<noteq> [] \<and> pi_when (hd (pending k1)) \<le> totalTicks k1 then Interrupt_fire h n k1 else Inr k1)"
    using k1(1) rest(1) by (simp add: lst_remove_front_def fire_one_def)
  show ?case
  proof (cases ps)
    case Nil
    then have "\<not> (pending k1 \<noteq> [] \<and> pi_when (hd (pending k1)) \<le> totalTicks k1)"
      using a(3) by (cases "pending k1") (auto split: if_splits)
    then show ?thesis using fire a k1 Nil by (auto simp add: ps)
  next
    case (Cons q qs)
    then have "pending k1 \<noteq> [] \<and> pi_when (hd (pending k1)) \<le> totalTicks k1"
      using due_prefix [OF a(1), of q qs] a(3) by (auto simp add: filter_eq_Cons_iff)
    moreover have "due k1 \<noteq> []" "length (due k1) \<le> n" using Suc.prems(4) ps a(3) Cons by simp_all
    ultimately show ?thesis using fire Suc.IH [OF a(1,2)] a k1 by (auto simp add: ps)
  qed
qed

text \<open>The time at which \<open>CheckIfDue\<close> looks: with \<open>advanceClock\<close>, not before the first interrupt.\<close>

definition check_time :: "bool \<Rightarrow> 'k interrupt_scheme \<Rightarrow> int" where
  "check_time adv k = (if adv \<and> pending k \<noteq> [] then max (totalTicks k) (pi_when (hd (pending k))) else totalTicks k)"

lemma sorted_first_due:
  assumes "pending_ok k" "pending k \<noteq> []"
  shows "(\<exists>p \<in> set (pending k). pi_when p \<le> t) \<longleftrightarrow> pi_when (hd (pending k)) \<le> t"
  using pending_sorted [OF assms(1)] assms(2) by (cases "pending k") auto

text \<open>A tick: the clock moves, then the interrupts that are due.\<close>

definition ticked :: "'k interrupt_scheme \<Rightarrow> 'k interrupt_scheme" where
  "ticked k = (if status k = SystemMode
     then k\<lparr>totalTicks := totalTicks k + SystemTick, systemTicks := systemTicks k + SystemTick\<rparr>
     else k\<lparr>totalTicks := totalTicks k + UserTick, userTicks := userTicks k + UserTick\<rparr>)\<lparr>int_level := IntOff\<rparr>"

lemma OneTick_eq:
  "Interrupt_OneTick h k = bindE (Interrupt_CheckIfDue h False (ticked k)) (\<lambda>(_, k').
     if yieldOnReturn k' then Inr (Some (status k), k'\<lparr>int_level := IntOn, yieldOnReturn := False, status := SystemMode\<rparr>)
     else Inr (None, k'\<lparr>int_level := IntOn\<rparr>))"
  by (auto simp add: Interrupt_OneTick_def Interrupt_ChangeLevel_def ticked_def Let_def intro!: bindE_cong)

section \<open>Properties\<close>

text \<open>
  C28.  Interrupts happen on time and in order.  With handlers that only schedule interrupts in the future,
  \<open>CheckIfDue\<close> terminates without failing; it calls exactly the handlers of the interrupts that are due, in
  the order of the list, which is sorted by time; it returns whether there were any; afterwards every
  pending interrupt lies in the future.  The clock only moves when it may be advanced, and then to
  the first pending interrupt.
\<close>

theorem CheckIfDue_correct:
  assumes h: "devices_ok h" and k: "pending_ok k" "int_level k = IntOff" and l: "uint (registers k LoadReg) < int NumTotalRegs"
  shows "\<exists>r k'. Interrupt_CheckIfDue h adv k = Inr (r, k') \<and> pending_ok k' \<and> int_level k' = IntOff
    \<and> totalTicks k' = check_time adv k \<and> (r \<longleftrightarrow> (\<exists>p \<in> set (pending k). pi_when p \<le> totalTicks k'))
    \<and> (\<forall>p \<in> set (pending k'). totalTicks k' < pi_when p)
    \<and> (if r then \<not> inHandler k' \<and> (\<exists>k0 k1. pending k0 = pending k \<and> totalTicks k0 = totalTicks k' \<and> inHandler k0
          \<and> foldE (fire_one h) (filter (\<lambda>p. pi_when p \<le> totalTicks k') (pending k)) k0 = Inr k1 \<and> k' = k1\<lparr>inHandler := False\<rparr>)
        else k' = k)"
proof (cases "\<exists>p \<in> set (pending k). pi_when p \<le> check_time adv k")
  case False
  then have "pending k = [] \<or> pi_when (hd (pending k)) > totalTicks k \<and> \<not> adv"
    by (cases "pending k") (auto simp add: check_time_def split: if_splits)
  then have r: "Interrupt_CheckIfDue h adv k = Inr (False, k)" and t: "check_time adv k = totalTicks k"
    using k(2) by (auto simp add: Interrupt_CheckIfDue_def Let_def check_time_def)
  show ?thesis unfolding r using False k by (intro exI [of _ False] exI [of _ k]) (simp add: t not_le)
next
  case True
  then have ne: "pending k \<noteq> []" by auto
  have first: "pi_when (hd (pending k)) \<le> check_time adv k" using True sorted_first_due [OF k(1) ne] by blast
  define k0 where "k0 = (if pi_when (hd (pending k)) > totalTicks k
      then k\<lparr>idleTicks := idleTicks k + (pi_when (hd (pending k)) - totalTicks k), totalTicks := pi_when (hd (pending k))\<rparr> else k)"
  have t0: "totalTicks k0 = check_time adv k" and "registers k0 = registers k" "pending k0 = pending k" "int_level k0 = int_level k"
      "next_addr k0 = next_addr k"
    using ne first by (auto simp add: k0_def check_time_def split: if_splits)
  then obtain k1 where k1: "Machine_DelayedLoad 0 0 k0 = Inr k1" "pending k1 = pending k" "totalTicks k1 = check_time adv k"
      "int_level k1 = IntOff" "next_addr k1 = next_addr k"
    using l k(2) by (auto simp add: Machine_DelayedLoad_def Let_def)
  have p1: "pending_ok (k1\<lparr>inHandler := True\<rparr>)" using k(1) k1 by (simp add: pending_ok_def)
  have "filter (\<lambda>p. pi_when p \<le> check_time adv k) (pending k) \<noteq> []" using True by (auto simp add: filter_empty_conv)
  then obtain k2 where k2: "Interrupt_fire h (length (pending k)) (k1\<lparr>inHandler := True\<rparr>) = Inr k2"
      "foldE (fire_one h) (filter (\<lambda>p. pi_when p \<le> check_time adv k) (pending k)) (k1\<lparr>inHandler := True\<rparr>) = Inr k2"
      "due k2 = []" "pending_ok k2" "totalTicks k2 = check_time adv k" "int_level k2 = IntOff"
    using fire_ok [OF h p1, of "length (pending k)"] k1 by auto
  have "\<not> (pi_when (hd (pending k)) > totalTicks k \<and> \<not> adv)" using first by (auto simp add: check_time_def split: if_splits)
  then have "Interrupt_CheckIfDue h adv k = Inr (True, k2\<lparr>inHandler := False\<rparr>)"
    using ne k(2) k1 k2(1) by (simp add: Interrupt_CheckIfDue_def Let_def flip: k0_def)
  moreover have "pending_ok (k2\<lparr>inHandler := False\<rparr>)" using k2(4) by (simp add: pending_ok_def)
  moreover have "\<forall>p \<in> set (pending k2). totalTicks k2 < pi_when p" using k2(3) by (simp add: filter_empty_conv not_le)
  moreover have "\<exists>k0 k1'. pending k0 = pending k \<and> totalTicks k0 = totalTicks k2 \<and> inHandler k0
      \<and> foldE (fire_one h) (filter (\<lambda>p. pi_when p \<le> totalTicks k2) (pending k)) k0 = Inr k1' \<and> k2\<lparr>inHandler := False\<rparr> = k1'\<lparr>inHandler := False\<rparr>"
    using k1 k2 by (intro exI [of _ "k1\<lparr>inHandler := True\<rparr>"] exI [of _ k2]) simp
  ultimately show ?thesis using True k2(5,6) by (intro exI [of _ True] exI [of _ "k2\<lparr>inHandler := False\<rparr>"]) simp
qed

theorem CheckIfDue_correct_witness:
  "\<exists>k k1 k'. Timer_new 0 False 0 (Interrupt_new (Machine_new False)) = Inr (\<lparr>randomize = False, timer_disable = False, timer_obj = 0\<rparr>, k)
    \<and> Interrupt_CheckIfDue (\<lambda>_. Timer_CallBack 0 \<lparr>randomize = False, timer_disable = False, timer_obj = 0\<rparr>) False k = Inr (False, k)
    \<and> Interrupt_CheckIfDue (\<lambda>_. Timer_CallBack 0 \<lparr>randomize = False, timer_disable = False, timer_obj = 0\<rparr>) True k = Inr (True, k')
    \<and> totalTicks k' = 100"
proof -
  let ?t = "\<lparr>randomize = False, timer_disable = False, timer_obj = 0\<rparr>"
  let ?h = "\<lambda>_. Timer_CallBack 0 ?t :: interrupt \<Rightarrow> _"
  let ?k = "(Interrupt_new (Machine_new False))\<lparr>pending := [\<lparr>pi_addr = 0, callOnInterrupt = 0, pi_when = 100, pi_type = TimerInt\<rparr>], next_addr := 1\<rparr>"
  have new: "Timer_new 0 False 0 (Interrupt_new (Machine_new False)) = Inr (?t, ?k)"
    by (simp add: Timer_new_def Timer_SetInterrupt_def Interrupt_Schedule_def lst_insert_def Interrupt_new_def machine.extend_def
          TimerTicks_def sorted_ins_def Let_def)
  have h: "devices_ok ?h" by (rule Timer_devices_ok)
  have k: "pending_ok ?k" "int_level ?k = IntOff" "uint (registers ?k LoadReg) < int NumTotalRegs"
    by (simp_all add: pending_ok_def Interrupt_new_def machine.extend_def Machine_new_def NumTotalRegs_def)
  have "Interrupt_CheckIfDue ?h False ?k = Inr (False, ?k)"
    using CheckIfDue_correct [OF h k, of False] by (auto simp add: check_time_def Interrupt_new_def machine.extend_def)
  moreover have "\<exists>k'. Interrupt_CheckIfDue ?h True ?k = Inr (True, k') \<and> totalTicks k' = 100"
    using CheckIfDue_correct [OF h k, of True] by (auto simp add: check_time_def Interrupt_new_def machine.extend_def)
  ultimately show ?thesis using new by blast
qed

text \<open>
  Time slices.  With the timer as the only device, a tick of the clock asks for a context switch, and
  restores the status of the machine after it, exactly when the timer is due; the timer is then set
  again for 100 ticks later, or for between 1 and 200 ticks when it is randomised.
\<close>

lemma OneTick_time_slice:
  assumes p: "pending k = [\<lparr>pi_addr = a, callOnInterrupt = timer_obj t, pi_when = w, pi_type = TimerInt\<rparr>]" "a < next_addr k"
    and t: "\<not> timer_disable t" and k: "status k \<noteq> IdleMode" "\<not> yieldOnReturn k" "uint (registers k LoadReg) < int NumTotalRegs"
  defines "now \<equiv> totalTicks k + (if status k = SystemMode then SystemTick else UserTick)"
  shows "\<exists>k'. Interrupt_OneTick (\<lambda>_. Timer_CallBack rnd t) k = Inr (if w \<le> now then Some (status k) else None, k')
    \<and> totalTicks k' = now \<and> int_level k' = IntOn
    \<and> (if w \<le> now then \<exists>q d. pending k' = [q] \<and> callOnInterrupt q = timer_obj t \<and> pi_when q = now + d
          \<and> (if randomize t then 1 \<le> d \<and> d \<le> 200 else d = 100)
        else pending k' = pending k)"
proof -
  define k0 where "k0 = ticked k"
  have k0: "pending k0 = pending k" "totalTicks k0 = now" "int_level k0 = IntOff" "status k0 = status k" "\<not> yieldOnReturn k0"
      "registers k0 = registers k" "next_addr k0 = next_addr k"
    using k by (auto simp add: k0_def ticked_def now_def)
  note ot = OneTick_eq [of "\<lambda>_. Timer_CallBack rnd t" k, folded k0_def]
  show ?thesis
  proof (cases "w \<le> now")
    case False
    then have "Interrupt_CheckIfDue (\<lambda>_. Timer_CallBack rnd t) False k0 = Inr (False, k0)"
      using k0 p by (simp add: Interrupt_CheckIfDue_def)
    then show ?thesis using False k0 by (simp add: ot)
  next
    case True
    define d where "d = (if randomize t then 1 + uint rnd mod 200 else 100)"
    have d: "0 < d" "if randomize t then 1 \<le> d \<and> d \<le> 200 else d = 100"
      using pos_mod_bound [of 200 "uint rnd"] pos_mod_sign [of 200 "uint rnd"] by (auto simp add: d_def)
    have set: "Timer_SetInterrupt rnd t k' = Interrupt_Schedule (timer_obj t) d TimerInt k'" for k' :: "'a interrupt_scheme"
      using t by (simp add: Timer_SetInterrupt_def d_def TimerTicks_def)
    let ?q = "\<lparr>pi_addr = next_addr k, callOnInterrupt = timer_obj t, pi_when = now + d, pi_type = TimerInt\<rparr>"
    obtain r where "Interrupt_CheckIfDue (\<lambda>_. Timer_CallBack rnd t) False k0 =
        Inr (True, k0\<lparr>registers := r, yieldOnReturn := True, pending := [?q], next_addr := Suc (next_addr k), inHandler := False\<rparr>)"
      using True k0 p t k d(1)
      by (auto simp add: Interrupt_CheckIfDue_def Machine_DelayedLoad_def lst_remove_front_def Timer_CallBack_def Alarm_CallBack_def
          Interrupt_YieldOnReturn_def set Interrupt_Schedule_def lst_insert_def sorted_ins_def Let_def)
    then show ?thesis using True d k0 by (auto simp add: ot)
  qed
qed

lemma OneTick_time_slice_witness:
  "\<exists>k'. Interrupt_OneTick (\<lambda>_. Timer_CallBack 7 \<lparr>randomize = False, timer_disable = False, timer_obj = 0\<rparr>)
      ((Interrupt_new (Machine_new False))\<lparr>pending := [\<lparr>pi_addr = 0, callOnInterrupt = 0, pi_when = 100, pi_type = TimerInt\<rparr>],
        next_addr := 1, totalTicks := 95\<rparr>) = Inr (Some SystemMode, k')
    \<and> map pi_when (pending k') = [205]"
proof -
  let ?t = "\<lparr>randomize = False, timer_disable = False, timer_obj = 0\<rparr>"
  let ?k = "(Interrupt_new (Machine_new False))\<lparr>pending := [\<lparr>pi_addr = 0, callOnInterrupt = 0, pi_when = 100, pi_type = TimerInt\<rparr>],
        next_addr := 1, totalTicks := 95\<rparr>"
  have "pending ?k = [\<lparr>pi_addr = 0, callOnInterrupt = timer_obj ?t, pi_when = 100, pi_type = TimerInt\<rparr>]" "0 < next_addr ?k"
      "\<not> timer_disable ?t" "status ?k \<noteq> IdleMode" "\<not> yieldOnReturn ?k" "uint (registers ?k LoadReg) < int NumTotalRegs"
    by (simp_all add: Interrupt_new_def machine.extend_def Machine_new_def NumTotalRegs_def)
  from OneTick_time_slice [OF this, of 7] show ?thesis
    by (auto simp add: Interrupt_new_def machine.extend_def SystemTick_def)
qed

end
