(* ===== verification/AddrSpace.thy ===== *)
theory AddrSpace
  imports Mips Bitmap
begin

text \<open>
  \<^verbatim>\<open>code/userprog/addrspace.h\<close>, \<^verbatim>\<open>addrspace.cc\<close> and \<^verbatim>\<open>noff.h\<close>: address spaces.  \<open>Load\<close> reads the header of an
  executable in NOFF format, takes a frame for each page from the map of physical pages
  (\<open>gPhysPageBitMap\<close> of the kernel, an argument here), clears the frames, and copies the code, the
  initialised data and the read-only data into them, page by page (compiled with \<^verbatim>\<open>RDATA\<close>).

  A file is the list of its bytes; \<open>ReadAt\<close> is that of the stub file system, one \<open>read\<close> of the host at a
  position.  Writes to main memory are checked against its size.  The semaphore \<open>addrLock\<close> around the
  allocation orders the threads and does not change the state of the allocation.
\<close>

section \<open>Model\<close>

definition UserStackSize :: int where "UserStackSize = 1024"
definition NOFFMAGIC :: "32 word" where "NOFFMAGIC = 0xbadfad"

record Segment =
  virtualAddr :: "32 word"
  inFileAddr :: "32 word"
  seg_size :: "32 word"

record NoffHeader =
  noffMagic :: "32 word"
  noff_code :: Segment
  noff_initData :: Segment
  noff_readonlyData :: Segment
  noff_uninitData :: Segment

record addr_space =
  as_pageTable :: "TranslationEntry list option"
  as_numPages :: int

text \<open>
  The header as \<^verbatim>\<open>ReadAt((char *) &noffH, sizeof(noffH), 0)\<close> leaves it: bytes that the file does not have are
  what the stack held before.
\<close>

definition read_header :: "(nat \<Rightarrow> 8 word) \<Rightarrow> 8 word list \<Rightarrow> NoffHeader" where
  "read_header junk file =
     (let b = (\<lambda>k. if k < length file then file ! k else junk k);
          seg = (\<lambda>k. \<lparr>virtualAddr = load32 b k, inFileAddr = load32 b (k + 4), seg_size = load32 b (k + 8)\<rparr>) in
      \<lparr>noffMagic = load32 b 0, noff_code = seg 4, noff_initData = seg 16, noff_readonlyData = seg 28, noff_uninitData = seg 40\<rparr>)"

definition SwapSegment :: "Segment \<Rightarrow> Segment" where
  "SwapSegment s = \<lparr>virtualAddr = WordToHost (virtualAddr s), inFileAddr = WordToHost (inFileAddr s), seg_size = WordToHost (seg_size s)\<rparr>"

definition SwapHeader :: "NoffHeader \<Rightarrow> NoffHeader" where
  "SwapHeader h =
     \<lparr>noffMagic = WordToHost (noffMagic h), noff_code = SwapSegment (noff_code h), noff_initData = SwapSegment (noff_initData h),
      noff_readonlyData = SwapSegment (noff_readonlyData h), noff_uninitData = SwapSegment (noff_uninitData h)\<rparr>"

definition mem_copy :: "(nat \<Rightarrow> 8 word) \<Rightarrow> nat \<Rightarrow> 8 word list \<Rightarrow> nat \<Rightarrow> 8 word" where
  "mem_copy mem addr bytes = (\<lambda>a. if addr \<le> a \<and> a < addr + length bytes then bytes ! (a - addr) else mem a)"

text \<open>Writing bytes to main memory from the host, at an address that the host computed.\<close>

definition host_write :: "int \<Rightarrow> 8 word list \<Rightarrow> 'm machine_scheme \<Rightarrow> 'm machine_scheme res" where
  "host_write addr bytes m =
     (if 0 \<le> addr \<and> addr + int (length bytes) \<le> MemorySize
      then Inr (m\<lparr>mainMemory := mem_copy (mainMemory m) (nat addr) bytes\<rparr>) else Inl Out_of_bounds)"

definition ReadAt_into :: "8 word list \<Rightarrow> int \<Rightarrow> int \<Rightarrow> int \<Rightarrow> 'm machine_scheme \<Rightarrow> 'm machine_scheme res" where
  "ReadAt_into file addr numBytes position m =
     (if position < 0 then Inl Assert_failed
      else if numBytes < 0 then Inl Out_of_bounds
      else host_write addr (take (nat numBytes) (drop (nat position) file)) m)"

definition AddrSpace_new :: addr_space where
  "AddrSpace_new = \<lparr>as_pageTable = None, as_numPages = 0\<rparr>"

text \<open>
  The constructor leaves \<open>pageTable\<close> uninitialised, which is \<open>None\<close> here; the destructor deletes it in any case.
\<close>

definition AddrSpace_delete :: "addr_space \<Rightarrow> bitmap \<Rightarrow> bitmap res" where
  "AddrSpace_delete sp gPhysPageBitMap =
     bindE (foldE (\<lambda>i b. bindE (derefE (as_pageTable sp)) (\<lambda>pt. bindE (readA pt i) (\<lambda>e. Bitmap_Clear b (physicalPage e))))
       [0..as_numPages sp - 1] gPhysPageBitMap) (\<lambda>b.
     bindE (derefE (as_pageTable sp)) (\<lambda>_. Inr b))"

text \<open>The loop that takes a frame for each page and clears it.\<close>

definition AddrSpace_alloc ::
    "int \<Rightarrow> bitmap \<times> 'm machine_scheme \<Rightarrow> (TranslationEntry list \<times> bitmap \<times> 'm machine_scheme) res" where
  "AddrSpace_alloc numPages s =
     foldE (\<lambda>i (pt, b, m).
       bindE (Bitmap_FindAndSet b) (\<lambda>(frame, b).
       bindE (host_write (frame * PageSize) (replicate (nat PageSize) 0) m) (\<lambda>m.
       Inr (pt @ [\<lparr>virtualPage = i, physicalPage = frame, valid = True, readOnly = False, te_use = False, te_dirty = False\<rparr>], b, m))))
       [0..numPages - 1] ([], s)"

definition AddrSpace_copy_pages ::
    "8 word list \<Rightarrow> int \<Rightarrow> TranslationEntry list \<Rightarrow> int \<Rightarrow> int \<Rightarrow> int \<Rightarrow> int \<Rightarrow> 'm machine_scheme \<Rightarrow> 'm machine_scheme res" where
  "AddrSpace_copy_pages file base pt i num lastSize position m =
     foldE (\<lambda>j m. bindE (readA pt (i + j)) (\<lambda>e.
         ReadAt_into file (base + physicalPage e * PageSize) (if j < num - 1 then PageSize else lastSize)
           (position + j * PageSize) m)) [0..num - 1] m"

text \<open>
  A segment that starts in the rest of the last page used so far (at \<open>offset\<close> in page \<open>i - 1\<close>, if there is
  \<open>room\<close>) and goes on with further pages: the initialised data and the read-only data.  The result has
  the next value of the page counter \<open>i\<close>.
\<close>

definition AddrSpace_copy_segment ::
    "8 word list \<Rightarrow> int \<Rightarrow> TranslationEntry list \<Rightarrow> Segment \<Rightarrow> int \<Rightarrow> bool \<Rightarrow> int \<Rightarrow> 'm machine_scheme
     \<Rightarrow> (int \<times> 'm machine_scheme) res" where
  "AddrSpace_copy_segment file base pt seg offset room i m =
     (let sz = sint (seg_size seg);
          firstSize = (if PageSize - offset < sz then PageSize - offset else sz);
          lastSize = (sz - firstSize - 1) smod PageSize + 1;
          num = divRoundUp (sz - firstSize) PageSize mod 2 ^ 32 in
      bindE (if room then bindE (readA pt (i - 1)) (\<lambda>e.
               ReadAt_into file (base + physicalPage e * PageSize + offset) firstSize (sint (inFileAddr seg)) m)
             else Inr m) (\<lambda>m.
      bindE (AddrSpace_copy_pages file base pt i num lastSize (sint (inFileAddr seg) + firstSize) m) (\<lambda>m.
      Inr (i + num, m))))"

definition AddrSpace_copy_image ::
    "8 word list \<Rightarrow> NoffHeader \<Rightarrow> TranslationEntry list \<Rightarrow> 'm machine_scheme \<Rightarrow> 'm machine_scheme res" where
  "AddrSpace_copy_image file h pt m =
     (let base = sint (virtualAddr (noff_code h));
          code_size = sint (seg_size (noff_code h));
          init_size = sint (seg_size (noff_initData h));
          numCodePage = divRoundUp code_size PageSize mod 2 ^ 32;
          lastCodePageSize = (code_size - 1) smod PageSize + 1 in
      bindE (if 0 < code_size
             then bindE (AddrSpace_copy_pages file base pt 0 numCodePage lastCodePageSize (sint (inFileAddr (noff_code h))) m)
                    (\<lambda>m. Inr (numCodePage, m))
             else Inr (0, m)) (\<lambda>(i, m).
      bindE (if 0 < init_size
             then AddrSpace_copy_segment file base pt (noff_initData h) lastCodePageSize
                    (lastCodePageSize \<noteq> PageSize \<and> 0 < numCodePage) i m
             else Inr (i, m)) (\<lambda>(i, m).
      bindE (if 0 < sint (seg_size (noff_readonlyData h))
             then let offset = (code_size + init_size - 1) smod PageSize + 1 in
               AddrSpace_copy_segment file base pt (noff_readonlyData h) offset (offset \<noteq> PageSize \<and> 0 < i) i m
             else Inr (i, m)) (\<lambda>(i, m).
      Inr m))))"

definition load_header :: "(nat \<Rightarrow> 8 word) \<Rightarrow> 8 word list \<Rightarrow> NoffHeader" where
  "load_header junk file =
     (let h = read_header junk file in
      if noffMagic h \<noteq> NOFFMAGIC \<and> WordToHost (noffMagic h) = NOFFMAGIC then SwapHeader h else h)"

definition AddrSpace_Load ::
    "(nat \<Rightarrow> 8 word) \<Rightarrow> 8 word list option \<Rightarrow> addr_space \<Rightarrow> bitmap \<times> 'm machine_scheme
     \<Rightarrow> (bool \<times> addr_space \<times> bitmap \<times> 'm machine_scheme) res" where
  "AddrSpace_Load junk executable sp s =
     (case executable of
        None \<Rightarrow> Inr (False, sp, s)
      | Some file \<Rightarrow>
          let h = load_header junk file in
          bindE (assertE (noffMagic h = NOFFMAGIC)) (\<lambda>_.
          let sz = uint (seg_size (noff_code h) + seg_size (noff_readonlyData h) + seg_size (noff_initData h)
                     + seg_size (noff_uninitData h) + word_of_int UserStackSize);
              numPages = divRoundUp sz PageSize in
          bindE (assertE (numPages \<le> NumPhysPages)) (\<lambda>_.
          bindE (Bitmap_NumClear (fst s)) (\<lambda>free.
          if free < numPages then Inr (False, sp\<lparr>as_numPages := 0\<rparr>, s)
          else
            bindE (AddrSpace_alloc numPages s) (\<lambda>(pt, b, m).
            bindE (AddrSpace_copy_image file h pt m) (\<lambda>m.
            Inr (True, \<lparr>as_pageTable = Some pt, as_numPages = numPages\<rparr>, b, m)))))))"

definition AddrSpace_InitRegisters :: "addr_space \<Rightarrow> 'm machine_scheme \<Rightarrow> 'm machine_scheme res" where
  "AddrSpace_InitRegisters sp m =
     bindE (foldE (\<lambda>i m. Machine_WriteRegister i 0 m) [0..int NumTotalRegs - 1] m) (\<lambda>m.
     bindE (Machine_WriteRegister (int PCReg) 0 m) (\<lambda>m.
     bindE (Machine_WriteRegister (int NextPCReg) 4 m) (\<lambda>m.
     Machine_WriteRegister (int StackReg) (word_of_int (as_numPages sp * PageSize - 16)) m)))"

definition AddrSpace_SaveState :: "addr_space \<Rightarrow> 'm machine_scheme \<Rightarrow> 'm machine_scheme" where
  "AddrSpace_SaveState sp m = m"

definition AddrSpace_RestoreState :: "addr_space \<Rightarrow> 'm machine_scheme \<Rightarrow> 'm machine_scheme" where
  "AddrSpace_RestoreState sp m = m\<lparr>pageTable := as_pageTable sp, pageTableSize := as_numPages sp\<rparr>"

text \<open>\<open>Execute\<close> up to the call of \<open>Machine::Run\<close>, which does not return.\<close>

definition AddrSpace_Execute :: "addr_space \<Rightarrow> 'm machine_scheme \<Rightarrow> 'm machine_scheme res" where
  "AddrSpace_Execute sp m = bindE (AddrSpace_InitRegisters sp m) (\<lambda>m. Inr (AddrSpace_RestoreState sp m))"

definition AddrSpace_Translate :: "addr_space \<Rightarrow> 32 word \<Rightarrow> bool \<Rightarrow> ((ExceptionType + 32 word) \<times> addr_space) res" where
  "AddrSpace_Translate sp vaddr isReadWrite =
     (let vpn = uint vaddr div PageSize; offset = uint vaddr mod PageSize in
      if as_numPages sp \<le> vpn then Inr (Inl AddressErrorException, sp)
      else bindE (derefE (as_pageTable sp)) (\<lambda>pt. bindE (readA pt vpn) (\<lambda>pte.
        if isReadWrite \<and> readOnly pte then Inr (Inl ReadOnlyException, sp)
        else let pfn = physicalPage pte in
          if NumPhysPages \<le> pfn then Inr (Inl BusErrorException, sp)
          else let pte = pte\<lparr>te_use := True\<rparr>;
                   pte = (if isReadWrite then pte\<lparr>te_dirty := True\<rparr> else pte);
                   paddr = word_of_int (pfn * PageSize + offset) :: 32 word in
            bindE (assertE (uint paddr < MemorySize)) (\<lambda>_.
            Inr (Inr paddr, sp\<lparr>as_pageTable := Some (pt[nat vpn := pte])\<rparr>)))))"

section \<open>Allocation\<close>

lemma mem_copy_page:
  "mem_copy mem (f * 256) (replicate 256 0) = (\<lambda>a. if a div 256 = f then 0 else mem a)"
proof (rule ext)
  fix a
  have "f * 256 \<le> a \<and> a < f * 256 + 256 \<longleftrightarrow> a div 256 = f" by auto
  then show "mem_copy mem (f * 256) (replicate 256 0) a = (if a div 256 = f then 0 else mem a)"
    by (auto simp add: mem_copy_def)
qed

abbreviation page_frames :: "TranslationEntry list \<Rightarrow> int list" where
  "page_frames pt \<equiv> map physicalPage pt"

text \<open>A page table as \<open>Load\<close> builds it.\<close>

definition fresh_table :: "TranslationEntry list \<Rightarrow> bool" where
  "fresh_table pt \<longleftrightarrow> distinct (page_frames pt) \<and> set (page_frames pt) \<subseteq> {0..<128}
     \<and> (\<forall>i < length pt. virtualPage (pt ! i) = int i \<and> valid (pt ! i) \<and> \<not> readOnly (pt ! i))"

lemma find_low_frame:
  assumes b: "Bitmap_inv b" "128 \<le> numBits b" and free: "{0..<128} - Bitmap_used b \<noteq> {}"
  shows "\<exists>i b'. Bitmap_FindAndSet b = Inr (i, b') \<and> Bitmap_inv b' \<and> numBits b' = numBits b
    \<and> Bitmap_used b' = insert i (Bitmap_used b) \<and> i \<in> {0..<128} - Bitmap_used b"
proof -
  obtain j where j: "j \<in> {0..<128}" "j \<notin> Bitmap_used b" using free by blast
  have "Bitmap_used b \<subset> {0..<numBits b}" using bm.used_range [OF b(1)] j b(2) by auto
  then have "card (Bitmap_used b) < card {0..<numBits b}" by (rule psubset_card_mono [rotated]) simp
  then have "int (card (Bitmap_used b)) < numBits b" using b(2) by simp
  from bm.find_when_clear [OF b(1) this] obtain i b' where
    i: "Bitmap_FindAndSet b = Inr (i, b')" "Bitmap_inv b'" "numBits b' = numBits b" "Bitmap_used b' = insert i (Bitmap_used b)"
      "i \<in> {0..<numBits b}" "i \<notin> Bitmap_used b" "{0..<i} \<subseteq> Bitmap_used b" by blast
  have "i \<le> j" using i(7) j by (meson atLeastLessThan_iff not_le subsetD)
  then show ?thesis using i j by auto
qed

lemma alloc_ok:
  assumes b: "Bitmap_inv b" "128 \<le> numBits b" and n: "n \<le> card ({0..<128} - Bitmap_used b)"
  shows "\<exists>pt b' m'. AddrSpace_alloc (int n) (b, m) = Inr (pt, b', m') \<and> length pt = n \<and> fresh_table pt
    \<and> set (page_frames pt) \<inter> Bitmap_used b = {} \<and> Bitmap_inv b' \<and> numBits b' = numBits b
    \<and> Bitmap_used b' = Bitmap_used b \<union> set (page_frames pt)
    \<and> m' = m\<lparr>mainMemory := (\<lambda>a. if int (a div 256) \<in> set (page_frames pt) then 0 else mainMemory m a)\<rparr>"
proof -
  let ?P = "\<lambda>k (pt, c, m'). length pt = k \<and> fresh_table pt \<and> set (page_frames pt) \<inter> Bitmap_used b = {} \<and> Bitmap_inv c
    \<and> numBits c = numBits b \<and> Bitmap_used c = Bitmap_used b \<union> set (page_frames pt)
    \<and> m' = m\<lparr>mainMemory := (\<lambda>a. if int (a div 256) \<in> set (page_frames pt) then 0 else mainMemory m a)\<rparr>"
  let ?f = "\<lambda>i (pt, b, m).
       bindE (Bitmap_FindAndSet b) (\<lambda>(frame, b).
       bindE (host_write (frame * PageSize) (replicate (nat PageSize) 0) m) (\<lambda>m.
       Inr (pt @ [\<lparr>virtualPage = i, physicalPage = frame, valid = True, readOnly = False, te_use = False, te_dirty = False\<rparr>], b, m)))"
  have step: "\<exists>s'. ?f ([0..int n - 1] ! k) s = Inr s' \<and> ?P (Suc k) s'" if k: "k < length [0..int n - 1]" and P: "?P k s" for k s
  proof -
    obtain pt c m1 where s: "s = (pt, c, m1)" by (cases s) auto
    have pt: "length pt = k" "fresh_table pt" "set (page_frames pt) \<inter> Bitmap_used b = {}" "Bitmap_inv c" "numBits c = numBits b"
      "Bitmap_used c = Bitmap_used b \<union> set (page_frames pt)"
      "m1 = m\<lparr>mainMemory := (\<lambda>a. if int (a div 256) \<in> set (page_frames pt) then 0 else mainMemory m a)\<rparr>"
      using P s by auto
    have "card (set (page_frames pt)) = k" using pt(1,2) distinct_card [of "page_frames pt"] by (simp add: fresh_table_def)
    moreover have "k < card ({0..<128} - Bitmap_used b)" using k n by simp
    ultimately have "\<not> {0..<128} - Bitmap_used b \<subseteq> set (page_frames pt)"
      using card_mono [of "set (page_frames pt)" "{0..<128} - Bitmap_used b"] by force
    then have "{0..<128} - Bitmap_used c \<noteq> {}" using pt(6) by auto
    then obtain f c' where f: "Bitmap_FindAndSet c = Inr (f, c')" "Bitmap_inv c'" "numBits c' = numBits c"
      "Bitmap_used c' = insert f (Bitmap_used c)" "f \<in> {0..<128} - Bitmap_used c"
      using find_low_frame [OF pt(4)] pt(5) b(2) by auto
    let ?e = "\<lparr>virtualPage = int k, physicalPage = f, valid = True, readOnly = False, te_use = False, te_dirty = False\<rparr>"
    let ?m2 = "m\<lparr>mainMemory := (\<lambda>a. if int (a div 256) \<in> set (page_frames (pt @ [?e])) then 0 else mainMemory m a)\<rparr>"
    have nf: "nat (f * 256) = nat f * 256" "a div 256 = nat f \<longleftrightarrow> int (a div 256) = f" for a
      using f(5) by (auto simp add: nat_mult_distrib)
    have "host_write (f * PageSize) (replicate (nat PageSize) 0) m1 = Inr ?m2"
      using f(5) unfolding host_write_def PageSize_def MemorySize_def NumPhysPages_def
      by (auto simp add: nf mem_copy_page pt(7) fun_eq_iff)
    moreover have "fresh_table (pt @ [?e])" using pt(1,2,6) f(5) by (auto simp add: fresh_table_def nth_append less_Suc_eq)
    ultimately show ?thesis using pt f k s by auto
  qed
  have "?P 0 ([], b, m)" using b(1) by (simp add: fresh_table_def)
  then have "\<exists>s'. foldE ?f [0..int n - 1] ([], b, m) = Inr s' \<and> ?P (length [0..int n - 1]) s'"
    by (rule foldE_invariant [where P = ?P]) (rule step)
  then show ?thesis by (auto simp add: AddrSpace_alloc_def)
qed

section \<open>The image of a program\<close>

text \<open>The byte at a virtual address, through the page table.\<close>

definition vmem :: "TranslationEntry list \<Rightarrow> (nat \<Rightarrow> 8 word) \<Rightarrow> nat \<Rightarrow> 8 word" where
  "vmem pt mem va = mem (nat (physicalPage (pt ! (va div 256))) * 256 + va mod 256)"

text \<open>
  \<open>holds_image pt memi img mem\<close>: the program sees the bytes \<open>img\<close> at the virtual addresses from 0 on and zeros after
  them, and memory outside the frames of the page table is as in \<open>memi\<close>.
\<close>

definition holds_image :: "TranslationEntry list \<Rightarrow> (nat \<Rightarrow> 8 word) \<Rightarrow> 8 word list \<Rightarrow> (nat \<Rightarrow> 8 word) \<Rightarrow> bool" where
  "holds_image pt memi img mem \<longleftrightarrow>
     (\<forall>va < 256 * length pt. vmem pt mem va = (if va < length img then img ! va else 0))
     \<and> (\<forall>a. int (a div 256) \<notin> set (page_frames pt) \<longrightarrow> mem a = memi a)"

lemma frame_bounds:
  assumes "fresh_table pt" "i < length pt"
  shows "0 \<le> physicalPage (pt ! i)" "physicalPage (pt ! i) < 128" "physicalPage (pt ! i) \<in> set (page_frames pt)"
  using assms by (auto simp add: fresh_table_def subset_iff)

lemma frame_eq_iff:
  assumes "fresh_table pt" "i < length pt" "j < length pt"
  shows "nat (physicalPage (pt ! i)) = nat (physicalPage (pt ! j)) \<longleftrightarrow> i = j"
proof -
  have "distinct (page_frames pt)" using assms(1) by (simp add: fresh_table_def)
  then have "physicalPage (pt ! i) = physicalPage (pt ! j) \<longleftrightarrow> i = j"
    using assms(2,3) nth_eq_iff_index_eq [of "page_frames pt" i j] by simp
  then show ?thesis using frame_bounds [OF assms(1,2)] frame_bounds [OF assms(1,3)] by (simp add: eq_nat_nat_iff)
qed

lemma page_split: "256 * f \<le> (x :: nat) \<and> x < 256 * f + 256 \<longleftrightarrow> x div 256 = f"
  by auto

text \<open>Appending a chunk that stays inside one page.\<close>

lemma write_chunk:
  assumes t: "fresh_table pt" and h: "holds_image pt memi img (mainMemory m)"
    and i: "i < length pt" and p: "length img = 256 * i + off" and room: "off + length bs \<le> 256"
  shows "\<exists>m'. host_write (physicalPage (pt ! i) * PageSize + int off) bs m = Inr (m\<lparr>mainMemory := m'\<rparr>)
    \<and> holds_image pt memi (img @ bs) m'"
proof -
  define f where "f = nat (physicalPage (pt ! i))"
  have f: "physicalPage (pt ! i) = int f" "f < 128" using frame_bounds [OF t i] by (simp_all add: f_def)
  let ?addr = "f * 256 + off"
  define m' where "m' = mem_copy (mainMemory m) ?addr bs"
  have "physicalPage (pt ! i) * PageSize + int off = int ?addr" by (simp add: f PageSize_def)
  moreover have "int ?addr + int (length bs) \<le> MemorySize"
    using f(2) room by (simp add: MemorySize_def NumPhysPages_def PageSize_def)
  ultimately have w: "host_write (physicalPage (pt ! i) * PageSize + int off) bs m = Inr (m\<lparr>mainMemory := m'\<rparr>)"
    by (simp only: host_write_def m'_def nat_int) simp
  have "vmem pt m' va = (if va < length (img @ bs) then (img @ bs) ! va else 0)" if va: "va < 256 * length pt" for va
  proof -
    define j where "j = va div 256"
    define o' where "o' = va mod 256"
    have va_eq: "va = 256 * j + o'" "o' < 256" "j < length pt" using va by (auto simp add: j_def o'_def)
    have v: "vmem pt x va = x (nat (physicalPage (pt ! j)) * 256 + o')" for x by (simp add: vmem_def j_def o'_def)
    have old: "vmem pt (mainMemory m) va = (if va < length img then img ! va else 0)" using h va by (simp add: holds_image_def)
    show ?thesis
    proof (cases "j = i")
      case True
      then have "nat (physicalPage (pt ! j)) = f" by (simp add: f_def)
      then show ?thesis using old va_eq True p unfolding v m'_def mem_copy_def
        by (auto simp add: nth_append)
    next
      case False
      then have ne: "nat (physicalPage (pt ! j)) \<noteq> f" using frame_eq_iff [OF t va_eq(3) i] by (simp add: f_def)
      have "\<not> (?addr \<le> nat (physicalPage (pt ! j)) * 256 + o' \<and> nat (physicalPage (pt ! j)) * 256 + o' < ?addr + length bs)"
      proof
        assume "?addr \<le> nat (physicalPage (pt ! j)) * 256 + o' \<and> nat (physicalPage (pt ! j)) * 256 + o' < ?addr + length bs"
        then have "256 * f \<le> 256 * nat (physicalPage (pt ! j)) + o' \<and> 256 * nat (physicalPage (pt ! j)) + o' < 256 * f + 256"
          using room by linarith
        then have "(256 * nat (physicalPage (pt ! j)) + o') div 256 = f" unfolding page_split .
        with va_eq(2) ne show False by simp
      qed
      then have "vmem pt m' va = vmem pt (mainMemory m) va" unfolding v m'_def mem_copy_def by auto
      moreover have "va < length img \<longleftrightarrow> j < i" "va < length (img @ bs) \<longleftrightarrow> j < i"
        using False va_eq p room by (auto simp add: not_less) 
      ultimately show ?thesis using old by (simp add: nth_append)
    qed
  qed
  moreover have "m' a = memi a" if "int (a div 256) \<notin> set (page_frames pt)" for a
  proof -
    have "a div 256 \<noteq> f" using that frame_bounds(3) [OF t i] f(1) by auto
    then have "\<not> (256 * f \<le> a \<and> a < 256 * f + 256)" unfolding page_split .
    then have "\<not> (?addr \<le> a \<and> a < ?addr + length bs)" using room by linarith
    then show ?thesis using h that by (auto simp add: m'_def mem_copy_def holds_image_def)
  qed
  ultimately show ?thesis using w by (auto simp add: holds_image_def)
qed

text \<open>\<open>ReadAt\<close> of a chunk that the file has.\<close>

lemma read_chunk:
  assumes "fresh_table pt" "holds_image pt memi img (mainMemory m)" "i < length pt"
    and "length img = 256 * i + off" "off + n \<le> 256" "pos + n \<le> length fb"
  shows "\<exists>m'. ReadAt_into fb (physicalPage (pt ! i) * PageSize + int off) (int n) (int pos) m = Inr (m\<lparr>mainMemory := m'\<rparr>)
    \<and> holds_image pt memi (img @ take n (drop pos fb)) m'"
  using write_chunk [OF assms(1-4), of "take n (drop pos fb)"] assms(5,6)
  by (simp add: ReadAt_into_def)

text \<open>The number of pages of \<open>s\<close> bytes, and the number of bytes on page \<open>j\<close> of them.\<close>

definition pages :: "nat \<Rightarrow> nat" where
  "pages s = (s + 255) div 256"

lemma divRoundUp_pages: "divRoundUp (int s) PageSize = int (pages s)"
  by (simp add: divRoundUp_nonneg PageSize_def pages_def zdiv_int)

lemma pages_cases:
  assumes "0 < s"
  shows "pages s = (s - 1) div 256 + 1" "s = 256 * ((s - 1) div 256) + ((s - 1) mod 256 + 1)"
    "(int s - 1) smod PageSize + 1 = int ((s - 1) mod 256 + 1)"
proof -
  define k where "k = s - 1"
  have k: "s = Suc k" using assms by (simp add: k_def)
  show "pages s = (s - 1) div 256 + 1" by (simp add: k pages_def)
  show "s = 256 * ((s - 1) div 256) + ((s - 1) mod 256 + 1)" by (simp add: k)
  show "(int s - 1) smod PageSize + 1 = int ((s - 1) mod 256 + 1)" by (simp add: k PageSize_def zmod_int)
qed

lemma chunk_size:
  assumes "0 < s" "j < pages s"
  shows "(if int j < int (pages s) - 1 then PageSize else (int s - 1) smod PageSize + 1) = int (min 256 (s - 256 * j))"
proof -
  define q where "q = (s - 1) div 256"
  define r where "r = (s - 1) mod 256 + 1"
  have s: "s = 256 * q + r" "pages s = q + 1" "(int s - 1) smod PageSize + 1 = int r" and r: "1 \<le> r" "r \<le> 256"
    using pages_cases [OF assms(1)] unfolding q_def r_def by (simp_all add: Suc_le_eq)
  show ?thesis
  proof (cases "j < q")
    case True
    then have "256 * j + 256 \<le> 256 * q" by simp
    then show ?thesis using True s r by (simp add: PageSize_def)
  next
    case False
    then have "j = q" using assms(2) s(2) by simp
    then show ?thesis using s r by simp
  qed
qed

lemma page_starts: "j < pages s \<Longrightarrow> 256 * j < s"
  using less_eq_div_iff_mult_less_eq [of 256 "Suc j" "s + 255"] by (simp add: pages_def Suc_le_eq)

lemma copy_pages_ok:
  assumes t: "fresh_table pt" and h: "holds_image pt memi img (mainMemory m)"
    and p: "length img = 256 * i" and fit: "i + pages s \<le> length pt" and s: "0 < s" and fl: "pos + s \<le> length fb"
  shows "\<exists>m'. AddrSpace_copy_pages fb 0 pt (int i) (int (pages s)) ((int s - 1) smod PageSize + 1) (int pos) m = Inr (m\<lparr>mainMemory := m'\<rparr>)
    \<and> holds_image pt memi (img @ take s (drop pos fb)) m'"
proof -
  let ?P = "\<lambda>j n. \<exists>m'. n = m\<lparr>mainMemory := m'\<rparr> \<and> holds_image pt memi (img @ take (256 * j) (take s (drop pos fb))) m'"
  let ?f = "\<lambda>j n. bindE (readA pt (int i + j)) (\<lambda>e.
         ReadAt_into fb (0 + physicalPage e * PageSize) (if j < int (pages s) - 1 then PageSize else (int s - 1) smod PageSize + 1)
           (int pos + j * PageSize) n)"
  have step: "\<exists>n'. ?f ([0..int (pages s) - 1] ! k) n = Inr n' \<and> ?P (Suc k) n'" if k: "k < length [0..int (pages s) - 1]" and P: "?P k n" for k n
  proof -
    obtain m1 where n: "n = m\<lparr>mainMemory := m1\<rparr>" and h1: "holds_image pt memi (img @ take (256 * k) (take s (drop pos fb))) m1"
      using P by blast
    have kp: "k < pages s" using k by simp
    then have "256 * k < s" by (rule page_starts)
    let ?n = "min 256 (s - 256 * k)"
    have len: "length (img @ take (256 * k) (take s (drop pos fb))) = 256 * (i + k) + 0"
      using p fl \<open>256 * k < s\<close> by simp
    have app: "(img @ take (256 * k) (take s (drop pos fb))) @ take ?n (drop (pos + 256 * k) fb)
        = img @ take (256 * Suc k) (take s (drop pos fb))"
    proof -
      have "take (256 * Suc k) (take s (drop pos fb)) = take (256 * k) (take s (drop pos fb)) @ take 256 (drop (256 * k) (take s (drop pos fb)))"
        using take_add [of "256 * k" 256 "take s (drop pos fb)"] by (simp add: add.commute)
      also have "take 256 (drop (256 * k) (take s (drop pos fb))) = take ?n (drop (pos + 256 * k) fb)"
        by (simp add: drop_take add.commute)
      finally show ?thesis by simp
    qed
    have "pos + 256 * k + ?n \<le> length fb" using fl \<open>256 * k < s\<close> by linarith
    then obtain m2 where m2: "ReadAt_into fb (physicalPage (pt ! (i + k)) * PageSize + int 0) (int ?n) (int (pos + 256 * k)) n = Inr (n\<lparr>mainMemory := m2\<rparr>)"
      "holds_image pt memi (img @ take (256 * Suc k) (take s (drop pos fb))) m2"
      using read_chunk [OF t _ _ len, where m = n and n = ?n and pos = "pos + 256 * k" and fb = fb and memi = memi] h1 n kp fit app by auto
    have idx: "[0..int (pages s) - 1] ! k = int k" using k by simp
    have "readA pt (int i + int k) = Inr (pt ! (i + k))" using kp fit by (simp add: nat_add_distrib)
    moreover have pos: "int pos + int k * PageSize = int (pos + 256 * k)" by (simp add: PageSize_def)
    ultimately show ?thesis using m2 n unfolding idx chunk_size [OF s kp] pos by auto
  qed
  have "?P 0 m" using h by (auto intro!: exI [of _ "mainMemory m"])
  then have "\<exists>n'. foldE ?f [0..int (pages s) - 1] m = Inr n' \<and> ?P (length [0..int (pages s) - 1]) n'"
    by (rule foldE_invariant [where P = ?P]) (rule step)
  moreover have "s \<le> 256 * pages s" unfolding pages_def by linarith
  ultimately show ?thesis by (auto simp add: AddrSpace_copy_pages_def)
qed

lemma pages_add: "pages (256 * a + x) = a + pages x"
proof -
  have "256 * a + x + 255 = x + 255 + a * 256" by simp
  then show ?thesis unfolding pages_def by (metis add.commute div_mult_self1 zero_neq_numeral)
qed

lemma pages_small: "0 < x \<Longrightarrow> x \<le> 256 \<Longrightarrow> pages x = 1"
  by (simp add: pages_cases(1))

lemma pages_le: "x \<le> 256 * n \<Longrightarrow> pages x \<le> n"
  unfolding pages_def by (simp add: div_le_mono)

lemma fresh_table_length: "fresh_table pt \<Longrightarrow> length pt \<le> 128"
proof -
  assume t: "fresh_table pt"
  then have "length pt = card (set (page_frames pt))" using distinct_card [of "page_frames pt"] by (simp add: fresh_table_def)
  also have "\<dots> \<le> card {0..<128 :: int}" by (rule card_mono) (use t in \<open>auto simp add: fresh_table_def\<close>)
  finally show ?thesis by simp
qed

lemma copy_segment_ok:
  assumes t: "fresh_table pt" and h: "holds_image pt memi img (mainMemory m)"
    and p: "0 < length img" and fit: "length img + s \<le> 256 * length pt" and s: "0 < s" and fl: "pos + s \<le> length fb"
    and seg: "sint (seg_size seg) = int s" "sint (inFileAddr seg) = int pos"
    and off: "offset = (int (length img) - 1) smod PageSize + 1"
  shows "\<exists>m'. AddrSpace_copy_segment fb 0 pt seg offset (offset \<noteq> PageSize \<and> 0 < int (pages (length img))) (int (pages (length img))) m
      = Inr (int (pages (length img + s)), m\<lparr>mainMemory := m'\<rparr>)
    \<and> holds_image pt memi (img @ take s (drop pos fb)) m'"
proof -
  define q where "q = (length img - 1) div 256"
  define r where "r = (length img - 1) mod 256 + 1"
  have img: "length img = 256 * q + r" "pages (length img) = q + 1" and offr: "offset = int r" and r: "1 \<le> r" "r \<le> 256"
    using pages_cases [OF p] off unfolding q_def r_def by (simp_all add: Suc_le_eq)
  define n where "n = min (256 - r) s"
  have first: "(if PageSize - offset < int s then PageSize - offset else int s) = int n"
    using r by (auto simp add: n_def PageSize_def offr)
  have "256 * q < 256 * length pt" using fit img r by linarith
  then have q: "q < length pt" by simp
  obtain m1 where m1: "(if offset \<noteq> PageSize \<and> 0 < int (pages (length img)) then bindE (readA pt (int (pages (length img)) - 1)) (\<lambda>e.
         ReadAt_into fb (0 + physicalPage e * PageSize + offset) (int n) (int pos) m) else Inr m) = Inr (m\<lparr>mainMemory := m1\<rparr>)"
    and h1: "holds_image pt memi (img @ take n (drop pos fb)) m1"
  proof (cases "r = 256")
    case True
    then have "n = 0" "\<not> offset \<noteq> PageSize" by (simp_all add: n_def offr PageSize_def)
    then show ?thesis using that [of "mainMemory m"] h by simp
  next
    case False
    have "r + n \<le> 256" "pos + n \<le> length fb" using r fl by (auto simp add: n_def)
    from read_chunk [OF t h q img(1) this] that show ?thesis using False r img(2) q by (auto simp add: offr PageSize_def)
  qed
  have len: "length (img @ take n (drop pos fb)) = 256 * q + (r + n)" using fl img by (simp add: n_def)
  have num: "divRoundUp (int s - int n) PageSize = int (pages (s - n))"
    using divRoundUp_pages [of "s - n"] by (simp add: n_def of_nat_diff)
  have tot: "pages (length img + s) = pages (length img) + pages (s - n)"
  proof (cases "s \<le> 256 - r")
    case True
    then have "pages (256 * q + (r + s)) = q + 1" using r by (simp only: pages_add, subst pages_small) auto
    moreover have "s - n = 0" using True by (simp add: n_def)
    ultimately show ?thesis using img by (simp add: add.assoc pages_def)
  next
    case False
    then have "length img + s = 256 * (q + 1) + (s - n)" using img r by (simp add: n_def)
    then show ?thesis unfolding img(2) by (simp only: pages_add)
  qed
  have "pages (s - n) \<le> length pt" using fit by (intro pages_le) simp
  then have small: "int (pages (s - n)) mod 2 ^ 32 = int (pages (s - n))" using fresh_table_length [OF t] by simp
  obtain m2 where m2: "AddrSpace_copy_pages fb 0 pt (int (pages (length img))) (int (pages (s - n)))
      ((int s - int n - 1) smod PageSize + 1) (int pos + int n) (m\<lparr>mainMemory := m1\<rparr>) = Inr (m\<lparr>mainMemory := m2\<rparr>)"
    and h2: "holds_image pt memi (img @ take s (drop pos fb)) m2"
  proof (cases "s = n")
    case True
    then show ?thesis using that [of m1] h1 by (simp add: AddrSpace_copy_pages_def pages_def)
  next
    case False
    then have n: "n = 256 - r" "n < s" by (auto simp add: n_def)
    then have len': "length (img @ take n (drop pos fb)) = 256 * pages (length img)" using len img(2) r by simp
    have fit': "pages (length img) + pages (s - n) \<le> length pt" using pages_le [OF fit] tot by simp
    have "img @ take s (drop pos fb) = (img @ take n (drop pos fb)) @ take (s - n) (drop (pos + n) fb)"
      using take_add [of n "s - n" "drop pos fb"] n by (simp add: add.commute)
    moreover have "pos + n + (s - n) \<le> length fb" "0 < s - n" "int (s - n) = int s - int n" using fl n by auto
    ultimately show ?thesis
      using that copy_pages_ok [OF t _ len' fit', where m = "m\<lparr>mainMemory := m1\<rparr>" and memi = memi and pos = "pos + n" and fb = fb] h1 by auto
  qed
  show ?thesis
    unfolding AddrSpace_copy_segment_def Let_def seg first num small m1
    by (auto simp add: m2 tot intro!: exI [of _ m2] h2)
qed

text \<open>
  A header whose segments are in the file and whose program fits the memory: the code is not empty and
  linked at address 0.
\<close>

definition seg_bytes :: "8 word list \<Rightarrow> Segment \<Rightarrow> 8 word list" where
  "seg_bytes fb seg = take (unat (seg_size seg)) (drop (unat (inFileAddr seg)) fb)"

definition seg_in_file :: "8 word list \<Rightarrow> Segment \<Rightarrow> bool" where
  "seg_in_file fb seg \<longleftrightarrow> unat (inFileAddr seg) < 2147483648 \<and> unat (seg_size seg) \<le> 32768 \<and> unat (inFileAddr seg) + unat (seg_size seg) \<le> length fb"

definition image_size :: "NoffHeader \<Rightarrow> nat" where
  "image_size h = unat (seg_size (noff_code h)) + unat (seg_size (noff_initData h)) + unat (seg_size (noff_readonlyData h))"

definition noff_image :: "8 word list \<Rightarrow> NoffHeader \<Rightarrow> 8 word list" where
  "noff_image fb h = seg_bytes fb (noff_code h) @ seg_bytes fb (noff_initData h) @ seg_bytes fb (noff_readonlyData h)"

definition wf_noff :: "8 word list \<Rightarrow> NoffHeader \<Rightarrow> bool" where
  "wf_noff fb h \<longleftrightarrow> noffMagic h = NOFFMAGIC \<and> virtualAddr (noff_code h) = 0 \<and> 0 < unat (seg_size (noff_code h))
     \<and> seg_in_file fb (noff_code h) \<and> seg_in_file fb (noff_initData h) \<and> seg_in_file fb (noff_readonlyData h)
     \<and> unat (seg_size (noff_uninitData h)) \<le> 32768
     \<and> image_size h + unat (seg_size (noff_uninitData h)) + 1024 \<le> 32768"

lemma sint_unat: "unat (w :: 32 word) < 2147483648 \<Longrightarrow> sint w = int (unat w)"
proof -
  assume "unat w < 2147483648"
  then have "int (unat w) < 2147483648" by linarith
  then show ?thesis by (simp only: of_nat_unat sint_small)
qed

lemma copy_image_ok:
  assumes t: "fresh_table pt" and h: "holds_image pt memi [] (mainMemory m)" and wf: "wf_noff fb hdr"
    and fit: "image_size hdr \<le> 256 * length pt"
  shows "\<exists>m'. AddrSpace_copy_image fb hdr pt m = Inr (m\<lparr>mainMemory := m'\<rparr>) \<and> holds_image pt memi (noff_image fb hdr) m'"
proof -
  define c d r where "c = unat (seg_size (noff_code hdr))" and "d = unat (seg_size (noff_initData hdr))"
    and "r = unat (seg_size (noff_readonlyData hdr))"
  let ?pc = "unat (inFileAddr (noff_code hdr))" and ?pd = "unat (inFileAddr (noff_initData hdr))"
    and ?pr = "unat (inFileAddr (noff_readonlyData hdr))"
  have sz: "sint (seg_size (noff_code hdr)) = int c" "sint (seg_size (noff_initData hdr)) = int d" "sint (seg_size (noff_readonlyData hdr)) = int r"
    "sint (inFileAddr (noff_code hdr)) = int ?pc" "sint (inFileAddr (noff_initData hdr)) = int ?pd" "sint (inFileAddr (noff_readonlyData hdr)) = int ?pr"
    "sint (virtualAddr (noff_code hdr)) = 0" and c: "0 < c"
    and fl: "?pc + c \<le> length fb" "?pd + d \<le> length fb" "?pr + r \<le> length fb" and sum: "c + d + r \<le> 256 * length pt"
    using wf fit by (simp_all add: wf_noff_def seg_in_file_def c_def d_def r_def sint_unat image_size_def)
  define C D R where "C = take c (drop ?pc fb)" and "D = take d (drop ?pd fb)" and "R = take r (drop ?pr fb)"
  have len: "length C = c" "length D = d" "length R = r" using fl by (simp_all add: C_def D_def R_def)
  have img: "noff_image fb hdr = C @ D @ R" by (simp add: noff_image_def seg_bytes_def C_def D_def R_def c_def d_def r_def)
  have pc: "pages c \<le> length pt" using sum by (intro pages_le) simp
  then have numc: "divRoundUp (int c) PageSize mod 2 ^ 32 = int (pages c)"
    using fresh_table_length [OF t] by (simp add: divRoundUp_pages)
  obtain m1 where m1: "AddrSpace_copy_pages fb 0 pt 0 (int (pages c)) ((int c - 1) smod PageSize + 1) (int ?pc) m = Inr (m\<lparr>mainMemory := m1\<rparr>)"
    "holds_image pt memi C m1"
    using copy_pages_ok [OF t h, of 0 c ?pc fb] pc c fl by (auto simp add: C_def)
  obtain m2 where m2: "(if 0 < int d then AddrSpace_copy_segment fb 0 pt (noff_initData hdr) ((int c - 1) smod PageSize + 1)
        ((int c - 1) smod PageSize + 1 \<noteq> PageSize \<and> 0 < int (pages c)) (int (pages c)) (m\<lparr>mainMemory := m1\<rparr>)
      else Inr (int (pages c), m\<lparr>mainMemory := m1\<rparr>)) = Inr (int (pages (c + d)), m\<lparr>mainMemory := m2\<rparr>)"
    "holds_image pt memi (C @ D) m2"
  proof (cases "d = 0")
    case True
    then show ?thesis using that [of m1] m1(2) by (simp add: D_def)
  next
    case False
    then show ?thesis
      using that copy_segment_ok [OF t, of memi C "m\<lparr>mainMemory := m1\<rparr>" d ?pd fb "noff_initData hdr" "(int c - 1) smod PageSize + 1"]
        m1(2) len c sum fl sz by (auto simp add: D_def)
  qed
  obtain m3 where m3: "(if 0 < int r then AddrSpace_copy_segment fb 0 pt (noff_readonlyData hdr) ((int c + int d - 1) smod PageSize + 1)
        ((int c + int d - 1) smod PageSize + 1 \<noteq> PageSize \<and> 0 < int (pages (c + d))) (int (pages (c + d))) (m\<lparr>mainMemory := m2\<rparr>)
      else Inr (int (pages (c + d)), m\<lparr>mainMemory := m2\<rparr>)) = Inr (int (pages (c + d + r)), m\<lparr>mainMemory := m3\<rparr>)"
    "holds_image pt memi ((C @ D) @ R) m3"
  proof (cases "r = 0")
    case True
    then show ?thesis using that [of m2] m2(2) by (simp add: R_def)
  next
    case False
    then show ?thesis
      using that copy_segment_ok [OF t, of memi "C @ D" "m\<lparr>mainMemory := m2\<rparr>" r ?pr fb "noff_readonlyData hdr" "(int c + int d - 1) smod PageSize + 1"]
        m2(2) len c sum fl sz by (auto simp add: R_def)
  qed
  have m1': "(if 0 < int c then bindE (AddrSpace_copy_pages fb 0 pt 0 (int (pages c)) ((int c - 1) smod PageSize + 1) (int ?pc) m)
        (\<lambda>m. Inr (int (pages c), m)) else Inr (0, m)) = Inr (int (pages c), m\<lparr>mainMemory := m1\<rparr>)"
    using c m1(1) by simp
  have "AddrSpace_copy_image fb hdr pt m = Inr (m\<lparr>mainMemory := m3\<rparr>)"
    unfolding AddrSpace_copy_image_def Let_def sz numc m1' bindE_Inr prod.case m2(1) m3(1) by simp
  then show ?thesis using m3(2) img by auto
qed

section \<open>Loading\<close>

definition program_pages :: "NoffHeader \<Rightarrow> nat" where
  "program_pages h = pages (image_size h + unat (seg_size (noff_uninitData h)) + 1024)"

lemma uint_add_small: "uint a + uint b < 2147483648 \<Longrightarrow> uint (a + b :: 32 word) = uint a + uint b"
  using uint32_bound [of a] uint32_bound [of b] by (simp add: uint_word_ariths)

lemma program_size:
  assumes "wf_noff fb h"
  shows "uint (seg_size (noff_code h) + seg_size (noff_readonlyData h) + seg_size (noff_initData h)
      + seg_size (noff_uninitData h) + word_of_int UserStackSize)
    = int (image_size h + unat (seg_size (noff_uninitData h)) + 1024)"
proof -
  have le: "uint (seg_size (noff_code h)) + uint (seg_size (noff_initData h)) + uint (seg_size (noff_readonlyData h))
      + uint (seg_size (noff_uninitData h)) + 1024 \<le> 32768"
    using assms by (simp add: wf_noff_def image_size_def of_nat_le_iff [where 'a = int, symmetric] del: of_nat_le_iff)
  have *: "uint a + uint b + uint c + uint d + 1024 \<le> 32768 \<Longrightarrow> uint (a + c + b + d + word_of_int UserStackSize) = uint a + uint b + uint c + uint d + 1024"
    for a b c d :: "32 word"
  proof -
    assume le: "uint a + uint b + uint c + uint d + 1024 \<le> 32768"
    note ge = uint32_bound(2) [of a] uint32_bound(2) [of b] uint32_bound(2) [of c] uint32_bound(2) [of d]
    have 1: "uint (a + c) = uint a + uint c" by (rule uint_add_small) (use le ge in linarith)
    have 2: "uint (a + c + b) = uint a + uint c + uint b" unfolding 1 [symmetric] by (rule uint_add_small) (use 1 le ge in linarith)
    have 3: "uint (a + c + b + d) = uint a + uint c + uint b + uint d" unfolding 2 [symmetric] by (rule uint_add_small) (use 2 le ge in linarith)
    have "uint (a + c + b + d + 1024) = uint (a + c + b + d) + uint (1024 :: 32 word)" by (rule uint_add_small) (use 3 le ge in simp)
    then show ?thesis by (simp add: 3 UserStackSize_def)
  qed
  show ?thesis by (subst *) (use le in \<open>simp_all add: image_size_def\<close>)
qed

lemma program_pages_le:
  assumes "wf_noff fb h"
  shows "program_pages h \<le> 128" "image_size h \<le> 256 * program_pages h"
proof -
  let ?s = "image_size h + unat (seg_size (noff_uninitData h)) + 1024"
  show "program_pages h \<le> 128" unfolding program_pages_def using assms by (intro pages_le) (simp add: wf_noff_def)
  have "?s \<le> 256 * pages ?s" unfolding pages_def by linarith
  then show "image_size h \<le> 256 * program_pages h" unfolding program_pages_def by linarith
qed

lemma Load_start:
  assumes "wf_noff fb (load_header junk fb)" "Bitmap_inv b"
  shows "AddrSpace_Load junk (Some fb) sp (b, m) =
    (if numBits b - int (card (Bitmap_used b)) < int (program_pages (load_header junk fb))
     then Inr (False, sp\<lparr>as_numPages := 0\<rparr>, b, m)
     else bindE (AddrSpace_alloc (int (program_pages (load_header junk fb))) (b, m)) (\<lambda>(pt, b, m).
          bindE (AddrSpace_copy_image fb (load_header junk fb) pt m) (\<lambda>m.
          Inr (True, \<lparr>as_pageTable = Some pt, as_numPages = int (program_pages (load_header junk fb))\<rparr>, b, m))))"
proof -
  have "noffMagic (load_header junk fb) = NOFFMAGIC" using assms(1) by (simp add: wf_noff_def)
  then show ?thesis
    unfolding AddrSpace_Load_def Let_def option.case program_size [OF assms(1)] divRoundUp_pages program_pages_def [symmetric] fst_conv
      bm.numclear_eq [OF assms(2)]
    using program_pages_le(1) [OF assms(1)] by (simp add: NumPhysPages_def)
qed

lemma holds_cleared:
  assumes "fresh_table pt"
  shows "holds_image pt memi [] (\<lambda>a. if int (a div 256) \<in> set (page_frames pt) then 0 else memi a)"
proof -
  have "vmem pt (\<lambda>a. if int (a div 256) \<in> set (page_frames pt) then 0 else memi a) va = 0" if "va < 256 * length pt" for va
  proof -
    have "va div 256 < length pt" using that by (simp add: less_mult_imp_div_less mult.commute)
    from frame_bounds [OF assms this] show ?thesis by (simp add: vmem_def)
  qed
  then show ?thesis by (simp add: holds_image_def)
qed

lemma free_frames_le:
  assumes "Bitmap_inv b" "128 \<le> numBits b"
  shows "int (card ({0..<128} - Bitmap_used b)) \<le> numBits b - int (card (Bitmap_used b))"
proof -
  have "card ({0..<128} - Bitmap_used b) \<le> card ({0..<numBits b} - Bitmap_used b)" using assms(2) by (intro card_mono) auto
  also have "\<dots> = card {0..<numBits b} - card (Bitmap_used b)"
    using bm.used_range [OF assms(1)] by (intro card_Diff_subset bm.finite_used [OF assms(1)])
  finally have "card ({0..<128} - Bitmap_used b) \<le> nat (numBits b) - card (Bitmap_used b)" by simp
  then show ?thesis using bm.card_used_le [OF assms(1)] assms(2) by linarith
qed

lemma Load_ok:
  assumes b: "Bitmap_inv b" "128 \<le> numBits b" and wf: "wf_noff fb (load_header junk fb)"
    and free: "program_pages (load_header junk fb) \<le> card ({0..<128} - Bitmap_used b)"
  shows "\<exists>pt b' mem. AddrSpace_Load junk (Some fb) sp (b, m)
      = Inr (True, \<lparr>as_pageTable = Some pt, as_numPages = int (length pt)\<rparr>, b', m\<lparr>mainMemory := mem\<rparr>)
    \<and> length pt = program_pages (load_header junk fb) \<and> fresh_table pt
    \<and> set (page_frames pt) \<inter> Bitmap_used b = {} \<and> Bitmap_inv b' \<and> numBits b' = numBits b
    \<and> Bitmap_used b' = Bitmap_used b \<union> set (page_frames pt)
    \<and> holds_image pt (mainMemory m) (noff_image fb (load_header junk fb)) mem"
proof -
  define h where "h = load_header junk fb"
  have load: "AddrSpace_Load junk (Some fb) sp (b, m) =
      (if numBits b - int (card (Bitmap_used b)) < int (program_pages h) then Inr (False, sp\<lparr>as_numPages := 0\<rparr>, b, m)
       else bindE (AddrSpace_alloc (int (program_pages h)) (b, m)) (\<lambda>(pt, b, m).
          bindE (AddrSpace_copy_image fb h pt m) (\<lambda>m.
          Inr (True, \<lparr>as_pageTable = Some pt, as_numPages = int (program_pages h)\<rparr>, b, m))))"
    unfolding h_def by (rule Load_start [OF wf b(1)])
  have wf: "wf_noff fb h" and free: "program_pages h \<le> card ({0..<128} - Bitmap_used b)"
    using wf free by (simp_all add: h_def)
  obtain pt b' m' where a: "AddrSpace_alloc (int (program_pages h)) (b, m) = Inr (pt, b', m')" "length pt = program_pages h" "fresh_table pt"
      "set (page_frames pt) \<inter> Bitmap_used b = {}" "Bitmap_inv b'" "numBits b' = numBits b" "Bitmap_used b' = Bitmap_used b \<union> set (page_frames pt)"
      "m' = m\<lparr>mainMemory := (\<lambda>a. if int (a div 256) \<in> set (page_frames pt) then 0 else mainMemory m a)\<rparr>"
    using alloc_ok [OF b free] by blast
  have "holds_image pt (mainMemory m) [] (mainMemory m')" using holds_cleared [OF a(3)] by (simp add: a(8))
  from copy_image_ok [OF a(3) this wf] program_pages_le(2) [OF wf] obtain mem where
    mem: "AddrSpace_copy_image fb h pt m' = Inr (m'\<lparr>mainMemory := mem\<rparr>)" "holds_image pt (mainMemory m) (noff_image fb h) mem"
    using a(2) by auto
  have "\<not> numBits b - int (card (Bitmap_used b)) < int (program_pages h)" using free_frames_le [OF b] free by linarith
  then have "AddrSpace_Load junk (Some fb) sp (b, m)
      = Inr (True, \<lparr>as_pageTable = Some pt, as_numPages = int (length pt)\<rparr>, b', m\<lparr>mainMemory := mem\<rparr>)"
    unfolding load by (simp add: a(1,2) mem(1)) (simp add: a(8))
  then show ?thesis using a mem(2) unfolding h_def [symmetric] by blast
qed

lemma clear_frames:
  assumes "Bitmap_inv b" "set (page_frames pt) \<subseteq> {0..<numBits b}"
  shows "\<exists>b'. foldE (\<lambda>e b. Bitmap_Clear b (physicalPage e)) pt b = Inr b' \<and> Bitmap_inv b' \<and> numBits b' = numBits b
      \<and> Bitmap_used b' = Bitmap_used b - set (page_frames pt)"
  using bm.clear_list [OF assms] by (simp add: foldE_map)

lemma delete_ok:
  assumes "Bitmap_inv b" "set (page_frames pt) \<subseteq> {0..<numBits b}"
  shows "\<exists>b'. AddrSpace_delete \<lparr>as_pageTable = Some pt, as_numPages = int (length pt)\<rparr> b = Inr b'
    \<and> Bitmap_inv b' \<and> numBits b' = numBits b \<and> Bitmap_used b' = Bitmap_used b - set (page_frames pt)"
  using clear_frames [OF assms] by (auto simp add: AddrSpace_delete_def foldE_array)

lemma delete_unloaded: "AddrSpace_delete \<lparr>as_pageTable = None, as_numPages = 0\<rparr> b = Inl Null_deref"
  by (simp add: AddrSpace_delete_def)

text \<open>A map of more bits than the machine has frames hands out frames that do not exist.\<close>

lemma alloc_overrun:
  assumes b: "Bitmap_inv b" "128 \<le> numBits b" and n: "card ({0..<128} - Bitmap_used b) < n"
    and tot: "int n \<le> numBits b - int (card (Bitmap_used b))"
  shows "AddrSpace_alloc (int n) (b, m) = Inl Out_of_bounds"
proof -
  define k where "k = card ({0..<128} - Bitmap_used b)"
  have kn: "k < n" using n by (simp add: k_def)
  obtain pt c m' where a: "AddrSpace_alloc (int k) (b, m) = Inr (pt, c, m')" "length pt = k" "fresh_table pt"
      "set (page_frames pt) \<inter> Bitmap_used b = {}" "Bitmap_inv c" "numBits c = numBits b" "Bitmap_used c = Bitmap_used b \<union> set (page_frames pt)"
    using alloc_ok [OF b, of k m] by (auto simp add: k_def)
  have card: "card (set (page_frames pt)) = k" using a(2,3) distinct_card [of "page_frames pt"] by (simp add: fresh_table_def)
  have "set (page_frames pt) \<subseteq> {0..<128} - Bitmap_used b" using a(3,4) by (auto simp add: fresh_table_def)
  then have "set (page_frames pt) = {0..<128} - Bitmap_used b" by (intro card_subset_eq) (simp_all only: card k_def finite_Diff finite_atLeastLessThan_int)
  then have low: "{0..<128} \<subseteq> Bitmap_used c" using a(7) by auto
  have "card (Bitmap_used c) = card (Bitmap_used b) + k"
    using a(4,7) card bm.finite_used [OF b(1)] by (simp add: card_Un_disjoint Int_commute)
  then have "int (card (Bitmap_used c)) < numBits c" using kn tot a(6) by linarith
  from bm.find_when_clear [OF a(5) this] obtain i c' where i: "Bitmap_FindAndSet c = Inr (i, c')" "0 \<le> i" "i \<notin> Bitmap_used c" by auto
  have "128 \<le> i"
  proof (rule ccontr)
    assume "\<not> 128 \<le> i"
    then have "i \<in> {0..<128}" using i(2) by simp
    then show False using low i(3) by blast
  qed
  then have w: "host_write (i * PageSize) (replicate (nat PageSize) 0) m' = Inl Out_of_bounds"
    by (simp add: host_write_def PageSize_def MemorySize_def NumPhysPages_def)
  have "[0..int n - 1] = [0..int k - 1] @ int k # [int k + 1..int n - 1]"
    using kn upto_split2 [of 0 "int k" "int n - 1"] upto_rec1 [of "int k" "int n - 1"] upto_rec2 [of 0 "int k"] by simp
  then show ?thesis using a(1) i(1) w by (simp add: AddrSpace_alloc_def foldE_append)
qed

section \<open>Running the program\<close>

lemma InitRegisters_eq:
  "AddrSpace_InitRegisters sp m = Inr (m\<lparr>registers := (\<lambda>r. if r = NextPCReg then 4
     else if r = StackReg then word_of_int (as_numPages sp * PageSize - 16) else if r < NumTotalRegs then 0 else registers m r)\<rparr>)"
proof -
  let ?P = "\<lambda>k m'. m' = m\<lparr>registers := (\<lambda>r. if r < k then 0 else registers m r)\<rparr>"
  let ?f = "\<lambda>i m. Machine_WriteRegister i 0 m"
  have step: "\<exists>m2. ?f ([0..int NumTotalRegs - 1] ! k) m1 = Inr m2 \<and> ?P (Suc k) m2"
    if "k < length [0..int NumTotalRegs - 1]" "?P k m1" for k m1
    using that by (auto simp add: Machine_WriteRegister_def fun_eq_iff)
  have "?P 0 m" by simp
  then have "\<exists>m'. foldE ?f [0..int NumTotalRegs - 1] m = Inr m' \<and> ?P (length [0..int NumTotalRegs - 1]) m'"
    by (rule foldE_invariant [where P = ?P]) (rule step)
  then show ?thesis
    by (auto simp add: AddrSpace_InitRegisters_def Machine_WriteRegister_def reg_numbers StackReg_def fun_eq_iff)
qed

lemma mmu_fresh:
  assumes t: "fresh_table pt" and va: "unat va < 256 * length pt"
  shows "mmu pt va 1 w = Inr (nat (physicalPage (pt ! (unat va div 256))) * 256 + unat va mod 256)"
proof -
  have i: "unat va div 256 < length pt" using va by (simp add: less_mult_imp_div_less mult.commute)
  from frame_bounds [OF t i] show ?thesis using t i by (simp add: mmu_def fresh_table_def Let_def)
qed

lemma mmu_beyond: "\<not> unat va < 256 * length pt \<Longrightarrow> mmu pt va 1 w = Inl AddressErrorException"
  by (simp add: mmu_def Let_def less_eq_div_iff_mult_less_eq mult.commute)

lemma AddrSpace_Translate_eq:
  assumes t: "fresh_table pt"
  shows "AddrSpace_Translate \<lparr>as_pageTable = Some pt, as_numPages = int (length pt)\<rparr> va w =
    (case mmu pt va 1 w of
       Inl e \<Rightarrow> Inr (Inl e, \<lparr>as_pageTable = Some pt, as_numPages = int (length pt)\<rparr>)
     | Inr a \<Rightarrow> Inr (Inr (of_nat a), \<lparr>as_pageTable = Some (touch_page w va pt), as_numPages = int (length pt)\<rparr>))"
proof (cases "unat va < 256 * length pt")
  case True
  define v p where "v = unat va div 256" and "p = unat va mod 256"
  define f where "f = nat (physicalPage (pt ! v))"
  have i: "v < length pt" using True by (simp add: v_def less_mult_imp_div_less mult.commute)
  have f: "physicalPage (pt ! v) = int f" "f < 128" "\<not> readOnly (pt ! v)"
    using frame_bounds [OF t i] t i by (simp_all add: f_def fresh_table_def)
  have vpn: "uint va div 256 = int v" "uint va mod 256 = int p" by (simp_all add: v_def p_def zdiv_int zmod_int)
  have p: "p < 256" by (simp add: p_def)
  have pa: "uint (word_of_int (int f * 256 + int p) :: 32 word) = int f * 256 + int p"
    using f(2) p by (simp add: uint_word_of_int_eq take_bit_eq_mod del: of_int_add of_int_mult)
  have "int f * 256 + int p < 32768" using f(2) p by linarith
  then show ?thesis using i f pa unfolding mmu_fresh [OF t True] touch_page_def v_def [symmetric] p_def [symmetric]
    by (simp add: AddrSpace_Translate_def PageSize_def NumPhysPages_def MemorySize_def touch_entry_def Let_def vpn)
next
  case False
  then have "256 * int (length pt) \<le> int (unat va)" by linarith
  then have "int (length pt) \<le> uint va div 256" unfolding of_nat_unat by linarith
  then show ?thesis using mmu_beyond [OF False] by (simp add: AddrSpace_Translate_def PageSize_def Let_def)
qed

section \<open>Properties\<close>

lemma Execute_runs:
  assumes "tlb m = None"
  shows "\<exists>m'. AddrSpace_Execute \<lparr>as_pageTable = Some pt, as_numPages = int (length pt)\<rparr> m = Inr m'
    \<and> Machine_paged m' pt \<and> mainMemory m' = mainMemory m \<and> registers m' PCReg = 0 \<and> registers m' NextPCReg = 4
    \<and> registers m' StackReg = word_of_int (int (length pt) * 256 - 16)
    \<and> (\<forall>r < NumGPRegs. r \<noteq> StackReg \<longrightarrow> registers m' r = 0) \<and> registers m' LoadReg = 0"
  using assms
  by (auto simp add: AddrSpace_Execute_def InitRegisters_eq AddrSpace_RestoreState_def Machine_paged_def reg_numbers StackReg_def NumGPRegs_def PageSize_def)

lemma ReadMem_byte:
  assumes "Machine_paged m pt" "fresh_table pt" "unat va < 256 * length pt"
  shows "Machine_ReadMem h va 1 m = Inr (Some (scast (vmem pt (mainMemory m) (unat va))), m\<lparr>pageTable := Some (touch_page False va pt)\<rparr>)"
  using ReadMem_paged [OF assms(1), of 1] mmu_fresh [OF assms(2,3)] by (simp add: mem_value_def vmem_def)

text \<open>
  C11.  Loading and starting a program.  For a file with a well-formed header and enough free frames
  of the machine, \<open>Load\<close> succeeds: it takes one frame for each page of code, data and stack, all
  distinct, inside the memory and unused before, and marks exactly these; memory outside them keeps
  its contents.  After \<open>Execute\<close> the machine starts at address 0 with the stack pointer 16 bytes below
  the end of the space, and a load at any address of the space gives the byte of the code, the
  initialised data and the read-only data of the file one after the other, and 0 after them.
\<close>

theorem Load_correct:
  assumes "Bitmap_inv b" "128 \<le> numBits b" "wf_noff fb (load_header junk fb)" "tlb m = None"
    and "program_pages (load_header junk fb) \<le> card ({0..<128} - Bitmap_used b)"
  shows "\<exists>pt sp' b' m' m2. AddrSpace_Load junk (Some fb) sp (b, m) = Inr (True, sp', b', m')
    \<and> length pt = program_pages (load_header junk fb) \<and> distinct (page_frames pt)
    \<and> set (page_frames pt) \<subseteq> {0..<128} - Bitmap_used b
    \<and> Bitmap_inv b' \<and> Bitmap_used b' = Bitmap_used b \<union> set (page_frames pt)
    \<and> (\<forall>a. int (a div 256) \<notin> set (page_frames pt) \<longrightarrow> mainMemory m' a = mainMemory m a)
    \<and> AddrSpace_Execute sp' m' = Inr m2 \<and> Machine_paged m2 pt
    \<and> registers m2 PCReg = 0 \<and> registers m2 NextPCReg = 4 \<and> registers m2 StackReg = word_of_int (int (length pt) * 256 - 16)
    \<and> (\<forall>h va. unat va < 256 * length pt \<longrightarrow> (\<exists>m3. Machine_ReadMem h va 1 m2 =
         Inr (Some (if unat va < length (noff_image fb (load_header junk fb)) then scast (noff_image fb (load_header junk fb) ! unat va) else 0), m3)))"
proof -
  obtain pt b' mem where l: "AddrSpace_Load junk (Some fb) sp (b, m)
      = Inr (True, \<lparr>as_pageTable = Some pt, as_numPages = int (length pt)\<rparr>, b', m\<lparr>mainMemory := mem\<rparr>)"
    "length pt = program_pages (load_header junk fb)" "fresh_table pt"
    "set (page_frames pt) \<inter> Bitmap_used b = {}" "Bitmap_inv b'" "Bitmap_used b' = Bitmap_used b \<union> set (page_frames pt)"
    "holds_image pt (mainMemory m) (noff_image fb (load_header junk fb)) mem"
    using Load_ok [OF assms(1-3,5), of sp m] by blast
  obtain m2 where m2: "AddrSpace_Execute \<lparr>as_pageTable = Some pt, as_numPages = int (length pt)\<rparr> (m\<lparr>mainMemory := mem\<rparr>) = Inr m2"
    "Machine_paged m2 pt" "mainMemory m2 = mem" "registers m2 PCReg = 0" "registers m2 NextPCReg = 4"
    "registers m2 StackReg = word_of_int (int (length pt) * 256 - 16)"
    using Execute_runs [of "m\<lparr>mainMemory := mem\<rparr>" pt] assms(4) by auto
  show ?thesis
  proof (intro exI conjI)
    show "distinct (page_frames pt)" "set (page_frames pt) \<subseteq> {0..<128} - Bitmap_used b"
      using l(3,4) by (auto simp add: fresh_table_def)
    show "\<forall>a. int (a div 256) \<notin> set (page_frames pt) \<longrightarrow> mainMemory (m\<lparr>mainMemory := mem\<rparr>) a = mainMemory m a"
      using l(7) by (simp add: holds_image_def)
    show "\<forall>h va. unat va < 256 * length pt \<longrightarrow> (\<exists>m3. Machine_ReadMem h va 1 m2 =
         Inr (Some (if unat va < length (noff_image fb (load_header junk fb)) then scast (noff_image fb (load_header junk fb) ! unat va) else 0), m3))"
      using l(7) by (auto simp add: ReadMem_byte [OF m2(2) l(3)] m2(3) holds_image_def)
  qed (fact l(1,2,5,6) m2)+
qed

text \<open>A small executable: eight bytes of code and four of initialised data.\<close>

definition tiny_noff :: "8 word list" where
  "tiny_noff = [0xad, 0xdf, 0xba, 0, 0, 0, 0, 0, 52, 0, 0, 0, 8, 0, 0, 0, 8, 0, 0, 0, 60, 0, 0, 0, 4, 0, 0, 0,
     0, 0, 0, 0, 0, 0, 0, 0, 0, 0, 0, 0, 0, 0, 0, 0, 0, 0, 0, 0, 0, 0, 0, 0,
     1, 2, 3, 4, 5, 6, 7, 8, 9, 10, 11, 12]"

lemma tiny_header:
  "load_header junk tiny_noff = \<lparr>noffMagic = NOFFMAGIC, noff_code = \<lparr>virtualAddr = 0, inFileAddr = 52, seg_size = 8\<rparr>,
     noff_initData = \<lparr>virtualAddr = 8, inFileAddr = 60, seg_size = 4\<rparr>, noff_readonlyData = \<lparr>virtualAddr = 0, inFileAddr = 0, seg_size = 0\<rparr>,
     noff_uninitData = \<lparr>virtualAddr = 0, inFileAddr = 0, seg_size = 0\<rparr>\<rparr>"
  by (simp add: load_header_def read_header_def tiny_noff_def load32_def NOFFMAGIC_def)

lemma tiny_wf: "wf_noff tiny_noff (load_header junk tiny_noff)" "program_pages (load_header junk tiny_noff) = 5"
  "noff_image tiny_noff (load_header junk tiny_noff) = [1, 2, 3, 4, 5, 6, 7, 8, 9, 10, 11, 12]"
  unfolding tiny_header
  by (simp_all add: wf_noff_def seg_in_file_def image_size_def program_pages_def pages_def tiny_noff_def noff_image_def seg_bytes_def)

theorem Load_correct_witness:
  "\<exists>b sp' b' m' m2 m3. Bitmap_new [] 256 = Inr b
     \<and> AddrSpace_Load (\<lambda>_. 0) (Some tiny_noff) AddrSpace_new (b, Machine_new False) = Inr (True, sp', b', m')
     \<and> AddrSpace_Execute sp' m' = Inr m2 \<and> Machine_ReadMem (\<lambda>_. Inr) 9 1 m2 = Inr (Some 10, m3)"
proof -
  obtain b where b: "Bitmap_new [] 256 = Inr b" "Bitmap_inv b" "numBits b = 256" "Bitmap_used b = {}"
    using Bitmap_new_ok [of 256 "[]"] by auto
  have "128 \<le> numBits b" "tlb (Machine_new False) = None" "program_pages (load_header (\<lambda>_. 0) tiny_noff) \<le> card ({0..<128} - Bitmap_used b)"
    by (simp_all add: b Machine_new_def tiny_wf)
  from Load_correct [OF b(2) this(1) tiny_wf(1) this(2,3), of AddrSpace_new] show ?thesis
  proof (elim exE conjE)
    fix pt sp' b' m' m2
    assume l: "AddrSpace_Load (\<lambda>_. 0) (Some tiny_noff) AddrSpace_new (b, Machine_new False) = Inr (True, sp', b', m')"
        "length pt = program_pages (load_header (\<lambda>_. 0) tiny_noff)" "AddrSpace_Execute sp' m' = Inr m2"
      and r: "\<forall>h va. unat va < 256 * length pt \<longrightarrow> (\<exists>m3. Machine_ReadMem h va 1 m2 =
         Inr (Some (if unat va < length (noff_image tiny_noff (load_header (\<lambda>_. 0) tiny_noff))
           then scast (noff_image tiny_noff (load_header (\<lambda>_. 0) tiny_noff) ! unat va) else 0), m3))"
    have "\<exists>m3. Machine_ReadMem (\<lambda>_. Inr) 9 1 m2 = Inr (Some 10, m3)"
      using r [rule_format, of 9 "\<lambda>_. Inr"] by (simp add: l(2) tiny_wf)
    then show ?thesis using b(1) l(1,3) by blast
  qed
qed

text \<open>
  Deleting the address space of a loaded program gives back its frames: the map of physical pages
  is what it was before \<open>Load\<close>.
\<close>

lemma Load_delete:
  assumes "Bitmap_inv b" "128 \<le> numBits b" "wf_noff fb (load_header junk fb)"
    and "program_pages (load_header junk fb) \<le> card ({0..<128} - Bitmap_used b)"
  shows "\<exists>sp' b' m' b''. AddrSpace_Load junk (Some fb) sp (b, m) = Inr (True, sp', b', m')
    \<and> AddrSpace_delete sp' b' = Inr b'' \<and> Bitmap_inv b'' \<and> numBits b'' = numBits b \<and> Bitmap_used b'' = Bitmap_used b"
proof -
  obtain pt b' mem where l: "AddrSpace_Load junk (Some fb) sp (b, m)
      = Inr (True, \<lparr>as_pageTable = Some pt, as_numPages = int (length pt)\<rparr>, b', m\<lparr>mainMemory := mem\<rparr>)"
    "fresh_table pt" "set (page_frames pt) \<inter> Bitmap_used b = {}" "Bitmap_inv b'" "numBits b' = numBits b"
    "Bitmap_used b' = Bitmap_used b \<union> set (page_frames pt)"
    using Load_ok [OF assms, of sp m] by blast
  have "set (page_frames pt) \<subseteq> {0..<numBits b'}" using bm.used_range [OF l(4)] l(6) by blast
  from delete_ok [OF l(4) this] obtain b'' where
    "AddrSpace_delete \<lparr>as_pageTable = Some pt, as_numPages = int (length pt)\<rparr> b' = Inr b''" "Bitmap_inv b''" "numBits b'' = numBits b'"
    "Bitmap_used b'' = Bitmap_used b' - set (page_frames pt)" by blast
  moreover from this have "Bitmap_used b'' = Bitmap_used b" using l(3,6) by auto
  ultimately show ?thesis using l(1,5) by auto
qed

lemma Load_delete_witness:
  "\<exists>b sp' b' m' b''. Bitmap_new [] 256 = Inr b
     \<and> AddrSpace_Load (\<lambda>_. 0) (Some tiny_noff) AddrSpace_new (b, Machine_new False) = Inr (True, sp', b', m')
     \<and> AddrSpace_delete sp' b' = Inr b'' \<and> Bitmap_used b'' = {}"
proof -
  obtain b where b: "Bitmap_new [] 256 = Inr b" "Bitmap_inv b" "numBits b = 256" "Bitmap_used b = {}"
    using Bitmap_new_ok [of 256 "[]"] by auto
  have "128 \<le> numBits b" "program_pages (load_header (\<lambda>_. 0) tiny_noff) \<le> card ({0..<128} - Bitmap_used b)"
    by (simp_all add: b tiny_wf)
  from Load_delete [OF b(2) this(1) tiny_wf(1) this(2), of AddrSpace_new "Machine_new False"] b show ?thesis by auto
qed

text \<open>
  C32.  The check for free memory.  When the map has fewer clear bits than the program has pages, \<open>Load\<close>
  returns false and takes nothing.  The kernel makes the map with 256 bits, while the machine has 128
  frames: when the clear bits suffice but not enough of them are frames of the machine, the check
  passes, and \<open>Load\<close> clears memory past the end of main memory.
\<close>

theorem Load_memory_check:
  assumes "Bitmap_inv b" "128 \<le> numBits b" "wf_noff fb (load_header junk fb)"
  shows "(numBits b - int (card (Bitmap_used b)) < int (program_pages (load_header junk fb))
        \<longrightarrow> AddrSpace_Load junk (Some fb) sp (b, m) = Inr (False, sp\<lparr>as_numPages := 0\<rparr>, b, m))
    \<and> (card ({0..<128} - Bitmap_used b) < program_pages (load_header junk fb)
          \<and> int (program_pages (load_header junk fb)) \<le> numBits b - int (card (Bitmap_used b))
        \<longrightarrow> AddrSpace_Load junk (Some fb) sp (b, m) = Inl Out_of_bounds)"
  using alloc_overrun [OF assms(1,2), of "program_pages (load_header junk fb)" m] by (simp add: Load_start [OF assms(3,1)])

theorem Load_memory_check_witness:
  "\<exists>b b'. Bitmap_new [] 256 = Inr b \<and> foldE (\<lambda>i b. Bitmap_Mark b i) [0..127] b = Inr b'
     \<and> AddrSpace_Load (\<lambda>_. 0) (Some tiny_noff) AddrSpace_new (b', Machine_new False) = Inl Out_of_bounds"
proof -
  obtain b where b: "Bitmap_new [] 256 = Inr b" "Bitmap_inv b" "numBits b = 256" "Bitmap_used b = {}"
    using Bitmap_new_ok [of 256 "[]"] by auto
  obtain b' where b': "foldE (\<lambda>i b. Bitmap_Mark b i) [0..127] b = Inr b'" "Bitmap_inv b'" "numBits b' = 256" "Bitmap_used b' = {0..127}"
  proof -
    have "set [0..127] \<subseteq> {0..<numBits b}" unfolding set_upto b(3) by auto
    from bm.mark_list [OF b(2) this] obtain b' where "foldE (\<lambda>i b. Bitmap_Mark b i) [0..127] b = Inr b'" "Bitmap_inv b'"
      "numBits b' = 256" "Bitmap_used b' = {} \<union> {0..127}" unfolding set_upto b(3,4) by blast
    then show ?thesis using that unfolding Un_empty_left by blast
  qed
  have e: "{0..<128} - Bitmap_used b' = {}" and c: "card (Bitmap_used b') = 128" by (auto simp add: b'(4))
  have "AddrSpace_Load (\<lambda>_. 0) (Some tiny_noff) AddrSpace_new (b', Machine_new False) = Inl Out_of_bounds"
    using Load_memory_check [OF b'(2) _ tiny_wf(1), where sp = AddrSpace_new and m = "Machine_new False" and junk = "\<lambda>_. 0"] by (simp add: tiny_wf b'(3) e c)
  then show ?thesis using b(1) b'(1) by blast
qed

text \<open>
  For the page tables that \<open>Load\<close> builds, \<open>AddrSpace::Translate\<close> gives the address or the exception
  that the machine gives for the access to a byte, and sets the same use and dirty bits.
\<close>

lemma AddrSpace_Translate_machine:
  assumes "fresh_table pt" "Machine_paged m pt"
  shows "\<exists>r m' sp'. Machine_Translate va 1 w m = Inr (r, m')
    \<and> AddrSpace_Translate \<lparr>as_pageTable = Some pt, as_numPages = int (length pt)\<rparr> va w
        = Inr (map_sum id of_nat r, sp')
    \<and> as_pageTable sp' = pageTable m' \<and> as_numPages sp' = pageTableSize m'"
proof -
  have "Machine_Translate va 1 w m = Inr (mmu pt va 1 w, case mmu pt va 1 w of
      Inl e \<Rightarrow> m | Inr a \<Rightarrow> m\<lparr>pageTable := Some (touch_page w va pt)\<rparr>)"
    using Translate_mmu [OF assms(2), of 1 va w] by (simp split: sum.splits)
  then show ?thesis using assms(2) by (simp add: AddrSpace_Translate_eq [OF assms(1)] Machine_paged_def split: sum.splits)
qed

lemma AddrSpace_Translate_machine_witness:
  "\<exists>m' sp'. Machine_Translate 260 1 True
     ((Machine_new False)\<lparr>pageTable := Some [\<lparr>virtualPage = 0, physicalPage = 7, valid = True, readOnly = False, te_use = False, te_dirty = False\<rparr>,
        \<lparr>virtualPage = 1, physicalPage = 5, valid = True, readOnly = False, te_use = False, te_dirty = False\<rparr>], pageTableSize := 2\<rparr>)
     = Inr (Inr 1284, m')
   \<and> AddrSpace_Translate \<lparr>as_pageTable = Some [\<lparr>virtualPage = 0, physicalPage = 7, valid = True, readOnly = False, te_use = False, te_dirty = False\<rparr>,
        \<lparr>virtualPage = 1, physicalPage = 5, valid = True, readOnly = False, te_use = False, te_dirty = False\<rparr>], as_numPages = 2\<rparr> 260 True
     = Inr (Inr 1284, sp')"
proof -
  let ?pt = "[\<lparr>virtualPage = 0, physicalPage = 7, valid = True, readOnly = False, te_use = False, te_dirty = False\<rparr>,
        \<lparr>virtualPage = 1, physicalPage = 5, valid = True, readOnly = False, te_use = False, te_dirty = False\<rparr>]"
  let ?m = "(Machine_new False)\<lparr>pageTable := Some ?pt, pageTableSize := 2\<rparr>"
  have p: "Machine_paged ?m ?pt" by (simp add: Machine_paged_def Machine_new_def)
  have t: "fresh_table ?pt" by (auto simp add: fresh_table_def less_Suc_eq)
  have "\<exists>m'. Machine_Translate 260 1 True ?m = Inr (Inr 1284, m')" by (simp add: Translate_mmu [OF p] mmu_def)
  then show ?thesis using AddrSpace_Translate_machine [OF t p, of 260 True] by auto
qed

end
