(* ===== verification/Threads.thy ===== *)
theory Threads
  imports Interrupt AddrSpace
begin

text \<open>
  \<^verbatim>\<open>code/threads/thread.h\<close>, \<^verbatim>\<open>thread.cc\<close>, \<^verbatim>\<open>scheduler.h\<close>, \<^verbatim>\<open>scheduler.cc\<close>: threads, the ready list and context switches.

  A thread is a number; \<open>threads\<close> maps it to its control block, and \<open>None\<close> is a thread that is not allocated.
  What a thread still has to do is \<open>frames\<close>, the rest of the kernel routines it is in, and after them
  \<open>prog\<close>, the calls of its own code; see \<open>Synch\<close> for how they run.  \<open>SWITCH\<close> stops the code of one
  thread and goes on with that of another: a routine that contains it is defined up to the switch,
  and what follows it is a frame, or the code at the end of \<open>Scheduler_Run\<close>, which the new thread runs.

  The page table that the machine uses is the array of the address space; the model keeps it in the
  machine while the thread runs, and hands it back to the space at the switch.  The stack, its
  fence post and the registers of the host are not modelled.
\<close>

section \<open>Model\<close>

datatype ThreadStatus = JUST_CREATED | RUNNING | READY | BLOCKED

record Thread =
  t_status :: ThreadStatus
  userRegisters :: "nat \<Rightarrow> 32 word"
  t_space :: "addr_space option"
  processID :: int

text \<open>
  Semaphores are numbered; the one inside a lock and the ones that \<open>Condition::Wait\<close> allocates have
  numbers of their own.
\<close>

datatype sem_id = SemObj nat | LockSem nat | WaitSem nat

record Semaphore =
  sem_value :: int
  sem_queue :: "nat list"

text \<open>The rest of a kernel routine that is being executed.\<close>

datatype frame =
    F_SetLevel IntStatus          \<comment> \<open>\<^verbatim>\<open>interrupt->SetLevel(oldLevel)\<close>\<close>
  | F_SetStatus MachineStatus     \<comment> \<open>\<^verbatim>\<open>status = oldStatus\<close> of \<open>OneTick\<close>\<close>
  | F_Yield
  | F_SleepLoop bool              \<comment> \<open>the loop of \<open>Thread::Sleep\<close>\<close>
  | F_P sem_id
  | F_PLoop sem_id                \<comment> \<open>the loop of \<open>Semaphore::P\<close>\<close>
  | F_V sem_id
  | F_Acquire nat
  | F_SetHolder nat               \<comment> \<open>\<^verbatim>\<open>lockHolder = currentThread\<close> of \<open>Lock::Acquire\<close>\<close>
  | F_Release nat
  | F_Signal nat nat
  | F_DeleteWait nat              \<comment> \<open>\<^verbatim>\<open>delete waiter\<close> of \<open>Condition::Wait\<close>\<close>

text \<open>The calls that the code of a thread makes; \<open>'g\<close> is the data that the threads share.\<close>

datatype 'g cmd =
    C_P nat | C_V nat | C_Yield
  | C_Acquire nat | C_Release nat
  | C_Wait nat nat | C_Signal nat nat | C_Broadcast nat nat
  | C_Fork int "'g cmd list"
  | C_Do "nat \<Rightarrow> 'g \<Rightarrow> ('g \<times> 'g cmd list) res"
  | C_While "'g \<Rightarrow> bool" "'g cmd list"

record 'g kernel = interrupt +
  currentThread :: nat
  threads :: "nat \<Rightarrow> Thread option"
  readyList :: "nat list"
  toBeDestroyed :: "nat option"
  next_tid :: nat
  semaphores :: "sem_id \<Rightarrow> Semaphore option"
  lockHolder :: "nat \<Rightarrow> nat option"
  waitQueue :: "nat \<Rightarrow> nat list"
  next_wait :: nat
  frames :: "nat \<Rightarrow> frame list"
  prog :: "nat \<Rightarrow> 'g cmd list"
  glob :: 'g

definition Thread_new :: "int \<Rightarrow> Thread" where
  "Thread_new pid = \<lparr>t_status = JUST_CREATED, userRegisters = (\<lambda>_. 0), t_space = None, processID = pid\<rparr>"

definition set_thread :: "nat \<Rightarrow> Thread \<Rightarrow> ('g, 'k) kernel_scheme \<Rightarrow> ('g, 'k) kernel_scheme" where
  "set_thread t th k = k\<lparr>threads := (threads k)(t \<mapsto> th)\<rparr>"

definition Thread_setStatus :: "nat \<Rightarrow> ThreadStatus \<Rightarrow> ('g, 'k) kernel_scheme \<Rightarrow> ('g, 'k) kernel_scheme res" where
  "Thread_setStatus t st k = bindE (derefE (threads k t)) (\<lambda>th. Inr (set_thread t (th\<lparr>t_status := st\<rparr>) k))"

definition Thread_SaveUserState :: "nat \<Rightarrow> ('g, 'k) kernel_scheme \<Rightarrow> ('g, 'k) kernel_scheme res" where
  "Thread_SaveUserState t k =
     bindE (derefE (threads k t)) (\<lambda>th.
     bindE (foldE (\<lambda>i r. bindE (Machine_ReadRegister i k) (\<lambda>v. Inr (r(nat i := v)))) [0..int NumTotalRegs - 1] (userRegisters th)) (\<lambda>r.
     Inr (set_thread t (th\<lparr>userRegisters := r\<rparr>) k)))"

definition Thread_RestoreUserState :: "nat \<Rightarrow> ('g, 'k) kernel_scheme \<Rightarrow> ('g, 'k) kernel_scheme res" where
  "Thread_RestoreUserState t k =
     bindE (derefE (threads k t)) (\<lambda>th.
     foldE (\<lambda>i k. Machine_WriteRegister i (userRegisters th (nat i)) k) [0..int NumTotalRegs - 1] k)"

definition Thread_delete :: "nat \<Rightarrow> ('g, 'k) kernel_scheme \<Rightarrow> ('g, 'k) kernel_scheme res" where
  "Thread_delete t k = bindE (assertE (t \<noteq> currentThread k)) (\<lambda>_. Inr (k\<lparr>threads := (threads k)(t := None)\<rparr>))"

definition Scheduler_ReadyToRun :: "nat \<Rightarrow> ('g, 'k) kernel_scheme \<Rightarrow> ('g, 'k) kernel_scheme res" where
  "Scheduler_ReadyToRun t k =
     bindE (assertE (int_level k = IntOff)) (\<lambda>_.
     bindE (Thread_setStatus t READY k) (\<lambda>k.
     bindE (lst_append (readyList k) t) (\<lambda>r. Inr (k\<lparr>readyList := r\<rparr>))))"

definition Scheduler_FindNextToRun :: "('g, 'k) kernel_scheme \<Rightarrow> (nat option \<times> ('g, 'k) kernel_scheme) res" where
  "Scheduler_FindNextToRun k =
     bindE (assertE (int_level k = IntOff)) (\<lambda>_.
     if readyList k = [] then Inr (None, k)
     else bindE (lst_remove_front (readyList k)) (\<lambda>(t, r). Inr (Some t, k\<lparr>readyList := r\<rparr>)))"

definition Scheduler_CheckToBeDestroyed :: "('g, 'k) kernel_scheme \<Rightarrow> ('g, 'k) kernel_scheme res" where
  "Scheduler_CheckToBeDestroyed k =
     (case toBeDestroyed k of
        None \<Rightarrow> Inr k
      | Some t \<Rightarrow> bindE (Thread_delete t k) (\<lambda>k. Inr (k\<lparr>toBeDestroyed := None\<rparr>)))"

text \<open>Saving and restoring the user program of a thread that has an address space.\<close>

definition Scheduler_save :: "nat \<Rightarrow> ('g, 'k) kernel_scheme \<Rightarrow> ('g, 'k) kernel_scheme res" where
  "Scheduler_save t k =
     bindE (derefE (threads k t)) (\<lambda>th.
     case t_space th of
       None \<Rightarrow> Inr k
     | Some sp \<Rightarrow>
         bindE (Thread_SaveUserState t k) (\<lambda>k.
         let k = AddrSpace_SaveState sp k in
         bindE (derefE (threads k t)) (\<lambda>th.
         Inr (set_thread t (th\<lparr>t_space := Some (sp\<lparr>as_pageTable := pageTable k\<rparr>)\<rparr>) k))))"

definition Scheduler_restore :: "nat \<Rightarrow> ('g, 'k) kernel_scheme \<Rightarrow> ('g, 'k) kernel_scheme res" where
  "Scheduler_restore t k =
     bindE (derefE (threads k t)) (\<lambda>th.
     case t_space th of
       None \<Rightarrow> Inr k
     | Some sp \<Rightarrow> bindE (Thread_RestoreUserState t k) (\<lambda>k. Inr (AddrSpace_RestoreState sp k)))"

text \<open>
  \<open>Run\<close> up to \<open>SWITCH\<close>, then what the thread that goes on does first: \<open>CheckToBeDestroyed\<close>, in \<open>Thread::Begin\<close> or after
  its own call of \<open>SWITCH\<close>, and the restoring of its user program (a new thread has none).
\<close>

definition Scheduler_Run :: "nat \<Rightarrow> bool \<Rightarrow> ('g, 'k) kernel_scheme \<Rightarrow> ('g, 'k) kernel_scheme res" where
  "Scheduler_Run nextThread finishing k =
     (let oldThread = currentThread k in
      bindE (assertE (int_level k = IntOff)) (\<lambda>_.
      bindE (if finishing then bindE (assertE (toBeDestroyed k = None)) (\<lambda>_. Inr (k\<lparr>toBeDestroyed := Some oldThread\<rparr>)) else Inr k) (\<lambda>k.
      bindE (Scheduler_save oldThread k) (\<lambda>k.
      bindE (Thread_setStatus nextThread RUNNING (k\<lparr>currentThread := nextThread\<rparr>)) (\<lambda>k.
      bindE (assertE (int_level k = IntOff)) (\<lambda>_.
      bindE (Scheduler_CheckToBeDestroyed k) (\<lambda>k.
      Scheduler_restore nextThread k)))))))"

section \<open>Context switches and user programs\<close>

lemma SaveUserState_eq:
  assumes "threads k t = Some th"
  shows "Thread_SaveUserState t k =
    Inr (set_thread t (th\<lparr>userRegisters := (\<lambda>r. if r < NumTotalRegs then registers k r else userRegisters th r)\<rparr>) k)"
proof -
  let ?f = "\<lambda>i r. bindE (Machine_ReadRegister i k) (\<lambda>v. Inr (r(nat i := v)))"
  let ?P = "\<lambda>n r'. r' = (\<lambda>r. if r < n then registers k r else userRegisters th r)"
  have step: "\<exists>r2. ?f ([0..int NumTotalRegs - 1] ! n) r1 = Inr r2 \<and> ?P (Suc n) r2"
    if "n < length [0..int NumTotalRegs - 1]" "?P n r1" for n r1
    using that by (intro exI [of _ "\<lambda>r. if r < Suc n then registers k r else userRegisters th r"])
      (auto simp add: Machine_ReadRegister_def fun_eq_iff less_Suc_eq)
  have "?P 0 (userRegisters th)" by simp
  then have "\<exists>r'. foldE ?f [0..int NumTotalRegs - 1] (userRegisters th) = Inr r' \<and> ?P (length [0..int NumTotalRegs - 1]) r'"
    by (rule foldE_invariant [where P = ?P]) (rule step)
  then show ?thesis using assms by (auto simp add: Thread_SaveUserState_def)
qed

lemma RestoreUserState_eq:
  assumes "threads k t = Some th"
  shows "Thread_RestoreUserState t k =
    Inr (k\<lparr>registers := (\<lambda>r. if r < NumTotalRegs then userRegisters th r else registers k r)\<rparr>)"
proof -
  let ?f = "\<lambda>i k. Machine_WriteRegister i (userRegisters th (nat i)) k"
  let ?P = "\<lambda>n k'. k' = k\<lparr>registers := (\<lambda>r. if r < n then userRegisters th r else registers k r)\<rparr>"
  have step: "\<exists>k2. ?f ([0..int NumTotalRegs - 1] ! n) k1 = Inr k2 \<and> ?P (Suc n) k2"
    if "n < length [0..int NumTotalRegs - 1]" "?P n k1" for n k1
    using that by (auto simp add: Machine_WriteRegister_def fun_eq_iff less_Suc_eq)
  have "?P 0 k" by simp
  then have "\<exists>k'. foldE ?f [0..int NumTotalRegs - 1] k = Inr k' \<and> ?P (length [0..int NumTotalRegs - 1]) k'"
    by (rule foldE_invariant [where P = ?P]) (rule step)
  then show ?thesis using assms by (auto simp add: Thread_RestoreUserState_def)
qed

text \<open>The control block and the machine after saving and restoring.\<close>

definition saved_thread :: "('g, 'k) kernel_scheme \<Rightarrow> Thread \<Rightarrow> Thread" where
  "saved_thread k th = (case t_space th of None \<Rightarrow> th
     | Some sp \<Rightarrow> th\<lparr>userRegisters := (\<lambda>r. if r < NumTotalRegs then registers k r else userRegisters th r),
                     t_space := Some (sp\<lparr>as_pageTable := pageTable k\<rparr>)\<rparr>)"

definition restored :: "Thread \<Rightarrow> ('g, 'k) kernel_scheme \<Rightarrow> ('g, 'k) kernel_scheme" where
  "restored th k = (case t_space th of None \<Rightarrow> k
     | Some sp \<Rightarrow> k\<lparr>registers := (\<lambda>r. if r < NumTotalRegs then userRegisters th r else registers k r),
                     pageTable := as_pageTable sp, pageTableSize := as_numPages sp\<rparr>)"

lemma set_thread_same: "threads k t = Some th \<Longrightarrow> set_thread t th k = k"
  by (simp add: set_thread_def fun_upd_idem)

lemma save_eq: "threads k t = Some th \<Longrightarrow> Scheduler_save t k = Inr (set_thread t (saved_thread k th) k)"
  by (cases "t_space th") (simp_all add: Scheduler_save_def saved_thread_def SaveUserState_eq AddrSpace_SaveState_def set_thread_same,
      simp add: set_thread_def)

lemma restore_eq: "threads k t = Some th \<Longrightarrow> Scheduler_restore t k = Inr (restored th k)"
  by (simp add: Scheduler_restore_def restored_def RestoreUserState_eq AddrSpace_RestoreState_def split: option.split)

lemma saved_status [simp]: "t_status (saved_thread k th) = t_status th" "t_space (saved_thread k th) = None \<longleftrightarrow> t_space th = None"
  by (simp_all add: saved_thread_def split: option.split)

lemma restored_simps [simp]:
  "currentThread (restored th k) = currentThread k" "threads (restored th k) = threads k" "readyList (restored th k) = readyList k"
  "toBeDestroyed (restored th k) = toBeDestroyed k" "next_tid (restored th k) = next_tid k" "semaphores (restored th k) = semaphores k" "lockHolder (restored th k) = lockHolder k"
  "waitQueue (restored th k) = waitQueue k" "next_wait (restored th k) = next_wait k" "frames (restored th k) = frames k"
  "prog (restored th k) = prog k" "glob (restored th k) = glob k" "int_level (restored th k) = int_level k" "inHandler (restored th k) = inHandler k"
  "pending (restored th k) = pending k" "next_addr (restored th k) = next_addr k" "totalTicks (restored th k) = totalTicks k"
  "status (restored th k) = status k" "yieldOnReturn (restored th k) = yieldOnReturn k"
  by (simp_all add: restored_def split: option.split)

text \<open>The two kinds of switch: to another thread that is kept, and away from one that is deleted.\<close>

lemma Run_switch:
  assumes "int_level k = IntOff" "toBeDestroyed k = None" "threads k (currentThread k) = Some old" "threads k n = Some th"
  shows "\<exists>th'. Scheduler_Run n False k = Inr (restored th'
    (k\<lparr>currentThread := n, threads := ((threads k)(currentThread k \<mapsto> saved_thread k old))(n \<mapsto> th')\<rparr>))
    \<and> th' = (if n = currentThread k then saved_thread k old else th)\<lparr>t_status := RUNNING\<rparr>"
  using assms
  by (auto simp add: Scheduler_Run_def save_eq Thread_setStatus_def set_thread_def Scheduler_CheckToBeDestroyed_def Let_def restore_eq)

lemma Run_finish:
  assumes "int_level k = IntOff" "toBeDestroyed k = None" "threads k (currentThread k) = Some old" "threads k n = Some th" "n \<noteq> currentThread k"
  shows "\<exists>th'. Scheduler_Run n True k = Inr (restored th'
    (k\<lparr>currentThread := n, threads := ((threads k)(currentThread k := None))(n \<mapsto> th'), toBeDestroyed := None\<rparr>)) \<and> th' = th\<lparr>t_status := RUNNING\<rparr>"
  using assms
  by (auto simp add: Scheduler_Run_def save_eq Thread_setStatus_def set_thread_def Scheduler_CheckToBeDestroyed_def Thread_delete_def Let_def restore_eq fun_upd_twist)

text \<open>
  C39.  A context switch loses nothing of a user program.  When a thread with an address space is switched out
  and, after anything that leaves its control block alone but for the status, in again, the machine
  has the registers and the page table from before the first switch.
\<close>

theorem Run_user_state:
  assumes "int_level k = IntOff" "toBeDestroyed k = None" "threads k (currentThread k) = Some th" "t_space th = Some sp"
    and "threads k n \<noteq> None" "n \<noteq> currentThread k" "Scheduler_Run n False k = Inr k1"
    and "threads k2 (currentThread k) = map_option (\<lambda>t. t\<lparr>t_status := st\<rparr>) (threads k1 (currentThread k))"
    and "int_level k2 = IntOff" "toBeDestroyed k2 = None" "currentThread k2 \<noteq> currentThread k" "threads k2 (currentThread k2) \<noteq> None"
  shows "\<exists>k3. Scheduler_Run (currentThread k) finishing k2 = Inr k3 \<and> currentThread k3 = currentThread k
    \<and> (\<forall>r < NumTotalRegs. registers k3 r = registers k r) \<and> pageTable k3 = pageTable k \<and> pageTableSize k3 = as_numPages sp"
proof -
  obtain thn where "threads k n = Some thn" using assms(5) by auto
  from Run_switch [OF assms(1-3) this] assms(6,7) have "threads k1 (currentThread k) = Some (saved_thread k th)" by auto
  then have t2: "threads k2 (currentThread k) = Some ((saved_thread k th)\<lparr>t_status := st\<rparr>)" using assms(8) by simp
  obtain old where old: "threads k2 (currentThread k2) = Some old" using assms(12) by auto
  show ?thesis
  proof (cases finishing)
    case True
    from Run_finish [OF assms(9,10) old t2] assms(11) show ?thesis
      using True by (auto simp add: restored_def saved_thread_def assms(4))
  next
    case False
    from Run_switch [OF assms(9,10) old t2] assms(11) show ?thesis
      using False by (auto simp add: restored_def saved_thread_def assms(4))
  qed
qed

theorem Run_user_state_witness:
  "\<exists>(k :: unit kernel) k1 k3. registers k 29 = 1024 \<and> currentThread k = 0 \<and> Scheduler_Run 1 False k = Inr k1
    \<and> Scheduler_Run 0 False (k1\<lparr>registers := \<lambda>_. 7, pageTable := None\<rparr>) = Inr k3 \<and> registers k3 29 = 1024 \<and> pageTable k3 = Some []"
proof -
  let ?sp = "\<lparr>as_pageTable = Some [], as_numPages = 0\<rparr>"
  let ?k = "interrupt.extend (Interrupt_new ((Machine_new False)\<lparr>registers := (\<lambda>_. 0)(29 := 1024), pageTable := Some []\<rparr>))
     \<lparr>currentThread = 0, threads = [0 \<mapsto> (Thread_new 0)\<lparr>t_status := RUNNING, t_space := Some ?sp\<rparr>, 1 \<mapsto> (Thread_new 1)\<lparr>t_status := READY\<rparr>],
      readyList = [], toBeDestroyed = None, next_tid = 2, semaphores = (\<lambda>_. None), lockHolder = (\<lambda>_. None), waitQueue = (\<lambda>_. []), next_wait = 0,
      frames = (\<lambda>_. []), prog = (\<lambda>_. []), glob = ()\<rparr>"
  have k: "int_level ?k = IntOff" "toBeDestroyed ?k = None" "threads ?k (currentThread ?k) = Some ((Thread_new 0)\<lparr>t_status := RUNNING, t_space := Some ?sp\<rparr>)"
    "t_space ((Thread_new 0)\<lparr>t_status := RUNNING, t_space := Some ?sp\<rparr>) = Some ?sp" "threads ?k 1 \<noteq> None" "1 \<noteq> currentThread ?k"
    "threads ?k 1 = Some ((Thread_new 1)\<lparr>t_status := READY\<rparr>)"
    by (simp_all add: interrupt.extend_def Interrupt_new_def machine.extend_def)
  have k0: "currentThread ?k = 0" by (simp add: interrupt.extend_def)
  from Run_switch [OF k(1-3,7)] k(6) obtain k1 th where
    k1: "Scheduler_Run 1 False ?k = Inr k1" "currentThread k1 = 1" "int_level k1 = IntOff" "toBeDestroyed k1 = None" "threads k1 1 = Some th" "threads k1 0 \<noteq> None"
    using k(1,2) k0 by (auto simp del: One_nat_def)
  let ?k2 = "k1\<lparr>registers := \<lambda>_. 7, pageTable := None\<rparr>"
  obtain th0 where th0: "threads k1 0 = Some th0" using k1(6) by auto
  have "threads ?k2 (currentThread ?k) = map_option (\<lambda>t. t\<lparr>t_status := t_status th0\<rparr>) (threads k1 (currentThread ?k))"
    using th0 by (simp add: interrupt.extend_def)
  from Run_user_state [OF k(1-6) k1(1) this, of False] k1 k0 obtain k3 where
    "Scheduler_Run 0 False ?k2 = Inr k3" "\<forall>r < NumTotalRegs. registers k3 r = registers ?k r" "pageTable k3 = pageTable ?k" by auto
  moreover have "registers ?k 29 = 1024" "pageTable ?k = Some []" "(29::nat) < NumTotalRegs"
    by (simp_all add: interrupt.extend_def Interrupt_new_def machine.extend_def NumTotalRegs_def)
  ultimately show ?thesis using k1(1) k0 by metis
qed

end
