(* ===== verification/Synch.thy ===== *)
theory Synch
  imports Threads
begin

text \<open>
  \<^verbatim>\<open>code/threads/synch.h\<close>, \<^verbatim>\<open>synch.cc\<close> and the calls of \<open>Thread\<close> that switch threads: semaphores, locks, condition
  variables, and the execution of the threads on the one processor.

  \<open>kernel_step\<close> executes one piece of the current thread: the first of its frames, or else its next call.
  Interrupts are off inside the routines; they may occur when a routine switches them on again
  (\<open>F_SetLevel\<close>), and then the timer may take the processor away.  A routine that waits leaves as a
  frame what it goes on with, so that a thread that wakes up in \<open>P\<close> tests the semaphore again.
\<close>

section \<open>Model\<close>

definition Semaphore_new :: "int \<Rightarrow> Semaphore" where
  "Semaphore_new initialValue = \<lparr>sem_value = initialValue, sem_queue = []\<rparr>"

definition set_sem :: "sem_id \<Rightarrow> Semaphore \<Rightarrow> ('g, 'k) kernel_scheme \<Rightarrow> ('g, 'k) kernel_scheme" where
  "set_sem s sm k = k\<lparr>semaphores := (semaphores k)(s \<mapsto> sm)\<rparr>"

definition push :: "frame list \<Rightarrow> ('g, 'k) kernel_scheme \<Rightarrow> ('g, 'k) kernel_scheme" where
  "push fs k = k\<lparr>frames := (frames k)(currentThread k := fs @ frames k (currentThread k))\<rparr>"

text \<open>\<open>V\<close> between the two calls of \<open>SetLevel\<close>; an interrupt handler that calls \<open>V\<close> does just this.\<close>

definition Semaphore_V_body :: "sem_id \<Rightarrow> ('g, 'k) kernel_scheme \<Rightarrow> ('g, 'k) kernel_scheme res" where
  "Semaphore_V_body s k =
     bindE (derefE (semaphores k s)) (\<lambda>sm.
     bindE (if sem_queue sm \<noteq> []
            then bindE (lst_remove_front (sem_queue sm)) (\<lambda>(t, q).
                 Scheduler_ReadyToRun t (set_sem s (sm\<lparr>sem_queue := q\<rparr>) k))
            else Inr k) (\<lambda>k.
     bindE (derefE (semaphores k s)) (\<lambda>sm.
     Inr (set_sem s (sm\<lparr>sem_value := sem_value sm + 1\<rparr>) k))))"

definition Semaphore_V :: "sem_id \<Rightarrow> ('g, 'k) kernel_scheme \<Rightarrow> ('g, 'k) kernel_scheme res" where
  "Semaphore_V s k =
     (let oldLevel = int_level k in
      bindE (Semaphore_V_body s (k\<lparr>int_level := IntOff\<rparr>)) (\<lambda>k. Inr (push [F_SetLevel oldLevel] k)))"

definition Semaphore_P :: "sem_id \<Rightarrow> ('g, 'k) kernel_scheme \<Rightarrow> ('g, 'k) kernel_scheme res" where
  "Semaphore_P s k = Inr (push [F_PLoop s, F_SetLevel (int_level k)] (k\<lparr>int_level := IntOff\<rparr>))"

definition Thread_Sleep :: "bool \<Rightarrow> ('g, 'k) kernel_scheme \<Rightarrow> ('g, 'k) kernel_scheme res" where
  "Thread_Sleep finishing k =
     bindE (assertE (int_level k = IntOff)) (\<lambda>_.
     bindE (Thread_setStatus (currentThread k) BLOCKED k) (\<lambda>k.
     Inr (push [F_SleepLoop finishing] k)))"

definition Semaphore_P_loop :: "sem_id \<Rightarrow> ('g, 'k) kernel_scheme \<Rightarrow> ('g, 'k) kernel_scheme res" where
  "Semaphore_P_loop s k =
     bindE (derefE (semaphores k s)) (\<lambda>sm.
     if sem_value sm = 0
     then bindE (lst_append (sem_queue sm) (currentThread k)) (\<lambda>q.
          Thread_Sleep False (push [F_PLoop s] (set_sem s (sm\<lparr>sem_queue := q\<rparr>) k)))
     else Inr (set_sem s (sm\<lparr>sem_value := sem_value sm - 1\<rparr>) k))"

definition Thread_Yield :: "('g, 'k) kernel_scheme \<Rightarrow> ('g, 'k) kernel_scheme res" where
  "Thread_Yield k =
     (let oldLevel = int_level k in
      bindE (Scheduler_FindNextToRun (k\<lparr>int_level := IntOff\<rparr>)) (\<lambda>(n, k).
      let k = push [F_SetLevel oldLevel] k in
      case n of
        None \<Rightarrow> Inr k
      | Some nextThread \<Rightarrow> bindE (Scheduler_ReadyToRun (currentThread k) k) (Scheduler_Run nextThread False)))"

text \<open>One round of the loop of \<open>Sleep\<close>: idle until there is a thread to run.\<close>

definition Thread_Sleep_loop ::
    "('g, 'k) kernel_ext devices \<Rightarrow> bool \<Rightarrow> ('g, 'k) kernel_scheme \<Rightarrow> ('g, 'k) kernel_scheme res" where
  "Thread_Sleep_loop h finishing k =
     bindE (Scheduler_FindNextToRun k) (\<lambda>(n, k).
     case n of
       None \<Rightarrow> Interrupt_Idle h (push [F_SleepLoop finishing] k)
     | Some nextThread \<Rightarrow> Scheduler_Run nextThread finishing k)"

text \<open>\<open>Finish\<close>, which the code at the root of a thread calls when the function of the thread returns.\<close>

definition Thread_Finish :: "('g, 'k) kernel_scheme \<Rightarrow> ('g, 'k) kernel_scheme res" where
  "Thread_Finish k = Thread_Sleep True (k\<lparr>int_level := IntOff\<rparr>)"

text \<open>\<open>Fork\<close> of a thread object; the new thread starts with \<open>Thread::Begin\<close>, which enables interrupts.\<close>

definition Thread_Fork :: "nat \<Rightarrow> 'g cmd list \<Rightarrow> ('g, 'k) kernel_scheme \<Rightarrow> ('g, 'k) kernel_scheme res" where
  "Thread_Fork t body k =
     (let oldLevel = int_level k;
          k = k\<lparr>int_level := IntOff, frames := (frames k)(t := [F_SetLevel IntOn]), prog := (prog k)(t := body)\<rparr> in
      bindE (Scheduler_ReadyToRun t k) (\<lambda>k. Inr (push [F_SetLevel oldLevel] k)))"

definition Lock_IsHeldByCurrentThread :: "nat \<Rightarrow> ('g, 'k) kernel_scheme \<Rightarrow> bool" where
  "Lock_IsHeldByCurrentThread l k \<longleftrightarrow> lockHolder k l = Some (currentThread k)"

definition Lock_Acquire :: "nat \<Rightarrow> ('g, 'k) kernel_scheme \<Rightarrow> ('g, 'k) kernel_scheme res" where
  "Lock_Acquire l k = Inr (push [F_P (LockSem l), F_SetHolder l] k)"

definition Lock_Release :: "nat \<Rightarrow> ('g, 'k) kernel_scheme \<Rightarrow> ('g, 'k) kernel_scheme res" where
  "Lock_Release l k =
     bindE (assertE (Lock_IsHeldByCurrentThread l k)) (\<lambda>_.
     Inr (push [F_V (LockSem l)] (k\<lparr>lockHolder := (lockHolder k)(l := None)\<rparr>)))"

definition Condition_Wait :: "nat \<Rightarrow> nat \<Rightarrow> ('g, 'k) kernel_scheme \<Rightarrow> ('g, 'k) kernel_scheme res" where
  "Condition_Wait c l k =
     bindE (assertE (Lock_IsHeldByCurrentThread l k)) (\<lambda>_.
     let w = next_wait k;
         k = set_sem (WaitSem w) (Semaphore_new 0) (k\<lparr>next_wait := w + 1\<rparr>) in
     bindE (lst_append (waitQueue k c) w) (\<lambda>q.
     Inr (push [F_Release l, F_P (WaitSem w), F_Acquire l, F_DeleteWait w] (k\<lparr>waitQueue := (waitQueue k)(c := q)\<rparr>))))"

definition Condition_Signal :: "nat \<Rightarrow> nat \<Rightarrow> ('g, 'k) kernel_scheme \<Rightarrow> ('g, 'k) kernel_scheme res" where
  "Condition_Signal c l k =
     bindE (assertE (Lock_IsHeldByCurrentThread l k)) (\<lambda>_.
     if waitQueue k c \<noteq> []
     then bindE (lst_remove_front (waitQueue k c)) (\<lambda>(w, q).
          Inr (push [F_V (WaitSem w)] (k\<lparr>waitQueue := (waitQueue k)(c := q)\<rparr>)))
     else Inr k)"

definition call :: "'g cmd list \<Rightarrow> ('g, 'k) kernel_scheme \<Rightarrow> ('g, 'k) kernel_scheme" where
  "call cs k = k\<lparr>prog := (prog k)(currentThread k := cs @ prog k (currentThread k))\<rparr>"

fun run_frame :: "('g, 'k) kernel_ext devices \<Rightarrow> frame \<Rightarrow> ('g, 'k) kernel_scheme \<Rightarrow> ('g, 'k) kernel_scheme res" where
  "run_frame h (F_SetLevel l) k =
     bindE (Interrupt_SetLevel h l k) (\<lambda>(_, y, k).
     Inr (case y of None \<Rightarrow> k | Some st \<Rightarrow> push [F_Yield, F_SetStatus st] k))"
| "run_frame h (F_SetStatus st) k = Inr (k\<lparr>status := st\<rparr>)"
| "run_frame h F_Yield k = Thread_Yield k"
| "run_frame h (F_SleepLoop b) k = Thread_Sleep_loop h b k"
| "run_frame h (F_P s) k = Semaphore_P s k"
| "run_frame h (F_PLoop s) k = Semaphore_P_loop s k"
| "run_frame h (F_V s) k = Semaphore_V s k"
| "run_frame h (F_Acquire l) k = Lock_Acquire l k"
| "run_frame h (F_SetHolder l) k = Inr (k\<lparr>lockHolder := (lockHolder k)(l \<mapsto> currentThread k)\<rparr>)"
| "run_frame h (F_Release l) k = Lock_Release l k"
| "run_frame h (F_Signal c l) k = Condition_Signal c l k"
| "run_frame h (F_DeleteWait w) k = Inr (k\<lparr>semaphores := (semaphores k)(WaitSem w := None)\<rparr>)"

text \<open>
  \<open>Broadcast\<close> is the loop that calls \<open>Signal\<close> while the queue is not empty.  \<open>C_Fork\<close> is \<^verbatim>\<open>new Thread\<close>, the
  assignment of its \<open>processID\<close> and \<open>Fork\<close>, which the sources always call together.
\<close>

fun run_cmd :: "'g cmd \<Rightarrow> ('g, 'k) kernel_scheme \<Rightarrow> ('g, 'k) kernel_scheme res" where
  "run_cmd (C_P n) k = Inr (push [F_P (SemObj n)] k)"
| "run_cmd (C_V n) k = Inr (push [F_V (SemObj n)] k)"
| "run_cmd C_Yield k = Inr (push [F_Yield] k)"
| "run_cmd (C_Acquire l) k = Inr (push [F_Acquire l] k)"
| "run_cmd (C_Release l) k = Inr (push [F_Release l] k)"
| "run_cmd (C_Wait c l) k = Condition_Wait c l k"
| "run_cmd (C_Signal c l) k = Inr (push [F_Signal c l] k)"
| "run_cmd (C_Broadcast c l) k =
     Inr (if waitQueue k c \<noteq> [] then call [C_Broadcast c l] (push [F_Signal c l] k) else k)"
| "run_cmd (C_Fork pid body) k =
     (let t = next_tid k in Thread_Fork t body (set_thread t (Thread_new pid) (k\<lparr>next_tid := t + 1\<rparr>)))"
| "run_cmd (C_Do f) k = bindE (f (currentThread k) (glob k)) (\<lambda>(g, cs). Inr (call cs (k\<lparr>glob := g\<rparr>)))"
| "run_cmd (C_While b body) k = Inr (if b (glob k) then call (body @ [C_While b body]) k else k)"

definition kernel_step :: "('g, 'k) kernel_ext devices \<Rightarrow> ('g, 'k) kernel_scheme \<Rightarrow> ('g, 'k) kernel_scheme res" where
  "kernel_step h k =
     (let t = currentThread k in
      case frames k t of
        f # fs \<Rightarrow> run_frame h f (k\<lparr>frames := (frames k)(t := fs)\<rparr>)
      | [] \<Rightarrow> (case prog k t of
                 c # cs \<Rightarrow> run_cmd c (k\<lparr>prog := (prog k)(t := cs)\<rparr>)
               | [] \<Rightarrow> Thread_Finish k))"

section \<open>Every thread is in one place\<close>

definition st :: "('g, 'k) kernel_scheme \<Rightarrow> nat \<Rightarrow> ThreadStatus option" where
  "st k t = map_option t_status (threads k t)"

definition asleep :: "('g, 'k) kernel_scheme \<Rightarrow> bool" where
  "asleep k \<longleftrightarrow> (\<exists>b fs. frames k (currentThread k) = F_SleepLoop b # fs)"

text \<open>A thread that waits for a semaphore goes on in the loop of \<open>P\<close>.\<close>

definition waits :: "('g, 'k) kernel_scheme \<Rightarrow> nat \<Rightarrow> sem_id \<Rightarrow> bool" where
  "waits k t s \<longleftrightarrow> (\<exists>fs. frames k t = (if t = currentThread k then [F_SleepLoop False] else []) @ F_PLoop s # fs)"

text \<open>The interrupt level at which each frame of a thread runs.\<close>

fun stack_ok :: "IntStatus \<Rightarrow> frame list \<Rightarrow> bool" where
  "stack_ok l [] = True"
| "stack_ok l (F_SetLevel l' # fs) = stack_ok l' fs"
| "stack_ok l (F_PLoop s # fs) \<longleftrightarrow> l = IntOff \<and> stack_ok l fs"
| "stack_ok l (F_SleepLoop b # fs) \<longleftrightarrow> l = IntOff \<and> stack_ok l fs"
| "stack_ok l (f # fs) = stack_ok l fs"

definition uses :: "nat \<Rightarrow> frame list \<Rightarrow> bool" where
  "uses w fs \<longleftrightarrow> F_P (WaitSem w) \<in> set fs \<or> F_PLoop (WaitSem w) \<in> set fs \<or> F_DeleteWait w \<in> set fs"

definition ready_ok :: "('g, 'k) kernel_scheme \<Rightarrow> bool" where
  "ready_ok k \<longleftrightarrow> distinct (readyList k) \<and> (\<forall>t. t \<in> set (readyList k) \<longleftrightarrow> st k t = Some READY)"

definition running_ok :: "('g, 'k) kernel_scheme \<Rightarrow> bool" where
  "running_ok k \<longleftrightarrow> (\<forall>t. st k t = Some RUNNING \<longleftrightarrow> t = currentThread k \<and> \<not> asleep k) \<and> threads k (currentThread k) \<noteq> None
     \<and> (\<forall>fs. frames k (currentThread k) = F_SleepLoop True # fs \<longrightarrow> st k (currentThread k) = Some BLOCKED)
     \<and> toBeDestroyed k = None \<and> (\<forall>t. threads k t \<noteq> None \<longrightarrow> t < next_tid k \<and> st k t \<noteq> Some JUST_CREATED)"

definition queues_ok :: "('g, 'k) kernel_scheme \<Rightarrow> bool" where
  "queues_ok k \<longleftrightarrow> (\<forall>s sm. semaphores k s = Some sm \<longrightarrow> 0 \<le> sem_value sm \<and> distinct (sem_queue sm)
     \<and> (\<forall>t \<in> set (sem_queue sm). st k t = Some BLOCKED \<and> waits k t s))"

definition blocked_ok :: "('g, 'k) kernel_scheme \<Rightarrow> bool" where
  "blocked_ok k \<longleftrightarrow> (\<forall>t. st k t = Some BLOCKED \<longrightarrow> (\<exists>s sm. semaphores k s = Some sm \<and> t \<in> set (sem_queue sm))
     \<or> t = currentThread k \<and> frames k t = [F_SleepLoop True])"

definition stacks_ok :: "('g, 'k) kernel_scheme \<Rightarrow> bool" where
  "stacks_ok k \<longleftrightarrow> stack_ok (int_level k) (frames k (currentThread k)) \<and> (\<forall>b. F_SleepLoop b \<notin> set (tl (frames k (currentThread k))))
     \<and> (\<forall>t. threads k t = None \<longrightarrow> frames k t = [])
     \<and> (\<forall>t. threads k t \<noteq> None \<longrightarrow> t \<noteq> currentThread k \<longrightarrow> stack_ok IntOff (frames k t) \<and> (\<forall>b. F_SleepLoop b \<notin> set (frames k t)))"

definition waiters_ok :: "('g, 'k) kernel_scheme \<Rightarrow> bool" where
  "waiters_ok k \<longleftrightarrow> (\<forall>w t t'. uses w (frames k t) \<longrightarrow> uses w (frames k t') \<longrightarrow> t = t')
     \<and> (\<forall>w t. uses w (frames k t) \<longrightarrow> w < next_wait k) \<and> (\<forall>w. semaphores k (WaitSem w) \<noteq> None \<longrightarrow> w < next_wait k)"

definition sched_inv :: "('g, 'k) kernel_scheme \<Rightarrow> bool" where
  "sched_inv k \<longleftrightarrow> ready_ok k \<and> running_ok k \<and> queues_ok k \<and> blocked_ok k \<and> stacks_ok k \<and> waiters_ok k"

lemmas sched_defs = sched_inv_def ready_ok_def running_ok_def queues_ok_def blocked_ok_def stacks_ok_def waiters_ok_def

lemma stack_ok_off: "stack_ok l fs \<Longrightarrow> stack_ok IntOff fs"
  by (induction l fs rule: stack_ok.induct) auto

end
