(* ===== verification/Sched_Inv.thy ===== *)
theory Sched_Inv
  imports Synch
begin

text \<open>
  Every step of the kernel keeps the invariant \<open>sched_inv\<close>: every thread is in one place.  The lemmas follow the
  code: changes of single fields, \<open>V\<close>, blocking and dispatching, interrupt handlers (the locale
  \<open>device_handlers\<close>), \<open>SetLevel\<close>, and last \<open>run_frame\<close>, \<open>run_cmd\<close> and \<open>kernel_step\<close>.
\<close>

lemma cur_running:
  assumes "sched_inv k" "\<not> asleep k"
  shows "st k (currentThread k) = Some RUNNING"
  using assms by (simp add: sched_inv_def running_ok_def)

lemma not_asleep: "sched_inv k \<Longrightarrow> \<not> asleep k \<Longrightarrow> F_SleepLoop b \<notin> set (frames k (currentThread k))"
  by (cases "frames k (currentThread k)") (auto simp add: sched_inv_def stacks_ok_def asleep_def)

text \<open>The current thread goes on: new frames, at a level that suits them.\<close>

lemma inv_set_frames:
  assumes inv: "sched_inv k" and aw: "\<not> asleep k" and ok: "stack_ok l fs" "\<And>b. F_SleepLoop b \<notin> set fs"
    and w: "\<And>w. uses w fs \<Longrightarrow> uses w (frames k (currentThread k))"
  shows "sched_inv (k\<lparr>frames := (frames k)(currentThread k := fs), int_level := l\<rparr>)"
proof -
  let ?k = "k\<lparr>frames := (frames k)(currentThread k := fs), int_level := l\<rparr>"
  have run: "st k (currentThread k) = Some RUNNING" by (rule cur_running [OF inv aw])
  have alive: "threads k (currentThread k) \<noteq> None" using run by (auto simp add: st_def)
  have aw': "\<not> asleep ?k" using ok(2) by (cases fs) (auto simp add: asleep_def)
  have [simp]: "st ?k = st k" by (simp add: st_def fun_eq_iff)
  have "waits ?k t s = waits k t s" if "st k t = Some BLOCKED" for t s
    using that run by (auto simp add: waits_def)
  then have "queues_ok ?k" using inv by (auto simp add: sched_inv_def queues_ok_def)
  moreover have "blocked_ok ?k" using inv run by (auto simp add: sched_inv_def blocked_ok_def)
  moreover have "stacks_ok ?k"
  proof -
    have "F_SleepLoop b \<notin> set (tl fs)" for b using ok(2) [of b] by (cases fs) auto
    then show ?thesis using inv ok alive by (auto simp add: sched_inv_def stacks_ok_def)
  qed
  moreover have "running_ok ?k" using inv aw aw' unfolding sched_inv_def running_ok_def by (auto simp add: asleep_def)
  moreover have "waiters_ok ?k" using inv w unfolding sched_inv_def waiters_ok_def by simp metis
  moreover have "ready_ok ?k" using inv by (simp add: sched_inv_def ready_ok_def)
  ultimately show ?thesis by (simp add: sched_inv_def)
qed

lemma inv_level_off: "sched_inv k \<Longrightarrow> sched_inv (k\<lparr>int_level := IntOff\<rparr>)"
  by (auto simp add: sched_defs asleep_def waits_def st_def dest: stack_ok_off)

text \<open>State that the invariant does not depend on.\<close>

lemma inv_other [simp]:
  "sched_inv (k\<lparr>registers := r\<rparr>) = sched_inv k" "sched_inv (k\<lparr>pending := p\<rparr>) = sched_inv k" "sched_inv (k\<lparr>inHandler := b\<rparr>) = sched_inv k"
  "sched_inv (k\<lparr>yieldOnReturn := b\<rparr>) = sched_inv k" "sched_inv (k\<lparr>totalTicks := n\<rparr>) = sched_inv k" "sched_inv (k\<lparr>idleTicks := n\<rparr>) = sched_inv k"
  "sched_inv (k\<lparr>systemTicks := n\<rparr>) = sched_inv k" "sched_inv (k\<lparr>userTicks := n\<rparr>) = sched_inv k" "sched_inv (k\<lparr>next_addr := a\<rparr>) = sched_inv k"
  "sched_inv (k\<lparr>status := s\<rparr>) = sched_inv k" "sched_inv (k\<lparr>lockHolder := h\<rparr>) = sched_inv k" "sched_inv (k\<lparr>waitQueue := q\<rparr>) = sched_inv k"
  "sched_inv (k\<lparr>prog := pr\<rparr>) = sched_inv k" "sched_inv (k\<lparr>glob := g\<rparr>) = sched_inv k" "sched_inv (k\<lparr>pageTable := t\<rparr>) = sched_inv k"
  "sched_inv (k\<lparr>pageTableSize := z\<rparr>) = sched_inv k"
  by (simp_all add: sched_defs asleep_def waits_def st_def)

lemma sched_inv_view:
  assumes "sched_inv k" "currentThread k' = currentThread k" "st k' = st k" "readyList k' = readyList k" "toBeDestroyed k' = toBeDestroyed k"
    "next_tid k' = next_tid k" "semaphores k' = semaphores k" "next_wait k' = next_wait k" "frames k' = frames k" "int_level k' = int_level k"
  shows "sched_inv k'"
proof -
  have "threads k' t = None \<longleftrightarrow> threads k t = None" for t
    using fun_cong [OF assms(3), of t] by (auto simp add: st_def split: option.splits)
  then show ?thesis using assms(1) unfolding sched_defs asleep_def waits_def assms(2-10) by simp
qed

lemma inv_ticked: "sched_inv (ticked k) = sched_inv (k\<lparr>int_level := IntOff\<rparr>)"
  by (simp add: ticked_def sched_defs asleep_def waits_def st_def)

lemma ticked_simps [simp]: "frames (ticked k) = frames k" "currentThread (ticked k) = currentThread k" "int_level (ticked k) = IntOff"
    "lockHolder (ticked k) = lockHolder k" "semaphores (ticked k) = semaphores k" "threads (ticked k) = threads k" "readyList (ticked k) = readyList k"
  by (simp_all add: ticked_def)

lemma V_body_cases:
  assumes "Semaphore_V_body s k = Inr k'"
  obtains (empty) sm where "semaphores k s = Some sm" "sem_queue sm = []"
      "k' = k\<lparr>semaphores := (semaphores k)(s \<mapsto> sm\<lparr>sem_value := sem_value sm + 1\<rparr>)\<rparr>"
    | (wake) sm t q th where "semaphores k s = Some sm" "sem_queue sm = t # q" "threads k t = Some th" "t \<notin> set (readyList k)" "int_level k = IntOff"
      "k' = k\<lparr>threads := (threads k)(t \<mapsto> th\<lparr>t_status := READY\<rparr>), readyList := readyList k @ [t],
              semaphores := (semaphores k)(s \<mapsto> sm\<lparr>sem_queue := q, sem_value := sem_value sm + 1\<rparr>)\<rparr>"
proof -
  obtain sm where sm: "semaphores k s = Some sm" using assms by (auto simp add: Semaphore_V_body_def bindE_eq_Inr)
  show ?thesis
  proof (cases "sem_queue sm")
    case Nil
    then show ?thesis using assms sm by (auto simp add: Semaphore_V_body_def set_sem_def intro: empty)
  next
    case (Cons t q)
    then show ?thesis using assms sm
      by (auto simp add: Semaphore_V_body_def lst_remove_front_def Scheduler_ReadyToRun_def Thread_setStatus_def set_thread_def set_sem_def
          bindE_eq_Inr lst_append_def split: if_splits intro!: wake)
  qed
qed

lemma inv_set_value:
  assumes inv: "sched_inv k" and s: "semaphores k s = Some sm" and v: "0 \<le> v"
  shows "sched_inv (k\<lparr>semaphores := (semaphores k)(s \<mapsto> sm\<lparr>sem_value := v\<rparr>)\<rparr>)"
proof -
  let ?k = "k\<lparr>semaphores := (semaphores k)(s \<mapsto> sm\<lparr>sem_value := v\<rparr>)\<rparr>"
  have [simp]: "st ?k = st k" "asleep ?k = asleep k" "waits ?k = waits k" by (simp_all add: st_def asleep_def waits_def fun_eq_iff)
  have q: "(\<exists>sm'. semaphores ?k s' = Some sm' \<and> t \<in> set (sem_queue sm')) \<longleftrightarrow> (\<exists>sm'. semaphores k s' = Some sm' \<and> t \<in> set (sem_queue sm'))" for t s'
    using s by (cases "s' = s") auto
  have "queues_ok ?k" using inv s v by (auto simp add: sched_inv_def queues_ok_def)
  moreover have "blocked_ok ?k" using inv unfolding sched_inv_def blocked_ok_def q by simp
  moreover have "waiters_ok ?k" using inv s by (auto simp add: sched_inv_def waiters_ok_def)
  moreover have "ready_ok ?k" "running_ok ?k" "stacks_ok ?k" using inv by (simp_all add: sched_inv_def ready_ok_def running_ok_def stacks_ok_def)
  ultimately show ?thesis by (simp add: sched_inv_def)
qed

lemma V_body_inv:
  assumes inv: "sched_inv k" and v: "Semaphore_V_body s k = Inr k'"
  shows "sched_inv k'"
  using v
proof (cases rule: V_body_cases)
  case (empty sm)
  moreover have "0 \<le> sem_value sm + 1" using inv empty(1) by (auto simp add: sched_inv_def queues_ok_def)
  ultimately show ?thesis using inv_set_value [OF inv] by simp
next
  case (wake sm t q th)
  have sm: "distinct (t # q)" "0 \<le> sem_value sm" "\<And>u. u \<in> set (t # q) \<Longrightarrow> st k u = Some BLOCKED \<and> waits k u s"
    using inv wake(1,2) unfolding sched_inv_def queues_ok_def by metis+
  have st': "st k' = (st k)(t \<mapsto> READY)" by (auto simp add: wake(6) st_def fun_eq_iff)
  have other: "t \<notin> set (sem_queue sm')" if "semaphores k s' = Some sm'" "s' \<noteq> s" for s' sm'
  proof
    assume "t \<in> set (sem_queue sm')"
    then have "waits k t s'" using inv that(1) by (auto simp add: sched_inv_def queues_ok_def)
    then show False using sm(3) [of t] that(2) by (auto simp add: waits_def split: if_splits)
  qed
  have [simp]: "frames k' = frames k" "currentThread k' = currentThread k" "asleep k' = asleep k" "waits k' = waits k"
    "toBeDestroyed k' = toBeDestroyed k" "next_tid k' = next_tid k" "int_level k' = int_level k" "next_wait k' = next_wait k"
    by (simp_all add: wake(6) asleep_def waits_def fun_eq_iff)
  have thr: "threads k' u = None \<longleftrightarrow> threads k u = None" for u using wake(3) by (simp add: wake(6))
  have r: "readyList k' = readyList k @ [t]" and sems: "semaphores k' = (semaphores k)(s \<mapsto> sm\<lparr>sem_queue := q, sem_value := sem_value sm + 1\<rparr>)"
    by (simp_all add: wake(6))
  have "ready_ok k'"
  proof -
    have "ready_ok k" using inv by (simp add: sched_inv_def)
    then show ?thesis using wake(4) unfolding ready_ok_def st' r by (simp add: disj_commute)
  qed
  moreover have "running_ok k'"
  proof -
    have "\<not> (t = currentThread k \<and> \<not> asleep k)" using sm(3) [of t] cur_running [OF inv] by fastforce
    moreover have "frames k t \<noteq> F_SleepLoop True # fs" if "t = currentThread k" for fs
      using sm(3) [of t] that by (auto simp add: waits_def)
    moreover have "running_ok k" using inv by (simp add: sched_inv_def)
    ultimately show ?thesis unfolding running_ok_def st' thr by auto
  qed
  moreover have "queues_ok k'"
    unfolding queues_ok_def
  proof (intro allI impI)
    fix s' sm'
    assume s': "semaphores k' s' = Some sm'"
    show "0 \<le> sem_value sm' \<and> distinct (sem_queue sm') \<and> (\<forall>u \<in> set (sem_queue sm'). st k' u = Some BLOCKED \<and> waits k' u s')"
    proof (cases "s' = s")
      case True
      then show ?thesis using s' sm by (auto simp add: sems st')
    next
      case False
      then have k: "semaphores k s' = Some sm'" using s' by (simp add: sems)
      have "queues_ok k" using inv by (simp add: sched_inv_def)
      then show ?thesis using k other [OF k False] unfolding queues_ok_def by (auto simp add: st')
    qed
  qed
  moreover have "blocked_ok k'"
    unfolding blocked_ok_def
  proof (intro allI impI)
    fix u
    assume u: "st k' u = Some BLOCKED"
    then have "u \<noteq> t" "st k u = Some BLOCKED" by (auto simp add: st' split: if_splits)
    then consider s' sm' where "semaphores k s' = Some sm'" "u \<in> set (sem_queue sm')" | "u = currentThread k" "frames k u = [F_SleepLoop True]"
      using inv unfolding sched_inv_def blocked_ok_def by metis
    then show "(\<exists>s sm. semaphores k' s = Some sm \<and> u \<in> set (sem_queue sm)) \<or> u = currentThread k' \<and> frames k' u = [F_SleepLoop True]"
    proof cases
      case (1 s' sm')
      then show ?thesis using wake(1,2) \<open>u \<noteq> t\<close> by (cases "s' = s") (auto simp add: sems)
    qed simp
  qed
  moreover have "stacks_ok k'" using inv unfolding sched_inv_def stacks_ok_def thr by simp
  moreover have "waiters_ok k'" using inv wake(1) by (auto simp add: sched_inv_def waiters_ok_def sems)
  ultimately show ?thesis by (simp add: sched_inv_def)
qed

lemma st_update: "threads k t = Some th \<Longrightarrow> st (k\<lparr>threads := (threads k)(t \<mapsto> th\<lparr>t_status := x\<rparr>)\<rparr>) = (st k)(t \<mapsto> x)"
  by (auto simp add: st_def fun_eq_iff)

text \<open>The current thread goes to sleep in the queue of a semaphore.\<close>

lemma inv_block:
  assumes inv: "sched_inv k" and aw: "\<not> asleep k" and off: "int_level k = IntOff" and s: "semaphores k s = Some sm" "sem_value sm = 0"
    and th: "threads k (currentThread k) = Some th" and fs: "frames k (currentThread k) = F_PLoop s # fs"
  shows "sched_inv (k\<lparr>semaphores := (semaphores k)(s \<mapsto> sm\<lparr>sem_queue := sem_queue sm @ [currentThread k]\<rparr>),
      threads := (threads k)(currentThread k \<mapsto> th\<lparr>t_status := BLOCKED\<rparr>),
      frames := (frames k)(currentThread k := F_SleepLoop False # F_PLoop s # fs)\<rparr>)" (is "sched_inv ?k")
proof -
  let ?c = "currentThread k"
  have run: "st k ?c = Some RUNNING" by (rule cur_running [OF inv aw])
  have st': "st ?k = (st k)(?c \<mapsto> BLOCKED)" using th by (auto simp add: st_def fun_eq_iff)
  have asl: "asleep ?k" unfolding asleep_def by (intro exI [of _ False]) simp
  have w: "waits ?k t s' = (if t = ?c then s' = s else waits k t s')" for t s' by (auto simp add: waits_def)
  have notin: "?c \<notin> set (sem_queue sm')" if "semaphores k s' = Some sm'" for s' sm'
    using inv that run by (auto simp add: sched_inv_def queues_ok_def)
  have us: "uses w' (F_SleepLoop False # F_PLoop s # fs) = uses w' (frames k ?c)" for w' by (simp add: uses_def fs)
  show ?thesis unfolding sched_inv_def
  proof (intro conjI)
    show "ready_ok ?k" using inv run unfolding sched_inv_def ready_ok_def st' by auto
    show "running_ok ?k" using inv th unfolding sched_inv_def running_ok_def st' using asl run by auto
    show "queues_ok ?k" using inv s notin unfolding sched_inv_def queues_ok_def st' w by (auto split: if_splits)
    show "blocked_ok ?k" unfolding blocked_ok_def st'
    proof (intro allI impI disjI1)
      fix t
      assume t: "((st k)(?c \<mapsto> BLOCKED)) t = Some BLOCKED"
      show "\<exists>s' sm'. semaphores ?k s' = Some sm' \<and> t \<in> set (sem_queue sm')"
      proof (cases "t = ?c")
        case True
        then show ?thesis by (intro exI [of _ s]) simp
      next
        case False
        then obtain s' sm' where "semaphores k s' = Some sm'" "t \<in> set (sem_queue sm')"
          using inv t unfolding sched_inv_def blocked_ok_def by auto
        then show ?thesis using s by (intro exI [of _ s']) auto
      qed
    qed
    have "stack_ok IntOff fs" "\<forall>b. F_SleepLoop b \<notin> set fs" using inv off fs not_asleep [OF inv aw] by (auto simp add: sched_inv_def stacks_ok_def)
    then show "stacks_ok ?k" using inv off th by (auto simp add: sched_inv_def stacks_ok_def)
    have "waiters_ok k" using inv by (simp add: sched_inv_def)
    then show "waiters_ok ?k" using s(1) unfolding waiters_ok_def by (auto simp add: us) 
  qed
qed

text \<open>The scheduler takes the first ready thread; the old one waits, or is deleted.\<close>

lemma inv_dispatch:
  assumes inv: "sched_inv k" and fs: "frames k (currentThread k) = F_SleepLoop b # fs" and r: "readyList k = n # r"
    and k': "currentThread k' = n" "frames k' = (frames k)(currentThread k := fs)" "readyList k' = r" "int_level k' = IntOff" "semaphores k' = semaphores k"
      "next_wait k' = next_wait k" "next_tid k' = next_tid k" "toBeDestroyed k' = None"
      "st k' = (if b then (st k)(currentThread k := None) else st k)(n \<mapsto> RUNNING)"
  shows "sched_inv k'"
proof -
  let ?c = "currentThread k"
  have asl: "asleep k" using fs by (auto simp add: asleep_def)
  have rdy: "distinct (n # r)" "\<And>t. t \<in> set (n # r) \<longleftrightarrow> st k t = Some READY" using inv r unfolding sched_inv_def ready_ok_def by metis+
  have fin: "b \<Longrightarrow> st k ?c = Some BLOCKED" and none: "\<And>t. threads k t \<noteq> None \<Longrightarrow> t < next_tid k \<and> st k t \<noteq> Some JUST_CREATED"
      and nr: "\<And>t. st k t \<noteq> Some RUNNING"
    using inv fs asl unfolding sched_inv_def running_ok_def by auto
  have n: "st k n = Some READY" "b \<Longrightarrow> n \<noteq> ?c" using rdy(2) [of n] fin by auto
  have rc: "b \<Longrightarrow> ?c \<notin> set r" using rdy(2) [of ?c] fin by auto
  have thr: "threads k' t = None \<longleftrightarrow> st k' t = None" "threads k t = None \<longleftrightarrow> st k t = None" for t by (simp_all add: st_def)
  have sok: "\<forall>b. F_SleepLoop b \<notin> set fs" "stack_ok IntOff fs"
    using inv fs unfolding sched_inv_def stacks_ok_def by auto
  have fr: "F_SleepLoop b' \<notin> set (frames k' t) \<and> stack_ok IntOff (frames k' t)" if "st k t \<noteq> None" for t b'
    using inv sok that fs unfolding sched_inv_def stacks_ok_def k'(2) thr by auto
  have fin_fs: "fs = []" if b
  proof -
    have "\<not> (\<exists>s sm. semaphores k s = Some sm \<and> ?c \<in> set (sem_queue sm))"
      using inv fs \<open>b\<close> unfolding sched_inv_def queues_ok_def waits_def by fastforce
    then show "fs = []" using inv fs fin [OF that] unfolding sched_inv_def blocked_ok_def by auto
  qed
  have dead: "frames k' t = []" if "st k' t = None" for t
  proof -
    have "st k t = None \<or> b \<and> t = ?c" "t \<noteq> n" using that by (auto simp add: k'(9) split: if_splits)
    moreover have "st k ?c \<noteq> None" using inv by (auto simp add: sched_inv_def running_ok_def st_def)
    ultimately show ?thesis using fin_fs inv by (auto simp add: k'(2) sched_inv_def stacks_ok_def st_def)
  qed
  have nasl: "\<not> asleep k'" using fr [of n] n unfolding asleep_def k'(1) by (cases "frames k' n") auto
  have w: "waits k' t s" if "waits k t s" "t \<noteq> n" for t s
    using that fs by (auto simp add: waits_def k'(1,2))
  show ?thesis unfolding sched_inv_def
  proof (intro conjI)
    show "ready_ok k'" using rdy rc unfolding ready_ok_def k'(3,9) by (auto split: if_splits)
    have "t < next_tid k \<and> st k t \<noteq> Some JUST_CREATED" if "st k t \<noteq> None" for t using none [of t] that by (simp add: thr(2))
    moreover have "frames k' n \<noteq> F_SleepLoop b' # gs" for b' gs using nasl by (auto simp add: asleep_def k'(1))
    ultimately show "running_ok k'" using nasl nr n(1) unfolding running_ok_def thr(1) k'(1,7,8,9) by auto
    show "queues_ok k'" unfolding queues_ok_def k'(5)
    proof (intro allI impI)
      fix s sm
      assume "semaphores k s = Some sm"
      then have sm: "0 \<le> sem_value sm" "distinct (sem_queue sm)" "\<And>t. t \<in> set (sem_queue sm) \<Longrightarrow> st k t = Some BLOCKED \<and> waits k t s"
        using inv unfolding sched_inv_def queues_ok_def by metis+
      have "st k' t = Some BLOCKED \<and> waits k' t s" if t: "t \<in> set (sem_queue sm)" for t
      proof -
        have "t \<noteq> n" using sm(3) [OF t] n(1) by auto
        moreover have "\<not> (b \<and> t = ?c)" using sm(3) [OF t] fs by (auto simp add: waits_def)
        ultimately show ?thesis using sm(3) [OF t] w by (auto simp add: k'(9))
      qed
      then show "0 \<le> sem_value sm \<and> distinct (sem_queue sm) \<and> (\<forall>t \<in> set (sem_queue sm). st k' t = Some BLOCKED \<and> waits k' t s)"
        using sm by blast
    qed
    show "blocked_ok k'" using inv fs unfolding sched_inv_def blocked_ok_def k'(5,9) by (auto split: if_splits)
    have "F_SleepLoop b' \<notin> set (tl (frames k' n))" for b' using fr [of n b'] n(1) by (cases "frames k' n") auto
    then show "stacks_ok k'" using fr n(1) dead unfolding stacks_ok_def k'(1,4) thr k'(9) by (auto split: if_splits)
    have "uses w (frames k' t) \<Longrightarrow> uses w (frames k t)" for w t using fs by (auto simp add: k'(2) uses_def split: if_splits)
    then show "waiters_ok k'" using inv unfolding sched_inv_def waiters_ok_def k'(5,6) by blast
  qed
qed

lemma inv_ready_asleep:
  assumes inv: "sched_inv k" and aw: "\<not> asleep k" and th: "threads k (currentThread k) = Some th" and l: "stack_ok (int_level k) (frames k (currentThread k))"
  shows "sched_inv (k\<lparr>int_level := IntOff, threads := (threads k)(currentThread k \<mapsto> th\<lparr>t_status := READY\<rparr>), readyList := readyList k @ [currentThread k],
      frames := (frames k)(currentThread k := F_SleepLoop False # F_SetLevel (int_level k) # frames k (currentThread k))\<rparr>)" (is "sched_inv ?k")
proof -
  let ?c = "currentThread k"
  have run: "st k ?c = Some RUNNING" by (rule cur_running [OF inv aw])
  have st': "st ?k = (st k)(?c \<mapsto> READY)" using th by (auto simp add: st_def fun_eq_iff)
  have asl: "asleep ?k" unfolding asleep_def by (intro exI [of _ False]) simp
  have w: "waits ?k t s' = waits k t s'" if "t \<noteq> ?c" for t s' using that by (auto simp add: waits_def)
  have us: "uses w' (F_SleepLoop False # F_SetLevel (int_level k) # frames k ?c) = uses w' (frames k ?c)" for w' by (simp add: uses_def)
  show ?thesis unfolding sched_inv_def
  proof (intro conjI)
    have "ready_ok k" "?c \<notin> set (readyList k)" using inv run by (auto simp add: sched_inv_def ready_ok_def)
    then show "ready_ok ?k" unfolding ready_ok_def st' by auto
    show "running_ok ?k" using inv th unfolding sched_inv_def running_ok_def st' using asl run by auto
    have "queues_ok k" using inv by (simp add: sched_inv_def)
    then show "queues_ok ?k" using run w unfolding queues_ok_def st' by (auto simp del: split_paired_All)
    show "blocked_ok ?k" using inv run unfolding sched_inv_def blocked_ok_def st' by auto
    show "stacks_ok ?k" using inv l th not_asleep [OF inv aw] by (auto simp add: sched_inv_def stacks_ok_def)
    have "waiters_ok k" using inv by (simp add: sched_inv_def)
    then show "waiters_ok ?k" unfolding waiters_ok_def by (auto simp add: us)
  qed
qed

lemma inv_delete_wait:
  assumes inv: "sched_inv k" and aw: "\<not> asleep k" and fs: "F_DeleteWait w \<in> set (frames k (currentThread k))"
  shows "sched_inv (k\<lparr>semaphores := (semaphores k)(WaitSem w := None)\<rparr>)" (is "sched_inv ?k")
proof -
  have own: "sem_queue sm = []" if sm: "semaphores k (WaitSem w) = Some sm" for sm
  proof (rule ccontr)
    assume "sem_queue sm \<noteq> []"
    then obtain t where t: "t \<in> set (sem_queue sm)" by (meson last_in_set)
    then have "waits k t (WaitSem w)" "st k t = Some BLOCKED" using inv sm unfolding sched_inv_def queues_ok_def by auto
    then have "uses w (frames k t)" "t \<noteq> currentThread k" using cur_running [OF inv aw] by (auto simp add: waits_def uses_def)
    moreover have "uses w (frames k (currentThread k))" using fs by (simp add: uses_def)
    ultimately show False using inv unfolding sched_inv_def waiters_ok_def by blast
  qed
  have [simp]: "st ?k = st k" "asleep ?k = asleep k" "waits ?k = waits k" by (simp_all add: st_def asleep_def waits_def fun_eq_iff)
  have q: "(\<exists>sm. semaphores ?k s' = Some sm \<and> t \<in> set (sem_queue sm)) \<longleftrightarrow> (\<exists>sm. semaphores k s' = Some sm \<and> t \<in> set (sem_queue sm))" for t s'
    using own by (cases "s' = WaitSem w") auto
  have "queues_ok ?k" using inv by (auto simp add: sched_inv_def queues_ok_def)
  moreover have "blocked_ok ?k" using inv unfolding sched_inv_def blocked_ok_def q by simp
  moreover have "waiters_ok ?k" using inv by (auto simp add: sched_inv_def waiters_ok_def)
  moreover have "ready_ok ?k" "running_ok ?k" "stacks_ok ?k" using inv by (simp_all add: sched_inv_def ready_ok_def running_ok_def stacks_ok_def)
  ultimately show ?thesis by (simp add: sched_inv_def)
qed

lemma Semaphore_new_simps [simp]: "sem_value (Semaphore_new v) = v" "sem_queue (Semaphore_new v) = []"
  by (simp_all add: Semaphore_new_def)

lemma inv_new_wait:
  assumes inv: "sched_inv k" and aw: "\<not> asleep k" and w: "next_wait k = w"
    and fs: "stack_ok (int_level k) fs" "\<And>b. F_SleepLoop b \<notin> set fs" "\<And>v. uses v fs \<Longrightarrow> uses v (frames k (currentThread k)) \<or> v = w"
  shows "sched_inv (k\<lparr>semaphores := (semaphores k)(WaitSem w \<mapsto> Semaphore_new 0), next_wait := Suc w, frames := (frames k)(currentThread k := fs)\<rparr>)"
    (is "sched_inv ?k")
proof -
  let ?k1 = "k\<lparr>semaphores := (semaphores k)(WaitSem w \<mapsto> Semaphore_new 0)\<rparr>"
  have fresh: "semaphores k (WaitSem w) = None" "\<And>t. \<not> uses w (frames k t)" using inv w unfolding sched_inv_def waiters_ok_def by auto
  have run: "st k (currentThread k) = Some RUNNING" by (rule cur_running [OF inv aw])
  have [simp]: "st ?k = st k" by (simp add: st_def fun_eq_iff)
  have wt: "waits ?k t s = waits k t s" if "st k t = Some BLOCKED" for t s using that run by (auto simp add: waits_def)
  have aw': "\<not> asleep ?k" using fs(2) by (cases fs) (auto simp add: asleep_def)
  have fs': "F_SleepLoop b \<notin> set (tl fs)" for b using fs(2) [of b] by (cases fs) auto
  show ?thesis unfolding sched_inv_def
  proof (intro conjI)
    show "ready_ok ?k" using inv by (simp add: sched_inv_def ready_ok_def)
    show "running_ok ?k" using inv aw aw' unfolding sched_inv_def running_ok_def by (auto simp add: asleep_def)
    have "queues_ok k" using inv by (simp add: sched_inv_def)
    then show "queues_ok ?k" using run wt unfolding queues_ok_def by (auto split: if_splits)
    have "blocked_ok k" using inv by (simp add: sched_inv_def)
    then show "blocked_ok ?k" using run fresh(1) unfolding blocked_ok_def by (auto split: if_splits) (metis option.distinct(1))
    have "threads k (currentThread k) \<noteq> None" using run by (auto simp add: st_def)
    then show "stacks_ok ?k" using inv fs fs' by (auto simp add: sched_inv_def stacks_ok_def)
    have "waiters_ok k" using inv by (simp add: sched_inv_def)
    then show "waiters_ok ?k" using fresh fs(3) w unfolding waiters_ok_def by (auto simp add: less_Suc_eq) metis+
  qed
qed

section \<open>Interrupt handlers\<close>

text \<open>
  What the handlers of the devices do to the kernel: they schedule interrupts, ask for a context
  switch, call \<open>V\<close> on the semaphore that a thread waits on for the device, and change data of their own.
\<close>

inductive device_acts :: "('g, 'k) kernel_scheme \<Rightarrow> ('g, 'k) kernel_scheme \<Rightarrow> bool" where
  acts_none: "device_acts k k"
| acts_schedule: "device_acts k k' \<Longrightarrow> Interrupt_Schedule d n ty k' = Inr k'' \<Longrightarrow> device_acts k k''"
| acts_yield: "device_acts k k' \<Longrightarrow> Interrupt_YieldOnReturn k' = Inr k'' \<Longrightarrow> device_acts k k''"
| acts_V: "device_acts k k' \<Longrightarrow> Semaphore_V_body (SemObj s) k' = Inr k'' \<Longrightarrow> device_acts k k''"
| acts_data: "device_acts k k' \<Longrightarrow> device_acts k (k'\<lparr>glob := g\<rparr>)"

locale device_handlers =
  fixes h :: "('g, 'k) kernel_ext devices"
  assumes acts: "h d k = Inr k' \<Longrightarrow> device_acts k k'"

text \<open>A property that nothing in the handling of interrupts can change.\<close>

definition stable :: "(('g, 'k) kernel_scheme \<Rightarrow> bool) \<Rightarrow> bool" where
  "stable P \<longleftrightarrow> (\<forall>k k'. P k \<longrightarrow> device_acts k k' \<longrightarrow> P k')
     \<and> (\<forall>k r p b n a u. P k \<longrightarrow> P (k\<lparr>registers := r\<rparr>) \<and> P (k\<lparr>pending := p\<rparr>) \<and> P (k\<lparr>inHandler := b\<rparr>)
          \<and> P (k\<lparr>idleTicks := n, totalTicks := a\<rparr>) \<and> P (k\<lparr>status := u\<rparr>))"

lemma stableI:
  assumes "\<And>k k'. P k \<Longrightarrow> device_acts k k' \<Longrightarrow> P k'"
    and "\<And>k r. P k \<Longrightarrow> P (k\<lparr>registers := r\<rparr>)" "\<And>k p. P k \<Longrightarrow> P (k\<lparr>pending := p\<rparr>)" "\<And>k b. P k \<Longrightarrow> P (k\<lparr>inHandler := b\<rparr>)"
      "\<And>k n a. P k \<Longrightarrow> P (k\<lparr>idleTicks := n, totalTicks := a\<rparr>)" "\<And>k u. P k \<Longrightarrow> P (k\<lparr>status := u\<rparr>)"
  shows "stable P"
  unfolding stable_def by (intro conjI allI impI; rule assms; assumption)

lemma stableD:
  assumes "stable P" "P k"
  shows "device_acts k k' \<Longrightarrow> P k'" "P (k\<lparr>registers := r\<rparr>)" "P (k\<lparr>pending := p\<rparr>)" "P (k\<lparr>inHandler := b\<rparr>)"
    "P (k\<lparr>idleTicks := n, totalTicks := a\<rparr>)" "P (k\<lparr>status := u\<rparr>)"
  using assms unfolding stable_def by blast+

context device_handlers
begin

lemma fire_stable: "stable P \<Longrightarrow> P k \<Longrightarrow> Interrupt_fire h n k = Inr k' \<Longrightarrow> P k'"
proof (induction n arbitrary: k)
  case (Suc n)
  obtain p q where r: "lst_remove_front (pending k) = Inr (p, q)" using Suc.prems(3) by (cases "lst_remove_front (pending k)") auto
  obtain k1 where k1: "h (callOnInterrupt p) (k\<lparr>pending := q\<rparr>) = Inr k1"
    "(if pending k1 \<noteq> [] \<and> pi_when (hd (pending k1)) \<le> totalTicks k1 then Interrupt_fire h n k1 else Inr k1) = Inr k'"
    using Suc.prems(3) r by (cases "h (callOnInterrupt p) (k\<lparr>pending := q\<rparr>)") auto
  have "P k1" using stableD(1) [OF Suc.prems(1) stableD(3) [OF Suc.prems(1,2)]] acts [OF k1(1)] by blast
  then show ?case using Suc.IH [OF Suc.prems(1)] k1(2) by (auto split: if_splits)
qed simp

lemma CheckIfDue_stable:
  assumes P: "stable P" "P k" and c: "Interrupt_CheckIfDue h adv k = Inr (r, k')"
  shows "P k'"
proof (cases "pending k = [] \<or> pi_when (hd (pending k)) > totalTicks k \<and> \<not> adv")
  case True
  then show ?thesis using c P(2) by (auto simp add: Interrupt_CheckIfDue_def bindE_eq_Inr Let_def split: if_splits)
next
  case False
  define k0 where "k0 = (if pi_when (hd (pending k)) > totalTicks k
      then k\<lparr>idleTicks := idleTicks k + (pi_when (hd (pending k)) - totalTicks k), totalTicks := pi_when (hd (pending k))\<rparr> else k)"
  have "P k0" using P stableD(5) [OF P] by (simp add: k0_def)
  obtain k1 k2 where k1: "Machine_DelayedLoad 0 0 k0 = Inr k1"
    and k2: "Interrupt_fire h (length (pending k1)) (k1\<lparr>inHandler := True\<rparr>) = Inr k2" "k' = k2\<lparr>inHandler := False\<rparr>"
    using c False unfolding Interrupt_CheckIfDue_def Let_def k0_def [symmetric] by (auto simp add: bindE_eq_Inr split: if_splits)
  have "P k1" using k1 stableD(2) [OF P(1) \<open>P k0\<close>] by (auto simp add: Machine_DelayedLoad_def Let_def split: if_splits)
  then have "P k2" using fire_stable [OF P(1) stableD(4) [OF P(1)] k2(1)] by blast
  then show ?thesis unfolding k2(2) by (rule stableD(4) [OF P(1)])
qed

lemma Idle_stable:
  assumes P: "stable P" "P k" and c: "Interrupt_Idle h k = Inr k'"
  shows "P k'"
proof -
  obtain k1 where k1: "Interrupt_CheckIfDue h True (k\<lparr>status := IdleMode\<rparr>) = Inr (True, k1)" "k' = k1\<lparr>status := SystemMode\<rparr>"
    using c by (auto simp add: Interrupt_Idle_def bindE_eq_Inr split: if_splits)
  have "P k1" by (rule CheckIfDue_stable [OF P(1) stableD(6) [OF P] k1(1)])
  then show ?thesis unfolding k1(2) by (rule stableD(6) [OF P(1)])
qed

end

text \<open>The invariant, with the frames and the current thread fixed, is such a property while interrupts are off.\<close>

definition inv_off :: "nat \<Rightarrow> (nat \<Rightarrow> frame list) \<Rightarrow> ('g, 'k) kernel_scheme \<Rightarrow> bool" where
  "inv_off c F k \<longleftrightarrow> sched_inv k \<and> int_level k = IntOff \<and> currentThread k = c \<and> frames k = F"

lemma V_body_fields:
  assumes "Semaphore_V_body s k = Inr k'"
  shows "frames k' = frames k" "currentThread k' = currentThread k" "int_level k' = int_level k" "lockHolder k' = lockHolder k"
    "waitQueue k' = waitQueue k" "prog k' = prog k" "glob k' = glob k" "status k' = status k" "\<And>s'. s' \<noteq> s \<Longrightarrow> semaphores k' s' = semaphores k s'"
  using assms by (cases rule: V_body_cases; simp)+

lemma device_acts_inv: "device_acts k k' \<Longrightarrow> inv_off c F k \<Longrightarrow> inv_off c F k'"
proof (induction rule: device_acts.induct)
  case (acts_schedule k k' d n ty k'')
  then show ?case by (auto simp add: inv_off_def Interrupt_Schedule_def bindE_eq_Inr Let_def)
next
  case (acts_yield k k' k'')
  then show ?case by (auto simp add: inv_off_def Interrupt_YieldOnReturn_def bindE_eq_Inr)
next
  case (acts_V k k' s k'')
  then show ?case using V_body_inv V_body_fields unfolding inv_off_def by metis
qed (simp_all add: inv_off_def)

lemma inv_off_stable: "stable (inv_off c F)"
  by (rule stableI) (auto simp add: inv_off_def dest: device_acts_inv [unfolded inv_off_def])

section \<open>Every step keeps the invariant\<close>

lemma awake_frame:
  assumes "sched_inv k" "frames k (currentThread k) = f # fs" "\<And>b. f \<noteq> F_SleepLoop b"
  shows "\<not> asleep k" "F_SleepLoop b \<notin> set fs" "stack_ok (int_level k) (f # fs)"
  using assms not_asleep [of k b] by (auto simp add: asleep_def sched_inv_def stacks_ok_def)

text \<open>A frame is replaced by others that run at the same level.\<close>

lemma inv_replace:
  assumes inv: "sched_inv k" and fr: "frames k (currentThread k) = f # fs" "\<And>b. f \<noteq> F_SleepLoop b"
    and gs: "stack_ok l (gs @ fs)" "\<And>b. F_SleepLoop b \<notin> set gs" "\<And>w. uses w (gs @ fs) \<Longrightarrow> uses w (f # fs)"
  shows "sched_inv (k\<lparr>frames := (frames k)(currentThread k := gs @ fs), int_level := l\<rparr>)"
  using inv_set_frames [OF inv awake_frame(1) [OF inv fr] gs(1)] gs awake_frame(2) [OF inv fr] fr(1) by auto

lemma inv_replace':
  assumes "sched_inv k" "frames k (currentThread k) = f # fs" "\<And>b. f \<noteq> F_SleepLoop b"
    and "stack_ok (int_level k) (gs @ fs)" "\<And>b. F_SleepLoop b \<notin> set gs" "\<And>w. uses w (gs @ fs) \<Longrightarrow> uses w (f # fs)"
  shows "sched_inv (push gs (k\<lparr>frames := (frames k)(currentThread k := fs)\<rparr>))"
  using inv_replace [OF assms] by (simp add: push_def)

lemma stack_ok_SetLevel: "stack_ok l (f # fs) \<Longrightarrow> \<forall>l'. f \<noteq> F_SetLevel l' \<Longrightarrow> stack_ok l fs"
  by (cases f) auto

lemma inv_pop:
  assumes inv: "sched_inv k" and fr: "frames k (currentThread k) = f # fs" "\<And>b. f \<noteq> F_SleepLoop b" "\<forall>l. f \<noteq> F_SetLevel l"
  shows "sched_inv (k\<lparr>frames := (frames k)(currentThread k := fs)\<rparr>)"
  using inv_replace' [OF inv fr(1,2), of "[]"] stack_ok_SetLevel [OF awake_frame(3) [OF inv fr(1,2)] fr(3)]
  by (auto simp add: push_def uses_def)

lemma SetLevel_inv:
  assumes dh: "device_handlers h" and inv: "sched_inv k" and fr: "frames k (currentThread k) = F_SetLevel l # fs"
    and s: "run_frame h (F_SetLevel l) (k\<lparr>frames := (frames k)(currentThread k := fs)\<rparr>) = Inr k'"
  shows "sched_inv k'"
proof -
  let ?c = "currentThread k"
  let ?k1 = "k\<lparr>frames := (frames k)(?c := fs)\<rparr>"
  have ok: "stack_ok l fs" "stack_ok IntOff fs" using awake_frame(3) [OF inv fr] by (auto intro: stack_ok_off)
  have set: "sched_inv (?k1\<lparr>int_level := l'\<rparr>)" if "stack_ok l' fs" for l'
    using inv_replace [OF inv fr, of l' "[]"] that by (auto simp add: uses_def)
  obtain old y k2 where sl: "Interrupt_SetLevel h l ?k1 = Inr (old, y, k2)"
    and k': "k' = (case y of None \<Rightarrow> k2 | Some u \<Rightarrow> push [F_Yield, F_SetStatus u] k2)"
    using s by (auto simp add: bindE_eq_Inr)
  show ?thesis
  proof (cases "l = IntOn \<and> int_level k = IntOff")
    case False
    then have "y = None" "k2 = ?k1\<lparr>int_level := l\<rparr>"
      using sl by (auto simp add: Interrupt_SetLevel_def Interrupt_ChangeLevel_def bindE_eq_Inr Let_def split: if_splits)
    then show ?thesis using set [OF ok(1)] k' by simp
  next
    case True
    then have "Interrupt_OneTick h (?k1\<lparr>int_level := IntOn\<rparr>) = Inr (y, k2)"
      using sl by (auto simp add: Interrupt_SetLevel_def Interrupt_ChangeLevel_def bindE_eq_Inr Let_def)
    then obtain k3 r where c: "Interrupt_CheckIfDue h False (ticked (?k1\<lparr>int_level := IntOn\<rparr>)) = Inr (r, k3)"
      and k2: "k2 = (case y of None \<Rightarrow> k3\<lparr>int_level := IntOn\<rparr> | Some _ \<Rightarrow> k3\<lparr>int_level := IntOn, yieldOnReturn := False, status := SystemMode\<rparr>)"
      by (auto simp add: OneTick_eq bindE_eq_Inr split: if_splits)
    have "inv_off ?c (frames ?k1) (ticked (?k1\<lparr>int_level := IntOn\<rparr>))" using set [OF ok(2)] by (simp add: inv_off_def inv_ticked)
    from device_handlers.CheckIfDue_stable [OF dh inv_off_stable this c]
    have k3: "sched_inv k3" "int_level k3 = IntOff" "currentThread k3 = ?c" "frames k3 = frames ?k1" by (auto simp add: inv_off_def)
    have nosl: "F_SleepLoop b \<notin> set fs" for b using awake_frame(2) [OF inv fr] by auto
    then have aw: "\<not> asleep k3" using k3 by (cases fs) (auto simp add: asleep_def)
    have "sched_inv (k3\<lparr>frames := (frames k3)(?c := gs), int_level := IntOn\<rparr>)" if "gs = fs \<or> (\<exists>u. gs = F_Yield # F_SetStatus u # fs)" for gs
      using inv_set_frames [OF k3(1) aw, of IntOn gs] that ok(1) True nosl k3 by (auto simp add: uses_def)
    then have "sched_inv (k3\<lparr>frames := (frames k3)(?c := (case y of None \<Rightarrow> [] | Some u \<Rightarrow> [F_Yield, F_SetStatus u]) @ fs), int_level := IntOn\<rparr>)"
      by (cases y) auto
    then show ?thesis by (rule sched_inv_view) (auto simp add: k' k2 push_def k3 st_def fun_eq_iff split: option.split)
  qed
qed

lemma Run_view:
  assumes inv: "sched_inv k" and off: "int_level k = IntOff" and n: "threads k1 n \<noteq> None" "b \<Longrightarrow> n \<noteq> currentThread k"
    and k1: "currentThread k1 = currentThread k" "threads k1 (currentThread k) \<noteq> None" "int_level k1 = IntOff" "toBeDestroyed k1 = None"
    and r: "Scheduler_Run n b k1 = Inr k'"
  shows "currentThread k' = n \<and> frames k' = frames k1 \<and> readyList k' = readyList k1 \<and> int_level k' = IntOff \<and> semaphores k' = semaphores k1
    \<and> next_wait k' = next_wait k1 \<and> next_tid k' = next_tid k1 \<and> toBeDestroyed k' = None
    \<and> st k' = (if b then (st k1)(currentThread k := None) else st k1)(n \<mapsto> RUNNING)"
proof -
  obtain old th where t: "threads k1 (currentThread k1) = Some old" "threads k1 n = Some th" using n k1(1,2) by auto
  show ?thesis
  proof (cases b)
    case True
    then show ?thesis using Run_finish [OF k1(3,4) t] n(2) r k1(1,3) by (auto simp add: st_def fun_eq_iff)
  next
    case False
    then show ?thesis using Run_switch [OF k1(3,4) t] r k1(1,3,4) t by (auto simp add: st_def fun_eq_iff)
  qed
qed

lemma SleepLoop_inv:
  assumes dh: "device_handlers h" and inv: "sched_inv k" and fr: "frames k (currentThread k) = F_SleepLoop b # fs"
    and s: "Thread_Sleep_loop h b (k\<lparr>frames := (frames k)(currentThread k := fs)\<rparr>) = Inr k'"
  shows "sched_inv k'"
proof -
  let ?c = "currentThread k"
  let ?k1 = "k\<lparr>frames := (frames k)(?c := fs)\<rparr>"
  have off: "int_level k = IntOff" using inv fr by (simp add: sched_inv_def stacks_ok_def)
  show ?thesis
  proof (cases "readyList k")
    case Nil
    then have "Interrupt_Idle h (push [F_SleepLoop b] ?k1) = Inr k'" using s off by (simp add: Thread_Sleep_loop_def Scheduler_FindNextToRun_def)
    moreover have "inv_off ?c (frames k) (push [F_SleepLoop b] ?k1)"
      using inv off fr by (simp add: inv_off_def push_def fun_upd_idem)
    ultimately have "inv_off ?c (frames k) k'" using device_handlers.Idle_stable [OF dh inv_off_stable] by blast
    then show ?thesis by (simp add: inv_off_def)
  next
    case (Cons n r)
    have n: "st k n = Some READY" using inv Cons by (auto simp add: sched_inv_def ready_ok_def)
    have bn: "b \<Longrightarrow> n \<noteq> ?c" using inv n fr by (auto simp add: sched_inv_def running_ok_def)
    have run: "Scheduler_Run n b (?k1\<lparr>readyList := r\<rparr>) = Inr k'"
      using s off Cons by (simp add: Thread_Sleep_loop_def Scheduler_FindNextToRun_def lst_remove_front_def)
    have "threads k ?c \<noteq> None" "toBeDestroyed k = None" "threads k n \<noteq> None"
      using inv n by (auto simp add: sched_inv_def running_ok_def st_def)
    from Run_view [OF inv off _ bn _ _ _ _ run] this off inv_dispatch [OF inv fr Cons, of k']
    show ?thesis by (simp add: st_def fun_eq_iff)
  qed
qed

lemma Yield_inv:
  assumes inv: "sched_inv k" and aw: "\<not> asleep k" and s: "Thread_Yield k = Inr k'"
  shows "sched_inv k'"
proof -
  let ?c = "currentThread k"
  have fs: "stack_ok (int_level k) (frames k ?c)" using inv by (simp add: sched_inv_def stacks_ok_def)
  obtain th where th: "threads k ?c = Some th" using inv by (auto simp add: sched_inv_def running_ok_def)
  show ?thesis
  proof (cases "readyList k")
    case Nil
    then have "k' = push [F_SetLevel (int_level k)] (k\<lparr>int_level := IntOff\<rparr>)" using s by (simp add: Thread_Yield_def Scheduler_FindNextToRun_def Let_def)
    moreover have "sched_inv (k\<lparr>frames := (frames k)(?c := F_SetLevel (int_level k) # frames k ?c), int_level := IntOff\<rparr>)"
      using fs not_asleep [OF inv aw] by (intro inv_set_frames [OF inv aw]) (auto simp add: uses_def)
    ultimately show ?thesis by (auto elim!: sched_inv_view simp add: push_def st_def)
  next
    case (Cons n r)
    let ?k2 = "k\<lparr>int_level := IntOff, threads := (threads k)(?c \<mapsto> th\<lparr>t_status := READY\<rparr>), readyList := readyList k @ [?c],
      frames := (frames k)(?c := F_SleepLoop False # F_SetLevel (int_level k) # frames k ?c)\<rparr>"
    let ?k3 = "k\<lparr>int_level := IntOff, frames := (frames k)(?c := F_SetLevel (int_level k) # frames k ?c),
      threads := (threads k)(?c \<mapsto> th\<lparr>t_status := READY\<rparr>), readyList := r @ [?c]\<rparr>"
    have n: "st k n = Some READY" "?c \<notin> set (n # r)"
      using inv Cons cur_running [OF inv aw] unfolding sched_inv_def ready_ok_def by auto
    have "Scheduler_Run n False ?k3 = Inr k'"
      using s Cons th n(2) by (simp add: Thread_Yield_def Scheduler_FindNextToRun_def lst_remove_front_def push_def Scheduler_ReadyToRun_def
          Thread_setStatus_def set_thread_def lst_append_def Let_def)
    from Run_view [OF inv_ready_asleep [OF inv aw th fs], where ?k1.0 = ?k3, OF _ _ _ _ _ _ _ this]
    have v: "currentThread k' = n \<and> frames k' = frames ?k3 \<and> readyList k' = r @ [?c] \<and> int_level k' = IntOff \<and> semaphores k' = semaphores k
      \<and> next_wait k' = next_wait k \<and> next_tid k' = next_tid k \<and> toBeDestroyed k' = None \<and> st k' = (st ?k3)(n \<mapsto> RUNNING)"
      using inv n by (auto simp add: sched_inv_def running_ok_def st_def)
    have "st ?k3 = st ?k2" by (simp add: st_def fun_eq_iff)
    with v show ?thesis
      by (intro inv_dispatch [OF inv_ready_asleep [OF inv aw th fs], where ?k' = k' and b = False and fs = "F_SetLevel (int_level k) # frames k ?c"
            and n = n and r = "r @ [?c]"]) (simp_all add: Cons)
  qed
qed

lemma P_loop_inv:
  assumes inv: "sched_inv k" and fr: "frames k (currentThread k) = F_PLoop s # fs"
    and s: "Semaphore_P_loop s (k\<lparr>frames := (frames k)(currentThread k := fs)\<rparr>) = Inr k'"
  shows "sched_inv k'"
proof -
  let ?c = "currentThread k"
  have aw: "\<not> asleep k" using fr by (simp add: asleep_def)
  have off: "int_level k = IntOff" using inv fr by (simp add: sched_inv_def stacks_ok_def)
  obtain th where th: "threads k ?c = Some th" using inv by (auto simp add: sched_inv_def running_ok_def)
  obtain sm where sm: "semaphores k s = Some sm" using s by (auto simp add: Semaphore_P_loop_def bindE_eq_Inr)
  have v0: "0 \<le> sem_value sm" using inv sm by (auto simp add: sched_inv_def queues_ok_def)
  show ?thesis
  proof (cases "sem_value sm = 0")
    case True
    have "k' = k\<lparr>frames := (frames k)(?c := F_SleepLoop False # F_PLoop s # fs), semaphores := (semaphores k)(s \<mapsto> sm\<lparr>sem_queue := sem_queue sm @ [?c]\<rparr>),
        threads := (threads k)(?c \<mapsto> th\<lparr>t_status := BLOCKED\<rparr>)\<rparr>"
      using s sm True off th by (simp add: Semaphore_P_loop_def lst_append_def Thread_Sleep_def Thread_setStatus_def set_thread_def set_sem_def push_def
          split: if_splits) (auto intro!: kernel.equality)
    then show ?thesis by (intro sched_inv_view [OF inv_block [OF inv aw off sm True th fr]]) (simp_all add: st_def fun_eq_iff)
  next
    case False
    then have "k' = k\<lparr>frames := (frames k)(?c := fs), semaphores := (semaphores k)(s \<mapsto> sm\<lparr>sem_value := sem_value sm - 1\<rparr>)\<rparr>"
      using s sm by (simp add: Semaphore_P_loop_def set_sem_def)
    then show ?thesis using inv_set_value [OF inv_pop [OF inv fr], of s sm "sem_value sm - 1"] sm False v0 by simp
  qed
qed

lemma Fork_inv:
  assumes inv: "sched_inv k" and aw: "\<not> asleep k"
    and s: "run_cmd (C_Fork pid body) k = Inr k'"
  shows "sched_inv k'"
proof -
  let ?c = "currentThread k" and ?t = "next_tid k" and ?th = "(Thread_new pid)\<lparr>t_status := READY\<rparr>"
  have t: "threads k ?t = None" "?t \<noteq> ?c" using inv by (auto simp add: sched_inv_def running_ok_def)
  have k': "currentThread k' = ?c" "threads k' = (threads k)(?t \<mapsto> ?th)" "readyList k' = readyList k @ [?t]" "toBeDestroyed k' = toBeDestroyed k"
    "next_tid k' = Suc ?t" "semaphores k' = semaphores k" "next_wait k' = next_wait k" "int_level k' = IntOff"
    "frames k' = (frames k)(?t := [F_SetLevel IntOn], ?c := F_SetLevel (int_level k) # frames k ?c)"
    using s t by (auto simp add: Thread_Fork_def set_thread_def Scheduler_ReadyToRun_def Thread_setStatus_def lst_append_def push_def bindE_eq_Inr Let_def
        split: if_splits)
  have st': "st k' = (st k)(?t \<mapsto> READY)" by (auto simp add: st_def k'(2) fun_eq_iff)
  have run: "st k ?c = Some RUNNING" by (rule cur_running [OF inv aw])
  have "st k ?t = None" using t by (simp add: st_def)
  note facts = this run t
  have nsl: "F_SleepLoop b \<notin> set (frames k ?c)" for b by (rule not_asleep [OF inv aw])
  have aw': "\<not> asleep k'" by (simp add: asleep_def k'(1,9))
  have w: "waits k' u s" if "waits k u s" "st k u = Some BLOCKED" for u s
    using that facts by (auto simp add: waits_def k'(1,9))
  show ?thesis unfolding sched_inv_def
  proof (intro conjI)
    have "ready_ok k" using inv by (simp add: sched_inv_def)
    then show "ready_ok k'" using facts unfolding ready_ok_def st' k'(3) by auto
    have "running_ok k" using inv by (simp add: sched_inv_def)
    then show "running_ok k'" using facts aw aw' unfolding running_ok_def st' k'(1,2,4,5,9) by (auto simp add: less_Suc_eq)
    have "queues_ok k" using inv by (simp add: sched_inv_def)
    then show "queues_ok k'" using facts w unfolding queues_ok_def st' k'(6) by fastforce
    have "blocked_ok k" using inv by (simp add: sched_inv_def)
    then show "blocked_ok k'" using facts unfolding blocked_ok_def st' k'(1,6,9) by auto
    have "threads k ?c \<noteq> None" using run by (auto simp add: st_def)
    then show "stacks_ok k'" using inv nsl unfolding sched_inv_def stacks_ok_def k'(1,2,8,9) by (auto dest: stack_ok_off)
    have "uses w (frames k' u) \<Longrightarrow> uses w (frames k u)" for w u unfolding k'(9) by (auto simp add: uses_def split: if_splits)
    then show "waiters_ok k'" using inv unfolding sched_inv_def waiters_ok_def k'(6,7) by blast
  qed
qed

lemma Wait_inv:
  assumes inv: "sched_inv k" and aw: "\<not> asleep k" and s: "Condition_Wait c l k = Inr k'"
  shows "sched_inv k'"
proof -
  let ?fs = "[F_Release l, F_P (WaitSem (next_wait k)), F_Acquire l, F_DeleteWait (next_wait k)] @ frames k (currentThread k)"
  have ok: "stack_ok (int_level k) ?fs" "\<And>b. F_SleepLoop b \<notin> set ?fs" "\<And>v. uses v ?fs \<Longrightarrow> uses v (frames k (currentThread k)) \<or> v = next_wait k"
    using inv not_asleep [OF inv aw] by (auto simp add: sched_inv_def stacks_ok_def uses_def)
  show ?thesis
    by (rule sched_inv_view [OF inv_new_wait [OF inv aw refl ok]])
       (use s in \<open>auto simp add: Condition_Wait_def bindE_eq_Inr push_def set_sem_def st_def Let_def\<close>)
qed

lemma V_inv:
  assumes inv: "sched_inv k" and fr: "frames k (currentThread k) = F_V s # fs"
    and s: "Semaphore_V s (k\<lparr>frames := (frames k)(currentThread k := fs)\<rparr>) = Inr k'"
  shows "sched_inv k'"
proof -
  let ?c = "currentThread k"
  have ok: "stack_ok (int_level k) fs" "\<And>b. F_SleepLoop b \<notin> set fs" using awake_frame [OF inv fr] by auto
  let ?k1 = "k\<lparr>frames := (frames k)(?c := fs), int_level := IntOff\<rparr>"
  have inv1: "sched_inv ?k1" using inv_replace [OF inv fr, of IntOff "[]"] stack_ok_off [OF ok(1)] by (auto simp add: uses_def)
  obtain k2 where k2: "Semaphore_V_body s ?k1 = Inr k2" "k' = push [F_SetLevel (int_level k)] k2"
    using s by (auto simp add: Semaphore_V_def bindE_eq_Inr Let_def)
  have inv2: "sched_inv k2" by (rule V_body_inv [OF inv1 k2(1)])
  note f = V_body_fields [OF k2(1)]
  have aw: "\<not> asleep k2" using ok(2) by (cases fs) (auto simp add: asleep_def f)
  have "sched_inv (k2\<lparr>frames := (frames k2)(?c := F_SetLevel (int_level k) # fs), int_level := IntOff\<rparr>)"
    using inv_set_frames [OF inv2 aw, of IntOff "F_SetLevel (int_level k) # fs"] ok by (auto simp add: f uses_def)
  then show ?thesis by (rule sched_inv_view) (simp_all add: k2(2) push_def f st_def fun_eq_iff)
qed

lemma Finish_inv:
  assumes inv: "sched_inv k" and fr: "frames k (currentThread k) = []" and s: "Thread_Finish k = Inr k'"
  shows "sched_inv k'"
proof -
  let ?c = "currentThread k"
  have aw: "\<not> asleep k" using fr by (simp add: asleep_def)
  have run: "st k ?c = Some RUNNING" by (rule cur_running [OF inv aw])
  obtain th where th: "threads k ?c = Some th" using inv by (auto simp add: sched_inv_def running_ok_def)
  have k': "k' = k\<lparr>int_level := IntOff, threads := (threads k)(?c \<mapsto> th\<lparr>t_status := BLOCKED\<rparr>), frames := (frames k)(?c := [F_SleepLoop True])\<rparr>"
    using s th fr by (simp add: Thread_Finish_def Thread_Sleep_def Thread_setStatus_def set_thread_def push_def)
  have st': "st k' = (st k)(?c \<mapsto> BLOCKED)" using th by (auto simp add: st_def k' fun_eq_iff)
  have f: "frames k' = (frames k)(?c := [F_SleepLoop True])" "currentThread k' = ?c" "semaphores k' = semaphores k" "readyList k' = readyList k"
    "toBeDestroyed k' = toBeDestroyed k" "next_tid k' = next_tid k" "next_wait k' = next_wait k" "int_level k' = IntOff"
    "threads k' t = None \<longleftrightarrow> threads k t = None" for t
    using th by (simp_all add: k')
  have asl: "asleep k'" by (auto simp add: asleep_def f)
  have w: "waits k' u s" if "waits k u s" "u \<noteq> ?c" for u s using that by (auto simp add: waits_def f)
  have nq: "?c \<notin> set (sem_queue sm)" if "semaphores k s = Some sm" for s sm using inv that run by (auto simp add: sched_inv_def queues_ok_def)
  show ?thesis unfolding sched_inv_def
  proof (intro conjI)
    show "ready_ok k'" using inv run unfolding sched_inv_def ready_ok_def st' f by auto
    show "running_ok k'" using inv run asl unfolding sched_inv_def running_ok_def st' f by auto
    have "queues_ok k" using inv by (simp add: sched_inv_def)
    then show "queues_ok k'" using nq w unfolding queues_ok_def st' f by fastforce
    show "blocked_ok k'" using inv unfolding sched_inv_def blocked_ok_def st' f by auto
    show "stacks_ok k'" using inv th unfolding sched_inv_def stacks_ok_def f by auto
    have "uses w (frames k' u) \<Longrightarrow> uses w (frames k u)" for w u by (auto simp add: f uses_def split: if_splits)
    then show "waiters_ok k'" using inv unfolding sched_inv_def waiters_ok_def f(3,7) by blast
  qed
qed

text \<open>Calls that only leave frames to run.\<close>

lemma inv_push:
  assumes inv: "sched_inv k" and aw: "\<not> asleep k"
    and gs: "stack_ok (int_level k) (gs @ frames k (currentThread k))" "\<And>b. F_SleepLoop b \<notin> set gs" "\<And>w. \<not> uses w gs"
  shows "sched_inv (push gs k)"
proof -
  have "sched_inv (k\<lparr>frames := (frames k)(currentThread k := gs @ frames k (currentThread k)), int_level := int_level k\<rparr>)"
    using gs not_asleep [OF inv aw] by (intro inv_set_frames [OF inv aw]) (auto simp add: uses_def)
  then show ?thesis by (simp add: push_def)
qed

lemma call_inv [simp]: "sched_inv (call cs k) = sched_inv k"
  by (simp add: call_def)

lemma run_cmd_inv:
  assumes inv: "sched_inv k" and fr: "frames k (currentThread k) = []" and s: "run_cmd c k = Inr k'"
  shows "sched_inv k'"
proof -
  have aw: "\<not> asleep k" using fr by (simp add: asleep_def)
  note p = inv_push [OF inv aw]
  show ?thesis
  proof (cases c)
    case (C_Wait x l)
    then show ?thesis using Wait_inv [OF inv aw] s by simp
  next
    case (C_Fork pid body)
    then show ?thesis using Fork_inv [OF inv aw] s by simp
  qed (use s inv fr in \<open>auto simp add: uses_def bindE_eq_Inr intro!: p split: if_splits\<close>)
qed

lemma run_frame_inv:
  assumes dh: "device_handlers h" and inv: "sched_inv k" and fr: "frames k (currentThread k) = f # fs"
    and s: "run_frame h f (k\<lparr>frames := (frames k)(currentThread k := fs)\<rparr>) = Inr k'"
  shows "sched_inv k'"
proof -
  let ?k1 = "k\<lparr>frames := (frames k)(currentThread k := fs)\<rparr>"
  have pop: "sched_inv ?k1" "\<not> asleep ?k1" "stack_ok (int_level k) fs" if "\<And>b. f \<noteq> F_SleepLoop b" "\<forall>l. f \<noteq> F_SetLevel l"
  proof -
    show "sched_inv ?k1" by (rule inv_pop [OF inv fr that])
    show "stack_ok (int_level k) fs" by (rule stack_ok_SetLevel [OF awake_frame(3) [OF inv fr that(1)] that(2)])
    have "F_SleepLoop b \<notin> set fs" for b by (rule awake_frame(2) [OF inv fr that(1)])
    then show "\<not> asleep ?k1" by (cases fs) (auto simp add: asleep_def)
  qed
  note r = inv_replace' [OF inv fr]
  show ?thesis
  proof (cases f)
    case (F_SetLevel l)
    then show ?thesis using SetLevel_inv [OF dh inv] fr s by simp
  next
    case F_Yield
    then show ?thesis using Yield_inv [OF pop(1,2)] s by simp
  next
    case (F_SleepLoop b)
    then show ?thesis using SleepLoop_inv [OF dh inv] fr s by simp
  next
    case (F_P x)
    have "sched_inv (k\<lparr>frames := (frames k)(currentThread k := [F_PLoop x, F_SetLevel (int_level k)] @ fs), int_level := IntOff\<rparr>)"
      using pop(3) F_P by (intro inv_replace [OF inv fr]) (auto simp add: uses_def)
    then show ?thesis by (rule sched_inv_view) (use s F_P in \<open>auto simp add: Semaphore_P_def push_def st_def\<close>)
  next
    case (F_PLoop x)
    then show ?thesis using P_loop_inv [OF inv] fr s by simp
  next
    case (F_V x)
    then show ?thesis using V_inv [OF inv] fr s by simp
  next
    case (F_Acquire l)
    then show ?thesis using s pop(3) by (auto simp add: Lock_Acquire_def uses_def intro!: r)
  next
    case (F_SetHolder l)
    then show ?thesis using s pop(1) by auto
  next
    case (F_Release l)
    then have "sched_inv (push [F_V (LockSem l)] ?k1)" using pop(3) by (auto simp add: uses_def intro!: r)
    then show ?thesis by (rule sched_inv_view) (use s F_Release in \<open>auto simp add: Lock_Release_def push_def st_def bindE_eq_Inr\<close>)
  next
    case (F_Signal c l)
    show ?thesis
    proof (cases "waitQueue k c")
      case Nil
      then show ?thesis using s pop(1) F_Signal by (auto simp add: Condition_Signal_def bindE_eq_Inr)
    next
      case (Cons w q)
      have "sched_inv (push [F_V (WaitSem w)] ?k1)" using pop(3) F_Signal by (auto simp add: uses_def intro!: r)
      then show ?thesis
        by (rule sched_inv_view) (use s F_Signal Cons in \<open>auto simp add: Condition_Signal_def lst_remove_front_def push_def st_def bindE_eq_Inr\<close>)
    qed
  next
    case (F_DeleteWait w)
    have "sched_inv (k\<lparr>semaphores := (semaphores k)(WaitSem w := None)\<rparr>)"
      using awake_frame [OF inv fr] fr F_DeleteWait by (intro inv_delete_wait [OF inv]) auto
    from inv_pop [OF this] fr F_DeleteWait have "sched_inv (k\<lparr>semaphores := (semaphores k)(WaitSem w := None), frames := (frames k)(currentThread k := fs)\<rparr>)"
      by simp
    then show ?thesis by (rule sched_inv_view) (use s F_DeleteWait in \<open>auto simp add: st_def\<close>)
  qed (use s pop(1) in auto)
qed

lemma kernel_step_inv:
  assumes dh: "device_handlers h" and inv: "sched_inv k" and s: "kernel_step h k = Inr k'"
  shows "sched_inv k'"
proof (cases "frames k (currentThread k)")
  case (Cons f fs)
  then show ?thesis using run_frame_inv [OF dh inv Cons] s by (simp add: kernel_step_def)
next
  case Nil
  show ?thesis
  proof (cases "prog k (currentThread k)")
    case (Cons c cs)
    then show ?thesis using run_cmd_inv [of "k\<lparr>prog := (prog k)(currentThread k := cs)\<rparr>" c k'] inv s Nil by (simp add: kernel_step_def)
  next
    case Nil2: Nil
    then show ?thesis using Finish_inv [OF inv Nil] s Nil by (simp add: kernel_step_def)
  qed
qed

end
