(* ===== verification/Wakeup.thy ===== *)
theory Wakeup
  imports Sched_Inv
begin

text \<open>
  Two more invariants of \<open>kernel_step\<close>: no wake-up of a semaphore is lost (\<open>wake_ok\<close>), and a lock has at most one holder
  (\<open>lock_ok\<close>).
\<close>

section \<open>No wake-up is lost\<close>

text \<open>
  A thread that was woken in \<open>P\<close> takes the semaphore only when it runs again, and another thread may come
  first.  The threads that are about to test the semaphore are at least as many as its value, as long
  as others wait.
\<close>

definition retry :: "('g, 'k) kernel_scheme \<Rightarrow> sem_id \<Rightarrow> nat set" where
  "retry k s = {t. threads k t \<noteq> None \<and> F_PLoop s \<in> set (frames k t) \<and> (\<forall>sm. semaphores k s = Some sm \<longrightarrow> t \<notin> set (sem_queue sm))}"

definition wake_ok :: "('g, 'k) kernel_scheme \<Rightarrow> bool" where
  "wake_ok k \<longleftrightarrow> (\<forall>s sm. semaphores k s = Some sm \<longrightarrow> sem_queue sm \<noteq> [] \<longrightarrow> sem_value sm \<le> int (card (retry k s)))"

lemma finite_retry: "sched_inv k \<Longrightarrow> finite (retry k s)"
  by (rule finite_subset [of _ "{..<next_tid k}"]) (auto simp add: retry_def sched_inv_def running_ok_def)

lemma wake_ok_mono:
  assumes "wake_ok k" "\<And>s sm. semaphores k' s = Some sm \<Longrightarrow> sem_queue sm \<noteq> [] \<Longrightarrow> semaphores k s = Some sm" "sched_inv k'"
    and "\<And>t s. threads k t \<noteq> None \<Longrightarrow> F_PLoop s \<in> set (frames k t) \<Longrightarrow> threads k' t \<noteq> None \<and> F_PLoop s \<in> set (frames k' t)"
  shows "wake_ok k'"
  unfolding wake_ok_def
proof (intro allI impI)
  fix s sm
  assume s: "semaphores k' s = Some sm" "sem_queue sm \<noteq> []"
  have k: "semaphores k s = Some sm" by (rule assms(2) [OF s])
  have "retry k s \<subseteq> retry k' s" using assms(4) k s by (auto simp add: retry_def)
  then have "card (retry k s) \<le> card (retry k' s)" by (rule card_mono [OF finite_retry [OF assms(3)]])
  moreover have "sem_value sm \<le> int (card (retry k s))" using assms(1) k s(2) unfolding wake_ok_def by metis
  ultimately show "sem_value sm \<le> int (card (retry k' s))" by linarith
qed

lemma wake_ok_other [simp]:
  "wake_ok (k\<lparr>registers := r\<rparr>) = wake_ok k" "wake_ok (k\<lparr>pending := p\<rparr>) = wake_ok k" "wake_ok (k\<lparr>inHandler := b\<rparr>) = wake_ok k"
  "wake_ok (k\<lparr>idleTicks := n\<rparr>) = wake_ok k" "wake_ok (k\<lparr>totalTicks := n\<rparr>) = wake_ok k" "wake_ok (k\<lparr>status := u\<rparr>) = wake_ok k"
  "wake_ok (k\<lparr>yieldOnReturn := b\<rparr>) = wake_ok k" "wake_ok (k\<lparr>next_addr := a\<rparr>) = wake_ok k" "wake_ok (k\<lparr>glob := g\<rparr>) = wake_ok k"
  "wake_ok (k\<lparr>int_level := l\<rparr>) = wake_ok k" "wake_ok (k\<lparr>prog := pr\<rparr>) = wake_ok k"
  by (simp_all add: wake_ok_def retry_def)

lemma V_body_wake:
  assumes inv: "sched_inv k" and w: "wake_ok k" and v: "Semaphore_V_body s k = Inr k'"
  shows "wake_ok k'"
  using v
proof (cases rule: V_body_cases)
  case (empty sm)
  have "retry k' s' = retry k s'" for s' using empty by (auto simp add: retry_def)
  then show ?thesis using w empty unfolding wake_ok_def by (auto split: if_splits)
next
  case (wake sm t q th)
  have t: "waits k t s" "distinct (t # q)" using inv wake(1,2) unfolding sched_inv_def queues_ok_def by (metis list.set_intros(1))+
  have sems: "semaphores k' = (semaphores k)(s \<mapsto> sm\<lparr>sem_queue := q, sem_value := sem_value sm + 1\<rparr>)" by (simp add: wake(6))
  have other: "retry k' s' = retry k s'" if "s' \<noteq> s" for s' using that wake(3) by (auto simp add: retry_def wake(6))
  have "F_PLoop s \<in> set (frames k t)" using t(1) by (auto simp add: waits_def)
  then have new: "retry k' s = insert t (retry k s)" "t \<notin> retry k s"
    using t(2) wake(1,2,3) by (auto simp add: retry_def wake(6))
  then have card: "card (retry k' s) = Suc (card (retry k s))" using finite_retry [OF inv] by simp
  show ?thesis unfolding wake_ok_def
  proof (intro allI impI)
    fix s' sm'
    assume s': "semaphores k' s' = Some sm'" "sem_queue sm' \<noteq> []"
    show "sem_value sm' \<le> int (card (retry k' s'))"
    proof (cases "s' = s")
      case True
      have "sem_value sm \<le> int (card (retry k s))" using w wake(1,2) unfolding wake_ok_def by auto
      then show ?thesis using True s' card by (auto simp add: sems)
    next
      case False
      then show ?thesis using w s' other [OF False] unfolding wake_ok_def by (simp add: sems)
    qed
  qed
qed

definition wake_off :: "nat \<Rightarrow> (nat \<Rightarrow> frame list) \<Rightarrow> ('g, 'k) kernel_scheme \<Rightarrow> bool" where
  "wake_off c F k \<longleftrightarrow> inv_off c F k \<and> wake_ok k"

lemma device_acts_wake: "device_acts k k' \<Longrightarrow> wake_off c F k \<Longrightarrow> wake_off c F k'"
proof (induction rule: device_acts.induct)
  case (acts_schedule k k' d n ty k'')
  then show ?case by (auto simp add: wake_off_def inv_off_def Interrupt_Schedule_def bindE_eq_Inr Let_def)
next
  case (acts_yield k k' k'')
  then show ?case by (auto simp add: wake_off_def inv_off_def Interrupt_YieldOnReturn_def bindE_eq_Inr)
next
  case (acts_V k k' s k'')
  then show ?case using device_acts_inv [OF device_acts.acts_V [OF acts_none acts_V.hyps(2)]] V_body_wake
    unfolding wake_off_def inv_off_def by metis
qed (simp_all add: wake_off_def inv_off_def)

lemma wake_off_stable: "stable (wake_off c F)"
  by (rule stableI) (auto simp add: wake_off_def inv_off_def dest: device_acts_wake [unfolded wake_off_def inv_off_def])

lemma P_loop_wake:
  assumes inv: "sched_inv k" and w: "wake_ok k" and fr: "frames k (currentThread k) = F_PLoop s # fs"
    and s: "Semaphore_P_loop s (k\<lparr>frames := (frames k)(currentThread k := fs)\<rparr>) = Inr k'"
  shows "wake_ok k'"
proof -
  let ?c = "currentThread k"
  have inv': "sched_inv k'" by (rule P_loop_inv [OF inv fr s])
  have aw: "\<not> asleep k" using fr by (simp add: asleep_def)
  have off: "int_level k = IntOff" using inv fr by (simp add: sched_inv_def stacks_ok_def)
  obtain th where th: "threads k ?c = Some th" using inv by (auto simp add: sched_inv_def running_ok_def)
  obtain sm where sm: "semaphores k s = Some sm" using s by (auto simp add: Semaphore_P_loop_def bindE_eq_Inr)
  have cq: "?c \<notin> set (sem_queue sm)" using inv sm cur_running [OF inv aw] by (auto simp add: sched_inv_def queues_ok_def)
  define sm' where "sm' = (if sem_value sm = 0 then sm\<lparr>sem_queue := sem_queue sm @ [?c]\<rparr> else sm\<lparr>sem_value := sem_value sm - 1\<rparr>)"
  have k': "semaphores k' = (semaphores k)(s \<mapsto> sm')" "\<And>t. threads k' t = None \<longleftrightarrow> threads k t = None"
    "\<And>t s'. t \<noteq> ?c \<or> s' \<noteq> s \<Longrightarrow> F_PLoop s' \<in> set (frames k' t) \<longleftrightarrow> F_PLoop s' \<in> set (frames k t)"
    using s sm off th fr
    by (auto simp add: sm'_def Semaphore_P_loop_def lst_append_def Thread_Sleep_def Thread_setStatus_def set_thread_def set_sem_def push_def split: if_splits)
  show ?thesis unfolding wake_ok_def
  proof (intro allI impI)
    fix s' sm2
    assume s': "semaphores k' s' = Some sm2" "sem_queue sm2 \<noteq> []"
    show "sem_value sm2 \<le> int (card (retry k' s'))"
    proof (cases "s' = s")
      case False
      then have "retry k' s' = retry k s'" using k' by (auto simp add: retry_def)
      then show ?thesis using False s' w by (simp add: k'(1) wake_ok_def)
    next
      case True
      then have sm2: "sm2 = sm'" using s' by (simp add: k'(1))
      show ?thesis
      proof (cases "sem_value sm = 0")
        case True
        then show ?thesis by (simp add: sm2 sm'_def)
      next
        case False
        have "?c \<in> retry k s" using fr th sm cq by (auto simp add: retry_def)
        moreover have "retry k s - {?c} \<subseteq> retry k' s" using k' sm False by (auto simp add: retry_def sm'_def)
        ultimately have "card (retry k s) \<le> card (retry k' s) + 1"
          using card_mono [OF finite_retry [OF inv'], of "retry k s - {?c}" s] by simp
        moreover have "sem_value sm \<le> int (card (retry k s))" using w sm s'(2) False unfolding wake_ok_def by (auto simp add: sm2 sm'_def)
        ultimately show ?thesis using False \<open>s' = s\<close> by (simp add: sm2 sm'_def)
      qed
    qed
  qed
qed

lemma SetLevel_wake:
  assumes dh: "device_handlers h" and inv: "sched_inv k" and w: "wake_ok k" and fr: "frames k (currentThread k) = F_SetLevel l # fs"
    and s: "run_frame h (F_SetLevel l) (k\<lparr>frames := (frames k)(currentThread k := fs)\<rparr>) = Inr k'"
  shows "wake_ok k'"
proof -
  let ?c = "currentThread k"
  let ?k1 = "k\<lparr>frames := (frames k)(?c := fs)\<rparr>"
  have inv': "sched_inv k'" by (rule SetLevel_inv [OF dh inv fr s])
  have inv1: "sched_inv (?k1\<lparr>int_level := IntOff\<rparr>)"
    using inv_replace [OF inv fr, of IntOff "[]"] awake_frame(3) [OF inv fr] by (auto simp add: uses_def intro: stack_ok_off)
  have w1: "wake_ok (?k1\<lparr>int_level := IntOff\<rparr>)" by (rule wake_ok_mono [OF w _ inv1]) (auto simp add: fr)
  obtain old y k2 where sl: "Interrupt_SetLevel h l ?k1 = Inr (old, y, k2)"
    and k': "k' = (case y of None \<Rightarrow> k2 | Some u \<Rightarrow> push [F_Yield, F_SetStatus u] k2)"
    using s by (auto simp add: bindE_eq_Inr)
  show ?thesis
  proof (cases "l = IntOn \<and> int_level k = IntOff")
    case False
    then have "y = None" "k2 = ?k1\<lparr>int_level := l\<rparr>"
      using sl by (auto simp add: Interrupt_SetLevel_def Interrupt_ChangeLevel_def bindE_eq_Inr Let_def split: if_splits)
    then show ?thesis using w1 k' by simp
  next
    case True
    then have "Interrupt_OneTick h (?k1\<lparr>int_level := IntOn\<rparr>) = Inr (y, k2)"
      using sl by (auto simp add: Interrupt_SetLevel_def Interrupt_ChangeLevel_def bindE_eq_Inr Let_def)
    then obtain k3 r where c: "Interrupt_CheckIfDue h False (ticked (?k1\<lparr>int_level := IntOn\<rparr>)) = Inr (r, k3)"
      and k2: "k2 = (case y of None \<Rightarrow> k3\<lparr>int_level := IntOn\<rparr> | Some _ \<Rightarrow> k3\<lparr>int_level := IntOn, yieldOnReturn := False, status := SystemMode\<rparr>)"
      by (auto simp add: OneTick_eq bindE_eq_Inr split: if_splits)
    have "wake_off ?c (frames ?k1) (ticked (?k1\<lparr>int_level := IntOn\<rparr>))"
      using inv1 w1 by (simp add: wake_off_def inv_off_def inv_ticked wake_ok_def retry_def)
    from device_handlers.CheckIfDue_stable [OF dh wake_off_stable this c] have "wake_ok k3" by (simp add: wake_off_def)
    then show ?thesis by (rule wake_ok_mono [OF _ _ inv']) (auto simp add: k' k2 push_def split: option.splits)
  qed
qed

text \<open>What the switch to another thread leaves alone.\<close>

lemma Yield_fields:
  assumes inv: "sched_inv k" and aw: "\<not> asleep k" and s: "Thread_Yield k = Inr k'"
  shows "semaphores k' = semaphores k" "lockHolder k' = lockHolder k" "frames k' = (frames k)(currentThread k := F_SetLevel (int_level k) # frames k (currentThread k))"
    "threads k' t = None \<longleftrightarrow> threads k t = None"
proof -
  let ?c = "currentThread k"
  obtain th where th: "threads k ?c = Some th" using inv by (auto simp add: sched_inv_def running_ok_def)
  have "semaphores k' = semaphores k \<and> lockHolder k' = lockHolder k \<and> frames k' = (frames k)(?c := F_SetLevel (int_level k) # frames k ?c)
    \<and> (threads k' t = None \<longleftrightarrow> threads k t = None)"
  proof (cases "readyList k")
    case Nil
    then show ?thesis using s by (auto simp add: Thread_Yield_def Scheduler_FindNextToRun_def push_def Let_def)
  next
    case (Cons n r)
    let ?k3 = "k\<lparr>int_level := IntOff, frames := (frames k)(?c := F_SetLevel (int_level k) # frames k ?c),
      threads := (threads k)(?c \<mapsto> th\<lparr>t_status := READY\<rparr>), readyList := r @ [?c]\<rparr>"
    have n: "st k n = Some READY" "?c \<notin> set (n # r)"
      using inv Cons cur_running [OF inv aw] unfolding sched_inv_def ready_ok_def by auto
    have tbd: "toBeDestroyed k = None" using inv by (simp add: sched_inv_def running_ok_def)
    obtain thn where thn: "threads k n = Some thn" using n(1) by (auto simp add: st_def)
    have "Scheduler_Run n False ?k3 = Inr k'"
      using s Cons th n(2) by (simp add: Thread_Yield_def Scheduler_FindNextToRun_def lst_remove_front_def push_def Scheduler_ReadyToRun_def
          Thread_setStatus_def set_thread_def lst_append_def Let_def)
    then show ?thesis using Run_switch [of ?k3 _ n thn] n tbd thn th by (auto split: if_splits)
  qed
  then show "semaphores k' = semaphores k" "lockHolder k' = lockHolder k" "frames k' = (frames k)(?c := F_SetLevel (int_level k) # frames k ?c)"
    "threads k' t = None \<longleftrightarrow> threads k t = None" by blast+
qed

lemma SleepLoop_fields:
  assumes inv: "sched_inv k" and fr: "frames k (currentThread k) = F_SleepLoop b # fs" and r: "readyList k = n # r"
    and s: "Thread_Sleep_loop h b (k\<lparr>frames := (frames k)(currentThread k := fs)\<rparr>) = Inr k'"
  shows "semaphores k' = semaphores k" "lockHolder k' = lockHolder k" "frames k' = (frames k)(currentThread k := fs)"
    "threads k' t = None \<longleftrightarrow> threads k t = None \<or> b \<and> t = currentThread k" "b \<Longrightarrow> fs = []"
proof -
  let ?c = "currentThread k"
  let ?k3 = "k\<lparr>frames := (frames k)(?c := fs), readyList := r\<rparr>"
  have off: "int_level k = IntOff" using inv fr by (simp add: sched_inv_def stacks_ok_def)
  have n: "st k n = Some READY" using inv r by (auto simp add: sched_inv_def ready_ok_def)
  have bn: "b \<Longrightarrow> n \<noteq> ?c" using inv n fr by (auto simp add: sched_inv_def running_ok_def)
  obtain old thn where t: "threads ?k3 (currentThread ?k3) = Some old" "threads ?k3 n = Some thn" and tbd: "toBeDestroyed ?k3 = None"
    using inv n by (auto simp add: sched_inv_def running_ok_def st_def)
  have run: "Scheduler_Run n b ?k3 = Inr k'"
    using s off r by (simp add: Thread_Sleep_loop_def Scheduler_FindNextToRun_def lst_remove_front_def)
  show "b \<Longrightarrow> fs = []"
  proof -
    assume b
    then have "st k ?c = Some BLOCKED" using inv fr by (auto simp add: sched_inv_def running_ok_def)
    moreover have "\<not> (\<exists>s sm. semaphores k s = Some sm \<and> ?c \<in> set (sem_queue sm))"
      using inv fr \<open>b\<close> unfolding sched_inv_def queues_ok_def waits_def by fastforce
    ultimately show "fs = []" using inv fr unfolding sched_inv_def blocked_ok_def by auto
  qed
  have "semaphores k' = semaphores k \<and> lockHolder k' = lockHolder k \<and> frames k' = (frames k)(?c := fs)
    \<and> (threads k' t = None \<longleftrightarrow> threads k t = None \<or> b \<and> t = ?c)"
  proof (cases b)
    case True
    then show ?thesis using Run_finish [of ?k3 old n thn] off tbd t bn run by (auto split: if_splits)
  next
    case False
    then show ?thesis using Run_switch [of ?k3 old n thn] off tbd t run by (auto split: if_splits)
  qed
  then show "semaphores k' = semaphores k" "lockHolder k' = lockHolder k" "frames k' = (frames k)(?c := fs)"
    "threads k' t = None \<longleftrightarrow> threads k t = None \<or> b \<and> t = ?c" by simp_all
qed

lemma run_frame_wake:
  assumes dh: "device_handlers h" and inv: "sched_inv k" and w: "wake_ok k" and fr: "frames k (currentThread k) = f # fs"
    and s: "run_frame h f (k\<lparr>frames := (frames k)(currentThread k := fs)\<rparr>) = Inr k'"
  shows "wake_ok k'"
proof -
  let ?c = "currentThread k"
  let ?k1 = "k\<lparr>frames := (frames k)(?c := fs)\<rparr>"
  have inv': "sched_inv k'" by (rule run_frame_inv [OF dh inv fr s])
  have pop: "sched_inv ?k1 \<and> \<not> asleep ?k1" if "\<And>b. f \<noteq> F_SleepLoop b" "\<forall>l. f \<noteq> F_SetLevel l"
  proof -
    have "F_SleepLoop b \<notin> set fs" for b by (rule awake_frame(2) [OF inv fr that(1)])
    then show ?thesis using inv_pop [OF inv fr that] by (cases fs) (auto simp add: asleep_def)
  qed
  note mono = wake_ok_mono [OF w _ inv']
  show ?thesis
  proof (cases f)
    case (F_SetLevel l)
    then show ?thesis using SetLevel_wake [OF dh inv w] fr s by simp
  next
    case F_Yield
    then have "sched_inv ?k1" "\<not> asleep ?k1" using pop by auto
    from Yield_fields [OF this] s F_Yield show ?thesis using fr by (intro mono) (auto split: if_splits)
  next
    case (F_SleepLoop b)
    show ?thesis
    proof (cases "readyList k")
      case Nil
      have off: "int_level k = IntOff" using inv fr F_SleepLoop by (simp add: sched_inv_def stacks_ok_def)
      have "Interrupt_Idle h (push [F_SleepLoop b] ?k1) = Inr k'"
        using s off Nil F_SleepLoop by (simp add: Thread_Sleep_loop_def Scheduler_FindNextToRun_def)
      moreover have "wake_off ?c (frames k) (push [F_SleepLoop b] ?k1)"
        using inv w off fr F_SleepLoop by (simp add: wake_off_def inv_off_def push_def fun_upd_idem)
      ultimately show ?thesis using device_handlers.Idle_stable [OF dh wake_off_stable] by (blast intro: wake_off_def [THEN iffD1, THEN conjunct2])
    next
      case (Cons n r)
      have s': "Thread_Sleep_loop h b ?k1 = Inr k'" and fr': "frames k ?c = F_SleepLoop b # fs" using s fr F_SleepLoop by simp_all
      note f = SleepLoop_fields [OF inv fr' Cons s']
      show ?thesis using fr F_SleepLoop f(5) by (intro mono) (auto simp add: f(1,3,4) split: if_splits)
    qed
  next
    case (F_PLoop x)
    then show ?thesis using P_loop_wake [OF inv w] fr s by simp
  next
    case (F_V x)
    have k1: "sched_inv (?k1\<lparr>int_level := IntOff\<rparr>)" using pop F_V by (auto intro: inv_level_off)
    have "wake_ok (?k1\<lparr>int_level := IntOff\<rparr>)" by (rule wake_ok_mono [OF w _ k1]) (auto simp add: fr F_V)
    moreover obtain k2 where k2: "Semaphore_V_body x (?k1\<lparr>int_level := IntOff\<rparr>) = Inr k2" "k' = push [F_SetLevel (int_level k)] k2"
      using s F_V by (auto simp add: Semaphore_V_def bindE_eq_Inr Let_def)
    ultimately have "wake_ok k2" using V_body_wake [OF k1] by blast
    then show ?thesis by (rule wake_ok_mono [OF _ _ inv']) (auto simp add: k2(2) push_def)
  qed (rule mono;
       use s fr in \<open>auto simp add: Semaphore_P_def Lock_Acquire_def Lock_Release_def Condition_Signal_def lst_remove_front_def push_def bindE_eq_Inr split: if_splits list.splits\<close>)+
qed

lemma run_cmd_wake:
  assumes inv: "sched_inv k" and w: "wake_ok k" and fr: "frames k (currentThread k) = []" and s: "run_cmd c k = Inr k'"
  shows "wake_ok k'"
proof -
  have inv': "sched_inv k'" by (rule run_cmd_inv [OF inv fr s])
  have t: "threads k (next_tid k) = None" using inv by (auto simp add: sched_inv_def running_ok_def)
  show ?thesis
  proof (cases c)
    case (C_Fork pid body)
    then show ?thesis using s t
      by (intro wake_ok_mono [OF w _ inv']) (auto simp add: Thread_Fork_def set_thread_def Scheduler_ReadyToRun_def Thread_setStatus_def lst_append_def push_def
          bindE_eq_Inr Let_def split: if_splits)
  next
    case (C_Wait x l)
    then show ?thesis using s
      by (intro wake_ok_mono [OF w _ inv']) (auto simp add: Condition_Wait_def set_sem_def push_def bindE_eq_Inr Let_def split: if_splits)
  qed (rule wake_ok_mono [OF w _ inv']; use s in \<open>auto simp add: push_def call_def bindE_eq_Inr split: if_splits\<close>)+
qed

lemma kernel_step_wake:
  assumes dh: "device_handlers h" and inv: "sched_inv k" and w: "wake_ok k" and s: "kernel_step h k = Inr k'"
  shows "wake_ok k'"
proof (cases "frames k (currentThread k)")
  case (Cons f fs)
  then show ?thesis using run_frame_wake [OF dh inv w Cons] s by (simp add: kernel_step_def)
next
  case Nil
  show ?thesis
  proof (cases "prog k (currentThread k)")
    case (Cons c cs)
    then show ?thesis using run_cmd_wake [of "k\<lparr>prog := (prog k)(currentThread k := cs)\<rparr>" c k'] inv w s Nil by (simp add: kernel_step_def)
  next
    case Nil2: Nil
    have "sched_inv k'" by (rule kernel_step_inv [OF dh inv s])
    then show ?thesis using s Nil Nil2
      by (intro wake_ok_mono [OF w]) (auto simp add: kernel_step_def Thread_Finish_def Thread_Sleep_def Thread_setStatus_def set_thread_def push_def bindE_eq_Inr Let_def)
  qed
qed

section \<open>Locks exclude each other\<close>

text \<open>
  What a thread owes to the semaphore of a lock: it has taken it and will note itself as the holder, or it
  is about to give it back.
\<close>

fun owes :: "nat \<Rightarrow> frame list \<Rightarrow> int" where
  "owes l [] = 0"
| "owes l (F_SetHolder l' # fs) = owes l fs + (if l' = l then 1 else 0)"
| "owes l (F_V s # fs) = owes l fs + (if s = LockSem l then 1 else 0)"
| "owes l (F_P s # fs) = owes l fs - (if s = LockSem l then 1 else 0)"
| "owes l (F_PLoop s # fs) = owes l fs - (if s = LockSem l then 1 else 0)"
| "owes l (f # fs) = owes l fs"

fun owes_ok :: "nat \<Rightarrow> frame list \<Rightarrow> bool" where
  "owes_ok l [] = True"
| "owes_ok l (f # fs) \<longleftrightarrow> 0 \<le> owes l (f # fs) \<and> owes_ok l fs"

lemma owes_ge0: "owes_ok l fs \<Longrightarrow> 0 \<le> owes l fs"
  by (cases fs) simp_all

text \<open>The lock is free; or one thread owes and nobody is noted as the holder; or it has a holder.\<close>

definition lock_phase :: "int \<Rightarrow> nat option \<Rightarrow> (nat \<Rightarrow> int) \<Rightarrow> bool" where
  "lock_phase v holder ow \<longleftrightarrow> v = 1 \<and> holder = None \<and> ow = (\<lambda>_. 0)
     \<or> v = 0 \<and> holder = None \<and> (\<exists>t. ow = (\<lambda>_. 0)(t := 1))
     \<or> v = 0 \<and> holder \<noteq> None \<and> ow = (\<lambda>_. 0)"

definition lock_ok :: "nat \<Rightarrow> ('g, 'k) kernel_scheme \<Rightarrow> bool" where
  "lock_ok l k \<longleftrightarrow> (\<forall>t. owes_ok l (frames k t))
     \<and> (\<exists>sm. semaphores k (LockSem l) = Some sm \<and> lock_phase (sem_value sm) (lockHolder k l) (\<lambda>t. owes l (frames k t)))"

lemma lock_okI:
  assumes "\<And>t. owes_ok l (frames k t)" "semaphores k (LockSem l) = Some sm" "(\<lambda>t. owes l (frames k t)) = ow"
    and "lock_phase (sem_value sm) (lockHolder k l) ow"
  shows "lock_ok l k"
  using assms by (auto simp add: lock_ok_def)

lemma lock_ok_view:
  assumes "lock_ok l k" "lockHolder k' l = lockHolder k l"
    and "map_option sem_value (semaphores k' (LockSem l)) = map_option sem_value (semaphores k (LockSem l))"
    and "\<And>t. owes l (frames k' t) = owes l (frames k t)" "\<And>t. owes_ok l (frames k' t)"
  shows "lock_ok l k'"
  using assms(1,3,5) unfolding lock_ok_def assms(2,4) by auto

text \<open>Handlers do not touch the semaphores of locks.\<close>

definition lock_off :: "nat \<Rightarrow> (nat \<Rightarrow> frame list) \<Rightarrow> ('g, 'k) kernel_scheme \<Rightarrow> bool" where
  "lock_off l F k \<longleftrightarrow> lock_ok l k \<and> frames k = F"

lemma lock_ok_other [simp]:
  "lock_ok l (k\<lparr>registers := r\<rparr>) = lock_ok l k" "lock_ok l (k\<lparr>pending := p\<rparr>) = lock_ok l k" "lock_ok l (k\<lparr>inHandler := b\<rparr>) = lock_ok l k"
  "lock_ok l (k\<lparr>idleTicks := n\<rparr>) = lock_ok l k" "lock_ok l (k\<lparr>totalTicks := n\<rparr>) = lock_ok l k" "lock_ok l (k\<lparr>status := u\<rparr>) = lock_ok l k"
  "lock_ok l (k\<lparr>yieldOnReturn := b\<rparr>) = lock_ok l k" "lock_ok l (k\<lparr>next_addr := a\<rparr>) = lock_ok l k" "lock_ok l (k\<lparr>glob := g\<rparr>) = lock_ok l k"
  "lock_ok l (k\<lparr>int_level := v\<rparr>) = lock_ok l k" "lock_ok l (k\<lparr>prog := pr\<rparr>) = lock_ok l k"
  by (simp_all add: lock_ok_def)

lemma device_acts_lock: "device_acts k k' \<Longrightarrow> lock_off l F k \<Longrightarrow> lock_off l F k'"
proof (induction rule: device_acts.induct)
  case (acts_V k k' s k'')
  then show ?case using V_body_fields [OF acts_V.hyps(2)] by (auto simp add: lock_off_def lock_ok_def)
qed (auto simp add: lock_off_def Interrupt_Schedule_def Interrupt_YieldOnReturn_def bindE_eq_Inr Let_def)

lemma lock_off_stable: "stable (lock_off l F)"
  by (rule stableI) (auto simp add: lock_off_def dest: device_acts_lock [unfolded lock_off_def])

text \<open>Only these frames matter.\<close>

lemma owes_push: "owes l (gs @ fs) = owes l gs + owes l fs"
  by (induction gs) (simp, rename_tac f gs, case_tac f, simp_all)

lemma lock_push:
  assumes "lock_ok l k" "owes l gs = 0" "owes_ok l (gs @ frames k (currentThread k))"
  shows "lock_ok l (push gs k)"
  using assms(2,3) by (intro lock_ok_view [OF assms(1)]) (auto simp add: push_def owes_push assms(1) [unfolded lock_ok_def])

lemma P_loop_fields:
  assumes s: "Semaphore_P_loop s k = Inr k'"
  shows "lockHolder k' = lockHolder k \<and> (\<exists>sm. semaphores k s = Some sm \<and>
    (if sem_value sm = 0
     then semaphores k' = (semaphores k)(s \<mapsto> sm\<lparr>sem_queue := sem_queue sm @ [currentThread k]\<rparr>)
       \<and> frames k' = (frames k)(currentThread k := F_SleepLoop False # F_PLoop s # frames k (currentThread k))
     else semaphores k' = (semaphores k)(s \<mapsto> sm\<lparr>sem_value := sem_value sm - 1\<rparr>) \<and> frames k' = frames k))"
proof -
  obtain sm where sm: "semaphores k s = Some sm" using s by (auto simp add: Semaphore_P_loop_def bindE_eq_Inr)
  show ?thesis
  proof (cases "sem_value sm = 0")
    case True
    then obtain th where "int_level k = IntOff" "threads k (currentThread k) = Some th" "currentThread k \<notin> set (sem_queue sm)"
      using s sm by (auto simp add: Semaphore_P_loop_def lst_append_def Thread_Sleep_def Thread_setStatus_def set_sem_def push_def bindE_eq_Inr Let_def
          split: if_splits)
    then show ?thesis using s sm True
      by (auto simp add: Semaphore_P_loop_def lst_append_def Thread_Sleep_def Thread_setStatus_def set_thread_def set_sem_def push_def)
  next
    case False
    then show ?thesis using s sm by (auto simp add: Semaphore_P_loop_def set_sem_def)
  qed
qed

lemma V_body_value:
  assumes "Semaphore_V_body s k = Inr k'"
  shows "\<exists>sm sm'. semaphores k s = Some sm \<and> semaphores k' s = Some sm' \<and> sem_value sm' = sem_value sm + 1"
  using assms by (cases rule: V_body_cases) auto

text \<open>The four frames that move a lock from one phase to the next.\<close>

lemma lock_phases:
  assumes "lock_phase v holder ow" "\<And>t. 0 \<le> ow t"
  shows "v \<noteq> 0 \<Longrightarrow> v = 1 \<and> holder = None \<and> ow = (\<lambda>_. 0)"
    and "ow c > 0 \<Longrightarrow> v = 0 \<and> holder = None \<and> ow = (\<lambda>_. 0)(c := 1)"
    and "holder \<noteq> None \<Longrightarrow> v = 0 \<and> ow = (\<lambda>_. 0)"
  using assms by (auto simp add: lock_phase_def split: if_splits)

lemma run_frame_lock:
  assumes dh: "device_handlers h" and inv: "sched_inv k" and lk: "lock_ok l k" and fr: "frames k (currentThread k) = f # fs"
    and s: "run_frame h f (k\<lparr>frames := (frames k)(currentThread k := fs)\<rparr>) = Inr k'"
  shows "lock_ok l k'"
proof -
  let ?c = "currentThread k"
  let ?k1 = "k\<lparr>frames := (frames k)(?c := fs)\<rparr>"
  have all: "owes_ok l (frames k t)" for t using lk by (simp add: lock_ok_def)
  have ok: "owes_ok l fs" "0 \<le> owes l fs" "0 \<le> owes l (f # fs)" using all [of ?c] by (auto simp add: fr owes_ge0)
  have ge0: "0 \<le> owes l (frames k t)" for t by (rule owes_ge0 [OF all])
  obtain sm where sm: "semaphores k (LockSem l) = Some sm" and ph: "lock_phase (sem_value sm) (lockHolder k l) (\<lambda>t. owes l (frames k t))"
    using lk by (auto simp add: lock_ok_def)
  note phases = lock_phases [OF ph ge0]
  note view = lock_ok_view [OF lk]
  have same: "lock_ok l ?k1" if "owes l (f # fs) = owes l fs" using that fr ok all by (intro view) auto
  show ?thesis
  proof (cases f)
    case (F_SetLevel v)
    obtain old y k2 where sl: "Interrupt_SetLevel h v ?k1 = Inr (old, y, k2)"
      and k': "k' = (case y of None \<Rightarrow> k2 | Some u \<Rightarrow> push [F_Yield, F_SetStatus u] k2)"
      using s F_SetLevel by (auto simp add: bindE_eq_Inr)
    have "lock_off l (frames ?k1) (?k1\<lparr>int_level := v\<rparr>)" using same F_SetLevel by (simp add: lock_off_def)
    then have "lock_off l (frames ?k1) k2"
      using sl device_handlers.CheckIfDue_stable [OF dh lock_off_stable [of l "frames ?k1"], of "ticked (?k1\<lparr>int_level := v\<rparr>)" False]
      by (auto simp add: Interrupt_SetLevel_def Interrupt_ChangeLevel_def OneTick_eq bindE_eq_Inr Let_def lock_off_def lock_ok_def split: if_splits)
    then show ?thesis using ok all ge0
      by (auto simp add: k' lock_off_def split: option.split intro!: lock_ok_view [of l k2] simp add: push_def)
  next
    case F_Yield
    have "F_SleepLoop b \<notin> set fs" for b using awake_frame(2) [OF inv fr] F_Yield by auto
    then have "sched_inv ?k1" "\<not> asleep ?k1" using inv_pop [OF inv fr] F_Yield by (cases fs; auto simp add: asleep_def)+
    from Yield_fields [OF this] s F_Yield show ?thesis using fr ok all by (intro view) auto
  next
    case (F_SleepLoop b)
    show ?thesis
    proof (cases "readyList k")
      case Nil
      have off: "int_level k = IntOff" using inv fr F_SleepLoop by (simp add: sched_inv_def stacks_ok_def)
      have "Interrupt_Idle h (push [F_SleepLoop b] ?k1) = Inr k'"
        using s off Nil F_SleepLoop by (simp add: Thread_Sleep_loop_def Scheduler_FindNextToRun_def)
      moreover have "lock_off l (frames k) (push [F_SleepLoop b] ?k1)"
        using lk fr F_SleepLoop by (simp add: lock_off_def push_def fun_upd_idem)
      ultimately show ?thesis using device_handlers.Idle_stable [OF dh lock_off_stable] by (blast intro: lock_off_def [THEN iffD1, THEN conjunct1])
    next
      case (Cons n r)
      have s': "Thread_Sleep_loop h b ?k1 = Inr k'" and fr': "frames k ?c = F_SleepLoop b # fs" using s fr F_SleepLoop by simp_all
      note f = SleepLoop_fields [OF inv fr' Cons s']
      show ?thesis using fr F_SleepLoop ok all by (intro view) (auto simp add: f(1-3))
    qed
  next
    case (F_PLoop x)
    have "Semaphore_P_loop x ?k1 = Inr k'" using s F_PLoop by simp
    note pl = P_loop_fields [OF this, simplified]
    have "owes_ok l (F_SleepLoop False # F_PLoop x # fs)" using ok by (simp add: F_PLoop)
    then have block: "lock_ok l k'" if "\<not> (x = LockSem l \<and> sem_value sm \<noteq> 0)"
      using pl F_PLoop that sm fr ok all by (intro view) (auto split: if_splits)
    show ?thesis
    proof (cases "x = LockSem l \<and> sem_value sm \<noteq> 0")
      case True
      have k': "semaphores k' (LockSem l) = Some (sm\<lparr>sem_value := sem_value sm - 1\<rparr>)" "lockHolder k' = lockHolder k" "frames k' = (frames k)(?c := fs)"
        using pl True sm by auto
      have z: "owes l (frames k t) = 0" for t using phases(1) True by (auto simp add: fun_eq_iff)
      then have "owes l fs = 1" using z [of ?c] fr F_PLoop True by simp
      then have ow: "(\<lambda>t. owes l (frames k' t)) = (\<lambda>_. 0)(?c := 1)" using z by (auto simp add: k'(3) fun_eq_iff)
      have "sem_value sm = 1" "lockHolder k l = None" using phases(1) True by simp_all
      then show ?thesis using ok all by (intro lock_okI [OF _ k'(1) ow]) (auto simp add: k'(2,3) lock_phase_def)
    qed (rule block)
  next
    case (F_V x)
    obtain k2 where k2: "Semaphore_V_body x (?k1\<lparr>int_level := IntOff\<rparr>) = Inr k2" "k' = push [F_SetLevel (int_level k)] k2"
      using s F_V by (auto simp add: Semaphore_V_def bindE_eq_Inr Let_def)
    note f = V_body_fields [OF k2(1)]
    have k': "frames k' = (frames k)(?c := F_SetLevel (int_level k) # fs)" "lockHolder k' = lockHolder k" "semaphores k' = semaphores k2"
      by (simp_all add: k2(2) push_def f)
    show ?thesis
    proof (cases "x = LockSem l")
      case False
      then show ?thesis using fr F_V ok all by (intro view) (auto simp add: k' f)
    next
      case True
      have c: "sem_value sm = 0 \<and> lockHolder k l = None \<and> (\<lambda>t. owes l (frames k t)) = (\<lambda>_. 0)(?c := 1)"
        using phases(2) [of ?c] ok fr F_V True by simp
      have "owes l (frames k t) = (if t = ?c then 1 else 0)" for t using fun_cong [of _ _ t, OF c [THEN conjunct2, THEN conjunct2]] by simp
      from this [of ?c] this have ow: "(\<lambda>t. owes l (frames k' t)) = (\<lambda>_. 0)" using fr F_V True by (auto simp add: k' fun_eq_iff)
      obtain sm' where sm': "semaphores k' (LockSem l) = Some sm'" "sem_value sm' = 1" using V_body_value [OF k2(1)] sm True c by (auto simp add: k')
      show ?thesis using c ok all by (intro lock_okI [OF _ sm'(1) ow]) (simp_all add: k' sm'(2) lock_phase_def)
    qed
  next
    case (F_SetHolder m)
    have k': "k' = ?k1\<lparr>lockHolder := (lockHolder k)(m \<mapsto> ?c)\<rparr>" using s F_SetHolder by simp
    show ?thesis
    proof (cases "m = l")
      case False
      then show ?thesis using fr F_SetHolder ok all by (intro view) (auto simp add: k')
    next
      case True
      have c: "sem_value sm = 0 \<and> lockHolder k l = None \<and> (\<lambda>t. owes l (frames k t)) = (\<lambda>_. 0)(?c := 1)"
        using phases(2) [of ?c] ok fr F_SetHolder True by simp
      have "owes l (frames k t) = (if t = ?c then 1 else 0)" for t using fun_cong [of _ _ t, OF c [THEN conjunct2, THEN conjunct2]] by simp
      from this [of ?c] this have ow: "(\<lambda>t. owes l (frames k' t)) = (\<lambda>_. 0)" using fr F_SetHolder True by (auto simp add: k' fun_eq_iff)
      show ?thesis using conjunct1 [OF c] ok all sm True by (intro lock_okI [OF _ _ ow]) (simp_all add: k' lock_phase_def)
    qed
  next
    case (F_Release m)
    have h: "lockHolder k m = Some ?c" and k': "k' = push [F_V (LockSem m)] (?k1\<lparr>lockHolder := (lockHolder k)(m := None)\<rparr>)"
      using s F_Release by (auto simp add: Lock_Release_def Lock_IsHeldByCurrentThread_def bindE_eq_Inr)
    show ?thesis
    proof (cases "m = l")
      case False
      then show ?thesis using fr F_Release ok all by (intro view) (auto simp add: k' push_def)
    next
      case True
      have z: "owes l (frames k t) = 0" for t using phases(3) h True by (auto simp add: fun_eq_iff)
      from z [of ?c] z have ow: "(\<lambda>t. owes l (frames k' t)) = (\<lambda>_. 0)(?c := 1)" using fr F_Release True by (auto simp add: k' push_def fun_eq_iff)
      have "sem_value sm = 0" using phases(3) h True by simp
      then show ?thesis using ok all sm True by (intro lock_okI [OF _ _ ow]) (auto simp add: k' push_def lock_phase_def)
    qed
  qed (use s fr ok all in \<open>auto simp add: Semaphore_P_def Lock_Acquire_def Condition_Signal_def lst_remove_front_def push_def bindE_eq_Inr
       split: if_splits list.splits intro!: view\<close>)
qed

lemma run_cmd_lock:
  assumes inv: "sched_inv k" and lk: "lock_ok l k" and fr: "frames k (currentThread k) = []" and s: "run_cmd c k = Inr k'"
  shows "lock_ok l k'"
proof -
  have all: "owes_ok l (frames k t)" for t using lk by (simp add: lock_ok_def)
  note view = lock_ok_view [OF lk]
  show ?thesis
  proof (cases c)
    case (C_Fork pid body)
    have "threads k (next_tid k) = None"
    proof (rule ccontr)
      assume "threads k (next_tid k) \<noteq> None"
      then have "next_tid k < next_tid k" using inv unfolding sched_inv_def running_ok_def by blast
      then show False by simp
    qed
    then have "frames k (next_tid k) = []" using inv unfolding sched_inv_def stacks_ok_def by blast
    then show ?thesis using s all fr C_Fork
      by (intro view) (auto simp add: Thread_Fork_def set_thread_def Scheduler_ReadyToRun_def Thread_setStatus_def lst_append_def push_def
          bindE_eq_Inr Let_def split: if_splits)
  next
    case (C_Wait x m)
    then show ?thesis using s all fr
      by (intro view) (auto simp add: Condition_Wait_def set_sem_def push_def bindE_eq_Inr Let_def split: if_splits)
  qed (rule view; use s all fr in \<open>auto simp add: push_def call_def bindE_eq_Inr split: if_splits\<close>)+
qed

lemma kernel_step_lock:
  assumes dh: "device_handlers h" and inv: "sched_inv k" and lk: "lock_ok l k" and s: "kernel_step h k = Inr k'"
  shows "lock_ok l k'"
proof (cases "frames k (currentThread k)")
  case (Cons f fs)
  then show ?thesis using run_frame_lock [OF dh inv lk Cons] s by (simp add: kernel_step_def)
next
  case Nil
  show ?thesis
  proof (cases "prog k (currentThread k)")
    case (Cons c cs)
    then show ?thesis using run_cmd_lock [of "k\<lparr>prog := (prog k)(currentThread k := cs)\<rparr>" l c k'] inv lk s Nil by (simp add: kernel_step_def)
  next
    case Nil2: Nil
    have "owes_ok l (frames k t)" for t using lk by (simp add: lock_ok_def)
    then show ?thesis using s Nil Nil2
      by (intro lock_ok_view [OF lk]) (auto simp add: kernel_step_def Thread_Finish_def Thread_Sleep_def Thread_setStatus_def set_thread_def push_def bindE_eq_Inr Let_def)
  qed
qed

end
