(* ===== verification/Kernel.thy ===== *)
theory Kernel
  imports Wakeup
begin

text \<open>
  \<^verbatim>\<open>code/threads/kernel.cc\<close>: the kernel from \<open>Kernel::Initialize\<close> on, the states it reaches, and the properties of
  threads, semaphores and locks in all of them.
\<close>

section \<open>What a frame leaves behind\<close>

text \<open>The frames that the execution of a frame pushes on the rest of the thread's frames.\<close>

fun leaves :: "frame \<Rightarrow> frame list \<Rightarrow> bool" where
  "leaves (F_SetLevel l) gs \<longleftrightarrow> gs = [] \<or> (\<exists>u. gs = [F_Yield, F_SetStatus u])"
| "leaves F_Yield gs \<longleftrightarrow> (\<exists>l. gs = [F_SetLevel l])"
| "leaves (F_SleepLoop b) gs \<longleftrightarrow> gs = [] \<or> gs = [F_SleepLoop b]"
| "leaves (F_P s) gs \<longleftrightarrow> (\<exists>l. gs = [F_PLoop s, F_SetLevel l])"
| "leaves (F_PLoop s) gs \<longleftrightarrow> gs = [] \<or> gs = [F_SleepLoop False, F_PLoop s]"
| "leaves (F_V s) gs \<longleftrightarrow> (\<exists>l. gs = [F_SetLevel l])"
| "leaves (F_Acquire l) gs \<longleftrightarrow> gs = [F_P (LockSem l), F_SetHolder l]"
| "leaves (F_Release l) gs \<longleftrightarrow> gs = [F_V (LockSem l)]"
| "leaves (F_Signal c l) gs \<longleftrightarrow> gs = [] \<or> (\<exists>w. gs = [F_V (WaitSem w)])"
| "leaves f gs \<longleftrightarrow> gs = []"

definition at_frames :: "nat \<Rightarrow> (nat \<Rightarrow> frame list) \<Rightarrow> ('g, 'k) kernel_scheme \<Rightarrow> bool" where
  "at_frames c F k \<longleftrightarrow> currentThread k = c \<and> frames k = F"

lemma device_acts_at: "device_acts k k' \<Longrightarrow> at_frames c F k \<Longrightarrow> at_frames c F k'"
proof (induction rule: device_acts.induct)
  case (acts_V k k' s k'')
  then show ?case using V_body_fields [OF acts_V.hyps(2)] by (simp add: at_frames_def)
qed (auto simp add: at_frames_def Interrupt_Schedule_def Interrupt_YieldOnReturn_def bindE_eq_Inr Let_def)

lemma at_stable: "stable (at_frames c F)"
  by (rule stableI) (auto simp add: at_frames_def dest: device_acts_at [unfolded at_frames_def])

lemma run_frame_leaves:
  assumes dh: "device_handlers h" and inv: "sched_inv k" and fr: "frames k (currentThread k) = f # fs"
    and s: "run_frame h f (k\<lparr>frames := (frames k)(currentThread k := fs)\<rparr>) = Inr k'"
  shows "\<exists>gs. leaves f gs \<and> frames k' = (frames k)(currentThread k := gs @ fs)"
proof -
  let ?c = "currentThread k"
  let ?k1 = "k\<lparr>frames := (frames k)(?c := fs)\<rparr>"
  show ?thesis
  proof (cases f)
    case (F_SetLevel v)
    obtain old y k2 where sl: "Interrupt_SetLevel h v ?k1 = Inr (old, y, k2)"
      and k': "k' = (case y of None \<Rightarrow> k2 | Some u \<Rightarrow> push [F_Yield, F_SetStatus u] k2)"
      using s F_SetLevel by (auto simp add: bindE_eq_Inr)
    have tk: "at_frames ?c (frames ?k1) (ticked (?k1\<lparr>int_level := v\<rparr>))" by (simp add: at_frames_def ticked_def)
    have "at_frames ?c (frames ?k1) k2"
    proof (cases "v = IntOn \<and> int_level k = IntOff")
      case True
      then obtain k3 b where k3: "Interrupt_CheckIfDue h False (ticked (?k1\<lparr>int_level := v\<rparr>)) = Inr (b, k3)"
        "k2 = k3\<lparr>int_level := IntOn\<rparr> \<or> k2 = k3\<lparr>int_level := IntOn, yieldOnReturn := False, status := SystemMode\<rparr>"
        using sl by (auto simp add: Interrupt_SetLevel_def Interrupt_ChangeLevel_def OneTick_eq bindE_eq_Inr Let_def split: if_splits)
      have "at_frames ?c (frames ?k1) k3" by (rule device_handlers.CheckIfDue_stable [OF dh at_stable tk k3(1)])
      then show ?thesis using k3(2) by (auto simp add: at_frames_def)
    next
      case False
      then show ?thesis using sl by (auto simp add: Interrupt_SetLevel_def Interrupt_ChangeLevel_def bindE_eq_Inr Let_def at_frames_def split: if_splits)
    qed
    then have "frames k2 = frames ?k1" "currentThread k2 = ?c" by (simp_all add: at_frames_def)
    then show ?thesis using F_SetLevel
      by (intro exI [of _ "case y of None \<Rightarrow> [] | Some u \<Rightarrow> [F_Yield, F_SetStatus u]"]) (simp add: k' push_def split: option.split)
  next
    case F_Yield
    have "F_SleepLoop b \<notin> set fs" for b using awake_frame(2) [OF inv fr] F_Yield by auto
    then have "sched_inv ?k1" "\<not> asleep ?k1" using inv_pop [OF inv fr] F_Yield by (cases fs; auto simp add: asleep_def)+
    from Yield_fields [OF this] s F_Yield show ?thesis by auto
  next
    case (F_SleepLoop b)
    show ?thesis
    proof (cases "readyList k")
      case Nil
      have off: "int_level k = IntOff" using inv fr F_SleepLoop by (simp add: sched_inv_def stacks_ok_def)
      have "Interrupt_Idle h (push [F_SleepLoop b] ?k1) = Inr k'"
        using s off Nil F_SleepLoop by (simp add: Thread_Sleep_loop_def Scheduler_FindNextToRun_def)
      moreover have "at_frames ?c (frames k) (push [F_SleepLoop b] ?k1)" using fr F_SleepLoop by (simp add: at_frames_def push_def fun_upd_idem)
      ultimately have "frames k' = frames k" using device_handlers.Idle_stable [OF dh at_stable] by (metis at_frames_def)
      then show ?thesis using fr F_SleepLoop by (intro exI [of _ "[F_SleepLoop b]"]) (simp add: fun_upd_idem)
    next
      case (Cons n r)
      have s': "Thread_Sleep_loop h b ?k1 = Inr k'" and fr': "frames k ?c = F_SleepLoop b # fs" using s fr F_SleepLoop by simp_all
      show ?thesis using SleepLoop_fields(3) [OF inv fr' Cons s'] F_SleepLoop by (intro exI [of _ "[]"]) simp
    qed
  next
    case (F_PLoop x)
    have "Semaphore_P_loop x ?k1 = Inr k'" using s F_PLoop by simp
    from P_loop_fields [OF this] have "frames k' = (frames k)(?c := F_SleepLoop False # F_PLoop x # fs) \<or> frames k' = (frames k)(?c := fs)"
      by (auto split: if_splits)
    then show ?thesis
    proof
      assume "frames k' = (frames k)(?c := F_SleepLoop False # F_PLoop x # fs)"
      then show ?thesis using F_PLoop by (intro exI [of _ "[F_SleepLoop False, F_PLoop x]"]) simp
    next
      assume "frames k' = (frames k)(?c := fs)"
      then show ?thesis using F_PLoop by (intro exI [of _ "[]"]) simp
    qed
  next
    case (F_V x)
    then obtain k2 where "Semaphore_V_body x (?k1\<lparr>int_level := IntOff\<rparr>) = Inr k2" "k' = push [F_SetLevel (int_level k)] k2"
      using s by (auto simp add: Semaphore_V_def bindE_eq_Inr Let_def)
    then show ?thesis using V_body_fields(1,2) [of x "?k1\<lparr>int_level := IntOff\<rparr>" k2] F_V
      by (intro exI [of _ "[F_SetLevel (int_level k)]"]) (simp add: push_def)
  qed (use s in \<open>auto simp add: Semaphore_P_def Lock_Acquire_def Lock_Release_def Condition_Signal_def lst_remove_front_def push_def bindE_eq_Inr
       split: if_splits list.splits\<close>)
qed

text \<open>The same for the calls of a thread, which run when it has no frames; \<open>Fork\<close> starts another thread.\<close>

fun starts :: "'g cmd \<Rightarrow> frame list \<Rightarrow> bool" where
  "starts (C_P n) gs \<longleftrightarrow> gs = [F_P (SemObj n)]"
| "starts (C_V n) gs \<longleftrightarrow> gs = [F_V (SemObj n)]"
| "starts C_Yield gs \<longleftrightarrow> gs = [F_Yield]"
| "starts (C_Acquire l) gs \<longleftrightarrow> gs = [F_Acquire l]"
| "starts (C_Release l) gs \<longleftrightarrow> gs = [F_Release l]"
| "starts (C_Wait c l) gs \<longleftrightarrow> (\<exists>w. gs = [F_Release l, F_P (WaitSem w), F_Acquire l, F_DeleteWait w])"
| "starts (C_Signal c l) gs \<longleftrightarrow> gs = [F_Signal c l]"
| "starts (C_Broadcast c l) gs \<longleftrightarrow> gs = [] \<or> gs = [F_Signal c l]"
| "starts (C_Fork pid body) gs \<longleftrightarrow> (\<exists>l. gs = [F_SetLevel l])"
| "starts _ gs \<longleftrightarrow> gs = []"

lemma run_cmd_starts:
  assumes s: "run_cmd c k = Inr k'" and fr: "frames k (currentThread k) = []" and new: "next_tid k \<noteq> currentThread k"
  shows "\<exists>gs. starts c gs \<and> (frames k' = (frames k)(currentThread k := gs)
    \<or> frames k' = (frames k)(next_tid k := [F_SetLevel IntOn], currentThread k := gs))"
proof -
  have idem: "(frames k)(currentThread k := []) = frames k" by (simp add: fr fun_upd_idem)
  show ?thesis
  proof (cases c)
  case (C_Fork pid body)
  then show ?thesis using s fr new
    by (auto simp add: Thread_Fork_def set_thread_def Scheduler_ReadyToRun_def Thread_setStatus_def lst_append_def push_def bindE_eq_Inr Let_def split: if_splits)
next
    case (C_Wait x l)
    then show ?thesis using s fr by (auto simp add: Condition_Wait_def set_sem_def push_def bindE_eq_Inr Let_def split: if_splits)
  next
    case (C_Broadcast x l)
    then show ?thesis using s fr
      by (intro exI [of _ "if waitQueue k x \<noteq> [] then [F_Signal x l] else []"]) (auto simp add: push_def call_def idem)
  next
    case (C_Do f)
    then obtain g cs where "k' = call cs (k\<lparr>glob := g\<rparr>)" using s by (auto simp add: bindE_eq_Inr)
    then show ?thesis using C_Do by (simp add: call_def idem)
  next
    case (C_While x b)
    then show ?thesis using s by (intro exI [of _ "[]"]) (auto simp add: call_def idem)
  qed (use s fr in \<open>simp_all add: push_def, auto\<close>)
qed

text \<open>A thread is in the loop of at most one \<open>P\<close>, and waits below nothing but the loop of \<open>Sleep\<close>.\<close>

fun ploop_top :: "frame list \<Rightarrow> bool" where
  "ploop_top (F_SleepLoop b # fs) = (\<forall>s. F_PLoop s \<notin> set (tl fs))"
| "ploop_top fs = (\<forall>s. F_PLoop s \<notin> set (tl fs))"

lemma kernel_step_ploop:
  assumes dh: "device_handlers h" and inv: "sched_inv k" and p: "\<And>t. ploop_top (frames k t)" and s: "kernel_step h k = Inr k'"
  shows "ploop_top (frames k' t)"
proof (cases "frames k (currentThread k)")
  case (Cons f fs)
  then obtain gs where gs: "leaves f gs" "frames k' = (frames k)(currentThread k := gs @ fs)"
    using run_frame_leaves [OF dh inv Cons] s by (auto simp add: kernel_step_def)
  have "F_SleepLoop b \<notin> set fs" for b using inv Cons unfolding sched_inv_def stacks_ok_def by simp
  then have "ploop_top (gs @ fs)" using gs(1) p [of "currentThread k"] Cons
    by (cases f; cases fs rule: ploop_top.cases) auto
  then show ?thesis using p by (simp add: gs(2))
next
  case Nil
  have "threads k (currentThread k) \<noteq> None" using inv by (simp add: sched_inv_def running_ok_def)
  then have new: "next_tid k \<noteq> currentThread k" using inv unfolding sched_inv_def running_ok_def by (metis less_irrefl)
  show ?thesis
  proof (cases "prog k (currentThread k)")
    case (Cons c cs)
    then obtain gs where "starts c gs" "frames k' = (frames k)(currentThread k := gs) \<or> frames k' = (frames k)(next_tid k := [F_SetLevel IntOn], currentThread k := gs)"
      using run_cmd_starts [of c "k\<lparr>prog := (prog k)(currentThread k := cs)\<rparr>" k'] s Nil new by (auto simp add: kernel_step_def)
    then show ?thesis using p by (cases c) auto
  next
    case Nil2: Nil
    then show ?thesis using s Nil p by (auto simp add: kernel_step_def Thread_Finish_def Thread_Sleep_def Thread_setStatus_def set_thread_def push_def bindE_eq_Inr Let_def)
  qed
qed

section \<open>The kernel from its start\<close>

text \<open>
  \<open>Kernel::Initialize\<close>: the main thread runs with interrupts off until \<open>Enable\<close>, the last call; \<open>body\<close> is what \<open>main\<close>
  goes on with.  \<open>sv\<close> are the semaphore objects with their initial values.  Every lock is free.
\<close>

definition Kernel_Initialize ::
    "32 word \<Rightarrow> bool \<Rightarrow> machine \<Rightarrow> (nat \<Rightarrow> nat option) \<Rightarrow> 'g \<Rightarrow> 'g cmd list \<Rightarrow> (Timer \<times> 'g kernel) res" where
  "Kernel_Initialize rnd randomSlice m sv g body =
     Timer_new rnd randomSlice 0 (interrupt.extend (Interrupt_new m)
       \<lparr>currentThread = 0, threads = [0 \<mapsto> (Thread_new 0)\<lparr>t_status := RUNNING\<rparr>], readyList = [], toBeDestroyed = None, next_tid = 1,
        semaphores = (\<lambda>s. case s of SemObj n \<Rightarrow> map_option (\<lambda>v. Semaphore_new (int v)) (sv n)
                                  | LockSem l \<Rightarrow> Some (Semaphore_new 1)
                                  | WaitSem w \<Rightarrow> None),
        lockHolder = (\<lambda>_. None), waitQueue = (\<lambda>_. []), next_wait = 0,
        frames = (\<lambda>t. if t = 0 then [F_SetLevel IntOn] else []), prog = (\<lambda>t. if t = 0 then body else []), glob = g\<rparr>)"

text \<open>
  The interrupt handlers: the timer, and devices whose handler wakes the thread that waits for the device,
  with \<open>V\<close> on the semaphore of its driver (\<open>SynchDisk::CallBack\<close>, \<open>SynchConsoleInput::CallBack\<close>, \<open>SynchConsoleOutput::CallBack\<close>).
\<close>

definition kernel_devices :: "32 word \<Rightarrow> Timer \<Rightarrow> (nat \<Rightarrow> nat) \<Rightarrow> ('g, 'k) kernel_ext devices" where
  "kernel_devices rnd tm dev d k = (if d = timer_obj tm then Timer_CallBack rnd tm k else Semaphore_V_body (SemObj (dev d)) k)"

interpretation kdev: device_handlers "kernel_devices rnd tm dev"
proof
  fix d and k k' :: "('a, 'b) kernel_scheme"
  assume h: "kernel_devices rnd tm dev d k = Inr k'"
  show "device_acts k k'"
  proof (cases "d = timer_obj tm")
    case True
    then obtain k1 where k1: "Alarm_CallBack k = Inr k1" "Timer_SetInterrupt rnd tm k1 = Inr k'"
      using h by (auto simp add: kernel_devices_def Timer_CallBack_def bindE_eq_Inr)
    have "device_acts k k1" using k1(1) acts_yield [OF acts_none] acts_none by (auto simp add: Alarm_CallBack_def split: if_splits)
    then show ?thesis using k1(2) acts_schedule by (auto simp add: Timer_SetInterrupt_def split: if_splits)
  next
    case False
    then show ?thesis using h acts_V [OF acts_none] by (simp add: kernel_devices_def)
  qed
qed

text \<open>The states that the kernel can reach; the random numbers of the timer differ from step to step.\<close>

inductive kernel_reach :: "Timer \<Rightarrow> (nat \<Rightarrow> nat) \<Rightarrow> 'g kernel \<Rightarrow> 'g kernel \<Rightarrow> bool" for tm dev k0 where
  start: "kernel_reach tm dev k0 k0"
| step: "kernel_reach tm dev k0 k \<Longrightarrow> kernel_step (kernel_devices rnd tm dev) k = Inr k' \<Longrightarrow> kernel_reach tm dev k0 k'"

fun kernel_run :: "('g, 'k) kernel_ext devices \<Rightarrow> nat \<Rightarrow> ('g, 'k) kernel_scheme \<Rightarrow> ('g, 'k) kernel_scheme res" where
  "kernel_run h 0 k = Inr k"
| "kernel_run h (Suc n) k = bindE (kernel_step h k) (kernel_run h n)"

lemma kernel_run_reach: "kernel_run (kernel_devices rnd tm dev) n k = Inr k' \<Longrightarrow> kernel_reach tm dev k0 k \<Longrightarrow> kernel_reach tm dev k0 k'"
  by (induction n arbitrary: k) (auto simp add: bindE_eq_Inr intro: kernel_reach.step)

text \<open>A kernel whose main thread has the given program, run for some steps.\<close>

definition kernel_demo :: "nat \<Rightarrow> unit cmd list \<Rightarrow> (Timer \<times> unit kernel \<times> unit kernel) res" where
  "kernel_demo n body =
     bindE (Kernel_Initialize 0 False (Machine_new False) [0 \<mapsto> 0] () body) (\<lambda>(tm, k0).
     bindE (kernel_run (kernel_devices 0 tm (\<lambda>_. 0)) n k0) (\<lambda>k. Inr (tm, k0, k)))"

lemma kernel_demo_reach:
  assumes "kernel_demo n body = Inr (tm, k0, k)"
  shows "Kernel_Initialize 0 False (Machine_new False) [0 \<mapsto> 0] () body = Inr (tm, k0)" "kernel_reach tm (\<lambda>_. 0) k0 k"
  using assms by (auto simp add: kernel_demo_def bindE_eq_Inr intro: kernel_run_reach kernel_reach.start)

lemma Initialize_simps:
  assumes "Kernel_Initialize rnd b m sv g body = Inr (tm, k)"
  shows "currentThread k = 0" "threads k = [0 \<mapsto> (Thread_new 0)\<lparr>t_status := RUNNING\<rparr>]" "readyList k = []" "toBeDestroyed k = None" "next_tid k = 1"
    "semaphores k = (\<lambda>s. case s of SemObj n \<Rightarrow> map_option (\<lambda>v. Semaphore_new (int v)) (sv n) | LockSem l \<Rightarrow> Some (Semaphore_new 1) | WaitSem w \<Rightarrow> None)"
    "lockHolder k = (\<lambda>_. None)" "next_wait k = 0" "frames k = (\<lambda>t. if t = 0 then [F_SetLevel IntOn] else [])" "int_level k = IntOff"
  using assms by (auto simp add: Kernel_Initialize_def Timer_new_def Timer_SetInterrupt_def Interrupt_Schedule_def Interrupt_new_def
      interrupt.extend_def machine.extend_def bindE_eq_Inr Let_def split: if_splits)

lemma Initialize_inv:
  assumes "Kernel_Initialize rnd b m sv g body = Inr (tm, k)"
  shows "sched_inv k" "wake_ok k" "lock_ok l k"
proof -
  note [simp] = Initialize_simps [OF assms]
  have st: "st k = [0 \<mapsto> RUNNING]" by (simp add: st_def fun_eq_iff)
  show "sched_inv k" unfolding sched_defs st asleep_def waits_def
    by (auto simp add: Semaphore_new_def uses_def split: sem_id.splits if_splits)
  show "wake_ok k" by (auto simp add: wake_ok_def Semaphore_new_def split: sem_id.splits)
  show "lock_ok l k" by (rule lock_okI [where ow = "\<lambda>_. 0"]) (auto simp add: Semaphore_new_def lock_phase_def)
qed

lemma reach_inv:
  assumes "kernel_reach tm dev k0 k" "Kernel_Initialize rnd b m sv g body = Inr (tm, k0)"
  shows "sched_inv k \<and> wake_ok k \<and> lock_ok l k \<and> (\<forall>t. ploop_top (frames k t))"
  using assms(1)
proof (induction rule: kernel_reach.induct)
  case start
  have "ploop_top (frames k0 t)" for t by (simp add: Initialize_simps(9) [OF assms(2)])
  then show ?case using Initialize_inv [OF assms(2)] by blast
next
  case (step k rnd k')
  note dh = kdev.device_handlers_axioms [of rnd tm dev]
  have k: "sched_inv k" "wake_ok k" "lock_ok l k" "\<And>t. ploop_top (frames k t)" using step.IH by blast+
  show ?case using kernel_step_inv [OF dh k(1) step.hyps(2)] kernel_step_wake [OF dh k(1,2) step.hyps(2)]
    kernel_step_lock [OF dh k(1,3) step.hyps(2)] kernel_step_ploop [OF dh k(1,4) step.hyps(2)] by blast
qed

lemma waits_unique: "waits k t s \<Longrightarrow> waits k t s' \<Longrightarrow> s = s'"
  by (auto simp add: waits_def split: if_splits)

text \<open>
  C5.  Every thread of a running kernel is in one place.  In every state that the kernel reaches from its
  start, the thread that runs is the current one and no other runs; the ready list holds the ready
  threads and each once; a blocked thread is in the queue of exactly one semaphore, unless it is the
  current thread and has finished.  No thread that is already deleted waits to be deleted.
\<close>

theorem threads_in_one_place:
  assumes "Kernel_Initialize rnd b m sv g body = Inr (tm, k0)" "kernel_reach tm dev k0 k" "threads k t = Some th"
  shows "(t_status th = RUNNING \<longleftrightarrow> t = currentThread k \<and> \<not> asleep k) \<and> (t_status th = READY \<longleftrightarrow> t \<in> set (readyList k)) \<and> distinct (readyList k)
    \<and> (t_status th = BLOCKED \<longleftrightarrow> (\<exists>!s. \<exists>sm. semaphores k s = Some sm \<and> t \<in> set (sem_queue sm)) \<or> t = currentThread k \<and> frames k t = [F_SleepLoop True])
    \<and> (\<forall>s sm. semaphores k s = Some sm \<longrightarrow> distinct (sem_queue sm)) \<and> toBeDestroyed k = None"
proof -
  have inv: "sched_inv k" using reach_inv [OF assms(2,1)] by blast
  have t: "st k t = Some (t_status th)" using assms(3) by (simp add: st_def)
  have q: "st k t = Some BLOCKED \<and> waits k t s" if "semaphores k s = Some sm" "t \<in> set (sem_queue sm)" for s sm
    using inv that unfolding sched_inv_def queues_ok_def by metis
  have "(t_status th = BLOCKED) = ((\<exists>!s. \<exists>sm. semaphores k s = Some sm \<and> t \<in> set (sem_queue sm)) \<or> t = currentThread k \<and> frames k t = [F_SleepLoop True])"
  proof
    assume "t_status th = BLOCKED"
    then have "(\<exists>s sm. semaphores k s = Some sm \<and> t \<in> set (sem_queue sm)) \<or> t = currentThread k \<and> frames k t = [F_SleepLoop True]"
      using inv t unfolding sched_inv_def blocked_ok_def by simp
    then show "(\<exists>!s. \<exists>sm. semaphores k s = Some sm \<and> t \<in> set (sem_queue sm)) \<or> t = currentThread k \<and> frames k t = [F_SleepLoop True]"
      using q waits_unique by (metis (lifting))
  next
    assume "(\<exists>!s. \<exists>sm. semaphores k s = Some sm \<and> t \<in> set (sem_queue sm)) \<or> t = currentThread k \<and> frames k t = [F_SleepLoop True]"
    then show "t_status th = BLOCKED" using q t inv unfolding sched_inv_def running_ok_def by auto
  qed
  moreover have "(t_status th = RUNNING \<longleftrightarrow> t = currentThread k \<and> \<not> asleep k) \<and> toBeDestroyed k = None"
    using inv t unfolding sched_inv_def running_ok_def by (metis option.inject)
  moreover have "(t_status th = READY \<longleftrightarrow> t \<in> set (readyList k)) \<and> distinct (readyList k)"
    using inv t unfolding sched_inv_def ready_ok_def by simp
  moreover have "\<forall>s sm. semaphores k s = Some sm \<longrightarrow> distinct (sem_queue sm)"
    using inv unfolding sched_inv_def queues_ok_def by blast
  ultimately show ?thesis by blast
qed

theorem threads_in_one_place_witness:
  "\<exists>tm k0 k th. kernel_demo 17 [C_Fork 1 [C_P 0], C_Fork 1 [C_P 0], C_Yield, C_V 0] = Inr (tm, k0, k) \<and> threads k 2 = Some th
    \<and> 2 \<notin> set (readyList k) \<and> (\<exists>!s. \<exists>sm. semaphores k s = Some sm \<and> 2 \<in> set (sem_queue sm))"
proof -
  let ?r = "kernel_demo 17 [C_Fork 1 [C_P 0], C_Fork 1 [C_P 0], C_Yield, C_V 0]"
  have r: "case ?r of Inl _ \<Rightarrow> False | Inr (_, _, k) \<Rightarrow> map_option t_status (threads k 2) = Some BLOCKED \<and> currentThread k = 0" by code_simp
  then obtain tm k0 k where k: "?r = Inr (tm, k0, k)" by (cases ?r) auto
  then obtain th where th: "threads k 2 = Some th" "t_status th = BLOCKED" "currentThread k = 0" using r by auto
  from threads_in_one_place [OF kernel_demo_reach [OF k] th(1)] show ?thesis using k th by auto
qed

text \<open>
  C4.  No wake-up is lost.  In every state that the kernel reaches, a semaphore that has a value left while
  threads wait in its queue has threads that were woken and have not tested it again, at least as many as
  its value; each of them is in the ready list, or is the current thread and runs.
\<close>

theorem no_lost_wakeup:
  assumes "Kernel_Initialize rnd b m sv g body = Inr (tm, k0)" "kernel_reach tm dev k0 k" "semaphores k s = Some sm" "sem_queue sm \<noteq> []"
  shows "sem_value sm \<le> int (card (retry k s)) \<and> (\<forall>t \<in> retry k s. t \<in> set (readyList k) \<or> t = currentThread k \<and> \<not> asleep k)"
proof -
  have inv: "sched_inv k" "wake_ok k" "\<And>t. ploop_top (frames k t)" using reach_inv [OF assms(2,1)] by blast+
  have "t \<in> set (readyList k) \<or> t = currentThread k \<and> \<not> asleep k" if "t \<in> retry k s" for t
  proof -
    have t: "threads k t \<noteq> None" "F_PLoop s \<in> set (frames k t)" "t \<notin> set (sem_queue sm)" using that assms(3) by (auto simp add: retry_def)
    then obtain u where u: "st k t = Some u" by (auto simp add: st_def)
    have "u \<noteq> BLOCKED"
    proof
      assume "u = BLOCKED"
      then obtain s' sm' where q: "semaphores k s' = Some sm'" "t \<in> set (sem_queue sm')"
        using inv(1) u t(2) unfolding sched_inv_def blocked_ok_def by fastforce
      then have "waits k t s'" using inv(1) unfolding sched_inv_def queues_ok_def by metis
      then have "s' = s" using inv(3) [of t] t(2) by (auto simp add: waits_def split: if_splits)
      then show False using q t(3) assms(3) by simp
    qed
    then show ?thesis using inv(1) u t(1) unfolding sched_inv_def ready_ok_def running_ok_def by (cases u) auto
  qed
  then show ?thesis using inv(2) assms(3,4) unfolding wake_ok_def by metis
qed

theorem no_lost_wakeup_witness:
  "\<exists>tm k0 k sm. kernel_demo 17 [C_Fork 1 [C_P 0], C_Fork 1 [C_V 0], C_P 0] = Inr (tm, k0, k) \<and> semaphores k (SemObj 0) = Some sm
    \<and> sem_queue sm = [1] \<and> sem_value sm = 1 \<and> 1 \<le> card (retry k (SemObj 0))"
proof -
  let ?r = "kernel_demo 17 [C_Fork 1 [C_P 0], C_Fork 1 [C_V 0], C_P 0]"
  have r: "case ?r of Inl _ \<Rightarrow> False | Inr (_, _, k) \<Rightarrow> map_option (\<lambda>sm. (sem_queue sm, sem_value sm)) (semaphores k (SemObj 0)) = Some ([1], 1)" by code_simp
  then obtain tm k0 k where k: "?r = Inr (tm, k0, k)" by (cases ?r) auto
  then obtain sm where sm: "semaphores k (SemObj 0) = Some sm" "sem_queue sm = [1]" "sem_value sm = 1" using r by auto
  from no_lost_wakeup [OF kernel_demo_reach [OF k] sm(1)] show ?thesis using k sm by auto
qed

text \<open>
  A thread has a lock from the moment it takes the semaphore of the lock, before it is noted as the holder,
  until it has given the semaphore back.
\<close>

definition has_lock :: "('g, 'k) kernel_scheme \<Rightarrow> nat \<Rightarrow> nat \<Rightarrow> bool" where
  "has_lock k l t \<longleftrightarrow> lockHolder k l = Some t \<or> owes l (frames k t) > 0"

text \<open>
  C3.  Locks exclude each other.  In every state that the kernel reaches, at most one thread has a
  lock, whatever the threads do and wherever the timer interrupts them; the semaphore of the lock is 0 while
  some thread has it and 1 otherwise, so that \<open>Acquire\<close> never overwrites another holder.
\<close>

theorem lock_exclusion:
  assumes "Kernel_Initialize rnd b m sv g body = Inr (tm, k0)" "kernel_reach tm dev k0 k"
  shows "(\<forall>t u. has_lock k l t \<longrightarrow> has_lock k l u \<longrightarrow> t = u)
    \<and> map_option sem_value (semaphores k (LockSem l)) = Some (if \<exists>t. has_lock k l t then 0 else 1)"
proof -
  have "lock_ok l k" using reach_inv [OF assms(2,1)] by blast
  then obtain sm where sm: "semaphores k (LockSem l) = Some sm" "lock_phase (sem_value sm) (lockHolder k l) (\<lambda>t. owes l (frames k t))"
    by (auto simp add: lock_ok_def)
  from sm(2) show ?thesis unfolding lock_phase_def
  proof (elim disjE conjE exE)
    fix t
    assume a: "sem_value sm = 0" "lockHolder k l = None" "(\<lambda>t. owes l (frames k t)) = (\<lambda>_. 0)(t := 1)"
    have "has_lock k l u \<longleftrightarrow> u = t" for u using fun_cong [OF a(3), of u] by (simp add: has_lock_def a(2))
    then show ?thesis using sm(1) a(1) by simp
  qed (auto simp add: has_lock_def sm(1) fun_eq_iff)
qed

theorem lock_exclusion_witness:
  "\<exists>tm k0 k. kernel_demo 17 [C_Acquire 0, C_Fork 1 [C_Acquire 0], C_Yield] = Inr (tm, k0, k) \<and> has_lock k 0 0 \<and> \<not> has_lock k 0 1
    \<and> map_option sem_value (semaphores k (LockSem 0)) = Some 0"
proof -
  let ?r = "kernel_demo 17 [C_Acquire 0, C_Fork 1 [C_Acquire 0], C_Yield]"
  have r: "case ?r of Inl _ \<Rightarrow> False | Inr (_, _, k) \<Rightarrow> lockHolder k 0 = Some 0" by code_simp
  then obtain tm k0 k where k: "?r = Inr (tm, k0, k)" by (cases ?r) auto
  then have h: "has_lock k 0 0" using r by (auto simp add: has_lock_def)
  from lock_exclusion [OF kernel_demo_reach [OF k], of 0] show ?thesis using k h by fastforce
qed

end
