(* ===== verification/Console_IO.thy ===== *)
theory Console_IO
  imports AddrSpace
begin
text \<open>
  The console system calls of \<^verbatim>\<open>code/userprog/ksyscall.h\<close> and the copying of strings between user and kernel memory of
  \<^verbatim>\<open>exception.cc\<close>.

  A \<open>char\<close> is an \<open>8 word\<close>, signed as on the host; an \<open>int\<close> is a \<open>32 word\<close>.  The console is the sequence of characters
  that are still to be typed and the sequence that was printed.  \<open>SynchConsoleInput::GetChar\<close> waits for
  a character; when no more is typed the call does not return (\<open>Diverges\<close>).  Arithmetic on \<open>int\<close> wraps around, as
  the compiled code does.
\<close>

section \<open>Model\<close>

subsection \<open>The console\<close>

record console =
  con_in :: "8 word list"
  con_out :: "8 word list"

definition GetChar :: "'c console_scheme \<Rightarrow> (8 word \<times> 'c console_scheme) res" where
  "GetChar c = (case con_in c of [] \<Rightarrow> Inl Diverges | ch # cs \<Rightarrow> Inr (ch, c\<lparr>con_in := cs\<rparr>))"

definition PutChar :: "8 word \<Rightarrow> 'c console_scheme \<Rightarrow> 'c console_scheme" where
  "PutChar ch c = c\<lparr>con_out := con_out c @ [ch]\<rparr>"

text \<open>The characters blank, newline, minus, zero, and \<open>EOF\<close>, which is \<open>-1\<close>.\<close>

abbreviation (input) ch_space :: "8 word" where "ch_space \<equiv> 32"
abbreviation (input) ch_nl :: "8 word" where "ch_nl \<equiv> 10"
abbreviation (input) ch_minus :: "8 word" where "ch_minus \<equiv> 45"
abbreviation (input) ch_eof :: "8 word" where "ch_eof \<equiv> - 1"

definition SysReadChar :: "'c console_scheme \<Rightarrow> (8 word \<times> 'c console_scheme) res" where
  "SysReadChar c = GetChar c"

definition SysPrintChar :: "8 word \<Rightarrow> 'c console_scheme \<Rightarrow> 'c console_scheme" where
  "SysPrintChar ch c = PutChar ch c"

definition SysAdd :: "32 word \<Rightarrow> 32 word \<Rightarrow> 32 word" where
  "SysAdd op1 op2 = op1 + op2"

subsection \<open>Numbers\<close>

definition isDigit :: "8 word \<Rightarrow> bool" where
  "isDigit c \<longleftrightarrow> 48 \<le> sint c \<and> sint c \<le> 57"

text \<open>The two loops of \<open>SysReadNum\<close>, over the characters that are typed.\<close>

fun ReadNum_skip :: "8 word list \<Rightarrow> (8 word \<times> 8 word list) res" where
  "ReadNum_skip [] = Inl Diverges"
| "ReadNum_skip (c # cs) = (if c = ch_space \<or> c = ch_nl then ReadNum_skip cs else Inr (c, cs))"

fun ReadNum_loop :: "32 word \<Rightarrow> bool \<Rightarrow> 8 word \<Rightarrow> 8 word list \<Rightarrow> (32 word \<times> bool \<times> 8 word list) res" where
  "ReadNum_loop num isInteger c [] = Inl Diverges"
| "ReadNum_loop num isInteger c (c' # cs) =
     (let num = num * 10 + scast c - 48;
          isInteger = (if \<not> isDigit c' \<and> c' \<noteq> ch_nl \<and> c' \<noteq> ch_space then False else isInteger) in
      if c' \<noteq> ch_nl \<and> c' \<noteq> ch_space then ReadNum_loop num isInteger c' cs else Inr (num, isInteger, cs))"

definition SysReadNum :: "'c console_scheme \<Rightarrow> (32 word \<times> 'c console_scheme) res" where
  "SysReadNum con =
     bindE (ReadNum_skip (con_in con)) (\<lambda>(c, cs).
     let isSign = (c = ch_minus) in
     bindE (if isSign then (case cs of [] \<Rightarrow> Inl Diverges | c # cs \<Rightarrow> Inr (c, cs)) else Inr (c, cs)) (\<lambda>(c, cs).
     if isSign \<and> (c = ch_nl \<or> c = ch_space) then Inr (0, con\<lparr>con_in := cs\<rparr>)
     else
       bindE (ReadNum_loop 0 (isDigit c) c cs) (\<lambda>(num, isInteger, cs).
       Inr (if \<not> isInteger then 0 else if isSign then - num else num, con\<lparr>con_in := cs\<rparr>))))"

text \<open>The digits of \<open>SysPrintNum\<close>: \<open>arr\<close> has 10 elements.\<close>

function PrintNum_digits :: "int \<Rightarrow> 8 word list \<Rightarrow> 8 word list res" where
  "PrintNum_digits op1 arr =
     (if op1 = 0 then Inr arr
      else if length arr < 10 then PrintNum_digits (op1 sdiv 10) (arr @ [word_of_int (op1 smod 10)])
      else Inl Out_of_bounds)"
  by auto

termination PrintNum_digits
  by (relation "measure (\<lambda>(op1, arr). 10 - length arr)") auto

definition SysPrintNum :: "32 word \<Rightarrow> 'c console_scheme \<Rightarrow> 'c console_scheme res" where
  "SysPrintNum op1 con =
     (if op1 = 0 then Inr (PutChar 48 con)
      else
        let con = (if sint op1 < 0 then PutChar ch_minus con else con);
            op1 = (if sint op1 < 0 then - op1 else op1) in
        bindE (PrintNum_digits (sint op1) []) (\<lambda>arr.
        Inr (fold (\<lambda>d. PutChar (48 + d)) (rev arr) con)))"

subsection \<open>Strings\<close>

text \<open>A buffer is a list of characters; an index outside it is an access out of bounds.\<close>

fun ReadString_getchar :: "8 word list \<Rightarrow> (8 word \<times> 8 word list) res" where
  "ReadString_getchar [] = Inl Diverges"
| "ReadString_getchar (c # cs) = (if c = ch_eof then ReadString_getchar cs else Inr (c, cs))"

lemma ReadString_getchar_shorter: "ReadString_getchar cs = Inr (c, cs') \<Longrightarrow> length cs' < length cs"
  by (induction cs) (auto split: if_splits simp: less_Suc_eq)

text \<open>The loop that fills the buffer; \<open>stop\<close> is the test for the end of the input.\<close>

function (sequential) ReadString_loop ::
    "(8 word \<Rightarrow> bool) \<Rightarrow> int \<Rightarrow> int \<Rightarrow> 8 word list \<Rightarrow> 8 word list \<Rightarrow> (int \<times> 8 word list \<times> 8 word list) res" where
  "ReadString_loop stop len idx buffer cs =
     (if idx < len
      then bindE (ReadString_getchar cs) (\<lambda>(ch, cs).
           if stop ch then Inr (idx, buffer, cs)
           else bindE (writeA buffer idx ch) (\<lambda>buffer. ReadString_loop stop len (idx + 1) buffer cs))
      else Inr (idx, buffer, cs))"
  by pat_completeness auto

termination ReadString_loop
  by (relation "measure (\<lambda>(stop, len, idx, buffer, cs). nat (len - idx))") auto

definition ReadString_clear :: "int \<Rightarrow> 8 word list \<Rightarrow> 8 word list res" where
  "ReadString_clear len buffer = foldE (\<lambda>idx b. writeA b idx 0) [0..len - 1] buffer"

definition SysReadString :: "8 word list \<Rightarrow> int \<Rightarrow> 'c console_scheme \<Rightarrow> (8 word list \<times> 'c console_scheme) res" where
  "SysReadString buffer len con =
     bindE (ReadString_clear len buffer) (\<lambda>buffer.
     bindE (ReadString_loop (\<lambda>ch. ch = 1 \<or> ch = ch_nl) len 0 buffer (con_in con)) (\<lambda>(_, buffer, cs).
     Inr (buffer, con\<lparr>con_in := cs\<rparr>)))"

text \<open>\<open>readString\<close> of \<^verbatim>\<open>code/threads/pcb.cc\<close>, which also writes a 0 after the end.\<close>

definition readString :: "8 word list \<Rightarrow> int \<Rightarrow> 'c console_scheme \<Rightarrow> (int \<times> 8 word list \<times> 'c console_scheme) res" where
  "readString buffer len con =
     bindE (ReadString_clear len buffer) (\<lambda>buffer.
     bindE (ReadString_loop (\<lambda>ch. ch = ch_nl) len 0 buffer (con_in con)) (\<lambda>(idx, buffer, cs).
     bindE (writeA buffer (idx + 1) 0) (\<lambda>buffer.
     Inr (idx, buffer, con\<lparr>con_in := cs\<rparr>))))"

text \<open>\<open>SysPrintString\<close> stops at the first 0; without one it reads past the buffer.\<close>

fun SysPrintString :: "8 word list \<Rightarrow> 'c console_scheme \<Rightarrow> 'c console_scheme res" where
  "SysPrintString [] con = Inl Out_of_bounds"
| "SysPrintString (ch # buffer) con = (if ch = 0 then Inr con else SysPrintString buffer (PutChar ch con))"

subsection \<open>User memory\<close>

text \<open>
  \<open>User2System\<close> allocates \<open>limit + 1\<close> characters; those that it does not write are what the heap held (\<open>junk\<close>).  A
  \<open>ReadMem\<close> that raises an exception and returns leaves \<open>oneChar\<close> as it was; \<open>oneChar\<close> is not initialised
  (\<open>junk32\<close>).
\<close>

fun User2System_loop ::
    "(ExceptionType \<Rightarrow> 'm machine_scheme \<Rightarrow> 'm machine_scheme res) \<Rightarrow> 32 word \<Rightarrow> nat \<Rightarrow> nat \<Rightarrow> 32 word \<Rightarrow> 8 word list
     \<Rightarrow> 'm machine_scheme \<Rightarrow> (8 word list \<times> 'm machine_scheme) res" where
  "User2System_loop h va idx 0 oneChar kernelBuffer m = Inr (kernelBuffer, m)"
| "User2System_loop h va idx (Suc n) oneChar kernelBuffer m =
     bindE (Machine_ReadMem h (va + of_nat idx) 1 m) (\<lambda>(r, m).
     let oneChar = (case r of None \<Rightarrow> oneChar | Some v \<Rightarrow> v);
         kernelBuffer = kernelBuffer[idx := ucast oneChar] in
     if oneChar = 0 then Inr (kernelBuffer, m) else User2System_loop h va (Suc idx) n oneChar kernelBuffer m)"

definition User2System ::
    "(ExceptionType \<Rightarrow> 'm machine_scheme \<Rightarrow> 'm machine_scheme res) \<Rightarrow> (nat \<Rightarrow> 8 word) \<Rightarrow> 32 word \<Rightarrow> 32 word \<Rightarrow> int
     \<Rightarrow> 'm machine_scheme \<Rightarrow> (8 word list \<times> 'm machine_scheme) res" where
  "User2System h junk junk32 va limit m =
     (if limit + 1 < 0 then Inl Host_trap
      else User2System_loop h va 0 (nat limit) junk32 (map junk [0..<nat (limit + 1)]) m)"

function System2User_loop ::
    "(ExceptionType \<Rightarrow> 'm machine_scheme \<Rightarrow> 'm machine_scheme res) \<Rightarrow> 32 word \<Rightarrow> int \<Rightarrow> 8 word list \<Rightarrow> int
     \<Rightarrow> 'm machine_scheme \<Rightarrow> (int \<times> 'm machine_scheme) res" where
  "System2User_loop h va len buffer i m =
     bindE (readA buffer i) (\<lambda>oneChar.
     bindE (Machine_WriteMem h (va + word_of_int i) 1 (scast oneChar) m) (\<lambda>(_, m).
     if i + 1 < len \<and> oneChar \<noteq> 0 then System2User_loop h va len buffer (i + 1) m else Inr (i + 1, m)))"
  by auto

termination System2User_loop
  by (relation "measure (\<lambda>(h, va, len, buffer, i, m). nat (len - i))") auto

definition System2User ::
    "(ExceptionType \<Rightarrow> 'm machine_scheme \<Rightarrow> 'm machine_scheme res) \<Rightarrow> 32 word \<Rightarrow> int \<Rightarrow> 8 word list
     \<Rightarrow> 'm machine_scheme \<Rightarrow> (int \<times> 'm machine_scheme) res" where
  "System2User h va len buffer m =
     (if len < 0 then Inr (- 1, m) else if len = 0 then Inr (0, m) else System2User_loop h va len buffer 0 m)"

declare PrintNum_digits.simps [simp del] ReadString_loop.simps [simp del] System2User_loop.simps [simp del]

section \<open>Reading and printing numbers\<close>

definition blank :: "8 word \<Rightarrow> bool" where
  "blank c \<longleftrightarrow> c = ch_space \<or> c = ch_nl"

text \<open>The number that a word of text stands for; 0 for a word that is not a number.\<close>

definition decimal :: "8 word list \<Rightarrow> int" where
  "decimal ds = foldl (\<lambda>a c. a * 10 + (sint c - 48)) 0 ds"

definition token_value :: "8 word list \<Rightarrow> int" where
  "token_value tok =
     (let neg = (hd tok = ch_minus);
          ds = (if neg then tl tok else tok) in
      if ds = [] \<or> \<not> list_all isDigit ds then 0 else if neg then - decimal ds else decimal ds)"

lemma ReadNum_skip_blanks: "list_all blank bs \<Longrightarrow> \<not> blank c \<Longrightarrow> ReadNum_skip (bs @ c # cs) = Inr (c, cs)"
  by (induction bs) (auto simp add: blank_def)

lemma ReadNum_loop_token:
  "list_all (\<lambda>c. \<not> blank c) cs \<Longrightarrow> blank t \<Longrightarrow>
   ReadNum_loop num b c (cs @ t # rest) = Inr (foldl (\<lambda>a c. a * 10 + scast c - 48) num (c # cs), b \<and> list_all isDigit cs, rest)"
  by (induction cs arbitrary: num b c) (auto simp add: blank_def isDigit_def Let_def)

lemma word_decimal: "foldl (\<lambda>a c. a * 10 + scast c - 48) (word_of_int n) (cs :: 8 word list) = (word_of_int (foldl (\<lambda>a c. a * 10 + (sint c - 48)) n cs) :: 32 word)"
proof (induction cs arbitrary: n)
  case (Cons c cs)
  have "word_of_int n * 10 + scast c - 48 = (word_of_int (n * 10 + (sint c - 48)) :: 32 word)"
  proof -
    have "(scast c :: 32 word) = word_of_int (sint c)" by (rule scast_eq)
    then show ?thesis by (simp only: of_int_add of_int_mult of_int_diff of_int_numeral add_diff_eq)
  qed
  then show ?case using Cons.IH [of "n * 10 + (sint c - 48)"] by (simp only: foldl.simps)
qed simp

lemma sys_read_num:
  assumes "list_all blank bs" "tok \<noteq> []" "list_all (\<lambda>c. \<not> blank c) tok" "blank t"
  shows "SysReadNum (con\<lparr>con_in := bs @ tok @ t # rest\<rparr>) = Inr (word_of_int (token_value tok), con\<lparr>con_in := rest\<rparr>)"
proof -
  obtain c cs where tok: "tok = c # cs" using assms(2) by (cases tok) auto
  note skip = ReadNum_skip_blanks [OF assms(1)]
  have loop: "ReadNum_loop 0 b d (ds @ t # rest) = Inr (word_of_int (decimal (d # ds)), b \<and> list_all isDigit ds, rest)"
    if "list_all (\<lambda>c. \<not> blank c) ds" for b d ds
    using ReadNum_loop_token [OF that assms(4)] word_decimal [of 0 "d # ds"] by (simp add: decimal_def)
  have nb: "list_all (\<lambda>c. \<not> blank c) cs" using assms(3) tok by simp
  show ?thesis
  proof (cases "c = ch_minus")
    case False
    moreover have "\<not> blank c" using assms(3) tok by simp
    ultimately show ?thesis using loop [OF nb] by (auto simp add: SysReadNum_def skip Let_def token_value_def tok)
  next
    case True
    show ?thesis
    proof (cases cs)
      case Nil
      then show ?thesis using True assms(4) by (auto simp add: SysReadNum_def skip Let_def token_value_def tok blank_def)
    next
      case (Cons d ds)
      then show ?thesis using True loop [of ds _ d] nb by (auto simp add: SysReadNum_def skip Let_def token_value_def tok blank_def)
    qed
  qed
qed

text \<open>The digits that \<open>SysPrintNum\<close> collects, the last one first.\<close>

fun lsd :: "nat \<Rightarrow> nat list" where
  "lsd n = (if n = 0 then [] else n mod 10 # lsd (n div 10))"

declare lsd.simps [simp del]

lemma lsd_digits: "d \<in> set (lsd n) \<Longrightarrow> d < 10"
  by (induction n rule: lsd.induct) (subst (asm) lsd.simps, auto split: if_splits)

lemma lsd_length: "n < 10 ^ k \<Longrightarrow> length (lsd n) \<le> k"
proof (induction n arbitrary: k rule: lsd.induct)
  case (1 n)
  show ?case
  proof (cases k)
    case 0
    then show ?thesis using 1 by (simp add: lsd.simps)
  next
    case (Suc j)
    then have "n div 10 < 10 ^ j" using 1(2) by (simp add: less_mult_imp_div_less mult.commute)
    then show ?thesis using 1(1) [of j] Suc by (subst lsd.simps) auto
  qed
qed

lemma PrintNum_digits_lsd:
  "length arr + length (lsd n) \<le> 10 \<Longrightarrow> PrintNum_digits (int n) arr = Inr (arr @ map of_nat (lsd n))"
proof (induction n arbitrary: arr rule: lsd.induct)
  case (1 n)
  show ?case
  proof (cases "n = 0")
    case True
    then show ?thesis by (simp add: PrintNum_digits.simps lsd.simps)
  next
    case False
    have l: "lsd n = n mod 10 # lsd (n div 10)" using False by (simp add: lsd.simps)
    have d: "int n sdiv 10 = int (n div 10)" "word_of_int (int n smod 10) = (of_nat (n mod 10) :: 8 word)"
      by (simp_all add: zdiv_int) (metis of_int_of_nat_eq of_nat_mod of_nat_numeral)
    have "PrintNum_digits (int n) arr = PrintNum_digits (int (n div 10)) (arr @ [of_nat (n mod 10)])"
      using False 1(2) by (subst PrintNum_digits.simps) (simp only: l d, simp)
    then show ?thesis using 1(1) [OF False, of "arr @ [of_nat (n mod 10)]"] 1(2) by (simp add: l)
  qed
qed

definition dig :: "nat \<Rightarrow> 8 word" where "dig d = 48 + of_nat d"

lemma dig_facts: "d < 10 \<Longrightarrow> sint (dig d) = 48 + int d \<and> isDigit (dig d) \<and> \<not> blank (dig d) \<and> dig d \<noteq> ch_minus"
proof -
  assume "d < 10"
  then have "d \<in> set [0..<10]" by simp
  moreover have "\<forall>d \<in> set [0..<10]. sint (dig d) = 48 + int d \<and> isDigit (dig d) \<and> \<not> blank (dig d) \<and> dig d \<noteq> ch_minus"
    by (simp add: upt_rec dig_def isDigit_def blank_def)
  ultimately show ?thesis by blast
qed

lemma decimal_lsd: "decimal (map dig (rev (lsd n))) = int n"
proof (induction n rule: lsd.induct)
  case (1 n)
  show ?case
  proof (cases "n = 0")
    case False
    have "decimal (map dig (rev (lsd n))) = decimal (map dig (rev (lsd (n div 10)))) * 10 + (sint (dig (n mod 10)) - 48)"
      using False by (subst lsd.simps) (simp add: decimal_def)
    also have "\<dots> = int (n div 10) * 10 + int (n mod 10)" using 1 [OF False] dig_facts [of "n mod 10"] by simp
    also have "\<dots> = int n" by (metis div_mult_mod_eq of_nat_add of_nat_mult of_nat_numeral)
    finally show ?thesis .
  qed (simp add: lsd.simps decimal_def)
qed

lemma fold_PutChar: "fold (\<lambda>d. PutChar (f d)) ds (con :: 'c console_scheme) = con\<lparr>con_out := con_out con @ map f ds\<rparr>"
  by (induction ds arbitrary: con) (simp_all add: PutChar_def)

text \<open>
  C37.  \<open>SysReadNum\<close> reads the next word of the input.  It skips blanks and newlines, consumes the word and the one
  character that ends it, and returns the number that the word stands for, wrapped to 32 bits; a word
  with a character that is not a digit (after an optional minus sign), or the minus sign alone, gives 0.
\<close>

theorem SysReadNum_correct:
  assumes "list_all blank bs" "tok \<noteq> []" "list_all (\<lambda>c. \<not> blank c) tok" "blank t"
  shows "SysReadNum (con\<lparr>con_in := bs @ tok @ t # rest\<rparr>) = Inr (word_of_int (token_value tok), con\<lparr>con_in := rest\<rparr>)"
  by (rule sys_read_num [OF assms])

theorem SysReadNum_correct_witness:
  "SysReadNum \<lparr>con_in = [32, 45, 49, 50, 10, 65], con_out = []\<rparr> = Inr (- 12, \<lparr>con_in = [65], con_out = []\<rparr>)"
  using SysReadNum_correct [of "[32]" "[45, 49, 50]" 10 "[65]" "\<lparr>con_in = [], con_out = []\<rparr>"]
  by (simp add: blank_def token_value_def isDigit_def decimal_def)

lemma PrintNum_nonzero:
  assumes "w \<noteq> 0" "sint w \<noteq> - (2 ^ 31)"
  defines "ds \<equiv> map dig (rev (lsd (nat \<bar>sint w\<bar>)))"
  shows "SysPrintNum w con = Inr (con\<lparr>con_out := con_out con @ (if sint w < 0 then ch_minus # ds else ds)\<rparr>)"
proof -
  let ?n = "nat \<bar>sint w\<bar>"
  have b: "- (2 ^ 31) \<le> sint w" "sint w < 2 ^ 31" using sint_range_size [of w] by (simp_all add: word_size)
  have "?n < 10 ^ 10" using b by simp
  then have len: "length (lsd ?n) \<le> 10" by (rule lsd_length)
  have "sint (- w) = - sint w" if "sint w < 0" using that b assms(2) by (simp add: sint_word_ariths signed_take_bit_int_eq_self)
  then have "sint (if sint w < 0 then - w else w) = int ?n" by simp
  then have "PrintNum_digits (sint (if sint w < 0 then - w else w)) [] = Inr (map of_nat (lsd ?n))"
    using PrintNum_digits_lsd [of "[]" ?n] len by simp
  then show ?thesis using assms(1)
    by (simp add: SysPrintNum_def Let_def fold_PutChar ds_def rev_map dig_def comp_def PutChar_def)
qed

lemma PrintNum_min: "SysPrintNum 0x80000000 con = Inr (con\<lparr>con_out := con_out con @ [45, 46, 47, 44, 41, 44, 40, 45, 42, 44, 40]\<rparr>)"
proof -
  have "PrintNum_digits (- 2147483648) [] = Inr [- 8, - 4, - 6, - 3, - 8, - 4, - 7, - 4, - 1, - 2]" by code_simp
  then show ?thesis by (simp add: SysPrintNum_def Let_def PutChar_def)
qed

lemma token_value_digits:
  assumes "ds \<noteq> []" "\<And>d. d \<in> set ds \<Longrightarrow> d < 10"
  shows "token_value (map dig ds) = decimal (map dig ds)" "token_value (ch_minus # map dig ds) = - decimal (map dig ds)"
    "list_all (\<lambda>c. \<not> blank c) (map dig ds)"
proof -
  have "list_all isDigit (map dig ds)" "list_all (\<lambda>c. \<not> blank c) (map dig ds)" using assms(2) dig_facts by (auto simp add: list_all_iff)
  moreover have "hd (map dig ds) \<noteq> ch_minus" using assms dig_facts by (cases ds) auto
  ultimately show "token_value (map dig ds) = decimal (map dig ds)" "token_value (ch_minus # map dig ds) = - decimal (map dig ds)"
    "list_all (\<lambda>c. \<not> blank c) (map dig ds)" using assms(1) by (simp_all add: token_value_def)
qed

text \<open>
  C38.  \<open>SysPrintNum\<close> and \<open>SysReadNum\<close> are inverse.  Printing an integer never leaves the array of its 10 digits,
  prints at most 11 characters, and reading them back, followed by a newline, gives the integer again;
  except the least integer, which is printed with characters that are not digits, so that reading gives 0.
\<close>

theorem PrintNum_ReadNum:
  "\<exists>txt. SysPrintNum w con = Inr (con\<lparr>con_out := con_out con @ txt\<rparr>) \<and> length txt \<le> 11
    \<and> SysReadNum (con'\<lparr>con_in := txt @ 10 # rest\<rparr>) = Inr (if w = 0x80000000 then 0 else w, con'\<lparr>con_in := rest\<rparr>)"
proof -
  note rd = sys_read_num [of "[]" _ "10" rest con', simplified]
  consider "w = 0" | "w = 0x80000000" | "w \<noteq> 0" "w \<noteq> 0x80000000" by blast
  then show ?thesis
  proof cases
    case 1
    then show ?thesis using rd [of "[48]"]
      by (intro exI [of _ "[48]"]) (simp add: SysPrintNum_def PutChar_def blank_def token_value_def isDigit_def decimal_def)
  next
    case 2
    then show ?thesis using rd [of "[45, 46, 47, 44, 41, 44, 40, 45, 42, 44, 40]"]
      by (intro exI [of _ "[45, 46, 47, 44, 41, 44, 40, 45, 42, 44, 40]"]) (simp add: PrintNum_min blank_def token_value_def isDigit_def)
  next
    case 3
    define n where "n = nat \<bar>sint w\<bar>"
    let ?txt = "if sint w < 0 then ch_minus # map dig (rev (lsd n)) else map dig (rev (lsd n))"
    have b: "- (2 ^ 31) \<le> sint w" "sint w < 2 ^ 31" using sint_range_size [of w] by (simp_all add: word_size)
    have "sint w \<noteq> - (2 ^ 31)"
    proof
      assume "sint w = - (2 ^ 31)"
      then have "word_of_int (sint w) = (word_of_int (- (2 ^ 31)) :: 32 word)" by (rule arg_cong)
      then show False using 3 by simp
    qed
    then have p: "SysPrintNum w con = Inr (con\<lparr>con_out := con_out con @ ?txt\<rparr>)" unfolding n_def by (rule PrintNum_nonzero [OF 3(1)])
    have n: "n \<noteq> 0" "n < 10 ^ 10" "int n = \<bar>sint w\<bar>" using 3(1) b by (simp_all add: n_def signed_eq_0_iff)
    have ne: "rev (lsd n) \<noteq> []" using n(1) by (subst lsd.simps) simp
    have "d < 10" if "d \<in> set (rev (lsd n))" for d using that lsd_digits [of d n] by simp
    note tv = token_value_digits [OF ne this, unfolded decimal_lsd]
    have "token_value ?txt = sint w" using tv(1,2) n(3) by simp
    moreover have "?txt \<noteq> []" "list_all (\<lambda>c. \<not> blank c) ?txt" using ne tv(3) by (simp_all add: blank_def)
    ultimately have "SysReadNum (con'\<lparr>con_in := ?txt @ 10 # rest\<rparr>) = Inr (w, con'\<lparr>con_in := rest\<rparr>)"
      using rd [of ?txt] by (simp add: blank_def)
    then show ?thesis using p 3 lsd_length [OF n(2)] by (intro exI [of _ ?txt]) auto
  qed
qed

section \<open>Copying between user and kernel memory\<close>

text \<open>A string up to and including its terminating 0; all of it when there is none.\<close>

fun upto0 :: "8 word list \<Rightarrow> 8 word list" where
  "upto0 [] = []"
| "upto0 (c # cs) = c # (if c = 0 then [] else upto0 cs)"

lemma upto0_idem: "upto0 (upto0 xs) = upto0 xs"
  by (induction xs) simp_all

lemma upto0_append: "0 \<in> set (upto0 xs) \<Longrightarrow> upto0 (upto0 xs @ ys) = upto0 xs"
  by (induction xs) (auto split: if_splits)

lemma length_upto0: "length (upto0 xs) \<le> length xs"
  by (induction xs) auto

lemma upto0_all: "0 \<notin> set (upto0 xs) \<Longrightarrow> upto0 xs = xs"
  by (induction xs) (auto split: if_splits)

lemma upto0_nth: "i < length (upto0 xs) \<Longrightarrow> upto0 xs ! i = xs ! i"
  by (induction xs arbitrary: i) (auto simp add: nth_Cons split: nat.splits if_splits)

lemma upto0_pos: "xs \<noteq> [] \<Longrightarrow> 0 < length (upto0 xs)"
  by (cases xs) simp_all

lemma upto0_end:
  "0 \<notin> set (take (length (upto0 xs) - 1) xs)" "length (upto0 xs) < length xs \<Longrightarrow> xs ! (length (upto0 xs) - 1) = 0"
proof (induction xs)
  case (Cons c cs)
  { case 1 show ?case using Cons.IH(1) by (cases cs) (auto simp add: take_Cons') }
  { case 2 then show ?case using Cons.IH(2) by (cases cs) (auto split: if_splits) }
qed simp_all

lemma upto0_prefix:
  assumes "map f [0..<length (upto0 xs)] = upto0 xs" "length (upto0 xs) \<le> n" "length xs = n"
  shows "upto0 (map f [0..<n]) = upto0 xs"
proof -
  let ?k = "length (upto0 xs)"
  have s: "map f [0..<n] = upto0 xs @ map f [?k..<n]"
    using assms(1,2) upt_add_eq_append [of 0 ?k "n - ?k"] by simp
  show ?thesis
  proof (cases "0 \<in> set (upto0 xs)")
    case True
    then show ?thesis unfolding s by (rule upto0_append)
  next
    case False
    then have "?k = n" by (metis upto0_all assms(3))
    then show ?thesis unfolding s by (simp add: upto0_idem)
  qed
qed

text \<open>Bytes stored at the physical addresses \<open>A i\<close>, \<open>A (i + 1)\<close>, ...\<close>

fun store_bytes :: "(nat \<Rightarrow> nat) \<Rightarrow> nat \<Rightarrow> 8 word list \<Rightarrow> (nat \<Rightarrow> 8 word) \<Rightarrow> nat \<Rightarrow> 8 word" where
  "store_bytes A i [] mem = mem"
| "store_bytes A i (b # bs) mem = store_bytes A (Suc i) bs (mem(A i := b))"

lemma store_bytes_other: "a \<notin> A ` {i..<i + length bs} \<Longrightarrow> store_bytes A i bs mem a = mem a"
proof (induction bs arbitrary: i mem)
  case (Cons b bs)
  have "{i..<i + length (b # bs)} = insert i {Suc i..<Suc i + length bs}" by auto
  then show ?case using Cons by auto
qed simp

lemma store_bytes_at:
  "inj_on A {i..<i + length bs} \<Longrightarrow> k < length bs \<Longrightarrow> store_bytes A i bs mem (A (i + k)) = bs ! k"
proof (induction bs arbitrary: i k mem)
  case (Cons b bs)
  have ii: "{i..<i + length (b # bs)} = insert i {Suc i..<Suc i + length bs}" by auto
  show ?case
  proof (cases k)
    case 0
    have "A i \<notin> A ` {Suc i..<Suc i + length bs}" using Cons.prems(1) unfolding ii by (auto simp add: inj_on_def)
    then show ?thesis using 0 store_bytes_other [of "A i" A "Suc i" bs] by simp
  next
    case (Suc j)
    have "inj_on A {Suc i..<Suc i + length bs}" using Cons.prems(1) unfolding ii by (simp add: inj_on_insert)
    then show ?thesis using Cons.IH [of "Suc i" j] Cons.prems(2) Suc by simp
  qed
qed simp

text \<open>\<open>A\<close> gives the physical addresses of the \<open>n\<close> bytes from \<open>va\<close> on.\<close>

definition user_range :: "TranslationEntry list \<Rightarrow> 32 word \<Rightarrow> nat \<Rightarrow> (nat \<Rightarrow> nat) \<Rightarrow> bool" where
  "user_range pt va n A \<longleftrightarrow> (\<forall>i < n. \<forall>w. mmu pt (va + of_nat i) 1 w = Inr (A i))"

definition same_mmu :: "'m machine_scheme \<Rightarrow> TranslationEntry list \<Rightarrow> bool" where
  "same_mmu m pt \<longleftrightarrow> (\<exists>pt'. Machine_paged m pt' \<and> mmu pt' = mmu pt)"

lemma WriteMem_char:
  assumes "same_mmu m pt" "mmu pt va 1 True = Inr a"
  shows "\<exists>m'. Machine_WriteMem h va 1 v m = Inr (True, m') \<and> same_mmu m' pt \<and> mainMemory m' = (mainMemory m)(a := ucast v)
    \<and> registers m' = registers m"
proof -
  obtain pt' where p: "Machine_paged m pt'" "mmu pt' = mmu pt" using assms(1) by (auto simp add: same_mmu_def)
  let ?m = "m\<lparr>mainMemory := (mainMemory m)(a := ucast v), pageTable := Some (touch_page True va pt')\<rparr>"
  have "Machine_WriteMem h va 1 v m = Inr (True, ?m)" using WriteMem_paged [OF p(1)] assms(2) p(2) by (simp add: mem_update_def)
  moreover have "same_mmu ?m pt"
    unfolding same_mmu_def using p by (intro exI [of _ "touch_page True va pt'"]) (simp add: Machine_paged_def)
  ultimately show ?thesis by simp
qed

lemma ReadMem_char:
  assumes "same_mmu m pt" "mmu pt va 1 False = Inr a"
  shows "\<exists>m'. Machine_ReadMem h va 1 m = Inr (Some (scast (mainMemory m a)), m') \<and> same_mmu m' pt \<and> mainMemory m' = mainMemory m
    \<and> registers m' = registers m"
proof -
  obtain pt' where p: "Machine_paged m pt'" "mmu pt' = mmu pt" using assms(1) by (auto simp add: same_mmu_def)
  let ?m = "m\<lparr>pageTable := Some (touch_page False va pt')\<rparr>"
  have "Machine_ReadMem h va 1 m = Inr (Some (scast (mainMemory m a)), ?m)" using ReadMem_paged [OF p(1)] assms(2) p(2) by (simp add: mem_value_def)
  moreover have "same_mmu ?m pt"
    unfolding same_mmu_def using p by (intro exI [of _ "touch_page False va pt'"]) (simp add: Machine_paged_def)
  ultimately show ?thesis by simp
qed

lemma scast_8_32: "(ucast (scast (b :: 8 word) :: 32 word) :: 8 word) = b" "(scast b :: 32 word) = 0 \<longleftrightarrow> b = 0"
proof -
  show "(ucast (scast b :: 32 word) :: 8 word) = b" by (rule bit_word_eqI) (auto simp add: bit_simps)
  then show "(scast b :: 32 word) = 0 \<longleftrightarrow> b = 0" by (metis scast_0 ucast_0)
qed

lemma System2User_loop_ok:
  assumes "user_range pt va n A" "n \<le> length buf" "i < n" "same_mmu m pt"
  shows "\<exists>m'. System2User_loop h va (int n) buf (int i) m = Inr (int (i + length (upto0 (take (n - i) (drop i buf)))), m')
    \<and> same_mmu m' pt \<and> mainMemory m' = store_bytes A i (upto0 (take (n - i) (drop i buf))) (mainMemory m) \<and> registers m' = registers m"
  using assms(3,4)
proof (induction "n - i" arbitrary: i m)
  case (Suc d)
  have va: "va + word_of_int (int i) = va + of_nat i" by simp
  have mm: "mmu pt (va + of_nat i) 1 True = Inr (A i)" using assms(1) Suc.prems(1) by (simp add: user_range_def)
  obtain m1 where m1: "Machine_WriteMem h (va + of_nat i) 1 (scast (buf ! i)) m = Inr (True, m1)" "same_mmu m1 pt"
    "mainMemory m1 = (mainMemory m)(A i := buf ! i)" "registers m1 = registers m"
    using WriteMem_char [OF Suc.prems(2) mm, of h "scast (buf ! i)"] by (auto simp add: scast_8_32)
  have step: "System2User_loop h va (int n) buf (int i) m =
      (if Suc i < n \<and> buf ! i \<noteq> 0 then System2User_loop h va (int n) buf (int (Suc i)) m1 else Inr (int (Suc i), m1))"
    using m1(1) assms(2) Suc.prems(1) by (subst System2User_loop.simps) (simp add: algebra_simps)
  have split: "take (n - i) (drop i buf) = buf ! i # take (n - Suc i) (drop (Suc i) buf)"
  proof -
    have "n - i = Suc (n - Suc i)" using Suc.prems(1) by simp
    then show ?thesis using assms(2) Suc.prems(1) by (simp add: Cons_nth_drop_Suc [symmetric])
  qed
  show ?case
  proof (cases "Suc i < n \<and> buf ! i \<noteq> 0")
    case True
    then show ?thesis using Suc.hyps(1) [of "Suc i" m1] Suc.hyps(2) m1 by (simp add: step split algebra_simps)
  next
    case False
    then have "upto0 (take (n - i) (drop i buf)) = [buf ! i]" using Suc.prems(1) by (auto simp add: split)
    moreover have "System2User_loop h va (int n) buf (int i) m = Inr (int (Suc i), m1)" unfolding step using False by (simp only: if_False)
    ultimately show ?thesis using m1 by simp
  qed
qed simp

lemma User2System_loop_ok:
  assumes "user_range pt va n A" "idx + k = n" "n < length buf" "same_mmu m pt"
  defines "bs \<equiv> upto0 (map (\<lambda>j. mainMemory m (A j)) [idx..<n])"
  shows "\<exists>m'. User2System_loop h va idx k c buf m = Inr (take idx buf @ bs @ drop (idx + length bs) buf, m')
    \<and> same_mmu m' pt \<and> mainMemory m' = mainMemory m \<and> registers m' = registers m"
  using assms(2-4) unfolding bs_def
proof (induction k arbitrary: idx c buf m)
  case 0
  then show ?case by simp
next
  case (Suc k)
  have mm: "mmu pt (va + of_nat idx) 1 False = Inr (A idx)" using assms(1) Suc.prems(1) by (simp add: user_range_def)
  let ?b = "mainMemory m (A idx)"
  obtain m1 where m1: "Machine_ReadMem h (va + of_nat idx) 1 m = Inr (Some (scast ?b), m1)" "same_mmu m1 pt" "mainMemory m1 = mainMemory m" "registers m1 = registers m"
    using ReadMem_char [OF Suc.prems(3) mm] by blast
  have upt: "[idx..<n] = idx # [Suc idx..<n]" using Suc.prems(1) by (simp add: upt_conv_Cons)
  have l: "idx < length buf" using Suc.prems by simp
  show ?case
  proof (cases "?b = 0")
    case True
    then show ?thesis using m1 l by (simp add: upt scast_8_32 upd_conv_take_nth_drop)
  next
    case False
    have "take (Suc idx) (buf[idx := ?b]) = take idx buf @ [?b]" using l by (simp add: take_Suc_conv_app_nth)
    then show ?thesis using Suc.IH [of "Suc idx" "buf[idx := ?b]" m1 "scast ?b"] Suc.prems m1 False l
      by (simp add: upt scast_8_32 algebra_simps)
  qed
qed

text \<open>The addresses of a range of a loaded program.\<close>

definition phys :: "TranslationEntry list \<Rightarrow> nat \<Rightarrow> nat" where
  "phys pt va = nat (physicalPage (pt ! (va div 256))) * 256 + va mod 256"

lemma phys_inj:
  assumes "fresh_table pt" "phys pt a = phys pt b" "a < 256 * length pt" "b < 256 * length pt"
  shows "a = b"
proof -
  have ab: "a div 256 < length pt" "b div 256 < length pt" using assms(3,4) by (simp_all add: less_mult_imp_div_less mult.commute)
  have "nat (physicalPage (pt ! (a div 256))) = nat (physicalPage (pt ! (b div 256))) \<and> a mod 256 = b mod 256"
  proof -
    have "phys pt x div 256 = nat (physicalPage (pt ! (x div 256)))" "phys pt x mod 256 = x mod 256" for x by (simp_all add: phys_def)
    then show ?thesis using assms(2) by metis
  qed
  moreover have "physicalPage (pt ! i) \<in> {0..<128}" if "i < length pt" for i
  proof -
    have "physicalPage (pt ! i) \<in> set (page_frames pt)" using that by simp
    then show ?thesis using assms(1) unfolding fresh_table_def by blast
  qed
  ultimately have "page_frames pt ! (a div 256) = page_frames pt ! (b div 256)" "a mod 256 = b mod 256"
    using ab by (fastforce simp add: eq_nat_nat_iff)+
  moreover have "distinct (page_frames pt)" using assms(1) by (simp add: fresh_table_def)
  ultimately have "a div 256 = b div 256" using ab nth_eq_iff_index_eq [of "page_frames pt" "a div 256" "b div 256"] by simp
  then show ?thesis using \<open>a mod 256 = b mod 256\<close> by (metis div_mult_mod_eq)
qed

lemma user_range_phys:
  assumes f: "fresh_table pt" and n: "unat va + n \<le> 256 * length pt"
  shows "user_range pt va n (\<lambda>i. phys pt (unat va + i))"
  unfolding user_range_def
proof (intro allI impI)
  fix i w
  assume "i < n"
  then have r: "unat va + i < 256 * length pt" using n by simp
  then have "unat va + i < 2 ^ 32" using fresh_table_length [OF f] by simp
  moreover from this have "unat (of_nat i :: 32 word) = i" by (simp add: unat_of_nat)
  ultimately have u: "unat (va + of_nat i) = unat va + i" by (subst unat_add_lem [THEN iffD1]) simp_all
  have vpn: "(unat va + i) div 256 < length pt" using r by (simp add: less_mult_imp_div_less mult.commute)
  have e: "valid (pt ! ((unat va + i) div 256))" "\<not> readOnly (pt ! ((unat va + i) div 256))" using f vpn by (simp_all add: fresh_table_def)
  have "physicalPage (pt ! ((unat va + i) div 256)) \<in> set (page_frames pt)" using vpn by simp
  then have "physicalPage (pt ! ((unat va + i) div 256)) \<in> {0..<128}" using f unfolding fresh_table_def by blast
  then show "mmu pt (va + of_nat i) 1 w = Inr (phys pt (unat va + i))"
    using e vpn by (simp add: mmu_def u phys_def Let_def)
qed

text \<open>
  Copying to a user program and back.  \<open>System2User\<close> of \<open>n\<close> characters to addresses inside the memory of a loaded
  program raises no exception and copies the string up to its terminating 0, or \<open>n\<close> characters when
  there is none; it returns their number, and changes no memory outside the program's frames and no register;
  \<open>User2System\<close> then reads the same characters back, and the rest of its buffer stays as it was allocated.
\<close>

lemma user_copy_roundtrip:
  assumes "Machine_paged m pt" "fresh_table pt" "0 < n" "n \<le> length buf" "unat va + n \<le> 256 * length pt"
  shows "\<exists>k m' m''. System2User h va (int n) buf m = Inr (int k, m') \<and> 0 < k \<and> k \<le> n
    \<and> 0 \<notin> set (take (k - 1) buf) \<and> (k < n \<longrightarrow> buf ! (k - 1) = 0)
    \<and> registers m' = registers m \<and> (\<forall>a. int (a div 256) \<notin> set (page_frames pt) \<longrightarrow> mainMemory m' a = mainMemory m a)
    \<and> User2System h' junk j va (int n) m' = Inr (take k buf @ map junk [k..<Suc n], m'')"
proof -
  let ?A = "\<lambda>i. phys pt (unat va + i)"
  let ?bs = "upto0 (take n buf)"
  let ?k = "length ?bs"
  have r: "user_range pt va n ?A" by (rule user_range_phys [OF assms(2,5)])
  have inj: "inj_on ?A {0..<n}"
  proof (rule inj_onI)
    fix x y
    assume "x \<in> {0..<n}" "y \<in> {0..<n}" "phys pt (unat va + x) = phys pt (unat va + y)"
    then show "x = y" using phys_inj [OF assms(2), of "unat va + x" "unat va + y"] assms(5) by simp
  qed
  have sm: "same_mmu m pt" using assms(1) by (auto simp add: same_mmu_def)
  obtain m' where m': "System2User_loop h va (int n) buf 0 m = Inr (int ?k, m')" "same_mmu m' pt"
    "mainMemory m' = store_bytes ?A 0 ?bs (mainMemory m)" "registers m' = registers m"
    using System2User_loop_ok [OF r assms(4,3) sm, of h] by auto
  have kn: "?k \<le> n" "0 < ?k" using length_upto0 [of "take n buf"] upto0_pos [of "take n buf"] assms(3,4) by fastforce+
  have bs: "?bs = take ?k buf" using kn assms(4) by (intro nth_equalityI) (simp_all add: upto0_nth)
  have "map (\<lambda>j. mainMemory m' (?A j)) [0..<?k] = ?bs"
    using store_bytes_at [OF inj_on_subset [OF inj], of 0 ?bs] kn by (intro nth_equalityI) (auto simp add: m'(3))
  then have rd: "upto0 (map (\<lambda>j. mainMemory m' (?A j)) [0..<n]) = ?bs" using kn(1) assms(4) by (intro upto0_prefix) simp_all
  obtain m'' where "User2System_loop h' va 0 n j (map junk [0..<Suc n]) m' = Inr (?bs @ drop ?k (map junk [0..<Suc n]), m'')"
    using User2System_loop_ok [OF r, of 0 n "map junk [0..<Suc n]" m' h' j] m'(2) unfolding rd by (auto simp del: upt_Suc)
  then have "User2System h' junk j va (int n) m' = Inr (take ?k buf @ map junk [?k..<Suc n], m'')"
    using bs by (simp add: User2System_def drop_map nat_add_distrib del: upt_Suc)
  moreover have "mainMemory m' a = mainMemory m a" if out: "int (a div 256) \<notin> set (page_frames pt)" for a
  proof -
    have "a \<noteq> phys pt x" if x: "x < 256 * length pt" for x
    proof
      assume a: "a = phys pt x"
      have "x div 256 < length pt" using x by (simp add: less_mult_imp_div_less mult.commute)
      then have p: "physicalPage (pt ! (x div 256)) \<in> set (page_frames pt)" by simp
      then have "physicalPage (pt ! (x div 256)) \<in> {0..<128}" using assms(2) unfolding fresh_table_def by blast
      then have "int (a div 256) = physicalPage (pt ! (x div 256))" by (simp add: a phys_def)
      then show False using p out by simp
    qed
    then have "a \<noteq> phys pt (unat va + i)" if "i < ?k" for i using that assms(5) kn(1) by simp
    then have "a \<notin> ?A ` {0..<0 + ?k}" by (metis (no_types, lifting) imageE atLeastLessThan_iff add_0)
    then show ?thesis unfolding m'(3) by (rule store_bytes_other)
  qed
  moreover have "0 \<notin> set (take (?k - 1) buf)" "?k < n \<longrightarrow> buf ! (?k - 1) = 0"
  proof -
    have "?k - 1 \<le> n" using kn by simp
    then show "0 \<notin> set (take (?k - 1) buf)" using upto0_end(1) [of "take n buf"] by (simp only: take_take min_absorb1 simp_thms)
    show "?k < n \<longrightarrow> buf ! (?k - 1) = 0" using upto0_end(2) [of "take n buf"] kn assms(4) by simp
  qed
  ultimately show ?thesis using m'(1,4) kn assms(3) by (intro exI [of _ ?k] exI [of _ m'] exI [of _ m'']) (simp add: System2User_def)
qed

lemma user_copy_roundtrip_witness:
  "\<exists>m' m''. System2User (\<lambda>_. Inr) 8 3 [72, 105, 0, 33]
     ((Machine_new False)\<lparr>pageTable := Some [\<lparr>virtualPage = 0, physicalPage = 7, valid = True, readOnly = False, te_use = False, te_dirty = False\<rparr>],
        pageTableSize := 1\<rparr>) = Inr (3, m')
   \<and> User2System (\<lambda>_. Inr) (\<lambda>_. 9) 0 8 3 m' = Inr ([72, 105, 0, 9], m'')"
proof -
  let ?pt = "[\<lparr>virtualPage = 0, physicalPage = 7, valid = True, readOnly = False, te_use = False, te_dirty = False\<rparr>]"
  let ?m = "(Machine_new False)\<lparr>pageTable := Some ?pt, pageTableSize := 1\<rparr>"
  have p: "Machine_paged ?m ?pt" "fresh_table ?pt" by (simp_all add: Machine_paged_def Machine_new_def fresh_table_def)
  from user_copy_roundtrip [OF p, of 3 "[72, 105, 0, 33]" 8 "\<lambda>_. Inr" "\<lambda>_. Inr" "\<lambda>_. 9" 0]
  obtain k m' m'' where k: "System2User (\<lambda>_. Inr) 8 3 [72, 105, 0, 33] ?m = Inr (int k, m')" "0 < k" "k \<le> 3"
    "k < 3 \<longrightarrow> [72, 105, 0, 33 :: 8 word] ! (k - 1) = 0" "User2System (\<lambda>_. Inr) (\<lambda>_. 9) 0 8 3 m' = Inr (take k [72, 105, 0, 33] @ map (\<lambda>_. 9) [k..<4], m'')"
    by auto
  have "k = 3"
  proof (rule ccontr)
    assume "k \<noteq> 3"
    then have "k = 1 \<or> k = 2" using k(2,3) by linarith
    then show False using k(4) by auto
  qed
  then show ?thesis using k by (auto simp add: upt_rec)
qed

section \<open>Reading lines\<close>

lemma ReadString_loop_full:
  "list_all (\<lambda>c. \<not> stop c \<and> c \<noteq> ch_eof) line \<Longrightarrow> i + length line = n \<Longrightarrow> n \<le> length buf \<Longrightarrow>
   ReadString_loop stop (int n) (int i) buf (line @ rest) = Inr (int n, take i buf @ line @ drop n buf, rest)"
proof (induction line arbitrary: i buf)
  case Nil
  then show ?case by (subst ReadString_loop.simps) simp
next
  case (Cons c line)
  have "ReadString_loop stop (int n) (int i) buf ((c # line) @ rest) = ReadString_loop stop (int n) (int (Suc i)) (buf[i := c]) (line @ rest)"
    using Cons.prems by (subst ReadString_loop.simps) (simp add: algebra_simps)
  also have "\<dots> = Inr (int n, take (Suc i) (buf[i := c]) @ line @ drop n (buf[i := c]), rest)"
    using Cons.prems by (intro Cons.IH) simp_all
  finally show ?case using Cons.prems by (simp add: take_Suc_conv_app_nth)
qed

lemma ReadString_loop_line:
  assumes "list_all (\<lambda>c. \<not> stop c \<and> c \<noteq> ch_eof) line" "length line < n" "n \<le> length buf" "stop t" "t \<noteq> ch_eof"
  shows "ReadString_loop stop (int n) 0 buf (line @ t # rest) = Inr (int (length line), line @ drop (length line) buf, rest)"
proof -
  have "i + length line < n \<Longrightarrow> n \<le> length buf \<Longrightarrow> list_all (\<lambda>c. \<not> stop c \<and> c \<noteq> ch_eof) line \<Longrightarrow>
    ReadString_loop stop (int n) (int i) buf (line @ t # rest) = Inr (int (i + length line), take i buf @ line @ drop (i + length line) buf, rest)" for i line buf
  proof (induction line arbitrary: i buf)
    case Nil
    then show ?case using assms(4,5) by (subst ReadString_loop.simps) simp
  next
    case (Cons c line)
    have "ReadString_loop stop (int n) (int i) buf ((c # line) @ t # rest) = ReadString_loop stop (int n) (int (Suc i)) (buf[i := c]) (line @ t # rest)"
      using Cons.prems by (subst ReadString_loop.simps) (simp add: algebra_simps)
    also have "\<dots> = Inr (int (Suc i + length line), take (Suc i) (buf[i := c]) @ line @ drop (Suc i + length line) (buf[i := c]), rest)"
      using Cons.prems by (intro Cons.IH) simp_all
    finally show ?case using Cons.prems by (simp add: take_Suc_conv_app_nth)
  qed
  from this [of 0 line buf] assms show ?thesis by simp
qed

lemma ReadString_clear_ok:
  assumes "n \<le> length buf"
  shows "ReadString_clear (int n) buf = Inr (replicate n 0 @ drop n buf)"
proof -
  let ?P = "\<lambda>k b. b = replicate k 0 @ drop k buf"
  have "\<exists>s'. (\<lambda>idx b. writeA b idx 0) ([0..int n - 1] ! k) s = Inr s' \<and> ?P (Suc k) s'" if "k < length [0..int n - 1]" "?P k s" for k s
  proof -
    have "k < length buf" using that(1) assms by simp
    then have "(replicate k 0 @ drop k buf)[k := 0] = replicate (Suc k) 0 @ drop (Suc k) buf"
      by (simp add: list_update_append Cons_nth_drop_Suc [symmetric] replicate_app_Cons_same)
    then show ?thesis using that assms by simp
  qed
  then have "\<exists>s'. foldE (\<lambda>idx b. writeA b idx 0) [0..int n - 1] buf = Inr s' \<and> ?P (length [0..int n - 1]) s'"
    by (intro foldE_invariant [where P = ?P]) simp_all
  then show ?thesis by (simp add: ReadString_clear_def)
qed

text \<open>
  Reading a line from the console into the buffer of \<open>n + 1\<close> characters that \<open>User2System\<close> allocates for a read of \<open>n\<close>
  characters.  A line that is shorter than \<open>n\<close> is stored, followed by zeros, and its length is
  returned; when the first \<open>n\<close> characters are not the end of a line, \<open>readString\<close> writes its terminating 0 one past
  the end of the buffer.
\<close>

lemma readString_line:
  assumes "list_all (\<lambda>c. c \<noteq> ch_nl \<and> c \<noteq> ch_eof) line" "length buf = n + 1" "length line \<le> n"
  shows "readString buf (int n) (con\<lparr>con_in := line @ ch_nl # rest\<rparr>) =
    (if length line < n then Inr (int (length line), line @ replicate (n - length line) 0 @ (if length line = n - 1 then [0] else drop n buf), con\<lparr>con_in := rest\<rparr>)
     else Inl Out_of_bounds)"
proof (cases "length line < n")
  case True
  let ?b = "replicate n 0 @ drop n buf"
  have loop: "ReadString_loop (\<lambda>ch. ch = ch_nl) (int n) 0 ?b (line @ ch_nl # rest) = Inr (int (length line), line @ drop (length line) ?b, rest)"
    using assms True by (intro ReadString_loop_line) simp_all
  have x: "drop n buf = [buf ! n]" using assms(2) Cons_nth_drop_Suc [of n buf] by simp
  have upd: "(line @ drop (length line) ?b)[Suc (length line) := 0] = line @ replicate (n - length line) 0 @ (if length line = n - 1 then [0] else drop n buf)"
    using True by (auto simp add: x list_update_append Cons_nth_drop_Suc nth_append nth_list_update intro!: nth_equalityI)
  have w: "writeA (line @ drop (length line) ?b) (int (length line) + 1) 0 = Inr ((line @ drop (length line) ?b)[Suc (length line) := 0])"
    using True assms(2) by (simp add: writeA_def nat_add_distrib)
  have "n \<le> length buf" using assms(2) by simp
  then have "readString buf (int n) (con\<lparr>con_in := line @ ch_nl # rest\<rparr>) =
    Inr (int (length line), (line @ drop (length line) ?b)[Suc (length line) := 0], con\<lparr>con_in := rest\<rparr>)"
    by (simp add: readString_def ReadString_clear_ok loop w del: drop_append drop_replicate)
  then show ?thesis unfolding upd using True by simp
next
  case False
  then have n: "length line = n" using assms(3) by simp
  have "ReadString_loop (\<lambda>ch. ch = ch_nl) (int n) (int 0) (replicate n 0 @ drop n buf) (line @ ch_nl # rest)
      = Inr (int n, take 0 (replicate n 0 @ drop n buf) @ line @ drop n (replicate n 0 @ drop n buf), ch_nl # rest)"
    using assms n by (intro ReadString_loop_full) simp_all
  then show ?thesis using assms n by (simp add: readString_def ReadString_clear_ok writeA_def)
qed

lemma readString_line_witness:
  "readString [9, 9, 9] 2 \<lparr>con_in = [65, 66, 10], con_out = []\<rparr> = Inl Out_of_bounds
   \<and> readString [9, 9, 9, 9] 3 \<lparr>con_in = [65, 10, 67], con_out = []\<rparr> = Inr (1, [65, 0, 0, 9], \<lparr>con_in = [67], con_out = []\<rparr>)"
proof -
  have "replicate 2 (0 :: 8 word) = [0, 0]" by (simp add: numeral_2_eq_2)
  then show ?thesis
    using readString_line [of "[65, 66]" "[9, 9, 9]" 2 "[]" "\<lparr>con_in = [], con_out = []\<rparr>"]
      readString_line [of "[65]" "[9, 9, 9, 9]" 3 "[67]" "\<lparr>con_in = [], con_out = []\<rparr>"] by simp
qed

end
