(* ===== verification/Host_Files.thy ===== *)
theory Host_Files
  imports Console_IO
begin
text \<open>
  Files of the host and the stub file system: the file routines of \<^verbatim>\<open>code/lib/sysdep.cc\<close>, and the classes \<open>OpenFile\<close> and \<open>FileSystem\<close> of
  \<^verbatim>\<open>code/filesys/openfile.h\<close> and \<^verbatim>\<open>filesys.h\<close> as they are compiled with \<^verbatim>\<open>FILESYS_STUB\<close>.

  The host is UNIX as the routines use it: names lead to inodes, inodes hold bytes, a file
  descriptor is an inode with an offset.  \<open>host_allows\<close> are the names that the host lets the kernel open; writes to the host do not fail.
  A C string is a list of characters with a 0 in it; what follows the 0 is the rest of its buffer.
\<close>

section \<open>Model\<close>

subsection \<open>C strings\<close>

fun strlen :: "8 word list \<Rightarrow> nat res" where
  "strlen [] = Inl Out_of_bounds"
| "strlen (c # cs) = (if c = 0 then Inr 0 else bindE (strlen cs) (\<lambda>n. Inr (Suc n)))"

text \<open>Whether \<open>strcmp\<close> returns 0.\<close>

fun strcmp_eq :: "8 word list \<Rightarrow> 8 word list \<Rightarrow> bool res" where
  "strcmp_eq (a # as) (b # bs) = (if a \<noteq> b then Inr False else if a = 0 then Inr True else strcmp_eq as bs)"
| "strcmp_eq _ _ = Inl Out_of_bounds"

definition strcpy :: "8 word list \<Rightarrow> 8 word list \<Rightarrow> 8 word list res" where
  "strcpy dst src =
     bindE (strlen src) (\<lambda>n.
     if n < length dst then Inr (take (Suc n) src @ drop (Suc n) dst) else Inl Out_of_bounds)"

subsection \<open>Files of the host\<close>

record host = console +
  dirent :: "8 word list \<Rightarrow> nat option"
  inode :: "nat \<Rightarrow> 8 word list"
  next_inode :: nat
  fdtab :: "int \<Rightarrow> (nat \<times> int) option"
  next_fd :: int
  host_allows :: "8 word list \<Rightarrow> bool"

definition unix_open :: "8 word list \<Rightarrow> bool \<Rightarrow> 'h host_scheme \<Rightarrow> int \<times> 'h host_scheme" where
  "unix_open name create h =
     (if \<not> host_allows h name then (- 1, h)
      else case dirent h name of
        Some i \<Rightarrow>
          (next_fd h, h\<lparr>inode := (if create then (inode h)(i := []) else inode h),
             fdtab := (fdtab h)(next_fd h \<mapsto> (i, 0)), next_fd := next_fd h + 1\<rparr>)
      | None \<Rightarrow>
          if create
          then (next_fd h, h\<lparr>dirent := (dirent h)(name \<mapsto> next_inode h), inode := (inode h)(next_inode h := []), next_inode := next_inode h + 1,
                  fdtab := (fdtab h)(next_fd h \<mapsto> (next_inode h, 0)), next_fd := next_fd h + 1\<rparr>)
          else (- 1, h))"

definition unix_read :: "int \<Rightarrow> nat \<Rightarrow> 'h host_scheme \<Rightarrow> int \<times> 8 word list \<times> 'h host_scheme" where
  "unix_read fd n h =
     (case fdtab h fd of
        None \<Rightarrow> (- 1, [], h)
      | Some (i, off) \<Rightarrow>
          (let bytes = take n (drop (nat off) (inode h i)) in
           (int (length bytes), bytes, h\<lparr>fdtab := (fdtab h)(fd \<mapsto> (i, off + int (length bytes)))\<rparr>)))"

definition splice :: "nat \<Rightarrow> 8 word list \<Rightarrow> 8 word list \<Rightarrow> 8 word list" where
  "splice off bytes c = take off c @ replicate (off - length c) 0 @ bytes @ drop (off + length bytes) c"

definition unix_write :: "int \<Rightarrow> 8 word list \<Rightarrow> 'h host_scheme \<Rightarrow> int \<times> 'h host_scheme" where
  "unix_write fd bytes h =
     (case fdtab h fd of
        None \<Rightarrow> (- 1, h)
      | Some (i, off) \<Rightarrow>
          (int (length bytes), h\<lparr>inode := (inode h)(i := if bytes = [] then inode h i else splice (nat off) bytes (inode h i)),
             fdtab := (fdtab h)(fd \<mapsto> (i, off + int (length bytes)))\<rparr>))"

text \<open>\<open>lseek\<close> from the start of the file, and from its end.\<close>

definition unix_lseek :: "int \<Rightarrow> int \<Rightarrow> bool \<Rightarrow> 'h host_scheme \<Rightarrow> int \<times> 'h host_scheme" where
  "unix_lseek fd offset from_end h =
     (case fdtab h fd of
        None \<Rightarrow> (- 1, h)
      | Some (i, off) \<Rightarrow>
          (let pos = (if from_end then int (length (inode h i)) + offset else offset) in
           if pos < 0 then (- 1, h) else (pos, h\<lparr>fdtab := (fdtab h)(fd \<mapsto> (i, pos))\<rparr>)))"

subsection \<open>sysdep.cc\<close>

definition OpenForWrite :: "8 word list \<Rightarrow> 'h host_scheme \<Rightarrow> (int \<times> 'h host_scheme) res" where
  "OpenForWrite name h = (let (fd, h) = unix_open name True h in bindE (assertE (fd \<ge> 0)) (\<lambda>_. Inr (fd, h)))"

definition OpenForReadWrite :: "8 word list \<Rightarrow> bool \<Rightarrow> 'h host_scheme \<Rightarrow> (int \<times> 'h host_scheme) res" where
  "OpenForReadWrite name crashOnError h =
     (let (fd, h) = unix_open name False h in bindE (assertE (\<not> crashOnError \<or> fd \<ge> 0)) (\<lambda>_. Inr (fd, h)))"

definition ReadPartial :: "int \<Rightarrow> nat \<Rightarrow> 'h host_scheme \<Rightarrow> int \<times> 8 word list \<times> 'h host_scheme" where
  "ReadPartial fd nBytes h = unix_read fd nBytes h"

definition WriteFile :: "int \<Rightarrow> 8 word list \<Rightarrow> 'h host_scheme \<Rightarrow> 'h host_scheme res" where
  "WriteFile fd buffer h =
     (let (retVal, h) = unix_write fd buffer h in bindE (assertE (retVal = int (length buffer))) (\<lambda>_. Inr h))"

definition Lseek :: "int \<Rightarrow> int \<Rightarrow> bool \<Rightarrow> 'h host_scheme \<Rightarrow> 'h host_scheme res" where
  "Lseek fd offset from_end h =
     (let (retVal, h) = unix_lseek fd offset from_end h in bindE (assertE (retVal \<ge> 0)) (\<lambda>_. Inr h))"

definition Tell :: "int \<Rightarrow> 'h host_scheme \<Rightarrow> int" where
  "Tell fd h = (case fdtab h fd of None \<Rightarrow> - 1 | Some (i, off) \<Rightarrow> off)"

definition Close :: "int \<Rightarrow> 'h host_scheme \<Rightarrow> 'h host_scheme res" where
  "Close fd h = bindE (assertE (fdtab h fd \<noteq> None)) (\<lambda>_. Inr (h\<lparr>fdtab := (fdtab h)(fd := None)\<rparr>))"

definition Unlink :: "8 word list \<Rightarrow> 'h host_scheme \<Rightarrow> bool \<times> 'h host_scheme" where
  "Unlink name h =
     (if host_allows h name \<and> dirent h name \<noteq> None then (False, h\<lparr>dirent := (dirent h)(name := None)\<rparr>) else (True, h))"

subsection \<open>The class OpenFile\<close>

record OpenFile =
  of_type :: int
  of_filename :: "8 word list"
  of_file :: int
  currentOffset :: int

text \<open>
  \<^verbatim>\<open>strncpy(filename, name, strlen(name))\<close> copies the characters without the 0; the last character of the buffer
  keeps what the heap held (\<open>junk\<close>).
\<close>

definition OpenFile_new :: "8 word \<Rightarrow> int \<Rightarrow> int \<Rightarrow> 8 word list \<Rightarrow> OpenFile" where
  "OpenFile_new junk f t name = \<lparr>of_type = t, of_filename = name @ [junk], of_file = f, currentOffset = 0\<rparr>"

definition OpenFile_delete :: "OpenFile \<Rightarrow> 'h host_scheme \<Rightarrow> 'h host_scheme res" where
  "OpenFile_delete f h = Close (of_file f) h"

definition OpenFile_Seek :: "int \<Rightarrow> OpenFile \<Rightarrow> 'h host_scheme \<Rightarrow> (int \<times> OpenFile \<times> 'h host_scheme) res" where
  "OpenFile_Seek pos f h =
     bindE (Lseek (of_file f) pos False h) (\<lambda>h.
     let f = f\<lparr>currentOffset := Tell (of_file f) h\<rparr> in Inr (currentOffset f, f, h))"

definition OpenFile_ReadAt :: "nat \<Rightarrow> int \<Rightarrow> OpenFile \<Rightarrow> 'h host_scheme \<Rightarrow> (int \<times> 8 word list \<times> 'h host_scheme) res" where
  "OpenFile_ReadAt numBytes position f h =
     bindE (Lseek (of_file f) position False h) (\<lambda>h. Inr (ReadPartial (of_file f) numBytes h))"

definition OpenFile_WriteAt :: "8 word list \<Rightarrow> int \<Rightarrow> OpenFile \<Rightarrow> 'h host_scheme \<Rightarrow> (int \<times> 'h host_scheme) res" where
  "OpenFile_WriteAt from position f h =
     bindE (Lseek (of_file f) position False h) (\<lambda>h.
     bindE (WriteFile (of_file f) from h) (\<lambda>h. Inr (int (length from), h)))"

definition OpenFile_Read :: "nat \<Rightarrow> OpenFile \<Rightarrow> 'h host_scheme \<Rightarrow> (int \<times> 8 word list \<times> OpenFile \<times> 'h host_scheme) res" where
  "OpenFile_Read numBytes f h =
     bindE (OpenFile_ReadAt numBytes (currentOffset f) f h) (\<lambda>(numRead, bytes, h).
     Inr (numRead, bytes, f\<lparr>currentOffset := currentOffset f + numRead\<rparr>, h))"

definition OpenFile_Write :: "8 word list \<Rightarrow> OpenFile \<Rightarrow> 'h host_scheme \<Rightarrow> (int \<times> OpenFile \<times> 'h host_scheme) res" where
  "OpenFile_Write from f h =
     bindE (OpenFile_WriteAt from (currentOffset f) f h) (\<lambda>(numWritten, h).
     Inr (numWritten, f\<lparr>currentOffset := currentOffset f + numWritten\<rparr>, h))"

definition OpenFile_Length :: "OpenFile \<Rightarrow> 'h host_scheme \<Rightarrow> (int \<times> 'h host_scheme) res" where
  "OpenFile_Length f h =
     bindE (Lseek (of_file f) 0 True h) (\<lambda>h.
     let len = Tell (of_file f) h in
     bindE (Lseek (of_file f) (currentOffset f) False h) (\<lambda>h. Inr (len, h)))"

definition OpenFile_GetCurrentPos :: "OpenFile \<Rightarrow> 'h host_scheme \<Rightarrow> int \<times> OpenFile" where
  "OpenFile_GetCurrentPos f h = (let f = f\<lparr>currentOffset := Tell (of_file f) h\<rparr> in (currentOffset f, f))"

subsection \<open>The class FileSystem\<close>

text \<open>The name is the string in front of the 0.\<close>

definition cstring :: "8 word list \<Rightarrow> 8 word list res" where
  "cstring buf = bindE (strlen buf) (\<lambda>n. Inr (take n buf))"

definition FileSystem_Create :: "8 word list \<Rightarrow> 'h host_scheme \<Rightarrow> (bool \<times> 'h host_scheme) res" where
  "FileSystem_Create name h =
     bindE (cstring name) (\<lambda>s.
     bindE (OpenForWrite s h) (\<lambda>(fileDescriptor, h).
     if fileDescriptor = - 1 then Inr (False, h)
     else bindE (Close fileDescriptor h) (\<lambda>h. Inr (True, h))))"

definition FileSystem_Open :: "8 word \<Rightarrow> 8 word list \<Rightarrow> int \<Rightarrow> 'h host_scheme \<Rightarrow> (OpenFile option \<times> 'h host_scheme) res" where
  "FileSystem_Open junk name typ h =
     bindE (cstring name) (\<lambda>s.
     bindE (OpenForReadWrite s False h) (\<lambda>(fileDescriptor, h).
     if fileDescriptor = - 1 then Inr (None, h) else Inr (Some (OpenFile_new junk fileDescriptor typ s), h)))"

definition FileSystem_Remove :: "8 word list \<Rightarrow> 'h host_scheme \<Rightarrow> (bool \<times> 'h host_scheme) res" where
  "FileSystem_Remove name h = bindE (cstring name) (\<lambda>s. let (r, h) = Unlink s h in Inr (r = False, h))"

section \<open>An open file is a sequence of bytes with a position\<close>

text \<open>
  \<open>opens f h i pos\<close>: the file object is open on inode \<open>i\<close>, and its offset and the one of the host agree.
\<close>

definition opens :: "OpenFile \<Rightarrow> 'h host_scheme \<Rightarrow> nat \<Rightarrow> nat \<Rightarrow> bool" where
  "opens f h i pos \<longleftrightarrow> fdtab h (of_file f) = Some (i, int pos) \<and> currentOffset f = int pos"

lemma OpenFile_Read_opens:
  assumes "opens f h i pos"
  shows "OpenFile_Read n f h =
    (let bytes = take n (drop pos (inode h i)) in
     Inr (int (length bytes), bytes, f\<lparr>currentOffset := int (pos + length bytes)\<rparr>, h\<lparr>fdtab := (fdtab h)(of_file f \<mapsto> (i, int (pos + length bytes)))\<rparr>))"
  using assms by (simp add: opens_def OpenFile_Read_def OpenFile_ReadAt_def ReadPartial_def unix_read_def Lseek_def unix_lseek_def Let_def)

lemma OpenFile_Write_opens:
  assumes "opens f h i pos" "bytes \<noteq> []"
  shows "OpenFile_Write bytes f h =
    Inr (int (length bytes), f\<lparr>currentOffset := int (pos + length bytes)\<rparr>,
      h\<lparr>inode := (inode h)(i := splice pos bytes (inode h i)), fdtab := (fdtab h)(of_file f \<mapsto> (i, int (pos + length bytes)))\<rparr>)"
  using assms by (simp add: opens_def OpenFile_Write_def OpenFile_WriteAt_def WriteFile_def unix_write_def Lseek_def unix_lseek_def Let_def)

lemma OpenFile_Seek_opens:
  assumes "opens f h i pos"
  shows "OpenFile_Seek (int p) f h = Inr (int p, f\<lparr>currentOffset := int p\<rparr>, h\<lparr>fdtab := (fdtab h)(of_file f \<mapsto> (i, int p))\<rparr>)"
  using assms by (simp add: opens_def OpenFile_Seek_def Lseek_def unix_lseek_def Tell_def Let_def)

lemma OpenFile_Length_opens:
  assumes "opens f h i pos"
  shows "OpenFile_Length f h = Inr (int (length (inode h i)), h)"
proof -
  have "(fdtab h)(of_file f \<mapsto> (i, int pos)) = fdtab h" using assms by (simp add: opens_def fun_upd_idem)
  then show ?thesis using assms
    by (simp add: opens_def OpenFile_Length_def Lseek_def unix_lseek_def Tell_def Let_def)
qed

lemma take_drop_splice: "take (length bytes) (drop pos (splice pos bytes c)) = bytes"
  by (simp add: splice_def)

lemma length_splice: "length (splice pos bytes c) = max (length c) (pos + length bytes)"
  by (simp add: splice_def)

end
