(* ===== verification/Processes.thy ===== *)
theory Processes
  imports Host_Files Kernel
begin
text \<open>
  Processes: \<^verbatim>\<open>code/threads/pcb.h\<close>, \<^verbatim>\<open>pcb.cc\<close>, \<^verbatim>\<open>ptable.h\<close> and \<^verbatim>\<open>ptable.cc\<close>.

  A process control block has the table of the open files of the process and the semaphores with which
  parent and child meet in \<open>Join\<close> and \<open>Exit\<close>.  Of a semaphore only the value matters here; a call that waits, in \<open>P\<close>, is
  split there into two definitions, and \<open>proc_step\<close> interleaves the calls of the processes.  (How the kernel
  makes \<open>P\<close> wait is in \<open>Synch\<close> and \<open>Kernel\<close>.)  A pointer to a deleted control block is \<open>None\<close>, and using it is \<open>Null_deref\<close>.
\<close>

section \<open>Model\<close>

definition MAX_FILENAME_LENGTH :: nat where "MAX_FILENAME_LENGTH = 32"
definition MAX_PROCESS :: int where "MAX_PROCESS = 10"
definition CONSOLE_INPUT :: int where "CONSOLE_INPUT = 0"
definition CONSOLE_OUTPUT :: int where "CONSOLE_OUTPUT = 1"

record PCB =
  joinsem :: int
  exitsem :: int
  multex :: int
  pcb_thread :: bool
  pcb_filename :: "8 word list"
  exitcode :: "32 word"
  numwait :: int
  parentID :: int
  fileTable :: "OpenFile option list"
  pcb_index :: int

text \<open>The names \<^verbatim>\<open>stdin\<close> and \<^verbatim>\<open>stdout\<close>.\<close>

definition stdin_name :: "8 word list" where "stdin_name = [115, 116, 100, 105, 110, 0]"
definition stdout_name :: "8 word list" where "stdout_name = [115, 116, 100, 111, 117, 116, 0]"

text \<open>\<open>P\<close> that does not have to wait, and the value of a semaphore after \<open>V\<close>; a \<open>P\<close> that would wait does not return.\<close>

definition sem_P :: "int \<Rightarrow> int res" where
  "sem_P v = (if v = 0 then Inl Diverges else Inr (v - 1))"

subsection \<open>Control blocks\<close>

definition PCB_new :: "8 word \<Rightarrow> int \<Rightarrow> int \<Rightarrow> 'h host_scheme \<Rightarrow> (PCB \<times> 'h host_scheme) res" where
  "PCB_new junk pid currentPid h =
     bindE (FileSystem_Create stdin_name h) (\<lambda>(_, h).
     bindE (FileSystem_Create stdout_name h) (\<lambda>(_, h).
     bindE (FileSystem_Open junk stdin_name 2 h) (\<lambda>(f0, h).
     bindE (FileSystem_Open junk stdout_name 3 h) (\<lambda>(f1, h).
     Inr (\<lparr>joinsem = 0, exitsem = 0, multex = 1, pcb_thread = False, pcb_filename = replicate MAX_FILENAME_LENGTH junk,
           exitcode = 0, numwait = 0, parentID = (if pid = 0 then - 1 else currentPid),
           fileTable = [f0, f1] @ replicate 8 None, pcb_index = 2\<rparr>, h)))))"

definition PCB_SetFileName :: "8 word list \<Rightarrow> PCB \<Rightarrow> PCB res" where
  "PCB_SetFileName fn p = bindE (strcpy (pcb_filename p) fn) (\<lambda>b. Inr (p\<lparr>pcb_filename := b\<rparr>))"

definition PCB_IncNumWait :: "PCB \<Rightarrow> PCB res" where
  "PCB_IncNumWait p =
     bindE (sem_P (multex p)) (\<lambda>v.
     let p = p\<lparr>multex := v\<rparr>; p = p\<lparr>numwait := numwait p + 1\<rparr> in Inr (p\<lparr>multex := multex p + 1\<rparr>))"

definition PCB_DecNumWait :: "PCB \<Rightarrow> PCB res" where
  "PCB_DecNumWait p =
     bindE (sem_P (multex p)) (\<lambda>v.
     let p = p\<lparr>multex := v\<rparr>; p = (if numwait p > 0 then p\<lparr>numwait := numwait p - 1\<rparr> else p) in Inr (p\<lparr>multex := multex p + 1\<rparr>))"

definition PCB_JoinWait :: "PCB \<Rightarrow> PCB res" where
  "PCB_JoinWait p = bindE (sem_P (joinsem p)) (\<lambda>v. Inr (p\<lparr>joinsem := v\<rparr>))"
definition PCB_JoinRelease :: "PCB \<Rightarrow> PCB" where
  "PCB_JoinRelease p = p\<lparr>joinsem := joinsem p + 1\<rparr>"
definition PCB_ExitWait :: "PCB \<Rightarrow> PCB res" where
  "PCB_ExitWait p = bindE (sem_P (exitsem p)) (\<lambda>v. Inr (p\<lparr>exitsem := v\<rparr>))"
definition PCB_ExitRelease :: "PCB \<Rightarrow> PCB" where
  "PCB_ExitRelease p = p\<lparr>exitsem := exitsem p + 1\<rparr>"

text \<open>\<open>PCB::Exec\<close>: the thread is forked; the process then runs \<open>StartProcess\<close>.\<close>

definition PCB_Exec :: "int \<Rightarrow> int \<Rightarrow> PCB \<Rightarrow> (int \<times> PCB) res" where
  "PCB_Exec pid currentPid p =
     bindE (sem_P (multex p)) (\<lambda>v.
     let p = p\<lparr>multex := v, pcb_thread := True, parentID := currentPid\<rparr> in Inr (pid, p\<lparr>multex := multex p + 1\<rparr>))"

subsection \<open>The files of a process\<close>

fun free_slot :: "int \<Rightarrow> OpenFile option list \<Rightarrow> int" where
  "free_slot i [] = - 1"
| "free_slot i (None # fs) = i"
| "free_slot i (Some f # fs) = free_slot (i + 1) fs"

definition PCB_FindFreeSlot :: "PCB \<Rightarrow> int" where
  "PCB_FindFreeSlot p = free_slot 2 (drop 2 (fileTable p))"

fun name_in_use :: "8 word list \<Rightarrow> OpenFile option list \<Rightarrow> bool res" where
  "name_in_use name [] = Inr False"
| "name_in_use name (None # fs) = name_in_use name fs"
| "name_in_use name (Some f # fs) = bindE (strcmp_eq (of_filename f) name) (\<lambda>e. if e then Inr True else name_in_use name fs)"

definition PCB_Open :: "8 word \<Rightarrow> 8 word list \<Rightarrow> int \<Rightarrow> PCB \<Rightarrow> 'h host_scheme \<Rightarrow> (int \<times> PCB \<times> 'h host_scheme) res" where
  "PCB_Open junk name typ p h =
     bindE (name_in_use name (fileTable p)) (\<lambda>u.
     if u then Inr (- 1, p, h)
     else let freeSlot = PCB_FindFreeSlot p in
       if freeSlot = - 1 then Inr (- 1, p, h)
       else if typ = 0 \<or> typ = 1
       then bindE (FileSystem_Open junk name typ h) (\<lambda>(f, h).
            bindE (writeA (fileTable p) freeSlot f) (\<lambda>ft.
            Inr (if f \<noteq> None then freeSlot else - 1, p\<lparr>fileTable := ft\<rparr>, h)))
       else if typ = 2 then Inr (0, p, h)
       else Inr (1, p, h))"

definition PCB_Close :: "int \<Rightarrow> PCB \<Rightarrow> 'h host_scheme \<Rightarrow> (int \<times> PCB \<times> 'h host_scheme) res" where
  "PCB_Close fid p h =
     (if fid \<ge> 0 \<and> fid \<le> 9
      then bindE (readA (fileTable p) fid) (\<lambda>f.
        case f of
          Some f \<Rightarrow> bindE (OpenFile_delete f h) (\<lambda>h.
                     bindE (writeA (fileTable p) fid None) (\<lambda>ft. Inr (0, p\<lparr>fileTable := ft\<rparr>, h)))
        | None \<Rightarrow> Inr (- 1, p, h))
      else Inr (- 1, p, h))"

text \<open>
  \<open>Read\<close> returns the number of characters read, the buffer, and the state.  \<open>set_file\<close> puts back the file object, whose offset
  the call changed.
\<close>

definition set_file :: "int \<Rightarrow> OpenFile \<Rightarrow> PCB \<Rightarrow> PCB" where
  "set_file fid f p = p\<lparr>fileTable := (fileTable p)[nat fid := Some f]\<rparr>"

definition PCB_Read :: "8 word list \<Rightarrow> int \<Rightarrow> int \<Rightarrow> PCB \<Rightarrow> 'h host_scheme \<Rightarrow> (int \<times> 8 word list \<times> PCB \<times> 'h host_scheme) res" where
  "PCB_Read buffer sz fid p h =
     (if fid < 0 \<or> fid > 9 then Inr (- 1, buffer, p, h)
      else if fid = CONSOLE_OUTPUT then Inr (- 1, buffer, p, h)
      else bindE (readA (fileTable p) fid) (\<lambda>fo.
        case fo of
          None \<Rightarrow> Inr (- 1, buffer, p, h)
        | Some f \<Rightarrow>
            let (oldPos, f) = OpenFile_GetCurrentPos f h in
            if fid = CONSOLE_INPUT
            then bindE (readString buffer sz h) (\<lambda>(n, buffer, h). Inr (n, buffer, set_file fid f p, h))
            else if sz < 0 \<or> int (length buffer) < sz then Inl Out_of_bounds
            else bindE (OpenFile_Read (nat sz) f h) (\<lambda>(n, bytes, f, h).
              let buffer = bytes @ drop (length bytes) buffer in
              if n > 0
              then let (newPos, f) = OpenFile_GetCurrentPos f h in Inr (newPos - oldPos, buffer, set_file fid f p, h)
              else Inr (- 2, buffer, set_file fid f p, h))))"

function Write_console :: "8 word list \<Rightarrow> int \<Rightarrow> int \<Rightarrow> 'h host_scheme \<Rightarrow> (int \<times> 'h host_scheme) res" where
  "Write_console buffer sz i h =
     bindE (readA buffer i) (\<lambda>c.
     if c \<noteq> 0 \<and> c \<noteq> ch_nl \<and> i < sz then Write_console buffer sz (i + 1) (PutChar c h)
     else Inr (i, PutChar ch_nl h))"
  by auto

termination Write_console
  by (relation "measure (\<lambda>(buffer, sz, i, h). nat (sz - i))") auto

declare Write_console.simps [simp del]

definition PCB_Write :: "8 word list \<Rightarrow> int \<Rightarrow> int \<Rightarrow> PCB \<Rightarrow> 'h host_scheme \<Rightarrow> (int \<times> PCB \<times> 'h host_scheme) res" where
  "PCB_Write buffer sz fid p h =
     (if fid < 0 \<or> fid > 9 then Inr (- 1, p, h)
      else if fid = CONSOLE_INPUT then Inr (- 1, p, h)
      else bindE (readA (fileTable p) fid) (\<lambda>fo.
        case fo of
          None \<Rightarrow> Inr (- 1, p, h)
        | Some f \<Rightarrow>
            if of_type f = 1 then Inr (- 1, p, h)
            else let (oldPos, f) = OpenFile_GetCurrentPos f h in
            if fid = CONSOLE_OUTPUT
            then bindE (Write_console buffer sz 0 h) (\<lambda>(n, h). Inr (n, set_file fid f p, h))
            else if sz < 0 \<or> int (length buffer) < sz then Inl Out_of_bounds
            else bindE (OpenFile_Write (take (nat sz) buffer) f h) (\<lambda>(n, f, h).
              if n > 0
              then let (newPos, f) = OpenFile_GetCurrentPos f h in Inr (newPos - oldPos, set_file fid f p, h)
              else Inr (- 1, set_file fid f p, h))))"

definition PCB_Seek :: "int \<Rightarrow> int \<Rightarrow> PCB \<Rightarrow> 'h host_scheme \<Rightarrow> (int \<times> PCB \<times> 'h host_scheme) res" where
  "PCB_Seek position fid p h =
     (if fid < 0 \<or> fid > 9 then Inr (- 1, p, h)
      else bindE (readA (fileTable p) fid) (\<lambda>fo.
        case fo of
          None \<Rightarrow> Inr (- 1, p, h)
        | Some f \<Rightarrow>
            if fid = 1 \<or> fid = 0 then Inr (- 1, p, h)
            else
              bindE (if position = - 1 then OpenFile_Length f h else Inr (position, h)) (\<lambda>(position, h).
              bindE (OpenFile_Length f h) (\<lambda>(len, h).
              if position > len \<or> position < 0 then Inr (- 1, p, h)
              else bindE (OpenFile_Seek position f h) (\<lambda>(_, f, h). Inr (position, set_file fid f p, h))))))"

section \<open>Files of a process\<close>

lemma set_file_nth: "length (fileTable p) = 10 \<Longrightarrow> 0 \<le> fid \<Longrightarrow> fid \<le> 9 \<Longrightarrow> readA (fileTable (set_file fid f p)) fid = Inr (Some f)"
  by (simp add: set_file_def)

lemma GetCurrentPos_opens: "opens f h i pos \<Longrightarrow> OpenFile_GetCurrentPos f h = (int pos, f)"
  by (simp add: opens_def OpenFile_GetCurrentPos_def Tell_def Let_def)

lemma PCB_Write_file:
  assumes f: "length (fileTable p) = 10" "fileTable p ! nat fid = Some f" "2 \<le> fid" "fid \<le> 9" "of_type f \<noteq> 1" "opens f h i pos"
    and b: "bytes \<noteq> []" "length bytes = n" "n \<le> length buf" "take n buf = bytes"
  shows "PCB_Write buf (int n) fid p h = Inr (int n, set_file fid (f\<lparr>currentOffset := int (pos + n)\<rparr>) p,
      h\<lparr>inode := (inode h)(i := splice pos bytes (inode h i)), fdtab := (fdtab h)(of_file f \<mapsto> (i, int (pos + n)))\<rparr>)"
proof -
  let ?f = "f\<lparr>currentOffset := int (pos + n)\<rparr>"
  let ?h = "h\<lparr>inode := (inode h)(i := splice pos bytes (inode h i)), fdtab := (fdtab h)(of_file f \<mapsto> (i, int (pos + n)))\<rparr>"
  have "opens ?f ?h i (pos + n)" by (simp add: opens_def)
  then have g: "OpenFile_GetCurrentPos ?f ?h = (int (pos + n), ?f)" by (rule GetCurrentPos_opens)
  have w: "OpenFile_Write bytes f h = Inr (int n, ?f, ?h)" using OpenFile_Write_opens [OF f(6) b(1)] b(2) by simp
  have "0 < n" using b(1,2) by auto
  then show ?thesis using f b(3,4) w g GetCurrentPos_opens [OF f(6)]
    by (simp add: PCB_Write_def CONSOLE_INPUT_def CONSOLE_OUTPUT_def)
qed

lemma PCB_Seek_file:
  assumes f: "length (fileTable p) = 10" "fileTable p ! nat fid = Some f" "2 \<le> fid" "fid \<le> 9" "opens f h i pos" and q: "q \<le> length (inode h i)"
  shows "PCB_Seek (int q) fid p h = Inr (int q, set_file fid (f\<lparr>currentOffset := int q\<rparr>) p, h\<lparr>fdtab := (fdtab h)(of_file f \<mapsto> (i, int q))\<rparr>)"
  using f q OpenFile_Length_opens [OF f(5)] OpenFile_Seek_opens [OF f(5), of q] by (simp add: PCB_Seek_def)

lemma PCB_Read_file:
  assumes f: "length (fileTable p) = 10" "fileTable p ! nat fid = Some f" "2 \<le> fid" "fid \<le> 9" "opens f h i pos"
    and b: "take n (drop pos (inode h i)) = bytes" "bytes \<noteq> []" "n \<le> length buf"
  shows "PCB_Read buf (int n) fid p h = Inr (int (length bytes), bytes @ drop (length bytes) buf,
      set_file fid (f\<lparr>currentOffset := int (pos + length bytes)\<rparr>) p, h\<lparr>fdtab := (fdtab h)(of_file f \<mapsto> (i, int (pos + length bytes)))\<rparr>)"
proof -
  let ?f = "f\<lparr>currentOffset := int (pos + length bytes)\<rparr>"
  let ?h = "h\<lparr>fdtab := (fdtab h)(of_file f \<mapsto> (i, int (pos + length bytes)))\<rparr>"
  have "opens ?f ?h i (pos + length bytes)" by (simp add: opens_def)
  then have g: "OpenFile_GetCurrentPos ?f ?h = (int (pos + length bytes), ?f)" by (rule GetCurrentPos_opens)
  have r: "OpenFile_Read n f h = Inr (int (length bytes), bytes, ?f, ?h)" using OpenFile_Read_opens [OF f(5), of n] b(1) by (simp add: Let_def)
  have "0 < length bytes" using b(2) by auto
  then show ?thesis using f b(3) r g GetCurrentPos_opens [OF f(5)]
    by (simp add: PCB_Read_def CONSOLE_INPUT_def CONSOLE_OUTPUT_def)
qed

text \<open>
  C23.  Writing to an open file of a process, seeking back and reading gives what was written: for a file that is
  not read-only, \<open>Write\<close> of \<open>n\<close> characters returns \<open>n\<close>, \<open>Seek\<close> to the old position returns that position, and \<open>Read\<close> of \<open>n\<close> characters
  fills the buffer with them and returns \<open>n\<close>.  No other file changes, and of this one only the
  range written.
\<close>

theorem file_write_read:
  assumes "length (fileTable p) = 10" "fileTable p ! nat fid = Some f" "2 \<le> fid" "fid \<le> 9" "of_type f \<noteq> 1" "opens f h i pos"
    and "0 < n" "n \<le> length buf" "n \<le> length buf2" "pos \<le> length (inode h i)"
  shows "\<exists>p1 h1 p2 h2 p3 h3. PCB_Write buf (int n) fid p h = Inr (int n, p1, h1) \<and> PCB_Seek (int pos) fid p1 h1 = Inr (int pos, p2, h2)
    \<and> PCB_Read buf2 (int n) fid p2 h2 = Inr (int n, take n buf @ drop n buf2, p3, h3)
    \<and> (\<forall>j. j \<noteq> i \<longrightarrow> inode h3 j = inode h j) \<and> inode h3 i = take pos (inode h i) @ take n buf @ drop (pos + n) (inode h i)"
proof -
  let ?bytes = "take n buf"
  have b: "?bytes \<noteq> []" "length ?bytes = n" using assms(7,8) by auto
  let ?f1 = "f\<lparr>currentOffset := int (pos + n)\<rparr>"
  let ?p1 = "set_file fid ?f1 p"
  let ?h1 = "h\<lparr>inode := (inode h)(i := splice pos ?bytes (inode h i)), fdtab := (fdtab h)(of_file f \<mapsto> (i, int (pos + n)))\<rparr>"
  have w: "PCB_Write buf (int n) fid p h = Inr (int n, ?p1, ?h1)"
    by (rule PCB_Write_file [OF assms(1-6) b assms(8)]) simp
  have p1: "length (fileTable ?p1) = 10" "fileTable ?p1 ! nat fid = Some ?f1" "opens ?f1 ?h1 i (pos + n)"
    using assms(1,3,4) by (simp_all add: set_file_def opens_def)
  have "pos \<le> length (inode ?h1 i)" using assms(10) by (simp add: length_splice)
  note s = PCB_Seek_file [OF p1(1,2) assms(3,4) p1(3) this]
  let ?f2 = "?f1\<lparr>currentOffset := int pos\<rparr>"
  let ?p2 = "set_file fid ?f2 ?p1"
  let ?h2 = "?h1\<lparr>fdtab := (fdtab ?h1)(of_file ?f1 \<mapsto> (i, int pos))\<rparr>"
  have p2: "length (fileTable ?p2) = 10" "fileTable ?p2 ! nat fid = Some ?f2" "opens ?f2 ?h2 i pos"
    using p1(1) assms(3,4) by (simp_all add: set_file_def opens_def)
  have "take n (drop pos (inode ?h2 i)) = ?bytes" using take_drop_splice [of ?bytes pos "inode h i"] b(2) by simp
  note r = PCB_Read_file [OF p2(1,2) assms(3,4) p2(3) this b(1) assms(9)]
  have "inode ?h2 i = take pos (inode h i) @ ?bytes @ drop (pos + n) (inode h i)" using assms(10) b(2) by (simp add: splice_def)
  then show ?thesis using w s r b(2) by auto
qed

definition demo_host :: host where
  "demo_host = \<lparr>con_in = [], con_out = [], dirent = Map.empty, inode = (\<lambda>_. []), next_inode = 0, fdtab = Map.empty, next_fd = 3, host_allows = (\<lambda>_. True)\<rparr>"

theorem file_write_read_witness:
  "\<exists>p h p0 h0 p1 h1 p2 h2 p3 h3. PCB_new 0 1 0 demo_host = Inr (p, h) \<and> PCB_Open 0 [97, 0] 0 p (snd (unix_open [97] True h)) = Inr (2, p0, h0)
    \<and> PCB_Write [72, 105, 0] 2 2 p0 h0 = Inr (2, p1, h1) \<and> PCB_Seek 0 2 p1 h1 = Inr (0, p2, h2) \<and> PCB_Read [7, 7, 7] 2 2 p2 h2 = Inr (2, [72, 105, 7], p3, h3)"
proof -
  have rep: "replicate 8 None = [None, None, None, None, None, None, None, None :: OpenFile option]" by (simp add: numeral_eq_Suc)
  have "\<exists>p h p0 h0 f. PCB_new 0 1 0 demo_host = Inr (p, h) \<and> PCB_Open 0 [97, 0] 0 p (snd (unix_open [97] True h)) = Inr (2, p0, h0)
    \<and> length (fileTable p0) = 10 \<and> fileTable p0 ! nat 2 = Some f \<and> of_type f \<noteq> 1 \<and> opens f h0 2 0"
    by (simp add: demo_host_def PCB_new_def FileSystem_Create_def FileSystem_Open_def cstring_def stdin_name_def stdout_name_def OpenForWrite_def
        OpenForReadWrite_def unix_open_def Close_def OpenFile_new_def PCB_Open_def PCB_FindFreeSlot_def opens_def rep Let_def)
  then obtain p h p0 h0 f where o: "PCB_new 0 1 0 demo_host = Inr (p, h)" "PCB_Open 0 [97, 0] 0 p (snd (unix_open [97] True h)) = Inr (2, p0, h0)"
    and f: "length (fileTable p0) = 10" "fileTable p0 ! nat 2 = Some f" "of_type f \<noteq> 1" "opens f h0 2 0" by blast
  from file_write_read [OF f(1,2) _ _ f(3,4), of 2 "[72, 105, 0]" "[7, 7, 7]"]
  obtain p1 h1 p2 h2 p3 h3 where "PCB_Write [72, 105, 0] 2 2 p0 h0 = Inr (2, p1, h1)" "PCB_Seek 0 2 p1 h1 = Inr (0, p2, h2)"
    "PCB_Read [7, 7, 7] 2 2 p2 h2 = Inr (2, [72, 105, 7], p3, h3)" by auto
  then show ?thesis using o(1,2) by blast
qed

end
