(* ===== verification/SemTable.thy ===== *)
theory SemTable
  imports Processes Bitmap
begin
text \<open>
  \<^verbatim>\<open>code/threads/stable.h\<close> and \<^verbatim>\<open>stable.cc\<close>: the semaphores that user programs create, wait for and signal by name.

  Of a semaphore only the value matters here (\<open>sem_P\<close>).  The constructor of \<open>Semaphore\<close> takes any value;
  with a negative one \<open>P\<close> never waits.
\<close>

section \<open>Model\<close>

definition MAX_SEMAPHORE :: int where "MAX_SEMAPHORE = 10"

record Sem =
  sem_name :: "8 word list"
  sem_val :: int

record stable =
  mSemBitMap :: bitmap
  semTable :: "Sem option list"

definition Sem_new :: "8 word list \<Rightarrow> int \<Rightarrow> Sem res" where
  "Sem_new semName v =
     bindE (strlen semName) (\<lambda>n.
     bindE (strcpy (replicate (n + 1) 0) semName) (\<lambda>name. Inr \<lparr>sem_name = name, sem_val = v\<rparr>))"

definition Sem_wait :: "Sem \<Rightarrow> Sem res" where
  "Sem_wait s = bindE (sem_P (sem_val s)) (\<lambda>v. Inr (s\<lparr>sem_val := v\<rparr>))"

definition Sem_signal :: "Sem \<Rightarrow> Sem" where
  "Sem_signal s = s\<lparr>sem_val := sem_val s + 1\<rparr>"

definition STable_new :: "32 word list \<Rightarrow> stable res" where
  "STable_new garbage =
     bindE (Bitmap_new garbage MAX_SEMAPHORE) (\<lambda>b. Inr \<lparr>mSemBitMap = b, semTable = replicate (nat MAX_SEMAPHORE) None\<rparr>)"

text \<open>The loop that \<open>Create\<close>, \<open>Wait\<close> and \<open>Signal\<close> share: the first slot in use whose name is \<open>name\<close>.\<close>

fun STable_loop :: "8 word list \<Rightarrow> stable \<Rightarrow> int list \<Rightarrow> int option res" where
  "STable_loop name t [] = Inr None"
| "STable_loop name t (i # is) =
     bindE (Bitmap_Test (mSemBitMap t) i) (\<lambda>used.
     if used
     then bindE (readA (semTable t) i) (\<lambda>s.
          bindE (derefE s) (\<lambda>s.
          bindE (strcmp_eq name (sem_name s)) (\<lambda>e.
          if e then Inr (Some i) else STable_loop name t is)))
     else STable_loop name t is)"

definition STable_FindFreeSlot :: "stable \<Rightarrow> (int \<times> stable) res" where
  "STable_FindFreeSlot t = bindE (Bitmap_FindAndSet (mSemBitMap t)) (\<lambda>(i, b). Inr (i, t\<lparr>mSemBitMap := b\<rparr>))"

definition STable_Create :: "8 word list \<Rightarrow> int \<Rightarrow> stable \<Rightarrow> (int \<times> stable) res" where
  "STable_Create name v t =
     bindE (STable_loop name t [0..MAX_SEMAPHORE - 1]) (\<lambda>found.
     case found of
       Some _ \<Rightarrow> Inr (- 1, t)
     | None \<Rightarrow>
         bindE (STable_FindFreeSlot t) (\<lambda>(idx, t).
         if idx < 0 then Inr (- 1, t)
         else bindE (Sem_new name v) (\<lambda>s.
              bindE (writeA (semTable t) idx (Some s)) (\<lambda>st. Inr (idx, t\<lparr>semTable := st\<rparr>)))))"

definition STable_on :: "(Sem \<Rightarrow> Sem res) \<Rightarrow> 8 word list \<Rightarrow> stable \<Rightarrow> (int \<times> stable) res" where
  "STable_on act name t =
     bindE (STable_loop name t [0..MAX_SEMAPHORE - 1]) (\<lambda>found.
     case found of
       None \<Rightarrow> Inr (- 1, t)
     | Some i \<Rightarrow>
         bindE (readA (semTable t) i) (\<lambda>s.
         bindE (derefE s) (\<lambda>s.
         bindE (act s) (\<lambda>s.
         bindE (writeA (semTable t) i (Some s)) (\<lambda>st. Inr (1, t\<lparr>semTable := st\<rparr>))))))"

definition STable_Wait :: "8 word list \<Rightarrow> stable \<Rightarrow> (int \<times> stable) res" where
  "STable_Wait name t = STable_on Sem_wait name t"

definition STable_Signal :: "8 word list \<Rightarrow> stable \<Rightarrow> (int \<times> stable) res" where
  "STable_Signal name t = STable_on (\<lambda>s. Inr (Sem_signal s)) name t"

section \<open>C strings\<close>

lemma strlen_ok: "0 \<notin> set s \<Longrightarrow> strlen (s @ 0 # x) = Inr (length s)"
  by (induction s) auto

lemma strcmp_ok: "0 \<notin> set s \<Longrightarrow> 0 \<notin> set u \<Longrightarrow> strcmp_eq (s @ 0 # x) (u @ 0 # y) = Inr (s = u)"
proof (induction s arbitrary: u)
  case Nil
  then show ?case by (cases u) auto
next
  case (Cons a s)
  then show ?case by (cases u) auto
qed

lemma strcpy_ok: "0 \<notin> set s \<Longrightarrow> length s < length dst \<Longrightarrow> strcpy dst (s @ 0 # x) = Inr (s @ 0 # drop (Suc (length s)) dst)"
  by (simp add: strcpy_def strlen_ok)

section \<open>The table is a map from names to values\<close>

definition stable_inv :: "stable \<Rightarrow> bool" where
  "stable_inv t \<longleftrightarrow> Bitmap_inv (mSemBitMap t) \<and> numBits (mSemBitMap t) = 10 \<and> length (semTable t) = 10
     \<and> (\<forall>i < 10. int i \<in> Bitmap_used (mSemBitMap t) \<longleftrightarrow> semTable t ! i \<noteq> None)
     \<and> (\<forall>i < 10. \<forall>s. semTable t ! i = Some s \<longrightarrow> (\<exists>n. sem_name s = n @ [0] \<and> 0 \<notin> set n))
     \<and> (\<forall>i < 10. \<forall>j < 10. \<forall>s u. semTable t ! i = Some s \<longrightarrow> semTable t ! j = Some u \<longrightarrow> sem_name s = sem_name u \<longrightarrow> i = j)"

definition stable_slot :: "stable \<Rightarrow> 8 word list \<Rightarrow> nat \<Rightarrow> Sem \<Rightarrow> bool" where
  "stable_slot t n i s \<longleftrightarrow> i < 10 \<and> semTable t ! i = Some s \<and> sem_name s = n @ [0]"

text \<open>The map that a table represents.\<close>

definition stable_rep :: "stable \<Rightarrow> (8 word list \<Rightarrow> int option) \<Rightarrow> bool" where
  "stable_rep t M \<longleftrightarrow> stable_inv t \<and> (\<forall>n v. M n = Some v \<longleftrightarrow> (\<exists>i s. stable_slot t n i s \<and> sem_val s = v))"

lemma inv_name: "stable_inv t \<Longrightarrow> i < 10 \<Longrightarrow> semTable t ! i = Some s \<Longrightarrow> \<exists>n. sem_name s = n @ [0] \<and> 0 \<notin> set n"
  unfolding stable_inv_def by blast

lemma inv_uniq:
  "stable_inv t \<Longrightarrow> i < 10 \<Longrightarrow> j < 10 \<Longrightarrow> semTable t ! i = Some s \<Longrightarrow> semTable t ! j = Some u \<Longrightarrow> sem_name s = sem_name u \<Longrightarrow> i = j"
  unfolding stable_inv_def by blast

lemma upto_10: "[0..MAX_SEMAPHORE - 1] = map int [0..<10]"
  by (simp add: MAX_SEMAPHORE_def upto_rec1 upt_rec)

lemma STable_loop_ok:
  assumes inv: "stable_inv t" and n: "0 \<notin> set n" and ix: "set is \<subseteq> {0..<10}"
  shows "STable_loop (n @ 0 # x) t (map int is) = Inr (map_option int (List.find (\<lambda>i. \<exists>s. stable_slot t n i s) is))"
  using ix
proof (induction "is")
  case (Cons i js)
  have i: "i < 10" using Cons.prems by simp
  have test: "Bitmap_Test (mSemBitMap t) (int i) = Inr (semTable t ! i \<noteq> None)"
    using inv i Bitmap_Test_in [of "mSemBitMap t" "int i"] by (auto simp add: stable_inv_def)
  show ?case
  proof (cases "semTable t ! i")
    case None
    then show ?thesis using Cons test by (auto simp add: stable_slot_def)
  next
    case (Some s)
    obtain u where u: "sem_name s = u @ [0]" "0 \<notin> set u" using inv_name [OF inv i Some] by blast
    have rd: "readA (semTable t) (int i) = Inr (Some s)" using inv i Some by (simp add: stable_inv_def)
    show ?thesis using Cons test rd Some u n strcmp_ok [OF n u(2), of x "[]"] i by (auto simp add: stable_slot_def)
  qed
qed simp

lemma find_slot:
  assumes inv: "stable_inv t"
  shows "List.find (\<lambda>i. \<exists>s. stable_slot t n i s) [0..<10] = Some i \<longleftrightarrow> (\<exists>s. stable_slot t n i s)"
    and "List.find (\<lambda>i. \<exists>s. stable_slot t n i s) [0..<10] = None \<longleftrightarrow> (\<forall>i s. \<not> stable_slot t n i s)"
proof -
  have uniq: "stable_slot t n i s \<Longrightarrow> stable_slot t n j u \<Longrightarrow> i = j" for i j s u
    using inv unfolding stable_inv_def stable_slot_def by metis
  show none: "List.find (\<lambda>i. \<exists>s. stable_slot t n i s) [0..<10] = None \<longleftrightarrow> (\<forall>i s. \<not> stable_slot t n i s)"
    by (auto simp add: find_None_iff stable_slot_def)
  show "List.find (\<lambda>i. \<exists>s. stable_slot t n i s) [0..<10] = Some i \<longleftrightarrow> (\<exists>s. stable_slot t n i s)"
  proof
    assume "List.find (\<lambda>i. \<exists>s. stable_slot t n i s) [0..<10] = Some i"
    then show "\<exists>s. stable_slot t n i s" by (auto simp add: find_Some_iff)
  next
    assume i: "\<exists>s. stable_slot t n i s"
    then obtain j where j: "List.find (\<lambda>i. \<exists>s. stable_slot t n i s) [0..<10] = Some j" using none by (metis option.exhaust)
    then have "\<exists>s. stable_slot t n j s" by (auto simp add: find_Some_iff)
    then show "List.find (\<lambda>i. \<exists>s. stable_slot t n i s) [0..<10] = Some i" using i uniq j by blast
  qed
qed

lemma rep_None: "stable_rep t M \<Longrightarrow> M n = None \<longleftrightarrow> (\<forall>i s. \<not> stable_slot t n i s)"
  unfolding stable_rep_def by (metis not_Some_eq option.distinct(1))

text \<open>Changing the value of a semaphore that exists, and adding one.\<close>

lemma rep_slots:
  assumes rep: "stable_rep t M" and inv': "stable_inv t'"
    and slot: "\<And>m j u. stable_slot t' m j u \<longleftrightarrow> (if j = i then m = n \<and> u = s' else stable_slot t m j u)"
    and mine: "\<And>j u. stable_slot t n j u \<Longrightarrow> j = i" and others: "\<And>m u. stable_slot t m i u \<Longrightarrow> m = n"
  shows "stable_rep t' (M(n \<mapsto> sem_val s'))"
  unfolding stable_rep_def
proof (intro conjI allI inv')
  fix m w
  show "(M(n \<mapsto> sem_val s')) m = Some w \<longleftrightarrow> (\<exists>j u. stable_slot t' m j u \<and> sem_val u = w)"
  proof (cases "m = n")
    case True
    have "(\<exists>j u. stable_slot t' n j u \<and> sem_val u = w) \<longleftrightarrow> w = sem_val s'"
    proof
      assume "\<exists>j u. stable_slot t' n j u \<and> sem_val u = w"
      then show "w = sem_val s'" using mine by (auto simp add: slot split: if_splits)
    qed (auto simp add: slot intro!: exI [of _ i])
    then show ?thesis using True by auto
  next
    case False
    then have "stable_slot t' m j u \<longleftrightarrow> stable_slot t m j u" for j u using others [of m u] by (auto simp add: slot)
    then show ?thesis using False rep by (simp add: stable_rep_def)
  qed
qed

lemma rep_update:
  assumes rep: "stable_rep t M" and s: "stable_slot t n i s"
  shows "stable_rep (t\<lparr>semTable := (semTable t)[i := Some (s\<lparr>sem_val := v\<rparr>)]\<rparr>) (M(n \<mapsto> v))"
proof -
  let ?t = "t\<lparr>semTable := (semTable t)[i := Some (s\<lparr>sem_val := v\<rparr>)]\<rparr>"
  have inv: "stable_inv t" using rep by (simp add: stable_rep_def)
  have i: "i < 10" "semTable t ! i = Some s" "sem_name s = n @ [0]" using s by (auto simp add: stable_slot_def)
  have len: "length (semTable t) = 10" using inv by (simp add: stable_inv_def)
  have nth: "semTable ?t ! j = (if j = i then Some (s\<lparr>sem_val := v\<rparr>) else semTable t ! j)" if "j < 10" for j
    using that len by (simp add: nth_list_update)
  have inv': "stable_inv ?t"
    using inv i nth unfolding stable_inv_def by (auto split: if_splits)
  have slot: "stable_slot ?t m j u \<longleftrightarrow> (if j = i then m = n \<and> u = s\<lparr>sem_val := v\<rparr> else stable_slot t m j u)" for m j u
    using nth [of j] i by (auto simp add: stable_slot_def)
  have uniq: "stable_slot t n j u \<Longrightarrow> j = i" for j u
    using inv s unfolding stable_inv_def stable_slot_def by metis
  have "stable_slot t m i u \<Longrightarrow> m = n" for m u using i by (auto simp add: stable_slot_def)
  from rep_slots [OF rep inv' slot uniq this] show ?thesis by simp
qed

lemma rep_insert:
  assumes rep: "stable_rep t M" and n: "M n = None" "0 \<notin> set n" and i: "int i \<notin> Bitmap_used (mSemBitMap t)" "i < 10"
    and b: "Bitmap_inv b" "numBits b = 10" "Bitmap_used b = insert (int i) (Bitmap_used (mSemBitMap t))"
  shows "stable_rep \<lparr>mSemBitMap = b, semTable = (semTable t)[i := Some \<lparr>sem_name = n @ [0], sem_val = v\<rparr>]\<rparr> (M(n \<mapsto> v))"
proof -
  let ?s = "\<lparr>sem_name = n @ [0], sem_val = v\<rparr>"
  let ?t = "\<lparr>mSemBitMap = b, semTable = (semTable t)[i := Some ?s]\<rparr>"
  have inv: "stable_inv t" using rep by (simp add: stable_rep_def)
  have len: "length (semTable t) = 10" using inv by (simp add: stable_inv_def)
  have nth: "semTable ?t ! j = (if j = i then Some ?s else semTable t ! j)" if "j < 10" for j
    using that len by (simp add: nth_list_update)
  have free: "semTable t ! i = None" using inv i by (simp add: stable_inv_def)
  have new: "sem_name u \<noteq> n @ [0]" if "j < 10" "semTable t ! j = Some u" for j u
    using that rep_None [OF rep, of n] n(1) by (auto simp add: stable_slot_def)
  have inv': "stable_inv ?t" unfolding stable_inv_def
  proof (intro conjI allI impI)
    fix j k s u
    assume "j < 10" "k < 10" "semTable ?t ! j = Some s" "semTable ?t ! k = Some u" "sem_name s = sem_name u"
    then show "j = k" using nth [of j] nth [of k] new [of j s] new [of k u] inv_uniq [OF inv, of j k s u] by (auto split: if_splits)
  next
    fix j
    assume "j < (10 :: nat)"
    then show "int j \<in> Bitmap_used (mSemBitMap ?t) \<longleftrightarrow> semTable ?t ! j \<noteq> None" using nth [of j] inv b(3) by (auto simp add: stable_inv_def)
  next
    fix j s
    assume "j < 10" "semTable ?t ! j = Some s"
    then show "\<exists>n. sem_name s = n @ [0] \<and> 0 \<notin> set n" using nth [of j] inv n(2) by (auto simp add: stable_inv_def split: if_splits)
  qed (simp_all add: b len)
  have slot: "stable_slot ?t m j u \<longleftrightarrow> (if j = i then m = n \<and> u = ?s else stable_slot t m j u)" for m j u
    using nth [of j] i(2) by (auto simp add: stable_slot_def)
  have "\<not> stable_slot t n j u" "\<not> stable_slot t m i u" for m j u using rep_None [OF rep, of n] n(1) free by (auto simp add: stable_slot_def)
  then show ?thesis using rep_slots [OF rep inv' slot] by auto
qed

lemma find_free_slot:
  assumes "Bitmap_inv b" "Bitmap_used b \<noteq> {0..<numBits b}"
  shows "\<exists>i b'. Bitmap_FindAndSet b = Inr (i, b') \<and> 0 \<le> i \<and> i < numBits b \<and> i \<notin> Bitmap_used b \<and> Bitmap_inv b' \<and> numBits b' = numBits b
    \<and> Bitmap_used b' = insert i (Bitmap_used b)"
proof -
  have "Bitmap_used b \<subset> {0..<numBits b}" using bm.used_range [OF assms(1)] assms(2) by blast
  then have "card (Bitmap_used b) < card {0..<numBits b}" by (intro psubset_card_mono) simp_all
  then have "int (card (Bitmap_used b)) < numBits b" by simp
  from bm.find_when_clear [OF assms(1) this] show ?thesis by auto
qed

lemma rep_card:
  assumes rep: "stable_rep t M"
  shows "card (dom M) = 10 \<longleftrightarrow> Bitmap_used (mSemBitMap t) = {0..<10}"
proof -
  have inv: "stable_inv t" using rep by (simp add: stable_rep_def)
  define S where "S = {i. i < 10 \<and> semTable t ! i \<noteq> None}"
  define nm where "nm i = butlast (sem_name (the (semTable t ! i)))" for i
  have nmS: "sem_name (the (semTable t ! i)) = nm i @ [0]" if "i \<in> S" for i
    using that inv_name [OF inv, of i] by (force simp add: S_def nm_def)
  have slotS: "(\<exists>s. stable_slot t n i s) \<longleftrightarrow> i \<in> S \<and> nm i = n" for n i
    using nmS [of i] by (auto simp add: S_def stable_slot_def)
  have "n \<in> dom M \<longleftrightarrow> (\<exists>i. \<exists>s. stable_slot t n i s)" for n using rep_None [OF rep, of n] by (auto simp add: domIff)
  then have "n \<in> dom M \<longleftrightarrow> n \<in> nm ` S" for n unfolding slotS by (metis (no_types, lifting) image_iff)
  then have "dom M = nm ` S" by blast
  moreover have "inj_on nm S"
  proof (rule inj_onI)
    fix i j
    assume ij: "i \<in> S" "j \<in> S" "nm i = nm j"
    then have "i < 10" "j < 10" "semTable t ! i = Some (the (semTable t ! i))" "semTable t ! j = Some (the (semTable t ! j))" by (auto simp add: S_def)
    then show "i = j" using inv_uniq [OF inv] nmS ij by metis
  qed
  ultimately have "card (dom M) = card S" by (simp add: card_image)
  moreover have "card S = 10 \<longleftrightarrow> S = {..<10}"
  proof
    assume "card S = 10"
    moreover have "S \<subseteq> {..<10}" by (auto simp add: S_def)
    ultimately show "S = {..<10}" using card_subset_eq [of "{..<10::nat}" S] by simp
  qed simp
  moreover have "Bitmap_used (mSemBitMap t) = int ` S"
  proof -
    have "Bitmap_inv (mSemBitMap t)" "numBits (mSemBitMap t) = 10" using inv by (simp_all add: stable_inv_def)
    then have r: "Bitmap_used (mSemBitMap t) \<subseteq> {0..<10}" using bm.used_range [of "mSemBitMap t"] by simp
    have u: "int i \<in> Bitmap_used (mSemBitMap t) \<longleftrightarrow> i \<in> S" if "i < 10" for i using inv that by (simp add: stable_inv_def S_def)
    show ?thesis
    proof (rule set_eqI)
      fix x
      show "x \<in> Bitmap_used (mSemBitMap t) \<longleftrightarrow> x \<in> int ` S"
      proof (cases "0 \<le> x \<and> x < 10")
        case True
        then show ?thesis using u [of "nat x"] by (auto simp add: image_iff intro: bexI [of _ "nat x"])
      next
        case False
        then show ?thesis using r by (auto simp add: S_def)
      qed
    qed
  qed
  moreover have "int ` {..<10} = {0..<10}" using image_int_atLeastLessThan [of 0 10] by (simp add: lessThan_atLeast0)
  ultimately show ?thesis using inj_image_eq_iff [OF inj_of_nat, of S "{..<10}"] by metis
qed

lemma loop_rep:
  assumes rep: "stable_rep t M" and n: "0 \<notin> set n"
  shows "M n = None \<Longrightarrow> STable_loop (n @ 0 # x) t [0..MAX_SEMAPHORE - 1] = Inr None"
    and "M n = Some v \<Longrightarrow> \<exists>i s. STable_loop (n @ 0 # x) t [0..MAX_SEMAPHORE - 1] = Inr (Some (int i)) \<and> stable_slot t n i s \<and> sem_val s = v"
proof -
  have inv: "stable_inv t" using rep by (simp add: stable_rep_def)
  have loop: "STable_loop (n @ 0 # x) t [0..MAX_SEMAPHORE - 1] = Inr (map_option int (List.find (\<lambda>i. \<exists>s. stable_slot t n i s) [0..<10]))"
    unfolding upto_10 by (rule STable_loop_ok [OF inv n]) auto
  show "M n = None \<Longrightarrow> STable_loop (n @ 0 # x) t [0..MAX_SEMAPHORE - 1] = Inr None"
    using find_slot(2) [OF inv, of n] rep_None [OF rep, of n] by (simp add: loop)
  show "M n = Some v \<Longrightarrow> \<exists>i s. STable_loop (n @ 0 # x) t [0..MAX_SEMAPHORE - 1] = Inr (Some (int i)) \<and> stable_slot t n i s \<and> sem_val s = v"
  proof -
    assume "M n = Some v"
    then obtain i s where s: "stable_slot t n i s" "sem_val s = v" using rep unfolding stable_rep_def by blast
    then have "List.find (\<lambda>i. \<exists>s. stable_slot t n i s) [0..<10] = Some i" using find_slot(1) [OF inv] by blast
    then show ?thesis using s by (auto simp add: loop)
  qed
qed

lemma STable_on_rep:
  assumes rep: "stable_rep t M" and n: "0 \<notin> set n"
  shows "M n = None \<Longrightarrow> STable_on act (n @ 0 # x) t = Inr (- 1, t)"
    and "M n = Some v \<Longrightarrow> \<exists>i s. stable_slot t n i s \<and> sem_val s = v \<and>
      STable_on act (n @ 0 # x) t = bindE (act s) (\<lambda>s'. Inr (1, t\<lparr>semTable := (semTable t)[i := Some s']\<rparr>))"
proof -
  show "M n = None \<Longrightarrow> STable_on act (n @ 0 # x) t = Inr (- 1, t)" using loop_rep(1) [OF rep n] by (simp add: STable_on_def)
  show "M n = Some v \<Longrightarrow> \<exists>i s. stable_slot t n i s \<and> sem_val s = v \<and>
      STable_on act (n @ 0 # x) t = bindE (act s) (\<lambda>s'. Inr (1, t\<lparr>semTable := (semTable t)[i := Some s']\<rparr>))"
  proof -
    assume "M n = Some v"
    from loop_rep(2) [OF rep n this] obtain i s where
      l: "STable_loop (n @ 0 # x) t [0..MAX_SEMAPHORE - 1] = Inr (Some (int i))" "stable_slot t n i s" "sem_val s = v" by blast
    have "length (semTable t) = 10" using rep by (simp add: stable_rep_def stable_inv_def)
    then have "STable_on act (n @ 0 # x) t = bindE (act s) (\<lambda>s'. Inr (1, t\<lparr>semTable := (semTable t)[i := Some s']\<rparr>))"
      using l by (simp add: STable_on_def stable_slot_def)
    then show ?thesis using l by blast
  qed
qed

section \<open>Properties\<close>

text \<open>
  C21.  The table of semaphores implements a map from names to values.  A new table is empty.  \<open>Create\<close> adds a name that
  is not in the map, as long as it has fewer than 10, and returns -1 and changes nothing otherwise; \<open>Wait\<close> and \<open>Signal\<close>
  return -1 for an unknown name; \<open>Wait\<close> decrements the value of the named semaphore and returns 1,
  and does not return while the value is 0; \<open>Signal\<close> increments it and returns 1.
\<close>

theorem STable_refines_map:
  assumes rep: "stable_rep t M" and n: "0 \<notin> set n"
  shows "(\<exists>t0. STable_new garbage = Inr t0 \<and> stable_rep t0 Map.empty)
    \<and> (if M n \<noteq> None \<or> card (dom M) = 10 then STable_Create (n @ 0 # x) v t = Inr (- 1, t)
       else \<exists>i t'. STable_Create (n @ 0 # x) v t = Inr (i, t') \<and> 0 \<le> i \<and> i < 10 \<and> stable_rep t' (M(n \<mapsto> v)))
    \<and> (case M n of
         None \<Rightarrow> STable_Wait (n @ 0 # x) t = Inr (- 1, t) \<and> STable_Signal (n @ 0 # x) t = Inr (- 1, t)
       | Some w \<Rightarrow>
           (if w = 0 then STable_Wait (n @ 0 # x) t = Inl Diverges
            else \<exists>t'. STable_Wait (n @ 0 # x) t = Inr (1, t') \<and> stable_rep t' (M(n \<mapsto> w - 1)))
           \<and> (\<exists>t'. STable_Signal (n @ 0 # x) t = Inr (1, t') \<and> stable_rep t' (M(n \<mapsto> w + 1))))"
proof (intro conjI)
  obtain b where b: "Bitmap_new garbage 10 = Inr b" "Bitmap_inv b" "numBits b = 10" "Bitmap_used b = {}" using Bitmap_new_ok [of 10 garbage] by auto
  let ?t0 = "\<lparr>mSemBitMap = b, semTable = replicate 10 None\<rparr> :: stable"
  have "stable_rep ?t0 Map.empty" using b by (auto simp add: stable_rep_def stable_inv_def stable_slot_def)
  then show "\<exists>t0. STable_new garbage = Inr t0 \<and> stable_rep t0 Map.empty" using b(1) by (simp add: STable_new_def MAX_SEMAPHORE_def)
  have inv: "stable_inv t" using rep by (simp add: stable_rep_def)
  then have tb: "Bitmap_inv (mSemBitMap t)" "numBits (mSemBitMap t) = 10" "length (semTable t) = 10" by (simp_all add: stable_inv_def)
  show "if M n \<noteq> None \<or> card (dom M) = 10 then STable_Create (n @ 0 # x) v t = Inr (- 1, t)
       else \<exists>i t'. STable_Create (n @ 0 # x) v t = Inr (i, t') \<and> 0 \<le> i \<and> i < 10 \<and> stable_rep t' (M(n \<mapsto> v))"
  proof (cases "M n")
    case (Some w)
    from loop_rep(2) [OF rep n Some, of x] show ?thesis using Some by (auto simp add: STable_Create_def)
  next
    case None
    note loop = loop_rep(1) [OF rep n None, of x]
    show ?thesis
    proof (cases "card (dom M) = 10")
      case True
      then have "Bitmap_FindAndSet (mSemBitMap t) = Inr (- 1, mSemBitMap t)" using rep_card [OF rep] bm.find_full [OF tb(1)] tb(2) by simp
      then show ?thesis using True loop by (simp add: STable_Create_def STable_FindFreeSlot_def)
    next
      case False
      then have "Bitmap_used (mSemBitMap t) \<noteq> {0..<10}" using rep_card [OF rep] by simp
      then obtain i b' where b': "Bitmap_FindAndSet (mSemBitMap t) = Inr (i, b')" "0 \<le> i" "i < 10" "i \<notin> Bitmap_used (mSemBitMap t)"
        "Bitmap_inv b'" "numBits b' = 10" "Bitmap_used b' = insert i (Bitmap_used (mSemBitMap t))"
        using find_free_slot [OF tb(1)] tb(2) by auto
      let ?t' = "\<lparr>mSemBitMap = b', semTable = (semTable t)[nat i := Some \<lparr>sem_name = n @ [0], sem_val = v\<rparr>]\<rparr> :: stable"
      have "Sem_new (n @ 0 # x) v = Inr \<lparr>sem_name = n @ [0], sem_val = v\<rparr>"
        using n by (simp add: Sem_new_def strlen_ok strcpy_ok)
      then have "STable_Create (n @ 0 # x) v t = Inr (i, ?t')" using b'(1-3) loop tb(3) by (simp add: STable_Create_def STable_FindFreeSlot_def)
      moreover have "stable_rep ?t' (M(n \<mapsto> v))" using b' None n by (intro rep_insert [OF rep]) simp_all
      ultimately show ?thesis using False None b'(2,3) by auto
    qed
  qed
  show "case M n of
         None \<Rightarrow> STable_Wait (n @ 0 # x) t = Inr (- 1, t) \<and> STable_Signal (n @ 0 # x) t = Inr (- 1, t)
       | Some w \<Rightarrow>
           (if w = 0 then STable_Wait (n @ 0 # x) t = Inl Diverges
            else \<exists>t'. STable_Wait (n @ 0 # x) t = Inr (1, t') \<and> stable_rep t' (M(n \<mapsto> w - 1)))
           \<and> (\<exists>t'. STable_Signal (n @ 0 # x) t = Inr (1, t') \<and> stable_rep t' (M(n \<mapsto> w + 1)))"
  proof (cases "M n")
    case None
    then show ?thesis using STable_on_rep(1) [OF rep n] by (simp add: STable_Wait_def STable_Signal_def)
  next
    case (Some w)
    from STable_on_rep(2) [OF rep n Some, of Sem_wait x] STable_on_rep(2) [OF rep n Some, of "\<lambda>s. Inr (Sem_signal s)" x]
    show ?thesis using rep_update [OF rep] Some
      by (auto simp add: STable_Wait_def STable_Signal_def Sem_wait_def Sem_signal_def sem_P_def)
  qed
qed

theorem STable_refines_map_witness:
  "\<exists>t0 i t1 t2. STable_new [] = Inr t0 \<and> STable_Create [65, 0] 1 t0 = Inr (i, t1) \<and> STable_Wait [65, 0, 7] t1 = Inr (1, t2)
    \<and> STable_Wait [65, 0] t2 = Inl Diverges"
proof -
  obtain b where b: "Bitmap_new [] 10 = Inr b" "Bitmap_inv b" "numBits b = 10" "Bitmap_used b = {}" using Bitmap_new_ok [of 10 "[]"] by auto
  let ?t0 = "\<lparr>mSemBitMap = b, semTable = replicate 10 None\<rparr> :: stable"
  have new: "STable_new [] = Inr ?t0" using b(1) by (simp add: STable_new_def MAX_SEMAPHORE_def)
  have r0: "stable_rep ?t0 Map.empty" using b by (auto simp add: stable_rep_def stable_inv_def stable_slot_def)
  have n: "0 \<notin> set [65 :: 8 word]" by simp
  from STable_refines_map [OF r0 n, of "[]" "[]" 1] obtain i t1 where
    c: "STable_Create [65, 0] 1 ?t0 = Inr (i, t1)" "stable_rep t1 [[65] \<mapsto> 1]" by auto
  from STable_refines_map [OF c(2) n, of "[]" "[7]" 1] obtain t2 where
    w: "STable_Wait [65, 0, 7] t1 = Inr (1, t2)" "stable_rep t2 [[65] \<mapsto> 0]" by auto
  from STable_refines_map [OF w(2) n, of "[]" "[]" 1] have "STable_Wait [65, 0] t2 = Inl Diverges" by simp
  then show ?thesis using new c(1) w(1) by blast
qed

end
