(* ===== verification/ProcTable.thy ===== *)
theory ProcTable
  imports SemTable
begin
text \<open>
  The process table of \<^verbatim>\<open>code/threads/ptable.cc\<close>, the start of a process, and the protocol of \<open>Exec\<close>, \<open>Join\<close> and \<open>Exit\<close>.
\<close>

section \<open>Model\<close>

record ptable = host +
  pt_bm :: bitmap
  pcb :: "PCB option list"
  psize :: int
  bmsem :: int

definition get_pcb :: "int \<Rightarrow> 'p ptable_scheme \<Rightarrow> PCB res" where
  "get_pcb i t = bindE (readA (pcb t) i) derefE"

definition put_pcb :: "int \<Rightarrow> PCB option \<Rightarrow> 'p ptable_scheme \<Rightarrow> 'p ptable_scheme res" where
  "put_pcb i p t = bindE (writeA (pcb t) i p) (\<lambda>ps. Inr (t\<lparr>pcb := ps\<rparr>))"

text \<open>A table made with a negative size has no bitmap; every later call uses it.\<close>

definition PTable_new :: "32 word list \<Rightarrow> int \<Rightarrow> host \<Rightarrow> ptable res" where
  "PTable_new garbage sz h =
     (if sz < 0 then Inl Null_deref
      else let sz = (if sz > MAX_PROCESS then MAX_PROCESS else sz) in
        bindE (Bitmap_new garbage sz) (\<lambda>b.
        Inr (host.extend h \<lparr>pt_bm = b, pcb = replicate (nat MAX_PROCESS) None, psize = sz, bmsem = 1\<rparr>)))"

definition PTable_initStartProcess :: "8 word \<Rightarrow> 8 word list \<Rightarrow> 'p ptable_scheme \<Rightarrow> 'p ptable_scheme res" where
  "PTable_initStartProcess junk name t =
     bindE (Bitmap_Mark (pt_bm t) 0) (\<lambda>b.
     bindE (PCB_new junk 0 0 (t\<lparr>pt_bm := b\<rparr>)) (\<lambda>(p, t).
     bindE (PCB_SetFileName name p) (\<lambda>p.
     put_pcb 0 (Some (p\<lparr>parentID := - 1\<rparr>)) t)))"

definition PTable_GetFreeSlot :: "'p ptable_scheme \<Rightarrow> (int \<times> 'p ptable_scheme) res" where
  "PTable_GetFreeSlot t = bindE (Bitmap_FindAndSet (pt_bm t)) (\<lambda>(i, b). Inr (i, t\<lparr>pt_bm := b\<rparr>))"

definition PTable_IsExist :: "int \<Rightarrow> 'p ptable_scheme \<Rightarrow> bool res" where
  "PTable_IsExist pid t = Bitmap_Test (pt_bm t) pid"

text \<open>
  \<open>Remove\<close> clears the bit and deletes the control block.  The destructor ends the thread of the process in \<open>Thread::Finish\<close>, which does
  not return: the open files of the process are not closed, and the pointer is not reset.
\<close>

definition PTable_Remove :: "int \<Rightarrow> 'p ptable_scheme \<Rightarrow> 'p ptable_scheme res" where
  "PTable_Remove pid t =
     bindE (Bitmap_Clear (pt_bm t) pid) (\<lambda>b. put_pcb pid None (t\<lparr>pt_bm := b\<rparr>))"

definition PTable_GetFileName :: "int \<Rightarrow> 'p ptable_scheme \<Rightarrow> 8 word list res" where
  "PTable_GetFileName pid t = bindE (get_pcb pid t) (\<lambda>p. Inr (pcb_filename p))"

text \<open>\<open>curPid\<close> and \<open>curName\<close> are the \<open>processID\<close> and the name of the current thread.\<close>

definition PTable_ExecUpdate ::
    "8 word \<Rightarrow> int \<Rightarrow> 8 word list \<Rightarrow> 8 word list option \<Rightarrow> 'p ptable_scheme \<Rightarrow> (int \<times> 'p ptable_scheme) res" where
  "PTable_ExecUpdate junk curPid curName name t =
     bindE (sem_P (bmsem t)) (\<lambda>v.
     let t = t\<lparr>bmsem := v\<rparr>; leave = (\<lambda>r t. Inr (r, t\<lparr>bmsem := bmsem t + 1\<rparr>)) in
     case name of
       None \<Rightarrow> leave (- 1) t
     | Some name \<Rightarrow>
         bindE (strcmp_eq name curName) (\<lambda>e.
         if e then leave (- 1) t
         else bindE (get_pcb 0 t) (\<lambda>p0.
              bindE (strcmp_eq name (pcb_filename p0)) (\<lambda>e.
              if e then leave (- 1) t
              else bindE (PTable_GetFreeSlot t) (\<lambda>(index, t).
                   if index < 0 then leave (- 1) t
                   else bindE (PCB_new junk index curPid t) (\<lambda>(p, t).
                        bindE (PCB_SetFileName name p) (\<lambda>p.
                        bindE (PCB_Exec index curPid (p\<lparr>parentID := curPid\<rparr>)) (\<lambda>(pid, p).
                        bindE (put_pcb index (Some p) t) (\<lambda>t. leave pid t)))))))))"

text \<open>
  \<open>JoinUpdate\<close> up to \<open>JoinWait\<close> (the value it returns, or \<open>None\<close> when it goes on to wait), and the rest: \<open>Inl Diverges\<close> when the caller sleeps in \<open>JoinWait\<close>.
  Which processes are asleep in the semaphore of which control block, also after the block is deleted, is part of the state of \<open>proc_step\<close> below.
\<close>

definition PTable_JoinUpdate :: "int \<Rightarrow> int \<Rightarrow> 'p ptable_scheme \<Rightarrow> (int option \<times> 'p ptable_scheme) res" where
  "PTable_JoinUpdate curPid pid t =
     (if pid < 0 then Inr (Some (- 1), t)
      else bindE (get_pcb pid t) (\<lambda>p.
        if curPid \<noteq> parentID p then Inr (Some (- 1), t)
        else bindE (get_pcb (parentID p) t) (\<lambda>pp.
             bindE (PCB_IncNumWait pp) (\<lambda>pp.
             bindE (put_pcb (parentID p) (Some pp) t) (\<lambda>t. Inr (None, t))))))"

definition PTable_JoinUpdate_rest :: "int \<Rightarrow> 'p ptable_scheme \<Rightarrow> (32 word \<times> 'p ptable_scheme) res" where
  "PTable_JoinUpdate_rest pid t =
     bindE (get_pcb pid t) (\<lambda>p.
     bindE (PCB_JoinWait p) (\<lambda>p.
     let ec = exitcode p in
     bindE (put_pcb pid (Some (PCB_ExitRelease p)) t) (\<lambda>t. Inr (ec, t))))"

text \<open>\<open>ExitUpdate\<close> up to \<open>ExitWait\<close>, and the rest.  When the process is not in the bitmap only a message is printed.\<close>

definition PTable_ExitUpdate :: "int \<Rightarrow> 32 word \<Rightarrow> 'p ptable_scheme \<Rightarrow> 'p ptable_scheme res" where
  "PTable_ExitUpdate pid code t =
     (if pid = 0 then Inl Halted
      else bindE (PTable_IsExist pid t) (\<lambda>_.
        bindE (get_pcb pid t) (\<lambda>p.
        bindE (put_pcb pid (Some (p\<lparr>exitcode := code\<rparr>)) t) (\<lambda>t.
        bindE (get_pcb (parentID p) t) (\<lambda>pp.
        bindE (PCB_DecNumWait pp) (\<lambda>pp.
        bindE (put_pcb (parentID p) (Some pp) t) (\<lambda>t.
        bindE (get_pcb pid t) (\<lambda>p.
        put_pcb pid (Some (PCB_JoinRelease p)) t))))))))"

definition PTable_ExitUpdate_rest :: "int \<Rightarrow> 'p ptable_scheme \<Rightarrow> 'p ptable_scheme res" where
  "PTable_ExitUpdate_rest pid t =
     bindE (get_pcb pid t) (\<lambda>p.
     bindE (PCB_ExitWait p) (\<lambda>p.
     bindE (put_pcb pid (Some p) t) (\<lambda>t. PTable_Remove pid t)))"

definition PTable_Open :: "8 word \<Rightarrow> int \<Rightarrow> 8 word list \<Rightarrow> int \<Rightarrow> 'p ptable_scheme \<Rightarrow> (int \<times> 'p ptable_scheme) res" where
  "PTable_Open junk pid name typ t =
     bindE (get_pcb pid t) (\<lambda>p. bindE (PCB_Open junk name typ p t) (\<lambda>(r, p, t). bindE (put_pcb pid (Some p) t) (\<lambda>t. Inr (r, t))))"

definition PTable_Close :: "int \<Rightarrow> int \<Rightarrow> 'p ptable_scheme \<Rightarrow> (int \<times> 'p ptable_scheme) res" where
  "PTable_Close pid fid t =
     bindE (get_pcb pid t) (\<lambda>p. bindE (PCB_Close fid p t) (\<lambda>(r, p, t). bindE (put_pcb pid (Some p) t) (\<lambda>t. Inr (r, t))))"

definition PTable_Read :: "int \<Rightarrow> 8 word list \<Rightarrow> int \<Rightarrow> int \<Rightarrow> 'p ptable_scheme \<Rightarrow> (int \<times> 8 word list \<times> 'p ptable_scheme) res" where
  "PTable_Read pid buffer n fid t =
     bindE (get_pcb pid t) (\<lambda>p. bindE (PCB_Read buffer n fid p t) (\<lambda>(r, b, p, t). bindE (put_pcb pid (Some p) t) (\<lambda>t. Inr (r, b, t))))"

definition PTable_Write :: "int \<Rightarrow> 8 word list \<Rightarrow> int \<Rightarrow> int \<Rightarrow> 'p ptable_scheme \<Rightarrow> (int \<times> 'p ptable_scheme) res" where
  "PTable_Write pid buffer n fid t =
     bindE (get_pcb pid t) (\<lambda>p. bindE (PCB_Write buffer n fid p t) (\<lambda>(r, p, t). bindE (put_pcb pid (Some p) t) (\<lambda>t. Inr (r, t))))"

definition PTable_Seek :: "int \<Rightarrow> int \<Rightarrow> int \<Rightarrow> 'p ptable_scheme \<Rightarrow> (int \<times> 'p ptable_scheme) res" where
  "PTable_Seek pid position fid t =
     bindE (get_pcb pid t) (\<lambda>p. bindE (PCB_Seek position fid p t) (\<lambda>(r, p, t). bindE (put_pcb pid (Some p) t) (\<lambda>t. Inr (r, t))))"

text \<open>
  The first code of a process: load the program that the control block names, and start it.  The result is
  the machine as the program finds it.
\<close>

definition StartProcess :: "(nat \<Rightarrow> 8 word) \<Rightarrow> int \<Rightarrow> 'p ptable_scheme \<Rightarrow> bitmap \<times> 'm machine_scheme \<Rightarrow> (addr_space \<times> bitmap \<times> 'm machine_scheme) res" where
  "StartProcess junk pid t bm_m =
     bindE (PTable_GetFileName pid t) (\<lambda>fileName.
     bindE (cstring fileName) (\<lambda>s.
     bindE (AddrSpace_Load junk (map_option (inode t) (dirent t s)) AddrSpace_new bm_m) (\<lambda>(ok, space, b, m).
     if ok then bindE (AddrSpace_Execute space m) (\<lambda>m. Inr (space, b, m)) else Inl Assert_failed)))"

subsection \<open>Processes that exec, join and exit\<close>

text \<open>
  Where a process is: running its program; about to call \<open>pcb[id]->JoinWait()\<close> in \<open>JoinUpdate\<close>; asleep in the queue of the \<open>joinsem\<close> that it found there;
  asleep in the queue of a \<open>joinsem\<close> that has been deleted with its control block, which nothing can release; or in \<open>ExitWait\<close>.
\<close>

datatype pstate = P_run | P_join int | P_sleep int | P_lost | P_exit

text \<open>\<open>codes\<close> notes the argument of the \<open>Exit\<close> call of a process.\<close>

record procs = ptable +
  pstate :: "int \<Rightarrow> pstate option"
  codes :: "int \<Rightarrow> 32 word"

datatype pevent = Ev_other | Ev_joined int int "32 word"

definition set_pstate :: "int \<Rightarrow> pstate option \<Rightarrow> procs \<Rightarrow> procs" where
  "set_pstate q v s = s\<lparr>pstate := (pstate s)(q := v)\<rparr>"

text \<open>\<open>Remove\<close> deletes the semaphores of the control block, also when processes are asleep in them.\<close>

definition lose_sleepers :: "int \<Rightarrow> procs \<Rightarrow> procs" where
  "lose_sleepers pid s = s\<lparr>pstate := (\<lambda>q. if pstate s q = Some (P_sleep pid) then Some P_lost else pstate s q)\<rparr>"

inductive proc_step :: "procs \<Rightarrow> pevent \<Rightarrow> procs \<Rightarrow> bool" where
  ps_exec: "pstate s q = Some P_run \<Longrightarrow> PTable_ExecUpdate junk q curName name s = Inr (r, s') \<Longrightarrow>
    proc_step s Ev_other (if r < 0 then s' else set_pstate r (Some P_run) s')"
| ps_join_now: "pstate s q = Some P_run \<Longrightarrow> PTable_JoinUpdate q pid s = Inr (Some r, s') \<Longrightarrow> proc_step s Ev_other s'"
| ps_join_wait: "pstate s q = Some P_run \<Longrightarrow> PTable_JoinUpdate q pid s = Inr (None, s') \<Longrightarrow> proc_step s Ev_other (set_pstate q (Some (P_join pid)) s')"
| ps_join_end: "pstate s q = Some (P_join pid) \<Longrightarrow> PTable_JoinUpdate_rest pid s = Inr (ec, s') \<Longrightarrow>
    proc_step s (Ev_joined q pid ec) (set_pstate q (Some P_run) s')"
| ps_join_sleep: "pstate s q = Some (P_join pid) \<Longrightarrow> PTable_JoinUpdate_rest pid s = Inl Diverges \<Longrightarrow> proc_step s Ev_other (set_pstate q (Some (P_sleep pid)) s)"
| ps_join_woken: "pstate s q = Some (P_sleep pid) \<Longrightarrow> PTable_JoinUpdate_rest pid s = Inr (ec, s') \<Longrightarrow>
    proc_step s (Ev_joined q pid ec) (set_pstate q (Some P_run) s')"
| ps_exit: "pstate s q = Some P_run \<Longrightarrow> PTable_ExitUpdate q code s = Inr s' \<Longrightarrow>
    proc_step s Ev_other ((set_pstate q (Some P_exit) s')\<lparr>codes := (codes s)(q := code)\<rparr>)"
| ps_exit_end: "pstate s q = Some P_exit \<Longrightarrow> PTable_ExitUpdate_rest q s = Inr s' \<Longrightarrow>
    proc_step s Ev_other (lose_sleepers q (set_pstate q None s'))"
| ps_open: "pstate s q = Some P_run \<Longrightarrow> PTable_Open junk q name typ s = Inr (r, s') \<Longrightarrow> proc_step s Ev_other s'"
| ps_close: "pstate s q = Some P_run \<Longrightarrow> PTable_Close q fid s = Inr (r, s') \<Longrightarrow> proc_step s Ev_other s'"
| ps_read: "pstate s q = Some P_run \<Longrightarrow> PTable_Read q buf n fid s = Inr (r, buf', s') \<Longrightarrow> proc_step s Ev_other s'"
| ps_write: "pstate s q = Some P_run \<Longrightarrow> PTable_Write q buf n fid s = Inr (r, s') \<Longrightarrow> proc_step s Ev_other s'"
| ps_seek: "pstate s q = Some P_run \<Longrightarrow> PTable_Seek q pos fid s = Inr (r, s') \<Longrightarrow> proc_step s Ev_other s'"

text \<open>The start: the table with the main process.\<close>

definition procs_start :: "32 word list \<Rightarrow> 8 word \<Rightarrow> 8 word list \<Rightarrow> host \<Rightarrow> procs res" where
  "procs_start garbage junk name h =
     bindE (PTable_new garbage MAX_PROCESS h) (\<lambda>t.
     PTable_initStartProcess junk name (ptable.extend t \<lparr>pstate = [0 \<mapsto> P_run], codes = (\<lambda>_. 0)\<rparr>))"

inductive procs_reach :: "procs \<Rightarrow> procs \<Rightarrow> bool" for s0 where
  pr_start: "procs_reach s0 s0"
| pr_step: "procs_reach s0 s \<Longrightarrow> proc_step s e s' \<Longrightarrow> procs_reach s0 s'"

end
