(* ===== verification/Join_Exit.thy ===== *)
theory Join_Exit
  imports ProcTable
begin

text \<open>
  What the process table keeps while processes run \<open>Exec\<close>, \<open>Join\<close>, \<open>Exit\<close> and the file calls in any order: an invariant of
  \<open>proc_step\<close>, and from it that \<open>Join\<close> returns the exit code of the child and that the two sides of an exit meet.
\<close>

section \<open>What the calls leave alone\<close>

text \<open>File calls do not touch the process table.\<close>

definition same_table :: "procs \<Rightarrow> procs \<Rightarrow> bool" where
  "same_table s s' \<longleftrightarrow> pt_bm s' = pt_bm s \<and> pcb s' = pcb s \<and> bmsem s' = bmsem s \<and> pstate s' = pstate s \<and> codes s' = codes s"

lemma same_refl [simp]: "same_table s s"
  by (simp add: same_table_def)

lemma same_trans: "same_table s s' \<Longrightarrow> same_table s' s'' \<Longrightarrow> same_table s s''"
  by (simp add: same_table_def)

lemma same_unix: "unix_open n c s = (fd, s') \<Longrightarrow> same_table s s'" "unix_lseek fd q e s = (r, s') \<Longrightarrow> same_table s s'"
  "unix_read fd k s = (r, b, s') \<Longrightarrow> same_table s s'" "unix_write fd bs s = (r, s') \<Longrightarrow> same_table s s'"
  by (auto simp add: unix_open_def unix_lseek_def unix_read_def unix_write_def same_table_def Let_def split: if_splits option.splits)

lemma same_sysdep: "OpenForWrite n s = Inr (fd, s') \<Longrightarrow> same_table s s'" "OpenForReadWrite n c s = Inr (fd, s') \<Longrightarrow> same_table s s'"
  "WriteFile fd bs s = Inr s' \<Longrightarrow> same_table s s'" "Lseek fd q e s = Inr s' \<Longrightarrow> same_table s s'" "Close fd s = Inr s' \<Longrightarrow> same_table s s'"
  by (auto simp add: OpenForWrite_def OpenForReadWrite_def WriteFile_def Lseek_def bindE_eq_Inr dest: same_unix split: prod.splits)
    (auto simp add: Close_def bindE_eq_Inr same_table_def)

lemma same_filesys: "FileSystem_Create n s = Inr (b, s') \<Longrightarrow> same_table s s'" "FileSystem_Open j n ty s = Inr (f, s') \<Longrightarrow> same_table s s'"
  by (auto simp add: FileSystem_Create_def FileSystem_Open_def bindE_eq_Inr dest: same_sysdep intro: same_trans split: if_splits)

lemma same_openfile: "OpenFile_Seek q f s = Inr (r, f', s') \<Longrightarrow> same_table s s'" "OpenFile_Read n f s = Inr (r, b, f', s') \<Longrightarrow> same_table s s'"
  "OpenFile_Write bs f s = Inr (r, f', s') \<Longrightarrow> same_table s s'" "OpenFile_Length f s = Inr (r, s') \<Longrightarrow> same_table s s'" "OpenFile_delete f s = Inr s' \<Longrightarrow> same_table s s'"
proof -
  show "OpenFile_Seek q f s = Inr (r, f', s') \<Longrightarrow> same_table s s'"
    by (auto simp add: OpenFile_Seek_def bindE_eq_Inr Let_def dest: same_sysdep)
  show "OpenFile_Read n f s = Inr (r, b, f', s') \<Longrightarrow> same_table s s'"
    by (auto simp add: OpenFile_Read_def OpenFile_ReadAt_def ReadPartial_def bindE_eq_Inr dest!: same_sysdep same_unix intro: same_trans)
  show "OpenFile_Write bs f s = Inr (r, f', s') \<Longrightarrow> same_table s s'"
    by (auto simp add: OpenFile_Write_def OpenFile_WriteAt_def bindE_eq_Inr dest!: same_sysdep intro: same_trans)
  show "OpenFile_Length f s = Inr (r, s') \<Longrightarrow> same_table s s'"
    by (auto simp add: OpenFile_Length_def bindE_eq_Inr Let_def dest!: same_sysdep intro: same_trans)
  show "OpenFile_delete f s = Inr s' \<Longrightarrow> same_table s s'" by (auto simp add: OpenFile_delete_def dest: same_sysdep)
qed

text \<open>The fields of a control block that the file calls leave alone.\<close>

definition same_sems :: "PCB \<Rightarrow> PCB \<Rightarrow> bool" where
  "same_sems p p' \<longleftrightarrow> joinsem p' = joinsem p \<and> exitsem p' = exitsem p \<and> multex p' = multex p \<and> exitcode p' = exitcode p \<and> parentID p' = parentID p"

lemma same_sems_refl [simp]: "same_sems p p" "same_sems p (set_file i f p)" "same_sems p (p\<lparr>fileTable := ft\<rparr>)"
  by (simp_all add: same_sems_def set_file_def)

lemma same_PutChar: "same_table s (PutChar c s)"
  by (simp add: PutChar_def same_table_def)

lemma same_Write_console: "Write_console buf n i s = Inr (r, s') \<Longrightarrow> same_table s s'"
proof (induction buf n i s rule: Write_console.induct)
  case (1 buf n i s)
  obtain c where c: "readA buf i = Inr c" using 1(2) by (subst (asm) Write_console.simps) (auto simp add: bindE_eq_Inr)
  show ?case
  proof (cases "c \<noteq> 0 \<and> c \<noteq> ch_nl \<and> i < n")
    case True
    then have "Write_console buf n (i + 1) (PutChar c s) = Inr (r, s')" using 1(2) c by (subst (asm) Write_console.simps) auto
    then have "same_table (PutChar c s) s'" using 1(1) [OF c] True by blast
    then show ?thesis using same_trans [OF same_PutChar] by blast
  next
    case False
    then show ?thesis using 1(2) c by (subst (asm) Write_console.simps) (auto simp add: same_PutChar)
  qed
qed

lemma same_readString: "readString buf n s = Inr (r, b, s') \<Longrightarrow> same_table s s'"
  by (auto simp add: readString_def bindE_eq_Inr same_table_def)

lemma same_PCB: "PCB_Open j n ty p s = Inr (r, p', s') \<Longrightarrow> same_table s s' \<and> same_sems p p'"
  "PCB_Close fid p s = Inr (r, p', s') \<Longrightarrow> same_table s s' \<and> same_sems p p'"
  "PCB_Seek pos fid p s = Inr (r, p', s') \<Longrightarrow> same_table s s' \<and> same_sems p p'"
proof -
  show "PCB_Open j n ty p s = Inr (r, p', s') \<Longrightarrow> same_table s s' \<and> same_sems p p'"
  proof -
    assume a: "PCB_Open j n ty p s = Inr (r, p', s')"
    obtain u where u: "name_in_use n (fileTable p) = Inr u" using a by (cases "name_in_use n (fileTable p)") (auto simp add: PCB_Open_def)
    show ?thesis
    proof (cases "u \<or> PCB_FindFreeSlot p = - 1 \<or> ty \<noteq> 0 \<and> ty \<noteq> 1")
      case True
      then have "p' = p" "s' = s" using a u by (auto simp add: PCB_Open_def Let_def split: if_split_asm)
      then show ?thesis by simp
    next
      case False
      then have "bindE (FileSystem_Open j n ty s) (\<lambda>(f, h). bindE (writeA (fileTable p) (PCB_FindFreeSlot p) f) (\<lambda>ft.
          Inr (if f \<noteq> None then PCB_FindFreeSlot p else - 1, p\<lparr>fileTable := ft\<rparr>, h))) = Inr (r, p', s')"
        using a u by (simp add: PCB_Open_def Let_def)
      then obtain f ft where "FileSystem_Open j n ty s = Inr (f, s')" "p' = p\<lparr>fileTable := ft\<rparr>" by (auto simp add: bindE_eq_Inr)
      then show ?thesis using same_filesys(2) by simp
    qed
  qed
  show "PCB_Close fid p s = Inr (r, p', s') \<Longrightarrow> same_table s s' \<and> same_sems p p'"
    by (auto simp add: PCB_Close_def bindE_eq_Inr dest: same_openfile split: if_splits option.splits)
  show "PCB_Seek pos fid p s = Inr (r, p', s') \<Longrightarrow> same_table s s' \<and> same_sems p p'"
  proof -
    assume a: "PCB_Seek pos fid p s = Inr (r, p', s')"
    show ?thesis
    proof (cases "\<exists>f. 2 \<le> fid \<and> fid \<le> 9 \<and> readA (fileTable p) fid = Inr (Some f)")
      case False
      then have "p' = p \<and> s' = s"
        using a by (cases "readA (fileTable p) fid") (auto simp add: PCB_Seek_def split: if_split_asm option.split_asm)
      then show ?thesis by simp
    next
      case True
      then obtain f where f: "2 \<le> fid" "fid \<le> 9" "readA (fileTable p) fid = Inr (Some f)" by blast
      then obtain q s1 n s2 where l: "(if pos = - 1 then OpenFile_Length f s else Inr (pos, s)) = Inr (q, s1)" "OpenFile_Length f s1 = Inr (n, s2)"
        "(if q > n \<or> q < 0 then Inr (- 1, p, s2) else bindE (OpenFile_Seek q f s2) (\<lambda>(_, f, h). Inr (q, set_file fid f p, h))) = Inr (r, p', s')"
        using a by (auto simp add: PCB_Seek_def bindE_eq_Inr simp del: if_split split: if_split_asm)
      have "same_table s s1" using l(1) same_openfile(4) by (auto split: if_split_asm)
      then have s2: "same_table s s2" using same_openfile(4) [OF l(2)] same_trans by blast
      show ?thesis
      proof (cases "q > n \<or> q < 0")
        case True
        then show ?thesis using l(3) s2 by auto
      next
        case False
        then obtain k f' where "OpenFile_Seek q f s2 = Inr (k, f', s')" "p' = set_file fid f' p" using l(3) by (auto simp add: bindE_eq_Inr)
        then show ?thesis using s2 same_openfile(1) same_trans by simp
      qed
    qed
  qed
qed

lemma same_PCB_Read: "PCB_Read buf n fid p s = Inr (r, b, p', s') \<Longrightarrow> same_table s s' \<and> same_sems p p'"
  by (auto simp add: PCB_Read_def OpenFile_GetCurrentPos_def bindE_eq_Inr Let_def dest: same_readString same_openfile split: if_splits option.splits)

lemma same_PCB_Write: "PCB_Write buf n fid p s = Inr (r, p', s') \<Longrightarrow> same_table s s' \<and> same_sems p p'"
  by (auto simp add: PCB_Write_def OpenFile_GetCurrentPos_def bindE_eq_Inr Let_def dest: same_Write_console same_openfile split: if_splits option.splits)

lemma same_PCB_new:
  assumes "PCB_new j pid cur s = Inr (p, s')"
  shows "same_table s s' \<and> joinsem p = 0 \<and> exitsem p = 0 \<and> multex p = 1"
  using assms by (auto simp add: PCB_new_def bindE_eq_Inr dest!: same_filesys intro: same_trans)

section \<open>The invariant of the process table\<close>

text \<open>The semaphores of a process: both are 0 until it exits; then one of them is 1, and its exit code is set.\<close>

definition pcb_ok :: "pstate option \<Rightarrow> 32 word \<Rightarrow> PCB \<Rightarrow> bool" where
  "pcb_ok v c p \<longleftrightarrow> multex p = 1 \<and>
     (if v = Some P_exit then 0 \<le> joinsem p \<and> 0 \<le> exitsem p \<and> joinsem p + exitsem p = 1 \<and> exitcode p = c else joinsem p = 0 \<and> exitsem p = 0)"

definition procs_inv :: "procs \<Rightarrow> bool" where
  "procs_inv s \<longleftrightarrow> Bitmap_inv (pt_bm s) \<and> numBits (pt_bm s) = 10 \<and> length (pcb s) = 10 \<and> bmsem s = 1
     \<and> (\<forall>i. pstate s i \<noteq> None \<longleftrightarrow> i \<in> Bitmap_used (pt_bm s)) \<and> (\<forall>i < 10. pcb s ! i \<noteq> None \<longleftrightarrow> int i \<in> Bitmap_used (pt_bm s))
     \<and> (\<forall>i < 10. \<forall>p. pcb s ! i = Some p \<longrightarrow> pcb_ok (pstate s (int i)) (codes s (int i)) p)"

lemma inv_same: "procs_inv s \<Longrightarrow> same_table s s' \<Longrightarrow> procs_inv s'"
  by (simp add: procs_inv_def same_table_def)

lemma get_pcb_eq: "get_pcb i s = Inr p \<longleftrightarrow> 0 \<le> i \<and> i < int (length (pcb s)) \<and> pcb s ! nat i = Some p"
  by (auto simp add: get_pcb_def bindE_eq_Inr readA_eq_Inr)

lemma put_pcb_eq: "put_pcb i p s = Inr s' \<longleftrightarrow> 0 \<le> i \<and> i < int (length (pcb s)) \<and> s' = s\<lparr>pcb := (pcb s)[nat i := p]\<rparr>"
  by (auto simp add: put_pcb_def bindE_eq_Inr writeA_eq_Inr)

lemma inv_pcb: "procs_inv s \<Longrightarrow> get_pcb i s = Inr p \<Longrightarrow> pcb_ok (pstate s i) (codes s i) p"
  unfolding procs_inv_def get_pcb_eq by (metis nat_0_le nat_less_iff of_nat_numeral)

text \<open>The control block of one process changes, and perhaps what it is doing.\<close>

lemma inv_set_pcb:
  assumes inv: "procs_inv s" and p: "get_pcb i s = Inr p0" and ok: "pcb_ok (pstate s' i) (codes s' i) p"
    and s': "pt_bm s' = pt_bm s" "bmsem s' = bmsem s" "pcb s' = (pcb s)[nat i := Some p]"
      "\<And>j. j \<noteq> i \<Longrightarrow> pstate s' j = pstate s j" "pstate s' i \<noteq> None" "\<And>j. j \<noteq> i \<Longrightarrow> codes s' j = codes s j"
  shows "procs_inv s'"
proof -
  have len: "length (pcb s) = 10" using inv by (simp add: procs_inv_def)
  then have i: "0 \<le> i" "i < 10" "pcb s ! nat i = Some p0" using p by (auto simp add: get_pcb_eq)
  have nth: "pcb s' ! j = (if int j = i then Some p else pcb s ! j)" if "j < 10" for j
    using that i len by (auto simp add: s' nth_list_update)
  have used: "i \<in> Bitmap_used (pt_bm s)" using inv i unfolding procs_inv_def by (metis nat_0_le nat_less_iff of_nat_numeral option.distinct(1))
  show ?thesis unfolding procs_inv_def
  proof (intro conjI allI impI)
    fix j
    show "pstate s' j \<noteq> None \<longleftrightarrow> j \<in> Bitmap_used (pt_bm s')" using inv s'(1,4,5) used by (cases "j = i") (auto simp add: procs_inv_def)
  next
    fix j :: nat
    assume j: "j < 10"
    show "pcb s' ! j \<noteq> None \<longleftrightarrow> int j \<in> Bitmap_used (pt_bm s')" using inv nth [OF j] used j by (auto simp add: procs_inv_def s')
    fix q
    assume "pcb s' ! j = Some q"
    then show "pcb_ok (pstate s' (int j)) (codes s' (int j)) q"
      using inv nth [OF j] ok j s'(4,6) unfolding procs_inv_def by (cases "int j = i") auto
  qed (use inv in \<open>simp_all add: procs_inv_def s'\<close>)
qed

lemma inv_file:
  assumes inv: "procs_inv s" and p: "get_pcb q s = Inr p" and h: "same_table s s1" "same_sems p p'" and s': "put_pcb q (Some p') s1 = Inr s'"
  shows "procs_inv s'"
proof -
  have ok: "pcb_ok (pstate s q) (codes s q) p" by (rule inv_pcb [OF inv p])
  have "pstate s q \<noteq> None" using inv p unfolding procs_inv_def get_pcb_eq by (metis nat_0_le nat_less_iff of_nat_numeral option.distinct(1))
  then show ?thesis using h ok s' by (intro inv_set_pcb [OF inv p]) (auto simp add: put_pcb_eq same_table_def pcb_ok_def same_sems_def)
qed

lemma live: "procs_inv s \<Longrightarrow> get_pcb q s = Inr p \<Longrightarrow> pstate s q \<noteq> None"
  unfolding procs_inv_def get_pcb_eq by (metis nat_0_le nat_less_iff of_nat_numeral option.distinct(1))

lemma ExecUpdate_cases:
  assumes e: "PTable_ExecUpdate junk q cn name s = Inr (r, s')" and b: "bmsem s = 1"
  shows "r = - 1 \<and> s' = s\<lparr>bmsem := 1\<rparr> \<or> (\<exists>s1 p s2 nm p' p'' s3. PTable_GetFreeSlot (s\<lparr>bmsem := 0\<rparr>) = Inr (r, s1) \<and> r \<ge> 0 \<and> PCB_new junk r q s1 = Inr (p, s2) \<and> PCB_SetFileName nm p = Inr p'
        \<and> PCB_Exec r q (p'\<lparr>parentID := q\<rparr>) = Inr (r, p'') \<and> put_pcb r (Some p'') s2 = Inr s3 \<and> s' = s3\<lparr>bmsem := bmsem s3 + 1\<rparr>)
    \<or> (\<exists>i s1. PTable_GetFreeSlot (s\<lparr>bmsem := 0\<rparr>) = Inr (i, s1) \<and> i < 0 \<and> r = - 1 \<and> s' = s1\<lparr>bmsem := bmsem s1 + 1\<rparr>)"
proof (cases name)
  case None
  then show ?thesis using e b by (simp add: PTable_ExecUpdate_def sem_P_def Let_def)
next
  case (Some nm)
  obtain e1 where e1: "strcmp_eq nm cn = Inr e1" using e b Some by (cases "strcmp_eq nm cn") (auto simp add: PTable_ExecUpdate_def sem_P_def Let_def)
  show ?thesis
  proof (cases e1)
    case True
    then show ?thesis using e b Some e1 by (simp add: PTable_ExecUpdate_def sem_P_def Let_def)
  next
    case False
    obtain p0 where p0: "get_pcb 0 (s\<lparr>bmsem := 0\<rparr>) = Inr p0"
      using e b Some e1 False by (cases "get_pcb 0 (s\<lparr>bmsem := 0\<rparr>)") (auto simp add: PTable_ExecUpdate_def sem_P_def Let_def)
    obtain e2 where e2: "strcmp_eq nm (pcb_filename p0) = Inr e2"
      using e b Some e1 False p0 by (cases "strcmp_eq nm (pcb_filename p0)") (auto simp add: PTable_ExecUpdate_def sem_P_def Let_def)
    show ?thesis
    proof (cases e2)
      case True
      then show ?thesis using e b Some e1 False p0 e2 by (simp add: PTable_ExecUpdate_def sem_P_def Let_def)
    next
      case False2: False
      obtain i s1 where f: "PTable_GetFreeSlot (s\<lparr>bmsem := 0\<rparr>) = Inr (i, s1)"
        using e b Some e1 False p0 e2 False2 by (cases "PTable_GetFreeSlot (s\<lparr>bmsem := 0\<rparr>)") (auto simp add: PTable_ExecUpdate_def sem_P_def Let_def)
      show ?thesis
      proof (cases "i < 0")
        case True
        then have "r = - 1 \<and> s' = s1\<lparr>bmsem := bmsem s1 + 1\<rparr>" using e b Some e1 False p0 e2 False2 f by (simp add: PTable_ExecUpdate_def sem_P_def Let_def)
        then show ?thesis using f True by blast
      next
        case ge: False
        have "bindE (PCB_new junk i q s1) (\<lambda>(p, t). bindE (PCB_SetFileName nm p) (\<lambda>p. bindE (PCB_Exec i q (p\<lparr>parentID := q\<rparr>)) (\<lambda>(pid, p).
            bindE (put_pcb i (Some p) t) (\<lambda>t. Inr (pid, t\<lparr>bmsem := bmsem t + 1\<rparr>))))) = Inr (r, s')"
          using e b Some e1 False p0 e2 False2 f ge by (simp add: PTable_ExecUpdate_def sem_P_def Let_def)
        then obtain p s2 p' p'' s3 where c: "PCB_new junk i q s1 = Inr (p, s2)" "PCB_SetFileName nm p = Inr p'"
          "PCB_Exec i q (p'\<lparr>parentID := q\<rparr>) = Inr (r, p'')" "put_pcb i (Some p'') s2 = Inr s3" "s' = s3\<lparr>bmsem := bmsem s3 + 1\<rparr>"
          by (auto simp add: bindE_eq_Inr)
        have "r = i" using c(3) by (auto simp add: PCB_Exec_def bindE_eq_Inr Let_def)
        then show ?thesis using c f ge by (metis linorder_not_less)
      qed
    qed
  qed
qed

lemma inv_exec:
  assumes inv: "procs_inv s" and e: "PTable_ExecUpdate junk q cn name s = Inr (r, s')"
  shows "procs_inv (if r < 0 then s' else set_pstate r (Some P_run) s') \<and> (\<forall>i. pstate s i \<noteq> None \<longrightarrow> pstate (if r < 0 then s' else set_pstate r (Some P_run) s') i = pstate s i)"
proof -
  have b: "bmsem s = 1" "Bitmap_inv (pt_bm s)" "numBits (pt_bm s) = 10" "length (pcb s) = 10" using inv by (simp_all add: procs_inv_def)
  have full: "s1 = s\<lparr>bmsem := 0\<rparr>" if "PTable_GetFreeSlot (s\<lparr>bmsem := 0\<rparr>) = Inr (i, s1)" "i < 0" for i s1
  proof (cases "Bitmap_used (pt_bm s) = {0..<10}")
    case True
    then show ?thesis using that bm.find_full [OF b(2)] b(3) by (auto simp add: PTable_GetFreeSlot_def)
  next
    case False
    then show ?thesis using that find_free_slot [OF b(2)] b(3) by (auto simp add: PTable_GetFreeSlot_def)
  qed
  from ExecUpdate_cases [OF e b(1)] show ?thesis
  proof (elim disjE exE conjE)
    assume "r = - 1" "s' = s\<lparr>bmsem := 1\<rparr>"
    then show ?thesis using inv by (simp add: procs_inv_def)
  next
    fix i s1
    assume "PTable_GetFreeSlot (s\<lparr>bmsem := 0\<rparr>) = Inr (i, s1)" "i < 0" "r = - 1" "s' = s1\<lparr>bmsem := bmsem s1 + 1\<rparr>"
    then show ?thesis using full [of i s1] inv by (simp add: procs_inv_def)
  next
    fix s1 p s2 nm p' p'' s3
    assume a: "PTable_GetFreeSlot (s\<lparr>bmsem := 0\<rparr>) = Inr (r, s1)" "0 \<le> r" "PCB_new junk r q s1 = Inr (p, s2)" "PCB_SetFileName nm p = Inr p'"
        "PCB_Exec r q (p'\<lparr>parentID := q\<rparr>) = Inr (r, p'')" "put_pcb r (Some p'') s2 = Inr s3" "s' = s3\<lparr>bmsem := bmsem s3 + 1\<rparr>"
    obtain bm' where bm': "s1 = s\<lparr>bmsem := 0, pt_bm := bm'\<rparr>" "Bitmap_FindAndSet (pt_bm s) = Inr (r, bm')" using a(1) by (auto simp add: PTable_GetFreeSlot_def bindE_eq_Inr)
    have nf: "Bitmap_used (pt_bm s) \<noteq> {0..<10}" using bm'(2) a(2) bm.find_full [OF b(2)] b(3) by auto
    have r: "r < 10" "r \<notin> Bitmap_used (pt_bm s)" "Bitmap_inv bm'" "numBits bm' = 10" "Bitmap_used bm' = insert r (Bitmap_used (pt_bm s))"
      using find_free_slot [OF b(2)] nf b(3) bm'(2) by auto
    have s2: "same_table s1 s2" "joinsem p = 0" "exitsem p = 0" "multex p = 1" using same_PCB_new [OF a(3)] by auto
    have p'': "joinsem p'' = 0 \<and> exitsem p'' = 0 \<and> multex p'' = 1"
      using a(4,5) s2 by (auto simp add: PCB_SetFileName_def PCB_Exec_def sem_P_def bindE_eq_Inr Let_def split: if_splits)
    define t where "t = set_pstate r (Some P_run) s'"
    have t: "pt_bm t = bm'" "bmsem t = 1" "pcb t = (pcb s)[nat r := Some p'']" "pstate t = (pstate s)(r \<mapsto> P_run)" "codes t = codes s"
      using a(6,7) s2(1) b(4) by (auto simp add: t_def set_pstate_def put_pcb_eq same_table_def bm'(1))
    have nth: "pcb t ! j = (if int j = r then Some p'' else pcb s ! j)" if "j < 10" for j using that a(2) r(1) b(4) by (auto simp add: t nth_list_update)
    have "procs_inv t" unfolding procs_inv_def
    proof (intro conjI allI impI)
      fix j
      show "pstate t j \<noteq> None \<longleftrightarrow> j \<in> Bitmap_used (pt_bm t)" using inv by (auto simp add: t r(5) procs_inv_def)
    next
      fix j :: nat
      assume j: "j < 10"
      show "pcb t ! j \<noteq> None \<longleftrightarrow> int j \<in> Bitmap_used (pt_bm t)" using inv nth [OF j] j by (auto simp add: procs_inv_def t(1) r(5))
      fix x
      assume "pcb t ! j = Some x"
      then show "pcb_ok (pstate t (int j)) (codes t (int j)) x"
        using inv nth [OF j] j p'' unfolding procs_inv_def by (cases "int j = r") (auto simp add: t pcb_ok_def)
    qed (simp_all add: t r b)
    moreover have "pstate t i = pstate s i" if "pstate s i \<noteq> None" for i
      using that inv r(2) unfolding procs_inv_def by (cases "i = r") (auto simp add: t(4))
    ultimately show ?thesis using a(2) by (simp add: t_def)
  qed
qed

lemma inv_join_now:
  assumes inv: "procs_inv s" and run: "pstate s q = Some P_run" and j: "PTable_JoinUpdate q pid s = Inr (r, s')"
  shows "procs_inv s'" "pstate s' = pstate s" "codes s' = codes s" "r = None \<Longrightarrow> pstate s q \<noteq> Some P_exit"
proof -
  have *: "s' = s \<or> (\<exists>p pp pp'. get_pcb pid s = Inr p \<and> parentID p = q \<and> get_pcb q s = Inr pp \<and> PCB_IncNumWait pp = Inr pp' \<and> put_pcb q (Some pp') s = Inr s')"
    using j by (auto simp add: PTable_JoinUpdate_def bindE_eq_Inr split: if_splits)
  then show "procs_inv s'"
  proof (elim disjE exE conjE)
    fix p pp pp'
    assume a: "get_pcb q s = Inr pp" "PCB_IncNumWait pp = Inr pp'" "put_pcb q (Some pp') s = Inr s'"
    have "same_sems pp pp'" using a(2) inv_pcb [OF inv a(1)]
      by (auto simp add: PCB_IncNumWait_def sem_P_def bindE_eq_Inr Let_def same_sems_def pcb_ok_def split: if_splits)
    then show ?thesis using inv_file [OF inv a(1) same_refl _ a(3)] by blast
  qed (use inv in simp)
  from * show "pstate s' = pstate s" "codes s' = codes s" by (auto simp add: put_pcb_eq)
qed (use run in simp)

lemma set_pstate_inv:
  assumes inv: "procs_inv s" and q: "pstate s q \<noteq> None" "pstate s q \<noteq> Some P_exit" and v: "v \<noteq> Some P_exit" "v \<noteq> None"
  shows "procs_inv (set_pstate q v s)"
proof -
  have "pcb_ok (pstate (set_pstate q v s) i) c p = pcb_ok (pstate s i) c p" for i c p using q v by (auto simp add: set_pstate_def pcb_ok_def)
  then show ?thesis using inv q v unfolding procs_inv_def by (auto simp add: set_pstate_def)
qed

text \<open>The parent gets the exit code of the child, and lets it go.\<close>

lemma join_end:
  assumes inv: "procs_inv s" and j: "PTable_JoinUpdate_rest pid s = Inr (ec, s')"
  shows "procs_inv s'" "pstate s' = pstate s" "pstate s pid = Some P_exit" "ec = codes s pid"
proof -
  obtain p p1 where p: "get_pcb pid s = Inr p" "PCB_JoinWait p = Inr p1" "ec = exitcode p1" "put_pcb pid (Some (PCB_ExitRelease p1)) s = Inr s'"
    using j by (auto simp add: PTable_JoinUpdate_rest_def bindE_eq_Inr Let_def)
  have ok: "pcb_ok (pstate s pid) (codes s pid) p" by (rule inv_pcb [OF inv p(1)])
  have p1: "joinsem p \<noteq> 0" "p1 = p\<lparr>joinsem := joinsem p - 1\<rparr>" using p(2) by (auto simp add: PCB_JoinWait_def sem_P_def bindE_eq_Inr split: if_splits)
  show e: "pstate s pid = Some P_exit" using ok p1(1) by (auto simp add: pcb_ok_def split: if_splits)
  then show "ec = codes s pid" using ok p(3) p1(2) by (simp add: pcb_ok_def)
  show "pstate s' = pstate s" using p(4) by (auto simp add: put_pcb_eq)
  show "procs_inv s'" using p(4) ok e p1 by (intro inv_set_pcb [OF inv p(1)]) (auto simp add: put_pcb_eq pcb_ok_def PCB_ExitRelease_def)
qed

lemma inv_exit:
  assumes inv: "procs_inv s" and run: "pstate s q = Some P_run" and x: "PTable_ExitUpdate q code s = Inr s'"
  shows "procs_inv ((set_pstate q (Some P_exit) s')\<lparr>codes := (codes s)(q := code)\<rparr>)" "pstate s' = pstate s"
proof -
  obtain p s1 pp pp' s2 p2 where a: "get_pcb q s = Inr p" "put_pcb q (Some (p\<lparr>exitcode := code\<rparr>)) s = Inr s1" "get_pcb (parentID p) s1 = Inr pp"
      "PCB_DecNumWait pp = Inr pp'" "put_pcb (parentID p) (Some pp') s1 = Inr s2" "get_pcb q s2 = Inr p2" "put_pcb q (Some (PCB_JoinRelease p2)) s2 = Inr s'"
    using x by (auto simp add: PTable_ExitUpdate_def bindE_eq_Inr split: if_splits)
  have ok: "pcb_ok (Some P_run) (codes s q) p" using inv_pcb [OF inv a(1)] run by simp
  have s1: "pstate s1 = pstate s" "codes s1 = codes s" using a(2) by (auto simp add: put_pcb_eq)
  have "procs_inv s1" using a(2) ok run by (intro inv_set_pcb [OF inv a(1)]) (auto simp add: put_pcb_eq pcb_ok_def)
  note i1 = this
  have d: "same_sems pp pp'" using a(4) inv_pcb [OF i1 a(3)]
    by (auto simp add: PCB_DecNumWait_def sem_P_def bindE_eq_Inr Let_def same_sems_def pcb_ok_def split: if_splits)
  have i2: "procs_inv s2" by (rule inv_file [OF i1 a(3) same_refl d a(5)])
  have s2: "pstate s2 = pstate s" "codes s2 = codes s" using a(5) s1 by (auto simp add: put_pcb_eq)
  have ok2: "pcb_ok (Some P_run) (codes s q) p2" using inv_pcb [OF i2 a(6)] s2 run by simp
  have len: "length (pcb s) = 10" using inv by (simp add: procs_inv_def)
  have q: "0 \<le> q" "q < 10" using a(1) len by (auto simp add: get_pcb_eq)
  have "exitcode p2 = code"
  proof (cases "nat (parentID p) = nat q")
    case True
    then have "pp = p\<lparr>exitcode := code\<rparr>" "p2 = pp'" using a(2,3,5,6) q len by (auto simp add: put_pcb_eq get_pcb_eq)
    then show ?thesis using d by (simp add: same_sems_def)
  next
    case False
    then show ?thesis using a(2,5,6) q len by (auto simp add: put_pcb_eq get_pcb_eq)
  qed
  then show "procs_inv ((set_pstate q (Some P_exit) s')\<lparr>codes := (codes s)(q := code)\<rparr>)" using a(7) ok2 s2
    by (intro inv_set_pcb [OF i2 a(6), where p = "PCB_JoinRelease p2"]) (auto simp add: put_pcb_eq pcb_ok_def PCB_JoinRelease_def set_pstate_def)
  show "pstate s' = pstate s" using a(7) s2(1) by (auto simp add: put_pcb_eq)
qed

lemma inv_lose: "procs_inv s \<Longrightarrow> procs_inv (lose_sleepers q s)"
proof -
  have "pcb_ok (pstate (lose_sleepers q s) i) c p = pcb_ok (pstate s i) c p" "pstate (lose_sleepers q s) i = None \<longleftrightarrow> pstate s i = None" for i c p
    by (auto simp add: lose_sleepers_def pcb_ok_def)
  moreover have "pt_bm (lose_sleepers q s) = pt_bm s" "pcb (lose_sleepers q s) = pcb s" "bmsem (lose_sleepers q s) = bmsem s" "codes (lose_sleepers q s) = codes s"
    by (simp_all add: lose_sleepers_def)
  ultimately show "procs_inv s \<Longrightarrow> procs_inv (lose_sleepers q s)" by (simp add: procs_inv_def)
qed

lemma inv_exit_end:
  assumes inv: "procs_inv s" and x: "PTable_ExitUpdate_rest q s = Inr s'"
  shows "procs_inv (lose_sleepers q (set_pstate q None s'))" "pstate s' = pstate s"
proof -
  obtain p p1 s1 b where a: "get_pcb q s = Inr p" "put_pcb q (Some p1) s = Inr s1" "Bitmap_Clear (pt_bm s1) q = Inr b" "put_pcb q None (s1\<lparr>pt_bm := b\<rparr>) = Inr s'"
    using x by (auto simp add: PTable_ExitUpdate_rest_def PTable_Remove_def bindE_eq_Inr)
  have b: "Bitmap_inv (pt_bm s)" "numBits (pt_bm s) = 10" "length (pcb s) = 10" "bmsem s = 1" using inv by (simp_all add: procs_inv_def)
  have q: "0 \<le> q" "q < 10" using a(1) b(3) by (auto simp add: get_pcb_eq)
  have "pt_bm s1 = pt_bm s" using a(2) by (auto simp add: put_pcb_eq)
  then have b': "Bitmap_inv b" "numBits b = 10" "Bitmap_used b = Bitmap_used (pt_bm s) - {q}" using a(3) Bitmap_Clear_in [OF b(1), of q] b(2) q by auto
  define t where "t = set_pstate q None s'"
  have t: "pt_bm t = b" "bmsem t = 1" "pcb t = (pcb s)[nat q := None]" "pstate t = (pstate s)(q := None)" "codes t = codes s"
    using a(2,4) b(4) by (auto simp add: t_def set_pstate_def put_pcb_eq)
  have nth: "pcb t ! j = (if int j = q then None else pcb s ! j)" if "j < 10" for j using that q b(3) by (auto simp add: t nth_list_update)
  have "procs_inv t" unfolding procs_inv_def
  proof (intro conjI allI impI)
    fix j
    show "pstate t j \<noteq> None \<longleftrightarrow> j \<in> Bitmap_used (pt_bm t)" using inv by (auto simp add: t b'(3) procs_inv_def)
  next
    fix j :: nat
    assume j: "j < 10"
    show "pcb t ! j \<noteq> None \<longleftrightarrow> int j \<in> Bitmap_used (pt_bm t)" using inv nth [OF j] j by (auto simp add: procs_inv_def t(1) b'(3))
    fix y
    assume "pcb t ! j = Some y"
    then show "pcb_ok (pstate t (int j)) (codes t (int j)) y"
      using inv nth [OF j] j unfolding procs_inv_def by (cases "int j = q") (auto simp add: t)
  qed (simp_all add: t b b')
  then show "procs_inv (lose_sleepers q (set_pstate q None s'))" by (simp add: t_def inv_lose)
  show "pstate s' = pstate s" using a(2,4) by (auto simp add: put_pcb_eq)
qed

lemma proc_step_inv: "proc_step s e s' \<Longrightarrow> procs_inv s \<Longrightarrow> procs_inv s'"
proof (induction rule: proc_step.induct)
  case (ps_exec s q junk cn name r s')
  then show ?case using inv_exec by blast
next
  case (ps_join_now s q pid r s')
  then show ?case using inv_join_now(1) by blast
next
  case (ps_join_wait s q pid s')
  then show ?case using inv_join_now [OF ps_join_wait(3,1,2)] set_pstate_inv [of s' q "Some (P_join pid)"] by simp
next
  case (ps_join_end s q pid ec s')
  then show ?case using join_end [OF ps_join_end(3,2)] set_pstate_inv [of s' q "Some P_run"] by simp
next
  case (ps_join_sleep s q pid)
  then show ?case by (intro set_pstate_inv) simp_all
next
  case (ps_join_woken s q pid ec s')
  then show ?case using join_end [OF ps_join_woken(3,2)] set_pstate_inv [of s' q "Some P_run"] by simp
next
  case (ps_exit s q code s')
  then show ?case using inv_exit(1) by blast
next
  case (ps_exit_end s q s')
  then show ?case using inv_exit_end(1) by blast
qed (auto simp add: PTable_Open_def PTable_Close_def PTable_Read_def PTable_Write_def PTable_Seek_def bindE_eq_Inr
     dest!: same_PCB same_PCB_Read same_PCB_Write intro: inv_file)

lemma procs_reach_inv: "procs_reach s0 s \<Longrightarrow> procs_inv s0 \<Longrightarrow> procs_inv s"
  by (induction rule: procs_reach.induct) (auto intro: proc_step_inv)

text \<open>A process that sleeps in a deleted semaphore stays there.\<close>

lemma lost_step: "proc_step s e s' \<Longrightarrow> procs_inv s \<Longrightarrow> pstate s i = Some P_lost \<Longrightarrow> pstate s' i = Some P_lost"
proof (induction rule: proc_step.induct)
  case (ps_exec s q junk cn name r s')
  then show ?case using inv_exec [OF ps_exec(3,2)] by simp
next
  case (ps_join_now s q pid r s')
  then show ?case using inv_join_now(2) by metis
next
  case (ps_join_wait s q pid s')
  then show ?case using inv_join_now(2) [OF ps_join_wait(3,1,2)] by (auto simp add: set_pstate_def)
next
  case (ps_join_end s q pid ec s')
  then show ?case using join_end(2) [OF ps_join_end(3,2)] by (auto simp add: set_pstate_def)
next
  case (ps_join_woken s q pid ec s')
  then show ?case using join_end(2) [OF ps_join_woken(3,2)] by (auto simp add: set_pstate_def)
next
  case (ps_exit s q code s')
  then show ?case using inv_exit(2) [OF ps_exit(3,1,2)] by (auto simp add: set_pstate_def)
next
  case (ps_exit_end s q s')
  then show ?case using inv_exit_end(2) [OF ps_exit_end(3,2)] by (auto simp add: set_pstate_def lose_sleepers_def)
qed (auto simp add: PTable_Open_def PTable_Close_def PTable_Read_def PTable_Write_def PTable_Seek_def bindE_eq_Inr set_pstate_def put_pcb_eq same_table_def
     dest!: same_PCB same_PCB_Read same_PCB_Write)

lemma lost_forever: "procs_reach s s' \<Longrightarrow> procs_inv s \<Longrightarrow> pstate s i = Some P_lost \<Longrightarrow> pstate s' i = Some P_lost"
proof (induction rule: procs_reach.induct)
  case (pr_step t e t')
  then show ?case using lost_step procs_reach_inv by blast
qed

lemma procs_start_inv:
  assumes "procs_start garbage junk name h = Inr s0"
  shows "procs_inv s0"
proof -
  let ?x = "\<lparr>pstate = [0 \<mapsto> P_run], codes = (\<lambda>_. 0)\<rparr>"
  obtain t0 where t0: "PTable_new garbage MAX_PROCESS h = Inr t0" "PTable_initStartProcess junk name (ptable.extend t0 ?x) = Inr s0"
    using assms by (auto simp add: procs_start_def bindE_eq_Inr)
  define t where "t = ptable.extend t0 ?x"
  obtain b where b: "Bitmap_new garbage 10 = Inr b"
    and tf: "pt_bm t = b" "pcb t = replicate 10 None" "bmsem t = 1" "pstate t = [0 \<mapsto> P_run]" "codes t = (\<lambda>_. 0)"
    using t0(1) by (auto simp add: PTable_new_def MAX_PROCESS_def bindE_eq_Inr host.defs t_def ptable.defs)
  have b': "Bitmap_inv b" "numBits b = 10" "Bitmap_used b = {}" using b Bitmap_new_ok [of 10 garbage] by auto
  obtain b0 p t1 p1 where a: "Bitmap_Mark b 0 = Inr b0" "PCB_new junk 0 0 (t\<lparr>pt_bm := b0\<rparr>) = Inr (p, t1)" "PCB_SetFileName name p = Inr p1"
      "put_pcb 0 (Some (p1\<lparr>parentID := - 1\<rparr>)) t1 = Inr s0"
    using t0(2) tf(1) by (auto simp add: PTable_initStartProcess_def bindE_eq_Inr t_def)
  have b0: "Bitmap_inv b0" "numBits b0 = 10" "Bitmap_used b0 = {0}" using Bitmap_Mark_in [OF b'(1), of 0] b' a(1) by auto
  have n: "same_table (t\<lparr>pt_bm := b0\<rparr>) t1" "pcb_ok (Some P_run) 0 p" using same_PCB_new [OF a(2)] by (simp_all add: pcb_ok_def)
  have ok: "pcb_ok (Some P_run) 0 (p1\<lparr>parentID := - 1\<rparr>)" using n(2) a(3) by (auto simp add: PCB_SetFileName_def bindE_eq_Inr pcb_ok_def)
  have s0: "pt_bm s0 = b0" "bmsem s0 = 1" "pcb s0 = (replicate 10 None)[0 := Some (p1\<lparr>parentID := - 1\<rparr>)]" "pstate s0 = [0 \<mapsto> P_run]" "codes s0 = (\<lambda>_. 0)"
    using a(4) n(1) tf by (auto simp add: put_pcb_eq same_table_def)
  have nth: "pcb s0 ! i = (if i = 0 then Some (p1\<lparr>parentID := - 1\<rparr>) else None)" if "i < 10" for i using that by (auto simp add: s0(3) nth_list_update)
  show ?thesis unfolding procs_inv_def
  proof (intro conjI allI impI)
    fix i :: nat and q
    assume i: "i < 10"
    show "pcb s0 ! i \<noteq> None \<longleftrightarrow> int i \<in> Bitmap_used (pt_bm s0)" using nth [OF i] by (simp add: s0(1) b0)
    assume "pcb s0 ! i = Some q"
    then show "pcb_ok (pstate s0 (int i)) (codes s0 (int i)) q" using nth [OF i] ok by (auto simp add: s0(4,5) split: if_splits)
  qed (auto simp add: s0(1,2,3,4) b0)
qed

lemmas reach_inv = procs_reach_inv [OF _ procs_start_inv]

inductive_cases joined_E: "proc_step s (Ev_joined q pid ec) s'"

section \<open>Properties\<close>

text \<open>
  C7.  The process table agrees with itself in every state that the processes reach by \<open>Exec\<close>, \<open>Join\<close>, \<open>Exit\<close> and the file calls:
  a process exists, by its bit, exactly when it has been started and is not removed, and exactly then its slot has a control
  block.  The semaphore of the table is free between calls.
\<close>

theorem process_table_invariant:
  assumes "procs_start garbage junk name h = Inr s0" "procs_reach s0 s" "0 \<le> pid" "pid < MAX_PROCESS"
  shows "PTable_IsExist pid s = Inr (pstate s pid \<noteq> None) \<and> ((\<exists>p. get_pcb pid s = Inr p) \<longleftrightarrow> pstate s pid \<noteq> None) \<and> bmsem s = 1"
proof -
  have inv: "procs_inv s" by (rule reach_inv [OF assms(2,1)])
  then have b: "Bitmap_inv (pt_bm s)" "numBits (pt_bm s) = 10" "length (pcb s) = 10" "bmsem s = 1" by (simp_all add: procs_inv_def)
  have p: "pid < 10" using assms(4) by (simp add: MAX_PROCESS_def)
  have used: "pstate s pid \<noteq> None \<longleftrightarrow> pid \<in> Bitmap_used (pt_bm s)" using inv by (simp add: procs_inv_def)
  have "pcb s ! nat pid \<noteq> None \<longleftrightarrow> pid \<in> Bitmap_used (pt_bm s)" using inv p assms(3) unfolding procs_inv_def by (metis nat_0_le nat_less_iff of_nat_numeral)
  then have "(\<exists>p. get_pcb pid s = Inr p) \<longleftrightarrow> pid \<in> Bitmap_used (pt_bm s)" using assms(3) p b(3) by (auto simp add: get_pcb_eq)
  moreover have "PTable_IsExist pid s = Inr (pid \<in> Bitmap_used (pt_bm s))"
    using Bitmap_Test_in [OF b(1), of pid] assms(3) p b(2) by (simp add: PTable_IsExist_def)
  ultimately show ?thesis using used b(4) by simp
qed

text \<open>
  C6.  \<open>Join\<close> returns the exit code of the child: when, in any interleaving of the processes, a process comes out of
  \<open>Join\<close> of process \<open>pid\<close>, that process has called \<open>Exit\<close> and is still in the table, and the value returned is the argument of its \<open>Exit\<close>.
\<close>

theorem join_returns_exit_code:
  assumes "procs_start garbage junk name h = Inr s0" "procs_reach s0 s" "proc_step s (Ev_joined q pid ec) s'"
  shows "pstate s pid = Some P_exit \<and> ec = codes s pid \<and> pstate s' pid \<noteq> None"
proof -
  have inv: "procs_inv s" by (rule reach_inv [OF assms(2,1)])
  from assms(3) obtain t where t: "pstate s q = Some (P_join pid) \<or> pstate s q = Some (P_sleep pid)" "PTable_JoinUpdate_rest pid s = Inr (ec, t)" "s' = set_pstate q (Some P_run) t"
    by (auto elim: joined_E)
  note j = join_end [OF inv t(2)]
  show ?thesis using j(2,3,4) t by (auto simp add: set_pstate_def)
qed

text \<open>The two sides of an exit in one state.\<close>

lemma exit_meets_join:
  assumes inv: "procs_inv s" and ex: "pstate s pid = Some P_exit"
  shows "(\<exists>s'. PTable_JoinUpdate_rest pid s = Inr (codes s pid, s') \<and> PTable_ExitUpdate_rest pid s = Inl Diverges \<and> (\<exists>s''. PTable_ExitUpdate_rest pid s' = Inr s''))
    \<or> (\<exists>s'. PTable_ExitUpdate_rest pid s = Inr s' \<and> PTable_JoinUpdate_rest pid s = Inl Diverges \<and> PTable_IsExist pid s' = Inr False)"
proof -
  have b: "Bitmap_inv (pt_bm s)" "numBits (pt_bm s) = 10" "length (pcb s) = 10" using inv by (simp_all add: procs_inv_def)
  have used: "pid \<in> Bitmap_used (pt_bm s)" using inv ex unfolding procs_inv_def by blast
  then have r: "0 \<le> pid" "pid < 10" using bm.used_range [OF b(1)] b(2) by auto
  then have "pcb s ! nat pid \<noteq> None" using inv used unfolding procs_inv_def by (metis nat_0_le nat_less_iff of_nat_numeral)
  then obtain p where p: "pcb s ! nat pid = Some p" by blast
  then have g: "get_pcb pid s = Inr p" using r b(3) by (simp add: get_pcb_eq)
  have ok: "0 \<le> joinsem p" "0 \<le> exitsem p" "joinsem p + exitsem p = 1" "exitcode p = codes s pid"
    using inv_pcb [OF inv g] ex by (simp_all add: pcb_ok_def)
  obtain b' where b': "Bitmap_Clear (pt_bm s) pid = Inr b'" "Bitmap_inv b'" "numBits b' = 10" "Bitmap_used b' = Bitmap_used (pt_bm s) - {pid}"
    using Bitmap_Clear_in [OF b(1), of pid] r b(2) by auto
  have put: "put_pcb pid v t = Inr (t\<lparr>pcb := (pcb t)[nat pid := v]\<rparr>)" if "length (pcb t) = 10" for v and t :: procs
    using that r by (simp add: put_pcb_eq)
  have get: "get_pcb pid (s\<lparr>pcb := (pcb s)[nat pid := Some x]\<rparr>) = Inr x" for x using r b(3) by (simp add: get_pcb_eq)
  show ?thesis
  proof (cases "joinsem p = 0")
    case False
    then have v: "joinsem p = 1" "exitsem p = 0" using ok by auto
    then show ?thesis using g b ok b' 
      by (intro disjI1) (simp add: PTable_JoinUpdate_rest_def PTable_ExitUpdate_rest_def PCB_JoinWait_def PCB_ExitWait_def PCB_ExitRelease_def
          PTable_Remove_def sem_P_def put get)
  next
    case True
    then have v: "joinsem p = 0" "exitsem p = 1" using ok by auto
    then show ?thesis using g b ok b' Bitmap_Test_in [OF b'(2), of pid] r
      by (intro disjI2) (simp add: PTable_JoinUpdate_rest_def PTable_ExitUpdate_rest_def PCB_JoinWait_def PCB_ExitWait_def
          PTable_Remove_def PTable_IsExist_def sem_P_def put get)
  qed
qed

text \<open>
  C29.  \<open>Exit\<close> and \<open>Join\<close> meet: once a process has called \<open>Exit\<close>, in every reachable state exactly one of the two sides can go on.  Either no parent has
  taken its exit code yet, and then a parent that joins it returns at once while the process is blocked in \<open>ExitWait\<close>, and the return of the parent lets it go; or its
  exit code has been taken, and then a \<open>Join\<close> of it is blocked, and the process can be removed from the table, which clears its bit.  A process that is asleep in a further \<open>Join\<close>
  of it at that moment sleeps on in every state that is reached afterwards, because its semaphore is deleted.
\<close>

theorem exited_process_progress:
  assumes "procs_start garbage junk name h = Inr s0" "procs_reach s0 s" "pstate s pid = Some P_exit"
  shows "(\<exists>s'. PTable_JoinUpdate_rest pid s = Inr (codes s pid, s') \<and> PTable_ExitUpdate_rest pid s = Inl Diverges
            \<and> (\<exists>s''. PTable_ExitUpdate_rest pid s' = Inr s''))
    \<or> (\<exists>s'. PTable_ExitUpdate_rest pid s = Inr s' \<and> PTable_JoinUpdate_rest pid s = Inl Diverges \<and> PTable_IsExist pid s' = Inr False
          \<and> proc_step s Ev_other (lose_sleepers pid (set_pstate pid None s'))
          \<and> (\<forall>q u. pstate s q = Some (P_sleep pid) \<longrightarrow> procs_reach (lose_sleepers pid (set_pstate pid None s')) u \<longrightarrow> pstate u q = Some P_lost))"
proof -
  have inv: "procs_inv s" by (rule reach_inv [OF assms(2,1)])
  have "(\<exists>s'. PTable_JoinUpdate_rest pid s = Inr (codes s pid, s') \<and> PTable_ExitUpdate_rest pid s = Inl Diverges \<and> (\<exists>s''. PTable_ExitUpdate_rest pid s' = Inr s''))
    \<or> (\<exists>s'. PTable_ExitUpdate_rest pid s = Inr s' \<and> PTable_JoinUpdate_rest pid s = Inl Diverges \<and> PTable_IsExist pid s' = Inr False)"
    by (rule exit_meets_join [OF inv assms(3)])
  then show ?thesis
  proof (elim disjE exE conjE)
    fix s'
    assume x: "PTable_ExitUpdate_rest pid s = Inr s'" "PTable_JoinUpdate_rest pid s = Inl Diverges" "PTable_IsExist pid s' = Inr False"
    let ?t = "lose_sleepers pid (set_pstate pid None s')"
    have "pstate u q = Some P_lost" if a: "pstate s q = Some (P_sleep pid)" "procs_reach ?t u" for q u
    proof (rule lost_forever [OF a(2)])
      show "procs_inv ?t" by (rule inv_exit_end(1) [OF inv x(1)])
      show "pstate ?t q = Some P_lost" using a(1) assms(3) inv_exit_end(2) [OF inv x(1)] by (auto simp add: lose_sleepers_def set_pstate_def)
    qed
    then show ?thesis using x ps_exit_end [OF assms(3) x(1)] by blast
  qed blast
qed

text \<open>A run: the main process \<^verbatim>\<open>a\<close> starts \<^verbatim>\<open>b\<close>, which calls \<open>Exit(7)\<close>; then the main process joins it.\<close>

definition run0 :: procs where "run0 = projr (procs_start [] 0 [97, 0] demo_host)"
definition run1 :: procs where "run1 = set_pstate 1 (Some P_run) (snd (projr (PTable_ExecUpdate 0 0 [97, 0] (Some [98, 0]) run0)))"
definition run2 :: procs where "run2 = (set_pstate 1 (Some P_exit) (projr (PTable_ExitUpdate 1 7 run1)))\<lparr>codes := (codes run1)(1 := 7)\<rparr>"
definition run3 :: procs where "run3 = set_pstate 0 (Some (P_join 1)) (snd (projr (PTable_JoinUpdate 0 1 run2)))"

lemma Inr_projr: "map_sum id (\<lambda>_. ()) x = Inr () \<Longrightarrow> x = Inr (projr x)"
  by (cases x) auto

lemma Inr_snd: "map_sum id fst x = Inr r \<Longrightarrow> x = Inr (r, snd (projr x))"
  by (cases x) auto

lemma run_start: "procs_start [] 0 [97, 0] demo_host = Inr run0"
  unfolding run0_def by (rule Inr_projr) code_simp

lemma run_states: "pstate run1 0 = Some P_run" "pstate run1 1 = Some P_run" "pstate run2 0 = Some P_run" "pstate run2 1 = Some P_exit" "pstate run3 0 = Some (P_join 1)" "pstate run3 1 = Some P_exit"
  by code_simp+

lemma run_reach1: "procs_reach run0 run1"
proof -
  have e: "PTable_ExecUpdate 0 0 [97, 0] (Some [98, 0]) run0 = Inr (1, snd (projr (PTable_ExecUpdate 0 0 [97, 0] (Some [98, 0]) run0)))"
    by (rule Inr_snd) code_simp
  have "pstate run0 0 = Some P_run" by code_simp
  from pr_step [OF pr_start ps_exec [OF this e]] show ?thesis by (simp add: run1_def)
qed

lemma run_reach2: "procs_reach run0 run2"
proof -
  have e: "PTable_ExitUpdate 1 7 run1 = Inr (projr (PTable_ExitUpdate 1 7 run1))" by (rule Inr_projr) code_simp
  from pr_step [OF run_reach1 ps_exit [OF run_states(2) e]] show ?thesis by (simp add: run2_def)
qed

lemma run_reach3: "procs_reach run0 run3"
proof -
  have e: "PTable_JoinUpdate 0 1 run2 = Inr (None, snd (projr (PTable_JoinUpdate 0 1 run2)))" by (rule Inr_snd) code_simp
  from pr_step [OF run_reach2 ps_join_wait [OF run_states(3) e]] show ?thesis by (simp add: run3_def)
qed

theorem process_table_invariant_witness:
  "procs_start [] 0 [97, 0] demo_host = Inr run0 \<and> procs_reach run0 run1 \<and> PTable_IsExist 1 run1 = Inr True \<and> PTable_IsExist 2 run1 = Inr False"
proof -
  have "pstate run1 2 = None" by code_simp
  then show ?thesis
    using process_table_invariant [OF run_start run_reach1, of 1] process_table_invariant [OF run_start run_reach1, of 2] run_start run_reach1 run_states(2)
    by (simp add: MAX_PROCESS_def)
qed

theorem join_returns_exit_code_witness:
  "\<exists>s'. procs_reach run0 run3 \<and> proc_step run3 (Ev_joined 0 1 7) s' \<and> pstate run3 1 = Some P_exit \<and> codes run3 1 = 7 \<and> pstate s' 1 \<noteq> None"
proof -
  have e: "PTable_JoinUpdate_rest 1 run3 = Inr (7, snd (projr (PTable_JoinUpdate_rest 1 run3)))" by (rule Inr_snd) code_simp
  note s = ps_join_end [OF run_states(5) e]
  from join_returns_exit_code [OF run_start run_reach3 s] show ?thesis using s run_reach3 by metis
qed

text \<open>The main process joins a second time before the child is removed, and is lost.\<close>

definition run4 :: procs where "run4 = set_pstate 0 (Some P_run) (snd (projr (PTable_JoinUpdate_rest 1 run3)))"
definition run5 :: procs where "run5 = set_pstate 0 (Some (P_join 1)) (snd (projr (PTable_JoinUpdate 0 1 run4)))"
definition run6 :: procs where "run6 = set_pstate 0 (Some (P_sleep 1)) run5"

lemma run_states_lost: "pstate run4 0 = Some P_run" "pstate run5 0 = Some (P_join 1)" "pstate run6 0 = Some (P_sleep 1)" "pstate run6 1 = Some P_exit"
  by code_simp+

lemma run_reach6: "procs_reach run0 run6"
proof -
  have j: "PTable_JoinUpdate_rest 1 run3 = Inr (7, snd (projr (PTable_JoinUpdate_rest 1 run3)))" by (rule Inr_snd) code_simp
  from pr_step [OF run_reach3 ps_join_end [OF run_states(5) j]] have r4: "procs_reach run0 run4" by (simp add: run4_def)
  have "PTable_JoinUpdate 0 1 run4 = Inr (None, snd (projr (PTable_JoinUpdate 0 1 run4)))" by (rule Inr_snd) code_simp
  from pr_step [OF r4 ps_join_wait [OF run_states_lost(1) this]] have r5: "procs_reach run0 run5" by (simp add: run5_def)
  have "map_sum id (\<lambda>_. ()) (PTable_JoinUpdate_rest 1 run5) = Inl Diverges" by code_simp
  then have "PTable_JoinUpdate_rest 1 run5 = Inl Diverges" by (cases "PTable_JoinUpdate_rest 1 run5") auto
  from pr_step [OF r5 ps_join_sleep [OF run_states_lost(2) this]] show ?thesis by (simp add: run6_def)
qed

theorem exited_process_progress_witness:
  "(\<exists>s' s''. procs_reach run0 run3 \<and> PTable_JoinUpdate_rest 1 run3 = Inr (7, s') \<and> PTable_ExitUpdate_rest 1 run3 = Inl Diverges
      \<and> PTable_ExitUpdate_rest 1 s' = Inr s'')
    \<and> (\<exists>s'. procs_reach run0 run6 \<and> proc_step run6 Ev_other s' \<and> pstate s' 0 = Some P_lost)"
proof
  have "codes run3 1 = 7" "PTable_ExitUpdate_rest 1 run3 \<noteq> Inr s" for s :: procs
  proof -
    show "codes run3 1 = 7" by code_simp
    have "isl (PTable_ExitUpdate_rest 1 run3)" by code_simp
    then show "PTable_ExitUpdate_rest 1 run3 \<noteq> Inr s" by auto
  qed
  then show "\<exists>s' s''. procs_reach run0 run3 \<and> PTable_JoinUpdate_rest 1 run3 = Inr (7, s') \<and> PTable_ExitUpdate_rest 1 run3 = Inl Diverges
      \<and> PTable_ExitUpdate_rest 1 s' = Inr s''"
    using exited_process_progress [OF run_start run_reach3 run_states(6)] run_reach3 by auto
  have "isl (PTable_JoinUpdate_rest 1 run6)" by code_simp
  then have "PTable_JoinUpdate_rest 1 run6 \<noteq> Inr x" for x by auto
  then show "\<exists>s'. procs_reach run0 run6 \<and> proc_step run6 Ev_other s' \<and> pstate s' 0 = Some P_lost"
    using exited_process_progress [OF run_start run_reach6 run_states_lost(4)] run_reach6 run_states_lost(3) pr_start by blast
qed

end
