(* ===== verification/Syscalls.thy ===== *)
theory Syscalls
  imports ProcTable
begin
text \<open>
  The entry into the kernel from user programs: \<open>ExceptionHandler\<close> of \<^verbatim>\<open>code/userprog/exception.cc\<close> with the codes of \<^verbatim>\<open>syscall.h\<close>, and the
  calls of \<^verbatim>\<open>ksyscall.h\<close> that it makes.

  The state \<open>sysk\<close> is the machine with the console, the files of the host and the process table (\<open>sk_tab\<close>), the
  semaphores of the user programs (\<open>sk_sem\<close>), and the number and the name of the current thread.  What the kernel does not determine is in \<open>env\<close>: the
  contents of memory that is not initialised, the time, and the first number of the generator of the C library for a seed.

  The handler returns the state in which the user program goes on.  A call that waits for another process or for input, and \<open>Exit\<close>, do
  not return (\<open>Diverges\<close>); what they do to the process table while other processes run is in \<open>proc_step\<close>.  Messages that the
  kernel prints on the host are left out.
\<close>

section \<open>Model\<close>

record env =
  env_junk :: "nat \<Rightarrow> 8 word"
  env_junk8 :: "8 word"
  env_junk32 :: "32 word"
  time0 :: "32 word"
  rand_after :: "32 word \<Rightarrow> 32 word"

record sysk = machine +
  sk_tab :: ptable
  sk_sem :: stable
  current_pid :: int
  current_name :: "8 word list"

definition MaxFileLength :: int where "MaxFileLength = 32"

definition SC_Halt :: "32 word" where "SC_Halt = 0"
definition SC_Exit :: "32 word" where "SC_Exit = 1"
definition SC_Exec :: "32 word" where "SC_Exec = 2"
definition SC_Join :: "32 word" where "SC_Join = 3"
definition SC_Create :: "32 word" where "SC_Create = 4"
definition SC_Remove :: "32 word" where "SC_Remove = 5"
definition SC_Open :: "32 word" where "SC_Open = 6"
definition SC_Read :: "32 word" where "SC_Read = 7"
definition SC_Write :: "32 word" where "SC_Write = 8"
definition SC_Seek :: "32 word" where "SC_Seek = 9"
definition SC_Close :: "32 word" where "SC_Close = 10"
definition SC_ThreadFork :: "32 word" where "SC_ThreadFork = 11"
definition SC_ThreadYield :: "32 word" where "SC_ThreadYield = 12"
definition SC_ExecV :: "32 word" where "SC_ExecV = 13"
definition SC_ThreadExit :: "32 word" where "SC_ThreadExit = 14"
definition SC_ThreadJoin :: "32 word" where "SC_ThreadJoin = 15"
definition SC_CreateSemaphore :: "32 word" where "SC_CreateSemaphore = 16"
definition SC_Wait :: "32 word" where "SC_Wait = 17"
definition SC_Signal :: "32 word" where "SC_Signal = 18"
definition SC_GetPID :: "32 word" where "SC_GetPID = 19"
definition SC_Add :: "32 word" where "SC_Add = 42"
definition SC_ReadNum :: "32 word" where "SC_ReadNum = 43"
definition SC_PrintNum :: "32 word" where "SC_PrintNum = 44"
definition SC_ReadChar :: "32 word" where "SC_ReadChar = 45"
definition SC_PrintChar :: "32 word" where "SC_PrintChar = 46"
definition SC_RandomNum :: "32 word" where "SC_RandomNum = 47"
definition SC_ReadString :: "32 word" where "SC_ReadString = 48"
definition SC_PrintString :: "32 word" where "SC_PrintString = 49"
definition SC_CreateFile :: "32 word" where "SC_CreateFile = 50"

lemmas SC_defs = SC_Halt_def SC_Exit_def SC_Exec_def SC_Join_def SC_Create_def SC_Remove_def SC_Open_def SC_Read_def SC_Write_def SC_Seek_def
  SC_Close_def SC_ThreadFork_def SC_ThreadYield_def SC_ExecV_def SC_ThreadExit_def SC_ThreadJoin_def SC_CreateSemaphore_def SC_Wait_def
  SC_Signal_def SC_GetPID_def SC_Add_def SC_ReadNum_def SC_PrintNum_def SC_ReadChar_def SC_PrintChar_def SC_RandomNum_def SC_ReadString_def
  SC_PrintString_def SC_CreateFile_def

subsection \<open>The calls of the kernel\<close>

definition SysHalt :: "'a res" where
  "SysHalt = Inl Halted"

definition SysRandomNumber :: "env \<Rightarrow> 32 word" where
  "SysRandomNumber v = rand_after v (time0 v)"

text \<open>\<open>SysCreateFile\<close> and \<open>SysExec\<close> write register 2 themselves; the result is the value they write.\<close>

definition SysCreateFile :: "8 word list \<Rightarrow> sysk \<Rightarrow> (int \<times> sysk) res" where
  "SysCreateFile filename m =
     bindE (strlen filename) (\<lambda>n.
     if n = 0 then Inr (- 1, m)
     else bindE (FileSystem_Create filename (sk_tab m)) (\<lambda>(ok, t).
       let m = m\<lparr>sk_tab := t\<rparr> in
       if \<not> ok then Inr (- 1, m) else Inr (0, m)))"

definition SysExec :: "env \<Rightarrow> 8 word list \<Rightarrow> sysk \<Rightarrow> (int \<times> sysk) res" where
  "SysExec v name m =
     bindE (FileSystem_Open (env_junk8 v) name 0 (sk_tab m)) (\<lambda>(oFile, t).
     case oFile of
       None \<Rightarrow> Inr (- 1, m\<lparr>sk_tab := t\<rparr>)
     | Some f \<Rightarrow>
         bindE (OpenFile_delete f t) (\<lambda>t.
         bindE (PTable_ExecUpdate (env_junk8 v) (current_pid m) (current_name m) (Some name) t) (\<lambda>(pid, t). Inr (pid, m\<lparr>sk_tab := t\<rparr>))))"

definition SysJoin :: "int \<Rightarrow> sysk \<Rightarrow> (32 word \<times> sysk) res" where
  "SysJoin pid m =
     bindE (PTable_JoinUpdate (current_pid m) pid (sk_tab m)) (\<lambda>(r, t).
     case r of
       Some x \<Rightarrow> Inr (word_of_int x, m\<lparr>sk_tab := t\<rparr>)
     | None \<Rightarrow> bindE (PTable_JoinUpdate_rest pid t) (\<lambda>(ec, t). Inr (ec, m\<lparr>sk_tab := t\<rparr>)))"

text \<open>\<open>Exit\<close> ends in \<open>Thread::Finish\<close>, in the destructor of the control block.\<close>

definition SysExit :: "32 word \<Rightarrow> sysk \<Rightarrow> sysk res" where
  "SysExit ec m =
     bindE (PTable_ExitUpdate (current_pid m) ec (sk_tab m)) (\<lambda>t.
     bindE (PTable_ExitUpdate_rest (current_pid m) t) (\<lambda>t. Inl Diverges))"

definition SysOpen :: "env \<Rightarrow> 8 word list \<Rightarrow> int \<Rightarrow> sysk \<Rightarrow> (int \<times> sysk) res" where
  "SysOpen v filename typ m =
     bindE (PTable_Open (env_junk8 v) (current_pid m) filename typ (sk_tab m)) (\<lambda>(r, t). Inr (r, m\<lparr>sk_tab := t\<rparr>))"

definition SysClose :: "int \<Rightarrow> sysk \<Rightarrow> (int \<times> sysk) res" where
  "SysClose fid m = bindE (PTable_Close (current_pid m) fid (sk_tab m)) (\<lambda>(r, t). Inr (r, m\<lparr>sk_tab := t\<rparr>))"

definition SysRead :: "8 word list \<Rightarrow> int \<Rightarrow> int \<Rightarrow> sysk \<Rightarrow> (int \<times> 8 word list \<times> sysk) res" where
  "SysRead buffer sz fid m = bindE (PTable_Read (current_pid m) buffer sz fid (sk_tab m)) (\<lambda>(r, buffer, t). Inr (r, buffer, m\<lparr>sk_tab := t\<rparr>))"

definition SysWrite :: "8 word list \<Rightarrow> int \<Rightarrow> int \<Rightarrow> sysk \<Rightarrow> (int \<times> sysk) res" where
  "SysWrite buffer sz fid m = bindE (PTable_Write (current_pid m) buffer sz fid (sk_tab m)) (\<lambda>(r, t). Inr (r, m\<lparr>sk_tab := t\<rparr>))"

definition SysSeek :: "int \<Rightarrow> int \<Rightarrow> sysk \<Rightarrow> (int \<times> sysk) res" where
  "SysSeek position fid m = bindE (PTable_Seek (current_pid m) position fid (sk_tab m)) (\<lambda>(r, t). Inr (r, m\<lparr>sk_tab := t\<rparr>))"

definition SysCreateSemaphore :: "8 word list \<Rightarrow> int \<Rightarrow> sysk \<Rightarrow> (int \<times> sysk) res" where
  "SysCreateSemaphore name semVal m = bindE (STable_Create name semVal (sk_sem m)) (\<lambda>(r, t). Inr (if r = - 1 then - 1 else r, m\<lparr>sk_sem := t\<rparr>))"

definition SysWait :: "8 word list \<Rightarrow> sysk \<Rightarrow> (int \<times> sysk) res" where
  "SysWait name m = bindE (STable_Wait name (sk_sem m)) (\<lambda>(r, t). Inr (if r = - 1 then - 1 else r, m\<lparr>sk_sem := t\<rparr>))"

definition SysSignal :: "8 word list \<Rightarrow> sysk \<Rightarrow> (int \<times> sysk) res" where
  "SysSignal name m = bindE (STable_Signal name (sk_sem m)) (\<lambda>(r, t). Inr (if r = - 1 then - 1 else r, m\<lparr>sk_sem := t\<rparr>))"

subsection \<open>The handler\<close>

definition IncreasePC :: "'m machine_scheme \<Rightarrow> 'm machine_scheme res" where
  "IncreasePC m =
     bindE (Machine_ReadRegister (int PCReg) m) (\<lambda>pc.
     bindE (Machine_WriteRegister (int PrevPCReg) pc m) (\<lambda>m.
     bindE (Machine_ReadRegister (int PCReg) m) (\<lambda>pc.
     bindE (Machine_WriteRegister (int PCReg) (pc + 4) m) (\<lambda>m.
     bindE (Machine_ReadRegister (int PCReg) m) (\<lambda>pc.
     Machine_WriteRegister (int NextPCReg) (pc + 4) m)))))"

text \<open>The end that most cases share: the result into register 2, the program counter to the next instruction.\<close>

definition sys_return :: "32 word \<Rightarrow> 'm machine_scheme \<Rightarrow> 'm machine_scheme res" where
  "sys_return r m = bindE (Machine_WriteRegister 2 r m) IncreasePC"

text \<open>
  All exceptions but system calls.  Those that a memory access of the kernel itself raises, in \<open>User2System\<close> and \<open>System2User\<close>, end here
  too.
\<close>

definition ExceptionHandler_fault :: "ExceptionType \<Rightarrow> 'm machine_scheme \<Rightarrow> 'm machine_scheme res" where
  "ExceptionHandler_fault which m =
     (case which of
        NoException \<Rightarrow> Inr m
      | SyscallException \<Rightarrow> Inl Assert_failed
      | PageFaultException \<Rightarrow> SysHalt
      | ReadOnlyException \<Rightarrow> SysHalt
      | BusErrorException \<Rightarrow> SysHalt
      | AddressErrorException \<Rightarrow> SysHalt
      | OverflowException \<Rightarrow> SysHalt
      | IllegalInstrException \<Rightarrow> SysHalt
      | NumExceptionTypes \<Rightarrow> SysHalt)"

text \<open>A string of the user program, of at most \<open>limit\<close> characters.\<close>

definition user_string :: "env \<Rightarrow> 32 word \<Rightarrow> int \<Rightarrow> sysk \<Rightarrow> (8 word list \<times> sysk) res" where
  "user_string v va limit m = User2System ExceptionHandler_fault (env_junk v) (env_junk32 v) va limit m"

definition on_tab :: "(ptable \<Rightarrow> ('r \<times> ptable) res) \<Rightarrow> sysk \<Rightarrow> ('r \<times> sysk) res" where
  "on_tab f m = bindE (f (sk_tab m)) (\<lambda>(r, t). Inr (r, m\<lparr>sk_tab := t\<rparr>))"

text \<open>The system calls of the console and of arithmetic.\<close>

definition handle_console :: "env \<Rightarrow> 32 word \<Rightarrow> sysk \<Rightarrow> sysk res" where
  "handle_console v typ m =
     (let r4 = registers m 4; r5 = registers m 5 in
      if typ = SC_Add then sys_return (SysAdd r4 r5) m
      else if typ = SC_ReadNum then bindE (on_tab SysReadNum m) (\<lambda>(num, m). sys_return num m)
      else if typ = SC_PrintNum then bindE (SysPrintNum r4 (sk_tab m)) (\<lambda>t. IncreasePC (m\<lparr>sk_tab := t\<rparr>))
      else if typ = SC_ReadChar then bindE (on_tab SysReadChar m) (\<lambda>(c, m). sys_return (scast c) m)
      else if typ = SC_PrintChar then IncreasePC (m\<lparr>sk_tab := SysPrintChar (ucast r4) (sk_tab m)\<rparr>)
      else if typ = SC_RandomNum then sys_return (SysRandomNumber v) m
      else if typ = SC_ReadString then
        bindE (user_string v r4 (sint r5) m) (\<lambda>(buffer, m).
        bindE (on_tab (SysReadString buffer (sint r5)) m) (\<lambda>(buffer, m).
        bindE (System2User ExceptionHandler_fault r4 (sint r5) buffer m) (\<lambda>(_, m). IncreasePC m)))
      else
        bindE (user_string v r4 255 m) (\<lambda>(buffer, m).
        bindE (SysPrintString buffer (sk_tab m)) (\<lambda>t. IncreasePC (m\<lparr>sk_tab := t\<rparr>))))"

text \<open>The system calls of files.\<close>

definition handle_file :: "env \<Rightarrow> 32 word \<Rightarrow> sysk \<Rightarrow> sysk res" where
  "handle_file v typ m =
     (let r4 = registers m 4; r5 = registers m 5 in
      if typ = SC_CreateFile then
        bindE (user_string v r4 (MaxFileLength + 1) m) (\<lambda>(filename, m).
        bindE (SysCreateFile filename m) (\<lambda>(r, m). sys_return (word_of_int r) m))
      else if typ = SC_Open then
        bindE (user_string v r4 (int MAX_FILENAME_LENGTH + 1) m) (\<lambda>(filename, m).
        bindE (SysOpen v filename (sint r5) m) (\<lambda>(r, m). sys_return (word_of_int r) m))
      else bindE (SysClose (sint r4) m) (\<lambda>(r, m). sys_return (word_of_int r) m))"

definition handle_io :: "env \<Rightarrow> 32 word \<Rightarrow> sysk \<Rightarrow> sysk res" where
  "handle_io v typ m =
     (let r4 = registers m 4; r5 = registers m 5; r6 = registers m 6 in
      if typ = SC_Read then
        bindE (user_string v r4 (sint r5) m) (\<lambda>(buffer, m).
        bindE (SysRead buffer (sint r5) (sint r6) m) (\<lambda>(res, buffer, m).
        bindE (Machine_WriteRegister 2 (word_of_int res) m) (\<lambda>m.
        bindE (if res \<noteq> - 1 \<and> res \<noteq> - 2 then System2User ExceptionHandler_fault r4 res buffer m else Inr (0, m)) (\<lambda>(_, m).
        IncreasePC m))))
      else if typ = SC_Write then
        bindE (user_string v r4 (sint r5) m) (\<lambda>(buffer, m).
        bindE (SysWrite buffer (sint r5) (sint r6) m) (\<lambda>(res, m). sys_return (word_of_int res) m))
      else bindE (SysSeek (sint r4) (sint r5) m) (\<lambda>(res, m). sys_return (word_of_int res) m))"

text \<open>The system calls of processes and semaphores.\<close>

definition handle_process :: "env \<Rightarrow> 32 word \<Rightarrow> sysk \<Rightarrow> sysk res" where
  "handle_process v typ m =
     (let r4 = registers m 4; r5 = registers m 5 in
      if typ = SC_Exec then
        bindE (user_string v r4 (int MAX_FILENAME_LENGTH + 1) m) (\<lambda>(name, m).
        bindE (SysExec v name m) (\<lambda>(r, m). sys_return (word_of_int r) m))
      else if typ = SC_Join then bindE (SysJoin (sint r4) m) (\<lambda>(r, m). sys_return r m)
      else if typ = SC_Exit then bindE (SysExit r4 m) IncreasePC
      else if typ = SC_GetPID then sys_return (word_of_int (current_pid m)) m
      else if typ = SC_CreateSemaphore then
        bindE (user_string v r4 (int MAX_FILENAME_LENGTH + 1) m) (\<lambda>(name, m).
        bindE (SysCreateSemaphore name (sint r5) m) (\<lambda>(r, m). sys_return (word_of_int r) m))
      else if typ = SC_Wait then
        bindE (user_string v r4 (int MAX_FILENAME_LENGTH + 1) m) (\<lambda>(name, m).
        bindE (SysWait name m) (\<lambda>(r, m). sys_return (word_of_int r) m))
      else
        bindE (user_string v r4 (int MAX_FILENAME_LENGTH + 1) m) (\<lambda>(name, m).
        bindE (SysSignal name m) (\<lambda>(r, m). sys_return (word_of_int r) m)))"

definition ExceptionHandler :: "env \<Rightarrow> ExceptionType \<Rightarrow> sysk \<Rightarrow> sysk res" where
  "ExceptionHandler v which m =
     bindE (Machine_ReadRegister 2 m) (\<lambda>typ.
     if which = SyscallException then
       if typ = SC_Halt then SysHalt
       else if typ \<in> {SC_Add, SC_ReadNum, SC_PrintNum, SC_ReadChar, SC_PrintChar, SC_RandomNum, SC_ReadString, SC_PrintString} then handle_console v typ m
       else if typ \<in> {SC_CreateFile, SC_Open, SC_Close} then handle_file v typ m
       else if typ \<in> {SC_Read, SC_Write, SC_Seek} then handle_io v typ m
       else if typ \<in> {SC_Exec, SC_Join, SC_Exit, SC_GetPID, SC_CreateSemaphore, SC_Wait, SC_Signal} then handle_process v typ m
       else if typ \<in> {SC_Create, SC_ThreadFork, SC_ThreadYield, SC_ExecV, SC_ThreadExit, SC_ThreadJoin, SC_Remove} then SysHalt
       else Inl Assert_failed
     else ExceptionHandler_fault which m)"

section \<open>What a system call changes\<close>

text \<open>
  \<open>sys_frame\<close>: the registers and the tables of the kernel are as before, and the user state is kept.
\<close>

definition sys_frame :: "'m machine_scheme \<Rightarrow> 'm machine_scheme \<Rightarrow> bool" where
  "sys_frame m m' \<longleftrightarrow> registers m' = registers m \<and> machine.more m' = machine.more m \<and> status m' = status m
     \<and> (\<forall>pt mem. user_state pt mem m \<longrightarrow> user_state pt mem m')"

lemma sys_frame_refl [simp]: "sys_frame m m"
  by (simp add: sys_frame_def)

lemma sys_frame_trans: "sys_frame m m' \<Longrightarrow> sys_frame m' m'' \<Longrightarrow> sys_frame m m''"
  by (simp add: sys_frame_def)

lemma mmu_faults: "mmu pt va sz w = Inl e \<Longrightarrow> e \<noteq> NoException \<and> e \<noteq> SyscallException"
  by (auto simp add: mmu_def Let_def split: if_splits)

lemma fault_halts: "e \<noteq> NoException \<Longrightarrow> e \<noteq> SyscallException \<Longrightarrow> ExceptionHandler_fault e m = Inl Halted"
  by (cases e) (simp_all add: ExceptionHandler_fault_def SysHalt_def)

lemma fault_good: "good_handler UNIV pt mem ExceptionHandler_fault"
  by (auto simp add: good_handler_def ExceptionHandler_fault_def SysHalt_def split: ExceptionType.splits sum.splits)

lemma Raise_fault:
  assumes "mmu pt va sz w = Inl e"
  shows "Machine_RaiseException ExceptionHandler_fault e va m \<noteq> Inr m'"
  using mmu_faults [OF assms] by (auto simp add: Machine_RaiseException_def bindE_eq_Inr fault_halts)

lemma ReadMem_frame:
  assumes u: "user_state pt mem m" and r: "Machine_ReadMem ExceptionHandler_fault va 1 m = Inr (x, m')"
  shows "sys_frame m m'"
proof -
  obtain pt0 where p: "Machine_paged m pt0" using u by (auto simp add: user_state_def)
  obtain a where a: "mmu pt0 va 1 False = Inr a"
    using r Raise_fault [of pt0 va 1 False _ m] by (cases "mmu pt0 va 1 False") (auto simp add: ReadMem_paged [OF p, of 1] bindE_eq_Inr)
  have m': "m' = m\<lparr>pageTable := Some (touch_page False va pt0)\<rparr>" using r a by (simp add: ReadMem_paged [OF p, of 1])
  have "user_state qt mem' m'" if "user_state qt mem' m" for qt mem'
    using user_ReadMem [OF that fault_good, of 1 va] r by auto
  then show ?thesis by (simp add: sys_frame_def m')
qed

lemma WriteMem_frame:
  assumes u: "user_state pt mem m" and r: "Machine_WriteMem ExceptionHandler_fault va 1 v m = Inr (x, m')"
  shows "sys_frame m m'"
proof -
  obtain pt0 where p: "Machine_paged m pt0" using u by (auto simp add: user_state_def)
  obtain a where a: "mmu pt0 va 1 True = Inr a"
    using r Raise_fault [of pt0 va 1 True _ m] by (cases "mmu pt0 va 1 True") (auto simp add: WriteMem_paged [OF p, of 1] bindE_eq_Inr)
  have m': "m' = m\<lparr>mainMemory := mem_update (mainMemory m) a 1 v, pageTable := Some (touch_page True va pt0)\<rparr>" using r a by (simp add: WriteMem_paged [OF p, of 1])
  have "user_state qt mem' m'" if "user_state qt mem' m" for qt mem'
    using user_WriteMem [OF that fault_good, of 1 va v] r by auto
  then show ?thesis by (simp add: sys_frame_def m')
qed

lemma User2System_frame:
  assumes u: "user_state pt mem m" and r: "user_string v va limit m = Inr (b, m')"
  shows "sys_frame m m'"
proof -
  have "User2System_loop ExceptionHandler_fault va idx n c kb m = Inr (b, m') \<Longrightarrow> user_state pt mem m \<Longrightarrow> sys_frame m m'" for idx n c kb m
  proof (induction n arbitrary: idx c kb m)
    case (Suc n)
    from Suc.prems(1) obtain x m1 where m1: "Machine_ReadMem ExceptionHandler_fault (va + of_nat idx) 1 m = Inr (x, m1)"
      by (auto simp add: bindE_eq_Inr)
    note f = ReadMem_frame [OF Suc.prems(2) m1]
    then have u1: "user_state pt mem m1" using Suc.prems(2) by (simp add: sys_frame_def)
    show ?case
    proof (cases "(case x of None \<Rightarrow> c | Some v \<Rightarrow> v) = 0")
      case True
      then show ?thesis using Suc.prems(1) f by (simp add: m1 Let_def)
    next
      case False
      let ?c = "case x of None \<Rightarrow> c | Some v \<Rightarrow> v"
      have "User2System_loop ExceptionHandler_fault va (Suc idx) n ?c (kb[idx := ucast ?c]) m1 = Inr (b, m')" using False Suc.prems(1) by (simp add: m1 Let_def)
      from Suc.IH [OF this u1] show ?thesis using f sys_frame_trans by blast
    qed
  qed simp
  then show ?thesis using u r by (auto simp add: user_string_def User2System_def split: if_splits)
qed

lemma System2User_frame:
  assumes u: "user_state pt mem m" and r: "System2User ExceptionHandler_fault va len buffer m = Inr (k, m')"
  shows "sys_frame m m'"
proof -
  have "System2User_loop h va len buffer i m = Inr (k, m') \<Longrightarrow> h = ExceptionHandler_fault \<Longrightarrow> user_state pt mem m \<Longrightarrow> sys_frame m m'" for h i m
  proof (induction h va len buffer i m rule: System2User_loop.induct)
    case (1 h va len buffer i m)
    from 1(2) obtain c x m1 where c: "readA buffer i = Inr c" and m1: "Machine_WriteMem h (va + word_of_int i) 1 (scast c) m = Inr (x, m1)"
      by (subst (asm) System2User_loop.simps) (auto simp add: bindE_eq_Inr)
    have f: "sys_frame m m1" using WriteMem_frame [OF 1(4)] m1 1(3) by simp
    then have u1: "user_state pt mem m1" using 1(4) by (simp add: sys_frame_def)
    show ?case
    proof (cases "i + 1 < len \<and> c \<noteq> 0")
      case True
      then have "System2User_loop h va len buffer (i + 1) m1 = Inr (k, m')" using 1(2) c m1 by (subst (asm) System2User_loop.simps) simp
      then have "sys_frame m1 m'" using 1(1) [OF c m1 refl True _ 1(3) u1] by simp
      then show ?thesis using f sys_frame_trans by blast
    next
      case False
      then show ?thesis using 1(2) c m1 f by (subst (asm) System2User_loop.simps) auto
    qed
  qed
  then show ?thesis using u r by (auto simp add: System2User_def split: if_splits)
qed

text \<open>
  \<open>returned m m'\<close>: the user program goes on after the system call in \<open>m'\<close>: the program counter is at the next instruction, register 2 may
  have changed and no other register, and the user state is kept.
\<close>

definition returned :: "'m machine_scheme \<Rightarrow> 'm machine_scheme \<Rightarrow> bool" where
  "returned m m' \<longleftrightarrow> registers m' PCReg = registers m PCReg + 4 \<and> registers m' NextPCReg = registers m PCReg + 8
     \<and> registers m' PrevPCReg = registers m PCReg
     \<and> (\<forall>r. r \<notin> {2, PCReg, NextPCReg, PrevPCReg} \<longrightarrow> registers m' r = registers m r)
     \<and> (\<forall>pt mem. user_state pt mem m \<longrightarrow> user_state pt mem m')"

lemma returned_frame: "returned m1 m' \<Longrightarrow> sys_frame m m1 \<Longrightarrow> returned m m'"
  by (simp add: returned_def sys_frame_def)

lemma user_state_tables [simp]:
  "user_state pt mem (m\<lparr>sk_tab := t\<rparr>) = user_state pt mem m" "user_state pt mem (m\<lparr>sk_sem := b\<rparr>) = user_state pt mem m"
  by (simp_all add: user_state_def Machine_paged_def)

lemma returned_tables [simp]: "returned (m\<lparr>sk_tab := t\<rparr>) m' = returned m m'" "returned (m\<lparr>sk_sem := b\<rparr>) m' = returned m m'"
  by (simp_all add: returned_def)

lemma user_registers:
  "user_state pt mem m \<Longrightarrow> R LoadReg = registers m LoadReg \<Longrightarrow> user_state pt mem (m\<lparr>registers := R\<rparr>)"
  by (simp add: user_state_def Machine_paged_def)

lemma IncreasePC_returned:
  assumes "IncreasePC m = Inr m'"
  shows "returned m m'"
proof -
  have "m' = m\<lparr>registers := (registers m)(36 := registers m 34, 34 := registers m 34 + 4, 35 := registers m 34 + 8)\<rparr>"
    using assms by (auto simp add: IncreasePC_def Machine_ReadRegister_def Machine_WriteRegister_def reg_numbers add.commute)
  then show ?thesis by (auto simp add: returned_def reg_numbers intro: user_registers)
qed

lemma returned_reg2: "returned (m\<lparr>registers := (registers m)(2 := r)\<rparr>) m' \<Longrightarrow> returned m m'"
proof -
  have "user_state pt mem m \<Longrightarrow> user_state pt mem (m\<lparr>registers := (registers m)(2 := r)\<rparr>)" for pt mem
    by (rule user_registers) (simp_all add: reg_numbers)
  then show "returned (m\<lparr>registers := (registers m)(2 := r)\<rparr>) m' \<Longrightarrow> returned m m'" by (auto simp add: returned_def reg_numbers)
qed

lemma WriteRegister2: "Machine_WriteRegister 2 r m = Inr (m\<lparr>registers := (registers m)(2 := r)\<rparr>)"
  by (simp add: Machine_WriteRegister_def reg_numbers)

lemma sys_return_returned: "sys_return r m = Inr m' \<Longrightarrow> returned m m'"
  by (auto simp add: sys_return_def WriteRegister2 intro: returned_reg2 IncreasePC_returned)

lemma returned_string:
  "returned m1 m' \<Longrightarrow> user_state pt mem m \<Longrightarrow> user_string v va limit m = Inr (b, m1) \<Longrightarrow> returned m m'"
  using User2System_frame returned_frame by blast

lemmas return_rules = IncreasePC_returned sys_return_returned

lemma handle_console_returned:
  assumes u: "user_state pt mem m" and h: "handle_console v typ m = Inr m'"
  shows "returned m m'"
proof (cases "typ = SC_ReadString")
  case True
  obtain b m1 b2 m2 k m3 where s: "user_string v (registers m 4) (sint (registers m 5)) m = Inr (b, m1)"
    "on_tab (SysReadString b (sint (registers m 5))) m1 = Inr (b2, m2)"
    "System2User ExceptionHandler_fault (registers m 4) (sint (registers m 5)) b2 m2 = Inr (k, m3)" "IncreasePC m3 = Inr m'"
    using h True by (auto simp add: handle_console_def Let_def bindE_eq_Inr SC_defs)
  obtain t where m2: "m2 = m1\<lparr>sk_tab := t\<rparr>" using s(2) by (auto simp add: on_tab_def bindE_eq_Inr)
  note f1 = User2System_frame [OF u s(1)]
  then have "user_state pt mem m2" using u by (simp add: m2 sys_frame_def)
  from System2User_frame [OF this s(3)] have "returned m2 m'" using s(4) returned_frame return_rules by blast
  then show ?thesis using f1 returned_frame by (simp add: m2)
next
  case False
  show ?thesis using h False u
    by (auto simp add: handle_console_def Let_def bindE_eq_Inr on_tab_def split: if_split_asm
        dest!: return_rules intro: returned_string)
qed

lemma handle_file_returned:
  assumes u: "user_state pt mem m" and h: "handle_file v typ m = Inr m'"
  shows "returned m m'"
  using h u
  by (auto simp add: handle_file_def Let_def bindE_eq_Inr SysCreateFile_def SysOpen_def SysClose_def split: if_split_asm
      dest!: return_rules intro: returned_string)

lemma handle_io_returned:
  assumes u: "user_state pt mem m" and h: "handle_io v typ m = Inr m'"
  shows "returned m m'"
proof (cases "typ = SC_Read")
  case True
  obtain b m1 res b2 m2 k m4 where s: "user_string v (registers m 4) (sint (registers m 5)) m = Inr (b, m1)"
    "SysRead b (sint (registers m 5)) (sint (registers m 6)) m1 = Inr (res, b2, m2)"
    "(if res \<noteq> - 1 \<and> res \<noteq> - 2 then System2User ExceptionHandler_fault (registers m 4) res b2 (m2\<lparr>registers := (registers m2)(2 := word_of_int res)\<rparr>)
      else Inr (0, m2\<lparr>registers := (registers m2)(2 := word_of_int res)\<rparr>)) = Inr (k, m4)" "IncreasePC m4 = Inr m'"
    using h True by (auto simp add: handle_io_def Let_def bindE_eq_Inr SC_defs WriteRegister2 simp del: if_split)
  obtain t where m2: "m2 = m1\<lparr>sk_tab := t\<rparr>" using s(2) by (auto simp add: SysRead_def bindE_eq_Inr)
  note f1 = User2System_frame [OF u s(1)]
  let ?m3 = "m2\<lparr>registers := (registers m2)(2 := word_of_int res)\<rparr>"
  have "user_state pt mem ?m3" using u f1 by (auto simp add: m2 sys_frame_def reg_numbers intro!: user_registers)
  then have "sys_frame ?m3 m4" using System2User_frame s(3) by (auto split: if_split_asm)
  then have "returned ?m3 m'" using s(4) returned_frame return_rules by blast
  then have "returned m2 m'" by (rule returned_reg2)
  then show ?thesis using f1 returned_frame by (simp add: m2)
next
  case False
  show ?thesis using h False u
    by (auto simp add: handle_io_def Let_def bindE_eq_Inr SysWrite_def SysSeek_def split: if_split_asm
        dest!: return_rules intro: returned_string)
qed

lemma handle_process_returned:
  assumes u: "user_state pt mem m" and h: "handle_process v typ m = Inr m'"
  shows "returned m m'"
  using u h
  by (auto simp add: handle_process_def Let_def bindE_eq_Inr SysExec_def SysJoin_def SysExit_def SysCreateSemaphore_def SysWait_def SysSignal_def
      split: if_split_asm option.split_asm dest!: return_rules intro: returned_string)
    (blast intro: returned_string)

lemma syscall_returned:
  assumes u: "user_state pt mem m" and h: "ExceptionHandler v SyscallException m = Inr m'"
  shows "returned m m'"
proof -
  have "handle_console v (registers m 2) m = Inr m' \<or> handle_file v (registers m 2) m = Inr m'
      \<or> handle_io v (registers m 2) m = Inr m' \<or> handle_process v (registers m 2) m = Inr m'"
    using h by (simp add: ExceptionHandler_def Machine_ReadRegister_def reg_numbers SysHalt_def del: insert_iff split: if_split_asm)
  then show ?thesis using handle_console_returned [OF u] handle_file_returned [OF u] handle_io_returned [OF u] handle_process_returned [OF u] by blast
qed

lemma ExceptionHandler_other:
  "which \<noteq> SyscallException \<Longrightarrow> ExceptionHandler v which m = (if which = NoException then Inr m else Inl Halted)"
proof -
  assume "which \<noteq> SyscallException"
  moreover from this have "ExceptionHandler v which m = ExceptionHandler_fault which m"
    by (simp add: ExceptionHandler_def Machine_ReadRegister_def reg_numbers)
  ultimately show ?thesis by (cases which) (simp_all add: ExceptionHandler_fault_def SysHalt_def)
qed

lemma ExceptionHandler_good: "good_handler UNIV pt mem (ExceptionHandler v)"
proof -
  have "user_state pt mem m' \<and> registers m' 0 = 0" if "user_state pt mem m" "registers m 0 = 0" "ExceptionHandler v which m = Inr m'" for which m m'
  proof (cases "which = SyscallException")
    case True
    then show ?thesis using syscall_returned [OF that(1)] that by (auto simp add: returned_def reg_numbers)
  next
    case False
    then show ?thesis using that by (auto simp add: ExceptionHandler_other split: if_splits)
  qed
  note keep = this
  show ?thesis unfolding good_handler_def
  proof (intro allI impI)
    fix which and m :: sysk
    assume m: "user_state pt mem m" "registers m 0 = 0"
    show "case ExceptionHandler v which m of Inl x \<Rightarrow> x \<in> UNIV | Inr m' \<Rightarrow> user_state pt mem m' \<and> registers m' 0 = 0"
    proof (cases "ExceptionHandler v which m")
      case (Inr m')
      then show ?thesis using keep [OF m Inr] by simp
    qed simp
  qed
qed

section \<open>Properties\<close>

text \<open>
  C2.  The convention of system calls: whatever the code in register 2 and the arguments, when the handler
  returns to the user program the program counter has moved to the next instruction, no register but register 2 and the three program
  counters has changed, the page table has the frames it had, and memory has changed only in frames the program may write.
\<close>

theorem syscall_returns:
  assumes "user_state pt mem m" "ExceptionHandler v SyscallException m = Inr m'"
  shows "registers m' PCReg = registers m PCReg + 4 \<and> registers m' NextPCReg = registers m PCReg + 8 \<and> registers m' PrevPCReg = registers m PCReg
    \<and> (\<forall>r. r \<notin> {2, PCReg, NextPCReg, PrevPCReg} \<longrightarrow> registers m' r = registers m r) \<and> user_state pt mem m'"
  using syscall_returned [OF assms] assms(1) by (simp add: returned_def)

text \<open>A machine for examples: one page, and a kernel with the main process.\<close>

definition demo_sysk :: "(nat \<Rightarrow> 32 word) \<Rightarrow> sysk" where
  "demo_sysk R = \<lparr>registers = R, mainMemory = (\<lambda>_. 0), tlb = None,
     pageTable = Some [\<lparr>virtualPage = 0, physicalPage = 3, valid = True, readOnly = False, te_use = False, te_dirty = False\<rparr>], pageTableSize = 1,
     singleStep = False, status = SystemMode,
     sk_tab = projr (PTable_new [] 10 demo_host), sk_sem = projr (STable_new []), current_pid = 0, current_name = [97, 0]\<rparr>"

definition demo_env :: env where
  "demo_env = \<lparr>env_junk = (\<lambda>_. 0), env_junk8 = 0, env_junk32 = 0, time0 = 0, rand_after = (\<lambda>s. s)\<rparr>"

lemma demo_user_state: "R LoadReg = 0 \<Longrightarrow> user_state (the (pageTable (demo_sysk R))) (\<lambda>_. 0) (demo_sysk R)"
  by (auto simp add: user_state_def demo_sysk_def Machine_paged_def intro!: exI [of _ "the (pageTable (demo_sysk R))"])

theorem syscall_returns_witness:
  "\<exists>m'. ExceptionHandler demo_env SyscallException (demo_sysk ((\<lambda>_. 0)(2 := SC_Add, 4 := 30, 5 := 12, PCReg := 100))) = Inr m'
    \<and> registers m' 2 = 42 \<and> registers m' PCReg = 104 \<and> registers m' NextPCReg = 108 \<and> registers m' 4 = 30"
proof -
  let ?R = "(\<lambda>_. 0)(2 := SC_Add, 4 := 30, 5 := 12, PCReg := 100) :: nat \<Rightarrow> 32 word"
  have u: "user_state (the (pageTable (demo_sysk ?R))) (\<lambda>_. 0) (demo_sysk ?R)" by (rule demo_user_state) (simp add: reg_numbers)
  obtain m' where m': "ExceptionHandler demo_env SyscallException (demo_sysk ?R) = Inr m'" "registers m' 2 = 42"
    by (simp add: ExceptionHandler_def handle_console_def sys_return_def IncreasePC_def Machine_ReadRegister_def Machine_WriteRegister_def SC_defs
        SysAdd_def SysHalt_def demo_sysk_def reg_numbers)
  show ?thesis using syscall_returns [OF u m'(1)] m' by (intro exI [of _ m']) (simp add: demo_sysk_def reg_numbers)
qed

text \<open>
  C30.  Everything else ends the machine: every exception of a user program that is not a system call, and every system call that is not implemented, halts
  the machine for all processes; a system call with an unknown code runs into the assertion at the end of the handler.
\<close>

theorem faults_end_machine:
  assumes "which \<noteq> NoException"
    and "which = SyscallException \<Longrightarrow> registers m 2 \<in> {0, 4, 5, 11, 12, 13, 14, 15} \<or> 19 < registers m 2 \<and> registers m 2 < 42 \<or> 50 < registers m 2"
  shows "ExceptionHandler v which m = Inl (if which = SyscallException \<and> registers m 2 \<notin> {0, 4, 5, 11, 12, 13, 14, 15} then Assert_failed else Halted)"
proof (cases "which = SyscallException")
  case False
  then show ?thesis using assms(1) by (simp add: ExceptionHandler_other)
next
  case True
  show ?thesis
  proof (cases "registers m 2 \<in> {0, 4, 5, 11, 12, 13, 14, 15}")
    case in_set: True
    then show ?thesis using True
      by (elim insertE) (simp_all add: ExceptionHandler_def Machine_ReadRegister_def reg_numbers SysHalt_def SC_defs)
  next
    case unknown: False
    have "registers m 2 \<noteq> SC_Halt" "registers m 2 \<notin> {SC_Add, SC_ReadNum, SC_PrintNum, SC_ReadChar, SC_PrintChar, SC_RandomNum, SC_ReadString, SC_PrintString}"
      "registers m 2 \<notin> {SC_CreateFile, SC_Open, SC_Close}" "registers m 2 \<notin> {SC_Read, SC_Write, SC_Seek}"
      "registers m 2 \<notin> {SC_Exec, SC_Join, SC_Exit, SC_GetPID, SC_CreateSemaphore, SC_Wait, SC_Signal}"
      "registers m 2 \<notin> {SC_Create, SC_ThreadFork, SC_ThreadYield, SC_ExecV, SC_ThreadExit, SC_ThreadJoin, SC_Remove}"
      using assms(2) [OF True] unknown by (auto simp add: SC_defs)
    then show ?thesis using True unknown by (simp add: ExceptionHandler_def Machine_ReadRegister_def reg_numbers del: insert_iff)
  qed
qed

theorem faults_end_machine_witness:
  "ExceptionHandler demo_env AddressErrorException (demo_sysk (\<lambda>_. 0)) = Inl Halted
   \<and> ExceptionHandler demo_env SyscallException (demo_sysk ((\<lambda>_. 0)(2 := 77))) = Inl Assert_failed"
  using faults_end_machine [of AddressErrorException "demo_sysk (\<lambda>_. 0)" demo_env]
    faults_end_machine [of SyscallException "demo_sysk ((\<lambda>_. 0)(2 := 77))" demo_env]
  by (simp add: demo_sysk_def)

end
