(* ===== verification/Isolation.thy ===== *)
theory Isolation
  imports Syscalls
begin
text \<open>
  User programs that run together: \<open>Machine::Run\<close> of \<^verbatim>\<open>code/machine/mipssim.cc\<close> and the start of processes in \<^verbatim>\<open>code/threads/main.cc\<close> and
  \<^verbatim>\<open>pcb.cc\<close>, on the kernel of \<open>Synch\<close> with its scheduler, its timer and its interrupts, and with the system calls of \<open>Syscalls\<close>.

  The state \<open>nachos\<close> extends the kernel with the tables that the system calls use, the map of physical pages and, for every thread that is a
  process, the point of its code it has reached: before \<open>Load\<close> in \<open>StartProcess\<close>, or in the loop of \<open>Run\<close> before \<open>OneInstruction\<close> or before \<open>OneTick\<close>.
  \<open>Nachos_step\<close> executes one piece of the current thread.  A clock tick may call interrupt handlers and may take the processor away
  (\<open>Thread::Yield\<close>), so a run goes through any number of time slices of any number of processes.  A system call is
  one piece, together with its instruction; a call that has to wait, and \<open>Exit\<close>, end the run that the model follows.  The debugger, which runs only
  when single stepping was asked for, is left out.
\<close>

section \<open>Model\<close>

datatype run_point = At_Start | At_Instruction | At_Tick

record 'g nachos = "'g kernel" +
  na_tab :: ptable
  na_sem :: SemTable.stable
  gPhysPageBitMap :: bitmap
  thread_name :: "nat \<Rightarrow> 8 word list"
  run_at :: "nat \<Rightarrow> run_point option"

text \<open>The part of the state that an instruction and the system call it may make work on, and the state after it.\<close>

definition to_sysk :: "Thread \<Rightarrow> ('g, 'n) nachos_scheme \<Rightarrow> sysk" where
  "to_sysk th k = machine.extend (machine.truncate k)
     \<lparr>sk_tab = na_tab k, sk_sem = na_sem k, current_pid = processID th, current_name = thread_name k (currentThread k)\<rparr>"

definition from_sysk :: "sysk \<Rightarrow> ('g, 'n) nachos_scheme \<Rightarrow> ('g, 'n) nachos_scheme" where
  "from_sysk m k = k\<lparr>registers := registers m, mainMemory := mainMemory m, tlb := tlb m, pageTable := pageTable m, pageTableSize := pageTableSize m,
     singleStep := singleStep m, status := status m, na_tab := sk_tab m, na_sem := sk_sem m\<rparr>"

definition set_point :: "run_point \<Rightarrow> ('g, 'n) nachos_scheme \<Rightarrow> ('g, 'n) nachos_scheme" where
  "set_point p k = k\<lparr>run_at := (run_at k)(currentThread k \<mapsto> p)\<rparr>"

text \<open>
  \<open>Exec\<close> makes a control block in the process table; its thread (\<open>PCB::Exec\<close>) gets the processor when the scheduler picks it.  The call of \<open>SetLevel\<close> at
  the end of \<open>Fork\<close> is a frame: it runs in system mode, before the instruction is over.
\<close>

definition new_pids :: "ptable \<Rightarrow> ptable \<Rightarrow> nat list" where
  "new_pids t t' = filter (\<lambda>i. pcb t' ! i \<noteq> None \<and> (length (pcb t) \<le> i \<or> pcb t ! i = None)) [0..<length (pcb t')]"

definition PCB_Exec_fork :: "nat \<Rightarrow> ('g, 'n) nachos_scheme \<Rightarrow> ('g, 'n) nachos_scheme res" where
  "PCB_Exec_fork pid k =
     bindE (get_pcb (int pid) (na_tab k)) (\<lambda>p.
     let t = next_tid k in
     bindE (run_cmd (C_Fork (int pid) []) k) (\<lambda>k.
     Inr (k\<lparr>thread_name := (thread_name k)(t := pcb_filename p), run_at := (run_at k)(t \<mapsto> At_Start)\<rparr>)))"

definition Run_OneInstruction :: "env \<Rightarrow> ('g, 'n) nachos_scheme \<Rightarrow> ('g, 'n) nachos_scheme res" where
  "Run_OneInstruction v k =
     bindE (derefE (threads k (currentThread k))) (\<lambda>th.
     bindE (Machine_OneInstruction (ExceptionHandler v) (to_sysk th k)) (\<lambda>m.
     let pids = new_pids (na_tab k) (sk_tab m); k = set_point At_Tick (from_sysk m k) in
     if pids = [] then Inr k
     else foldE PCB_Exec_fork pids (push [F_SetStatus UserMode] (k\<lparr>status := SystemMode\<rparr>))))"

definition Run_OneTick :: "('g, 'n nachos_ext) kernel_ext devices \<Rightarrow> ('g, 'n) nachos_scheme \<Rightarrow> ('g, 'n) nachos_scheme res" where
  "Run_OneTick h k =
     bindE (Interrupt_OneTick h k) (\<lambda>(y, k).
     let k = set_point At_Instruction k in
     Inr (case y of None \<Rightarrow> k | Some oldStatus \<Rightarrow> push [F_Yield, F_SetStatus oldStatus] k))"

text \<open>\<open>StartProcess\<close>, or the same calls at the end of \<open>main\<close>, and the first line of \<open>Run\<close>.\<close>

definition Run_Start :: "env \<Rightarrow> ('g, 'n) nachos_scheme \<Rightarrow> ('g, 'n) nachos_scheme res" where
  "Run_Start v k =
     bindE (derefE (threads k (currentThread k))) (\<lambda>th.
     bindE (StartProcess (env_junk v) (processID th) (na_tab k) (gPhysPageBitMap k, k)) (\<lambda>(space, b, k).
     Inr (set_point At_Instruction (set_thread (currentThread k) (th\<lparr>t_space := Some space\<rparr>) (k\<lparr>gPhysPageBitMap := b, status := UserMode\<rparr>)))))"

definition Nachos_step :: "env \<Rightarrow> ('g, 'n nachos_ext) kernel_ext devices \<Rightarrow> ('g, 'n) nachos_scheme \<Rightarrow> ('g, 'n) nachos_scheme res" where
  "Nachos_step v h k =
     (if frames k (currentThread k) \<noteq> [] then kernel_step h k
      else case run_at k (currentThread k) of
        None \<Rightarrow> kernel_step h k
      | Some At_Start \<Rightarrow> Run_Start v k
      | Some At_Instruction \<Rightarrow> Run_OneInstruction v k
      | Some At_Tick \<Rightarrow> Run_OneTick h k)"

text \<open>
  The start: \<open>Kernel::Initialize\<close>, with the map of physical pages, the process table and the semaphore table; then \<open>main\<close> makes process 0 of the
  program \<open>name\<close>.  \<open>host\<close> are the files of the host.
\<close>

definition Nachos_start ::
    "32 word \<Rightarrow> bool \<Rightarrow> (nat \<Rightarrow> nat option) \<Rightarrow> 'g \<Rightarrow> 32 word list \<Rightarrow> 8 word \<Rightarrow> host \<Rightarrow> 8 word list \<Rightarrow> (Timer \<times> 'g nachos) res" where
  "Nachos_start rnd randomSlice sv g garbage junk host name =
     bindE (Kernel_Initialize rnd randomSlice (Machine_new False) sv g []) (\<lambda>(tm, k).
     bindE (Bitmap_new garbage 256) (\<lambda>b.
     bindE (PTable_new garbage MAX_PROCESS host) (\<lambda>t.
     bindE (STable_new garbage) (\<lambda>s.
     bindE (PTable_initStartProcess junk name t) (\<lambda>t.
     Inr (tm, kernel.extend k \<lparr>na_tab = t, na_sem = s, gPhysPageBitMap = b, thread_name = (\<lambda>_. [109, 97, 105, 110, 0]), run_at = [0 \<mapsto> At_Start]\<rparr>))))))"

text \<open>
  The programs that are started are executables as \<open>coff2noff\<close> makes them and fit into the physical pages that are free.  (\<open>Load\<close> does not
  check the first, and its check of the second counts pages that the machine does not have.)
\<close>

definition program_of :: "('g, 'n) nachos_scheme \<Rightarrow> 8 word list option" where
  "program_of k = (case threads k (currentThread k) of None \<Rightarrow> None | Some th \<Rightarrow>
     (case bindE (PTable_GetFileName (processID th) (na_tab k)) cstring of Inl _ \<Rightarrow> None
      | Inr s \<Rightarrow> map_option (inode (na_tab k)) (dirent (na_tab k) s)))"

definition starts_ok :: "env \<Rightarrow> ('g, 'n) nachos_scheme \<Rightarrow> bool" where
  "starts_ok v k \<longleftrightarrow> (frames k (currentThread k) = [] \<longrightarrow> run_at k (currentThread k) = Some At_Start \<longrightarrow>
     (case program_of k of None \<Rightarrow> False
      | Some f \<Rightarrow> wf_noff f (load_header (env_junk v) f)
          \<and> program_pages (load_header (env_junk v) f) \<le> card ({0..<128} - Bitmap_used (gPhysPageBitMap k))))"

text \<open>The states of a run; the time, the random numbers and the contents of new memory differ from step to step.\<close>

inductive nachos_reach :: "Timer \<Rightarrow> (nat \<Rightarrow> nat) \<Rightarrow> 'g nachos \<Rightarrow> 'g nachos \<Rightarrow> bool" for tm dev k0 where
  boot: "nachos_reach tm dev k0 k0"
| step: "nachos_reach tm dev k0 k \<Longrightarrow> starts_ok v k \<Longrightarrow> Nachos_step v (kernel_devices rnd tm dev) k = Inr k' \<Longrightarrow> nachos_reach tm dev k0 k'"

section \<open>What a process sees\<close>

text \<open>The registers, the page table and the number of pages of a thread that has an address space: in the machine while the thread is the current one.\<close>

definition regs40 :: "(nat \<Rightarrow> 32 word) \<Rightarrow> nat \<Rightarrow> 32 word" where
  "regs40 R r = (if r < NumTotalRegs then R r else 0)"

definition proc_view :: "('g, 'k) kernel_scheme \<Rightarrow> nat \<Rightarrow> ((nat \<Rightarrow> 32 word) \<times> TranslationEntry list option \<times> int) option" where
  "proc_view k t = (case threads k t of None \<Rightarrow> None | Some th \<Rightarrow> (case t_space th of None \<Rightarrow> None
     | Some sp \<Rightarrow> Some (if t = currentThread k then (regs40 (registers k), pageTable k, as_numPages sp)
                        else (regs40 (userRegisters th), as_pageTable sp, as_numPages sp))))"

definition proc_table :: "('g, 'k) kernel_scheme \<Rightarrow> nat \<Rightarrow> TranslationEntry list option" where
  "proc_table k t = (case proc_view k t of Some (R, Some pt, n) \<Rightarrow> Some pt | _ \<Rightarrow> None)"

text \<open>A page table as \<open>Load\<close> made it, up to the bits that the machine sets.\<close>

definition table_ok :: "TranslationEntry list \<Rightarrow> bool" where
  "table_ok pt \<longleftrightarrow> distinct (page_frames pt) \<and> set (page_frames pt) \<subseteq> {0..<128} \<and> (\<forall>e \<in> set pt. valid e \<and> \<not> readOnly e)"

definition regs_ok :: "(nat \<Rightarrow> 32 word) \<Rightarrow> bool" where
  "regs_ok R \<longleftrightarrow> unat (R LoadReg) < 32 \<and> R 0 = 0"

definition proc_ok :: "int set \<Rightarrow> (nat \<Rightarrow> 32 word) \<times> TranslationEntry list option \<times> int \<Rightarrow> bool" where
  "proc_ok U w \<longleftrightarrow> (case w of (R, p, n) \<Rightarrow> regs_ok R \<and>
     (case p of None \<Rightarrow> False | Some pt \<Rightarrow> n = int (length pt) \<and> table_ok pt \<and> set (page_frames pt) \<subseteq> U))"

definition iso_inv :: "('g, 'n) nachos_scheme \<Rightarrow> bool" where
  "iso_inv k \<longleftrightarrow> tlb k = None \<and> regs_ok (registers k) \<and> toBeDestroyed k = None \<and> Bitmap_inv (gPhysPageBitMap k) \<and> 128 \<le> numBits (gPhysPageBitMap k)
     \<and> (\<forall>t \<ge> next_tid k. threads k t = None)
     \<and> (\<forall>t w. proc_view k t = Some w \<longrightarrow> proc_ok (Bitmap_used (gPhysPageBitMap k)) w)
     \<and> (\<forall>w. proc_view k (currentThread k) = Some w \<longrightarrow> pageTableSize k = snd (snd w))
     \<and> (\<forall>t u p q. t \<noteq> u \<longrightarrow> proc_table k t = Some p \<longrightarrow> proc_table k u = Some q \<longrightarrow> set (page_frames p) \<inter> set (page_frames q) = {})"

section \<open>Kernel code leaves processes alone\<close>

text \<open>What the kernel does between two switches: nothing to memory, page tables and the saved registers of threads.\<close>

definition user_kept :: "('g, 'k) kernel_scheme \<Rightarrow> ('g, 'k) kernel_scheme \<Rightarrow> bool" where
  "user_kept k k' \<longleftrightarrow> mainMemory k' = mainMemory k \<and> tlb k' = tlb k \<and> pageTable k' = pageTable k \<and> pageTableSize k' = pageTableSize k
     \<and> currentThread k' = currentThread k \<and> toBeDestroyed k' = toBeDestroyed k \<and> next_tid k' = next_tid k \<and> kernel.more k' = kernel.more k
     \<and> (\<forall>t. map_option (\<lambda>th. (userRegisters th, t_space th)) (threads k' t) = map_option (\<lambda>th. (userRegisters th, t_space th)) (threads k t))"

lemma kept_refl [simp]: "user_kept k k"
  by (simp add: user_kept_def)

lemma kept_trans: "user_kept k k' \<Longrightarrow> user_kept k' k'' \<Longrightarrow> user_kept k k''"
  by (simp add: user_kept_def)

lemma kept_thread:
  assumes "user_kept k k'"
  shows "threads k' t = None \<longleftrightarrow> threads k t = None"
proof -
  have "map_option (\<lambda>th. (userRegisters th, t_space th)) (threads k' t) = map_option (\<lambda>th. (userRegisters th, t_space th)) (threads k t)"
    using assms by (simp add: user_kept_def)
  then show ?thesis by (cases "threads k t"; cases "threads k' t") simp_all
qed

lemma kept_view_other:
  assumes "user_kept k k'" "t \<noteq> currentThread k \<or> registers k' = registers k"
  shows "proc_view k' t = proc_view k t"
proof -
  have "map_option (\<lambda>th. (userRegisters th, t_space th)) (threads k' t) = map_option (\<lambda>th. (userRegisters th, t_space th)) (threads k t)"
    using assms(1) by (simp add: user_kept_def)
  then show ?thesis using assms
    by (cases "threads k t"; cases "threads k' t") (auto simp add: user_kept_def proc_view_def split: option.split)
qed

lemma view_space: "proc_view k t \<noteq> None \<longleftrightarrow> (\<exists>th. threads k t = Some th \<and> t_space th \<noteq> None)"
  by (simp add: proc_view_def split: option.split)

lemma kept_view_cur:
  assumes "user_kept k k'"
  shows "proc_view k' (currentThread k) = map_option (\<lambda>(R, p, n). (regs40 (registers k'), p, n)) (proc_view k (currentThread k))"
proof -
  let ?t = "currentThread k"
  have "map_option (\<lambda>th. (userRegisters th, t_space th)) (threads k' ?t) = map_option (\<lambda>th. (userRegisters th, t_space th)) (threads k ?t)"
    using assms(1) by (simp add: user_kept_def)
  then show ?thesis using assms
    by (cases "threads k ?t"; cases "threads k' ?t") (auto simp add: user_kept_def proc_view_def split: option.split)
qed

lemma kept_table:
  assumes "user_kept k k'"
  shows "proc_table k' t = proc_table k t"
proof (cases "t = currentThread k")
  case True
  then show ?thesis using kept_view_cur [OF assms] by (auto simp add: proc_table_def split: option.split prod.split)
next
  case False
  then show ?thesis using kept_view_other [OF assms, of t] by (simp add: proc_table_def)
qed

lemma regs40_ok [simp]: "regs_ok (regs40 R) = regs_ok R"
  by (simp add: regs_ok_def regs40_def reg_numbers)

lemma more_bitmap: "kernel.more k' = kernel.more k \<Longrightarrow> gPhysPageBitMap k' = gPhysPageBitMap (k :: ('g, 'n) nachos_scheme)"
  by (cases k; cases k') simp

lemma inv_view: "iso_inv k \<Longrightarrow> proc_view k t = Some w \<Longrightarrow> proc_ok (Bitmap_used (gPhysPageBitMap k)) w"
  unfolding iso_inv_def by blast

lemma kept_inv:
  fixes k :: "('g, 'n) nachos_scheme"
  assumes i: "iso_inv k" and u: "user_kept k k'" and r: "regs_ok (registers k')"
  shows "iso_inv k'"
proof -
  have b: "gPhysPageBitMap k' = gPhysPageBitMap k" using u by (intro more_bitmap) (simp add: user_kept_def)
  have c: "currentThread k' = currentThread k" "next_tid k' = next_tid k" "pageTableSize k' = pageTableSize k" "tlb k' = tlb k" "toBeDestroyed k' = toBeDestroyed k"
    using u by (simp_all add: user_kept_def)
  have n: "threads k' t = None \<longleftrightarrow> threads k t = None" for t by (rule kept_thread [OF u])
  have v: "proc_ok (Bitmap_used (gPhysPageBitMap k)) w" if w: "proc_view k' t = Some w" for t w
  proof (cases "t = currentThread k")
    case True
    then obtain R p m where "proc_view k t = Some (R, p, m)" "w = (regs40 (registers k'), p, m)"
      using w kept_view_cur [OF u] by auto
    moreover from this have "proc_ok (Bitmap_used (gPhysPageBitMap k)) (R, p, m)" using i unfolding iso_inv_def by blast
    ultimately show ?thesis using r by (simp add: proc_ok_def)
  next
    case False
    then have "proc_view k t = Some w" using w kept_view_other [OF u, of t] by simp
    then show ?thesis by (rule inv_view [OF i])
  qed
  have z: "pageTableSize k = snd (snd w)" if w: "proc_view k' (currentThread k) = Some w" for w
  proof -
    obtain R p m where "proc_view k (currentThread k) = Some (R, p, m)" "w = (regs40 (registers k'), p, m)"
      using w kept_view_cur [OF u] by auto
    moreover from this have "pageTableSize k = snd (snd (R, p, m))" using i unfolding iso_inv_def by blast
    ultimately show ?thesis by simp
  qed
  show ?thesis using i v z r unfolding iso_inv_def b c n kept_table [OF u] by blast
qed

text \<open>Interrupt handlers, and the clock: the only register change is the delayed load of \<open>CheckIfDue\<close>.\<close>

lemma V_body_kept: "Semaphore_V_body s k = Inr k' \<Longrightarrow> user_kept k k' \<and> registers k' = registers k"
  by (cases rule: V_body_cases) (auto simp add: user_kept_def)

lemma device_acts_kept: "device_acts k k' \<Longrightarrow> user_kept k k' \<and> registers k' = registers k"
proof (induction rule: device_acts.induct)
  case (acts_V k k' s k'')
  then show ?case using V_body_kept kept_trans by metis
qed (auto simp add: user_kept_def Interrupt_Schedule_def Interrupt_YieldOnReturn_def bindE_eq_Inr Let_def)

lemma fire_kept:
  assumes "device_handlers h"
  shows "Interrupt_fire h n k = Inr k' \<Longrightarrow> user_kept k k' \<and> registers k' = registers k"
proof (induction n arbitrary: k)
  case (Suc n)
  obtain p q where r: "lst_remove_front (pending k) = Inr (p, q)" using Suc.prems by (cases "lst_remove_front (pending k)") auto
  obtain k1 where k1: "h (callOnInterrupt p) (k\<lparr>pending := q\<rparr>) = Inr k1"
    "(if pending k1 \<noteq> [] \<and> pi_when (hd (pending k1)) \<le> totalTicks k1 then Interrupt_fire h n k1 else Inr k1) = Inr k'"
    using Suc.prems r by (cases "h (callOnInterrupt p) (k\<lparr>pending := q\<rparr>)") auto
  have "user_kept (k\<lparr>pending := q\<rparr>) k1 \<and> registers k1 = registers k"
    using device_acts_kept [OF device_handlers.acts [OF assms k1(1)]] by simp
  then have k1': "user_kept k k1" "registers k1 = registers k" by (simp_all add: user_kept_def)
  show ?case
  proof (cases "pending k1 \<noteq> [] \<and> pi_when (hd (pending k1)) \<le> totalTicks k1")
    case True
    then have "user_kept k1 k' \<and> registers k' = registers k1" using Suc.IH k1(2) by simp
    then show ?thesis using k1' kept_trans by metis
  next
    case False
    then have "k' = k1" using k1(2) by (auto split: if_splits)
    then show ?thesis using k1' by simp
  qed
qed simp

lemma DelayedLoad0:
  assumes "regs_ok (registers k)" "Machine_DelayedLoad 0 0 k = Inr k'"
  shows "regs_ok (registers k')" "\<exists>R. k' = k\<lparr>registers := R\<rparr>"
proof -
  have "unat (registers k LoadReg) < 32" using assms(1) by (simp add: regs_ok_def)
  then have l: "unat (registers k LoadReg) \<noteq> 37" by simp
  show "regs_ok (registers k')" "\<exists>R. k' = k\<lparr>registers := R\<rparr>"
    using assms l by (auto simp add: Machine_DelayedLoad_def regs_ok_def reg_numbers Let_def split: if_splits)
qed

lemma CheckIfDue_kept:
  assumes h: "device_handlers h" and c: "Interrupt_CheckIfDue h adv k = Inr (r, k')" and ok: "regs_ok (registers k)"
  shows "user_kept k k' \<and> regs_ok (registers k')"
proof (cases "pending k = [] \<or> pi_when (hd (pending k)) > totalTicks k \<and> \<not> adv")
  case True
  then have "k' = k" using c by (auto simp add: Interrupt_CheckIfDue_def bindE_eq_Inr Let_def split: if_splits)
  then show ?thesis using ok by simp
next
  case False
  define k0 where "k0 = (if pi_when (hd (pending k)) > totalTicks k
      then k\<lparr>idleTicks := idleTicks k + (pi_when (hd (pending k)) - totalTicks k), totalTicks := pi_when (hd (pending k))\<rparr> else k)"
  obtain k1 k2 where k1: "Machine_DelayedLoad 0 0 k0 = Inr k1"
    and k2: "Interrupt_fire h (length (pending k1)) (k1\<lparr>inHandler := True\<rparr>) = Inr k2" "k' = k2\<lparr>inHandler := False\<rparr>"
    using c False unfolding Interrupt_CheckIfDue_def Let_def k0_def [symmetric] by (auto simp add: bindE_eq_Inr split: if_splits)
  have k0: "user_kept k k0" "regs_ok (registers k0)" using ok by (simp_all add: k0_def user_kept_def)
  from DelayedLoad0 [OF k0(2) k1] have d: "user_kept k0 (k1\<lparr>inHandler := True\<rparr>)" "regs_ok (registers k1)" by (auto simp add: user_kept_def)
  from fire_kept [OF h k2(1)] have "user_kept (k1\<lparr>inHandler := True\<rparr>) k2" "registers k2 = registers k1" by simp_all
  moreover have "user_kept k2 k'" by (simp add: k2(2) user_kept_def)
  ultimately have "user_kept k k'" using kept_trans [OF k0(1) kept_trans [OF d(1) kept_trans]] by blast
  moreover have "registers k' = registers k1" using \<open>registers k2 = registers k1\<close> by (simp add: k2(2))
  ultimately show ?thesis using d(2) by simp
qed

lemma OneTick_kept:
  assumes h: "device_handlers h" and c: "Interrupt_OneTick h k = Inr (y, k')" and ok: "regs_ok (registers k)"
  shows "user_kept k k' \<and> regs_ok (registers k')"
proof -
  obtain r k1 where k1: "Interrupt_CheckIfDue h False (ticked k) = Inr (r, k1)"
    "k' = k1\<lparr>int_level := IntOn\<rparr> \<or> k' = k1\<lparr>int_level := IntOn, yieldOnReturn := False, status := SystemMode\<rparr>"
    using c by (auto simp add: OneTick_eq bindE_eq_Inr split: if_splits)
  have t: "user_kept k (ticked k)" "regs_ok (registers (ticked k))" using ok by (simp_all add: ticked_def user_kept_def)
  from CheckIfDue_kept [OF h k1(1) t(2)] have "user_kept (ticked k) k1" "regs_ok (registers k1)" by simp_all
  then have "user_kept k k1" "regs_ok (registers k1)" using kept_trans [OF t(1)] by blast+
  then show ?thesis using k1(2) by (auto simp add: user_kept_def)
qed

lemma Idle_kept:
  assumes h: "device_handlers h" and c: "Interrupt_Idle h k = Inr k'" and ok: "regs_ok (registers k)"
  shows "user_kept k k' \<and> regs_ok (registers k')"
proof -
  obtain k1 where k1: "Interrupt_CheckIfDue h True (k\<lparr>status := IdleMode\<rparr>) = Inr (True, k1)" "k' = k1\<lparr>status := SystemMode\<rparr>"
    using c by (auto simp add: Interrupt_Idle_def bindE_eq_Inr split: if_splits)
  from CheckIfDue_kept [OF h k1(1)] ok have "user_kept (k\<lparr>status := IdleMode\<rparr>) k1" "regs_ok (registers k1)" by simp_all
  then show ?thesis using k1(2) by (simp add: user_kept_def)
qed

lemma SetLevel_kept:
  assumes h: "device_handlers h" and c: "Interrupt_SetLevel h l k = Inr (old, y, k')" and ok: "regs_ok (registers k)"
  shows "user_kept k k' \<and> regs_ok (registers k')"
proof (cases "l = IntOn \<and> int_level k = IntOff")
  case True
  then have "Interrupt_OneTick h (k\<lparr>int_level := l\<rparr>) = Inr (y, k')"
    using c by (auto simp add: Interrupt_SetLevel_def Interrupt_ChangeLevel_def bindE_eq_Inr Let_def)
  from OneTick_kept [OF h this] ok show ?thesis by (simp add: user_kept_def)
next
  case False
  then have "k' = k\<lparr>int_level := l\<rparr>" using c by (auto simp add: Interrupt_SetLevel_def Interrupt_ChangeLevel_def bindE_eq_Inr Let_def split: if_splits)
  then show ?thesis using ok by (simp add: user_kept_def)
qed

text \<open>A context switch moves the registers and the page tables of processes between the machine and the threads, and loses nothing.\<close>

definition switched :: "nat set \<Rightarrow> ('g, 'k) kernel_scheme \<Rightarrow> ('g, 'k) kernel_scheme \<Rightarrow> bool" where
  "switched D k k' \<longleftrightarrow> mainMemory k' = mainMemory k \<and> tlb k' = tlb k \<and> kernel.more k' = kernel.more k \<and> toBeDestroyed k' = None
     \<and> (\<forall>t. proc_view k' t = (if t \<in> D then None else proc_view k t)) \<and> (\<forall>t \<in> D. threads k' t = None) \<and> next_tid k \<le> next_tid k'
     \<and> (\<forall>t < next_tid k. threads k t = None \<longrightarrow> threads k' t = None)
     \<and> ((\<forall>t \<ge> next_tid k. threads k t = None) \<longrightarrow> (\<forall>t \<ge> next_tid k'. threads k' t = None))
     \<and> (case proc_view k' (currentThread k') of None \<Rightarrow> registers k' = registers k | Some (R, p, n) \<Rightarrow> pageTableSize k' = n)"

lemma restored_more [simp]: "mainMemory (restored th k) = mainMemory k" "tlb (restored th k) = tlb k" "kernel.more (restored th k) = kernel.more k"
  by (simp_all add: restored_def split: option.split)

lemma regs40_saved [simp]: "regs40 (\<lambda>r. if r < NumTotalRegs then R r else S r) = regs40 R"
  by (simp add: regs40_def fun_eq_iff)

lemma Scheduler_Run_switched:
  assumes r: "Scheduler_Run n fin k = Inr k'" and d: "toBeDestroyed k = None"
  shows "switched (if fin then {currentThread k} else {}) k k'"
proof -
  let ?c = "currentThread k"
  have l: "int_level k = IntOff" using r by (auto simp add: Scheduler_Run_def bindE_eq_Inr Let_def)
  obtain old where old: "threads k ?c = Some old" using r by (cases "threads k ?c") (auto simp add: Scheduler_Run_def Scheduler_save_def bindE_eq_Inr Let_def split: if_splits)
  have "threads k n \<noteq> None"
    using r old by (auto simp add: Scheduler_Run_def save_eq Thread_setStatus_def set_thread_def bindE_eq_Inr Let_def split: if_splits)
  then obtain th where th: "threads k n = Some th" by auto
  show ?thesis
  proof (cases fin)
    case False
    from Run_switch [OF l d old th] r obtain th' where
      k': "k' = restored th' (k\<lparr>currentThread := n, threads := ((threads k)(?c \<mapsto> saved_thread k old))(n \<mapsto> th')\<rparr>)"
      and th': "th' = (if n = ?c then saved_thread k old else th)\<lparr>t_status := RUNNING\<rparr>" using False by auto
    have "proc_view k' t = proc_view k t" for t
      using old th by (cases "t = n"; cases "t = ?c")
        (auto simp add: k' th' proc_view_def restored_def saved_thread_def split: option.split)
    moreover have "case proc_view k' (currentThread k') of None \<Rightarrow> registers k' = registers k | Some (R, p, n) \<Rightarrow> pageTableSize k' = n"
      by (simp add: k' proc_view_def restored_def split: option.split)
    moreover have "threads k t = None \<longrightarrow> threads k' t = None" for t using th old by (auto simp add: k')
    moreover have "mainMemory k' = mainMemory k" "tlb k' = tlb k" "next_tid k' = next_tid k" "kernel.more k' = kernel.more k" "toBeDestroyed k' = None"
      using d by (simp_all add: k')
    ultimately show ?thesis using False by (simp add: switched_def)
  next
    case True
    have ne: "n \<noteq> ?c"
    proof
      assume "n = ?c"
      then show False using r True l d old
        by (auto simp add: Scheduler_Run_def save_eq Thread_setStatus_def set_thread_def Scheduler_CheckToBeDestroyed_def Thread_delete_def bindE_eq_Inr Let_def)
    qed
    from Run_finish [OF l d old th ne] r True obtain th' where
      k': "k' = restored th' (k\<lparr>currentThread := n, threads := ((threads k)(?c := None))(n \<mapsto> th'), toBeDestroyed := None\<rparr>)"
      and th': "th' = th\<lparr>t_status := RUNNING\<rparr>" by auto
    have "proc_view k' t = (if t = ?c then None else proc_view k t)" for t
      using old th ne by (cases "t = n"; cases "t = ?c")
        (auto simp add: k' th' proc_view_def restored_def split: option.split)
    moreover have "case proc_view k' (currentThread k') of None \<Rightarrow> registers k' = registers k | Some (R, p, n) \<Rightarrow> pageTableSize k' = n"
      by (simp add: k' th' proc_view_def restored_def split: option.split)
    moreover have "threads k t = None \<longrightarrow> threads k' t = None" for t using th by (auto simp add: k')
    moreover have "mainMemory k' = mainMemory k" "tlb k' = tlb k" "next_tid k' = next_tid k" "kernel.more k' = kernel.more k" "toBeDestroyed k' = None"
      using d by (simp_all add: k')
    moreover have "threads k' ?c = None" using ne by (simp add: k')
    ultimately show ?thesis using True by (simp add: switched_def)
  qed
qed

lemma switched_inv:
  fixes k :: "('g, 'n) nachos_scheme"
  assumes i: "iso_inv k" and s: "switched D k k'"
  shows "iso_inv k'"
proof -
  have v: "proc_view k' t = (if t \<in> D then None else proc_view k t)" for t using s by (simp add: switched_def)
  have b: "gPhysPageBitMap k' = gPhysPageBitMap k" using s by (intro more_bitmap) (simp add: switched_def)
  have tab: "proc_table k' t = Some p \<Longrightarrow> proc_table k t = Some p" for t p by (simp add: proc_table_def v split: if_splits)
  have ok: "proc_ok (Bitmap_used (gPhysPageBitMap k)) w" if "proc_view k' t = Some w" for t w
    using that inv_view [OF i, of t w] v [of t] by (auto split: if_splits)
  have r: "regs_ok (registers k')"
  proof (cases "proc_view k' (currentThread k')")
    case None
    then show ?thesis using s i by (simp add: switched_def iso_inv_def)
  next
    case (Some w)
    moreover from this have "fst w = regs40 (registers k')" by (auto simp add: proc_view_def split: option.splits)
    ultimately show ?thesis using ok by (fastforce simp add: proc_ok_def)
  qed
  have z: "pageTableSize k' = snd (snd w)" if "proc_view k' (currentThread k') = Some w" for w
    using s that by (auto simp add: switched_def)
  have m: "tlb k' = tlb k" "toBeDestroyed k' = None" using s by (simp_all add: switched_def)
  have "set (page_frames p) \<inter> set (page_frames q) = {}" if "t \<noteq> u" "proc_table k' t = Some p" "proc_table k' u = Some q" for t u p q
    using i that(1) tab [OF that(2)] tab [OF that(3)] unfolding iso_inv_def by blast
  moreover have "\<forall>t \<ge> next_tid k'. threads k' t = None" using i s unfolding iso_inv_def switched_def by blast
  moreover have "tlb k = None" "Bitmap_inv (gPhysPageBitMap k)" "128 \<le> numBits (gPhysPageBitMap k)" using i by (simp_all add: iso_inv_def)
  ultimately show ?thesis using r z ok unfolding iso_inv_def b m by blast
qed

text \<open>The processes other than that of the current thread see no change; no process appears, and a thread keeps its process while it lives.\<close>

definition other_procs :: "('g, 'k) kernel_scheme \<Rightarrow> ('g, 'k) kernel_scheme \<Rightarrow> bool" where
  "other_procs k k' \<longleftrightarrow> mainMemory k' = mainMemory k \<and> (\<forall>t. t \<noteq> currentThread k \<longrightarrow> proc_view k' t = proc_view k t)
     \<and> (\<forall>t. proc_view k' t \<noteq> None \<longrightarrow> proc_view k t \<noteq> None) \<and> (\<forall>t. threads k' t \<noteq> None \<longrightarrow> proc_view k t \<noteq> None \<longrightarrow> proc_view k' t \<noteq> None)
     \<and> next_tid k \<le> next_tid k' \<and> (\<forall>t < next_tid k. threads k t = None \<longrightarrow> threads k' t = None) \<and> kernel.more k' = kernel.more k"

lemma kept_others:
  assumes "user_kept k k'"
  shows "other_procs k k'"
proof -
  have "threads k' t = None \<longleftrightarrow> threads k t = None" for t by (rule kept_thread [OF assms])
  moreover have "proc_view k' t = None \<longleftrightarrow> proc_view k t = None" for t
    using kept_view_other [OF assms, of t] kept_view_cur [OF assms] by (cases "t = currentThread k") simp_all
  moreover have "mainMemory k' = mainMemory k" "next_tid k' = next_tid k" "kernel.more k' = kernel.more k" using assms by (simp_all add: user_kept_def)
  ultimately show ?thesis using kept_view_other [OF assms] by (simp add: other_procs_def)
qed

lemma switched_others: "switched D k k' \<Longrightarrow> D \<subseteq> {currentThread k} \<Longrightarrow> other_procs k k'"
  by (auto simp add: switched_def other_procs_def split: if_splits)

text \<open>A step of the kernel: first something between switches, then perhaps a switch.\<close>

definition kernel_moves :: "('g, 'n) nachos_scheme \<Rightarrow> ('g, 'n) nachos_scheme \<Rightarrow> bool" where
  "kernel_moves k k' \<longleftrightarrow> (iso_inv k \<longrightarrow> iso_inv k' \<and> other_procs k k')"

lemma moves_kept: "(regs_ok (registers k) \<Longrightarrow> user_kept k k' \<and> regs_ok (registers k')) \<Longrightarrow> kernel_moves k k'"
  unfolding kernel_moves_def using kept_inv kept_others by (metis iso_inv_def)

lemma moves_switch:
  assumes "user_kept k k1" "registers k1 = registers k" "Scheduler_Run n fin k1 = Inr k'"
  shows "kernel_moves k k'"
  unfolding kernel_moves_def
proof (intro impI conjI)
  assume i: "iso_inv k"
  then have i1: "iso_inv k1" using kept_inv [OF i assms(1)] assms(2) by (simp add: iso_inv_def)
  then have "toBeDestroyed k1 = None" by (simp add: iso_inv_def)
  note sw = Scheduler_Run_switched [OF assms(3) this]
  show "iso_inv k'" by (rule switched_inv [OF i1 sw])
  have "other_procs k1 k'" using switched_others [OF sw] by simp
  then show "other_procs k k'" using kept_view_other [OF assms(1)] kept_thread [OF assms(1)] assms(1,2) by (simp add: other_procs_def user_kept_def)
qed

lemma ReadyToRun_kept: "Scheduler_ReadyToRun t k = Inr k' \<Longrightarrow> user_kept k k' \<and> registers k' = registers k \<and> currentThread k' = currentThread k"
  by (auto simp add: Scheduler_ReadyToRun_def Thread_setStatus_def set_thread_def lst_append_def bindE_eq_Inr user_kept_def split: if_splits)

lemma Yield_moves:
  fixes k :: "('g, 'n) nachos_scheme"
  assumes "Thread_Yield k = Inr k'"
  shows "kernel_moves k k'"
proof (cases "readyList k")
  case Nil
  then have "k' = push [F_SetLevel (int_level k)] (k\<lparr>int_level := IntOff\<rparr>)"
    using assms by (auto simp add: Thread_Yield_def Scheduler_FindNextToRun_def bindE_eq_Inr Let_def)
  then show ?thesis by (intro moves_kept) (simp add: push_def user_kept_def)
next
  case (Cons n r)
  let ?k1 = "push [F_SetLevel (int_level k)] (k\<lparr>int_level := IntOff, readyList := r\<rparr>)"
  obtain k2 where k2: "Scheduler_ReadyToRun (currentThread k) ?k1 = Inr k2" "Scheduler_Run n False k2 = Inr k'"
    using assms Cons by (auto simp add: Thread_Yield_def Scheduler_FindNextToRun_def lst_remove_front_def bindE_eq_Inr Let_def push_def)
  have "user_kept k ?k1" "registers ?k1 = registers k" by (simp_all add: push_def user_kept_def)
  then have "user_kept k k2" "registers k2 = registers k" using ReadyToRun_kept [OF k2(1)] kept_trans by metis+
  then show ?thesis using k2(2) by (rule moves_switch)
qed

lemma SleepLoop_moves:
  fixes k :: "('g, 'n) nachos_scheme"
  assumes h: "device_handlers h" and s: "Thread_Sleep_loop h b k = Inr k'"
  shows "kernel_moves k k'"
proof (cases "readyList k")
  case Nil
  then have "Interrupt_Idle h (push [F_SleepLoop b] k) = Inr k'"
    using s by (auto simp add: Thread_Sleep_loop_def Scheduler_FindNextToRun_def bindE_eq_Inr)
  from Idle_kept [OF h this] show ?thesis by (intro moves_kept) (simp add: push_def user_kept_def)
next
  case (Cons n r)
  then have "Scheduler_Run n b (k\<lparr>readyList := r\<rparr>) = Inr k'"
    using s by (auto simp add: Thread_Sleep_loop_def Scheduler_FindNextToRun_def lst_remove_front_def bindE_eq_Inr)
  then show ?thesis by (intro moves_switch [of k "k\<lparr>readyList := r\<rparr>"]) (simp_all add: user_kept_def)
qed

lemma pop_moves:
  assumes "kernel_moves k1 k'" "user_kept k k1" "registers k1 = registers k"
  shows "kernel_moves k k'"
  unfolding kernel_moves_def
proof (intro impI)
  assume i: "iso_inv k"
  then have "iso_inv k1" using kept_inv [OF i assms(2)] assms(3) by (simp add: iso_inv_def)
  then have "iso_inv k'" "other_procs k1 k'" using assms(1) by (simp_all add: kernel_moves_def)
  then show "iso_inv k' \<and> other_procs k k'" using kept_view_other [OF assms(2)] kept_thread [OF assms(2)] assms(2,3) by (simp add: other_procs_def user_kept_def)
qed

lemma Sleep_kept: "Thread_Sleep b k = Inr k' \<Longrightarrow> user_kept k k' \<and> registers k' = registers k"
  by (auto simp add: Thread_Sleep_def Thread_setStatus_def set_thread_def push_def bindE_eq_Inr user_kept_def)

lemma P_loop_kept:
  assumes "Semaphore_P_loop s k = Inr k'"
  shows "user_kept k k' \<and> registers k' = registers k"
proof -
  obtain sm where sm: "semaphores k s = Some sm" using assms by (auto simp add: Semaphore_P_loop_def bindE_eq_Inr)
  show ?thesis
  proof (cases "sem_value sm = 0")
    case True
    then obtain q where "Thread_Sleep False (push [F_PLoop s] (set_sem s (sm\<lparr>sem_queue := q\<rparr>) k)) = Inr k'"
      using assms sm by (auto simp add: Semaphore_P_loop_def bindE_eq_Inr)
    from Sleep_kept [OF this] show ?thesis by (simp add: push_def set_sem_def user_kept_def)
  next
    case False
    then have "k' = set_sem s (sm\<lparr>sem_value := sem_value sm - 1\<rparr>) k" using assms sm by (simp add: Semaphore_P_loop_def)
    then show ?thesis by (simp add: set_sem_def user_kept_def)
  qed
qed

lemma run_frame_moves:
  fixes k :: "('g, 'n) nachos_scheme"
  assumes h: "device_handlers h" and s: "run_frame h f k = Inr k'"
  shows "kernel_moves k k'"
proof (cases f)
  case (F_SetLevel l)
  then obtain old y k1 where k1: "Interrupt_SetLevel h l k = Inr (old, y, k1)" "k' = (case y of None \<Rightarrow> k1 | Some u \<Rightarrow> push [F_Yield, F_SetStatus u] k1)"
    using s by (auto simp add: bindE_eq_Inr)
  then show ?thesis using SetLevel_kept [OF h k1(1)] by (intro moves_kept) (auto simp add: push_def user_kept_def split: option.split)
next
  case F_Yield
  then show ?thesis using s Yield_moves by simp
next
  case (F_SleepLoop b)
  then show ?thesis using s SleepLoop_moves [OF h] by simp
next
  case (F_V x)
  then obtain k2 where k2: "Semaphore_V_body x (k\<lparr>int_level := IntOff\<rparr>) = Inr k2" "k' = push [F_SetLevel (int_level k)] k2"
    using s by (auto simp add: Semaphore_V_def bindE_eq_Inr Let_def)
  then show ?thesis using V_body_kept [OF k2(1)] by (intro moves_kept) (simp add: push_def user_kept_def)
next
  case (F_PLoop x)
  then have "Semaphore_P_loop x k = Inr k'" using s by simp
  then have "user_kept k k' \<and> registers k' = registers k" by (rule P_loop_kept)
  then show ?thesis by (intro moves_kept) simp
next
  case (F_Release l)
  then have "user_kept k k' \<and> registers k' = registers k" using s
    by (auto simp add: Lock_Release_def push_def bindE_eq_Inr user_kept_def)
  then show ?thesis by (intro moves_kept) simp
next
  case (F_Signal c l)
  then have "user_kept k k' \<and> registers k' = registers k" using s
    by (auto simp add: Condition_Signal_def lst_remove_front_def push_def bindE_eq_Inr user_kept_def split: if_splits list.splits)
  then show ?thesis by (intro moves_kept) simp
qed (rule moves_kept, use s in \<open>auto simp add: Semaphore_P_def Lock_Acquire_def push_def user_kept_def\<close>)+

lemma Fork_switched:
  fixes k :: "('g, 'n) nachos_scheme"
  assumes i: "iso_inv k" and s: "run_cmd (C_Fork pid body) k = Inr k'"
  shows "switched {} k k'" "registers k' = registers k" "currentThread k' = currentThread k" "next_tid k' = next_tid k + 1"
proof -
  let ?t = "next_tid k"
  have new: "\<forall>t \<ge> ?t. threads k t = None" and c: "toBeDestroyed k = None" "\<And>w. proc_view k (currentThread k) = Some w \<Longrightarrow> pageTableSize k = snd (snd w)"
    using i unfolding iso_inv_def by blast+
  from s have k': "\<exists>F r p. k' = k\<lparr>next_tid := Suc ?t, int_level := IntOff, prog := p,
      threads := (threads k)(?t \<mapsto> (Thread_new pid)\<lparr>t_status := READY\<rparr>), readyList := r, frames := F\<rparr>"
    by (auto simp add: Thread_Fork_def Scheduler_ReadyToRun_def Thread_setStatus_def set_thread_def push_def lst_append_def bindE_eq_Inr Let_def split: if_splits)
  then show r: "registers k' = registers k" "currentThread k' = currentThread k" "next_tid k' = next_tid k + 1" by auto
  from k' have f: "threads k' = (threads k)(?t \<mapsto> (Thread_new pid)\<lparr>t_status := READY\<rparr>)" "pageTable k' = pageTable k" "pageTableSize k' = pageTableSize k"
    "mainMemory k' = mainMemory k" "tlb k' = tlb k" "kernel.more k' = kernel.more k" "toBeDestroyed k' = toBeDestroyed k" by auto
  have v: "proc_view k' t = proc_view k t" for t
    using new by (cases "t = ?t") (simp_all add: proc_view_def Thread_new_def f r split: option.split)
  have "case proc_view k' (currentThread k') of None \<Rightarrow> registers k' = registers k | Some (R, p, n) \<Rightarrow> pageTableSize k' = n"
    using c(2) r f unfolding v by (auto split: option.split)
  then show "switched {} k k'" using v c(1) new by (auto simp add: switched_def f r)
qed

lemma run_cmd_moves:
  fixes k :: "('g, 'n) nachos_scheme"
  assumes s: "run_cmd c k = Inr k'"
  shows "kernel_moves k k'"
proof (cases c)
  case (C_Fork pid body)
  then show ?thesis unfolding kernel_moves_def using Fork_switched(1) switched_inv switched_others s by blast
next
  case (C_Wait x l)
  then show ?thesis using s
    by (intro moves_kept) (auto simp add: Condition_Wait_def set_sem_def push_def lst_append_def bindE_eq_Inr user_kept_def Let_def split: if_splits)
qed (use s in \<open>auto intro!: moves_kept simp add: push_def call_def bindE_eq_Inr user_kept_def split: if_splits\<close>)

lemma kernel_step_moves:
  fixes k :: "('g, 'n) nachos_scheme"
  assumes h: "device_handlers h" and s: "kernel_step h k = Inr k'"
  shows "kernel_moves k k'"
proof (cases "frames k (currentThread k)")
  case (Cons f fs)
  then have "run_frame h f (k\<lparr>frames := (frames k)(currentThread k := fs)\<rparr>) = Inr k'" using s by (simp add: kernel_step_def)
  from run_frame_moves [OF h this] show ?thesis by (rule pop_moves) (simp_all add: user_kept_def)
next
  case Nil
  show ?thesis
  proof (cases "prog k (currentThread k)")
    case (Cons c cs)
    then have "run_cmd c (k\<lparr>prog := (prog k)(currentThread k := cs)\<rparr>) = Inr k'" using s Nil by (simp add: kernel_step_def)
    from run_cmd_moves [OF this] show ?thesis by (rule pop_moves) (simp_all add: user_kept_def)
  next
    case Nil2: Nil
    then have "Thread_Sleep True (k\<lparr>int_level := IntOff\<rparr>) = Inr k'" using s Nil by (simp add: kernel_step_def Thread_Finish_def)
    from Sleep_kept [OF this] show ?thesis by (intro moves_kept) (simp add: user_kept_def)
  qed
qed

section \<open>The steps of a process\<close>

lemma table_ok_cong:
  assumes "map te_frame pt' = map te_frame pt"
  shows "table_ok pt' = table_ok pt" "page_frames pt' = page_frames pt" "length pt' = length pt"
proof -
  have f: "page_frames pt = map fst (map te_frame pt)" "(\<forall>e \<in> set pt. valid e \<and> \<not> readOnly e) \<longleftrightarrow> (\<forall>f \<in> set (map te_frame pt). fst (snd f) \<and> \<not> snd (snd f))" for pt
    by (simp_all add: te_frame_def)
  show "table_ok pt' = table_ok pt" "page_frames pt' = page_frames pt" by (simp_all only: table_ok_def f assms)
  show "length pt' = length pt" using arg_cong [OF assms, of length] by simp
qed

lemma fresh_table_ok: "fresh_table pt \<Longrightarrow> table_ok pt"
  by (auto simp add: fresh_table_def table_ok_def in_set_conv_nth)

lemma table_ok_writable:
  assumes "table_ok pt" "writable_frame pt a"
  shows "int (a div 256) \<in> set (page_frames pt)"
proof -
  obtain e where e: "e \<in> set pt" "int (a div 256) = physicalPage e mod 2 ^ 32" using assms(2) by (auto simp add: writable_frame_def)
  then have "physicalPage e \<in> set (page_frames pt)" by simp
  moreover from this have "0 \<le> physicalPage e" "physicalPage e < 128" using assms(1) by (auto simp add: table_ok_def)
  ultimately show ?thesis using e(2) by simp
qed

text \<open>The bytes of a process lie in its frames.\<close>

lemma vmem_frame:
  assumes "table_ok pt" "va < 256 * length pt"
  shows "\<exists>a. (\<forall>mem. vmem pt mem va = mem a) \<and> int (a div 256) \<in> set (page_frames pt)"
proof -
  have i: "va div 256 < length pt" using assms(2) by (simp add: less_mult_imp_div_less mult.commute)
  then have f: "physicalPage (pt ! (va div 256)) \<in> set (page_frames pt)" by simp
  then have p: "0 \<le> physicalPage (pt ! (va div 256))" using assms(1) by (auto simp add: table_ok_def)
  let ?a = "nat (physicalPage (pt ! (va div 256))) * 256 + va mod 256"
  have "?a div 256 = nat (physicalPage (pt ! (va div 256)))" by simp
  then have "int (?a div 256) \<in> set (page_frames pt)" using p f by simp
  then show ?thesis by (intro exI [of _ ?a]) (simp add: vmem_def)
qed

lemma ReadMem_proc:
  assumes "Machine_paged m pt" "table_ok pt" "unat va < 256 * length pt"
  shows "\<exists>m'. Machine_ReadMem h va 1 m = Inr (Some (scast (vmem pt (mainMemory m) (unat va))), m')"
proof -
  have i: "unat va div 256 < length pt" using assms(3) by (simp add: less_mult_imp_div_less mult.commute)
  then have p: "physicalPage (pt ! (unat va div 256)) \<in> set (page_frames pt)" "pt ! (unat va div 256) \<in> set pt" by simp_all
  then have "0 \<le> physicalPage (pt ! (unat va div 256))" "physicalPage (pt ! (unat va div 256)) < 128" using assms(2) by (auto simp add: table_ok_def)
  then have "mmu pt va 1 False = Inr (nat (physicalPage (pt ! (unat va div 256))) * 256 + unat va mod 256)"
    using i p(2) assms(2) by (simp add: mmu_def table_ok_def Let_def)
  then show ?thesis using ReadMem_paged [OF assms(1), of 1] by (simp add: mem_value_def vmem_def)
qed

text \<open>Threads in the loop of \<open>Run\<close> have an address space.\<close>

definition points_ok :: "('g, 'n) nachos_scheme \<Rightarrow> bool" where
  "points_ok k \<longleftrightarrow> (\<forall>t \<ge> next_tid k. run_at k t = None)
     \<and> (\<forall>t. run_at k t = Some At_Instruction \<or> run_at k t = Some At_Tick \<longrightarrow> threads k t \<noteq> None \<longrightarrow> proc_view k t \<noteq> None)"

text \<open>What a step may do: the processes of other threads, their registers, page tables and memory, are as before.\<close>

definition isolated :: "('g, 'n) nachos_scheme \<Rightarrow> ('g, 'n) nachos_scheme \<Rightarrow> bool" where
  "isolated k k' \<longleftrightarrow> (\<forall>t pt. t \<noteq> currentThread k \<longrightarrow> proc_table k t = Some pt \<longrightarrow>
     proc_view k' t = proc_view k t \<and> (\<forall>va < 256 * length pt. vmem pt (mainMemory k') va = vmem pt (mainMemory k) va))"

lemma more_run_at: "kernel.more k' = kernel.more k \<Longrightarrow> run_at k' = run_at (k :: ('g, 'n) nachos_scheme)"
  by (cases k; cases k') simp

lemma others_step:
  assumes "iso_inv k \<longrightarrow> iso_inv k' \<and> other_procs k k'" "iso_inv k" "points_ok k"
  shows "iso_inv k' \<and> points_ok k' \<and> isolated k k' \<and> (\<forall>t. proc_view k' t \<noteq> None \<longrightarrow> proc_view k t \<noteq> None)"
proof -
  have o: "other_procs k k'" "iso_inv k'" using assms(1,2) by simp_all
  have r: "run_at k' = run_at k" using o(1) by (intro more_run_at) (simp add: other_procs_def)
  have n: "next_tid k \<le> next_tid k'" "\<And>t. threads k' t \<noteq> None \<Longrightarrow> proc_view k t \<noteq> None \<Longrightarrow> proc_view k' t \<noteq> None"
    using o(1) unfolding other_procs_def by blast+
  have n3: "threads k t \<noteq> None" if "t < next_tid k" "threads k' t \<noteq> None" for t
  proof
    assume "threads k t = None"
    moreover have "\<forall>t < next_tid k. threads k t = None \<longrightarrow> threads k' t = None" using o(1) by (simp add: other_procs_def)
    ultimately show False using that by simp
  qed
  have a: "run_at k t = None" if "next_tid k' \<le> t" for t using assms(3) n(1) that unfolding points_ok_def by (meson order_trans)
  have "proc_view k' t \<noteq> None" if p: "run_at k t = Some At_Instruction \<or> run_at k t = Some At_Tick" and t: "threads k' t \<noteq> None" for t
  proof -
    have "t < next_tid k" using assms(3) p unfolding points_ok_def by (metis not_le option.distinct(1))
    then have "threads k t \<noteq> None" using n3 t by blast
    then have "proc_view k t \<noteq> None" using assms(3) p unfolding points_ok_def by blast
    then show ?thesis using n(2) t by blast
  qed
  with a have "points_ok k'" unfolding points_ok_def r by blast
  then show ?thesis using o by (simp add: isolated_def other_procs_def)
qed

lemma set_point_simps [simp]:
  "proc_view (set_point p k) = proc_view k" "proc_table (set_point p k) = proc_table k" "iso_inv (set_point p k) = iso_inv k"
  "currentThread (set_point p k) = currentThread k" "next_tid (set_point p k) = next_tid k" "threads (set_point p k) = threads k"
  "mainMemory (set_point p k) = mainMemory k" "run_at (set_point p k) = (run_at k)(currentThread k \<mapsto> p)"
proof -
  show v: "proc_view (set_point p k) = proc_view k" by (simp add: fun_eq_iff proc_view_def set_point_def split: option.split)
  then show t: "proc_table (set_point p k) = proc_table k" by (simp add: fun_eq_iff proc_table_def)
  show "iso_inv (set_point p k) = iso_inv k" unfolding iso_inv_def v t by (simp add: set_point_def)
qed (simp_all add: set_point_def)

lemma points_set:
  assumes "points_ok k" "run_at k (currentThread k) \<noteq> None" "threads k (currentThread k) \<noteq> None \<Longrightarrow> proc_view k (currentThread k) \<noteq> None"
  shows "points_ok (set_point p k)"
proof -
  have "currentThread k < next_tid k" using assms(1,2) unfolding points_ok_def by (metis not_le)
  then show ?thesis using assms by (auto simp add: points_ok_def)
qed

lemma OneTick_step:
  fixes k :: "('g, 'n) nachos_scheme"
  assumes h: "device_handlers h" and s: "Run_OneTick h k = Inr k'" and i: "iso_inv k" "points_ok k" and p: "run_at k (currentThread k) = Some At_Tick"
  shows "iso_inv k' \<and> points_ok k' \<and> isolated k k' \<and> (\<forall>t. proc_view k' t \<noteq> None \<longrightarrow> proc_view k t \<noteq> None)"
proof -
  obtain y k1 where k1: "Interrupt_OneTick h k = Inr (y, k1)"
    and k': "k' = (case y of None \<Rightarrow> set_point At_Instruction k1 | Some u \<Rightarrow> push [F_Yield, F_SetStatus u] (set_point At_Instruction k1))"
    using s by (auto simp add: Run_OneTick_def bindE_eq_Inr Let_def)
  have "regs_ok (registers k)" using i(1) by (simp add: iso_inv_def)
  note kept = OneTick_kept [OF h k1 this]
  let ?k2 = "case y of None \<Rightarrow> k1 | Some u \<Rightarrow> push [F_Yield, F_SetStatus u] k1"
  have k2: "k' = set_point At_Instruction ?k2" by (simp add: k' push_def set_point_def split: option.split)
  have u: "user_kept k ?k2" "regs_ok (registers ?k2)" using kept by (simp_all add: push_def user_kept_def split: option.split)
  have o: "iso_inv ?k2 \<and> points_ok ?k2 \<and> isolated k ?k2 \<and> (\<forall>t. proc_view ?k2 t \<noteq> None \<longrightarrow> proc_view k t \<noteq> None)"
    using kept_inv [OF i(1) u] kept_others [OF u(1)] by (intro others_step i) simp
  have cur: "currentThread ?k2 = currentThread k" "run_at ?k2 = run_at k" using u(1) more_run_at [of ?k2 k] by (simp_all add: user_kept_def)
  have "points_ok k'" unfolding k2 using o p by (intro points_set) (simp_all add: cur points_ok_def)
  moreover have "isolated k k'" using o unfolding k2 by (simp add: isolated_def)
  ultimately show ?thesis using o unfolding k2 by simp
qed

lemma Exec_fork_step:
  fixes k :: "('g, 'n) nachos_scheme"
  assumes i: "iso_inv k" "points_ok k" and s: "PCB_Exec_fork pid k = Inr k'"
  shows "iso_inv k' \<and> points_ok k' \<and> proc_view k' = proc_view k \<and> mainMemory k' = mainMemory k"
proof -
  let ?t = "next_tid k"
  obtain p where p: "get_pcb (int pid) (na_tab k) = Inr p" using s by (auto simp add: PCB_Exec_fork_def bindE_eq_Inr)
  obtain k1 where k1: "run_cmd (C_Fork (int pid) []) k = Inr k1"
    and k': "k' = k1\<lparr>thread_name := (thread_name k1)(?t := pcb_filename p), run_at := (run_at k1)(?t \<mapsto> At_Start)\<rparr>"
    using s unfolding PCB_Exec_fork_def p by (auto simp add: bindE_eq_Inr Let_def simp del: run_cmd.simps)
  note f = Fork_switched [OF i(1) k1]
  have v: "proc_view k1 = proc_view k" "mainMemory k1 = mainMemory k" using f(1) by (simp_all add: switched_def fun_eq_iff)
  have v': "proc_view k' = proc_view k1" by (simp add: k' fun_eq_iff proc_view_def split: option.split)
  then have "proc_table k' = proc_table k1" by (simp add: fun_eq_iff proc_table_def)
  then have "iso_inv k' = iso_inv k1" unfolding iso_inv_def v' by (simp add: k')
  then have inv: "iso_inv k'" using switched_inv [OF i(1) f(1)] by simp
  have st: "iso_inv k1 \<and> points_ok k1 \<and> isolated k k1 \<and> (\<forall>t. proc_view k1 t \<noteq> None \<longrightarrow> proc_view k t \<noteq> None)"
    using switched_inv [OF i(1) f(1)] switched_others [OF f(1)] by (intro others_step i) simp
  then have "points_ok k'" using f(4) unfolding points_ok_def v' by (auto simp add: k')
  then show ?thesis using inv v v' by (simp add: k')
qed

lemma Exec_forks_step:
  fixes k :: "('g, 'n) nachos_scheme"
  shows "iso_inv k \<Longrightarrow> points_ok k \<Longrightarrow> foldE PCB_Exec_fork pids k = Inr k' \<Longrightarrow>
    iso_inv k' \<and> points_ok k' \<and> proc_view k' = proc_view k \<and> mainMemory k' = mainMemory k"
proof (induction pids arbitrary: k)
  case (Cons i pids)
  obtain k1 where k1: "PCB_Exec_fork i k = Inr k1" "foldE PCB_Exec_fork pids k1 = Inr k'" using Cons.prems(3) by (auto simp add: bindE_eq_Inr)
  from Exec_fork_step [OF Cons.prems(1,2) k1(1)] Cons.IH [OF _ _ k1(2)] show ?case by simp
qed simp

lemma user_of_inv:
  assumes i: "iso_inv k" and th: "threads k (currentThread k) = Some th" and v: "proc_view k (currentThread k) \<noteq> None"
  shows "\<exists>pt. proc_table k (currentThread k) = Some pt \<and> Machine_paged k pt \<and> table_ok pt \<and> set (page_frames pt) \<subseteq> Bitmap_used (gPhysPageBitMap k)
    \<and> (\<exists>sp. t_space th = Some sp \<and> as_numPages sp = int (length pt))"
proof -
  obtain sp where sp: "t_space th = Some sp" using v th unfolding view_space by auto
  then have w: "proc_view k (currentThread k) = Some (regs40 (registers k), pageTable k, as_numPages sp)" using th by (simp add: proc_view_def)
  from inv_view [OF i w] obtain pt where pt: "pageTable k = Some pt" "as_numPages sp = int (length pt)" "table_ok pt"
    "set (page_frames pt) \<subseteq> Bitmap_used (gPhysPageBitMap k)" by (auto simp add: proc_ok_def split: option.splits)
  have "pageTableSize k = snd (snd (regs40 (registers k), pageTable k, as_numPages sp))" using i w unfolding iso_inv_def by blast
  then have "Machine_paged k pt" using pt(1,2) i by (simp add: Machine_paged_def iso_inv_def)
  then show ?thesis using w sp pt by (auto simp add: proc_table_def)
qed

text \<open>
  The address space of the current thread is replaced, in frames that no other process has, and memory changes in those frames only: what an instruction does
  (the frames stay the same) and what the start of a program does (the frames are new).
\<close>

lemma inv_disjoint:
  assumes "iso_inv k" "t \<noteq> u" "proc_table k t = Some p" "proc_table k u = Some q"
  shows "set (page_frames p) \<inter> set (page_frames q) = {}"
  using assms unfolding iso_inv_def by blast

lemma proc_ok_mono:
  assumes "U \<subseteq> V" "proc_ok U w"
  shows "proc_ok V w"
proof -
  obtain R pt n where "w = (R, Some pt, n)" using assms(2) by (auto simp add: proc_ok_def split: option.splits)
  then show ?thesis using assms subset_trans [of "set (page_frames pt)" U V] by (simp add: proc_ok_def)
qed

lemma replaced_inv:
  fixes k k' :: "('g, 'n) nachos_scheme"
  assumes i: "iso_inv k" and f: "currentThread k' = currentThread k" "tlb k' = None" "toBeDestroyed k' = None" "next_tid k' = next_tid k"
      "\<And>t. threads k' t = None \<longleftrightarrow> threads k t = None"
    and b: "Bitmap_inv (gPhysPageBitMap k')" "128 \<le> numBits (gPhysPageBitMap k')" "Bitmap_used (gPhysPageBitMap k) \<subseteq> Bitmap_used (gPhysPageBitMap k')"
    and vo: "\<And>t. t \<noteq> currentThread k \<Longrightarrow> proc_view k' t = proc_view k t"
    and vn: "proc_view k' (currentThread k) = Some (regs40 (registers k'), Some pt, int (length pt))" "pageTableSize k' = int (length pt)" "regs_ok (registers k')"
      "table_ok pt" "set (page_frames pt) \<subseteq> Bitmap_used (gPhysPageBitMap k')"
    and d: "\<And>t q. t \<noteq> currentThread k \<Longrightarrow> proc_table k t = Some q \<Longrightarrow> set (page_frames pt) \<inter> set (page_frames q) = {}"
  shows "iso_inv k'"
proof -
  have ok: "proc_ok (Bitmap_used (gPhysPageBitMap k')) w" if w: "proc_view k' t = Some w" for t w
  proof (cases "t = currentThread k")
    case True
    then have "w = (regs40 (registers k'), Some pt, int (length pt))" using w vn(1) by simp
    then show ?thesis using vn(3-5) by (simp add: proc_ok_def)
  next
    case False
    then have "proc_ok (Bitmap_used (gPhysPageBitMap k)) w" using w vo inv_view [OF i] by simp
    then show ?thesis by (rule proc_ok_mono [OF b(3)])
  qed
  have to: "proc_table k' t = proc_table k t" if "t \<noteq> currentThread k" for t using vo [OF that] by (simp add: proc_table_def)
  have tn: "proc_table k' (currentThread k) = Some pt" using vn(1) by (simp add: proc_table_def)
  have dj: "set (page_frames x) \<inter> set (page_frames y) = {}" if x: "t \<noteq> u" "proc_table k' t = Some x" "proc_table k' u = Some y" for t u x y
  proof -
    consider "t = currentThread k" | "u = currentThread k" | "t \<noteq> currentThread k" "u \<noteq> currentThread k" by blast
    then show ?thesis
    proof cases
      case 1
      then have "x = pt" "proc_table k u = Some y" "u \<noteq> currentThread k" using x tn to [of u] by simp_all
      then show ?thesis using d [of u y] by simp
    next
      case 2
      then have "y = pt" "proc_table k t = Some x" "t \<noteq> currentThread k" using x tn to [of t] by simp_all
      then show ?thesis using d [of t x] by (simp add: Int_commute)
    next
      case 3
      then show ?thesis using x to inv_disjoint [OF i x(1)] by simp
    qed
  qed
  have "threads k' t = None" if "next_tid k \<le> t" for t using i that unfolding iso_inv_def f(5) by blast
  moreover have "pageTableSize k' = snd (snd w)" if "proc_view k' (currentThread k) = Some w" for w using that vn(1,2) by auto
  ultimately show ?thesis using f(2,3) vn(3) b(1,2) ok dj unfolding iso_inv_def f(1,4) by blast
qed

lemma replaced_isolated:
  assumes i: "iso_inv k" and vo: "\<And>t. t \<noteq> currentThread k \<Longrightarrow> proc_view k' t = proc_view k t"
    and m: "\<And>a. mainMemory k' a = mainMemory k a \<or> int (a div 256) \<in> S"
    and d: "\<And>t q. t \<noteq> currentThread k \<Longrightarrow> proc_table k t = Some q \<Longrightarrow> S \<inter> set (page_frames q) = {}"
  shows "isolated k k'"
  unfolding isolated_def
proof (intro allI impI conjI)
  fix t qt va
  assume t: "t \<noteq> currentThread k" "proc_table k t = Some qt"
  show "proc_view k' t = proc_view k t" by (rule vo [OF t(1)])
  assume va: "va < 256 * length qt"
  obtain R n where "proc_view k t = Some (R, Some qt, n)" using t(2) by (auto simp add: proc_table_def split: option.splits)
  from inv_view [OF i this] have "table_ok qt" by (simp add: proc_ok_def)
  from vmem_frame [OF this va] obtain a where a: "\<And>mem. vmem qt mem va = mem a" "int (a div 256) \<in> set (page_frames qt)" by blast
  then show "vmem qt (mainMemory k') va = vmem qt (mainMemory k) va" using m [of a] d [OF t] by auto
qed

text \<open>An instruction, with the system call it may make, changes memory only in the frames of its own process.\<close>

lemma sysk_step:
  fixes k :: "('g, 'n) nachos_scheme"
  assumes i: "iso_inv k" "points_ok k" and th: "threads k (currentThread k) = Some th" and vc: "proc_view k (currentThread k) \<noteq> None"
    and m: "Machine_OneInstruction (ExceptionHandler v) (to_sysk th k) = Inr m"
  shows "iso_inv (from_sysk m k) \<and> points_ok (from_sysk m k) \<and> isolated k (from_sysk m k) \<and> (\<forall>t. proc_view (from_sysk m k) t = None \<longleftrightarrow> proc_view k t = None)"
proof -
  let ?c = "currentThread k" and ?k1 = "from_sysk m k"
  from user_of_inv [OF i(1) th vc] obtain pt sp where pt: "proc_table k ?c = Some pt" "Machine_paged k pt" "table_ok pt"
      "set (page_frames pt) \<subseteq> Bitmap_used (gPhysPageBitMap k)" "t_space th = Some sp" "as_numPages sp = int (length pt)" by blast
  have "regs_ok (registers k)" using i(1) by (simp add: iso_inv_def)
  then have "user_state pt (mainMemory k) (to_sysk th k)" "registers (to_sysk th k) 0 = 0"
    using pt(2) by (auto simp add: user_state_def Machine_paged_def to_sysk_def machine.defs regs_ok_def)
  from OneInstruction_ok [OF this(1) ExceptionHandler_good this(2), of v] m
  have u: "user_state pt (mainMemory k) m" "registers m 0 = 0" by auto
  then obtain pt' where pt': "Machine_paged m pt'" "map te_frame pt' = map te_frame pt" by (auto simp add: user_state_def)
  note same = table_ok_cong [OF pt'(2)]
  have f: "threads ?k1 = threads k" "currentThread ?k1 = ?c" "registers ?k1 = registers m" "pageTable ?k1 = Some pt'" "pageTableSize ?k1 = int (length pt')" "tlb ?k1 = None"
      "mainMemory ?k1 = mainMemory m" "toBeDestroyed ?k1 = toBeDestroyed k" "next_tid ?k1 = next_tid k" "gPhysPageBitMap ?k1 = gPhysPageBitMap k" "run_at ?k1 = run_at k"
    using pt'(1) by (simp_all add: from_sysk_def Machine_paged_def)
  have vo: "proc_view ?k1 t = proc_view k t" if "t \<noteq> ?c" for t using that by (simp add: proc_view_def f split: option.split)
  have vn: "proc_view ?k1 ?c = Some (regs40 (registers ?k1), Some pt', int (length pt'))" using th pt(5,6) same(3) by (simp add: proc_view_def f)
  have d: "set (page_frames pt) \<inter> set (page_frames q) = {}" if "t \<noteq> ?c" "proc_table k t = Some q" for t q
    using inv_disjoint [OF i(1) _ pt(1) that(2)] that(1) by blast
  have r: "regs_ok (registers ?k1)" using u by (simp add: user_state_def regs_ok_def f)
  have b: "toBeDestroyed ?k1 = None" "Bitmap_inv (gPhysPageBitMap ?k1)" "128 \<le> numBits (gPhysPageBitMap ?k1)" using i(1) by (simp_all add: iso_inv_def f)
  have "iso_inv ?k1"
    using b vo vn r pt(3,4) d same f by (intro replaced_inv [OF i(1), of _ pt']) simp_all
  moreover have "isolated k ?k1"
    using vo d u(1) table_ok_writable [OF pt(3)] by (intro replaced_isolated [OF i(1), of _ "set (page_frames pt)"]) (auto simp add: f user_state_def)
  moreover have vv: "proc_view ?k1 t = None \<longleftrightarrow> proc_view k t = None" for t using vo [of t] vn vc by (cases "t = ?c") simp_all
  moreover have "points_ok ?k1" using i(2) unfolding points_ok_def f vv .
  ultimately show ?thesis by blast
qed

lemma Instruction_step:
  fixes k :: "('g, 'n) nachos_scheme"
  assumes s: "Run_OneInstruction v k = Inr k'" and i: "iso_inv k" "points_ok k" and p: "run_at k (currentThread k) = Some At_Instruction"
  shows "iso_inv k' \<and> points_ok k' \<and> isolated k k' \<and> (\<forall>t. proc_view k' t \<noteq> None \<longrightarrow> proc_view k t \<noteq> None)"
proof -
  let ?c = "currentThread k"
  obtain th m where th: "threads k ?c = Some th" and m: "Machine_OneInstruction (ExceptionHandler v) (to_sysk th k) = Inr m"
    using s by (auto simp add: Run_OneInstruction_def bindE_eq_Inr)
  have vc: "proc_view k ?c \<noteq> None" using i(2) p th unfolding points_ok_def by blast
  define k1 where "k1 = from_sysk m k"
  have k1: "iso_inv k1" "points_ok k1" "isolated k k1" "\<And>t. proc_view k1 t = None \<longleftrightarrow> proc_view k t = None"
    using sysk_step [OF i th vc m] by (simp_all add: k1_def)
  define k2 where "k2 = set_point At_Tick k1"
  have "run_at k1 (currentThread k1) \<noteq> None" "proc_view k1 (currentThread k1) \<noteq> None" using p vc k1(4) by (simp_all add: k1_def from_sysk_def)
  then have "points_ok k2" unfolding k2_def by (intro points_set k1(2))
  then have k2: "iso_inv k2" "points_ok k2" "isolated k k2" "proc_view k2 = proc_view k1" using k1 by (simp_all add: k2_def isolated_def)
  show ?thesis
  proof (cases "new_pids (na_tab k) (sk_tab m) = []")
    case True
    then have "k' = k2" using s th m by (simp add: Run_OneInstruction_def k2_def k1_def)
    then show ?thesis using k2 k1(4) by simp
  next
    case False
    let ?k3 = "push [F_SetStatus UserMode] (k2\<lparr>status := SystemMode\<rparr>)"
    have fo: "foldE PCB_Exec_fork (new_pids (na_tab k) (sk_tab m)) ?k3 = Inr k'"
      using s th m False by (simp add: Run_OneInstruction_def k2_def k1_def Let_def)
    have u3: "user_kept k2 ?k3" "registers ?k3 = registers k2" by (simp_all add: push_def user_kept_def)
    have i3: "iso_inv ?k3" using kept_inv [OF k2(1) u3(1)] u3(2) k2(1) by (simp add: iso_inv_def)
    have "iso_inv ?k3 \<and> points_ok ?k3 \<and> isolated k2 ?k3 \<and> (\<forall>t. proc_view ?k3 t \<noteq> None \<longrightarrow> proc_view k2 t \<noteq> None)"
      using i3 kept_others [OF u3(1)] by (intro others_step k2(1,2)) simp
    then have p3: "points_ok ?k3" by blast
    have v3: "proc_view ?k3 = proc_view k2" using kept_view_other [OF u3(1)] u3(2) by (simp add: fun_eq_iff)
    have "mainMemory ?k3 = mainMemory k2" by (simp add: push_def)
    with Exec_forks_step [OF i3 p3 fo] v3 show ?thesis using k2(3,4) k1(4) by (simp add: isolated_def)
  qed
qed

text \<open>A program that starts gets frames that no process has, and finds the image of its file there, and zeros after it.\<close>

definition sees_image :: "(nat \<Rightarrow> 8 word) \<Rightarrow> 8 word list \<Rightarrow> TranslationEntry list \<Rightarrow> (nat \<Rightarrow> 8 word) \<Rightarrow> bool" where
  "sees_image junk f pt mem \<longleftrightarrow> length pt = program_pages (load_header junk f)
     \<and> (\<forall>va < 256 * length pt. vmem pt mem va = (if va < length (noff_image f (load_header junk f)) then noff_image f (load_header junk f) ! va else 0))"

lemma Execute_eq:
  "AddrSpace_Execute sp m = Inr (m\<lparr>registers := (\<lambda>r. if r = NextPCReg then 4
     else if r = StackReg then word_of_int (as_numPages sp * PageSize - 16) else if r < NumTotalRegs then 0 else registers m r),
     pageTable := as_pageTable sp, pageTableSize := as_numPages sp\<rparr>)"
  by (simp add: AddrSpace_Execute_def InitRegisters_eq AddrSpace_RestoreState_def)

lemma Start_eq:
  fixes k :: "('g, 'n) nachos_scheme"
  assumes i: "iso_inv k" and p: "frames k (currentThread k) = []" "run_at k (currentThread k) = Some At_Start" and s: "starts_ok v k"
  shows "\<exists>f pt b' mem th R. program_of k = Some f \<and> threads k (currentThread k) = Some th \<and> fresh_table pt \<and> regs_ok R
    \<and> set (page_frames pt) \<inter> Bitmap_used (gPhysPageBitMap k) = {} \<and> Bitmap_inv b' \<and> 128 \<le> numBits b'
    \<and> Bitmap_used b' = Bitmap_used (gPhysPageBitMap k) \<union> set (page_frames pt) \<and> sees_image (env_junk v) f pt mem
    \<and> (\<forall>a. int (a div 256) \<notin> set (page_frames pt) \<longrightarrow> mem a = mainMemory k a)
    \<and> Run_Start v k = Inr (set_point At_Instruction (set_thread (currentThread k) (th\<lparr>t_space := Some \<lparr>as_pageTable = Some pt, as_numPages = int (length pt)\<rparr>\<rparr>)
         (k\<lparr>mainMemory := mem, registers := R, pageTable := Some pt, pageTableSize := int (length pt), gPhysPageBitMap := b', status := UserMode\<rparr>)))"
proof -
  obtain f where f: "program_of k = Some f" "wf_noff f (load_header (env_junk v) f)"
      "program_pages (load_header (env_junk v) f) \<le> card ({0..<128} - Bitmap_used (gPhysPageBitMap k))"
    using s p unfolding starts_ok_def by (auto split: option.splits)
  obtain th fn str where th: "threads k (currentThread k) = Some th" "PTable_GetFileName (processID th) (na_tab k) = Inr fn" "cstring fn = Inr str"
      "map_option (inode (na_tab k)) (dirent (na_tab k) str) = Some f"
    using f(1) by (auto simp add: program_of_def bindE_eq_Inr split: option.splits sum.splits)
  have b: "Bitmap_inv (gPhysPageBitMap k)" "128 \<le> numBits (gPhysPageBitMap k)" using i by (simp_all add: iso_inv_def)
  from Load_ok [OF b f(2,3), of AddrSpace_new k] obtain pt b' mem where
    l: "AddrSpace_Load (env_junk v) (Some f) AddrSpace_new (gPhysPageBitMap k, k)
      = Inr (True, \<lparr>as_pageTable = Some pt, as_numPages = int (length pt)\<rparr>, b', k\<lparr>mainMemory := mem\<rparr>)"
    "length pt = program_pages (load_header (env_junk v) f)" "fresh_table pt" "set (page_frames pt) \<inter> Bitmap_used (gPhysPageBitMap k) = {}" "Bitmap_inv b'"
    "numBits b' = numBits (gPhysPageBitMap k)" "Bitmap_used b' = Bitmap_used (gPhysPageBitMap k) \<union> set (page_frames pt)"
    "holds_image pt (mainMemory k) (noff_image f (load_header (env_junk v) f)) mem"
    by blast
  let ?R = "\<lambda>r. if r = NextPCReg then 4 else if r = StackReg then word_of_int (int (length pt) * PageSize - 16) else if r < NumTotalRegs then 0 else registers k r"
  have "Run_Start v k = Inr (set_point At_Instruction (set_thread (currentThread k) (th\<lparr>t_space := Some \<lparr>as_pageTable = Some pt, as_numPages = int (length pt)\<rparr>\<rparr>)
         (k\<lparr>mainMemory := mem, registers := ?R, pageTable := Some pt, pageTableSize := int (length pt), gPhysPageBitMap := b', status := UserMode\<rparr>)))"
    using th l(1) by (auto simp add: Run_Start_def StartProcess_def Execute_eq cong: if_cong)
  moreover have "regs_ok ?R" by (simp add: regs_ok_def reg_numbers StackReg_def)
  moreover have "sees_image (env_junk v) f pt mem" "\<forall>a. int (a div 256) \<notin> set (page_frames pt) \<longrightarrow> mem a = mainMemory k a"
    using l(2,8) by (simp_all add: sees_image_def holds_image_def)
  moreover have "128 \<le> numBits b'" using b(2) l(6) by simp
  ultimately show ?thesis using f(1) th(1) l(3,4,5,7) by (intro exI conjI) assumption+
qed

lemma Start_step:
  fixes k :: "('g, 'n) nachos_scheme"
  assumes r: "Run_Start v k = Inr k'" and i: "iso_inv k" "points_ok k"
    and p: "frames k (currentThread k) = []" "run_at k (currentThread k) = Some At_Start" and s: "starts_ok v k"
  shows "iso_inv k' \<and> points_ok k' \<and> isolated k k' \<and> (\<forall>t. t \<noteq> currentThread k \<longrightarrow> proc_view k' t = proc_view k t)
    \<and> (\<exists>f pt. program_of k = Some f \<and> proc_table k' (currentThread k) = Some pt \<and> sees_image (env_junk v) f pt (mainMemory k'))"
proof -
  let ?c = "currentThread k"
  from Start_eq [OF i(1) p s] r obtain f pt b' mem th R where h: "program_of k = Some f" "threads k ?c = Some th" "fresh_table pt" "regs_ok R"
      "set (page_frames pt) \<inter> Bitmap_used (gPhysPageBitMap k) = {}" "Bitmap_inv b'" "128 \<le> numBits b'"
      "Bitmap_used b' = Bitmap_used (gPhysPageBitMap k) \<union> set (page_frames pt)" "sees_image (env_junk v) f pt mem"
      "\<forall>a. int (a div 256) \<notin> set (page_frames pt) \<longrightarrow> mem a = mainMemory k a"
    and k': "k' = set_point At_Instruction (set_thread ?c (th\<lparr>t_space := Some \<lparr>as_pageTable = Some pt, as_numPages = int (length pt)\<rparr>\<rparr>)
         (k\<lparr>mainMemory := mem, registers := R, pageTable := Some pt, pageTableSize := int (length pt), gPhysPageBitMap := b', status := UserMode\<rparr>))"
    by auto
  define k1 where "k1 = set_thread ?c (th\<lparr>t_space := Some \<lparr>as_pageTable = Some pt, as_numPages = int (length pt)\<rparr>\<rparr>)
         (k\<lparr>mainMemory := mem, registers := R, pageTable := Some pt, pageTableSize := int (length pt), gPhysPageBitMap := b', status := UserMode\<rparr>)"
  have g: "threads k1 = (threads k)(?c \<mapsto> th\<lparr>t_space := Some \<lparr>as_pageTable = Some pt, as_numPages = int (length pt)\<rparr>\<rparr>)" "currentThread k1 = ?c" "registers k1 = R"
      "pageTable k1 = Some pt" "pageTableSize k1 = int (length pt)" "tlb k1 = tlb k" "mainMemory k1 = mem" "toBeDestroyed k1 = toBeDestroyed k"
      "next_tid k1 = next_tid k" "gPhysPageBitMap k1 = b'" "run_at k1 = run_at k"
    by (simp_all add: k1_def set_thread_def)
  have vo: "proc_view k1 t = proc_view k t" if "t \<noteq> ?c" for t using that by (simp add: proc_view_def g split: option.split)
  have vn: "proc_view k1 ?c = Some (regs40 (registers k1), Some pt, int (length pt))" by (simp add: proc_view_def g)
  have d: "set (page_frames pt) \<inter> set (page_frames q) = {}" if t: "proc_table k t = Some q" for t q
  proof -
    obtain S n where "proc_view k t = Some (S, Some q, n)" using t by (auto simp add: proc_table_def split: option.splits)
    from inv_view [OF i(1) this] have "set (page_frames q) \<subseteq> Bitmap_used (gPhysPageBitMap k)" by (simp add: proc_ok_def)
    then show ?thesis using h(5) by blast
  qed
  have "tlb k = None" "toBeDestroyed k = None" using i(1) by (simp_all add: iso_inv_def)
  then have i1: "iso_inv k1"
    using vo vn h d fresh_table_ok [OF h(3)] by (intro replaced_inv [OF i(1), of _ pt]) (simp_all add: g)
  have iso: "isolated k k1" using vo d h(10) by (intro replaced_isolated [OF i(1), of _ "set (page_frames pt)"]) (auto simp add: g)
  have "proc_view k1 t \<noteq> None" if "run_at k t = Some At_Instruction \<or> run_at k t = Some At_Tick" "threads k1 t \<noteq> None" for t
    using i(2) that vo [of t] vn by (cases "t = ?c") (auto simp add: points_ok_def g)
  then have p1: "points_ok k1" using i(2) unfolding points_ok_def g(9,11) by blast
  have "points_ok (set_point At_Instruction k1)" using vn p(2) by (intro points_set p1) (simp_all add: g)
  moreover have "k' = set_point At_Instruction k1" using k' by (simp add: k1_def)
  ultimately show ?thesis using i1 iso vo vn h(1,9) by (auto simp add: isolated_def proc_table_def g)
qed

section \<open>Properties\<close>

lemma start_inv:
  assumes "Nachos_start rnd b sv g garbage junk host name = Inr (tm, k)"
  shows "iso_inv k \<and> points_ok k"
proof -
  obtain k0 bm t s where k0: "Kernel_Initialize rnd b (Machine_new False) sv g [] = Inr (tm, k0)" and bm: "Bitmap_new garbage 256 = Inr bm"
    and k: "k = kernel.extend k0 \<lparr>na_tab = t, na_sem = s, gPhysPageBitMap = bm, thread_name = (\<lambda>_. [109, 97, 105, 110, 0]), run_at = [0 \<mapsto> At_Start]\<rparr>"
    using assms by (auto simp add: Nachos_start_def bindE_eq_Inr)
  note [simp] = Initialize_simps [OF k0]
  have m: "registers k0 = registers (Machine_new False)" "tlb k0 = tlb (Machine_new False)"
    using k0 by (auto simp add: Kernel_Initialize_def Timer_new_def Timer_SetInterrupt_def Interrupt_Schedule_def Interrupt_new_def
      interrupt.extend_def machine.extend_def bindE_eq_Inr Let_def split: if_splits)
  have e: "threads k = threads k0" "currentThread k = currentThread k0" "registers k = registers k0" "tlb k = tlb k0" "toBeDestroyed k = toBeDestroyed k0"
      "next_tid k = next_tid k0" "gPhysPageBitMap k = bm" "run_at k = [0 \<mapsto> At_Start]"
    by (simp_all add: k kernel.defs)
  have v: "proc_view k = (\<lambda>_. None)" by (simp add: fun_eq_iff proc_view_def e Thread_new_def)
  have t: "proc_table k = (\<lambda>_. None)" by (simp add: fun_eq_iff proc_table_def v)
  have "Bitmap_inv bm" "numBits bm = 256" using Bitmap_new_ok [of 256 garbage] bm by auto
  then show ?thesis unfolding iso_inv_def points_ok_def v t
    by (auto simp add: e m Machine_new_def regs_ok_def)
qed

lemma step_inv:
  fixes k :: "('g, 'n) nachos_scheme"
  assumes h: "device_handlers h" and s: "Nachos_step v h k = Inr k'" and i: "iso_inv k" "points_ok k" and ok: "starts_ok v k"
  shows "iso_inv k' \<and> points_ok k' \<and> isolated k k'
    \<and> (\<forall>t. proc_view k' t \<noteq> None \<longrightarrow> proc_view k t = None \<longrightarrow> t = currentThread k
         \<and> (\<exists>f pt. program_of k = Some f \<and> proc_table k' t = Some pt \<and> sees_image (env_junk v) f pt (mainMemory k')))"
proof -
  let ?c = "currentThread k"
  consider (kernel) "kernel_step h k = Inr k'" | (start) "frames k ?c = []" "run_at k ?c = Some At_Start" "Run_Start v k = Inr k'"
    | (instr) "run_at k ?c = Some At_Instruction" "Run_OneInstruction v k = Inr k'" | (tick) "run_at k ?c = Some At_Tick" "Run_OneTick h k = Inr k'"
    using s by (auto simp add: Nachos_step_def split: if_splits option.splits run_point.splits)
  then show ?thesis
  proof cases
    case kernel
    then have "iso_inv k \<longrightarrow> iso_inv k' \<and> other_procs k k'" using kernel_step_moves [OF h] by (simp add: kernel_moves_def)
    from others_step [OF this i] show ?thesis by blast
  next
    case start
    from Start_step [OF start(3) i start(1,2) ok] show ?thesis by metis
  next
    case instr
    from Instruction_step [OF instr(2) i instr(1)] show ?thesis by blast
  next
    case tick
    from OneTick_step [OF h tick(2) i tick(1)] show ?thesis by blast
  qed
qed

lemma reach_step_inv:
  assumes "Nachos_start rnd b sv g garbage junk host name = Inr (tm, k0)" "nachos_reach tm dev k0 k"
  shows "iso_inv k \<and> points_ok k"
  using assms(2)
proof (induction rule: nachos_reach.induct)
  case boot
  show ?case by (rule start_inv [OF assms(1)])
next
  case (step k v rnd k')
  then show ?case using step_inv [OF kdev.device_handlers_axioms] by blast
qed

text \<open>
  C1.  Processes are isolated.  In every state \<open>k\<close> that NachOS reaches from its start, with any number of processes, system calls, interrupts and time slices, and
  for every next step of the current thread, an instruction with its system call, a clock tick with its interrupt handlers, a piece of the kernel with its context
  switches, or the start of a program:
  no two processes have a frame in common; what the machine reads at an address of the current process is the byte of that process; the registers, the page
  table and every byte of each other process are after the step as before it; and a process appears only by the start of a program, whose bytes are
  then the image of its file, and zeros after it.
\<close>

theorem process_isolation:
  assumes "Nachos_start rnd b sv g garbage junk host name = Inr (tm, k0)" "nachos_reach tm dev k0 k"
    and "starts_ok v k" "Nachos_step v (kernel_devices rnd' tm dev) k = Inr k'"
  shows "(\<forall>t u p q. t \<noteq> u \<longrightarrow> proc_table k t = Some p \<longrightarrow> proc_table k u = Some q \<longrightarrow> set (page_frames p) \<inter> set (page_frames q) = {})
    \<and> (\<forall>pt va h. proc_table k (currentThread k) = Some pt \<longrightarrow> unat va < 256 * length pt \<longrightarrow>
         (\<exists>k''. Machine_ReadMem h va 1 k = Inr (Some (scast (vmem pt (mainMemory k) (unat va))), k'')))
    \<and> (\<forall>t pt. t \<noteq> currentThread k \<longrightarrow> proc_table k t = Some pt \<longrightarrow>
         proc_view k' t = proc_view k t \<and> (\<forall>va < 256 * length pt. vmem pt (mainMemory k') va = vmem pt (mainMemory k) va))
    \<and> (\<forall>t pt. proc_table k t = None \<longrightarrow> proc_table k' t = Some pt \<longrightarrow>
         t = currentThread k \<and> (\<exists>f. program_of k = Some f \<and> sees_image (env_junk v) f pt (mainMemory k')))"
proof -
  have i: "iso_inv k" "points_ok k" using reach_step_inv [OF assms(1,2)] by blast+
  note s = step_inv [OF kdev.device_handlers_axioms assms(4) i assms(3)]
  have tab: "proc_table k t = None \<longleftrightarrow> proc_view k t = None" for t
    using inv_view [OF i(1), of t] by (auto simp add: proc_table_def proc_ok_def split: option.splits)
  have "\<exists>k''. Machine_ReadMem h va 1 k = Inr (Some (scast (vmem pt (mainMemory k) (unat va))), k'')"
    if "proc_table k (currentThread k) = Some pt" "unat va < 256 * length pt" for pt va h
  proof -
    have v: "proc_view k (currentThread k) \<noteq> None" using that(1) tab by (metis option.distinct(1))
    then obtain th where "threads k (currentThread k) = Some th" unfolding view_space by blast
    from user_of_inv [OF i(1) this v] that show ?thesis using ReadMem_proc by fastforce
  qed
  moreover have "t = currentThread k \<and> (\<exists>f. program_of k = Some f \<and> sees_image (env_junk v) f pt (mainMemory k'))"
    if "proc_table k t = None" "proc_table k' t = Some pt" for t pt
  proof -
    have "proc_view k' t \<noteq> None" using that(2) by (auto simp add: proc_table_def split: option.splits)
    then show ?thesis using s that tab by (metis option.inject)
  qed
  ultimately show ?thesis using s inv_disjoint [OF i(1)] unfolding isolated_def by blast
qed

text \<open>A host with the executable \<open>tiny_noff\<close> as the file \<^verbatim>\<open>a\<close>, and the first steps: interrupts are switched on, and the program starts.\<close>

definition iso_host :: host where
  "iso_host = demo_host\<lparr>dirent := [[97] \<mapsto> 0], inode := (\<lambda>_. [])(0 := tiny_noff), next_inode := 1\<rparr>"

definition iso_boot :: "(Timer \<times> unit nachos) res" where
  "iso_boot = Nachos_start 0 False (\<lambda>_. None) () [] 0 iso_host [97, 0]"

lemma iso_boot_ok:
  "case iso_boot of Inl _ \<Rightarrow> False | Inr (tm, k0) \<Rightarrow> frames k0 (currentThread k0) \<noteq> [] \<and>
     (case kernel_step (kernel_devices 0 tm (\<lambda>_. 0)) k0 of Inl _ \<Rightarrow> False
      | Inr k \<Rightarrow> currentThread k = 0 \<and> frames k 0 = [] \<and> run_at k 0 = Some At_Start \<and> program_of k = Some tiny_noff)"
  by code_simp

theorem process_isolation_witness:
  "\<exists>tm k0 k k' pt. Nachos_start 0 False (\<lambda>_. None) () [] 0 iso_host [97, 0] = Inr (tm, k0) \<and> nachos_reach tm (\<lambda>_. 0) k0 k
    \<and> Nachos_step demo_env (kernel_devices 0 tm (\<lambda>_. 0)) k = Inr k' \<and> proc_table k 0 = None \<and> proc_table k' 0 = Some pt \<and> length pt = 5
    \<and> vmem pt (mainMemory k') 9 = 10 \<and> vmem pt (mainMemory k') 12 = 0"
proof -
  have "\<exists>x. iso_boot = Inr x" using iso_boot_ok by (auto split: sum.splits)
  then obtain tm k0 where boot: "iso_boot = Inr (tm, k0)" by auto
  note ok0 = iso_boot_ok [unfolded boot, simplified]
  obtain k where "kernel_step (kernel_devices 0 tm (\<lambda>_. 0)) k0 = Inr k" using ok0 by (auto split: sum.splits)
  then have b: "Nachos_start 0 False (\<lambda>_. None) () [] 0 iso_host [97, 0] = Inr (tm, k0)" "frames k0 (currentThread k0) \<noteq> []"
      "kernel_step (kernel_devices 0 tm (\<lambda>_. 0)) k0 = Inr k" "currentThread k = 0" "frames k 0 = []" "run_at k 0 = Some At_Start" "program_of k = Some tiny_noff"
    using ok0 boot [unfolded iso_boot_def] by simp_all
  have i0: "iso_inv k0" using start_inv [OF b(1)] by blast
  have "other_procs k0 k" using kernel_step_moves [OF kdev.device_handlers_axioms b(3)] i0 by (simp add: kernel_moves_def)
  then have bm: "gPhysPageBitMap k = gPhysPageBitMap k0" by (intro more_bitmap) (simp add: other_procs_def)
  obtain bm where "Bitmap_new [] 256 = Inr bm" "gPhysPageBitMap k0 = bm" using b(1) by (auto simp add: Nachos_start_def bindE_eq_Inr kernel.defs)
  then have u: "Bitmap_used (gPhysPageBitMap k) = {}" using Bitmap_new_ok [of 256 "[]"] bm by auto
  have "starts_ok demo_env k0" using b(2) by (simp add: starts_ok_def)
  moreover have "Nachos_step demo_env (kernel_devices 0 tm (\<lambda>_. 0)) k0 = Inr k" using b(2,3) by (simp add: Nachos_step_def)
  ultimately have r: "nachos_reach tm (\<lambda>_. 0) k0 k" by (rule nachos_reach.step [OF nachos_reach.boot])
  have ok: "starts_ok demo_env k" by (simp add: starts_ok_def b u tiny_wf)
  have inv: "iso_inv k" "points_ok k" using reach_step_inv [OF b(1) r] by blast+
  have c: "frames k (currentThread k) = []" "run_at k (currentThread k) = Some At_Start" by (simp_all add: b)
  obtain k' where k': "Run_Start demo_env k = Inr k'" using Start_eq [OF inv(1) c ok] by blast
  then have s: "Nachos_step demo_env (kernel_devices 0 tm (\<lambda>_. 0)) k = Inr k'" using b by (simp add: Nachos_step_def)
  obtain pt where pt: "proc_table k' 0 = Some pt" using Start_step [OF k' inv c ok] b(4) by auto
  have none: "proc_table k 0 = None"
  proof -
    have "proc_view k0 0 = None" using b(1) by (auto simp add: Nachos_start_def bindE_eq_Inr kernel.defs proc_view_def Initialize_simps Thread_new_def)
    then have "proc_view k 0 = None" using \<open>other_procs k0 k\<close> unfolding other_procs_def by metis
    then show ?thesis by (simp add: proc_table_def)
  qed
  from process_isolation [OF b(1) r ok s] none pt have "sees_image (env_junk demo_env) tiny_noff pt (mainMemory k')" using b(7) by auto
  then have "length pt = 5" "vmem pt (mainMemory k') 9 = 10" "vmem pt (mainMemory k') 12 = 0" by (simp_all add: sees_image_def tiny_wf)
  then show ?thesis using b(1) r s none pt by blast
qed

end
