(* ===== verification/Disk.thy ===== *)
theory Disk
  imports Host_Files
begin
text \<open>
  The simulated disk, \<^verbatim>\<open>code/machine/disk.cc\<close> and \<^verbatim>\<open>disk.h\<close>, and the synchronous disk of \<^verbatim>\<open>code/filesys/synchdisk.cc\<close>.

  The disk is a file of the host: a magic number, then the sectors.  A request reads or writes its sector at once and asks for an
  interrupt after a time that depends on the position of the head.  \<open>ReadSector\<close> and \<open>WriteSector\<close> wait for that interrupt; here the clock then has advanced by
  the latency of the request, and nothing else has happened meanwhile.  (The lock and the semaphore that make a thread wait are those of
  \<^verbatim>\<open>synch.cc\<close>.)
\<close>

section \<open>Model\<close>

definition SectorSize :: int where "SectorSize = 128 * 2"
definition SectorsPerTrack :: int where "SectorsPerTrack = 32"
definition NumTracks :: int where "NumTracks = 32"
definition NumSectors :: int where "NumSectors = SectorsPerTrack * NumTracks"
definition MagicNumber :: "32 word" where "MagicNumber = 0x456789ab"
definition MagicSize :: int where "MagicSize = 4"
definition DiskSize :: int where "DiskSize = MagicSize + NumSectors * SectorSize"
definition RotationTime :: int where "RotationTime = 500"
definition SeekTime :: int where "SeekTime = 500"

lemmas disk_consts = SectorSize_def SectorsPerTrack_def NumTracks_def NumSectors_def MagicSize_def DiskSize_def RotationTime_def SeekTime_def

record disk = host +
  fileno :: int
  active :: bool
  lastSector :: int
  bufferInit :: int
  disk_ticks :: int

text \<open>The bytes of an \<open>int\<close> in memory.\<close>

definition word_bytes :: "32 word \<Rightarrow> 8 word list" where
  "word_bytes w = [ucast w, ucast (drop_bit 8 w), ucast (drop_bit 16 w), ucast (drop_bit 24 w)]"

definition bytes_word :: "8 word list \<Rightarrow> 32 word" where
  "bytes_word bs = load32 (\<lambda>i. bs ! i) 0"

text \<open>\<open>Read\<close> of \<^verbatim>\<open>sysdep.cc\<close>.\<close>

definition Read :: "int \<Rightarrow> nat \<Rightarrow> 'h host_scheme \<Rightarrow> (8 word list \<times> 'h host_scheme) res" where
  "Read fd nBytes h = (let (retVal, bytes, h) = unix_read fd nBytes h in bindE (assertE (retVal = int nBytes)) (\<lambda>_. Inr (bytes, h)))"

definition Disk_new :: "8 word list \<Rightarrow> int \<Rightarrow> host \<Rightarrow> disk res" where
  "Disk_new diskname ticks h =
     bindE (OpenForReadWrite diskname False h) (\<lambda>(fd, h).
     bindE (if fd \<ge> 0
            then bindE (Read fd (nat MagicSize) h) (\<lambda>(magicNum, h). bindE (assertE (bytes_word magicNum = MagicNumber)) (\<lambda>_. Inr (fd, h)))
            else bindE (OpenForWrite diskname h) (\<lambda>(fd, h).
                 bindE (WriteFile fd (word_bytes MagicNumber) h) (\<lambda>h.
                 bindE (Lseek fd (DiskSize - 4) False h) (\<lambda>h.
                 bindE (WriteFile fd (word_bytes 0) h) (\<lambda>h. Inr (fd, h)))))) (\<lambda>(fd, h).
     Inr (host.extend h \<lparr>fileno = fd, active = False, lastSector = 0, bufferInit = 0, disk_ticks = ticks\<rparr>)))"

definition Disk_delete :: "'d disk_scheme \<Rightarrow> 'd disk_scheme res" where
  "Disk_delete d = Close (fileno d) d"

subsection \<open>The position of the head\<close>

text \<open>The time to seek, and from there to the next sector boundary.\<close>

definition Disk_TimeToSeek :: "int \<Rightarrow> 'd disk_scheme \<Rightarrow> int \<times> int" where
  "Disk_TimeToSeek newSector d =
     (let newTrack = newSector sdiv SectorsPerTrack;
          oldTrack = lastSector d sdiv SectorsPerTrack;
          seek = \<bar>newTrack - oldTrack\<bar> * SeekTime;
          over = (disk_ticks d + seek) smod RotationTime;
          rotation = (if over > 0 then RotationTime - over else 0) in
      (seek, rotation))"

definition Disk_ModuloDiff :: "int \<Rightarrow> int \<Rightarrow> int" where
  "Disk_ModuloDiff to from =
     (let toOffset = to smod SectorsPerTrack;
          fromOffset = from smod SectorsPerTrack in
      (toOffset - fromOffset + SectorsPerTrack) smod SectorsPerTrack)"

definition Disk_ComputeLatency :: "int \<Rightarrow> bool \<Rightarrow> 'd disk_scheme \<Rightarrow> int" where
  "Disk_ComputeLatency newSector writing d =
     (let (seek, rotation) = Disk_TimeToSeek newSector d;
          timeAfter = disk_ticks d + seek + rotation in
      if writing = False \<and> seek = 0
         \<and> (timeAfter - bufferInit d) sdiv RotationTime > Disk_ModuloDiff newSector (bufferInit d sdiv RotationTime)
      then RotationTime
      else
        let rotation = rotation + Disk_ModuloDiff newSector (timeAfter sdiv RotationTime) * RotationTime in
        seek + rotation + RotationTime)"

definition Disk_UpdateLast :: "int \<Rightarrow> 'd disk_scheme \<Rightarrow> 'd disk_scheme" where
  "Disk_UpdateLast newSector d =
     (let (seek, rotate) = Disk_TimeToSeek newSector d;
          d = (if seek \<noteq> 0 then d\<lparr>bufferInit := disk_ticks d + seek + rotate\<rparr> else d) in
      d\<lparr>lastSector := newSector\<rparr>)"

subsection \<open>Requests\<close>

text \<open>The result has the number of ticks until the interrupt of the request.\<close>

definition Disk_ReadRequest :: "int \<Rightarrow> 'd disk_scheme \<Rightarrow> (8 word list \<times> int \<times> 'd disk_scheme) res" where
  "Disk_ReadRequest sectorNumber d =
     (let ticks = Disk_ComputeLatency sectorNumber False d in
      bindE (assertE (\<not> active d)) (\<lambda>_.
      bindE (assertE (sectorNumber \<ge> 0 \<and> sectorNumber < NumSectors)) (\<lambda>_.
      bindE (Lseek (fileno d) (SectorSize * sectorNumber + MagicSize) False d) (\<lambda>d.
      bindE (Read (fileno d) (nat SectorSize) d) (\<lambda>(data, d).
      let d = d\<lparr>active := True\<rparr>; d = Disk_UpdateLast sectorNumber d in Inr (data, ticks, d))))))"

definition Disk_WriteRequest :: "int \<Rightarrow> 8 word list \<Rightarrow> 'd disk_scheme \<Rightarrow> (int \<times> 'd disk_scheme) res" where
  "Disk_WriteRequest sectorNumber data d =
     (let ticks = Disk_ComputeLatency sectorNumber True d in
      bindE (assertE (\<not> active d)) (\<lambda>_.
      bindE (assertE (sectorNumber \<ge> 0 \<and> sectorNumber < NumSectors)) (\<lambda>_.
      bindE (Lseek (fileno d) (SectorSize * sectorNumber + MagicSize) False d) (\<lambda>d.
      bindE (if length data < nat SectorSize then Inl Out_of_bounds else WriteFile (fileno d) (take (nat SectorSize) data) d) (\<lambda>d.
      let d = d\<lparr>active := True\<rparr>; d = Disk_UpdateLast sectorNumber d in Inr (ticks, d))))))"

definition Disk_CallBack :: "'d disk_scheme \<Rightarrow> 'd disk_scheme" where
  "Disk_CallBack d = d\<lparr>active := False\<rparr>"

definition SynchDisk_ReadSector :: "int \<Rightarrow> 'd disk_scheme \<Rightarrow> (8 word list \<times> 'd disk_scheme) res" where
  "SynchDisk_ReadSector sectorNumber d =
     bindE (Disk_ReadRequest sectorNumber d) (\<lambda>(data, ticks, d). Inr (data, Disk_CallBack (d\<lparr>disk_ticks := disk_ticks d + ticks\<rparr>)))"

definition SynchDisk_WriteSector :: "int \<Rightarrow> 8 word list \<Rightarrow> 'd disk_scheme \<Rightarrow> 'd disk_scheme res" where
  "SynchDisk_WriteSector sectorNumber data d =
     bindE (Disk_WriteRequest sectorNumber data d) (\<lambda>(ticks, d). Inr (Disk_CallBack (d\<lparr>disk_ticks := disk_ticks d + ticks\<rparr>)))"

section \<open>The head\<close>

lemma mod_diff: "0 \<le> a \<Longrightarrow> 0 \<le> b \<Longrightarrow> Disk_ModuloDiff a b = (a - b) mod 32"
proof -
  assume ab: "0 \<le> a" "0 \<le> b"
  have "0 \<le> a mod 32 - b mod 32 + 32" using pos_mod_bound [of 32 b] pos_mod_sign [of 32 a] by linarith
  then have "Disk_ModuloDiff a b = (a mod 32 - b mod 32 + 32) mod 32" using ab by (simp add: Disk_ModuloDiff_def disk_consts)
  also have "\<dots> = (a - b) mod 32" by (simp add: mod_simps)
  finally show ?thesis .
qed

lemma TimeToSeek_eq:
  assumes "0 \<le> s" "0 \<le> lastSector d" "0 \<le> disk_ticks d" "Disk_TimeToSeek s d = (seek, rot)"
  shows "seek = \<bar>s div 32 - lastSector d div 32\<bar> * 500" "0 \<le> rot" "rot < 500" "(disk_ticks d + seek + rot) mod 500 = 0"
proof -
  define t where "t = disk_ticks d + \<bar>s div 32 - lastSector d div 32\<bar> * 500"
  have t: "0 \<le> t" using assms(3) by (simp add: t_def)
  have e: "seek = \<bar>s div 32 - lastSector d div 32\<bar> * 500" "rot = (if t mod 500 > 0 then 500 - t mod 500 else 0)"
    using assms t by (auto simp add: Disk_TimeToSeek_def disk_consts Let_def t_def)
  show "seek = \<bar>s div 32 - lastSector d div 32\<bar> * 500" by (rule e(1))
  show "0 \<le> rot" "rot < 500" using e(2) pos_mod_bound [of 500 t] by auto
  have "(t + rot) mod 500 = 0"
  proof (cases "t mod 500 > 0")
    case True
    then have "t + rot = 500 * (t div 500 + 1)" using e(2) by (simp add: minus_mod_eq_mult_div algebra_simps flip: minus_mod_eq_mult_div)
    then show ?thesis by simp
  next
    case False
    then show ?thesis using e(2) by simp
  qed
  then show "(disk_ticks d + seek + rot) mod 500 = 0" by (simp add: t_def e(1))
qed

text \<open>The latency without the track buffer.\<close>

lemma ComputeLatency_cases:
  assumes "0 \<le> s" "0 \<le> lastSector d" "0 \<le> disk_ticks d" "Disk_TimeToSeek s d = (seek, rot)"
  shows "Disk_ComputeLatency s w d = 500 \<and> \<not> w \<and> seek = 0
    \<or> Disk_ComputeLatency s w d = seek + rot + ((s - (disk_ticks d + seek + rot) div 500) mod 32) * 500 + 500"
proof -
  have "0 \<le> disk_ticks d + seek + rot" using TimeToSeek_eq [OF assms] assms(3) by simp
  moreover from this have "0 \<le> (disk_ticks d + seek + rot) div 500" by simp
  ultimately show ?thesis using assms(1,4) mod_diff [of s "(disk_ticks d + seek + rot) div 500"]
    by (auto simp add: Disk_ComputeLatency_def disk_consts Let_def)
qed

lemma latency_pos:
  assumes "0 \<le> s" "0 \<le> lastSector d" "0 \<le> disk_ticks d"
  shows "500 \<le> Disk_ComputeLatency s w d"
proof -
  obtain seek rot where t: "Disk_TimeToSeek s d = (seek, rot)" by force
  have "0 \<le> seek" "0 \<le> rot" using TimeToSeek_eq [OF assms t] by auto
  moreover have "0 \<le> ((s - (disk_ticks d + seek + rot) div 500) mod 32) * 500" by simp
  ultimately show ?thesis using ComputeLatency_cases [OF assms t, of w] by linarith
qed

text \<open>
  What the track buffer holds: since the head came to its track, at \<open>bufferInit\<close>, the sector has begun to pass under it.
\<close>

definition in_track_buffer :: "int \<Rightarrow> 'd disk_scheme \<Rightarrow> bool" where
  "in_track_buffer s d \<longleftrightarrow> s div SectorsPerTrack = lastSector d div SectorsPerTrack
     \<and> (\<exists>n. bufferInit d \<le> n * RotationTime \<and> n * RotationTime < disk_ticks d \<and> n mod SectorsPerTrack = s mod SectorsPerTrack)"

lemma passed_iff: "(s - b) mod 32 < t - b \<longleftrightarrow> (\<exists>n \<ge> b. n < t \<and> n mod 32 = s mod (32 :: int))"
proof
  assume a: "(s - b) mod 32 < t - b"
  have "(b + (s - b) mod 32) mod 32 = s mod 32" by (simp add: mod_simps)
  moreover have "0 \<le> (s - b) mod 32" by simp
  ultimately show "\<exists>n \<ge> b. n < t \<and> n mod 32 = s mod 32" using a by (intro exI [of _ "b + (s - b) mod 32"]) simp
next
  assume "\<exists>n \<ge> b. n < t \<and> n mod 32 = s mod 32"
  then obtain n where n: "b \<le> n" "n < t" "n mod 32 = s mod 32" by blast
  have "(s - b) mod 32 = (n - b) mod 32" using n(3) by (metis mod_diff_left_eq)
  also have "\<dots> \<le> n - b" using n(1) by (intro zmod_le_nonneg_dividend) simp
  finally show "(s - b) mod 32 < t - b" using n(2) by simp
qed

lemma sdiv_500: "(500 * x) sdiv 500 = (x :: int)"
  by (rule linorder_cases [of x 0]) (simp_all add: signed_divide_int_def abs_mult sgn_mult)

lemma buffer_test:
  assumes s: "0 \<le> s" "0 \<le> lastSector d" "0 \<le> disk_ticks d" and b: "0 \<le> bufferInit d" "bufferInit d mod 500 = 0"
    and t: "Disk_TimeToSeek s d = (0, rot)"
  shows "(disk_ticks d + rot - bufferInit d) sdiv RotationTime > Disk_ModuloDiff s (bufferInit d sdiv RotationTime)
    \<longleftrightarrow> (\<exists>n. bufferInit d \<le> n * 500 \<and> n * 500 < disk_ticks d \<and> n mod 32 = s mod 32)"
proof -
  note e = TimeToSeek_eq [OF s t]
  define B T where "B = bufferInit d div 500" and "T = (disk_ticks d + rot) div 500"
  have BT: "bufferInit d = 500 * B" "disk_ticks d + rot = 500 * T" using b(2) e(4) by (auto simp add: B_def T_def)
  have B: "0 \<le> B" using b(1) BT(1) by simp
  have "(500 * T - 500 * B) sdiv 500 = T - B" unfolding right_diff_distrib [symmetric] by (rule sdiv_500)
  moreover have "bufferInit d sdiv 500 = B" unfolding BT(1) by (rule sdiv_500)
  moreover have "Disk_ModuloDiff s B = (s - B) mod 32" using mod_diff s(1) B by simp
  ultimately have "(disk_ticks d + rot - bufferInit d) sdiv RotationTime > Disk_ModuloDiff s (bufferInit d sdiv RotationTime) \<longleftrightarrow> (s - B) mod 32 < T - B"
    using BT by (simp add: disk_consts)
  also have "\<dots> \<longleftrightarrow> (\<exists>n \<ge> B. n < T \<and> n mod 32 = s mod 32)" by (rule passed_iff)
  also have "\<dots> \<longleftrightarrow> (\<exists>n. bufferInit d \<le> n * 500 \<and> n * 500 < disk_ticks d \<and> n mod 32 = s mod 32)"
  proof -
    have "n < T \<longleftrightarrow> n * 500 < disk_ticks d" for n using BT(2) e(2,3) by linarith
    then show ?thesis using BT(1) by (simp add: mult.commute)
  qed
  finally show ?thesis .
qed

text \<open>
  C40.  The latency of a disk request.  For a sector of the disk it is at least the transfer of one sector, and at most a seek over all tracks, a
  full rotation and the transfer.  A read is served from the track buffer, in the time of one transfer, exactly when the sector is on the track of the last request and
  has begun to pass under the head since the head came to that track.  For every other request, after the seek and the rotation the head is at the start of a
  sector, and that sector has the offset of the requested one in its track.  The time at which the head came to its track is always the start of a sector.
\<close>

theorem ComputeLatency_bounds:
  assumes "0 \<le> s" "s < NumSectors" "0 \<le> lastSector d" "lastSector d < NumSectors" "0 \<le> disk_ticks d" "0 \<le> bufferInit d" "bufferInit d mod RotationTime = 0"
  shows "RotationTime \<le> Disk_ComputeLatency s w d \<and> Disk_ComputeLatency s w d < (NumTracks - 1) * SeekTime + RotationTime + SectorsPerTrack * RotationTime
    \<and> (if \<not> w \<and> in_track_buffer s d then Disk_ComputeLatency s w d = RotationTime
       else let start = disk_ticks d + Disk_ComputeLatency s w d - RotationTime in
         start mod RotationTime = 0 \<and> start div RotationTime mod SectorsPerTrack = s mod SectorsPerTrack)
    \<and> 0 \<le> bufferInit (Disk_UpdateLast s d) \<and> bufferInit (Disk_UpdateLast s d) mod RotationTime = 0"
proof -
  obtain seek rot where t: "Disk_TimeToSeek s d = (seek, rot)" by force
  note e = TimeToSeek_eq [OF assms(1,3,5) t]
  have tr: "0 \<le> s div 32" "s div 32 \<le> 31" "0 \<le> lastSector d div 32" "lastSector d div 32 \<le> 31" using assms by (simp_all add: disk_consts)
  define now where "now = disk_ticks d + seek + rot"
  define k where "k = (s - now div 500) mod 32"
  have k: "0 \<le> k" "k \<le> 31" using pos_mod_bound [of 32 "s - now div 500"] by (simp_all add: k_def)
  have "\<bar>s div 32 - lastSector d div 32\<bar> \<le> 31" using tr by linarith
  then have seek: "0 \<le> seek" "seek \<le> 31 * 500" "seek = 0 \<longleftrightarrow> s div 32 = lastSector d div 32" using e(1) by auto
  have low: "500 \<le> Disk_ComputeLatency s w d" by (rule latency_pos [OF assms(1,3,5)])
  have u: "0 \<le> bufferInit (Disk_UpdateLast s d) \<and> bufferInit (Disk_UpdateLast s d) mod 500 = 0"
    using assms(5-7) e(2,4) seek(1) by (simp add: Disk_UpdateLast_def t disk_consts Let_def)
  have L: "Disk_ComputeLatency s w d = (if \<not> w \<and> in_track_buffer s d then 500 else seek + rot + k * 500 + 500)"
  proof (cases "seek = 0")
    case True
    from buffer_test [OF assms(1,3,5,6) _ t [unfolded True]] assms(7) have
      "(disk_ticks d + rot - bufferInit d) sdiv 500 > Disk_ModuloDiff s (bufferInit d sdiv 500) \<longleftrightarrow> in_track_buffer s d"
      using True seek(3) by (simp add: in_track_buffer_def disk_consts)
    then show ?thesis using True mod_diff [OF assms(1), of "now div 500"] assms(5) e(2) unfolding Disk_ComputeLatency_def t
      by (simp add: disk_consts Let_def k_def now_def sdiv_nonneg)
  next
    case False
    then have "\<not> in_track_buffer s d" using seek(3) by (simp add: in_track_buffer_def disk_consts)
    then show ?thesis using False mod_diff [OF assms(1), of "now div 500"] assms(5) e(2) seek(1) unfolding Disk_ComputeLatency_def t
      by (simp add: disk_consts Let_def k_def now_def sdiv_nonneg)
  qed
  show ?thesis
  proof (cases "\<not> w \<and> in_track_buffer s d")
    case True
    then show ?thesis using L u by (simp add: disk_consts)
  next
    case False
    then have L: "Disk_ComputeLatency s w d = seek + rot + k * 500 + 500" using L by auto
    have st: "disk_ticks d + Disk_ComputeLatency s w d - 500 = now + k * 500" by (simp add: L now_def)
    have "(now div 500 + k) mod 32 = (now div 500 + (s - now div 500)) mod 32" unfolding k_def by (rule mod_add_right_eq)
    then have "(now div 500 + k) mod 32 = s mod 32" by simp
    moreover have "now mod 500 = 0" using e(4) by (simp add: now_def)
    moreover have "(now + k * 500) div 500 = now div 500 + k" "(now + k * 500) mod 500 = now mod 500" by simp_all
    moreover have "Disk_ComputeLatency s w d < 31 * 500 + 500 + 32 * 500" using L seek e(3) k by linarith
    ultimately show ?thesis using False low st u by (auto simp add: disk_consts Let_def add.commute)
  qed
qed

theorem ComputeLatency_bounds_witness:
  "\<exists>d :: disk. lastSector d = 0 \<and> disk_ticks d = 1000 \<and> Disk_ComputeLatency 100 True d = 17500
    \<and> (1000 + Disk_ComputeLatency 100 True d - RotationTime) div RotationTime mod SectorsPerTrack = 100 mod SectorsPerTrack
    \<and> in_track_buffer 1 d \<and> Disk_ComputeLatency 1 False d = RotationTime"
proof -
  let ?d = "host.extend (undefined :: host) \<lparr>fileno = 3, active = False, lastSector = 0, bufferInit = 0, disk_ticks = 1000\<rparr> :: disk"
  have d: "lastSector ?d = 0" "disk_ticks ?d = 1000" "bufferInit ?d = 0" by (simp_all add: host.defs)
  moreover have "Disk_ComputeLatency 100 True ?d = 17500"
    by (simp add: Disk_ComputeLatency_def Disk_TimeToSeek_def Disk_ModuloDiff_def disk_consts host.defs Let_def)
  moreover have "in_track_buffer 1 ?d" using d by (auto simp add: in_track_buffer_def disk_consts intro: exI [of _ 1])
  ultimately show ?thesis using ComputeLatency_bounds [of 100 ?d True] ComputeLatency_bounds [of 1 ?d False]
    by (intro exI [of _ ?d]) (auto simp add: disk_consts Let_def)
qed

section \<open>The disk is an array of sectors\<close>

definition disk_inode :: "'d disk_scheme \<Rightarrow> nat" where
  "disk_inode d = fst (the (fdtab d (fileno d)))"

definition disk_sector :: "'d disk_scheme \<Rightarrow> nat \<Rightarrow> 8 word list" where
  "disk_sector d n = take 256 (drop (4 + 256 * n) (inode d (disk_inode d)))"

definition disk_ok :: "'d disk_scheme \<Rightarrow> bool" where
  "disk_ok d \<longleftrightarrow> \<not> active d \<and> 0 \<le> lastSector d \<and> 0 \<le> disk_ticks d \<and> fdtab d (fileno d) \<noteq> None \<and> length (inode d (disk_inode d)) = 4 + 1024 * 256"

lemma sector_splice:
  assumes "length c = 4 + 1024 * 256" "length data = 256" "n < 1024" "k < 1024"
  shows "take 256 (drop (4 + 256 * k) (splice (4 + 256 * n) data c)) = (if k = n then data else take 256 (drop (4 + 256 * k) c))"
proof -
  have sp: "splice (4 + 256 * n) data c = take (4 + 256 * n) c @ data @ drop (4 + 256 * n + 256) c" using assms by (simp add: splice_def)
  have len: "length (take (4 + 256 * n) c) = 4 + 256 * n" using assms by simp
  consider "k < n" | "k = n" | "n < k" by linarith
  then show ?thesis
  proof cases
    case 1
    then have "take 256 (drop (4 + 256 * k) (splice (4 + 256 * n) data c)) = take 256 (drop (4 + 256 * k) (take (4 + 256 * n) c))"
      using len by (simp add: sp)
    also have "\<dots> = take 256 (drop (4 + 256 * k) c)" using 1 by (simp add: take_drop min_def)
    finally show ?thesis using 1 by simp
  next
    case 2
    then show ?thesis using len assms(2) by (simp add: sp)
  next
    case 3
    then have "drop (4 + 256 * k) (splice (4 + 256 * n) data c) = drop (4 + 256 * k - (4 + 256 * n) - 256) (drop (4 + 256 * n + 256) c)"
      using len assms(2) by (simp add: sp)
    also have "\<dots> = drop (4 + 256 * k) c" using 3 by simp
    finally show ?thesis using 3 by simp
  qed
qed

lemma length_disk_sector: "disk_ok d \<Longrightarrow> n < 1024 \<Longrightarrow> length (disk_sector d n) = 256"
  by (simp add: disk_ok_def disk_sector_def)

lemma UpdateLast_simps [simp]:
  "fileno (Disk_UpdateLast s d) = fileno d" "fdtab (Disk_UpdateLast s d) = fdtab d" "inode (Disk_UpdateLast s d) = inode d"
  "disk_ticks (Disk_UpdateLast s d) = disk_ticks d" "lastSector (Disk_UpdateLast s d) = s" "disk.more (Disk_UpdateLast s d) = disk.more d"
  by (simp_all add: Disk_UpdateLast_def Let_def case_prod_beta)

lemma ReadSector_ok:
  assumes ok: "disk_ok d" and n: "n < 1024"
  shows "\<exists>d'. SynchDisk_ReadSector (int n) d = Inr (disk_sector d n, d') \<and> disk_ok d' \<and> disk_sector d' = disk_sector d \<and> disk.more d' = disk.more d"
proof -
  obtain i off where f: "fdtab d (fileno d) = Some (i, off)" using ok by (auto simp add: disk_ok_def)
  have i: "disk_inode d = i" by (simp add: disk_inode_def f)
  have c: "length (inode d i) = 4 + 1024 * 256" "0 \<le> lastSector d" "0 \<le> disk_ticks d" "\<not> active d" using ok by (simp_all add: disk_ok_def i)
  let ?d1 = "d\<lparr>fdtab := (fdtab d)(fileno d \<mapsto> (i, 256 * int n + 4)), fdtab := (fdtab d)(fileno d \<mapsto> (i, 256 * int n + 4 + 256))\<rparr>"
  let ?d2 = "Disk_UpdateLast (int n) (?d1\<lparr>active := True\<rparr>)"
  let ?d3 = "Disk_CallBack (?d2\<lparr>disk_ticks := disk_ticks d + Disk_ComputeLatency (int n) False d\<rparr>)"
  have nn: "nat (256 * int n + 4) = 4 + 256 * n" by (simp add: nat_add_distrib nat_mult_distrib)
  have len: "length (take 256 (drop (4 + 256 * n) (inode d i))) = 256" using c(1) n by simp
  have "SynchDisk_ReadSector (int n) d = Inr (disk_sector d n, ?d3)"
    using n c f len
    by (simp add: SynchDisk_ReadSector_def Disk_ReadRequest_def Lseek_def unix_lseek_def Read_def unix_read_def Let_def disk_consts disk_sector_def i nn)
  moreover have "disk_ok ?d3" using ok c(2,3) latency_pos [of "int n" d False] by (simp add: disk_ok_def Disk_CallBack_def disk_inode_def f)
  moreover have "disk_sector ?d3 = disk_sector d" by (rule ext) (simp add: disk_sector_def disk_inode_def Disk_CallBack_def f)
  moreover have "disk.more ?d3 = disk.more d" by (simp add: Disk_CallBack_def)
  ultimately show ?thesis by blast
qed

lemma WriteSector_ok:
  assumes ok: "disk_ok d" and n: "n < 1024" and data: "256 \<le> length data"
  shows "\<exists>d'. SynchDisk_WriteSector (int n) data d = Inr d' \<and> disk_ok d' \<and> disk.more d' = disk.more d
    \<and> (\<forall>k < 1024. disk_sector d' k = (if k = n then take 256 data else disk_sector d k))"
proof -
  obtain i off where f: "fdtab d (fileno d) = Some (i, off)" using ok by (auto simp add: disk_ok_def)
  have i: "disk_inode d = i" by (simp add: disk_inode_def f)
  have c: "length (inode d i) = 4 + 1024 * 256" "0 \<le> lastSector d" "0 \<le> disk_ticks d" "\<not> active d" using ok by (simp_all add: disk_ok_def i)
  let ?c = "splice (4 + 256 * n) (take 256 data) (inode d i)"
  let ?d1 = "d\<lparr>fdtab := (fdtab d)(fileno d \<mapsto> (i, 256 * int n + 4)), inode := (inode d)(i := ?c), fdtab := (fdtab d)(fileno d \<mapsto> (i, 256 * int n + 4 + 256))\<rparr>"
  let ?d2 = "Disk_UpdateLast (int n) (?d1\<lparr>active := True\<rparr>)"
  let ?d3 = "Disk_CallBack (?d2\<lparr>disk_ticks := disk_ticks d + Disk_ComputeLatency (int n) True d\<rparr>)"
  have nn: "nat (256 * int n + 4) = 4 + 256 * n" by (simp add: nat_add_distrib nat_mult_distrib)
  have len: "length (take 256 data) = 256" "take 256 data \<noteq> []" using data by auto
  have "SynchDisk_WriteSector (int n) data d = Inr ?d3"
    using n c f len data
    by (simp add: SynchDisk_WriteSector_def Disk_WriteRequest_def Lseek_def unix_lseek_def WriteFile_def unix_write_def Let_def disk_consts nn)
  moreover have "length ?c = 4 + 1024 * 256" using c(1) n len by (simp add: length_splice)
  then have "disk_ok ?d3" using c(2,3) latency_pos [of "int n" d True] by (simp add: disk_ok_def Disk_CallBack_def disk_inode_def f)
  moreover have "disk_sector ?d3 k = (if k = n then take 256 data else disk_sector d k)" if "k < 1024" for k
    using sector_splice [OF c(1) len(1) n that] by (simp add: disk_sector_def disk_inode_def Disk_CallBack_def f)
  moreover have "disk.more ?d3 = disk.more d" by (simp add: Disk_CallBack_def)
  ultimately show ?thesis by blast
qed

subsection \<open>Runs of sectors\<close>

text \<open>Reading and writing several sectors one after the other, with the operations of a device as arguments.\<close>

fun read_run :: "(int \<Rightarrow> 's \<Rightarrow> (8 word list \<times> 's) res) \<Rightarrow> int list \<Rightarrow> 's \<Rightarrow> (8 word list \<times> 's) res" where
  "read_run rsec [] s = Inr ([], s)"
| "read_run rsec (n # ns) s = bindE (rsec n s) (\<lambda>(data, s). bindE (read_run rsec ns s) (\<lambda>(rest, s). Inr (data @ rest, s)))"

fun write_run :: "(int \<Rightarrow> 8 word list \<Rightarrow> 's \<Rightarrow> 's res) \<Rightarrow> int list \<Rightarrow> 8 word list \<Rightarrow> 's \<Rightarrow> 's res" where
  "write_run wsec [] buf s = Inr s"
| "write_run wsec (n # ns) buf s = bindE (wsec n buf s) (\<lambda>s. write_run wsec ns (drop 256 buf) s)"

text \<open>What a block device promises: sectors of 256 bytes that keep what was written; \<open>ext\<close> is what the device has no part in.\<close>

locale block_device =
  fixes ok :: "'s \<Rightarrow> bool"
    and sec :: "'s \<Rightarrow> nat \<Rightarrow> 8 word list"
    and rsec :: "int \<Rightarrow> 's \<Rightarrow> (8 word list \<times> 's) res"
    and wsec :: "int \<Rightarrow> 8 word list \<Rightarrow> 's \<Rightarrow> 's res"
    and ext :: "'s \<Rightarrow> 'x"
  assumes sec_length: "ok s \<Longrightarrow> n < 1024 \<Longrightarrow> length (sec s n) = 256"
    and rsec_ok: "ok s \<Longrightarrow> n < 1024 \<Longrightarrow> \<exists>s'. rsec (int n) s = Inr (sec s n, s') \<and> ok s' \<and> sec s' = sec s \<and> ext s' = ext s"
    and wsec_ok: "ok s \<Longrightarrow> n < 1024 \<Longrightarrow> 256 \<le> length data \<Longrightarrow>
      \<exists>s'. wsec (int n) data s = Inr s' \<and> ok s' \<and> ext s' = ext s \<and> (\<forall>k < 1024. sec s' k = (if k = n then take 256 data else sec s k))"
begin

lemma read_run_ok:
  assumes "ok s" "\<forall>n \<in> set ns. n < 1024"
  shows "\<exists>s'. read_run rsec (map int ns) s = Inr (concat (map (sec s) ns), s') \<and> ok s' \<and> sec s' = sec s \<and> ext s' = ext s"
  using assms
proof (induction ns arbitrary: s)
  case (Cons n ns)
  obtain s1 where s1: "rsec (int n) s = Inr (sec s n, s1)" "ok s1" "sec s1 = sec s" "ext s1 = ext s" using rsec_ok [of s n] Cons.prems by auto
  then show ?case using Cons.IH [of s1] Cons.prems(2) by auto
qed simp

lemma write_run_ok:
  assumes "ok s" "\<forall>n \<in> set ns. n < 1024" "distinct ns" "length buf = 256 * length ns"
  shows "\<exists>s'. write_run wsec (map int ns) buf s = Inr s' \<and> ok s' \<and> ext s' = ext s \<and> concat (map (sec s') ns) = buf
    \<and> (\<forall>k < 1024. k \<notin> set ns \<longrightarrow> sec s' k = sec s k)"
  using assms
proof (induction ns arbitrary: s buf)
  case (Cons n ns)
  obtain s1 where s1: "wsec (int n) buf s = Inr s1" "ok s1" "ext s1 = ext s" "\<forall>k < 1024. sec s1 k = (if k = n then take 256 buf else sec s k)"
    using wsec_ok [of s n buf] Cons.prems by auto
  have "length (drop 256 buf) = 256 * length ns" using Cons.prems(4) by simp
  from Cons.IH [OF s1(2) _ _ this] Cons.prems(2,3) obtain s2 where s2: "write_run wsec (map int ns) (drop 256 buf) s1 = Inr s2" "ok s2" "ext s2 = ext s1"
      "concat (map (sec s2) ns) = drop 256 buf" "\<forall>k < 1024. k \<notin> set ns \<longrightarrow> sec s2 k = sec s1 k" by auto
  have "sec s2 n = take 256 buf" using s2(5) s1(4) Cons.prems(2,3) by auto
  then have "concat (map (sec s2) (n # ns)) = buf" using s2(4) by simp
  moreover have "write_run wsec (map int (n # ns)) buf s = Inr s2" using s1(1) s2(1) by simp
  moreover have "\<forall>k < 1024. k \<notin> set (n # ns) \<longrightarrow> sec s2 k = sec s k" using s1(4) s2(5) by auto
  moreover have "ext s2 = ext s" using s2(3) s1(3) by simp
  ultimately show ?case using s2(2) by blast
qed simp

lemma run_length: "ok s \<Longrightarrow> \<forall>n \<in> set ns. n < 1024 \<Longrightarrow> length (concat (map (sec s) ns)) = 256 * length ns"
  by (induction ns) (auto simp add: sec_length)

end

interpretation dk: block_device disk_ok disk_sector SynchDisk_ReadSector SynchDisk_WriteSector disk.more
  by unfold_locales (fact length_disk_sector, fact ReadSector_ok, rule WriteSector_ok)

end
