(* ===== verification/Disk_File.thy ===== *)
theory Disk_File
  imports Disk Bitmap
begin
text \<open>
  Files on the disk: \<^verbatim>\<open>code/filesys/filehdr.cc\<close>, and \<open>OpenFile\<close> of \<^verbatim>\<open>openfile.cc\<close> as it is compiled without \<^verbatim>\<open>FILESYS_STUB\<close>.

  A file header fills one sector: the length of the file, the number of its data sectors and their numbers, 32-bit integers all.  Reading and
  writing go sector by sector through a buffer; a write that does not begin or end at a sector boundary first reads the sectors at its ends.  Memory
  that the code does not initialise is \<open>junk\<close>.  Positions and lengths of requests are taken to stay below \<open>2 ^ 31\<close>, where the sums of the code do not overflow.
\<close>

section \<open>Model\<close>

subsection \<open>File headers\<close>

definition NumDirect :: nat where "NumDirect = (256 - 2 * 4) div 4"
definition MaxFileSize :: int where "MaxFileSize = int NumDirect * SectorSize"

record FileHeader =
  numBytes :: "32 word"
  fh_numSectors :: "32 word"
  dataSectors :: "32 word list"

text \<open>One round of the loop of \<open>Allocate\<close>.\<close>

definition Allocate_step :: "int \<Rightarrow> FileHeader \<times> bitmap \<Rightarrow> (FileHeader \<times> bitmap) res" where
  "Allocate_step i = (\<lambda>(h, freeMap).
     bindE (Bitmap_FindAndSet freeMap) (\<lambda>(s, freeMap).
     bindE (writeA (dataSectors h) i (word_of_int s)) (\<lambda>ds.
     bindE (assertE (s \<ge> 0)) (\<lambda>_. Inr (h\<lparr>dataSectors := ds\<rparr>, freeMap)))))"

definition FileHeader_Allocate :: "int \<Rightarrow> FileHeader \<Rightarrow> bitmap \<Rightarrow> (bool \<times> FileHeader \<times> bitmap) res" where
  "FileHeader_Allocate fileSize h freeMap =
     (let h = h\<lparr>numBytes := word_of_int fileSize\<rparr>;
          h = h\<lparr>fh_numSectors := word_of_int (divRoundUp fileSize SectorSize)\<rparr> in
      bindE (Bitmap_NumClear freeMap) (\<lambda>clear.
      if clear < sint (fh_numSectors h) then Inr (False, h, freeMap)
      else
        bindE (foldE Allocate_step [0..sint (fh_numSectors h) - 1] (h, freeMap)) (\<lambda>(h, freeMap).
        Inr (True, h, freeMap))))"

definition FileHeader_Deallocate :: "FileHeader \<Rightarrow> bitmap \<Rightarrow> bitmap res" where
  "FileHeader_Deallocate h freeMap =
     foldE (\<lambda>i freeMap.
         bindE (readA (dataSectors h) i) (\<lambda>s.
         bindE (Bitmap_Test freeMap (sint s)) (\<lambda>t.
         bindE (assertE t) (\<lambda>_. Bitmap_Clear freeMap (sint s)))))
       [0..sint (fh_numSectors h) - 1] freeMap"

text \<open>The header as it lies in memory.\<close>

definition hdr_bytes :: "FileHeader \<Rightarrow> 8 word list" where
  "hdr_bytes h = word_bytes (numBytes h) @ word_bytes (fh_numSectors h) @ concat (map word_bytes (dataSectors h))"

definition bytes_hdr :: "8 word list \<Rightarrow> FileHeader" where
  "bytes_hdr bs = \<lparr>numBytes = bytes_word (take 4 bs), fh_numSectors = bytes_word (take 4 (drop 4 bs)),
     dataSectors = map (\<lambda>i. bytes_word (take 4 (drop (8 + 4 * i) bs))) [0..<NumDirect]\<rparr>"

text \<open>A new header is not initialised.\<close>

definition FileHeader_new :: "(nat \<Rightarrow> 8 word) \<Rightarrow> FileHeader" where
  "FileHeader_new junk = bytes_hdr (map junk [0..<256])"

definition FileHeader_FetchFrom :: "int \<Rightarrow> 'd disk_scheme \<Rightarrow> (FileHeader \<times> 'd disk_scheme) res" where
  "FileHeader_FetchFrom sector d = bindE (SynchDisk_ReadSector sector d) (\<lambda>(data, d). Inr (bytes_hdr data, d))"

definition FileHeader_WriteBack :: "int \<Rightarrow> FileHeader \<Rightarrow> 'd disk_scheme \<Rightarrow> 'd disk_scheme res" where
  "FileHeader_WriteBack sector h d = SynchDisk_WriteSector sector (hdr_bytes h) d"

definition FileHeader_ByteToSector :: "int \<Rightarrow> FileHeader \<Rightarrow> int res" where
  "FileHeader_ByteToSector offset h = bindE (readA (dataSectors h) (offset sdiv SectorSize)) (\<lambda>s. Inr (sint s))"

definition FileHeader_FileLength :: "FileHeader \<Rightarrow> int" where
  "FileHeader_FileLength h = sint (numBytes h)"

subsection \<open>Open files\<close>

record DiskFile =
  hdr :: FileHeader
  seekPosition :: int
  df_type :: int

definition DiskFile_new :: "int \<Rightarrow> int \<Rightarrow> 'd disk_scheme \<Rightarrow> (DiskFile \<times> 'd disk_scheme) res" where
  "DiskFile_new sector typ d =
     bindE (FileHeader_FetchFrom sector d) (\<lambda>(h, d). Inr (\<lparr>hdr = h, seekPosition = 0, df_type = typ\<rparr>, d))"

definition DiskFile_Seek :: "int \<Rightarrow> DiskFile \<Rightarrow> DiskFile" where
  "DiskFile_Seek position f = f\<lparr>seekPosition := position\<rparr>"

fun ReadAt_loop :: "FileHeader \<Rightarrow> int list \<Rightarrow> 'd disk_scheme \<Rightarrow> (8 word list \<times> 'd disk_scheme) res" where
  "ReadAt_loop h [] d = Inr ([], d)"
| "ReadAt_loop h (i # is) d =
     bindE (FileHeader_ByteToSector (i * SectorSize) h) (\<lambda>s.
     bindE (SynchDisk_ReadSector s d) (\<lambda>(data, d).
     bindE (ReadAt_loop h is d) (\<lambda>(rest, d). Inr (data @ rest, d))))"

fun WriteAt_loop :: "FileHeader \<Rightarrow> int list \<Rightarrow> 8 word list \<Rightarrow> 'd disk_scheme \<Rightarrow> 'd disk_scheme res" where
  "WriteAt_loop h [] buf d = Inr d"
| "WriteAt_loop h (i # is) buf d =
     bindE (FileHeader_ByteToSector (i * SectorSize) h) (\<lambda>s.
     bindE (SynchDisk_WriteSector s buf d) (\<lambda>d. WriteAt_loop h is (drop (nat SectorSize) buf) d))"

text \<open>\<open>bcopy\<close> out of and into a buffer.\<close>

definition bcopy_from :: "8 word list \<Rightarrow> int \<Rightarrow> int \<Rightarrow> 8 word list res" where
  "bcopy_from buf off n = (if 0 \<le> off \<and> off + n \<le> int (length buf) then Inr (take (nat n) (drop (nat off) buf)) else Inl Out_of_bounds)"

definition bcopy_to :: "8 word list \<Rightarrow> int \<Rightarrow> 8 word list \<Rightarrow> 8 word list res" where
  "bcopy_to buf off bytes =
     (if 0 \<le> off \<and> off + int (length bytes) \<le> int (length buf)
      then Inr (take (nat off) buf @ bytes @ drop (nat off + length bytes) buf) else Inl Out_of_bounds)"

definition DiskFile_ReadAt :: "int \<Rightarrow> int \<Rightarrow> DiskFile \<Rightarrow> 'd disk_scheme \<Rightarrow> (int \<times> 8 word list \<times> 'd disk_scheme) res" where
  "DiskFile_ReadAt n position f d =
     (let fileLength = FileHeader_FileLength (hdr f) in
      if n \<le> 0 \<or> position \<ge> fileLength then Inr (0, [], d)
      else
        let n = (if position + n > fileLength then fileLength - position else n);
            firstSector = divRoundDown position SectorSize;
            lastSector = divRoundDown (position + n - 1) SectorSize in
        bindE (ReadAt_loop (hdr f) [firstSector..lastSector] d) (\<lambda>(buf, d).
        bindE (bcopy_from buf (position - firstSector * SectorSize) n) (\<lambda>bytes. Inr (n, bytes, d))))"

definition DiskFile_WriteAt :: "(nat \<Rightarrow> 8 word) \<Rightarrow> 8 word list \<Rightarrow> int \<Rightarrow> int \<Rightarrow> DiskFile \<Rightarrow> 'd disk_scheme \<Rightarrow> (int \<times> 'd disk_scheme) res" where
  "DiskFile_WriteAt junk from n position f d =
     (let fileLength = FileHeader_FileLength (hdr f) in
      if n \<le> 0 \<or> position \<ge> fileLength then Inr (0, d)
      else
        let n = (if position + n > fileLength then fileLength - position else n);
            firstSector = divRoundDown position SectorSize;
            lastSector = divRoundDown (position + n - 1) SectorSize;
            numSectors = 1 + lastSector - firstSector;
            buf = map junk [0..<nat (numSectors * SectorSize)];
            firstAligned = (position = firstSector * SectorSize);
            lastAligned = (position + n = (lastSector + 1) * SectorSize) in
        bindE (if \<not> firstAligned
               then bindE (DiskFile_ReadAt SectorSize (firstSector * SectorSize) f d) (\<lambda>(_, bytes, d).
                    bindE (bcopy_to buf 0 bytes) (\<lambda>buf. Inr (buf, d)))
               else Inr (buf, d)) (\<lambda>(buf, d).
        bindE (if \<not> lastAligned \<and> (firstSector \<noteq> lastSector \<or> firstAligned)
               then bindE (DiskFile_ReadAt SectorSize (lastSector * SectorSize) f d) (\<lambda>(_, bytes, d).
                    bindE (bcopy_to buf ((lastSector - firstSector) * SectorSize) bytes) (\<lambda>buf. Inr (buf, d)))
               else Inr (buf, d)) (\<lambda>(buf, d).
        bindE (bcopy_from from 0 n) (\<lambda>bytes.
        bindE (bcopy_to buf (position - firstSector * SectorSize) bytes) (\<lambda>buf.
        bindE (WriteAt_loop (hdr f) [firstSector..lastSector] buf d) (\<lambda>d. Inr (n, d)))))))"

definition DiskFile_Read :: "int \<Rightarrow> DiskFile \<Rightarrow> 'd disk_scheme \<Rightarrow> (int \<times> 8 word list \<times> DiskFile \<times> 'd disk_scheme) res" where
  "DiskFile_Read n f d =
     bindE (DiskFile_ReadAt n (seekPosition f) f d) (\<lambda>(result, bytes, d).
     Inr (result, bytes, f\<lparr>seekPosition := seekPosition f + result\<rparr>, d))"

definition DiskFile_Write :: "(nat \<Rightarrow> 8 word) \<Rightarrow> 8 word list \<Rightarrow> int \<Rightarrow> DiskFile \<Rightarrow> 'd disk_scheme \<Rightarrow> (int \<times> DiskFile \<times> 'd disk_scheme) res" where
  "DiskFile_Write junk from n f d =
     bindE (DiskFile_WriteAt junk from n (seekPosition f) f d) (\<lambda>(result, d).
     Inr (result, f\<lparr>seekPosition := seekPosition f + result\<rparr>, d))"

definition DiskFile_Length :: "DiskFile \<Rightarrow> int" where
  "DiskFile_Length f = FileHeader_FileLength (hdr f)"

section \<open>A file is a sequence of bytes\<close>

text \<open>The data sectors of a file, and headers as \<open>Allocate\<close> makes them.\<close>

definition hdr_sectors :: "FileHeader \<Rightarrow> nat list" where
  "hdr_sectors h = map unat (take (unat (fh_numSectors h)) (dataSectors h))"

definition hdr_ok :: "FileHeader \<Rightarrow> bool" where
  "hdr_ok h \<longleftrightarrow> length (dataSectors h) = 62 \<and> unat (numBytes h) \<le> 62 * 256 \<and> unat (fh_numSectors h) = (unat (numBytes h) + 255) div 256
     \<and> distinct (hdr_sectors h) \<and> set (hdr_sectors h) \<subseteq> {0..<1024}"

definition hdr_data :: "FileHeader \<Rightarrow> 'd disk_scheme \<Rightarrow> 8 word list" where
  "hdr_data h d = concat (map (disk_sector d) (hdr_sectors h))"

definition contents :: "FileHeader \<Rightarrow> 'd disk_scheme \<Rightarrow> 8 word list" where
  "contents h d = take (unat (numBytes h)) (hdr_data h d)"

lemma hdr_ok_facts:
  assumes "hdr_ok h"
  shows "sint (numBytes h) = int (unat (numBytes h))" "length (hdr_sectors h) = (unat (numBytes h) + 255) div 256" "length (hdr_sectors h) \<le> 62"
    "sint (fh_numSectors h) = int (length (hdr_sectors h))" "\<forall>n \<in> set (hdr_sectors h). n < 1024"
proof -
  have n: "unat (numBytes h) \<le> 15872" "unat (fh_numSectors h) = (unat (numBytes h) + 255) div 256" "length (dataSectors h) = 62"
    using assms by (simp_all add: hdr_ok_def)
  have k: "unat (fh_numSectors h) \<le> 62" using n by simp
  show len: "length (hdr_sectors h) = (unat (numBytes h) + 255) div 256" using n k by (simp add: hdr_sectors_def)
  then show "length (hdr_sectors h) \<le> 62" using n by simp
  show "sint (numBytes h) = int (unat (numBytes h))" using n(1) by (intro sint_unat) simp
  show "sint (fh_numSectors h) = int (length (hdr_sectors h))" using len n(2) k sint_unat [of "fh_numSectors h"] by simp
  show "\<forall>n \<in> set (hdr_sectors h). n < 1024" using assms by (auto simp add: hdr_ok_def)
qed

lemma ByteToSector_ok:
  assumes "hdr_ok h" "i < length (hdr_sectors h)"
  shows "FileHeader_ByteToSector (int i * SectorSize) h = Inr (int (hdr_sectors h ! i))"
proof -
  have len: "length (hdr_sectors h) \<le> 62" "length (dataSectors h) = 62" using hdr_ok_facts [OF assms(1)] assms(1) by (simp_all add: hdr_ok_def)
  have e: "hdr_sectors h ! i = unat (dataSectors h ! i)" using assms(2) by (simp add: hdr_sectors_def)
  then have "unat (dataSectors h ! i) < 1024" using hdr_ok_facts(5) [OF assms(1)] nth_mem [OF assms(2)] by simp
  then have "sint (dataSectors h ! i) = int (unat (dataSectors h ! i))" by (intro sint_unat) simp
  then show ?thesis using assms(2) len e by (simp add: FileHeader_ByteToSector_def disk_consts)
qed

lemma loops_run:
  assumes "hdr_ok h" "\<forall>i \<in> set is. i < length (hdr_sectors h)"
  shows "ReadAt_loop h (map int is) d = read_run SynchDisk_ReadSector (map (\<lambda>i. int (hdr_sectors h ! i)) is) d"
    "WriteAt_loop h (map int is) buf d = write_run SynchDisk_WriteSector (map (\<lambda>i. int (hdr_sectors h ! i)) is) buf d"
proof -
  note step = ByteToSector_ok [OF assms(1), unfolded disk_consts, simplified]
  show "ReadAt_loop h (map int is) d = read_run SynchDisk_ReadSector (map (\<lambda>i. int (hdr_sectors h ! i)) is) d"
    using assms(2) by (induction "is" arbitrary: d) (simp_all add: step disk_consts)
  show "WriteAt_loop h (map int is) buf d = write_run SynchDisk_WriteSector (map (\<lambda>i. int (hdr_sectors h ! i)) is) buf d"
    using assms(2) by (induction "is" arbitrary: d buf) (auto simp add: step disk_consts intro!: bindE_cong)
qed

lemma upto_sectors:
  assumes "b < length ss"
  shows "[int a..int b] = map int [a..<Suc b]" "map (\<lambda>i. int (ss ! i)) [a..<Suc b] = map int (take (Suc b - a) (drop a ss))"
proof -
  show "[int a..int b] = map int [a..<Suc b]" by (intro nth_equalityI) (auto simp del: upt_Suc)
  show "map (\<lambda>i. int (ss ! i)) [a..<Suc b] = map int (take (Suc b - a) (drop a ss))"
    using assms by (intro nth_equalityI) (auto simp del: upt_Suc)
qed

lemma concat_blocks:
  assumes "\<forall>b \<in> set bs. length b = 256"
  shows "concat (take k bs) = take (256 * k) (concat bs)" "concat (drop k bs) = drop (256 * k) (concat bs)" "length (concat bs) = 256 * length bs"
proof -
  have "concat (take k bs) = take (256 * k) (concat bs) \<and> concat (drop k bs) = drop (256 * k) (concat bs)"
    using assms
  proof (induction bs arbitrary: k)
    case (Cons b bs)
    then show ?case by (cases k) auto
  qed simp
  then show "concat (take k bs) = take (256 * k) (concat bs)" "concat (drop k bs) = drop (256 * k) (concat bs)" by simp_all
  show "length (concat bs) = 256 * length bs" using assms by (induction bs) auto
qed

lemma hdr_data_blocks:
  assumes "disk_ok d" "hdr_ok h"
  shows "concat (map (disk_sector d) (take k (drop a (hdr_sectors h)))) = take (256 * k) (drop (256 * a) (hdr_data h d))"
    "length (hdr_data h d) = 256 * length (hdr_sectors h)" "length (contents h d) = unat (numBytes h)"
proof -
  have b: "\<forall>b \<in> set (map (disk_sector d) (hdr_sectors h)). length b = 256"
    using hdr_ok_facts(5) [OF assms(2)] length_disk_sector [OF assms(1)] by auto
  then have b': "\<forall>b \<in> set (drop a (map (disk_sector d) (hdr_sectors h))). length b = 256" by (meson in_set_dropD)
  show "concat (map (disk_sector d) (take k (drop a (hdr_sectors h)))) = take (256 * k) (drop (256 * a) (hdr_data h d))"
    using concat_blocks(1) [OF b', of k] concat_blocks(2) [OF b, of a] by (simp add: hdr_data_def take_map drop_map)
  show len: "length (hdr_data h d) = 256 * length (hdr_sectors h)" using concat_blocks(3) [OF b] by (simp add: hdr_data_def)
  show "length (contents h d) = unat (numBytes h)" using hdr_ok_facts(2) [OF assms(2)] len by (simp add: contents_def)
qed

text \<open>The sectors of a request of \<open>m\<close> bytes at \<open>P\<close>: from sector \<open>a\<close>, at offset \<open>q\<close> in it, to sector \<open>z\<close>.\<close>

lemma request_geometry:
  assumes "0 \<le> position" "0 < n" "position < int L"
  obtains P m a z q where "P = nat position" "m = min (nat n) (L - P)" "position = int P" "0 < m" "P + m \<le> L"
    "(if position + n > int L then int L - position else n) = int m" "P = 256 * a + q" "q < 256" "a \<le> z" "z < (L + 255) div 256"
    "q + m \<le> 256 * (Suc z - a)" "256 * z < P + m" "divRoundDown position SectorSize = int a"
    "divRoundDown (position + int m - 1) SectorSize = int z" "position - int a * SectorSize = int q"
proof -
  define P where "P = nat position"
  have P: "position = int P" "P < L" using assms by (auto simp add: P_def)
  define m where "m = min (nat n) (L - P)"
  have m: "0 < m" "P + m \<le> L" using assms(2) P(2) by (auto simp add: m_def)
  have n': "(if position + n > int L then int L - position else n) = int m" using assms(2) P by (auto simp add: m_def)
  define a z q where "a = P div 256" and "z = (P + m - 1) div 256" and "q = P mod 256"
  have P': "P = 256 * a + q" "q < 256" by (simp_all add: a_def q_def)
  have z: "z < (L + 255) div 256" "a \<le> z" using m by (simp_all add: a_def z_def div_le_mono less_mult_imp_div_less)
  have "P + m - 1 < 256 * Suc z" unfolding z_def using dividend_less_times_div [of 256 "P + m - 1"] by simp
  then have fit: "q + m \<le> 256 * (Suc z - a)" using m(1) z(2) P' by (simp add: diff_mult_distrib2)
  have low: "256 * z < P + m" using m(1) div_times_less_eq_dividend [of "P + m - 1" 256] by (simp add: z_def)
  have sec: "divRoundDown position SectorSize = int a" "divRoundDown (position + int m - 1) SectorSize = int z"
    using m by (auto simp add: divRoundDown_def disk_consts P(1) zdiv_int of_nat_diff a_def z_def)
  have "position - int a * SectorSize = int q" by (simp add: P(1) P' disk_consts)
  from that [OF P_def m_def P(1) m n' P' z(2,1) fit low sec this] show thesis .
qed

lemma ReadAt_ok:
  assumes ok: "disk_ok d" "hdr_ok (hdr f)" and p: "0 \<le> position"
  shows "\<exists>d'. DiskFile_ReadAt n position f d
      = Inr (int (length (take (nat n) (drop (nat position) (contents (hdr f) d)))), take (nat n) (drop (nat position) (contents (hdr f) d)), d')
    \<and> disk_ok d' \<and> disk_sector d' = disk_sector d \<and> disk.more d' = disk.more d"
proof -
  let ?h = "hdr f" and ?c = "contents (hdr f) d"
  define L where "L = unat (numBytes (hdr f))"
  note h = hdr_ok_facts [OF ok(2), folded L_def] and b = hdr_data_blocks [OF ok, folded L_def]
  show ?thesis
  proof (cases "n \<le> 0 \<or> position \<ge> int L")
    case True
    then have e: "take (nat n) (drop (nat position) ?c) = []" using b(3) by auto
    show ?thesis unfolding e using True ok(1) h(1) by (simp add: DiskFile_ReadAt_def FileHeader_FileLength_def)
  next
    case False
    obtain P m a z q where P: "P = nat position" and m_def: "m = min (nat n) (L - P)" and m: "P + m \<le> L"
      and n': "(if position + n > int L then int L - position else n) = int m" and P': "P = 256 * a + q" and z: "a \<le> z" "z < (L + 255) div 256"
      and fit: "q + m \<le> 256 * (Suc z - a)" and sec: "divRoundDown position SectorSize = int a" "divRoundDown (position + int m - 1) SectorSize = int z"
      and off: "position - int a * SectorSize = int q"
      using request_geometry [of position n L] p False by (metis linorder_not_le)
    have z: "z < length (hdr_sectors ?h)" "a \<le> z" using z by (simp_all add: h(2))
    let ?ss = "take (Suc z - a) (drop a (hdr_sectors ?h))"
    have "\<forall>i \<in> set ?ss. i < 1024" using h(5) by (meson in_set_dropD in_set_takeD)
    from dk.read_run_ok [OF ok(1) this] obtain d' where d': "read_run SynchDisk_ReadSector (map int ?ss) d = Inr (concat (map (disk_sector d) ?ss), d')"
        "disk_ok d'" "disk_sector d' = disk_sector d" "disk.more d' = disk.more d" by blast
    define buf where "buf = take (256 * (Suc z - a)) (drop (256 * a) (hdr_data ?h d))"
    have loop: "ReadAt_loop ?h [int a..int z] d = Inr (buf, d')"
      using loops_run(1) [OF ok(2), of "[a..<Suc z]" d] z upto_sectors [OF z(1), of a] d'(1) b(1) by (auto simp add: buf_def)
    have "256 * (Suc z - a) \<le> 256 * length (hdr_sectors ?h) - 256 * a" using z by (simp flip: diff_mult_distrib2)
    then have len: "length buf = 256 * (Suc z - a)" using b(2) by (simp add: buf_def)
    have "take m (drop q buf) = take m (drop P (hdr_data ?h d))" using fit by (simp add: buf_def drop_take P' add.commute)
    also have "\<dots> = take (nat n) (drop P ?c)" using m by (auto simp add: contents_def drop_take m_def min_def simp flip: L_def)
    finally have bytes: "take m (drop q buf) = take (nat n) (drop P ?c)" .
    have "length (take (nat n) (drop P ?c)) = m" using b(3) by (simp add: m_def min.commute)
    moreover have "DiskFile_ReadAt n position f d = Inr (int m, take m (drop q buf), d')"
    proof -
      have "bcopy_from buf (int q) (int m) = Inr (take m (drop q buf))" using fit len by (simp add: bcopy_from_def)
      then show ?thesis using False loop by (simp add: DiskFile_ReadAt_def FileHeader_FileLength_def Let_def h(1) n' sec off)
    qed
    ultimately show ?thesis using d'(2-4) bytes by (simp add: P)
  qed
qed

lemma bcopy_to_nth:
  assumes "o1 + length bytes \<le> length buf"
  shows "\<exists>buf'. bcopy_to buf (int o1) bytes = Inr buf' \<and> length buf' = length buf
    \<and> (\<forall>j < length buf. buf' ! j = (if o1 \<le> j \<and> j < o1 + length bytes then bytes ! (j - o1) else buf ! j))"
  using assms by (auto simp add: bcopy_to_def nth_append min_def)

text \<open>A sector of the file is read into the buffer.\<close>

lemma read_block:
  assumes ok: "disk_ok d" "hdr_ok (hdr f)" and o1: "o1 + 256 \<le> length buf"
  shows "\<exists>buf' d'. bindE (DiskFile_ReadAt SectorSize (int k * SectorSize) f d) (\<lambda>(_, bytes, d). bindE (bcopy_to buf (int o1) bytes) (\<lambda>buf. Inr (buf, d)))
      = Inr (buf', d') \<and> disk_ok d' \<and> disk_sector d' = disk_sector d \<and> disk.more d' = disk.more d \<and> length buf' = length buf
    \<and> (\<forall>j < length buf. buf' ! j = (if o1 \<le> j \<and> j < o1 + 256 \<and> 256 * k + (j - o1) < unat (numBytes (hdr f))
         then contents (hdr f) d ! (256 * k + (j - o1)) else buf ! j))"
proof -
  let ?c = "contents (hdr f) d"
  define bs where "bs = take 256 (drop (256 * k) ?c)"
  have L: "length ?c = unat (numBytes (hdr f))" by (rule hdr_data_blocks(3) [OF ok])
  have "nat (int k * 256) = 256 * k" by (simp add: nat_mult_distrib)
  then obtain d' where d': "DiskFile_ReadAt SectorSize (int k * SectorSize) f d = Inr (int (length bs), bs, d')" "disk_ok d'" "disk_sector d' = disk_sector d"
      "disk.more d' = disk.more d"
    using ReadAt_ok [OF ok, of "int k * SectorSize" SectorSize] by (auto simp add: disk_consts bs_def)
  have "o1 + length bs \<le> length buf" using o1 by (simp add: bs_def)
  from bcopy_to_nth [OF this] obtain buf' where b: "bcopy_to buf (int o1) bs = Inr buf'" "length buf' = length buf"
    "\<forall>j < length buf. buf' ! j = (if o1 \<le> j \<and> j < o1 + length bs then bs ! (j - o1) else buf ! j)" by blast
  have "buf' ! j = (if o1 \<le> j \<and> j < o1 + 256 \<and> 256 * k + (j - o1) < unat (numBytes (hdr f)) then ?c ! (256 * k + (j - o1)) else buf ! j)"
    if "j < length buf" for j
    using b(3) that L by (auto simp add: bs_def)
  then show ?thesis using d' b(1,2) by auto
qed

text \<open>The buffer that is written: the new bytes, and the old ones of the file around them.\<close>

lemma WriteAt_buffer:
  assumes ok: "disk_ok d" "hdr_ok (hdr f)" and L: "L = unat (numBytes (hdr f))" and c: "c = contents (hdr f) d"
    and g: "P = 256 * a + q" "q < 256" "a \<le> z" "q + m \<le> W" "256 * z < P + m" "0 < m" "W = 256 * (Suc z - a)"
    and buf: "length buf = W" and bytes: "length bytes = m"
  shows "\<exists>buf1 d1 buf2 d2 buf3.
     (if q \<noteq> 0 then bindE (DiskFile_ReadAt SectorSize (int a * SectorSize) f d) (\<lambda>(_, bytes, d). bindE (bcopy_to buf 0 bytes) (\<lambda>buf. Inr (buf, d)))
      else Inr (buf, d)) = Inr (buf1, d1)
   \<and> (if P + m \<noteq> 256 * Suc z \<and> (a \<noteq> z \<or> q = 0)
      then bindE (DiskFile_ReadAt SectorSize (int z * SectorSize) f d1) (\<lambda>(_, bytes, d). bindE (bcopy_to buf1 (int (256 * (z - a))) bytes) (\<lambda>buf. Inr (buf, d)))
      else Inr (buf1, d1)) = Inr (buf2, d2)
   \<and> bcopy_to buf2 (int q) bytes = Inr buf3 \<and> disk_ok d2 \<and> disk_sector d2 = disk_sector d \<and> disk.more d2 = disk.more d \<and> length buf3 = W
   \<and> (\<forall>j < W. 256 * a + j < L \<longrightarrow> buf3 ! j = (if q \<le> j \<and> j < q + m then bytes ! (j - q) else c ! (256 * a + j)))"
proof -
  have "256 \<le> W" using g(3,7) by simp
  then obtain buf1 d1 where s1: "(if q \<noteq> 0 then bindE (DiskFile_ReadAt SectorSize (int a * SectorSize) f d) (\<lambda>(_, bytes, d). bindE (bcopy_to buf 0 bytes) (\<lambda>buf. Inr (buf, d)))
      else Inr (buf, d)) = Inr (buf1, d1)" "disk_ok d1" "disk_sector d1 = disk_sector d" "disk.more d1 = disk.more d" "length buf1 = W"
      and b1: "\<And>j. q \<noteq> 0 \<Longrightarrow> j < 256 \<Longrightarrow> 256 * a + j < L \<Longrightarrow> buf1 ! j = c ! (256 * a + j)"
    using read_block [OF ok, of 0 buf a] buf ok(1) by (cases "q = 0") (auto simp add: L c)
  have c1: "contents (hdr f) d1 = c" by (simp add: c contents_def hdr_data_def s1(3))
  have o2: "256 * (z - a) + 256 \<le> length buf1" using s1(5) g(3,7) by simp
  obtain buf2 d2 where s2: "(if P + m \<noteq> 256 * Suc z \<and> (a \<noteq> z \<or> q = 0)
      then bindE (DiskFile_ReadAt SectorSize (int z * SectorSize) f d1) (\<lambda>(_, bytes, d). bindE (bcopy_to buf1 (int (256 * (z - a))) bytes) (\<lambda>buf. Inr (buf, d)))
      else Inr (buf1, d1)) = Inr (buf2, d2)" "disk_ok d2" "disk_sector d2 = disk_sector d" "disk.more d2 = disk.more d" "length buf2 = W"
      and b2: "\<And>j. j < W \<Longrightarrow> buf2 ! j = (if (P + m \<noteq> 256 * Suc z \<and> (a \<noteq> z \<or> q = 0)) \<and> 256 * (z - a) \<le> j \<and> 256 * a + j < L then c ! (256 * a + j) else buf1 ! j)"
  proof (cases "P + m \<noteq> 256 * Suc z \<and> (a \<noteq> z \<or> q = 0)")
    case True
    from read_block [OF s1(2) ok(2) o2, of z] obtain buf2 d2 where
      r: "bindE (DiskFile_ReadAt SectorSize (int z * SectorSize) f d1) (\<lambda>(_, bytes, d). bindE (bcopy_to buf1 (int (256 * (z - a))) bytes) (\<lambda>buf. Inr (buf, d))) = Inr (buf2, d2)"
      "disk_ok d2" "disk_sector d2 = disk_sector d1" "disk.more d2 = disk.more d1" "length buf2 = length buf1"
      "\<forall>j < length buf1. buf2 ! j = (if 256 * (z - a) \<le> j \<and> j < 256 * (z - a) + 256 \<and> 256 * z + (j - 256 * (z - a)) < L
         then c ! (256 * z + (j - 256 * (z - a))) else buf1 ! j)" unfolding c1 L by blast
    have e: "256 * z + (j - 256 * (z - a)) = 256 * a + j" "j < 256 * (z - a) + 256" if "256 * (z - a) \<le> j" "j < W" for j
      using that g(3,7) by (auto simp add: diff_mult_distrib2)
    have "buf2 ! j = (if (P + m \<noteq> 256 * Suc z \<and> (a \<noteq> z \<or> q = 0)) \<and> 256 * (z - a) \<le> j \<and> 256 * a + j < L then c ! (256 * a + j) else buf1 ! j)"
      if "j < W" for j
      using r(6) [rule_format, of j] that e [of j] True s1(5) by (cases "256 * (z - a) \<le> j") simp_all
    then show ?thesis using that [of buf2 d2] True r(1-5) s1(3-5) by auto
  next
    case False
    then show ?thesis using that [of buf1 d1] s1 by auto
  qed
  have old: "buf2 ! j = c ! (256 * a + j)" if j: "j < W" "256 * a + j < L" "j < q \<or> q + m \<le> j" for j
  proof (cases "j < q")
    case True
    then show ?thesis using b2 [OF j(1)] b1 [of j] g(2) j(2) by auto
  next
    case False
    then have e: "q + m \<le> j" using j(3) by simp
    then have "256 * (z - a) \<le> j" "P + m \<noteq> 256 * Suc z" using g(1,3,5,7) j(1) by (auto simp add: diff_mult_distrib2)
    then show ?thesis using b2 [OF j(1)] b1 [of j] j(1,2) g(7) by (cases "a \<noteq> z \<or> q = 0") auto
  qed
  have "q + length bytes \<le> length buf2" using s2(5) g(4) bytes by simp
  from bcopy_to_nth [OF this] obtain buf3 where b3: "bcopy_to buf2 (int q) bytes = Inr buf3" "length buf3 = W"
    "\<forall>j < W. buf3 ! j = (if q \<le> j \<and> j < q + m then bytes ! (j - q) else buf2 ! j)" using s2(5) bytes by auto
  have "\<forall>j < W. 256 * a + j < L \<longrightarrow> buf3 ! j = (if q \<le> j \<and> j < q + m then bytes ! (j - q) else c ! (256 * a + j))"
    using b3(3) old by auto
  then show ?thesis using s1(1) s2 b3(1,2) by blast
qed

lemma split_sectors: "a \<le> z \<Longrightarrow> z < length ss \<Longrightarrow> ss = take a ss @ take (Suc z - a) (drop a ss) @ drop (Suc z) ss"
  by (metis append_take_drop_id drop_drop le_SucI le_add_diff_inverse2)

text \<open>The buffer is written to the sectors \<open>a\<close> to \<open>z\<close> of the file.\<close>

lemma write_blocks:
  assumes ok: "disk_ok d" "hdr_ok h" and z: "a \<le> z" "z < length (hdr_sectors h)" and buf: "length buf = 256 * (Suc z - a)"
  shows "\<exists>d'. WriteAt_loop h [int a..int z] buf d = Inr d' \<and> disk_ok d' \<and> disk.more d' = disk.more d
    \<and> hdr_data h d' = take (256 * a) (hdr_data h d) @ buf @ drop (256 * Suc z) (hdr_data h d)
    \<and> (\<forall>k < 1024. k \<notin> set (hdr_sectors h) \<longrightarrow> disk_sector d' k = disk_sector d k)"
proof -
  let ?S = "hdr_sectors h" and ?T = "take (Suc z - a) (drop a (hdr_sectors h))"
  have S: "?S = take a ?S @ ?T @ drop (Suc z) ?S" by (rule split_sectors [OF z])
  have dist: "distinct ?S" "\<forall>n \<in> set ?S. n < 1024" using ok(2) hdr_ok_facts(5) [OF ok(2)] by (simp_all add: hdr_ok_def)
  have T: "\<forall>n \<in> set ?T. n < 1024" "distinct ?T" using dist by (auto dest!: in_set_takeD in_set_dropD)
  have "length buf = 256 * length ?T" using buf z by simp
  from dk.write_run_ok [OF ok(1) T this] obtain d' where d': "write_run SynchDisk_WriteSector (map int ?T) buf d = Inr d'" "disk_ok d'" "disk.more d' = disk.more d"
      "concat (map (disk_sector d') ?T) = buf" "\<forall>k < 1024. k \<notin> set ?T \<longrightarrow> disk_sector d' k = disk_sector d k" by blast
  have loop: "WriteAt_loop h [int a..int z] buf d = Inr d'"
    using loops_run(2) [OF ok(2), of "[a..<Suc z]" buf d] z upto_sectors [OF z(2), of a] d'(1) by auto
  have "distinct (take a ?S @ ?T @ drop (Suc z) ?S)" using S dist(1) by metis
  then have "set (take a ?S) \<inter> set ?T = {}" "set (drop (Suc z) ?S) \<inter> set ?T = {}" by (auto simp del: take_Suc)
  moreover have "set (take a ?S) \<subseteq> {0..<1024}" "set (drop (Suc z) ?S) \<subseteq> {0..<1024}" using dist(2) by (auto dest!: in_set_takeD in_set_dropD)
  ultimately have same: "map (disk_sector d') (take a ?S) = map (disk_sector d) (take a ?S)" "map (disk_sector d') (drop (Suc z) ?S) = map (disk_sector d) (drop (Suc z) ?S)"
    using d'(5) by (auto simp del: take_Suc simp add: map_eq_conv disjoint_iff)
  have "hdr_data h d' = concat (map (disk_sector d') (take a ?S)) @ concat (map (disk_sector d') ?T) @ concat (map (disk_sector d') (drop (Suc z) ?S))"
    unfolding hdr_data_def by (subst S) simp
  also have "\<dots> = take (256 * a) (hdr_data h d) @ buf @ drop (256 * Suc z) (hdr_data h d)"
  proof -
    have "concat (map (disk_sector d) (take a ?S)) = take (256 * a) (hdr_data h d)" using hdr_data_blocks(1) [OF ok, of a 0] by simp
    moreover have "concat (map (disk_sector d) (drop (Suc z) ?S)) = drop (256 * Suc z) (hdr_data h d)"
      using hdr_data_blocks(1) [OF ok, of "length ?S" "Suc z"] hdr_data_blocks(2) [OF ok] by simp
    ultimately show ?thesis by (simp only: same d'(4))
  qed
  finally have "hdr_data h d' = take (256 * a) (hdr_data h d) @ buf @ drop (256 * Suc z) (hdr_data h d)" .
  moreover have "\<forall>k < 1024. k \<notin> set ?S \<longrightarrow> disk_sector d' k = disk_sector d k" using d'(5) by (meson in_set_dropD in_set_takeD)
  ultimately show ?thesis using loop d'(2,3) by blast
qed

lemma WriteAt_ok:
  assumes ok: "disk_ok d" "hdr_ok (hdr f)" and p: "0 \<le> position" and fr: "n \<le> int (length from)"
  shows "\<exists>d'. DiskFile_WriteAt junk from n position f d = Inr (int (min (nat n) (unat (numBytes (hdr f)) - nat position)), d')
    \<and> disk_ok d' \<and> disk.more d' = disk.more d
    \<and> contents (hdr f) d' = take (nat position) (contents (hdr f) d) @ take (min (nat n) (unat (numBytes (hdr f)) - nat position)) from
         @ drop (nat position + nat n) (contents (hdr f) d)
    \<and> (\<forall>k < 1024. k \<notin> set (hdr_sectors (hdr f)) \<longrightarrow> disk_sector d' k = disk_sector d k)"
proof -
  let ?h = "hdr f" and ?c = "contents (hdr f) d"
  define L where "L = unat (numBytes (hdr f))"
  note h = hdr_ok_facts [OF ok(2), folded L_def] and b = hdr_data_blocks [OF ok, folded L_def]
  show ?thesis
  proof (cases "n \<le> 0 \<or> position \<ge> int L")
    case True
    then have "min (nat n) (L - nat position) = 0" "take (nat position) ?c @ drop (nat position + nat n) ?c = ?c" using b(3) by auto
    then show ?thesis using True ok(1) by (simp add: DiskFile_WriteAt_def FileHeader_FileLength_def h(1) flip: L_def)
  next
    case False
    then obtain P m a z q where P: "P = nat position" "position = int P" and m_def: "m = min (nat n) (L - P)" and m: "0 < m" "P + m \<le> L"
      and n': "(if position + n > int L then int L - position else n) = int m" and P': "P = 256 * a + q" "q < 256" and z: "a \<le> z" "z < (L + 255) div 256"
      and fit: "q + m \<le> 256 * (Suc z - a)" "256 * z < P + m"
      and sec: "divRoundDown position SectorSize = int a" "divRoundDown (position + int m - 1) SectorSize = int z"
      and off: "position - int a * SectorSize = int q"
      using request_geometry [of position n L] p by (metis linorder_not_le)
    define W where "W = 256 * (Suc z - a)"
    have z': "z < length (hdr_sectors ?h)" using z(2) by (simp add: h(2))
    define buf where "buf = map junk [0..<nat ((1 + int z - int a) * SectorSize)]"
    have nW: "nat ((1 + int z - int a) * SectorSize) = W" using z(1) by (simp add: W_def disk_consts nat_mult_distrib nat_diff_distrib)
    have buf: "length buf = W" by (simp add: buf_def nW)
    have bytes: "length (take m from) = m" "bcopy_from from 0 (int m) = Inr (take m from)"
      using fr m_def by (auto simp add: bcopy_from_def)
    obtain buf1 d1 buf2 d2 buf3 where s: "(if q \<noteq> 0 then bindE (DiskFile_ReadAt SectorSize (int a * SectorSize) f d) (\<lambda>(_, bytes, d). bindE (bcopy_to buf 0 bytes) (\<lambda>buf. Inr (buf, d)))
          else Inr (buf, d)) = Inr (buf1, d1)"
        "(if P + m \<noteq> 256 * Suc z \<and> (a \<noteq> z \<or> q = 0)
          then bindE (DiskFile_ReadAt SectorSize (int z * SectorSize) f d1) (\<lambda>(_, bytes, d). bindE (bcopy_to buf1 (int (256 * (z - a))) bytes) (\<lambda>buf. Inr (buf, d)))
          else Inr (buf1, d1)) = Inr (buf2, d2)" "bcopy_to buf2 (int q) (take m from) = Inr buf3"
        and d2: "disk_ok d2" "disk_sector d2 = disk_sector d" "disk.more d2 = disk.more d" and b3: "length buf3 = W"
          "\<forall>j < W. 256 * a + j < L \<longrightarrow> buf3 ! j = (if q \<le> j \<and> j < q + m then take m from ! (j - q) else ?c ! (256 * a + j))"
      using WriteAt_buffer [OF ok L_def refl P' z(1) fit(1) [folded W_def] fit(2) m(1) W_def buf bytes(1)] by blast
    obtain d' where w: "WriteAt_loop ?h [int a..int z] buf3 d2 = Inr d'" "disk_ok d'" "disk.more d' = disk.more d2"
        "hdr_data ?h d' = take (256 * a) (hdr_data ?h d2) @ buf3 @ drop (256 * Suc z) (hdr_data ?h d2)"
        "\<forall>k < 1024. k \<notin> set (hdr_sectors ?h) \<longrightarrow> disk_sector d' k = disk_sector d2 k"
      using write_blocks [OF d2(1) ok(2) z(1) z', of buf3] b3(1) W_def by auto
    have al: "(position = int a * SectorSize) = (q = 0)" "(position + int m = (int z + 1) * SectorSize) = (P + m = 256 * Suc z)"
      "(int a \<noteq> int z) = (a \<noteq> z)" "(int z - int a) * SectorSize = int (256 * (z - a))"
      using z(1) P' by (auto simp add: P(2) disk_consts of_nat_diff)
    have run: "DiskFile_WriteAt junk from n position f d = Inr (int m, d')"
    proof -
      have c: "(n \<le> 0 \<or> int L \<le> position) = False" using False by simp
      show ?thesis unfolding DiskFile_WriteAt_def Let_def FileHeader_FileLength_def h(1) c if_False n' sec off al buf_def [symmetric]
        s(1) bindE_Inr prod.case s(2) bytes(2) s(3) w(1) by (rule refl)
    qed
    have D2: "hdr_data ?h d2 = hdr_data ?h d" by (simp add: hdr_data_def d2(2))
    have lenD: "L \<le> length (hdr_data ?h d)" "256 * Suc z \<le> length (hdr_data ?h d)" using b(2) h(2) z' by auto
    have cont: "contents ?h d' = take P ?c @ take m from @ drop (P + m) ?c"
    proof (rule nth_equalityI)
      show "length (contents ?h d') = length (take P ?c @ take m from @ drop (P + m) ?c)"
        using hdr_data_blocks(3) [OF w(2) ok(2)] b(3) m(2) bytes(1) by (simp add: L_def)
      fix i
      assume "i < length (contents ?h d')"
      then have i: "i < L" using hdr_data_blocks(3) [OF w(2) ok(2)] by (simp add: L_def)
      have c: "contents ?h d' ! i = hdr_data ?h d' ! i" "?c ! i = hdr_data ?h d ! i" using i by (simp_all add: contents_def flip: L_def)
      have t: "length (take (256 * a) (hdr_data ?h d)) = 256 * a" using lenD z(1) by simp
      have rhs: "(take P ?c @ take m from @ drop (P + m) ?c) ! i = (if P \<le> i \<and> i < P + m then take m from ! (i - P) else ?c ! i)"
        using i b(3) m(2) bytes(1) by (auto simp add: nth_append min_def)
      consider "i < 256 * a" | "256 * a \<le> i" "i < 256 * Suc z" | "256 * Suc z \<le> i" by linarith
      then show "contents ?h d' ! i = (take P ?c @ take m from @ drop (P + m) ?c) ! i"
      proof cases
        case 1
        then have "hdr_data ?h d' ! i = hdr_data ?h d ! i" using t by (simp add: w(4) D2 nth_append)
        then show ?thesis using rhs c 1 P'(1) by simp
      next
        case 2
        then have j: "i - 256 * a < W" "256 * a + (i - 256 * a) = i" using z(1) by (auto simp add: W_def diff_mult_distrib2)
        then have "hdr_data ?h d' ! i = buf3 ! (i - 256 * a)" using 2 t b3(1) by (simp add: w(4) D2 nth_append)
        also have "\<dots> = (if P \<le> i \<and> i < P + m then take m from ! (i - P) else ?c ! i)"
          using b3(2) [rule_format, OF j(1)] j(2) i P'(1) 2(1) by auto
        finally show ?thesis using rhs c(1) by simp
      next
        case 3
        have g: "256 * a + W = 256 * Suc z" using z(1) by (simp add: W_def diff_mult_distrib2)
        then have k: "\<not> i < 256 * a" "\<not> i - 256 * a < W" "i - 256 * a - W = i - 256 * Suc z" using 3 by linarith+
        then have "hdr_data ?h d' ! i = drop (256 * Suc z) (hdr_data ?h d) ! (i - 256 * Suc z)"
          unfolding w(4) D2 nth_append t b3(1) by simp
        also have "\<dots> = hdr_data ?h d ! i" using 3 lenD by (subst nth_drop) simp_all
        finally have e: "hdr_data ?h d' ! i = hdr_data ?h d ! i" .
        have "P + m \<le> 256 * Suc z" using fit(1) [folded W_def] g P'(1) by linarith
        then have "\<not> (P \<le> i \<and> i < P + m)" using 3 by linarith
        then show ?thesis using rhs c e by argo
      qed
    qed
    have "drop (P + m) ?c = drop (P + nat n) ?c" using b(3) m_def by (auto simp add: min_def)
    then show ?thesis using run w(2,3,5) d2 cont m_def P(1) by (simp flip: L_def)
  qed
qed

section \<open>Headers on the disk and in memory\<close>

lemma bytes_word_bytes [simp]: "bytes_word (word_bytes w) = w"
proof -
  have "bytes_word (word_bytes w) = load32 (store32 (\<lambda>_. 0) 0 w) 0" by (simp add: bytes_word_def word_bytes_def load32_def store32_def)
  then show ?thesis by simp
qed

lemma length_word_bytes [simp]: "length (word_bytes w) = 4"
  by (simp add: word_bytes_def)

lemma bytes_word_append [simp]: "length a = 4 \<Longrightarrow> bytes_word (a @ b) = bytes_word a"
  by (simp add: bytes_word_def load32_def nth_append)

text \<open>Fixed-size pieces: the \<open>i\<close>-th piece of the concatenation.\<close>

lemma concat_piece:
  assumes "\<forall>x \<in> set xs. length (f x) = n" "i < length xs"
  shows "take n (drop (n * i) (concat (map f xs))) = f (xs ! i)"
  using assms
proof (induction xs arbitrary: i)
  case (Cons x xs)
  then show ?case by (cases i) auto
qed simp

lemma length_concat_pieces: "\<forall>x \<in> set xs. length (f x) = n \<Longrightarrow> length (concat (map f xs)) = n * length xs"
  by (induction xs) auto

lemma hdr_roundtrip:
  assumes "length (dataSectors h) = 62"
  shows "bytes_hdr (hdr_bytes h) = h" "length (hdr_bytes h) = 256"
proof -
  have b: "\<forall>x \<in> set (dataSectors h). length (word_bytes x) = 4" by simp
  have "map (\<lambda>i. bytes_word (take 4 (drop (4 * i) (concat (map word_bytes (dataSectors h)))))) [0..<62] = dataSectors h"
    using assms concat_piece [OF b] by (intro nth_equalityI) (auto simp del: upt_Suc)
  then show "bytes_hdr (hdr_bytes h) = h" by (simp add: bytes_hdr_def hdr_bytes_def NumDirect_def del: upt_Suc)
  show "length (hdr_bytes h) = 256" using assms length_concat_pieces [OF b] by (simp add: hdr_bytes_def)
qed

text \<open>The header that lies on the disk in a sector.\<close>

definition disk_hdr :: "'d disk_scheme \<Rightarrow> nat \<Rightarrow> FileHeader" where
  "disk_hdr d n = bytes_hdr (disk_sector d n)"

lemma FetchFrom_ok:
  assumes "disk_ok d" "n < 1024"
  shows "\<exists>d'. FileHeader_FetchFrom (int n) d = Inr (disk_hdr d n, d') \<and> disk_ok d' \<and> disk_sector d' = disk_sector d \<and> disk.more d' = disk.more d"
  using ReadSector_ok [OF assms] by (auto simp add: FileHeader_FetchFrom_def disk_hdr_def)

lemma WriteBack_ok:
  assumes "disk_ok d" "n < 1024" "length (dataSectors h) = 62"
  shows "\<exists>d'. FileHeader_WriteBack (int n) h d = Inr d' \<and> disk_ok d' \<and> disk.more d' = disk.more d \<and> disk_hdr d' n = h
    \<and> (\<forall>k < 1024. k \<noteq> n \<longrightarrow> disk_sector d' k = disk_sector d k)"
  using WriteSector_ok [OF assms(1,2), of "hdr_bytes h"] hdr_roundtrip [OF assms(3)] assms(2)
  by (auto simp add: FileHeader_WriteBack_def disk_hdr_def)

section \<open>Allocation\<close>

lemma Allocate_loop:
  assumes "Bitmap_inv fm" "int n + int (card (Bitmap_used fm)) \<le> numBits fm" "k + n \<le> length (dataSectors h)"
  shows "\<exists>is fm'. foldE Allocate_step (map int [k..<k + n]) (h, fm)
      = Inr (h\<lparr>dataSectors := take k (dataSectors h) @ map word_of_int is @ drop (k + n) (dataSectors h)\<rparr>, fm')
    \<and> Bitmap_inv fm' \<and> numBits fm' = numBits fm \<and> length is = n \<and> distinct is \<and> set is \<subseteq> {0..<numBits fm} - Bitmap_used fm
    \<and> Bitmap_used fm' = Bitmap_used fm \<union> set is"
  using assms
proof (induction n arbitrary: k h fm)
  case (Suc n)
  have "int (card (Bitmap_used fm)) < numBits fm" using Suc.prems(2) by simp
  then obtain i fm1 where f1: "Bitmap_FindAndSet fm = Inr (i, fm1)" "Bitmap_inv fm1" "numBits fm1 = numBits fm" "Bitmap_used fm1 = insert i (Bitmap_used fm)"
    "i \<in> {0..<numBits fm}" "i \<notin> Bitmap_used fm"
    using bm.find_when_clear [OF Suc.prems(1)] by metis
  have "card (Bitmap_used fm1) = Suc (card (Bitmap_used fm))" using f1 bm.finite_used [OF Suc.prems(1)] by simp
  then have c: "int n + int (card (Bitmap_used fm1)) \<le> numBits fm1" using Suc.prems(2) f1(3) by simp
  let ?h1 = "h\<lparr>dataSectors := (dataSectors h)[k := word_of_int i]\<rparr>"
  have "Suc k + n \<le> length (dataSectors ?h1)" using Suc.prems(3) by simp
  from Suc.IH [OF f1(2) c this] obtain "is" fm2 where f2: "foldE Allocate_step (map int [Suc k..<Suc k + n]) (?h1, fm1)
      = Inr (?h1\<lparr>dataSectors := take (Suc k) (dataSectors ?h1) @ map word_of_int is @ drop (Suc k + n) (dataSectors ?h1)\<rparr>, fm2)"
    "Bitmap_inv fm2" "numBits fm2 = numBits fm1" "length is = n" "distinct is" "set is \<subseteq> {0..<numBits fm1} - Bitmap_used fm1"
    "Bitmap_used fm2 = Bitmap_used fm1 \<union> set is" by blast
  have u: "[k..<k + Suc n] = k # [Suc k..<Suc k + n]" by (simp add: upt_conv_Cons)
  have t: "take (Suc k) (dataSectors ?h1) = take k (dataSectors h) @ [word_of_int i]" using Suc.prems(3) by (simp add: take_Suc_conv_app_nth)
  have "distinct (i # is)" "set (i # is) \<subseteq> {0..<numBits fm} - Bitmap_used fm" "Bitmap_used fm2 = Bitmap_used fm \<union> set (i # is)" "length (i # is) = Suc n"
    using f1 f2(3-7) by auto
  moreover have "foldE Allocate_step (map int [k..<k + Suc n]) (h, fm)
      = Inr (h\<lparr>dataSectors := take k (dataSectors h) @ map word_of_int (i # is) @ drop (k + Suc n) (dataSectors h)\<rparr>, fm2)"
    using f1(1,5) Suc.prems(3) f2(1) t unfolding u by (simp add: Allocate_step_def)
  ultimately show ?case using f1(3) f2(2,3) by metis
qed simp

lemma hdr_sectors_alloc:
  assumes "length is = n" "n \<le> 62" "set is \<subseteq> {0..<1024}" "length ds = 62" "distinct is" "m \<le> 15872" "n = (m + 255) div 256"
  defines "h \<equiv> \<lparr>numBytes = word_of_nat m, fh_numSectors = word_of_nat n, dataSectors = map word_of_int is @ drop n ds\<rparr>"
  shows "hdr_ok h" "hdr_sectors h = map nat is" "unat (numBytes h) = m"
proof -
  have u: "unat (word_of_nat m :: 32 word) = m" "unat (word_of_nat n :: 32 word) = n" using assms(2,6) by (simp_all add: unsigned_of_nat take_bit_nat_eq_self)
  then show "unat (numBytes h) = m" by (simp add: h_def)
  have "\<forall>i \<in> set is. unat (word_of_int i :: 32 word) = nat i"
    using assms(3) by (force simp add: unsigned_of_int take_bit_int_eq_self)
  then show s: "hdr_sectors h = map nat is" using assms(1) by (simp add: hdr_sectors_def h_def u)
  have "inj_on nat (set is)" using assms(3) by (intro inj_onI) (metis atLeastLessThan_iff eq_nat_nat_iff subsetD)
  then have "distinct (hdr_sectors h)" using assms(5) by (simp add: s distinct_map)
  moreover have "set (hdr_sectors h) \<subseteq> {0..<1024}" using assms(3) by (force simp add: s)
  moreover have "length (dataSectors h) = 62" "unat (fh_numSectors h) = n" "unat (numBytes h) = m" using assms(1,2,4) u by (simp_all add: h_def)
  ultimately show "hdr_ok h" using assms(6,7) by (simp add: hdr_ok_def)
qed

lemma Allocate_ok:
  assumes "Bitmap_inv fm" "numBits fm = 1024" "length (dataSectors h) = 62" "m \<le> 15872"
  defines "n \<equiv> (m + 255) div 256"
  shows "if 1024 < n + card (Bitmap_used fm) then \<exists>h'. FileHeader_Allocate (int m) h fm = Inr (False, h', fm)
    else \<exists>h' fm'. FileHeader_Allocate (int m) h fm = Inr (True, h', fm') \<and> hdr_ok h' \<and> unat (numBytes h') = m \<and> Bitmap_inv fm' \<and> numBits fm' = 1024
      \<and> int ` set (hdr_sectors h') \<inter> Bitmap_used fm = {} \<and> Bitmap_used fm' = Bitmap_used fm \<union> int ` set (hdr_sectors h')"
proof -
  have n: "n \<le> 62" using assms(4) by (simp add: n_def)
  have r: "divRoundUp (int m) SectorSize = int n" by (simp add: divRoundUp_nonneg disk_consts n_def zdiv_int)
  have s: "sint (word_of_int (int n) :: 32 word) = int n" using n by (simp add: sint_unat unsigned_of_nat take_bit_nat_eq_self)
  have u: "[0..int n - 1] = map int [0..<0 + n]" by (intro nth_equalityI) auto
  show ?thesis
  proof (cases "1024 < n + card (Bitmap_used fm)")
    case True
    then show ?thesis by (simp add: FileHeader_Allocate_def Let_def r s [simplified] Bitmap_NumClear_eq [OF assms(1)] assms(2))
  next
    case False
    then have "int n + int (card (Bitmap_used fm)) \<le> numBits fm" using assms(2) by simp
    from Allocate_loop [OF assms(1) this, of 0 "h\<lparr>numBytes := word_of_nat m, fh_numSectors := word_of_nat n\<rparr>"] n assms(3)
    obtain "is" fm' where l: "foldE Allocate_step (map int [0..<0 + n]) (h\<lparr>numBytes := word_of_nat m, fh_numSectors := word_of_nat n\<rparr>, fm)
        = Inr (\<lparr>numBytes = word_of_nat m, fh_numSectors = word_of_nat n, dataSectors = map word_of_int is @ drop n (dataSectors h)\<rparr>, fm')"
      "Bitmap_inv fm'" "numBits fm' = 1024" "length is = n" "distinct is" "set is \<subseteq> {0..<1024} - Bitmap_used fm" "Bitmap_used fm' = Bitmap_used fm \<union> set is"
      using assms(2) by (cases h) auto
    have "set is \<subseteq> {0..<1024}" using l(6) by blast
    note a = hdr_sectors_alloc [OF l(4) n this assms(3) l(5) assms(4) n_def [THEN meta_eq_to_obj_eq]]
    have "int ` nat ` set is = set is" using l(6) by (force simp add: image_iff)
    then show ?thesis using False l a
      by (simp add: FileHeader_Allocate_def Let_def r s [simplified] Bitmap_NumClear_eq [OF assms(1)] assms(2) u) blast
  qed
qed

lemma Deallocate_ok:
  assumes "Bitmap_inv fm" "hdr_ok h" "int ` set (hdr_sectors h) \<subseteq> Bitmap_used fm"
  shows "\<exists>fm'. FileHeader_Deallocate h fm = Inr fm' \<and> Bitmap_inv fm' \<and> numBits fm' = numBits fm
    \<and> Bitmap_used fm' = Bitmap_used fm - int ` set (hdr_sectors h)"
proof -
  note f = hdr_ok_facts [OF assms(2)]
  have d: "length (dataSectors h) = 62" "distinct (hdr_sectors h)" using assms(2) by (simp_all add: hdr_ok_def)
  define n where "n = length (hdr_sectors h)"
  have s: "readA (dataSectors h) (int i) = Inr (dataSectors h ! i)" "sint (dataSectors h ! i) = int (hdr_sectors h ! i)" if "i < n" for i
  proof -
    show "readA (dataSectors h) (int i) = Inr (dataSectors h ! i)" using that f(3) d(1) by (simp add: n_def)
    have e: "hdr_sectors h ! i = unat (dataSectors h ! i)" using that by (simp add: hdr_sectors_def n_def)
    then have "unat (dataSectors h ! i) < 1024" using f(5) nth_mem [of i "hdr_sectors h"] that by (simp add: n_def)
    then show "sint (dataSectors h ! i) = int (hdr_sectors h ! i)" using e sint_unat [of "dataSectors h ! i"] by simp
  qed
  have "foldE (\<lambda>i freeMap. bindE (readA (dataSectors h) i) (\<lambda>s. bindE (Bitmap_Test freeMap (sint s)) (\<lambda>t.
         bindE (assertE t) (\<lambda>_. Bitmap_Clear freeMap (sint s))))) (map int is) fm
      = release_loop Bitmap_Test Bitmap_Clear (map (\<lambda>i. int (hdr_sectors h ! i)) is) fm" if "\<forall>i \<in> set is. i < n" for "is" fm
    using that by (induction "is" arbitrary: fm) (auto simp add: s bindE_assoc intro!: bindE_cong)
  from this [of "[0..<n]"] have "FileHeader_Deallocate h fm = release_loop Bitmap_Test Bitmap_Clear (map (\<lambda>i. int (hdr_sectors h ! i)) [0..<n]) fm"
  proof -
    have "[0..sint (fh_numSectors h) - 1] = map int [0..<n]" using f(4) by (intro nth_equalityI) (auto simp add: n_def)
    then show ?thesis using \<open>\<And>fm. \<forall>i \<in> set [0..<n]. i < n \<Longrightarrow> _\<close> by (simp add: FileHeader_Deallocate_def)
  qed
  moreover have "map (\<lambda>i. int (hdr_sectors h ! i)) [0..<n] = map int (hdr_sectors h)" by (intro nth_equalityI) (auto simp add: n_def)
  moreover have "distinct (map int (hdr_sectors h))" using d(2) by (simp add: distinct_map)
  ultimately show ?thesis using bm.release_loop_ok [OF assms(1), of "map int (hdr_sectors h)"] assms(3) by simp
qed

text \<open>A file larger than \<open>MaxFileSize\<close> is not refused: when there is space, the array of sectors overflows.\<close>

lemma Allocate_too_big:
  assumes "Bitmap_inv fm" "numBits fm = 1024" "length (dataSectors h) = 62" "15872 < m"
  defines "n \<equiv> (m + 255) div 256"
  assumes "n + card (Bitmap_used fm) \<le> 1024"
  shows "FileHeader_Allocate (int m) h fm = Inl Out_of_bounds"
proof -
  have n: "63 \<le> n" "n \<le> 1024" using assms(4,6) by (simp_all add: n_def)
  have r: "divRoundUp (int m) SectorSize = int n" by (simp add: divRoundUp_nonneg disk_consts n_def zdiv_int)
  have s: "sint (word_of_int (int n) :: 32 word) = int n" using n by (simp add: sint_unat unsigned_of_nat take_bit_nat_eq_self)
  have "[0..int n - 1] = map int [0..<n]" by (intro nth_equalityI) auto
  also have "[0..<n] = [0..<62] @ 62 # [63..<n]" using n(1) upt_add_eq_append [of 0 62 "n - 62"] upt_conv_Cons [of 62 n] by (simp del: upt_Suc)
  finally have u: "[0..int n - 1] = map int [0..<0 + 62] @ 62 # map int [63..<n]" by (simp del: upt_Suc)
  let ?h = "h\<lparr>numBytes := word_of_nat m, fh_numSectors := word_of_nat n\<rparr>"
  have "int 62 + int (card (Bitmap_used fm)) \<le> numBits fm" using n assms(2,6) by simp
  from Allocate_loop [OF assms(1) this, of 0 ?h] assms(3) obtain "is" fm' h' where l: "foldE Allocate_step (map int [0..<0 + 62]) (?h, fm) = Inr (h', fm')"
    "Bitmap_inv fm'" "numBits fm' = 1024" "length is = 62" "set is \<subseteq> {0..<1024} - Bitmap_used fm" "Bitmap_used fm' = Bitmap_used fm \<union> set is" "length (dataSectors h') = 62"
    using assms(2) by (auto simp del: upt_Suc)
  have "card (Bitmap_used fm') \<le> card (Bitmap_used fm) + 62" using l(4,6) card_Un_le [of "Bitmap_used fm" "set is"] card_length [of "is"] by simp
  then have "int (card (Bitmap_used fm')) < numBits fm'" using n assms(6) l(3) by simp
  then obtain i fm2 where "Bitmap_FindAndSet fm' = Inr (i, fm2)" using bm.find_when_clear [OF l(2)] by blast
  then have step: "Allocate_step 62 (h', fm') = Inl Out_of_bounds" using l(7) by (simp add: Allocate_step_def writeA_def)
  have "foldE Allocate_step [0..int n - 1] (?h, fm) = Inl Out_of_bounds"
    unfolding u foldE_append l(1) bindE_Inr foldE.simps step bindE_Inl by (rule refl)
  then show ?thesis using assms(2,6) n(1) by (simp add: FileHeader_Allocate_def Let_def r s [simplified] Bitmap_NumClear_eq [OF assms(1)])
qed

end
