(* ===== verification/Directory.thy ===== *)
theory Directory
  imports Disk_File
begin
text \<open>
  \<^verbatim>\<open>code/filesys/directory.cc\<close> and \<^verbatim>\<open>pbitmap.cc\<close>: the directory of the file system and the map of its sectors, both of which are kept in files of the disk.

  An entry of the directory is laid out in 20 bytes: a flag, three bytes of padding, the sector of the file's header, a name of ten characters, two bytes
  of padding.  The padding is part of the model, since it is read and written with the rest.  A name given by a caller is the list of its characters,
  none of them 0.  What a file holds beyond the bytes that could be read keeps the value it had in memory.
\<close>

section \<open>Model\<close>

definition FileNameMaxLen :: nat where "FileNameMaxLen = 9"

record DirectoryEntry =
  inUse :: bool
  pad1 :: "8 word list"
  de_sector :: "32 word"
  de_name :: "8 word list"
  pad2 :: "8 word list"

type_synonym directory = "DirectoryEntry list"

text \<open>The bytes of an entry and of the table.\<close>

definition entry_bytes :: "DirectoryEntry \<Rightarrow> 8 word list" where
  "entry_bytes e = [if inUse e then 1 else 0] @ pad1 e @ word_bytes (de_sector e) @ de_name e @ pad2 e"

definition bytes_entry :: "8 word list \<Rightarrow> DirectoryEntry" where
  "bytes_entry bs = \<lparr>inUse = (bs ! 0 \<noteq> 0), pad1 = take 3 (drop 1 bs), de_sector = bytes_word (take 4 (drop 4 bs)),
     de_name = take 10 (drop 8 bs), pad2 = take 2 (drop 18 bs)\<rparr>"

definition dir_bytes :: "directory \<Rightarrow> 8 word list" where
  "dir_bytes table = concat (map entry_bytes table)"

definition bytes_dir :: "nat \<Rightarrow> 8 word list \<Rightarrow> directory" where
  "bytes_dir tableSize bs = map (\<lambda>i. bytes_entry (take 20 (drop (20 * i) bs))) [0..<tableSize]"

text \<open>The memory that \<open>new\<close> returns holds \<open>junk\<close>.\<close>

definition Directory_new :: "(nat \<Rightarrow> 8 word) \<Rightarrow> nat \<Rightarrow> directory" where
  "Directory_new junk tableSize = map (\<lambda>e. e\<lparr>inUse := False\<rparr>) (bytes_dir tableSize (map junk [0..<20 * tableSize]))"

definition Directory_FetchFrom :: "DiskFile \<Rightarrow> directory \<Rightarrow> 'd disk_scheme \<Rightarrow> (directory \<times> 'd disk_scheme) res" where
  "Directory_FetchFrom f table d =
     bindE (DiskFile_ReadAt (int (length table) * 20) 0 f d) (\<lambda>(_, bytes, d).
     Inr (bytes_dir (length table) (bytes @ drop (length bytes) (dir_bytes table)), d))"

definition Directory_WriteBack :: "(nat \<Rightarrow> 8 word) \<Rightarrow> DiskFile \<Rightarrow> directory \<Rightarrow> 'd disk_scheme \<Rightarrow> 'd disk_scheme res" where
  "Directory_WriteBack junk f table d =
     bindE (DiskFile_WriteAt junk (dir_bytes table) (int (length table) * 20) 0 f d) (\<lambda>(_, d). Inr d)"

text \<open>\<open>strncmp (a, b, n) == 0\<close> and \<open>strncpy (a, b, n)\<close> of the C library, with the 0 that ends the string in \<open>b\<close>.\<close>

fun strncmp_eq :: "8 word list \<Rightarrow> 8 word list \<Rightarrow> nat \<Rightarrow> bool" where
  "strncmp_eq a b 0 = True"
| "strncmp_eq (x # a) (y # b) (Suc n) = (x = y \<and> (x = 0 \<or> strncmp_eq a b n))"
| "strncmp_eq a b (Suc n) = False"

definition strncpy :: "8 word list \<Rightarrow> 8 word list \<Rightarrow> nat \<Rightarrow> 8 word list" where
  "strncpy a b n = take n (b @ replicate n 0) @ drop n a"

fun FindIndex_loop :: "8 word list \<Rightarrow> int \<Rightarrow> directory \<Rightarrow> int" where
  "FindIndex_loop name i [] = -1"
| "FindIndex_loop name i (e # es) =
     (if inUse e \<and> strncmp_eq (de_name e) (name @ [0]) FileNameMaxLen then i else FindIndex_loop name (i + 1) es)"

definition Directory_FindIndex :: "8 word list \<Rightarrow> directory \<Rightarrow> int" where
  "Directory_FindIndex name table = FindIndex_loop name 0 table"

definition Directory_Find :: "8 word list \<Rightarrow> directory \<Rightarrow> int res" where
  "Directory_Find name table =
     (let i = Directory_FindIndex name table in
      if i \<noteq> -1 then bindE (readA table i) (\<lambda>e. Inr (sint (de_sector e))) else Inr (-1))"

fun Add_loop :: "8 word list \<Rightarrow> int \<Rightarrow> directory \<Rightarrow> bool \<times> directory" where
  "Add_loop name newSector [] = (False, [])"
| "Add_loop name newSector (e # es) =
     (if \<not> inUse e then (True, e\<lparr>inUse := True, de_name := strncpy (de_name e) name FileNameMaxLen, de_sector := word_of_int newSector\<rparr> # es)
      else let (r, es) = Add_loop name newSector es in (r, e # es))"

definition Directory_Add :: "8 word list \<Rightarrow> int \<Rightarrow> directory \<Rightarrow> bool \<times> directory" where
  "Directory_Add name newSector table =
     (if Directory_FindIndex name table \<noteq> -1 then (False, table) else Add_loop name newSector table)"

definition Directory_Remove :: "8 word list \<Rightarrow> directory \<Rightarrow> (bool \<times> directory) res" where
  "Directory_Remove name table =
     (let i = Directory_FindIndex name table in
      if i = -1 then Inr (False, table)
      else bindE (readA table i) (\<lambda>e. bindE (writeA table i (e\<lparr>inUse := False\<rparr>)) (\<lambda>table. Inr (True, table))))"

text \<open>\<open>List\<close> prints the names of the entries in use, each up to its first 0 (of which there may be none in the ten characters).\<close>

definition Directory_List :: "directory \<Rightarrow> 8 word list list" where
  "Directory_List table = map (\<lambda>e. takeWhile (\<lambda>c. c \<noteq> 0) (de_name e)) (filter inUse table)"

subsection \<open>The map of sectors\<close>

definition junk_words :: "(nat \<Rightarrow> 8 word) \<Rightarrow> int \<Rightarrow> 32 word list" where
  "junk_words junk n = map (\<lambda>i. load32 junk (4 * i)) [0..<nat n]"

definition PersistentBitmap_FetchFrom :: "DiskFile \<Rightarrow> bitmap \<Rightarrow> 'd disk_scheme \<Rightarrow> (bitmap \<times> 'd disk_scheme) res" where
  "PersistentBitmap_FetchFrom f b d =
     bindE (DiskFile_ReadAt (numWords b * 4) 0 f d) (\<lambda>(_, bytes, d).
     let mem = bytes @ drop (length bytes) (concat (map word_bytes (bitmap_map b))) in
     Inr (b\<lparr>bitmap_map := map (\<lambda>i. bytes_word (take 4 (drop (4 * i) mem))) [0..<length (bitmap_map b)]\<rparr>, d))"

definition PersistentBitmap_new :: "(nat \<Rightarrow> 8 word) \<Rightarrow> DiskFile \<Rightarrow> int \<Rightarrow> 'd disk_scheme \<Rightarrow> (bitmap \<times> 'd disk_scheme) res" where
  "PersistentBitmap_new junk f numItems d = bindE (Bitmap_new (junk_words junk (divRoundUp numItems BitsInWord)) numItems) (\<lambda>b. PersistentBitmap_FetchFrom f b d)"

definition PersistentBitmap_WriteBack :: "(nat \<Rightarrow> 8 word) \<Rightarrow> DiskFile \<Rightarrow> bitmap \<Rightarrow> 'd disk_scheme \<Rightarrow> 'd disk_scheme res" where
  "PersistentBitmap_WriteBack junk f b d =
     bindE (DiskFile_WriteAt junk (concat (map word_bytes (bitmap_map b))) (numWords b * 4) 0 f d) (\<lambda>(_, d). Inr d)"

section \<open>The directory is a map\<close>

text \<open>The name under which an entry is found: at most nine characters.\<close>

definition entry_key :: "DirectoryEntry \<Rightarrow> 8 word list" where
  "entry_key e = takeWhile (\<lambda>c. c \<noteq> 0) (take 9 (de_name e))"

definition entry_wf :: "DirectoryEntry \<Rightarrow> bool" where
  "entry_wf e \<longleftrightarrow> length (pad1 e) = 3 \<and> length (de_name e) = 10 \<and> length (pad2 e) = 2"

definition dir_map :: "directory \<Rightarrow> 8 word list \<rightharpoonup> nat" where
  "dir_map table = map_of (map (\<lambda>e. (entry_key e, unat (de_sector e))) (filter inUse table))"

definition dir_ok :: "directory \<Rightarrow> bool" where
  "dir_ok table \<longleftrightarrow> (\<forall>e \<in> set table. entry_wf e \<and> (inUse e \<longrightarrow> unat (de_sector e) < 1024)) \<and> distinct (map entry_key (filter inUse table))"

lemma strncmp_key:
  assumes "0 \<notin> set name" "n \<le> length a"
  shows "strncmp_eq a (name @ [0]) n \<longleftrightarrow> takeWhile (\<lambda>c. c \<noteq> 0) (take n a) = take n name"
  using assms
proof (induction a "name @ [0]" n arbitrary: name rule: strncmp_eq.induct)
  case (2 x a y b n)
  then show ?case by (cases name) auto
qed auto

lemma name_key:
  assumes "0 \<notin> set name" "length (de_name e) = 10"
  shows "strncmp_eq (de_name e) (name @ [0]) FileNameMaxLen \<longleftrightarrow> entry_key e = take 9 name"
  using strncmp_key [OF assms(1), of 9 "de_name e"] assms(2) by (simp add: FileNameMaxLen_def entry_key_def)

lemma strncpy_key:
  assumes "0 \<notin> set name"
  shows "entry_key (e\<lparr>de_name := strncpy (de_name e) name FileNameMaxLen\<rparr>) = take 9 name"
proof -
  have "take 9 (strncpy (de_name e) name 9) = take 9 name @ replicate (9 - length name) 0" by (simp add: strncpy_def)
  moreover have "\<forall>c \<in> set (take 9 name). c \<noteq> 0" using assms by (metis in_set_takeD)
  ultimately show ?thesis by (cases "9 - length name") (auto simp add: entry_key_def FileNameMaxLen_def takeWhile_append2 takeWhile_eq_all_conv)
qed

lemma entry_roundtrip:
  assumes "entry_wf e"
  shows "bytes_entry (entry_bytes e) = e" "length (entry_bytes e) = 20"
proof -
  have l: "length (pad1 e) = 3" "length (de_name e) = 10" "length (pad2 e) = 2" using assms by (simp_all add: entry_wf_def)
  show "length (entry_bytes e) = 20" using l by (simp add: entry_bytes_def)
  show "bytes_entry (entry_bytes e) = e" using l by (simp add: bytes_entry_def entry_bytes_def)
qed

lemma dir_roundtrip:
  assumes "\<forall>e \<in> set table. entry_wf e"
  shows "bytes_dir (length table) (dir_bytes table) = table" "length (dir_bytes table) = 20 * length table"
proof -
  have l: "\<forall>e \<in> set table. length (entry_bytes e) = 20" using assms entry_roundtrip(2) by blast
  show "length (dir_bytes table) = 20 * length table" using length_concat_pieces [OF l] by (simp add: dir_bytes_def)
  show "bytes_dir (length table) (dir_bytes table) = table"
    using concat_piece [OF l] assms entry_roundtrip(1) by (intro nth_equalityI) (auto simp add: bytes_dir_def dir_bytes_def)
qed

lemma words_roundtrip: "map (\<lambda>i. bytes_word (take 4 (drop (4 * i) (concat (map word_bytes ws))))) [0..<length ws] = ws"
  using concat_piece [of ws word_bytes 4] by (intro nth_equalityI) auto

lemma dir_map_Cons:
  "dir_map (e # es) = (if inUse e then (dir_map es)(entry_key e \<mapsto> unat (de_sector e)) else dir_map es)"
  by (simp add: dir_map_def)

lemma dir_map_Nil [simp]: "dir_map [] = Map.empty"
  by (simp add: dir_map_def)

lemma dir_ok_Cons:
  "dir_ok (e # es) \<longleftrightarrow> entry_wf e \<and> (inUse e \<longrightarrow> unat (de_sector e) < 1024 \<and> dir_map es (entry_key e) = None) \<and> dir_ok es"
proof -
  have "dir_map es k = None \<longleftrightarrow> k \<notin> entry_key ` set (filter inUse es)" for k
    by (auto simp add: dir_map_def map_of_eq_None_iff image_image)
  then show ?thesis by (auto simp add: dir_ok_def)
qed

lemma dir_ok_wf: "dir_ok table \<Longrightarrow> \<forall>e \<in> set table. entry_wf e"
  by (simp add: dir_ok_def)

lemma dir_map_sector: "dir_ok table \<Longrightarrow> dir_map table k = Some s \<Longrightarrow> s < 1024"
  by (induction table) (auto simp add: dir_ok_Cons dir_map_Cons split: if_splits)

text \<open>The search finds the entry of the map, and only in use entries with the key.\<close>

lemma FindIndex_loop_cases:
  assumes "0 \<notin> set name" "dir_ok table" "0 \<le> j"
  shows "case dir_map table (take 9 name) of None \<Rightarrow> FindIndex_loop name j table = -1
    | Some s \<Rightarrow> \<exists>i < length table. FindIndex_loop name j table = j + int i \<and> unat (de_sector (table ! i)) = s
        \<and> dir_ok (table[i := (table ! i)\<lparr>inUse := False\<rparr>]) \<and> dir_map (table[i := (table ! i)\<lparr>inUse := False\<rparr>]) = (dir_map table)(take 9 name := None)"
  using assms(2,3)
proof (induction table arbitrary: j)
  case (Cons e es)
  have c: "strncmp_eq (de_name e) (name @ [0]) FileNameMaxLen \<longleftrightarrow> entry_key e = take 9 name"
    using Cons.prems(1) by (intro name_key [OF assms(1)]) (simp add: dir_ok_Cons entry_wf_def)
  show ?case
  proof (cases "inUse e \<and> entry_key e = take 9 name")
    case True
    let ?e = "e\<lparr>inUse := False\<rparr>"
    have wf: "entry_wf e" "dir_ok es" "dir_map es (take 9 name) = None" using True Cons.prems(1) by (auto simp add: dir_ok_Cons)
    have "dir_ok (?e # es)" using wf by (simp add: dir_ok_Cons entry_wf_def)
    moreover have "dir_map (?e # es) = (dir_map (e # es))(take 9 name := None)" using True wf(3) by (simp add: dir_map_Cons fun_upd_idem)
    moreover have "dir_map (e # es) (take 9 name) = Some (unat (de_sector e))" "FindIndex_loop name j (e # es) = j" using True c by (simp_all add: dir_map_Cons)
    ultimately show ?thesis by (simp del: FindIndex_loop.simps)
  next
    case False
    then have k: "dir_map (e # es) (take 9 name) = dir_map es (take 9 name)" by (auto simp add: dir_map_Cons)
    have IH: "case dir_map es (take 9 name) of None \<Rightarrow> FindIndex_loop name (j + 1) es = -1
      | Some s \<Rightarrow> \<exists>i < length es. FindIndex_loop name (j + 1) es = j + 1 + int i \<and> unat (de_sector (es ! i)) = s
          \<and> dir_ok (es[i := (es ! i)\<lparr>inUse := False\<rparr>]) \<and> dir_map (es[i := (es ! i)\<lparr>inUse := False\<rparr>]) = (dir_map es)(take 9 name := None)"
      using Cons.prems by (intro Cons.IH) (auto simp add: dir_ok_Cons)
    have l: "FindIndex_loop name j (e # es) = FindIndex_loop name (j + 1) es" using False c by auto
    show ?thesis
    proof (cases "dir_map es (take 9 name)")
      case None
      then show ?thesis using IH k l by simp
    next
      case (Some s)
      then obtain i where i: "i < length es" "FindIndex_loop name (j + 1) es = j + 1 + int i" "unat (de_sector (es ! i)) = s"
          "dir_ok (es[i := (es ! i)\<lparr>inUse := False\<rparr>])" "dir_map (es[i := (es ! i)\<lparr>inUse := False\<rparr>]) = (dir_map es)(take 9 name := None)"
        using IH by auto
      have "dir_ok (e # es[i := (es ! i)\<lparr>inUse := False\<rparr>])" using i(4,5) Cons.prems(1) by (auto simp add: dir_ok_Cons)
      moreover have "dir_map (e # es[i := (es ! i)\<lparr>inUse := False\<rparr>]) = (dir_map (e # es))(take 9 name := None)"
        using i(5) False by (auto simp add: dir_map_Cons fun_upd_twist)
      ultimately show ?thesis using Some k l i(1-3) by (auto intro!: exI [of _ "Suc i"])
    qed
  qed
qed simp

lemmas FindIndex_cases = FindIndex_loop_cases [where j = 0, simplified, folded Directory_FindIndex_def]

lemma Find_ok:
  assumes "0 \<notin> set name" "dir_ok table"
  shows "Directory_Find name table = Inr (case dir_map table (take 9 name) of None \<Rightarrow> -1 | Some s \<Rightarrow> int s)"
proof (cases "dir_map table (take 9 name)")
  case None
  then show ?thesis using FindIndex_cases [OF assms] by (simp add: Directory_Find_def)
next
  case (Some s)
  then obtain i where i: "i < length table" "Directory_FindIndex name table = int i" "unat (de_sector (table ! i)) = s"
    using FindIndex_cases [OF assms] by auto
  moreover have "sint (de_sector (table ! i)) = int s" using i(3) dir_map_sector [OF assms(2) Some] sint_unat [of "de_sector (table ! i)"] by simp
  ultimately show ?thesis using Some by (simp add: Directory_Find_def)
qed

lemma Remove_ok:
  assumes "0 \<notin> set name" "dir_ok table"
  shows "\<exists>table'. Directory_Remove name table = Inr (dir_map table (take 9 name) \<noteq> None, table') \<and> dir_ok table' \<and> length table' = length table
    \<and> dir_map table' = (dir_map table)(take 9 name := None)"
  using FindIndex_cases [OF assms] assms(2) by (auto simp add: Directory_Remove_def Let_def split: option.splits)

lemma Add_loop_ok:
  assumes "0 \<notin> set name" "dir_ok table" "dir_map table (take 9 name) = None" "s < 1024"
  shows "\<exists>table'. Add_loop name (int s) table = (\<exists>e \<in> set table. \<not> inUse e, table') \<and> dir_ok table' \<and> length table' = length table
    \<and> dir_map table' = (if \<exists>e \<in> set table. \<not> inUse e then (dir_map table)(take 9 name \<mapsto> s) else dir_map table)"
  using assms(2,3)
proof (induction table)
  case (Cons e es)
  show ?case
  proof (cases "inUse e")
    case False
    let ?e = "e\<lparr>inUse := True, de_name := strncpy (de_name e) name FileNameMaxLen, de_sector := word_of_int (int s)\<rparr>"
    have u: "unat (de_sector ?e) = s" using assms(4) by (simp add: unsigned_of_nat take_bit_nat_eq_self)
    have "entry_key ?e = take 9 name" using strncpy_key [OF assms(1), of e] by (simp add: entry_key_def)
    moreover have "entry_wf ?e" using Cons.prems(1) by (simp add: dir_ok_Cons entry_wf_def strncpy_def FileNameMaxLen_def)
    ultimately show ?thesis using False u Cons.prems assms(4) by (simp add: dir_ok_Cons dir_map_Cons fun_upd_def)
  next
    case True
    then have n: "dir_map es (take 9 name) = None" "entry_key e \<noteq> take 9 name" using Cons.prems(2) by (auto simp add: dir_map_Cons split: if_splits)
    then obtain es' where "Add_loop name (int s) es = (\<exists>e \<in> set es. \<not> inUse e, es')" "dir_ok es'" "length es' = length es"
        "dir_map es' = (if \<exists>e \<in> set es. \<not> inUse e then (dir_map es)(take 9 name \<mapsto> s) else dir_map es)"
      using Cons.IH Cons.prems(1) by (auto simp add: dir_ok_Cons)
    then show ?thesis using True n Cons.prems(1) by (auto simp add: dir_ok_Cons dir_map_Cons fun_upd_twist)
  qed
qed simp

lemma Add_ok:
  assumes "0 \<notin> set name" "dir_ok table" "s < 1024"
  shows "\<exists>table'. Directory_Add name (int s) table = (dir_map table (take 9 name) = None \<and> (\<exists>e \<in> set table. \<not> inUse e), table')
    \<and> dir_ok table' \<and> length table' = length table
    \<and> dir_map table' = (if dir_map table (take 9 name) = None \<and> (\<exists>e \<in> set table. \<not> inUse e) then (dir_map table)(take 9 name \<mapsto> s) else dir_map table)"
proof (cases "dir_map table (take 9 name)")
  case None
  then show ?thesis using FindIndex_cases [OF assms(1,2)] Add_loop_ok [OF assms(1,2) None assms(3)] by (simp add: Directory_Add_def)
next
  case (Some t)
  then show ?thesis using FindIndex_cases [OF assms(1,2)] assms(2) by (auto simp add: Directory_Add_def)
qed

section \<open>Reading and writing the directory and the map\<close>

text \<open>A whole file is read or overwritten.\<close>

lemma read_whole:
  assumes "disk_ok d" "hdr_ok (hdr f)" "unat (numBytes (hdr f)) = n"
  shows "\<exists>d'. DiskFile_ReadAt (int n) 0 f d = Inr (int n, contents (hdr f) d, d') \<and> disk_ok d' \<and> disk_sector d' = disk_sector d \<and> disk.more d' = disk.more d"
  using ReadAt_ok [OF assms(1,2), of 0 "int n"] hdr_data_blocks(3) [OF assms(1,2)] assms(3) by simp

lemma write_whole:
  assumes "disk_ok d" "hdr_ok (hdr f)" "unat (numBytes (hdr f)) = n" "length bs = n"
  shows "\<exists>d'. DiskFile_WriteAt junk bs (int n) 0 f d = Inr (int n, d') \<and> disk_ok d' \<and> disk.more d' = disk.more d \<and> contents (hdr f) d' = bs
    \<and> (\<forall>k < 1024. k \<notin> set (hdr_sectors (hdr f)) \<longrightarrow> disk_sector d' k = disk_sector d k)"
  using WriteAt_ok [OF assms(1,2), of 0 "int n" bs junk] hdr_data_blocks(3) [OF assms(1,2)] assms(3,4) by simp

lemma bytes_dir_wf: "20 * n \<le> length bs \<Longrightarrow> e \<in> set (bytes_dir n bs) \<Longrightarrow> entry_wf e"
  by (auto simp add: bytes_dir_def entry_wf_def bytes_entry_def)

lemma length_bytes_dir [simp]: "length (bytes_dir n bs) = n"
  by (simp add: bytes_dir_def)

lemma Directory_new_facts:
  "length (Directory_new junk n) = n" "\<forall>e \<in> set (Directory_new junk n). entry_wf e \<and> \<not> inUse e" "dir_ok (Directory_new junk n)" "dir_map (Directory_new junk n) = Map.empty"
proof -
  show "length (Directory_new junk n) = n" by (simp add: Directory_new_def)
  have "\<forall>e \<in> set (bytes_dir n (map junk [0..<20 * n])). entry_wf e" using bytes_dir_wf [of n "map junk [0..<20 * n]"] by simp
  then show wf: "\<forall>e \<in> set (Directory_new junk n). entry_wf e \<and> \<not> inUse e" by (auto simp add: Directory_new_def entry_wf_def)
  then have f: "filter inUse (Directory_new junk n) = []" by (simp add: filter_empty_conv)
  then show "dir_ok (Directory_new junk n)" "dir_map (Directory_new junk n) = Map.empty" using wf by (simp_all add: dir_ok_def dir_map_def)
qed

lemma Directory_FetchFrom_ok:
  assumes "disk_ok d" "hdr_ok (hdr f)" "unat (numBytes (hdr f)) = 20 * n" "length table = n" "\<forall>e \<in> set table. entry_wf e"
  shows "\<exists>d'. Directory_FetchFrom f table d = Inr (bytes_dir n (contents (hdr f) d), d')
    \<and> disk_ok d' \<and> disk_sector d' = disk_sector d \<and> disk.more d' = disk.more d"
proof -
  have "int (length table) * 20 = int (20 * n)" using assms(4) by simp
  moreover have "length (contents (hdr f) d) = 20 * n" using hdr_data_blocks(3) [OF assms(1,2)] assms(3) by simp
  moreover have "length (dir_bytes table) = 20 * n" using dir_roundtrip(2) [OF assms(5)] assms(4) by simp
  ultimately show ?thesis using read_whole [OF assms(1-3)] assms(4) by (auto simp add: Directory_FetchFrom_def mult.commute [of _ "20 :: int"])
qed

lemma Directory_WriteBack_ok:
  assumes "disk_ok d" "hdr_ok (hdr f)" "unat (numBytes (hdr f)) = 20 * n" "length table = n" "dir_ok table"
  shows "\<exists>d'. Directory_WriteBack junk f table d = Inr d' \<and> disk_ok d' \<and> disk.more d' = disk.more d \<and> bytes_dir n (contents (hdr f) d') = table
    \<and> (\<forall>k < 1024. k \<notin> set (hdr_sectors (hdr f)) \<longrightarrow> disk_sector d' k = disk_sector d k)"
proof -
  have "int (length table) * 20 = int (20 * n)" using assms(4) by simp
  moreover note r = dir_roundtrip [OF dir_ok_wf [OF assms(5)]]
  have l: "length (dir_bytes table) = 20 * n" using r(2) assms(4) by simp
  ultimately show ?thesis using write_whole [OF assms(1-3) l, of junk] r(1) assms(4) by (auto simp add: Directory_WriteBack_def mult.commute [of _ "20 :: int"])
qed

text \<open>The bitmap that 128 bytes hold.\<close>

definition bytes_bitmap :: "8 word list \<Rightarrow> bitmap" where
  "bytes_bitmap bs = \<lparr>numBits = 1024, numWords = 32, bitmap_map = map (\<lambda>i. bytes_word (take 4 (drop (4 * i) bs))) [0..<32]\<rparr>"

lemma bytes_bitmap_inv [simp]: "Bitmap_inv (bytes_bitmap bs)" "numBits (bytes_bitmap bs) = 1024"
  by (simp_all add: bytes_bitmap_def Bitmap_inv_def divRoundUp_def)

lemma bitmap_1024:
  assumes "Bitmap_inv b" "numBits b = 1024"
  shows "numWords b = 32" "length (bitmap_map b) = 32" "bytes_bitmap (concat (map word_bytes (bitmap_map b))) = b"
    "length (concat (map word_bytes (bitmap_map b))) = 128"
proof -
  show n: "numWords b = 32" using assms by (simp add: Bitmap_inv_def divRoundUp_def)
  then show l: "length (bitmap_map b) = 32" using assms(1) by (simp add: Bitmap_inv_def)
  show "bytes_bitmap (concat (map word_bytes (bitmap_map b))) = b" using words_roundtrip [of "bitmap_map b"] l n assms(2) by (simp add: bytes_bitmap_def)
  show "length (concat (map word_bytes (bitmap_map b))) = 128" using length_concat_pieces [of "bitmap_map b" word_bytes 4] l by simp
qed

lemma PersistentBitmap_new_ok:
  assumes "disk_ok d" "hdr_ok (hdr f)" "unat (numBytes (hdr f)) = 128"
  shows "\<exists>d'. PersistentBitmap_new junk f NumSectors d = Inr (bytes_bitmap (contents (hdr f) d), d')
    \<and> disk_ok d' \<and> disk_sector d' = disk_sector d \<and> disk.more d' = disk.more d"
proof -
  obtain b where b: "Bitmap_new (junk_words junk (divRoundUp NumSectors BitsInWord)) NumSectors = Inr b" "Bitmap_inv b" "numBits b = 1024"
    using Bitmap_new_ok [of NumSectors] by (auto simp add: disk_consts)
  note w = bitmap_1024 [OF b(2,3)]
  have "length (contents (hdr f) d) = 128" using hdr_data_blocks(3) [OF assms(1,2)] assms(3) by simp
  then show ?thesis using read_whole [OF assms] b w
    by (auto simp add: PersistentBitmap_new_def PersistentBitmap_FetchFrom_def Let_def bytes_bitmap_def)
qed

lemma PersistentBitmap_WriteBack_ok:
  assumes "disk_ok d" "hdr_ok (hdr f)" "unat (numBytes (hdr f)) = 128" "Bitmap_inv b" "numBits b = 1024"
  shows "\<exists>d'. PersistentBitmap_WriteBack junk f b d = Inr d' \<and> disk_ok d' \<and> disk.more d' = disk.more d \<and> bytes_bitmap (contents (hdr f) d') = b
    \<and> (\<forall>k < 1024. k \<notin> set (hdr_sectors (hdr f)) \<longrightarrow> disk_sector d' k = disk_sector d k)"
  using write_whole [OF assms(1-3) bitmap_1024(4) [OF assms(4,5)], of junk] bitmap_1024 [OF assms(4,5)] by (auto simp add: PersistentBitmap_WriteBack_def)

end
