(* ===== verification/Disk_FS.thy ===== *)
theory Disk_FS
  imports Directory
begin
text \<open>
  The file system on the disk, \<^verbatim>\<open>code/filesys/filesys.cc\<close> as it is written for a build without \<^verbatim>\<open>FILESYS_STUB\<close>.

  The free map and the directory are two files that stay open; their headers are in sectors 0 and 1.  Objects \<open>OpenFile\<close> that are handed out live in \<open>of_heap\<close>, since the
  array \<open>openf\<close> can hold the same one twice.  Debugging output is left out.
\<close>

section \<open>Model\<close>

definition FreeMapSector :: nat where "FreeMapSector = 0"
definition DirectorySector :: nat where "DirectorySector = 1"
definition FreeMapFileSize :: int where "FreeMapFileSize = NumSectors sdiv BitsInByte"
definition NumDirEntries :: nat where "NumDirEntries = 10"
definition DirectoryFileSize :: int where "DirectoryFileSize = 20 * int NumDirEntries"

record DiskFS = disk +
  freeMapFile :: DiskFile
  directoryFile :: DiskFile
  of_heap :: "nat \<rightharpoonup> DiskFile"
  of_next :: nat
  dfs_openf :: "nat option list"
  dfs_index :: int

definition OpenFile_alloc :: "DiskFile \<Rightarrow> DiskFS \<Rightarrow> nat \<times> DiskFS" where
  "OpenFile_alloc f s = (of_next s, s\<lparr>of_heap := (of_heap s)(of_next s \<mapsto> f), of_next := of_next s + 1\<rparr>)"

text \<open>\<open>Create\<close> once a sector for the header was found.\<close>

definition DiskFS_Create_at :: "(nat \<Rightarrow> 8 word) \<Rightarrow> 8 word list \<Rightarrow> int \<Rightarrow> int \<Rightarrow> directory \<Rightarrow> bitmap \<Rightarrow> DiskFS \<Rightarrow> (bool \<times> DiskFS) res" where
  "DiskFS_Create_at junk name initialSize sector directory freeMap s =
     (let (added, directory) = Directory_Add name sector directory in
      if \<not> added then Inr (False, s)
      else
        bindE (FileHeader_Allocate initialSize (FileHeader_new junk) freeMap) (\<lambda>(allocated, h, freeMap).
        if \<not> allocated then Inr (False, s)
        else
          bindE (FileHeader_WriteBack sector h s) (\<lambda>s.
          bindE (Directory_WriteBack junk (directoryFile s) directory s) (\<lambda>s.
          bindE (PersistentBitmap_WriteBack junk (freeMapFile s) freeMap s) (\<lambda>s. Inr (True, s))))))"

definition DiskFS_Create :: "(nat \<Rightarrow> 8 word) \<Rightarrow> 8 word list \<Rightarrow> int \<Rightarrow> DiskFS \<Rightarrow> (bool \<times> DiskFS) res" where
  "DiskFS_Create junk name initialSize s =
     bindE (Directory_FetchFrom (directoryFile s) (Directory_new junk NumDirEntries) s) (\<lambda>(directory, s).
     bindE (Directory_Find name directory) (\<lambda>found.
     if found \<noteq> -1 then Inr (False, s)
     else
       bindE (PersistentBitmap_new junk (freeMapFile s) NumSectors s) (\<lambda>(freeMap, s).
       bindE (Bitmap_FindAndSet freeMap) (\<lambda>(sector, freeMap).
       if sector = -1 then Inr (False, s)
       else DiskFS_Create_at junk name initialSize sector directory freeMap s))))"

fun FreeSlot_loop :: "nat option list \<Rightarrow> int list \<Rightarrow> int res" where
  "FreeSlot_loop table [] = Inr (-1)"
| "FreeSlot_loop table (i # is) = bindE (readA table i) (\<lambda>p. if p = None then Inr i else FreeSlot_loop table is)"

definition DiskFS_FindFreeSlot :: "DiskFS \<Rightarrow> int res" where
  "DiskFS_FindFreeSlot s = FreeSlot_loop (dfs_openf s) [2..9]"

text \<open>\<open>Open\<close> without a type: the type of the new object is not initialised.\<close>

definition DiskFS_Open :: "(nat \<Rightarrow> 8 word) \<Rightarrow> 8 word list \<Rightarrow> DiskFS \<Rightarrow> (nat option \<times> DiskFS) res" where
  "DiskFS_Open junk name s =
     bindE (Directory_FetchFrom (directoryFile s) (Directory_new junk NumDirEntries) s) (\<lambda>(directory, s).
     bindE (Directory_Find name directory) (\<lambda>sector.
     bindE (if sector \<ge> 0 then bindE (DiskFile_new sector (sint (load32 junk 0)) s) (\<lambda>(f, s). Inr (snd (OpenFile_alloc f s))) else Inr s) (\<lambda>s.
     let s = s\<lparr>dfs_index := dfs_index s + 1\<rparr> in
     bindE (readA (dfs_openf s) (dfs_index s - 1)) (\<lambda>p. Inr (p, s)))))"

definition DiskFS_Open_type :: "(nat \<Rightarrow> 8 word) \<Rightarrow> 8 word list \<Rightarrow> int \<Rightarrow> DiskFS \<Rightarrow> (nat option \<times> DiskFS) res" where
  "DiskFS_Open_type junk name typ s =
     bindE (DiskFS_FindFreeSlot s) (\<lambda>freeSlot.
     bindE (Directory_FetchFrom (directoryFile s) (Directory_new junk NumDirEntries) s) (\<lambda>(directory, s).
     bindE (Directory_Find name directory) (\<lambda>sector.
     bindE (if sector \<ge> 0
            then bindE (DiskFile_new sector typ s) (\<lambda>(f, s).
                 let (p, s) = OpenFile_alloc f s in
                 bindE (writeA (dfs_openf s) freeSlot (Some p)) (\<lambda>table. Inr (s\<lparr>dfs_openf := table\<rparr>)))
            else Inr s) (\<lambda>s.
     bindE (readA (dfs_openf s) freeSlot) (\<lambda>p. Inr (p, s))))))"

definition DiskFS_Remove :: "(nat \<Rightarrow> 8 word) \<Rightarrow> 8 word list \<Rightarrow> DiskFS \<Rightarrow> (bool \<times> DiskFS) res" where
  "DiskFS_Remove junk name s =
     bindE (Directory_FetchFrom (directoryFile s) (Directory_new junk NumDirEntries) s) (\<lambda>(directory, s).
     bindE (Directory_Find name directory) (\<lambda>sector.
     if sector = -1 then Inr (False, s)
     else
       bindE (FileHeader_FetchFrom sector s) (\<lambda>(fileHdr, s).
       bindE (PersistentBitmap_new junk (freeMapFile s) NumSectors s) (\<lambda>(freeMap, s).
       bindE (FileHeader_Deallocate fileHdr freeMap) (\<lambda>freeMap.
       bindE (Bitmap_Clear freeMap sector) (\<lambda>freeMap.
       bindE (Directory_Remove name directory) (\<lambda>(_, directory).
       bindE (PersistentBitmap_WriteBack junk (freeMapFile s) freeMap s) (\<lambda>s.
       bindE (Directory_WriteBack junk (directoryFile s) directory s) (\<lambda>s. Inr (True, s))))))))))"

definition DiskFS_List :: "(nat \<Rightarrow> 8 word) \<Rightarrow> DiskFS \<Rightarrow> (8 word list list \<times> DiskFS) res" where
  "DiskFS_List junk s =
     bindE (Directory_FetchFrom (directoryFile s) (Directory_new junk NumDirEntries) s) (\<lambda>(directory, s). Inr (Directory_List directory, s))"

text \<open>The constructor: formatting, opening the two files, then the table of open files.\<close>

definition DiskFS_format :: "(nat \<Rightarrow> 8 word) \<Rightarrow> disk \<Rightarrow> (DiskFile \<times> DiskFile \<times> disk) res" where
  "DiskFS_format junk d =
     bindE (Bitmap_new (junk_words junk (divRoundUp NumSectors BitsInWord)) NumSectors) (\<lambda>freeMap.
     let directory = Directory_new junk NumDirEntries in
     bindE (Bitmap_Mark freeMap (int FreeMapSector)) (\<lambda>freeMap.
     bindE (Bitmap_Mark freeMap (int DirectorySector)) (\<lambda>freeMap.
     bindE (FileHeader_Allocate FreeMapFileSize (FileHeader_new junk) freeMap) (\<lambda>(allocated, mapHdr, freeMap).
     bindE (assertE allocated) (\<lambda>_.
     bindE (FileHeader_Allocate DirectoryFileSize (FileHeader_new junk) freeMap) (\<lambda>(allocated, dirHdr, freeMap).
     bindE (assertE allocated) (\<lambda>_.
     bindE (FileHeader_WriteBack (int FreeMapSector) mapHdr d) (\<lambda>d.
     bindE (FileHeader_WriteBack (int DirectorySector) dirHdr d) (\<lambda>d.
     bindE (DiskFile_new (int FreeMapSector) (sint (load32 junk 0)) d) (\<lambda>(mapFile, d).
     bindE (DiskFile_new (int DirectorySector) (sint (load32 junk 0)) d) (\<lambda>(dirFile, d).
     bindE (PersistentBitmap_WriteBack junk mapFile freeMap d) (\<lambda>d.
     bindE (Directory_WriteBack junk dirFile directory d) (\<lambda>d.
     Inr (mapFile, dirFile, d))))))))))))))"

definition stdin_key :: "8 word list" where "stdin_key = [115, 116, 100, 105, 110]"
definition stdout_key :: "8 word list" where "stdout_key = [115, 116, 100, 111, 117, 116]"

definition DiskFS_open_std :: "(nat \<Rightarrow> 8 word) \<Rightarrow> 8 word list \<Rightarrow> int \<Rightarrow> DiskFS \<Rightarrow> DiskFS res" where
  "DiskFS_open_std junk name typ s =
     bindE (DiskFS_Open_type junk name typ s) (\<lambda>(p, s).
     bindE (writeA (dfs_openf s) (dfs_index s) p) (\<lambda>table. Inr (s\<lparr>dfs_openf := table, dfs_index := dfs_index s + 1\<rparr>)))"

definition DiskFS_new :: "(nat \<Rightarrow> 8 word) \<Rightarrow> bool \<Rightarrow> disk \<Rightarrow> DiskFS res" where
  "DiskFS_new junk format d =
     bindE (if format then DiskFS_format junk d
            else bindE (DiskFile_new (int FreeMapSector) (sint (load32 junk 0)) d) (\<lambda>(mapFile, d).
                 bindE (DiskFile_new (int DirectorySector) (sint (load32 junk 0)) d) (\<lambda>(dirFile, d). Inr (mapFile, dirFile, d)))) (\<lambda>(mapFile, dirFile, d).
     let s = disk.extend d \<lparr>freeMapFile = mapFile, directoryFile = dirFile, of_heap = Map.empty, of_next = 0, dfs_openf = replicate 10 None, dfs_index = 0\<rparr> in
     bindE (DiskFS_open_std junk stdin_key 2 s) (\<lambda>s.
     bindE (DiskFS_open_std junk stdout_key 3 s) (\<lambda>s.
     bindE (DiskFS_Create junk stdin_key 0 s) (\<lambda>(_, s).
     bindE (DiskFS_Create junk stdout_key 0 s) (\<lambda>(_, s). Inr s)))))"

section \<open>The layout of the disk\<close>

text \<open>
  The sectors of a file are its header and its data.  In a well-formed layout the files named by the directory \<open>dm\<close> have headers on the disk (\<open>H\<close>), no two of them share a
  sector, none uses a sector of the system, and the free map marks exactly the sectors that are used.
\<close>

definition region :: "(nat \<Rightarrow> FileHeader) \<Rightarrow> nat \<Rightarrow> nat set" where
  "region H n = insert n (set (hdr_sectors (H n)))"

definition layout :: "nat set \<Rightarrow> ('k \<rightharpoonup> nat) \<Rightarrow> (nat \<Rightarrow> FileHeader) \<Rightarrow> int set \<Rightarrow> bool" where
  "layout sys dm H used \<longleftrightarrow>
     (\<forall>k n. dm k = Some n \<longrightarrow> n < 1024 \<and> hdr_ok (H n) \<and> n \<notin> set (hdr_sectors (H n)) \<and> region H n \<inter> sys = {})
   \<and> (\<forall>k n k' n'. dm k = Some n \<longrightarrow> dm k' = Some n' \<longrightarrow> k \<noteq> k' \<longrightarrow> region H n \<inter> region H n' = {})
   \<and> used = int ` (sys \<union> (\<Union>n \<in> ran dm. region H n))"

lemma layoutD:
  assumes "layout sys dm H used" "dm k = Some n"
  shows "n < 1024" "hdr_ok (H n)" "n \<notin> set (hdr_sectors (H n))" "region H n \<inter> sys = {}" "int ` region H n \<subseteq> used"
    "dm k' = Some n' \<Longrightarrow> k \<noteq> k' \<Longrightarrow> region H n \<inter> region H n' = {}"
  using assms unfolding layout_def by (blast intro: ranI)+

lemma layout_used: "layout sys dm H used \<Longrightarrow> used = int ` (sys \<union> (\<Union>n \<in> ran dm. region H n))"
  by (simp add: layout_def)

lemma region_cong: "H n = H' n \<Longrightarrow> region H n = region H' n"
  by (simp add: region_def)

lemma layout_cong:
  assumes "layout sys dm H used" "\<forall>n \<in> ran dm. H' n = H n"
  shows "layout sys dm H' used"
proof -
  have e: "H' n = H n" "region H' n = region H n" if "dm k = Some n" for k n
    using assms(2) that region_cong [of H' n H] by (auto intro: ranI)
  have "(\<Union>n \<in> ran dm. region H' n) = (\<Union>n \<in> ran dm. region H n)" using e(2) by (auto simp add: ran_def)
  then show ?thesis using assms(1) e unfolding layout_def by simp
qed

lemma layout_add:
  assumes l: "layout sys dm H used" and k: "dm k = None" and n: "n < 1024" "int n \<notin> used"
    and h: "hdr_ok (H' n)" "int ` set (hdr_sectors (H' n)) \<inter> insert (int n) used = {}" and H: "\<forall>n \<in> ran dm. H' n = H n"
  shows "layout sys (dm(k \<mapsto> n)) H' (insert (int n) used \<union> int ` set (hdr_sectors (H' n)))"
proof -
  note l' = layout_cong [OF l H]
  have used: "used = int ` (sys \<union> (\<Union>n \<in> ran dm. region H' n))" by (rule layout_used [OF l'])
  have new: "int ` region H' n \<inter> used = {}" "n \<notin> set (hdr_sectors (H' n))" using n(2) h(2) by (auto simp add: region_def)
  then have sys: "region H' n \<inter> sys = {}" using used by auto
  have old: "region H' n \<inter> region H' m = {}" if "dm k' = Some m" for k' m
    using new(1) layoutD(5) [OF l' that] by auto
  have ran: "ran (dm(k \<mapsto> n)) = insert n (ran dm)" using k by simp
  have "insert (int n) used \<union> int ` set (hdr_sectors (H' n)) = int ` (sys \<union> (\<Union>n \<in> ran (dm(k \<mapsto> n)). region H' n))"
    unfolding ran by (subst used) (auto simp add: region_def)
  moreover have "(k1 = k \<and> n1 = n \<or> k1 \<noteq> k \<and> dm k1 = Some n1)" if "(dm(k \<mapsto> n)) k1 = Some n1" for k1 n1
    using that by (auto split: if_splits)
  ultimately show ?thesis using layoutD [OF l'] n(1) h(1) new(2) sys old unfolding layout_def
    by (intro conjI allI impI) (metis fun_upd_same fun_upd_other option.inject Int_commute)+
qed

lemma layout_remove:
  assumes l: "layout sys dm H used" and k: "dm k = Some n" and H: "\<forall>m \<in> ran (dm(k := None)). H' m = H m"
  shows "layout sys (dm(k := None)) H' (used - int ` region H n)"
proof -
  have sub: "dm k' = Some m \<and> k' \<noteq> k" if "(dm(k := None)) k' = Some m" for k' m using that by (auto split: if_splits)
  have "ran dm = insert n (ran (dm(k := None)))" using k by (auto simp add: ran_def) (metis option.inject)
  then have used: "used = int ` (sys \<union> region H n \<union> (\<Union>m \<in> ran (dm(k := None)). region H m))" using layout_used [OF l] by auto
  have "region H n \<inter> sys = {}" by (rule layoutD(4) [OF l k])
  moreover have "region H n \<inter> region H m = {}" if "m \<in> ran (dm(k := None))" for m
  proof -
    obtain k' where "(dm(k := None)) k' = Some m" using \<open>m \<in> ran (dm(k := None))\<close> by (auto simp add: ran_def)
    then show ?thesis using sub layoutD(6) [OF l k, of k' m] by blast
  qed
  ultimately have "(sys \<union> region H n \<union> (\<Union>m \<in> ran (dm(k := None)). region H m)) - region H n = sys \<union> (\<Union>m \<in> ran (dm(k := None)). region H m)" by blast
  then have "used - int ` region H n = int ` (sys \<union> (\<Union>m \<in> ran (dm(k := None)). region H m))" by (simp add: used flip: image_set_diff)
  then have "layout sys (dm(k := None)) H (used - int ` region H n)"
    using sub layoutD [OF l] unfolding layout_def by meson
  then show ?thesis using H by (rule layout_cong)
qed

section \<open>The invariant\<close>

definition fs_dir :: "DiskFS \<Rightarrow> directory" where
  "fs_dir s = bytes_dir 10 (contents (hdr (directoryFile s)) s)"

definition fs_map :: "DiskFS \<Rightarrow> bitmap" where
  "fs_map s = bytes_bitmap (contents (hdr (freeMapFile s)) s)"

definition fs_sys :: "DiskFS \<Rightarrow> nat set" where
  "fs_sys s = {0, 1} \<union> set (hdr_sectors (hdr (freeMapFile s))) \<union> set (hdr_sectors (hdr (directoryFile s)))"

definition fs_inv :: "DiskFS \<Rightarrow> bool" where
  "fs_inv s \<longleftrightarrow> disk_ok s
   \<and> hdr_ok (hdr (freeMapFile s)) \<and> unat (numBytes (hdr (freeMapFile s))) = 128 \<and> disk_hdr s 0 = hdr (freeMapFile s)
   \<and> hdr_ok (hdr (directoryFile s)) \<and> unat (numBytes (hdr (directoryFile s))) = 200 \<and> disk_hdr s 1 = hdr (directoryFile s)
   \<and> distinct ([0, 1] @ hdr_sectors (hdr (freeMapFile s)) @ hdr_sectors (hdr (directoryFile s)))
   \<and> dir_ok (fs_dir s) \<and> layout (fs_sys s) (dir_map (fs_dir s)) (disk_hdr s) (Bitmap_used (fs_map s))"

text \<open>What the file system stores: a map from names of at most nine characters to the bytes of the files.\<close>

definition fs_files :: "DiskFS \<Rightarrow> 8 word list \<rightharpoonup> 8 word list" where
  "fs_files s name = map_option (\<lambda>n. contents (disk_hdr s n) s) (dir_map (fs_dir s) name)"

lemma contents_cong:
  assumes "\<forall>k \<in> set (hdr_sectors h). disk_sector d' k = disk_sector d k"
  shows "contents h d' = contents h d"
proof -
  have "map (disk_sector d') (hdr_sectors h) = map (disk_sector d) (hdr_sectors h)" using assms by simp
  then show ?thesis by (simp only: contents_def hdr_data_def)
qed

lemma contents_sector_eq: "disk_sector d' = disk_sector d \<Longrightarrow> contents h d' = contents h d"
  by (simp add: contents_def hdr_data_def)

lemma more_fields:
  assumes "disk.more (s' :: DiskFS) = disk.more s"
  shows "freeMapFile s' = freeMapFile s" "directoryFile s' = directoryFile s" "of_heap s' = of_heap s" "of_next s' = of_next s"
    "dfs_openf s' = dfs_openf s" "dfs_index s' = dfs_index s"
  using assms by (cases s; cases s'; simp)+

text \<open>Reading, and a change of the table of open files, do not change what the file system is.\<close>

lemma same_fs:
  assumes "disk_sector s' = disk_sector (s :: DiskFS)" "freeMapFile s' = freeMapFile s" "directoryFile s' = directoryFile s" "disk_ok s'" "fs_inv s"
  shows "fs_inv s'" "fs_files s' = fs_files s" "fs_dir s' = fs_dir s" "fs_map s' = fs_map s" "fs_sys s' = fs_sys s" "disk_hdr s' = disk_hdr s"
proof -
  show e: "fs_dir s' = fs_dir s" "fs_map s' = fs_map s" "fs_sys s' = fs_sys s" "disk_hdr s' = disk_hdr s"
    using contents_sector_eq [OF assms(1)] by (simp_all add: fs_dir_def fs_map_def fs_sys_def disk_hdr_def assms(1-3) fun_eq_iff)
  show "fs_inv s'" using assms(2-5) e by (simp add: fs_inv_def)
  show "fs_files s' = fs_files s" using contents_sector_eq [OF assms(1)] e by (simp add: fs_files_def fun_eq_iff)
qed

lemmas same_disk = same_fs [OF _ more_fields(1) more_fields(2)]

definition fs_free :: "DiskFS \<Rightarrow> nat" where
  "fs_free s = 1024 - card (Bitmap_used (fs_map s))"

lemma used_1024: "card (Bitmap_used (fs_map s)) \<le> 1024" "Bitmap_used (fs_map s) \<subseteq> {0..<1024}" "Bitmap_inv (fs_map s)" "numBits (fs_map s) = 1024"
proof -
  show i: "Bitmap_inv (fs_map s)" "numBits (fs_map s) = 1024" by (simp_all add: fs_map_def)
  show u: "Bitmap_used (fs_map s) \<subseteq> {0..<1024}" using bm.used_range [OF i(1)] i(2) by simp
  have "card (Bitmap_used (fs_map s)) \<le> card {0..<1024 :: int}" using u by (intro card_mono) simp_all
  then show "card (Bitmap_used (fs_map s)) \<le> 1024" by simp
qed

lemma dir_full:
  assumes "dir_ok table"
  shows "(\<exists>e \<in> set table. \<not> inUse e) \<longleftrightarrow> card (dom (dir_map table)) < length table"
proof -
  have "dom (dir_map table) = entry_key ` set (filter inUse table)" by (auto simp add: dir_map_def dom_map_of_conv_image_fst image_image)
  moreover have "distinct (map entry_key (filter inUse table))" using assms by (simp add: dir_ok_def)
  ultimately have "card (dom (dir_map table)) = length (filter inUse table)" by (metis distinct_card length_map set_map)
  moreover have "length (filter inUse table) < length table \<longleftrightarrow> (\<exists>e \<in> set table. \<not> inUse e)"
    by (metis filter_True length_filter_less nless_le)
  ultimately show ?thesis by simp
qed

lemma fs_dir_full:
  assumes "fs_inv s"
  shows "(\<exists>e \<in> set (fs_dir s). \<not> inUse e) \<longleftrightarrow> card (dom (fs_files s)) < 10"
proof -
  have "dom (fs_files s) = dom (dir_map (fs_dir s))" by (auto simp add: fs_files_def dom_def)
  then show ?thesis using assms dir_full [of "fs_dir s"] by (simp add: fs_inv_def fs_dir_def)
qed

lemma fs_invD:
  assumes "fs_inv s"
  shows "disk_ok s" "hdr_ok (hdr (freeMapFile s))" "unat (numBytes (hdr (freeMapFile s))) = 128"
    "hdr_ok (hdr (directoryFile s))" "unat (numBytes (hdr (directoryFile s))) = 20 * 10"
    "set (hdr_sectors (hdr (freeMapFile s))) \<inter> set (hdr_sectors (hdr (directoryFile s))) = {}"
    "{0, 1} \<inter> set (hdr_sectors (hdr (freeMapFile s))) = {}" "{0, 1} \<inter> set (hdr_sectors (hdr (directoryFile s))) = {}"
    "dir_ok (fs_dir s)" "layout (fs_sys s) (dir_map (fs_dir s)) (disk_hdr s) (Bitmap_used (fs_map s))"
    "\<forall>k \<in> set (hdr_sectors (hdr (freeMapFile s))). k < 1024" "\<forall>k \<in> set (hdr_sectors (hdr (directoryFile s))). k < 1024"
  using assms hdr_ok_facts(5) unfolding fs_inv_def by auto

text \<open>The directory is read.\<close>

lemma fs_read_dir:
  assumes "fs_inv s"
  shows "\<exists>s'. Directory_FetchFrom (directoryFile s) (Directory_new junk NumDirEntries) s = Inr (fs_dir s, s')
    \<and> disk_ok s' \<and> disk_sector s' = disk_sector s \<and> disk.more s' = disk.more s"
  using Directory_FetchFrom_ok [OF fs_invD(1,4,5) [OF assms] Directory_new_facts(1)] Directory_new_facts(2)
  by (metis fs_dir_def NumDirEntries_def)

text \<open>
  A change of the disk that writes the sectors \<open>X\<close>, the directory and the map: the invariant holds again when the new directory and the new map describe the disk, and a file of which
  no sector is in \<open>X\<close> is as before.
\<close>

lemma fs_update:
  assumes inv: "fs_inv s" and s': "disk_ok s'" "disk.more s' = disk.more s"
    and frame: "\<forall>k < 1024. k \<notin> X \<longrightarrow> k \<notin> fs_sys s - {0, 1} \<longrightarrow> disk_sector s' k = disk_sector s k" and X: "0 \<notin> X" "1 \<notin> X"
    and d: "dir_ok (fs_dir s')" "layout (fs_sys s) (dir_map (fs_dir s')) (disk_hdr s') (Bitmap_used (fs_map s'))"
  shows "fs_inv s'"
proof -
  have "disk_hdr s' 0 = disk_hdr s 0" "disk_hdr s' 1 = disk_hdr s 1" using frame X by (simp_all add: disk_hdr_def)
  then show ?thesis using inv s'(1) d more_fields [OF s'(2)] by (simp add: fs_inv_def fs_sys_def)
qed

lemma fs_frame:
  assumes inv: "fs_inv s" and n: "dir_map (fs_dir s) key = Some n" and X: "region (disk_hdr s) n \<inter> X = {}"
    and frame: "\<forall>k < 1024. k \<notin> X \<longrightarrow> k \<notin> fs_sys s - {0, 1} \<longrightarrow> disk_sector s' k = disk_sector s k"
  shows "disk_hdr s' n = disk_hdr s n" "contents (disk_hdr s n) s' = contents (disk_hdr s n) s"
proof -
  note l = layoutD [OF fs_invD(10) [OF inv] n]
  have "k < 1024" if "k \<in> region (disk_hdr s) n" for k using that l(1) hdr_ok_facts(5) [OF l(2)] by (auto simp add: region_def)
  then have e: "disk_sector s' k = disk_sector s k" if "k \<in> region (disk_hdr s) n" for k using that X l(4) frame by blast
  show "disk_hdr s' n = disk_hdr s n" using e by (simp add: disk_hdr_def region_def)
  show "contents (disk_hdr s n) s' = contents (disk_hdr s n) s" using e by (intro contents_cong) (simp add: region_def)
qed

text \<open>The directory and the map are written back, in the order of \<open>Create\<close> and in that of \<open>Remove\<close>.\<close>

lemma commit_dir_map:
  assumes inv: "fs_inv s0" and s: "disk_ok s" "disk.more s = disk.more s0" and t: "dir_ok t" "length t = 10" and b: "Bitmap_inv b" "numBits b = 1024"
  shows "\<exists>s1 s'. Directory_WriteBack junk (directoryFile s) t s = Inr s1 \<and> PersistentBitmap_WriteBack junk (freeMapFile s1) b s1 = Inr s'
    \<and> disk_ok s' \<and> disk.more s' = disk.more s0 \<and> fs_dir s' = t \<and> fs_map s' = b \<and> (\<forall>k < 1024. k \<notin> fs_sys s0 - {0, 1} \<longrightarrow> disk_sector s' k = disk_sector s k)"
proof -
  note i = fs_invD [OF inv] and m = more_fields [OF s(2)]
  obtain s1 where s1: "Directory_WriteBack junk (directoryFile s) t s = Inr s1" "disk_ok s1" "disk.more s1 = disk.more s"
      "bytes_dir 10 (contents (hdr (directoryFile s)) s1) = t" "\<forall>k < 1024. k \<notin> set (hdr_sectors (hdr (directoryFile s))) \<longrightarrow> disk_sector s1 k = disk_sector s k"
    using Directory_WriteBack_ok [OF s(1) i(4,5) t(2,1), of junk] m by auto
  note m1 = more_fields [OF s1(3)]
  obtain s' where s': "PersistentBitmap_WriteBack junk (freeMapFile s1) b s1 = Inr s'" "disk_ok s'" "disk.more s' = disk.more s1"
      "bytes_bitmap (contents (hdr (freeMapFile s)) s') = b" "\<forall>k < 1024. k \<notin> set (hdr_sectors (hdr (freeMapFile s))) \<longrightarrow> disk_sector s' k = disk_sector s1 k"
    using PersistentBitmap_WriteBack_ok [OF s1(2) i(2,3) b, of junk] m m1 by auto
  have "contents (hdr (directoryFile s0)) s' = contents (hdr (directoryFile s0)) s1" using s'(5) i(6,12) m by (intro contents_cong) auto
  then have "fs_dir s' = t" using s1(4) m m1 more_fields [OF s'(3)] by (simp add: fs_dir_def)
  moreover have "fs_map s' = b" using s'(4) m1 more_fields [OF s'(3)] by (simp add: fs_map_def)
  moreover have "\<forall>k < 1024. k \<notin> fs_sys s0 - {0, 1} \<longrightarrow> disk_sector s' k = disk_sector s k"
    using s1(5) s'(5) i(7,8) m by (auto simp add: fs_sys_def)
  ultimately show ?thesis using s1 s' s(2) by simp
qed

lemma commit_map_dir:
  assumes inv: "fs_inv s0" and s: "disk_ok s" "disk.more s = disk.more s0" and t: "dir_ok t" "length t = 10" and b: "Bitmap_inv b" "numBits b = 1024"
  shows "\<exists>s1 s'. PersistentBitmap_WriteBack junk (freeMapFile s) b s = Inr s1 \<and> Directory_WriteBack junk (directoryFile s1) t s1 = Inr s'
    \<and> disk_ok s' \<and> disk.more s' = disk.more s0 \<and> fs_dir s' = t \<and> fs_map s' = b \<and> (\<forall>k < 1024. k \<notin> fs_sys s0 - {0, 1} \<longrightarrow> disk_sector s' k = disk_sector s k)"
proof -
  note i = fs_invD [OF inv] and m = more_fields [OF s(2)]
  obtain s1 where s1: "PersistentBitmap_WriteBack junk (freeMapFile s) b s = Inr s1" "disk_ok s1" "disk.more s1 = disk.more s"
      "bytes_bitmap (contents (hdr (freeMapFile s)) s1) = b" "\<forall>k < 1024. k \<notin> set (hdr_sectors (hdr (freeMapFile s))) \<longrightarrow> disk_sector s1 k = disk_sector s k"
    using PersistentBitmap_WriteBack_ok [OF s(1) i(2,3) b, of junk] m by auto
  note m1 = more_fields [OF s1(3)]
  obtain s' where s': "Directory_WriteBack junk (directoryFile s1) t s1 = Inr s'" "disk_ok s'" "disk.more s' = disk.more s1"
      "bytes_dir 10 (contents (hdr (directoryFile s)) s') = t" "\<forall>k < 1024. k \<notin> set (hdr_sectors (hdr (directoryFile s))) \<longrightarrow> disk_sector s' k = disk_sector s1 k"
    using Directory_WriteBack_ok [OF s1(2) i(4,5) t(2,1), of junk] m m1 by auto
  have "contents (hdr (freeMapFile s0)) s' = contents (hdr (freeMapFile s0)) s1" using s'(5) i(6,11) m by (intro contents_cong) auto
  then have "fs_map s' = b" using s1(4) m m1 more_fields [OF s'(3)] by (simp add: fs_map_def)
  moreover have "fs_dir s' = t" using s'(4) m1 more_fields [OF s'(3)] by (simp add: fs_dir_def)
  moreover have "\<forall>k < 1024. k \<notin> fs_sys s0 - {0, 1} \<longrightarrow> disk_sector s' k = disk_sector s k"
    using s1(5) s'(5) i(7,8) m by (auto simp add: fs_sys_def)
  ultimately show ?thesis using s1 s' s(2) by simp
qed

section \<open>Creating a file\<close>

text \<open>The disk after a file was created in the fresh sector \<open>n\<close>.\<close>

lemma created:
  assumes inv: "fs_inv s" and s': "disk_ok s'" "disk.more s' = disk.more s" and key: "dir_map (fs_dir s) key = None"
    and n: "n < 1024" "int n \<notin> Bitmap_used (fs_map s)" and h: "hdr_ok h" "int ` set (hdr_sectors h) \<inter> insert (int n) (Bitmap_used (fs_map s)) = {}"
    and d: "dir_ok (fs_dir s')" "dir_map (fs_dir s') = (dir_map (fs_dir s))(key \<mapsto> n)"
    and b: "Bitmap_used (fs_map s') = insert (int n) (Bitmap_used (fs_map s)) \<union> int ` set (hdr_sectors h)"
    and frame: "disk_hdr s' n = h" "\<forall>k < 1024. k \<noteq> n \<longrightarrow> k \<notin> fs_sys s - {0, 1} \<longrightarrow> disk_sector s' k = disk_sector s k"
  shows "fs_inv s'" "fs_files s' = (fs_files s)(key \<mapsto> contents h s')" "length (contents h s') = unat (numBytes h)"
proof -
  have l: "layout (fs_sys s) (dir_map (fs_dir s)) (disk_hdr s) (Bitmap_used (fs_map s))" by (rule fs_invD(10) [OF inv])
  have fr: "\<forall>k < 1024. k \<notin> {n} \<longrightarrow> k \<notin> fs_sys s - {0, 1} \<longrightarrow> disk_sector s' k = disk_sector s k" using frame(2) by simp
  have X: "region (disk_hdr s) m \<inter> {n} = {}" if "dir_map (fs_dir s) k = Some m" for k m using layoutD(5) [OF l that] n(2) by auto
  note old = fs_frame [OF inv _ X fr]
  have H: "\<forall>m \<in> ran (dir_map (fs_dir s)). disk_hdr s' m = disk_hdr s m" using old(1) by (auto simp add: ran_def)
  have "layout (fs_sys s) (dir_map (fs_dir s')) (disk_hdr s') (Bitmap_used (fs_map s'))"
    using layout_add [OF l key n, of "disk_hdr s'"] h H by (simp add: d(2) b frame(1))
  moreover have "0 \<notin> {n}" "1 \<notin> {n}" using layout_used [OF l] n(2) by (auto simp add: fs_sys_def)
  ultimately show "fs_inv s'" using fs_update [OF inv s' fr _ _ d(1)] by blast
  have "contents (disk_hdr s' m) s' = contents (disk_hdr s m) s" if "dir_map (fs_dir s) k = Some m" for k m using old [OF that that] by simp
  then show "fs_files s' = (fs_files s)(key \<mapsto> contents h s')" using frame(1) d(2) by (intro ext) (auto simp add: fs_files_def intro!: option.map_cong)
  show "length (contents h s') = unat (numBytes h)" by (rule hdr_data_blocks(3) [OF s'(1) h(1)])
qed

lemma length_new_hdr: "length (dataSectors (FileHeader_new junk)) = 62"
  by (simp add: FileHeader_new_def bytes_hdr_def NumDirect_def)

text \<open>Whether there is room for a file of \<open>m\<close> bytes, and what \<open>Create\<close> does in each case.\<close>

definition fs_room :: "8 word list \<Rightarrow> nat \<Rightarrow> DiskFS \<Rightarrow> bool" where
  "fs_room key m s \<longleftrightarrow> fs_files s key = None \<and> card (dom (fs_files s)) < 10 \<and> 1 + (m + 255) div 256 \<le> fs_free s"

definition fs_created :: "8 word list \<Rightarrow> nat \<Rightarrow> DiskFS \<Rightarrow> DiskFS \<Rightarrow> bool" where
  "fs_created key m s s' \<longleftrightarrow> fs_inv s' \<and> disk.more s' = disk.more s
     \<and> (if fs_room key m s then \<exists>bytes. length bytes = m \<and> fs_files s' = (fs_files s)(key \<mapsto> bytes) \<and> fs_free s' = fs_free s - (1 + (m + 255) div 256)
        else fs_files s' = fs_files s \<and> fs_free s' = fs_free s)"

lemma not_created:
  assumes "fs_inv s" "disk_sector s' = disk_sector s" "disk.more s' = disk.more s" "disk_ok s'" "\<not> fs_room key m s"
  shows "fs_created key m s s'"
  using same_disk [OF assms(2,3,3,4,1)] assms(3,5) by (simp add: fs_created_def fs_free_def)

lemma Create_at_ok:
  assumes inv: "fs_inv s0" and s: "disk_sector s = disk_sector s0" "disk.more s = disk.more s0" "disk_ok s"
    and name: "0 \<notin> set name" "dir_map (fs_dir s0) (take 9 name) = None" and m: "m \<le> 15872"
    and n: "n < 1024" "int n \<notin> Bitmap_used (fs_map s0)" and fm: "Bitmap_inv fm" "numBits fm = 1024" "Bitmap_used fm = insert (int n) (Bitmap_used (fs_map s0))"
  shows "\<exists>s'. DiskFS_Create_at junk name (int m) (int n) (fs_dir s0) fm s = Inr (fs_room (take 9 name) m s0, s') \<and> fs_created (take 9 name) m s0 s'"
proof -
  let ?k = "take 9 name" and ?n = "(m + 255) div 256" and ?U = "Bitmap_used (fs_map s0)"
  note i = fs_invD [OF inv] and no = not_created [OF inv s] and u = used_1024 [of s0]
  have fin: "finite ?U" using u(2) finite_subset by blast
  have room: "fs_room ?k m s0 \<longleftrightarrow> (\<exists>e \<in> set (fs_dir s0). \<not> inUse e) \<and> \<not> 1024 < ?n + card (Bitmap_used fm)"
    using name(2) fs_dir_full [OF inv] fin n(2) u(1) by (auto simp add: fs_room_def fs_files_def fm(3) fs_free_def)
  obtain t where t: "Directory_Add name (int n) (fs_dir s0) = (\<exists>e \<in> set (fs_dir s0). \<not> inUse e, t)" "dir_ok t" "length t = 10"
      "dir_map t = (if \<exists>e \<in> set (fs_dir s0). \<not> inUse e then (dir_map (fs_dir s0))(?k \<mapsto> n) else dir_map (fs_dir s0))"
    using Add_ok [OF name(1) i(9) n(1)] name(2) by (auto simp add: fs_dir_def)
  note alloc = Allocate_ok [OF fm(1,2) length_new_hdr m, of junk]
  show ?thesis
  proof (cases "fs_room ?k m s0")
    case False
    then show ?thesis using t(1) room alloc no [of ?k m] by (cases "\<exists>e \<in> set (fs_dir s0). \<not> inUse e") (auto simp add: DiskFS_Create_at_def)
  next
    case True
    obtain h fm' where h: "FileHeader_Allocate (int m) (FileHeader_new junk) fm = Inr (True, h, fm')" "hdr_ok h" "unat (numBytes h) = m" "Bitmap_inv fm'" "numBits fm' = 1024"
        "int ` set (hdr_sectors h) \<inter> Bitmap_used fm = {}" "Bitmap_used fm' = Bitmap_used fm \<union> int ` set (hdr_sectors h)"
      using alloc True room by auto
    obtain s1 where s1: "FileHeader_WriteBack (int n) h s = Inr s1" "disk_ok s1" "disk.more s1 = disk.more s" "disk_hdr s1 n = h"
        "\<forall>k < 1024. k \<noteq> n \<longrightarrow> disk_sector s1 k = disk_sector s k"
      using WriteBack_ok [OF s(3) n(1), of h] h(2) by (auto simp add: hdr_ok_def)
    obtain s2 s' where s': "Directory_WriteBack junk (directoryFile s1) t s1 = Inr s2" "PersistentBitmap_WriteBack junk (freeMapFile s2) fm' s2 = Inr s'"
        "disk_ok s'" "disk.more s' = disk.more s0" "fs_dir s' = t" "fs_map s' = fm'" "\<forall>k < 1024. k \<notin> fs_sys s0 - {0, 1} \<longrightarrow> disk_sector s' k = disk_sector s1 k"
      using commit_dir_map [OF inv s1(2) _ t(2,3) h(4,5), of junk] s1(3) s(2) by auto
    have run: "DiskFS_Create_at junk name (int m) (int n) (fs_dir s0) fm s = Inr (True, s')"
      using t(1) True room h(1) s1(1) s'(1,2) by (simp add: DiskFS_Create_at_def)
    have "n \<notin> fs_sys s0" using layout_used [OF i(10)] n(2) by auto
    then have dh: "disk_hdr s' n = h" using s'(7) s1(4) n(1) by (simp add: disk_hdr_def)
    have d: "dir_ok (fs_dir s')" "dir_map (fs_dir s') = (dir_map (fs_dir s0))(?k \<mapsto> n)" using s'(5) t(2,4) True room by auto
    have b: "Bitmap_used (fs_map s') = insert (int n) ?U \<union> int ` set (hdr_sectors h)" using s'(6) h(7) fm(3) by simp
    have fr: "\<forall>k < 1024. k \<noteq> n \<longrightarrow> k \<notin> fs_sys s0 - {0, 1} \<longrightarrow> disk_sector s' k = disk_sector s0 k" using s'(7) s1(5) s(1) by simp
    note c = created [OF inv s'(3,4) name(2) n h(2) h(6) [unfolded fm(3)] d b dh fr]
    have "card (Bitmap_used (fs_map s')) = 1 + card ?U + card (int ` set (hdr_sectors h))"
      unfolding b using fin n(2) h(6) fm(3) by (subst card_Un_disjoint) (auto simp add: Int_commute)
    moreover have "card (int ` set (hdr_sectors h)) = ?n"
      using h(2,3) hdr_ok_facts(2) [OF h(2)] by (simp add: card_image hdr_ok_def distinct_card)
    ultimately have "fs_free s' = fs_free s0 - (1 + ?n)" by (simp add: fs_free_def)
    then have "fs_created ?k m s0 s'" using True c h(3) s'(4) by (auto simp add: fs_created_def)
    then show ?thesis using run True by auto
  qed
qed

text \<open>The first part of \<open>Create\<close>, up to the sector for the header.\<close>

lemma Create_start:
  assumes inv: "fs_inv s" and name: "0 \<notin> set name"
  shows "\<exists>s2. disk_ok s2 \<and> disk_sector s2 = disk_sector s \<and> disk.more s2 = disk.more s
    \<and> (if fs_files s (take 9 name) \<noteq> None \<or> fs_free s = 0 then DiskFS_Create junk name sz s = Inr (False, s2)
       else \<exists>n fm. DiskFS_Create junk name sz s = DiskFS_Create_at junk name sz (int n) (fs_dir s) fm s2
              \<and> n < 1024 \<and> int n \<notin> Bitmap_used (fs_map s) \<and> Bitmap_inv fm \<and> numBits fm = 1024 \<and> Bitmap_used fm = insert (int n) (Bitmap_used (fs_map s)))"
proof -
  obtain s1 where s1: "Directory_FetchFrom (directoryFile s) (Directory_new junk NumDirEntries) s = Inr (fs_dir s, s1)"
      "disk_ok s1" "disk_sector s1 = disk_sector s" "disk.more s1 = disk.more s" using fs_read_dir [OF inv] by blast
  note e1 = same_disk [OF s1(3,4,4,2) inv] and m1 = more_fields [OF s1(4)] and i = fs_invD [OF inv] and u = used_1024 [of s]
  have find: "Directory_Find name (fs_dir s) = Inr (case dir_map (fs_dir s) (take 9 name) of None \<Rightarrow> -1 | Some n \<Rightarrow> int n)" by (rule Find_ok [OF name i(9)])
  show ?thesis
  proof (cases "dir_map (fs_dir s) (take 9 name)")
    case (Some n)
    then show ?thesis using find s1 by (auto simp add: DiskFS_Create_def fs_files_def)
  next
    case None
    then have f: "fs_files s (take 9 name) = None" by (simp add: fs_files_def)
    obtain s2 where s2: "PersistentBitmap_new junk (freeMapFile s1) NumSectors s1 = Inr (fs_map s, s2)"
        "disk_ok s2" "disk_sector s2 = disk_sector s1" "disk.more s2 = disk.more s1"
      using PersistentBitmap_new_ok [OF s1(2) i(2,3), of junk] m1 e1(4) by (auto simp add: fs_map_def)
    show ?thesis
    proof (cases "card (Bitmap_used (fs_map s)) = 1024")
      case True
      then have "Bitmap_used (fs_map s) = {0..<1024}" using u(2) by (intro card_subset_eq) simp_all
      then have "Bitmap_FindAndSet (fs_map s) = Inr (-1, fs_map s)" using bm.find_full [OF u(3)] u(4) by simp
      then show ?thesis using None find s1 s2 True by (auto simp add: DiskFS_Create_def fs_free_def)
    next
      case False
      then have "int (card (Bitmap_used (fs_map s))) < numBits (fs_map s)" using u(1,4) by simp
      from bm.find_when_clear [OF u(3) this] obtain j fm where j: "Bitmap_FindAndSet (fs_map s) = Inr (j, fm)" "Bitmap_inv fm" "numBits fm = 1024"
          "Bitmap_used fm = insert j (Bitmap_used (fs_map s))" "0 \<le> j" "j < 1024" "j \<notin> Bitmap_used (fs_map s)" using u(4) by auto
      then obtain n where n: "j = int n" "n < 1024" by (metis of_nat_less_numeral_iff zero_le_imp_eq_int)
      have "DiskFS_Create junk name sz s = DiskFS_Create_at junk name sz (int n) (fs_dir s) fm s2"
        using None find s1(1) s2(1) j(1) n(1) by (simp add: DiskFS_Create_def)
      moreover have "fs_free s \<noteq> 0" using False u(1) by (simp add: fs_free_def)
      moreover have "disk_sector s2 = disk_sector s" "disk.more s2 = disk.more s" using s1(3,4) s2(3,4) by simp_all
      ultimately show ?thesis using f s2(2) n(2) j(2-4,7) [unfolded n(1)] by auto
    qed
  qed
qed

lemma Create_ok:
  assumes inv: "fs_inv s" and name: "0 \<notin> set name" and m: "m \<le> 15872"
  shows "\<exists>s'. DiskFS_Create junk name (int m) s = Inr (fs_room (take 9 name) m s, s') \<and> fs_created (take 9 name) m s s'"
proof -
  obtain s2 where s2: "disk_ok s2" "disk_sector s2 = disk_sector s" "disk.more s2 = disk.more s"
    and c: "if fs_files s (take 9 name) \<noteq> None \<or> fs_free s = 0 then DiskFS_Create junk name (int m) s = Inr (False, s2)
       else \<exists>n fm. DiskFS_Create junk name (int m) s = DiskFS_Create_at junk name (int m) (int n) (fs_dir s) fm s2
              \<and> n < 1024 \<and> int n \<notin> Bitmap_used (fs_map s) \<and> Bitmap_inv fm \<and> numBits fm = 1024 \<and> Bitmap_used fm = insert (int n) (Bitmap_used (fs_map s))"
    using Create_start [OF inv name] by blast
  show ?thesis
  proof (cases "fs_files s (take 9 name) \<noteq> None \<or> fs_free s = 0")
    case True
    then have "\<not> fs_room (take 9 name) m s" by (auto simp add: fs_room_def)
    then show ?thesis using True c not_created [OF inv s2(2,3,1)] by simp
  next
    case False
    then have "dir_map (fs_dir s) (take 9 name) = None" by (simp add: fs_files_def)
    then show ?thesis using False c Create_at_ok [OF inv s2(2,3,1) name _ m] by metis
  qed
qed

lemma Create_too_big:
  assumes inv: "fs_inv s" and name: "0 \<notin> set name" and m: "15872 < m" "fs_room (take 9 name) m s"
  shows "DiskFS_Create junk name (int m) s = Inl Out_of_bounds"
proof -
  note i = fs_invD [OF inv]
  have r: "fs_files s (take 9 name) = None" "fs_free s \<noteq> 0" "\<exists>e \<in> set (fs_dir s). \<not> inUse e" "1 + (m + 255) div 256 \<le> fs_free s"
    using m(2) fs_dir_full [OF inv] by (auto simp add: fs_room_def)
  obtain s2 n fm where c: "DiskFS_Create junk name (int m) s = DiskFS_Create_at junk name (int m) (int n) (fs_dir s) fm s2" "n < 1024" "int n \<notin> Bitmap_used (fs_map s)"
      "Bitmap_inv fm" "numBits fm = 1024" "Bitmap_used fm = insert (int n) (Bitmap_used (fs_map s))"
    using Create_start [OF inv name, of junk "int m"] r(1,2) by auto
  have "finite (Bitmap_used (fs_map s))" using used_1024(2) [of s] finite_subset by blast
  then have "(m + 255) div 256 + card (Bitmap_used fm) \<le> 1024" using c(3,6) r(4) used_1024(1) [of s] by (simp add: fs_free_def)
  from Allocate_too_big [OF c(4,5) length_new_hdr m(1) this] have a: "FileHeader_Allocate (int m) (FileHeader_new junk) fm = Inl Out_of_bounds" .
  show ?thesis using Add_ok [OF name i(9) c(2)] r(1,3) a by (auto simp add: c(1) DiskFS_Create_at_def fs_files_def)
qed

section \<open>Removing a file\<close>

lemma length_contents: "fs_inv s \<Longrightarrow> fs_files s key = Some c \<Longrightarrow> \<exists>n. dir_map (fs_dir s) key = Some n \<and> c = contents (disk_hdr s n) s
    \<and> hdr_ok (disk_hdr s n) \<and> length c = unat (numBytes (disk_hdr s n))"
  using layoutD(2) [OF fs_invD(10)] hdr_data_blocks(3) [OF fs_invD(1)] by (fastforce simp add: fs_files_def)

text \<open>The disk after the file in sector \<open>n\<close> was removed.\<close>

lemma removed:
  assumes inv: "fs_inv s" and s': "disk_ok s'" "disk.more s' = disk.more s" and n: "dir_map (fs_dir s) key = Some n"
    and d: "dir_ok (fs_dir s')" "dir_map (fs_dir s') = (dir_map (fs_dir s))(key := None)"
    and b: "Bitmap_used (fs_map s') = Bitmap_used (fs_map s) - int ` region (disk_hdr s) n"
    and frame: "\<forall>k < 1024. k \<notin> fs_sys s - {0, 1} \<longrightarrow> disk_sector s' k = disk_sector s k"
  shows "fs_inv s'" "fs_files s' = (fs_files s)(key := None)" "fs_free s' = fs_free s + card (region (disk_hdr s) n)"
proof -
  have l: "layout (fs_sys s) (dir_map (fs_dir s)) (disk_hdr s) (Bitmap_used (fs_map s))" by (rule fs_invD(10) [OF inv])
  have fr: "\<forall>k < 1024. k \<notin> {} \<longrightarrow> k \<notin> fs_sys s - {0, 1} \<longrightarrow> disk_sector s' k = disk_sector s k" using frame by simp
  note old = fs_frame [OF inv _ _ fr, simplified]
  have H: "\<forall>m \<in> ran ((dir_map (fs_dir s))(key := None)). disk_hdr s' m = disk_hdr s m" using old(1) by (auto simp add: ran_def split: if_splits)
  then show "fs_inv s'" using fs_update [OF inv s' fr _ _ d(1)] layout_remove [OF l n H] by (simp add: d(2) b)
  have "contents (disk_hdr s' m) s' = contents (disk_hdr s m) s" if "dir_map (fs_dir s) k = Some m" for k m using old [OF that] by simp
  then show "fs_files s' = (fs_files s)(key := None)" using d(2) by (intro ext) (auto simp add: fs_files_def intro!: option.map_cong)
  have fin: "finite (Bitmap_used (fs_map s))" using used_1024(2) [of s] finite_subset by blast
  have sub: "int ` region (disk_hdr s) n \<subseteq> Bitmap_used (fs_map s)" by (rule layoutD(5) [OF l n])
  then have "card (Bitmap_used (fs_map s')) = card (Bitmap_used (fs_map s)) - card (region (disk_hdr s) n)"
    unfolding b using fin by (subst card_Diff_subset) (auto simp add: card_image finite_subset)
  moreover have "card (region (disk_hdr s) n) \<le> card (Bitmap_used (fs_map s))" using card_mono [OF fin sub] by (simp add: card_image)
  ultimately show "fs_free s' = fs_free s + card (region (disk_hdr s) n)" using used_1024(1) [of s] by (simp add: fs_free_def)
qed

lemma DiskFS_Remove_ok:
  assumes inv: "fs_inv s" and name: "0 \<notin> set name"
  shows "\<exists>s'. DiskFS_Remove junk name s = Inr (fs_files s (take 9 name) \<noteq> None, s') \<and> fs_inv s' \<and> disk.more s' = disk.more s
    \<and> fs_files s' = (fs_files s)(take 9 name := None)
    \<and> fs_free s' = fs_free s + (case fs_files s (take 9 name) of None \<Rightarrow> 0 | Some c \<Rightarrow> 1 + (length c + 255) div 256)"
proof -
  let ?k = "take 9 name"
  obtain s1 where s1: "Directory_FetchFrom (directoryFile s) (Directory_new junk NumDirEntries) s = Inr (fs_dir s, s1)"
      "disk_ok s1" "disk_sector s1 = disk_sector s" "disk.more s1 = disk.more s" using fs_read_dir [OF inv] by blast
  note e1 = same_disk [OF s1(3,4,4,2) inv] and i = fs_invD [OF inv] and u = used_1024 [of s]
  have find: "Directory_Find name (fs_dir s) = Inr (case dir_map (fs_dir s) ?k of None \<Rightarrow> -1 | Some n \<Rightarrow> int n)" by (rule Find_ok [OF name i(9)])
  show ?thesis
  proof (cases "dir_map (fs_dir s) ?k")
    case None
    then have f: "fs_files s ?k = None" by (simp add: fs_files_def)
    then show ?thesis using None find s1(1,4) e1 by (auto simp add: DiskFS_Remove_def fs_free_def fun_upd_idem)
  next
    case (Some n)
    note l = layoutD [OF i(10) Some]
    let ?h = "disk_hdr s n"
    obtain s2 where s2: "FileHeader_FetchFrom (int n) s1 = Inr (?h, s2)" "disk_ok s2" "disk_sector s2 = disk_sector s" "disk.more s2 = disk.more s"
      using FetchFrom_ok [OF s1(2) l(1)] e1(6) s1(3,4) by auto
    obtain s3 where s3: "PersistentBitmap_new junk (freeMapFile s2) NumSectors s2 = Inr (fs_map s, s3)" "disk_ok s3" "disk_sector s3 = disk_sector s" "disk.more s3 = disk.more s"
      using PersistentBitmap_new_ok [OF s2(2) i(2,3), of junk] more_fields(1) [OF s2(4)] contents_sector_eq [OF s2(3)] s2(3,4) by (auto simp add: fs_map_def)
    obtain fm1 where fm1: "FileHeader_Deallocate ?h (fs_map s) = Inr fm1" "Bitmap_inv fm1" "numBits fm1 = 1024" "Bitmap_used fm1 = Bitmap_used (fs_map s) - int ` set (hdr_sectors ?h)"
      using Deallocate_ok [OF u(3) l(2)] l(5) u(4) by (auto simp add: region_def)
    obtain fm2 where fm2: "Bitmap_Clear fm1 (int n) = Inr fm2" "Bitmap_inv fm2" "numBits fm2 = 1024" "Bitmap_used fm2 = Bitmap_used (fs_map s) - int ` region (disk_hdr s) n"
    proof -
      have "Bitmap_used fm1 - {int n} = Bitmap_used (fs_map s) - int ` region (disk_hdr s) n" unfolding fm1(4) region_def image_insert by (rule Diff_insert [symmetric])
      then show ?thesis using that Bitmap_Clear_in [OF fm1(2), of "int n"] fm1(3) l(1) by force
    qed
    obtain t where t: "Directory_Remove name (fs_dir s) = Inr (True, t)" "dir_ok t" "length t = 10" "dir_map t = (dir_map (fs_dir s))(?k := None)"
      using Remove_ok [OF name i(9)] Some by (auto simp add: fs_dir_def)
    obtain s4 s' where s': "PersistentBitmap_WriteBack junk (freeMapFile s3) fm2 s3 = Inr s4" "Directory_WriteBack junk (directoryFile s4) t s4 = Inr s'"
        "disk_ok s'" "disk.more s' = disk.more s" "fs_dir s' = t" "fs_map s' = fm2" "\<forall>k < 1024. k \<notin> fs_sys s - {0, 1} \<longrightarrow> disk_sector s' k = disk_sector s3 k"
      using commit_map_dir [OF inv s3(2,4) t(2,3) fm2(2,3), of junk] by blast
    have run: "DiskFS_Remove junk name s = Inr (True, s')"
      using Some find s1(1) s2(1) s3(1) fm1(1) fm2(1) t(1) s'(1,2) by (simp add: DiskFS_Remove_def)
    have r: "fs_inv s'" "fs_files s' = (fs_files s)(?k := None)" "fs_free s' = fs_free s + card (region (disk_hdr s) n)"
      using removed [OF inv s'(3,4) Some] s'(5-7) t(2,4) fm2(4) s3(3) by simp_all
    have "card (region (disk_hdr s) n) = 1 + length (hdr_sectors ?h)" using l(2,3) by (simp add: region_def hdr_ok_def distinct_card)
    moreover have "length (hdr_sectors ?h) = (length (contents ?h s) + 255) div 256" using hdr_ok_facts(2) [OF l(2)] hdr_data_blocks(3) [OF i(1) l(2)] by simp
    ultimately show ?thesis using run r s'(4) Some by (simp add: fs_files_def)
  qed
qed

section \<open>Reading and writing files by name\<close>

text \<open>The object \<open>f\<close> is open on the file of that name.\<close>

definition fs_open :: "DiskFS \<Rightarrow> DiskFile \<Rightarrow> 8 word list \<Rightarrow> bool" where
  "fs_open s f key \<longleftrightarrow> (case dir_map (fs_dir s) key of None \<Rightarrow> False | Some n \<Rightarrow> hdr f = disk_hdr s n)"

lemma fs_write:
  assumes inv: "fs_inv s" and f: "fs_open s f key" "fs_files s key = Some c" and p: "0 \<le> position" "n \<le> int (length from)"
  defines "m \<equiv> min (nat n) (length c - nat position)"
  shows "\<exists>s'. DiskFile_WriteAt junk from n position f s = Inr (int m, s') \<and> fs_inv s' \<and> disk.more s' = disk.more s \<and> fs_free s' = fs_free s
    \<and> fs_files s' = (fs_files s)(key \<mapsto> take (nat position) c @ take m from @ drop (nat position + nat n) c)
    \<and> (\<forall>g k. fs_open s' g k \<longleftrightarrow> fs_open s g k)"
proof -
  obtain k where k: "dir_map (fs_dir s) key = Some k" "hdr f = disk_hdr s k" "c = contents (hdr f) s" "hdr_ok (hdr f)" "length c = unat (numBytes (hdr f))"
    using length_contents [OF inv f(2)] f(1) by (auto simp add: fs_open_def)
  note i = fs_invD [OF inv] and l = layoutD [OF fs_invD(10) [OF inv] k(1)]
  obtain s' where s': "DiskFile_WriteAt junk from n position f s = Inr (int m, s')" "disk_ok s'" "disk.more s' = disk.more s"
      "contents (hdr f) s' = take (nat position) c @ take m from @ drop (nat position + nat n) c"
      "\<forall>k < 1024. k \<notin> set (hdr_sectors (hdr f)) \<longrightarrow> disk_sector s' k = disk_sector s k"
    using WriteAt_ok [OF i(1) k(4) p, of junk] k(3,5) by (auto simp add: m_def)
  note mf = more_fields [OF s'(3)]
  have fr: "\<forall>j < 1024. j \<notin> set (hdr_sectors (hdr f)) \<longrightarrow> j \<notin> fs_sys s - {0, 1} \<longrightarrow> disk_sector s' j = disk_sector s j" using s'(5) by blast
  have sys: "set (hdr_sectors (hdr f)) \<inter> fs_sys s = {}" using l(4) k(2) by (auto simp add: region_def)
  have cs: "contents (hdr (directoryFile s)) s' = contents (hdr (directoryFile s)) s" "contents (hdr (freeMapFile s)) s' = contents (hdr (freeMapFile s)) s"
    using sys s'(5) i(11,12) by (auto intro!: contents_cong simp add: fs_sys_def)
  have same: "fs_dir s' = fs_dir s" "fs_map s' = fs_map s" using cs mf by (simp_all add: fs_dir_def fs_map_def)
  have X: "region (disk_hdr s) j \<inter> set (hdr_sectors (hdr f)) = {}" if "dir_map (fs_dir s) k' = Some j" "k' \<noteq> key" for k' j
    using layoutD(6) [OF i(10) that(1) k(1) that(2)] k(2) by (auto simp add: region_def)
  have dk: "disk_hdr s' k = disk_hdr s k" using s'(5) l(1,3) k(2) by (simp add: disk_hdr_def)
  have H: "disk_hdr s' j = disk_hdr s j" if "dir_map (fs_dir s) k' = Some j" for k' j
    using dk k(1) that fs_frame(1) [OF inv that X [OF that] fr] by (cases "k' = key") auto
  then have "layout (fs_sys s) (dir_map (fs_dir s')) (disk_hdr s') (Bitmap_used (fs_map s'))"
    using layout_cong [OF i(10), of "disk_hdr s'"] by (auto simp add: same ran_def)
  moreover have "0 \<notin> set (hdr_sectors (hdr f))" "1 \<notin> set (hdr_sectors (hdr f))" using sys by (auto simp add: fs_sys_def)
  ultimately have "fs_inv s'" using fs_update [OF inv s'(2,3) fr] i(9) same(1) by simp
  moreover have "contents (disk_hdr s' j) s' = contents (disk_hdr s j) s" if "dir_map (fs_dir s) k' = Some j" "k' \<noteq> key" for k' j
    using fs_frame(2) [OF inv that(1) X [OF that] fr] H [OF that(1)] by simp
  then have "fs_files s' = (fs_files s)(key \<mapsto> contents (hdr f) s')" using k(1,2) dk by (intro ext) (auto simp add: fs_files_def same intro!: option.map_cong)
  moreover have "fs_open s' g k' \<longleftrightarrow> fs_open s g k'" for g k' using H by (auto simp add: fs_open_def same split: option.splits)
  ultimately show ?thesis using s'(1,3,4) same(2) by (auto simp add: fs_free_def)
qed

lemma fs_read:
  assumes inv: "fs_inv s" and f: "fs_open s f key" "fs_files s key = Some c" and p: "0 \<le> position"
  shows "\<exists>s'. DiskFile_ReadAt n position f s = Inr (int (length (take (nat n) (drop (nat position) c))), take (nat n) (drop (nat position) c), s')
    \<and> fs_inv s' \<and> fs_files s' = fs_files s \<and> disk.more s' = disk.more s"
proof -
  have k: "c = contents (hdr f) s" "hdr_ok (hdr f)" using length_contents [OF inv f(2)] f(1) by (auto simp add: fs_open_def)
  then show ?thesis using ReadAt_ok [OF fs_invD(1) [OF inv] k(2) p, of n] same_disk [OF _ _ _ _ inv] by metis
qed

end
