(* ===== verification/Disk_Mount.thy ===== *)
theory Disk_Mount
  imports Disk_FS
begin

text \<open>
  The table of open files of the disk file system, formatting, and the constructor; then the properties of the whole file system, from the host file that is the disk
  to the bytes of the files.
\<close>

section \<open>Opening a file\<close>

lemma table_frame [simp]:
  "disk_sector ((s :: DiskFS)\<lparr>dfs_openf := x\<rparr>) = disk_sector s" "disk_ok (s\<lparr>dfs_openf := x\<rparr>) = disk_ok s"
  "disk_sector (s\<lparr>dfs_index := j\<rparr>) = disk_sector s" "disk_ok (s\<lparr>dfs_index := j\<rparr>) = disk_ok s"
  "disk_sector (s\<lparr>of_heap := y\<rparr>) = disk_sector s" "disk_ok (s\<lparr>of_heap := y\<rparr>) = disk_ok s"
  "disk_sector (s\<lparr>of_next := k\<rparr>) = disk_sector s" "disk_ok (s\<lparr>of_next := k\<rparr>) = disk_ok s"
  by (simp_all add: fun_eq_iff disk_sector_def disk_ok_def disk_inode_def)

text \<open>The first free slot of the table, from slot 2 on.\<close>

lemma FreeSlot_loop_ok:
  assumes "\<forall>i \<in> set is. i < length t"
  shows "FreeSlot_loop t (map int is) = Inr (case List.find (\<lambda>i. t ! i = None) is of None \<Rightarrow> -1 | Some i \<Rightarrow> int i)"
  using assms by (induction "is") auto

definition dfs_free_slot :: "DiskFS \<Rightarrow> nat option" where
  "dfs_free_slot s = List.find (\<lambda>i. dfs_openf s ! i = None) [2..<10]"

lemma FindFreeSlot_ok:
  assumes "length (dfs_openf s) = 10"
  shows "DiskFS_FindFreeSlot s = Inr (case dfs_free_slot s of None \<Rightarrow> -1 | Some i \<Rightarrow> int i)"
proof -
  have e: "[2..9] = map int [2..<10]" by (simp add: upto_rec1 upt_rec)
  show ?thesis unfolding DiskFS_FindFreeSlot_def dfs_free_slot_def e using assms by (intro FreeSlot_loop_ok) auto
qed

lemma free_slot_Some: "dfs_free_slot s = Some i \<Longrightarrow> 2 \<le> i \<and> i < 10 \<and> dfs_openf s ! i = None"
  unfolding dfs_free_slot_def find_Some_iff by (metis atLeastLessThan_iff atLeastLessThan_upt nth_mem)

text \<open>
  \<open>Open\<close> with a type: a file that exists gets a new object in the first free slot; for a name that does not exist the (empty) slot is returned;
  with no free slot the array is accessed before its start.
\<close>

lemma Open_type_ok:
  assumes inv: "fs_inv s" and name: "0 \<notin> set name" and t: "length (dfs_openf s) = 10" "of_heap s (of_next s) = None"
  shows "case dfs_free_slot s of None \<Rightarrow> DiskFS_Open_type junk name typ s = Inl Out_of_bounds
    | Some i \<Rightarrow> \<exists>p s'. DiskFS_Open_type junk name typ s = Inr (p, s') \<and> fs_inv s' \<and> fs_files s' = fs_files s \<and> fs_free s' = fs_free s
        \<and> dfs_index s' = dfs_index s
        \<and> (if fs_files s (take 9 name) = None then p = None \<and> dfs_openf s' = dfs_openf s \<and> of_heap s' = of_heap s \<and> of_next s' = of_next s
           else \<exists>f. p = Some (of_next s) \<and> of_heap s' = (of_heap s)(of_next s \<mapsto> f) \<and> of_next s' = of_next s + 1 \<and> dfs_openf s' = (dfs_openf s)[i := p]
                  \<and> fs_open s' f (take 9 name) \<and> seekPosition f = 0 \<and> df_type f = typ)"
proof -
  obtain s1 where s1: "Directory_FetchFrom (directoryFile s) (Directory_new junk NumDirEntries) s = Inr (fs_dir s, s1)"
      "disk_ok s1" "disk_sector s1 = disk_sector s" "disk.more s1 = disk.more s" using fs_read_dir [OF inv] by blast
  note e1 = same_disk [OF s1(3,4,4,2) inv] and m1 = more_fields [OF s1(4)] and i = fs_invD [OF inv]
  have find: "Directory_Find name (fs_dir s) = Inr (case dir_map (fs_dir s) (take 9 name) of None \<Rightarrow> -1 | Some n \<Rightarrow> int n)" by (rule Find_ok [OF name i(9)])
  note slot = FindFreeSlot_ok [OF t(1)]
  show ?thesis
  proof (cases "dir_map (fs_dir s) (take 9 name)")
    case None
    then have f: "fs_files s (take 9 name) = None" by (simp add: fs_files_def)
    show ?thesis using None find slot s1(1) m1 e1 f t(1) free_slot_Some [of s]
      by (cases "dfs_free_slot s") (auto simp add: DiskFS_Open_type_def readA_out fs_free_def)
  next
    case (Some n)
    then have f: "fs_files s (take 9 name) \<noteq> None" by (simp add: fs_files_def)
    obtain s2 where s2: "FileHeader_FetchFrom (int n) s1 = Inr (disk_hdr s n, s2)" "disk_ok s2" "disk_sector s2 = disk_sector s" "disk.more s2 = disk.more s"
      using FetchFrom_ok [OF s1(2) layoutD(1) [OF i(10) Some]] e1(6) s1(3,4) by auto
    note m2 = more_fields [OF s2(4)]
    let ?f = "\<lparr>hdr = disk_hdr s n, seekPosition = 0, df_type = typ\<rparr>"
    have new: "DiskFile_new (int n) typ s1 = Inr (?f, s2)" using s2(1) by (simp add: DiskFile_new_def)
    show ?thesis
    proof (cases "dfs_free_slot s")
      case None
      then show ?thesis using Some find slot s1(1) new by (simp add: DiskFS_Open_type_def OpenFile_alloc_def writeA_def)
    next
      case slot_i: (Some j)
      note j = free_slot_Some [OF slot_i]
      let ?s' = "s2\<lparr>of_heap := (of_heap s)(of_next s \<mapsto> ?f), of_next := of_next s + 1, dfs_openf := (dfs_openf s)[j := Some (of_next s)]\<rparr>"
      have run: "DiskFS_Open_type junk name typ s = Inr (Some (of_next s), ?s')"
        using Some find slot slot_i s1(1) new j t(1) m2 by (simp add: DiskFS_Open_type_def OpenFile_alloc_def)
      have e: "fs_inv ?s'" "fs_files ?s' = fs_files s" "fs_dir ?s' = fs_dir s" "fs_map ?s' = fs_map s" "disk_hdr ?s' = disk_hdr s"
        using same_fs [of ?s' s] s2(2,3) m2 inv by simp_all
      have "fs_open ?s' ?f (take 9 name)" using Some e by (simp add: fs_open_def)
      then show ?thesis using run e f slot_i m2(6) by (auto simp add: fs_free_def)
    qed
  qed
qed

section \<open>Formatting the disk\<close>

lemma extend_disk [simp]: "disk_sector (disk.extend d x) = disk_sector d" "disk_ok (disk.extend d x) = disk_ok d"
  by (simp_all add: fun_eq_iff disk_sector_def disk_ok_def disk_inode_def disk.defs)

lemma contents_extend [simp]: "contents h (disk.extend d x) = contents h d" "disk_hdr (disk.extend d x) = disk_hdr d"
  by (simp_all add: contents_def hdr_data_def disk_hdr_def fun_eq_iff)

lemma DiskFile_new_ok:
  assumes "disk_ok d" "n < 1024"
  shows "\<exists>d'. DiskFile_new (int n) typ d = Inr (\<lparr>hdr = disk_hdr d n, seekPosition = 0, df_type = typ\<rparr>, d') \<and> disk_ok d' \<and> disk_sector d' = disk_sector d \<and> disk.more d' = disk.more d"
  using FetchFrom_ok [OF assms] by (auto simp add: DiskFile_new_def)

text \<open>The first sectors are allocated to the two files.\<close>

lemma format_alloc:
  "\<exists>b b1 b2 mh dh b3 b4. Bitmap_new g NumSectors = Inr b \<and> Bitmap_Mark b 0 = Inr b1 \<and> Bitmap_Mark b1 1 = Inr b2
    \<and> FileHeader_Allocate 128 (FileHeader_new junk) b2 = Inr (True, mh, b3) \<and> FileHeader_Allocate 200 (FileHeader_new junk) b3 = Inr (True, dh, b4)
    \<and> hdr_ok mh \<and> unat (numBytes mh) = 128 \<and> hdr_ok dh \<and> unat (numBytes dh) = 200 \<and> distinct ([0, 1] @ hdr_sectors mh @ hdr_sectors dh)
    \<and> Bitmap_inv b4 \<and> numBits b4 = 1024 \<and> Bitmap_used b4 = int ` ({0, 1} \<union> set (hdr_sectors mh) \<union> set (hdr_sectors dh))"
proof -
  obtain b where b: "Bitmap_new g NumSectors = Inr b" "Bitmap_inv b" "numBits b = 1024" "Bitmap_used b = {}" using Bitmap_new_ok [of NumSectors g] by (auto simp add: disk_consts)
  obtain b1 where b1: "Bitmap_Mark b 0 = Inr b1" "Bitmap_inv b1" "numBits b1 = 1024" "Bitmap_used b1 = {0}" using Bitmap_Mark_in [OF b(2), of 0] b(3,4) by auto
  obtain b2 where b2: "Bitmap_Mark b1 1 = Inr b2" "Bitmap_inv b2" "numBits b2 = 1024" "Bitmap_used b2 = {0, 1}" using Bitmap_Mark_in [OF b1(2), of 1] b1(3,4) by auto
  obtain mh b3 where mh: "FileHeader_Allocate 128 (FileHeader_new junk) b2 = Inr (True, mh, b3)" "hdr_ok mh" "unat (numBytes mh) = 128" "Bitmap_inv b3" "numBits b3 = 1024"
      "int ` set (hdr_sectors mh) \<inter> {0, 1} = {}" "Bitmap_used b3 = {0, 1} \<union> int ` set (hdr_sectors mh)"
    using Allocate_ok [OF b2(2,3) length_new_hdr, of 128 junk] b2(4) by auto
  have "length (hdr_sectors mh) = 1" using hdr_ok_facts(2) [OF mh(2)] mh(3) by simp
  then obtain x where x: "hdr_sectors mh = [x]" by (auto simp add: length_Suc_conv)
  have "card (Bitmap_used b3) \<le> 3" using mh(7) by (simp add: x card_insert_if)
  then obtain dh b4 where dh: "FileHeader_Allocate 200 (FileHeader_new junk) b3 = Inr (True, dh, b4)" "hdr_ok dh" "unat (numBytes dh) = 200" "Bitmap_inv b4" "numBits b4 = 1024"
      "int ` set (hdr_sectors dh) \<inter> Bitmap_used b3 = {}" "Bitmap_used b4 = Bitmap_used b3 \<union> int ` set (hdr_sectors dh)"
    using Allocate_ok [OF mh(4,5) length_new_hdr, of 200 junk] by auto
  have "0 \<notin> set (hdr_sectors mh)" "1 \<notin> set (hdr_sectors mh)" using mh(6) by force+
  moreover have "0 \<notin> set (hdr_sectors dh)" "1 \<notin> set (hdr_sectors dh)" "set (hdr_sectors mh) \<inter> set (hdr_sectors dh) = {}" using dh(6) mh(7) by force+
  ultimately have "distinct ([0, 1] @ hdr_sectors mh @ hdr_sectors dh)" using mh(2) dh(2) by (auto simp add: hdr_ok_def)
  moreover have "Bitmap_used b4 = int ` ({0, 1} \<union> set (hdr_sectors mh) \<union> set (hdr_sectors dh))" using dh(7) mh(7) by auto
  ultimately show ?thesis using b(1) b1(1) b2(1) mh(1-3) dh(1-5) by blast
qed

text \<open>A disk with an empty directory, and a map that marks the sectors of the two files.\<close>

lemma formatted:
  fixes d6 :: disk
  assumes d6: "disk_ok d6" and mh: "hdr_ok mh" "unat (numBytes mh) = 128" and dh: "hdr_ok dh" "unat (numBytes dh) = 20 * 10"
    and dist: "distinct ([0, 1] @ hdr_sectors mh @ hdr_sectors dh)" and used: "Bitmap_used b4 = int ` ({0, 1} \<union> set (hdr_sectors mh) \<union> set (hdr_sectors dh))"
    and hd6: "disk_hdr d6 0 = mh" "disk_hdr d6 1 = dh" and c: "bytes_dir 10 (contents dh d6) = Directory_new junk 10" "bytes_bitmap (contents mh d6) = b4"
    and s: "s = disk.extend d6 \<lparr>freeMapFile = \<lparr>hdr = mh, seekPosition = p, df_type = t\<rparr>, directoryFile = \<lparr>hdr = dh, seekPosition = q, df_type = u\<rparr>,
      of_heap = heap, of_next = nxt, dfs_openf = tab, dfs_index = j\<rparr>"
  shows "fs_inv s \<and> fs_files s = Map.empty \<and> fs_free s = 1020"
proof -
  have "card ({0, 1} \<union> set (hdr_sectors mh) \<union> set (hdr_sectors dh)) = length ([0, 1] @ hdr_sectors mh @ hdr_sectors dh)"
    using distinct_card [OF dist] by (simp add: Un_assoc insert_commute)
  also have "\<dots> = 4" using hdr_ok_facts(2) [OF mh(1)] hdr_ok_facts(2) [OF dh(1)] mh(2) dh(2) by simp
  finally have cu: "card (Bitmap_used b4) = 4" by (simp add: used card_image del: Un_insert_left)
  have f: "hdr (freeMapFile s) = mh" "hdr (directoryFile s) = dh" by (simp_all add: s disk.defs)
  have e: "fs_dir s = Directory_new junk 10" "fs_map s = b4" using c f by (simp_all add: fs_dir_def fs_map_def s)
  have "layout (fs_sys s) (dir_map (fs_dir s)) (disk_hdr s) (Bitmap_used (fs_map s))"
    using used f by (simp add: layout_def e Directory_new_facts(4) fs_sys_def)
  then have "fs_inv s" using d6 mh dh dist hd6 f e Directory_new_facts(3) [of junk 10] by (simp add: fs_inv_def s)
  then show ?thesis using e cu Directory_new_facts(4) by (simp add: fs_files_def fun_eq_iff fs_free_def)
qed

lemma format_ok:
  assumes "disk_ok d"
  shows "\<exists>mf df d'. DiskFS_format junk d = Inr (mf, df, d')
    \<and> (\<forall>heap nxt tab j. let s = disk.extend d' \<lparr>freeMapFile = mf, directoryFile = df, of_heap = heap, of_next = nxt, dfs_openf = tab, dfs_index = j\<rparr> in
         fs_inv s \<and> fs_files s = Map.empty \<and> fs_free s = 1020)"
proof -
  let ?dir = "Directory_new junk 10"
  obtain b b1 b2 mh dh b3 b4 where a: "Bitmap_new (junk_words junk (divRoundUp NumSectors BitsInWord)) NumSectors = Inr b" "Bitmap_Mark b 0 = Inr b1" "Bitmap_Mark b1 1 = Inr b2"
      "FileHeader_Allocate 128 (FileHeader_new junk) b2 = Inr (True, mh, b3)" "FileHeader_Allocate 200 (FileHeader_new junk) b3 = Inr (True, dh, b4)"
    and mh: "hdr_ok mh" "unat (numBytes mh) = 128" and dh: "hdr_ok dh" "unat (numBytes dh) = 20 * 10" and dist: "distinct ([0, 1] @ hdr_sectors mh @ hdr_sectors dh)"
    and b4: "Bitmap_inv b4" "numBits b4 = 1024" and used: "Bitmap_used b4 = int ` ({0, 1} \<union> set (hdr_sectors mh) \<union> set (hdr_sectors dh))"
    using format_alloc [of "junk_words junk (divRoundUp NumSectors BitsInWord)" junk] by auto
  have len: "length (dataSectors mh) = 62" "length (dataSectors dh) = 62" "\<forall>k \<in> set (hdr_sectors mh) \<union> set (hdr_sectors dh). k < 1024"
    using mh(1) dh(1) by (auto simp add: hdr_ok_def)
  obtain d1 where d1: "FileHeader_WriteBack 0 mh d = Inr d1" "disk_ok d1" "disk_hdr d1 0 = mh" using WriteBack_ok [OF assms, of 0 mh] len by auto
  obtain d2 where d2: "FileHeader_WriteBack 1 dh d1 = Inr d2" "disk_ok d2" "disk_hdr d2 1 = dh" "\<forall>k < 1024. k \<noteq> 1 \<longrightarrow> disk_sector d2 k = disk_sector d1 k"
    using WriteBack_ok [OF d1(2), of 1 dh] len by auto
  have h0: "disk_hdr d2 0 = mh" using d2(4) d1(3) by (simp add: disk_hdr_def)
  let ?mf = "\<lparr>hdr = mh, seekPosition = 0, df_type = sint (load32 junk 0)\<rparr>" and ?df = "\<lparr>hdr = dh, seekPosition = 0, df_type = sint (load32 junk 0)\<rparr>"
  obtain d3 where d3: "DiskFile_new 0 (sint (load32 junk 0)) d2 = Inr (?mf, d3)" "disk_ok d3" "disk_sector d3 = disk_sector d2"
    using DiskFile_new_ok [OF d2(2), of 0] h0 by auto
  obtain d4 where d4: "DiskFile_new 1 (sint (load32 junk 0)) d3 = Inr (?df, d4)" "disk_ok d4" "disk_sector d4 = disk_sector d2"
    using DiskFile_new_ok [OF d3(2), of 1] d3(3) d2(3) by (auto simp add: disk_hdr_def)
  obtain d5 where d5: "PersistentBitmap_WriteBack junk ?mf b4 d4 = Inr d5" "disk_ok d5" "bytes_bitmap (contents mh d5) = b4"
      "\<forall>k < 1024. k \<notin> set (hdr_sectors mh) \<longrightarrow> disk_sector d5 k = disk_sector d4 k"
    using PersistentBitmap_WriteBack_ok [OF d4(2), of ?mf b4 junk] mh b4 by auto
  obtain d6 where d6: "Directory_WriteBack junk ?df ?dir d5 = Inr d6" "disk_ok d6" "bytes_dir 10 (contents dh d6) = ?dir"
      "\<forall>k < 1024. k \<notin> set (hdr_sectors dh) \<longrightarrow> disk_sector d6 k = disk_sector d5 k"
    using Directory_WriteBack_ok [OF d5(2), of ?df 10 ?dir junk] dh Directory_new_facts [of junk 10] by auto
  have run: "DiskFS_format junk d = Inr (?mf, ?df, d6)"
    using a d1(1) d2(1) d3(1) d4(1) d5(1) d6(1)
    by (simp add: DiskFS_format_def FreeMapSector_def DirectorySector_def FreeMapFileSize_def DirectoryFileSize_def NumDirEntries_def disk_consts BitsInByte_def Let_def)
  have m6: "contents mh d6 = contents mh d5" using d6(4) dist len(3) by (intro contents_cong) auto
  have hd6: "disk_hdr d6 0 = mh" "disk_hdr d6 1 = dh" using d6(4) d5(4) d4(3) dist h0 d2(3) by (simp_all add: disk_hdr_def)
  show ?thesis using run formatted [OF d6(2) mh dh dist used hd6 d6(3)] d5(3) m6 by (auto simp add: Let_def)
qed

lemma std_names: "0 \<notin> set stdin_key" "0 \<notin> set stdout_key" "take 9 stdin_key = stdin_key" "take 9 stdout_key = stdout_key" "stdin_key \<noteq> stdout_key"
  by (simp_all add: stdin_key_def stdout_key_def)

text \<open>One of the first two lines of the constructor: the file is opened, and the result put in the next slot.\<close>

lemma open_std_ok:
  assumes inv: "fs_inv s" and name: "0 \<notin> set name" "take 9 name = name" and t: "length (dfs_openf s) = 10" "of_heap s (of_next s) = None"
    and j: "dfs_free_slot s = Some i" "dfs_index s = int k" "k < 10"
  shows "\<exists>s'. DiskFS_open_std junk name typ s = Inr s' \<and> fs_inv s' \<and> fs_files s' = fs_files s \<and> fs_free s' = fs_free s \<and> dfs_index s' = int (k + 1)
    \<and> (if fs_files s name = None then dfs_openf s' = (dfs_openf s)[k := None] \<and> of_heap s' = of_heap s \<and> of_next s' = of_next s
       else \<exists>f. of_heap s' = (of_heap s)(of_next s \<mapsto> f) \<and> of_next s' = of_next s + 1 \<and> dfs_openf s' = (dfs_openf s)[i := Some (of_next s), k := Some (of_next s)]
             \<and> fs_open s' f name)"
proof -
  obtain p s1 where ot: "DiskFS_Open_type junk name typ s = Inr (p, s1)" "fs_inv s1" "fs_files s1 = fs_files s" "fs_free s1 = fs_free s" "dfs_index s1 = dfs_index s"
      "if fs_files s name = None then p = None \<and> dfs_openf s1 = dfs_openf s \<and> of_heap s1 = of_heap s \<and> of_next s1 = of_next s
       else \<exists>f. p = Some (of_next s) \<and> of_heap s1 = (of_heap s)(of_next s \<mapsto> f) \<and> of_next s1 = of_next s + 1 \<and> dfs_openf s1 = (dfs_openf s)[i := p]
                  \<and> fs_open s1 f name \<and> seekPosition f = 0 \<and> df_type f = typ"
    using Open_type_ok [OF inv name(1) t, of junk "typ"] unfolding j(1) name(2) option.case by blast
  let ?s' = "s1\<lparr>dfs_openf := (dfs_openf s1)[k := p], dfs_index := int k + 1\<rparr>"
  have "length (dfs_openf s1) = 10" using ot(6) t(1) by (auto split: if_splits)
  then have run: "DiskFS_open_std junk name typ s = Inr ?s'" using ot(1,5) j(2,3) by (simp add: DiskFS_open_std_def)
  have e: "fs_inv ?s'" "fs_files ?s' = fs_files s" "fs_dir ?s' = fs_dir s1" "fs_map ?s' = fs_map s1" "disk_hdr ?s' = disk_hdr s1"
    using same_fs [of ?s' s1] ot(2,3) fs_invD(1) [OF ot(2)] by simp_all
  have "fs_free ?s' = fs_free s" "fs_open ?s' f key = fs_open s1 f key" for f key unfolding fs_free_def fs_open_def e using ot(4) by (simp_all add: fs_free_def)
  then show ?thesis using run e ot(6) by (auto split: if_splits)
qed

lemma free_slot_None: "dfs_openf s = replicate 10 None \<Longrightarrow> dfs_free_slot s = Some 2"
  by (simp add: dfs_free_slot_def upt_rec)

lemma Create_std:
  assumes "fs_inv s" "0 \<notin> set name" "take 9 name = name" "card (dom (fs_files s)) < 10" "1 \<le> fs_free s"
  shows "\<exists>r s'. DiskFS_Create junk name 0 s = Inr (r, s') \<and> fs_inv s' \<and> disk.more s' = disk.more s
    \<and> fs_files s' = (if fs_files s name = None then (fs_files s)(name \<mapsto> []) else fs_files s)
    \<and> fs_free s' = (if fs_files s name = None then fs_free s - 1 else fs_free s)"
  using Create_ok [OF assms(1,2), of 0 junk] assms(3-5) by (auto simp add: fs_created_def fs_room_def)

text \<open>The constructor on a disk whose two files are known.\<close>

lemma new_rest:
  assumes s: "fs_inv s" "dfs_openf s = replicate 10 None" "dfs_index s = 0" "of_heap s = Map.empty" "of_next s = 0"
    and files: "fs_files s = Map.empty" "fs_free s = 1020"
  shows "\<exists>s1 s2 r1 s3 r2 s'. DiskFS_open_std junk stdin_key 2 s = Inr s1 \<and> DiskFS_open_std junk stdout_key 3 s1 = Inr s2
    \<and> DiskFS_Create junk stdin_key 0 s2 = Inr (r1, s3) \<and> DiskFS_Create junk stdout_key 0 s3 = Inr (r2, s')
    \<and> fs_inv s' \<and> fs_files s' = [stdin_key \<mapsto> [], stdout_key \<mapsto> []] \<and> fs_free s' = 1018 \<and> dfs_openf s' = replicate 10 None \<and> dfs_index s' = 2 \<and> of_heap s' = Map.empty"
proof -
  have up: "(replicate 10 None)[k := None :: nat option] = replicate 10 None" for k
    by (metis length_replicate list_update_beyond list_update_id not_le nth_replicate)
  obtain s1 where s1: "DiskFS_open_std junk stdin_key 2 s = Inr s1" "fs_inv s1" "fs_files s1 = Map.empty" "fs_free s1 = 1020" "dfs_index s1 = 1"
      "dfs_openf s1 = replicate 10 None" "of_heap s1 = Map.empty" "of_next s1 = 0"
    using open_std_ok [OF s(1) std_names(1,3), of 2 0 junk 2] s(2-5) files free_slot_None [OF s(2)] up by auto
  obtain s2 where s2: "DiskFS_open_std junk stdout_key 3 s1 = Inr s2" "fs_inv s2" "fs_files s2 = Map.empty" "fs_free s2 = 1020" "dfs_index s2 = 2" "dfs_openf s2 = replicate 10 None" "of_heap s2 = Map.empty"
    using open_std_ok [OF s1(2) std_names(2,4), of 2 1 junk 3] s1(3-8) free_slot_None [OF s1(6)] up by auto
  obtain r1 s3 where s3: "DiskFS_Create junk stdin_key 0 s2 = Inr (r1, s3)" "fs_inv s3" "disk.more s3 = disk.more s2" "fs_files s3 = [stdin_key \<mapsto> []]" "fs_free s3 = 1019"
    using Create_std [OF s2(2) std_names(1,3), of junk] s2(3,4) by auto
  obtain r2 s' where s': "DiskFS_Create junk stdout_key 0 s3 = Inr (r2, s')" "fs_inv s'" "disk.more s' = disk.more s3" "fs_files s' = [stdin_key \<mapsto> [], stdout_key \<mapsto> []]" "fs_free s' = 1018"
    using Create_std [OF s3(2) std_names(2,4), of junk] s3(4,5) std_names(5) by auto
  show ?thesis using s1(1) s2(1) s3(1) s' more_fields(3,5,6) [OF s'(3)] more_fields(3,5,6) [OF s3(3)] s2(5-7) by simp
qed

lemma DiskFS_format_ok:
  assumes "disk_ok d"
  shows "\<exists>s. DiskFS_new junk True d = Inr s \<and> fs_inv s \<and> fs_files s = [stdin_key \<mapsto> [], stdout_key \<mapsto> []] \<and> fs_free s = 1018
    \<and> dfs_openf s = replicate 10 None \<and> dfs_index s = 2 \<and> of_heap s = Map.empty"
proof -
  obtain mf df d' where f: "DiskFS_format junk d = Inr (mf, df, d')"
    "\<forall>heap nxt tab j. let s = disk.extend d' \<lparr>freeMapFile = mf, directoryFile = df, of_heap = heap, of_next = nxt, dfs_openf = tab, dfs_index = j\<rparr> in
         fs_inv s \<and> fs_files s = Map.empty \<and> fs_free s = 1020" using format_ok [OF assms] by blast
  let ?s = "disk.extend d' \<lparr>freeMapFile = mf, directoryFile = df, of_heap = Map.empty, of_next = 0, dfs_openf = replicate 10 None, dfs_index = 0\<rparr>"
  have s: "fs_inv ?s" "fs_files ?s = Map.empty" "fs_free ?s = 1020" using f(2) by (simp_all add: Let_def)
  moreover have "dfs_openf ?s = replicate 10 None" "dfs_index ?s = 0" "of_heap ?s = Map.empty" "of_next ?s = 0" by (simp_all add: disk.defs)
  ultimately obtain s1 s2 r1 s3 r2 s' where r: "DiskFS_open_std junk stdin_key 2 ?s = Inr s1" "DiskFS_open_std junk stdout_key 3 s1 = Inr s2"
    "DiskFS_Create junk stdin_key 0 s2 = Inr (r1, s3)" "DiskFS_Create junk stdout_key 0 s3 = Inr (r2, s')"
    "fs_inv s'" "fs_files s' = [stdin_key \<mapsto> [], stdout_key \<mapsto> []]" "fs_free s' = 1018" "dfs_openf s' = replicate 10 None" "dfs_index s' = 2" "of_heap s' = Map.empty"
    using new_rest by blast
  have "DiskFS_new junk True d = Inr s'" using f(1) r(1-4) by (simp add: DiskFS_new_def Let_def)
  then show ?thesis using r(5-10) by blast
qed

text \<open>The constructor makes a new disk, all of whose sectors are 0, or opens an old one.\<close>

lemma Disk_new_ok:
  assumes "host_allows h name" "dirent h name = None" "0 \<le> next_fd h" "0 \<le> ticks"
  shows "\<exists>d. Disk_new name ticks h = Inr d \<and> disk_ok d \<and> disk_ticks d = ticks"
proof -
  let ?i = "next_inode h" and ?fd = "next_fd h"
  let ?c = "splice (nat (DiskSize - 4)) (word_bytes 0) (splice 0 (word_bytes MagicNumber) [])"
  have nn: "length (word_bytes w) = 4" "word_bytes w \<noteq> []" for w by (simp_all add: word_bytes_def)
  have c: "length ?c = 4 + 1024 * 256" by (simp add: length_splice disk_consts nn)
  have "\<exists>h'. OpenForReadWrite name False h = Inr (-1, h) \<and> OpenForWrite name h = Inr (?fd, h')
      \<and> bindE (WriteFile ?fd (word_bytes MagicNumber) h') (\<lambda>h. bindE (Lseek ?fd (DiskSize - 4) False h) (WriteFile ?fd (word_bytes 0)))
        = Inr (h'\<lparr>inode := (inode h')(?i := ?c), fdtab := (fdtab h')(?fd \<mapsto> (?i, DiskSize))\<rparr>)"
    using assms(1-3) nn by (auto simp add: OpenForReadWrite_def OpenForWrite_def unix_open_def WriteFile_def Lseek_def unix_write_def unix_lseek_def disk_consts)
  then obtain h' where h': "OpenForReadWrite name False h = Inr (-1, h)" "OpenForWrite name h = Inr (?fd, h')"
      "bindE (WriteFile ?fd (word_bytes MagicNumber) h') (\<lambda>h. bindE (Lseek ?fd (DiskSize - 4) False h) (WriteFile ?fd (word_bytes 0)))
        = Inr (h'\<lparr>inode := (inode h')(?i := ?c), fdtab := (fdtab h')(?fd \<mapsto> (?i, DiskSize))\<rparr>)" by blast
  let ?d = "host.extend (h'\<lparr>inode := (inode h')(?i := ?c), fdtab := (fdtab h')(?fd \<mapsto> (?i, DiskSize))\<rparr>)
    \<lparr>fileno = ?fd, active = False, lastSector = 0, bufferInit = 0, disk_ticks = ticks\<rparr>"
  have "Disk_new name ticks h = Inr ?d" using h' by (auto simp add: Disk_new_def bindE_eq_Inr)
  moreover have "disk_ok ?d" using c assms(4) by (simp add: disk_ok_def disk_inode_def host.defs)
  ultimately show ?thesis by (auto simp add: host.defs)
qed

lemma Disk_new_old:
  assumes "host_allows h name" "dirent h name = Some i" "0 \<le> next_fd h" "0 \<le> ticks" "length (inode h i) = 4 + 1024 * 256" "take 4 (inode h i) = word_bytes MagicNumber"
  shows "\<exists>d. Disk_new name ticks h = Inr d \<and> disk_ok d \<and> (\<forall>n. disk_sector d n = take 256 (drop (4 + 256 * n) (inode h i)))"
proof -
  let ?h = "h\<lparr>next_fd := next_fd h + 1, fdtab := (fdtab h)(next_fd h \<mapsto> (i, 4))\<rparr>"
  let ?d = "host.extend ?h \<lparr>fileno = next_fd h, active = False, lastSector = 0, bufferInit = 0, disk_ticks = ticks\<rparr>"
  have "Disk_new name ticks h = Inr ?d"
    using assms by (simp add: Disk_new_def OpenForReadWrite_def unix_open_def Read_def unix_read_def disk_consts)
  moreover have "disk_ok ?d" using assms(4,5) by (simp add: disk_ok_def disk_inode_def host.defs)
  moreover have "disk_sector ?d n = take 256 (drop (4 + 256 * n) (inode h i))" for n by (simp add: disk_sector_def disk_inode_def host.defs)
  ultimately show ?thesis by blast
qed

section \<open>Properties\<close>

text \<open>
  C33.  Making a disk and formatting it gives a well-formed file system: on a host that lets the disk be created, the constructors of \<open>Disk\<close> and of \<open>FileSystem\<close> return; the
  directory then has the two empty files \<open>stdin\<close> and \<open>stdout\<close>, all but six sectors are free, and the table of open files is empty, since the two names are opened before they
  are created.
\<close>

theorem DiskFS_formatted:
  assumes "host_allows h diskname" "dirent h diskname = None" "0 \<le> next_fd h" "0 \<le> ticks"
  shows "\<exists>d s. Disk_new diskname ticks h = Inr d \<and> DiskFS_new junk True d = Inr s \<and> fs_inv s
    \<and> fs_files s = [stdin_key \<mapsto> [], stdout_key \<mapsto> []] \<and> fs_free s = nat NumSectors - 6 \<and> dfs_openf s = replicate 10 None"
proof -
  obtain d where d: "Disk_new diskname ticks h = Inr d" "disk_ok d" using Disk_new_ok [OF assms] by blast
  then show ?thesis using DiskFS_format_ok [OF d(2), of junk] by (auto simp add: disk_consts)
qed

definition empty_host :: host where
  "empty_host = \<lparr>con_in = [], con_out = [], dirent = Map.empty, inode = (\<lambda>_. []), next_inode = 0, fdtab = Map.empty, next_fd = 3, host_allows = (\<lambda>_. True)\<rparr>"

theorem DiskFS_formatted_witness:
  "\<exists>d s. Disk_new [68] 0 empty_host = Inr d \<and> DiskFS_new (\<lambda>_. 7) True d = Inr s \<and> fs_inv s \<and> fs_files s [115] = None \<and> fs_free s = 1018"
proof -
  obtain d s where "Disk_new [68] 0 empty_host = Inr d" "DiskFS_new (\<lambda>_. 7) True d = Inr s" "fs_inv s" "fs_files s = [stdin_key \<mapsto> [], stdout_key \<mapsto> []]" "fs_free s = 1018"
    using DiskFS_formatted [of empty_host "[68]" 0 "\<lambda>_. 7"] by (auto simp add: empty_host_def disk_consts)
  then show ?thesis by (auto simp add: stdin_key_def stdout_key_def)
qed

text \<open>A formatted disk.\<close>

lemma formatted_disk:
  "\<exists>d s. Disk_new [68] 0 empty_host = Inr d \<and> DiskFS_new (\<lambda>_. 7) True d = Inr s \<and> fs_inv s \<and> fs_files s = [stdin_key \<mapsto> [], stdout_key \<mapsto> []]
    \<and> fs_free s = 1018 \<and> length (dfs_openf s) = 10 \<and> dfs_free_slot s = Some 2 \<and> of_heap s = Map.empty"
proof -
  obtain d where d: "Disk_new [68] 0 empty_host = Inr d" "disk_ok d" using Disk_new_ok [of empty_host "[68]" 0] by (auto simp add: empty_host_def)
  then show ?thesis using DiskFS_format_ok [OF d(2), of "\<lambda>_. 7"] free_slot_None by auto
qed

text \<open>
  C9.  Creating a file: on a well-formed file system \<open>Create\<close> of a file of at most \<open>MaxFileSize\<close> bytes succeeds exactly when the first nine characters of the name are not the name of
  a file, fewer than ten files exist, and the header and the data fit in the free sectors.  Then there is one more file, of that size, every other file has the bytes it had, and the free
  map has lost just the sectors of the file; otherwise nothing changes.  The file system stays well formed.  A larger file is not refused when it fits on the disk: the array of sectors in the
  header overflows.
\<close>

theorem DiskFS_Create_correct:
  fixes m :: nat
  assumes "fs_inv s" "0 \<notin> set name"
  defines "key \<equiv> take 9 name" and "need \<equiv> 1 + (m + 255) div 256"
  shows "(int m \<le> MaxFileSize \<longrightarrow>
      (\<exists>r s'. DiskFS_Create junk name (int m) s = Inr (r, s') \<and> fs_inv s'
        \<and> r = (fs_files s key = None \<and> card (dom (fs_files s)) < NumDirEntries \<and> need \<le> fs_free s)
        \<and> (if r then \<exists>bytes. length bytes = m \<and> fs_files s' = (fs_files s)(key \<mapsto> bytes) \<and> fs_free s' = fs_free s - need
           else fs_files s' = fs_files s \<and> fs_free s' = fs_free s)))
    \<and> (int m > MaxFileSize \<and> fs_files s key = None \<and> card (dom (fs_files s)) < NumDirEntries \<and> need \<le> fs_free s \<longrightarrow>
        DiskFS_Create junk name (int m) s = Inl Out_of_bounds)"
proof -
  have M: "MaxFileSize = 15872" "NumDirEntries = 10" by (simp_all add: MaxFileSize_def NumDirect_def disk_consts NumDirEntries_def)
  show ?thesis
    using Create_ok [OF assms(1,2), of m junk] Create_too_big [OF assms(1,2), of m junk] unfolding M fs_created_def fs_room_def key_def need_def
    by (intro conjI impI) (force, simp)
qed

theorem DiskFS_Create_correct_witness:
  "\<exists>d s s'. Disk_new [68] 0 empty_host = Inr d \<and> DiskFS_new (\<lambda>_. 7) True d = Inr s \<and> DiskFS_Create (\<lambda>_. 9) [97, 98] 1000 s = Inr (True, s')
    \<and> fs_inv s' \<and> map_option length (fs_files s' [97, 98]) = Some 1000 \<and> fs_files s' stdin_key = Some []
    \<and> DiskFS_Create (\<lambda>_. 9) [97, 98] 20000 s = Inl Out_of_bounds"
proof -
  obtain d s where s: "Disk_new [68] 0 empty_host = Inr d" "DiskFS_new (\<lambda>_. 7) True d = Inr s" "fs_inv s" "fs_files s = [stdin_key \<mapsto> [], stdout_key \<mapsto> []]" "fs_free s = 1018"
    using formatted_disk by blast
  have c: "card (dom (fs_files s)) = 2" using s(4) std_names(5) by simp
  have n: "fs_files s [97, 98] = None" by (simp add: s(4) stdin_key_def stdout_key_def)
  have M: "MaxFileSize = 15872" "NumDirEntries = 10" by (simp_all add: MaxFileSize_def NumDirect_def disk_consts NumDirEntries_def)
  have big: "DiskFS_Create (\<lambda>_. 9) [97, 98] 20000 s = Inl Out_of_bounds"
    using DiskFS_Create_correct [OF s(3), of "[97, 98]" 20000 "\<lambda>_. 9"] c n s(5) by (simp add: M)
  obtain s' bytes where s': "DiskFS_Create (\<lambda>_. 9) [97, 98] 1000 s = Inr (True, s')" "fs_inv s'" "length bytes = 1000" "fs_files s' = (fs_files s)([97, 98] \<mapsto> bytes)"
    using DiskFS_Create_correct [OF s(3), of "[97, 98]" 1000 "\<lambda>_. 9"] c n s(5) by (auto simp add: M)
  moreover have "stdin_key \<noteq> [97, 98]" by (simp add: stdin_key_def)
  ultimately have "map_option length (fs_files s' [97, 98]) = Some 1000" "fs_files s' stdin_key = Some []" using s(4) std_names(5) by auto
  then show ?thesis using s(1,2) s'(1,2) big by blast
qed

text \<open>
  C10.  Removing a file: on a well-formed file system \<open>Remove\<close> returns whether the name (its first nine characters) is the name of a file; that file is gone, every other file has
  the bytes it had, the sectors of the file are free again, and the file system stays well formed.  None of the assertions on the free map fails.
\<close>

theorem DiskFS_Remove_correct:
  assumes "fs_inv s" "0 \<notin> set name"
  defines "key \<equiv> take 9 name"
  shows "\<exists>s'. DiskFS_Remove junk name s = Inr (fs_files s key \<noteq> None, s') \<and> fs_inv s' \<and> fs_files s' = (fs_files s)(key := None)
    \<and> fs_free s' = fs_free s + (case fs_files s key of None \<Rightarrow> 0 | Some c \<Rightarrow> 1 + (length c + 255) div 256)"
  using DiskFS_Remove_ok [OF assms(1,2), of junk] by (auto simp add: key_def)

theorem DiskFS_Remove_correct_witness:
  "\<exists>d s s'. Disk_new [68] 0 empty_host = Inr d \<and> DiskFS_new (\<lambda>_. 7) True d = Inr s \<and> DiskFS_Remove (\<lambda>_. 9) stdin_key s = Inr (True, s')
    \<and> fs_inv s' \<and> fs_files s' = [stdout_key \<mapsto> []] \<and> fs_free s' = 1019"
proof -
  obtain d s where s: "Disk_new [68] 0 empty_host = Inr d" "DiskFS_new (\<lambda>_. 7) True d = Inr s" "fs_inv s" "fs_files s = [stdin_key \<mapsto> [], stdout_key \<mapsto> []]" "fs_free s = 1018"
    using formatted_disk by blast
  have f: "fs_files s stdin_key = Some []" "(fs_files s)(stdin_key := None) = [stdout_key \<mapsto> []]" using s(4) std_names(5) by (auto simp add: fun_eq_iff)
  then show ?thesis using DiskFS_Remove_correct [OF s(3) std_names(1), of "\<lambda>_. 9"] s(1,2,5) std_names(3) by auto
qed

text \<open>
  C8.  Files keep what is written to them: when \<open>Open\<close> with a type finds a file and a free slot, it returns a new object; a write through the object returns, puts the bytes at the position into
  the contents of the file, as far as they fit in its length, and changes no other file; and then a read at any position through any object that is open on the file
  returns the bytes of the new contents.  The file system stays well formed.
\<close>

theorem DiskFS_write_read:
  assumes "fs_inv s" "0 \<notin> set name" "length (dfs_openf s) = 10" "of_heap s (of_next s) = None" "dfs_free_slot s = Some i"
    and "fs_files s (take 9 name) = Some c" "0 \<le> position" "n \<le> int (length from)"
  shows "\<exists>p f s1 s2. DiskFS_Open_type junk name typ s = Inr (Some p, s1) \<and> of_heap s1 p = Some f
    \<and> DiskFile_WriteAt junk from n position f s1 = Inr (int (min (nat n) (length c - nat position)), s2) \<and> fs_inv s2
    \<and> (let c' = take (nat position) c @ take (min (nat n) (length c - nat position)) from @ drop (nat position + nat n) c in
       fs_files s2 = (fs_files s)(take 9 name \<mapsto> c') \<and> fs_open s2 f (take 9 name)
       \<and> (\<forall>g k q. fs_open s2 g (take 9 name) \<and> 0 \<le> q \<longrightarrow>
            (\<exists>s3. DiskFile_ReadAt k q g s2 = Inr (int (length (take (nat k) (drop (nat q) c'))), take (nat k) (drop (nat q) c'), s3) \<and> fs_inv s3 \<and> fs_files s3 = fs_files s2)))"
proof -
  obtain s1 f where s1: "DiskFS_Open_type junk name typ s = Inr (Some (of_next s), s1)" "fs_inv s1" "fs_files s1 = fs_files s" "of_heap s1 (of_next s) = Some f" "fs_open s1 f (take 9 name)"
    using Open_type_ok [OF assms(1-4), of junk "typ"] assms(5,6) by auto
  define c' where "c' = take (nat position) c @ take (min (nat n) (length c - nat position)) from @ drop (nat position + nat n) c"
  obtain s2 where s2: "DiskFile_WriteAt junk from n position f s1 = Inr (int (min (nat n) (length c - nat position)), s2)" "fs_inv s2"
      "fs_files s2 = (fs_files s)(take 9 name \<mapsto> c')" "fs_open s2 f (take 9 name)"
    using fs_write [OF s1(2,5) _ assms(7,8), of c junk] s1(3,5) assms(6) by (auto simp add: c'_def)
  have "\<exists>s3. DiskFile_ReadAt k q g s2 = Inr (int (length (take (nat k) (drop (nat q) c'))), take (nat k) (drop (nat q) c'), s3) \<and> fs_inv s3 \<and> fs_files s3 = fs_files s2"
    if "fs_open s2 g (take 9 name)" "0 \<le> q" for g k q
    using fs_read [OF s2(2) that(1) _ that(2), of c' k] s2(3) by auto
  then show ?thesis using s1(1,4) s2 unfolding Let_def c'_def [symmetric] by blast
qed

theorem DiskFS_write_read_witness:
  "\<exists>d s s1 p f s2 s3 s4. Disk_new [68] 0 empty_host = Inr d \<and> DiskFS_new (\<lambda>_. 7) True d = Inr s \<and> DiskFS_Create (\<lambda>_. 9) [97, 98] 300 s = Inr (True, s1)
    \<and> DiskFS_Open_type (\<lambda>_. 9) [97, 98] 1 s1 = Inr (Some p, s2) \<and> of_heap s2 p = Some f \<and> DiskFile_WriteAt (\<lambda>_. 9) [1, 2, 3] 3 254 f s2 = Inr (3, s3)
    \<and> DiskFile_ReadAt 3 254 f s3 = Inr (3, [1, 2, 3], s4)"
proof -
  obtain d s where s: "Disk_new [68] 0 empty_host = Inr d" "DiskFS_new (\<lambda>_. 7) True d = Inr s" "fs_inv s" "fs_files s = [stdin_key \<mapsto> [], stdout_key \<mapsto> []]" "fs_free s = 1018"
      "length (dfs_openf s) = 10" "dfs_free_slot s = Some 2" "of_heap s = Map.empty" using formatted_disk by blast
  have n: "take 9 [97, 98 :: 8 word] = [97, 98]" "0 \<notin> set [97, 98 :: 8 word]" by simp_all
  have room: "fs_room [97, 98] 300 s" using s(4,5) std_names(5) by (simp add: fs_room_def stdin_key_def stdout_key_def)
  obtain s1 bytes where s1: "DiskFS_Create (\<lambda>_. 9) [97, 98] 300 s = Inr (True, s1)" "fs_inv s1" "disk.more s1 = disk.more s" "length bytes = 300" "fs_files s1 [97, 98] = Some bytes"
    using Create_ok [OF s(3) n(2), of 300 "\<lambda>_. 9"] room unfolding n(1) fs_created_def by auto
  note m = more_fields [OF s1(3)]
  have slot: "length (dfs_openf s1) = 10" "of_heap s1 (of_next s1) = None" "dfs_free_slot s1 = Some 2" using s(6-8) m by (simp_all add: dfs_free_slot_def)
  have pre: "fs_files s1 (take 9 [97, 98]) = Some bytes" "(0 :: int) \<le> 254" "3 \<le> int (length [1, 2, 3 :: 8 word])" using s1(5) by simp_all
  note T = DiskFS_write_read [OF s1(2) n(2) slot pre, of "\<lambda>_. 9" 1, unfolded Let_def]
  define c' where "c' = take (nat 254) bytes @ take (min (nat 3) (length bytes - nat 254)) [1, 2, 3] @ drop (nat 254 + nat 3) bytes"
  obtain p f s2 s3 where w: "DiskFS_Open_type (\<lambda>_. 9) [97, 98] 1 s1 = Inr (Some p, s2)" "of_heap s2 p = Some f"
      "DiskFile_WriteAt (\<lambda>_. 9) [1, 2, 3] 3 254 f s2 = Inr (int (min (nat 3) (length bytes - nat 254)), s3)" and open_f: "fs_open s3 f (take 9 [97, 98])"
    and read: "\<forall>g k q. fs_open s3 g (take 9 [97, 98]) \<and> 0 \<le> q \<longrightarrow>
       (\<exists>s4. DiskFile_ReadAt k q g s3 = Inr (int (length (take (nat k) (drop (nat q) c'))), take (nat k) (drop (nat q) c'), s4) \<and> fs_inv s4 \<and> fs_files s4 = fs_files s3)"
    using T unfolding c'_def by blast
  obtain s4 where "DiskFile_ReadAt 3 254 f s3 = Inr (int (length (take 3 (drop 254 c'))), take 3 (drop 254 c'), s4)"
    using read [rule_format, of f 254 3] open_f by auto
  moreover have "take 3 (drop 254 c') = [1, 2, 3]" using s1(4) by (simp add: c'_def)
  ultimately show ?thesis using s(1,2) s1(1,4) w by auto
qed

end
