(* ===== verification/Coff2noff.thy ===== *)
theory Coff2noff
  imports Disk_File
begin
text \<open>
  \<^verbatim>\<open>coff2noff/coff2noff.c\<close>: the program that turns a COFF executable, as the cross compiler makes it, into the NOFF file that \<open>AddrSpace::Load\<close> reads.

  The state has the bytes of the input file and the position in it, the bytes of the output file (\<open>None\<close> when it could not be opened) and the position in it, the header
  that is being built, and \<open>inNoffFile\<close>.  \<open>None\<close> as a result is \<^verbatim>\<open>exit(1)\<close> after the output file was unlinked.  \<open>read\<close> and \<open>write\<close> of a negative number of bytes
  return -1 (the buffer of such a size cannot be allocated).  The output to the terminal is left out.
\<close>

section \<open>Model\<close>

definition MIPSELMAGIC :: "16 word" where "MIPSELMAGIC = 0x0162"
definition OMAGIC :: "16 word" where "OMAGIC = 263"

record scnhdr =
  s_name :: "8 word list"
  s_paddr :: "32 word"
  s_size :: "32 word"
  s_scnptr :: "32 word"

record conv =
  c_in :: "8 word list"
  in_pos :: int
  c_out :: "8 word list option"
  out_pos :: int
  noffH :: NoffHeader
  inNoffFile :: "32 word"

definition coff_Read :: "int \<Rightarrow> conv \<Rightarrow> (8 word list \<times> conv) option" where
  "coff_Read nBytes c =
     (let bytes = take (nat nBytes) (drop (nat (in_pos c)) (c_in c));
          ret = (if nBytes < 0 then -1 else int (length bytes)) in
      if ret \<noteq> nBytes then None else Some (bytes, c\<lparr>in_pos := in_pos c + int (length bytes)\<rparr>))"

definition coff_Write :: "8 word list \<Rightarrow> int \<Rightarrow> conv \<Rightarrow> conv option" where
  "coff_Write buf nBytes c =
     (let ret = (if nBytes < 0 \<or> c_out c = None then -1 else nBytes) in
      if ret \<noteq> nBytes then None
      else case c_out c of
        None \<Rightarrow> Some c
      | Some out \<Rightarrow>
          if nBytes \<le> 0 then Some c
          else Some (c\<lparr>c_out := Some (splice (nat (out_pos c)) (take (nat nBytes) buf) out), out_pos := out_pos c + nBytes\<rparr>))"

definition seek_in :: "32 word \<Rightarrow> conv \<Rightarrow> conv" where
  "seek_in off c = (if 0 \<le> sint off then c\<lparr>in_pos := sint off\<rparr> else c)"

definition short_at :: "8 word list \<Rightarrow> nat \<Rightarrow> 16 word" where
  "short_at bs k = ucast (bs ! k) OR push_bit 8 (ucast (bs ! (k + 1)))"

text \<open>A section header of 40 bytes.\<close>

definition bytes_scnhdr :: "8 word list \<Rightarrow> scnhdr" where
  "bytes_scnhdr bs = \<lparr>s_name = take 8 bs, s_paddr = bytes_word (take 4 (drop 8 bs)), s_size = bytes_word (take 4 (drop 16 bs)), s_scnptr = bytes_word (take 4 (drop 20 bs))\<rparr>"

text \<open>\<open>strcmp (s_name, k) == 0\<close> for a string that is shorter than the array.\<close>

definition named :: "8 word list \<Rightarrow> scnhdr \<Rightarrow> bool" where
  "named k s \<longleftrightarrow> takeWhile (\<lambda>c. c \<noteq> 0) (s_name s) = k"

definition text_name :: "8 word list" where "text_name = [46, 116, 101, 120, 116]"
definition data_name :: "8 word list" where "data_name = [46, 100, 97, 116, 97]"
definition rdata_name :: "8 word list" where "rdata_name = [46, 114, 100, 97, 116, 97]"
definition bss_name :: "8 word list" where "bss_name = [46, 98, 115, 115]"

text \<open>A section with contents is copied to the end of the output; the result has its segment.\<close>

definition coff_copy :: "scnhdr \<Rightarrow> conv \<Rightarrow> (Segment \<times> conv) option" where
  "coff_copy s c =
     (let seg = \<lparr>virtualAddr = s_paddr s, inFileAddr = inNoffFile c, seg_size = s_size s\<rparr>;
          c = seek_in (s_scnptr s) c in
      case coff_Read (sint (s_size s)) c of
        None \<Rightarrow> None
      | Some (buffer, c) \<Rightarrow>
          (case coff_Write buffer (sint (s_size s)) c of
             None \<Rightarrow> None
           | Some c \<Rightarrow> Some (seg, c\<lparr>inNoffFile := inNoffFile c + s_size s\<rparr>)))"

definition coff_section :: "scnhdr \<Rightarrow> conv \<Rightarrow> conv option" where
  "coff_section s c =
     (if s_size s = 0 then Some c
      else if named text_name s then map_option (\<lambda>(seg, c). c\<lparr>noffH := (noffH c)\<lparr>noff_code := seg\<rparr>\<rparr>) (coff_copy s c)
      else if named data_name s then map_option (\<lambda>(seg, c). c\<lparr>noffH := (noffH c)\<lparr>noff_initData := seg\<rparr>\<rparr>) (coff_copy s c)
      else if named rdata_name s then map_option (\<lambda>(seg, c). c\<lparr>noffH := (noffH c)\<lparr>noff_readonlyData := seg\<rparr>\<rparr>) (coff_copy s c)
      else if named bss_name s then
        let u = noff_uninitData (noffH c) in
        if seg_size u \<noteq> 0 then
          if s_paddr s = virtualAddr u + seg_size u then None
          else Some (c\<lparr>noffH := (noffH c)\<lparr>noff_uninitData := u\<lparr>seg_size := seg_size u + s_size s\<rparr>\<rparr>\<rparr>)
        else Some (c\<lparr>noffH := (noffH c)\<lparr>noff_uninitData := u\<lparr>virtualAddr := s_paddr s, seg_size := s_size s\<rparr>\<rparr>\<rparr>)
      else None)"

fun coff_sections :: "scnhdr list \<Rightarrow> conv \<Rightarrow> conv option" where
  "coff_sections [] c = Some c"
| "coff_sections (s # ss) c = (case coff_section s c of None \<Rightarrow> None | Some c \<Rightarrow> coff_sections ss c)"

text \<open>The NOFF header as it lies in memory, 52 bytes.\<close>

definition seg_words :: "Segment \<Rightarrow> 32 word list" where
  "seg_words s = [virtualAddr s, inFileAddr s, seg_size s]"

definition noff_bytes :: "NoffHeader \<Rightarrow> 8 word list" where
  "noff_bytes h = concat (map word_bytes (noffMagic h # seg_words (noff_code h) @ seg_words (noff_initData h) @ seg_words (noff_readonlyData h) @ seg_words (noff_uninitData h)))"

text \<open>The header before the sections are copied; the other fields are not initialised.\<close>

definition noff_start :: "NoffHeader \<Rightarrow> NoffHeader" where
  "noff_start junk = junk\<lparr>noffMagic := NOFFMAGIC, noff_code := (noff_code junk)\<lparr>seg_size := 0\<rparr>, noff_initData := (noff_initData junk)\<lparr>seg_size := 0\<rparr>,
     noff_uninitData := (noff_uninitData junk)\<lparr>seg_size := 0\<rparr>, noff_readonlyData := (noff_readonlyData junk)\<lparr>seg_size := 0\<rparr>\<rparr>"

definition coff_convert :: "conv \<Rightarrow> conv option" where
  "coff_convert c =
     (case coff_Read 20 c of None \<Rightarrow> None | Some (fileh, c) \<Rightarrow>
      if short_at fileh 0 \<noteq> MIPSELMAGIC then None
      else case coff_Read 56 c of None \<Rightarrow> None | Some (systemh, c) \<Rightarrow>
      if short_at systemh 0 \<noteq> OMAGIC then None
      else
        let numsections = unat (short_at fileh 2) in
        case coff_Read (int numsections * 40) c of None \<Rightarrow> None | Some (bytes, c) \<Rightarrow>
        let sections = map (\<lambda>i. bytes_scnhdr (take 40 (drop (40 * i) bytes))) [0..<numsections];
            c = c\<lparr>noffH := noff_start (noffH c), inNoffFile := 52, out_pos := 52\<rparr> in
        case coff_sections sections c of None \<Rightarrow> None | Some c \<Rightarrow>
        coff_Write (noff_bytes (SwapHeader (noffH c))) 52 (c\<lparr>out_pos := 0\<rparr>))"

text \<open>
  \<open>main\<close>: the exit status, and the output file that is there afterwards.  \<open>infile\<close> is \<open>None\<close> when the input cannot be opened, \<open>writable\<close> tells whether the output can be opened; the
  program does not look at that.
\<close>

definition coff2noff_main :: "NoffHeader \<Rightarrow> 8 word list option \<Rightarrow> bool \<Rightarrow> nat \<times> 8 word list option" where
  "coff2noff_main junk infile writable =
     (case infile of
        None \<Rightarrow> (1, None)
      | Some bytes \<Rightarrow>
          (case coff_convert \<lparr>c_in = bytes, in_pos = 0, c_out = (if writable then Some [] else None), out_pos = 0, noffH = junk, inNoffFile = 0\<rparr> of
             None \<Rightarrow> (1, None)
           | Some c \<Rightarrow> (0, c_out c)))"

section \<open>What the converter writes\<close>

definition sec_bytes :: "8 word list \<Rightarrow> scnhdr \<Rightarrow> 8 word list" where
  "sec_bytes bs s = take (unat (s_size s)) (drop (unat (s_scnptr s)) bs)"

definition copied :: "scnhdr \<Rightarrow> bool" where
  "copied s \<longleftrightarrow> s_size s \<noteq> 0 \<and> (named text_name s \<or> named data_name s \<or> named rdata_name s)"

text \<open>The last section of that name that is not empty.\<close>

definition last_of :: "8 word list \<Rightarrow> scnhdr list \<Rightarrow> scnhdr option" where
  "last_of k ss = List.find (\<lambda>s. s_size s \<noteq> 0 \<and> named k s) (rev ss)"

definition sec_ok :: "8 word list \<Rightarrow> scnhdr \<Rightarrow> bool" where
  "sec_ok bs s \<longleftrightarrow> (s_size s \<noteq> 0 \<longrightarrow> copied s \<or> named bss_name s)
     \<and> (copied s \<longrightarrow> unat (s_size s) < 2147483648 \<and> unat (s_scnptr s) < 2147483648 \<and> unat (s_scnptr s) + unat (s_size s) \<le> length bs)"

definition copied_size :: "scnhdr list \<Rightarrow> nat" where
  "copied_size ss = sum_list (map (\<lambda>s. unat (s_size s)) (filter copied ss))"

text \<open>A segment of the header that is built describes the section, if there is one; \<open>D\<close> is what was copied so far.\<close>

definition seg_of :: "8 word list \<Rightarrow> 8 word list \<Rightarrow> scnhdr option \<Rightarrow> Segment \<Rightarrow> bool" where
  "seg_of bs D sec seg \<longleftrightarrow> (case sec of None \<Rightarrow> seg_size seg = 0
     | Some s \<Rightarrow> virtualAddr seg = s_paddr s \<and> seg_size seg = s_size s \<and> 52 \<le> unat (inFileAddr seg)
         \<and> unat (inFileAddr seg) + unat (s_size s) \<le> 52 + length D \<and> take (unat (s_size s)) (drop (unat (inFileAddr seg) - 52) D) = sec_bytes bs s)"

definition out_of :: "8 word list \<Rightarrow> 8 word list" where
  "out_of D = (if D = [] then [] else replicate 52 0 @ D)"

definition conv_inv :: "8 word list \<Rightarrow> scnhdr list \<Rightarrow> 8 word list \<Rightarrow> conv \<Rightarrow> bool" where
  "conv_inv bs done D c \<longleftrightarrow> c_in c = bs \<and> c_out c = Some (out_of D) \<and> out_pos c = 52 + int (length D) \<and> inNoffFile c = word_of_nat (52 + length D)
     \<and> length D = copied_size done \<and> noffMagic (noffH c) = NOFFMAGIC
     \<and> seg_of bs D (last_of text_name done) (noff_code (noffH c)) \<and> seg_of bs D (last_of data_name done) (noff_initData (noffH c))
     \<and> seg_of bs D (last_of rdata_name done) (noff_readonlyData (noffH c))
     \<and> (case last_of bss_name done of None \<Rightarrow> seg_size (noff_uninitData (noffH c)) = 0
        | Some s \<Rightarrow> virtualAddr (noff_uninitData (noffH c)) = s_paddr s \<and> seg_size (noff_uninitData (noffH c)) = s_size s)"

lemma last_of_snoc: "last_of k (ss @ [s]) = (if s_size s \<noteq> 0 \<and> named k s then Some s else last_of k ss)"
  by (simp add: last_of_def)

lemma copied_size_snoc: "copied_size (ss @ [s]) = copied_size ss + (if copied s then unat (s_size s) else 0)"
  by (simp add: copied_size_def)

lemma names_distinct:
  "text_name \<noteq> data_name" "text_name \<noteq> rdata_name" "text_name \<noteq> bss_name" "data_name \<noteq> rdata_name" "data_name \<noteq> bss_name" "rdata_name \<noteq> bss_name"
  by (simp_all add: text_name_def data_name_def rdata_name_def bss_name_def)

lemma named_unique: "named k s \<Longrightarrow> named k' s \<Longrightarrow> k = k'"
  by (simp add: named_def)

lemma seg_of_append: "seg_of bs D sec seg \<Longrightarrow> seg_of bs (D @ b) sec seg"
  by (auto simp add: seg_of_def split: option.splits)

lemma out_of_append:
  assumes "b \<noteq> []"
  shows "splice (52 + length D) b (out_of D) = out_of (D @ b)"
  using assms by (simp add: out_of_def splice_def)

text \<open>One section with contents.\<close>

lemma copy_ok:
  assumes c: "c_in c = bs" "c_out c = Some (out_of D)" "out_pos c = 52 + int (length D)" "inNoffFile c = word_of_nat (52 + length D)"
    and s: "copied s" "sec_ok bs s" and fit: "52 + length D + unat (s_size s) < 2147483648"
  shows "\<exists>seg p. coff_copy s c = Some (seg, c\<lparr>in_pos := p, c_out := Some (out_of (D @ sec_bytes bs s)), out_pos := 52 + int (length (D @ sec_bytes bs s)),
      inNoffFile := word_of_nat (52 + length (D @ sec_bytes bs s))\<rparr>)
    \<and> seg_of bs (D @ sec_bytes bs s) (Some s) seg \<and> length (sec_bytes bs s) = unat (s_size s)"
proof -
  define z q where "z = unat (s_size s)" and "q = unat (s_scnptr s)"
  have b: "0 < z" "z < 2147483648" "q < 2147483648" "q + z \<le> length bs" using s by (auto simp add: sec_ok_def copied_def z_def q_def unat_gt_0)
  have i: "sint (s_size s) = int z" "sint (s_scnptr s) = int q" using b sint_unat [of "s_size s"] sint_unat [of "s_scnptr s"] by (simp_all add: z_def q_def)
  have bytes: "sec_bytes bs s = take z (drop q bs)" "length (sec_bytes bs s) = z" "sec_bytes bs s \<noteq> []" using b by (auto simp add: sec_bytes_def z_def q_def)
  let ?seg = "\<lparr>virtualAddr = s_paddr s, inFileAddr = word_of_nat (52 + length D), seg_size = s_size s\<rparr>"
  have w: "word_of_nat (52 + length D) + s_size s = word_of_nat (52 + length (D @ sec_bytes bs s))" using bytes(2) by (simp add: z_def)
  have rd: "coff_Read (sint (s_size s)) (seek_in (s_scnptr s) c) = Some (sec_bytes bs s, c\<lparr>in_pos := int q + int z\<rparr>)"
    using b bytes(1) by (simp add: coff_Read_def seek_in_def i c)
  have n: "nat (52 + int (length D)) = 52 + length D" "take z (sec_bytes bs s) = sec_bytes bs s" using bytes(2) by simp_all
  have wr: "coff_Write (sec_bytes bs s) (sint (s_size s)) (c\<lparr>in_pos := int q + int z\<rparr>)
      = Some (c\<lparr>in_pos := int q + int z, c_out := Some (out_of (D @ sec_bytes bs s)), out_pos := 52 + int (length D) + int z\<rparr>)"
    using b out_of_append [OF bytes(3), of D] n by (simp add: coff_Write_def Let_def i c)
  have "coff_copy s c = Some (?seg, c\<lparr>in_pos := int q + int z, c_out := Some (out_of (D @ sec_bytes bs s)), out_pos := 52 + int (length (D @ sec_bytes bs s)),
      inNoffFile := word_of_nat (52 + length (D @ sec_bytes bs s))\<rparr>)"
    unfolding coff_copy_def Let_def rd option.case prod.case wr using w bytes(2) by (simp add: c(4))
  moreover have "unat (word_of_nat (52 + length D) :: 32 word) = 52 + length D" using fit by (simp add: unsigned_of_nat take_bit_nat_eq_self del: of_nat_add)
  then have "seg_of bs (D @ sec_bytes bs s) (Some s) ?seg" using bytes by (simp add: seg_of_def z_def)
  ultimately show ?thesis using bytes(2) by (auto simp add: z_def)
qed

lemma section_step:
  assumes inv: "conv_inv bs done D c" and s: "sec_ok bs s" "named bss_name s \<and> s_size s \<noteq> 0 \<longrightarrow> last_of bss_name done = None"
    and fit: "52 + copied_size (done @ [s]) < 2147483648"
  shows "\<exists>D' c'. coff_section s c = Some c' \<and> conv_inv bs (done @ [s]) D' c'"
proof (cases "copied s")
  case True
  have c: "c_in c = bs" "c_out c = Some (out_of D)" "out_pos c = 52 + int (length D)" "inNoffFile c = word_of_nat (52 + length D)" "length D = copied_size done"
    using inv by (simp_all add: conv_inv_def)
  have "52 + length D + unat (s_size s) < 2147483648" using fit True by (simp add: copied_size_snoc c(5))
  define D' where "D' = D @ sec_bytes bs s"
  from copy_ok [OF c(1-4) True s(1) \<open>52 + length D + unat (s_size s) < 2147483648\<close>] obtain seg p where
    cp: "coff_copy s c = Some (seg, c\<lparr>in_pos := p, c_out := Some (out_of D'), out_pos := 52 + int (length D'), inNoffFile := word_of_nat (52 + length D')\<rparr>)"
    "seg_of bs D' (Some s) seg" "length (sec_bytes bs s) = unat (s_size s)" unfolding D'_def by blast
  have len: "length D' = copied_size (done @ [s])" using True by (simp add: D'_def copied_size_snoc c(5) cp(3))
  have nz: "s_size s \<noteq> 0" using True by (simp add: copied_def)
  have app: "seg_of bs D sec sg \<Longrightarrow> seg_of bs D' sec sg" for sec sg unfolding D'_def by (rule seg_of_append)
  consider (1) "named text_name s" | (2) "named data_name s" | (3) "named rdata_name s" using True by (auto simp add: copied_def)
  then show ?thesis
  proof cases
    case 1
    then have "\<not> named data_name s" "\<not> named rdata_name s" "\<not> named bss_name s" using names_distinct named_unique by metis+
    then show ?thesis using inv 1 nz cp(1,2) len app
      by (intro exI [of _ D']) (simp add: conv_inv_def coff_section_def last_of_snoc split: option.splits)
  next
    case 2
    then have "\<not> named text_name s" "\<not> named rdata_name s" "\<not> named bss_name s" using names_distinct named_unique by metis+
    then show ?thesis using inv 2 nz cp(1,2) len app
      by (intro exI [of _ D']) (simp add: conv_inv_def coff_section_def last_of_snoc split: option.splits)
  next
    case 3
    then have "\<not> named text_name s" "\<not> named data_name s" "\<not> named bss_name s" using names_distinct named_unique by metis+
    then show ?thesis using inv 3 nz cp(1,2) len app
      by (intro exI [of _ D']) (simp add: conv_inv_def coff_section_def last_of_snoc split: option.splits)
  qed
next
  case False
  then have n: "s_size s \<noteq> 0 \<Longrightarrow> \<not> named text_name s \<and> \<not> named data_name s \<and> \<not> named rdata_name s \<and> named bss_name s"
    using s(1) by (auto simp add: copied_def sec_ok_def)
  have size: "copied_size (done @ [s]) = copied_size done" using False by (simp add: copied_size_snoc)
  show ?thesis
  proof (cases "s_size s = 0")
    case True
    then show ?thesis using inv size by (auto simp add: conv_inv_def coff_section_def last_of_snoc)
  next
    case nz: False
    then show ?thesis using inv size n s(2) by (intro exI [of _ D]) (simp add: conv_inv_def coff_section_def last_of_snoc Let_def)
  qed
qed

lemma last_of_None: "last_of k ss = None \<longleftrightarrow> (\<forall>s \<in> set ss. \<not> (s_size s \<noteq> 0 \<and> named k s))"
  by (auto simp add: last_of_def find_None_iff)

lemma copied_size_append: "copied_size (xs @ ys) = copied_size xs + copied_size ys"
  by (simp add: copied_size_def)

lemma sections_ok:
  assumes "conv_inv bs done D c" "\<forall>s \<in> set ss. sec_ok bs s" "length (filter (\<lambda>s. s_size s \<noteq> 0 \<and> named bss_name s) (done @ ss)) \<le> 1"
    and "52 + copied_size (done @ ss) < 2147483648"
  shows "\<exists>D' c'. coff_sections ss c = Some c' \<and> conv_inv bs (done @ ss) D' c'"
  using assms
proof (induction ss arbitrary: "done" D c)
  case (Cons s ss)
  have "last_of bss_name done = None" if "named bss_name s \<and> s_size s \<noteq> 0"
    using Cons.prems(3) that by (auto simp add: last_of_None filter_empty_conv)
  moreover have "52 + copied_size (done @ [s]) < 2147483648" using Cons.prems(4) by (simp add: copied_size_append copied_size_def split: if_splits)
  ultimately obtain D1 c1 where "coff_section s c = Some c1" "conv_inv bs (done @ [s]) D1 c1"
    using section_step [OF Cons.prems(1)] Cons.prems(2) by (metis list.set_intros(1))
  then show ?case using Cons.IH [of "done @ [s]" D1 c1] Cons.prems(2-4) by auto
qed auto

text \<open>An unknown section ends the conversion.\<close>

lemma sections_unknown:
  assumes "s \<in> set ss" "s_size s \<noteq> 0" "\<not> named text_name s" "\<not> named data_name s" "\<not> named rdata_name s" "\<not> named bss_name s"
  shows "coff_sections ss c = None"
  using assms by (induction ss arbitrary: c) (auto simp add: coff_section_def split: option.splits)

section \<open>Reading back the header\<close>

lemma noff_bytes_length: "length (noff_bytes h) = 52"
  by (simp add: noff_bytes_def seg_words_def)

lemma read_word:
  assumes "4 * i + 4 \<le> length f"
  shows "load32 (\<lambda>k. if k < length f then f ! k else j k) (4 * i) = bytes_word (take 4 (drop (4 * i) f))"
  using assms by (simp add: bytes_word_def load32_def)

lemma read_header_noff: "read_header j (noff_bytes h @ D) = h"
proof -
  define ws where "ws = noffMagic h # seg_words (noff_code h) @ seg_words (noff_initData h) @ seg_words (noff_readonlyData h) @ seg_words (noff_uninitData h)"
  have len: "length ws = 13" by (simp add: ws_def seg_words_def)
  let ?f = "noff_bytes h @ D" and ?b = "\<lambda>k. if k < length (noff_bytes h @ D) then (noff_bytes h @ D) ! k else j k"
  have w: "load32 ?b (4 * i) = ws ! i" if "i < 13" for i
  proof -
    have "load32 ?b (4 * i) = bytes_word (take 4 (drop (4 * i) ?f))" using that by (intro read_word) (simp add: noff_bytes_length)
    also have "take 4 (drop (4 * i) ?f) = take 4 (drop (4 * i) (concat (map word_bytes ws)))" using that noff_bytes_length [of h] by (simp add: noff_bytes_def flip: ws_def)
    also have "\<dots> = word_bytes (ws ! i)" using that len by (intro concat_piece) simp_all
    finally show ?thesis by simp
  qed
  have "load32 ?b 0 = ws ! 0" "load32 ?b 4 = ws ! 1" "load32 ?b 8 = ws ! 2" "load32 ?b 12 = ws ! 3" "load32 ?b 16 = ws ! 4" "load32 ?b 20 = ws ! 5" "load32 ?b 24 = ws ! 6"
    "load32 ?b 28 = ws ! 7" "load32 ?b 32 = ws ! 8" "load32 ?b 36 = ws ! 9" "load32 ?b 40 = ws ! 10" "load32 ?b 44 = ws ! 11" "load32 ?b 48 = ws ! 12"
    using w [of 0] w [of 1] w [of 2] w [of 3] w [of 4] w [of 5] w [of 6] w [of 7] w [of 8] w [of 9] w [of 10] w [of 11] w [of 12] by simp_all
  then show ?thesis unfolding read_header_def Let_def by (simp add: ws_def seg_words_def)
qed

section \<open>Properties\<close>

text \<open>The sections of a COFF file, and what the converter expects of its headers.\<close>

definition coff_secs :: "8 word list \<Rightarrow> scnhdr list" where
  "coff_secs bs = map (\<lambda>i. bytes_scnhdr (take 40 (drop (76 + 40 * i) bs))) [0..<unat (short_at bs 2)]"

definition coff_headers :: "8 word list \<Rightarrow> bool" where
  "coff_headers bs \<longleftrightarrow> 76 + 40 * unat (short_at bs 2) \<le> length bs \<and> short_at bs 0 = MIPSELMAGIC \<and> short_at bs 20 = OMAGIC"

text \<open>The segment of a NOFF file for a section.\<close>

definition seg_from :: "8 word list \<Rightarrow> 8 word list \<Rightarrow> scnhdr option \<Rightarrow> Segment \<Rightarrow> bool" where
  "seg_from bs out sec seg \<longleftrightarrow> (case sec of None \<Rightarrow> seg_size seg = 0
     | Some s \<Rightarrow> virtualAddr seg = s_paddr s \<and> seg_size seg = s_size s \<and> unat (inFileAddr seg) + unat (seg_size seg) \<le> length out \<and> seg_bytes out seg = sec_bytes bs s)"

lemma seg_of_from:
  assumes "seg_of bs D sec seg" "length pre = 52"
  shows "seg_from bs (pre @ D) sec seg"
  using assms by (auto simp add: seg_of_def seg_from_def seg_bytes_def split: option.splits)

lemma conv_inv_start:
  "conv_inv bs [] [] \<lparr>c_in = bs, in_pos = p, c_out = Some [], out_pos = 52, noffH = noff_start junk, inNoffFile = 52\<rparr>"
  by (simp add: conv_inv_def out_of_def copied_size_def last_of_def seg_of_def noff_start_def)

lemma read_step:
  assumes "0 \<le> n" "0 \<le> in_pos c" "in_pos c + n \<le> int (length (c_in c))"
  shows "coff_Read n c = Some (take (nat n) (drop (nat (in_pos c)) (c_in c)), c\<lparr>in_pos := in_pos c + n\<rparr>)"
  using assms by (simp add: coff_Read_def)

lemma coff_convert_sections:
  assumes "coff_headers bs"
  shows "coff_convert \<lparr>c_in = bs, in_pos = 0, c_out = out, out_pos = 0, noffH = junk, inNoffFile = 0\<rparr> =
    (case coff_sections (coff_secs bs) \<lparr>c_in = bs, in_pos = 76 + int (unat (short_at bs 2)) * 40, c_out = out, out_pos = 52, noffH = noff_start junk, inNoffFile = 52\<rparr> of
       None \<Rightarrow> None | Some c \<Rightarrow> coff_Write (noff_bytes (SwapHeader (noffH c))) 52 (c\<lparr>out_pos := 0\<rparr>))"
proof -
  define n where "n = unat (short_at bs 2)"
  have l: "76 + 40 * n \<le> length bs" "short_at bs 0 = MIPSELMAGIC" "short_at bs 20 = OMAGIC" using assms by (simp_all add: coff_headers_def n_def)
  let ?c = "\<lambda>p. \<lparr>c_in = bs, in_pos = p, c_out = out, out_pos = 0, noffH = junk, inNoffFile = 0\<rparr>"
  have r1: "coff_Read 20 (?c 0) = Some (take 20 bs, ?c 20)" using l(1) by (simp add: read_step)
  have r2: "coff_Read 56 (?c 20) = Some (take 56 (drop 20 bs), ?c 76)" using l(1) by (simp add: read_step)
  have r3: "coff_Read (int n * 40) (?c 76) = Some (take (40 * n) (drop 76 bs), ?c (76 + int n * 40))"
    using l(1) by (simp add: read_step nat_mult_distrib mult.commute)
  have s: "short_at (take 20 bs) 0 = MIPSELMAGIC" "short_at (take 20 bs) 2 = short_at bs 2" "short_at (take 56 (drop 20 bs)) 0 = OMAGIC"
    using l by (simp_all add: short_at_def)
  have "take 40 (drop (40 * i) (take (40 * n) (drop 76 bs))) = take 40 (drop (76 + 40 * i) bs)" if "i < n" for i
  proof -
    have "40 * i + 40 \<le> 40 * n" using that by simp
    then show ?thesis by (simp add: drop_take add.commute min_def)
  qed
  then have secs: "map (\<lambda>i. bytes_scnhdr (take 40 (drop (40 * i) (take (40 * n) (drop 76 bs))))) [0..<n] = coff_secs bs"
    by (simp add: coff_secs_def flip: n_def)
  show ?thesis unfolding coff_convert_def r1 option.case prod.case s r2 Let_def n_def [symmetric] r3 secs by simp
qed

lemma bad_magic:
  assumes "short_at bs 0 \<noteq> MIPSELMAGIC \<or> short_at bs 20 \<noteq> OMAGIC"
  shows "coff2noff_main junk (Some bs) w = (1, None)"
proof -
  let ?c = "\<lparr>c_in = bs, in_pos = 0, c_out = (if w then Some [] else None), out_pos = 0, noffH = junk, inNoffFile = 0\<rparr>"
  have "coff_convert ?c = None"
  proof (cases "76 \<le> length bs")
    case True
    then have "short_at (take 20 bs) 0 = short_at bs 0" "short_at (take 56 (drop 20 bs)) 0 = short_at bs 20" by (simp_all add: short_at_def)
    then show ?thesis using assms True by (simp add: coff_convert_def coff_Read_def Let_def)
  next
    case False
    then show ?thesis by (auto simp add: coff_convert_def coff_Read_def Let_def)
  qed
  then show ?thesis by (simp add: coff2noff_main_def)
qed

text \<open>
  C12.  The converter: for a COFF file whose headers are right, whose sections that are not empty are called \<open>.text\<close>, \<open>.data\<close>, \<open>.rdata\<close> or \<open>.bss\<close> and lie in the file, with one \<open>.bss\<close> at most, and
  whose contents are less than 2 GB, the program ends with status 0, and \<open>AddrSpace::Load\<close> finds in the NOFF file a header with the addresses and sizes of the sections and, where it says, their
  bytes.  So the image that \<open>Load\<close> puts into memory is the code, the data and the read-only data of the COFF file.  With wrong magic numbers or a section of another name the program ends with
  status 1 and leaves no file.
\<close>

theorem coff2noff_correct:
  "(coff_headers bs \<and> (\<forall>s \<in> set (coff_secs bs). sec_ok bs s) \<and> length (filter (\<lambda>s. s_size s \<noteq> 0 \<and> named bss_name s) (coff_secs bs)) \<le> 1
      \<and> 52 + copied_size (coff_secs bs) < 2147483648 \<longrightarrow>
     (\<exists>out h. coff2noff_main junk (Some bs) True = (0, Some out) \<and> load_header j out = h \<and> noffMagic h = NOFFMAGIC
       \<and> seg_from bs out (last_of text_name (coff_secs bs)) (noff_code h) \<and> seg_from bs out (last_of data_name (coff_secs bs)) (noff_initData h)
       \<and> seg_from bs out (last_of rdata_name (coff_secs bs)) (noff_readonlyData h)
       \<and> seg_size (noff_uninitData h) = (case last_of bss_name (coff_secs bs) of None \<Rightarrow> 0 | Some s \<Rightarrow> s_size s)
       \<and> noff_image out h = concat (map (\<lambda>k. case last_of k (coff_secs bs) of None \<Rightarrow> [] | Some s \<Rightarrow> sec_bytes bs s) [text_name, data_name, rdata_name])))
   \<and> (coff_headers bs \<and> (\<exists>s \<in> set (coff_secs bs). s_size s \<noteq> 0 \<and> \<not> named text_name s \<and> \<not> named data_name s \<and> \<not> named rdata_name s \<and> \<not> named bss_name s)
       \<or> short_at bs 0 \<noteq> MIPSELMAGIC \<or> short_at bs 20 \<noteq> OMAGIC \<longrightarrow> coff2noff_main junk (Some bs) w = (1, None))"
proof (intro conjI impI)
  assume a: "coff_headers bs \<and> (\<forall>s \<in> set (coff_secs bs). sec_ok bs s) \<and> length (filter (\<lambda>s. s_size s \<noteq> 0 \<and> named bss_name s) (coff_secs bs)) \<le> 1
      \<and> 52 + copied_size (coff_secs bs) < 2147483648"
  let ?c0 = "\<lparr>c_in = bs, in_pos = 76 + int (unat (short_at bs 2)) * 40, c_out = Some [], out_pos = 52, noffH = noff_start junk, inNoffFile = 52\<rparr>"
  obtain D c where c: "coff_sections (coff_secs bs) ?c0 = Some c" "conv_inv bs (coff_secs bs) D c"
    using sections_ok [OF conv_inv_start, of "coff_secs bs" bs "76 + int (unat (short_at bs 2)) * 40" junk, unfolded append_Nil] a by blast
  have i: "c_out c = Some (out_of D)" "noffMagic (noffH c) = NOFFMAGIC" using c(2) by (simp_all add: conv_inv_def)
  let ?h = "noffH c"
  have sw: "SwapHeader h = h" for h by (simp add: SwapHeader_def SwapSegment_def WordToHost_def)
  have "splice 0 (noff_bytes ?h) (out_of D) = noff_bytes ?h @ D" by (simp add: splice_def out_of_def noff_bytes_length)
  then have "coff_Write (noff_bytes ?h) 52 (c\<lparr>out_pos := 0\<rparr>) = Some (c\<lparr>c_out := Some (noff_bytes ?h @ D), out_pos := 52\<rparr>)"
    using i(1) by (simp add: coff_Write_def noff_bytes_length)
  then have "coff_convert \<lparr>c_in = bs, in_pos = 0, c_out = Some [], out_pos = 0, noffH = junk, inNoffFile = 0\<rparr> = Some (c\<lparr>c_out := Some (noff_bytes ?h @ D), out_pos := 52\<rparr>)"
    unfolding coff_convert_sections [OF a [THEN conjunct1]] c(1) option.case sw .
  then have main: "coff2noff_main junk (Some bs) True = (0, Some (noff_bytes ?h @ D))" by (simp add: coff2noff_main_def)
  have h: "load_header j (noff_bytes ?h @ D) = ?h" using i(2) by (simp add: load_header_def read_header_noff)
  have segs: "seg_from bs (noff_bytes ?h @ D) (last_of text_name (coff_secs bs)) (noff_code ?h)" "seg_from bs (noff_bytes ?h @ D) (last_of data_name (coff_secs bs)) (noff_initData ?h)"
    "seg_from bs (noff_bytes ?h @ D) (last_of rdata_name (coff_secs bs)) (noff_readonlyData ?h)"
    using c(2) seg_of_from [OF _ noff_bytes_length] by (simp_all add: conv_inv_def)
  moreover have "seg_size (noff_uninitData ?h) = (case last_of bss_name (coff_secs bs) of None \<Rightarrow> 0 | Some s \<Rightarrow> s_size s)"
    using c(2) by (auto simp add: conv_inv_def split: option.splits)
  moreover have "seg_bytes f seg = (case sec of None \<Rightarrow> [] | Some s \<Rightarrow> sec_bytes bs s)" if "seg_from bs f sec seg" for f sec seg
    using that by (auto simp add: seg_from_def seg_bytes_def split: option.splits)
  ultimately show "\<exists>out h. coff2noff_main junk (Some bs) True = (0, Some out) \<and> load_header j out = h \<and> noffMagic h = NOFFMAGIC
       \<and> seg_from bs out (last_of text_name (coff_secs bs)) (noff_code h) \<and> seg_from bs out (last_of data_name (coff_secs bs)) (noff_initData h)
       \<and> seg_from bs out (last_of rdata_name (coff_secs bs)) (noff_readonlyData h)
       \<and> seg_size (noff_uninitData h) = (case last_of bss_name (coff_secs bs) of None \<Rightarrow> 0 | Some s \<Rightarrow> s_size s)
       \<and> noff_image out h = concat (map (\<lambda>k. case last_of k (coff_secs bs) of None \<Rightarrow> [] | Some s \<Rightarrow> sec_bytes bs s) [text_name, data_name, rdata_name])"
    using main h i(2) by (intro exI [of _ "noff_bytes ?h @ D"] exI [of _ ?h]) (simp add: noff_image_def)
next
  assume a: "coff_headers bs \<and> (\<exists>s \<in> set (coff_secs bs). s_size s \<noteq> 0 \<and> \<not> named text_name s \<and> \<not> named data_name s \<and> \<not> named rdata_name s \<and> \<not> named bss_name s)
       \<or> short_at bs 0 \<noteq> MIPSELMAGIC \<or> short_at bs 20 \<noteq> OMAGIC"
  show "coff2noff_main junk (Some bs) w = (1, None)"
  proof (cases "coff_headers bs")
    case True
    then have "\<exists>s \<in> set (coff_secs bs). s_size s \<noteq> 0 \<and> \<not> named text_name s \<and> \<not> named data_name s \<and> \<not> named rdata_name s \<and> \<not> named bss_name s"
      using a by (auto simp add: coff_headers_def)
    then have "coff_sections (coff_secs bs) c = None" for c using sections_unknown by blast
    then show ?thesis by (simp add: coff2noff_main_def coff_convert_sections [OF True])
  next
    case False
    then have "short_at bs 0 \<noteq> MIPSELMAGIC \<or> short_at bs 20 \<noteq> OMAGIC" using a by auto
    then show ?thesis by (rule bad_magic)
  qed
qed

text \<open>A file with one section.\<close>

definition tiny_coff :: "8 word list" where
  "tiny_coff = [0x62, 1, 1, 0] @ replicate 16 0 @ [7, 1] @ replicate 54 0 @ text_name @ replicate 11 0 @ [4, 0, 0, 0, 116, 0, 0, 0] @ replicate 16 0 @ [1, 2, 3, 4]"

lemma tiny_coff_facts:
  "coff_headers tiny_coff" "coff_secs tiny_coff = [\<lparr>s_name = text_name @ [0, 0, 0], s_paddr = 0, s_size = 4, s_scnptr = 116\<rparr>]" "length tiny_coff = 120"
  "drop 116 tiny_coff = [1, 2, 3, 4]"
  by code_simp+

theorem coff2noff_correct_witness:
  "\<exists>out. coff2noff_main (read_header (\<lambda>_. 5) []) (Some tiny_coff) True = (0, Some out) \<and> noff_image out (load_header (\<lambda>_. 0) out) = [1, 2, 3, 4]"
proof -
  let ?s = "\<lparr>s_name = text_name @ [0, 0, 0], s_paddr = 0, s_size = 4, s_scnptr = 116\<rparr> :: scnhdr"
  have n: "named text_name ?s" "\<not> named data_name ?s" "\<not> named rdata_name ?s" "\<not> named bss_name ?s" by (simp_all add: named_def text_name_def data_name_def rdata_name_def bss_name_def)
  then have c: "copied ?s" by (simp add: copied_def)
  have "coff_headers tiny_coff \<and> (\<forall>s \<in> set (coff_secs tiny_coff). sec_ok tiny_coff s) \<and> length (filter (\<lambda>s. s_size s \<noteq> 0 \<and> named bss_name s) (coff_secs tiny_coff)) \<le> 1
      \<and> 52 + copied_size (coff_secs tiny_coff) < 2147483648"
    using c n by (simp add: tiny_coff_facts sec_ok_def copied_size_def)
  then obtain out where out: "coff2noff_main (read_header (\<lambda>_. 5) []) (Some tiny_coff) True = (0, Some out)"
      "noff_image out (load_header (\<lambda>_. 0) out) = concat (map (\<lambda>k. case last_of k (coff_secs tiny_coff) of None \<Rightarrow> [] | Some s \<Rightarrow> sec_bytes tiny_coff s) [text_name, data_name, rdata_name])"
    using coff2noff_correct [of tiny_coff "read_header (\<lambda>_. 5) []" "\<lambda>_. 0"] by blast
  moreover have "concat (map (\<lambda>k. case last_of k (coff_secs tiny_coff) of None \<Rightarrow> [] | Some s \<Rightarrow> sec_bytes tiny_coff s) [text_name, data_name, rdata_name]) = [1, 2, 3, 4]"
    using n by (simp add: tiny_coff_facts last_of_def sec_bytes_def)
  ultimately show ?thesis by auto
qed

end
