(* ===== verification/Network.thy ===== *)
theory Network
  imports Complex_Main Disk_File
begin
text \<open>
  The network: \<^verbatim>\<open>code/machine/network.cc\<close>, the post office of \<^verbatim>\<open>code/network/post.cc\<close>, and the sockets of \<^verbatim>\<open>code/lib/sysdep.cc\<close>.

  Several machines run; machine \<open>b\<close> receives on the socket of the host that is bound to the name \<^verbatim>\<open>SOCKET_b\<close>, which is a queue of datagrams.  A machine is a record with the fields of its
  \<open>NetworkInput\<close>, \<open>NetworkOutput\<close>, \<open>PostOfficeInput\<close> and \<open>PostOfficeOutput\<close>; a mailbox is the list of its messages (the operations of \<open>SynchList\<close> hold its lock and are atomic).  A routine is cut
  where it waits: \<open>Send\<close> at \<open>messageSent->P()\<close>, the postal worker at \<open>messageAvailable->P()\<close>.  The random number that decides whether a packet is lost is an argument; \<open>double\<close>
  is taken as exact.  \<open>junk\<close> is what the code does not initialise.
\<close>

section \<open>Model\<close>

definition MaxWireSize :: nat where "MaxWireSize = 64"
definition MaxPacketSize :: nat where "MaxPacketSize = MaxWireSize - 12"
definition MaxMailSize :: nat where "MaxMailSize = MaxPacketSize - 12"

record PacketHeader =
  pk_to :: "32 word"
  pk_from :: "32 word"
  pk_length :: "32 word"

record MailHeader =
  ml_to :: "32 word"
  ml_from :: "32 word"
  ml_length :: "32 word"

record Mail =
  pktHdr :: PacketHeader
  mailHdr :: MailHeader
  mail_data :: "8 word list"

record nhost =
  sock :: "8 word list list"
  inHdr :: PacketHeader
  inbox :: "8 word list"
  numPacketsRecvd :: nat
  recv_int :: nat
  messageAvailable :: nat
  numBoxes :: int
  boxes :: "Mail list list"
  sendBusy :: bool
  chanceToWork :: rat
  send_int :: nat
  numPacketsSent :: nat
  messageSent :: nat
  sendLock :: bool

text \<open>The headers in memory.\<close>

definition pkt_bytes :: "PacketHeader \<Rightarrow> 8 word list" where
  "pkt_bytes h = word_bytes (pk_to h) @ word_bytes (pk_from h) @ word_bytes (pk_length h)"

definition bytes_pkt :: "8 word list \<Rightarrow> PacketHeader" where
  "bytes_pkt bs = \<lparr>pk_to = bytes_word (take 4 bs), pk_from = bytes_word (take 4 (drop 4 bs)), pk_length = bytes_word (take 4 (drop 8 bs))\<rparr>"

definition mail_bytes :: "MailHeader \<Rightarrow> 8 word list" where
  "mail_bytes h = word_bytes (ml_to h) @ word_bytes (ml_from h) @ word_bytes (ml_length h)"

definition bytes_mail :: "8 word list \<Rightarrow> MailHeader" where
  "bytes_mail bs = \<lparr>ml_to = bytes_word (take 4 bs), ml_from = bytes_word (take 4 (drop 4 bs)), ml_length = bytes_word (take 4 (drop 8 bs))\<rparr>"

subsection \<open>Mail\<close>

definition Mail_new :: "PacketHeader \<Rightarrow> MailHeader \<Rightarrow> 8 word list \<Rightarrow> Mail res" where
  "Mail_new pktH mailH msgData =
     bindE (assertE (unat (ml_length mailH) \<le> MaxMailSize)) (\<lambda>_.
     bindE (bcopy_from msgData 0 (int (unat (ml_length mailH)))) (\<lambda>bytes.
     Inr \<lparr>pktHdr = pktH, mailHdr = mailH, mail_data = bytes\<rparr>))"

definition MailBox_Put :: "PacketHeader \<Rightarrow> MailHeader \<Rightarrow> 8 word list \<Rightarrow> Mail list \<Rightarrow> Mail list res" where
  "MailBox_Put pktH mailH msgData messages = bindE (Mail_new pktH mailH msgData) (\<lambda>mail. Inr (messages @ [mail]))"

definition MailBox_new :: "Mail list" where
  "MailBox_new = []"

text \<open>\<open>Get\<close> waits while the box is empty, which is \<open>None\<close>.\<close>

definition MailBox_Get :: "Mail list \<Rightarrow> (PacketHeader \<times> MailHeader \<times> 8 word list \<times> Mail list) option" where
  "MailBox_Get messages = (case messages of [] \<Rightarrow> None | mail # rest \<Rightarrow> Some (pktHdr mail, mailHdr mail, mail_data mail, rest))"

subsection \<open>The devices\<close>

text \<open>\<open>recv_int\<close> and \<open>send_int\<close> count the interrupts that are scheduled for the devices.\<close>

definition NetworkInput_new :: "nhost \<Rightarrow> nhost" where
  "NetworkInput_new n = n\<lparr>inHdr := (inHdr n)\<lparr>pk_length := 0\<rparr>, sock := [], recv_int := recv_int n + 1\<rparr>"

definition PostOfficeInput_CallBack :: "nhost \<Rightarrow> nhost" where
  "PostOfficeInput_CallBack n = n\<lparr>messageAvailable := messageAvailable n + 1\<rparr>"

definition NetworkInput_CallBack :: "int \<Rightarrow> nhost \<Rightarrow> nhost res" where
  "NetworkInput_CallBack hostName n =
     (let n = n\<lparr>recv_int := recv_int n + 1\<rparr> in
      if pk_length (inHdr n) \<noteq> 0 then Inr n
      else case sock n of
        [] \<Rightarrow> Inr n
      | buffer # rest \<Rightarrow>
          bindE (assertE (length buffer = MaxWireSize)) (\<lambda>_.
          let n = n\<lparr>sock := rest, inHdr := bytes_pkt buffer\<rparr> in
          bindE (assertE (sint (pk_to (inHdr n)) = hostName \<and> unat (pk_length (inHdr n)) \<le> MaxPacketSize)) (\<lambda>_.
          bindE (bcopy_from buffer 12 (int (unat (pk_length (inHdr n))))) (\<lambda>bytes.
          bindE (bcopy_to (inbox n) 0 bytes) (\<lambda>box.
          Inr (PostOfficeInput_CallBack (n\<lparr>inbox := box, numPacketsRecvd := numPacketsRecvd n + 1\<rparr>)))))))"

definition NetworkInput_Receive :: "8 word list \<Rightarrow> nhost \<Rightarrow> (PacketHeader \<times> 8 word list \<times> nhost) res" where
  "NetworkInput_Receive data n =
     (let h = inHdr n; n = n\<lparr>inHdr := (inHdr n)\<lparr>pk_length := 0\<rparr>\<rparr> in
      if pk_length h \<noteq> 0
      then bindE (bcopy_from (inbox n) 0 (int (unat (pk_length h)))) (\<lambda>bytes. bindE (bcopy_to data 0 bytes) (\<lambda>data. Inr (h, data, n)))
      else Inr (h, data, n))"

definition NetworkOutput_new :: "rat \<Rightarrow> nhost \<Rightarrow> nhost" where
  "NetworkOutput_new reliability n = n\<lparr>chanceToWork := (if reliability < 0 then 0 else if reliability > 1 then 1 else reliability), sendBusy := False\<rparr>"

definition PostOfficeOutput_CallBack :: "nhost \<Rightarrow> nhost" where
  "PostOfficeOutput_CallBack n = n\<lparr>messageSent := messageSent n + 1\<rparr>"

definition NetworkOutput_CallBack :: "nhost \<Rightarrow> nhost" where
  "NetworkOutput_CallBack n = PostOfficeOutput_CallBack (n\<lparr>sendBusy := False, numPacketsSent := numPacketsSent n + 1\<rparr>)"

text \<open>\<open>sendto\<close> succeeds when the name is bound; after ten failures the packet is dropped.\<close>

fun SendToSocket_loop :: "nat \<Rightarrow> 8 word list \<Rightarrow> int \<Rightarrow> (int \<Rightarrow> nhost option) \<Rightarrow> (int \<Rightarrow> nhost option)" where
  "SendToSocket_loop 0 buffer name w = w"
| "SendToSocket_loop (Suc k) buffer name w =
     (case w name of
        Some n \<Rightarrow> w(name \<mapsto> n\<lparr>sock := sock n @ [buffer]\<rparr>)
      | None \<Rightarrow> SendToSocket_loop k buffer name w)"

definition SendToSocket :: "8 word list \<Rightarrow> int \<Rightarrow> (int \<Rightarrow> nhost option) \<Rightarrow> (int \<Rightarrow> nhost option)" where
  "SendToSocket buffer name w = SendToSocket_loop 10 buffer name w"

definition NetworkOutput_Send :: "(nat \<Rightarrow> 8 word) \<Rightarrow> int \<Rightarrow> int \<Rightarrow> PacketHeader \<Rightarrow> 8 word list \<Rightarrow> (int \<Rightarrow> nhost option) \<Rightarrow> (int \<Rightarrow> nhost option) res" where
  "NetworkOutput_Send junk rand hostName h data w =
     bindE (derefE (w hostName)) (\<lambda>n.
     bindE (assertE (sendBusy n = False \<and> 0 < unat (pk_length h) \<and> unat (pk_length h) \<le> MaxPacketSize \<and> sint (pk_from h) = hostName)) (\<lambda>_.
     let w = w(hostName \<mapsto> n\<lparr>send_int := send_int n + 1\<rparr>) in
     if of_int (rand smod 100) \<ge> chanceToWork n * 100 then Inr w
     else
       bindE (bcopy_from data 0 (int (unat (pk_length h)))) (\<lambda>bytes.
       bindE (bcopy_to (pkt_bytes h @ map junk [0..<MaxWireSize - 12]) 12 bytes) (\<lambda>buffer.
       Inr (SendToSocket buffer (sint (pk_to h)) w)))))"

subsection \<open>The post office\<close>

definition PostOfficeInput_new :: "nat \<Rightarrow> nhost \<Rightarrow> nhost" where
  "PostOfficeInput_new nBoxes n = NetworkInput_new (n\<lparr>messageAvailable := 0, numBoxes := int nBoxes, boxes := replicate nBoxes MailBox_new\<rparr>)"

definition PostOfficeOutput_new :: "rat \<Rightarrow> nhost \<Rightarrow> nhost" where
  "PostOfficeOutput_new reliability n = NetworkOutput_new reliability (n\<lparr>messageSent := 0, sendLock := False\<rparr>)"

text \<open>One round of the postal worker, after \<open>messageAvailable->P()\<close>.\<close>

definition PostalDelivery_round :: "(nat \<Rightarrow> 8 word) \<Rightarrow> nhost \<Rightarrow> nhost res" where
  "PostalDelivery_round junk n =
     bindE (NetworkInput_Receive (map junk [0..<MaxPacketSize]) n) (\<lambda>(pktH, buffer, n).
     let mailH = bytes_mail buffer in
     bindE (assertE (0 \<le> sint (ml_to mailH) \<and> sint (ml_to mailH) < numBoxes n)) (\<lambda>_.
     bindE (assertE (unat (ml_length mailH) \<le> MaxMailSize)) (\<lambda>_.
     bindE (readA (boxes n) (sint (ml_to mailH))) (\<lambda>box.
     bindE (MailBox_Put pktH mailH (drop 12 buffer) box) (\<lambda>box.
     bindE (writeA (boxes n) (sint (ml_to mailH)) box) (\<lambda>bs. Inr (n\<lparr>boxes := bs\<rparr>)))))))"

definition PostOfficeInput_Receive :: "int \<Rightarrow> nhost \<Rightarrow> (PacketHeader \<times> MailHeader \<times> 8 word list \<times> nhost) option res" where
  "PostOfficeInput_Receive box n =
     bindE (assertE (box \<ge> 0 \<and> box < numBoxes n)) (\<lambda>_.
     bindE (readA (boxes n) box) (\<lambda>messages.
     case MailBox_Get messages of
       None \<Rightarrow> Inr None
     | Some (pktH, mailH, data, rest) \<Rightarrow>
         bindE (writeA (boxes n) box rest) (\<lambda>bs.
         bindE (assertE (unat (ml_length mailH) \<le> MaxMailSize)) (\<lambda>_.
         Inr (Some (pktH, mailH, data, n\<lparr>boxes := bs\<rparr>))))))"

text \<open>\<open>Send\<close> up to the wait for \<open>messageSent\<close>; the lock is free.\<close>

definition PostOfficeOutput_Send :: "(nat \<Rightarrow> 8 word) \<Rightarrow> int \<Rightarrow> int \<Rightarrow> PacketHeader \<Rightarrow> MailHeader \<Rightarrow> 8 word list \<Rightarrow> (int \<Rightarrow> nhost option) \<Rightarrow> (int \<Rightarrow> nhost option) res" where
  "PostOfficeOutput_Send junk rand hostName pktH mailH data w =
     bindE (assertE (unat (ml_length mailH) \<le> MaxMailSize)) (\<lambda>_.
     bindE (assertE (0 \<le> sint (ml_to mailH))) (\<lambda>_.
     let pktH = pktH\<lparr>pk_from := word_of_int hostName, pk_length := ml_length mailH + 12\<rparr> in
     bindE (bcopy_from data 0 (int (unat (ml_length mailH)))) (\<lambda>bytes.
     bindE (bcopy_to (mail_bytes mailH @ map junk [0..<MaxPacketSize - 12]) 12 bytes) (\<lambda>buffer.
     bindE (derefE (w hostName)) (\<lambda>n.
     NetworkOutput_Send junk rand hostName pktH buffer (w(hostName \<mapsto> n\<lparr>sendLock := True\<rparr>)))))))"

definition PostOfficeOutput_Send_rest :: "nhost \<Rightarrow> nhost" where
  "PostOfficeOutput_Send_rest n = n\<lparr>messageSent := messageSent n - 1, sendLock := False\<rparr>"

section \<open>Messages in transit\<close>

lemma pkt_roundtrip: "bytes_pkt (pkt_bytes h @ bs) = h" "length (pkt_bytes h) = 12"
  by (simp_all add: bytes_pkt_def pkt_bytes_def)

lemma mail_roundtrip: "bytes_mail (mail_bytes h @ bs) = h" "length (mail_bytes h) = 12"
  by (simp_all add: bytes_mail_def mail_bytes_def)

lemma net_consts: "MaxWireSize = 64" "MaxPacketSize = 52" "MaxMailSize = 40"
  by (simp_all add: MaxWireSize_def MaxPacketSize_def MaxMailSize_def)

lemma bytes_mail_take: "12 \<le> k \<Longrightarrow> bytes_mail (take k bs @ cs) = bytes_mail (take k bs)" if "k \<le> length bs"
  using that by (simp add: bytes_mail_def bytes_word_def load32_def nth_append)

lemma bytes_mail_take12: "12 \<le> k \<Longrightarrow> bytes_mail (take k bs) = bytes_mail bs"
  by (simp add: bytes_mail_def drop_take min_def)

text \<open>The message that a datagram, and the buffer of the device, hold.\<close>

definition wire_mail :: "8 word list \<Rightarrow> Mail" where
  "wire_mail bs = (let m = bytes_mail (drop 12 bs) in \<lparr>pktHdr = bytes_pkt bs, mailHdr = m, mail_data = take (unat (ml_length m)) (drop 24 bs)\<rparr>)"

definition inbox_mail :: "nhost \<Rightarrow> Mail" where
  "inbox_mail n = (let m = bytes_mail (inbox n) in \<lparr>pktHdr = inHdr n, mailHdr = m, mail_data = take (unat (ml_length m)) (drop 12 (inbox n))\<rparr>)"

definition in_transit :: "nhost \<Rightarrow> Mail list" where
  "in_transit n = (if pk_length (inHdr n) = 0 then [] else [inbox_mail n]) @ map wire_mail (sock n)"

definition mail_ok :: "int \<Rightarrow> nhost \<Rightarrow> Mail \<Rightarrow> bool" where
  "mail_ok b n x \<longleftrightarrow> sint (pk_to (pktHdr x)) = b \<and> unat (ml_length (mailHdr x)) \<le> 40 \<and> unat (pk_length (pktHdr x)) = 12 + unat (ml_length (mailHdr x))
     \<and> 0 \<le> sint (ml_to (mailHdr x)) \<and> sint (ml_to (mailHdr x)) < numBoxes n"

definition host_inv :: "int \<Rightarrow> nhost \<Rightarrow> bool" where
  "host_inv b n \<longleftrightarrow> length (inbox n) = 52 \<and> numBoxes n = int (length (boxes n)) \<and> messageAvailable n = (if pk_length (inHdr n) = 0 then 0 else 1) \<and> \<not> sendBusy n
     \<and> (\<forall>bs \<in> set (sock n). length bs = 64) \<and> (\<forall>x \<in> set (in_transit n). mail_ok b n x)
     \<and> (\<forall>box \<in> set (boxes n). \<forall>x \<in> set box. unat (ml_length (mailHdr x)) \<le> 40)"

definition out_state :: "nhost \<Rightarrow> nat \<times> nat \<times> bool" where
  "out_state n = (send_int n, messageSent n, sendLock n)"

lemma CallBack_ok:
  assumes "host_inv b n"
  shows "\<exists>n'. NetworkInput_CallBack b n = Inr n' \<and> host_inv b n' \<and> in_transit n' = in_transit n \<and> boxes n' = boxes n \<and> numBoxes n' = numBoxes n \<and> out_state n' = out_state n"
proof (cases "pk_length (inHdr n) \<noteq> 0 \<or> sock n = []")
  case True
  let ?n = "n\<lparr>recv_int := recv_int n + 1\<rparr>"
  have run: "NetworkInput_CallBack b n = Inr ?n" using True by (auto simp add: NetworkInput_CallBack_def Let_def)
  have t: "in_transit ?n = in_transit n" by (simp add: in_transit_def inbox_mail_def)
  then have "host_inv b ?n" using assms by (auto simp add: host_inv_def mail_ok_def)
  then show ?thesis using run t by (auto simp add: out_state_def)
next
  case False
  then obtain bs rest where q: "pk_length (inHdr n) = 0" "sock n = bs # rest" by (cases "sock n") auto
  let ?p = "bytes_pkt bs" and ?m = "bytes_mail (drop 12 bs)"
  define L where "L = unat (pk_length (bytes_pkt bs))"
  have ok: "mail_ok b n (wire_mail bs)" "length bs = 64" "length (inbox n) = 52" using assms q by (auto simp add: host_inv_def in_transit_def)
  have h: "sint (pk_to ?p) = b" "unat (ml_length ?m) \<le> 40" "L = 12 + unat (ml_length ?m)" using ok(1) by (simp_all add: mail_ok_def wire_mail_def Let_def L_def)
  have L: "12 \<le> L" "L \<le> 52" "pk_length ?p \<noteq> 0" using h by (auto simp add: L_def)
  let ?box = "take L (drop 12 bs) @ drop L (inbox n)"
  let ?n = "n\<lparr>recv_int := recv_int n + 1, sock := rest, inHdr := ?p, inbox := ?box, numPacketsRecvd := numPacketsRecvd n + 1, messageAvailable := messageAvailable n + 1\<rparr>"
  have c: "bcopy_from bs 12 (int L) = Inr (take L (drop 12 bs))" "bcopy_to (inbox n) 0 (take L (drop 12 bs)) = Inr ?box"
    using L ok by (simp_all add: bcopy_from_def bcopy_to_def)
  have uL: "uint (pk_length ?p) = int L" by (simp add: L_def)
  have run: "NetworkInput_CallBack b n = Inr ?n"
    using q h(1) L ok(2) c uL by (simp add: NetworkInput_CallBack_def PostOfficeInput_CallBack_def Let_def net_consts flip: L_def)
  have m: "bytes_mail ?box = ?m"
  proof -
    have "bytes_mail ?box = bytes_mail (take L (drop 12 bs))" using L ok(2) by (intro bytes_mail_take) simp_all
    then show ?thesis using bytes_mail_take12 [OF L(1)] by simp
  qed
  have "take (unat (ml_length ?m)) (drop 12 ?box) = take (unat (ml_length ?m)) (drop 24 bs)" using h(3) L ok(2) by (simp add: drop_take)
  then have t: "in_transit ?n = in_transit n" using q L(3) m by (simp add: in_transit_def inbox_mail_def wire_mail_def Let_def)
  moreover have "host_inv b ?n"
    using assms q L ok t by (auto simp add: host_inv_def mail_ok_def)
  ultimately show ?thesis using run by (auto simp add: out_state_def)
qed

lemma Delivery_ok:
  assumes inv: "host_inv b n" and av: "0 < messageAvailable n"
  shows "\<exists>x n'. PostalDelivery_round junk (n\<lparr>messageAvailable := messageAvailable n - 1\<rparr>) = Inr n' \<and> host_inv b n' \<and> in_transit n = x # in_transit n' \<and> mail_ok b n x
    \<and> boxes n' = (boxes n)[nat (sint (ml_to (mailHdr x))) := boxes n ! nat (sint (ml_to (mailHdr x))) @ [x]] \<and> numBoxes n' = numBoxes n \<and> out_state n' = out_state n"
proof -
  let ?n = "n\<lparr>messageAvailable := messageAvailable n - 1\<rparr>" and ?m = "bytes_mail (inbox n)" and ?x = "inbox_mail n"
  have nz: "pk_length (inHdr n) \<noteq> 0" using inv av by (auto simp add: host_inv_def split: if_splits)
  have ok: "mail_ok b n ?x" "length (inbox n) = 52" "numBoxes n = int (length (boxes n))" using inv nz by (simp_all add: host_inv_def in_transit_def)
  define L k where "L = unat (pk_length (inHdr n))" and "k = nat (sint (ml_to (bytes_mail (inbox n))))"
  have h: "unat (ml_length ?m) \<le> 40" "L = 12 + unat (ml_length ?m)" "sint (ml_to ?m) = int k" "k < length (boxes n)"
    using ok by (auto simp add: mail_ok_def inbox_mail_def Let_def L_def k_def)
  have L: "12 \<le> L" "L \<le> 52" using h by simp_all
  let ?buf = "take L (inbox n) @ map junk [L..<52]"
  have b: "bytes_mail ?buf = ?m" using bytes_mail_take [of L "inbox n"] bytes_mail_take12 [OF L(1)] L ok(2) by simp
  have rc: "NetworkInput_Receive (map junk [0..<MaxPacketSize]) ?n = Inr (inHdr n, ?buf, ?n\<lparr>inHdr := (inHdr n)\<lparr>pk_length := 0\<rparr>\<rparr>)"
    using nz L ok(2) by (simp add: NetworkInput_Receive_def net_consts bcopy_from_def bcopy_to_def drop_map Let_def flip: L_def)
  have d: "take (unat (ml_length ?m)) (drop 12 ?buf) = take (unat (ml_length ?m)) (drop 12 (inbox n))" using h(2) L ok(2) by (simp add: drop_take)
  have "int (unat (ml_length ?m)) \<le> int 40" using h(1) by (simp only: of_nat_le_iff)
  then have u40: "uint (ml_length ?m) \<le> 40" by simp
  have put: "MailBox_Put (inHdr n) ?m (drop 12 ?buf) box = Inr (box @ [?x])" for box
    using h(1) u40 d L ok(2) by (simp add: MailBox_Put_def Mail_new_def net_consts bcopy_from_def inbox_mail_def Let_def)
  let ?n' = "?n\<lparr>inHdr := (inHdr n)\<lparr>pk_length := 0\<rparr>, boxes := (boxes n)[k := boxes n ! k @ [?x]]\<rparr>"
  have run: "PostalDelivery_round junk ?n = Inr ?n'"
    unfolding PostalDelivery_round_def rc bindE_Inr prod.case Let_def b h(3) using h(1,4) ok(3) put by (simp add: net_consts)
  have t: "in_transit n = ?x # in_transit ?n'" using nz by (simp add: in_transit_def)
  have "\<forall>box \<in> set (boxes ?n'). \<forall>x \<in> set box. unat (ml_length (mailHdr x)) \<le> 40"
    using inv h(1) nth_mem [OF h(4)] by (auto simp add: host_inv_def inbox_mail_def Let_def dest!: subsetD [OF set_update_subset_insert])
  moreover have "\<forall>x \<in> set (in_transit ?n'). mail_ok b ?n' x" using inv t by (auto simp add: host_inv_def mail_ok_def)
  ultimately have "host_inv b ?n'" using inv av nz by (simp add: host_inv_def)
  moreover have "mailHdr ?x = ?m" by (simp add: inbox_mail_def Let_def)
  ultimately show ?thesis using run t ok(1) k_def by (auto simp add: out_state_def)
qed

lemma Receive_ok:
  assumes inv: "host_inv b n" and k: "k < length (boxes n)"
  shows "PostOfficeInput_Receive (int k) n = Inr (case boxes n ! k of [] \<Rightarrow> None
      | x # rest \<Rightarrow> Some (pktHdr x, mailHdr x, mail_data x, n\<lparr>boxes := (boxes n)[k := rest]\<rparr>))"
    "boxes n ! k = x # rest \<Longrightarrow> host_inv b (n\<lparr>boxes := (boxes n)[k := rest]\<rparr>)"
proof -
  have i: "numBoxes n = int (length (boxes n))" "\<forall>box \<in> set (boxes n). \<forall>x \<in> set box. unat (ml_length (mailHdr x)) \<le> 40" using inv by (simp_all add: host_inv_def)
  have "unat (ml_length (mailHdr x)) \<le> 40" if "boxes n ! k = x # rest" for x rest using i(2) nth_mem [OF k] that by force
  then show "PostOfficeInput_Receive (int k) n = Inr (case boxes n ! k of [] \<Rightarrow> None
      | x # rest \<Rightarrow> Some (pktHdr x, mailHdr x, mail_data x, n\<lparr>boxes := (boxes n)[k := rest]\<rparr>))"
    using k i(1) by (auto simp add: PostOfficeInput_Receive_def MailBox_Get_def net_consts split: list.splits)
  assume x: "boxes n ! k = x # rest"
  let ?n = "n\<lparr>boxes := (boxes n)[k := rest]\<rparr>"
  have "\<forall>box \<in> set (boxes ?n). \<forall>x \<in> set box. unat (ml_length (mailHdr x)) \<le> 40"
    using i(2) nth_mem [OF k] x by (auto dest!: subsetD [OF set_update_subset_insert])
  moreover have "in_transit ?n = in_transit n" by (simp add: in_transit_def inbox_mail_def)
  ultimately show "host_inv b ?n" using inv by (auto simp add: host_inv_def mail_ok_def)
qed

text \<open>The message that arrives for a call of \<open>Send\<close>, what the callers of \<open>Send\<close> have to obey, and whether the packet is put on the wire.\<close>

definition sent_mail :: "int \<Rightarrow> PacketHeader \<Rightarrow> MailHeader \<Rightarrow> 8 word list \<Rightarrow> Mail" where
  "sent_mail a pktH mailH data =
     \<lparr>pktHdr = pktH\<lparr>pk_from := word_of_int a, pk_length := ml_length mailH + 12\<rparr>, mailHdr = mailH, mail_data = take (unat (ml_length mailH)) data\<rparr>"

definition legal_send :: "PacketHeader \<Rightarrow> MailHeader \<Rightarrow> 8 word list \<Rightarrow> (int \<Rightarrow> nhost option) \<Rightarrow> bool" where
  "legal_send pktH mailH data w \<longleftrightarrow> unat (ml_length mailH) \<le> MaxMailSize \<and> unat (ml_length mailH) \<le> length data \<and> 0 \<le> sint (ml_to mailH)
     \<and> (case w (sint (pk_to pktH)) of None \<Rightarrow> True | Some n \<Rightarrow> sint (ml_to mailH) < numBoxes n)"

definition on_wire :: "int \<Rightarrow> nhost \<Rightarrow> PacketHeader \<Rightarrow> (int \<Rightarrow> nhost option) \<Rightarrow> bool" where
  "on_wire rand n pktH w \<longleftrightarrow> of_int (rand smod 100) < chanceToWork n * 100 \<and> w (sint (pk_to pktH)) \<noteq> None"

lemma SendToSocket_eq: "SendToSocket bs b w = (case w b of None \<Rightarrow> w | Some n \<Rightarrow> w(b \<mapsto> n\<lparr>sock := sock n @ [bs]\<rparr>))"
  by (simp add: SendToSocket_def numeral_nat split: option.splits)

text \<open>The bytes of a packet hold the message.\<close>

lemma wire_packet:
  fixes pktH :: PacketHeader and a :: int and tail :: "8 word list"
  assumes len: "unat (ml_length mailH) \<le> 40" "unat (ml_length mailH) \<le> length data"
  defines "L \<equiv> unat (ml_length mailH)" and "p \<equiv> pktH\<lparr>pk_from := word_of_int a, pk_length := ml_length mailH + 12\<rparr>"
  defines "buf \<equiv> pkt_bytes p @ mail_bytes mailH @ take L data @ tail"
  shows "unat (pk_length p) = 12 + L" "wire_mail buf = sent_mail a pktH mailH data"
proof -
  have "unat (ml_length mailH + 12) = L + 12" using len(1) by (subst unat_plus_if') (simp add: L_def)
  then show "unat (pk_length p) = 12 + L" by (simp add: p_def)
  have "drop 12 buf = mail_bytes mailH @ take L data @ tail" by (simp add: buf_def pkt_roundtrip)
  moreover have "drop 24 buf = take L data @ tail" by (simp add: buf_def pkt_roundtrip mail_roundtrip)
  moreover have "bytes_pkt buf = p" by (simp add: buf_def pkt_roundtrip)
  ultimately show "wire_mail buf = sent_mail a pktH mailH data" using len(2) by (simp add: wire_mail_def mail_roundtrip sent_mail_def p_def L_def)
qed

lemma Send_ok:
  assumes w: "w a = Some n" "\<not> sendBusy n" "- 2147483648 \<le> a" "a < 2147483648" and legal: "legal_send pktH mailH data w"
  defines "w1 \<equiv> w(a \<mapsto> n\<lparr>sendLock := True, send_int := send_int n + 1\<rparr>)"
  shows "\<exists>buf. PostOfficeOutput_Send junk rand a pktH mailH data w
      = Inr (if on_wire rand n pktH w then (case w1 (sint (pk_to pktH)) of None \<Rightarrow> w1 | Some n \<Rightarrow> w1(sint (pk_to pktH) \<mapsto> n\<lparr>sock := sock n @ [buf]\<rparr>)) else w1)
    \<and> length buf = 64 \<and> wire_mail buf = sent_mail a pktH mailH data"
proof -
  define L where "L = unat (ml_length mailH)"
  let ?p = "pktH\<lparr>pk_from := word_of_int a, pk_length := ml_length mailH + 12\<rparr>"
  have len: "L \<le> 40" "L \<le> length data" "0 \<le> sint (ml_to mailH)" using legal by (simp_all add: legal_send_def net_consts L_def)
  let ?tail = "drop L (map junk [0..<40])"
  let ?mb = "mail_bytes mailH @ take L data @ ?tail" and ?buf = "pkt_bytes ?p @ mail_bytes mailH @ take L data @ map junk [12 + L..<52]"
  have P: "unat (pk_length ?p) = 12 + L" "wire_mail ?buf = sent_mail a pktH mailH data" using wire_packet [OF len(1,2) [unfolded L_def], where pktH = pktH and a = a, folded L_def] by simp_all
  have fr: "sint (pk_from ?p) = a" using w(3,4) by (simp add: signed_of_int signed_take_bit_int_eq_self)
  have c1: "bcopy_from data 0 (int L) = Inr (take L data)" using len(2) by (simp add: bcopy_from_def)
  have c2: "bcopy_to (mail_bytes mailH @ map junk [0..<MaxPacketSize - 12]) 12 (take L data) = Inr ?mb"
    using len by (simp add: bcopy_to_def mail_roundtrip net_consts)
  have c3: "bcopy_from ?mb 0 (int (unat (pk_length ?p))) = Inr (mail_bytes mailH @ take L data)"
    using len(1,2) unfolding P(1) by (simp add: bcopy_from_def mail_roundtrip nat_add_distrib)
  have c4: "bcopy_to (pkt_bytes ?p @ map junk [0..<MaxWireSize - 12]) 12 (mail_bytes mailH @ take L data) = Inr ?buf"
    using len by (simp add: bcopy_to_def pkt_roundtrip mail_roundtrip net_consts drop_map)
  have send: "PostOfficeOutput_Send junk rand a pktH mailH data w = NetworkOutput_Send junk rand a ?p ?mb (w(a \<mapsto> n\<lparr>sendLock := True\<rparr>))"
    unfolding PostOfficeOutput_Send_def Let_def L_def [symmetric] c1 c2 bindE_Inr using len w(1) by (simp add: net_consts)
  have "NetworkOutput_Send junk rand a ?p ?mb (w(a \<mapsto> n\<lparr>sendLock := True\<rparr>))
      = Inr (if of_int (rand smod 100) \<ge> chanceToWork n * 100 then w1 else SendToSocket ?buf (sint (pk_to pktH)) w1)"
    unfolding NetworkOutput_Send_def Let_def P(1) c3 [unfolded P(1)] bindE_Inr c4 fr using len(1) w(2) by (simp add: net_consts w1_def)
  moreover have "w1 (sint (pk_to pktH)) = None \<longleftrightarrow> w (sint (pk_to pktH)) = None" using w(1) by (simp add: w1_def)
  moreover have "length ?buf = 64" using len by (simp add: pkt_roundtrip mail_roundtrip)
  ultimately show ?thesis using send P(2) by (intro exI [of _ ?buf]) (auto simp add: SendToSocket_eq on_wire_def split: option.splits)
qed

section \<open>Runs of several machines\<close>

text \<open>
  The states that machines reach from a start in which each has its post office and nothing is in transit, with the messages that were put on the wire and those that
  were received, each with the number of the receiving machine, in order.  The steps: a thread sends (with the lock), the interrupt after sending, the end of \<open>Send\<close>, the
  polling interrupt of the receiver, a round of the postal worker, and a thread that receives from a box.
\<close>

definition net_start :: "(int \<Rightarrow> nhost option) \<Rightarrow> bool" where
  "net_start w \<longleftrightarrow> (\<forall>b n. w b = Some n \<longrightarrow> - 2147483648 \<le> b \<and> b < 2147483648
     \<and> (\<exists>raw k r. length (inbox raw) = MaxPacketSize \<and> send_int raw = 0 \<and> n = PostOfficeOutput_new r (PostOfficeInput_new k raw)))"

inductive net_reach :: "(int \<Rightarrow> nhost option) \<Rightarrow> (int \<times> Mail) list \<Rightarrow> (int \<times> Mail) list \<Rightarrow> bool" where
  start: "net_start w \<Longrightarrow> net_reach w [] []"
| send: "net_reach w S R \<Longrightarrow> w a = Some n \<Longrightarrow> \<not> sendLock n \<Longrightarrow> legal_send pktH mailH data w \<Longrightarrow> PostOfficeOutput_Send junk rand a pktH mailH data w = Inr w' \<Longrightarrow>
    net_reach w' (S @ (if on_wire rand n pktH w then [(sint (pk_to pktH), sent_mail a pktH mailH data)] else [])) R"
| send_interrupt: "net_reach w S R \<Longrightarrow> w a = Some n \<Longrightarrow> 0 < send_int n \<Longrightarrow> net_reach (w(a \<mapsto> NetworkOutput_CallBack (n\<lparr>send_int := send_int n - 1\<rparr>))) S R"
| send_end: "net_reach w S R \<Longrightarrow> w a = Some n \<Longrightarrow> sendLock n \<Longrightarrow> 0 < messageSent n \<Longrightarrow> net_reach (w(a \<mapsto> PostOfficeOutput_Send_rest n)) S R"
| poll: "net_reach w S R \<Longrightarrow> w b = Some n \<Longrightarrow> 0 < recv_int n \<Longrightarrow> NetworkInput_CallBack b (n\<lparr>recv_int := recv_int n - 1\<rparr>) = Inr n' \<Longrightarrow> net_reach (w(b \<mapsto> n')) S R"
| deliver: "net_reach w S R \<Longrightarrow> w b = Some n \<Longrightarrow> 0 < messageAvailable n \<Longrightarrow>
    PostalDelivery_round junk (n\<lparr>messageAvailable := messageAvailable n - 1\<rparr>) = Inr n' \<Longrightarrow> net_reach (w(b \<mapsto> n')) S R"
| receive: "net_reach w S R \<Longrightarrow> w b = Some n \<Longrightarrow> PostOfficeInput_Receive box n = Inr (Some (pktH, mailH, data, n')) \<Longrightarrow>
    net_reach (w(b \<mapsto> n')) S (R @ [(b, \<lparr>pktHdr = pktH, mailHdr = mailH, mail_data = data\<rparr>)])"

definition mails_for :: "int \<Rightarrow> nat \<Rightarrow> (int \<times> Mail) list \<Rightarrow> Mail list" where
  "mails_for b k xs = map snd (filter (\<lambda>(c, x). c = b \<and> sint (ml_to (mailHdr x)) = int k) xs)"

definition for_box :: "nat \<Rightarrow> Mail list \<Rightarrow> Mail list" where
  "for_box k = filter (\<lambda>x. sint (ml_to (mailHdr x)) = int k)"

text \<open>Whoever holds the lock has exactly one interrupt to wait for, or was already told by it.\<close>

definition send_inv :: "nhost \<Rightarrow> bool" where
  "send_inv n \<longleftrightarrow> send_int n + messageSent n = (if sendLock n then 1 else 0)"

lemma send_inv_out: "out_state n' = out_state n \<Longrightarrow> send_inv n' = send_inv n"
  by (simp add: out_state_def send_inv_def)

definition net_inv :: "(int \<Rightarrow> nhost option) \<Rightarrow> (int \<times> Mail) list \<Rightarrow> (int \<times> Mail) list \<Rightarrow> bool" where
  "net_inv w S R \<longleftrightarrow> (\<forall>b n. w b = Some n \<longrightarrow> - 2147483648 \<le> b \<and> b < 2147483648 \<and> host_inv b n \<and> send_inv n
     \<and> (\<forall>k < length (boxes n). mails_for b k R @ boxes n ! k @ for_box k (in_transit n) = mails_for b k S))"

text \<open>The sending side has no part in what is received.\<close>

definition same_in :: "nhost \<Rightarrow> nhost \<Rightarrow> bool" where
  "same_in n n' \<longleftrightarrow> sock n' = sock n \<and> inHdr n' = inHdr n \<and> inbox n' = inbox n \<and> messageAvailable n' = messageAvailable n \<and> numBoxes n' = numBoxes n
     \<and> boxes n' = boxes n \<and> \<not> sendBusy n'"

lemma same_in:
  assumes "host_inv b n" "same_in n n'"
  shows "host_inv b n'" "in_transit n' = in_transit n" "boxes n' = boxes n"
proof -
  show t: "in_transit n' = in_transit n" "boxes n' = boxes n" using assms(2) by (simp_all add: same_in_def in_transit_def inbox_mail_def)
  show "host_inv b n'" using assms t by (auto simp add: host_inv_def mail_ok_def same_in_def)
qed

lemma mails_for_append [simp]: "mails_for b k (xs @ ys) = mails_for b k xs @ mails_for b k ys" "mails_for b k [] = []"
  "mails_for b k [(c, x)] = (if c = b \<and> sint (ml_to (mailHdr x)) = int k then [x] else [])"
  by (simp_all add: mails_for_def)

lemma for_box_simps [simp]: "for_box k [] = []" "for_box k (x # xs) = (if sint (ml_to (mailHdr x)) = int k then x # for_box k xs else for_box k xs)"
  "for_box k (xs @ ys) = for_box k xs @ for_box k ys"
  by (simp_all add: for_box_def)

lemma net_inv_update:
  assumes inv: "net_inv w S R" and n: "w b = Some n" "host_inv b n'" "send_inv n'"
    and k: "\<And>k. k < length (boxes n') \<Longrightarrow> k < length (boxes n) \<and> mails_for b k R' @ boxes n' ! k @ for_box k (in_transit n') = mails_for b k S'"
    and other: "\<And>c k. c \<noteq> b \<Longrightarrow> mails_for c k R' = mails_for c k R \<and> mails_for c k S' = mails_for c k S"
  shows "net_inv (w(b \<mapsto> n')) S' R'"
  using assms unfolding net_inv_def by (auto split: if_splits)

lemma net_invD:
  assumes "net_inv w S R" "w b = Some n"
  shows "- 2147483648 \<le> b" "b < 2147483648" "host_inv b n" "send_inv n" "k < length (boxes n) \<Longrightarrow> mails_for b k R @ boxes n ! k @ for_box k (in_transit n) = mails_for b k S"
  using assms unfolding net_inv_def by auto

lemma net_inv_same:
  assumes "net_inv w S R" "w b = Some n" "same_in n n'" "send_inv n'"
  shows "net_inv (w(b \<mapsto> n')) S R"
  using net_inv_update [OF assms(1,2), of n' R S] same_in [OF net_invD(3) [OF assms(1,2)] assms(3)] net_invD(5) [OF assms(1,2)] assms(4) by simp

text \<open>A datagram arrives in the queue of a socket.\<close>

lemma net_inv_wire:
  assumes inv: "net_inv w S R" and n: "w b = Some n" and buf: "length buf = 64" "mail_ok b n (wire_mail buf)"
  shows "net_inv (w(b \<mapsto> n\<lparr>sock := sock n @ [buf]\<rparr>)) (S @ [(b, wire_mail buf)]) R"
proof (rule net_inv_update [OF inv n])
  let ?n = "n\<lparr>sock := sock n @ [buf]\<rparr>"
  note i = net_invD [OF inv n]
  have t: "in_transit ?n = in_transit n @ [wire_mail buf]" by (simp add: in_transit_def inbox_mail_def)
  have "mail_ok b ?n x = mail_ok b n x" for x by (simp add: mail_ok_def)
  then show "host_inv b ?n" using i(3) t buf by (auto simp add: host_inv_def)
  show "send_inv ?n" using i(4) by (simp add: send_inv_def)
  show "k < length (boxes n) \<and> mails_for b k R @ boxes ?n ! k @ for_box k (in_transit ?n) = mails_for b k (S @ [(b, wire_mail buf)])" if "k < length (boxes ?n)" for k
  proof -
    have k: "k < length (boxes n)" using that by simp
    then have "mails_for b k S = mails_for b k R @ boxes n ! k @ for_box k (in_transit n)" using i(5) by simp
    then show ?thesis using k t by simp
  qed
qed simp

lemma net_inv_start:
  assumes "net_start w"
  shows "net_inv w [] []"
  using assms unfolding net_inv_def net_start_def
  by (fastforce simp add: PostOfficeOutput_new_def PostOfficeInput_new_def NetworkInput_new_def NetworkOutput_new_def MailBox_new_def host_inv_def send_inv_def in_transit_def net_consts)

lemma net_inv_send:
  assumes inv: "net_inv w S R" and n: "w a = Some n" "\<not> sendLock n" and legal: "legal_send pktH mailH data w"
  shows "\<exists>w'. PostOfficeOutput_Send junk rand a pktH mailH data w = Inr w'
    \<and> net_inv w' (S @ (if on_wire rand n pktH w then [(sint (pk_to pktH), sent_mail a pktH mailH data)] else [])) R"
proof -
  note i = net_invD [OF inv n(1)]
  let ?b = "sint (pk_to pktH)" and ?m = "sent_mail a pktH mailH data" and ?n = "n\<lparr>sendLock := True, send_int := send_int n + 1\<rparr>"
  let ?w = "w(a \<mapsto> ?n)"
  have busy: "\<not> sendBusy n" using i(3) by (simp add: host_inv_def)
  obtain buf where s: "PostOfficeOutput_Send junk rand a pktH mailH data w
        = Inr (if on_wire rand n pktH w then (case ?w ?b of None \<Rightarrow> ?w | Some n \<Rightarrow> ?w(?b \<mapsto> n\<lparr>sock := sock n @ [buf]\<rparr>)) else ?w)"
      "length buf = 64" "wire_mail buf = ?m"
    using Send_ok [OF n(1) busy i(1,2) legal] by blast
  have w1: "net_inv ?w S R"
    by (rule net_inv_same [OF inv n(1)]) (use busy i(4) n(2) in \<open>simp_all add: same_in_def send_inv_def\<close>)
  show ?thesis
  proof (cases "on_wire rand n pktH w")
    case False
    then show ?thesis using s(1) w1 by simp
  next
    case True
    then obtain c where c: "w ?b = Some c" by (auto simp add: on_wire_def)
    then obtain c' where c': "?w ?b = Some c'" "numBoxes c' = numBoxes c" using n(1) by (cases "?b = a") auto
    have len: "unat (ml_length mailH) \<le> 40" "unat (ml_length mailH) \<le> length data" "0 \<le> sint (ml_to mailH)" "sint (ml_to mailH) < numBoxes c"
      using legal c by (simp_all add: legal_send_def net_consts)
    have "mail_ok ?b c' (wire_mail buf)" using wire_packet(1) [OF len(1,2), where pktH = pktH and a = a] len c'(2) unfolding s(3) by (simp add: mail_ok_def sent_mail_def)
    from net_inv_wire [OF w1 c'(1) s(2) this] show ?thesis using s(1,3) True c'(1) by (simp del: fun_upd_apply)
  qed
qed

lemma net_inv_poll:
  assumes inv: "net_inv w S R" and n: "w b = Some n"
  shows "\<exists>n'. NetworkInput_CallBack b (n\<lparr>recv_int := recv_int n - 1\<rparr>) = Inr n' \<and> net_inv (w(b \<mapsto> n')) S R"
proof -
  note i = net_invD [OF inv n]
  let ?n = "n\<lparr>recv_int := recv_int n - 1\<rparr>"
  have s: "same_in n ?n" using i(3) by (simp add: same_in_def host_inv_def)
  note s = same_in [OF i(3) s]
  obtain n' where n': "NetworkInput_CallBack b ?n = Inr n'" "host_inv b n'" "in_transit n' = in_transit n" "boxes n' = boxes n" "out_state n' = out_state n"
    using CallBack_ok [OF s(1)] s by (auto simp add: out_state_def)
  have "net_inv (w(b \<mapsto> n')) S R"
  proof (rule net_inv_update [OF inv n n'(2)])
    show "send_inv n'" using i(4) n'(5) send_inv_out by blast
  qed (simp_all add: n' i(5))
  then show ?thesis using n'(1) by blast
qed

lemma net_inv_deliver:
  assumes inv: "net_inv w S R" and n: "w b = Some n" and av: "0 < messageAvailable n"
  shows "\<exists>n'. PostalDelivery_round junk (n\<lparr>messageAvailable := messageAvailable n - 1\<rparr>) = Inr n' \<and> net_inv (w(b \<mapsto> n')) S R"
proof -
  note i = net_invD [OF inv n]
  obtain x n' where n': "PostalDelivery_round junk (n\<lparr>messageAvailable := messageAvailable n - 1\<rparr>) = Inr n'" "host_inv b n'" "in_transit n = x # in_transit n'" "mail_ok b n x"
      "boxes n' = (boxes n)[nat (sint (ml_to (mailHdr x))) := boxes n ! nat (sint (ml_to (mailHdr x))) @ [x]]" "out_state n' = out_state n"
    using Delivery_ok [OF i(3) av] by blast
  have "net_inv (w(b \<mapsto> n')) S R"
  proof (rule net_inv_update [OF inv n n'(2)])
    show "send_inv n'" using i(4) n'(6) send_inv_out by blast
    fix k assume "k < length (boxes n')"
    then have k: "k < length (boxes n)" using n'(5) by simp
    have "0 \<le> sint (ml_to (mailHdr x))" using n'(4) by (simp add: mail_ok_def)
    then have e: "sint (ml_to (mailHdr x)) = int k \<longleftrightarrow> nat (sint (ml_to (mailHdr x))) = k" by linarith
    show "k < length (boxes n) \<and> mails_for b k R @ boxes n' ! k @ for_box k (in_transit n') = mails_for b k S"
      using i(5) [OF k, symmetric] k unfolding n'(3,5) for_box_simps e by (simp add: nth_list_update)
  qed simp
  then show ?thesis using n'(1) by blast
qed

lemma net_inv_receive:
  assumes inv: "net_inv w S R" and n: "w b = Some n" and r: "PostOfficeInput_Receive box n = Inr (Some (pktH, mailH, data, n'))"
  shows "net_inv (w(b \<mapsto> n')) S (R @ [(b, \<lparr>pktHdr = pktH, mailHdr = mailH, mail_data = data\<rparr>)])"
proof -
  note i = net_invD [OF inv n]
  have "0 \<le> box" "box < numBoxes n" using r by (auto simp add: PostOfficeInput_Receive_def assertE_def split: if_splits)
  then obtain k where k: "box = int k" "k < length (boxes n)" using i(3) by (auto simp add: host_inv_def elim: nonneg_int_cases)
  then obtain x rest where x: "boxes n ! k = x # rest" "pktH = pktHdr x" "mailH = mailHdr x" "data = mail_data x" "n' = n\<lparr>boxes := (boxes n)[k := rest]\<rparr>"
    using r Receive_ok(1) [OF i(3) k(2)] by (auto split: list.splits)
  have "set (boxes n ! k) \<subseteq> set (mails_for b k S)" using i(5) [OF k(2), symmetric] by auto
  then have to: "sint (ml_to (mailHdr x)) = int k" using x(1) by (auto simp add: mails_for_def)
  have m: "\<lparr>pktHdr = pktH, mailHdr = mailH, mail_data = data\<rparr> = x" by (simp add: x)
  have t: "in_transit n' = in_transit n" by (simp add: x(5) in_transit_def inbox_mail_def)
  show ?thesis
    unfolding m
  proof (rule net_inv_update [OF inv n])
    show "host_inv b n'" unfolding x(5) using x(1) by (rule Receive_ok(2) [OF i(3) k(2)])
    show "send_inv n'" using i(4) by (simp add: x(5) send_inv_def)
    fix j assume "j < length (boxes n')"
    then have j: "j < length (boxes n)" by (simp add: x(5))
    show "j < length (boxes n) \<and> mails_for b j (R @ [(b, x)]) @ boxes n' ! j @ for_box j (in_transit n') = mails_for b j S"
      using i(5) [OF j, symmetric] j x(1) to unfolding t by (cases "j = k") (simp_all add: x(5))
  qed auto
qed

lemma net_reach_inv: "net_reach w S R \<Longrightarrow> net_inv w S R"
proof (induction rule: net_reach.induct)
  case (start w)
  then show ?case by (rule net_inv_start)
next
  case (send w S R a n pktH mailH data junk rand w')
  then show ?case using net_inv_send [OF send.IH send.hyps(2-4), of junk rand] by simp
next
  case (send_interrupt w S R a n)
  note i = net_invD [OF send_interrupt.IH send_interrupt.hyps(2)]
  show ?case
    by (rule net_inv_same [OF send_interrupt.IH send_interrupt.hyps(2)])
      (use send_interrupt.hyps(3) i(4) in \<open>auto simp add: same_in_def send_inv_def NetworkOutput_CallBack_def PostOfficeOutput_CallBack_def split: if_splits\<close>)
next
  case (send_end w S R a n)
  note i = net_invD [OF send_end.IH send_end.hyps(2)]
  show ?case
    by (rule net_inv_same [OF send_end.IH send_end.hyps(2)])
      (use send_end.hyps(3,4) i(3,4) in \<open>auto simp add: same_in_def send_inv_def host_inv_def PostOfficeOutput_Send_rest_def split: if_splits\<close>)
next
  case (poll w S R b n n')
  then show ?case using net_inv_poll [OF poll.IH poll.hyps(2)] by (simp del: fun_upd_apply)
next
  case (deliver w S R b n junk n')
  then show ?case using net_inv_deliver [OF deliver.IH deliver.hyps(2,3), of junk] by (simp del: fun_upd_apply)
next
  case (receive w S R b n box pktH mailH data n')
  then show ?case using net_inv_receive [OF receive.IH receive.hyps(2,3)] by (simp del: fun_upd_apply)
qed

text \<open>
  C13.  Mail arrives in order and intact.  Whatever several machines do, in every reachable state and for every mailbox of a machine: the messages that were
  received from the box, then those that lie in it, then those that are still in transit to it are exactly the messages that were put on the wire for it, in the order in which
  they were sent, with the headers and data they were sent with.  So nothing is duplicated, reordered or altered, and nothing is lost but what the network drops on purpose or
  what goes to a machine that does not exist.  Moreover, as long as the senders name existing mailboxes, no assertion fails: the receive interrupt, the postal worker
  and \<open>Send\<close> return.  A thread inside \<open>Send\<close> has exactly one send interrupt to wait for.
\<close>
theorem mail_in_order:
  assumes "net_reach w S R" "w b = Some n"
  shows "(\<forall>k < length (boxes n). mails_for b k R @ boxes n ! k @ for_box k (in_transit n) = mails_for b k S)
    \<and> (\<exists>n'. NetworkInput_CallBack b (n\<lparr>recv_int := recv_int n - 1\<rparr>) = Inr n')
    \<and> (0 < messageAvailable n \<longrightarrow> (\<exists>n'. PostalDelivery_round junk (n\<lparr>messageAvailable := messageAvailable n - 1\<rparr>) = Inr n'))
    \<and> (\<not> sendLock n \<and> legal_send pktH mailH data w \<longrightarrow> (\<exists>w'. PostOfficeOutput_Send junk rand b pktH mailH data w = Inr w'))
    \<and> send_int n + messageSent n = (if sendLock n then 1 else 0)"
proof -
  note inv = net_reach_inv [OF assms(1)]
  note i = net_invD [OF inv assms(2)]
  show ?thesis
    using i(5) net_inv_poll [OF inv assms(2)] net_inv_deliver [OF inv assms(2), of junk] net_inv_send [OF inv assms(2), of pktH mailH data junk rand] i(4)
    unfolding send_inv_def by blast
qed

definition raw_host :: nhost where
  "raw_host = \<lparr>sock = [], inHdr = \<lparr>pk_to = 7, pk_from = 7, pk_length = 7\<rparr>, inbox = replicate 52 0, numPacketsRecvd = 0, recv_int = 0,
     messageAvailable = 0, numBoxes = 0, boxes = [], sendBusy = True, chanceToWork = 0, send_int = 0, numPacketsSent = 0, messageSent = 0, sendLock = True\<rparr>"

definition two_hosts :: "int \<Rightarrow> nhost option" where
  "two_hosts = (let n = PostOfficeOutput_new 1 (PostOfficeInput_new 10 raw_host) in [0 \<mapsto> n, 1 \<mapsto> n])"

definition first_mail :: Mail where
  "first_mail = sent_mail 0 \<lparr>pk_to = 1, pk_from = 0, pk_length = 0\<rparr> \<lparr>ml_to = 2, ml_from = 3, ml_length = 2\<rparr> [5, 6]"

text \<open>Of two machines, machine 0 has sent the two bytes 5 and 6 from its mailbox 3 to mailbox 2 of machine 1.\<close>

theorem mail_in_order_witness:
  "\<exists>w n. net_reach w [(1, first_mail)] [] \<and> w 1 = Some n \<and> boxes n ! 2 @ for_box 2 (in_transit n) = [first_mail]"
proof -
  let ?p = "\<lparr>pk_to = 1, pk_from = 0, pk_length = 0\<rparr> :: PacketHeader" and ?h = "\<lparr>ml_to = 2, ml_from = 3, ml_length = 2\<rparr> :: MailHeader" and ?d = "[5, 6] :: 8 word list"
  have "length (inbox raw_host) = MaxPacketSize" "send_int raw_host = 0" by (simp_all add: raw_host_def net_consts)
  then have st: "net_start two_hosts" unfolding net_start_def two_hosts_def Let_def by (auto split: if_splits)
  obtain n where n: "two_hosts 0 = Some n" "two_hosts 1 = Some n" "\<not> sendBusy n" "\<not> sendLock n" "numBoxes n = 10" "length (boxes n) = 10" "chanceToWork n = 1"
    by (simp add: two_hosts_def raw_host_def Let_def PostOfficeOutput_new_def PostOfficeInput_new_def NetworkInput_new_def NetworkOutput_new_def)
  have legal: "legal_send ?p ?h ?d two_hosts" using n by (simp add: legal_send_def net_consts)
  have wire: "on_wire 42 n ?p two_hosts" using n by (simp add: on_wire_def signed_modulo_int_def)
  obtain buf where s: "PostOfficeOutput_Send (\<lambda>_. 0) 42 0 ?p ?h ?d two_hosts
      = Inr (two_hosts(0 \<mapsto> n\<lparr>sendLock := True, send_int := send_int n + 1\<rparr>, 1 \<mapsto> n\<lparr>sock := sock n @ [buf]\<rparr>))"
    using Send_ok [OF n(1,3) _ _ legal, of "\<lambda>_. 0" 42] wire n(2) by auto
  have "net_reach (two_hosts(0 \<mapsto> n\<lparr>sendLock := True, send_int := send_int n + 1\<rparr>, 1 \<mapsto> n\<lparr>sock := sock n @ [buf]\<rparr>)) [(1, first_mail)] []"
    using net_reach.send [OF net_reach.start [OF st] n(1,4) legal s] wire by (simp add: first_mail_def)
  from mail_in_order [OF this, of 1 "n\<lparr>sock := sock n @ [buf]\<rparr>"] this show ?thesis
    using n(6) by (auto simp add: first_mail_def sent_mail_def mails_for_def)
qed

end
