(* ===== verification/Synch_Driver.thy ===== *)
theory Synch_Driver
  imports NachOS_Prelude
begin
text \<open>
  The contract of a synchronous driver: \<open>SynchConsoleOutput\<close> and \<open>SynchDisk\<close> take a lock, start a request on their device, wait with \<open>P\<close> for the interrupt that
  ends the request, and release the lock; the handler of the interrupt calls \<open>V\<close>.

  \<open>dlock\<close>: somebody is in the driver; \<open>dsem\<close>: the value of the semaphore; \<open>dints\<close>: how many interrupts of the device are pending; \<open>dbusy\<close>: the device would refuse a request.
  \<open>request\<close> is what a thread does up to \<open>P\<close>, when the lock is free; \<open>interrupt\<close> is the handler; \<open>finish\<close> is what follows \<open>P\<close>.  \<open>legal\<close> is what the device expects of a request
  besides not being busy.
\<close>

locale synch_driver =
  fixes dlock :: "'s \<Rightarrow> bool" and dsem :: "'s \<Rightarrow> nat" and dints :: "'s \<Rightarrow> nat" and dbusy :: "'s \<Rightarrow> bool"
    and legal :: "'r \<Rightarrow> 's \<Rightarrow> bool" and request :: "'r \<Rightarrow> 's \<Rightarrow> 's res" and interrupt :: "'s \<Rightarrow> 's" and finish :: "'s \<Rightarrow> 's"
  assumes request_ok: "\<not> dlock s \<Longrightarrow> \<not> dbusy s \<Longrightarrow> legal r s \<Longrightarrow> \<exists>s'. request r s = Inr s'"
    and request_eff: "\<not> dlock s \<Longrightarrow> request r s = Inr s' \<Longrightarrow> dlock s' \<and> dsem s' = dsem s \<and> dints s' = Suc (dints s)"
    and interrupt_eff: "0 < dints s \<Longrightarrow> dlock (interrupt s) = dlock s \<and> dsem (interrupt s) = Suc (dsem s) \<and> dints (interrupt s) = dints s - 1 \<and> \<not> dbusy (interrupt s)"
    and finish_eff: "0 < dsem s \<Longrightarrow> \<not> dlock (finish s) \<and> dsem (finish s) = dsem s - 1 \<and> dints (finish s) = dints s \<and> dbusy (finish s) = dbusy s"
begin

text \<open>Whoever is in the driver has exactly one interrupt to wait for, or was already told by it; the device is busy only in between.\<close>

definition driver_inv :: "'s \<Rightarrow> bool" where
  "driver_inv s \<longleftrightarrow> dints s + dsem s = (if dlock s then 1 else 0) \<and> (dbusy s \<longrightarrow> 0 < dints s)"

lemma driver_request:
  assumes "driver_inv s" "\<not> dlock s" "legal r s"
  shows "\<exists>s'. request r s = Inr s' \<and> driver_inv s'"
proof -
  have "\<not> dbusy s" using assms(1,2) by (auto simp add: driver_inv_def)
  then obtain s' where "request r s = Inr s'" using request_ok [OF assms(2) _ assms(3)] by blast
  then show ?thesis using request_eff [OF assms(2)] assms(1,2) by (auto simp add: driver_inv_def)
qed

lemma driver_interrupt: "driver_inv s \<Longrightarrow> 0 < dints s \<Longrightarrow> driver_inv (interrupt s)"
  using interrupt_eff [of s] by (auto simp add: driver_inv_def split: if_splits)

lemma driver_finish: "driver_inv s \<Longrightarrow> 0 < dsem s \<Longrightarrow> driver_inv (finish s)"
  using finish_eff [of s] by (auto simp add: driver_inv_def split: if_splits)

text \<open>The thread in the driver gets out of it: after at most one interrupt the semaphore has the value it waits for.\<close>

lemma driver_progress:
  assumes "driver_inv s" "dlock s"
  shows "0 < dsem s \<or> 0 < dints s \<and> 0 < dsem (interrupt s)"
  using assms interrupt_eff [of s] by (auto simp add: driver_inv_def)

end

end
