(* ===== verification/Synch_Disk.thy ===== *)
theory Synch_Disk
  imports Synch_Driver Disk
begin
text \<open>
  The synchronous disk of \<^verbatim>\<open>code/filesys/synchdisk.cc\<close> as several threads use it: \<open>ReadSector\<close> and \<open>WriteSector\<close> are cut where they wait for the interrupt of the disk, and other threads run
  meanwhile.  The result is that the calls behave as if each happened at once, as \<^verbatim>\<open>Disk\<close> has them.
\<close>

section \<open>Model\<close>

record sdisk = disk +
  sd_lock :: bool
  sd_sem :: nat
  sd_ints :: nat

definition SynchDisk_new :: "disk \<Rightarrow> sdisk" where
  "SynchDisk_new d = disk.extend d \<lparr>sd_lock = False, sd_sem = 0, sd_ints = 0\<rparr>"

definition SynchDisk_delete :: "sdisk \<Rightarrow> sdisk res" where
  "SynchDisk_delete s = Disk_delete s"

definition SynchDisk_CallBack :: "sdisk \<Rightarrow> sdisk" where
  "SynchDisk_CallBack s = s\<lparr>sd_sem := sd_sem s + 1\<rparr>"

definition disk_interrupt :: "sdisk \<Rightarrow> sdisk" where
  "disk_interrupt s = SynchDisk_CallBack (Disk_CallBack (s\<lparr>sd_ints := sd_ints s - 1\<rparr>))"

text \<open>The two calls up to \<open>semaphore->P()\<close>, and what follows it.\<close>

definition ReadSector_start :: "int \<Rightarrow> sdisk \<Rightarrow> (8 word list \<times> sdisk) res" where
  "ReadSector_start sectorNumber s =
     bindE (Disk_ReadRequest sectorNumber (s\<lparr>sd_lock := True\<rparr>)) (\<lambda>(data, ticks, s). Inr (data, s\<lparr>sd_ints := sd_ints s + 1\<rparr>))"

definition WriteSector_start :: "int \<Rightarrow> 8 word list \<Rightarrow> sdisk \<Rightarrow> sdisk res" where
  "WriteSector_start sectorNumber data s =
     bindE (Disk_WriteRequest sectorNumber data (s\<lparr>sd_lock := True\<rparr>)) (\<lambda>(ticks, s). Inr (s\<lparr>sd_ints := sd_ints s + 1\<rparr>))"

definition Sector_rest :: "sdisk \<Rightarrow> sdisk" where
  "Sector_rest s = s\<lparr>sd_sem := sd_sem s - 1, sd_lock := False\<rparr>"

section \<open>The driver\<close>

text \<open>A request of a thread, as the contract of a driver sees it.\<close>

datatype sector_call = Rd nat | Wr nat "8 word list"

fun sector_start :: "sector_call \<Rightarrow> sdisk \<Rightarrow> sdisk res" where
  "sector_start (Rd n) s = bindE (ReadSector_start (int n) s) (\<lambda>(_, s). Inr s)"
| "sector_start (Wr n data) s = WriteSector_start (int n) data s"

fun legal_call :: "sector_call \<Rightarrow> bool" where
  "legal_call (Rd n) \<longleftrightarrow> n < 1024"
| "legal_call (Wr n data) \<longleftrightarrow> n < 1024 \<and> 256 \<le> length data"

text \<open>The disk is all right but for a request that is under way.\<close>

definition disk_sound :: "'d disk_scheme \<Rightarrow> bool" where
  "disk_sound d \<longleftrightarrow> disk_ok (d\<lparr>active := False\<rparr>)"

lemma sound_ok: "disk_sound d \<Longrightarrow> \<not> active d \<Longrightarrow> disk_ok d"
  by (simp add: disk_sound_def disk_ok_def disk_inode_def)

lemma UpdateLast_sdisk [simp]: "sd_lock (Disk_UpdateLast n s) = sd_lock s" "sd_sem (Disk_UpdateLast n s) = sd_sem s" "sd_ints (Disk_UpdateLast n s) = sd_ints s"
  "active (Disk_UpdateLast n s) = active s"
  by (simp_all add: Disk_UpdateLast_def Let_def case_prod_beta)

text \<open>What a request does to the disk: the sectors change at once, and the disk is active.\<close>

lemma sector_view:
  assumes "fdtab d' = fdtab d" "fileno d' = fileno d" "inode d' = inode d"
  shows "disk_sector d' = disk_sector d" "0 \<le> lastSector d' \<Longrightarrow> 0 \<le> disk_ticks d' \<Longrightarrow> disk_sound d \<Longrightarrow> disk_sound d'"
  using assms by (simp_all add: disk_sector_def disk_inode_def disk_sound_def disk_ok_def fun_eq_iff)

lemma request_frame:
  "Disk_ReadRequest n (s :: 'd disk_scheme) = Inr (data, ticks, s') \<Longrightarrow> disk.more s' = disk.more s \<and> disk_ticks s' = disk_ticks s"
  "Disk_WriteRequest n buf s = Inr (ticks, s') \<Longrightarrow> disk.more s' = disk.more s \<and> disk_ticks s' = disk_ticks s"
  by (auto simp add: Disk_ReadRequest_def Disk_WriteRequest_def Lseek_def unix_lseek_def Read_def unix_read_def WriteFile_def unix_write_def bindE_eq_Inr Let_def split: option.splits if_splits)

lemma ReadRequest_sectors:
  assumes s: "disk_sound s" "\<not> active s" and n: "n < 1024"
  shows "\<exists>ticks s'. Disk_ReadRequest (int n) s = Inr (disk_sector s n, ticks, s') \<and> disk_sound s' \<and> disk_sector s' = disk_sector s \<and> disk.more s' = disk.more s"
proof -
  obtain d' where d': "SynchDisk_ReadSector (int n) s = Inr (disk_sector s n, d')" "disk_ok d'" "disk_sector d' = disk_sector s" "disk.more d' = disk.more s"
    using ReadSector_ok [OF sound_ok [OF s] n] by blast
  then obtain ticks s' where r: "Disk_ReadRequest (int n) s = Inr (disk_sector s n, ticks, s')" "d' = Disk_CallBack (s'\<lparr>disk_ticks := disk_ticks s' + ticks\<rparr>)"
    by (auto simp add: SynchDisk_ReadSector_def bindE_eq_Inr)
  have "0 \<le> disk_ticks s'" using request_frame(1) [OF r(1)] s(1) by (simp add: disk_sound_def disk_ok_def)
  then have "disk_sound s'" using d'(2) r(2) by (simp add: disk_sound_def disk_ok_def Disk_CallBack_def disk_inode_def)
  moreover have "disk_sector s' = disk_sector d'" unfolding r(2) by (rule sector_view(1)) (simp_all add: Disk_CallBack_def)
  moreover have "disk.more s' = disk.more d'" by (simp add: r(2) Disk_CallBack_def)
  ultimately show ?thesis using r(1) d'(3,4) by auto
qed

lemma WriteRequest_sectors:
  assumes s: "disk_sound s" "\<not> active s" and n: "n < 1024" "256 \<le> length data"
  shows "\<exists>ticks s'. Disk_WriteRequest (int n) data s = Inr (ticks, s') \<and> disk_sound s' \<and> (\<forall>k < 1024. disk_sector s' k = (if k = n then take 256 data else disk_sector s k))
    \<and> disk.more s' = disk.more s"
proof -
  obtain d' where d': "SynchDisk_WriteSector (int n) data s = Inr d'" "disk_ok d'" "disk.more d' = disk.more s" "\<forall>k < 1024. disk_sector d' k = (if k = n then take 256 data else disk_sector s k)"
    using WriteSector_ok [OF sound_ok [OF s] n] by blast
  then obtain ticks s' where r: "Disk_WriteRequest (int n) data s = Inr (ticks, s')" "d' = Disk_CallBack (s'\<lparr>disk_ticks := disk_ticks s' + ticks\<rparr>)"
    by (auto simp add: SynchDisk_WriteSector_def bindE_eq_Inr)
  have "0 \<le> disk_ticks s'" using request_frame(2) [OF r(1)] s(1) by (simp add: disk_sound_def disk_ok_def)
  then have "disk_sound s'" using d'(2) r(2) by (simp add: disk_sound_def disk_ok_def Disk_CallBack_def disk_inode_def)
  moreover have "disk_sector s' = disk_sector d'" unfolding r(2) by (rule sector_view(1)) (simp_all add: Disk_CallBack_def)
  moreover have "disk.more s' = disk.more d'" by (simp add: r(2) Disk_CallBack_def)
  ultimately show ?thesis using r(1) d'(3,4) by auto
qed

lemma sdisk_more: "disk.more (s' :: sdisk) = disk.more s \<Longrightarrow> sd_lock s' = sd_lock s \<and> sd_sem s' = sd_sem s \<and> sd_ints s' = sd_ints s"
  by (cases s; cases s') simp

interpretation sdd: synch_driver sd_lock sd_sem sd_ints active "\<lambda>r s. legal_call r \<and> disk_sound s" sector_start disk_interrupt Sector_rest
proof
  fix s :: sdisk and r
  assume s: "\<not> sd_lock s" "\<not> active s" "legal_call r \<and> disk_sound s"
  have s': "disk_sound (s\<lparr>sd_lock := True\<rparr>)" "\<not> active (s\<lparr>sd_lock := True\<rparr>)" using s by (simp_all add: disk_sound_def disk_ok_def disk_inode_def)
  show "\<exists>s'. sector_start r s = Inr s'"
  proof (cases r)
    case (Rd n)
    then show ?thesis using ReadRequest_sectors [OF s', of n] s by (auto simp add: ReadSector_start_def)
  next
    case (Wr n data)
    then show ?thesis using WriteRequest_sectors [OF s', of n data] s by (auto simp add: WriteSector_start_def)
  qed
next
  fix s s' :: sdisk and r
  assume s: "\<not> sd_lock s" "sector_start r s = Inr s'"
  then show "sd_lock s' \<and> sd_sem s' = sd_sem s \<and> sd_ints s' = Suc (sd_ints s)"
    by (cases r) (auto simp add: ReadSector_start_def WriteSector_start_def bindE_eq_Inr dest!: request_frame [THEN conjunct1, THEN sdisk_more])
qed (auto simp add: disk_interrupt_def SynchDisk_CallBack_def Disk_CallBack_def Sector_rest_def)

section \<open>Runs of the driver\<close>

text \<open>
  The states that the disk reaches when threads use it, with the calls in the order in which they were accepted, and what each read returned.  Other steps: time passes, the interrupt
  of the disk, a thread goes on after \<open>P\<close>.
\<close>

inductive sd_reach :: "disk \<Rightarrow> sdisk \<Rightarrow> (sector_call \<times> 8 word list) list \<Rightarrow> bool" for d where
  start: "sd_reach d (SynchDisk_new d) []"
| sd_read: "sd_reach d s L \<Longrightarrow> \<not> sd_lock s \<Longrightarrow> n < 1024 \<Longrightarrow> ReadSector_start (int n) s = Inr (data, s') \<Longrightarrow> sd_reach d s' (L @ [(Rd n, data)])"
| sd_write: "sd_reach d s L \<Longrightarrow> \<not> sd_lock s \<Longrightarrow> n < 1024 \<Longrightarrow> 256 \<le> length data \<Longrightarrow> WriteSector_start (int n) data s = Inr s' \<Longrightarrow> sd_reach d s' (L @ [(Wr n data, [])])"
| time: "sd_reach d s L \<Longrightarrow> 0 \<le> t \<Longrightarrow> sd_reach d (s\<lparr>disk_ticks := disk_ticks s + t\<rparr>) L"
| intr: "sd_reach d s L \<Longrightarrow> 0 < sd_ints s \<Longrightarrow> sd_reach d (disk_interrupt s) L"
| rest: "sd_reach d s L \<Longrightarrow> sd_lock s \<Longrightarrow> 0 < sd_sem s \<Longrightarrow> sd_reach d (Sector_rest s) L"

text \<open>The same calls on an array of sectors, one after the other.\<close>

fun sectors_after :: "(sector_call \<times> 8 word list) list \<Rightarrow> (nat \<Rightarrow> 8 word list) \<Rightarrow> nat \<Rightarrow> 8 word list" where
  "sectors_after [] a = a"
| "sectors_after ((Rd n, data) # L) a = sectors_after L a"
| "sectors_after ((Wr n data, _) # L) a = sectors_after L (a(n := take 256 data))"

fun reads_ok :: "(sector_call \<times> 8 word list) list \<Rightarrow> (nat \<Rightarrow> 8 word list) \<Rightarrow> bool" where
  "reads_ok [] a \<longleftrightarrow> True"
| "reads_ok ((Rd n, data) # L) a \<longleftrightarrow> data = a n \<and> reads_ok L a"
| "reads_ok ((Wr n data, _) # L) a \<longleftrightarrow> reads_ok L (a(n := take 256 data))"

lemma sectors_after_append: "sectors_after (L @ M) a = sectors_after M (sectors_after L a)"
  by (induction L a rule: sectors_after.induct) (simp_all del: fun_upd_apply)

lemma reads_ok_append: "reads_ok (L @ M) a \<longleftrightarrow> reads_ok L a \<and> reads_ok M (sectors_after L a)"
  by (induction L a rule: reads_ok.induct) (simp_all del: fun_upd_apply)

definition sd_inv :: "disk \<Rightarrow> sdisk \<Rightarrow> (sector_call \<times> 8 word list) list \<Rightarrow> bool" where
  "sd_inv d s L \<longleftrightarrow> sdd.driver_inv s \<and> disk_sound s \<and> reads_ok L (disk_sector d) \<and> (\<forall>k < 1024. disk_sector s k = sectors_after L (disk_sector d) k)"

lemma sd_inv_same:
  assumes "sd_inv d s L" "sdd.driver_inv s'" "fdtab s' = fdtab s" "fileno s' = fileno s" "inode s' = inode s" "0 \<le> lastSector s'" "0 \<le> disk_ticks s'"
  shows "sd_inv d s' L"
  using assms sector_view [OF assms(3-5)] by (simp add: sd_inv_def)

lemma sound_pos: "disk_sound s \<Longrightarrow> 0 \<le> lastSector s \<and> 0 \<le> disk_ticks s"
  by (simp add: disk_sound_def disk_ok_def)

lemma sd_reach_inv:
  assumes "sd_reach d s L" "disk_ok d"
  shows "sd_inv d s L"
  using assms(1)
proof (induction rule: sd_reach.induct)
  case start
  have "disk_sound (SynchDisk_new d)" "disk_sector (SynchDisk_new d) = disk_sector d" using assms(2)
    by (simp_all add: disk_sound_def disk_ok_def disk_inode_def SynchDisk_new_def disk.defs disk_sector_def fun_eq_iff)
  moreover have "\<not> active (SynchDisk_new d)" using assms(2) by (simp add: SynchDisk_new_def disk.defs disk_ok_def)
  ultimately show ?case by (simp add: sd_inv_def sdd.driver_inv_def SynchDisk_new_def disk.defs)
next
  case (sd_read s L n data s')
  have i: "sdd.driver_inv s" "disk_sound s" using sd_read.IH by (simp_all add: sd_inv_def)
  have na: "\<not> active s" using i(1) sd_read.hyps(2) by (auto simp add: sdd.driver_inv_def)
  have s1: "disk_sound (s\<lparr>sd_lock := True\<rparr>)" "\<not> active (s\<lparr>sd_lock := True\<rparr>)" "disk_sector (s\<lparr>sd_lock := True\<rparr>) = disk_sector s"
    using i(2) na by (simp_all add: disk_sound_def disk_ok_def disk_inode_def disk_sector_def fun_eq_iff)
  obtain ticks s2 where r: "Disk_ReadRequest (int n) (s\<lparr>sd_lock := True\<rparr>) = Inr (disk_sector s n, ticks, s2)" "disk_sound s2" "disk_sector s2 = disk_sector s"
    using ReadRequest_sectors [OF s1(1,2) sd_read.hyps(3)] s1(3) by auto
  then have s': "data = disk_sector s n" "s' = s2\<lparr>sd_ints := sd_ints s2 + 1\<rparr>" using sd_read.hyps(4) by (simp_all add: ReadSector_start_def)
  have "disk_sound s'" "disk_sector s' = disk_sector s" using r(2,3) by (simp_all add: s' disk_sound_def disk_ok_def disk_inode_def disk_sector_def fun_eq_iff)
  moreover have "sdd.driver_inv s'" using sdd.driver_request [OF i(1) sd_read.hyps(2), of "Rd n"] i(2) sd_read.hyps(3,4) by auto
  ultimately show ?case using sd_read.IH sd_read.hyps(3) by (simp add: sd_inv_def sectors_after_append reads_ok_append s'(1))
next
  case (sd_write s L n data s')
  have i: "sdd.driver_inv s" "disk_sound s" using sd_write.IH by (simp_all add: sd_inv_def)
  have na: "\<not> active s" using i(1) sd_write.hyps(2) by (auto simp add: sdd.driver_inv_def)
  have s1: "disk_sound (s\<lparr>sd_lock := True\<rparr>)" "\<not> active (s\<lparr>sd_lock := True\<rparr>)" "disk_sector (s\<lparr>sd_lock := True\<rparr>) = disk_sector s"
    using i(2) na by (simp_all add: disk_sound_def disk_ok_def disk_inode_def disk_sector_def fun_eq_iff)
  obtain ticks s2 where r: "Disk_WriteRequest (int n) data (s\<lparr>sd_lock := True\<rparr>) = Inr (ticks, s2)" "disk_sound s2" "\<forall>k < 1024. disk_sector s2 k = (if k = n then take 256 data else disk_sector s k)"
    using WriteRequest_sectors [OF s1(1,2) sd_write.hyps(3,4)] s1(3) by auto
  then have s': "s' = s2\<lparr>sd_ints := sd_ints s2 + 1\<rparr>" using sd_write.hyps(5) by (simp add: WriteSector_start_def)
  have "disk_sound s'" "disk_sector s' = disk_sector s2" using r(2) by (simp_all add: s' disk_sound_def disk_ok_def disk_inode_def disk_sector_def fun_eq_iff)
  moreover have "sdd.driver_inv s'" using sdd.driver_request [OF i(1) sd_write.hyps(2), of "Wr n data"] i(2) sd_write.hyps(3-5) by auto
  ultimately show ?case using sd_write.IH r(3) by (auto simp add: sd_inv_def sectors_after_append reads_ok_append)
next
  case (time s L t)
  have i: "sdd.driver_inv s" "disk_sound s" using time.IH by (simp_all add: sd_inv_def)
  show ?case using sound_pos [OF i(2)] i(1) time.hyps(2) by (intro sd_inv_same [OF time.IH]) (simp_all add: sdd.driver_inv_def)
next
  case (intr s L)
  have i: "sdd.driver_inv s" "disk_sound s" using intr.IH by (simp_all add: sd_inv_def)
  show ?case using sound_pos [OF i(2)] sdd.driver_interrupt [OF i(1) intr.hyps(2)]
    by (intro sd_inv_same [OF intr.IH]) (simp_all add: disk_interrupt_def SynchDisk_CallBack_def Disk_CallBack_def)
next
  case (rest s L)
  have i: "sdd.driver_inv s" "disk_sound s" using rest.IH by (simp_all add: sd_inv_def)
  show ?case using sound_pos [OF i(2)] sdd.driver_finish [OF i(1) rest.hyps(3)] by (intro sd_inv_same [OF rest.IH]) (simp_all add: Sector_rest_def)
qed

text \<open>
  C14.  Calls of the synchronous disk by several threads are atomic.  Whatever the threads do, in every reachable state the sectors are what the accepted calls make of them one after the
  other, and every read returned the sector as the calls before it left it.  A request for an existing sector is accepted whenever the driver is free (the disk is never
  active then), and the thread that is in the driver gets out of it after at most one interrupt.
\<close>

theorem synch_disk_atomic:
  assumes "disk_ok d" "sd_reach d s L"
  shows "reads_ok L (disk_sector d) \<and> (\<forall>k < 1024. disk_sector s k = sectors_after L (disk_sector d) k)
    \<and> (\<not> sd_lock s \<and> legal_call r \<longrightarrow> (\<exists>s'. sector_start r s = Inr s'))
    \<and> (sd_lock s \<longrightarrow> 0 < sd_sem s \<or> 0 < sd_ints s \<and> 0 < sd_sem (disk_interrupt s))"
proof -
  have i: "sd_inv d s L" by (rule sd_reach_inv [OF assms(2,1)])
  then have "sdd.driver_inv s" "disk_sound s" by (simp_all add: sd_inv_def)
  then show ?thesis using i sdd.driver_request [of s r] sdd.driver_progress [of s] unfolding sd_inv_def by blast
qed

theorem synch_disk_atomic_witness:
  "\<exists>d s. disk_ok d \<and> sd_reach d s [(Wr 3 (replicate 256 7), [])] \<and> disk_sector s 3 = replicate 256 7"
proof -
  let ?d = "host.extend (\<lparr>con_in = [], con_out = [], dirent = Map.empty, inode = (\<lambda>_. replicate (4 + 1024 * 256) 0), next_inode = 1, fdtab = [3 \<mapsto> (0, 0)], next_fd = 4,
    host_allows = (\<lambda>_. True)\<rparr> :: host) \<lparr>fileno = 3, active = False, lastSector = 0, bufferInit = 0, disk_ticks = 0\<rparr> :: disk"
  have ok: "disk_ok ?d" by (simp add: disk_ok_def disk_inode_def host.defs)
  have st: "\<not> sd_lock (SynchDisk_new ?d)" by (simp add: SynchDisk_new_def disk.defs host.defs)
  obtain s where s: "WriteSector_start (int 3) (replicate 256 7) (SynchDisk_new ?d) = Inr s"
    using synch_disk_atomic [OF ok sd_reach.start, of "Wr 3 (replicate 256 7)"] st by auto
  have "sd_reach ?d s ([] @ [(Wr 3 (replicate 256 7), [])])" by (rule sd_reach.sd_write [OF sd_reach.start st _ _ s]) simp_all
  then have r: "sd_reach ?d s [(Wr 3 (replicate 256 7), [])]" by simp
  from synch_disk_atomic [OF ok r] have "disk_sector s 3 = replicate 256 7" by simp
  then show ?thesis using ok r by blast
qed

end
