(* ===== verification/Console_Device.thy ===== *)
theory Console_Device
  imports Synch_Driver Console_IO
begin
text \<open>
  The console devices of \<^verbatim>\<open>code/machine/console.cc\<close> and their drivers in \<^verbatim>\<open>code/userprog/synchconsole.cc\<close>.

  The keyboard is a descriptor of the host: the characters that have been typed and not yet been read, and whether the end of the input was reached (a file that was given as
  the input, or a closed terminal).  The display is the sequence of characters written.  \<open>read_int\<close> and \<open>write_int\<close> count the interrupts that are scheduled.  A driver routine is cut where it
  waits for its semaphore.  A \<open>char\<close> is an \<open>8 word\<close> and \<open>EOF\<close> is \<open>-1\<close>.
\<close>

section \<open>Model\<close>

record condev =
  in_stream :: "8 word list"
  in_closed :: bool
  incoming :: "8 word"
  read_int :: nat
  numConsoleCharsRead :: nat
  in_lock :: bool
  in_wait :: nat
  out_file :: "8 word list"
  putBusy :: bool
  write_int :: nat
  numConsoleCharsWritten :: nat
  out_lock :: bool
  out_wait :: nat

definition ConsoleInput_new :: "condev \<Rightarrow> condev" where
  "ConsoleInput_new c = c\<lparr>incoming := ch_eof, read_int := read_int c + 1\<rparr>"

definition SynchConsoleInput_new :: "condev \<Rightarrow> condev" where
  "SynchConsoleInput_new c = (ConsoleInput_new c)\<lparr>in_lock := False, in_wait := 0\<rparr>"

definition SynchConsoleInput_CallBack :: "condev \<Rightarrow> condev" where
  "SynchConsoleInput_CallBack c = c\<lparr>in_wait := in_wait c + 1\<rparr>"

text \<open>\<open>PollFile\<close>: a read from the descriptor would not wait.\<close>

definition PollFile :: "condev \<Rightarrow> bool" where
  "PollFile c \<longleftrightarrow> in_stream c \<noteq> [] \<or> in_closed c"

definition ConsoleInput_CallBack :: "condev \<Rightarrow> condev res" where
  "ConsoleInput_CallBack c =
     bindE (assertE (incoming c = ch_eof)) (\<lambda>_.
     if \<not> PollFile c then Inr (c\<lparr>read_int := read_int c + 1\<rparr>)
     else
       let c = (case in_stream c of
                  [] \<Rightarrow> c
                | ch # rest \<Rightarrow> c\<lparr>in_stream := rest, incoming := ch, numConsoleCharsRead := numConsoleCharsRead c + 1\<rparr>) in
       Inr (SynchConsoleInput_CallBack c))"

definition ConsoleInput_GetChar :: "condev \<Rightarrow> 8 word \<times> condev" where
  "ConsoleInput_GetChar c =
     (let ch = incoming c;
          c = (if incoming c \<noteq> ch_eof then c\<lparr>read_int := read_int c + 1\<rparr> else c) in
      (ch, c\<lparr>incoming := ch_eof\<rparr>))"

text \<open>\<open>SynchConsoleInput::GetChar\<close> up to \<open>waitFor->P()\<close>, and after it.\<close>

definition SynchConsoleInput_GetChar :: "condev \<Rightarrow> condev" where
  "SynchConsoleInput_GetChar c = c\<lparr>in_lock := True\<rparr>"

definition SynchConsoleInput_GetChar_rest :: "condev \<Rightarrow> 8 word \<times> condev" where
  "SynchConsoleInput_GetChar_rest c =
     (let (ch, c) = ConsoleInput_GetChar (c\<lparr>in_wait := in_wait c - 1\<rparr>) in (ch, c\<lparr>in_lock := False\<rparr>))"

definition ConsoleOutput_new :: "condev \<Rightarrow> condev" where
  "ConsoleOutput_new c = c\<lparr>putBusy := False\<rparr>"

definition SynchConsoleOutput_new :: "condev \<Rightarrow> condev" where
  "SynchConsoleOutput_new c = (ConsoleOutput_new c)\<lparr>out_lock := False, out_wait := 0\<rparr>"

definition SynchConsoleOutput_CallBack :: "condev \<Rightarrow> condev" where
  "SynchConsoleOutput_CallBack c = c\<lparr>out_wait := out_wait c + 1\<rparr>"

definition ConsoleOutput_CallBack :: "condev \<Rightarrow> condev" where
  "ConsoleOutput_CallBack c = SynchConsoleOutput_CallBack (c\<lparr>putBusy := False, numConsoleCharsWritten := numConsoleCharsWritten c + 1\<rparr>)"

definition ConsoleOutput_PutChar :: "8 word \<Rightarrow> condev \<Rightarrow> condev res" where
  "ConsoleOutput_PutChar ch c =
     bindE (assertE (putBusy c = False)) (\<lambda>_.
     Inr (c\<lparr>out_file := out_file c @ [ch], putBusy := True, write_int := write_int c + 1\<rparr>))"

text \<open>\<open>SynchConsoleOutput::PutChar\<close> up to \<open>waitFor->P()\<close>, and after it.\<close>

definition SynchConsoleOutput_PutChar :: "8 word \<Rightarrow> condev \<Rightarrow> condev res" where
  "SynchConsoleOutput_PutChar ch c = ConsoleOutput_PutChar ch (c\<lparr>out_lock := True\<rparr>)"

definition SynchConsoleOutput_PutChar_rest :: "condev \<Rightarrow> condev" where
  "SynchConsoleOutput_PutChar_rest c = c\<lparr>out_wait := out_wait c - 1, out_lock := False\<rparr>"

text \<open>The interrupt of the display: it is taken from the pending ones and handled.\<close>

definition write_interrupt :: "condev \<Rightarrow> condev" where
  "write_interrupt c = ConsoleOutput_CallBack (c\<lparr>write_int := write_int c - 1\<rparr>)"

interpretation con_out: synch_driver out_lock out_wait write_int putBusy "\<lambda>_ _. True" SynchConsoleOutput_PutChar write_interrupt SynchConsoleOutput_PutChar_rest
  by unfold_locales
    (auto simp add: SynchConsoleOutput_PutChar_def ConsoleOutput_PutChar_def write_interrupt_def ConsoleOutput_CallBack_def SynchConsoleOutput_CallBack_def
      SynchConsoleOutput_PutChar_rest_def assertE_def split: if_splits)

section \<open>Runs of the console\<close>

text \<open>
  The states that the console reaches, with the characters typed so far, the characters that \<open>GetChar\<close> returned, and those that were given to \<open>PutChar\<close>.  The steps: the user types, the
  input ends, a thread enters a driver when its lock is free, an interrupt of a device, a thread goes on after \<open>P\<close>.
\<close>

inductive con_reach :: "condev \<Rightarrow> 8 word list \<Rightarrow> 8 word list \<Rightarrow> 8 word list \<Rightarrow> bool" where
  start: "in_stream c = [] \<Longrightarrow> \<not> in_closed c \<Longrightarrow> read_int c = 0 \<Longrightarrow> write_int c = 0 \<Longrightarrow> out_file c = [] \<Longrightarrow>
    con_reach (SynchConsoleOutput_new (SynchConsoleInput_new c)) [] [] []"
| type: "con_reach c T R W \<Longrightarrow> \<not> in_closed c \<Longrightarrow> con_reach (c\<lparr>in_stream := in_stream c @ [ch]\<rparr>) (T @ [ch]) R W"
| close: "con_reach c T R W \<Longrightarrow> con_reach (c\<lparr>in_closed := True\<rparr>) T R W"
| get: "con_reach c T R W \<Longrightarrow> \<not> in_lock c \<Longrightarrow> con_reach (SynchConsoleInput_GetChar c) T R W"
| get_rest: "con_reach c T R W \<Longrightarrow> in_lock c \<Longrightarrow> 0 < in_wait c \<Longrightarrow> SynchConsoleInput_GetChar_rest c = (ch, c') \<Longrightarrow> con_reach c' T (R @ [ch]) W"
| read_int: "con_reach c T R W \<Longrightarrow> 0 < read_int c \<Longrightarrow> ConsoleInput_CallBack (c\<lparr>read_int := read_int c - 1\<rparr>) = Inr c' \<Longrightarrow> con_reach c' T R W"
| put: "con_reach c T R W \<Longrightarrow> \<not> out_lock c \<Longrightarrow> SynchConsoleOutput_PutChar ch c = Inr c' \<Longrightarrow> con_reach c' T R (W @ [ch])"
| write_int: "con_reach c T R W \<Longrightarrow> 0 < write_int c \<Longrightarrow> con_reach (write_interrupt c) T R W"
| put_rest: "con_reach c T R W \<Longrightarrow> out_lock c \<Longrightarrow> 0 < out_wait c \<Longrightarrow> con_reach (SynchConsoleOutput_PutChar_rest c) T R W"

text \<open>
  The input is alive: an interrupt will poll, or a character has arrived that is not \<open>EOF\<close>; or it has ended, with \<open>EOF\<close> that was read or is about to be read.
\<close>

definition in_alive :: "condev \<Rightarrow> 8 word list \<Rightarrow> 8 word list \<Rightarrow> bool" where
  "in_alive c T R \<longleftrightarrow> T = R @ (if incoming c = ch_eof then [] else [incoming c]) @ in_stream c \<and> ch_eof \<notin> set R
     \<and> (if incoming c = ch_eof then read_int c = 1 \<and> in_wait c = 0 else read_int c = 0 \<and> in_wait c = 1)"

definition in_ended :: "condev \<Rightarrow> 8 word list \<Rightarrow> 8 word list \<Rightarrow> bool" where
  "in_ended c T R \<longleftrightarrow> incoming c = ch_eof \<and> read_int c = 0
     \<and> (\<exists>R0 n. R = R0 @ (if in_wait c = 0 then [ch_eof] else []) \<and> ch_eof \<notin> set R0 \<and> in_wait c \<le> 1
          \<and> (T = R0 @ n \<and> (n = [] \<and> in_closed c \<or> n \<noteq> [] \<and> hd n = ch_eof)))"

definition con_inv :: "condev \<Rightarrow> 8 word list \<Rightarrow> 8 word list \<Rightarrow> 8 word list \<Rightarrow> bool" where
  "con_inv c T R W \<longleftrightarrow> (in_alive c T R \<or> in_ended c T R) \<and> con_out.driver_inv c \<and> out_file c = W"

lemmas con_in_defs = in_alive_def in_ended_def SynchConsoleInput_GetChar_def SynchConsoleInput_GetChar_rest_def ConsoleInput_GetChar_def

lemma con_out_view:
  assumes "con_out.driver_inv c" "out_lock c' = out_lock c" "out_wait c' = out_wait c" "write_int c' = write_int c" "putBusy c' = putBusy c"
  shows "con_out.driver_inv c'"
  using assms by (simp add: con_out.driver_inv_def)

lemma con_in_view:
  assumes "in_stream c' = in_stream c" "in_closed c' = in_closed c" "incoming c' = incoming c" "read_int c' = read_int c" "in_wait c' = in_wait c"
  shows "in_alive c' T R = in_alive c T R" "in_ended c' T R = in_ended c T R"
  using assms by (simp_all add: in_alive_def in_ended_def)

lemma con_reach_inv: "con_reach c T R W \<Longrightarrow> con_inv c T R W"
proof (induction rule: con_reach.induct)
  case (start c)
  then show ?case by (simp add: con_inv_def in_alive_def con_out.driver_inv_def SynchConsoleOutput_new_def SynchConsoleInput_new_def ConsoleOutput_new_def ConsoleInput_new_def)
next
  case (type c T R W ch)
  have "in_ended (c\<lparr>in_stream := in_stream c @ [ch]\<rparr>) (T @ [ch]) R" if "in_ended c T R"
    using that type.hyps(2) by (fastforce simp add: in_ended_def)
  then show ?case using type.IH by (auto simp add: con_inv_def in_alive_def intro: con_out_view)
next
  case (close c T R W)
  have "in_alive (c\<lparr>in_closed := True\<rparr>) T R = in_alive c T R" "in_ended c T R \<Longrightarrow> in_ended (c\<lparr>in_closed := True\<rparr>) T R"
    by (simp add: in_alive_def) (fastforce simp add: in_ended_def)
  then show ?case using close.IH by (auto simp add: con_inv_def intro: con_out_view)
next
  case (get c T R W)
  have "in_alive (SynchConsoleInput_GetChar c) T R = in_alive c T R" "in_ended (SynchConsoleInput_GetChar c) T R = in_ended c T R"
    by (rule con_in_view; simp add: SynchConsoleInput_GetChar_def)+
  then show ?case using get.IH by (auto simp add: con_inv_def SynchConsoleInput_GetChar_def intro: con_out_view)
next
  case (get_rest c T R W ch c')
  then show ?case by (auto simp add: con_inv_def con_in_defs Let_def intro: con_out_view split: if_splits)
next
  case (read_int c T R W c')
  have a: "in_alive c T R" using read_int.IH read_int.hyps(2) by (auto simp add: con_inv_def in_ended_def)
  then have "in_alive c' T R \<or> in_ended c' T R"
    using read_int.hyps(2,3) by (auto simp add: con_in_defs ConsoleInput_CallBack_def SynchConsoleInput_CallBack_def PollFile_def assertE_def split: if_splits list.splits)
  then show ?case using read_int.IH read_int.hyps(3)
    by (auto simp add: con_inv_def ConsoleInput_CallBack_def SynchConsoleInput_CallBack_def assertE_def intro: con_out_view split: if_splits list.splits)
next
  case (put c T R W ch c')
  have d: "con_out.driver_inv c'" using con_out.driver_request [of c ch] put by (auto simp add: con_inv_def)
  have c': "c' = c\<lparr>out_lock := True, out_file := out_file c @ [ch], putBusy := True, write_int := write_int c + 1\<rparr>"
    using put.hyps(3) by (auto simp add: SynchConsoleOutput_PutChar_def ConsoleOutput_PutChar_def assertE_def split: if_splits)
  have "in_alive c' T R = in_alive c T R" "in_ended c' T R = in_ended c T R" unfolding c' by (rule con_in_view; simp)+
  then show ?case using put.IH d c' by (simp add: con_inv_def)
next
  case (write_int c T R W)
  note d = write_interrupt_def ConsoleOutput_CallBack_def SynchConsoleOutput_CallBack_def
  have "in_alive (write_interrupt c) T R = in_alive c T R" "in_ended (write_interrupt c) T R = in_ended c T R" by (rule con_in_view; simp add: d)+
  then show ?case using write_int con_out.driver_interrupt [of c] by (simp add: con_inv_def d)
next
  case (put_rest c T R W)
  note d = SynchConsoleOutput_PutChar_rest_def
  have "in_alive (SynchConsoleOutput_PutChar_rest c) T R = in_alive c T R" "in_ended (SynchConsoleOutput_PutChar_rest c) T R = in_ended c T R" by (rule con_in_view; simp add: d)+
  then show ?case using put_rest con_out.driver_finish [of c] by (simp add: con_inv_def d)
qed

text \<open>
  C15.  The console delivers characters in order, up to the end of the input.  Whatever threads use it and whenever the interrupts come: the characters that \<open>PutChar\<close> was given are on the
  display, in order; the characters that \<open>GetChar\<close> returned, up to \<open>EOF\<close>, are the first characters that were typed, in order and none left out.  The assertions of both devices hold: the
  interrupt of the keyboard returns, and \<open>PutChar\<close> can be called whenever the driver is free.  A thread inside \<open>PutChar\<close> has exactly one interrupt to wait for.  As long as \<open>GetChar\<close> has
  not returned \<open>EOF\<close>, the keyboard is polled again or has something for it.  \<open>EOF\<close> is returned only when the input is closed and all of it was read, or for a typed character of code 255;
  from then on the keyboard is never polled again and no call of \<open>GetChar\<close> returns anything more: a thread that calls it waits for ever.
\<close>

theorem console_in_order:
  assumes "con_reach c T R W"
  shows "out_file c = W \<and> (\<exists>rest. T = takeWhile (\<lambda>ch. ch \<noteq> ch_eof) R @ rest)
    \<and> (0 < read_int c \<longrightarrow> (\<exists>c'. ConsoleInput_CallBack (c\<lparr>read_int := read_int c - 1\<rparr>) = Inr c'))
    \<and> (\<not> out_lock c \<longrightarrow> (\<exists>c'. SynchConsoleOutput_PutChar ch c = Inr c'))
    \<and> write_int c + out_wait c = (if out_lock c then 1 else 0)
    \<and> read_int c + in_wait c = (if ch_eof \<in> set R then 0 else 1)
    \<and> R = takeWhile (\<lambda>ch. ch \<noteq> ch_eof) R @ (if ch_eof \<in> set R then [ch_eof] else [])
    \<and> (ch_eof \<in> set R \<longrightarrow> in_closed c \<and> T @ [ch_eof] = R \<or> (\<exists>rest. T = R @ rest))"
proof -
  have i: "in_alive c T R \<or> in_ended c T R" "con_out.driver_inv c" "out_file c = W" using con_reach_inv [OF assms] by (auto simp add: con_inv_def)
  have "incoming c = ch_eof" if "0 < read_int c" using i(1) that by (auto simp add: in_alive_def in_ended_def split: if_splits)
  then have cb: "\<exists>c'. ConsoleInput_CallBack (c\<lparr>read_int := read_int c - 1\<rparr>) = Inr c'" if "0 < read_int c" using that by (auto simp add: ConsoleInput_CallBack_def)
  have tw: "takeWhile (\<lambda>ch. ch \<noteq> ch_eof) (R0 @ xs) = R0 @ takeWhile (\<lambda>ch. ch \<noteq> ch_eof) xs" if "ch_eof \<notin> set R0" for R0 xs :: "8 word list"
    using that by (auto simp add: takeWhile_append)
  have "(\<exists>rest. T = takeWhile (\<lambda>ch. ch \<noteq> ch_eof) R @ rest) \<and> read_int c + in_wait c = (if ch_eof \<in> set R then 0 else 1)
    \<and> R = takeWhile (\<lambda>ch. ch \<noteq> ch_eof) R @ (if ch_eof \<in> set R then [ch_eof] else [])
    \<and> (ch_eof \<in> set R \<longrightarrow> in_closed c \<and> T @ [ch_eof] = R \<or> (\<exists>rest. T = R @ rest))"
    using i(1)
  proof
    assume a: "in_alive c T R"
    then have e: "takeWhile (\<lambda>ch. ch \<noteq> ch_eof) R = R" using tw [of R "[]"] unfolding in_alive_def by simp
    show ?thesis unfolding e using a by (auto simp add: in_alive_def split: if_splits)
  next
    assume "in_ended c T R"
    then obtain R0 n where r: "R = R0 @ (if in_wait c = 0 then [ch_eof] else [])" "ch_eof \<notin> set R0" "in_wait c \<le> 1" "T = R0 @ n" "read_int c = 0"
        "n = [] \<and> in_closed c \<or> n \<noteq> [] \<and> hd n = ch_eof"
      by (auto simp add: in_ended_def)
    then have t: "takeWhile (\<lambda>ch. ch \<noteq> ch_eof) R = R0" using tw [of R0 "if in_wait c = 0 then [ch_eof] else []"] by (simp split: if_splits)
    have "in_closed c \<and> T @ [ch_eof] = R \<or> (\<exists>rest. T = R @ rest)" if "ch_eof \<in> set R"
    proof -
      have "R = R0 @ [ch_eof]" using r(1,2) that by (auto split: if_splits)
      then show ?thesis using r(4,6) by (cases n) auto
    qed
    then show ?thesis using r t by auto
  qed
  moreover have "\<exists>c'. SynchConsoleOutput_PutChar ch c = Inr c'" if "\<not> out_lock c" using con_out.driver_request [OF i(2) that, of ch] by auto
  ultimately show ?thesis using i(2,3) cb by (auto simp add: con_out.driver_inv_def)
qed

text \<open>The user types a character of code 255 and another one; the first ends the input.\<close>

theorem console_in_order_witness:
  "\<exists>c. con_reach c [255, 65] [255] [] \<and> read_int c + in_wait c = 0 \<and> in_stream c = [65]"
proof -
  let ?c = "\<lparr>in_stream = [], in_closed = False, incoming = 7, read_int = 0, numConsoleCharsRead = 0, in_lock = True, in_wait = 3, out_file = [], putBusy = True, write_int = 0,
    numConsoleCharsWritten = 0, out_lock = True, out_wait = 5\<rparr>"
  note d = SynchConsoleOutput_new_def SynchConsoleInput_new_def ConsoleOutput_new_def ConsoleInput_new_def SynchConsoleInput_GetChar_def ConsoleInput_CallBack_def
    SynchConsoleInput_CallBack_def PollFile_def SynchConsoleInput_GetChar_rest_def ConsoleInput_GetChar_def
  have "con_reach (SynchConsoleOutput_new (SynchConsoleInput_new ?c)) [] [] []" by (rule con_reach.start) simp_all
  from con_reach.type [OF this, of 255]
  have "con_reach (SynchConsoleOutput_new (SynchConsoleInput_new ?c)\<lparr>in_stream := [255]\<rparr>) [255] [] []" by (simp add: d)
  from con_reach.type [OF this, of 65]
  have "con_reach (SynchConsoleOutput_new (SynchConsoleInput_new ?c)\<lparr>in_stream := [255, 65]\<rparr>) [255, 65] [] []" by (simp add: d)
  from con_reach.read_int [OF con_reach.get [OF this]]
  obtain c where c: "con_reach c [255, 65] [] []" "in_lock c" "0 < in_wait c" "SynchConsoleInput_GetChar_rest c = (255, c\<lparr>in_wait := 0, incoming := 255, in_lock := False\<rparr>)" "in_stream c = [65]"
    by (simp add: d)
  from con_reach.get_rest [OF c(1-4)] have r: "con_reach (c\<lparr>in_wait := 0, incoming := 255, in_lock := False\<rparr>) [255, 65] [255] []" by simp
  from console_in_order [OF this] show ?thesis using r c(5) by (intro exI [of _ "c\<lparr>in_wait := 0, incoming := 255, in_lock := False\<rparr>"]) simp
qed

end
