(* ===== verification/User_Programs.thy ===== *)
theory User_Programs
  imports Console_IO "HOL-Library.Multiset"
begin
text \<open>
  User programs of \<^verbatim>\<open>code/test\<close> that compute: \<^verbatim>\<open>sort.c\<close> and \<^verbatim>\<open>matmult.c\<close>.

  A program calls the system calls of \<^verbatim>\<open>Console_IO\<close>; its \<open>int\<close> variables are \<open>32 word\<close>, and its arrays, which are global and hence start with zeros, are lists or functions of
  the indices.  A program ends with \<open>Halt\<close> or \<open>Exit\<close>: its result is the console, or the exit code, at that point.
\<close>

section \<open>Model\<close>

subsection \<open>sort.c\<close>

text \<open>The characters of a string literal.\<close>

definition lit :: "string \<Rightarrow> 8 word list" where
  "lit s = map (\<lambda>c. of_nat (of_char c)) s"

definition sort_step :: "bool \<Rightarrow> int \<Rightarrow> 32 word list \<Rightarrow> 32 word list res" where
  "sort_step isAsc j A =
     bindE (readA A (j - 1)) (\<lambda>a.
     bindE (readA A j) (\<lambda>b.
     if (if isAsc then sint a > sint b else sint a < sint b)
     then bindE (writeA A (j - 1) b) (\<lambda>A. writeA A j a)
     else Inr A))"

definition sort_array :: "bool \<Rightarrow> int \<Rightarrow> 32 word list \<Rightarrow> 32 word list res" where
  "sort_array isAsc n A = foldE (\<lambda>i A. foldE (sort_step isAsc) (rev [i + 1..n - 1]) A) [0..n - 1] A"

definition sort_input :: "int \<Rightarrow> 32 word list \<times> 'c console_scheme \<Rightarrow> (32 word list \<times> 'c console_scheme) res" where
  "sort_input n = foldE (\<lambda>i (A, con). bindE (SysReadNum con) (\<lambda>(v, con). bindE (writeA A i v) (\<lambda>A. Inr (A, con)))) [0..n - 1]"

definition sort_output :: "int \<Rightarrow> 32 word list \<Rightarrow> 'c console_scheme \<Rightarrow> 'c console_scheme res" where
  "sort_output n A = foldE (\<lambda>i con. bindE (readA A i) (\<lambda>v. bindE (SysPrintNum v con) (\<lambda>con. Inr (SysPrintChar 32 con)))) [0..n - 1]"

definition sort_main :: "'c console_scheme \<Rightarrow> 'c console_scheme res" where
  "sort_main con =
     bindE (SysPrintString (lit ''Enter number of elements n = '' @ [0]) con) (\<lambda>con.
     bindE (SysReadNum con) (\<lambda>(n, con).
     if sint n < 1 \<or> sint n > 100 then SysPrintString (lit '' n mush be in range [1, 100] !!!'' @ [10, 0]) con
     else
       bindE (SysPrintString (lit ''Enter array: '' @ [0]) con) (\<lambda>con.
       bindE (sort_input (sint n) (replicate 100 0, con)) (\<lambda>(A, con).
       bindE (SysPrintString (lit ''Ascending/Descending enter [0/1]: '' @ [0]) con) (\<lambda>con.
       bindE (SysReadChar con) (\<lambda>(c, con).
       let isAsc = (c = 48) in
       bindE (sort_array isAsc (sint n) A) (\<lambda>A.
       bindE (SysPrintString (lit ''Array after sorting: '' @ [0]) con) (\<lambda>con.
       bindE (sort_output (sint n) A con) (\<lambda>con.
       Inr (SysPrintChar 10 con))))))))))"

subsection \<open>matmult.c\<close>

definition Dim :: nat where "Dim = 20"

record matrices =
  mat_A :: "nat \<Rightarrow> nat \<Rightarrow> 32 word"
  mat_B :: "nat \<Rightarrow> nat \<Rightarrow> 32 word"
  mat_C :: "nat \<Rightarrow> nat \<Rightarrow> 32 word"

definition set_entry :: "nat \<Rightarrow> nat \<Rightarrow> 32 word \<Rightarrow> (nat \<Rightarrow> nat \<Rightarrow> 32 word) \<Rightarrow> nat \<Rightarrow> nat \<Rightarrow> 32 word" where
  "set_entry i j v M = M(i := (M i)(j := v))"

definition init_step :: "nat \<Rightarrow> nat \<Rightarrow> matrices \<Rightarrow> matrices" where
  "init_step i j m = m\<lparr>mat_A := set_entry i j (of_nat i) (mat_A m), mat_B := set_entry i j (of_nat j) (mat_B m), mat_C := set_entry i j 0 (mat_C m)\<rparr>"

definition matmult_init :: "matrices \<Rightarrow> matrices" where
  "matmult_init = fold (\<lambda>i. fold (init_step i) [0..<Dim]) [0..<Dim]"

definition mult_step :: "nat \<Rightarrow> nat \<Rightarrow> nat \<Rightarrow> matrices \<Rightarrow> matrices" where
  "mult_step i j k m = m\<lparr>mat_C := set_entry i j (mat_C m i j + mat_A m i k * mat_B m k j) (mat_C m)\<rparr>"

definition matmult_loop :: "matrices \<Rightarrow> matrices" where
  "matmult_loop = fold (\<lambda>i. fold (\<lambda>j. fold (mult_step i j) [0..<Dim]) [0..<Dim]) [0..<Dim]"

definition matmult_main :: "matrices \<Rightarrow> 32 word" where
  "matmult_main m = (let m = matmult_loop (matmult_init m) in mat_C m (Dim - 1) (Dim - 1))"

section \<open>Sorting\<close>

text \<open>Both orders are the order of a key.\<close>

definition sort_by :: "bool \<Rightarrow> 32 word \<Rightarrow> int" where
  "sort_by isAsc x = (if isAsc then sint x else - sint x)"

lemma sort_by_inj: "sort_by isAsc x = sort_by isAsc y \<longleftrightarrow> x = y"
  by (auto simp add: sort_by_def intro: signed_word_eqI split: if_splits)

lemma sort_step_eq:
  assumes "Suc j < length A"
  shows "sort_step isAsc (int (Suc j)) A = Inr (if sort_by isAsc (A ! j) > sort_by isAsc (A ! Suc j) then A[j := A ! Suc j, Suc j := A ! j] else A)"
  using assms by (auto simp add: sort_step_def sort_by_def nat_add_distrib)

text \<open>One pass of the inner loop brings the least of the elements from \<open>i\<close> on to position \<open>i\<close>.\<close>

lemma swap_facts:
  assumes "Suc j < n" "n \<le> length A" and B: "B = A[j := A ! Suc j, Suc j := A ! j]"
  shows "length B = length A" "mset (take n B) = mset (take n A)" "drop n B = drop n A" "take j B = take j A"
    "B ! j = A ! Suc j" "B ! Suc j = A ! j" "k \<noteq> j \<Longrightarrow> k \<noteq> Suc j \<Longrightarrow> B ! k = A ! k"
proof -
  have "take n B = (take n A)[j := take n A ! Suc j, Suc j := take n A ! j]" using assms by (simp add: take_update_swap)
  moreover have "Suc j < length (take n A)" "j < length (take n A)" using assms(1,2) by simp_all
  ultimately show "mset (take n B) = mset (take n A)" by (metis mset_swap)
qed (use assms in simp_all)

lemma sort_pass:
  assumes "i < n" "n \<le> length A"
  shows "\<exists>B. foldE (sort_step isAsc) (rev [int i + 1..int n - 1]) A = Inr B \<and> length B = length A \<and> take i B = take i A \<and> drop n B = drop n A
    \<and> mset (take n B) = mset (take n A) \<and> (\<forall>k. i \<le> k \<longrightarrow> k < n \<longrightarrow> sort_by isAsc (B ! i) \<le> sort_by isAsc (B ! k))"
proof -
  let ?js = "rev [int i + 1..int n - 1]"
  let ?P = "\<lambda>m B. length B = length A \<and> take (n - 1 - m) B = take (n - 1 - m) A \<and> drop n B = drop n A \<and> mset (take n B) = mset (take n A)
    \<and> (\<forall>k. n - 1 - m \<le> k \<longrightarrow> k < n \<longrightarrow> sort_by isAsc (B ! (n - 1 - m)) \<le> sort_by isAsc (B ! k))"
  have len: "length ?js = n - 1 - i" using assms(1) by simp
  have nth: "?js ! m = int (n - 1 - m)" if "m < n - 1 - i" for m 
  proof -
    have "int i + 1 + int (n - 1 - i - Suc m) = int (n - 1 - m)" using that by simp
    then show ?thesis using that nth_upto [of "int i + 1" "n - 1 - i - Suc m" "int n - 1"] len by (simp add: rev_nth)
  qed
  have "k = n - 1" if "n - 1 \<le> k" "k < n" for k using that by simp
  then have 0: "?P 0 A" by auto
  have step: "\<exists>B'. sort_step isAsc (?js ! m) B = Inr B' \<and> ?P (Suc m) B'" if m: "m < length ?js" and P: "?P m B" for m B
  proof -
    define j where "j = n - 1 - Suc m"
    have j: "n - 1 - m = Suc j" "Suc j < n" "?js ! m = int (Suc j)" using m nth [of m] unfolding len j_def by simp_all
    let ?B = "if sort_by isAsc (B ! j) > sort_by isAsc (B ! Suc j) then B[j := B ! Suc j, Suc j := B ! j] else B"
    have nB: "n \<le> length B" using P assms(2) by simp
    have run: "sort_step isAsc (?js ! m) B = Inr ?B" unfolding j(3) using j(2) nB by (intro sort_step_eq) simp
    have pre: "take j B = take j A" using P unfolding j(1) by (metis min.absorb1 lessI less_imp_le take_take)
    have "?P (Suc m) ?B"
    proof (cases "sort_by isAsc (B ! j) > sort_by isAsc (B ! Suc j)")
      case True
      note s = swap_facts [OF j(2) nB refl]
      have "sort_by isAsc (?B ! j) \<le> sort_by isAsc (?B ! k)" if "j \<le> k" "k < n" for k
        using P True s that unfolding j(1) by (cases "k = j \<or> k = Suc j") auto
      then show ?thesis using P True s pre unfolding j_def [symmetric] by auto
    next
      case False
      have "sort_by isAsc (B ! j) \<le> sort_by isAsc (B ! k)" if "j \<le> k" "k < n" for k
        using P False that unfolding j(1) by (cases "k = j") (auto dest!: spec [of _ k])
      then show ?thesis using P False pre unfolding j_def [symmetric] by auto
    qed
    then show ?thesis using run by blast
  qed
  obtain B where "foldE (sort_step isAsc) ?js A = Inr B" "?P (length ?js) B" using foldE_invariant [of ?P A ?js "sort_step isAsc", OF 0 step] by blast
  moreover have "n - 1 - length ?js = i" using len assms(1) by simp
  ultimately show ?thesis by auto
qed

lemma sort_array_correct:
  assumes "n \<le> length A"
  shows "sort_array isAsc (int n) A = Inr (sort_key (sort_by isAsc) (take n A) @ drop n A)"
proof -
  let ?f = "sort_by isAsc"
  let ?P = "\<lambda>i B. length B = length A \<and> drop n B = drop n A \<and> mset (take n B) = mset (take n A) \<and> (\<forall>a b. a < i \<longrightarrow> a \<le> b \<longrightarrow> b < n \<longrightarrow> ?f (B ! a) \<le> ?f (B ! b))"
  have step: "\<exists>B'. foldE (sort_step isAsc) (rev [[0..int n - 1] ! i + 1..int n - 1]) B = Inr B' \<and> ?P (Suc i) B'" if i: "i < length [0..int n - 1]" and P: "?P i B" for i B
  proof -
    have i': "i < n" "[0..int n - 1] ! i = int i" using i by simp_all
    have nB: "n \<le> length B" using P assms by simp
    obtain B' where B': "foldE (sort_step isAsc) (rev [int i + 1..int n - 1]) B = Inr B'" "length B' = length B" "take i B' = take i B" "drop n B' = drop n B"
        "mset (take n B') = mset (take n B)" "\<forall>k. i \<le> k \<longrightarrow> k < n \<longrightarrow> ?f (B' ! i) \<le> ?f (B' ! k)"
      using sort_pass [OF i'(1) nB] by blast
    have split: "take n C = take i C @ drop i (take n C)" for C :: "32 word list" using i'(1) by (metis append_take_drop_id min.absorb1 less_imp_le take_take)
    have "mset (drop i (take n B')) = mset (drop i (take n B))" using B'(3,5) by (metis split add_left_imp_eq mset_append)
    then have mem: "set (drop i (take n B')) = set (drop i (take n B))" by (rule mset_eq_setD)
    have "?f (B' ! a) \<le> ?f (B' ! b)" if "a < Suc i" "a \<le> b" "b < n" for a b
    proof (cases "a = i")
      case True
      then show ?thesis using B'(6) that by simp
    next
      case False
      then have a: "a < i" using that by simp
      then have "B' ! a = B ! a" using B'(3) by (metis nth_take)
      moreover have "\<exists>c. B' ! b = B ! c \<and> a \<le> c \<and> c < n"
      proof (cases "b < i")
        case True
        then show ?thesis using B'(3) that by (metis nth_take)
      next
        case ge: False
        have "drop i (take n B') ! (b - i) \<in> set (drop i (take n B'))" using ge that B'(2) nB by (intro nth_mem) simp
        then have "B' ! b \<in> set (drop i (take n B))" using ge that B'(2) nB mem by simp
        then obtain c where "c < n - i" "B' ! b = B ! (i + c)" using nB by (auto simp add: in_set_conv_nth)
        then show ?thesis using a by (intro exI [of _ "i + c"]) auto
      qed
      ultimately show ?thesis using P a by auto
    qed
    then have "\<forall>a b. a < Suc i \<longrightarrow> a \<le> b \<longrightarrow> b < n \<longrightarrow> ?f (B' ! a) \<le> ?f (B' ! b)" by blast
    moreover have "length B' = length A" "drop n B' = drop n A" "mset (take n B') = mset (take n A)" using B'(2,4,5) P by simp_all
    ultimately show ?thesis unfolding i'(2) using B'(1) by blast
  qed
  have "?P 0 A" by simp
  from foldE_invariant [of ?P A "[0..int n - 1]" "\<lambda>i A. foldE (sort_step isAsc) (rev [i + 1..int n - 1]) A", OF this step]
  obtain B where B: "sort_array isAsc (int n) A = Inr B" "?P (length [0..int n - 1]) B" unfolding sort_array_def by blast
  have le: "?f (B ! a) \<le> ?f (B ! b)" if "a \<le> b" "b < n" for a b using B(2) that by simp
  have "sorted (map ?f (take n B))" unfolding sorted_iff_nth_mono using le by simp
  moreover have "inj_on ?f (set (take n A))" by (rule inj_onI) (simp add: sort_by_inj)
  ultimately have "sort_key ?f (take n A) = take n B" using B(2) by (intro sort_key_inj_key_eq) simp_all
  then show ?thesis using B append_take_drop_id [of n B] by simp
qed

section \<open>The sort program\<close>

lemma print_string: "0 \<notin> set s \<Longrightarrow> SysPrintString (s @ 0 # r) con = Inr (con\<lparr>con_out := con_out con @ s\<rparr>)"
  by (induction s arbitrary: con) (auto simp add: PutChar_def)

text \<open>What \<open>PrintNum\<close> prints.\<close>

definition num_text :: "32 word \<Rightarrow> 8 word list" where
  "num_text w =
     (if w = 0 then [48]
      else if w = 0x80000000 then [45, 46, 47, 44, 41, 44, 40, 45, 42, 44, 40]
      else (if sint w < 0 then [ch_minus] else []) @ map dig (rev (lsd (nat \<bar>sint w\<bar>))))"

lemma print_num: "SysPrintNum w con = Inr (con\<lparr>con_out := con_out con @ num_text w\<rparr>)"
proof -
  consider "w = 0" | "w = 0x80000000" | "w \<noteq> 0" "w \<noteq> 0x80000000" by blast
  then show ?thesis
  proof cases
    case 1
    then show ?thesis by (simp add: SysPrintNum_def PutChar_def num_text_def)
  next
    case 2
    then show ?thesis by (simp add: PrintNum_min num_text_def)
  next
    case 3
    have "sint w \<noteq> - (2 ^ 31)"
    proof
      assume "sint w = - (2 ^ 31)"
      then have "word_of_int (sint w) = (word_of_int (- (2 ^ 31)) :: 32 word)" by (rule arg_cong)
      then show False using 3 by simp
    qed
    then show ?thesis using PrintNum_nonzero [OF 3(1), of con] 3 by (simp add: num_text_def)
  qed
qed

text \<open>A word of the input, and the number it stands for.\<close>

definition is_word :: "8 word list \<Rightarrow> bool" where
  "is_word tok \<longleftrightarrow> tok \<noteq> [] \<and> list_all (\<lambda>c. \<not> blank c) tok"

definition word_val :: "8 word list \<Rightarrow> 32 word" where
  "word_val tok = word_of_int (token_value tok)"

lemma typed_word: "is_word tok \<Longrightarrow> blank t \<Longrightarrow> SysReadNum (con\<lparr>con_in := tok @ t # rest\<rparr>) = Inr (word_val tok, con\<lparr>con_in := rest\<rparr>)"
  using sys_read_num [where bs = "[]" and tok = tok and t = t and con = con and rest = rest] by (simp add: is_word_def word_val_def)

definition input_words :: "(8 word list \<times> 8 word) list \<Rightarrow> 8 word list" where
  "input_words ts = concat (map (\<lambda>(tok, t). tok @ [t]) ts)"

lemma sort_input_words:
  "list_all (\<lambda>(tok, t). is_word tok \<and> blank t) ts \<Longrightarrow> length ts \<le> length A \<Longrightarrow>
   sort_input (int (length ts)) (A, con\<lparr>con_in := input_words ts @ rest\<rparr>)
     = Inr (map (\<lambda>(tok, t). word_val tok) ts @ drop (length ts) A, con\<lparr>con_in := rest\<rparr>)"
proof (induction ts arbitrary: rest rule: rev_induct)
  case Nil
  then show ?case by (simp add: sort_input_def input_words_def)
next
  case (snoc x ts)
  obtain tok t where x: "x = (tok, t)" "is_word tok" "blank t" using snoc.prems(1) by (cases x) simp
  let ?vs = "map (\<lambda>(tok, t). word_val tok) ts"
  have up: "[0..int (length (ts @ [x])) - 1] = [0..int (length ts) - 1] @ [int (length ts)]" using upto_rec2 [of 0 "int (length ts)"] by simp
  have "sort_input (int (length ts)) (A, con\<lparr>con_in := input_words ts @ tok @ t # rest\<rparr>) = Inr (?vs @ drop (length ts) A, con\<lparr>con_in := tok @ t # rest\<rparr>)"
    using snoc.prems by (intro snoc.IH) simp_all
  moreover have "drop (length ts) A = A ! length ts # drop (Suc (length ts)) A" using snoc.prems(2) by (simp add: Cons_nth_drop_Suc)
  ultimately show ?case using snoc.prems(2) x typed_word [OF x(2,3), where con = con and rest = rest] unfolding sort_input_def up foldE_append
    by (simp add: input_words_def writeA_def list_update_append)
qed

lemma sort_output_words:
  "n \<le> length A \<Longrightarrow> sort_output (int n) A con = Inr (con\<lparr>con_out := con_out con @ concat (map (\<lambda>v. num_text v @ [32]) (take n A))\<rparr>)"
proof (induction n)
  case 0
  then show ?case by (simp add: sort_output_def)
next
  case (Suc n)
  have up: "[0..int (Suc n) - 1] = [0..int n - 1] @ [int n]" using upto_rec2 [of 0 "int n"] by simp
  have "take (Suc n) A = take n A @ [A ! n]" using Suc.prems by (simp add: take_Suc_conv_app_nth)
  then show ?case using Suc unfolding sort_output_def up foldE_append by (simp add: print_num SysPrintChar_def PutChar_def)
qed

text \<open>
  C27.  The sort program sorts, and does not leave its array of 100 numbers.  When the number \<open>n\<close> it reads first is less than 1 or greater than 100, it prints a message and halts, and
  reads nothing more.  Otherwise, when \<open>n\<close> numbers and a character follow, it ends, and its last line of output is the numbers in ascending order if the character is \<open>0\<close>, and
  in descending order if not.
\<close>

theorem sort_main_correct:
  assumes "is_word tok" "blank t" "con_in con = tok @ t # body"
  shows "(sint (word_val tok) < 1 \<or> 100 < sint (word_val tok) \<longrightarrow>
      sort_main con = Inr (con\<lparr>con_in := body, con_out := con_out con @ lit ''Enter number of elements n = '' @ lit '' n mush be in range [1, 100] !!!'' @ [10]\<rparr>))
    \<and> (\<forall>ts c rest. 1 \<le> sint (word_val tok) \<longrightarrow> sint (word_val tok) \<le> 100 \<longrightarrow> sint (word_val tok) = int (length ts) \<longrightarrow>
      list_all (\<lambda>(tok, t). is_word tok \<and> blank t) ts \<longrightarrow> body = input_words ts @ c # rest \<longrightarrow>
      sort_main con = Inr (con\<lparr>con_in := rest,
        con_out := con_out con @ lit ''Enter number of elements n = '' @ lit ''Enter array: '' @ lit ''Ascending/Descending enter [0/1]: '' @ lit ''Array after sorting: ''
          @ concat (map (\<lambda>v. num_text v @ [32]) (sort_key (sort_by (c = 48)) (map (\<lambda>(tok, t). word_val tok) ts))) @ [10]\<rparr>))"
proof -
  have lits: "0 \<notin> set (lit ''Enter number of elements n = '')" "0 \<notin> set (lit '' n mush be in range [1, 100] !!!'' @ [10])" "0 \<notin> set (lit ''Enter array: '')"
    "0 \<notin> set (lit ''Ascending/Descending enter [0/1]: '')" "0 \<notin> set (lit ''Array after sorting: '')" by (code_simp, code_simp, code_simp, code_simp, code_simp)
  note ps = lits [THEN print_string]
  let ?out = "con_out con @ lit ''Enter number of elements n = ''"
  have same: "con\<lparr>con_out := ?out, con_in := tok @ t # body\<rparr> = con\<lparr>con_out := ?out\<rparr>" using assms(3) by (cases con) simp
  have rd: "SysReadNum (con\<lparr>con_out := ?out\<rparr>) = Inr (word_val tok, con\<lparr>con_out := ?out, con_in := body\<rparr>)"
    using typed_word [OF assms(1,2), where con = "con\<lparr>con_out := ?out\<rparr>" and rest = body] unfolding same .
  have "sort_main con = Inr (con\<lparr>con_in := body, con_out := ?out @ lit '' n mush be in range [1, 100] !!!'' @ [10]\<rparr>)"
    if "sint (word_val tok) < 1 \<or> 100 < sint (word_val tok)"
    using that rd ps(2) [of "[]" "con\<lparr>con_out := ?out, con_in := body\<rparr>"] by (auto simp add: sort_main_def ps(1))
  moreover have "sort_main con = Inr (con\<lparr>con_in := rest,
        con_out := ?out @ lit ''Enter array: '' @ lit ''Ascending/Descending enter [0/1]: '' @ lit ''Array after sorting: ''
          @ concat (map (\<lambda>v. num_text v @ [32]) (sort_key (sort_by (c = 48)) (map (\<lambda>(tok, t). word_val tok) ts))) @ [10]\<rparr>)"
    if n: "1 \<le> sint (word_val tok)" "sint (word_val tok) \<le> 100" "sint (word_val tok) = int (length ts)"
      and ts: "list_all (\<lambda>(tok, t). is_word tok \<and> blank t) ts" "body = input_words ts @ c # rest" for ts c rest
  proof -
    let ?vs = "map (\<lambda>(tok, t). word_val tok) ts" and ?n = "length ts"
    have inp: "sort_input (int ?n) (replicate 100 0, con\<lparr>con_in := input_words ts @ c # rest, con_out := X\<rparr>) = Inr (?vs @ drop ?n (replicate 100 0), con\<lparr>con_in := c # rest, con_out := X\<rparr>)" for X
    proof -
      have sw: "con\<lparr>con_in := I, con_out := X\<rparr> = con\<lparr>con_out := X, con_in := I\<rparr>" for I by (cases con) simp
      show ?thesis unfolding sw using sort_input_words [OF ts(1), where A = "replicate 100 0" and con = "con\<lparr>con_out := X\<rparr>" and rest = "c # rest"] n by simp
    qed
    have srt: "sort_array b (int ?n) (?vs @ replicate (100 - ?n) 0) = Inr (sort_key (sort_by b) ?vs @ replicate (100 - ?n) 0)" for b
      using sort_array_correct [of ?n "?vs @ replicate (100 - ?n) 0" b] by simp
    have sz: "\<not> (int ?n < 1 \<or> 100 < int ?n)" using n by linarith
    show ?thesis using sz rd unfolding sort_main_def ts(2)
      by (simp add: ps(1,3-5) n(3) inp SysReadChar_def GetChar_def srt sort_output_words SysPrintChar_def PutChar_def Let_def)
  qed
  ultimately show ?thesis by simp
qed

text \<open>The numbers 30, -4, 7, in descending order; and an input that asks for 101 numbers.\<close>

theorem sort_main_correct_witness:
  "(\<exists>con. sort_main \<lparr>con_in = [51, 10, 51, 48, 32, 45, 52, 32, 55, 10, 49], con_out = []\<rparr> = Inr con
    \<and> con_out con = lit ''Enter number of elements n = Enter array: Ascending/Descending enter [0/1]: Array after sorting: 30 7 -4 '' @ [10])
   \<and> (\<exists>con. sort_main \<lparr>con_in = [49, 48, 49, 10, 55, 10], con_out = []\<rparr> = Inr con \<and> con_in con = [55, 10]
    \<and> con_out con = lit ''Enter number of elements n =  n mush be in range [1, 100] !!!'' @ [10])"
proof -
  let ?ts = "[([51, 48], 32), ([45, 52], 32), ([55], 10)] :: (8 word list \<times> 8 word) list"
  let ?con = "\<lparr>con_in = [51, 10, 51, 48, 32, 45, 52, 32, 55, 10, 49], con_out = []\<rparr> :: console" and ?big = "\<lparr>con_in = [49, 48, 49, 10, 55, 10], con_out = []\<rparr> :: console"
  have h: "is_word [51]" "blank 10" "con_in ?con = [51] @ 10 # (input_words ?ts @ [49])" by (code_simp, code_simp, code_simp)
  have n: "1 \<le> sint (word_val [51])" "sint (word_val [51]) \<le> 100" "sint (word_val [51]) = int (length ?ts)" "list_all (\<lambda>(tok, t). is_word tok \<and> blank t) ?ts"
    by (code_simp, code_simp, code_simp, code_simp)
  have o: "con_out ?con @ lit ''Enter number of elements n = '' @ lit ''Enter array: '' @ lit ''Ascending/Descending enter [0/1]: '' @ lit ''Array after sorting: ''
      @ concat (map (\<lambda>v. num_text v @ [32]) (sort_key (sort_by ((49 :: 8 word) = 48)) (map (\<lambda>(tok, t). word_val tok) ?ts))) @ [10]
    = lit ''Enter number of elements n = Enter array: Ascending/Descending enter [0/1]: Array after sorting: 30 7 -4 '' @ [10]" by code_simp
  have b: "is_word [49, 48, 49]" "100 < sint (word_val [49, 48, 49])" by (code_simp, code_simp)
  have ob: "lit ''Enter number of elements n = '' @ lit '' n mush be in range [1, 100] !!!'' = lit ''Enter number of elements n =  n mush be in range [1, 100] !!!''" by code_simp
  from sort_main_correct [OF h, THEN conjunct2, rule_format, OF n refl]
  have "\<exists>con. sort_main ?con = Inr con \<and> con_out con = lit ''Enter number of elements n = Enter array: Ascending/Descending enter [0/1]: Array after sorting: 30 7 -4 '' @ [10]"
    unfolding o by simp
  moreover from sort_main_correct [OF b(1) h(2), of ?big "[55, 10]", THEN conjunct1] b(2)
  have "\<exists>con. sort_main ?big = Inr con \<and> con_in con = [55, 10] \<and> con_out con = lit ''Enter number of elements n =  n mush be in range [1, 100] !!!'' @ [10]"
    by (simp flip: ob)
  ultimately show ?thesis by blast
qed

section \<open>The matrix program\<close>

lemma set_entry_at: "set_entry i j v M i' j' = (if i' = i \<and> j' = j then v else M i' j')"
  by (simp add: set_entry_def)

lemma set_entry_twice [simp]: "set_entry i j v M i j = v" "set_entry i j v (set_entry i j u M) = set_entry i j v M" "set_entry i j (M i j) M = M"
  by (simp_all add: set_entry_def)

text \<open>The two loops, for any number of rows, columns and rounds.\<close>

definition entries :: "matrices \<Rightarrow> nat \<Rightarrow> nat \<Rightarrow> 32 word \<times> 32 word \<times> 32 word" where
  "entries m a b = (mat_A m a b, mat_B m a b, mat_C m a b)"

lemma init_row: "entries (fold (init_step i) [0..<n] m) a b = (if a = i \<and> b < n then (of_nat a, of_nat b, 0) else entries m a b)"
proof (induction n)
  case (Suc n)
  have "entries (init_step i n m') a b = (if a = i \<and> b = n then (of_nat a, of_nat b, 0) else entries m' a b)" for m'
    by (simp add: init_step_def entries_def set_entry_at)
  then show ?case using Suc by (auto simp add: less_Suc_eq)
qed simp

lemma init_rows: "entries (fold (\<lambda>i. fold (init_step i) [0..<d]) [0..<n] m) a b = (if a < n \<and> b < d then (of_nat a, of_nat b, 0) else entries m a b)"
  by (induction n) (auto simp add: init_row less_Suc_eq)

lemma mult_entry:
  "fold (mult_step i j) [0..<n] m = m\<lparr>mat_C := set_entry i j (mat_C m i j + (\<Sum>k<n. mat_A m i k * mat_B m k j)) (mat_C m)\<rparr>"
  by (induction n) (simp_all add: mult_step_def add.assoc)

lemma mult_row:
  "let m' = fold (\<lambda>j. fold (mult_step i j) [0..<d]) [0..<n] m in
   mat_A m' = mat_A m \<and> mat_B m' = mat_B m \<and> (\<forall>a b. mat_C m' a b = mat_C m a b + (if a = i \<and> b < n then \<Sum>k<d. mat_A m a k * mat_B m k b else 0))"
  by (induction n) (auto simp add: Let_def mult_entry set_entry_at less_Suc_eq)

lemma mult_rows:
  "let m' = fold (\<lambda>i. fold (\<lambda>j. fold (mult_step i j) [0..<d]) [0..<c]) [0..<n] m in
   mat_A m' = mat_A m \<and> mat_B m' = mat_B m \<and> (\<forall>a b. mat_C m' a b = mat_C m a b + (if a < n \<and> b < c then \<Sum>k<d. mat_A m a k * mat_B m k b else 0))"
proof (induction n)
  case (Suc n)
  then show ?case using mult_row [of n d c "fold (\<lambda>i. fold (\<lambda>j. fold (mult_step i j) [0..<d]) [0..<c]) [0..<n] m"]
    by (auto simp add: Let_def less_Suc_eq)
qed (simp add: Let_def)

text \<open>The loops compute the matrix product, and the program exits with its last entry.\<close>

lemma matmult_loop_product:
  assumes "i < Dim" "j < Dim"
  shows "mat_C (matmult_loop m) i j = mat_C m i j + (\<Sum>k<Dim. mat_A m i k * mat_B m k j)"
  using mult_rows [of Dim Dim Dim m] assms by (simp add: matmult_loop_def Let_def)

lemma matmult_exit_code: "matmult_main m = 7220"
proof -
  have i: "mat_A (matmult_init m) a b = of_nat a" "mat_B (matmult_init m) a b = of_nat b" "mat_C (matmult_init m) a b = 0" if "a < Dim" "b < Dim" for a b
    using init_rows [of Dim Dim m a b] that by (simp_all add: matmult_init_def entries_def)
  have "matmult_main m = (\<Sum>k<Dim. mat_A (matmult_init m) 19 k * mat_B (matmult_init m) k 19)"
    using matmult_loop_product [of 19 19 "matmult_init m"] i(3) [of 19 19] by (simp add: matmult_main_def Dim_def)
  also have "\<dots> = (\<Sum>k<Dim. 19 * 19)" using i by (intro sum.cong) (simp_all add: Dim_def)
  finally show ?thesis by (simp add: Dim_def)
qed

end
