(* ===== verification/User_Files.thy ===== *)
theory User_Files
  imports Processes
begin
text \<open>
  \<^verbatim>\<open>code/test/fileutils.h\<close>, the routines with which the user programs read and write numbers in files, and their variants in
  \<^verbatim>\<open>code/test/main.c\<close> and \<^verbatim>\<open>student.c\<close>.

  The system calls \<open>Read\<close> and \<open>Write\<close> are \<open>PCB_Read\<close> and \<open>PCB_Write\<close> of the calling process with a buffer of one character.  An \<open>int\<close> is a \<open>32 word\<close>; \<open>char\<close> is signed.
  A loop that reads until a character comes takes the number of rounds as fuel: with an invalid file it may not end.
\<close>

section \<open>Model\<close>

definition HEAD_OF_LINE :: int where "HEAD_OF_LINE = 1"
definition END_OF_FILE :: int where "END_OF_FILE = - 2"
definition END_OF_LINE :: int where "END_OF_LINE = - 3"

text \<open>\<^verbatim>\<open>Read(&c, 1, id)\<close>\<close>

definition Read_char :: "int \<Rightarrow> 8 word \<Rightarrow> PCB \<Rightarrow> 'h host_scheme \<Rightarrow> (int \<times> 8 word \<times> PCB \<times> 'h host_scheme) res" where
  "Read_char fid c p h = bindE (PCB_Read [c] 1 fid p h) (\<lambda>(err, buf, p, h). bindE (readA buf 0) (\<lambda>c. Inr (err, c, p, h)))"

fun ReadInt_skip :: "nat \<Rightarrow> int \<Rightarrow> 8 word \<Rightarrow> PCB \<Rightarrow> 'h host_scheme \<Rightarrow> (int \<times> 8 word \<times> PCB \<times> 'h host_scheme) res" where
  "ReadInt_skip 0 fid c p h = Inl Diverges"
| "ReadInt_skip (Suc fuel) fid c p h =
     bindE (Read_char fid c p h) (\<lambda>(err, c, p, h).
     if err = END_OF_FILE then Inr (err, c, p, h)
     else if c = ch_nl \<or> c = ch_space then ReadInt_skip fuel fid c p h
     else Inr (err, c, p, h))"

fun ReadInt_loop ::
    "nat \<Rightarrow> int \<Rightarrow> 32 word \<Rightarrow> bool \<Rightarrow> 8 word \<Rightarrow> PCB \<Rightarrow> 'h host_scheme \<Rightarrow> (int \<times> 8 word \<times> 32 word \<times> bool \<times> PCB \<times> 'h host_scheme) res" where
  "ReadInt_loop 0 fid num isInteger c p h = Inl Diverges"
| "ReadInt_loop (Suc fuel) fid num isInteger c p h =
     (let num = num * 10 + (scast c - 48) in
      bindE (Read_char fid c p h) (\<lambda>(err, c, p, h).
      let isInteger = (if \<not> isDigit c \<and> c \<noteq> ch_nl \<and> c \<noteq> ch_space then False else isInteger) in
      if c \<noteq> ch_nl \<and> c \<noteq> ch_space \<and> err \<noteq> END_OF_FILE then ReadInt_loop fuel fid num isInteger c p h
      else Inr (err, c, num, isInteger, p, h)))"

text \<open>\<open>junk\<close> is the value of the variable \<open>c\<close> before the first \<open>Read\<close>.\<close>

definition ReadInt :: "nat \<Rightarrow> 8 word \<Rightarrow> int \<Rightarrow> PCB \<Rightarrow> 'h host_scheme \<Rightarrow> (int \<times> 32 word \<times> PCB \<times> 'h host_scheme) res" where
  "ReadInt fuel junk fid p h =
     bindE (ReadInt_skip fuel fid junk p h) (\<lambda>(err, c, p, h).
     if err = END_OF_FILE then Inr (END_OF_FILE, 0, p, h)
     else
       let isSign = (c = ch_minus) in
       bindE (if isSign then Read_char fid c p h else Inr (err, c, p, h)) (\<lambda>(err, c, p, h).
       if isSign \<and> err = END_OF_FILE then Inr (END_OF_FILE, 0, p, h)
       else if isSign \<and> c = ch_nl then Inr (END_OF_LINE, 0, p, h)
       else if isSign \<and> c = ch_space then Inr (HEAD_OF_LINE, 0, p, h)
       else
         let isInteger = (if \<not> isDigit c \<and> c \<noteq> ch_nl \<and> c \<noteq> ch_space then False else True) in
         bindE (ReadInt_loop fuel fid 0 isInteger c p h) (\<lambda>(err, c, num, isInteger, p, h).
         let num = (if \<not> isInteger then 0 else num);
             num = (if isSign then - num else num) in
         Inr (if err = END_OF_FILE then END_OF_LINE else if c = ch_nl then END_OF_LINE else HEAD_OF_LINE, num, p, h))))"

definition WriteChar :: "int \<Rightarrow> 8 word \<Rightarrow> PCB \<Rightarrow> 'h host_scheme \<Rightarrow> (PCB \<times> 'h host_scheme) res" where
  "WriteChar fid c p h = bindE (PCB_Write [c] 1 fid p h) (\<lambda>(_, p, h). Inr (p, h))"

function countdigit_loop :: "int \<Rightarrow> int \<Rightarrow> int" where
  "countdigit_loop n cnt = (if n \<ge> 10 then countdigit_loop (n div 10) (cnt + 1) else cnt)"
  by auto

termination countdigit_loop
  by (relation "measure (\<lambda>(n, cnt). nat n)") auto

definition countdigit :: "int \<Rightarrow> int" where
  "countdigit n = countdigit_loop n 1"

function firstDigit :: "int \<Rightarrow> int" where
  "firstDigit n = (if n \<ge> 10 then firstDigit (n div 10) else n)"
  by auto

termination firstDigit
  by (relation "measure nat") auto

declare countdigit_loop.simps [simp del] firstDigit.simps [simp del]

definition pow10 :: "int \<Rightarrow> 32 word" where
  "pow10 a = fold (\<lambda>_ r. r * 10) [0..a - 1] 1"

text \<open>The loop of \<open>WriteNum\<close>, over \<open>num\<close> and the file.\<close>

definition WriteNum_round :: "int \<Rightarrow> int \<Rightarrow> int \<Rightarrow> 32 word \<times> PCB \<times> 'h host_scheme \<Rightarrow> (32 word \<times> PCB \<times> 'h host_scheme) res" where
  "WriteNum_round fid cnt i = (\<lambda>(num, p, h).
     let digit = firstDigit (sint num);
         num = num - word_of_int digit * pow10 (cnt - i - 1) in
     bindE (WriteChar fid (word_of_int (digit + 48)) p h) (\<lambda>(p, h). Inr (num, p, h)))"

definition WriteNum :: "int \<Rightarrow> 32 word \<Rightarrow> PCB \<Rightarrow> 'h host_scheme \<Rightarrow> (PCB \<times> 'h host_scheme) res" where
  "WriteNum fid num p h =
     (let cnt = countdigit (sint num) in
      bindE (foldE (WriteNum_round fid cnt) [0..cnt - 1] (num, p, h)) (\<lambda>(_, p, h). Inr (p, h)))"

subsection \<open>The variants of main.c and student.c\<close>

text \<open>\<open>ReadInt\<close> of \<^verbatim>\<open>main.c\<close> goes on with the number it is given.\<close>

fun main_ReadInt_skip :: "nat \<Rightarrow> int \<Rightarrow> 8 word \<Rightarrow> PCB \<Rightarrow> 'h host_scheme \<Rightarrow> (8 word \<times> PCB \<times> 'h host_scheme) res" where
  "main_ReadInt_skip 0 fid c p h = Inl Diverges"
| "main_ReadInt_skip (Suc fuel) fid c p h =
     bindE (Read_char fid c p h) (\<lambda>(_, c, p, h). if \<not> isDigit c then main_ReadInt_skip fuel fid c p h else Inr (c, p, h))"

fun main_ReadInt_loop :: "nat \<Rightarrow> int \<Rightarrow> 32 word \<Rightarrow> 8 word \<Rightarrow> PCB \<Rightarrow> 'h host_scheme \<Rightarrow> (32 word \<times> PCB \<times> 'h host_scheme) res" where
  "main_ReadInt_loop 0 fid num c p h = Inl Diverges"
| "main_ReadInt_loop (Suc fuel) fid num c p h =
     (let num = num * 10 + (scast c - 48) in
      bindE (Read_char fid c p h) (\<lambda>(err, c, p, h).
      if err \<noteq> 1 then Inr (num, p, h)
      else if isDigit c then main_ReadInt_loop fuel fid num c p h
      else Inr (num, p, h)))"

definition main_ReadInt :: "nat \<Rightarrow> 8 word \<Rightarrow> int \<Rightarrow> 32 word \<Rightarrow> PCB \<Rightarrow> 'h host_scheme \<Rightarrow> (32 word \<times> PCB \<times> 'h host_scheme) res" where
  "main_ReadInt fuel junk fid num p h =
     bindE (main_ReadInt_skip fuel fid junk p h) (\<lambda>(c, p, h). main_ReadInt_loop fuel fid num c p h)"

text \<open>\<open>WriteInt\<close> of \<^verbatim>\<open>student.c\<close>: the array \<open>digits\<close> has three elements, and is written from its start.\<close>

function student_digits :: "int \<Rightarrow> 8 word list \<Rightarrow> 8 word list res" where
  "student_digits n digits =
     (if n > 0
      then if length digits < 3 then student_digits (n div 10) (digits @ [word_of_int (n mod 10 + 48)]) else Inl Out_of_bounds
      else Inr digits)"
  by auto

termination student_digits
  by (relation "measure (\<lambda>(n, digits). nat n)") auto

declare student_digits.simps [simp del]

definition student_WriteInt :: "int \<Rightarrow> 32 word \<Rightarrow> PCB \<Rightarrow> 'h host_scheme \<Rightarrow> (PCB \<times> 'h host_scheme) res" where
  "student_WriteInt fid v p h =
     bindE (student_digits (sint v) []) (\<lambda>digits. foldE (\<lambda>c (p, h). WriteChar fid c p h) digits (p, h))"

section \<open>Characters of an open file\<close>

text \<open>A process has file \<open>fid\<close> open on inode \<open>i\<close>, at position \<open>pos\<close>.\<close>

definition file_at :: "PCB \<Rightarrow> 'h host_scheme \<Rightarrow> int \<Rightarrow> nat \<Rightarrow> nat \<Rightarrow> bool" where
  "file_at p h fid i pos \<longleftrightarrow> 2 \<le> fid \<and> fid \<le> 9 \<and> length (fileTable p) = 10
     \<and> (case fileTable p ! nat fid of None \<Rightarrow> False | Some f \<Rightarrow> opens f h i pos)"

definition file_writable :: "PCB \<Rightarrow> int \<Rightarrow> bool" where
  "file_writable p fid \<longleftrightarrow> (case fileTable p ! nat fid of None \<Rightarrow> False | Some f \<Rightarrow> of_type f \<noteq> 1)"

lemma Read_char_at:
  assumes "file_at p h fid i pos" "pos < length (inode h i)"
  shows "\<exists>p' h'. Read_char fid c p h = Inr (1, inode h i ! pos, p', h') \<and> file_at p' h' fid i (Suc pos) \<and> inode h' = inode h \<and> file_writable p' fid = file_writable p fid"
proof -
  obtain f where f: "length (fileTable p) = 10" "fileTable p ! nat fid = Some f" "2 \<le> fid" "fid \<le> 9" "opens f h i pos"
    using assms(1) by (auto simp add: file_at_def split: option.splits)
  have t: "take 1 (drop pos (inode h i)) = [inode h i ! pos]" using assms(2) by (simp add: take_Suc_conv_app_nth)
  note r = PCB_Read_file [OF f t, of "[c]"]
  let ?f = "f\<lparr>currentOffset := int (pos + 1)\<rparr>"
  have "file_at (set_file fid ?f p) (h\<lparr>fdtab := (fdtab h)(of_file f \<mapsto> (i, int (pos + 1)))\<rparr>) fid i (Suc pos)"
    using f by (simp add: file_at_def set_file_def opens_def)
  moreover have "file_writable (set_file fid ?f p) fid = file_writable p fid" using f by (simp add: file_writable_def set_file_def)
  ultimately show ?thesis using r by (simp add: Read_char_def)
qed

lemma Read_char_end:
  assumes "file_at p h fid i (length (inode h i))"
  shows "\<exists>p' h'. Read_char fid c p h = Inr (END_OF_FILE, c, p', h') \<and> file_at p' h' fid i (length (inode h i)) \<and> inode h' = inode h"
proof -
  obtain f where f: "length (fileTable p) = 10" "fileTable p ! nat fid = Some f" "2 \<le> fid" "fid \<le> 9" "opens f h i (length (inode h i))"
    using assms(1) by (auto simp add: file_at_def split: option.splits)
  let ?h = "h\<lparr>fdtab := (fdtab h)(of_file f \<mapsto> (i, int (length (inode h i))))\<rparr>"
  let ?f = "f\<lparr>currentOffset := int (length (inode h i))\<rparr>"
  have "OpenFile_Read 1 f h = Inr (0, [], ?f, ?h)" using OpenFile_Read_opens [OF f(5), of 1] by simp
  then have "PCB_Read [c] 1 fid p h = Inr (- 2, [c], set_file fid ?f p, ?h)"
    using f GetCurrentPos_opens [OF f(5)] by (simp add: PCB_Read_def CONSOLE_INPUT_def CONSOLE_OUTPUT_def)
  moreover have "file_at (set_file fid ?f p) ?h fid i (length (inode h i))" using f by (simp add: file_at_def set_file_def opens_def)
  ultimately show ?thesis by (simp add: Read_char_def END_OF_FILE_def)
qed

lemma WriteChar_at:
  assumes "file_at p h fid i pos" "file_writable p fid"
  shows "\<exists>p' h'. WriteChar fid c p h = Inr (p', h') \<and> file_at p' h' fid i (Suc pos) \<and> file_writable p' fid \<and> inode h' = (inode h)(i := splice pos [c] (inode h i))"
proof -
  obtain f where f: "length (fileTable p) = 10" "fileTable p ! nat fid = Some f" "2 \<le> fid" "fid \<le> 9" "of_type f \<noteq> 1" "opens f h i pos"
    using assms by (auto simp add: file_at_def file_writable_def split: option.splits)
  note w = PCB_Write_file [OF f, of "[c]" 1 "[c]"]
  let ?f = "f\<lparr>currentOffset := int (pos + 1)\<rparr>"
  have "file_at (set_file fid ?f p) (h\<lparr>inode := (inode h)(i := splice pos [c] (inode h i)), fdtab := (fdtab h)(of_file f \<mapsto> (i, int (pos + 1)))\<rparr>) fid i (Suc pos)"
    using f by (simp add: file_at_def set_file_def opens_def)
  moreover have "file_writable (set_file fid ?f p) fid" using f by (simp add: file_writable_def set_file_def)
  ultimately show ?thesis using w by (simp add: WriteChar_def)
qed

lemma splice_splice:
  assumes "pos \<le> length c"
  shows "splice (pos + length as) bs (splice pos as c) = splice pos (as @ bs) c"
  using assms by (simp add: splice_def add.commute add.left_commute)

text \<open>Writing several characters, one at a time.\<close>

definition WriteChars :: "int \<Rightarrow> 8 word list \<Rightarrow> PCB \<Rightarrow> 'h host_scheme \<Rightarrow> (PCB \<times> 'h host_scheme) res" where
  "WriteChars fid cs p h = foldE (\<lambda>c (p, h). WriteChar fid c p h) cs (p, h)"

lemma WriteChars_at:
  assumes "file_at p h fid i pos" "file_writable p fid" "pos \<le> length (inode h i)"
  shows "\<exists>p' h'. WriteChars fid cs p h = Inr (p', h') \<and> file_at p' h' fid i (pos + length cs) \<and> file_writable p' fid
    \<and> inode h' = (inode h)(i := splice pos cs (inode h i))"
  using assms
proof (induction cs arbitrary: p h pos)
  case Nil
  then show ?case by (simp add: WriteChars_def splice_def fun_upd_idem)
next
  case (Cons c cs)
  obtain p1 h1 where 1: "WriteChar fid c p h = Inr (p1, h1)" "file_at p1 h1 fid i (Suc pos)" "file_writable p1 fid" "inode h1 = (inode h)(i := splice pos [c] (inode h i))"
    using WriteChar_at [OF Cons.prems(1,2)] by blast
  have "Suc pos \<le> length (inode h1 i)" using 1(4) by (simp add: length_splice)
  from Cons.IH [OF 1(2,3) this] obtain p2 h2 where 2: "WriteChars fid cs p1 h1 = Inr (p2, h2)" "file_at p2 h2 fid i (Suc pos + length cs)" "file_writable p2 fid"
    "inode h2 = (inode h1)(i := splice (Suc pos) cs (inode h1 i))" by blast
  have "splice (Suc pos) cs (splice pos [c] (inode h i)) = splice pos (c # cs) (inode h i)" using splice_splice [OF Cons.prems(3), of "[c]" cs] by simp
  then show ?case using 1(1) 2 1(4) by (simp add: WriteChars_def del: fun_upd_apply) simp
qed

section \<open>Writing numbers\<close>

text \<open>Numbers as lists of digits, the first one first.\<close>

definition val :: "nat list \<Rightarrow> nat" where
  "val ds = foldl (\<lambda>a d. a * 10 + d) 0 ds"

lemma val_foldl: "foldl (\<lambda>a d. a * 10 + d) a ds = a * 10 ^ length ds + (foldl (\<lambda>a d. a * 10 + d) 0 ds :: nat)"
proof (induction ds arbitrary: a)
  case (Cons d ds)
  show ?case using Cons [of "a * 10 + d"] Cons [of d] by (simp add: algebra_simps)
qed simp

lemma val_simps: "val [] = 0" "val (d # ds) = d * 10 ^ length ds + val ds"
  using val_foldl [of d ds] by (simp_all add: val_def)

lemma val_less: "list_all (\<lambda>d. d < 10) ds \<Longrightarrow> val ds < 10 ^ length ds"
proof (induction ds)
  case (Cons d ds)
  then have 1: "val ds < 10 ^ length ds" and "d \<le> 9" by simp_all
  from this(2) have "d * 10 ^ length ds \<le> 9 * 10 ^ length ds" by (rule mult_right_mono) simp
  then show ?case using 1 by (simp only: val_simps list.size power_Suc add_0 plus_1_eq_Suc One_nat_def add_Suc_right add_0_right)
qed (simp add: val_simps)

lemma firstDigit_small: "n < 10 \<Longrightarrow> firstDigit n = n"
  by (simp add: firstDigit.simps)

lemma drop_digit:
  fixes d r k :: nat
  assumes "0 < d" "r < 10 ^ Suc k"
  shows "10 \<le> int (d * 10 ^ Suc k + r)" "int (d * 10 ^ Suc k + r) div 10 = int (d * 10 ^ k + r div 10)" "r div 10 < 10 ^ k"
proof -
  have "1 * 10 \<le> (d * 10 ^ k) * 10" using assms(1) by (intro mult_right_mono) simp_all
  moreover have "d * 10 ^ Suc k = (d * 10 ^ k) * 10" by simp
  ultimately have "10 \<le> d * 10 ^ Suc k + r" by linarith
  then show "10 \<le> int (d * 10 ^ Suc k + r)" by linarith
  have "(d * 10 ^ Suc k + r) div 10 = d * 10 ^ k + r div 10" by simp
  then show "int (d * 10 ^ Suc k + r) div 10 = int (d * 10 ^ k + r div 10)" by (metis of_nat_numeral zdiv_int)
  show "r div 10 < 10 ^ k" using assms(2) by (simp add: less_mult_imp_div_less mult.commute)
qed

lemma firstDigit_top: "0 < d \<Longrightarrow> d < 10 \<Longrightarrow> r < 10 ^ k \<Longrightarrow> firstDigit (int (d * 10 ^ k + r)) = int d"
proof (induction k arbitrary: r)
  case (Suc k)
  note d = drop_digit [OF Suc.prems(1,3)]
  show ?case using Suc.IH [OF Suc.prems(1,2) d(3)] d(1,2) by (subst firstDigit.simps) simp
qed (simp add: firstDigit_small)

lemma countdigit_loop_val: "0 < d \<Longrightarrow> d < 10 \<Longrightarrow> r < 10 ^ k \<Longrightarrow> countdigit_loop (int (d * 10 ^ k + r)) c = c + int k"
proof (induction k arbitrary: r c)
  case (Suc k)
  note d = drop_digit [OF Suc.prems(1,3)]
  show ?case using Suc.IH [OF Suc.prems(1,2) d(3)] d(1,2) by (subst countdigit_loop.simps) simp
qed (simp add: countdigit_loop.simps)

lemma pow10_eq: "pow10 (int k) = 10 ^ k"
proof (induction k)
  case (Suc k)
  have "[0..int (Suc k) - 1] = [0..int k - 1] @ [int k]" using upto_rec2 [of 0 "int k"] by simp
  then show ?case using Suc by (simp add: pow10_def)
qed (simp add: pow10_def)

text \<open>No zero stands in front of another digit.\<close>

fun plain_digits :: "nat list \<Rightarrow> bool" where
  "plain_digits [] = True"
| "plain_digits (d # ds) \<longleftrightarrow> (if d = 0 then list_all (\<lambda>d. d = 0) ds else plain_digits ds)"

text \<open>The characters that \<open>WriteNum\<close> writes in \<open>m\<close> rounds.\<close>

fun num_chars :: "nat \<Rightarrow> 32 word \<Rightarrow> 8 word list" where
  "num_chars 0 num = []"
| "num_chars (Suc m) num = word_of_int (firstDigit (sint num) + 48) # num_chars m (num - word_of_int (firstDigit (sint num)) * 10 ^ m)"

lemma length_num_chars [simp]: "length (num_chars m num) = m"
  by (induction m arbitrary: num) simp_all

lemma WriteNum_rounds:
  fixes h :: "'h host_scheme"
  shows "i + int m = cnt \<Longrightarrow>
    bindE (foldE (WriteNum_round fid cnt) [i..cnt - 1] (num, p, h)) (\<lambda>(_, p, h). Inr (p, h)) = WriteChars fid (num_chars m num) p h"
proof (induction m arbitrary: i num p h)
  case 0
  then show ?case by (simp add: WriteChars_def)
next
  case (Suc m)
  have up: "[i..cnt - 1] = i # [i + 1..cnt - 1]" and e: "cnt - i - 1 = int m" using Suc.prems by (simp_all add: upto_rec1)
  let ?d = "firstDigit (sint num)"
  have "WriteNum_round fid cnt i (num, p, h) = bindE (WriteChar fid (word_of_int (?d + 48)) p h) (\<lambda>(p, h). Inr (num - word_of_int ?d * 10 ^ m, p, h))"
    by (simp add: WriteNum_round_def e pow10_eq Let_def)
  moreover have "bindE (foldE (WriteNum_round fid cnt) [i + 1..cnt - 1] (num - word_of_int ?d * 10 ^ m, p, h)) (\<lambda>(_, p, h). Inr (p, h))
      = WriteChars fid (num_chars m (num - word_of_int ?d * 10 ^ m)) p h" for p and h :: "'h host_scheme"
    using Suc.prems by (intro Suc.IH) simp
  ultimately show ?case unfolding up by (simp add: WriteChars_def bindE_def split: sum.splits prod.splits)
qed

lemma firstDigit_range: "0 < n \<Longrightarrow> 0 < firstDigit n \<and> firstDigit n < 10"
proof (induction n rule: firstDigit.induct)
  case (1 n)
  then show ?case by (cases "n \<ge> 10") (simp_all add: firstDigit.simps [of n])
qed

lemma val_zero: "val ds = 0 \<longleftrightarrow> list_all (\<lambda>d. d = 0) ds"
  by (induction ds) (simp_all add: val_simps)

lemma sint_of_nat: "n < 2147483648 \<Longrightarrow> sint (of_nat n :: 32 word) = int n"
  by (simp add: signed_of_nat signed_take_bit_int_eq_self)

lemma num_chars_plain:
  assumes "list_all (\<lambda>d. d < 10) ds" "val ds < 2147483648"
  shows "num_chars (length ds) (of_nat (val ds)) = map dig ds \<longleftrightarrow> plain_digits ds"
  using assms
proof (induction ds)
  case (Cons d ds)
  have v: "val ds < 2147483648" "val ds < 10 ^ length ds" using Cons.prems val_less [of ds] by (simp_all add: val_simps)
  have digI: "word_of_int (int e + 48) = dig d \<longleftrightarrow> e = d" if "e < 10" for e
  proof
    have w: "word_of_int (int e + 48) = dig e" by (simp add: dig_def add.commute)
    assume "word_of_int (int e + 48) = dig d"
    then have "sint (dig e) = sint (dig d)" using w by simp
    then show "e = d" using dig_facts [of e] dig_facts [of d] that Cons.prems(1) by simp
  qed (simp add: dig_def add.commute)
  note s = sint_of_nat [OF Cons.prems(2)]
  show ?case
  proof (cases "d = 0 \<and> 0 < val ds")
    case True
    then have "0 < firstDigit (int (val (d # ds))) \<and> firstDigit (int (val (d # ds))) < 10" by (intro firstDigit_range) (simp add: val_simps)
    then obtain e where e: "firstDigit (int (val (d # ds))) = int e" "0 < e" "e < 10" by (metis nonneg_int_cases of_nat_0_less_iff of_nat_less_iff of_nat_numeral order_less_imp_le)
    have "word_of_int (firstDigit (sint (of_nat (val (d # ds)) :: 32 word)) + 48) \<noteq> dig d" unfolding s e(1) using digI [OF e(3)] e(2) True by simp
    then have "num_chars (length (d # ds)) (of_nat (val (d # ds))) \<noteq> map dig (d # ds)" by simp
    then show ?thesis using True val_zero [of ds] by simp
  next
    case False
    have f: "firstDigit (int (val (d # ds))) = int d"
    proof (cases "d = 0")
      case True
      then show ?thesis using False by (simp add: val_simps firstDigit_small)
    next
      case d: False
      then show ?thesis using firstDigit_top [of d "val ds" "length ds"] Cons.prems(1) v(2) by (simp add: val_simps)
    qed
    have "(of_nat (val (d # ds)) :: 32 word) - word_of_int (int d) * 10 ^ length ds = of_nat (val ds)" by (simp add: val_simps)
    then have "num_chars (length (d # ds)) (of_nat (val (d # ds))) = dig d # num_chars (length ds) (of_nat (val ds))" using s f by (simp add: dig_def add.commute)
    moreover have "plain_digits (d # ds) = plain_digits ds"
    proof (cases "d = 0")
      case True
      then have "list_all (\<lambda>d. d = 0) ds" using False val_zero [of ds] by simp
      moreover from this have "plain_digits ds" by (cases ds) simp_all
      ultimately show ?thesis using True by simp
    qed simp
    ultimately show ?thesis using Cons.IH Cons.prems(1) v(1) by simp
  qed
qed simp

text \<open>The decimal representation of a number.\<close>

definition digits :: "nat \<Rightarrow> nat list" where
  "digits n = (if n = 0 then [0] else rev (lsd n))"

lemma lsd_pos: "0 < n \<Longrightarrow> lsd n \<noteq> [] \<and> last (lsd n) \<noteq> 0"
proof (induction n rule: lsd.induct)
  case (1 n)
  then show ?case by (cases "n div 10 = 0") (simp_all add: lsd.simps [of n] lsd.simps [of 0])
qed

lemma val_lsd: "val (rev (lsd n)) = n"
proof (induction n rule: lsd.induct)
  case (1 n)
  then show ?case by (cases "n = 0") (simp_all add: lsd.simps [of n] lsd.simps [of 0] val_def)
qed

lemma digits_facts:
  shows "list_all (\<lambda>d. d < 10) (digits n)" "val (digits n) = n" "digits n \<noteq> []" "countdigit (int n) = int (length (digits n))"
proof -
  show 1: "list_all (\<lambda>d. d < 10) (digits n)" using lsd_digits by (auto simp add: digits_def list_all_iff)
  show 2: "val (digits n) = n" by (simp add: digits_def val_lsd val_simps)
  show 3: "digits n \<noteq> []" using lsd_pos by (simp add: digits_def)
  have 4: "hd (digits n) \<noteq> 0 \<or> n = 0" using lsd_pos [of n] by (auto simp add: digits_def hd_rev)
  obtain d ds where d: "digits n = d # ds" using 3 by (cases "digits n") auto
  show "countdigit (int n) = int (length (digits n))"
  proof (cases "n = 0")
    case False
    then have "countdigit_loop (int (d * 10 ^ length ds + val ds)) 1 = 1 + int (length ds)" using 1 4 d val_less [of ds] by (intro countdigit_loop_val) simp_all
    moreover have "d * 10 ^ length ds + val ds = n" using 2 by (simp add: d val_simps)
    ultimately show ?thesis unfolding countdigit_def d by simp
  qed (simp add: digits_def countdigit_def countdigit_loop.simps)
qed

lemma WriteNum_chars:
  assumes "n < 2147483648"
  shows "WriteNum fid (of_nat n) p h = WriteChars fid (num_chars (length (digits n)) (of_nat n)) p h"
  using WriteNum_rounds [of 0 "length (digits n)" "int (length (digits n))" fid "of_nat n" p h] digits_facts(4) [of n]
  by (simp add: WriteNum_def sint_of_nat [OF assms])

section \<open>Reading numbers\<close>

text \<open>\<open>rest_at p h fid i cs\<close>: the characters that file \<open>fid\<close> still has to read are \<open>cs\<close>.\<close>

definition rest_at :: "PCB \<Rightarrow> 'h host_scheme \<Rightarrow> int \<Rightarrow> nat \<Rightarrow> 8 word list \<Rightarrow> bool" where
  "rest_at p h fid i cs \<longleftrightarrow> (\<exists>pos. file_at p h fid i pos \<and> pos \<le> length (inode h i) \<and> drop pos (inode h i) = cs)"

lemma Read_char_rest:
  assumes "rest_at p h fid i cs"
  shows "\<exists>p' h'. Read_char fid c p h = Inr (if cs = [] then END_OF_FILE else 1, if cs = [] then c else hd cs, p', h') \<and> rest_at p' h' fid i (tl cs) \<and> inode h' = inode h"
proof -
  obtain pos where pos: "file_at p h fid i pos" "pos \<le> length (inode h i)" "drop pos (inode h i) = cs" using assms by (auto simp add: rest_at_def)
  show ?thesis
  proof (cases "cs = []")
    case True
    then have "pos = length (inode h i)" using pos(2,3) by simp
    then show ?thesis using Read_char_end [of p h fid i c] pos(1) True by (auto simp add: rest_at_def)
  next
    case False
    then have l: "pos < length (inode h i)" using pos(2,3) by (cases "pos = length (inode h i)") simp_all
    then have "cs = inode h i ! pos # drop (Suc pos) (inode h i)" using pos(3) Cons_nth_drop_Suc by metis
    then show ?thesis using Read_char_at [OF pos(1) l, of c] l by (fastforce simp add: rest_at_def)
  qed
qed

lemma ReadInt_skip_rest:
  "rest_at p h fid i cs \<Longrightarrow> length cs < fuel \<Longrightarrow>
   \<exists>p' h' c'. ReadInt_skip fuel fid c p h = Inr (if dropWhile blank cs = [] then END_OF_FILE else 1, c', p', h')
     \<and> (dropWhile blank cs \<noteq> [] \<longrightarrow> c' = hd (dropWhile blank cs)) \<and> rest_at p' h' fid i (tl (dropWhile blank cs)) \<and> inode h' = inode h"
proof (induction cs arbitrary: p h c fuel)
  case Nil
  then obtain n where n: "fuel = Suc n" by (cases fuel) auto
  show ?case using Read_char_rest [OF Nil(1), of c] by (auto simp add: n)
next
  case (Cons a cs)
  then obtain n where n: "fuel = Suc n" "length cs < n" by (cases fuel) auto
  obtain p1 h1 where r: "Read_char fid c p h = Inr (1, a, p1, h1)" "rest_at p1 h1 fid i cs" "inode h1 = inode h"
    using Read_char_rest [OF Cons.prems(1), of c] by auto
  have e: "(1::int) \<noteq> END_OF_FILE" by (simp add: END_OF_FILE_def)
  show ?case
  proof (cases "blank a")
    case True
    then have "ReadInt_skip fuel fid c p h = ReadInt_skip n fid a p1 h1" using r(1) e by (auto simp add: n(1) blank_def)
    then show ?thesis using Cons.IH [OF r(2) n(2), of a] True r(3) by simp
  next
    case False
    then have "ReadInt_skip fuel fid c p h = Inr (1, a, p1, h1)" using r(1) e by (auto simp add: n(1) blank_def)
    then show ?thesis using False r by auto
  qed
qed

lemma ReadInt_loop_rest:
  "rest_at p h fid i cs \<Longrightarrow> length cs < fuel \<Longrightarrow> isInteger \<longrightarrow> isDigit c \<Longrightarrow>
   \<exists>p' h' c'. ReadInt_loop fuel fid num isInteger c p h =
       Inr (if dropWhile (\<lambda>c. \<not> blank c) cs = [] then END_OF_FILE else 1, c', foldl (\<lambda>a c. a * 10 + scast c - 48) num (c # takeWhile (\<lambda>c. \<not> blank c) cs),
            isInteger \<and> list_all isDigit (takeWhile (\<lambda>c. \<not> blank c) cs), p', h')
     \<and> (dropWhile (\<lambda>c. \<not> blank c) cs \<noteq> [] \<longrightarrow> c' = hd (dropWhile (\<lambda>c. \<not> blank c) cs)) \<and> rest_at p' h' fid i (tl (dropWhile (\<lambda>c. \<not> blank c) cs)) \<and> inode h' = inode h"
proof (induction cs arbitrary: p h c fuel num isInteger)
  case Nil
  then obtain n where n: "fuel = Suc n" by (cases fuel) auto
  obtain p1 h1 where r: "Read_char fid c p h = Inr (END_OF_FILE, c, p1, h1)" "rest_at p1 h1 fid i []" "inode h1 = inode h"
    using Read_char_rest [OF Nil(1), of c] by auto
  have "(if \<not> isDigit c \<and> c \<noteq> ch_nl \<and> c \<noteq> ch_space then False else isInteger) = isInteger" using Nil(3) by auto
  then show ?case using r by (simp add: n Let_def add_diff_eq)
next
  case (Cons a cs)
  then obtain n where n: "fuel = Suc n" "length cs < n" by (cases fuel) auto
  obtain p1 h1 where r: "Read_char fid c p h = Inr (1, a, p1, h1)" "rest_at p1 h1 fid i cs" "inode h1 = inode h"
    using Read_char_rest [OF Cons.prems(1), of c] by auto
  have e: "(1::int) \<noteq> END_OF_FILE" by (simp add: END_OF_FILE_def)
  show ?case
  proof (cases "blank a")
    case True
    then have "ReadInt_loop fuel fid num isInteger c p h = Inr (1, a, num * 10 + scast c - 48, isInteger, p1, h1)"
      using r(1) by (auto simp add: n(1) blank_def Let_def add_diff_eq)
    then show ?thesis using True r by auto
  next
    case False
    let ?b = "isInteger \<and> isDigit a"
    have "ReadInt_loop fuel fid num isInteger c p h = ReadInt_loop n fid (num * 10 + scast c - 48) ?b a p1 h1"
      using False r(1) e by (auto simp add: n(1) blank_def Let_def add_diff_eq)
    then show ?thesis using Cons.IH [OF r(2) n(2), of ?b a "num * 10 + scast c - 48"] False r(3) by (simp add: conj_assoc)
  qed
qed

text \<open>
  What \<open>ReadInt\<close> has to return for the characters that follow in the file: the status, the number, and the rest of the characters.
\<close>

definition ReadInt_spec :: "8 word list \<Rightarrow> int \<times> int \<times> 8 word list" where
  "ReadInt_spec cs =
     (let s = dropWhile blank cs;
          tok = takeWhile (\<lambda>c. \<not> blank c) s;
          rest = dropWhile (\<lambda>c. \<not> blank c) s in
      if s = [] \<or> s = [ch_minus] then (END_OF_FILE, 0, [])
      else (if rest = [] \<or> hd rest = ch_nl then END_OF_LINE else HEAD_OF_LINE, token_value tok, tl rest))"

lemma ReadInt_rest:
  assumes cs: "rest_at p h fid i cs" and fuel: "length cs < fuel"
  shows "\<exists>p' h'. ReadInt fuel junk fid p h = Inr (fst (ReadInt_spec cs), word_of_int (fst (snd (ReadInt_spec cs))), p', h')
    \<and> rest_at p' h' fid i (snd (snd (ReadInt_spec cs))) \<and> inode h' = inode h"
proof -
  define s where "s = dropWhile blank cs"
  have ls: "length s < fuel" using fuel length_dropWhile_le [of blank cs] by (simp add: s_def)
  obtain p1 h1 c where sk: "ReadInt_skip fuel fid junk p h = Inr (if s = [] then END_OF_FILE else 1, c, p1, h1)" "s \<noteq> [] \<longrightarrow> c = hd s"
      "rest_at p1 h1 fid i (tl s)" "inode h1 = inode h"
    using ReadInt_skip_rest [OF cs fuel, of junk] unfolding s_def by blast
  have e: "(1::int) \<noteq> END_OF_FILE" by (simp add: END_OF_FILE_def)
  have W: "foldl (\<lambda>a c. a * 10 + scast c - 48) 0 ds = (word_of_int (decimal ds) :: 32 word)" for ds :: "8 word list"
    using word_decimal [of 0 ds] by (simp add: decimal_def)
  have int0: "(if \<not> isDigit x \<and> x \<noteq> ch_nl \<and> x \<noteq> ch_space then False else True) = isDigit x" if "\<not> blank x" for x using that by (auto simp add: blank_def)
  show ?thesis
  proof (cases s)
    case Nil
    then show ?thesis using sk by (simp add: ReadInt_def ReadInt_spec_def flip: s_def)
  next
    case (Cons a as)
    have nb: "\<not> blank a" using Cons hd_dropWhile [of blank cs] unfolding s_def by (metis list.distinct(1) list.sel(1))
    have la: "length as < fuel" using ls Cons by simp
    show ?thesis
    proof (cases "a = ch_minus")
      case False
      define r where "r = dropWhile (\<lambda>c. \<not> blank c) as"
      obtain p2 h2 c' where lp: "ReadInt_loop fuel fid 0 (isDigit a) a p1 h1 =
          Inr (if r = [] then END_OF_FILE else 1, c', word_of_int (decimal (a # takeWhile (\<lambda>c. \<not> blank c) as)), isDigit a \<and> list_all isDigit (takeWhile (\<lambda>c. \<not> blank c) as), p2, h2)"
          "r \<noteq> [] \<longrightarrow> c' = hd r" "rest_at p2 h2 fid i (tl r)" "inode h2 = inode h1"
        using ReadInt_loop_rest [of p1 h1 fid i as fuel "isDigit a" a 0] sk(3) Cons la unfolding r_def W by auto
      let ?tok = "takeWhile (\<lambda>c. \<not> blank c) as"
      have spec: "ReadInt_spec cs = (if r = [] \<or> hd r = ch_nl then END_OF_LINE else HEAD_OF_LINE,
          if isDigit a \<and> list_all isDigit ?tok then decimal (a # ?tok) else 0, tl r)"
        using Cons False nb by (simp add: ReadInt_spec_def token_value_def Let_def flip: s_def r_def)
      have "ReadInt fuel junk fid p h = Inr (if r = [] then END_OF_LINE else if c' = ch_nl then END_OF_LINE else HEAD_OF_LINE,
          if isDigit a \<and> list_all isDigit ?tok then word_of_int (decimal (a # ?tok)) else 0, p2, h2)"
        using sk(1,2) Cons False lp(1) e int0 [OF nb] by (simp add: ReadInt_def Let_def)
      then show ?thesis unfolding spec using lp(2-4) sk(4) by auto
    next
      case True
      obtain p2 h2 where rd: "Read_char fid a p1 h1 = Inr (if as = [] then END_OF_FILE else 1, if as = [] then a else hd as, p2, h2)" "rest_at p2 h2 fid i (tl as)" "inode h2 = inode h1"
        using Read_char_rest [of p1 h1 fid i as a] sk(3) Cons by auto
      show ?thesis
      proof (cases as)
        case Nil
        then show ?thesis using sk Cons True rd by (simp add: ReadInt_def ReadInt_spec_def flip: s_def)
      next
        case (Cons d ds)
        show ?thesis
        proof (cases "blank d")
          case bl: True
          have spec: "ReadInt_spec cs = (if d = ch_nl then END_OF_LINE else HEAD_OF_LINE, 0, ds)"
            using \<open>s = a # as\<close> Cons True nb bl by (simp add: ReadInt_spec_def token_value_def Let_def flip: s_def)
          have "ReadInt fuel junk fid p h = Inr (if d = ch_nl then END_OF_LINE else HEAD_OF_LINE, 0, p2, h2)"
            using sk(1,2) \<open>s = a # as\<close> Cons True rd(1) e bl by (auto simp add: ReadInt_def Let_def blank_def)
          then show ?thesis unfolding spec using rd(2,3) sk(4) Cons by simp
        next
          case nbl: False
          define r where "r = dropWhile (\<lambda>c. \<not> blank c) ds"
          obtain p3 h3 c' where lp: "ReadInt_loop fuel fid 0 (isDigit d) d p2 h2 =
              Inr (if r = [] then END_OF_FILE else 1, c', word_of_int (decimal (d # takeWhile (\<lambda>c. \<not> blank c) ds)), isDigit d \<and> list_all isDigit (takeWhile (\<lambda>c. \<not> blank c) ds), p3, h3)"
              "r \<noteq> [] \<longrightarrow> c' = hd r" "rest_at p3 h3 fid i (tl r)" "inode h3 = inode h2"
            using ReadInt_loop_rest [of p2 h2 fid i ds fuel "isDigit d" d 0] rd(2) Cons la unfolding r_def W by auto
          let ?tok = "takeWhile (\<lambda>c. \<not> blank c) ds"
          have spec: "ReadInt_spec cs = (if r = [] \<or> hd r = ch_nl then END_OF_LINE else HEAD_OF_LINE,
              if isDigit d \<and> list_all isDigit ?tok then - decimal (d # ?tok) else 0, tl r)"
            using \<open>s = a # as\<close> Cons True nb nbl by (simp add: ReadInt_spec_def token_value_def Let_def flip: s_def r_def)
          have "ReadInt fuel junk fid p h = Inr (if r = [] then END_OF_LINE else if c' = ch_nl then END_OF_LINE else HEAD_OF_LINE,
              if isDigit d \<and> list_all isDigit ?tok then - word_of_int (decimal (d # ?tok)) else 0, p3, h3)"
            using sk(1,2) \<open>s = a # as\<close> Cons True rd(1) lp(1) e int0 [OF nbl] nbl by (simp add: ReadInt_def Let_def blank_def)
          then show ?thesis unfolding spec using lp(2-4) sk(4) rd(3) by auto
        qed
      qed
    qed
  qed
qed

section \<open>The properties of the routines\<close>

text \<open>
  C25.  \<open>ReadInt\<close> always returns, and reads the next word of the file.  For an open file and enough rounds for the characters it still has: the call returns the status, the number and
  the position that the specification gives.  Blanks and newlines are skipped; a word with a character that is not a digit is 0; the status tells whether the word ends
  its line; at the end of the file the status is \<open>END_OF_FILE\<close>.  The file is not changed.
\<close>

theorem ReadInt_correct:
  assumes "rest_at p h fid i cs" "length cs < fuel"
  shows "\<exists>p' h'. ReadInt fuel junk fid p h = Inr (fst (ReadInt_spec cs), word_of_int (fst (snd (ReadInt_spec cs))), p', h')
    \<and> rest_at p' h' fid i (snd (snd (ReadInt_spec cs))) \<and> inode h' = inode h"
  using assms by (rule ReadInt_rest)

text \<open>A process that has opened, as file 2, a file with the given characters.\<close>

definition demo_process :: "8 word list \<Rightarrow> PCB \<times> host" where
  "demo_process cs =
     (\<lparr>joinsem = 0, exitsem = 0, multex = 1, pcb_thread = True, pcb_filename = [0], exitcode = 0, numwait = 0, parentID = - 1,
        fileTable = [None, None, Some (OpenFile_new 0 5 0 [97]), None, None, None, None, None, None, None], pcb_index = 2\<rparr>,
      demo_host\<lparr>fdtab := [5 \<mapsto> (0, 0)], inode := (\<lambda>_. [])(0 := cs)\<rparr>)"

lemma demo_process_at:
  "file_at (fst (demo_process cs)) (snd (demo_process cs)) 2 0 0" "file_writable (fst (demo_process cs)) 2" "inode (snd (demo_process cs)) 0 = cs"
  "rest_at (fst (demo_process cs)) (snd (demo_process cs)) 2 0 cs"
  by (simp_all add: demo_process_def file_at_def file_writable_def OpenFile_new_def opens_def rest_at_def)

text \<open>The line \<open>12 -7\<close>: the first number does not end the line.\<close>

theorem ReadInt_correct_witness:
  "\<exists>p' h'. ReadInt 20 0 2 (fst (demo_process [32, 49, 50, 32, 45, 55, 10])) (snd (demo_process [32, 49, 50, 32, 45, 55, 10])) = Inr (HEAD_OF_LINE, 12, p', h')
    \<and> rest_at p' h' 2 0 [45, 55, 10]"
proof -
  have spec: "ReadInt_spec [32, 49, 50, 32, 45, 55, 10] = (HEAD_OF_LINE, 12, [45, 55, 10])" by code_simp
  from ReadInt_correct [OF demo_process_at(4), of "[32, 49, 50, 32, 45, 55, 10]" 20 0] show ?thesis by (simp add: spec) blast
qed

text \<open>
  C26.  \<open>WriteNum\<close> is right exactly for the numbers without a gap.  On a file that is open for writing the call returns, and the position moves by the number of digits; what it has
  written is the decimal representation of the number if and only if no zero stands in front of another digit than zero.  For all other numbers, such as 105, other characters are written.
\<close>

theorem WriteNum_correct:
  assumes "file_at p h fid i pos" "file_writable p fid" "pos \<le> length (inode h i)" "n < 2147483648"
  shows "\<exists>p' h'. WriteNum fid (of_nat n) p h = Inr (p', h') \<and> file_at p' h' fid i (pos + length (digits n))
    \<and> (inode h' i = splice pos (map dig (digits n)) (inode h i) \<longleftrightarrow> plain_digits (digits n)) \<and> (\<forall>j. j \<noteq> i \<longrightarrow> inode h' j = inode h j)"
proof -
  let ?cs = "num_chars (length (digits n)) (of_nat n)"
  obtain p' h' where w: "WriteNum fid (of_nat n) p h = Inr (p', h')" "file_at p' h' fid i (pos + length ?cs)" "inode h' = (inode h)(i := splice pos ?cs (inode h i))"
    using WriteChars_at [OF assms(1-3), of ?cs] unfolding WriteNum_chars [OF assms(4), of fid p h] by blast
  have "splice pos ?cs (inode h i) = splice pos (map dig (digits n)) (inode h i) \<longleftrightarrow> ?cs = map dig (digits n)"
    by (auto simp add: splice_def)
  moreover have "?cs = map dig (digits n) \<longleftrightarrow> plain_digits (digits n)" using num_chars_plain [OF digits_facts(1), of n] digits_facts(2) [of n] assms(4) by simp
  ultimately show ?thesis using w by simp
qed

theorem WriteNum_correct_witness:
  "\<exists>p' h'. WriteNum 2 105 (fst (demo_process [])) (snd (demo_process [])) = Inr (p', h') \<and> inode h' 0 \<noteq> [49, 48, 53]"
proof -
  have "\<not> plain_digits (digits 105)" by code_simp
  moreover have "map dig (digits 105) = [49, 48, 53]" by code_simp
  ultimately show ?thesis using WriteNum_correct [OF demo_process_at(1,2), of "[]" 105] demo_process_at(3) [of "[]"] by (auto simp add: splice_def)
qed

text \<open>
  What \<open>WriteNum\<close> writes, \<open>ReadInt\<close> reads.  When a number without a gap is written to a file, then a blank or a newline, and the process seeks back to where it began, \<open>ReadInt\<close> returns
  the number, and whether it ends its line; the rest of the file is read as before.
\<close>

lemma WriteNum_ReadInt:
  assumes "file_at p h fid i pos" "file_writable p fid" "pos \<le> length (inode h i)" "n < 2147483648" "plain_digits (digits n)" "blank t"
    and "length (inode h i) + 12 < fuel"
  shows "\<exists>p1 h1 p2 h2 p3 h3 p4 h4. WriteNum fid (of_nat n) p h = Inr (p1, h1) \<and> WriteChar fid t p1 h1 = Inr (p2, h2) \<and> PCB_Seek (int pos) fid p2 h2 = Inr (int pos, p3, h3)
    \<and> ReadInt fuel junk fid p3 h3 = Inr (if t = ch_nl then END_OF_LINE else HEAD_OF_LINE, of_nat n, p4, h4)
    \<and> rest_at p4 h4 fid i (drop (pos + length (digits n) + 1) (inode h i))"
proof -
  let ?ds = "map dig (digits n)"
  let ?c = "splice pos (?ds @ [t]) (inode h i)"
  have cs: "num_chars (length (digits n)) (of_nat n) = ?ds" using num_chars_plain [OF digits_facts(1), of n] digits_facts(2) [of n] assms(4,5) by simp
  obtain p1 h1 where 1: "WriteNum fid (of_nat n) p h = Inr (p1, h1)" "file_at p1 h1 fid i (pos + length ?ds)" "file_writable p1 fid" "inode h1 = (inode h)(i := splice pos ?ds (inode h i))"
    using WriteChars_at [OF assms(1-3), of ?ds] WriteNum_chars [OF assms(4), of fid p h] cs by auto
  obtain p2 h2 where 2: "WriteChar fid t p1 h1 = Inr (p2, h2)" "file_at p2 h2 fid i (Suc (pos + length ?ds))" "inode h2 i = ?c"
    using WriteChar_at [OF 1(2,3), of t] 1(4) splice_splice [OF assms(3), of ?ds "[t]"] by auto
  have len: "pos \<le> length (inode h2 i)" using assms(3) by (simp add: 2(3) length_splice)
  obtain f where f: "length (fileTable p2) = 10" "fileTable p2 ! nat fid = Some f" "2 \<le> fid" "fid \<le> 9" "opens f h2 i (Suc (pos + length ?ds))"
    using 2(2) by (auto simp add: file_at_def split: option.splits)
  let ?p3 = "set_file fid (f\<lparr>currentOffset := int pos\<rparr>) p2" and ?h3 = "h2\<lparr>fdtab := (fdtab h2)(of_file f \<mapsto> (i, int pos))\<rparr>"
  note seek = PCB_Seek_file [OF f len]
  have "drop pos ?c = ?ds @ t # drop (pos + length (digits n) + 1) (inode h i)" using assms(3) by (simp add: splice_def)
  then have rest: "rest_at ?p3 ?h3 fid i (?ds @ t # drop (pos + length (digits n) + 1) (inode h i))"
    using f len 2(3) unfolding rest_at_def by (intro exI [of _ pos]) (simp add: file_at_def set_file_def opens_def)
  have dg: "list_all (\<lambda>c. isDigit c \<and> \<not> blank c \<and> c \<noteq> ch_minus) ?ds" using digits_facts(1) [of n] dig_facts by (auto simp add: list_all_iff)
  obtain a as where a: "?ds = a # as" using digits_facts(3) [of n] by (cases ?ds) auto
  have tw: "takeWhile (\<lambda>c. \<not> blank c) (?ds @ t # xs) = ?ds" "dropWhile (\<lambda>c. \<not> blank c) (?ds @ t # xs) = t # xs" for xs
    using dg assms(6) by (auto simp add: list_all_iff takeWhile_append dropWhile_append)
  have "decimal ?ds = int n"
  proof (cases "n = 0")
    case False
    then show ?thesis using decimal_lsd [of n] by (simp add: digits_def)
  qed (simp add: digits_def decimal_def dig_facts [of 0])
  moreover have "list_all isDigit ?ds" using dg by (auto simp add: list_all_iff)
  ultimately have tok: "token_value ?ds = int n" using dg a by (simp add: token_value_def Let_def)
  have spec: "ReadInt_spec (?ds @ t # xs) = (if t = ch_nl then END_OF_LINE else HEAD_OF_LINE, int n, xs)" for xs
  proof -
    have "\<not> blank a" "a \<noteq> ch_minus" using dg a by simp_all
    then have "dropWhile blank (?ds @ t # xs) = ?ds @ t # xs" "?ds @ t # xs \<noteq> [ch_minus]" by (simp_all add: a)
    then show ?thesis unfolding ReadInt_spec_def Let_def using tw tok a by simp
  qed
  have "length (lsd n) \<le> 10" using assms(4) by (intro lsd_length) simp
  then have "length (digits n) \<le> 10" by (simp add: digits_def)
  then have "length (?ds @ t # drop (pos + length (digits n) + 1) (inode h i)) < fuel" using assms(3,7) by simp
  from ReadInt_rest [OF rest this, of junk] show ?thesis unfolding spec using 1(1) 2(1) seek by auto
qed

lemma WriteNum_ReadInt_witness:
  "\<exists>p1 h1 p2 h2 p3 h3 p4 h4. WriteNum 2 2500 (fst (demo_process [])) (snd (demo_process [])) = Inr (p1, h1) \<and> WriteChar 2 10 p1 h1 = Inr (p2, h2)
    \<and> PCB_Seek 0 2 p2 h2 = Inr (0, p3, h3) \<and> ReadInt 20 0 2 p3 h3 = Inr (END_OF_LINE, 2500, p4, h4)"
proof -
  have "plain_digits (digits 2500)" by code_simp
  from WriteNum_ReadInt [OF demo_process_at(1,2) _ _ this, of "[]" 10 20 0] show ?thesis
    by (simp add: blank_def demo_process_at(3)) blast
qed

section \<open>The requests of the students\<close>

text \<open>
  A student (\<^verbatim>\<open>student_1.c\<close>) creates \<^verbatim>\<open>request.txt\<close> with \<open>0 \<langle>litres\<rangle>\<close> to ask for a tap, and later writes \<open>1 \<langle>tap\<rangle>\<close> over it, without creating it again, to give the tap
  back.  When the file still holds the digits of a longer number, the process of the taps (\<^verbatim>\<open>pipe.c\<close>) reads another tap.
\<close>

lemma return_request_misread:
  "ReadInt_spec (snd (snd (ReadInt_spec (splice 0 (num_chars 1 1 @ [32] @ num_chars 1 0) (num_chars 1 0 @ [32] @ num_chars 2 25))))) = (END_OF_LINE, 5, [])"
  "ReadInt_spec (snd (snd (ReadInt_spec (splice 0 (num_chars 1 1 @ [32] @ num_chars 1 0) (num_chars 1 0 @ [32] @ num_chars 1 7))))) = (END_OF_LINE, 0, [])"
  by code_simp+

text \<open>\<open>ReadInt\<close> of \<^verbatim>\<open>main.c\<close> does not set the number to 0 first, and \<open>WriteInt\<close> of \<^verbatim>\<open>student.c\<close> writes the last digit first.\<close>

lemma main_ReadInt_digits:
  "rest_at p h fid i (map dig ds @ [ch_nl]) \<Longrightarrow> list_all (\<lambda>d. d < 10) ds \<Longrightarrow> length ds < fuel \<Longrightarrow> d < 10 \<Longrightarrow>
   \<exists>p' h'. main_ReadInt_loop fuel fid num (dig d) p h = Inr (num * 10 ^ Suc (length ds) + of_nat (val (d # ds)), p', h')"
proof (induction ds arbitrary: p h fuel num d)
  case Nil
  then obtain k where k: "fuel = Suc k" by (cases fuel) auto
  obtain p1 h1 where "Read_char fid (dig d) p h = Inr (1, ch_nl, p1, h1)" using Read_char_rest [OF Nil(1), of "dig d"] by auto
  moreover have "\<not> isDigit (10 :: 8 word)" by (simp add: isDigit_def)
  moreover have "(scast (dig d) :: 32 word) - 48 = of_nat d" using dig_facts [OF Nil(4)] by (simp add: scast_eq)
  ultimately show ?case by (simp add: k val_simps Let_def)
next
  case (Cons e ds)
  then obtain k where k: "fuel = Suc k" "length ds < k" by (cases fuel) auto
  obtain p1 h1 where r: "Read_char fid (dig d) p h = Inr (1, dig e, p1, h1)" "rest_at p1 h1 fid i (map dig ds @ [ch_nl])" using Read_char_rest [OF Cons.prems(1), of "dig d"] by auto
  have w: "(scast (dig d) :: 32 word) - 48 = of_nat d" using dig_facts [OF Cons.prems(4)] by (simp add: scast_eq)
  have "isDigit (dig e)" using dig_facts [of e] Cons.prems(2) by simp
  then have "main_ReadInt_loop fuel fid num (dig d) p h = main_ReadInt_loop k fid (num * 10 + of_nat d) (dig e) p1 h1" using r(1) w by (simp add: k Let_def)
  then show ?case using Cons.IH [OF r(2) _ k(2), of e "num * 10 + of_nat d"] Cons.prems(2) by (simp add: val_simps algebra_simps)
qed

lemma student_WriteInt_reversed:
  assumes "0 < n" "n < 1000"
  shows "student_WriteInt fid (of_nat n) p h = WriteChars fid (map dig (lsd n)) p h"
proof -
  have loop: "student_digits (int n) acc = Inr (acc @ map dig (lsd n))" if "length acc + length (lsd n) \<le> 3" for n acc
    using that
  proof (induction n arbitrary: acc rule: lsd.induct)
    case (1 n)
    show ?case
    proof (cases "n = 0")
      case False
      have "int n mod 10 = int (n mod 10)" "int n div 10 = int (n div 10)" by (simp_all add: zmod_int zdiv_int)
      then have "student_digits (int n) acc = student_digits (int (n div 10)) (acc @ [dig (n mod 10)])"
        using False 1(2) by (subst student_digits.simps) (simp add: lsd.simps [of n] dig_def add.commute)
      then show ?thesis using 1(1) [OF False, of "acc @ [dig (n mod 10)]"] 1(2) False by (simp add: lsd.simps [of n])
    qed (simp add: student_digits.simps lsd.simps)
  qed
  have "length (lsd n) \<le> 3" using assms(2) by (intro lsd_length) simp
  then show ?thesis using loop [of "[]" n] assms by (simp add: student_WriteInt_def WriteChars_def sint_of_nat)
qed

end
