(* ===== verification/Water_Taps.thy ===== *)
theory Water_Taps
  imports User_Files
begin
text \<open>
  The programs of the water machine: \<^verbatim>\<open>code/test/main_1.c\<close> starts a process for every student (\<^verbatim>\<open>student_1.c\<close>), each of which asks the process of the two taps (\<^verbatim>\<open>pipe.c\<close>) for a tap,
  uses it and gives it back.  They communicate by files and by six semaphores.

  A step of a process is one call that other processes can see, with the local computation around it; the places between the steps have the numbers of the lines of the programs.  A
  semaphore is its value, as in \<^verbatim>\<open>SemTable\<close>; a file is its bytes.  A file that is opened with mode 0 is written from its start and keeps what is behind; \<open>CreateFile\<close> empties it and does not
  fail for these names.  Numbers are written and read as \<^verbatim>\<open>User_Files\<close> has it.  \<open>Exec\<close> may fail, when the process table is full.
\<close>

section \<open>Model\<close>

subsection \<open>Numbers in files\<close>

text \<open>The bytes that \<open>WriteNum\<close> writes, and the number that \<open>ReadInt\<close> takes from the bytes of a file, with the rest of them.\<close>

definition num_bytes :: "32 word \<Rightarrow> 8 word list" where
  "num_bytes num = num_chars (nat (countdigit (sint num))) num"

lemma WriteNum_num_bytes: "WriteNum fid num p h = WriteChars fid (num_bytes num) p h"
proof -
  have c: "countdigit_loop n c \<ge> c" for n c
  proof (induction n c rule: countdigit_loop.induct)
    case (1 n c)
    then show ?case by (cases "10 \<le> n") (simp_all add: countdigit_loop.simps [of n])
  qed
  have "countdigit (sint num) \<ge> 1" using c [of 1] by (simp add: countdigit_def)
  then show ?thesis
    using WriteNum_rounds [of 0 "nat (countdigit (sint num))" "countdigit (sint num)" fid num p h] by (simp add: WriteNum_def num_bytes_def)
qed

definition next_int :: "8 word list \<Rightarrow> 32 word \<times> 8 word list" where
  "next_int cs = (word_of_int (fst (snd (ReadInt_spec cs))), snd (snd (ReadInt_spec cs)))"

definition two_ints :: "8 word list \<Rightarrow> 32 word \<times> 32 word" where
  "two_ints cs = (let (x, cs) = next_int cs; (y, cs) = next_int cs in (x, y))"

definition pair_bytes :: "32 word \<Rightarrow> 32 word \<Rightarrow> 8 word list" where
  "pair_bytes x y = num_bytes x @ [ch_space] @ num_bytes y"

subsection \<open>State\<close>

datatype water_sem = Open_water | Faucet | File_mutex | Request_water | Pipe_mutex | Output_mutex

datatype student_pc = S16 | S25 | S28 | S30 | S31 | S35 | S42 | S43 | S45 | S48 | S51 | S52 | S59 | S65 | S68 | S75 | S76 | S77 | S79

record student =
  st_pc :: student_pc
  studentId :: "32 word"
  st_value :: "32 word"
  faucetId :: "32 word"

datatype pipe_pc = P25 | P27 | P38 | P42 | P46 | P50 | P52

datatype main_pc = M90 | M93 | M94 | M100 | M107 | M115 | M121 | M130 | M136 | M_false

record water =
  sem :: "water_sem \<Rightarrow> nat"
  student_txt :: "8 word list"
  request_txt :: "8 word list"
  faucet_txt :: "8 word list"
  result_txt :: "8 word list"
  output_txt :: "8 word list"
  students :: "student list"
  p_pc :: pipe_pc
  p_value :: "32 word"
  p_i :: nat
  faucet :: "bool list"
  m_pc :: main_pc
  m_i :: nat
  answer :: "32 word list"

definition water_Wait :: "water_sem \<Rightarrow> water \<Rightarrow> water option" where
  "water_Wait x s = (if sem s x = 0 then None else Some (s\<lparr>sem := (sem s)(x := sem s x - 1)\<rparr>))"

definition water_Signal :: "water_sem \<Rightarrow> water \<Rightarrow> water" where
  "water_Signal x s = s\<lparr>sem := (sem s)(x := sem s x + 1)\<rparr>"

subsection \<open>A student\<close>

definition set_st :: "nat \<Rightarrow> student \<Rightarrow> water \<Rightarrow> water" where
  "set_st k t s = s\<lparr>students := (students s)[k := t]\<rparr>"

definition student_step :: "nat \<Rightarrow> water \<Rightarrow> water option" where
  "student_step k s = (let t = students s ! k in
     case st_pc t of
       S16 \<Rightarrow> (let (x, y) = two_ints (student_txt s) in Some (set_st k (t\<lparr>studentId := x, st_value := y, st_pc := S25\<rparr>) s))
     | S25 \<Rightarrow> Some (set_st k (t\<lparr>st_pc := S28\<rparr>) (water_Signal File_mutex s))
     | S28 \<Rightarrow> map_option (set_st k (t\<lparr>st_pc := S30\<rparr>)) (water_Wait Faucet s)
     | S30 \<Rightarrow> map_option (set_st k (t\<lparr>st_pc := S31\<rparr>)) (water_Wait Pipe_mutex s)
     | S31 \<Rightarrow> Some (set_st k (t\<lparr>st_pc := S35\<rparr>) (s\<lparr>request_txt := []\<rparr>))
     | S35 \<Rightarrow> Some (set_st k (t\<lparr>st_pc := S42\<rparr>) (s\<lparr>request_txt := splice 0 (pair_bytes 0 (st_value t)) (request_txt s)\<rparr>))
     | S42 \<Rightarrow> Some (set_st k (t\<lparr>st_pc := S43\<rparr>) (water_Signal Request_water s))
     | S43 \<Rightarrow> map_option (set_st k (t\<lparr>st_pc := S45\<rparr>)) (water_Wait Open_water s)
     | S45 \<Rightarrow> Some (set_st k (t\<lparr>faucetId := fst (next_int (faucet_txt s)), st_pc := S48\<rparr>) s)
     | S48 \<Rightarrow> Some (set_st k (t\<lparr>st_pc := S51\<rparr>) (water_Signal Pipe_mutex s))
     | S51 \<Rightarrow> map_option (set_st k (t\<lparr>st_pc := S52\<rparr>)) (water_Wait Output_mutex s)
     | S52 \<Rightarrow> Some (set_st k (t\<lparr>st_pc := S59\<rparr>) (s\<lparr>result_txt := result_txt s @ pair_bytes (studentId t) (faucetId t) @ [ch_nl]\<rparr>))
     | S59 \<Rightarrow> Some (set_st k (t\<lparr>st_pc := S65\<rparr>) (water_Signal Output_mutex s))
     | S65 \<Rightarrow> map_option (set_st k (t\<lparr>st_pc := S68\<rparr>)) (water_Wait Pipe_mutex s)
     | S68 \<Rightarrow> Some (set_st k (t\<lparr>st_pc := S75\<rparr>) (s\<lparr>request_txt := splice 0 (pair_bytes 1 (faucetId t - 1)) (request_txt s)\<rparr>))
     | S75 \<Rightarrow> Some (set_st k (t\<lparr>st_pc := S76\<rparr>) (water_Signal Request_water s))
     | S76 \<Rightarrow> map_option (set_st k (t\<lparr>st_pc := S77\<rparr>)) (water_Wait Open_water s)
     | S77 \<Rightarrow> Some (set_st k (t\<lparr>st_pc := S79\<rparr>) (water_Signal Pipe_mutex s))
     | S79 \<Rightarrow> None)"

subsection \<open>The process of the taps\<close>

text \<open>The loop over the taps: the first one that is free.\<close>

function free_tap :: "bool list \<Rightarrow> nat \<Rightarrow> nat option" where
  "free_tap fs i = (if i < 2 then if fs ! i then free_tap fs (i + 1) else Some i else None)"
  by pat_completeness auto
termination by (relation "measure (\<lambda>(_, i). 2 - i)") auto

declare free_tap.simps [simp del]

definition pipe_step :: "water \<Rightarrow> water res option" where
  "pipe_step s = (case p_pc s of
       P25 \<Rightarrow> map_option (\<lambda>s. Inr (s\<lparr>p_pc := P27\<rparr>)) (water_Wait Request_water s)
     | P27 \<Rightarrow> (let (requestType, value) = two_ints (request_txt s) in
         if requestType = 0 then
           (case free_tap (faucet s) 0 of
              None \<Rightarrow> Some (Inr (s\<lparr>p_pc := P25\<rparr>))
            | Some i \<Rightarrow> Some (Inr (s\<lparr>faucet := (faucet s)[i := True], p_i := i, p_pc := P38\<rparr>)))
         else Some (Inr (s\<lparr>p_value := value, p_pc := P50\<rparr>)))
     | P38 \<Rightarrow> Some (Inr (s\<lparr>faucet_txt := [], p_pc := P42\<rparr>))
     | P42 \<Rightarrow> Some (Inr (s\<lparr>faucet_txt := splice 0 (num_bytes (of_nat (p_i s + 1))) (faucet_txt s), p_pc := P46\<rparr>))
     | P46 \<Rightarrow> Some (Inr ((water_Signal Open_water s)\<lparr>p_pc := P25\<rparr>))
     | P50 \<Rightarrow> Some (bindE (writeA (faucet s) (sint (p_value s)) False) (\<lambda>fs. Inr ((water_Signal Faucet (s\<lparr>faucet := fs\<rparr>))\<lparr>p_pc := P52\<rparr>)))
     | P52 \<Rightarrow> Some (Inr ((water_Signal Open_water s)\<lparr>p_pc := P25\<rparr>)))"

subsection \<open>The main process\<close>

text \<open>\<open>solve(a, n, fOutput)\<close>.  The loop that reads the results, and the one that writes the answers.\<close>

definition read_result :: "8 word list \<times> 32 word list \<Rightarrow> (8 word list \<times> 32 word list) res" where
  "read_result = (\<lambda>(cs, ans).
     let (x, cs) = next_int cs; (y, cs) = next_int cs in bindE (writeA ans (sint x) y) (\<lambda>ans. Inr (cs, ans)))"

definition write_answer :: "32 word list \<Rightarrow> int \<Rightarrow> 8 word list \<Rightarrow> 8 word list res" where
  "write_answer ans i cs = bindE (readA ans i) (\<lambda>x. Inr (cs @ num_bytes x @ [ch_space]))"

definition main_step :: "32 word list \<Rightarrow> water \<Rightarrow> water res option" where
  "main_step a s = (case m_pc s of
       M90 \<Rightarrow> Some (Inr (s\<lparr>result_txt := [], m_i := 0, m_pc := M93\<rparr>))
     | M93 \<Rightarrow> (if m_i s < length a then map_option (\<lambda>s. Inr (s\<lparr>m_pc := M94\<rparr>)) (water_Wait File_mutex s)
               else Some (Inr (s\<lparr>m_i := 0, m_pc := M115\<rparr>)))
     | M94 \<Rightarrow> Some (Inr (s\<lparr>student_txt := [], m_pc := M100\<rparr>))
     | M100 \<Rightarrow> Some (Inr (s\<lparr>student_txt := splice 0 (pair_bytes (of_nat (m_i s)) (a ! m_i s)) (student_txt s), m_pc := M107\<rparr>))
     | M107 \<Rightarrow> None
     | M115 \<Rightarrow> (if m_i s < length a then if st_pc (students s ! m_i s) = S79 then Some (Inr (s\<lparr>m_i := m_i s + 1\<rparr>)) else None
                else Some (Inr (s\<lparr>m_pc := M121\<rparr>)))
     | M121 \<Rightarrow> Some (bindE (foldE (\<lambda>_. read_result) [0..int (length a) - 1] (result_txt s, answer s)) (\<lambda>(_, ans). Inr (s\<lparr>answer := ans, m_pc := M130\<rparr>)))
     | M130 \<Rightarrow> Some (bindE (foldE (write_answer (answer s)) [0..int (length a) - 1] []) (\<lambda>cs. Inr (s\<lparr>output_txt := output_txt s @ cs @ [ch_nl], m_pc := M136\<rparr>)))
     | M136 \<Rightarrow> None
     | M_false \<Rightarrow> None)"

text \<open>\<open>Exec\<close>, when it starts a new student, whose variables are not initialised, and when it fails.\<close>

definition main_exec :: "student \<Rightarrow> water \<Rightarrow> water" where
  "main_exec t s = s\<lparr>students := students s @ [t\<lparr>st_pc := S16\<rparr>], m_i := m_i s + 1, m_pc := M93\<rparr>"

definition main_exec_fails :: "water \<Rightarrow> water" where
  "main_exec_fails s = (water_Signal File_mutex s)\<lparr>m_pc := M_false\<rparr>"

text \<open>The state when \<open>solve\<close> is called: no student runs, all semaphores have the values that \<open>main\<close> gave them, and no tap is in use.\<close>

definition water_start :: "water \<Rightarrow> bool" where
  "water_start s \<longleftrightarrow> sem s = (\<lambda>x. case x of Open_water \<Rightarrow> 0 | Faucet \<Rightarrow> 2 | File_mutex \<Rightarrow> 1 | Request_water \<Rightarrow> 0 | Pipe_mutex \<Rightarrow> 1 | Output_mutex \<Rightarrow> 1)
     \<and> students s = [] \<and> p_pc s = P25 \<and> faucet s = [False, False] \<and> m_pc s = M90 \<and> length (answer s) = 10"

inductive water_step :: "32 word list \<Rightarrow> water \<Rightarrow> water \<Rightarrow> bool" for a where
  student: "k < length (students s) \<Longrightarrow> student_step k s = Some s' \<Longrightarrow> water_step a s s'"
| pipe: "pipe_step s = Some (Inr s') \<Longrightarrow> water_step a s s'"
| main: "main_step a s = Some (Inr s') \<Longrightarrow> water_step a s s'"
| exec: "m_pc s = M107 \<Longrightarrow> water_step a s (main_exec t s)"
| exec_fails: "m_pc s = M107 \<Longrightarrow> water_step a s (main_exec_fails s)"

inductive water_reach :: "32 word list \<Rightarrow> water \<Rightarrow> water \<Rightarrow> bool" for a s0 where
  refl: "water_start s0 \<Longrightarrow> water_reach a s0 s0"
| step: "water_reach a s0 s \<Longrightarrow> water_step a s s' \<Longrightarrow> water_reach a s0 s'"

section \<open>Numbers of one digit\<close>

lemma num_bytes_digit: "d < 10 \<Longrightarrow> num_bytes (of_nat d) = [dig d]"
proof -
  assume d: "d < 10"
  have "sint (of_nat d :: 32 word) = int d" using d by (intro sint_of_nat) simp
  moreover have "countdigit (int d) = 1" "firstDigit (int d) = int d" using d by (simp_all add: countdigit_def countdigit_loop.simps firstDigit.simps)
  ultimately show ?thesis by (simp add: num_bytes_def dig_def add.commute)
qed

lemma pair_bytes_digits: "d < 10 \<Longrightarrow> e < 10 \<Longrightarrow> pair_bytes (of_nat d) (of_nat e) = [dig d, ch_space, dig e]"
  by (simp add: pair_bytes_def num_bytes_digit)

lemma next_int_digit:
  assumes "d < 10"
  shows "next_int [dig d] = (of_nat d, [])" "blank t \<Longrightarrow> next_int (dig d # t # cs) = (of_nat d, cs)"
proof -
  have d: "isDigit (dig d)" "\<not> blank (dig d)" "dig d \<noteq> ch_minus" using dig_facts [OF assms] by auto
  have "decimal [dig d] = int d" using dig_facts [OF assms] by (simp add: decimal_def)
  then have "token_value [dig d] = int d" using d by (simp add: token_value_def)
  then show "next_int [dig d] = (of_nat d, [])" "blank t \<Longrightarrow> next_int (dig d # t # cs) = (of_nat d, cs)"
    using d by (simp_all add: next_int_def ReadInt_spec_def Let_def)
qed

lemma two_ints_digits:
  assumes "d < 10" "e < 10"
  shows "two_ints [dig d, ch_space, dig e] = (of_nat d, of_nat e)"
  using assms next_int_digit by (simp add: two_ints_def blank_def)

section \<open>Counting\<close>

text \<open>How many entries of a list have a property, and how that changes when one entry does.\<close>

definition cnt :: "('a \<Rightarrow> bool) \<Rightarrow> 'a list \<Rightarrow> nat" where
  "cnt P xs = length (filter P xs)"

lemma cnt_simps [simp]: "cnt P [] = 0" "cnt P (x # xs) = (if P x then 1 else 0) + cnt P xs" "cnt P (xs @ ys) = cnt P xs + cnt P ys"
  by (simp_all add: cnt_def)

lemma cnt_upd: "k < length xs \<Longrightarrow> cnt P (xs[k := x]) + (if P (xs ! k) then 1 else 0) = cnt P xs + (if P x then 1 else 0)"
proof (induction xs arbitrary: k)
  case (Cons y ys)
  then show ?case using Cons.IH [of "k - 1"] by (cases k) (simp_all split: if_splits)
qed simp

lemma cnt_upd_same: "k < length xs \<Longrightarrow> P x = P (xs ! k) \<Longrightarrow> cnt P (xs[k := x]) = cnt P xs"
  using cnt_upd [of k xs P x] by simp

lemma cnt_upd_in: "k < length xs \<Longrightarrow> P x \<Longrightarrow> \<not> P (xs ! k) \<Longrightarrow> cnt P (xs[k := x]) = Suc (cnt P xs)"
  using cnt_upd [of k xs P x] by simp

lemma cnt_upd_out: "k < length xs \<Longrightarrow> \<not> P x \<Longrightarrow> P (xs ! k) \<Longrightarrow> Suc (cnt P (xs[k := x])) = cnt P xs"
  using cnt_upd [of k xs P x] by simp

lemma cnt_le: "A \<subseteq> {k. k < length xs \<and> P (xs ! k)} \<Longrightarrow> card A \<le> cnt P xs"
  unfolding cnt_def length_filter_conv_card by (rule card_mono) simp_all

lemma cnt_pos: "k < length xs \<Longrightarrow> P (xs ! k) \<Longrightarrow> 0 < cnt P xs"
  using cnt_le [of "{k}" xs P] by simp

lemma cnt_one: "cnt P xs \<le> 1 \<Longrightarrow> k < length xs \<Longrightarrow> l < length xs \<Longrightarrow> P (xs ! k) \<Longrightarrow> P (xs ! l) \<Longrightarrow> k = l"
  using cnt_le [of "{k, l}" xs P] by (cases "k = l") simp_all

lemma cnt_ex: "0 < cnt P xs \<longleftrightarrow> (\<exists>k < length xs. P (xs ! k))"
  by (auto simp add: cnt_def length_filter_conv_card card_gt_0_iff)

section \<open>Students and their data\<close>

lemma set_st_simps [simp]:
  "students (set_st k t s) = (students s)[k := t]" "sem (set_st k t s) = sem s" "student_txt (set_st k t s) = student_txt s" "request_txt (set_st k t s) = request_txt s"
  "faucet_txt (set_st k t s) = faucet_txt s" "result_txt (set_st k t s) = result_txt s" "output_txt (set_st k t s) = output_txt s" "p_pc (set_st k t s) = p_pc s"
  "p_value (set_st k t s) = p_value s" "p_i (set_st k t s) = p_i s" "faucet (set_st k t s) = faucet s" "m_pc (set_st k t s) = m_pc s" "m_i (set_st k t s) = m_i s"
  "answer (set_st k t s) = answer s"
  by (simp_all add: set_st_def)

lemma Signal_simps [simp]:
  "sem (water_Signal x s) = (sem s)(x := sem s x + 1)" "students (water_Signal x s) = students s" "student_txt (water_Signal x s) = student_txt s"
  "request_txt (water_Signal x s) = request_txt s" "faucet_txt (water_Signal x s) = faucet_txt s" "result_txt (water_Signal x s) = result_txt s" "output_txt (water_Signal x s) = output_txt s"
  "p_pc (water_Signal x s) = p_pc s" "p_value (water_Signal x s) = p_value s" "p_i (water_Signal x s) = p_i s" "faucet (water_Signal x s) = faucet s" "m_pc (water_Signal x s) = m_pc s"
  "m_i (water_Signal x s) = m_i s" "answer (water_Signal x s) = answer s"
  by (simp_all add: water_Signal_def)

lemma Wait_eq_Some: "water_Wait x s = Some s' \<longleftrightarrow> 0 < sem s x \<and> s' = s\<lparr>sem := (sem s)(x := sem s x - 1)\<rparr>"
  by (auto simp add: water_Wait_def)

text \<open>A step of a student changes its own entry only.\<close>

lemma student_step_students: "student_step k s = Some s' \<Longrightarrow> \<exists>t. students s' = (students s)[k := t]"
  by (auto simp add: student_step_def Let_def Wait_eq_Some split: student_pc.splits prod.splits)

text \<open>
  \<open>main\<close> gives each student its number and the amount of water in \<^verbatim>\<open>student.txt\<close>; \<open>file_mutex\<close> keeps the file until the student has read it.
\<close>

definition data_pc :: "student \<Rightarrow> bool" where
  "data_pc t \<longleftrightarrow> st_pc t = S16 \<or> st_pc t = S25"

definition data_inv :: "32 word list \<Rightarrow> water \<Rightarrow> bool" where
  "data_inv a s \<longleftrightarrow>
     cnt data_pc (students s) + sem s File_mutex + (if m_pc s \<in> {M94, M100, M107} then 1 else 0) = 1
   \<and> (\<forall>k < length (students s). if st_pc (students s ! k) = S16 then student_txt s = pair_bytes (of_nat k) (a ! k)
        else studentId (students s ! k) = of_nat k \<and> st_value (students s ! k) = a ! k)
   \<and> length (students s) \<le> length a
   \<and> (m_pc s = M90 \<longrightarrow> students s = [])
   \<and> (m_pc s \<in> {M93, M94, M100, M107} \<longrightarrow> m_i s = length (students s))
   \<and> (m_pc s \<in> {M94, M100, M107} \<longrightarrow> m_i s < length a)
   \<and> (m_pc s = M100 \<longrightarrow> student_txt s = [])
   \<and> (m_pc s = M107 \<longrightarrow> student_txt s = pair_bytes (of_nat (m_i s)) (a ! m_i s))
   \<and> (m_pc s \<in> {M115, M121, M130, M136} \<longrightarrow> length (students s) = length a)
   \<and> (m_pc s = M115 \<longrightarrow> (\<forall>k < m_i s. k < length a \<longrightarrow> st_pc (students s ! k) = S79))
   \<and> (m_pc s \<in> {M121, M130, M136} \<longrightarrow> (\<forall>k < length a. st_pc (students s ! k) = S79))"

definition small_data :: "32 word list \<Rightarrow> bool" where
  "small_data a \<longleftrightarrow> length a \<le> 10 \<and> (\<forall>v \<in> set a. v < 10)"

lemma small_nth: "small_data a \<Longrightarrow> k < length a \<Longrightarrow> \<exists>d < 10. a ! k = of_nat d"
proof -
  assume a: "small_data a" "k < length a"
  then have "a ! k < 10" by (simp add: small_data_def)
  then have "unat (a ! k) < 10" by (simp add: word_less_nat_alt)
  then show ?thesis by (intro exI [of _ "unat (a ! k)"]) simp
qed

lemma two_ints_data: "small_data a \<Longrightarrow> k < length a \<Longrightarrow> two_ints (pair_bytes (of_nat k) (a ! k)) = (of_nat k, a ! k)"
  using small_nth [of a k] pair_bytes_digits two_ints_digits by (auto simp add: small_data_def)

lemma splice_empty: "splice 0 xs [] = xs"
  by (simp add: splice_def)

lemma data_inv_start: "water_start s \<Longrightarrow> data_inv a s"
  by (simp add: water_start_def data_inv_def)

text \<open>What no step of a student touches, and what its steps after the first two keep.\<close>

lemma student_step_keeps:
  assumes "student_step k s = Some s'"
  shows "m_pc s' = m_pc s" "m_i s' = m_i s" "answer s' = answer s" "output_txt s' = output_txt s" "student_txt s' = student_txt s" "p_pc s' = p_pc s" "p_i s' = p_i s" "p_value s' = p_value s"
    "faucet s' = faucet s" "faucet_txt s' = faucet_txt s" "length (students s') = length (students s)" "st_pc (students s ! k) \<noteq> S79"
  using assms by (auto simp add: student_step_def Let_def Wait_eq_Some split: student_pc.splits prod.splits)

lemma student_step_data:
  assumes "student_step k s = Some s'" "k < length (students s)" "\<not> data_pc (students s ! k)"
  shows "sem s' File_mutex = sem s File_mutex" "\<not> data_pc (students s' ! k)" "studentId (students s' ! k) = studentId (students s ! k)" "st_value (students s' ! k) = st_value (students s ! k)"
  using assms by (auto simp add: student_step_def data_pc_def Let_def Wait_eq_Some split: student_pc.splits)

lemma student_step_other: "student_step k s = Some s' \<Longrightarrow> l \<noteq> k \<Longrightarrow> students s' ! l = students s ! l"
  using student_step_students by fastforce

lemma student_step_cnt:
  assumes "student_step k s = Some s'" "k < length (students s)"
  shows "cnt P (students s') + (if P (students s ! k) then 1 else 0) = cnt P (students s) + (if P (students s' ! k) then 1 else 0)"
proof -
  obtain t where "students s' = (students s)[k := t]" using student_step_students [OF assms(1)] by blast
  then show ?thesis using cnt_upd [OF assms(2), of P t] assms(2) by simp
qed

lemma data_inv_done: "data_inv a s \<Longrightarrow> m_pc s \<in> {M121, M130, M136} \<Longrightarrow> length (students s) = length a \<and> (\<forall>k < length a. st_pc (students s ! k) = S79)"
  unfolding data_inv_def by blast

lemma student_data_inv:
  assumes a: "small_data a" and i: "data_inv a s" and k: "k < length (students s)" and st: "student_step k s = Some s'"
  shows "data_inv a s'"
proof -
  note keep = student_step_keeps [OF st]
  let ?t = "students s ! k" and ?t' = "students s' ! k"
  have one: "cnt data_pc (students s) \<le> 1" using i by (simp add: data_inv_def)
  have ka: "k < length a" using i k by (simp add: data_inv_def)
  have own: "cnt data_pc (students s') + sem s' File_mutex = cnt data_pc (students s) + sem s File_mutex
    \<and> (if st_pc ?t' = S16 then student_txt s' = pair_bytes (of_nat k) (a ! k) else studentId ?t' = of_nat k \<and> st_value ?t' = a ! k)"
  proof (cases "data_pc ?t")
    case True
    consider (S16) "st_pc ?t = S16" | (S25) "st_pc ?t = S25" using True by (auto simp add: data_pc_def)
    then show ?thesis
    proof cases
      case S16
      then have "s' = set_st k (?t\<lparr>studentId := of_nat k, st_value := a ! k, st_pc := S25\<rparr>) s"
        using st two_ints_data [OF a ka] i k by (simp add: student_step_def data_inv_def)
      then show ?thesis using student_step_cnt [OF st k, of data_pc] True k by (simp add: data_pc_def)
    next
      case S25
      then have "s' = set_st k (?t\<lparr>st_pc := S28\<rparr>) (water_Signal File_mutex s)" using st by (simp add: student_step_def)
      moreover from this have "studentId ?t' = of_nat k \<and> st_value ?t' = a ! k" using i k S25 by (auto simp add: data_inv_def)
      ultimately show ?thesis using student_step_cnt [OF st k, of data_pc] True k by (simp add: data_pc_def)
    qed
  next
    case False
    note d = student_step_data [OF st k False]
    have "studentId ?t = of_nat k \<and> st_value ?t = a ! k" using i k False by (auto simp add: data_inv_def data_pc_def)
    then show ?thesis using student_step_cnt [OF st k, of data_pc] False d by (auto simp add: data_pc_def)
  qed
  have oth: "if st_pc (students s' ! l) = S16 then student_txt s' = pair_bytes (of_nat l) (a ! l) else studentId (students s' ! l) = of_nat l \<and> st_value (students s' ! l) = a ! l"
    if "l < length (students s')" for l
  proof (cases "l = k")
    case False
    have "l < length (students s)" using that keep(11) by simp
    then have "if st_pc (students s ! l) = S16 then student_txt s = pair_bytes (of_nat l) (a ! l) else studentId (students s ! l) = of_nat l \<and> st_value (students s ! l) = a ! l"
      using i unfolding data_inv_def by blast
    then show ?thesis using student_step_other [OF st False] keep(5) by simp
  qed (use own in blast)
  have fin: "st_pc (students s' ! l) = S79" if "st_pc (students s ! l) = S79" for l
    using that keep(12) student_step_other [OF st, of l] by (cases "l = k") simp_all
  have "m_pc s \<notin> {M121, M130, M136}" using data_inv_done [OF i] keep(12) ka by blast
  moreover have "cnt data_pc (students s') + sem s' File_mutex + (if m_pc s \<in> {M94, M100, M107} then 1 else 0) = 1" using own i by (simp add: data_inv_def)
  moreover have "m_pc s = M90 \<longrightarrow> students s = []" using i unfolding data_inv_def by blast
  then have "m_pc s = M90 \<longrightarrow> students s' = []" using keep(11) by auto
  ultimately show ?thesis using i oth fin unfolding data_inv_def keep(1,2,5,11) by blast
qed

lemma pipe_step_keeps:
  assumes "pipe_step s = Some (Inr s')"
  shows "m_pc s' = m_pc s" "m_i s' = m_i s" "answer s' = answer s" "output_txt s' = output_txt s" "student_txt s' = student_txt s" "students s' = students s" "result_txt s' = result_txt s"
    "request_txt s' = request_txt s" "sem s' File_mutex = sem s File_mutex" "sem s' Pipe_mutex = sem s Pipe_mutex" "sem s' Output_mutex = sem s Output_mutex"
  using assms by (auto simp add: pipe_step_def Let_def Wait_eq_Some bindE_eq_Inr split: pipe_pc.splits prod.splits if_splits option.splits)

lemma pipe_data_inv:
  assumes "data_inv a s" "pipe_step s = Some (Inr s')"
  shows "data_inv a s'"
  using assms(1) unfolding data_inv_def pipe_step_keeps [OF assms(2)] .

lemma main_step_keeps:
  assumes "main_step a s = Some (Inr s')"
  shows "p_pc s' = p_pc s" "p_i s' = p_i s" "p_value s' = p_value s" "faucet s' = faucet s" "faucet_txt s' = faucet_txt s" "request_txt s' = request_txt s" "students s' = students s"
    "\<And>x. x \<noteq> File_mutex \<Longrightarrow> sem s' x = sem s x"
  using assms by (auto simp add: main_step_def Let_def Wait_eq_Some bindE_eq_Inr split: main_pc.splits prod.splits if_splits)

lemma main_data_inv:
  assumes i: "data_inv a s" and st: "main_step a s = Some (Inr s')"
  shows "data_inv a s'"
proof -
  have c: "cnt data_pc (students s) + sem s File_mutex + (if m_pc s \<in> {M94, M100, M107} then 1 else 0) = 1" using i by (simp add: data_inv_def)
  have no: "st_pc (students s ! k) \<noteq> S16" if "cnt data_pc (students s) = 0" "k < length (students s)" for k
    using that cnt_pos [of k "students s" data_pc] by (auto simp add: data_pc_def)
  show ?thesis
  proof (cases "m_pc s")
    case M93
    then show ?thesis using i st c by (auto simp add: main_step_def data_inv_def Wait_eq_Some split: if_splits)
  next
    case M94
    then show ?thesis using i st c no by (auto simp add: main_step_def data_inv_def)
  next
    case M100
    then show ?thesis using i st c no by (auto simp add: main_step_def data_inv_def splice_empty)
  next
    case M115
    then show ?thesis using i st by (auto simp add: main_step_def data_inv_def less_Suc_eq split: if_splits)
  qed (use i st in \<open>auto simp add: main_step_def data_inv_def bindE_eq_Inr\<close>)
qed

lemma exec_data_inv:
  assumes i: "data_inv a s" and m: "m_pc s = M107"
  shows "data_inv a (main_exec t s)" "data_inv a (main_exec_fails s)"
proof -
  have "cnt data_pc (students s) + sem s File_mutex + 1 = 1" using i m by (simp add: data_inv_def)
  then show "data_inv a (main_exec_fails s)" "data_inv a (main_exec t s)"
    using i m by (auto simp add: data_inv_def main_exec_fails_def main_exec_def data_pc_def nth_append less_Suc_eq)
qed

section \<open>The conversation with the taps\<close>

text \<open>
  A student is in its conversation with the taps while it has \<open>pipe_mutex\<close>.  \<open>tap\<close> is the tap that is reserved for it: from the moment the process of the taps marks it to the moment that
  process frees it again.
\<close>

definition sec_pc :: "student \<Rightarrow> bool" where
  "sec_pc t \<longleftrightarrow> st_pc t \<in> {S31, S35, S42, S43, S45, S48, S68, S75, S76, S77}"

definition quiet_taps :: "water \<Rightarrow> bool" where
  "quiet_taps s \<longleftrightarrow> p_pc s = P25 \<and> sem s Request_water = 0 \<and> sem s Open_water = 0"

definition tap_known :: "student \<Rightarrow> nat option \<Rightarrow> bool" where
  "tap_known t tap \<longleftrightarrow> (\<exists>j. tap = Some j \<and> faucetId t = of_nat (j + 1))"

definition asking :: "water \<Rightarrow> student \<Rightarrow> nat option \<Rightarrow> bool" where
  "asking s t tap \<longleftrightarrow>
     request_txt s = pair_bytes 0 (st_value t) \<and> tap = None \<and> sem s Open_water = 0 \<and> (p_pc s = P25 \<and> sem s Request_water = 1 \<or> p_pc s = P27 \<and> sem s Request_water = 0)
   \<or> tap = Some (p_i s) \<and> sem s Request_water = 0 \<and> sem s Open_water = 0
       \<and> (p_pc s = P38 \<or> p_pc s = P42 \<and> faucet_txt s = [] \<or> p_pc s = P46 \<and> faucet_txt s = num_bytes (of_nat (p_i s + 1)))
   \<or> p_pc s = P25 \<and> sem s Request_water = 0 \<and> sem s Open_water = 1 \<and> (\<exists>j. tap = Some j \<and> faucet_txt s = num_bytes (of_nat (j + 1)))"

definition returning :: "water \<Rightarrow> student \<Rightarrow> nat option \<Rightarrow> bool" where
  "returning s t tap \<longleftrightarrow>
     tap_known t tap \<and> sem s Open_water = 0
       \<and> (two_ints (request_txt s) = (1, faucetId t - 1) \<and> (p_pc s = P25 \<and> sem s Request_water = 1 \<or> p_pc s = P27 \<and> sem s Request_water = 0)
          \<or> p_pc s = P50 \<and> sem s Request_water = 0 \<and> p_value s = faucetId t - 1)
   \<or> tap = None \<and> sem s Request_water = 0 \<and> (p_pc s = P52 \<and> sem s Open_water = 0 \<or> p_pc s = P25 \<and> sem s Open_water = 1)"

definition talk_ok :: "water \<Rightarrow> student \<times> nat option \<Rightarrow> bool" where
  "talk_ok s = (\<lambda>(t, tap).
     (st_pc t \<in> {S16, S25, S28, S30, S31} \<or> length (request_txt s) \<le> 3)
   \<and> (case st_pc t of
        S16 \<Rightarrow> tap = None | S25 \<Rightarrow> tap = None | S28 \<Rightarrow> tap = None | S30 \<Rightarrow> tap = None
      | S31 \<Rightarrow> tap = None \<and> quiet_taps s
      | S35 \<Rightarrow> tap = None \<and> quiet_taps s \<and> request_txt s = []
      | S42 \<Rightarrow> tap = None \<and> quiet_taps s \<and> request_txt s = pair_bytes 0 (st_value t)
      | S43 \<Rightarrow> asking s t tap
      | S45 \<Rightarrow> quiet_taps s \<and> (\<exists>j. tap = Some j \<and> faucet_txt s = num_bytes (of_nat (j + 1)))
      | S48 \<Rightarrow> quiet_taps s \<and> tap_known t tap
      | S51 \<Rightarrow> tap_known t tap | S52 \<Rightarrow> tap_known t tap | S59 \<Rightarrow> tap_known t tap | S65 \<Rightarrow> tap_known t tap
      | S68 \<Rightarrow> quiet_taps s \<and> tap_known t tap
      | S75 \<Rightarrow> quiet_taps s \<and> tap_known t tap \<and> two_ints (request_txt s) = (1, faucetId t - 1)
      | S76 \<Rightarrow> returning s t tap
      | S77 \<Rightarrow> quiet_taps s \<and> tap = None
      | S79 \<Rightarrow> tap = None))"

definition permit :: "student \<times> nat option \<Rightarrow> bool" where
  "permit = (\<lambda>(t, tap). st_pc t \<in> {S30, S31, S35, S42, S43} \<or> tap \<noteq> None)"

definition taps_ok :: "bool list \<Rightarrow> nat option list \<Rightarrow> bool" where
  "taps_ok fs taps \<longleftrightarrow> length fs = 2 \<and> (\<forall>j < 2. fs ! j \<longleftrightarrow> Some j \<in> set taps) \<and> (\<forall>j. Some j \<in> set taps \<longrightarrow> j < 2)
     \<and> (\<forall>k < length taps. \<forall>l < length taps. \<forall>j. taps ! k = Some j \<longrightarrow> taps ! l = Some j \<longrightarrow> k = l)"

definition tap_inv :: "water \<Rightarrow> nat option list \<Rightarrow> bool" where
  "tap_inv s taps \<longleftrightarrow> length taps = length (students s)
     \<and> cnt sec_pc (students s) + sem s Pipe_mutex = 1
     \<and> cnt permit (zip (students s) taps) + sem s Faucet = 2
     \<and> (sem s Pipe_mutex = 1 \<longrightarrow> quiet_taps s)
     \<and> taps_ok (faucet s) taps
     \<and> (\<forall>k < length taps. talk_ok s (students s ! k, taps ! k))"

lemma tap_inv_start: "water_start s \<Longrightarrow> tap_inv s []"
  by (auto simp add: water_start_def tap_inv_def taps_ok_def quiet_taps_def less_2_cases_iff)

text \<open>A student outside the conversation does not depend on it; one inside depends on what the two processes share.\<close>

lemma talk_ok_outside:
  assumes "talk_ok s (t, tap)" "\<not> sec_pc t" "length (request_txt s) \<le> 3 \<longrightarrow> length (request_txt s') \<le> 3"
  shows "talk_ok s' (t, tap)"
  using assms by (cases "st_pc t") (auto simp add: talk_ok_def sec_pc_def)

lemma talk_ok_frame:
  assumes "p_pc s' = p_pc s" "p_i s' = p_i s" "p_value s' = p_value s" "request_txt s' = request_txt s" "faucet_txt s' = faucet_txt s"
    "sem s' Request_water = sem s Request_water" "sem s' Open_water = sem s Open_water"
  shows "talk_ok s' = talk_ok s"
  unfolding talk_ok_def quiet_taps_def asking_def returning_def assms ..

lemma tap_inv_view:
  assumes "students s' = students s" "faucet s' = faucet s" "p_pc s' = p_pc s" "p_i s' = p_i s" "p_value s' = p_value s" "request_txt s' = request_txt s" "faucet_txt s' = faucet_txt s"
    "\<And>x. x \<noteq> File_mutex \<Longrightarrow> sem s' x = sem s x"
  shows "tap_inv s' taps = tap_inv s taps"
proof -
  have "talk_ok s' = talk_ok s" using assms by (intro talk_ok_frame) simp_all
  then show ?thesis using assms by (simp add: tap_inv_def quiet_taps_def)
qed

lemma main_tap_inv: "tap_inv s taps \<Longrightarrow> main_step a s = Some (Inr s') \<Longrightarrow> tap_inv s' taps"
  using tap_inv_view [of s' s taps] main_step_keeps [of a s s'] by simp

lemma exec_tap_inv:
  assumes "tap_inv s taps"
  shows "tap_inv (main_exec_fails s) taps" "tap_inv (main_exec t s) (taps @ [None])"
proof -
  show "tap_inv (main_exec_fails s) taps" using assms tap_inv_view [of "main_exec_fails s" s taps] by (simp add: main_exec_fails_def)
  have l: "length taps = length (students s)" using assms by (simp add: tap_inv_def)
  have f: "talk_ok (main_exec t s) = talk_ok s" by (rule talk_ok_frame) (simp_all add: main_exec_def)
  have e: "talk_ok s (t\<lparr>st_pc := S16\<rparr>, None)" by (simp add: talk_ok_def)
  have n: "taps_ok (faucet s) (taps @ [None])" using assms by (auto simp add: tap_inv_def taps_ok_def nth_append)
  have "talk_ok s ((students s @ [t\<lparr>st_pc := S16\<rparr>]) ! k, (taps @ [None]) ! k)" if "k < Suc (length taps)" for k
    using assms e that l by (cases "k < length taps") (auto simp add: tap_inv_def nth_append)
  then show "tap_inv (main_exec t s) (taps @ [None])" unfolding tap_inv_def f using assms n l
    by (simp add: tap_inv_def main_exec_def quiet_taps_def sec_pc_def permit_def)
qed

text \<open>A step of student \<open>k\<close>: what has to be checked.\<close>

lemma student_tap_close:
  assumes i: "tap_inv s taps" and k: "k < length (students s)" and st: "students s' = (students s)[k := t']" and f: "faucet s' = faucet s"
    and own: "talk_ok s' (t', taps ! k)" and oth: "\<And>l. l < length taps \<Longrightarrow> l \<noteq> k \<Longrightarrow> talk_ok s' (students s ! l, taps ! l)"
    and sec: "(if sec_pc t' then 1 else 0) + sem s' Pipe_mutex = (if sec_pc (students s ! k) then 1 else 0) + sem s Pipe_mutex"
    and per: "(if permit (t', taps ! k) then 1 else 0) + sem s' Faucet = (if permit (students s ! k, taps ! k) then 1 else 0) + sem s Faucet"
    and q: "sem s' Pipe_mutex = 1 \<Longrightarrow> quiet_taps s'"
  shows "tap_inv s' taps"
proof -
  have l: "length taps = length (students s)" using i by (simp add: tap_inv_def)
  have z: "zip ((students s)[k := t']) taps = (zip (students s) taps)[k := (t', taps ! k)]" using update_zip [of "students s" taps k "(t', taps ! k)"] by simp
  have "cnt sec_pc (students s') + sem s' Pipe_mutex = 1" using cnt_upd [OF k, of sec_pc t'] i sec st by (simp add: tap_inv_def)
  moreover have "cnt permit (zip (students s') taps) + sem s' Faucet = 2"
    using cnt_upd [of k "zip (students s) taps" permit "(t', taps ! k)"] i per st k l z by (simp add: tap_inv_def)
  moreover have "talk_ok s' (students s' ! m, taps ! m)" if "m < length taps" for m using own oth [OF that] st k l by (cases "m = k") simp_all
  ultimately show ?thesis using i q f st by (simp add: tap_inv_def)
qed

lemma talk_inside:
  assumes i: "tap_inv s taps" and k: "k < length (students s)" "sec_pc (students s ! k)" and r: "length (request_txt s) \<le> 3 \<longrightarrow> length (request_txt s') \<le> 3"
    and l: "l < length taps" "l \<noteq> k"
  shows "talk_ok s' (students s ! l, taps ! l)"
proof -
  have n: "length taps = length (students s)" "cnt sec_pc (students s) \<le> 1" using i by (auto simp add: tap_inv_def)
  have "\<not> sec_pc (students s ! l)" using cnt_one [OF n(2), of k l] k l n(1) by auto
  then show ?thesis using i l(1) r talk_ok_outside [of s "students s ! l" "taps ! l" s'] by (simp add: tap_inv_def)
qed

lemma talk_frame:
  assumes "tap_inv s taps" "p_pc s' = p_pc s" "p_i s' = p_i s" "p_value s' = p_value s" "request_txt s' = request_txt s" "faucet_txt s' = faucet_txt s"
    "sem s' Request_water = sem s Request_water" "sem s' Open_water = sem s Open_water" "l < length taps"
  shows "talk_ok s' (students s ! l, taps ! l)"
  using assms(1,9) talk_ok_frame [OF assms(2-8)] by (simp add: tap_inv_def)

lemma pair_splice:
  assumes "d < 10" "e < 10" "length cs \<le> 3"
  shows "splice 0 (pair_bytes (of_nat d) (of_nat e)) cs = pair_bytes (of_nat d) (of_nat e)" "length (pair_bytes (of_nat d) (of_nat e)) = 3"
  using assms by (simp_all add: splice_def pair_bytes_digits)

lemma tap_small: "tap_inv s taps \<Longrightarrow> k < length (students s) \<Longrightarrow> taps ! k = Some j \<Longrightarrow> j < 2"
  using nth_mem [of k taps] by (simp add: tap_inv_def taps_ok_def)

lemma student_tap_inv:
  assumes a: "small_data a" and d: "data_inv a s" and i: "tap_inv s taps" and k: "k < length (students s)" and st: "student_step k s = Some s'"
  shows "tap_inv s' taps"
proof -
  let ?t = "students s ! k" and ?tap = "taps ! k"
  have kl: "k < length taps" and ka: "k < length a" using i d k by (simp_all add: tap_inv_def data_inv_def)
  have own: "talk_ok s (?t, ?tap)" using i kl by (simp add: tap_inv_def)
  have one: "cnt sec_pc (students s) + sem s Pipe_mutex = 1" and q: "sem s Pipe_mutex = 1 \<longrightarrow> quiet_taps s" using i by (auto simp add: tap_inv_def)
  have v: "\<exists>e < 10. st_value ?t = of_nat e" if "st_pc ?t \<noteq> S16" using d k that small_nth [OF a ka] by (auto simp add: data_inv_def)
  have sec0: "sec_pc ?t \<Longrightarrow> sem s Pipe_mutex = 0" using one cnt_pos [OF k, of sec_pc] by simp
  obtain t' where "students s' = (students s)[k := t']" using student_step_students [OF st] by blast
  then have upd: "students s' = (students s)[k := students s' ! k]" using k by simp
  note close = student_tap_close [OF i k upd student_step_keeps(9) [OF st]]
  note inside = close [OF _ talk_inside [OF i k]] and outside = close [OF _ talk_frame [OF i student_step_keeps(6-8) [OF st] _ student_step_keeps(10) [OF st]]]
  note defs = student_step_def Wait_eq_Some talk_ok_def sec_pc_def permit_def quiet_taps_def
  show ?thesis
  proof (cases "st_pc ?t")
    case S16
    show ?thesis by (rule outside) (use S16 st own q k in \<open>auto simp add: defs split: prod.splits\<close>)
  next
    case S25
    show ?thesis by (rule outside) (use S25 st own q k in \<open>auto simp add: defs\<close>)
  next
    case S28
    show ?thesis by (rule outside) (use S28 st own q k in \<open>auto simp add: defs\<close>)
  next
    case S30
    show ?thesis by (rule outside) (use S30 st own q k one in \<open>auto simp add: defs\<close>)
  next
    case S31
    show ?thesis by (rule inside) (use S31 st own sec0 k in \<open>auto simp add: defs\<close>)
  next
    case S35
    obtain e where e: "e < 10" "st_value ?t = of_nat e" using v S35 by auto
    then have p: "length (pair_bytes 0 (of_nat e)) = 3" using pair_splice(2) [of 0 e "[]"] by simp
    show ?thesis by (rule inside) (use S35 st own sec0 k p e in \<open>auto simp add: defs splice_empty\<close>)
  next
    case S42
    show ?thesis by (rule inside) (use S42 st own sec0 k in \<open>auto simp add: defs asking_def\<close>)
  next
    case S43
    show ?thesis by (rule inside) (use S43 st own sec0 k in \<open>auto simp add: defs asking_def\<close>)
  next
    case S45
    then obtain j where j: "?tap = Some j" "faucet_txt s = num_bytes (of_nat (j + 1))" "quiet_taps s" using own by (auto simp add: talk_ok_def)
    have "j < 2" using tap_small [OF i k j(1)] .
    then have n: "next_int (faucet_txt s) = (of_nat (j + 1), [])" unfolding j(2) using num_bytes_digit [of "j + 1"] next_int_digit(1) [of "j + 1"] by simp
    show ?thesis by (rule inside) (use S45 st own sec0 k j n in \<open>auto simp add: defs tap_known_def\<close>)
  next
    case S48
    show ?thesis by (rule inside) (use S48 st own sec0 k in \<open>auto simp add: defs tap_known_def\<close>)
  next
    case S51
    show ?thesis by (rule outside) (use S51 st own q k in \<open>auto simp add: defs tap_known_def\<close>)
  next
    case S52
    show ?thesis by (rule outside) (use S52 st own q k in \<open>auto simp add: defs Let_def tap_known_def\<close>)
  next
    case S59
    show ?thesis by (rule outside) (use S59 st own q k in \<open>auto simp add: defs tap_known_def\<close>)
  next
    case S65
    show ?thesis by (rule outside) (use S65 st own q k one in \<open>auto simp add: defs tap_known_def\<close>)
  next
    case S68
    then obtain j where j: "?tap = Some j" "faucetId ?t = of_nat (j + 1)" "length (request_txt s) \<le> 3" using own by (auto simp add: talk_ok_def tap_known_def)
    have "j < 2" using tap_small [OF i k j(1)] .
    then have p: "splice 0 (pair_bytes 1 (faucetId ?t - 1)) (request_txt s) = pair_bytes 1 (of_nat j)" "length (pair_bytes 1 (of_nat j)) = 3" "two_ints (pair_bytes 1 (of_nat j)) = (1, of_nat j)"
      using pair_splice [of 1 j "request_txt s"] j(2,3) pair_bytes_digits [of 1 j] two_ints_digits [of 1 j] by simp_all
    show ?thesis by (rule inside) (use S68 st own sec0 k j p in \<open>auto simp add: defs tap_known_def\<close>)
  next
    case S75
    show ?thesis by (rule inside) (use S75 st own sec0 k in \<open>auto simp add: defs tap_known_def returning_def\<close>)
  next
    case S76
    show ?thesis by (rule inside) (use S76 st own sec0 k in \<open>auto simp add: defs tap_known_def returning_def\<close>)
  next
    case S77
    show ?thesis by (rule inside) (use S77 st own sec0 k in \<open>auto simp add: defs\<close>)
  next
    case S79
    then show ?thesis using st by (simp add: student_step_def)
  qed
qed

text \<open>A step of the process of the taps: student \<open>k\<close> is the one it talks to.\<close>

lemma pipe_partner:
  assumes "tap_inv s taps" "\<not> quiet_taps s"
  obtains k where "k < length (students s)" "st_pc (students s ! k) = S43 \<and> asking s (students s ! k) (taps ! k) \<or> st_pc (students s ! k) = S76 \<and> returning s (students s ! k) (taps ! k)"
proof -
  have "sem s Pipe_mutex \<noteq> 1" "cnt sec_pc (students s) + sem s Pipe_mutex = 1" using assms by (auto simp add: tap_inv_def)
  then have "0 < cnt sec_pc (students s)" by simp
  then obtain k where k: "k < length (students s)" "sec_pc (students s ! k)" unfolding cnt_ex by blast
  then have "talk_ok s (students s ! k, taps ! k)" using assms(1) by (simp add: tap_inv_def)
  then show ?thesis using that [OF k(1)] k(2) assms(2) by (auto simp add: talk_ok_def sec_pc_def)
qed

lemma free_tap_Some: "fs ! 0 \<and> fs ! 1 \<or> (\<exists>i < 2. \<not> fs ! i \<and> free_tap fs 0 = Some i)"
  by (auto simp add: free_tap.simps [of fs 0] free_tap.simps [of fs "Suc 0"] less_2_cases_iff)

text \<open>The student that asks finds a tap: it has one of the two permits, and has no tap yet.\<close>

lemma tap_is_free:
  assumes i: "tap_inv s taps" and k: "k < length (students s)" "st_pc (students s ! k) = S43" "taps ! k = None"
  shows "\<exists>j < 2. \<not> faucet s ! j \<and> free_tap (faucet s) 0 = Some j"
proof (rule ccontr)
  assume "\<not> ?thesis"
  then have "faucet s ! 0" "faucet s ! 1" using free_tap_Some [of "faucet s"] by auto
  then have "Some 0 \<in> set taps" "Some 1 \<in> set taps" using i by (simp_all add: tap_inv_def taps_ok_def)
  then obtain l m where lm: "l < length taps" "taps ! l = Some 0" "m < length taps" "taps ! m = Some 1" by (meson in_set_conv_nth)
  have n: "length taps = length (students s)" using i by (simp add: tap_inv_def)
  have d: "k \<noteq> l" "k \<noteq> m" "l \<noteq> m" using k(3) lm by auto
  have "{k, l, m} \<subseteq> {i. i < length (zip (students s) taps) \<and> permit (zip (students s) taps ! i)}" using k lm n by (auto simp add: permit_def)
  then have "card {k, l, m} \<le> cnt permit (zip (students s) taps)" by (rule cnt_le)
  moreover have "card {k, l, m} = 3" using d by simp
  moreover have "cnt permit (zip (students s) taps) \<le> 2" using i by (simp add: tap_inv_def)
  ultimately show False by simp
qed

text \<open>What has to be checked after such a step; \<open>tap\<close> is the tap the student has after it.\<close>

lemma pipe_tap_close:
  assumes i: "tap_inv s taps" and k: "k < length (students s)" "sec_pc (students s ! k)" and st: "students s' = students s" "sem s' Pipe_mutex = sem s Pipe_mutex"
    "request_txt s' = request_txt s" and own: "talk_ok s' (students s ! k, tap)" and tp: "taps_ok (faucet s') (taps[k := tap])"
    and per: "(if permit (students s ! k, tap) then 1 else 0) + sem s' Faucet = (if permit (students s ! k, taps ! k) then 1 else 0) + sem s Faucet"
  shows "tap_inv s' (taps[k := tap])"
proof -
  have l: "length taps = length (students s)" using i by (simp add: tap_inv_def)
  have z: "zip (students s) (taps[k := tap]) = (zip (students s) taps)[k := (students s ! k, tap)]" using update_zip [of "students s" taps k "(students s ! k, tap)"] by simp
  have "cnt permit (zip (students s') (taps[k := tap])) + sem s' Faucet = 2"
    using cnt_upd [of k "zip (students s) taps" permit "(students s ! k, tap)"] i per st(1) k l z by (simp add: tap_inv_def)
  moreover have "talk_ok s' (students s' ! m, taps[k := tap] ! m)" if "m < length taps" for m
    using own talk_inside [OF i k, of s' m] that st k l by (cases "m = k") simp_all
  moreover have "sem s Pipe_mutex = 0" using i cnt_pos [of k "students s" sec_pc] k by (simp add: tap_inv_def)
  ultimately show ?thesis using i tp st by (simp add: tap_inv_def)
qed

lemma pipe_tap_close_same:
  assumes "tap_inv s taps" "k < length (students s)" "sec_pc (students s ! k)" "students s' = students s" "sem s' Pipe_mutex = sem s Pipe_mutex" "request_txt s' = request_txt s"
    "talk_ok s' (students s ! k, taps ! k)" "faucet s' = faucet s" "sem s' Faucet = sem s Faucet"
  shows "tap_inv s' taps"
  using pipe_tap_close [OF assms(1-6), of "taps ! k"] assms by (simp add: tap_inv_def)

lemma tap_in_upd: "k < length taps \<Longrightarrow> Some i \<in> set (taps[k := tap]) \<longleftrightarrow> tap = Some i \<or> (\<exists>l < length taps. l \<noteq> k \<and> taps ! l = Some i)"
  by (auto simp add: in_set_conv_nth nth_list_update)

lemma taps_ok_take:
  assumes "taps_ok fs taps" "k < length taps" "taps ! k = None" "j < 2" "\<not> fs ! j"
  shows "taps_ok (fs[j := True]) (taps[k := Some j])"
proof -
  have s: "Some i \<in> set (taps[k := Some j]) \<longleftrightarrow> i = j \<or> Some i \<in> set taps" for i
    unfolding tap_in_upd [OF assms(2)] using assms(3) by (auto simp add: in_set_conv_nth)
  have n: "Some j \<notin> set taps" using assms by (simp add: taps_ok_def)
  then have m: "taps ! l \<noteq> Some j" if "l < length taps" for l using that nth_mem by metis
  show ?thesis using assms s m unfolding taps_ok_def by (auto simp add: nth_list_update)
qed

lemma taps_ok_give:
  assumes "taps_ok fs taps" "k < length taps" "taps ! k = Some j"
  shows "j < 2" "taps_ok (fs[j := False]) (taps[k := None])"
proof -
  show j: "j < 2" using assms nth_mem [OF assms(2)] by (simp add: taps_ok_def)
  have u: "l = k" if "l < length taps" "taps ! l = Some j" for l using assms that by (auto simp add: taps_ok_def)
  have s: "Some i \<in> set (taps[k := None]) \<longleftrightarrow> i \<noteq> j \<and> Some i \<in> set taps" for i
    unfolding tap_in_upd [OF assms(2)] using u assms(3) by (auto simp add: in_set_conv_nth)
  have inj: "l = m" if lm: "l < length taps" "m < length taps" "taps[k := None] ! l = Some i" "taps[k := None] ! m = Some i" for l m i
  proof -
    have "taps ! l = Some i" "taps ! m = Some i" using lm by (cases "l = k"; cases "m = k"; simp)+
    then show ?thesis using assms(1) lm(1,2) unfolding taps_ok_def by blast
  qed
  have f: "length fs = 2" "\<forall>i < 2. fs ! i \<longleftrightarrow> Some i \<in> set taps" "\<forall>i. Some i \<in> set taps \<longrightarrow> i < 2" using assms(1) unfolding taps_ok_def by blast+
  then have "\<forall>i < 2. fs[j := False] ! i \<longleftrightarrow> Some i \<in> set (taps[k := None])" unfolding s using j by (simp add: nth_list_update)
  then show "taps_ok (fs[j := False]) (taps[k := None])" using f s inj unfolding taps_ok_def by auto
qed

text \<open>The process of the taps never reads or writes outside its array, and keeps the invariant.\<close>

lemma pipe_tap_inv:
  assumes a: "small_data a" and d: "data_inv a s" and i: "tap_inv s taps" and st: "pipe_step s = Some r"
  shows "\<exists>s' taps'. r = Inr s' \<and> tap_inv s' taps'"
proof -
  have "\<not> quiet_taps s" using st by (auto simp add: pipe_step_def quiet_taps_def Wait_eq_Some)
  from pipe_partner [OF i this] obtain k where k: "k < length (students s)"
    and kk: "st_pc (students s ! k) = S43 \<and> asking s (students s ! k) (taps ! k) \<or> st_pc (students s ! k) = S76 \<and> returning s (students s ! k) (taps ! k)" by blast
  let ?t = "students s ! k" and ?tap = "taps ! k"
  have l: "length taps = length (students s)" and tok: "taps_ok (faucet s) taps" and own: "talk_ok s (?t, ?tap)" using i k by (auto simp add: tap_inv_def)
  have sec: "sec_pc ?t" using kk by (auto simp add: sec_pc_def)
  have ka: "k < length a" using d k by (simp add: data_inv_def)
  have len: "length (request_txt s) \<le> 3" using own kk by (auto simp add: talk_ok_def)
  note same = pipe_tap_close_same [OF i k sec] and other = pipe_tap_close [OF i k sec]
  show ?thesis
  proof (cases "p_pc s")
    case P25
    let ?s = "s\<lparr>sem := (sem s)(Request_water := sem s Request_water - 1), p_pc := P27\<rparr>"
    have r: "r = Inr ?s" "0 < sem s Request_water" using st P25 by (auto simp add: pipe_step_def Wait_eq_Some)
    have "tap_inv ?s taps" by (rule same) (use kk len r P25 in \<open>auto simp add: talk_ok_def asking_def returning_def\<close>)
    then show ?thesis using r by blast
  next
    case P38
    let ?s = "s\<lparr>faucet_txt := [], p_pc := P42\<rparr>"
    have r: "r = Inr ?s" using st P38 by (auto simp add: pipe_step_def)
    have "tap_inv ?s taps" by (rule same) (use kk len r P38 in \<open>auto simp add: talk_ok_def asking_def returning_def\<close>)
    then show ?thesis using r by blast
  next
    case P42
    let ?s = "s\<lparr>faucet_txt := splice 0 (num_bytes (of_nat (p_i s + 1))) (faucet_txt s), p_pc := P46\<rparr>"
    have r: "r = Inr ?s" using st P42 by (auto simp add: pipe_step_def)
    have "tap_inv ?s taps" by (rule same) (use kk len r P42 in \<open>auto simp add: talk_ok_def asking_def returning_def splice_empty\<close>)
    then show ?thesis using r by blast
  next
    case P46
    let ?s = "(water_Signal Open_water s)\<lparr>p_pc := P25\<rparr>"
    have r: "r = Inr ?s" using st P46 by (auto simp add: pipe_step_def)
    have "tap_inv ?s taps" by (rule same) (use kk len r P46 in \<open>auto simp add: talk_ok_def asking_def returning_def\<close>)
    then show ?thesis using r by blast
  next
    case P52
    let ?s = "(water_Signal Open_water s)\<lparr>p_pc := P25\<rparr>"
    have r: "r = Inr ?s" using st P52 by (auto simp add: pipe_step_def)
    have "tap_inv ?s taps" by (rule same) (use kk len r P52 in \<open>auto simp add: talk_ok_def asking_def returning_def\<close>)
    then show ?thesis using r by blast
  next
    case P50
    then obtain j where j: "st_pc ?t = S76" "?tap = Some j" "faucetId ?t = of_nat (j + 1)" "p_value s = faucetId ?t - 1" "sem s Request_water = 0" "sem s Open_water = 0"
      using kk by (auto simp add: asking_def returning_def tap_known_def)
    note g = taps_ok_give [OF tok _ j(2)]
    have j2: "j < 2" "taps_ok ((faucet s)[j := False]) (taps[k := None])" using g k l by simp_all
    have "sint (p_value s) = int j" using j(3,4) j2(1) sint_of_nat [of j] by simp
    moreover have "length (faucet s) = 2" using tok by (simp add: taps_ok_def)
    ultimately have w: "writeA (faucet s) (sint (p_value s)) False = Inr ((faucet s)[j := False])" using j2(1) by simp
    let ?s = "(water_Signal Faucet (s\<lparr>faucet := (faucet s)[j := False]\<rparr>))\<lparr>p_pc := P52\<rparr>"
    have r: "r = Inr ?s" using st P50 w by (simp add: pipe_step_def)
    have "tap_inv ?s (taps[k := None])" by (rule other) (use j j2 len r P50 in \<open>auto simp add: talk_ok_def returning_def permit_def\<close>)
    then show ?thesis using r by blast
  next
    case P27
    show ?thesis
    proof (cases "st_pc ?t = S43")
      case True
      then have q: "request_txt s = pair_bytes 0 (st_value ?t)" "?tap = None" "sem s Open_water = 0" "sem s Request_water = 0" using kk P27 by (auto simp add: asking_def)
      have "st_value ?t = a ! k" using d k True by (auto simp add: data_inv_def)
      then obtain e where "e < 10" "st_value ?t = of_nat e" using small_nth [OF a ka] by auto
      then have ty: "two_ints (request_txt s) = (0, st_value ?t)" using q(1) pair_bytes_digits [of 0 e] two_ints_digits [of 0 e] by simp
      obtain j where j: "j < 2" "\<not> faucet s ! j" "free_tap (faucet s) 0 = Some j" using tap_is_free [OF i k True q(2)] by blast
      let ?s = "s\<lparr>faucet := (faucet s)[j := True], p_i := j, p_pc := P38\<rparr>"
      have r: "r = Inr ?s" using st P27 ty j by (simp add: pipe_step_def)
      have "taps_ok ((faucet s)[j := True]) (taps[k := Some j])" using taps_ok_take [OF tok _ q(2) j(1,2)] k l by simp
      then have "tap_inv ?s (taps[k := Some j])" by (intro other) (use True j q len in \<open>auto simp add: talk_ok_def asking_def permit_def\<close>)
      then show ?thesis using r by blast
    next
      case False
      then have q: "st_pc ?t = S76" "tap_known ?t ?tap" "two_ints (request_txt s) = (1, faucetId ?t - 1)" "sem s Open_water = 0" "sem s Request_water = 0"
        using kk P27 by (auto simp add: returning_def)
      let ?s = "s\<lparr>p_value := faucetId ?t - 1, p_pc := P50\<rparr>"
      have r: "r = Inr ?s" using st P27 q(3) by (simp add: pipe_step_def)
      have "tap_inv ?s taps" by (rule same) (use q len in \<open>auto simp add: talk_ok_def returning_def\<close>)
      then show ?thesis using r by blast
    qed
  qed
qed

section \<open>The results\<close>

text \<open>\<open>recs\<close> are the numbers of the students and of their taps, in the order in which they are in \<^verbatim>\<open>result.txt\<close>.\<close>

definition result_line :: "nat \<times> nat \<Rightarrow> 8 word list" where
  "result_line = (\<lambda>(k, j). pair_bytes (of_nat k) (of_nat j) @ [ch_nl])"

definition wrote_pc :: "student \<Rightarrow> bool" where
  "wrote_pc t \<longleftrightarrow> st_pc t \<in> {S59, S65, S68, S75, S76, S77, S79}"

definition out_pc :: "student \<Rightarrow> bool" where
  "out_pc t \<longleftrightarrow> st_pc t = S52 \<or> st_pc t = S59"

definition answer_line :: "nat \<Rightarrow> 32 word list \<Rightarrow> 8 word list" where
  "answer_line n ans = concat (map (\<lambda>k. num_bytes (ans ! k) @ [ch_space]) [0..<n]) @ [ch_nl]"

definition result_inv :: "32 word list \<Rightarrow> 8 word list \<Rightarrow> water \<Rightarrow> (nat \<times> nat) list \<Rightarrow> bool" where
  "result_inv a out s recs \<longleftrightarrow>
     cnt out_pc (students s) + sem s Output_mutex = 1 \<and> length (answer s) = 10
   \<and> (m_pc s \<noteq> M90 \<longrightarrow> result_txt s = concat (map result_line recs))
   \<and> distinct (map fst recs) \<and> set (map fst recs) = {k. k < length (students s) \<and> wrote_pc (students s ! k)} \<and> (\<forall>p \<in> set recs. 1 \<le> snd p \<and> snd p \<le> 2)
   \<and> (\<forall>p \<in> set recs. faucetId (students s ! fst p) = of_nat (snd p))
   \<and> (m_pc s \<in> {M130, M136} \<longrightarrow> (\<forall>p \<in> set recs. answer s ! fst p = of_nat (snd p)))
   \<and> output_txt s = out @ (if m_pc s = M136 then answer_line (length a) (answer s) else [])"

lemma result_inv_start: "water_start s \<Longrightarrow> result_inv a (output_txt s) s []"
  by (simp add: water_start_def result_inv_def)

lemma result_inv_view:
  assumes "result_inv a out s recs" "students s' = students s" "sem s' Output_mutex = sem s Output_mutex" "result_txt s' = result_txt s" "answer s' = answer s" "output_txt s' = output_txt s" "m_pc s' = m_pc s"
  shows "result_inv a out s' recs"
  using assms(1) unfolding result_inv_def assms(2-) .

lemma student_result:
  assumes st: "student_step k s = Some s'" and k: "k < length (students s)"
  shows "cnt out_pc (students s') + sem s' Output_mutex = cnt out_pc (students s) + sem s Output_mutex"
    "st_pc (students s ! k) = S52 \<Longrightarrow> wrote_pc (students s' ! k) \<and> result_txt s' = result_txt s @ pair_bytes (studentId (students s ! k)) (faucetId (students s ! k)) @ [ch_nl]"
    "st_pc (students s ! k) \<noteq> S52 \<Longrightarrow> wrote_pc (students s' ! k) = wrote_pc (students s ! k) \<and> result_txt s' = result_txt s"
    "st_pc (students s ! k) = S52 \<or> wrote_pc (students s ! k) \<Longrightarrow> faucetId (students s' ! k) = faucetId (students s ! k)"
proof -
  have "(if out_pc (students s' ! k) then 1 else 0) + sem s' Output_mutex = (if out_pc (students s ! k) then 1 else 0) + sem s Output_mutex"
    using st k by (auto simp add: student_step_def out_pc_def Let_def Wait_eq_Some split: student_pc.splits prod.splits)
  then show "cnt out_pc (students s') + sem s' Output_mutex = cnt out_pc (students s) + sem s Output_mutex" using student_step_cnt [OF st k, of out_pc] by (simp split: if_splits)
  show "st_pc (students s ! k) = S52 \<Longrightarrow> wrote_pc (students s' ! k) \<and> result_txt s' = result_txt s @ pair_bytes (studentId (students s ! k)) (faucetId (students s ! k)) @ [ch_nl]"
    using st k by (auto simp add: student_step_def wrote_pc_def Let_def)
  show "st_pc (students s ! k) \<noteq> S52 \<Longrightarrow> wrote_pc (students s' ! k) = wrote_pc (students s ! k) \<and> result_txt s' = result_txt s"
    using st k by (auto simp add: student_step_def wrote_pc_def Let_def Wait_eq_Some split: student_pc.splits prod.splits)
  show "st_pc (students s ! k) = S52 \<or> wrote_pc (students s ! k) \<Longrightarrow> faucetId (students s' ! k) = faucetId (students s ! k)"
    using st k by (auto simp add: student_step_def wrote_pc_def Let_def Wait_eq_Some)
qed

lemma student_result_inv:
  assumes d: "data_inv a s" and i: "tap_inv s taps" and r: "result_inv a out s recs" and k: "k < length (students s)" and st: "student_step k s = Some s'"
  shows "\<exists>recs'. result_inv a out s' recs'"
proof -
  note keep = student_step_keeps [OF st] and res = student_result [OF st k]
  let ?W = "\<lambda>s. {k. k < length (students s) \<and> wrote_pc (students s ! k)}"
  have oth: "wrote_pc (students s' ! l) = wrote_pc (students s ! l)" if "l \<noteq> k" for l using student_step_other [OF st that] by simp
  have rW: "set (map fst recs) = ?W s" "distinct (map fst recs)" using r unfolding result_inv_def by blast+
  have rF: "\<forall>p \<in> set recs. faucetId (students s' ! fst p) = of_nat (snd p)"
  proof
    fix p assume p: "p \<in> set recs"
    then have "fst p \<in> ?W s" using rW(1) by (metis image_eqI list.set_map)
    then have "faucetId (students s' ! fst p) = faucetId (students s ! fst p)" using res(4) student_step_other [OF st, of "fst p"] by (cases "fst p = k") simp_all
    moreover have "faucetId (students s ! fst p) = of_nat (snd p)" using r p unfolding result_inv_def by blast
    ultimately show "faucetId (students s' ! fst p) = of_nat (snd p)" by simp
  qed
  have m: "m_pc s \<notin> {M121, M130, M136}" using data_inv_done [OF d] keep(12) k by fastforce
  show ?thesis
  proof (cases "st_pc (students s ! k) = S52")
    case True
    have "talk_ok s (students s ! k, taps ! k)" using i k by (simp add: tap_inv_def)
    then obtain j where j: "taps ! k = Some j" "faucetId (students s ! k) = of_nat (j + 1)" using True by (auto simp add: talk_ok_def tap_known_def)
    have j2: "j < 2" using tap_small [OF i k j(1)] .
    have id: "studentId (students s ! k) = of_nat k" using d k True by (simp add: data_inv_def)
    have new: "k \<notin> set (map fst recs)" unfolding rW(1) using True by (simp add: wrote_pc_def)
    have "?W s' = insert k (?W s)" using oth res(2) [OF True] k keep(11) by (auto; metis)
    then have "set (map fst (recs @ [(k, j + 1)])) = ?W s'" using rW(1) by simp
    moreover have "result_txt s' = result_txt s @ result_line (k, j + 1)" using res(2) [OF True] id j(2) by (simp add: result_line_def)
    moreover have "faucetId (students s' ! k) = of_nat (j + 1)" using res(4) True j(2) by simp
    ultimately have "result_inv a out s' (recs @ [(k, j + 1)])" using r res(1) keep m new j2 rF unfolding result_inv_def by auto
    then show ?thesis by blast
  next
    case False
    have "wrote_pc (students s' ! l) = wrote_pc (students s ! l)" for l using oth res(3) [OF False] by (cases "l = k") simp_all
    then have "?W s' = ?W s" using keep(11) by simp
    then have "result_inv a out s' recs" using r res(1) res(3) [OF False] keep(1,3,4) rF unfolding result_inv_def by simp
    then show ?thesis by blast
  qed
qed

text \<open>Reading the results gives each student its tap.\<close>

lemma read_result_line:
  assumes "k < 10" "j < 10" "length ans = 10"
  shows "read_result (result_line (k, j) @ cs, ans) = Inr (cs, ans[k := of_nat j])"
proof -
  have b: "result_line (k, j) @ cs = dig k # ch_space # dig j # ch_nl # cs" using assms by (simp add: result_line_def pair_bytes_digits)
  have "next_int (dig k # ch_space # dig j # ch_nl # cs) = (of_nat k, dig j # ch_nl # cs)" "next_int (dig j # ch_nl # cs) = (of_nat j, cs)"
    using assms next_int_digit(2) by (simp_all add: blank_def)
  moreover have "sint (of_nat k :: 32 word) = int k" using assms(1) by (intro sint_of_nat) simp
  ultimately show ?thesis unfolding b using assms(1,3) by (simp add: read_result_def)
qed

lemma read_results:
  "length xs = length recs \<Longrightarrow> \<forall>p \<in> set recs. fst p < 10 \<and> snd p < 10 \<Longrightarrow> length ans = 10 \<Longrightarrow> distinct (map fst recs) \<Longrightarrow>
   \<exists>ans'. foldE (\<lambda>_. read_result) xs (concat (map result_line recs), ans) = Inr ([], ans') \<and> length ans' = 10
     \<and> (\<forall>p \<in> set recs. ans' ! fst p = of_nat (snd p)) \<and> (\<forall>k. k \<notin> fst ` set recs \<longrightarrow> ans' ! k = ans ! k)"
proof (induction recs arbitrary: xs ans)
  case (Cons p recs)
  obtain x xs' where xs: "xs = x # xs'" "length xs' = length recs" using Cons.prems(1) by (cases xs) auto
  obtain k j where p: "p = (k, j)" by (cases p)
  have kj: "k < 10" "j < 10" "k \<notin> fst ` set recs" using Cons.prems(2,4) p by auto
  obtain ans' where a: "foldE (\<lambda>_. read_result) xs' (concat (map result_line recs), ans[k := of_nat j]) = Inr ([], ans')" "length ans' = 10"
    "\<forall>p \<in> set recs. ans' ! fst p = of_nat (snd p)" "\<forall>l. l \<notin> fst ` set recs \<longrightarrow> ans' ! l = ans[k := of_nat j] ! l"
    using Cons.IH [OF xs(2), of "ans[k := of_nat j]"] Cons.prems by auto
  have "ans' ! k = of_nat j" using a(4) kj Cons.prems(3) by simp
  then show ?case using a read_result_line [OF kj(1,2) Cons.prems(3)] by (intro exI [of _ ans']) (auto simp add: xs p)
qed simp

lemma write_answers:
  "length ans = 10 \<Longrightarrow> n \<le> 10 \<Longrightarrow> foldE (write_answer ans) [0..int n - 1] [] = Inr (concat (map (\<lambda>k. num_bytes (ans ! k) @ [ch_space]) [0..<n]))"
proof (induction n)
  case (Suc n)
  have "[0..int (Suc n) - 1] = [0..int n - 1] @ [int n]" using upto_rec2 [of 0 "int n"] by simp
  then show ?case using Suc by (simp add: foldE_append write_answer_def)
qed simp

lemma recs_complete:
  assumes r: "result_inv a out s recs" and l: "length (students s) = length a" and f: "\<forall>k < length a. st_pc (students s ! k) = S79"
  shows "fst ` set recs = {..<length a}" "length recs = length a"
proof -
  have "set (map fst recs) = {k. k < length (students s) \<and> wrote_pc (students s ! k)}" "distinct (map fst recs)" using r unfolding result_inv_def by blast+
  moreover have "{k. k < length (students s) \<and> wrote_pc (students s ! k)} = {..<length a}" using l f by (auto simp add: wrote_pc_def)
  ultimately show "fst ` set recs = {..<length a}" "length recs = length a" using distinct_card [of "map fst recs"] by simp_all
qed

lemma main_result_other:
  assumes r: "result_inv a out s recs" and st: "main_step a s = Some x" and m: "m_pc s \<notin> {M90, M121, M130}"
  shows "\<exists>s'. x = Inr s' \<and> result_inv a out s' recs"
proof -
  have "\<exists>s'. x = Inr s'" using st m by (auto simp add: main_step_def Wait_eq_Some split: main_pc.splits if_splits)
  then obtain s' where x: "x = Inr s'" by blast
  then have "result_inv a out s' recs" using r st m by (cases "m_pc s") (auto simp add: main_step_def result_inv_def Wait_eq_Some split: if_splits)
  then show ?thesis using x by blast
qed

lemma main_result_inv:
  assumes a: "small_data a" and d: "data_inv a s" and r: "result_inv a out s recs" and st: "main_step a s = Some x"
  shows "\<exists>s'. x = Inr s' \<and> result_inv a out s' recs"
proof -
  have n: "length a \<le> 10" using a by (simp add: small_data_def)
  have ans: "length (answer s) = 10" using r by (simp add: result_inv_def)
  show ?thesis
  proof (cases "m_pc s")
    case M90
    have "students s = []" using d M90 by (simp add: data_inv_def)
    then have "recs = []" using r by (simp add: result_inv_def)
    then show ?thesis using r st M90 by (auto simp add: main_step_def result_inv_def)
  next
    case M121
    have f: "length (students s) = length a" "\<forall>k < length a. st_pc (students s ! k) = S79" using data_inv_done [OF d] M121 by simp_all
    note c = recs_complete [OF r f]
    have "\<forall>p \<in> set recs. 1 \<le> snd p \<and> snd p \<le> 2" using r unfolding result_inv_def by blast
    moreover have "\<forall>x \<in> fst ` set recs. x < 10" unfolding c(1) using n by simp
    ultimately have "\<forall>p \<in> set recs. fst p < 10 \<and> snd p < 10" by fastforce
    moreover have "distinct (map fst recs)" "result_txt s = concat (map result_line recs)" using r M121 by (simp_all add: result_inv_def)
    ultimately obtain ans' where "foldE (\<lambda>_. read_result) [0..int (length a) - 1] (result_txt s, answer s) = Inr ([], ans')" "length ans' = 10" "\<forall>p \<in> set recs. ans' ! fst p = of_nat (snd p)"
      using read_results [of "[0..int (length a) - 1]" recs "answer s"] c(2) ans by auto
    then have "x = Inr (s\<lparr>answer := ans', m_pc := M130\<rparr>)" "result_inv a out (s\<lparr>answer := ans', m_pc := M130\<rparr>) recs"
      using r st M121 by (simp_all add: main_step_def result_inv_def)
    then show ?thesis by blast
  next
    case M130
    let ?s = "s\<lparr>output_txt := output_txt s @ answer_line (length a) (answer s), m_pc := M136\<rparr>"
    have "x = Inr ?s" using st M130 write_answers [OF ans n] by (simp add: main_step_def answer_line_def)
    moreover have "result_inv a out ?s recs" using r M130 by (simp add: result_inv_def)
    ultimately show ?thesis by blast
  qed (use main_result_other [OF r st] in simp_all)
qed

lemma exec_result_inv:
  assumes r: "result_inv a out s recs" and m: "m_pc s = M107"
  shows "result_inv a out (main_exec t s) recs" "result_inv a out (main_exec_fails s) recs"
proof -
  have "{k. k < Suc (length (students s)) \<and> wrote_pc ((students s @ [t\<lparr>st_pc := S16\<rparr>]) ! k)} = {k. k < length (students s) \<and> wrote_pc (students s ! k)}"
    by (auto simp add: nth_append less_Suc_eq wrote_pc_def)
  moreover have "set (map fst recs) = {k. k < length (students s) \<and> wrote_pc (students s ! k)}" using r unfolding result_inv_def by blast
  then have "(students s @ [t\<lparr>st_pc := S16\<rparr>]) ! fst p = students s ! fst p" if "p \<in> set recs" for p using that by (auto simp add: nth_append)
  ultimately show "result_inv a out (main_exec t s) recs" using r m by (simp add: result_inv_def main_exec_def out_pc_def)
  show "result_inv a out (main_exec_fails s) recs" using r m by (simp add: result_inv_def main_exec_fails_def)
qed

definition water_inv :: "32 word list \<Rightarrow> 8 word list \<Rightarrow> water \<Rightarrow> bool" where
  "water_inv a out s \<longleftrightarrow> data_inv a s \<and> (\<exists>taps. tap_inv s taps) \<and> (\<exists>recs. result_inv a out s recs)"

lemma water_step_inv:
  assumes a: "small_data a" and i: "water_inv a out s" and st: "water_step a s s'"
  shows "water_inv a out s'"
proof -
  obtain taps recs where j: "data_inv a s" "tap_inv s taps" "result_inv a out s recs" using i by (auto simp add: water_inv_def)
  from st show ?thesis
  proof cases
    case (student k)
    then show ?thesis using student_data_inv [OF a j(1)] student_tap_inv [OF a j(1,2)] student_result_inv [OF j] unfolding water_inv_def by blast
  next
    case pipe
    have "result_inv a out s' recs" by (rule result_inv_view [OF j(3)]) (simp_all add: pipe_step_keeps [OF pipe])
    then show ?thesis using pipe_data_inv [OF j(1) pipe] pipe_tap_inv [OF a j(1,2) pipe] unfolding water_inv_def by blast
  next
    case main
    then show ?thesis using main_data_inv [OF j(1) main] main_tap_inv [OF j(2) main] main_result_inv [OF a j(1,3) main] unfolding water_inv_def by auto
  next
    case (exec t)
    then show ?thesis using exec_data_inv(1) [OF j(1)] exec_tap_inv(2) [OF j(2)] exec_result_inv(1) [OF j(3)] unfolding water_inv_def by auto
  next
    case exec_fails
    then show ?thesis using exec_data_inv(2) [OF j(1)] exec_tap_inv(1) [OF j(2)] exec_result_inv(2) [OF j(3)] unfolding water_inv_def by auto
  qed
qed

lemma water_reach_inv: "water_reach a s0 s \<Longrightarrow> small_data a \<Longrightarrow> water_inv a (output_txt s0) s"
  by (induction rule: water_reach.induct) (auto simp add: water_inv_def intro: data_inv_start tap_inv_start result_inv_start dest: water_step_inv [unfolded water_inv_def])

section \<open>Nobody waits for ever\<close>

lemma student_goes_on:
  assumes "st_pc (students s ! k) \<noteq> S79" "st_pc (students s ! k) = S28 \<longrightarrow> 0 < sem s Faucet" "st_pc (students s ! k) \<in> {S30, S65} \<longrightarrow> 0 < sem s Pipe_mutex"
    "st_pc (students s ! k) \<in> {S43, S76} \<longrightarrow> 0 < sem s Open_water" "st_pc (students s ! k) = S51 \<longrightarrow> 0 < sem s Output_mutex"
  shows "\<exists>s'. student_step k s = Some s'"
  using assms by (cases "st_pc (students s ! k)") (auto simp add: student_step_def water_Wait_def Let_def split: prod.splits)

lemma pipe_goes_on: "p_pc s \<noteq> P25 \<or> 0 < sem s Request_water \<Longrightarrow> \<exists>r. pipe_step s = Some r"
  by (cases "p_pc s") (auto simp add: pipe_step_def water_Wait_def split: prod.splits option.splits)

lemma talk_goes_on:
  assumes a: "small_data a" and d: "data_inv a s" and i: "tap_inv s taps" and q: "\<not> quiet_taps s"
  shows "\<exists>s'. water_step a s s'"
proof (cases "p_pc s \<noteq> P25 \<or> 0 < sem s Request_water")
  case True
  then obtain r where "pipe_step s = Some r" using pipe_goes_on by blast
  then show ?thesis using pipe_tap_inv [OF a d i] water_step.pipe by blast
next
  case False
  obtain k where k: "k < length (students s)" "st_pc (students s ! k) = S43 \<or> st_pc (students s ! k) = S76" using pipe_partner [OF i q] by metis
  have "0 < sem s Open_water" using False q by (auto simp add: quiet_taps_def)
  then show ?thesis using student_goes_on [of s k] k water_step.student by fastforce
qed

lemma students_go_on:
  assumes a: "small_data a" and d: "data_inv a s" and i: "tap_inv s taps" and r: "result_inv a out s recs" and u: "l < length (students s)" "st_pc (students s ! l) \<noteq> S79"
  shows "\<exists>s'. water_step a s s'"
proof (rule ccontr)
  assume no: "\<not> ?thesis"
  then have stuck: "student_step k s = None" if "k < length (students s)" for k using that water_step.student by (metis not_None_eq)
  have q: "quiet_taps s" using talk_goes_on [OF a d i] no by blast
  have tk: "talk_ok s (students s ! k, taps ! k)" if "k < length (students s)" for k using i that by (simp add: tap_inv_def)
  have n43: "st_pc (students s ! k) \<notin> {S43, S76}" if "k < length (students s)" for k using tk [OF that] q by (auto simp add: talk_ok_def asking_def returning_def quiet_taps_def)
  have ns: "\<not> sec_pc (students s ! k)" if "k < length (students s)" for k
    using student_goes_on [of s k] stuck [OF that] n43 [OF that] by (auto simp add: sec_pc_def)
  have "0 < sem s Pipe_mutex" using i ns cnt_ex [of sec_pc "students s"] by (auto simp add: tap_inv_def)
  then have n30: "st_pc (students s ! k) \<notin> {S30, S65}" if "k < length (students s)" for k using student_goes_on [of s k] stuck [OF that] by auto
  have no_out: "\<not> out_pc (students s ! k)" if "k < length (students s)" for k using student_goes_on [of s k] stuck [OF that] by (auto simp add: out_pc_def)
  then have "0 < sem s Output_mutex" using r cnt_ex [of out_pc "students s"] by (auto simp add: result_inv_def)
  then have n51: "st_pc (students s ! k) \<noteq> S51" if "k < length (students s)" for k using student_goes_on [of s k] stuck [OF that] by auto
  have "\<not> permit (students s ! k, taps ! k)" if "k < length (students s)" for k
    using tk [OF that] ns [OF that] n30 [OF that] n51 [OF that] no_out [OF that] by (cases "st_pc (students s ! k)") (auto simp add: permit_def talk_ok_def sec_pc_def out_pc_def)
  then have "cnt permit (zip (students s) taps) = 0" using cnt_ex [of permit "zip (students s) taps"] by auto
  then have "0 < sem s Faucet" using i by (simp add: tap_inv_def)
  then show False using student_goes_on [of s l] stuck [OF u(1)] u n43 [OF u(1)] n30 [OF u(1)] n51 [OF u(1)] by auto
qed

lemma water_goes_on:
  assumes a: "small_data a" and i: "water_inv a out s" and no: "\<nexists>s'. water_step a s s'"
  shows "m_pc s \<in> {M136, M_false} \<and> (\<forall>k < length (students s). st_pc (students s ! k) = S79)"
proof -
  obtain taps recs where j: "data_inv a s" "tap_inv s taps" "result_inv a out s recs" using i by (auto simp add: water_inv_def)
  have f: "st_pc (students s ! k) = S79" if "k < length (students s)" for k using students_go_on [OF a j that] no by blast
  have ms: "main_step a s = None"
  proof (rule ccontr)
    assume "main_step a s \<noteq> None"
    then obtain x where "main_step a s = Some x" by blast
    then show False using main_result_inv [OF a j(1,3)] water_step.main no by blast
  qed
  have "m_pc s \<noteq> M107" using no water_step.exec by blast
  moreover have "m_pc s \<noteq> M93"
  proof
    assume m: "m_pc s = M93"
    have "cnt data_pc (students s) = 0" using f cnt_ex [of data_pc "students s"] by (auto simp add: data_pc_def)
    then have "0 < sem s File_mutex" using j(1) m by (simp add: data_inv_def)
    then show False using ms m by (simp add: main_step_def water_Wait_def split: if_splits)
  qed
  moreover have "m_pc s \<noteq> M115"
  proof
    assume m: "m_pc s = M115"
    then have "length (students s) = length a" using j(1) by (simp add: data_inv_def)
    then show False using ms m f by (simp add: main_step_def split: if_splits)
  qed
  ultimately have "m_pc s \<in> {M136, M_false}" using ms by (cases "m_pc s") (simp_all add: main_step_def)
  then show ?thesis using f by blast
qed

text \<open>The steps that are left: an upper bound that every step lowers.\<close>

fun student_left :: "student_pc \<Rightarrow> nat" where
  "student_left S16 = 18" | "student_left S25 = 17" | "student_left S28 = 16" | "student_left S30 = 15" | "student_left S31 = 14" | "student_left S35 = 13" | "student_left S42 = 12"
| "student_left S43 = 11" | "student_left S45 = 10" | "student_left S48 = 9" | "student_left S51 = 8" | "student_left S52 = 7" | "student_left S59 = 6" | "student_left S65 = 5"
| "student_left S68 = 4" | "student_left S75 = 3" | "student_left S76 = 2" | "student_left S77 = 1" | "student_left S79 = 0"

fun pipe_left :: "pipe_pc \<Rightarrow> nat" where
  "pipe_left P25 = 0" | "pipe_left P27 = 5" | "pipe_left P38 = 4" | "pipe_left P42 = 3" | "pipe_left P46 = 2" | "pipe_left P50 = 4" | "pipe_left P52 = 3"

fun main_left :: "main_pc \<Rightarrow> nat \<Rightarrow> nat \<Rightarrow> nat" where
  "main_left M90 n i = n + 15" | "main_left M93 n i = n + 14" | "main_left M94 n i = n + 13" | "main_left M100 n i = n + 12" | "main_left M107 n i = n + 11"
| "main_left M115 n i = 5 + (n - i)" | "main_left M121 n i = 2" | "main_left M130 n i = 1" | "main_left M136 n i = 0" | "main_left M_false n i = 0"

definition water_left :: "32 word list \<Rightarrow> water \<Rightarrow> nat" where
  "water_left a s = 200 * (length a - length (students s)) + 10 * sum_list (map (student_left \<circ> st_pc) (students s)) + 6 * sem s Request_water + pipe_left (p_pc s)
     + main_left (m_pc s) (length a) (m_i s)"

lemma sum_list_upd: "k < length xs \<Longrightarrow> sum_list (map f (xs[k := x])) + f (xs ! k) = sum_list (map f xs) + (f x :: nat)"
proof (induction xs arbitrary: k)
  case (Cons y ys)
  then show ?case using Cons.IH [of "k - 1"] by (cases k) (simp_all split: if_splits)
qed simp

lemma student_left_less:
  assumes st: "student_step k s = Some s'" and k: "k < length (students s)"
  shows "water_left a s' < water_left a s"
proof -
  obtain t where t: "students s' = (students s)[k := t]" using student_step_students [OF st] by blast
  have "10 * student_left (st_pc (students s' ! k)) + 6 * sem s' Request_water < 10 * student_left (st_pc (students s ! k)) + 6 * sem s Request_water"
    using st k by (auto simp add: student_step_def Let_def Wait_eq_Some split: student_pc.splits prod.splits)
  then show ?thesis using sum_list_upd [OF k, of "student_left \<circ> st_pc" t] t k student_step_keeps [OF st] by (simp add: water_left_def)
qed

lemma pipe_left_less: "pipe_step s = Some (Inr s') \<Longrightarrow> water_left a s' < water_left a s"
  by (auto simp add: pipe_step_def water_left_def Let_def Wait_eq_Some bindE_eq_Inr split: pipe_pc.splits prod.splits if_splits option.splits)

lemma main_left_less:
  assumes d: "data_inv a s"
  shows "main_step a s = Some (Inr s') \<Longrightarrow> water_left a s' < water_left a s" "m_pc s = M107 \<Longrightarrow> water_left a (main_exec t s) < water_left a s"
    "m_pc s = M107 \<Longrightarrow> water_left a (main_exec_fails s) < water_left a s"
proof -
  show "main_step a s = Some (Inr s') \<Longrightarrow> water_left a s' < water_left a s"
    by (auto simp add: main_step_def water_left_def Let_def Wait_eq_Some bindE_eq_Inr split: main_pc.splits prod.splits if_splits)
  assume m: "m_pc s = M107"
  then have "length (students s) < length a" using d by (simp add: data_inv_def)
  then have "length a - length (students s) = Suc (length a - Suc (length (students s)))" by simp
  then show "water_left a (main_exec t s) < water_left a s" "water_left a (main_exec_fails s) < water_left a s"
    using m by (simp_all add: water_left_def main_exec_def main_exec_fails_def)
qed

lemma water_left_less:
  assumes "data_inv a s" "water_step a s s'"
  shows "water_left a s' < water_left a s"
  using assms(2) by cases (auto intro: student_left_less pipe_left_less main_left_less [OF assms(1)])

section \<open>Properties\<close>

text \<open>A student has a tap from the moment it has read its number to the moment it waits for having given it back.\<close>

definition uses_tap :: "student \<Rightarrow> bool" where
  "uses_tap t \<longleftrightarrow> st_pc t \<in> {S48, S51, S52, S59, S65, S68, S75}"

text \<open>A run by a given order of the processes; a process that has to wait is passed over.\<close>

datatype mover = Main_moves | Exec_moves | Pipe_moves | Student_moves nat

fun water_move :: "32 word list \<Rightarrow> mover \<Rightarrow> water \<Rightarrow> water" where
  "water_move a Main_moves s = (case main_step a s of Some (Inr s') \<Rightarrow> s' | _ \<Rightarrow> s)"
| "water_move a Exec_moves s = (if m_pc s = M107 then main_exec \<lparr>st_pc = S16, studentId = 77, st_value = 77, faucetId = 77\<rparr> s else s)"
| "water_move a Pipe_moves s = (case pipe_step s of Some (Inr s') \<Rightarrow> s' | _ \<Rightarrow> s)"
| "water_move a (Student_moves k) s = (if k < length (students s) then case student_step k s of Some s' \<Rightarrow> s' | None \<Rightarrow> s else s)"

lemma water_run_reach: "water_reach a s0 s \<Longrightarrow> water_reach a s0 (fold (water_move a) ms s)"
proof (induction ms arbitrary: s)
  case (Cons m ms)
  have "water_reach a s0 (water_move a m s)"
    using Cons.prems by (cases m) (auto split: option.splits sum.splits intro: water_reach.step water_step.intros)
  then show ?case using Cons.IH by simp
qed simp

definition demo_water :: water where
  "demo_water = \<lparr>sem = (\<lambda>x. case x of Open_water \<Rightarrow> 0 | Faucet \<Rightarrow> 2 | File_mutex \<Rightarrow> 1 | Request_water \<Rightarrow> 0 | Pipe_mutex \<Rightarrow> 1 | Output_mutex \<Rightarrow> 1),
     student_txt = [1, 2, 3, 4, 5], request_txt = [7, 7, 7, 7, 7, 7, 7], faucet_txt = [8, 8, 8], result_txt = [9], output_txt = [65], students = [], p_pc = P25, p_value = 9, p_i = 9,
     faucet = [False, False], m_pc = M90, m_i = 99, answer = replicate 10 33\<rparr>"

lemma demo_water_start: "water_start demo_water"
  by (simp add: water_start_def demo_water_def)

text \<open>\<open>main\<close> starts a student; student \<open>k\<close> gets a tap; it gives the tap back.\<close>

abbreviation demo_start :: "nat \<Rightarrow> mover list" where
  "demo_start k \<equiv> replicate 3 Main_moves @ [Exec_moves] @ replicate 2 (Student_moves k)"

abbreviation demo_take :: "nat \<Rightarrow> mover list" where
  "demo_take k \<equiv> replicate 5 (Student_moves k) @ replicate 5 Pipe_moves @ replicate 6 (Student_moves k)"

abbreviation demo_give :: "nat \<Rightarrow> mover list" where
  "demo_give k \<equiv> replicate 3 (Student_moves k) @ replicate 4 Pipe_moves @ replicate 2 (Student_moves k)"

text \<open>
  C17.  Two taps, never shared.  For at most ten students that want less than ten litres each, in every state that \<open>main\<close>, the process of the taps and the students reach, in whatever order they
  run: at most one student talks to the process of the taps; a student that uses a tap has tap 1 or 2, and no other student has the same; the process of the taps finds a free tap whenever a
  student asks for one; and neither it nor \<open>main\<close> leaves its arrays.
\<close>

theorem taps_shared:
  assumes "small_data a" "water_reach a s0 s"
  shows "(\<forall>k < length (students s). \<forall>l < length (students s). sec_pc (students s ! k) \<and> sec_pc (students s ! l) \<longrightarrow> k = l)
    \<and> (\<forall>k < length (students s). uses_tap (students s ! k) \<longrightarrow> faucetId (students s ! k) \<in> {1, 2})
    \<and> (\<forall>k < length (students s). \<forall>l < length (students s).
         uses_tap (students s ! k) \<and> uses_tap (students s ! l) \<and> faucetId (students s ! k) = faucetId (students s ! l) \<longrightarrow> k = l)
    \<and> (p_pc s = P27 \<and> fst (two_ints (request_txt s)) = 0 \<longrightarrow> free_tap (faucet s) 0 \<noteq> None)
    \<and> pipe_step s \<noteq> Some (Inl e) \<and> main_step a s \<noteq> Some (Inl e)"
proof -
  obtain taps recs where j: "data_inv a s" "tap_inv s taps" "result_inv a (output_txt s0) s recs" using water_reach_inv [OF assms(2,1)] by (auto simp add: water_inv_def)
  have one: "cnt sec_pc (students s) \<le> 1" using j(2) by (simp add: tap_inv_def)
  have tap: "\<exists>i < 2. taps ! k = Some i \<and> faucetId (students s ! k) = of_nat (i + 1)" if "k < length (students s)" "uses_tap (students s ! k)" for k
  proof -
    have "talk_ok s (students s ! k, taps ! k)" using j(2) that(1) by (simp add: tap_inv_def)
    then show ?thesis using that(2) tap_small [OF j(2) that(1)] by (auto simp add: uses_tap_def talk_ok_def tap_known_def)
  qed
  have tap12: "faucetId (students s ! k) \<in> {1, 2}" if "k < length (students s)" "uses_tap (students s ! k)" for k
    using tap [OF that] by (auto simp add: less_2_cases_iff)
  have inj: "k = l" if kl: "k < length (students s)" "l < length (students s)" "uses_tap (students s ! k)" "uses_tap (students s ! l)" "faucetId (students s ! k) = faucetId (students s ! l)" for k l
  proof -
    obtain i where i: "i < 2" "taps ! k = Some i" "faucetId (students s ! k) = of_nat (i + 1)" using tap [OF kl(1,3)] by blast
    obtain m where m: "m < 2" "taps ! l = Some m" "faucetId (students s ! l) = of_nat (m + 1)" using tap [OF kl(2,4)] by blast
    have "i = m" using i m kl(5) by (auto simp add: less_2_cases_iff)
    moreover have "length taps = length (students s)" "taps_ok (faucet s) taps" using j(2) by (simp_all add: tap_inv_def)
    ultimately show ?thesis using i m kl(1,2) unfolding taps_ok_def by metis
  qed
  have free: "free_tap (faucet s) 0 \<noteq> None" if p: "p_pc s = P27" "fst (two_ints (request_txt s)) = 0"
  proof -
    have "\<not> quiet_taps s" using p by (simp add: quiet_taps_def)
    from pipe_partner [OF j(2) this] obtain k where k: "k < length (students s)"
      and kk: "st_pc (students s ! k) = S43 \<and> asking s (students s ! k) (taps ! k) \<or> st_pc (students s ! k) = S76 \<and> returning s (students s ! k) (taps ! k)" by blast
    have "\<not> returning s (students s ! k) (taps ! k)" using p by (auto simp add: returning_def)
    then have "st_pc (students s ! k) = S43 \<and> taps ! k = None" using kk p(1) by (auto simp add: asking_def)
    then show ?thesis using tap_is_free [OF j(2) k] by auto
  qed
  have "pipe_step s \<noteq> Some (Inl e)" "main_step a s \<noteq> Some (Inl e)"
    using pipe_tap_inv [OF assms(1) j(1,2), of "Inl e"] main_result_inv [OF assms(1) j(1,3), of "Inl e"] by auto
  moreover have "\<forall>k < length (students s). \<forall>l < length (students s). sec_pc (students s ! k) \<and> sec_pc (students s ! l) \<longrightarrow> k = l" using cnt_one [OF one] by blast
  moreover have "\<forall>k < length (students s). \<forall>l < length (students s).
    uses_tap (students s ! k) \<and> uses_tap (students s ! l) \<and> faucetId (students s ! k) = faucetId (students s ! l) \<longrightarrow> k = l" using inj by blast
  ultimately show ?thesis using tap12 free by simp
qed

text \<open>Two students with 5 and 7 litres have a tap at the same time.\<close>

theorem taps_shared_witness:
  "\<exists>s. water_reach [5, 7] demo_water s \<and> uses_tap (students s ! 0) \<and> uses_tap (students s ! 1) \<and> length (students s) = 2
     \<and> faucetId (students s ! 0) \<in> {1, 2} \<and> faucetId (students s ! 1) \<in> {1, 2} \<and> faucetId (students s ! 0) \<noteq> faucetId (students s ! 1)"
proof -
  define s where "s = fold (water_move [5, 7]) (Main_moves # demo_start 0 @ demo_start 1 @ demo_take 0 @ demo_take 1) demo_water"
  have r: "water_reach [5, 7] demo_water s" unfolding s_def by (intro water_run_reach water_reach.refl demo_water_start)
  have u: "map st_pc (students s) = [S65, S65]" unfolding s_def by code_simp
  then have l: "length (students s) = 2" by (metis length_map length_Cons list.size(3) numeral_2_eq_2)
  then have p: "uses_tap (students s ! 0)" "uses_tap (students s ! 1)" using u by (auto simp add: uses_tap_def list_eq_iff_nth_eq less_2_cases_iff)
  have "small_data [5, 7]" by (simp add: small_data_def)
  note th = taps_shared [OF this r, where e = Halted]
  have k: "\<forall>k < length (students s). \<forall>l < length (students s). uses_tap (students s ! k) \<and> uses_tap (students s ! l) \<and> faucetId (students s ! k) = faucetId (students s ! l) \<longrightarrow> k = l"
    "\<forall>k < length (students s). uses_tap (students s ! k) \<longrightarrow> faucetId (students s ! k) \<in> {1, 2}" using th by blast+
  have "faucetId (students s ! 0) \<noteq> faucetId (students s ! 1)" using k(1) [rule_format, of 0 1] l p by auto
  then show ?thesis using r l p k(2) by (intro exI [of _ s]) auto
qed

lemma water_restart:
  assumes d: "data_inv a s" and i: "tap_inv s taps" and r: "result_inv a out s recs" and m: "m_pc s = M136"
  shows "water_start (s\<lparr>students := [], m_pc := M90\<rparr>)"
proof -
  have f: "st_pc t = S79" if "t \<in> set (students s)" for t using data_inv_done [OF d] m that by (auto simp add: in_set_conv_nth)
  have c: "cnt P (students s) = 0" if "\<And>t. st_pc t = S79 \<Longrightarrow> \<not> P t" for P using f that by (simp add: cnt_def filter_empty_conv)
  have tn: "taps ! k = None" if "k < length taps" for k
  proof -
    have "talk_ok s (students s ! k, taps ! k)" "k < length (students s)" using i that by (simp_all add: tap_inv_def)
    then show ?thesis using f [of "students s ! k"] by (simp add: talk_ok_def)
  qed
  have n: "Some j \<notin> set taps" for j using tn by (metis in_set_conv_nth option.discI)
  have "cnt permit (zip (students s) taps) = 0" using cnt_ex [of permit "zip (students s) taps"] tn f by (auto simp add: permit_def)
  moreover have z: "cnt sec_pc (students s) = 0" "cnt out_pc (students s) = 0" "cnt data_pc (students s) = 0" using c by (simp_all add: sec_pc_def out_pc_def data_pc_def)
  ultimately have sm: "sem s Pipe_mutex = 1" "sem s Faucet = 2" "sem s Output_mutex = 1" "sem s File_mutex = 1" using i r d m by (simp_all add: tap_inv_def result_inv_def data_inv_def)
  then have q: "quiet_taps s" using i by (simp add: tap_inv_def)
  have "sem s = (\<lambda>x. case x of Open_water \<Rightarrow> 0 | Faucet \<Rightarrow> 2 | File_mutex \<Rightarrow> 1 | Request_water \<Rightarrow> 0 | Pipe_mutex \<Rightarrow> 1 | Output_mutex \<Rightarrow> 1)"
    using sm q by (auto simp add: fun_eq_iff quiet_taps_def split: water_sem.splits)
  moreover have "faucet s = [False, False]" using i n by (auto simp add: tap_inv_def taps_ok_def list_eq_iff_nth_eq less_2_cases_iff)
  ultimately show ?thesis using q r by (simp add: water_start_def quiet_taps_def result_inv_def)
qed

text \<open>
  C18.  Every student gets its water and the answer is right.  For at most ten students that want less than ten litres each: every step, whoever makes it, lowers a bound on the steps that are left, so
  that every run ends; a run can only end when \<open>solve\<close> has returned (true, or false after \<open>Exec\<close> failed) and all students that were started have ended, so nobody waits for ever.  When \<open>solve\<close>
  returned true, the line it has added to \<^verbatim>\<open>output.txt\<close> gives, in the order of the students, the tap that each of them had; the semaphores and the taps are as they were before, ready for the next
  call.
\<close>

theorem water_finishes:
  assumes "small_data a" "water_reach a s0 s"
  shows "(\<forall>s'. water_step a s s' \<longrightarrow> water_left a s' < water_left a s)
    \<and> ((\<nexists>s'. water_step a s s') \<longrightarrow> m_pc s \<in> {M136, M_false} \<and> (\<forall>k < length (students s). st_pc (students s ! k) = S79))
    \<and> (m_pc s = M136 \<longrightarrow> length (students s) = length a \<and> (\<forall>t \<in> set (students s). faucetId t \<in> {1, 2})
         \<and> output_txt s = output_txt s0 @ concat (map (\<lambda>t. num_bytes (faucetId t) @ [ch_space]) (students s)) @ [ch_nl]
         \<and> water_start (s\<lparr>students := [], m_pc := M90\<rparr>))"
proof -
  have inv: "water_inv a (output_txt s0) s" using water_reach_inv [OF assms(2,1)] .
  then obtain taps recs where j: "data_inv a s" "tap_inv s taps" "result_inv a (output_txt s0) s recs" by (auto simp add: water_inv_def)
  have out: "length (students s) = length a \<and> (\<forall>t \<in> set (students s). faucetId t \<in> {1, 2})
         \<and> output_txt s = output_txt s0 @ concat (map (\<lambda>t. num_bytes (faucetId t) @ [ch_space]) (students s)) @ [ch_nl]" if m: "m_pc s = M136"
  proof -
    have f: "length (students s) = length a" "\<forall>k < length a. st_pc (students s ! k) = S79" using data_inv_done [OF j(1)] m by simp_all
    have r: "\<forall>p \<in> set recs. faucetId (students s ! fst p) = of_nat (snd p)" "\<forall>p \<in> set recs. answer s ! fst p = of_nat (snd p)" "\<forall>p \<in> set recs. 1 \<le> snd p \<and> snd p \<le> 2"
      "output_txt s = output_txt s0 @ answer_line (length a) (answer s)" using j(3) m unfolding result_inv_def by auto
    have k: "answer s ! k = faucetId (students s ! k) \<and> faucetId (students s ! k) \<in> {1, 2}" if "k < length a" for k
    proof -
      have "k \<in> fst ` set recs" using that recs_complete(1) [OF j(3) f] by simp
      then obtain p where p: "p \<in> set recs" "fst p = k" by auto
      have "snd p = 1 \<or> snd p = 2" using r(3) p(1) by force
      then show ?thesis using r(1,2) p by auto
    qed
    have "map (\<lambda>k. num_bytes (answer s ! k) @ [ch_space]) [0..<length a] = map (\<lambda>t. num_bytes (faucetId t) @ [ch_space]) (students s)"
      using k f(1) by (intro nth_equalityI) simp_all
    moreover have "\<forall>t \<in> set (students s). faucetId t \<in> {1, 2}" using k f(1) by (metis in_set_conv_nth)
    ultimately show ?thesis using f(1) r(4) by (simp add: answer_line_def)
  qed
  show ?thesis using water_left_less [OF j(1)] water_goes_on [OF assms(1) inv] out water_restart [OF j] by blast
qed

text \<open>One student with 5 litres gets tap 1.\<close>

theorem water_finishes_witness:
  "\<exists>s. water_reach [5] demo_water s \<and> m_pc s = M136 \<and> output_txt s = [65, 49, 32, 10] \<and> water_start (s\<lparr>students := [], m_pc := M90\<rparr>)"
proof -
  define s where "s = fold (water_move [5]) (Main_moves # demo_start 0 @ demo_take 0 @ demo_give 0 @ replicate 5 Main_moves) demo_water"
  have r: "water_reach [5] demo_water s" unfolding s_def by (intro water_run_reach water_reach.refl demo_water_start)
  have u: "m_pc s = M136 \<and> map (\<lambda>t. num_bytes (faucetId t)) (students s) = [[49]]" unfolding s_def by code_simp
  then obtain t where t: "students s = [t]" "num_bytes (faucetId t) = [49]" by auto
  have "small_data [5]" by (simp add: small_data_def)
  from water_finishes [OF this r] show ?thesis using r u t by (intro exI [of _ s]) (simp add: demo_water_def)
qed

text \<open>
  With more litres the protocol breaks: the request to give the tap back leaves a digit of the number of litres behind, and the process of the taps writes outside its array.
\<close>

lemma taps_overrun:
  "\<exists>s. water_reach [25] demo_water s \<and> pipe_step s = Some (Inl Out_of_bounds)"
proof -
  define s where "s = fold (water_move [25]) (Main_moves # demo_start 0 @ demo_take 0 @ replicate 3 (Student_moves 0) @ replicate 2 Pipe_moves) demo_water"
  have "water_reach [25] demo_water s" unfolding s_def by (intro water_run_reach water_reach.refl demo_water_start)
  moreover have "case pipe_step s of Some (Inl Out_of_bounds) \<Rightarrow> True | _ \<Rightarrow> False" unfolding s_def by code_simp
  ultimately show ?thesis by (intro exI [of _ s]) (auto split: option.splits sum.splits failure.splits)
qed

end
