(* ===== verification/SynchList.thy ===== *)
theory SynchList
  imports NachOS_List
begin
text \<open>
  \<^verbatim>\<open>code/threads/synchlist.cc\<close>: a list that threads share, with the lock and the condition variable of \<^verbatim>\<open>code/threads/synch.cc\<close>.

  A thread that has called a routine is at one of its calls; every call is a step, and the threads take their steps in any order.  \<open>sl_lock\<close> is the holder of the lock, which has at most one
  (\<^verbatim>\<open>Kernel\<close>).  \<open>sl_queue\<close> is \<open>waitQueue\<close> of the condition: the semaphore that \<open>Condition::Wait\<close> creates belongs to one thread and is represented by it; its value is kept at the place of
  the sleeping thread.  The items are a list with the operations, and their assertions, that \<^verbatim>\<open>NachOS_List\<close> proves \<open>List\<close> to implement.  \<open>sl_removed\<close> is not in the code: it records what \<open>RemoveFront\<close> has taken, in order.
\<close>

section \<open>Model\<close>

datatype 'a place =
    Outside
  | Append_Acquire 'a | Append_Append 'a | Append_Signal | Append_Release
  | Remove_Acquire | Remove_IsEmpty | Remove_Wait | Remove_Wait_P nat | Remove_Wait_Acquire | Remove_RemoveFront | Remove_Release 'a
  | Apply_Acquire | Apply_Apply | Apply_Release

record 'a synch_list =
  sl_list :: "'a list"
  sl_lock :: "nat option"
  sl_queue :: "nat list"
  sl_place :: "nat \<Rightarrow> 'a place"
  sl_removed :: "'a list"

definition SynchList_new :: "'a synch_list" where
  "SynchList_new = \<lparr>sl_list = [], sl_lock = None, sl_queue = [], sl_place = (\<lambda>_. Outside), sl_removed = []\<rparr>"

definition at_place :: "nat \<Rightarrow> 'a place \<Rightarrow> 'a synch_list \<Rightarrow> 'a synch_list" where
  "at_place t p s = s\<lparr>sl_place := (sl_place s)(t := p)\<rparr>"

text \<open>\<open>lock->Acquire()\<close> and \<open>lock->Release()\<close> of thread \<open>t\<close>.\<close>

definition sl_Acquire :: "nat \<Rightarrow> 'a place \<Rightarrow> 'a synch_list \<Rightarrow> 'a synch_list res option" where
  "sl_Acquire t p s = (if sl_lock s = None then Some (Inr (at_place t p (s\<lparr>sl_lock := Some t\<rparr>))) else None)"

definition sl_Release :: "nat \<Rightarrow> 'a place \<Rightarrow> 'a synch_list \<Rightarrow> 'a synch_list res option" where
  "sl_Release t p s = Some (bindE (assertE (sl_lock s = Some t)) (\<lambda>_. Inr (at_place t p (s\<lparr>sl_lock := None\<rparr>))))"

text \<open>\<open>listEmpty->Signal(lock)\<close>: the first waiter in the queue, if any, is taken from it, and \<open>V\<close> is called for its semaphore.\<close>

definition sl_Signal :: "nat \<Rightarrow> 'a place \<Rightarrow> 'a synch_list \<Rightarrow> 'a synch_list res option" where
  "sl_Signal t p s = Some (bindE (assertE (sl_lock s = Some t)) (\<lambda>_.
     case sl_queue s of
       [] \<Rightarrow> Inr (at_place t p s)
     | w # ws \<Rightarrow> (case sl_place s w of
           Remove_Wait_P v \<Rightarrow> Inr (at_place t p (at_place w (Remove_Wait_P (v + 1)) (s\<lparr>sl_queue := ws\<rparr>)))
         | _ \<Rightarrow> Inl Null_deref)))"

text \<open>\<open>listEmpty->Wait(lock)\<close> up to \<open>waiter->P()\<close>.\<close>

definition sl_Wait :: "nat \<Rightarrow> 'a synch_list \<Rightarrow> 'a synch_list res option" where
  "sl_Wait t s = Some (bindE (assertE (sl_lock s = Some t)) (\<lambda>_. Inr (at_place t (Remove_Wait_P 0) (s\<lparr>sl_queue := sl_queue s @ [t], sl_lock := None\<rparr>))))"

text \<open>One step of thread \<open>t\<close>; \<open>None\<close> when it waits, or is not in a routine of the list.\<close>

definition SynchList_step :: "nat \<Rightarrow> 'a synch_list \<Rightarrow> 'a synch_list res option" where
  "SynchList_step t s = (case sl_place s t of
       Outside \<Rightarrow> None
     | Append_Acquire x \<Rightarrow> sl_Acquire t (Append_Append x) s
     | Append_Append x \<Rightarrow> Some (bindE (lst_append (sl_list s) x) (\<lambda>l. Inr (at_place t Append_Signal (s\<lparr>sl_list := l\<rparr>))))
     | Append_Signal \<Rightarrow> sl_Signal t Append_Release s
     | Append_Release \<Rightarrow> sl_Release t Outside s
     | Remove_Acquire \<Rightarrow> sl_Acquire t Remove_IsEmpty s
     | Remove_IsEmpty \<Rightarrow> Some (Inr (at_place t (if sl_list s = [] then Remove_Wait else Remove_RemoveFront) s))
     | Remove_Wait \<Rightarrow> sl_Wait t s
     | Remove_Wait_P v \<Rightarrow> (if v = 0 then None else Some (Inr (at_place t Remove_Wait_Acquire s)))
     | Remove_Wait_Acquire \<Rightarrow> sl_Acquire t Remove_IsEmpty s
     | Remove_RemoveFront \<Rightarrow> Some (bindE (lst_remove_front (sl_list s)) (\<lambda>(x, xs).
         Inr (at_place t (Remove_Release x) (s\<lparr>sl_list := xs, sl_removed := sl_removed s @ [x]\<rparr>))))
     | Remove_Release x \<Rightarrow> sl_Release t Outside s
     | Apply_Acquire \<Rightarrow> sl_Acquire t Apply_Apply s
     | Apply_Apply \<Rightarrow> Some (Inr (at_place t Apply_Release s))
     | Apply_Release \<Rightarrow> sl_Release t Outside s)"

text \<open>
  The states that threads reach by calling \<open>Append\<close>, \<open>RemoveFront\<close> and \<open>Apply\<close>, with the items that were appended, in the order in which they were put on the list.
\<close>

definition sl_appends :: "nat \<Rightarrow> 'a synch_list \<Rightarrow> 'a list" where
  "sl_appends t s = (case sl_place s t of Append_Append x \<Rightarrow> [x] | _ \<Rightarrow> [])"

inductive sl_reach :: "'a synch_list \<Rightarrow> 'a list \<Rightarrow> bool" where
  new: "sl_reach SynchList_new []"
| call_Append: "sl_reach s A \<Longrightarrow> sl_place s t = Outside \<Longrightarrow> sl_reach (at_place t (Append_Acquire x) s) A"
| call_RemoveFront: "sl_reach s A \<Longrightarrow> sl_place s t = Outside \<Longrightarrow> sl_reach (at_place t Remove_Acquire s) A"
| call_Apply: "sl_reach s A \<Longrightarrow> sl_place s t = Outside \<Longrightarrow> sl_reach (at_place t Apply_Acquire s) A"
| step: "sl_reach s A \<Longrightarrow> SynchList_step t s = Some (Inr s') \<Longrightarrow> sl_reach s' (A @ sl_appends t s)"

section \<open>Invariant\<close>

fun holding :: "'a place \<Rightarrow> bool" where
  "holding (Append_Append _) = True" | "holding Append_Signal = True" | "holding Append_Release = True"
| "holding Remove_IsEmpty = True" | "holding Remove_Wait = True" | "holding Remove_RemoveFront = True" | "holding (Remove_Release _) = True"
| "holding Apply_Apply = True" | "holding Apply_Release = True" | "holding _ = False"

text \<open>A thread that will look at the list, or wake up one that will.\<close>

fun active_place :: "'a place \<Rightarrow> bool" where
  "active_place Append_Signal = True" | "active_place (Remove_Wait_P v) = (0 < v)" | "active_place Remove_Wait_Acquire = True" | "active_place Remove_IsEmpty = True"
| "active_place Remove_RemoveFront = True" | "active_place _ = False"

definition sl_active :: "'a synch_list \<Rightarrow> nat set" where
  "sl_active s = {t. active_place (sl_place s t)}"

definition sl_inv :: "'a synch_list \<Rightarrow> 'a list \<Rightarrow> bool" where
  "sl_inv s A \<longleftrightarrow> finite {t. sl_place s t \<noteq> Outside} \<and> (\<forall>t. holding (sl_place s t) \<longleftrightarrow> sl_lock s = Some t)
     \<and> distinct (sl_queue s) \<and> (\<forall>t. t \<in> set (sl_queue s) \<longleftrightarrow> sl_place s t = Remove_Wait_P 0)
     \<and> (\<forall>t. sl_place s t = Remove_Wait \<longrightarrow> sl_list s = []) \<and> (\<forall>t. sl_place s t = Remove_RemoveFront \<longrightarrow> sl_list s \<noteq> [])
     \<and> A = sl_removed s @ sl_list s
     \<and> (sl_queue s \<noteq> [] \<longrightarrow> length (sl_list s) \<le> card (sl_active s))"

lemma at_place_simps [simp]:
  "sl_list (at_place t p s) = sl_list s" "sl_lock (at_place t p s) = sl_lock s" "sl_queue (at_place t p s) = sl_queue s" "sl_place (at_place t p s) = (sl_place s)(t := p)"
  "sl_removed (at_place t p s) = sl_removed s"
  by (simp_all add: at_place_def)

lemma active_finite: "finite {t. sl_place s t \<noteq> Outside} \<Longrightarrow> finite (sl_active s)"
  unfolding sl_active_def by (erule rev_finite_subset) auto

lemma active_upd:
  assumes "sl_place s' = (sl_place s)(t := p)"
  shows "sl_active s' = (if active_place p then insert t (sl_active s) else sl_active s - {t})"
  using assms by (auto simp add: sl_active_def)

lemma used_finite: "finite {t. f t \<noteq> Outside} \<Longrightarrow> finite {u. (f(t := p)) u \<noteq> Outside}"
  by (rule finite_subset [of _ "insert t {t. f t \<noteq> Outside}"]) auto

lemma card_active:
  assumes f: "finite {t. sl_place s t \<noteq> Outside}" and u: "sl_place s' = (sl_place s)(t := p)"
  shows "card (sl_active s') + (if active_place (sl_place s t) then 1 else 0) = card (sl_active s) + (if active_place p then 1 else 0)"
proof -
  have fin: "finite (sl_active s)" using active_finite [OF f] .
  have m: "t \<in> sl_active s \<longleftrightarrow> active_place (sl_place s t)" by (simp add: sl_active_def)
  have "card (insert t (sl_active s)) = card (sl_active s) + (if t \<in> sl_active s then 0 else 1)" using fin by (simp add: card_insert_if)
  moreover have "card (sl_active s - {t}) + (if t \<in> sl_active s then 1 else 0) = card (sl_active s)" using fin card_Suc_Diff1 [OF fin, of t] by (cases "t \<in> sl_active s") simp_all
  ultimately show ?thesis unfolding active_upd [OF u] m by (simp split: if_splits)
qed

text \<open>A step that only moves thread \<open>t\<close>, and perhaps changes the lock and the list: what has to be checked.\<close>

lemma sl_inv_move:
  assumes i: "sl_inv s A" and pl: "sl_place s' = (sl_place s)(t := p)" and q: "sl_queue s' = sl_queue s" and w: "sl_place s t \<noteq> Remove_Wait_P 0" "p \<noteq> Remove_Wait_P 0"
    and lk: "\<And>u. u \<noteq> t \<Longrightarrow> sl_lock s' = Some u \<longleftrightarrow> sl_lock s = Some u" "holding p \<longleftrightarrow> sl_lock s' = Some t"
    and ls: "sl_list s' = sl_list s \<or> sl_lock s = Some t"
    and pw: "p = Remove_Wait \<Longrightarrow> sl_list s' = []" "p = Remove_RemoveFront \<Longrightarrow> sl_list s' \<noteq> []"
    and ff: "A' = sl_removed s' @ sl_list s'"
    and ac: "length (sl_list s) + (if active_place p then 1 else 0) \<ge> length (sl_list s') + (if active_place (sl_place s t) then 1 else 0) \<or> sl_list s' = []"
  shows "sl_inv s' A'"
proof -
  have fin: "finite {t. sl_place s t \<noteq> Outside}" using i unfolding sl_inv_def by blast
  have h: "holding (sl_place s u) \<longleftrightarrow> sl_lock s = Some u" for u using i unfolding sl_inv_def by blast
  have no: "\<not> holding (sl_place s u)" if "sl_lock s = Some t" "u \<noteq> t" for u using h that by simp
  have 1: "finite {t. sl_place s' t \<noteq> Outside}" unfolding pl using fin by (rule used_finite)
  have 2: "holding (sl_place s' u) \<longleftrightarrow> sl_lock s' = Some u" for u using h lk by (simp add: pl)
  have 3: "u \<in> set (sl_queue s) \<longleftrightarrow> sl_place s' u = Remove_Wait_P 0" for u using i w unfolding sl_inv_def by (auto simp add: pl)
  have 4: "sl_list s' = []" if "sl_place s' u = Remove_Wait" for u
  proof (cases "u = t")
    case False
    then have "sl_place s u = Remove_Wait" "sl_list s = []" using that i unfolding sl_inv_def by (auto simp add: pl)
    then show ?thesis using ls no [OF _ False] by auto
  qed (use that pw(1) in \<open>simp add: pl\<close>)
  have 5: "sl_list s' \<noteq> []" if "sl_place s' u = Remove_RemoveFront" for u
  proof (cases "u = t")
    case False
    then have "sl_place s u = Remove_RemoveFront" "sl_list s \<noteq> []" using that i unfolding sl_inv_def by (auto simp add: pl)
    then show ?thesis using ls no [OF _ False] by auto
  qed (use that pw(2) in \<open>simp add: pl\<close>)
  have 6: "length (sl_list s') \<le> card (sl_active s')" if "sl_queue s \<noteq> []"
  proof -
    have "length (sl_list s) \<le> card (sl_active s)" using i that unfolding sl_inv_def by blast
    then show ?thesis using card_active [OF fin pl] ac by (auto split: if_splits)
  qed
  show ?thesis using 1 2 3 4 5 6 ff i q unfolding sl_inv_def by auto
qed

text \<open>The two steps that change the queue.\<close>

lemma sl_inv_Wait:
  assumes i: "sl_inv s A" and t: "sl_place s t = Remove_Wait"
  shows "sl_inv (at_place t (Remove_Wait_P 0) (s\<lparr>sl_queue := sl_queue s @ [t], sl_lock := None\<rparr>)) A"
proof -
  have fin: "finite {t. sl_place s t \<noteq> Outside}" and l: "sl_list s = []" using i t unfolding sl_inv_def by blast+
  have lk: "sl_lock s = Some t" using i t unfolding sl_inv_def by (metis holding.simps(5))
  have n: "t \<notin> set (sl_queue s)" using i t unfolding sl_inv_def by auto
  have h: "holding (sl_place s u) \<longleftrightarrow> u = t" for u using i lk unfolding sl_inv_def by auto
  show ?thesis using i t l n h used_finite [OF fin, of t "Remove_Wait_P 0"] unfolding sl_inv_def by auto
qed

lemma sl_inv_Signal:
  assumes i: "sl_inv s A" and t: "sl_place s t = Append_Signal" and q: "sl_queue s = w # ws"
  shows "sl_place s w = Remove_Wait_P 0" "sl_inv (at_place t Append_Release (at_place w (Remove_Wait_P 1) (s\<lparr>sl_queue := ws\<rparr>))) A"
proof -
  have fin: "finite {t. sl_place s t \<noteq> Outside}" using i unfolding sl_inv_def by blast
  have d: "distinct (w # ws)" and qp: "\<And>u. u \<in> set (w # ws) \<longleftrightarrow> sl_place s u = Remove_Wait_P 0" using i q unfolding sl_inv_def by auto
  show w: "sl_place s w = Remove_Wait_P 0" using qp by auto
  have tw: "t \<noteq> w" using t w by auto
  let ?s1 = "at_place w (Remove_Wait_P 1) (s\<lparr>sl_queue := ws\<rparr>)" and ?s2 = "at_place t Append_Release (at_place w (Remove_Wait_P 1) (s\<lparr>sl_queue := ws\<rparr>))"
  have f1: "finite {t. sl_place ?s1 t \<noteq> Outside}" using used_finite [OF fin, of w "Remove_Wait_P 1"] by simp
  have "sl_place ?s2 = (sl_place ?s1)(t := Append_Release)" by simp
  then have f2: "finite {t. sl_place ?s2 t \<noteq> Outside}" using used_finite [OF f1, of t Append_Release] by (simp only:)
  have "card (sl_active ?s1) = card (sl_active s) + 1" using card_active [OF fin, of ?s1 w "Remove_Wait_P 1"] w by simp
  moreover have "card (sl_active ?s2) + 1 = card (sl_active ?s1)" using card_active [OF f1, of ?s2 t Append_Release] t tw by simp
  ultimately have ac: "card (sl_active ?s2) = card (sl_active s)" by simp
  have "length (sl_list s) \<le> card (sl_active s)" using i q by (simp add: sl_inv_def)
  moreover have "u \<in> set ws \<longleftrightarrow> sl_place ?s2 u = Remove_Wait_P 0" for u using qp [of u] qp [of t] d t tw by auto
  moreover have "holding (sl_place ?s2 u) \<longleftrightarrow> sl_lock s = Some u" for u 
  proof -
    have h: "holding (sl_place s u) \<longleftrightarrow> sl_lock s = Some u" for u using i unfolding sl_inv_def by blast
    show ?thesis using h [of u] h [of t] h [of w] t w by auto
  qed
  ultimately show "sl_inv ?s2 A" using i f2 d ac t w unfolding sl_inv_def by auto
qed

lemma sl_inv_call:
  assumes "sl_inv s A" "sl_place s t = Outside" "\<not> holding p" "\<not> active_place p" "p \<noteq> Remove_Wait_P 0"
  shows "sl_inv (at_place t p s) A"
proof (rule sl_inv_move [OF assms(1), where t = t and p = p])
  have "holding (sl_place s t) \<longleftrightarrow> sl_lock s = Some t" using assms(1) unfolding sl_inv_def by blast
  then show "holding p \<longleftrightarrow> sl_lock (at_place t p s) = Some t" using assms(2,3) by simp
  show "p = Remove_Wait \<Longrightarrow> sl_list (at_place t p s) = []" "p = Remove_RemoveFront \<Longrightarrow> sl_list (at_place t p s) \<noteq> []" using assms(3) by auto
  show "A = sl_removed (at_place t p s) @ sl_list (at_place t p s)" using assms(1) by (simp add: sl_inv_def)
qed (use assms in simp_all)

lemma SynchList_step_inv:
  assumes i: "sl_inv s A" and st: "SynchList_step t s = Some r"
    and nd: "\<And>x. sl_place s t = Append_Append x \<Longrightarrow> x \<notin> set (sl_list s)"
  shows "\<exists>s'. r = Inr s' \<and> sl_inv s' (A @ sl_appends t s)"
proof -
  have h: "holding (sl_place s u) \<longleftrightarrow> sl_lock s = Some u" for u using i unfolding sl_inv_def by blast
  have ff: "A = sl_removed s @ sl_list s" using i unfolding sl_inv_def by blast
  have rw: "sl_place s t = Remove_RemoveFront \<Longrightarrow> sl_list s \<noteq> []" using i unfolding sl_inv_def by blast
  note move = sl_inv_move [OF i, where t = t]
  note d = SynchList_step_def sl_Acquire_def sl_Release_def sl_appends_def
  have rel: "\<exists>s'. r = Inr s' \<and> sl_inv s' A" if "sl_Release t Outside s = Some r" "holding (sl_place s t)" "\<not> active_place (sl_place s t)"
  proof -
    have l: "sl_lock s = Some t" using h that(2) by simp
    have "sl_inv (at_place t Outside (s\<lparr>sl_lock := None\<rparr>)) A" by (rule move [where p = Outside]) (use that(2,3) l ff in auto)
    then show ?thesis using that(1) l by (auto simp add: sl_Release_def)
  qed
  have acq: "\<exists>s'. r = Inr s' \<and> sl_inv s' A"
    if "sl_Acquire t p s = Some r" "holding p" "sl_place s t \<noteq> Remove_Wait_P 0" "active_place (sl_place s t) \<longrightarrow> active_place p" "p \<noteq> Remove_Wait" "p \<noteq> Remove_RemoveFront" for p
  proof -
    have l: "sl_lock s = None" "r = Inr (at_place t p (s\<lparr>sl_lock := Some t\<rparr>))" using that(1) by (auto simp add: sl_Acquire_def split: if_splits)
    have "sl_inv (at_place t p (s\<lparr>sl_lock := Some t\<rparr>)) A" by (rule move [where p = p]) (use that(2-) l ff in \<open>auto split: if_splits\<close>)
    then show ?thesis using l(2) by blast
  qed
  show ?thesis
  proof (cases "sl_place s t")
    case Outside
    then show ?thesis using st by (simp add: d)
  next
    case (Append_Acquire x)
    then show ?thesis using st acq [of "Append_Append x"] by (simp add: SynchList_step_def sl_appends_def)
  next
    case (Append_Append x)
    let ?s = "at_place t Append_Signal (s\<lparr>sl_list := sl_list s @ [x]\<rparr>)"
    have "sl_inv ?s (A @ [x])" by (rule move [where p = Append_Signal]) (use Append_Append h [of t] ff in auto)
    then show ?thesis using st Append_Append nd by (auto simp add: d lst_append_def)
  next
    case Append_Signal
    have l: "sl_lock s = Some t" using h [of t] Append_Signal by simp
    show ?thesis
    proof (cases "sl_queue s")
      case Nil
      let ?s = "at_place t Append_Release s"
      have "sl_place ?s = (sl_place s)(t := Append_Release)" by simp
      have "sl_inv ?s A" using i Append_Signal l Nil used_finite [of "sl_place s" t Append_Release] unfolding sl_inv_def by auto
      then show ?thesis using st Append_Signal Nil l by (auto simp add: d sl_Signal_def)
    next
      case (Cons w ws)
      then show ?thesis using st Append_Signal l sl_inv_Signal [OF i Append_Signal Cons] by (auto simp add: d sl_Signal_def)
    qed
  next
    case Append_Release
    then show ?thesis using st rel by (simp add: SynchList_step_def sl_appends_def)
  next
    case Remove_Acquire
    then show ?thesis using st acq [of Remove_IsEmpty] by (simp add: SynchList_step_def sl_appends_def)
  next
    case Remove_IsEmpty
    let ?p = "if sl_list s = [] then Remove_Wait else Remove_RemoveFront"
    have "sl_inv (at_place t ?p s) A" by (rule move [where p = ?p]) (use Remove_IsEmpty h [of t] ff in \<open>auto split: if_splits\<close>)
    then show ?thesis using st Remove_IsEmpty by (auto simp add: d)
  next
    case Remove_Wait
    then show ?thesis using st sl_inv_Wait [OF i Remove_Wait] h [of t] by (auto simp add: d sl_Wait_def)
  next
    case (Remove_Wait_P v)
    then have v: "0 < v" "r = Inr (at_place t Remove_Wait_Acquire s)" using st by (simp_all add: d split: if_splits)
    have "sl_inv (at_place t Remove_Wait_Acquire s) A" by (rule move [where p = Remove_Wait_Acquire]) (use Remove_Wait_P h [of t] ff v in auto)
    then show ?thesis using v Remove_Wait_P by (auto simp add: d)
  next
    case Remove_Wait_Acquire
    then show ?thesis using st acq [of Remove_IsEmpty] by (simp add: SynchList_step_def sl_appends_def)
  next
    case Remove_RemoveFront
    then obtain x xs where x: "sl_list s = x # xs" using rw by (cases "sl_list s") auto
    let ?s = "at_place t (Remove_Release x) (s\<lparr>sl_list := xs, sl_removed := sl_removed s @ [x]\<rparr>)"
    have "sl_inv ?s A" by (rule move [where p = "Remove_Release x"]) (use Remove_RemoveFront h [of t] ff x in auto)
    then show ?thesis using st Remove_RemoveFront x by (auto simp add: d lst_remove_front_def)
  next
    case (Remove_Release x)
    then show ?thesis using st rel by (simp add: SynchList_step_def sl_appends_def)
  next
    case Apply_Acquire
    then show ?thesis using st acq [of Apply_Apply] by (simp add: SynchList_step_def sl_appends_def)
  next
    case Apply_Apply
    have "sl_inv (at_place t Apply_Release s) A" by (rule move [where p = Apply_Release]) (use Apply_Apply h [of t] ff in auto)
    then show ?thesis using st Apply_Apply by (auto simp add: d)
  next
    case Apply_Release
    then show ?thesis using st rel by (simp add: SynchList_step_def sl_appends_def)
  qed
qed

text \<open>The one assertion that can fail: \<open>List::Append\<close> does not take an item that is in the list.\<close>

lemma step_fails: "sl_place s t = Append_Append x \<Longrightarrow> x \<in> set (sl_list s) \<Longrightarrow> SynchList_step t s = Some (Inl Assert_failed)"
  by (simp add: SynchList_step_def lst_append_def)

lemma step_not_in_list: "SynchList_step t s = Some (Inr s') \<Longrightarrow> sl_place s t = Append_Append x \<Longrightarrow> x \<notin> set (sl_list s)"
  using step_fails by fastforce

lemma sl_reach_inv: "sl_reach s A \<Longrightarrow> sl_inv s A"
proof (induction rule: sl_reach.induct)
  case new
  then show ?case by (simp add: sl_inv_def SynchList_new_def)
next
  case (step s A t s')
  then show ?case using SynchList_step_inv [OF _ _ step_not_in_list] by fastforce
qed (auto intro: sl_inv_call)

text \<open>When no thread can go on.\<close>

lemma sl_stuck:
  assumes i: "sl_inv s A" and no: "\<forall>t. SynchList_step t s = None"
  shows "sl_place s t = Outside \<or> t \<in> set (sl_queue s) \<and> sl_place s t = Remove_Wait_P 0 \<and> sl_list s = []"
proof -
  have h: "holding (sl_place s u) \<longleftrightarrow> sl_lock s = Some u" for u using i unfolding sl_inv_def by blast
  have q: "u \<in> set (sl_queue s) \<longleftrightarrow> sl_place s u = Remove_Wait_P 0" for u using i unfolding sl_inv_def by blast
  have nh: "\<not> holding (sl_place s u)" for u using no [rule_format, of u]
    by (cases "sl_place s u") (auto simp add: SynchList_step_def sl_Release_def sl_Signal_def sl_Wait_def)
  then have "sl_lock s = None" using h by (cases "sl_lock s") auto
  then have p: "sl_place s u = Outside \<or> sl_place s u = Remove_Wait_P 0" for u using no [rule_format, of u] nh [of u]
    by (cases "sl_place s u") (auto simp add: SynchList_step_def sl_Acquire_def split: if_splits)
  have "\<not> active_place (sl_place s u)" for u using p [of u] by auto
  then have "sl_active s = {}" by (simp add: sl_active_def)
  then have "sl_queue s \<noteq> [] \<longrightarrow> sl_list s = []" using i unfolding sl_inv_def by simp
  then show ?thesis using p [of t] q [of t] by auto
qed

section \<open>Properties\<close>





section \<open>The self test\<close>

text \<open>
  \<open>SynchList::SelfTest(val)\<close> in thread 0 and \<open>SelfTestHelper\<close> in thread 1: \<open>st_this\<close> is the list under test, \<open>st_ping\<close> the list \<open>selfTestPing\<close>.  Each thread is at the head of its loop, in a routine of
  \<open>selfTestPing\<close>, or in a routine of the list under test.
\<close>

datatype test_phase = At_loop | In_ping | In_this

record 'a self_test =
  st_this :: "'a synch_list"
  st_ping :: "'a synch_list"
  st_i :: nat
  st_main :: test_phase
  st_j :: nat
  st_helper :: test_phase

definition SelfTest_start :: "'a self_test" where
  "SelfTest_start = \<lparr>st_this = SynchList_new, st_ping = SynchList_new, st_i = 0, st_main = At_loop, st_j = 0, st_helper = At_loop\<rparr>"

definition SelfTest_step :: "'a \<Rightarrow> 'a self_test \<Rightarrow> 'a self_test res option" where
  "SelfTest_step val s = (case st_main s of
       At_loop \<Rightarrow> (if st_i s < 10 then Some (Inr (s\<lparr>st_ping := at_place 0 (Append_Acquire val) (st_ping s), st_main := In_ping\<rparr>)) else None)
     | In_ping \<Rightarrow> (if sl_place (st_ping s) 0 = Outside then Some (Inr (s\<lparr>st_this := at_place 0 Remove_Acquire (st_this s), st_main := In_this\<rparr>))
                  else map_option (\<lambda>r. bindE r (\<lambda>l. Inr (s\<lparr>st_ping := l\<rparr>))) (SynchList_step 0 (st_ping s)))
     | In_this \<Rightarrow> map_option (\<lambda>r. bindE r (\<lambda>l.
           case sl_place (st_this s) 0 of
             Remove_Release x \<Rightarrow> bindE (assertE (val = x)) (\<lambda>_. Inr (s\<lparr>st_this := l, st_i := st_i s + 1, st_main := At_loop\<rparr>))
           | _ \<Rightarrow> Inr (s\<lparr>st_this := l\<rparr>))) (SynchList_step 0 (st_this s)))"

definition SelfTestHelper_step :: "'a self_test \<Rightarrow> 'a self_test res option" where
  "SelfTestHelper_step s = (case st_helper s of
       At_loop \<Rightarrow> (if st_j s < 10 then Some (Inr (s\<lparr>st_ping := at_place 1 Remove_Acquire (st_ping s), st_helper := In_ping\<rparr>)) else None)
     | In_ping \<Rightarrow> map_option (\<lambda>r. bindE r (\<lambda>l.
           case sl_place (st_ping s) 1 of
             Remove_Release x \<Rightarrow> Inr (s\<lparr>st_ping := l, st_this := at_place 1 (Append_Acquire x) (st_this s), st_helper := In_this\<rparr>)
           | _ \<Rightarrow> Inr (s\<lparr>st_ping := l\<rparr>))) (SynchList_step 1 (st_ping s))
     | In_this \<Rightarrow> (if sl_place (st_this s) 1 = Outside then Some (Inr (s\<lparr>st_j := st_j s + 1, st_helper := At_loop\<rparr>))
                  else map_option (\<lambda>r. bindE r (\<lambda>l. Inr (s\<lparr>st_this := l\<rparr>))) (SynchList_step 1 (st_this s))))"

inductive test_reach :: "'a \<Rightarrow> 'a self_test \<Rightarrow> bool" for val where
  start: "test_reach val SelfTest_start"
| main: "test_reach val s \<Longrightarrow> SelfTest_step val s = Some (Inr s') \<Longrightarrow> test_reach val s'"
| helper: "test_reach val s \<Longrightarrow> SelfTestHelper_step s = Some (Inr s') \<Longrightarrow> test_reach val s'"

text \<open>
  How many items the thread in \<open>Append\<close> has put on the list, and the thread in \<open>RemoveFront\<close> has taken, in the present call.
\<close>

fun appending :: "'a \<Rightarrow> 'a place \<Rightarrow> nat \<Rightarrow> bool" where
  "appending val (Append_Acquire x) n = (x = val \<and> n = 0)" | "appending val (Append_Append x) n = (x = val \<and> n = 0)"
| "appending val Append_Signal n = (n = 1)" | "appending val Append_Release n = (n = 1)" | "appending val Outside n = (n = 1)" | "appending val _ n = False"

fun removing :: "'a \<Rightarrow> 'a place \<Rightarrow> nat \<Rightarrow> bool" where
  "removing val Remove_Acquire n = (n = 0)" | "removing val Remove_IsEmpty n = (n = 0)" | "removing val Remove_Wait n = (n = 0)" | "removing val (Remove_Wait_P _) n = (n = 0)"
| "removing val Remove_Wait_Acquire n = (n = 0)" | "removing val Remove_RemoveFront n = (n = 0)" | "removing val (Remove_Release x) n = (x = val \<and> n = 1)" | "removing val _ n = False"

text \<open>What a step of thread \<open>t\<close> does to the places and the items.\<close>

lemma step_other_place:
  "SynchList_step t s = Some (Inr s') \<Longrightarrow> u \<noteq> t \<Longrightarrow> sl_place s' u = sl_place s u \<or> (\<exists>v. sl_place s u = Remove_Wait_P v \<and> sl_place s' u = Remove_Wait_P (v + 1))"
  by (auto simp add: SynchList_step_def sl_Acquire_def sl_Release_def sl_Signal_def sl_Wait_def bindE_eq_Inr lst_remove_front_def split: place.splits if_splits list.splits)

lemma step_other:
  assumes "SynchList_step t s = Some (Inr s')" "u \<noteq> t"
  shows "appending val (sl_place s' u) = appending val (sl_place s u)" "removing val (sl_place s' u) = removing val (sl_place s u)" "sl_place s' u = Outside \<longleftrightarrow> sl_place s u = Outside"
  using step_other_place [OF assms] by (auto simp add: fun_eq_iff)

lemma step_appending:
  assumes "SynchList_step t s = Some (Inr s')" "appending val (sl_place s t) n"
  shows "\<exists>k. sl_appends t s = replicate k val \<and> appending val (sl_place s' t) (n + k) \<and> sl_removed s' = sl_removed s"
  using assms by (auto simp add: SynchList_step_def sl_Acquire_def sl_Release_def sl_Signal_def sl_appends_def bindE_eq_Inr lst_append_def split: place.splits if_splits list.splits
    intro: exI [of _ 0] exI [of _ 1])

lemma step_removing:
  assumes "SynchList_step t s = Some (Inr s')" "removing val (sl_place s t) n" "\<nexists>x. sl_place s t = Remove_Release x" "set (sl_list s) \<subseteq> {val}"
  shows "\<exists>k. removing val (sl_place s' t) (n + k) \<and> length (sl_removed s') = length (sl_removed s) + k \<and> sl_appends t s = []"
  using assms by (auto simp add: SynchList_step_def sl_Acquire_def sl_Wait_def sl_appends_def bindE_eq_Inr lst_remove_front_def split: place.splits if_splits list.splits)

lemma step_release:
  assumes "SynchList_step t s = Some (Inr s')" "sl_place s t = Remove_Release x"
  shows "sl_place s' t = Outside" "sl_removed s' = sl_removed s" "sl_appends t s = []"
  using assms by (auto simp add: SynchList_step_def sl_Release_def sl_appends_def bindE_eq_Inr)

definition main_ok :: "'a \<Rightarrow> nat \<Rightarrow> test_phase \<Rightarrow> 'a place \<Rightarrow> 'a place \<Rightarrow> nat \<Rightarrow> nat \<Rightarrow> bool" where
  "main_ok val i ph p t lp lr = (case ph of
       At_loop \<Rightarrow> i \<le> 10 \<and> p = Outside \<and> t = Outside \<and> lp = i \<and> lr = i
     | In_ping \<Rightarrow> i < 10 \<and> t = Outside \<and> lr = i \<and> (\<exists>n. appending val p n \<and> lp = i + n)
     | In_this \<Rightarrow> i < 10 \<and> p = Outside \<and> lp = i + 1 \<and> (\<exists>n. removing val t n \<and> lr = i + n))"

definition helper_ok :: "'a \<Rightarrow> nat \<Rightarrow> test_phase \<Rightarrow> 'a place \<Rightarrow> 'a place \<Rightarrow> nat \<Rightarrow> nat \<Rightarrow> bool" where
  "helper_ok val j ph p t lr lt = (case ph of
       At_loop \<Rightarrow> j \<le> 10 \<and> p = Outside \<and> t = Outside \<and> lr = j \<and> lt = j
     | In_ping \<Rightarrow> j < 10 \<and> t = Outside \<and> lt = j \<and> (\<exists>n. removing val p n \<and> lr = j + n)
     | In_this \<Rightarrow> j < 10 \<and> p = Outside \<and> lr = j + 1 \<and> (\<exists>n. appending val t n \<and> lt = j + n))"

definition test_inv :: "'a \<Rightarrow> 'a self_test \<Rightarrow> 'a list \<Rightarrow> 'a list \<Rightarrow> bool" where
  "test_inv val s P T \<longleftrightarrow> sl_reach (st_ping s) P \<and> sl_reach (st_this s) T \<and> set P \<subseteq> {val} \<and> set T \<subseteq> {val}
     \<and> (\<forall>t > 1. sl_place (st_ping s) t = Outside \<and> sl_place (st_this s) t = Outside)
     \<and> main_ok val (st_i s) (st_main s) (sl_place (st_ping s) 0) (sl_place (st_this s) 0) (length P) (length (sl_removed (st_this s)))
     \<and> helper_ok val (st_j s) (st_helper s) (sl_place (st_ping s) 1) (sl_place (st_this s) 1) (length (sl_removed (st_ping s))) (length T)"

lemma reach_items: "sl_reach s A \<Longrightarrow> set A \<subseteq> {val} \<Longrightarrow> set (sl_list s) \<subseteq> {val}"
  using sl_reach_inv [of s A] by (auto simp add: sl_inv_def)

lemma reach_no_failure:
  "sl_reach s A \<Longrightarrow> SynchList_step t s = Some r \<Longrightarrow> (\<And>x. sl_place s t = Append_Append x \<Longrightarrow> x \<notin> set (sl_list s)) \<Longrightarrow> \<exists>s'. r = Inr s' \<and> sl_reach s' (A @ sl_appends t s)"
  using SynchList_step_inv [OF sl_reach_inv] sl_reach.step by blast

text \<open>The steps of the two threads in either list; the other threads notice nothing.\<close>

definition others_same :: "'a \<Rightarrow> nat \<Rightarrow> 'a synch_list \<Rightarrow> 'a synch_list \<Rightarrow> bool" where
  "others_same val t l l' \<longleftrightarrow> (\<forall>u. u \<noteq> t \<longrightarrow> appending val (sl_place l' u) = appending val (sl_place l u) \<and> removing val (sl_place l' u) = removing val (sl_place l u)
     \<and> (sl_place l' u = Outside \<longleftrightarrow> sl_place l u = Outside))"

lemma append_moves:
  assumes "sl_reach l A" "appending val (sl_place l t) n" "SynchList_step t l = Some x" "n = 0 \<Longrightarrow> sl_list l = []"
  shows "\<exists>l' k. x = Inr l' \<and> sl_reach l' (A @ replicate k val) \<and> appending val (sl_place l' t) (n + k) \<and> sl_removed l' = sl_removed l \<and> others_same val t l l'"
proof -
  obtain l' where l: "x = Inr l'" "sl_reach l' (A @ sl_appends t l)" using reach_no_failure [OF assms(1,3)] assms(2,4) by fastforce
  then show ?thesis using step_appending [of t l l' val n] step_other [of t l l'] assms(2,3) unfolding others_same_def by metis
qed

lemma remove_moves:
  assumes "sl_reach l A" "set A \<subseteq> {val}" "removing val (sl_place l t) n" "\<nexists>y. sl_place l t = Remove_Release y" "SynchList_step t l = Some x"
  shows "\<exists>l' k. x = Inr l' \<and> sl_reach l' A \<and> removing val (sl_place l' t) (n + k) \<and> length (sl_removed l') = length (sl_removed l) + k \<and> others_same val t l l'"
proof -
  obtain l' where l: "x = Inr l'" "sl_reach l' (A @ sl_appends t l)" using reach_no_failure [OF assms(1,5)] assms(3) by fastforce
  have "SynchList_step t l = Some (Inr l')" using assms(5) l(1) by simp
  from step_removing [OF this assms(3,4) reach_items [OF assms(1,2)]] step_other [OF this] show ?thesis using l unfolding others_same_def by (metis append_Nil2)
qed

lemma release_moves:
  assumes "sl_reach l A" "sl_place l t = Remove_Release y" "SynchList_step t l = Some x"
  shows "\<exists>l'. x = Inr l' \<and> sl_reach l' A \<and> sl_place l' t = Outside \<and> sl_removed l' = sl_removed l \<and> others_same val t l l'"
proof -
  obtain l' where l: "x = Inr l'" "sl_reach l' (A @ sl_appends t l)" using reach_no_failure [OF assms(1,3)] assms(2) by fastforce
  have "SynchList_step t l = Some (Inr l')" using assms(3) l(1) by simp
  from step_release [OF this assms(2)] step_other [OF this] show ?thesis using l unfolding others_same_def by (metis append_Nil2)
qed

lemmas test_defs = test_inv_def main_ok_def helper_ok_def others_same_def

text \<open>A list that one of the two is about to append to is empty: an item is under way in one list only.\<close>

lemma appending_le: "appending val p n \<Longrightarrow> n \<le> 1"
  by (cases p) auto

lemma test_empty:
  assumes i: "test_inv val s P T"
  shows "st_main s = In_ping \<Longrightarrow> length P = st_i s \<Longrightarrow> sl_list (st_ping s) = []"
    and "st_helper s = In_this \<Longrightarrow> length T = st_j s \<Longrightarrow> sl_list (st_this s) = []"
proof -
  have "P = sl_removed (st_ping s) @ sl_list (st_ping s)" "T = sl_removed (st_this s) @ sl_list (st_this s)"
    using i sl_reach_inv unfolding test_inv_def sl_inv_def by blast+
  then have l: "length P = length (sl_removed (st_ping s)) + length (sl_list (st_ping s))" "length T = length (sl_removed (st_this s)) + length (sl_list (st_this s))"
    by (metis length_append)+
  have m: "length (sl_removed (st_this s)) + 1 \<ge> length P" "st_main s = In_ping \<Longrightarrow> length (sl_removed (st_this s)) = st_i s"
    using i appending_le by (auto simp add: test_inv_def main_ok_def split: test_phase.splits)
  have h: "length T \<le> length (sl_removed (st_ping s))" "st_helper s = In_this \<Longrightarrow> length (sl_removed (st_ping s)) = st_j s + 1"
    using i appending_le by (auto simp add: test_inv_def helper_ok_def split: test_phase.splits)
  show "st_main s = In_ping \<Longrightarrow> length P = st_i s \<Longrightarrow> sl_list (st_ping s) = []"
  proof -
    assume a: "st_main s = In_ping" "length P = st_i s"
    then have "length (sl_list (st_ping s)) = 0" using l m(2) h(1) by linarith
    then show ?thesis by simp
  qed
  show "st_helper s = In_this \<Longrightarrow> length T = st_j s \<Longrightarrow> sl_list (st_this s) = []"
  proof -
    assume a: "st_helper s = In_this" "length T = st_j s"
    then have "length (sl_list (st_this s)) = 0" using l m(1) h(2) by linarith
    then show ?thesis by simp
  qed
qed

lemma main_step_ok:
  assumes i: "test_inv val s P T" and st: "SelfTest_step val s = Some r"
  shows "\<exists>s' P' T'. r = Inr s' \<and> test_inv val s' P' T'"
proof -
  have p: "sl_reach (st_ping s) P" "sl_reach (st_this s) T" "set P \<subseteq> {val}" "set T \<subseteq> {val}" using i by (simp_all add: test_inv_def)
  show ?thesis
  proof (cases "st_main s")
    case At_loop
    then have "r = Inr (s\<lparr>st_ping := at_place 0 (Append_Acquire val) (st_ping s), st_main := In_ping\<rparr>)" "st_i s < 10" using st by (auto simp add: SelfTest_step_def split: if_splits)
    moreover have "sl_reach (at_place 0 (Append_Acquire val) (st_ping s)) P" using i At_loop by (intro sl_reach.call_Append p) (simp add: test_defs)
    ultimately show ?thesis using i At_loop by (intro exI [of _ P] exI [of _ T] exI) (auto simp add: test_inv_def main_ok_def)
  next
    case In_ping
    then obtain n where n: "appending val (sl_place (st_ping s) 0) n" "length P = st_i s + n" using i by (auto simp add: test_inv_def main_ok_def)
    show ?thesis
    proof (cases "sl_place (st_ping s) 0 = Outside")
      case True
      then have "r = Inr (s\<lparr>st_this := at_place 0 Remove_Acquire (st_this s), st_main := In_this\<rparr>)" using st In_ping by (simp add: SelfTest_step_def)
      moreover have "sl_reach (at_place 0 Remove_Acquire (st_this s)) T" using i In_ping by (intro sl_reach.call_RemoveFront p) (simp add: test_inv_def main_ok_def)
      ultimately show ?thesis using i In_ping True n by (intro exI [of _ P] exI [of _ T] exI) (auto simp add: test_inv_def main_ok_def)
    next
      case False
      then obtain x where x: "SynchList_step 0 (st_ping s) = Some x" "r = bindE x (\<lambda>l. Inr (s\<lparr>st_ping := l\<rparr>))" using st In_ping by (auto simp add: SelfTest_step_def)
      from append_moves [OF p(1) n(1) x(1)] test_empty(1) [OF i In_ping] n(2) obtain l k where k: "x = Inr l" "sl_reach l (P @ replicate k val)" "appending val (sl_place l 0) (n + k)" "sl_removed l = sl_removed (st_ping s)"
        "others_same val 0 (st_ping s) l" by auto
      have "test_inv val (s\<lparr>st_ping := l\<rparr>) (P @ replicate k val) T" using i In_ping n k(2-) by (auto simp add: test_defs split: test_phase.splits)
      then show ?thesis using x(2) k(1) by auto
    qed
  next
    case In_this
    then obtain n where n: "removing val (sl_place (st_this s) 0) n" "length (sl_removed (st_this s)) = st_i s + n" using i by (auto simp add: test_inv_def main_ok_def)
    obtain x where x: "SynchList_step 0 (st_this s) = Some x" "r = bindE x (\<lambda>l. case sl_place (st_this s) 0 of
             Remove_Release y \<Rightarrow> bindE (assertE (val = y)) (\<lambda>_. Inr (s\<lparr>st_this := l, st_i := st_i s + 1, st_main := At_loop\<rparr>)) | _ \<Rightarrow> Inr (s\<lparr>st_this := l\<rparr>))"
      using st In_this by (auto simp add: SelfTest_step_def)
    show ?thesis
    proof (cases "\<exists>y. sl_place (st_this s) 0 = Remove_Release y")
      case True
      then obtain y where y: "sl_place (st_this s) 0 = Remove_Release y" "y = val" "n = 1" using n(1) by auto
      from release_moves [OF p(2) y(1) x(1), of val] obtain l where l: "x = Inr l" "sl_reach l T" "sl_place l 0 = Outside" "sl_removed l = sl_removed (st_this s)" "others_same val 0 (st_this s) l" by blast
      have "test_inv val (s\<lparr>st_this := l, st_i := st_i s + 1, st_main := At_loop\<rparr>) P T" using i In_this n y l(2-) by (auto simp add: test_defs split: test_phase.splits)
      then show ?thesis using x(2) l(1) y by auto
    next
      case False
      from remove_moves [OF p(2,4) n(1) False x(1)] obtain l k where k: "x = Inr l" "sl_reach l T" "removing val (sl_place l 0) (n + k)"
        "length (sl_removed l) = length (sl_removed (st_this s)) + k" "others_same val 0 (st_this s) l" by blast
      have "test_inv val (s\<lparr>st_this := l\<rparr>) P T" using i In_this n k(2-) by (auto simp add: test_defs split: test_phase.splits)
      moreover have "r = Inr (s\<lparr>st_this := l\<rparr>)" using x(2) k(1) False by (auto split: place.splits)
      ultimately show ?thesis by blast
    qed
  qed
qed

lemma helper_step_ok:
  assumes i: "test_inv val s P T" and st: "SelfTestHelper_step s = Some r"
  shows "\<exists>s' P' T'. r = Inr s' \<and> test_inv val s' P' T'"
proof -
  have p: "sl_reach (st_ping s) P" "sl_reach (st_this s) T" "set P \<subseteq> {val}" "set T \<subseteq> {val}" using i by (simp_all add: test_inv_def)
  show ?thesis
  proof (cases "st_helper s")
    case At_loop
    then have "r = Inr (s\<lparr>st_ping := at_place 1 Remove_Acquire (st_ping s), st_helper := In_ping\<rparr>)" "st_j s < 10" using st by (auto simp add: SelfTestHelper_step_def split: if_splits)
    moreover have "sl_reach (at_place 1 Remove_Acquire (st_ping s)) P" using i At_loop by (intro sl_reach.call_RemoveFront p) (simp add: test_inv_def helper_ok_def)
    ultimately show ?thesis using i At_loop by (intro exI [of _ P] exI [of _ T] exI) (auto simp add: test_inv_def helper_ok_def)
  next
    case In_this
    then obtain n where n: "appending val (sl_place (st_this s) 1) n" "length T = st_j s + n" using i by (auto simp add: test_inv_def helper_ok_def)
    show ?thesis
    proof (cases "sl_place (st_this s) 1 = Outside")
      case True
      then have "r = Inr (s\<lparr>st_j := st_j s + 1, st_helper := At_loop\<rparr>)" using st In_this by (simp add: SelfTestHelper_step_def)
      then show ?thesis using i In_this True n by (intro exI [of _ P] exI [of _ T] exI) (auto simp add: test_inv_def helper_ok_def)
    next
      case False
      then obtain x where x: "SynchList_step 1 (st_this s) = Some x" "r = bindE x (\<lambda>l. Inr (s\<lparr>st_this := l\<rparr>))" using st In_this by (auto simp add: SelfTestHelper_step_def)
      from append_moves [OF p(2) n(1) x(1)] test_empty(2) [OF i In_this] n(2) obtain l k where k: "x = Inr l" "sl_reach l (T @ replicate k val)" "appending val (sl_place l 1) (n + k)" "sl_removed l = sl_removed (st_this s)"
        "others_same val 1 (st_this s) l" by auto
      have "test_inv val (s\<lparr>st_this := l\<rparr>) P (T @ replicate k val)" using i In_this n k(2-) by (auto simp add: test_defs split: test_phase.splits)
      then show ?thesis using x(2) k(1) by auto
    qed
  next
    case In_ping
    then obtain n where n: "removing val (sl_place (st_ping s) 1) n" "length (sl_removed (st_ping s)) = st_j s + n" using i by (auto simp add: test_inv_def helper_ok_def)
    obtain x where x: "SynchList_step 1 (st_ping s) = Some x" "r = bindE x (\<lambda>l. case sl_place (st_ping s) 1 of
             Remove_Release y \<Rightarrow> Inr (s\<lparr>st_ping := l, st_this := at_place 1 (Append_Acquire y) (st_this s), st_helper := In_this\<rparr>) | _ \<Rightarrow> Inr (s\<lparr>st_ping := l\<rparr>))"
      using st In_ping by (auto simp add: SelfTestHelper_step_def)
    show ?thesis
    proof (cases "\<exists>y. sl_place (st_ping s) 1 = Remove_Release y")
      case True
      then obtain y where y: "sl_place (st_ping s) 1 = Remove_Release y" "y = val" "n = 1" using n(1) by auto
      from release_moves [OF p(1) y(1) x(1), of val] obtain l where l: "x = Inr l" "sl_reach l P" "sl_place l 1 = Outside" "sl_removed l = sl_removed (st_ping s)" "others_same val 1 (st_ping s) l" by blast
      have "sl_reach (at_place 1 (Append_Acquire val) (st_this s)) T" using i In_ping by (intro sl_reach.call_Append p) (simp add: test_inv_def helper_ok_def)
      then have "test_inv val (s\<lparr>st_ping := l, st_this := at_place 1 (Append_Acquire val) (st_this s), st_helper := In_this\<rparr>) P T"
        using i In_ping n y l(2-) by (auto simp add: test_defs split: test_phase.splits)
      then show ?thesis using x(2) l(1) y by auto
    next
      case False
      from remove_moves [OF p(1,3) n(1) False x(1)] obtain l k where k: "x = Inr l" "sl_reach l P" "removing val (sl_place l 1) (n + k)"
        "length (sl_removed l) = length (sl_removed (st_ping s)) + k" "others_same val 1 (st_ping s) l" by blast
      have "test_inv val (s\<lparr>st_ping := l\<rparr>) P T" using i In_ping n k(2-) by (auto simp add: test_defs split: test_phase.splits)
      moreover have "r = Inr (s\<lparr>st_ping := l\<rparr>)" using x(2) k(1) False by (auto split: place.splits)
      ultimately show ?thesis by blast
    qed
  qed
qed

lemma test_reach_inv: "test_reach val s \<Longrightarrow> \<exists>P T. test_inv val s P T"
proof (induction rule: test_reach.induct)
  case start
  have "test_inv val SelfTest_start [] []" by (simp add: test_inv_def main_ok_def helper_ok_def SelfTest_start_def SynchList_new_def sl_reach.new [unfolded SynchList_new_def])
  then show ?case by blast
next
  case (main s s')
  then show ?case using main_step_ok by (metis Inr_inject)
next
  case (helper s s')
  then show ?case using helper_step_ok by (metis Inr_inject)
qed

text \<open>
  The self test passes.  Whatever the order in which the two threads run, the assertion of \<open>SelfTest\<close> and those of the routines it calls hold; and if neither thread can go on, both have done
  their ten rounds and both lists are empty, so none of them waits for the other for ever.
\<close>

lemma SelfTest_passes:
  assumes "test_reach val s"
  shows "SelfTest_step val s \<noteq> Some (Inl e) \<and> SelfTestHelper_step s \<noteq> Some (Inl e)
    \<and> (SelfTest_step val s = None \<and> SelfTestHelper_step s = None \<longrightarrow> st_i s = 10 \<and> st_j s = 10 \<and> sl_list (st_this s) = [] \<and> sl_list (st_ping s) = [])"
proof -
  obtain P T where i: "test_inv val s P T" using test_reach_inv [OF assms] by blast
  then have m: "main_ok val (st_i s) (st_main s) (sl_place (st_ping s) 0) (sl_place (st_this s) 0) (length P) (length (sl_removed (st_this s)))"
    and h: "helper_ok val (st_j s) (st_helper s) (sl_place (st_ping s) 1) (sl_place (st_this s) 1) (length (sl_removed (st_ping s))) (length T)"
    and out: "\<forall>t > 1. sl_place (st_ping s) t = Outside \<and> sl_place (st_this s) t = Outside"
    and inv: "sl_inv (st_ping s) P" "sl_inv (st_this s) T" by (auto simp add: test_inv_def sl_reach_inv)
  have P: "P = sl_removed (st_ping s) @ sl_list (st_ping s)" and T: "T = sl_removed (st_this s) @ sl_list (st_this s)" using inv unfolding sl_inv_def by blast+
  have fin: "st_i s = 10 \<and> st_j s = 10 \<and> sl_list (st_this s) = [] \<and> sl_list (st_ping s) = []" if no: "SelfTest_step val s = None" "SelfTestHelper_step s = None"
  proof -
    have o: "SynchList_step t l = None" if "sl_place l t = Outside" for t and l :: "'a synch_list" using that by (simp add: SynchList_step_def)
    have s0: "SynchList_step 0 (st_ping s) = None" "SynchList_step 0 (st_this s) = None" using no(1) m o
      by (auto simp add: SelfTest_step_def main_ok_def split: test_phase.splits if_splits)
    have s1: "SynchList_step 1 (st_ping s) = None" "SynchList_step 1 (st_this s) = None" using no(2) h o
      by (auto simp add: SelfTestHelper_step_def helper_ok_def split: test_phase.splits if_splits)
    have t3: "t = 0 \<or> t = 1 \<or> t > 1" for t :: nat by arith
    have all: "\<forall>t. SynchList_step t (st_ping s) = None" "\<forall>t. SynchList_step t (st_this s) = None" using s0 s1 o out t3 by metis+
    note ping = sl_stuck [OF inv(1) all(1)] and test = sl_stuck [OF inv(2) all(2)]
    have M: "st_main s = At_loop \<and> st_i s = 10 \<or> st_main s = In_this \<and> sl_list (st_this s) = [] \<and> length (sl_removed (st_this s)) = st_i s"
      using m no(1) ping [of 0] test [of 0] by (auto simp add: main_ok_def SelfTest_step_def split: test_phase.splits if_splits)
    have H: "st_helper s = At_loop \<and> st_j s = 10 \<or> st_helper s = In_ping \<and> sl_list (st_ping s) = [] \<and> length (sl_removed (st_ping s)) = st_j s"
      using h no(2) ping [of 1] test [of 1] by (auto simp add: helper_ok_def SelfTestHelper_step_def split: test_phase.splits if_splits)
    show ?thesis using M H m h P T by (auto simp add: main_ok_def helper_ok_def)
  qed
  have "SelfTest_step val s \<noteq> Some (Inl e)" "SelfTestHelper_step s \<noteq> Some (Inl e)" using main_step_ok [OF i, of "Inl e"] helper_step_ok [OF i, of "Inl e"] by auto
  then show ?thesis using fin by blast
qed

end
