(* ===== verification/Spec2Isabelle.thy ===== *)
theory Spec2Isabelle
  imports HashTable Kernel Join_Exit Isolation Disk_Mount Coff2noff Network Synch_Disk Console_Device User_Programs Water_Taps SynchList
begin

text \<open>
  \<^bold>\<open>NachOS 4.0 with multiprogramming.\<close>  The sources are under \<^verbatim>\<open>src/project/nachos/NachOS-4.0\<close>; paths below are relative to it.

  NachOS is an operating system kernel that runs as a process of the host, on top of a simulated MIPS machine.  A user program is loaded from a NOFF file into an
  address space (\<^verbatim>\<open>code/userprog/addrspace.cc\<close>) and executed instruction by instruction (\<^verbatim>\<open>code/machine/mipssim.cc\<close>), through the page table
  (\<^verbatim>\<open>code/machine/translate.cc\<close>).  A system call or a fault enters \<open>ExceptionHandler\<close> (\<^verbatim>\<open>code/userprog/exception.cc\<close>), which calls the console, the
  file system, the semaphore table (\<^verbatim>\<open>code/threads/stable.cc\<close>) and the process table (\<^verbatim>\<open>code/threads/ptable.cc\<close>, \<^verbatim>\<open>pcb.cc\<close>).  Below them are
  threads, the scheduler, semaphores, locks and condition variables (\<^verbatim>\<open>code/threads\<close>), simulated time and interrupts (\<^verbatim>\<open>code/machine/interrupt.cc\<close>),
  and the classes of \<^verbatim>\<open>code/lib\<close>.  The system is built with \<^verbatim>\<open>FILESYS_STUB\<close>, where files are files of the host; the file system on a simulated disk is the alternative
  build.  The post office (\<^verbatim>\<open>code/network\<close>) sends messages between several such machines, and \<^verbatim>\<open>coff2noff\<close> makes NOFF files from the output of the
  compiler.  The host is a little-endian machine with 32-bit integers.

  \<^bold>\<open>Conventions.\<close>  A method \<open>C::m\<close> is the definition \<open>C_m\<close>.  A routine that can abort, or do what C++ leaves undefined, returns \<open>'a res\<close>, with the failure as \<open>Inl\<close>
  (\<^verbatim>\<open>NachOS_Prelude\<close>); a loop of the code is a recursive function named after the routine (\<open>_loop\<close>), or \<open>foldE\<close>.  State is passed explicitly: a class is a record,
  a pointer that can be shared is an address in an explicit store.  Integers are words where the code can wrap around, and \<open>int\<close> where the arguments keep the code away
  from the bounds; the comments of the theories say where.  What the code does not initialise is a parameter, often \<open>junk\<close>.

  \<^bold>\<open>Library.\<close>
  \<^verbatim>\<open>NachOS_Prelude\<close>: failures, checked arrays, loops, the macros of \<^verbatim>\<open>utility.h\<close>.
  \<^verbatim>\<open>Slot_Map\<close>: the contract of an allocator of numbered slots (locale \<open>slot_map\<close>), with what clients need of loops of allocations.
  \<^verbatim>\<open>Bitmap\<close> interprets it on the bit array of \<^verbatim>\<open>lib/bitmap.cc\<close>; address spaces, the process table, the semaphore table and the disk use it.
  \<^verbatim>\<open>NachOS_List\<close>: linked and sorted lists over a store of elements; any sequence of calls behaves as on a list of items.
  \<^verbatim>\<open>HashTable\<close>: the hash table with resizing and iterators, and the self test of the library.

  \<^bold>\<open>Machine.\<close>
  \<^verbatim>\<open>Machine\<close>: registers, memory, \<open>Translate\<close>, \<open>ReadMem\<close>, \<open>WriteMem\<close>.
  \<^verbatim>\<open>Mips\<close>: decoding and all instructions with delayed loads and branches.  Proved: one instruction reaches no assertion of the simulator and writes only frames of its own
  page table, and the simulator ends by a trap of the host only for the division of the least integer by -1;
  arithmetic, multiplication and unaligned loads against their mathematical meaning.
  \<^verbatim>\<open>Interrupt\<close>: pending interrupts, ticks, the timer.  \<open>CheckIfDue\<close> fires what is due in order.

  \<^bold>\<open>Kernel.\<close>
  \<^verbatim>\<open>Threads\<close>, \<^verbatim>\<open>Synch\<close>: threads, context switches, semaphores, locks and conditions, as steps on a kernel state in which every thread has a stack of
  what it still has to do; a step is what happens with interrupts off.  \<^verbatim>\<open>Sched_Inv\<close>, \<^verbatim>\<open>Wakeup\<close>, \<^verbatim>\<open>Kernel\<close>: the reachable states.  Each thread is in one place,
  no wake-up is lost, a lock has one holder.
  \<^verbatim>\<open>AddrSpace\<close>: \<open>Load\<close>, \<open>Execute\<close>, the destructor; a loaded program has its own frames and reads its image.
  \<^verbatim>\<open>Console_IO\<close>, \<^verbatim>\<open>Host_Files\<close>, \<^verbatim>\<open>Processes\<close>, \<^verbatim>\<open>SemTable\<close>, \<^verbatim>\<open>ProcTable\<close>: the services behind the system calls.
  \<^verbatim>\<open>Join_Exit\<close>: the process table under any interleaving of \<open>Exec\<close>, \<open>Join\<close>, \<open>Exit\<close> and file calls, each split where it waits; what becomes of a process that sleeps in a deleted semaphore is part of the state.
  \<^verbatim>\<open>Syscalls\<close>: \<open>ExceptionHandler\<close>.  \<^verbatim>\<open>Isolation\<close>: the whole system of several processes, as a step relation on the kernel of \<^verbatim>\<open>Synch\<close>: \<open>Machine::Run\<close> of every thread,
  with system calls, clock ticks, interrupts, context switches and the start of programs; no step of one process changes what another one sees.

  \<^bold>\<open>The file system on the disk.\<close>
  \<^verbatim>\<open>Disk\<close>: the simulated disk over a file of the host, its latency, and the contract of a block device (locale \<open>block_device\<close>), interpreted on \<open>ReadSector\<close> and
  \<open>WriteSector\<close>.  \<^verbatim>\<open>Disk_File\<close>: file headers and open files; a file is a sequence of bytes.  \<^verbatim>\<open>Directory\<close>: the directory and the free map in their files.
  \<^verbatim>\<open>Disk_FS\<close>, \<^verbatim>\<open>Disk_Mount\<close>: creating, opening, removing, formatting.  The invariant \<open>fs_inv\<close> says that the files, the directory and the free map share no sector and that the map
  marks exactly the sectors in use; \<open>fs_files\<close> is the abstract file system, a map from names to bytes, which every operation refines.

  \<^bold>\<open>Executables and the network.\<close>
  \<^verbatim>\<open>Coff2noff\<close>: the converter \<^verbatim>\<open>coff2noff/coff2noff.c\<close>; what it writes is what \<open>AddrSpace::Load\<close> reads.
  \<^verbatim>\<open>Network\<close>: the network devices (\<^verbatim>\<open>code/machine/network.cc\<close>) and the post office (\<^verbatim>\<open>code/network/post.cc\<close>) of several machines, with routines cut where they
  wait and the reachable states as an inductive predicate.  Messages that the network does not drop arrive once, in order and intact, and no assertion fails.

  \<^bold>\<open>Drivers and synchronized lists.\<close>  \<^verbatim>\<open>Synch_Driver\<close>: the contract of a routine that takes a lock, starts a request on a device and waits for its interrupt (locale \<open>synch_driver\<close>).
  \<^verbatim>\<open>Console_Device\<close> (\<^verbatim>\<open>code/machine/console.cc\<close>, \<^verbatim>\<open>code/userprog/synchconsole.cc\<close>) and \<^verbatim>\<open>Synch_Disk\<close> (\<^verbatim>\<open>code/filesys/synchdisk.cc\<close>)
  interpret it; characters come in order, and the calls on the disk behave as if each happened at once, which is how \<^verbatim>\<open>Console_IO\<close> and \<^verbatim>\<open>Disk\<close> take them.
  \<^verbatim>\<open>SynchList\<close> (\<^verbatim>\<open>code/threads/synchlist.cc\<close>): the list behind a lock and a condition variable; items come out in order, and no wake-up is lost; the self test
  of the class passes in every interleaving of its two threads.

  \<^bold>\<open>User programs.\<close>  \<^verbatim>\<open>User_Files\<close>: reading and writing of numbers in files (\<^verbatim>\<open>code/test/fileutils.h\<close>, \<^verbatim>\<open>main.c\<close>, \<^verbatim>\<open>student.c\<close>), over the file calls of
  \<^verbatim>\<open>Processes\<close>.  \<^verbatim>\<open>User_Programs\<close>: \<^verbatim>\<open>sort.c\<close> over the console calls of \<^verbatim>\<open>Console_IO\<close>, and \<^verbatim>\<open>matmult.c\<close>.
  \<^verbatim>\<open>Water_Taps\<close>: the processes \<^verbatim>\<open>main_1.c\<close>, \<^verbatim>\<open>pipe.c\<close> and \<^verbatim>\<open>student_1.c\<close>, which share two taps by files and semaphores, in every interleaving; the numbers in the files
  are read and written as in \<^verbatim>\<open>User_Files\<close>.  No tap is shared, nobody waits for ever, and the answers are right, for numbers of one digit.

  \<^bold>\<open>Bounds and fuel.\<close>  The endless loop of \<open>Machine::Run\<close> is a sequence of steps of any length.  The steps of the kernel, of the whole system and of the process
  table are relations, with the reachable states as inductive predicates.  Walks through linked lists have the number of cells of the store as fuel, which is
  proved to be enough.  \<open>ReadInt\<close> has the number of characters left as fuel, which is proved to be enough.  All other loops are total functions.

  \<^bold>\<open>Not modelled.\<close>  Output for debugging and the interactive debugger; the assembly of \<^verbatim>\<open>switch.S\<close>, which \<open>Scheduler_Run\<close> represents by what it exchanges; \<^verbatim>\<open>main.cc\<close> but for the start of the first program;
  system calls that wait, and \<open>Exit\<close>, within the runs of \<^verbatim>\<open>Isolation\<close> (\<^verbatim>\<open>Join_Exit\<close> has their interleavings on the process table); the programs of
  \<^verbatim>\<open>code/test\<close> that are only a few system calls; the tools and headers under \<^verbatim>\<open>usr/local\<close>.  The clock \<open>totalTicks\<close>, the values of semaphores and the sum of a file position and
  a length are integers without a bound, so what the code does when one of them exceeds 2147483647 is not covered.  In \<^verbatim>\<open>Disk\<close> a request is complete when the next
  operation of the calling thread starts; \<^verbatim>\<open>Synch_Disk\<close> shows that the calls of several threads behave in this way.
\<close>

end
